(* ===== verification/Prelude.thy ===== *)
theory Prelude
  imports Main "HOL-Library.Word" "HOL-Library.Monad_Syntax"
begin

text \<open>
  Shared vocabulary of the development: the fixed-width integers of
  \<^verbatim>\<open>dev/stdtypes.h\<close>, the execution monad, byte memory, and the generic
  facts on words and lists that the component theories rewrite with.

  A C function is modelled as a function into \<open>'a option\<close>. \<open>None\<close> stands for a run
  that does not come back: a failed \<open>ASSERT\<close>, \<open>UNREACHABLE\<close> or \<open>panic\<close>
  (\<^verbatim>\<open>dev/assert.h\<close>, a debug build), an access outside the bounds of an object, or a
  loop that never ends. A run that comes back with an error code is an ordinary value.
\<close>

section \<open>Machine integers\<close>

type_synonym u8 = "8 word"
type_synonym u16 = "16 word"
type_synonym u32 = "32 word"
type_synonym u64 = "64 word"

named_theorems wnat \<open>reading comparisons and division of words as facts on their values\<close>

lemmas word_nat_facts [wnat] = word_less_nat_alt word_le_nat_alt unat_mod_distrib unat_div_distrib

lemma u32_less_bound [simp]: "unat (x :: u32) < 4294967296"
  using unsigned_less [of x] by simp

lemma u32_le_bound [simp]: "unat (x :: u32) \<le> 4294967295"
  using u32_less_bound [of x] by linarith

lemma u64_less_bound [simp]: "unat (x :: u64) < 18446744073709551616"
  using unsigned_less [of x] by simp

lemma u32_add_nat [simp]:
  "unat a + unat b < 4294967296 \<Longrightarrow> unat (a + b :: u32) = unat a + unat b"
  using unat_add_lem [of a b] by simp

lemma u32_inc: "i < lim \<Longrightarrow> unat (i + 1 :: u32) = unat i + 1"
proof -
  assume "i < lim"
  then have "unat i + 1 < 4294967296"
    by (intro le_less_trans [OF _ u32_less_bound [of lim]]) (simp add: word_less_nat_alt)
  then show ?thesis by (subst u32_add_nat) simp_all
qed

lemma u32_sub_nat [simp]:
  "unat b \<le> unat a \<Longrightarrow> unat (a - b :: u32) = unat a - unat b"
  by (simp add: unat_sub word_le_nat_alt)

lemma u32_mult_nat [simp]:
  "unat a * unat b < 4294967296 \<Longrightarrow> unat (a * b :: u32) = unat a * unat b"
  using unat_mult_lem [of a b] by simp

lemma u32_add_wraps: "unat (a + b :: u32) = (unat a + unat b) mod 4294967296"
  by (simp add: unat_word_ariths)

lemma u32_mult_wraps: "unat (a * b :: u32) = (unat a * unat b) mod 4294967296"
  by (simp add: unat_word_ariths)

lemma u64_add_nat [simp]:
  "unat a + unat b < 18446744073709551616 \<Longrightarrow> unat (a + b :: u64) = unat a + unat b"
  using unat_add_lem [of a b] by simp

lemma u64_sub_nat [simp]:
  "unat b \<le> unat a \<Longrightarrow> unat (a - b :: u64) = unat a - unat b"
  by (simp add: unat_sub word_le_nat_alt)

lemma u64_mult_nat: "unat a * unat b < 18446744073709551616 \<Longrightarrow> unat (a * b :: u64) = unat a * unat b"
  using unat_mult_lem [of a b] by simp

lemma unat_u16: "unat (ucast (w :: u16) :: u32) = unat w"
proof -
  have "unat w < 65536" using unsigned_less [of w] by simp
  then show ?thesis by (simp add: unsigned_ucast_eq take_bit_nat_eq_self)
qed

lemma unat_min_u32 [simp]: "unat (min a b :: u32) = min (unat a) (unat b)"
  by (auto simp: min_def word_le_nat_alt)

lemma u32_eq_nat: "(a = (b :: u32)) = (unat a = unat b)"
  by (simp add: word_unat_eq_iff)

lemma uint_less_of_unat: "unat (w :: 'a::len word) < n \<Longrightarrow> uint w < int n"
  by (simp flip: of_nat_less_iff [where 'a = int])

text \<open>A count that fits, as a word.\<close>

definition u32_of :: "nat \<Rightarrow> u32" where
  "u32_of n = word_of_nat n"

lemma unat_u32_of [simp]: "n < 4294967296 \<Longrightarrow> unat (u32_of n) = n"
  by (simp add: u32_of_def unat_of_nat)

lemma unat_u32_of_mod [simp]:
  "0 < unat (c :: u32) \<Longrightarrow> unat (u32_of (n mod unat c)) = n mod unat c"
  by (rule unat_u32_of) (metis mod_less_divisor order_less_trans u32_less_bound)

lemma u32_of_unat [simp]: "u32_of (unat x) = x"
  by (simp add: u32_of_def)

lemma mod_wrap: "(a::nat) < c \<Longrightarrow> n \<le> c \<Longrightarrow> (a + n) mod c = (if a + n < c then a + n else a + n - c)"
  by (auto simp: le_mod_geq)

lemma u32_add_mod:
  "unat a + unat b < 4294967296 \<Longrightarrow> (a + b) mod c = u32_of ((unat a + unat b) mod unat (c :: u32))"
proof -
  assume fits: "unat a + unat b < 4294967296"
  have "(unat a + unat b) mod unat c < 4294967296"
    by (rule le_less_trans [OF mod_less_eq_dividend fits])
  then show ?thesis
    using fits by (simp add: u32_eq_nat unat_mod_distrib)
qed

lemma u32_fits: "n \<le> unat (c :: u32) \<Longrightarrow> n < 4294967296"
  using u32_less_bound [of c] by linarith

lemma u32_add_mod_nat:
  "unat a + unat b < 4294967296 \<Longrightarrow>
   unat ((a + b) mod c) = (unat a + unat b) mod unat (c :: u32)"
  by (simp add: unat_mod_distrib)

section \<open>Execution\<close>

definition ASSERT :: "bool \<Rightarrow> unit option" where
  "ASSERT b = (if b then Some () else None)"

text \<open>\<open>UNREACHABLE ()\<close>, \<open>crash ()\<close> and \<open>panic (msg)\<close> end the process.\<close>

definition UNREACHABLE :: "'a option" where
  "UNREACHABLE = None"

lemma bind_ASSERT [simp]: "Option.bind (ASSERT b) f = (if b then f () else None)"
  by (simp add: ASSERT_def)

lemma ASSERT_Some [simp]: "ASSERT b = Some u \<longleftrightarrow> b"
  by (simp add: ASSERT_def)

lemma bind_Some_iff: "Option.bind m f = Some y \<longleftrightarrow> (\<exists>x. m = Some x \<and> f x = Some y)"
  by (cases m) auto

section \<open>Byte memory\<close>

text \<open>
  An object is the list of its bytes. \<open>memcpy (dst, src + off, n)\<close> loads \<open>n\<close> bytes and
  stores them; both sides stay inside their objects or the run is undefined (\<open>None\<close>).
\<close>

definition mem_load :: "'a list \<Rightarrow> nat \<Rightarrow> nat \<Rightarrow> 'a list option" where
  "mem_load m off n = (if off + n \<le> length m then Some (take n (drop off m)) else None)"

definition mem_store :: "'a list \<Rightarrow> nat \<Rightarrow> 'a list \<Rightarrow> 'a list option" where
  "mem_store m off bs =
     (if off + length bs \<le> length m
      then Some (take off m @ bs @ drop (off + length bs) m) else None)"

lemma mem_load_ok [simp]:
  "off + n \<le> length m \<Longrightarrow> mem_load m off n = Some (take n (drop off m))"
  by (simp add: mem_load_def)

lemma mem_load_Some:
  "mem_load m off n = Some bs \<longleftrightarrow> off + n \<le> length m \<and> bs = take n (drop off m)"
  by (auto simp: mem_load_def)

definition overwrite :: "'a list \<Rightarrow> nat \<Rightarrow> 'a list \<Rightarrow> 'a list" where
  "overwrite m off bs = take off m @ bs @ drop (off + length bs) m"

lemma mem_store_ok [simp]:
  "off + length bs \<le> length m \<Longrightarrow> mem_store m off bs = Some (overwrite m off bs)"
  by (simp add: mem_store_def overwrite_def)

lemma mem_store_Some:
  "mem_store m off bs = Some m' \<longleftrightarrow> off + length bs \<le> length m \<and> m' = overwrite m off bs"
  by (auto simp: mem_store_def overwrite_def)

lemma length_overwrite [simp]:
  "off + length bs \<le> length m \<Longrightarrow> length (overwrite m off bs) = length m"
  by (simp add: overwrite_def)

lemma overwrite_Nil [simp]: "overwrite m off [] = m"
  by (simp add: overwrite_def)

lemma nth_overwrite:
  "off + length bs \<le> length m \<Longrightarrow> i < length m \<Longrightarrow>
   overwrite m off bs ! i = (if off \<le> i \<and> i < off + length bs then bs ! (i - off) else m ! i)"
  by (auto simp: overwrite_def nth_append min_def)

lemma take_overwrite_eq [simp]: "off \<le> length m \<Longrightarrow> n \<le> off \<Longrightarrow> take n (overwrite m off bs) = take n m"
  by (simp add: overwrite_def min_def)

lemma take_overwrite_full:
  "off + length bs \<le> length m \<Longrightarrow> take (off + length bs) (overwrite m off bs) = take off m @ bs"
  by (simp add: overwrite_def)

lemma drop_overwrite_eq [simp]:
  "off + length bs \<le> n \<Longrightarrow> n \<le> length m \<Longrightarrow> drop n (overwrite m off bs) = drop n m"
  by (simp add: overwrite_def)

lemma take_split: "m \<le> n \<Longrightarrow> take n xs = take m xs @ take (n - m) (drop m xs)"
  by (metis le_add_diff_inverse take_add)

lemma overwrite_overwrite:
  "off + length as + length bs \<le> length m \<Longrightarrow>
   overwrite (overwrite m off as) (off + length as) bs = overwrite m off (as @ bs)"
  by (simp add: overwrite_def ac_simps)

lemma take_overwrite_within:
  "off + length bs \<le> n \<Longrightarrow> n \<le> length m \<Longrightarrow> take n (overwrite m off bs) = overwrite (take n m) off bs"
  by (rule nth_equalityI) (auto simp: nth_overwrite)

lemma next_block: "(j :: nat) < k \<Longrightarrow> j * sz + sz \<le> k * sz"
  by (metis Suc_leI add.commute mult_Suc mult_le_mono1)

section \<open>Formatted numbers\<close>

text \<open>The conversions \<open>%u\<close> and \<open>%d\<close> of \<open>printf\<close>, on 32-bit arguments.\<close>

definition digit_char :: "nat \<Rightarrow> char" where
  "digit_char d = char_of (48 + d)"

fun dec :: "nat \<Rightarrow> string" where
  "dec n = (if n < 10 then [digit_char n] else dec (n div 10) @ [digit_char (n mod 10)])"

declare dec.simps [simp del]

definition fmt_u :: "u32 \<Rightarrow> string" where
  "fmt_u w = dec (unat w)"

definition fmt_d :: "u32 \<Rightarrow> string" where
  "fmt_d w = (if sint w < 0 then ''-'' @ dec (nat (- sint w)) else dec (nat (sint w)))"

text \<open>The conversion of a result to \<open>i32\<close>.\<close>

definition as_i32 :: "int \<Rightarrow> int" where
  "as_i32 x = sint (word_of_int x :: u32)"

lemma as_i32_small: "0 \<le> x \<Longrightarrow> x < 2147483648 \<Longrightarrow> as_i32 x = x"
proof -
  assume x: "0 \<le> x" "x < 2147483648"
  then have "uint (word_of_int x :: u32) = x" by (simp add: uint_word_of_int_eq take_bit_int_eq_self)
  then show ?thesis using x by (simp add: as_i32_def sint_uint signed_take_bit_int_eq_self)
qed

end
