(* ===== verification/Cerror.thy ===== *)
theory Cerror
  imports Prelude
begin

text \<open>
  The error object of \<^verbatim>\<open>dev/error.h\<close> and \<^verbatim>\<open>dev/error.c\<close>: an error code with the
  message of the first failure, threaded through every fallible call. Logging to the
  standard error stream is not modelled; the text that \<open>vsnprintf\<close> produces is an
  argument of the operations.
\<close>

section \<open>Error codes and state\<close>

type_synonym err_t = int

definition SUCCESS :: err_t where "SUCCESS = 0"
definition ERR_IO :: err_t where "ERR_IO = -1"
definition ERR_NOMEM :: err_t where "ERR_NOMEM = -2"
definition ERR_ARITH :: err_t where "ERR_ARITH = -3"
definition ERR_CORRUPT :: err_t where "ERR_CORRUPT = -4"
definition ERR_INVALID_ARGUMENT :: err_t where "ERR_INVALID_ARGUMENT = -5"

lemmas err_codes = SUCCESS_def ERR_IO_def ERR_NOMEM_def ERR_ARITH_def ERR_CORRUPT_def
  ERR_INVALID_ARGUMENT_def

record error =
  cause_code :: err_t
  cause_msg :: string
  cmlen :: nat
  disable_log :: bool

text \<open>An \<open>error *\<close> argument, which some callers pass as \<open>NULL\<close>.\<close>

type_synonym errp = "error option"

definition error_dbg :: "error \<Rightarrow> bool" where
  "error_dbg e \<longleftrightarrow> (cause_code e \<noteq> SUCCESS \<longrightarrow> 0 < cmlen e)"

section \<open>Operations\<close>

definition error_create :: error where
  "error_create = \<lparr>cause_code = SUCCESS, cause_msg = [], cmlen = 0, disable_log = False\<rparr>"

definition error_silence :: "error \<Rightarrow> error" where
  "error_silence e = e\<lparr>disable_log := True\<rparr>"

definition error_unsilence :: "error \<Rightarrow> error" where
  "error_unsilence e = e\<lparr>disable_log := False\<rparr>"

definition error_causef :: "errp \<Rightarrow> err_t \<Rightarrow> string \<Rightarrow> errp \<times> err_t" where
  "error_causef e c msg =
     (case e of
        None \<Rightarrow> (None, c)
      | Some er \<Rightarrow>
          let len = min (length msg) 255 in
          if cause_code er = SUCCESS
          then (Some (er\<lparr>cause_msg := take len msg, cause_code := c, cmlen := len\<rparr>), c)
          else (Some er, c))"

text \<open>
  \<open>error_trace (e)\<close> reads the pending code; with a failure pending it goes through
  \<open>error_causef\<close>, which then only logs. A null \<open>e\<close> is dereferenced.
\<close>

definition error_trace :: "errp \<Rightarrow> err_t option" where
  "error_trace e =
     (case e of
        None \<Rightarrow> None
      | Some er \<Rightarrow>
          Some (if cause_code er < 0 then snd (error_causef e (cause_code er) [])
                else cause_code er))"

definition error_change_causef_from :: "errp \<Rightarrow> err_t \<Rightarrow> err_t \<Rightarrow> string \<Rightarrow> (errp \<times> err_t) option" where
  "error_change_causef_from e from to msg =
     do {
       e' \<leftarrow> (case e of
                None \<Rightarrow> Some None
              | Some er \<Rightarrow>
                  do {
                    ASSERT (error_dbg er);
                    Some (Some (if cause_code er = from
                                then er\<lparr>cause_code := to, cause_msg := take 255 msg,
                                        cmlen := min (length msg) 255\<rparr>
                                else er))
                  });
       c \<leftarrow> error_trace e';
       Some (e', c)
     }"

definition error_change_causef :: "errp \<Rightarrow> err_t \<Rightarrow> string \<Rightarrow> (errp \<times> err_t) option" where
  "error_change_causef e c msg =
     (case e of
        None \<Rightarrow> None
      | Some er \<Rightarrow>
          do {
            ASSERT (error_dbg er);
            ASSERT (cause_code er \<noteq> SUCCESS);
            Some (Some (er\<lparr>cause_code := c, cause_msg := take 255 msg,
                           cmlen := min (length msg) 255\<rparr>), c)
          })"

definition error_log_consume :: "error \<Rightarrow> error option" where
  "error_log_consume e =
     do {
       ASSERT (error_dbg e);
       ASSERT (cause_code e \<noteq> SUCCESS);
       Some (e\<lparr>cmlen := 0, cause_code := SUCCESS\<rparr>)
     }"

definition err_t_perror :: "error \<Rightarrow> error" where
  "err_t_perror e = e\<lparr>cause_code := SUCCESS, cmlen := 0\<rparr>"

text \<open>\<open>strncmp (a, b, n) == 0\<close> on strings held as their bytes up to the terminator.\<close>

definition strncmp_eq :: "string \<Rightarrow> string \<Rightarrow> nat \<Rightarrow> bool" where
  "strncmp_eq a b n \<longleftrightarrow> take n a = take n b"

definition error_equal :: "error \<Rightarrow> error \<Rightarrow> bool option" where
  "error_equal l r =
     do {
       ASSERT (error_dbg l);
       ASSERT (error_dbg r);
       if cause_code l \<noteq> cause_code r then Some False
       else if cause_code l \<noteq> 0
       then (if cmlen l \<noteq> cmlen r then Some False
             else Some (strncmp_eq (cause_msg l) (cause_msg r) (cmlen l)))
       else Some True
     }"

section \<open>Facts\<close>

text \<open>A message record is well-formed when its length field is the stored length.\<close>

definition error_wf :: "error \<Rightarrow> bool" where
  "error_wf e \<longleftrightarrow> cmlen e \<le> 255 \<and> cmlen e \<le> length (cause_msg e) \<and> error_dbg e"

lemma error_trace_pending [simp]: "error_trace (Some er) = Some (cause_code er)"
  by (simp add: error_trace_def error_causef_def)

lemma error_trace_null [simp]: "error_trace None = None"
  by (simp add: error_trace_def)

lemma error_causef_code [simp]: "snd (error_causef e c msg) = c"
  by (auto simp: error_causef_def Let_def split: option.splits)

lemma error_causef_pending [simp]:
  "cause_code er \<noteq> SUCCESS \<Longrightarrow> error_causef (Some er) c msg = (Some er, c)"
  by (simp add: error_causef_def)

lemma error_causef_fresh:
  "cause_code er = SUCCESS \<Longrightarrow>
   error_causef (Some er) c msg =
     (Some (er\<lparr>cause_msg := take 255 msg, cause_code := c, cmlen := min (length msg) 255\<rparr>), c)"
  by (simp add: error_causef_def Let_def min_def)

text \<open>The state after a list of failures reported on the same object, in order.\<close>

fun error_causes :: "errp \<Rightarrow> (err_t \<times> string) list \<Rightarrow> errp" where
  "error_causes e [] = e"
| "error_causes e ((c, msg) # cs) = error_causes (fst (error_causef e c msg)) cs"

lemma error_causes_pending:
  "cause_code er \<noteq> SUCCESS \<Longrightarrow> error_causes (Some er) cs = Some er"
  by (induction cs) auto

lemma error_causef_wf:
  "error_wf er \<Longrightarrow> (c \<noteq> SUCCESS \<longrightarrow> msg \<noteq> []) \<Longrightarrow>
   \<exists>er'. fst (error_causef (Some er) c msg) = Some er' \<and> error_wf er'"
  by (cases "cause_code er = SUCCESS")
     (auto simp: error_causef_fresh error_wf_def error_dbg_def min_def)

text \<open>
  The first cause wins: after any sequence of failures reported on a fresh error object,
  \<open>error_trace\<close> returns the code of the first one, and the object holds its message
  cut to 255 bytes; later failures change nothing.
\<close>

theorem error_first_cause_wins:
  assumes "c \<noteq> SUCCESS"
  shows "\<exists>er. error_causes (Some error_create) ((c, msg) # cs) = Some er \<and>
           error_trace (Some er) = Some c \<and>
           cause_msg er = take 255 msg \<and> cmlen er = min (length msg) 255"
  using assms
  by (simp add: error_causef_fresh error_create_def error_causes_pending)

theorem error_first_cause_wins_witness:
  "\<exists>er. error_causes (Some error_create) [(ERR_IO, ''pread''), (ERR_CORRUPT, ''x'')] = Some er \<and>
     error_trace (Some er) = Some ERR_IO \<and>
     cause_msg er = take 255 ''pread'' \<and> cmlen er = min (length ''pread'') 255"
  by (rule error_first_cause_wins [of ERR_IO]) (simp add: err_codes)

end
