(* ===== verification/Osmem.thy ===== *)
theory Osmem
  imports Cerror
begin

text \<open>
  The heap wrappers of \<^verbatim>\<open>intf/os/memory.c\<close> and the checked arithmetic they use from
  \<^verbatim>\<open>dev/bounds.h\<close>. The C library's allocator is a parameter: a record of the
  functions the wrappers call. A heap object is the list of its bytes and the null
  pointer is \<open>None\<close>. \<open>libc_ok\<close> states what the C standard promises of the allocator.
\<close>

section \<open>Checked arithmetic\<close>

definition safe_add_u32 :: "u32 \<Rightarrow> u32 \<Rightarrow> u32 option" where
  "safe_add_u32 a b = (if unat a + unat b < 2 ^ 32 then Some (a + b) else None)"

definition safe_mul_u32 :: "u32 \<Rightarrow> u32 \<Rightarrow> u32 option" where
  "safe_mul_u32 a b = (if unat a * unat b < 2 ^ 32 then Some (a * b) else None)"

definition safe_add_u64_err :: "u64 \<Rightarrow> u64 \<Rightarrow> errp \<Rightarrow> (u64 option \<times> errp \<times> err_t)" where
  "safe_add_u64_err a b e =
     (if unat a + unat b < 2 ^ 64 then (Some (a + b), e, SUCCESS)
      else (case error_causef e ERR_ARITH ''Overflow'' of (e', c) \<Rightarrow> (None, e', c)))"

text \<open>The same tests on integers, for evaluation.\<close>

lemma safe_arith_int [code]:
  "safe_add_u32 a b = (if uint a + uint b < 4294967296 then Some (a + b) else None)"
  "safe_mul_u32 a b = (if uint a * uint b < 4294967296 then Some (a * b) else None)"
proof -
  have "unat a + unat b < 2 ^ 32 \<longleftrightarrow> uint a + uint b < 4294967296"
    by (simp flip: of_nat_less_iff [where 'a = int])
  then show "safe_add_u32 a b = (if uint a + uint b < 4294967296 then Some (a + b) else None)"
    by (simp add: safe_add_u32_def)
  have "unat a * unat b < 2 ^ 32 \<longleftrightarrow> uint a * uint b < 4294967296"
    by (simp flip: of_nat_less_iff [where 'a = int])
  then show "safe_mul_u32 a b = (if uint a * uint b < 4294967296 then Some (a * b) else None)"
    by (simp add: safe_mul_u32_def)
qed

lemma safe_mul_u32_Some:
  "safe_mul_u32 a b = Some c \<longleftrightarrow> unat a * unat b < 4294967296 \<and> c = a * b"
  by (auto simp: safe_mul_u32_def)

lemma safe_mul_u32_None: "safe_mul_u32 a b = None \<longleftrightarrow> 4294967296 \<le> unat a * unat b"
  by (auto simp: safe_mul_u32_def)

section \<open>The C allocator\<close>

record libc =
  lc_malloc :: "nat \<Rightarrow> u8 list option"
  lc_calloc :: "nat \<Rightarrow> nat \<Rightarrow> u8 list option"
  lc_realloc :: "u8 list option \<Rightarrow> nat \<Rightarrow> u8 list option"
  lc_enomem :: bool
  lc_strerror :: string

definition libc_ok :: "libc \<Rightarrow> bool" where
  "libc_ok os \<longleftrightarrow>
     (\<forall>n bs. lc_malloc os n = Some bs \<longrightarrow> length bs = n) \<and>
     (\<forall>n s bs. lc_calloc os n s = Some bs \<longrightarrow> bs = replicate (n * s) 0) \<and>
     (\<forall>p n bs. lc_realloc os p n = Some bs \<longrightarrow> length bs = n \<and>
        (\<forall>old. p = Some old \<longrightarrow> take (min (length old) n) bs = take (min (length old) n) old))"

text \<open>An allocator that always has room, with fresh memory reading as 170.\<close>

definition libc_ample :: libc where
  "libc_ample =
     \<lparr>lc_malloc = (\<lambda>n. Some (replicate n 170)),
      lc_calloc = (\<lambda>n s. Some (replicate (n * s) 0)),
      lc_realloc = (\<lambda>p n. case p of
          None \<Rightarrow> Some (replicate n 170)
        | Some old \<Rightarrow> Some (take n old @ replicate (n - length old) 170)),
      lc_enomem = False, lc_strerror = []\<rparr>"

definition libc_empty :: libc where
  "libc_empty =
     \<lparr>lc_malloc = (\<lambda>_. None), lc_calloc = (\<lambda>_ _. None), lc_realloc = (\<lambda>_ _. None),
      lc_enomem = True, lc_strerror = ''Cannot allocate memory''\<rparr>"

text \<open>
  An allocator that never refuses, which the C library does not promise: where an operation
  gives up for want of memory, the allocator was not of this kind.
\<close>

definition libc_total :: "libc \<Rightarrow> bool" where
  "libc_total os \<longleftrightarrow> (\<forall>n. lc_malloc os n \<noteq> None) \<and> (\<forall>p n. lc_realloc os p n \<noteq> None)"

lemma libc_total_ample [simp]: "libc_total libc_ample"
  by (auto simp: libc_total_def libc_ample_def split: option.split)

lemma libc_ok_ample [simp]: "libc_ok libc_ample"
  by (auto simp: libc_ok_def libc_ample_def min_def split: option.splits)

lemma libc_ok_empty [simp]: "libc_ok libc_empty"
  by (simp add: libc_ok_def libc_empty_def)

lemma lc_malloc_length: "libc_ok os \<Longrightarrow> lc_malloc os n = Some bs \<Longrightarrow> length bs = n"
  by (auto simp: libc_ok_def)

lemma lc_realloc_length: "libc_ok os \<Longrightarrow> lc_realloc os p n = Some bs \<Longrightarrow> length bs = n"
  by (auto simp: libc_ok_def)

lemma lc_realloc_prefix:
  "libc_ok os \<Longrightarrow> lc_realloc os (Some old) n = Some bs \<Longrightarrow> m \<le> length old \<Longrightarrow> m \<le> n \<Longrightarrow>
   take m bs = take m old"
proof -
  assume "libc_ok os" and "lc_realloc os (Some old) n = Some bs" and m: "m \<le> length old" "m \<le> n"
  then have "take (min (length old) n) bs = take (min (length old) n) old"
    by (auto simp: libc_ok_def)
  then have "take m (take (min (length old) n) bs) = take m (take (min (length old) n) old)"
    by simp
  then show ?thesis using m by (simp add: min_def split: if_splits)
qed

section \<open>The wrappers\<close>

definition nomem :: "errp \<Rightarrow> string \<Rightarrow> 'a option \<times> errp" where
  "nomem e msg = (None, fst (error_causef e ERR_NOMEM msg))"

definition i_malloc :: "libc \<Rightarrow> u32 \<Rightarrow> u32 \<Rightarrow> errp \<Rightarrow> (u8 list option \<times> errp) option" where
  "i_malloc os nelem sz e =
     do {
       ASSERT (nelem > 0);
       ASSERT (sz > 0);
       case safe_mul_u32 nelem sz of
         None \<Rightarrow> Some (nomem e (''malloc '' @ fmt_d nelem @ ''*'' @ fmt_d sz @ '': overflow''))
       | Some bytes \<Rightarrow>
           (case lc_malloc os (unat bytes) of
              None \<Rightarrow>
                Some (nomem e (if lc_enomem os
                  then ''malloc '' @ fmt_d nelem @ ''*'' @ fmt_d sz @ '': '' @ lc_strerror os
                  else ''malloc: '' @ lc_strerror os))
            | Some ret \<Rightarrow> Some (Some ret, e))
     }"

definition i_calloc :: "libc \<Rightarrow> u32 \<Rightarrow> u32 \<Rightarrow> errp \<Rightarrow> (u8 list option \<times> errp) option" where
  "i_calloc os nelem sz e =
     do {
       ASSERT (nelem > 0);
       ASSERT (sz > 0);
       case safe_mul_u32 nelem sz of
         None \<Rightarrow> Some (nomem e (''malloc '' @ fmt_d nelem @ ''*'' @ fmt_d sz @ '': overflow''))
       | Some bytes \<Rightarrow>
           do {
             ASSERT (bytes > 0);
             case lc_calloc os (unat nelem) (unat sz) of
               None \<Rightarrow>
                 Some (nomem e (if lc_enomem os
                   then ''calloc '' @ fmt_d nelem @ ''*'' @ fmt_d sz @ '': '' @ lc_strerror os
                   else ''calloc: '' @ lc_strerror os))
             | Some ret \<Rightarrow> Some (Some ret, e)
           }
     }"

text \<open>\<open>i_realloc\<close> asserts that the product does not overflow before it reports it.\<close>

definition i_realloc :: "libc \<Rightarrow> u8 list option \<Rightarrow> u32 \<Rightarrow> u32 \<Rightarrow> errp \<Rightarrow> (u8 list option \<times> errp) option" where
  "i_realloc os ptr nelem sz e =
     do {
       ASSERT (nelem > 0);
       ASSERT (sz > 0);
       ASSERT (safe_mul_u32 nelem sz \<noteq> None);
       case safe_mul_u32 nelem sz of
         None \<Rightarrow> Some (nomem e (''realloc '' @ fmt_u nelem @ ''*'' @ fmt_u sz @ '': overflow''))
       | Some bytes \<Rightarrow>
           (case lc_realloc os ptr (unat bytes) of
              None \<Rightarrow> Some (nomem e (''realloc '' @ fmt_u bytes @ '' bytes: '' @ lc_strerror os))
            | Some ret \<Rightarrow> Some (Some ret, e))
     }"

definition i_realloc_right ::
  "libc \<Rightarrow> u8 list option \<Rightarrow> u32 \<Rightarrow> u32 \<Rightarrow> u32 \<Rightarrow> errp \<Rightarrow> (u8 list option \<times> errp) option" where
  "i_realloc_right os ptr old_nelem new_nelem sz e =
     do {
       ASSERT (sz > 0);
       ASSERT (ptr = None \<longrightarrow> old_nelem = 0);
       ASSERT (new_nelem > 0);
       i_realloc os ptr new_nelem sz e
     }"

definition i_realloc_left ::
  "libc \<Rightarrow> u8 list option \<Rightarrow> u32 \<Rightarrow> u32 \<Rightarrow> u32 \<Rightarrow> errp \<Rightarrow> (u8 list option \<times> errp) option" where
  "i_realloc_left os ptr old_nelem new_nelem sz e =
     do {
       ASSERT (sz > 0);
       ASSERT (ptr = None \<longrightarrow> old_nelem = 0);
       ASSERT (new_nelem > 0);
       if old_nelem = new_nelem then Some (ptr, e)
       else do {
         old_bytes \<leftarrow> map_option unat (safe_mul_u32 old_nelem sz);
         new_bytes \<leftarrow> map_option unat (safe_mul_u32 new_nelem sz);
         case ptr of
           None \<Rightarrow> i_realloc os None new_nelem sz e
         | Some obj \<Rightarrow>
             if new_bytes < old_bytes
             then do {
               kept \<leftarrow> mem_load obj (old_bytes - new_bytes) new_bytes;
               obj' \<leftarrow> mem_store obj 0 kept;
               i_realloc os (Some obj') new_nelem sz e
             }
             else do {
               (ret, e') \<leftarrow> i_realloc os ptr new_nelem sz e;
               case ret of
                 None \<Rightarrow> Some (None, e')
               | Some r \<Rightarrow>
                   if old_bytes > 0
                   then do {
                     bs \<leftarrow> mem_load r 0 old_bytes;
                     r' \<leftarrow> mem_store r (new_bytes - old_bytes) bs;
                     Some (Some r', e')
                   }
                   else Some (Some r, e')
             }
       }
     }"

definition i_crealloc_right ::
  "libc \<Rightarrow> u8 list option \<Rightarrow> u32 \<Rightarrow> u32 \<Rightarrow> u32 \<Rightarrow> errp \<Rightarrow> (u8 list option \<times> errp) option" where
  "i_crealloc_right os ptr old_nelem new_nelem sz e =
     do {
       ASSERT (sz > 0);
       ASSERT (ptr = None \<longrightarrow> old_nelem = 0);
       ASSERT (new_nelem > 0);
       old_bytes \<leftarrow> map_option unat (safe_mul_u32 old_nelem sz);
       new_bytes \<leftarrow> map_option unat (safe_mul_u32 new_nelem sz);
       (ret, e') \<leftarrow> i_realloc os ptr new_nelem sz e;
       case ret of
         None \<Rightarrow> Some (None, e')
       | Some r \<Rightarrow>
           if new_bytes > old_bytes
           then do {
             r' \<leftarrow> mem_store r old_bytes (replicate (new_bytes - old_bytes) 0);
             Some (Some r', e')
           }
           else Some (Some r, e')
     }"

definition i_crealloc_left ::
  "libc \<Rightarrow> u8 list option \<Rightarrow> u32 \<Rightarrow> u32 \<Rightarrow> u32 \<Rightarrow> errp \<Rightarrow> (u8 list option \<times> errp) option" where
  "i_crealloc_left os ptr old_nelem new_nelem sz e =
     do {
       ASSERT (sz > 0);
       ASSERT (ptr = None \<longrightarrow> old_nelem = 0);
       ASSERT (new_nelem > 0);
       if old_nelem = new_nelem then Some (ptr, e)
       else do {
         old_bytes \<leftarrow> map_option unat (safe_mul_u32 old_nelem sz);
         new_bytes \<leftarrow> map_option unat (safe_mul_u32 new_nelem sz);
         case ptr of
           None \<Rightarrow>
             do {
               (ret, e') \<leftarrow> i_realloc os None new_nelem sz e;
               case ret of
                 None \<Rightarrow> Some (None, e')
               | Some r \<Rightarrow>
                   do { r' \<leftarrow> mem_store r 0 (replicate new_bytes 0); Some (Some r', e') }
             }
         | Some obj \<Rightarrow>
             if new_bytes < old_bytes
             then do {
               kept \<leftarrow> mem_load obj (old_bytes - new_bytes) new_bytes;
               obj' \<leftarrow> mem_store obj 0 kept;
               i_realloc os (Some obj') new_nelem sz e
             }
             else do {
               (ret, e') \<leftarrow> i_realloc os ptr new_nelem sz e;
               case ret of
                 None \<Rightarrow> Some (None, e')
               | Some r \<Rightarrow>
                   do {
                     r' \<leftarrow> (if old_bytes > 0
                           then do {
                             bs \<leftarrow> mem_load r 0 old_bytes;
                             mem_store r (new_bytes - old_bytes) bs
                           }
                           else Some r);
                     r'' \<leftarrow> mem_store r' 0 (replicate (new_bytes - old_bytes) 0);
                     Some (Some r'', e')
                   }
             }
       }
     }"

text \<open>\<open>i_free\<close> gives the object back; freeing the null pointer fails its assertion.\<close>

definition i_free :: "'a option \<Rightarrow> unit option" where
  "i_free ptr = ASSERT (ptr \<noteq> None)"

section \<open>What the wrappers give\<close>

lemma i_malloc_ok:
  assumes "libc_ok os" and "i_malloc os nelem sz e = Some (Some bs, e')"
  shows "length bs = unat nelem * unat sz \<and> e' = e"
  using assms
  by (auto simp: i_malloc_def nomem_def safe_mul_u32_Some lc_malloc_length
           split: option.splits if_splits)

lemma i_malloc_one:
  assumes "libc_ok os" and "0 < unat n"
  shows "\<exists>p e'. i_malloc os 1 n e = Some (p, e') \<and> (p \<noteq> None \<longrightarrow> e' = e) \<and>
    (\<forall>bs. p = Some bs \<longrightarrow> length bs = unat n) \<and> (libc_total os \<longrightarrow> p \<noteq> None)"
proof -
  have mul: "safe_mul_u32 1 n = Some n" by (simp add: safe_mul_u32_def)
  show ?thesis
  proof (cases "lc_malloc os (unat n)")
    case None
    then show ?thesis using mul assms
      by (auto simp: i_malloc_def nomem_def libc_total_def word_less_nat_alt)
  next
    case (Some bs)
    then show ?thesis using mul assms lc_malloc_length [OF assms(1) Some]
      by (auto simp: i_malloc_def word_less_nat_alt)
  qed
qed

lemma i_realloc_Some:
  assumes "i_realloc os ptr nelem sz e = Some (Some bs, e')"
  shows "lc_realloc os ptr (unat nelem * unat sz) = Some bs \<and> e' = e \<and>
         unat nelem * unat sz < 4294967296"
  using assms
  by (auto simp: i_realloc_def nomem_def safe_mul_u32_Some split: option.splits if_splits)

lemma i_realloc_length:
  assumes "libc_ok os" and "i_realloc os ptr nelem sz e = Some (Some bs, e')"
  shows "length bs = unat nelem * unat sz"
  using assms i_realloc_Some lc_realloc_length by blast

lemma i_realloc_right_ok:
  assumes os: "libc_ok os" and r: "i_realloc_right os ptr old new sz e = Some (Some bs, e')"
  shows "length bs = unat new * unat sz \<and> e' = e \<and>
         (\<forall>obj m. ptr = Some obj \<longrightarrow> m \<le> length obj \<longrightarrow> m \<le> length bs \<longrightarrow> take m bs = take m obj)"
proof -
  from r have r': "i_realloc os ptr new sz e = Some (Some bs, e')"
    by (auto simp: i_realloc_right_def split: if_splits)
  note len = i_realloc_length [OF os r'] and got = i_realloc_Some [OF r']
  then show ?thesis
    using lc_realloc_prefix [OF os] by auto
qed

text \<open>
  Growing an object on the left keeps its bytes at the right end and, in the zeroing
  variant, fills the new space in front with zeros; shrinking keeps the last bytes.
\<close>

theorem i_crealloc_left_contents:
  assumes os: "libc_ok os"
    and len: "length obj = unat old * unat sz"
    and r: "i_crealloc_left os (Some obj) old new sz e = Some (Some bs, e')"
  shows "bs = (if old \<le> new
               then replicate (unat new * unat sz - length obj) 0 @ obj
               else drop (length obj - unat new * unat sz) obj)"
proof -
  let ?ob = "unat old * unat sz" and ?nb = "unat new * unat sz"
  from r have sz: "0 < unat sz" by (auto simp: i_crealloc_left_def wnat split: if_splits)
  have le: "old \<le> new \<longleftrightarrow> ?ob \<le> ?nb" using sz by (simp add: wnat)
  consider "old = new" | "?nb < ?ob" | "old \<noteq> new" "?ob \<le> ?nb" by linarith
  then show ?thesis
  proof cases
    case 1
    with r len show ?thesis by (auto simp: i_crealloc_left_def split: if_splits)
  next
    case 2
    then have "old \<noteq> new" by auto
    with r 2 len obtain obj' where
      st: "mem_store obj 0 (take ?nb (drop (?ob - ?nb) obj)) = Some obj'"
      and re: "i_realloc os (Some obj') new sz e = Some (Some bs, e')"
      by (auto simp: i_crealloc_left_def safe_mul_u32_Some bind_Some_iff mem_load_Some
               split: if_splits)
    note got = i_realloc_Some [OF re] and lbs = i_realloc_length [OF os re]
    have "obj' = drop (?ob - ?nb) obj @ drop ?nb obj"
      using st 2 len by (simp add: overwrite_def)
    moreover have "take ?nb bs = take ?nb obj'"
      using lc_realloc_prefix [OF os] got calculation len 2 by force
    ultimately have "bs = drop (?ob - ?nb) obj" using lbs len 2 by simp
    moreover have "\<not> old \<le> new" using 2 le by linarith
    ultimately show ?thesis using len by simp
  next
    case 3
    with r len obtain ret r' where
      re: "i_realloc os (Some obj) new sz e = Some (Some ret, e')"
      and mv: "r' = (if 0 < ?ob then overwrite ret (?nb - ?ob) (take ?ob ret) else ret)"
      and bs: "bs = overwrite r' 0 (replicate (?nb - ?ob) 0)"
      by (auto simp: i_crealloc_left_def safe_mul_u32_Some bind_Some_iff mem_load_Some
                     mem_store_Some i_realloc_length [OF os]
               split: if_splits option.splits)
    note got = i_realloc_Some [OF re] and lret = i_realloc_length [OF os re]
    have "take ?ob ret = take ?ob obj"
      using lc_realloc_prefix [OF os] got len 3 by force
    then have "r' = take (?nb - ?ob) ret @ obj"
      using mv lret len 3 by (auto simp: overwrite_def)
    then have "bs = replicate (?nb - ?ob) 0 @ obj"
      using bs lret len 3 by (simp add: overwrite_def)
    then show ?thesis using 3 le len by simp
  qed
qed

theorem i_crealloc_left_contents_witness:
  "i_crealloc_left libc_ample (Some [1, 2]) 2 4 1 None = Some (Some [0, 0, 1, 2], None) \<and>
   [0, 0, 1, 2 :: u8] = replicate (4 - 2) 0 @ [1, 2]"
proof -
  have r: "i_crealloc_left libc_ample (Some [1, 2]) 2 4 1 None = Some (Some [0, 0, 1, 2], None)"
    by code_simp
  then show ?thesis
    using i_crealloc_left_contents [OF libc_ok_ample _ r] by simp
qed

end
