(* ===== verification/Ring.thy ===== *)
theory Ring
  imports Prelude
begin

text \<open>
  Reading and writing an array modulo its length. \<open>ring d t n\<close> is the sequence of the
  \<open>n\<close> elements that start at index \<open>t\<close> and wrap at the end of \<open>d\<close>: what a
  circular buffer with backing array \<open>d\<close> and read cursor \<open>t\<close> holds.
\<close>

definition ring :: "'a list \<Rightarrow> nat \<Rightarrow> nat \<Rightarrow> 'a list" where
  "ring d t n = map (\<lambda>i. d ! ((t + i) mod length d)) [0..<n]"

lemma length_ring [simp]: "length (ring d t n) = n"
  by (simp add: ring_def)

lemma nth_ring [simp]: "i < n \<Longrightarrow> ring d t n ! i = d ! ((t + i) mod length d)"
  by (simp add: ring_def)

lemma ring_0 [simp]: "ring d t 0 = []"
  by (simp add: ring_def)

lemma ring_mod [simp]: "ring d (t mod length d) n = ring d t n"
  by (simp add: ring_def mod_add_left_eq)

lemma ring_mod_len: "length d = c \<Longrightarrow> ring d (t mod c) n = ring d t n"
  using ring_mod by blast

lemma take_ring: "k \<le> n \<Longrightarrow> take k (ring d t n) = ring d t k"
  by (rule nth_equalityI) auto

lemma drop_ring: "drop k (ring d t n) = ring d (t + k) (n - k)"
  by (rule nth_equalityI) (auto simp: add.assoc)

lemma ring_add: "ring d t (a + b) = ring d t a @ ring d (t + a) b"
proof -
  have "ring d t (a + b) = take a (ring d t (a + b)) @ drop a (ring d t (a + b))"
    by simp
  then show ?thesis
    by (simp add: take_ring drop_ring del: append_take_drop_id)
qed

text \<open>A stretch that does not wrap is a slice of the array.\<close>

lemma ring_slice: "t + n \<le> length d \<Longrightarrow> ring d t n = take n (drop t d)"
  by (rule nth_equalityI) auto

lemma mod_clash:
  fixes a b L :: nat
  assumes "(t + a) mod L = (t + b) mod L" and "a < b" and "b < a + L"
  shows False
proof -
  from assms(1,2) have "L dvd (t + b) - (t + a)"
    by (metis mod_eq_dvd_iff_nat add_le_cancel_left less_imp_le)
  then have "L dvd b - a" by simp
  with assms(2,3) show False
    by (auto dest: dvd_imp_le)
qed

lemma ring_overwrite_outside:
  assumes p: "p = (t + n) mod length d" and fits: "p + length bs \<le> length d"
    and room: "n + length bs \<le> length d"
  shows "ring (overwrite d p bs) t n = ring d t n"
proof (rule nth_equalityI)
  fix i assume "i < length (ring (overwrite d p bs) t n)"
  then have i: "i < n" by simp
  let ?j = "(t + i) mod length d"
  have L: "0 < length d" using i room by linarith
  have "\<not> (p \<le> ?j \<and> ?j < p + length bs)"
  proof
    assume in_bs: "p \<le> ?j \<and> ?j < p + length bs"
    define k where "k = ?j - p"
    have k: "?j = p + k" "k < length bs" using in_bs by (auto simp: k_def)
    have "p + k < length d" using k fits by linarith
    then have "(p + k) mod length d = p + k" by simp
    moreover have "(p + k) mod length d = (t + (n + k)) mod length d"
      by (simp add: p mod_add_left_eq add.assoc)
    ultimately have "(t + i) mod length d = (t + (n + k)) mod length d"
      using k by simp
    then show False
      by (rule mod_clash) (use i k room in linarith)+
  qed
  then show "ring (overwrite d p bs) t n ! i = ring d t n ! i"
    using i L fits by (auto simp: nth_overwrite)
qed simp

text \<open>Writing behind the last element appends; writing before the first one prepends.\<close>

lemma ring_append:
  assumes p: "p = (t + n) mod length d" and fits: "p + length bs \<le> length d"
    and room: "n + length bs \<le> length d"
  shows "ring (overwrite d p bs) t (n + length bs) = ring d t n @ bs"
proof -
  have "ring (overwrite d p bs) (t + n) (length bs) = ring (overwrite d p bs) p (length bs)"
    using fits by (metis p length_overwrite ring_mod)
  also have "\<dots> = take (length bs) (drop p (overwrite d p bs))"
    using fits by (subst ring_slice) auto
  also have "\<dots> = bs"
    using fits by (simp add: overwrite_def)
  finally show ?thesis
    using ring_overwrite_outside [OF p fits room] by (simp add: ring_add)
qed

lemma ring_prepend:
  assumes t: "t mod length d = (p + length bs) mod length d" and fits: "p + length bs \<le> length d"
    and room: "n + length bs \<le> length d"
  shows "ring (overwrite d p bs) p (length bs + n) = bs @ ring d t n"
proof (cases "bs = []")
  case True
  with t show ?thesis by (metis add_0 append_Nil list.size(3) overwrite_Nil add.right_neutral ring_mod)
next
  case False
  let ?L = "length d"
  have L: "p < ?L" "n + length bs \<le> ?L" using fits False room by (cases bs, auto)
  have whole: "p = (t + (?L - length bs)) mod ?L"
  proof -
    have "(t + (?L - length bs)) mod ?L = (p + length bs + (?L - length bs)) mod ?L"
      using t by (metis mod_add_left_eq)
    also have "p + length bs + (?L - length bs) = p + ?L" using room by simp
    finally show ?thesis using L by simp
  qed
  have "ring (overwrite d p bs) t (?L - length bs) = ring d t (?L - length bs)"
    by (rule ring_overwrite_outside [OF whole fits]) (use room in simp)
  then have "take n (ring (overwrite d p bs) t (?L - length bs)) = take n (ring d t (?L - length bs))"
    by simp
  then have keep: "ring (overwrite d p bs) t n = ring d t n"
    using room by (simp add: take_ring)
  have "ring (overwrite d p bs) (p + length bs) n = ring (overwrite d p bs) t n"
    using t fits by (metis length_overwrite ring_mod)
  moreover have "ring (overwrite d p bs) p (length bs) = bs"
    using fits by (simp add: ring_slice overwrite_def)
  ultimately show ?thesis
    using keep by (simp add: ring_add)
qed

end
