(* ===== verification/Cbuffer.thy ===== *)
theory Cbuffer
  imports Ring Cerror
begin

text \<open>
  The circular byte buffer of \<^verbatim>\<open>ds/cbuffer.h\<close> and \<^verbatim>\<open>ds/cbuffer.c\<close>. A \<open>cbuffer\<close> owns no
  memory: its \<open>data\<close> field points to the caller's array, which the model holds as the
  list of its bytes (so the pointer is never null). Cursors and sizes are 32-bit words
  and every sum of the code wraps as it does there. Buffers the C code hands out as
  pointers into the array (\<open>struct bytes\<close>) are an offset with a length; a \<open>void *dest\<close>
  that may be null is an optional object, updated in place.
\<close>

section \<open>State\<close>

record cbuffer =
  cb_data :: "u8 list"
  cb_cap :: u32
  cb_head :: u32
  cb_tail :: u32
  cb_isfull :: bool

record bytes =
  by_head :: "u32 option"
  by_len :: u32

definition cbuffer_create :: "u8 list \<Rightarrow> u32 \<Rightarrow> cbuffer option" where
  "cbuffer_create data cap =
     do {
       ASSERT (cap > 0);
       Some \<lparr>cb_data = data, cb_cap = cap, cb_head = 0, cb_tail = 0, cb_isfull = False\<rparr>
     }"

definition cbuffer_create_with :: "u8 list \<Rightarrow> u32 \<Rightarrow> u32 \<Rightarrow> cbuffer option" where
  "cbuffer_create_with data cap len =
     do {
       ASSERT (cap > 0);
       ASSERT (len \<le> cap);
       Some \<lparr>cb_data = data, cb_cap = cap, cb_head = len mod cap, cb_tail = 0,
             cb_isfull = (len = cap)\<rparr>
     }"

definition cbuffer_len :: "cbuffer \<Rightarrow> u32" where
  "cbuffer_len b =
     (if cb_isfull b then cb_cap b
      else if cb_head b \<ge> cb_tail b then cb_head b - cb_tail b
      else cb_cap b - (cb_tail b - cb_head b))"

text \<open>The debug invariant that \<open>DBG_ASSERT (cbuffer, b)\<close> checks.\<close>

definition cbuffer_dbg :: "cbuffer \<Rightarrow> bool" where
  "cbuffer_dbg b \<longleftrightarrow>
     cb_cap b > 0 \<and> (cb_isfull b \<longrightarrow> cb_tail b = cb_head b) \<and> cbuffer_len b \<le> cb_cap b"

definition cbuffer_isempty :: "cbuffer \<Rightarrow> bool option" where
  "cbuffer_isempty b =
     do { ASSERT (cbuffer_dbg b); Some (\<not> cb_isfull b \<and> cb_head b = cb_tail b) }"

text \<open>A division by a zero \<open>size\<close> traps.\<close>

definition cbuffer_slen :: "cbuffer \<Rightarrow> u32 \<Rightarrow> u32 option" where
  "cbuffer_slen b sz =
     (let len = cbuffer_len b in
      do { ASSERT (sz \<noteq> 0); ASSERT (len mod sz = 0); Some (len div sz) })"

definition cbuffer_avail :: "cbuffer \<Rightarrow> u32 option" where
  "cbuffer_avail b =
     do {
       ASSERT (cbuffer_dbg b);
       ASSERT (cb_cap b \<ge> cbuffer_len b);
       Some (cb_cap b - cbuffer_len b)
     }"

definition cbuffer_savail :: "cbuffer \<Rightarrow> u32 \<Rightarrow> u32 option" where
  "cbuffer_savail b sz =
     do {
       ASSERT (cbuffer_dbg b);
       ASSERT (cb_cap b \<ge> cbuffer_len b);
       ASSERT (sz \<noteq> 0);
       ASSERT (cbuffer_len b mod sz = 0);
       Some ((cb_cap b - cbuffer_len b) div sz)
     }"

definition cbuffer_discard_all :: "cbuffer \<Rightarrow> cbuffer option" where
  "cbuffer_discard_all b =
     do {
       ASSERT (cbuffer_dbg b);
       Some (b\<lparr>cb_tail := 0, cb_head := 0, cb_isfull := False\<rparr>)
     }"

section \<open>Contiguous regions\<close>

definition cbuffer_get_next_data_bytes :: "cbuffer \<Rightarrow> bytes option" where
  "cbuffer_get_next_data_bytes b =
     do {
       ASSERT (cbuffer_dbg b);
       Some (if cb_head b = cb_tail b \<and> \<not> cb_isfull b then \<lparr>by_head = None, by_len = 0\<rparr>
             else if cb_head b > cb_tail b
             then \<lparr>by_head = Some (cb_tail b), by_len = cb_head b - cb_tail b\<rparr>
             else \<lparr>by_head = Some (cb_tail b), by_len = cb_cap b - cb_tail b\<rparr>)
     }"

definition cbuffer_get_next_avail_bytes :: "cbuffer \<Rightarrow> bytes option" where
  "cbuffer_get_next_avail_bytes b =
     do {
       ASSERT (cbuffer_dbg b);
       Some (if cb_isfull b then \<lparr>by_head = None, by_len = 0\<rparr>
             else if cb_head b \<ge> cb_tail b
             then \<lparr>by_head = Some (cb_head b), by_len = cb_cap b - cb_head b\<rparr>
             else \<lparr>by_head = Some (cb_head b), by_len = cb_tail b - cb_head b\<rparr>)
     }"

definition cbuffer_fakewrite :: "cbuffer \<Rightarrow> u32 \<Rightarrow> cbuffer option" where
  "cbuffer_fakewrite b nbytes =
     do {
       ASSERT (cbuffer_dbg b);
       avail \<leftarrow> cbuffer_avail b;
       ASSERT (nbytes \<le> avail);
       let b' = b\<lparr>cb_head := (cb_head b + nbytes) mod cb_cap b\<rparr>;
       Some (if nbytes > 0 \<and> cb_head b' = cb_tail b' then b'\<lparr>cb_isfull := True\<rparr> else b')
     }"

definition cbuffer_fakeread :: "cbuffer \<Rightarrow> u32 \<Rightarrow> cbuffer option" where
  "cbuffer_fakeread b nbytes =
     do {
       ASSERT (cbuffer_dbg b);
       ASSERT (nbytes \<le> cbuffer_len b);
       let b' = b\<lparr>cb_tail := (cb_tail b + nbytes) mod cb_cap b\<rparr>;
       Some (if nbytes > 0 then b'\<lparr>cb_isfull := False\<rparr> else b')
     }"

section \<open>Raw read, copy and write\<close>

text \<open>\<open>if (dst) memcpy (dst + at, data + from, n)\<close>.\<close>

definition copy_out :: "u8 list option \<Rightarrow> u32 \<Rightarrow> u8 list \<Rightarrow> u32 \<Rightarrow> u32 \<Rightarrow> u8 list option option" where
  "copy_out dst at data from n =
     (case dst of
        None \<Rightarrow> Some None
      | Some out \<Rightarrow>
          do {
            bs \<leftarrow> mem_load data (unat from) (unat n);
            out' \<leftarrow> mem_store out (unat at) bs;
            Some (Some out')
          })"

partial_function (option) cbuffer_read_loop ::
  "u32 \<Rightarrow> u8 list option \<Rightarrow> u32 \<Rightarrow> cbuffer \<Rightarrow> (u8 list option \<times> u32 \<times> cbuffer) option" where
  "cbuffer_read_loop btoread dst bread b =
     (if bread < btoread
      then do {
        let nxt = (if \<not> cb_isfull b \<and> cb_head b > cb_tail b
                   then min (cb_head b - cb_tail b) (btoread - bread)
                   else min (cb_cap b - cb_tail b) (btoread - bread));
        dst' \<leftarrow> copy_out dst bread (cb_data b) (cb_tail b) nxt;
        cbuffer_read_loop btoread dst' (bread + nxt)
          (b\<lparr>cb_tail := (cb_tail b + nxt) mod cb_cap b, cb_isfull := False\<rparr>)
      }
      else Some (dst, bread, b))"

declare cbuffer_read_loop.simps [code]

definition cbuffer_read ::
  "u8 list option \<Rightarrow> u32 \<Rightarrow> u32 \<Rightarrow> cbuffer \<Rightarrow> (u32 \<times> u8 list option \<times> cbuffer) option" where
  "cbuffer_read dest sz n b =
     do {
       ASSERT (cbuffer_dbg b);
       ASSERT (sz > 0);
       ASSERT (n > 0);
       let len = cbuffer_len b div sz;
       let ntoread = (if n < len then n else len);
       let btoread = ntoread * sz;
       (dst, bread, b') \<leftarrow> cbuffer_read_loop btoread dest 0 b;
       ASSERT (ntoread * sz = bread);
       Some (ntoread, dst, b')
     }"

text \<open>\<open>cbuffer_copy\<close> runs the same loop on local copies of the tail and the full flag.\<close>

partial_function (option) cbuffer_copy_loop ::
  "u32 \<Rightarrow> u8 list option \<Rightarrow> u32 \<Rightarrow> u32 \<Rightarrow> bool \<Rightarrow> cbuffer \<Rightarrow> (u8 list option \<times> u32) option" where
  "cbuffer_copy_loop btoread dst bread tail isfull b =
     (if bread < btoread
      then do {
        let nxt = (if \<not> isfull \<and> cb_head b > tail
                   then min (cb_head b - tail) (btoread - bread)
                   else min (cb_cap b - tail) (btoread - bread));
        dst' \<leftarrow> copy_out dst bread (cb_data b) tail nxt;
        cbuffer_copy_loop btoread dst' (bread + nxt) ((tail + nxt) mod cb_cap b) False b
      }
      else Some (dst, bread))"

declare cbuffer_copy_loop.simps [code]

definition cbuffer_copy ::
  "u8 list option \<Rightarrow> u32 \<Rightarrow> u32 \<Rightarrow> cbuffer \<Rightarrow> (u32 \<times> u8 list option) option" where
  "cbuffer_copy dest sz n b =
     do {
       ASSERT (cbuffer_dbg b);
       ASSERT (sz > 0);
       ASSERT (n > 0);
       let len = cbuffer_len b div sz;
       let ntoread = (if n < len then n else len);
       let btoread = ntoread * sz;
       (dst, bread) \<leftarrow> cbuffer_copy_loop btoread dest 0 (cb_tail b) (cb_isfull b) b;
       ASSERT (ntoread * sz = bread);
       Some (ntoread, dst)
     }"

text \<open>
  The size of the next piece and the buffer to put it in. The branch on \<open>nxt = 0\<close> is
  the code's: with the assertion before it, it is dead.
\<close>

definition cbuffer_write_next :: "u32 \<Rightarrow> u32 \<Rightarrow> cbuffer \<Rightarrow> (u32 \<times> cbuffer) option" where
  "cbuffer_write_next btowrite bwrite b =
     do {
       ASSERT (btowrite > bwrite);
       if cb_head b \<ge> cb_tail b
       then do {
         ASSERT (cb_cap b > cb_head b);
         let nxt = min (cb_cap b - cb_head b) (btowrite - bwrite);
         Some (if nxt = 0 then (cb_tail b, b\<lparr>cb_head := 0\<rparr>) else (nxt, b))
       }
       else do {
         ASSERT (cb_tail b > cb_head b);
         Some (min (cb_tail b - cb_head b) (btowrite - bwrite), b)
       }
     }"

partial_function (option) cbuffer_write_loop ::
  "u8 list \<Rightarrow> u32 \<Rightarrow> u32 \<Rightarrow> cbuffer \<Rightarrow> (u32 \<times> cbuffer) option" where
  "cbuffer_write_loop input btowrite bwrite b =
     (if bwrite < btowrite
      then do {
        (nxt, b1) \<leftarrow> cbuffer_write_next btowrite bwrite b;
        bs \<leftarrow> mem_load input (unat bwrite) (unat nxt);
        data \<leftarrow> mem_store (cb_data b1) (unat (cb_head b1)) bs;
        let b2 = b1\<lparr>cb_data := data, cb_head := (cb_head b1 + nxt) mod cb_cap b1\<rparr>;
        cbuffer_write_loop input btowrite (bwrite + nxt)
          (if cb_head b2 = cb_tail b2 then b2\<lparr>cb_isfull := True\<rparr> else b2)
      }
      else Some (bwrite, b))"

declare cbuffer_write_loop.simps [code]

definition cbuffer_write :: "u8 list \<Rightarrow> u32 \<Rightarrow> u32 \<Rightarrow> cbuffer \<Rightarrow> (u32 \<times> cbuffer) option" where
  "cbuffer_write src sz n b =
     do {
       ASSERT (cbuffer_dbg b);
       ASSERT (sz > 0);
       ASSERT (n > 0);
       ASSERT (cb_cap b \<ge> cbuffer_len b);
       let avail = (cb_cap b - cbuffer_len b) div sz;
       let ntowrite = (if n < avail then n else avail);
       let btowrite = ntowrite * sz;
       (bwrite, b') \<leftarrow> cbuffer_write_loop src btowrite 0 b;
       ASSERT (ntowrite * sz = bwrite);
       Some (ntowrite, b')
     }"

section \<open>Buffer to buffer\<close>

text \<open>
  The two buffers are distinct objects, so writing into \<open>dest\<close> leaves the bytes of
  \<open>src\<close> alone. The source region is passed as a pointer into \<open>src\<close>: the suffix of
  its array from the tail on.
\<close>

definition cbuffer_cbuffer_move ::
  "cbuffer \<Rightarrow> u32 \<Rightarrow> u32 \<Rightarrow> cbuffer \<Rightarrow> (u32 \<times> cbuffer \<times> cbuffer) option" where
  "cbuffer_cbuffer_move dest sz cnt src =
     do {
       ASSERT (cbuffer_dbg dest);
       ASSERT (cbuffer_dbg src);
       ASSERT (sz > 0 \<and> cnt > 0);
       let src_elems = cbuffer_len src div sz;
       avail \<leftarrow> cbuffer_avail dest;
       let dst_space = avail div sz;
       let n = (if cnt < src_elems then cnt else src_elems);
       let n = (if dst_space < n then dst_space else n);
       if n = 0 then Some (0, dest, src)
       else do {
         let nbytes = n * sz;
         let first = (if cb_isfull src \<or> cb_head src \<le> cb_tail src
                      then cb_cap src - cb_tail src else cb_head src - cb_tail src);
         let first = (if first > nbytes then nbytes else first);
         (_, dest1) \<leftarrow> cbuffer_write (drop (unat (cb_tail src)) (cb_data src)) 1 first dest;
         let src1 = src\<lparr>cb_tail := (cb_tail src + first) mod cb_cap src, cb_isfull := False\<rparr>;
         let rest = nbytes - first;
         if rest > 0
         then do {
           (_, dest2) \<leftarrow> cbuffer_write (drop (unat (cb_tail src1)) (cb_data src1)) 1 rest dest1;
           Some (n, dest2, src1\<lparr>cb_tail := (cb_tail src1 + rest) mod cb_cap src1\<rparr>)
         }
         else Some (n, dest1, src1)
       }
     }"

definition cbuffer_cbuffer_copy ::
  "cbuffer \<Rightarrow> u32 \<Rightarrow> u32 \<Rightarrow> cbuffer \<Rightarrow> (u32 \<times> cbuffer) option" where
  "cbuffer_cbuffer_copy dest sz cnt src =
     do {
       ASSERT (cbuffer_dbg dest);
       ASSERT (cbuffer_dbg src);
       ASSERT (sz > 0 \<and> cnt > 0);
       let src_elems = cbuffer_len src div sz;
       avail \<leftarrow> cbuffer_avail dest;
       let dst_space = avail div sz;
       let n = (if cnt < src_elems then cnt else src_elems);
       let n = (if dst_space < n then dst_space else n);
       if n = 0 then Some (0, dest)
       else do {
         let nbytes = n * sz;
         let pos = cb_tail src;
         let full = cb_isfull src;
         let first = (if full \<or> cb_head src \<le> pos then cb_cap src - pos else cb_head src - pos);
         let first = (if first > nbytes then nbytes else first);
         (_, dest1) \<leftarrow> cbuffer_write (drop (unat pos) (cb_data src)) 1 first dest;
         let pos = (pos + first) mod cb_cap src;
         let rest = nbytes - first;
         if rest > 0
         then do {
           (_, dest2) \<leftarrow> cbuffer_write (drop (unat pos) (cb_data src)) 1 rest dest1;
           Some (n, dest2)
         }
         else Some (n, dest1)
       }
     }"

section \<open>Single elements\<close>

text \<open>
  An element that straddles the end of the array is copied in two pieces. The destination
  of a read is an object of at least \<open>sz\<close> bytes; \<open>None\<close> is the null pointer.
\<close>

definition split_load :: "u8 list \<Rightarrow> u32 \<Rightarrow> u32 \<Rightarrow> u32 \<Rightarrow> u8 list \<Rightarrow> u8 list option" where
  "split_load data cap offset sz dest =
     (if offset + sz \<le> cap
      then do {
        bs \<leftarrow> mem_load data (unat offset) (unat sz);
        mem_store dest 0 bs
      }
      else do {
        let first = cap - offset;
        bs \<leftarrow> mem_load data (unat offset) (unat first);
        dest1 \<leftarrow> mem_store dest 0 bs;
        bs' \<leftarrow> mem_load data 0 (unat (sz - first));
        mem_store dest1 (unat first) bs'
      })"

definition split_store :: "u8 list \<Rightarrow> u32 \<Rightarrow> u32 \<Rightarrow> u32 \<Rightarrow> u8 list \<Rightarrow> u8 list option" where
  "split_store data cap offset sz src =
     (if offset + sz \<le> cap
      then do {
        bs \<leftarrow> mem_load src 0 (unat sz);
        mem_store data (unat offset) bs
      }
      else do {
        let first = cap - offset;
        bs \<leftarrow> mem_load src 0 (unat first);
        data1 \<leftarrow> mem_store data (unat offset) bs;
        bs' \<leftarrow> mem_load src (unat first) (unat (sz - first));
        mem_store data1 0 bs'
      })"

definition cbuffer_get_no_check ::
  "u8 list option \<Rightarrow> u32 \<Rightarrow> u32 \<Rightarrow> cbuffer \<Rightarrow> (u8 \<times> u8 list option) option" where
  "cbuffer_get_no_check dest sz idx b =
     do {
       ASSERT (cbuffer_dbg b);
       ASSERT (sz > 0);
       ASSERT (idx * sz < cb_cap b);
       let len = cbuffer_len b div sz;
       ASSERT (idx < len);
       case dest of
         None \<Rightarrow> Some (0, None)
       | Some d \<Rightarrow>
           do {
             let offset = (cb_tail b + idx * sz) mod cb_cap b;
             d' \<leftarrow> split_load (cb_data b) (cb_cap b) offset sz d;
             Some (0, Some d')
           }
     }"

definition cbuffer_get ::
  "u8 list \<Rightarrow> u32 \<Rightarrow> u32 \<Rightarrow> cbuffer \<Rightarrow> (bool \<times> u8 list) option" where
  "cbuffer_get dest sz idx b =
     do {
       ASSERT (cbuffer_dbg b);
       if \<not> cb_isfull b \<and> idx \<ge> (cb_head b + cb_cap b - cb_tail b) mod cb_cap b
       then Some (False, dest)
       else do {
         (_, d) \<leftarrow> cbuffer_get_no_check (Some dest) sz idx b;
         dest' \<leftarrow> d;
         Some (True, dest')
       }
     }"

definition cbuffer_peek_back :: "u8 list \<Rightarrow> u32 \<Rightarrow> cbuffer \<Rightarrow> (bool \<times> u8 list) option" where
  "cbuffer_peek_back dest sz b =
     do {
       ASSERT (cbuffer_dbg b);
       if \<not> cb_isfull b \<and> cb_head b = cb_tail b then Some (False, dest)
       else cbuffer_get dest sz 0 b
     }"

definition cbuffer_peek_front :: "u8 list \<Rightarrow> u32 \<Rightarrow> cbuffer \<Rightarrow> (bool \<times> u8 list) option" where
  "cbuffer_peek_front dest sz b =
     do {
       ASSERT (cbuffer_dbg b);
       if \<not> cb_isfull b \<and> cb_head b = cb_tail b then Some (False, dest)
       else cbuffer_get dest sz 0 b
     }"

definition cbuffer_push_back :: "u8 list \<Rightarrow> u32 \<Rightarrow> cbuffer \<Rightarrow> (bool \<times> cbuffer) option" where
  "cbuffer_push_back src sz b =
     do {
       ASSERT (cbuffer_dbg b);
       ASSERT (sz > 0);
       avail \<leftarrow> cbuffer_avail b;
       if avail < sz then Some (False, b)
       else do {
         data \<leftarrow> split_store (cb_data b) (cb_cap b) (cb_head b) sz src;
         let b' = b\<lparr>cb_data := data, cb_head := (cb_head b + sz) mod cb_cap b\<rparr>;
         Some (True, if cb_head b' = cb_tail b' then b'\<lparr>cb_isfull := True\<rparr> else b')
       }
     }"

definition cbuffer_push_front :: "u8 list \<Rightarrow> u32 \<Rightarrow> cbuffer \<Rightarrow> (bool \<times> cbuffer) option" where
  "cbuffer_push_front src sz b =
     do {
       ASSERT (cbuffer_dbg b);
       ASSERT (sz > 0);
       avail \<leftarrow> cbuffer_avail b;
       if avail < sz then Some (False, b)
       else do {
         let new_tail = (cb_tail b + cb_cap b - sz) mod cb_cap b;
         data \<leftarrow> split_store (cb_data b) (cb_cap b) new_tail sz src;
         let b' = b\<lparr>cb_data := data, cb_tail := new_tail\<rparr>;
         Some (True, if cb_head b' = cb_tail b' then b'\<lparr>cb_isfull := True\<rparr> else b')
       }
     }"

definition cbuffer_pop_back :: "u8 list \<Rightarrow> u32 \<Rightarrow> cbuffer \<Rightarrow> (bool \<times> u8 list \<times> cbuffer) option" where
  "cbuffer_pop_back dest sz b =
     do {
       ASSERT (cbuffer_dbg b);
       ASSERT (sz > 0);
       if \<not> cb_isfull b \<and> cb_head b = cb_tail b then Some (False, dest, b)
       else do {
         dest' \<leftarrow> split_load (cb_data b) (cb_cap b) (cb_tail b) sz dest;
         Some (True, dest',
               b\<lparr>cb_tail := (cb_tail b + sz) mod cb_cap b, cb_isfull := False\<rparr>)
       }
     }"

definition cbuffer_pop_front :: "u8 list \<Rightarrow> u32 \<Rightarrow> cbuffer \<Rightarrow> (bool \<times> u8 list \<times> cbuffer) option" where
  "cbuffer_pop_front dest sz b =
     do {
       ASSERT (cbuffer_dbg b);
       ASSERT (sz > 0);
       if \<not> cb_isfull b \<and> cb_head b = cb_tail b then Some (False, dest, b)
       else do {
         dest' \<leftarrow> split_load (cb_data b) (cb_cap b) (cb_tail b) sz dest;
         Some (True, dest',
               b\<lparr>cb_tail := (cb_tail b + sz) mod cb_cap b, cb_isfull := False\<rparr>)
       }
     }"

end
