(* ===== verification/Byte_queue.thy ===== *)
theory Byte_queue
  imports Prelude
begin

text \<open>
  The contract of a bounded byte queue, as the users of a byte stream rely on it: a
  \<open>put\<close> stores a prefix of what it is given, as much as there is room for, and a
  \<open>get\<close> returns the oldest bytes. The client theorem is about whole conversations:
  whatever the interleaving of puts and gets, the bytes that came out followed by the
  bytes still queued are the bytes queued at the start followed by the bytes accepted.
\<close>

section \<open>Conversations\<close>

datatype byte_op = Put "u8 list" | Get nat

text \<open>Runs a list of operations; collects the accepted bytes and the bytes returned.\<close>

fun bq_run ::
  "(u8 list \<Rightarrow> 's \<Rightarrow> (nat \<times> 's) option) \<Rightarrow> (nat \<Rightarrow> 's \<Rightarrow> (u8 list \<times> 's) option) \<Rightarrow>
   byte_op list \<Rightarrow> 's \<Rightarrow> (u8 list \<times> u8 list \<times> 's) option" where
  "bq_run put get [] s = Some ([], [], s)"
| "bq_run put get (Put bs # ops) s =
     do {
       (n, s1) \<leftarrow> put bs s;
       (acc, out, s2) \<leftarrow> bq_run put get ops s1;
       Some (take n bs @ acc, out, s2)
     }"
| "bq_run put get (Get n # ops) s =
     do {
       (bs, s1) \<leftarrow> get n s;
       (acc, out, s2) \<leftarrow> bq_run put get ops s1;
       Some (acc, bs @ out, s2)
     }"

text \<open>Requests whose size is a positive 32-bit count.\<close>

definition byte_op_ok :: "byte_op \<Rightarrow> bool" where
  "byte_op_ok op = (case op of Put bs \<Rightarrow> 0 < length bs \<and> length bs < 4294967296
                             | Get n \<Rightarrow> 0 < n \<and> n < 4294967296)"

section \<open>The interface\<close>

locale byte_queue =
  fixes inv :: "'s \<Rightarrow> bool"
    and bytes_of :: "'s \<Rightarrow> u8 list"
    and capacity :: "'s \<Rightarrow> nat"
    and put :: "u8 list \<Rightarrow> 's \<Rightarrow> (nat \<times> 's) option"
    and get :: "nat \<Rightarrow> 's \<Rightarrow> (u8 list \<times> 's) option"
  assumes within: "inv s \<Longrightarrow> length (bytes_of s) \<le> capacity s"
    and put_law: "inv s \<Longrightarrow> byte_op_ok (Put bs) \<Longrightarrow>
      \<exists>s'. put bs s = Some (min (length bs) (capacity s - length (bytes_of s)), s') \<and> inv s' \<and>
        capacity s' = capacity s \<and>
        bytes_of s' = bytes_of s @ take (capacity s - length (bytes_of s)) bs"
    and get_law: "inv s \<Longrightarrow> byte_op_ok (Get n) \<Longrightarrow>
      \<exists>s'. get n s = Some (take n (bytes_of s), s') \<and> inv s' \<and>
        capacity s' = capacity s \<and> bytes_of s' = drop n (bytes_of s)"
begin

lemma conversation:
  assumes "inv s" and "list_all byte_op_ok ops"
  shows "\<exists>acc out s'. bq_run put get ops s = Some (acc, out, s') \<and> inv s' \<and> capacity s' = capacity s \<and>
           out @ bytes_of s' = bytes_of s @ acc"
  using assms
proof (induction ops arbitrary: s)
  case (Cons op ops)
  show ?case
  proof (cases op)
    case (Put bs)
    with Cons.prems obtain s1 where
      s1: "put bs s = Some (min (length bs) (capacity s - length (bytes_of s)), s1)" "inv s1"
        "capacity s1 = capacity s" "bytes_of s1 = bytes_of s @ take (capacity s - length (bytes_of s)) bs"
      using put_law [of s bs] by auto
    then show ?thesis
      using Cons.IH [of s1] Cons.prems Put by (auto simp: min_def split: if_splits)
  next
    case (Get n)
    with Cons.prems obtain s1 where
      s1: "get n s = Some (take n (bytes_of s), s1)" "inv s1" "capacity s1 = capacity s"
        "bytes_of s1 = drop n (bytes_of s)"
      using get_law [of s n] by auto
    moreover have "bytes_of s = take n (bytes_of s) @ drop n (bytes_of s)" by simp
    ultimately show ?thesis
      using Cons.IH [of s1] Cons.prems Get by (auto simp del: append_take_drop_id)
  qed
qed simp

text \<open>What is put into a queue with room comes back unchanged, however it is split up.\<close>

lemma put_then_get:
  assumes "inv s" and "bytes_of s = []" and "0 < length bs" and "length bs < 4294967296"
    and "length bs \<le> capacity s" and "length bs \<le> n" and "n < 4294967296"
  shows "\<exists>s' s''. put bs s = Some (length bs, s') \<and> get n s' = Some (bs, s'') \<and> bytes_of s'' = []"
  using put_law [of s bs] get_law [of _ n] assms by (force simp: byte_op_ok_def min_def)

end

end
