(* ===== verification/Cbuffer_queue.thy ===== *)
theory Cbuffer_queue
  imports Cbuffer Byte_queue
begin

text \<open>
  What the operations of \<^verbatim>\<open>ds/cbuffer.c\<close> do to the byte sequence a buffer holds.
  \<open>cb_bytes\<close> reads that sequence off the array, the cursors and the full flag; reading
  drops a prefix of it and writing appends to it, across the end of the array and
  whatever the sizes. The last section states the contract as a locale of byte queues
  and interprets it on the buffer.
\<close>

section \<open>Invariant and abstraction\<close>

definition cbuffer_wf :: "cbuffer \<Rightarrow> bool" where
  "cbuffer_wf b \<longleftrightarrow>
     length (cb_data b) = unat (cb_cap b) \<and> cb_head b < cb_cap b \<and> cb_tail b < cb_cap b \<and>
     (cb_isfull b \<longrightarrow> cb_head b = cb_tail b)"

definition cb_bytes :: "cbuffer \<Rightarrow> u8 list" where
  "cb_bytes b = ring (cb_data b) (unat (cb_tail b)) (unat (cbuffer_len b))"

lemma length_cb_bytes [simp]: "length (cb_bytes b) = unat (cbuffer_len b)"
  by (simp add: cb_bytes_def)

lemma cbuffer_wf_nat:
  "cbuffer_wf b \<longleftrightarrow>
     length (cb_data b) = unat (cb_cap b) \<and> unat (cb_head b) < unat (cb_cap b) \<and>
     unat (cb_tail b) < unat (cb_cap b) \<and>
     (cb_isfull b \<longrightarrow> unat (cb_head b) = unat (cb_tail b))"
  by (auto simp: cbuffer_wf_def wnat u32_eq_nat)

lemma cbuffer_len_nat:
  "cbuffer_wf b \<Longrightarrow> unat (cbuffer_len b) =
     (if cb_isfull b then unat (cb_cap b)
      else if unat (cb_tail b) \<le> unat (cb_head b) then unat (cb_head b) - unat (cb_tail b)
      else unat (cb_cap b) - (unat (cb_tail b) - unat (cb_head b)))"
  by (auto simp: cbuffer_len_def cbuffer_wf_nat wnat)

lemma cbuffer_len_le: "cbuffer_wf b \<Longrightarrow> unat (cbuffer_len b) \<le> unat (cb_cap b)"
  by (auto simp: cbuffer_len_nat cbuffer_wf_nat)

lemma cbuffer_wf_dbg: "cbuffer_wf b \<Longrightarrow> cbuffer_dbg b"
  using cbuffer_len_le by (auto simp: cbuffer_dbg_def wnat cbuffer_wf_nat u32_eq_nat)

lemma cb_head_ring:
  "cbuffer_wf b \<Longrightarrow> (unat (cb_tail b) + unat (cbuffer_len b)) mod unat (cb_cap b) = unat (cb_head b)"
  using cbuffer_len_le [of b] by (auto simp: cbuffer_len_nat cbuffer_wf_nat mod_wrap)

section \<open>Reading\<close>

text \<open>The buffer after \<open>n\<close> bytes have left it on the tail side.\<close>

definition cb_consume :: "cbuffer \<Rightarrow> nat \<Rightarrow> cbuffer" where
  "cb_consume b n =
     b\<lparr>cb_tail := u32_of ((unat (cb_tail b) + n) mod unat (cb_cap b)),
       cb_isfull := cb_isfull b \<and> n = 0\<rparr>"

lemma cb_consume_sel [simp]:
  "cb_data (cb_consume b n) = cb_data b" "cb_cap (cb_consume b n) = cb_cap b"
  "cb_head (cb_consume b n) = cb_head b"
  "cb_isfull (cb_consume b n) = (cb_isfull b \<and> n = 0)"
  "0 < unat (cb_cap b) \<Longrightarrow>
   unat (cb_tail (cb_consume b n)) = (unat (cb_tail b) + n) mod unat (cb_cap b)"
  by (simp_all add: cb_consume_def)

lemma cb_consume_len:
  assumes "cbuffer_wf b" and "n \<le> unat (cbuffer_len b)"
  shows "cbuffer_wf (cb_consume b n)"
    and "unat (cbuffer_len (cb_consume b n)) = unat (cbuffer_len b) - n"
proof -
  have wf: "cbuffer_wf (cb_consume b n)"
    using assms cbuffer_len_le [of b]
    by (auto simp: cbuffer_wf_nat mod_wrap cbuffer_len_nat split: if_splits)
  then show "cbuffer_wf (cb_consume b n)" .
  show "unat (cbuffer_len (cb_consume b n)) = unat (cbuffer_len b) - n"
    using assms cbuffer_len_le [of b] cbuffer_len_nat [OF wf] cbuffer_len_nat [OF assms(1)]
    by (auto simp: cbuffer_wf_nat mod_wrap split: if_splits)
qed

lemma cb_consume_bytes:
  assumes "cbuffer_wf b" and "n \<le> unat (cbuffer_len b)"
  shows "cb_bytes (cb_consume b n) = drop n (cb_bytes b)"
  using assms cb_consume_len [OF assms]
  by (simp add: cb_bytes_def drop_ring) (auto simp: cbuffer_wf_nat ring_mod_len)

lemma cb_consume_consume:
  "0 < unat (cb_cap b) \<Longrightarrow> cb_consume (cb_consume b m) n = cb_consume b (m + n)"
  by (simp add: cb_consume_def mod_add_left_eq add.assoc)

lemma copy_out_Some:
  "length out \<ge> unat at + unat n \<Longrightarrow> unat from + unat n \<le> length data \<Longrightarrow>
   copy_out (Some out) at data from n = Some (Some (overwrite out (unat at) (take (unat n) (drop (unat from) data))))"
  by (simp add: copy_out_def)

lemma copy_out_None [simp]: "copy_out None at data from n = Some None"
  by (simp add: copy_out_def)

lemma cb_bytes_slice:
  assumes "cbuffer_wf b" and "n \<le> unat (cbuffer_len b)" and "unat (cb_tail b) + n \<le> unat (cb_cap b)"
  shows "take n (drop (unat (cb_tail b)) (cb_data b)) = take n (cb_bytes b)"
  using assms by (simp add: cb_bytes_def take_ring ring_slice cbuffer_wf_nat)

lemma cb_tail_step:
  assumes "cbuffer_wf b" and "0 < unat n" and "unat (cb_tail b) + unat n \<le> unat (cb_cap b)"
  shows "b\<lparr>cb_tail := (cb_tail b + n) mod cb_cap b, cb_isfull := False\<rparr> = cb_consume b (unat n)"
proof -
  have "unat (cb_tail b) + unat n < 4294967296"
    using assms(3) u32_less_bound [of "cb_cap b"] by linarith
  then show ?thesis
    using assms by (simp add: cb_consume_def u32_add_mod)
qed

lemma overwrite_take_step:
  assumes "m \<le> n" and "n \<le> length bs" and "off + n \<le> length out"
  shows "overwrite (overwrite out off (take m bs)) (off + m) (take (n - m) (drop m bs))
         = overwrite out off (take n bs)"
proof -
  have "take n bs = take m bs @ take (n - m) (drop m bs)"
    using assms by (metis le_add_diff_inverse take_add)
  moreover have "overwrite (overwrite out off (take m bs)) (off + length (take m bs)) (take (n - m) (drop m bs))
      = overwrite out off (take m bs @ take (n - m) (drop m bs))"
    by (rule overwrite_overwrite) (use assms in simp)
  moreover have "length (take m bs) = m" using assms by simp
  ultimately show ?thesis by metis
qed

text \<open>The length of the first contiguous region of readable bytes.\<close>

definition cb_run :: "cbuffer \<Rightarrow> nat" where
  "cb_run b = (if \<not> cb_isfull b \<and> unat (cb_tail b) < unat (cb_head b)
               then unat (cb_head b) - unat (cb_tail b) else unat (cb_cap b) - unat (cb_tail b))"

lemma cb_run:
  assumes "cbuffer_wf b"
  shows "0 < cb_run b" and "unat (cb_tail b) + cb_run b \<le> unat (cb_cap b)"
    and "0 < unat (cbuffer_len b) \<Longrightarrow> cb_run b \<le> unat (cbuffer_len b)"
  using assms cbuffer_len_nat [OF assms] unfolding cb_run_def cbuffer_wf_nat
  by (simp_all split: if_splits)

lemma cbuffer_read_loop_ok:
  assumes "cbuffer_wf b" and "bread \<le> btoread"
    and "unat btoread - unat bread \<le> unat (cbuffer_len b)"
    and "\<forall>out. dst = Some out \<longrightarrow> unat btoread \<le> length out"
  shows "cbuffer_read_loop btoread dst bread b =
     Some (map_option (\<lambda>out. overwrite out (unat bread)
             (take (unat btoread - unat bread) (cb_bytes b))) dst,
           btoread, cb_consume b (unat btoread - unat bread))"
  using assms
proof (induction "unat btoread - unat bread" arbitrary: bread b dst rule: less_induct)
  case less
  show ?case
  proof (cases "bread < btoread")
    case False
    then have "bread = btoread" using less.prems by simp
    moreover have "cb_consume b 0 = b" 
      using less.prems by (simp add: cb_consume_def cbuffer_wf_nat)
    ultimately show ?thesis
      by (subst cbuffer_read_loop.simps) (cases dst; simp)
  next
    case True
    define nxt where "nxt = (if \<not> cb_isfull b \<and> cb_head b > cb_tail b
                   then min (cb_head b - cb_tail b) (btoread - bread)
                   else min (cb_cap b - cb_tail b) (btoread - bread))"
    have C: "0 < unat (cb_cap b)" "unat (cb_tail b) < unat (cb_cap b)" "length (cb_data b) = unat (cb_cap b)"
      using less.prems(1) by (auto simp: cbuffer_wf_nat)
    have un: "unat nxt = min (cb_run b) (unat btoread - unat bread)"
      using True C by (simp add: nxt_def cb_run_def word_less_nat_alt)
    have lt: "unat bread < unat btoread" using True by (simp add: wnat)
    have nxt: "0 < unat nxt" "unat nxt \<le> unat btoread - unat bread"
      "unat (cb_tail b) + unat nxt \<le> unat (cb_cap b)" "unat nxt \<le> unat (cbuffer_len b)"
      using lt cb_run [OF less.prems(1)] less.prems(3) by (simp_all add: un min_def) linarith
    have br: "unat (bread + nxt) = unat bread + unat nxt"
      using nxt(2) lt u32_less_bound [of btoread] by (intro u32_add_nat) linarith
    let ?b = "cb_consume b (unat nxt)"
    let ?out = "map_option (\<lambda>out. overwrite out (unat bread) (take (unat nxt) (cb_bytes b))) dst"
    have copied: "copy_out dst bread (cb_data b) (cb_tail b) nxt = Some ?out"
      using nxt C less.prems(1,4) True
      by (cases dst) (simp_all add: copy_out_Some cb_bytes_slice wnat)
    have step: "cbuffer_read_loop btoread dst bread b = cbuffer_read_loop btoread ?out (bread + nxt) ?b"
      using True copied cb_tail_step [OF less.prems(1) nxt(1,3)]
      by (subst cbuffer_read_loop.simps) (simp add: nxt_def [symmetric])
    note wf' = cb_consume_len [OF less.prems(1) nxt(4)]
    have "cbuffer_read_loop btoread ?out (bread + nxt) ?b = Some (map_option (\<lambda>out. overwrite out (unat (bread + nxt))
             (take (unat btoread - unat (bread + nxt)) (cb_bytes ?b))) ?out,
           btoread, cb_consume ?b (unat btoread - unat (bread + nxt)))"
    proof (rule less.hyps)
      show "unat btoread - unat (bread + nxt) < unat btoread - unat bread"
        using nxt True br by (simp add: wnat)
      show "bread + nxt \<le> btoread" using br nxt by (simp add: wnat)
      show "\<forall>out. ?out = Some out \<longrightarrow> unat btoread \<le> length out"
        using less.prems(4) nxt True by (auto simp: wnat)
    qed (use wf' less.prems br in simp_all)
    moreover have "cb_consume ?b (unat btoread - unat (bread + nxt)) = cb_consume b (unat btoread - unat bread)"
      using C br nxt by (simp add: cb_consume_consume)
    moreover have "map_option (\<lambda>out. overwrite out (unat (bread + nxt))
             (take (unat btoread - unat (bread + nxt)) (cb_bytes ?b))) ?out
         = map_option (\<lambda>out. overwrite out (unat bread) (take (unat btoread - unat bread) (cb_bytes b))) dst"
    proof (cases dst)
      case (Some out)
      have "overwrite (overwrite out (unat bread) (take (unat nxt) (cb_bytes b))) (unat bread + unat nxt)
              (take (unat btoread - unat bread - unat nxt) (drop (unat nxt) (cb_bytes b)))
          = overwrite out (unat bread) (take (unat btoread - unat bread) (cb_bytes b))"
        by (rule overwrite_take_step) (use Some less.prems nxt True in \<open>auto simp: wnat\<close>)
      then show ?thesis
        using Some br by (simp add: cb_consume_bytes [OF less.prems(1) nxt(4)])
    qed simp
    ultimately show ?thesis using step by simp
  qed
qed

lemma cbuffer_copy_loop_eq:
  assumes "cbuffer_read_loop btoread dst bread b = Some r"
  shows "cbuffer_copy_loop btoread dst bread (cb_tail b) (cb_isfull b)
           (b0\<lparr>cb_data := cb_data b, cb_head := cb_head b, cb_cap := cb_cap b\<rparr>)
         = Some (fst r, fst (snd r))"
proof (rule cbuffer_read_loop.raw_induct [where P = "\<lambda>btoread dst bread b r.
    cbuffer_copy_loop btoread dst bread (cb_tail b) (cb_isfull b)
      (b0\<lparr>cb_data := cb_data b, cb_head := cb_head b, cb_cap := cb_cap b\<rparr>)
    = Some (fst r, fst (snd r))", OF _ assms], goal_cases)
  case (1 rec btoread dst bread b r)
  show ?case
  proof (cases "bread < btoread")
    case True
    define nxt where "nxt = (if \<not> cb_isfull b \<and> cb_tail b < cb_head b
      then min (cb_head b - cb_tail b) (btoread - bread) else min (cb_cap b - cb_tail b) (btoread - bread))"
    from 1(2) True obtain d where
      d: "copy_out dst bread (cb_data b) (cb_tail b) nxt = Some d" and
      r: "rec btoread d (bread + nxt)
            (b\<lparr>cb_tail := (cb_tail b + nxt) mod cb_cap b, cb_isfull := False\<rparr>) = Some r"
      unfolding nxt_def [symmetric] Let_def by (auto simp: bind_Some_iff)
    from 1(1) [OF r] d True show ?thesis
      by (subst cbuffer_copy_loop.simps) (simp add: nxt_def [symmetric] Let_def cong: if_cong)
  next
    case False
    then show ?thesis
      using 1(2) by (subst cbuffer_copy_loop.simps) auto
  qed
qed

text \<open>The number of elements a read or copy of \<open>n\<close> elements of \<open>sz\<close> bytes transfers.\<close>

definition cb_nread :: "u32 \<Rightarrow> u32 \<Rightarrow> cbuffer \<Rightarrow> u32" where
  "cb_nread sz n b = min n (cbuffer_len b div sz)"

lemma if_less_min: "(if (n :: 'a :: linorder) < m then n else m) = min n m"
  by (auto simp: min_def)

lemma div_bytes_le:
  assumes "k \<le> (l :: u32) div sz"
  shows "unat (k * sz) = unat k * unat sz" and "unat k * unat sz \<le> unat l"
proof -
  have "unat k \<le> unat l div unat sz" using assms by (simp add: wnat)
  then show le: "unat k * unat sz \<le> unat l"
    by (meson div_times_less_eq_dividend le_trans mult_le_mono1)
  then show "unat (k * sz) = unat k * unat sz"
    using u32_less_bound [of l] by (intro u32_mult_nat) linarith
qed

lemmas cb_nread_bytes = div_bytes_le [of "cb_nread sz n b" "cbuffer_len b" sz for sz n b,
  unfolded cb_nread_def, OF min.cobounded2, folded cb_nread_def]

lemma cbuffer_read_ok:
  assumes wf: "cbuffer_wf b" and "0 < sz" and "0 < n"
    and room: "\<forall>d. dest = Some d \<longrightarrow> unat (cb_nread sz n b * sz) \<le> length d"
  shows "cbuffer_read dest sz n b =
     Some (cb_nread sz n b,
           map_option (\<lambda>d. overwrite d 0 (take (unat (cb_nread sz n b * sz)) (cb_bytes b))) dest,
           cb_consume b (unat (cb_nread sz n b * sz)))"
proof -
  have "cbuffer_read_loop (cb_nread sz n b * sz) dest 0 b =
     Some (map_option (\<lambda>out. overwrite out (unat (0::u32))
             (take (unat (cb_nread sz n b * sz) - unat (0::u32)) (cb_bytes b))) dest,
           cb_nread sz n b * sz, cb_consume b (unat (cb_nread sz n b * sz) - unat (0::u32)))"
    by (rule cbuffer_read_loop_ok) (use assms cb_nread_bytes [of sz n b] in simp_all)
  then show ?thesis
    using assms cbuffer_wf_dbg [OF wf]
    by (simp add: cbuffer_read_def if_less_min cb_nread_def Let_def)
qed

lemma cbuffer_copy_ok:
  assumes wf: "cbuffer_wf b" and "0 < sz" and "0 < n"
    and room: "\<forall>d. dest = Some d \<longrightarrow> unat (cb_nread sz n b * sz) \<le> length d"
  shows "cbuffer_copy dest sz n b =
     Some (cb_nread sz n b,
           map_option (\<lambda>d. overwrite d 0 (take (unat (cb_nread sz n b * sz)) (cb_bytes b))) dest)"
proof -
  have "cbuffer_read_loop (cb_nread sz n b * sz) dest 0 b =
     Some (map_option (\<lambda>out. overwrite out (unat (0::u32))
             (take (unat (cb_nread sz n b * sz) - unat (0::u32)) (cb_bytes b))) dest,
           cb_nread sz n b * sz, cb_consume b (unat (cb_nread sz n b * sz) - unat (0::u32)))"
    by (rule cbuffer_read_loop_ok) (use assms cb_nread_bytes [of sz n b] in simp_all)
  from cbuffer_copy_loop_eq [OF this, of b]
  show ?thesis
    using assms cbuffer_wf_dbg [OF wf]
    by (simp add: cbuffer_copy_def if_less_min cb_nread_def Let_def)
qed

section \<open>Writing\<close>

lemma cb_grow:
  assumes wf: "cbuffer_wf b" and n: "0 < n" "unat (cbuffer_len b) + n \<le> unat (cb_cap b)"
    and d: "length d = unat (cb_cap b)" and h: "unat h = (unat (cb_head b) + n) mod unat (cb_cap b)"
  defines "b1 \<equiv> b\<lparr>cb_data := d, cb_head := h\<rparr>"
  defines "b2 \<equiv> (if cb_head b1 = cb_tail b1 then b1\<lparr>cb_isfull := True\<rparr> else b1)"
  shows "cbuffer_wf b2" and "unat (cbuffer_len b2) = unat (cbuffer_len b) + n"
    and "cb_bytes b2 = ring d (unat (cb_tail b)) (unat (cbuffer_len b) + n)"
    and "cb_cap b2 = cb_cap b" and "cb_tail b2 = cb_tail b"
proof -
  have sel [simp]: "cb_data b2 = d" "cb_cap b2 = cb_cap b" "cb_tail b2 = cb_tail b" "cb_head b2 = h"
    "cb_isfull b2 \<longleftrightarrow> cb_isfull b \<or> unat h = unat (cb_tail b)"
    by (auto simp: b2_def b1_def u32_eq_nat)
  have nf: "\<not> cb_isfull b" using n cbuffer_len_nat [OF wf] by auto
  show wf2: "cbuffer_wf b2"
    using wf d h nf by (auto simp: cbuffer_wf_nat)
  show len: "unat (cbuffer_len b2) = unat (cbuffer_len b) + n"
    using nf n wf h cbuffer_len_nat [OF wf2] cbuffer_len_nat [OF wf]
    by (auto simp: cbuffer_wf_nat mod_wrap split: if_splits)
  show "cb_bytes b2 = ring d (unat (cb_tail b)) (unat (cbuffer_len b) + n)"
    by (simp add: cb_bytes_def len)
  show "cb_cap b2 = cb_cap b" "cb_tail b2 = cb_tail b" by simp_all
qed

lemma cbuffer_write_loop_ok:
  assumes "cbuffer_wf b" and "bwrite \<le> btowrite"
    and "unat (cbuffer_len b) + (unat btowrite - unat bwrite) \<le> unat (cb_cap b)"
    and "unat btowrite \<le> length input"
  shows "\<exists>b'. cbuffer_write_loop input btowrite bwrite b = Some (btowrite, b') \<and> cbuffer_wf b' \<and>
     cb_bytes b' = cb_bytes b @ take (unat btowrite - unat bwrite) (drop (unat bwrite) input) \<and>
     cb_cap b' = cb_cap b \<and> cb_tail b' = cb_tail b"
  using assms
proof (induction "unat btowrite - unat bwrite" arbitrary: bwrite b rule: less_induct)
  case less
  show ?case
  proof (cases "bwrite < btowrite")
    case False
    then have "bwrite = btowrite" using less.prems by simp
    then show ?thesis
      using less.prems by (subst cbuffer_write_loop.simps) simp
  next
    case True
    define nxt where "nxt = min (if cb_tail b \<le> cb_head b then cb_cap b - cb_head b
                                  else cb_tail b - cb_head b) (btowrite - bwrite)"
    have C: "unat (cb_head b) < unat (cb_cap b)" "unat (cb_tail b) < unat (cb_cap b)"
      "length (cb_data b) = unat (cb_cap b)"
      using less.prems(1) by (auto simp: cbuffer_wf_nat)
    have lt: "unat bwrite < unat btowrite" using True by (simp add: wnat)
    have un: "unat nxt = min (if cb_tail b \<le> cb_head b then unat (cb_cap b) - unat (cb_head b)
                                  else unat (cb_tail b) - unat (cb_head b)) (unat btowrite - unat bwrite)"
      using lt C by (simp add: nxt_def wnat)
    have nxt: "0 < unat nxt" "unat nxt \<le> unat btowrite - unat bwrite"
      "unat (cb_head b) + unat nxt \<le> unat (cb_cap b)"
      using lt C less.prems(3) unfolding un by (auto simp add: wnat min_def)
    have br: "unat (bwrite + nxt) = unat bwrite + unat nxt"
      using nxt(2) lt u32_less_bound [of btowrite] by (intro u32_add_nat) linarith
    let ?bs = "take (unat nxt) (drop (unat bwrite) input)"
    let ?d = "overwrite (cb_data b) (unat (cb_head b)) ?bs"
    let ?b1 = "b\<lparr>cb_data := ?d, cb_head := (cb_head b + nxt) mod cb_cap b\<rparr>"
    let ?b2 = "if cb_head ?b1 = cb_tail ?b1 then ?b1\<lparr>cb_isfull := True\<rparr> else ?b1"
    have lbs: "length ?bs = unat nxt" using nxt lt less.prems(4) by simp
    have nz: "nxt \<noteq> 0" using nxt(1) by auto
    have pick: "cbuffer_write_next btowrite bwrite b = Some (nxt, b)"
      using lt C(1) nz
      by (cases "cb_tail b \<le> cb_head b")
         (auto simp: cbuffer_write_next_def nxt_def Let_def word_less_nat_alt word_le_nat_alt)
    have "mem_load input (unat bwrite) (unat nxt) = Some ?bs"
      using nxt lt less.prems(4) by simp
    moreover have "mem_store (cb_data b) (unat (cb_head b)) ?bs = Some ?d"
      using nxt lbs C by simp
    ultimately have step: "cbuffer_write_loop input btowrite bwrite b =
                cbuffer_write_loop input btowrite (bwrite + nxt) ?b2"
      using True pick by (subst cbuffer_write_loop.simps) (simp add: Let_def)
    have h: "unat ((cb_head b + nxt) mod cb_cap b) = (unat (cb_head b) + unat nxt) mod unat (cb_cap b)"
      using nxt(3) by (intro u32_add_mod_nat u32_fits)
    have len: "unat (cbuffer_len b) + unat nxt \<le> unat (cb_cap b)"
      using less.prems(3) nxt by linarith
    have d: "length ?d = unat (cb_cap b)" using nxt lbs C by simp
    note grow = cb_grow [OF less.prems(1) nxt(1) len d h]
    have app: "ring ?d (unat (cb_tail b)) (unat (cbuffer_len b) + unat nxt) = cb_bytes b @ ?bs"
    proof -
      have "ring ?d (unat (cb_tail b)) (unat (cbuffer_len b) + length ?bs) = 
            ring (cb_data b) (unat (cb_tail b)) (unat (cbuffer_len b)) @ ?bs"
        by (rule ring_append) (use C len lbs nxt cb_head_ring [OF less.prems(1)] in simp_all)
      then show ?thesis using lbs by (simp add: cb_bytes_def)
    qed
    have "\<exists>b'. cbuffer_write_loop input btowrite (bwrite + nxt) ?b2 = Some (btowrite, b') \<and> cbuffer_wf b' \<and>
     cb_bytes b' = cb_bytes ?b2 @ take (unat btowrite - unat (bwrite + nxt)) (drop (unat (bwrite + nxt)) input) \<and>
     cb_cap b' = cb_cap ?b2 \<and> cb_tail b' = cb_tail ?b2"
      by (rule less.hyps) (use grow br nxt lt less.prems(3,4) in \<open>simp_all add: wnat\<close>)
    moreover have "take (unat btowrite - unat bwrite) (drop (unat bwrite) input) =
      ?bs @ take (unat btowrite - unat (bwrite + nxt)) (drop (unat (bwrite + nxt)) input)"
      using take_split [OF nxt(2), of "drop (unat bwrite) input"] by (simp add: br add.commute)
    ultimately show ?thesis
      using grow step app by auto
  qed
qed

definition cb_nwrite :: "u32 \<Rightarrow> u32 \<Rightarrow> cbuffer \<Rightarrow> u32" where
  "cb_nwrite sz n b = min n ((cb_cap b - cbuffer_len b) div sz)"

lemmas cb_nwrite_bytes = div_bytes_le [of "cb_nwrite sz n b" "cb_cap b - cbuffer_len b" sz for sz n b,
  unfolded cb_nwrite_def, OF min.cobounded2, folded cb_nwrite_def]

lemma cbuffer_write_ok:
  assumes wf: "cbuffer_wf b" and "0 < sz" and "0 < n"
    and src: "unat (cb_nwrite sz n b * sz) \<le> length src"
  shows "\<exists>b'. cbuffer_write src sz n b = Some (cb_nwrite sz n b, b') \<and> cbuffer_wf b' \<and>
     cb_bytes b' = cb_bytes b @ take (unat (cb_nwrite sz n b * sz)) src \<and>
     cb_cap b' = cb_cap b \<and> cb_tail b' = cb_tail b"
proof -
  have le: "cbuffer_len b \<le> cb_cap b" using cbuffer_len_le [OF wf] by (simp add: wnat)
  have "\<exists>b'. cbuffer_write_loop src (cb_nwrite sz n b * sz) 0 b = Some (cb_nwrite sz n b * sz, b') \<and> cbuffer_wf b' \<and>
     cb_bytes b' = cb_bytes b @ take (unat (cb_nwrite sz n b * sz) - unat (0::u32)) (drop (unat (0::u32)) src) \<and>
     cb_cap b' = cb_cap b \<and> cb_tail b' = cb_tail b"
    by (rule cbuffer_write_loop_ok)
       (use assms cb_nwrite_bytes [of sz n b] cbuffer_len_le [OF wf] in simp_all)
  then show ?thesis
    using assms cbuffer_wf_dbg [OF wf] le
    by (auto simp: cbuffer_write_def if_less_min cb_nwrite_def Let_def)
qed


section \<open>Moving and copying between buffers\<close>

lemma cbuffer_write_all:
  assumes wf: "cbuffer_wf b" and n: "0 < n" "unat (cbuffer_len b) + unat n \<le> unat (cb_cap b)"
    and src: "unat n \<le> length src"
  shows "\<exists>b'. cbuffer_write src 1 n b = Some (n, b') \<and> cbuffer_wf b' \<and>
     cb_bytes b' = cb_bytes b @ take (unat n) src \<and> cb_cap b' = cb_cap b"
proof -
  have "unat n \<le> unat (cb_cap b - cbuffer_len b)"
    using n cbuffer_len_le [OF wf] by simp
  then have "cb_nwrite 1 n b = n"
    by (simp add: cb_nwrite_def min_def word_le_nat_alt)
  then show ?thesis
    using cbuffer_write_ok [OF wf _ n(1), of 1 src] src by auto
qed

lemma cb_first_piece:
  assumes wf: "cbuffer_wf b" and m: "0 < unat m" "unat m \<le> unat (cbuffer_len b)"
  defines "r \<equiv> (if cb_isfull b \<or> cb_head b \<le> cb_tail b then cb_cap b - cb_tail b
                 else cb_head b - cb_tail b)"
  shows "unat (min m r) = min (cb_run b) (unat m)"
proof -
  have "unat r = cb_run b"
    using wf by (auto simp: r_def cb_run_def cbuffer_wf_nat wnat)
  then show ?thesis by (simp add: wnat min_def)
qed

lemma cb_write_slice:
  assumes ws: "cbuffer_wf src" and wd: "cbuffer_wf dest"
    and f: "0 < unat f" "unat f \<le> unat (cbuffer_len src)" "unat (cb_tail src) + unat f \<le> unat (cb_cap src)"
    and room: "unat (cbuffer_len dest) + unat f \<le> unat (cb_cap dest)"
  shows "\<exists>d. cbuffer_write (drop (unat (cb_tail src)) (cb_data src)) 1 f dest = Some (f, d) \<and> cbuffer_wf d \<and>
     cb_bytes d = cb_bytes dest @ take (unat f) (cb_bytes src) \<and> cb_cap d = cb_cap dest"
proof -
  have "unat f \<le> length (drop (unat (cb_tail src)) (cb_data src))"
    using f(3) ws by (simp add: cbuffer_wf_nat)
  then show ?thesis
    using cbuffer_write_all [OF wd _ room, of "drop (unat (cb_tail src)) (cb_data src)"] f(1)
      cb_bytes_slice [OF ws f(2,3)]
    by (simp add: word_less_nat_alt)
qed

lemma cb_notfull_update:
  "\<not> cb_isfull b \<Longrightarrow> b\<lparr>cb_tail := t, cb_isfull := False\<rparr> = b\<lparr>cb_tail := t\<rparr>"
  by (cases b) simp

lemma cb_two_writes:
  assumes ws: "cbuffer_wf src" and wd: "cbuffer_wf dest"
    and m: "0 < unat m" "unat m \<le> unat (cbuffer_len src)"
      "unat (cbuffer_len dest) + unat m \<le> unat (cb_cap dest)"
    and f: "unat f = min (cb_run src) (unat m)"
  shows "\<exists>d1. cbuffer_write (drop (unat (cb_tail src)) (cb_data src)) 1 f dest = Some (f, d1) \<and>
     src\<lparr>cb_tail := (cb_tail src + f) mod cb_cap src, cb_isfull := False\<rparr> = cb_consume src (unat f) \<and>
     (cb_tail src + f) mod cb_cap src = cb_tail (cb_consume src (unat f)) \<and>
     (if 0 < m - f
      then \<exists>d2. cbuffer_write (drop (unat (cb_tail (cb_consume src (unat f)))) (cb_data src)) 1 (m - f) d1
               = Some (m - f, d2) \<and> cbuffer_wf d2 \<and>
             cb_bytes d2 = cb_bytes dest @ take (unat m) (cb_bytes src) \<and> cb_cap d2 = cb_cap dest \<and>
             (cb_consume src (unat f))\<lparr>cb_tail := (cb_tail (cb_consume src (unat f)) + (m - f)) mod cb_cap src\<rparr>
               = cb_consume src (unat m)
      else unat f = unat m \<and> cbuffer_wf d1 \<and>
           cb_bytes d1 = cb_bytes dest @ take (unat m) (cb_bytes src) \<and> cb_cap d1 = cb_cap dest)"
proof -
  note run = cb_run [OF ws]
  have C: "length (cb_data src) = unat (cb_cap src)" "unat (cb_tail src) < unat (cb_cap src)"
    using ws by (auto simp: cbuffer_wf_nat)
  have f': "0 < unat f" "unat f \<le> unat (cbuffer_len src)"
    "unat (cb_tail src) + unat f \<le> unat (cb_cap src)" "unat f \<le> unat m"
    using f m run by auto
  obtain d1 where d1: "cbuffer_write (drop (unat (cb_tail src)) (cb_data src)) 1 f dest = Some (f, d1)"
    "cbuffer_wf d1" "cb_bytes d1 = cb_bytes dest @ take (unat f) (cb_bytes src)" "cb_cap d1 = cb_cap dest"
    using cb_write_slice [OF ws wd f'(1-3)] f'(4) m(3) by auto
  have adv: "src\<lparr>cb_tail := (cb_tail src + f) mod cb_cap src, cb_isfull := False\<rparr> = cb_consume src (unat f)"
    by (rule cb_tail_step [OF ws f'(1,3)])
  have t1: "(cb_tail src + f) mod cb_cap src = cb_tail (cb_consume src (unat f))"
    using adv by (metis cb_consume_sel(1) cbuffer.select_convs(4) cbuffer.surjective cbuffer.update_convs(4,5))
  show ?thesis
  proof (cases "unat f < unat m")
    case False
    then have fm: "f = m" using f' by (simp add: u32_eq_nat)
    then show ?thesis using d1 adv t1 by (intro exI [of _ d1]) simp
  next
    case True
    let ?s1 = "cb_consume src (unat f)"
    have r: "unat (m - f) = unat m - unat f" using f' by simp
    have "unat f = cb_run src" using f True by (simp add: min_def split: if_splits)
    then have t0: "unat (cb_tail ?s1) = 0"
      using True m C cbuffer_len_nat [OF ws] ws by (auto simp: cb_run_def cbuffer_wf_nat split: if_splits)
    note s1 = cb_consume_len [OF ws f'(2)] cb_consume_bytes [OF ws f'(2)]
    have ml: "unat m \<le> unat (cb_cap src)" using m(2) cbuffer_len_le [OF ws] by linarith
    have ld: "unat (cbuffer_len d1) = unat (cbuffer_len dest) + unat f"
      using arg_cong [OF d1(3), of length] f' by simp
    have fits: "unat (cb_tail ?s1) + unat (m - f) \<le> unat (cb_cap ?s1)"
      using t0 r ml by simp
    have rest: "0 < unat (m - f)" "unat (m - f) \<le> unat (cbuffer_len ?s1)"
      "unat (cbuffer_len d1) + unat (m - f) \<le> unat (cb_cap d1)"
      using r True s1(2) m d1(4) ld f'(4) by auto
    obtain d2 where d2: "cbuffer_write (drop (unat (cb_tail ?s1)) (cb_data src)) 1 (m - f) d1 = Some (m - f, d2)"
      "cbuffer_wf d2" "cb_bytes d2 = cb_bytes d1 @ take (unat (m - f)) (cb_bytes ?s1)" "cb_cap d2 = cb_cap d1"
      using cb_write_slice [OF s1(1) d1(2) rest(1,2) fits rest(3)] by auto
    have whole: "cb_bytes d2 = cb_bytes dest @ take (unat m) (cb_bytes src)"
      using d1(3) d2(3) s1(3) r take_split [OF f'(4), of "cb_bytes src"] by simp
    have "?s1\<lparr>cb_tail := (cb_tail ?s1 + (m - f)) mod cb_cap src\<rparr> = cb_consume ?s1 (unat (m - f))"
      using cb_tail_step [OF s1(1) rest(1) fits] f'(1) by (simp add: cb_notfull_update)
    also have "\<dots> = cb_consume src (unat m)"
      using C r f' by (simp add: cb_consume_consume)
    finally show ?thesis
      using d1 d2 whole adv t1 True r by (intro exI [of _ d1]) (simp add: word_less_nat_alt)
  qed
qed

definition cb_nmove :: "u32 \<Rightarrow> u32 \<Rightarrow> cbuffer \<Rightarrow> cbuffer \<Rightarrow> u32" where
  "cb_nmove sz n dest src =
     min ((cb_cap dest - cbuffer_len dest) div sz) (min n (cbuffer_len src div sz))"

lemma cb_nmove_bytes:
  assumes "cbuffer_wf dest"
  shows "unat (cb_nmove sz n dest src * sz) = unat (cb_nmove sz n dest src) * unat sz"
    and "unat (cb_nmove sz n dest src) * unat sz \<le> unat (cbuffer_len src)"
    and "unat (cbuffer_len dest) + unat (cb_nmove sz n dest src) * unat sz \<le> unat (cb_cap dest)"
proof -
  have s: "cb_nmove sz n dest src \<le> cbuffer_len src div sz"
    and d: "cb_nmove sz n dest src \<le> (cb_cap dest - cbuffer_len dest) div sz"
    by (auto simp: cb_nmove_def min.coboundedI2)
  show "unat (cb_nmove sz n dest src * sz) = unat (cb_nmove sz n dest src) * unat sz"
    and "unat (cb_nmove sz n dest src) * unat sz \<le> unat (cbuffer_len src)"
    using div_bytes_le [OF s] by auto
  show "unat (cbuffer_len dest) + unat (cb_nmove sz n dest src) * unat sz \<le> unat (cb_cap dest)"
    using div_bytes_le(2) [OF d] cbuffer_len_le [OF assms] by simp
qed

lemma cb_consume_0 [simp]: "cbuffer_wf b \<Longrightarrow> cb_consume b 0 = b"
  by (simp add: cb_consume_def cbuffer_wf_nat)

lemma cbuffer_avail_ok: "cbuffer_wf b \<Longrightarrow> cbuffer_avail b = Some (cb_cap b - cbuffer_len b)"
  using cbuffer_len_le [of b] by (simp add: cbuffer_avail_def cbuffer_wf_dbg wnat)

lemma cbuffer_move_ok:
  assumes ws: "cbuffer_wf src" and wd: "cbuffer_wf dest" and "0 < sz" and "0 < n"
  defines "k \<equiv> cb_nmove sz n dest src"
  shows "\<exists>dest'. cbuffer_cbuffer_move dest sz n src = Some (k, dest', cb_consume src (unat (k * sz))) \<and>
     cbuffer_wf dest' \<and> cb_bytes dest' = cb_bytes dest @ take (unat (k * sz)) (cb_bytes src) \<and>
     cb_cap dest' = cb_cap dest"
proof (cases "k = 0")
  case True
  then show ?thesis
    using assms by (auto simp: cbuffer_cbuffer_move_def cbuffer_wf_dbg cbuffer_avail_ok Let_def
        if_less_min cb_nmove_def word_neq_0_conv)
next
  case False
  let ?r = "if cb_isfull src \<or> cb_head src \<le> cb_tail src then cb_cap src - cb_tail src
            else cb_head src - cb_tail src"
  define f where "f = min (k * sz) ?r"
  note kb = cb_nmove_bytes [OF wd, of sz n src, folded k_def]
  have m: "0 < unat (k * sz)" using False kb(1) \<open>0 < sz\<close> by (simp add: word_neq_0_conv word_less_nat_alt)
  have "unat f = min (cb_run src) (unat (k * sz))"
    unfolding f_def by (rule cb_first_piece) (use ws m kb in simp_all)
  from cb_two_writes [OF ws wd m _ _ this] kb obtain d1 where
    w1: "cbuffer_write (drop (unat (cb_tail src)) (cb_data src)) 1 f dest = Some (f, d1)" and
    adv: "src\<lparr>cb_tail := (cb_tail src + f) mod cb_cap src, cb_isfull := False\<rparr> = cb_consume src (unat f)" and
    rest: "if 0 < k * sz - f
      then \<exists>d2. cbuffer_write (drop (unat (cb_tail (cb_consume src (unat f)))) (cb_data src)) 1 (k * sz - f) d1
               = Some (k * sz - f, d2) \<and> cbuffer_wf d2 \<and>
             cb_bytes d2 = cb_bytes dest @ take (unat (k * sz)) (cb_bytes src) \<and> cb_cap d2 = cb_cap dest \<and>
             (cb_consume src (unat f))\<lparr>cb_tail := (cb_tail (cb_consume src (unat f)) + (k * sz - f)) mod cb_cap src\<rparr>
               = cb_consume src (unat (k * sz))
      else unat f = unat (k * sz) \<and> cbuffer_wf d1 \<and>
           cb_bytes d1 = cb_bytes dest @ take (unat (k * sz)) (cb_bytes src) \<and> cb_cap d1 = cb_cap dest"
    by (metis (no_types, lifting))
  have "cbuffer_cbuffer_move dest sz n src =
      do {
         (_, dest1) \<leftarrow> cbuffer_write (drop (unat (cb_tail src)) (cb_data src)) 1 f dest;
         let src1 = src\<lparr>cb_tail := (cb_tail src + f) mod cb_cap src, cb_isfull := False\<rparr>;
         if k * sz - f > 0
         then do {
           (_, dest2) \<leftarrow> cbuffer_write (drop (unat (cb_tail src1)) (cb_data src1)) 1 (k * sz - f) dest1;
           Some (k, dest2, src1\<lparr>cb_tail := (cb_tail src1 + (k * sz - f)) mod cb_cap src1\<rparr>)
         }
         else Some (k, dest1, src1)
       }"
    using False assms(1-4) unfolding cbuffer_cbuffer_move_def Let_def if_less_min f_def k_def cb_nmove_def
    by (simp add: cbuffer_wf_dbg cbuffer_avail_ok)
  then show ?thesis
    using w1 adv rest by (cases "0 < k * sz - f") (auto simp: Let_def)
qed

lemma cbuffer_copy_move:
  "cbuffer_cbuffer_copy dest sz n src =
     map_option (\<lambda>(k, d, s). (k, d)) (cbuffer_cbuffer_move dest sz n src)"
proof -
  have m: "map_option f (Option.bind x g) = Option.bind x (\<lambda>y. map_option f (g y))" for f g x
    by (cases x) auto
  have i: "map_option f (if c then x else y) = (if c then map_option f x else map_option f y)" for f c x y
    by simp
  show ?thesis
    unfolding cbuffer_cbuffer_copy_def cbuffer_cbuffer_move_def Let_def
    unfolding if_less_min
    by (simp add: m case_prod_unfold if_distrib [of "map_option _"] split del: if_split cong: if_cong)
qed

section \<open>Single elements\<close>

lemma split_load_ok:
  assumes "offset < cap" and "sz \<le> cap" and "length data = unat cap" and "unat sz \<le> length dest"
    and "unat cap \<le> 2147483648"
  shows "split_load data cap offset sz dest = Some (overwrite dest 0 (ring data (unat offset) (unat sz)))"
proof (cases "unat offset + unat sz \<le> unat cap")
  case True
  then show ?thesis
    using assms by (simp add: split_load_def wnat ring_slice)
next
  case False
  let ?f = "unat cap - unat offset"
  have o: "unat offset < unat cap" "unat sz \<le> unat cap" using assms by (simp_all add: wnat)
  have gt: "\<not> offset + sz \<le> cap" using False o assms(5) by (simp add: wnat)
  have f: "unat (cap - offset) = ?f" "?f \<le> unat sz" using o False by auto
  have sub: "unat (sz - (cap - offset)) = unat sz - ?f" using f by simp
  have "ring data (unat offset) (unat sz) = ring data (unat offset) (?f + (unat sz - ?f))"
    using f by simp
  also have "\<dots> = ring data (unat offset) ?f @ ring data (unat cap) (unat sz - ?f)"
    using o by (simp only: ring_add) simp
  also have "ring data (unat cap) (unat sz - ?f) = ring data 0 (unat sz - ?f)"
    using ring_mod_len [OF assms(3), of "unat cap"] by simp
  also have "\<dots> = take (unat sz - ?f) data"
    using o assms(3) by (simp add: ring_slice)
  also have "ring data (unat offset) ?f = take ?f (drop (unat offset) data)"
    using o assms(3) by (simp add: ring_slice)
  finally have r: "ring data (unat offset) (unat sz) =
      take ?f (drop (unat offset) data) @ take (unat sz - ?f) data" .
  have "mem_store (overwrite dest 0 (take ?f (drop (unat offset) data))) ?f (take (unat sz - ?f) data)
    = Some (overwrite (overwrite dest 0 (take ?f (drop (unat offset) data))) ?f (take (unat sz - ?f) data))"
    by (rule mem_store_ok) (use f o assms(3,4) in simp)
  moreover have "overwrite (overwrite dest 0 (take ?f (drop (unat offset) data))) 
     (0 + length (take ?f (drop (unat offset) data))) (take (unat sz - ?f) data) =
     overwrite dest 0 (take ?f (drop (unat offset) data) @ take (unat sz - ?f) data)"
    by (rule overwrite_overwrite) (use f o assms(3,4) in simp)
  ultimately show ?thesis
    using gt f sub o assms(3,4) r by (simp add: split_load_def Let_def)
qed

text \<open>Storing at \<open>h\<close> an element that may straddle the end of the array.\<close>

lemma split_store_ok:
  assumes h: "unat h = (t + n) mod unat cap" and sz: "n + unat sz \<le> unat cap" "0 < unat sz"
    and d: "length data = unat cap" and src: "unat sz \<le> length src"
    and cap: "unat cap \<le> 2147483648"
  shows "\<exists>d'. split_store data cap h sz src = Some d' \<and> length d' = unat cap \<and>
     ring d' t (n + unat sz) = ring data t n @ take (unat sz) src"
proof (cases "unat h + unat sz \<le> unat cap")
  case True
  have "ring (overwrite data (unat h) (take (unat sz) src)) t (n + length (take (unat sz) src))
     = ring data t n @ take (unat sz) src"
    by (rule ring_append) (use True assms in simp_all)
  then show ?thesis
    using True assms by (simp add: split_store_def word_le_nat_alt)
next
  case False
  let ?f = "unat cap - unat h"
  have o: "unat h < unat cap" "unat sz \<le> unat cap" using sz h by simp_all
  have gt: "\<not> h + sz \<le> cap" using False o cap by (simp add: wnat)
  have f: "unat (cap - h) = ?f" "?f \<le> unat sz" using o False by auto
  have sub: "unat (sz - (cap - h)) = unat sz - ?f" using f by simp
  let ?b1 = "take ?f src" and ?b2 = "take (unat sz - ?f) (drop ?f src)"
  let ?d1 = "overwrite data (unat h) ?b1"
  have l: "length ?b1 = ?f" "length ?b2 = unat sz - ?f" using src f o by auto
  have r1: "ring ?d1 t (n + length ?b1) = ring data t n @ ?b1"
    by (rule ring_append) (use assms o l f in simp_all)
  have "0 = (t + (n + ?f)) mod unat cap"
  proof -
    have "(t + (n + ?f)) mod unat cap = (unat h + ?f) mod unat cap"
      by (simp add: h mod_add_left_eq add.assoc)
    then show ?thesis using o by simp
  qed
  moreover have ld: "length ?d1 = unat cap" using o l d by simp
  moreover have "length ?b2 \<le> unat cap" "n + ?f + length ?b2 \<le> unat cap"
    using l f(2) sz by linarith+
  ultimately have r2: "ring (overwrite ?d1 0 ?b2) t (n + ?f + length ?b2) = ring ?d1 t (n + ?f) @ ?b2"
    by (intro ring_append) (simp_all only: add_0)
  have "take (unat sz) src = ?b1 @ ?b2" using take_split [OF f(2)] .
  moreover have "split_store data cap h sz src = Some (overwrite ?d1 0 ?b2)"
    using gt f sub o l src d by (simp add: split_store_def Let_def)
  ultimately show ?thesis
    using r1 r2 l f o d by (simp add: add.assoc)
qed

text \<open>Cursor sums stay below the word size when the capacity is at most half of it.\<close>

definition cbuffer_small :: "cbuffer \<Rightarrow> bool" where
  "cbuffer_small b \<longleftrightarrow> cbuffer_wf b \<and> unat (cb_cap b) \<le> 2147483648"

lemma cbuffer_smallD:
  assumes "cbuffer_small b"
  shows "cbuffer_wf b" "unat (cb_cap b) \<le> 2147483648" "cbuffer_dbg b"
    "length (cb_data b) = unat (cb_cap b)" "unat (cb_tail b) < unat (cb_cap b)"
    "unat (cb_head b) < unat (cb_cap b)" "unat (cbuffer_len b) \<le> unat (cb_cap b)"
  using assms cbuffer_wf_dbg [of b] cbuffer_len_le [of b]
  by (auto simp: cbuffer_small_def cbuffer_wf_nat)

lemma cb_consume_word:
  assumes "cbuffer_small b" and "unat n \<le> unat (cbuffer_len b)"
  shows "unat ((cb_tail b + n) mod cb_cap b) = (unat (cb_tail b) + unat n) mod unat (cb_cap b)"
    and "(cb_tail b + n) mod cb_cap b = cb_tail (cb_consume b (unat n))"
  using cbuffer_smallD [OF assms(1)] assms(2)
  by (simp_all add: u32_add_mod_nat u32_add_mod cb_consume_def)

lemma cbuffer_fakeread_ok:
  assumes b: "cbuffer_small b" and n: "unat n \<le> unat (cbuffer_len b)"
  shows "cbuffer_fakeread b n = Some (cb_consume b (unat n))"
proof -
  have "n = 0 \<or> 0 < unat n" by (auto simp: u32_eq_nat)
  then show ?thesis
    using cbuffer_smallD [OF b] n
    by (auto simp: cbuffer_fakeread_def cb_consume_word(2) [OF assms] cb_consume_def wnat Let_def)
qed

text \<open>The bytes behind the last one, up to the capacity: what a write fills next.\<close>

lemma cbuffer_fakewrite_ok:
  assumes b: "cbuffer_small b" and n: "unat (cbuffer_len b) + unat n \<le> unat (cb_cap b)"
  shows "\<exists>b'. cbuffer_fakewrite b n = Some b' \<and> cbuffer_small b' \<and>
     cb_bytes b' = ring (cb_data b) (unat (cb_tail b)) (unat (cbuffer_len b) + unat n) \<and>
     cb_cap b' = cb_cap b \<and> cb_tail b' = cb_tail b"
proof (cases "n = 0")
  case True
  have "cb_head b mod cb_cap b = cb_head b"
    using cbuffer_smallD [OF b] by (simp add: u32_eq_nat unat_mod_distrib)
  then show ?thesis
    using True b cbuffer_smallD [OF b]
    by (auto simp: cbuffer_fakewrite_def cbuffer_avail_ok cb_bytes_def Let_def)
next
  case False
  then have n0: "0 < unat n" by (auto simp: u32_eq_nat)
  have h: "unat ((cb_head b + n) mod cb_cap b) = (unat (cb_head b) + unat n) mod unat (cb_cap b)"
    using cbuffer_smallD [OF b] n by (simp add: u32_add_mod_nat)
  note g = cb_grow [OF cbuffer_smallD(1) [OF b] n0 n cbuffer_smallD(4) [OF b] h]
  have "n \<le> cb_cap b - cbuffer_len b"
    using n cbuffer_smallD [OF b] by (simp add: word_le_nat_alt)
  then show ?thesis
    using cbuffer_smallD [OF b] g False
    by (auto simp: cbuffer_fakewrite_def cbuffer_avail_ok cbuffer_small_def Let_def word_neq_0_conv)
qed

lemma cbuffer_push_back_ok:
  assumes b: "cbuffer_small b" and sz: "0 < unat sz" and src: "unat sz \<le> length src"
    and room: "unat (cbuffer_len b) + unat sz \<le> unat (cb_cap b)"
  shows "\<exists>b'. cbuffer_push_back src sz b = Some (True, b') \<and> cbuffer_small b' \<and>
     cb_bytes b' = cb_bytes b @ take (unat sz) src \<and> cb_cap b' = cb_cap b"
proof -
  note B = cbuffer_smallD [OF b]
  have "unat (cb_head b) = (unat (cb_tail b) + unat (cbuffer_len b)) mod unat (cb_cap b)"
    using cb_head_ring [OF B(1)] by simp
  from split_store_ok [OF this room sz B(4) src B(2)] obtain d' where
    d': "split_store (cb_data b) (cb_cap b) (cb_head b) sz src = Some d'" "length d' = unat (cb_cap b)"
    "ring d' (unat (cb_tail b)) (unat (cbuffer_len b) + unat sz) = cb_bytes b @ take (unat sz) src"
    by (auto simp: cb_bytes_def)
  have h: "unat ((cb_head b + sz) mod cb_cap b) = (unat (cb_head b) + unat sz) mod unat (cb_cap b)"
    using B room by (simp add: u32_add_mod_nat)
  note g = cb_grow [OF B(1) sz room d'(2) h]
  have "\<not> cb_cap b - cbuffer_len b < sz"
    using room B by (simp add: wnat)
  then show ?thesis
    using B g d' sz by (auto simp: cbuffer_push_back_def cbuffer_avail_ok cbuffer_small_def Let_def word_less_nat_alt)
qed

lemma cbuffer_push_full:
  assumes b: "cbuffer_small b" and sz: "0 < unat sz"
    and full: "unat (cb_cap b) < unat (cbuffer_len b) + unat sz"
  shows "cbuffer_push_back src sz b = Some (False, b)" "cbuffer_push_front src sz b = Some (False, b)"
proof -
  have "cb_cap b - cbuffer_len b < sz"
    using full cbuffer_smallD [OF b] by (simp add: word_less_nat_alt)
  then show "cbuffer_push_back src sz b = Some (False, b)" "cbuffer_push_front src sz b = Some (False, b)"
    using cbuffer_smallD [OF b] sz
    by (simp_all add: cbuffer_push_back_def cbuffer_push_front_def cbuffer_avail_ok word_less_nat_alt)
qed

lemma cbuffer_push_front_ok:
  assumes b: "cbuffer_small b" and sz: "0 < unat sz" and src: "unat sz \<le> length src"
    and room: "unat (cbuffer_len b) + unat sz \<le> unat (cb_cap b)"
  shows "\<exists>b'. cbuffer_push_front src sz b = Some (True, b') \<and> cbuffer_small b' \<and>
     cb_bytes b' = take (unat sz) src @ cb_bytes b \<and> cb_cap b' = cb_cap b"
proof -
  note B = cbuffer_smallD [OF b]
  let ?c = "unat (cb_cap b)" and ?t = "unat (cb_tail b)" and ?s = "unat sz" and ?l = "unat (cbuffer_len b)"
  define nt where "nt = (cb_tail b + cb_cap b - sz) mod cb_cap b"
  have sum: "unat (cb_tail b + cb_cap b) = ?t + ?c" using B by simp
  have "unat (cb_tail b + cb_cap b - sz) = ?t + (?c - ?s)"
    using sum room by simp
  then have nt: "unat nt = (?t + (?c - ?s)) mod ?c"
    by (simp add: nt_def unat_mod_distrib)
  have w: "?c - ?s + ?s \<le> ?c" using room by simp
  from split_store_ok [OF nt w sz B(4) src B(2)] room obtain d' where
    d': "split_store (cb_data b) (cb_cap b) nt sz src = Some d'" "length d' = ?c"
    "ring d' ?t ?c = ring (cb_data b) ?t (?c - ?s) @ take ?s src"
    by auto
  have "ring d' (?t + (?c - ?s)) ?s = drop (?c - ?s) (ring d' ?t ?c)"
    using room by (simp add: drop_ring)
  then have new: "ring d' (unat nt) ?s = take ?s src"
    using d' room nt by (metis append_eq_conv_conj length_ring ring_mod)
  have "ring d' ?t ?l = take ?l (ring d' ?t ?c)"
    using B by (simp add: take_ring)
  also have "\<dots> = ring (cb_data b) ?t ?l"
    using d'(3) room by (simp add: take_ring)
  finally have old: "ring d' ?t ?l = cb_bytes b" by (simp add: cb_bytes_def)
  have "(unat nt + ?s) mod ?c = ?t"
    using B room nt by (simp add: mod_add_left_eq)
  then have "ring d' (unat nt + ?s) ?l = cb_bytes b"
    using old d'(2) by (metis ring_mod)
  then have bytes: "ring d' (unat nt) (?s + ?l) = take ?s src @ cb_bytes b"
    by (simp add: ring_add new)
  let ?b1 = "b\<lparr>cb_data := d', cb_tail := nt\<rparr>"
  let ?b2 = "if cb_head ?b1 = cb_tail ?b1 then ?b1\<lparr>cb_isfull := True\<rparr> else ?b1"
  have nf: "\<not> cb_isfull b" using room sz cbuffer_len_nat [OF B(1)] by auto
  have sel: "cb_data ?b2 = d'" "cb_cap ?b2 = cb_cap b" "cb_tail ?b2 = nt" "cb_head ?b2 = cb_head b"
    "cb_isfull ?b2 \<longleftrightarrow> unat (cb_head b) = unat nt"
    using nf by (auto simp: u32_eq_nat)
  have ntc: "unat nt < ?c" using nt B by simp
  have wf2: "cbuffer_wf ?b2"
    using B d' nf ntc by (simp add: cbuffer_wf_nat sel del: if_split)
  have hd: "(unat nt + (?s + ?l)) mod ?c = unat (cb_head b)"
    using cb_head_ring [OF B(1)] \<open>(unat nt + ?s) mod ?c = ?t\<close>
    by (metis (no_types, opaque_lifting) add.assoc mod_add_left_eq)
  have "unat (cbuffer_len ?b2) = ?s + ?l"
    using cbuffer_len_nat [OF wf2] hd ntc room sz B(6) unfolding sel
    by (auto simp: mod_wrap split: if_splits)
  then have "cb_bytes ?b2 = take ?s src @ cb_bytes b"
    using bytes by (simp only: cb_bytes_def sel)
  moreover have "\<not> cb_cap b - cbuffer_len b < sz"
    using room B by (simp add: wnat)
  then have "cbuffer_push_front src sz b = Some (True, ?b2)"
    using B d' sz by (simp add: cbuffer_push_front_def cbuffer_avail_ok nt_def [symmetric] Let_def word_less_nat_alt)
  ultimately show ?thesis
    using wf2 B by (intro exI [of _ ?b2]) (simp add: cbuffer_small_def)
qed

lemma cbuffer_load_ok:
  assumes b: "cbuffer_small b" and n: "unat i + unat sz \<le> unat (cbuffer_len b)" and sz: "0 < unat sz"
    and d: "unat sz \<le> length dest"
  shows "split_load (cb_data b) (cb_cap b) ((cb_tail b + i) mod cb_cap b) sz dest
       = Some (overwrite dest 0 (take (unat sz) (drop (unat i) (cb_bytes b))))"
proof -
  note B = cbuffer_smallD [OF b]
  have o: "unat ((cb_tail b + i) mod cb_cap b) = (unat (cb_tail b) + unat i) mod unat (cb_cap b)"
    using cb_consume_word(1) [OF b] n by simp
  have "take (unat sz) (drop (unat i) (cb_bytes b)) = ring (cb_data b) (unat (cb_tail b) + unat i) (unat sz)"
    using n by (simp add: cb_bytes_def drop_ring take_ring)
  moreover have "ring (cb_data b) (unat ((cb_tail b + i) mod cb_cap b)) (unat sz)
      = ring (cb_data b) (unat (cb_tail b) + unat i) (unat sz)"
    using B by (simp only: o ring_mod_len)
  moreover have "(cb_tail b + i) mod cb_cap b < cb_cap b"
    using B o by (simp add: word_less_nat_alt)
  ultimately show ?thesis
    using split_load_ok [of "(cb_tail b + i) mod cb_cap b" "cb_cap b" sz "cb_data b" dest] B n d
    by (simp add: word_le_nat_alt)
qed

lemma cbuffer_nonempty: 
  "cbuffer_wf b \<Longrightarrow> 0 < unat (cbuffer_len b) \<Longrightarrow> \<not> (\<not> cb_isfull b \<and> cb_head b = cb_tail b)"
  by (auto simp: cbuffer_len_nat)

lemma cb_tail_mod: "cbuffer_wf b \<Longrightarrow> cb_tail b mod cb_cap b = cb_tail b"
  by (simp add: u32_eq_nat unat_mod_distrib cbuffer_wf_nat)

lemma cbuffer_pop_ok:
  assumes b: "cbuffer_small b" and n: "unat sz \<le> unat (cbuffer_len b)" and sz: "0 < unat sz"
    and d: "unat sz \<le> length dest"
  shows "cbuffer_pop_back dest sz b =
           Some (True, overwrite dest 0 (take (unat sz) (cb_bytes b)), cb_consume b (unat sz))"
    and "cbuffer_pop_front dest sz b =
           Some (True, overwrite dest 0 (take (unat sz) (cb_bytes b)), cb_consume b (unat sz))"
proof -
  note B = cbuffer_smallD [OF b]
  have "split_load (cb_data b) (cb_cap b) (cb_tail b) sz dest
       = Some (overwrite dest 0 (take (unat sz) (cb_bytes b)))"
    using cbuffer_load_ok [OF b, of 0 sz dest] n sz d B by (simp add: cb_tail_mod)
  then show "cbuffer_pop_back dest sz b =
           Some (True, overwrite dest 0 (take (unat sz) (cb_bytes b)), cb_consume b (unat sz))"
    and "cbuffer_pop_front dest sz b =
           Some (True, overwrite dest 0 (take (unat sz) (cb_bytes b)), cb_consume b (unat sz))"
    using B cbuffer_nonempty [OF B(1)] n sz cb_consume_word(2) [OF b n]
    by (auto simp: cbuffer_pop_back_def cbuffer_pop_front_def word_less_nat_alt cb_consume_def)
qed

lemma cbuffer_pop_empty:
  assumes "cbuffer_small b" and "cbuffer_len b = 0" and "0 < sz"
  shows "cbuffer_pop_back dest sz b = Some (False, dest, b)"
    and "cbuffer_pop_front dest sz b = Some (False, dest, b)"
proof -
  note B = cbuffer_smallD [OF assms(1)]
  have "\<not> cb_isfull b \<and> cb_head b = cb_tail b"
    using cbuffer_len_nat [OF B(1)] assms(2) B(5,6) by (auto simp: u32_eq_nat split: if_splits)
  then show "cbuffer_pop_back dest sz b = Some (False, dest, b)"
    and "cbuffer_pop_front dest sz b = Some (False, dest, b)"
    using B assms(3) by (simp_all add: cbuffer_pop_back_def cbuffer_pop_front_def)
qed

lemma cbuffer_get_ok:
  assumes b: "cbuffer_small b" and n: "(unat idx + 1) * unat sz \<le> unat (cbuffer_len b)" and sz: "0 < unat sz"
    and d: "unat sz \<le> length dest"
  shows "cbuffer_get dest sz idx b =
           Some (True, overwrite dest 0 (take (unat sz) (drop (unat idx * unat sz) (cb_bytes b))))"
proof -
  note B = cbuffer_smallD [OF b]
  have le: "unat idx * unat sz + unat sz \<le> unat (cbuffer_len b)" using n by simp
  then have p: "unat (idx * sz) = unat idx * unat sz"
    using u32_less_bound [of "cbuffer_len b"] by (intro u32_mult_nat) linarith
  have ld: "split_load (cb_data b) (cb_cap b) ((cb_tail b + idx * sz) mod cb_cap b) sz dest
       = Some (overwrite dest 0 (take (unat sz) (drop (unat idx * unat sz) (cb_bytes b))))"
    using cbuffer_load_ok [OF b, of "idx * sz" sz dest] le sz d p by simp
  have "unat idx + 1 \<le> unat (cbuffer_len b) div unat sz"
    using n sz by (simp add: less_eq_div_iff_mult_less_eq)
  then have i: "idx < cbuffer_len b div sz" by (simp add: wnat)
  have i2: "idx * sz < cb_cap b" using p le sz B by (simp add: wnat)
  have "unat idx * 1 \<le> unat idx * unat sz" using sz by (intro mult_le_mono2) simp
  then have il: "unat idx < unat (cbuffer_len b)" using le sz by linarith
  have len: "\<not> cb_isfull b \<Longrightarrow> unat ((cb_head b + cb_cap b - cb_tail b) mod cb_cap b) = unat (cbuffer_len b)"
  proof -
    assume nf: "\<not> cb_isfull b"
    have "unat (cb_head b + cb_cap b) = unat (cb_head b) + unat (cb_cap b)" using B by simp
    then have "unat ((cb_head b + cb_cap b - cb_tail b) mod cb_cap b)
        = (unat (cb_head b) + unat (cb_cap b) - unat (cb_tail b)) mod unat (cb_cap b)"
      using B by (simp add: unat_mod_distrib)
    also have "\<dots> = unat (cbuffer_len b)"
    proof (cases "unat (cb_tail b) \<le> unat (cb_head b)")
      case True
      then have e: "unat (cb_head b) + unat (cb_cap b) - unat (cb_tail b) =
          (unat (cb_head b) - unat (cb_tail b)) + unat (cb_cap b)" by simp
      show ?thesis
        unfolding e mod_add_self2 using nf True B cbuffer_len_nat [OF B(1)] by simp
    next
      case False
      then show ?thesis
        using nf B cbuffer_len_nat [OF B(1)] by simp
    qed
    finally show ?thesis .
  qed
  then have "\<not> (\<not> cb_isfull b \<and> idx \<ge> (cb_head b + cb_cap b - cb_tail b) mod cb_cap b)"
    using il by (auto simp: word_le_nat_alt)
  then show ?thesis
    using B ld i i2 sz by (auto simp: cbuffer_get_def cbuffer_get_no_check_def word_less_nat_alt)
qed

lemma cbuffer_peek_ok:
  assumes b: "cbuffer_small b" and n: "unat sz \<le> unat (cbuffer_len b)" and sz: "0 < unat sz"
    and d: "unat sz \<le> length dest"
  shows "cbuffer_peek_front dest sz b = Some (True, overwrite dest 0 (take (unat sz) (cb_bytes b)))"
    and "cbuffer_peek_back dest sz b = Some (True, overwrite dest 0 (take (unat sz) (cb_bytes b)))"
  using cbuffer_get_ok [OF b, of 0 sz dest] n sz d cbuffer_smallD [OF b] cbuffer_nonempty [of b]
  by (auto simp: cbuffer_peek_front_def cbuffer_peek_back_def)

section \<open>Regions for direct access\<close>

lemma cbuffer_next_data:
  assumes wf: "cbuffer_wf b"
  shows "\<exists>r. cbuffer_get_next_data_bytes b = Some r \<and>
     (if cbuffer_len b = 0 then r = \<lparr>by_head = None, by_len = 0\<rparr>
      else by_head r = Some (cb_tail b) \<and> unat (by_len r) = cb_run b)"
proof -
  have "cbuffer_len b = 0 \<longleftrightarrow> cb_head b = cb_tail b \<and> \<not> cb_isfull b"
    using wf cbuffer_len_nat [OF wf] by (auto simp: u32_eq_nat cbuffer_wf_nat split: if_splits)
  then show ?thesis
    using wf cbuffer_wf_dbg [OF wf]
    by (auto simp: cbuffer_get_next_data_bytes_def cb_run_def cbuffer_wf_nat wnat u32_eq_nat)
qed

lemma cbuffer_next_avail:
  assumes b: "cbuffer_wf b" 
  shows "\<exists>r. cbuffer_get_next_avail_bytes b = Some r \<and>
     (if cbuffer_len b = cb_cap b then r = \<lparr>by_head = None, by_len = 0\<rparr>
      else by_head r = Some (cb_head b) \<and> 0 < unat (by_len r) \<and>
           unat (cb_head b) + unat (by_len r) \<le> unat (cb_cap b) \<and>
           unat (cbuffer_len b) + unat (by_len r) \<le> unat (cb_cap b))"
proof -
  have "cbuffer_len b = cb_cap b \<longleftrightarrow> cb_isfull b"
    using b cbuffer_len_nat [OF b] by (auto simp: u32_eq_nat cbuffer_wf_nat split: if_splits)
  then show ?thesis
    using b cbuffer_wf_dbg [OF b] cbuffer_len_nat [OF b]
    by (auto simp: cbuffer_get_next_avail_bytes_def cbuffer_wf_nat wnat)
qed

lemma cbuffer_direct_write:
  assumes b: "cbuffer_small b" and r: "cbuffer_get_next_avail_bytes b = Some \<lparr>by_head = Some p, by_len = l\<rparr>"
    and bs: "length bs \<le> unat l"
  shows "\<exists>b'. cbuffer_fakewrite (b\<lparr>cb_data := overwrite (cb_data b) (unat p) bs\<rparr>) (u32_of (length bs)) = Some b' \<and>
     cbuffer_small b' \<and> cb_bytes b' = cb_bytes b @ bs"
proof -
  note B = cbuffer_smallD [OF b]
  let ?b1 = "b\<lparr>cb_data := overwrite (cb_data b) (unat p) bs\<rparr>"
  have p: "p = cb_head b" "unat (cb_head b) + unat l \<le> unat (cb_cap b)"
    "unat (cbuffer_len b) + unat l \<le> unat (cb_cap b)"
    using cbuffer_next_avail [OF B(1)] r by (auto split: if_splits)
  have n: "length bs < 4294967296" using bs u32_less_bound [of l] by linarith
  have len1: "cbuffer_len ?b1 = cbuffer_len b" by (simp add: cbuffer_len_def)
  have b1: "cbuffer_small ?b1"
    using B b p bs by (simp add: cbuffer_small_def cbuffer_wf_nat)
  have "ring (cb_data ?b1) (unat (cb_tail b)) (unat (cbuffer_len b) + length bs) =
      ring (cb_data b) (unat (cb_tail b)) (unat (cbuffer_len b)) @ bs"
    using cb_head_ring [OF B(1)] B p bs by simp (intro ring_append; simp)
  then show ?thesis
    using cbuffer_fakewrite_ok [OF b1, of "u32_of (length bs)"] n p bs len1 by (auto simp: cb_bytes_def)
qed

section \<open>The buffer is a byte queue\<close>

text \<open>Byte-wise use of \<open>cbuffer_write\<close> and of \<open>cbuffer_read\<close> into a fresh object.\<close>

definition cb_put :: "u8 list \<Rightarrow> cbuffer \<Rightarrow> (nat \<times> cbuffer) option" where
  "cb_put bs b = do { (n, b') \<leftarrow> cbuffer_write bs 1 (u32_of (length bs)) b; Some (unat n, b') }"

definition cb_get :: "nat \<Rightarrow> cbuffer \<Rightarrow> (u8 list \<times> cbuffer) option" where
  "cb_get n b =
     do {
       (k, d, b') \<leftarrow> cbuffer_read (Some (replicate n 0)) 1 (u32_of n) b;
       d' \<leftarrow> d;
       Some (take (unat k) d', b')
     }"

lemma cb_put_ok:
  assumes wf: "cbuffer_wf b" and bs: "0 < length bs" "length bs < 4294967296"
  shows "\<exists>b'. cb_put bs b = Some (min (length bs) (unat (cb_cap b) - length (cb_bytes b)), b') \<and>
     cbuffer_wf b' \<and> cb_cap b' = cb_cap b \<and>
     cb_bytes b' = cb_bytes b @ take (unat (cb_cap b) - length (cb_bytes b)) bs"
proof -
  have k: "unat (cb_nwrite 1 (u32_of (length bs)) b) = min (length bs) (unat (cb_cap b) - unat (cbuffer_len b))"
    using bs cbuffer_len_le [OF wf] by (simp add: cb_nwrite_def)
  have "0 < u32_of (length bs)" using bs by (simp add: word_less_nat_alt)
  then obtain b' where "cbuffer_write bs 1 (u32_of (length bs)) b = Some (cb_nwrite 1 (u32_of (length bs)) b, b')"
    "cbuffer_wf b'" "cb_bytes b' = cb_bytes b @ take (unat (cb_nwrite 1 (u32_of (length bs)) b)) bs" "cb_cap b' = cb_cap b"
    using cbuffer_write_ok [OF wf _ _, of 1 "u32_of (length bs)" bs] k by auto
  then show ?thesis
    using k by (auto simp: cb_put_def min_def)
qed

lemma cb_get_ok:
  assumes wf: "cbuffer_wf b" and n: "0 < n" "n < 4294967296"
  shows "\<exists>b'. cb_get n b = Some (take n (cb_bytes b), b') \<and> cbuffer_wf b' \<and> cb_cap b' = cb_cap b \<and>
     cb_bytes b' = drop n (cb_bytes b)"
proof -
  have k: "unat (cb_nread 1 (u32_of n) b) = min n (unat (cbuffer_len b))"
    using n by (simp add: cb_nread_def)
  have "0 < u32_of n" using n by (simp add: word_less_nat_alt)
  then have "cbuffer_read (Some (replicate n 0)) 1 (u32_of n) b = Some (cb_nread 1 (u32_of n) b,
      Some (overwrite (replicate n 0) 0 (take (min n (unat (cbuffer_len b))) (cb_bytes b))),
      cb_consume b (min n (unat (cbuffer_len b))))"
    using cbuffer_read_ok [OF wf, of 1 "u32_of n" "Some (replicate n 0)"] k by simp
  moreover have "take (min n (unat (cbuffer_len b))) (cb_bytes b) = take n (cb_bytes b)"
    by (simp add: min_def)
  moreover have "drop (min n (unat (cbuffer_len b))) (cb_bytes b) = drop n (cb_bytes b)"
    by (simp add: min_def)
  ultimately show ?thesis
    using k n cb_consume_len(1) [OF wf, of "min n (unat (cbuffer_len b))"]
      cb_consume_bytes [OF wf, of "min n (unat (cbuffer_len b))"]
    by (simp add: cb_get_def overwrite_def)
qed

interpretation cbq: byte_queue cbuffer_wf cb_bytes "\<lambda>b. unat (cb_cap b)" cb_put cb_get
  by unfold_locales (auto simp: byte_op_ok_def cbuffer_len_le cb_put_ok cb_get_ok
    dest: cb_put_ok cb_get_ok)

section \<open>Properties\<close>

text \<open>A four-byte buffer for the concrete instances.\<close>

definition cb_demo :: cbuffer where
  "cb_demo = \<lparr>cb_data = [4, 1, 2, 3], cb_cap = 4, cb_head = 1, cb_tail = 2, cb_isfull = False\<rparr>"

lemma cb_demo [simp]: "cbuffer_wf cb_demo" "cbuffer_small cb_demo" "cb_bytes cb_demo = [2, 3, 4]"
  by (simp add: cb_demo_def cbuffer_wf_def, simp add: cb_demo_def cbuffer_small_def cbuffer_wf_def, code_simp)

text \<open>
  C1. A circular buffer is a FIFO byte queue: for every well-formed buffer and every
  interleaving of writes and reads, of any sizes, no operation fails and the bytes read
  followed by the bytes still stored are the bytes stored at the start followed by the
  bytes the writes accepted.
\<close>

theorem cbuffer_fifo:
  assumes "cbuffer_wf b" and "list_all byte_op_ok ops"
  shows "\<exists>acc out b'. bq_run cb_put cb_get ops b = Some (acc, out, b') \<and> cbuffer_wf b' \<and>
           cb_cap b' = cb_cap b \<and> out @ cb_bytes b' = cb_bytes b @ acc"
  using cbq.conversation [OF assms] by (auto simp: u32_eq_nat)

theorem cbuffer_fifo_witness:
  "\<exists>acc out b'. bq_run cb_put cb_get [Put [5, 6], Get 2, Put [7, 8, 9], Get 3] cb_demo = Some (acc, out, b') \<and>
     cbuffer_wf b' \<and> cb_cap b' = cb_cap cb_demo \<and> out @ cb_bytes b' = cb_bytes cb_demo @ acc"
  using cbuffer_fifo [of cb_demo "[Put [5, 6], Get 2, Put [7, 8, 9], Get 3]"]
  by (simp add: byte_op_ok_def)

text \<open>
  \<open>cbuffer_write\<close> of \<open>n\<close> elements of \<open>sz\<close> bytes never fails on a well-formed buffer:
  it stores as many whole elements as fit behind the bytes already there, returns their
  number, and keeps the invariant.
\<close>

theorem cbuffer_write_appends:
  assumes "cbuffer_wf b" and "0 < sz" and "0 < n" and "unat n * unat sz \<le> length src"
  shows "\<exists>k b'. cbuffer_write src sz n b = Some (k, b') \<and> cbuffer_wf b' \<and>
     unat k = min (unat n) ((unat (cb_cap b) - length (cb_bytes b)) div unat sz) \<and>
     cb_bytes b' = cb_bytes b @ take (unat k * unat sz) src"
proof -
  have k: "unat (cb_nwrite sz n b) = min (unat n) ((unat (cb_cap b) - unat (cbuffer_len b)) div unat sz)"
    using cbuffer_len_le [OF assms(1)] by (simp add: cb_nwrite_def unat_div_distrib)
  have "unat (cb_nwrite sz n b) * unat sz \<le> unat n * unat sz"
    unfolding k by (intro mult_le_mono1) simp
  then have "unat (cb_nwrite sz n b * sz) \<le> length src"
    using assms(4) cb_nwrite_bytes(1) [of sz n b] by linarith
  then obtain b' where "cbuffer_write src sz n b = Some (cb_nwrite sz n b, b')" "cbuffer_wf b'"
      "cb_bytes b' = cb_bytes b @ take (unat (cb_nwrite sz n b * sz)) src"
    using cbuffer_write_ok [OF assms(1-3)] by blast
  then show ?thesis
    using cb_nwrite_bytes(1) [of sz n b] k by simp
qed

theorem cbuffer_write_appends_witness:
  "\<exists>k b'. cbuffer_write [5, 6] 1 2 cb_demo = Some (k, b') \<and> cbuffer_wf b' \<and>
     unat k = min 2 ((unat (cb_cap cb_demo) - length (cb_bytes cb_demo)) div 1) \<and>
     cb_bytes b' = cb_bytes cb_demo @ take (unat k * 1) [5, 6]"
  using cbuffer_write_appends [of cb_demo 1 2 "[5, 6]"] by simp

text \<open>
  \<open>cbuffer_read\<close> moves the oldest bytes into the destination: as many whole elements as
  are stored, at most \<open>n\<close>, and drops exactly those from the buffer. \<open>cbuffer_copy\<close> delivers
  the same bytes and leaves the buffer alone.
\<close>

theorem cbuffer_read_takes:
  assumes "cbuffer_wf b" and "0 < sz" and "0 < n" and "unat n * unat sz \<le> length d"
  shows "\<exists>k b'. cbuffer_read (Some d) sz n b = Some (k, Some (overwrite d 0 (take (unat k * unat sz) (cb_bytes b))), b') \<and>
     cbuffer_copy (Some d) sz n b = Some (k, Some (overwrite d 0 (take (unat k * unat sz) (cb_bytes b)))) \<and>
     cbuffer_wf b' \<and> unat k = min (unat n) (length (cb_bytes b) div unat sz) \<and>
     cb_bytes b' = drop (unat k * unat sz) (cb_bytes b)"
proof -
  have k: "unat (cb_nread sz n b) = min (unat n) (unat (cbuffer_len b) div unat sz)"
    by (simp add: cb_nread_def unat_div_distrib)
  have "unat (cb_nread sz n b) * unat sz \<le> unat n * unat sz"
    unfolding k by (intro mult_le_mono1) simp
  then have le: "unat (cb_nread sz n b) * unat sz \<le> length d"
    using assms(4) by linarith
  have room: "\<forall>d'. Some d = Some d' \<longrightarrow> unat (cb_nread sz n b * sz) \<le> length d'"
    unfolding cb_nread_bytes(1) using le by auto
  note le = cb_nread_bytes(2) [of sz n b]
  show ?thesis
    using cbuffer_read_ok [OF assms(1-3) room] cbuffer_copy_ok [OF assms(1-3) room]
      cb_consume_len(1) [OF assms(1) le] cb_consume_bytes [OF assms(1) le]
    by (simp add: cb_nread_bytes(1)) (simp add: k)
qed

theorem cbuffer_read_takes_witness:
  "\<exists>k b'. cbuffer_read (Some [0, 0, 0]) 2 1 cb_demo =
      Some (k, Some (overwrite [0, 0, 0] 0 (take (unat k * 2) (cb_bytes cb_demo))), b') \<and>
     cbuffer_copy (Some [0, 0, 0]) 2 1 cb_demo = Some (k, Some (overwrite [0, 0, 0] 0 (take (unat k * 2) (cb_bytes cb_demo)))) \<and>
     cbuffer_wf b' \<and> unat k = min 1 (length (cb_bytes cb_demo) div 2) \<and>
     cb_bytes b' = drop (unat k * 2) (cb_bytes cb_demo)"
  using cbuffer_read_takes [of cb_demo 2 1 "[0, 0, 0]"] by simp

text \<open>
  \<open>cbuffer_cbuffer_move\<close> transfers between two buffers, whatever the position of either
  one's cursors: the bytes that leave the front of \<open>src\<close> are the bytes that arrive at the
  back of \<open>dest\<close>, and their number is bounded by the request, by what \<open>src\<close> holds and by
  the room in \<open>dest\<close>. \<open>cbuffer_cbuffer_copy\<close> does the same to \<open>dest\<close>.
\<close>

theorem cbuffer_move_transfers:
  assumes "cbuffer_wf src" and "cbuffer_wf dest" and "0 < sz" and "0 < n"
  shows "\<exists>k dest' src'. cbuffer_cbuffer_move dest sz n src = Some (k, dest', src') \<and>
     cbuffer_cbuffer_copy dest sz n src = Some (k, dest') \<and> cbuffer_wf dest' \<and> cbuffer_wf src' \<and>
     unat k = min ((unat (cb_cap dest) - length (cb_bytes dest)) div unat sz)
                  (min (unat n) (length (cb_bytes src) div unat sz)) \<and>
     cb_bytes dest' = cb_bytes dest @ take (unat k * unat sz) (cb_bytes src) \<and>
     cb_bytes src' = drop (unat k * unat sz) (cb_bytes src)"
proof -
  note b = cb_nmove_bytes [OF assms(2), of sz n src]
  from cbuffer_move_ok [OF assms] obtain dest' where
    m: "cbuffer_cbuffer_move dest sz n src =
          Some (cb_nmove sz n dest src, dest', cb_consume src (unat (cb_nmove sz n dest src * sz)))"
      "cbuffer_wf dest'"
      "cb_bytes dest' = cb_bytes dest @ take (unat (cb_nmove sz n dest src * sz)) (cb_bytes src)"
    by auto
  have "unat (cb_nmove sz n dest src) = min ((unat (cb_cap dest) - length (cb_bytes dest)) div unat sz)
                  (min (unat n) (length (cb_bytes src) div unat sz))"
    using cbuffer_len_le [OF assms(2)] by (simp add: cb_nmove_def unat_div_distrib)
  then show ?thesis
    using m b(1) cb_consume_len(1) [OF assms(1) b(2)] cb_consume_bytes [OF assms(1) b(2)]
    by (simp add: cbuffer_copy_move)
qed

theorem cbuffer_move_transfers_witness:
  "\<exists>k dest' src'. cbuffer_cbuffer_move cb_demo 1 2 cb_demo = Some (k, dest', src') \<and>
     cbuffer_cbuffer_copy cb_demo 1 2 cb_demo = Some (k, dest') \<and> cbuffer_wf dest' \<and> cbuffer_wf src' \<and>
     unat k = min ((unat (cb_cap cb_demo) - length (cb_bytes cb_demo)) div 1)
                  (min 2 (length (cb_bytes cb_demo) div 1)) \<and>
     cb_bytes dest' = cb_bytes cb_demo @ take (unat k * 1) (cb_bytes cb_demo) \<and>
     cb_bytes src' = drop (unat k * 1) (cb_bytes cb_demo)"
  using cbuffer_move_transfers [of cb_demo cb_demo 1 2] by simp

text \<open>
  The element operations work at the right ends, also for an element that straddles
  the end of the array: with room for it, \<open>push_back\<close> appends and \<open>push_front\<close> prepends
  the element, and a \<open>pop_front\<close> right after \<open>push_front\<close> gives the element back and
  restores the stored bytes; without room both pushes leave the buffer untouched.
\<close>

theorem cbuffer_push_ends:
  assumes "cbuffer_small b" and "0 < unat sz" and "unat sz \<le> length src" and "unat sz \<le> length d"
  shows "if length (cb_bytes b) + unat sz \<le> unat (cb_cap b)
    then \<exists>b1 b2 b3. cbuffer_push_back src sz b = Some (True, b1) \<and>
           cb_bytes b1 = cb_bytes b @ take (unat sz) src \<and>
           cbuffer_push_front src sz b = Some (True, b2) \<and>
           cb_bytes b2 = take (unat sz) src @ cb_bytes b \<and>
           cbuffer_pop_front d sz b2 = Some (True, overwrite d 0 (take (unat sz) src), b3) \<and>
           cb_bytes b3 = cb_bytes b
    else cbuffer_push_back src sz b = Some (False, b) \<and> cbuffer_push_front src sz b = Some (False, b)"
proof (cases "length (cb_bytes b) + unat sz \<le> unat (cb_cap b)")
  case True
  then obtain b1 b2 where b1: "cbuffer_push_back src sz b = Some (True, b1)"
      "cb_bytes b1 = cb_bytes b @ take (unat sz) src"
    and b2: "cbuffer_push_front src sz b = Some (True, b2)" "cbuffer_small b2"
      "cb_bytes b2 = take (unat sz) src @ cb_bytes b"
    using cbuffer_push_back_ok [OF assms(1-3)] cbuffer_push_front_ok [OF assms(1-3)] by auto
  have "unat (cbuffer_len b2) = unat sz + length (cb_bytes b)"
    using arg_cong [OF b2(3), of length] assms(3) by simp
  then show ?thesis
    using True b1 b2 assms cbuffer_pop_ok(2) [OF b2(2), of sz d]
      cb_consume_bytes [OF cbuffer_smallD(1) [OF b2(2)], of "unat sz"] by simp
qed (use assms cbuffer_push_full in simp)

theorem cbuffer_push_ends_witness:
  "(if length (cb_bytes cb_demo) + unat (1 :: u32) \<le> unat (cb_cap cb_demo)
    then \<exists>b1 b2 b3. cbuffer_push_back [9] 1 cb_demo = Some (True, b1) \<and>
           cb_bytes b1 = cb_bytes cb_demo @ take (unat (1 :: u32)) [9] \<and>
           cbuffer_push_front [9] 1 cb_demo = Some (True, b2) \<and>
           cb_bytes b2 = take (unat (1 :: u32)) [9] @ cb_bytes cb_demo \<and>
           cbuffer_pop_front [0] 1 b2 = Some (True, overwrite [0] 0 (take (unat (1 :: u32)) [9]), b3) \<and>
           cb_bytes b3 = cb_bytes cb_demo
    else cbuffer_push_back [9] 1 cb_demo = Some (False, cb_demo) \<and>
         cbuffer_push_front [9] 1 cb_demo = Some (False, cb_demo))"
  by (rule cbuffer_push_ends) simp_all

text \<open>
  Random access: \<open>cbuffer_get\<close> of element \<open>idx\<close> delivers the bytes of that element of the
  stored sequence, also when it wraps, and the peeks deliver the first one.
\<close>

theorem cbuffer_get_reads_element:
  assumes "cbuffer_small b" and "(unat idx + 1) * unat sz \<le> length (cb_bytes b)" and "0 < unat sz"
    and "unat sz \<le> length d"
  shows "cbuffer_get d sz idx b =
           Some (True, overwrite d 0 (take (unat sz) (drop (unat idx * unat sz) (cb_bytes b)))) \<and>
         cbuffer_peek_front d sz b = Some (True, overwrite d 0 (take (unat sz) (cb_bytes b)))"
proof -
  have "unat sz \<le> unat (cbuffer_len b)" using assms(2) by simp
  then show ?thesis
    using assms cbuffer_get_ok [of b idx sz d] cbuffer_peek_ok(1) [of b sz d] by simp
qed

theorem cbuffer_get_reads_element_witness:
  "cbuffer_get [0] 1 2 cb_demo =
       Some (True, overwrite [0] 0 (take 1 (drop (2 * 1) (cb_bytes cb_demo)))) \<and>
   cbuffer_peek_front [0] 1 cb_demo = Some (True, overwrite [0] 0 (take 1 (cb_bytes cb_demo)))"
  using cbuffer_get_reads_element [of cb_demo 2 1 "[0]"] by simp

text \<open>
  Direct access: bytes stored in the region that \<open>cbuffer_get_next_avail_bytes\<close> hands out,
  committed with \<open>cbuffer_fakewrite\<close>, are appended to the queue.
\<close>

theorem cbuffer_direct_write_appends:
  assumes "cbuffer_small b" and "cbuffer_get_next_avail_bytes b = Some \<lparr>by_head = Some p, by_len = l\<rparr>"
    and "length bs \<le> unat l"
  shows "\<exists>b'. cbuffer_fakewrite (b\<lparr>cb_data := overwrite (cb_data b) (unat p) bs\<rparr>) (u32_of (length bs)) = Some b' \<and>
     cbuffer_small b' \<and> cb_bytes b' = cb_bytes b @ bs"
  using cbuffer_direct_write [OF assms] .

theorem cbuffer_direct_write_appends_witness:
  "\<exists>b'. cbuffer_fakewrite (cb_demo\<lparr>cb_data := overwrite (cb_data cb_demo) (unat (1 :: u32)) [9]\<rparr>) (u32_of (length [9 :: u8])) = Some b' \<and>
     cbuffer_small b' \<and> cb_bytes b' = cb_bytes cb_demo @ [9]"
proof (rule cbuffer_direct_write_appends)
  show "cbuffer_get_next_avail_bytes cb_demo = Some \<lparr>by_head = Some 1, by_len = 1\<rparr>" by code_simp
qed simp_all
end
