(* ===== verification/Arena.thy ===== *)
theory Arena
  imports Prelude
begin

text \<open>
  The contract of an arena allocator: a request either fails and changes nothing, or
  hands out a region of the asked size that lies in the arena's memory and overlaps no
  region handed out since the last reset. The client theorem: in any run of requests the
  granted regions are pairwise disjoint.
\<close>

text \<open>A region: the object it lies in, its offset there and its length.\<close>

record region =
  rg_obj :: nat
  rg_off :: nat
  rg_len :: nat

definition rg_bytes :: "region \<Rightarrow> (nat \<times> nat) set" where
  "rg_bytes r = {rg_obj r} \<times> {rg_off r ..< rg_off r + rg_len r}"

definition rg_disjoint :: "region \<Rightarrow> region \<Rightarrow> bool" where
  "rg_disjoint r s \<longleftrightarrow>
     rg_obj r \<noteq> rg_obj s \<or> rg_off r + rg_len r \<le> rg_off s \<or> rg_off s + rg_len s \<le> rg_off r"

lemma rg_disjoint_bytes: "rg_disjoint r s \<Longrightarrow> rg_bytes r \<inter> rg_bytes s = {}"
  by (auto simp: rg_disjoint_def rg_bytes_def)

fun rg_pairwise :: "region list \<Rightarrow> bool" where
  "rg_pairwise [] = True"
| "rg_pairwise (r # rs) = (list_all (rg_disjoint r) rs \<and> rg_pairwise rs)"

text \<open>Runs a list of requests, each for so many elements of so many bytes.\<close>

fun arena_run ::
  "(u32 \<times> u32 \<Rightarrow> 's \<Rightarrow> (region option \<times> 's) option) \<Rightarrow> (u32 \<times> u32) list \<Rightarrow> 's \<Rightarrow>
   (region list \<times> 's) option" where
  "arena_run req [] s = Some ([], s)"
| "arena_run req (q # qs) s =
     do {
       (r, s1) \<leftarrow> req q s;
       (rs, s2) \<leftarrow> arena_run req qs s1;
       Some (case r of None \<Rightarrow> rs | Some x \<Rightarrow> x # rs, s2)
     }"

text \<open>
  \<open>fresh s r\<close>: region \<open>r\<close> lies in the arena and no byte of it has been handed out;
  \<open>owned s r\<close>: it has been handed out.
\<close>

locale arena =
  fixes inv :: "'s \<Rightarrow> bool"
    and owned :: "'s \<Rightarrow> region \<Rightarrow> bool"
    and req :: "u32 \<times> u32 \<Rightarrow> 's \<Rightarrow> (region option \<times> 's) option"
  assumes req_law: "inv s \<Longrightarrow> req (n, sz) s = Some (r, s') \<Longrightarrow> inv s' \<and>
      (\<forall>x. owned s x \<longrightarrow> owned s' x) \<and>
      (\<forall>g. r = Some g \<longrightarrow> rg_len g = unat n * unat sz \<and> owned s' g \<and> (\<forall>x. owned s x \<longrightarrow> rg_disjoint x g))"
begin

lemma grants_disjoint:
  assumes "inv s" and "arena_run req qs s = Some (rs, s')"
  shows "inv s' \<and> rg_pairwise rs \<and> (\<forall>x. owned s x \<longrightarrow> list_all (rg_disjoint x) rs) \<and>
         list_all (owned s') rs \<and> (\<forall>x. owned s x \<longrightarrow> owned s' x)"
  using assms
proof (induction qs arbitrary: s rs)
  case (Cons q qs)
  obtain n sz where q: "q = (n, sz)" by (cases q)
  from Cons.prems(2) obtain r s1 rs1 where
    r: "req (n, sz) s = Some (r, s1)" and rest: "arena_run req qs s1 = Some (rs1, s')"
    and rs: "rs = (case r of None \<Rightarrow> rs1 | Some x \<Rightarrow> x # rs1)"
    by (auto simp: bind_Some_iff q)
  from req_law [OF Cons.prems(1) r] Cons.IH [OF _ rest] rs show ?case
    by (cases r) auto
qed simp

end

end
