(* ===== verification/Lalloc.thy ===== *)
theory Lalloc
  imports Arena Osmem
begin

text \<open>
  The linear allocator of \<^verbatim>\<open>memory/lalloc.c\<close>: a bump pointer over the caller's
  buffer. A returned pointer is its offset into \<open>data\<close>. The latch is taken and released
  inside each call; a sequential model has no use for it.
\<close>

section \<open>State and operations\<close>

record lalloc =
  la_used :: u32
  la_limit :: u32
  la_data :: "u8 list"

definition lalloc_dbg :: "lalloc \<Rightarrow> bool" where
  "lalloc_dbg l \<longleftrightarrow> la_used l \<le> la_limit l"

definition lalloc_create :: "u8 list \<Rightarrow> u32 \<Rightarrow> lalloc option" where
  "lalloc_create data limit =
     do {
       ASSERT (limit > 0);
       let ret = \<lparr>la_used = 0, la_limit = limit, la_data = data\<rparr>;
       ASSERT (lalloc_dbg ret);
       Some ret
     }"

definition lalloc_get_state :: "lalloc \<Rightarrow> u32" where
  "lalloc_get_state l = la_used l"

definition lalloc_reset_to_state :: "lalloc \<Rightarrow> u32 \<Rightarrow> lalloc" where
  "lalloc_reset_to_state l state = l\<lparr>la_used := state\<rparr>"

definition lmalloc :: "lalloc \<Rightarrow> u32 \<Rightarrow> u32 \<Rightarrow> errp \<Rightarrow> (u32 option \<times> lalloc \<times> errp) option" where
  "lmalloc a req sz e =
     do {
       ASSERT (lalloc_dbg a);
       ASSERT (req > 0);
       ASSERT (sz > 0);
       case safe_mul_u32 req sz of
         None \<Rightarrow>
           Some (None, a, fst (error_causef e ERR_NOMEM
             (''alloc '' @ fmt_d req @ ''*'' @ fmt_d sz @ '': overflow'')))
       | Some tot \<Rightarrow>
           (let avail = la_limit a - la_used a in
            if avail \<le> tot
            then Some (None, a, fst (error_causef e ERR_NOMEM
                   (''linear alloc '' @ fmt_d tot @ '' bytes: only '' @ fmt_d avail @ '' remaining'')))
            else Some (Some (la_used a), a\<lparr>la_used := la_used a + tot\<rparr>, e))
     }"

definition lcalloc :: "lalloc \<Rightarrow> u32 \<Rightarrow> u32 \<Rightarrow> errp \<Rightarrow> (u32 option \<times> lalloc \<times> errp) option" where
  "lcalloc a req sz e =
     do {
       (ret, a', e') \<leftarrow> lmalloc a req sz e;
       case ret of
         None \<Rightarrow> Some (None, a', e')
       | Some p \<Rightarrow>
           do {
             data \<leftarrow> mem_store (la_data a') (unat p) (replicate (unat (req * sz)) 0);
             Some (Some p, a'\<lparr>la_data := data\<rparr>, e')
           }
     }"

definition lalloc_reset :: "lalloc \<Rightarrow> lalloc option" where
  "lalloc_reset a = do { ASSERT (lalloc_dbg a); Some (a\<lparr>la_used := 0\<rparr>) }"

definition lmalloc_expect :: "lalloc \<Rightarrow> u32 \<Rightarrow> u32 \<Rightarrow> (u32 \<times> lalloc) option" where
  "lmalloc_expect a req sz =
     do { (ret, a', e) \<leftarrow> lmalloc a req sz None; p \<leftarrow> ret; Some (p, a') }"

section \<open>Facts\<close>

definition lalloc_wf :: "lalloc \<Rightarrow> bool" where
  "lalloc_wf a \<longleftrightarrow> la_used a \<le> la_limit a \<and> length (la_data a) = unat (la_limit a)"

text \<open>When a request of positive sizes is granted: strictly less than what is left.\<close>

lemma lmalloc_result:
  assumes "la_used a \<le> la_limit a" and "0 < req" and "0 < sz"
  shows "\<exists>msg. lmalloc a req sz e =
    Some (if unat (la_used a) + unat req * unat sz < unat (la_limit a)
          then (Some (la_used a), a\<lparr>la_used := la_used a + req * sz\<rparr>, e)
          else (None, a, fst (error_causef e ERR_NOMEM msg)))"
proof (cases "unat req * unat sz < 4294967296")
  case True
  have u: "unat (la_limit a - la_used a) = unat (la_limit a) - unat (la_used a)"
    using assms(1) by (simp add: word_le_nat_alt)
  have "la_limit a - la_used a \<le> req * sz \<longleftrightarrow> \<not> unat (la_used a) + unat req * unat sz < unat (la_limit a)"
    using True assms(1) by (auto simp: word_le_nat_alt)
  then show ?thesis
    using assms True
    by (auto simp: lmalloc_def lalloc_dbg_def safe_mul_u32_def Let_def)
next
  case False
  then have "\<not> unat (la_used a) + unat req * unat sz < unat (la_limit a)"
    using u32_less_bound [of "la_limit a"] by linarith
  then show ?thesis
    using assms False by (auto simp: lmalloc_def lalloc_dbg_def safe_mul_u32_def)
qed

lemma lmalloc_Some:
  assumes "lmalloc a req sz e = Some (Some p, a', e')"
  shows "p = la_used a \<and> e' = e \<and> a' = a\<lparr>la_used := la_used a + req * sz\<rparr> \<and>
     unat (req * sz) = unat req * unat sz \<and> 0 < unat (req * sz) \<and>
     unat (la_used a) + unat (req * sz) < unat (la_limit a) \<and>
     unat (la_used a') = unat (la_used a) + unat (req * sz)"
proof -
  from assms have pre: "la_used a \<le> la_limit a" "0 < req" "0 < sz"
    by (auto simp: lmalloc_def lalloc_dbg_def split: if_splits)
  from lmalloc_result [OF pre, of e] assms
  have fit: "unat (la_used a) + unat req * unat sz < unat (la_limit a)"
    and r: "p = la_used a" "e' = e" "a' = a\<lparr>la_used := la_used a + req * sz\<rparr>"
    by (auto split: if_splits)
  then have m: "unat (req * sz) = unat req * unat sz"
    using u32_less_bound [of "la_limit a"] by (intro u32_mult_nat) linarith
  moreover have "unat (la_used a + req * sz) = unat (la_used a) + unat (req * sz)"
    using fit m u32_less_bound [of "la_limit a"] by (intro u32_add_nat) linarith
  moreover have "0 < unat req * unat sz" using pre by (simp add: word_less_nat_alt)
  ultimately show ?thesis using fit r by simp
qed

lemma lmalloc_None: "lmalloc a req sz e = Some (None, a', e') \<Longrightarrow> a' = a"
  by (auto simp: lmalloc_def Let_def split: if_splits option.splits)

lemma lmalloc_wf:
  assumes "lalloc_wf a" and "lmalloc a req sz e = Some (r, a', e')"
  shows "lalloc_wf a' \<and> la_limit a' = la_limit a \<and> la_data a' = la_data a"
proof (cases r)
  case None
  with assms show ?thesis using lmalloc_None by blast
next
  case (Some p)
  with assms(2) have r: "lmalloc a req sz e = Some (Some p, a', e')" by simp
  show ?thesis
    using lmalloc_Some [OF r] assms(1) by (auto simp: lalloc_wf_def word_le_nat_alt)
qed

section \<open>The allocator is an arena\<close>

definition la_req :: "u32 \<times> u32 \<Rightarrow> lalloc \<Rightarrow> (region option \<times> lalloc) option" where
  "la_req q a =
     do {
       (p, a', e) \<leftarrow> lmalloc a (fst q) (snd q) None;
       Some (map_option (\<lambda>p. \<lparr>rg_obj = 0, rg_off = unat p, rg_len = unat (fst q * snd q)\<rparr>) p, a')
     }"

definition la_owned :: "lalloc \<Rightarrow> region \<Rightarrow> bool" where
  "la_owned a g \<longleftrightarrow> rg_obj g = 0 \<and> rg_off g + rg_len g \<le> unat (la_used a)"

interpretation la: arena lalloc_wf la_owned la_req
proof
  fix s n sz r s'
  assume wf: "lalloc_wf s" and q: "la_req (n, sz) s = Some (r, s')"
  then obtain p e where m: "lmalloc s n sz None = Some (p, s', e)"
    and r: "r = map_option (\<lambda>p. \<lparr>rg_obj = 0, rg_off = unat p, rg_len = unat (n * sz)\<rparr>) p"
    by (auto simp: la_req_def bind_Some_iff)
  show "lalloc_wf s' \<and> (\<forall>x. la_owned s x \<longrightarrow> la_owned s' x) \<and>
      (\<forall>g. r = Some g \<longrightarrow> rg_len g = unat n * unat sz \<and> la_owned s' g \<and> (\<forall>x. la_owned s x \<longrightarrow> rg_disjoint x g))"
  proof (cases p)
    case None
    then show ?thesis using lmalloc_None [of s n sz None s' e] m r wf by auto
  next
    case (Some p')
    then show ?thesis
      using lmalloc_Some [of s n sz None p' s' e] lmalloc_wf [OF wf m] m r
      by (auto simp: la_owned_def rg_disjoint_def)
  qed
qed

text \<open>
  C11. The linear allocator never hands out the same byte twice: whatever sequence of
  requests is made on it, the regions it grants are pairwise disjoint and all lie in its
  buffer.
\<close>

theorem lalloc_grants_disjoint:
  assumes "lalloc_wf a" and "arena_run la_req qs a = Some (rs, a')"
  shows "rg_pairwise rs \<and> lalloc_wf a' \<and>
         list_all (\<lambda>g. rg_off g + rg_len g \<le> unat (la_used a') \<and> la_used a' \<le> la_limit a') rs"
  using la.grants_disjoint [OF assms]
  by (auto simp: la_owned_def lalloc_wf_def list_all_iff)

theorem lalloc_grants_disjoint_witness:
  "\<exists>rs a'. arena_run la_req [(2, 4), (1, 60), (3, 1)] \<lparr>la_used = 0, la_limit = 16, la_data = replicate 16 0\<rparr>
       = Some (rs, a') \<and> length rs = 2 \<and> rg_pairwise rs \<and> lalloc_wf a' \<and>
       list_all (\<lambda>g. rg_off g + rg_len g \<le> unat (la_used a') \<and> la_used a' \<le> la_limit a') rs"
proof -
  let ?a = "\<lparr>la_used = 0, la_limit = 16, la_data = replicate 16 (0 :: u8)\<rparr>"
  let ?rs = "[\<lparr>rg_obj = 0, rg_off = 0, rg_len = 8\<rparr>, \<lparr>rg_obj = 0, rg_off = 8, rg_len = 3\<rparr>]"
  have run: "arena_run la_req [(2, 4), (1, 60), (3, 1)] ?a = Some (?rs, ?a\<lparr>la_used := 11\<rparr>)"
    by code_simp
  moreover have "lalloc_wf ?a" by (simp add: lalloc_wf_def)
  ultimately show ?thesis
    using lalloc_grants_disjoint [OF _ run] by (intro exI [of _ ?rs] exI [of _ "?a\<lparr>la_used := 11\<rparr>"]) simp
qed

text \<open>
  A request succeeds exactly when strictly less than the remaining space is asked for:
  one that would fill the buffer to its last byte is refused, with the state unchanged, and
  so is one whose size overflows.
\<close>

theorem lmalloc_grants_iff:
  assumes "la_used a \<le> la_limit a" and "0 < req" and "0 < sz"
  shows "if unat req * unat sz < unat (la_limit a) - unat (la_used a)
         then lmalloc a req sz e = Some (Some (la_used a), a\<lparr>la_used := la_used a + req * sz\<rparr>, e)
         else \<exists>msg. lmalloc a req sz e = Some (None, a, fst (error_causef e ERR_NOMEM msg))"
  using lmalloc_result [OF assms, of e] by (auto split: if_splits)

theorem lmalloc_grants_iff_witness:
  "(if unat (2 :: u32) * unat (4 :: u32) < unat (8 :: u32) - unat (0 :: u32)
    then lmalloc \<lparr>la_used = 0, la_limit = 8, la_data = []\<rparr> 2 4 (Some error_create)
           = Some (Some 0, \<lparr>la_used = 0 + 2 * 4, la_limit = 8, la_data = []\<rparr>, Some error_create)
    else \<exists>msg. lmalloc \<lparr>la_used = 0, la_limit = 8, la_data = []\<rparr> 2 4 (Some error_create)
           = Some (None, \<lparr>la_used = 0, la_limit = 8, la_data = []\<rparr>,
                   fst (error_causef (Some error_create) ERR_NOMEM msg)))"
  using lmalloc_grants_iff [of "\<lparr>la_used = 0, la_limit = 8, la_data = []\<rparr>" 2 4 "Some error_create"]
  by simp

end
