(* ===== verification/Chunk_alloc.thy ===== *)
theory Chunk_alloc
  imports Lalloc Complex_Main
begin

text \<open>
  The chunked arena of \<^verbatim>\<open>memory/chunk_alloc.c\<close>: a list of linear allocators, newest
  first, each in a heap block of its own. The linked list is the list of its chunks; a
  pointer returned by \<open>chunk_malloc\<close> always lies in the head chunk and is its offset
  there. The only floating point of the allocator, the growth factor, is computed on
  the rational value of the \<open>float\<close>, with the rounding of single precision.
\<close>

section \<open>Single precision\<close>

definition round_half_even :: "rat \<Rightarrow> int" where
  "round_half_even r =
     (let n = \<lfloor>r\<rfloor>; d = r - of_int n in
      if d < 1 / 2 then n else if d > 1 / 2 then n + 1 else if even n then n else n + 1)"

fun bit_size :: "int \<Rightarrow> nat" where
  "bit_size n = (if n \<le> 0 then 0 else Suc (bit_size (n div 2)))"

declare bit_size.simps [simp del]

text \<open>Rounding of a value that is zero or at least one to 24 significant bits.\<close>

definition f32_round :: "rat \<Rightarrow> rat" where
  "f32_round x =
     (if x < 1 then x
      else let ulp = 2 ^ (bit_size \<lfloor>x\<rfloor> - 1) / 2 ^ 23 in
           of_int (round_half_even (x / ulp)) * ulp)"

text \<open>\<open>(u32)(n * mult)\<close>; the conversion of a value outside the range is undefined.\<close>

definition u32_mul_f32 :: "u32 \<Rightarrow> rat \<Rightarrow> u32 option" where
  "u32_mul_f32 n mult =
     (let x = f32_round (f32_round (of_int (uint n)) * mult) in
      if x < 4294967296 then Some (word_of_int \<lfloor>x\<rfloor>) else None)"

section \<open>State\<close>

record chunk =
  ch_alloc :: lalloc

record chunk_alloc_settings =
  max_alloc_size :: u32
  max_total_size :: u32
  target_chunk_mult :: rat
  min_chunk_size :: u32
  max_chunk_size :: u32
  max_chunks :: u32

record chunk_alloc =
  ca_settings :: chunk_alloc_settings
  ca_chunks :: "chunk list"
  ca_num_chunks :: u32
  ca_total_allocated :: u32
  ca_total_used :: u32

definition chunk_dbg :: "chunk \<Rightarrow> bool" where
  "chunk_dbg c \<longleftrightarrow> la_used (ch_alloc c) \<le> la_limit (ch_alloc c) \<and> la_limit (ch_alloc c) > 0"

definition limits :: "chunk list \<Rightarrow> u32" where
  "limits cs = sum_list (map (\<lambda>c. la_limit (ch_alloc c)) cs)"

definition useds :: "chunk list \<Rightarrow> u32" where
  "useds cs = sum_list (map (\<lambda>c. la_used (ch_alloc c)) cs)"

definition chunk_alloc_dbg :: "chunk_alloc \<Rightarrow> bool" where
  "chunk_alloc_dbg ca \<longleftrightarrow>
     (let st = ca_settings ca; cs = ca_chunks ca in
      target_chunk_mult st \<ge> 1 \<and>
      min_chunk_size st > 0 \<and>
      (max_chunk_size st = 0 \<or> max_chunk_size st \<ge> min_chunk_size st) \<and>
      (cs \<noteq> [] \<or> ca_num_chunks ca = 0) \<and>
      ca_total_used ca \<le> ca_total_allocated ca \<and>
      (max_total_size st = 0 \<or> ca_total_allocated ca \<le> max_total_size st) \<and>
      (max_chunks st = 0 \<or> ca_num_chunks ca < max_chunks st) \<and>
      list_all chunk_dbg cs \<and>
      (length cs \<le> unat (max_chunks st) \<or> max_chunks st = 0) \<and>
      int (length cs) \<le> 100000 \<and>
      u32_of (length cs) = ca_num_chunks ca \<and>
      limits cs = ca_total_allocated ca \<and>
      useds cs = ca_total_used ca)"

section \<open>Operations\<close>

text \<open>The size of \<open>struct chunk\<close>: latch, two counters, data pointer and link on a 64-bit target.\<close>

definition sizeof_chunk :: u32 where
  "sizeof_chunk = 32"

definition chunk_create :: "libc \<Rightarrow> u32 \<Rightarrow> errp \<Rightarrow> (chunk option \<times> errp) option" where
  "chunk_create os sz e =
     do {
       (ret, e') \<leftarrow> i_malloc os (sizeof_chunk + sz) 1 e;
       case ret of
         None \<Rightarrow> Some (None, e')
       | Some bs \<Rightarrow>
           do {
             ASSERT (unat sizeof_chunk \<le> length bs);
             a \<leftarrow> lalloc_create (drop (unat sizeof_chunk) bs) sz;
             let c = \<lparr>ch_alloc = a\<rparr>;
             ASSERT (chunk_dbg c);
             Some (Some c, e')
           }
     }"

definition chunk_alloc_create :: "chunk_alloc_settings \<Rightarrow> chunk_alloc option" where
  "chunk_alloc_create st =
     do {
       ASSERT (target_chunk_mult st \<ge> 1);
       ASSERT (min_chunk_size st > 0);
       ASSERT (max_chunk_size st = 0 \<or> max_chunk_size st \<ge> min_chunk_size st);
       let ca = \<lparr>ca_settings = st, ca_chunks = [], ca_num_chunks = 0, ca_total_allocated = 0,
                 ca_total_used = 0\<rparr>;
       ASSERT (chunk_alloc_dbg ca);
       Some ca
     }"

definition chunk_alloc_create_default :: "chunk_alloc option" where
  "chunk_alloc_create_default =
     chunk_alloc_create \<lparr>max_alloc_size = 0, max_total_size = 0, target_chunk_mult = 10,
       min_chunk_size = 10, max_chunk_size = 0, max_chunks = 0\<rparr>"

definition compute_new_chunk_size :: "chunk_alloc \<Rightarrow> u32 \<Rightarrow> u32 option" where
  "compute_new_chunk_size ca alloc_size =
     do {
       ASSERT (chunk_alloc_dbg ca);
       let st = ca_settings ca;
       n \<leftarrow> u32_mul_f32 alloc_size (target_chunk_mult st);
       let n = (if n < min_chunk_size st then min_chunk_size st else n);
       let n = (if max_chunk_size st > 0 \<and> n > max_chunk_size st then max_chunk_size st else n);
       Some (if n < alloc_size then alloc_size else n)
     }"

definition chunk_alloc_free_all :: "chunk_alloc \<Rightarrow> chunk_alloc option" where
  "chunk_alloc_free_all ca =
     do {
       ASSERT (chunk_alloc_dbg ca);
       ASSERT (list_all chunk_dbg (ca_chunks ca));
       Some (ca\<lparr>ca_chunks := [], ca_num_chunks := 0, ca_total_allocated := 0, ca_total_used := 0\<rparr>)
     }"

definition chunk_reset :: "chunk \<Rightarrow> chunk option" where
  "chunk_reset c =
     do { ASSERT (chunk_dbg c); a \<leftarrow> lalloc_reset (ch_alloc c); Some (c\<lparr>ch_alloc := a\<rparr>) }"

definition chunk_alloc_reset_all :: "chunk_alloc \<Rightarrow> chunk_alloc option" where
  "chunk_alloc_reset_all ca =
     do {
       ASSERT (chunk_alloc_dbg ca);
       cs \<leftarrow> those (map chunk_reset (ca_chunks ca));
       Some (ca\<lparr>ca_chunks := cs, ca_total_used := 0\<rparr>)
     }"

definition chunk_alloc_add_new_chunk ::
  "libc \<Rightarrow> chunk_alloc \<Rightarrow> u32 \<Rightarrow> errp \<Rightarrow> (err_t \<times> chunk_alloc \<times> errp) option" where
  "chunk_alloc_add_new_chunk os ca sz e =
     do {
       ASSERT (chunk_alloc_dbg ca);
       let st = ca_settings ca;
       if max_chunks st > 0 \<and> ca_num_chunks ca \<ge> max_chunks st
       then (case error_causef e ERR_NOMEM (''chunk limit reached ('' @ fmt_u (ca_num_chunks ca) @
               ''/'' @ fmt_u (max_chunks st) @ '' chunks)'') of
               (e', c) \<Rightarrow> Some (c, ca, e'))
       else do {
         ASSERT (sz \<ge> min_chunk_size st);
         ASSERT (max_chunk_size st = 0 \<or> sz \<le> max_chunk_size st);
         if max_total_size st > 0 \<and> ca_total_allocated ca + sz > max_total_size st
         then (case error_causef e ERR_NOMEM (''alloc '' @ fmt_u sz @ '' bytes would exceed '' @
                 fmt_u (max_total_size st) @ '' byte limit ('' @ fmt_u (ca_total_allocated ca) @
                 '' allocated)'') of
                 (e', c) \<Rightarrow> Some (c, ca, e'))
         else do {
           (ret, e') \<leftarrow> chunk_create os sz e;
           case ret of
             None \<Rightarrow> do { c \<leftarrow> error_trace e'; Some (c, ca, e') }
           | Some nc \<Rightarrow>
               Some (SUCCESS,
                     ca\<lparr>ca_chunks := nc # ca_chunks ca, ca_num_chunks := ca_num_chunks ca + 1,
                        ca_total_allocated := ca_total_allocated ca + sz\<rparr>, e')
         }
       }
     }"

text \<open>\<open>lmalloc\<close> on the head chunk; \<open>total_used\<close> counts the bytes granted.\<close>

definition head_lmalloc ::
  "chunk_alloc \<Rightarrow> u32 \<Rightarrow> u32 \<Rightarrow> errp \<Rightarrow> (u32 option \<times> chunk_alloc \<times> errp) option" where
  "head_lmalloc ca req sz e =
     (case ca_chunks ca of
        [] \<Rightarrow> None
      | c # cs \<Rightarrow>
          do {
            (ptr, a, e') \<leftarrow> lmalloc (ch_alloc c) req sz e;
            Some (ptr,
                  ca\<lparr>ca_chunks := c\<lparr>ch_alloc := a\<rparr> # cs,
                     ca_total_used := (if ptr \<noteq> None then ca_total_used ca + req * sz
                                       else ca_total_used ca)\<rparr>, e')
          })"

text \<open>The two halves of \<open>chunk_malloc\<close>: the current chunk first, then a new one.\<close>

definition try_head :: "chunk_alloc \<Rightarrow> u32 \<Rightarrow> u32 \<Rightarrow> (u32 option \<times> chunk_alloc) option" where
  "try_head ca req sz =
     (if ca_chunks ca \<noteq> []
      then do { (p, ca1, _) \<leftarrow> head_lmalloc ca req sz None; Some (p, ca1) }
      else Some (None, ca))"

definition grow_malloc ::
  "libc \<Rightarrow> chunk_alloc \<Rightarrow> u32 \<Rightarrow> u32 \<Rightarrow> errp \<Rightarrow> (u32 option \<times> chunk_alloc \<times> errp) option" where
  "grow_malloc os ca req sz e =
     do {
       new_size \<leftarrow> compute_new_chunk_size ca (req * sz);
       (rc, ca2, e2) \<leftarrow> chunk_alloc_add_new_chunk os ca new_size e;
       if rc \<noteq> SUCCESS then Some (None, ca2, e2)
       else head_lmalloc ca2 req sz e2
     }"

definition chunk_malloc ::
  "libc \<Rightarrow> chunk_alloc \<Rightarrow> u32 \<Rightarrow> u32 \<Rightarrow> errp \<Rightarrow> (u32 option \<times> chunk_alloc \<times> errp) option" where
  "chunk_malloc os ca req sz e =
     do {
       ASSERT (chunk_alloc_dbg ca);
       if req > 0 \<and> sz > 0xFFFFFFFF div req
       then Some (None, ca, fst (error_causef e ERR_NOMEM
              (''alloc overflow: '' @ fmt_u req @ '' * '' @ fmt_u sz)))
       else do {
         let alloc_size = req * sz;
         let st = ca_settings ca;
         if max_alloc_size st > 0 \<and> alloc_size > max_alloc_size st
         then Some (None, ca, fst (error_causef e ERR_NOMEM
                (''alloc '' @ fmt_u alloc_size @ '' bytes exceeds max '' @ fmt_u (max_alloc_size st))))
         else do {
           (ptr, ca1) \<leftarrow> try_head ca req sz;
           if ptr \<noteq> None then Some (ptr, ca1, e)
           else grow_malloc os ca1 req sz e
         }
       }
     }"

text \<open>Storing into the head chunk at a pointer it just handed out.\<close>

definition head_store :: "chunk_alloc \<Rightarrow> u32 \<Rightarrow> u8 list \<Rightarrow> chunk_alloc option" where
  "head_store ca p bs =
     (case ca_chunks ca of
        [] \<Rightarrow> None
      | c # cs \<Rightarrow>
          do {
            d \<leftarrow> mem_store (la_data (ch_alloc c)) (unat p) bs;
            Some (ca\<lparr>ca_chunks := c\<lparr>ch_alloc := (ch_alloc c)\<lparr>la_data := d\<rparr>\<rparr> # cs\<rparr>)
          })"

definition chunk_calloc ::
  "libc \<Rightarrow> chunk_alloc \<Rightarrow> u32 \<Rightarrow> u32 \<Rightarrow> errp \<Rightarrow> (u32 option \<times> chunk_alloc \<times> errp) option" where
  "chunk_calloc os ca req sz e =
     do {
       ASSERT (chunk_alloc_dbg ca);
       (ptr, ca', e') \<leftarrow> chunk_malloc os ca req sz e;
       case ptr of
         None \<Rightarrow> Some (None, ca', e')
       | Some p \<Rightarrow>
           do { ca'' \<leftarrow> head_store ca' p (replicate (unat (req * sz)) 0); Some (Some p, ca'', e') }
     }"

definition chunk_alloc_move_mem ::
  "libc \<Rightarrow> chunk_alloc \<Rightarrow> u8 list \<Rightarrow> u32 \<Rightarrow> errp \<Rightarrow> (u32 option \<times> chunk_alloc \<times> errp) option" where
  "chunk_alloc_move_mem os ca ptr sz e =
     do {
       (dest, ca', e') \<leftarrow> chunk_malloc os ca sz 1 e;
       case dest of
         None \<Rightarrow> Some (None, ca', e')
       | Some p \<Rightarrow>
           do {
             bs \<leftarrow> mem_load ptr 0 (unat sz);
             ca'' \<leftarrow> head_store ca' p bs;
             Some (Some p, ca'', e')
           }
     }"

section \<open>Accounting and disjointness\<close>

lemma chunk_create_Some:
  assumes "libc_ok os" and "chunk_create os sz e = Some (Some c, e')"
  shows "la_used (ch_alloc c) = 0 \<and> la_limit (ch_alloc c) = sz \<and> lalloc_wf (ch_alloc c)"
proof -
  from assms(2) obtain bs where m: "i_malloc os (sizeof_chunk + sz) 1 e = Some (Some bs, e')"
    and l: "unat sizeof_chunk \<le> length bs"
    and c: "c = \<lparr>ch_alloc = \<lparr>la_used = 0, la_limit = sz, la_data = drop (unat sizeof_chunk) bs\<rparr>\<rparr>"
    by (cases "i_malloc os (sizeof_chunk + sz) 1 e")
       (auto simp: chunk_create_def lalloc_create_def Let_def split: option.splits if_splits)
  have len: "length bs = unat (sizeof_chunk + sz)" using i_malloc_ok [OF assms(1) m] by simp
  have small: "unat sz - 4294967264 < 32" using u32_less_bound [of sz] by linarith
  have "unat sizeof_chunk + unat sz < 4294967296"
  proof (rule ccontr)
    assume "\<not> ?thesis"
    then have "unat (sizeof_chunk + sz) < unat sizeof_chunk"
      using small mod_less [of "unat sz - 4294967264" 4294967296]
      by (simp add: u32_add_wraps sizeof_chunk_def le_mod_geq)
    then show False using len l by simp
  qed
  then show ?thesis using len c by (simp add: lalloc_wf_def)
qed

text \<open>Totals that match the chunks, modulo the word size.\<close>

definition ca_wf :: "chunk_alloc \<Rightarrow> bool" where
  "ca_wf ca \<longleftrightarrow> list_all (\<lambda>c. lalloc_wf (ch_alloc c)) (ca_chunks ca) \<and>
     ca_num_chunks ca = word_of_nat (length (ca_chunks ca)) \<and>
     ca_total_allocated ca = limits (ca_chunks ca) \<and> ca_total_used ca = useds (ca_chunks ca)"

lemma sums_simps [simp]:
  "limits [] = 0" "useds [] = 0"
  "limits (c # cs) = la_limit (ch_alloc c) + limits cs" "useds (c # cs) = la_used (ch_alloc c) + useds cs"
  by (simp_all add: limits_def useds_def)

lemma add_new_chunk_Some:
  assumes "libc_ok os" and "chunk_alloc_add_new_chunk os ca sz e = Some (rc, ca', e')" and "ca_wf ca"
  shows "ca_wf ca' \<and> (ca' = ca \<or>
     (\<exists>c. ca_chunks ca' = c # ca_chunks ca \<and> la_used (ch_alloc c) = 0 \<and> la_limit (ch_alloc c) = sz))"
  using assms chunk_create_Some [OF assms(1), of sz e]
  by (auto simp: chunk_alloc_add_new_chunk_def bind_Some_iff ca_wf_def Let_def
           split: if_splits option.splits prod.splits)

lemma head_lmalloc_Some:
  assumes "head_lmalloc ca req sz e = Some (r, ca', e')" and "ca_wf ca"
  shows "ca_wf ca' \<and> (\<exists>c cs a. ca_chunks ca = c # cs \<and> ca_chunks ca' = c\<lparr>ch_alloc := a\<rparr> # cs \<and>
     lmalloc (ch_alloc c) req sz e = Some (r, a, e'))"
proof -
  from assms(1) obtain c cs a where c: "ca_chunks ca = c # cs"
    and m: "lmalloc (ch_alloc c) req sz e = Some (r, a, e')"
    and ca': "ca' = ca\<lparr>ca_chunks := c\<lparr>ch_alloc := a\<rparr> # cs,
                     ca_total_used := (if r \<noteq> None then ca_total_used ca + req * sz
                                       else ca_total_used ca)\<rparr>"
    by (auto simp: head_lmalloc_def bind_Some_iff split: list.splits)
  have wf: "lalloc_wf a \<and> la_limit a = la_limit (ch_alloc c)"
    using lmalloc_wf [OF _ m] assms(2) c by (auto simp: ca_wf_def)
  have "la_used a = la_used (ch_alloc c) + (if r \<noteq> None then req * sz else 0)"
    using m lmalloc_None [of "ch_alloc c" req sz e a e'] lmalloc_Some [of "ch_alloc c" req sz e _ a e']
    by (cases r) auto
  then show ?thesis
    using c m wf assms(2) by (auto simp: ca' ca_wf_def)
qed

text \<open>What is handed out: a stretch of the used part of a chunk, numbered from the oldest.\<close>

definition ca_owned :: "chunk_alloc \<Rightarrow> region \<Rightarrow> bool" where
  "ca_owned ca g \<longleftrightarrow> rg_obj g < length (ca_chunks ca) \<and>
     rg_off g + rg_len g \<le> unat (la_used (ch_alloc (rev (ca_chunks ca) ! rg_obj g)))"

lemma ca_owned_push: "ca_owned ca g \<Longrightarrow> ca_chunks ca' = c # ca_chunks ca \<Longrightarrow> ca_owned ca' g"
  by (auto simp: ca_owned_def nth_append)

definition ca_region :: "chunk_alloc \<Rightarrow> u32 \<Rightarrow> nat \<Rightarrow> region" where
  "ca_region ca p len = \<lparr>rg_obj = length (ca_chunks ca) - 1, rg_off = unat p, rg_len = len\<rparr>"

lemma head_lmalloc_owned:
  assumes "head_lmalloc ca req sz e = Some (r, ca', e')" and wf: "ca_wf ca"
  shows "(\<forall>x. ca_owned ca x \<longrightarrow> ca_owned ca' x) \<and>
     (\<forall>p. r = Some p \<longrightarrow> unat (req * sz) = unat req * unat sz \<and>
        ca_owned ca' (ca_region ca' p (unat (req * sz))) \<and>
        (\<forall>x. ca_owned ca x \<longrightarrow> rg_disjoint x (ca_region ca' p (unat (req * sz)))))"
proof -
  from head_lmalloc_Some [OF assms] obtain c cs a where
    c: "ca_chunks ca = c # cs" and c': "ca_chunks ca' = c\<lparr>ch_alloc := a\<rparr> # cs" and
    m: "lmalloc (ch_alloc c) req sz e = Some (r, a, e')" by auto
  show ?thesis
  proof (cases r)
    case None
    then have "a = ch_alloc c" using lmalloc_None m by metis
    then show ?thesis using c c' None by (simp add: ca_owned_def)
  next
    case (Some p)
    with m have "lmalloc (ch_alloc c) req sz e = Some (Some p, a, e')" by simp
    from lmalloc_Some [OF this] show ?thesis
      using c c' Some by (auto simp: ca_owned_def ca_region_def rg_disjoint_def nth_append)
  qed
qed

text \<open>A refused request leaves an error pending; a granted one leaves the error object alone.\<close>

definition pending :: "errp \<Rightarrow> bool" where
  "pending e \<longleftrightarrow> (\<exists>er. e = Some er \<and> cause_code er \<noteq> SUCCESS)"

lemma pending_causef [simp]: "c \<noteq> SUCCESS \<Longrightarrow> pending (fst (error_causef (Some er) c msg))"
  by (cases "cause_code er = SUCCESS") (auto simp: pending_def error_causef_fresh)

lemma ERR_NOMEM_fails [simp]: "ERR_NOMEM \<noteq> SUCCESS"
  by (simp add: err_codes)

lemma head_lmalloc_error:
  assumes "head_lmalloc ca req sz (Some er) = Some (r, ca', e')"
  shows "if r = None then pending e' else e' = Some er"
  using assms
  by (auto simp: head_lmalloc_def lmalloc_def bind_Some_iff Let_def split: list.splits option.splits if_splits)

lemma chunk_create_error:
  assumes "chunk_create os sz (Some er) = Some (r, e')"
  shows "if r = None then pending e' else e' = Some er"
proof -
  from assms obtain p e1 where m: "i_malloc os (sizeof_chunk + sz) 1 (Some er) = Some (p, e1)"
    by (auto simp: chunk_create_def bind_Some_iff)
  then have "if p = None then pending e1 else e1 = Some er"
    by (auto simp: i_malloc_def nomem_def split: option.splits if_splits)
  then show ?thesis
    using assms m by (cases p) (auto simp: chunk_create_def bind_Some_iff Let_def split: if_splits)
qed

lemma add_new_chunk_error:
  assumes "chunk_alloc_add_new_chunk os ca sz (Some er) = Some (rc, ca', e')"
  shows "if rc = SUCCESS then e' = Some er else pending e'"
proof -
  have fail: "pending e1 \<and> c \<noteq> SUCCESS" if "error_causef (Some er) ERR_NOMEM msg = (e1, c)" for msg e1 c
    using that pending_causef [of ERR_NOMEM er msg] error_causef_code [of "Some er" ERR_NOMEM msg] by simp
  show ?thesis
    using assms chunk_create_error [of os sz er]
    by (auto simp: chunk_alloc_add_new_chunk_def bind_Some_iff Let_def pending_def
             split: if_splits option.splits prod.splits dest!: fail)
qed

lemma chunk_malloc_error:
  assumes "chunk_malloc os ca req sz (Some er) = Some (r, ca', e')"
  shows "if r = None then pending e' else e' = Some er"
proof -
  have grow: "if r = None then pending e' else e' = Some er"
    if g: "grow_malloc os ca1 req sz (Some er) = Some (r, ca', e')" for ca1 r ca' e'
  proof -
    from g obtain n rc ca2 e2 where a: "chunk_alloc_add_new_chunk os ca1 n (Some er) = Some (rc, ca2, e2)"
      and h: "(if rc \<noteq> SUCCESS then Some (None, ca2, e2) else head_lmalloc ca2 req sz e2) = Some (r, ca', e')"
      by (auto simp: grow_malloc_def bind_Some_iff)
    show ?thesis
      using add_new_chunk_error [OF a] h head_lmalloc_error [of ca2 req sz er r ca' e'] by (auto split: if_splits)
  qed
  show ?thesis
    using assms
    by (auto simp: chunk_malloc_def bind_Some_iff Let_def split: if_split_asm dest: grow)
qed

text \<open>What one request does to the allocator.\<close>

definition ca_step :: "u32 \<Rightarrow> u32 \<Rightarrow> chunk_alloc \<Rightarrow> u32 option \<Rightarrow> chunk_alloc \<Rightarrow> bool" where
  "ca_step req sz ca r ca' \<longleftrightarrow> ca_wf ca' \<and> (\<forall>x. ca_owned ca x \<longrightarrow> ca_owned ca' x) \<and>
     (\<forall>p. r = Some p \<longrightarrow> unat (req * sz) = unat req * unat sz \<and>
        ca_owned ca' (ca_region ca' p (unat req * unat sz)) \<and>
        (\<forall>x. ca_owned ca x \<longrightarrow> rg_disjoint x (ca_region ca' p (unat req * unat sz))))"

lemma head_lmalloc_step:
  assumes "head_lmalloc ca req sz e = Some (r, ca', e')" and "ca_wf ca"
  shows "ca_step req sz ca r ca'"
  using head_lmalloc_owned [OF assms] head_lmalloc_Some [OF assms] by (auto simp: ca_step_def)

lemma ca_step_trans:
  "ca_step req sz ca None ca1 \<Longrightarrow> ca_step req sz ca1 r ca2 \<Longrightarrow> ca_step req sz ca r ca2"
  by (simp add: ca_step_def)

lemma ca_step_same: "ca_wf ca \<Longrightarrow> ca_step req sz ca None ca"
  by (simp add: ca_step_def)

lemma grow_malloc_step:
  assumes os: "libc_ok os" and wf: "ca_wf ca" and m: "grow_malloc os ca req sz e = Some (r, ca', e')"
  shows "ca_step req sz ca r ca'"
proof -
  from m obtain n rc ca2 e2 where a: "chunk_alloc_add_new_chunk os ca n e = Some (rc, ca2, e2)"
    and h: "rc \<noteq> SUCCESS \<and> r = None \<and> ca' = ca2 \<or> head_lmalloc ca2 req sz e2 = Some (r, ca', e')"
    by (auto simp: grow_malloc_def bind_Some_iff split: if_splits)
  have 2: "ca_step req sz ca None ca2"
    using add_new_chunk_Some [OF os a wf] ca_owned_push by (auto simp: ca_step_def)
  then have "ca_wf ca2" by (simp add: ca_step_def)
  then show ?thesis
    using h 2 head_lmalloc_step ca_step_trans by blast
qed

lemma chunk_malloc_step:
  assumes os: "libc_ok os" and wf: "ca_wf ca" and m: "chunk_malloc os ca req sz e = Some (r, ca', e')"
  shows "ca_step req sz ca r ca'"
proof (cases "r = None \<and> ca' = ca")
  case True
  then show ?thesis using wf ca_step_same by simp
next
  case False
  then obtain p ca1 where t: "try_head ca req sz = Some (p, ca1)"
    using m by (cases "try_head ca req sz") (auto simp: chunk_malloc_def Let_def split: if_splits)
  have found: "r = p \<and> ca' = ca1" if "p = Some y" for y
    using m False t that by (auto simp: chunk_malloc_def Let_def split: if_splits)
  have grown: "grow_malloc os ca1 req sz e = Some (r, ca', e')" if "p = None"
    using m False t that by (auto simp: chunk_malloc_def Let_def split: if_splits)
  have "ca_step req sz ca p ca1"
    using t wf head_lmalloc_step [of ca req sz None p ca1] ca_step_same
    by (auto simp: try_head_def bind_Some_iff split: if_splits)
  then show ?thesis
    using found grow_malloc_step [OF os _ grown] ca_step_trans [of req sz ca ca1 r ca']
    by (cases p) (auto simp: ca_step_def)
qed

text \<open>Requests on an allocator together with the heap it draws its chunks from.\<close>

definition ca_req :: "u32 \<times> u32 \<Rightarrow> libc \<times> chunk_alloc \<Rightarrow> (region option \<times> libc \<times> chunk_alloc) option" where
  "ca_req q s =
     do {
       (p, ca', e) \<leftarrow> chunk_malloc (fst s) (snd s) (fst q) (snd q) (Some error_create);
       Some (map_option (\<lambda>p. ca_region ca' p (unat (fst q * snd q))) p, fst s, ca')
     }"

interpretation ca: arena "\<lambda>s. libc_ok (fst s) \<and> ca_wf (snd s)" "\<lambda>s. ca_owned (snd s)" ca_req
proof
  fix s :: "libc \<times> chunk_alloc" and n sz r s'
  assume inv: "libc_ok (fst s) \<and> ca_wf (snd s)" and q: "ca_req (n, sz) s = Some (r, s')"
  from q obtain p e where m: "chunk_malloc (fst s) (snd s) n sz (Some error_create) = Some (p, snd s', e)"
    and s': "fst s' = fst s" and r: "r = map_option (\<lambda>p. ca_region (snd s') p (unat (n * sz))) p"
    by (auto simp: ca_req_def bind_Some_iff)
  from chunk_malloc_step [OF _ _ m] inv have "ca_step n sz (snd s) p (snd s')" by simp
  with inv
  show "(libc_ok (fst s') \<and> ca_wf (snd s')) \<and> (\<forall>x. ca_owned (snd s) x \<longrightarrow> ca_owned (snd s') x) \<and>
      (\<forall>g. r = Some g \<longrightarrow> rg_len g = unat n * unat sz \<and> ca_owned (snd s') g \<and>
        (\<forall>x. ca_owned (snd s) x \<longrightarrow> rg_disjoint x g))"
    using s' r by (cases p) (auto simp: ca_region_def ca_step_def)
qed

text \<open>
  C5. The chunked allocator never hands out the same byte twice, whatever the sequence of
  requests, the growth of the chunk list and the failures of the heap; and its counters
  stay the sums over its chunks.
\<close>

theorem chunk_alloc_grants_disjoint:
  assumes "libc_ok os" and "ca_wf ca" and "arena_run ca_req qs (os, ca) = Some (rs, os', ca')"
  shows "rg_pairwise rs \<and> list_all (ca_owned ca') rs \<and>
         ca_total_allocated ca' = limits (ca_chunks ca') \<and> ca_total_used ca' = useds (ca_chunks ca')"
  using ca.grants_disjoint [of "(os, ca)" qs rs "(os', ca')"] assms by (auto simp: ca_wf_def)

theorem chunk_alloc_grants_disjoint_witness:
  "\<exists>ca rs os' ca'. chunk_alloc_create_default = Some ca \<and>
     arena_run ca_req [(2, 4), (1, 100), (3, 1)] (libc_ample, ca) = Some (rs, os', ca') \<and>
     length rs = 3 \<and> length (ca_chunks ca') = 2 \<and> rg_pairwise rs \<and> list_all (ca_owned ca') rs \<and>
     ca_total_allocated ca' = limits (ca_chunks ca') \<and> ca_total_used ca' = useds (ca_chunks ca')"
proof -
  let ?st = "\<lparr>max_alloc_size = 0, max_total_size = 0, target_chunk_mult = 10,
       min_chunk_size = 10, max_chunk_size = 0, max_chunks = 0\<rparr>"
  let ?ca = "\<lparr>ca_settings = ?st, ca_chunks = [], ca_num_chunks = 0, ca_total_allocated = 0, ca_total_used = 0\<rparr>"
  have c: "chunk_alloc_create_default = Some ?ca" by code_simp
  have "map_option (\<lambda>(rs, os, ca). (length rs, length (ca_chunks ca)))
          (arena_run ca_req [(2, 4), (1, 100), (3, 1)] (libc_ample, ?ca)) = Some (3, 2)"
    by code_simp
  then obtain rs os' ca' where r: "arena_run ca_req [(2, 4), (1, 100), (3, 1)] (libc_ample, ?ca) = Some (rs, os', ca')"
    "length rs = 3" "length (ca_chunks ca') = 2"
    by auto
  have "ca_wf ?ca" by (simp add: ca_wf_def)
  from chunk_alloc_grants_disjoint [OF libc_ok_ample this r(1)] c r show ?thesis by blast
qed

text \<open>
  A request that a fresh chunk would fit exactly is refused, and the fresh chunk stays
  behind: with growth factor one, asking an empty allocator for eight bytes allocates a
  chunk of eight bytes, reports \<open>ERR_NOMEM\<close> and keeps the unused chunk.
\<close>

theorem chunk_malloc_exact_fit_refused:
  "\<exists>ca ca' er. chunk_alloc_create \<lparr>max_alloc_size = 0, max_total_size = 0, target_chunk_mult = 1,
         min_chunk_size = 1, max_chunk_size = 0, max_chunks = 0\<rparr> = Some ca \<and>
     chunk_malloc libc_ample ca 2 4 (Some error_create) = Some (None, ca', Some er) \<and>
     cause_code er = ERR_NOMEM \<and> ca_num_chunks ca' = 1 \<and> ca_total_allocated ca' = 8 \<and> ca_total_used ca' = 0"
proof -
  have "(do { ca \<leftarrow> chunk_alloc_create \<lparr>max_alloc_size = 0, max_total_size = 0, target_chunk_mult = 1,
           min_chunk_size = 1, max_chunk_size = 0, max_chunks = 0\<rparr>;
         (p, ca', e) \<leftarrow> chunk_malloc libc_ample ca 2 4 (Some error_create);
         Some (p, map_option cause_code e, ca_num_chunks ca', ca_total_allocated ca', ca_total_used ca') })
       = Some (None, Some ERR_NOMEM, 1, 8, 0)"
    by code_simp
  then show ?thesis
    by (auto simp: bind_Some_iff)
qed

text \<open>
  \<open>chunk_alloc_move_mem\<close> copies: when it returns a pointer, the head chunk holds the
  source bytes there, inside the chunk.
\<close>

theorem chunk_move_mem_copies:
  assumes "chunk_alloc_move_mem os ca ptr sz e = Some (Some p, ca', e')"
  shows "unat sz \<le> length ptr \<and> (\<exists>c cs. ca_chunks ca' = c # cs \<and>
     unat p + unat sz \<le> length (la_data (ch_alloc c)) \<and>
     take (unat sz) (drop (unat p) (la_data (ch_alloc c))) = take (unat sz) ptr)"
proof -
  from assms obtain ca1 bs where ld: "mem_load ptr 0 (unat sz) = Some bs"
    and st: "head_store ca1 p bs = Some ca'"
    by (auto simp: chunk_alloc_move_mem_def bind_Some_iff split: option.split_asm)
  from st obtain c cs where c: "ca_chunks ca1 = c # cs"
    and l: "unat p + length bs \<le> length (la_data (ch_alloc c))"
    and ca': "ca_chunks ca' = c\<lparr>ch_alloc := (ch_alloc c)\<lparr>la_data := overwrite (la_data (ch_alloc c)) (unat p) bs\<rparr>\<rparr> # cs"
    by (auto simp: head_store_def bind_Some_iff mem_store_Some split: list.split_asm)
  have bs: "unat sz \<le> length ptr" "bs = take (unat sz) ptr" using ld by (auto simp: mem_load_Some)
  have "take (length bs) (drop (unat p) (overwrite (la_data (ch_alloc c)) (unat p) bs)) = bs"
    using l by (simp add: overwrite_def)
  then show ?thesis
    using l bs ca' by simp
qed

theorem chunk_move_mem_copies_witness:
  "\<exists>ca p ca' e'. chunk_alloc_create_default = Some ca \<and>
     chunk_alloc_move_mem libc_ample ca [7, 8, 9] 2 None = Some (Some p, ca', e') \<and>
     unat (2 :: u32) \<le> length [7, 8, 9 :: u8] \<and> (\<exists>c cs. ca_chunks ca' = c # cs \<and>
       unat p + unat (2 :: u32) \<le> length (la_data (ch_alloc c)) \<and>
       take (unat (2 :: u32)) (drop (unat p) (la_data (ch_alloc c))) = take (unat (2 :: u32)) [7, 8, 9])"
proof -
  have "(do { ca \<leftarrow> chunk_alloc_create_default;
         (p, ca', e) \<leftarrow> chunk_alloc_move_mem libc_ample ca [7, 8, 9] 2 None; Some p }) = Some (Some 0)"
    by code_simp
  then obtain ca p ca' e' where ca: "chunk_alloc_create_default = Some ca"
    and m: "chunk_alloc_move_mem libc_ample ca [7, 8, 9] 2 None = Some (Some p, ca', e')"
    by (auto simp: bind_Some_iff)
  show ?thesis
    using chunk_move_mem_copies [OF m] ca m by blast
qed

end
