(* ===== verification/Alloc.thy ===== *)
theory Alloc
  imports Chunk_alloc
begin

text \<open>
  The allocator handle of \<^verbatim>\<open>memory/alloc.c\<close>: a tagged union of the linear, the
  chunked and the C allocator. A pointer says which of them it came from: an offset into
  the linear buffer or the head chunk, or a heap block of its own.
\<close>

datatype alloc =
    AT_LALLOC lalloc
  | AT_CHNK_ALLOC chunk_alloc
  | AT_MALLOC

datatype alloc_ptr = Arena_off u32 | Heap_block "u8 list"

definition alloc_alloc ::
  "libc \<Rightarrow> alloc \<Rightarrow> u32 \<Rightarrow> u32 \<Rightarrow> errp \<Rightarrow> (alloc_ptr option \<times> alloc \<times> errp) option" where
  "alloc_alloc os a nelem sz e =
     (case a of
        AT_LALLOC l \<Rightarrow>
          do { (p, l', e') \<leftarrow> lmalloc l nelem sz e; Some (map_option Arena_off p, AT_LALLOC l', e') }
      | AT_CHNK_ALLOC c \<Rightarrow>
          do { (p, c', e') \<leftarrow> chunk_malloc os c nelem sz e; Some (map_option Arena_off p, AT_CHNK_ALLOC c', e') }
      | AT_MALLOC \<Rightarrow>
          do { (p, e') \<leftarrow> i_malloc os nelem sz e; Some (map_option Heap_block p, AT_MALLOC, e') })"

definition alloc_calloc ::
  "libc \<Rightarrow> alloc \<Rightarrow> u32 \<Rightarrow> u32 \<Rightarrow> errp \<Rightarrow> (alloc_ptr option \<times> alloc \<times> errp) option" where
  "alloc_calloc os a sz nelem e =
     (case a of
        AT_LALLOC l \<Rightarrow>
          do { (p, l', e') \<leftarrow> lcalloc l nelem sz e; Some (map_option Arena_off p, AT_LALLOC l', e') }
      | AT_CHNK_ALLOC c \<Rightarrow>
          do { (p, c', e') \<leftarrow> chunk_calloc os c nelem sz e; Some (map_option Arena_off p, AT_CHNK_ALLOC c', e') }
      | AT_MALLOC \<Rightarrow>
          do { (p, e') \<leftarrow> i_calloc os nelem sz e; Some (map_option Heap_block p, AT_MALLOC, e') })"

text \<open>
  After \<open>i_free\<close> the last case falls out of the switch, into \<open>UNREACHABLE\<close>, as the two
  arena cases do at once.
\<close>

definition alloc_free :: "alloc \<Rightarrow> alloc_ptr option \<Rightarrow> unit option" where
  "alloc_free a data =
     (case a of
        AT_LALLOC _ \<Rightarrow> UNREACHABLE
      | AT_CHNK_ALLOC _ \<Rightarrow> UNREACHABLE
      | AT_MALLOC \<Rightarrow> do { i_free data; UNREACHABLE })"

text \<open>
  \<open>alloc_free\<close> never returns: whatever the kind of the allocator and whatever the
  pointer, also for a live heap block of the C allocator, the run ends in a failed
  assertion or in \<open>UNREACHABLE\<close>.
\<close>

theorem alloc_free_never_returns: "alloc_free a data = None"
  by (cases a) (auto simp: alloc_free_def UNREACHABLE_def)

end
