(* ===== verification/Malloc_plan.thy ===== *)
theory Malloc_plan
  imports Osmem
begin

text \<open>
  Two-pass allocation, \<^verbatim>\<open>memory/malloc_plan.c\<close>: a first pass over the data adds up
  sizes, then one block is allocated and a second, identical pass copies the data into
  it. A pointer into the block is its offset.
\<close>

section \<open>State and operations\<close>

datatype mp_mode = MP_PLANNING | MP_ALLOCING

record malloc_plan =
  mp_size :: u32
  mp_blen :: u32
  mp_buffer :: "u8 list option"
  mp_mode :: mp_mode

definition malloc_plan_create :: malloc_plan where
  "malloc_plan_create =
     \<lparr>mp_size = 0, mp_blen = 0, mp_buffer = None, mp_mode = MP_PLANNING\<rparr>"

definition malloc_plan_head :: "malloc_plan \<Rightarrow> u32 option" where
  "malloc_plan_head plan =
     (case mp_mode plan of MP_PLANNING \<Rightarrow> None | MP_ALLOCING \<Rightarrow> Some (mp_blen plan))"

definition malloc_plan_memcpy ::
  "malloc_plan \<Rightarrow> u8 list \<Rightarrow> u32 \<Rightarrow> (u32 option \<times> malloc_plan) option" where
  "malloc_plan_memcpy plan data len =
     (case mp_mode plan of
        MP_PLANNING \<Rightarrow> Some (None, plan\<lparr>mp_size := mp_size plan + len\<rparr>)
      | MP_ALLOCING \<Rightarrow>
          do {
            ASSERT (mp_blen plan + len \<le> mp_size plan);
            let ret = malloc_plan_head plan;
            buf \<leftarrow> mp_buffer plan;
            bs \<leftarrow> mem_load data 0 (unat len);
            buf' \<leftarrow> mem_store buf (unat (mp_blen plan)) bs;
            Some (ret, plan\<lparr>mp_buffer := Some buf', mp_blen := mp_blen plan + len\<rparr>)
          })"

definition malloc_plan_alloc :: "libc \<Rightarrow> malloc_plan \<Rightarrow> errp \<Rightarrow> (err_t \<times> malloc_plan \<times> errp) option" where
  "malloc_plan_alloc os plan e =
     do {
       ASSERT (mp_mode plan = MP_PLANNING);
       (buf, e') \<leftarrow> i_malloc os (mp_size plan) 1 e;
       let plan' = plan\<lparr>mp_buffer := buf\<rparr>;
       case buf of
         None \<Rightarrow> do { er \<leftarrow> e'; Some (cause_code er, plan', e') }
       | Some _ \<Rightarrow> Some (SUCCESS, plan'\<lparr>mp_mode := MP_ALLOCING\<rparr>, e')
     }"

section \<open>The two passes agree\<close>

text \<open>One pass: the same copies, in order, with the pointers they return.\<close>

fun plan_pass :: "u8 list list \<Rightarrow> malloc_plan \<Rightarrow> (u32 option list \<times> malloc_plan) option" where
  "plan_pass [] plan = Some ([], plan)"
| "plan_pass (d # ds) plan =
     do {
       (p, plan1) \<leftarrow> malloc_plan_memcpy plan d (u32_of (length d));
       (ps, plan2) \<leftarrow> plan_pass ds plan1;
       Some (p # ps, plan2)
     }"

lemma plan_pass_planning:
  assumes "mp_mode plan = MP_PLANNING"
    and "unat (mp_size plan) + length (concat ds) < 4294967296"
  shows "\<exists>ps. plan_pass ds plan = Some (ps, plan\<lparr>mp_size := u32_of (unat (mp_size plan) + length (concat ds))\<rparr>)"
  using assms
proof (induction ds arbitrary: plan)
  case (Cons d ds)
  let ?p = "plan\<lparr>mp_size := mp_size plan + u32_of (length d)\<rparr>"
  have s: "unat (mp_size plan + u32_of (length d)) = unat (mp_size plan) + length d"
    using Cons.prems(2) by simp
  have "\<exists>ps. plan_pass ds ?p = Some (ps, ?p\<lparr>mp_size := u32_of (unat (mp_size ?p) + length (concat ds))\<rparr>)"
    by (rule Cons.IH) (use Cons.prems s in simp_all)
  then show ?case
    using Cons.prems(1) s by (auto simp: malloc_plan_memcpy_def add.assoc)
qed simp

text \<open>Offsets of consecutive pieces.\<close>

fun offsets :: "nat \<Rightarrow> u8 list list \<Rightarrow> nat list" where
  "offsets n [] = []"
| "offsets n (d # ds) = n # offsets (n + length d) ds"

lemma plan_pass_allocing:
  assumes "mp_mode plan = MP_ALLOCING" and "mp_buffer plan = Some buf"
    and "unat (mp_blen plan) + length (concat ds) \<le> unat (mp_size plan)"
    and "length buf = unat (mp_size plan)"
  shows "plan_pass ds plan =
     Some (map (Some \<circ> u32_of) (offsets (unat (mp_blen plan)) ds),
           plan\<lparr>mp_buffer := Some (overwrite buf (unat (mp_blen plan)) (concat ds)),
                mp_blen := u32_of (unat (mp_blen plan) + length (concat ds))\<rparr>)"
  using assms
proof (induction ds arbitrary: plan buf)
  case Nil
  have "plan = plan\<lparr>mp_buffer := Some buf, mp_blen := mp_blen plan\<rparr>"
    using Nil(2) by (cases plan) simp
  then show ?case by simp
next
  case (Cons d ds)
  let ?buf = "overwrite buf (unat (mp_blen plan)) d"
  let ?p = "plan\<lparr>mp_buffer := Some ?buf, mp_blen := mp_blen plan + u32_of (length d)\<rparr>"
  have fit: "unat (mp_blen plan) + length d < 4294967296"
    using Cons.prems(3) by (intro u32_fits [of _ "mp_size plan"]) simp
  have s: "unat (mp_blen plan + u32_of (length d)) = unat (mp_blen plan) + length d"
    using fit by simp
  have step: "malloc_plan_memcpy plan d (u32_of (length d)) = Some (Some (mp_blen plan), ?p)"
    using Cons.prems fit s by (simp add: malloc_plan_memcpy_def malloc_plan_head_def word_le_nat_alt)
  have "plan_pass ds ?p = Some (map (Some \<circ> u32_of) (offsets (unat (mp_blen ?p)) ds),
           ?p\<lparr>mp_buffer := Some (overwrite ?buf (unat (mp_blen ?p)) (concat ds)),
                mp_blen := u32_of (unat (mp_blen ?p) + length (concat ds))\<rparr>)"
    by (rule Cons.IH) (use Cons.prems s in simp_all)
  moreover have "overwrite ?buf (unat (mp_blen plan) + length d) (concat ds)
      = overwrite buf (unat (mp_blen plan)) (concat (d # ds))"
    using overwrite_overwrite [of "unat (mp_blen plan)" d "concat ds" buf] Cons.prems by simp
  ultimately show ?case
    using step s by (simp add: add.assoc)
qed

text \<open>
  The two-pass protocol is sound: plan a list of pieces whose total size is positive and
  fits 32 bits, allocate, and copy the same pieces; if the heap grants the block, no
  assertion fails, the block is exactly the concatenation of the pieces, it is full, and
  each copy returned the offset of its piece.
\<close>

theorem malloc_plan_two_passes:
  assumes "libc_ok os" and "concat ds \<noteq> []" and "length (concat ds) < 4294967296"
    and "lc_malloc os (length (concat ds)) \<noteq> None"
  shows "\<exists>ps plan1 plan2 plan3. plan_pass ds malloc_plan_create = Some (ps, plan1) \<and>
     malloc_plan_alloc os plan1 e = Some (SUCCESS, plan2, e) \<and>
     plan_pass ds plan2 = Some (map (Some \<circ> u32_of) (offsets 0 ds), plan3) \<and>
     mp_buffer plan3 = Some (concat ds) \<and> mp_blen plan3 = mp_size plan3"
proof -
  let ?n = "u32_of (length (concat ds))"
  let ?p1 = "malloc_plan_create\<lparr>mp_size := ?n\<rparr>"
  obtain ps where p1: "plan_pass ds malloc_plan_create = Some (ps, ?p1)"
    using plan_pass_planning [of malloc_plan_create ds] assms(3) by (auto simp: malloc_plan_create_def)
  obtain buf where buf: "lc_malloc os (length (concat ds)) = Some buf"
    using assms(4) by auto
  have n: "unat ?n = length (concat ds)" and n0: "0 < ?n"
    using assms(2,3) by (simp_all add: word_less_nat_alt del: length_concat)
  let ?p2 = "?p1\<lparr>mp_buffer := Some buf, mp_mode := MP_ALLOCING\<rparr>"
  have a: "malloc_plan_alloc os ?p1 e = Some (SUCCESS, ?p2, e)"
    using buf n n0 assms(3)
    by (simp add: malloc_plan_alloc_def malloc_plan_create_def i_malloc_def safe_mul_u32_def del: length_concat)
  have l: "length buf = length (concat ds)"
    using lc_malloc_length [OF assms(1) buf] .
  have "plan_pass ds ?p2 = Some (map (Some \<circ> u32_of) (offsets (unat (mp_blen ?p2)) ds),
           ?p2\<lparr>mp_buffer := Some (overwrite buf (unat (mp_blen ?p2)) (concat ds)),
                mp_blen := u32_of (unat (mp_blen ?p2) + length (concat ds))\<rparr>)"
    by (rule plan_pass_allocing) (use n l in \<open>simp_all add: malloc_plan_create_def del: length_concat\<close>)
  moreover have "overwrite buf 0 (concat ds) = concat ds"
    using l by (simp add: overwrite_def del: length_concat)
  ultimately show ?thesis
    using p1 a by (auto simp: malloc_plan_create_def simp del: length_concat)
qed

theorem malloc_plan_two_passes_witness:
  "\<exists>ps plan1 plan2 plan3. plan_pass [[1, 2], [3]] malloc_plan_create = Some (ps, plan1) \<and>
     malloc_plan_alloc libc_ample plan1 None = Some (SUCCESS, plan2, None) \<and>
     plan_pass [[1, 2], [3]] plan2 = Some (map (Some \<circ> u32_of) (offsets 0 [[1, 2], [3]]), plan3) \<and>
     mp_buffer plan3 = Some (concat [[1, 2], [3]]) \<and> mp_blen plan3 = mp_size plan3"
  by (rule malloc_plan_two_passes) (simp, simp, simp, simp add: libc_ample_def)

end
