(* ===== verification/Serializer.thy ===== *)
theory Serializer
  imports Prelude
begin

text \<open>
  The bounded writer and reader of \<^verbatim>\<open>memory/serializer.c\<close> and
  \<^verbatim>\<open>memory/deserializer.c\<close>, over the caller's byte array. The latch only brackets
  each call.
\<close>

section \<open>Writing\<close>

record serializer =
  sr_data :: "u8 list"
  sr_dlen :: u32
  sr_dcap :: u32

definition serializer_dbg :: "serializer \<Rightarrow> bool" where
  "serializer_dbg s \<longleftrightarrow> sr_dcap s > 0 \<and> sr_dlen s \<le> sr_dcap s"

definition srlizr_create :: "u8 list \<Rightarrow> u32 \<Rightarrow> serializer" where
  "srlizr_create data dcap = \<lparr>sr_data = data, sr_dlen = 0, sr_dcap = dcap\<rparr>"

definition srlizr_write :: "serializer \<Rightarrow> u8 list \<Rightarrow> u32 \<Rightarrow> (bool \<times> serializer) option" where
  "srlizr_write dest src len =
     do {
       ASSERT (serializer_dbg dest);
       if sr_dlen dest + len > sr_dcap dest then Some (False, dest)
       else do {
         bs \<leftarrow> mem_load src 0 (unat len);
         data \<leftarrow> mem_store (sr_data dest) (unat (sr_dlen dest)) bs;
         let dest' = dest\<lparr>sr_data := data, sr_dlen := sr_dlen dest + len\<rparr>;
         ASSERT (serializer_dbg dest');
         Some (True, dest')
       }
     }"

definition srlizr_write_expect :: "serializer \<Rightarrow> u8 list \<Rightarrow> u32 \<Rightarrow> serializer option" where
  "srlizr_write_expect dest src len =
     do { (ret, dest') \<leftarrow> srlizr_write dest src len; ASSERT ret; Some dest' }"

section \<open>Reading\<close>

record deserializer =
  ds_data :: "u8 list"
  ds_head :: u32
  ds_dlen :: u32

definition deserializer_dbg :: "deserializer \<Rightarrow> bool" where
  "deserializer_dbg s \<longleftrightarrow> ds_dlen s > 0 \<and> ds_head s \<le> ds_dlen s"

definition dsrlizr_create :: "u8 list \<Rightarrow> u32 \<Rightarrow> deserializer" where
  "dsrlizr_create data dlen = \<lparr>ds_data = data, ds_head = 0, ds_dlen = dlen\<rparr>"

definition dsrlizr_read :: "u8 list \<Rightarrow> u32 \<Rightarrow> deserializer \<Rightarrow> (bool \<times> u8 list \<times> deserializer) option" where
  "dsrlizr_read dest dlen src =
     do {
       ASSERT (deserializer_dbg src);
       if ds_head src + dlen > ds_dlen src then Some (False, dest, src)
       else do {
         bs \<leftarrow> mem_load (ds_data src) (unat (ds_head src)) (unat dlen);
         dest' \<leftarrow> mem_store dest 0 bs;
         let src' = src\<lparr>ds_head := ds_head src + dlen\<rparr>;
         ASSERT (deserializer_dbg src');
         Some (True, dest', src')
       }
     }"

definition dsrlizr_read_expect :: "u8 list \<Rightarrow> u32 \<Rightarrow> deserializer \<Rightarrow> (u8 list \<times> deserializer) option" where
  "dsrlizr_read_expect dest dlen src =
     do { (ret, dest', src') \<leftarrow> dsrlizr_read dest dlen src; ASSERT ret; Some (dest', src') }"

section \<open>Round trip\<close>

definition serializer_wf :: "serializer \<Rightarrow> bool" where
  "serializer_wf s \<longleftrightarrow> serializer_dbg s \<and> length (sr_data s) = unat (sr_dcap s)"

definition sr_bytes :: "serializer \<Rightarrow> u8 list" where
  "sr_bytes s = take (unat (sr_dlen s)) (sr_data s)"

lemma srlizr_write_ok:
  assumes wf: "serializer_wf s" and len: "unat len \<le> length src"
    and nowrap: "unat (sr_dlen s) + unat len < 4294967296"
  shows "if unat (sr_dlen s) + unat len \<le> unat (sr_dcap s)
         then \<exists>s'. srlizr_write s src len = Some (True, s') \<and> serializer_wf s' \<and> sr_dcap s' = sr_dcap s \<and>
                sr_bytes s' = sr_bytes s @ take (unat len) src
         else srlizr_write s src len = Some (False, s)"
proof -
  have sum: "unat (sr_dlen s + len) = unat (sr_dlen s) + unat len" using nowrap by simp
  have l: "length (take (unat len) src) = unat len" using len by simp
  have t: "take (unat (sr_dlen s) + unat len) (overwrite (sr_data s) (unat (sr_dlen s)) (take (unat len) src))
      = sr_bytes s @ take (unat len) src" if "unat (sr_dlen s) + unat len \<le> length (sr_data s)"
    using take_overwrite_full [of "unat (sr_dlen s)" "take (unat len) src" "sr_data s"] that
    unfolding l sr_bytes_def by simp
  show ?thesis
    using wf len sum l t
    by (auto simp: srlizr_write_def serializer_wf_def serializer_dbg_def sr_bytes_def wnat)
qed

text \<open>Writing several pieces, and reading pieces of the same lengths into fresh objects.\<close>

fun srlizr_write_all :: "u8 list list \<Rightarrow> serializer \<Rightarrow> serializer option" where
  "srlizr_write_all [] s = Some s"
| "srlizr_write_all (d # ds) s =
     do { s1 \<leftarrow> srlizr_write_expect s d (u32_of (length d)); srlizr_write_all ds s1 }"

fun dsrlizr_read_all :: "nat list \<Rightarrow> deserializer \<Rightarrow> u8 list list option" where
  "dsrlizr_read_all [] s = Some []"
| "dsrlizr_read_all (n # ns) s =
     do {
       (d, s1) \<leftarrow> dsrlizr_read_expect (replicate n 0) (u32_of n) s;
       ds \<leftarrow> dsrlizr_read_all ns s1;
       Some (d # ds)
     }"

lemma srlizr_write_all_ok:
  assumes "serializer_wf s" and "unat (sr_dlen s) + length (concat ds) \<le> unat (sr_dcap s)"
  shows "\<exists>s'. srlizr_write_all ds s = Some s' \<and> serializer_wf s' \<and> sr_dcap s' = sr_dcap s \<and>
           sr_bytes s' = sr_bytes s @ concat ds"
  using assms
proof (induction ds arbitrary: s)
  case (Cons d ds)
  have fit: "unat (sr_dlen s) + length d \<le> unat (sr_dcap s)" using Cons.prems(2) by simp
  then have b: "length d < 4294967296" "unat (sr_dlen s) + length d < 4294967296"
    using u32_less_bound [of "sr_dcap s"] by linarith+
  from srlizr_write_ok [OF Cons.prems(1), of "u32_of (length d)" d] fit b obtain s1 where
    s1: "srlizr_write s d (u32_of (length d)) = Some (True, s1)" "serializer_wf s1" "sr_dcap s1 = sr_dcap s"
      "sr_bytes s1 = sr_bytes s @ d"
    by auto
  have "unat (sr_dlen s1) = length (sr_bytes s1)" "unat (sr_dlen s) = length (sr_bytes s)"
    using s1(2) Cons.prems(1) by (auto simp: serializer_wf_def serializer_dbg_def sr_bytes_def wnat)
  then have "unat (sr_dlen s1) + length (concat ds) \<le> unat (sr_dcap s1)"
    using Cons.prems(2) s1 by simp
  from Cons.IH [OF s1(2) this] s1 show ?case
    by (auto simp: srlizr_write_expect_def)
qed simp

lemma dsrlizr_read_all_ok:
  assumes "0 < unat (ds_dlen s)" and "unat (ds_dlen s) \<le> length (ds_data s)"
    and "unat (ds_head s) + length (concat ds) \<le> unat (ds_dlen s)"
    and "take (length (concat ds)) (drop (unat (ds_head s)) (ds_data s)) = concat ds"
  shows "dsrlizr_read_all (map length ds) s = Some ds"
  using assms
proof (induction ds arbitrary: s)
  case (Cons d ds)
  have fit: "unat (ds_head s) + length d \<le> unat (ds_dlen s)" using Cons.prems(3) by simp
  then have b: "length d < 4294967296" "unat (ds_head s) + length d < 4294967296"
    using u32_less_bound [of "ds_dlen s"] by linarith+
  let ?s1 = "s\<lparr>ds_head := ds_head s + u32_of (length d)\<rparr>"
  have h: "unat (ds_head s + u32_of (length d)) = unat (ds_head s) + length d" using b by simp
  let ?r = "drop (unat (ds_head s)) (ds_data s)"
  from Cons.prems(4) have sp: "take (length d + length (concat ds)) ?r = d @ concat ds" by simp
  have d: "take (length d) ?r = d"
    using arg_cong [OF sp, of "take (length d)"] by simp
  have rest: "take (length (concat ds)) (drop (unat (ds_head ?s1)) (ds_data s)) = concat ds"
    using arg_cong [OF sp, of "drop (length d)"] h by (simp add: drop_take add.commute)
  have "dsrlizr_read (replicate (length d) 0) (u32_of (length d)) s = Some (True, d, ?s1)"
    using Cons.prems(1,2) fit b h d
    by (simp add: dsrlizr_read_def deserializer_dbg_def wnat overwrite_def)
  moreover have "dsrlizr_read_all (map length ds) ?s1 = Some ds"
    by (rule Cons.IH) (use Cons.prems h rest in simp_all)
  ultimately show ?case by (simp add: dsrlizr_read_expect_def)
qed simp

text \<open>
  C15. Round trip: pieces that fit the capacity are all accepted by the serializer, and a
  deserializer over what it wrote, asked for the same lengths in the same order, gives
  every piece back.
\<close>

theorem serializer_round_trip:
  assumes "length data = unat dcap" and "concat ds \<noteq> []" and "length (concat ds) \<le> unat dcap"
  shows "\<exists>s. srlizr_write_all ds (srlizr_create data dcap) = Some s \<and>
     unat (sr_dlen s) = length (concat ds) \<and>
     dsrlizr_read_all (map length ds) (dsrlizr_create (sr_data s) (sr_dlen s)) = Some ds"
proof -
  have "0 < length (concat ds)" using assms(2) by (simp del: length_concat concat_eq_Nil_conv)
  then have cap: "0 < unat dcap" using assms(3) by linarith
  then have "serializer_wf (srlizr_create data dcap)"
    using assms(1) by (simp add: serializer_wf_def serializer_dbg_def srlizr_create_def wnat)
  from srlizr_write_all_ok [OF this, of ds] obtain s where
    s: "srlizr_write_all ds (srlizr_create data dcap) = Some s" "serializer_wf s" "sr_bytes s = concat ds"
    using assms(3) by (auto simp: srlizr_create_def sr_bytes_def)
  have le: "unat (sr_dlen s) \<le> length (sr_data s)"
    using s(2) by (simp add: serializer_wf_def serializer_dbg_def wnat)
  then have n: "unat (sr_dlen s) = length (concat ds)"
    using arg_cong [OF s(3), of length] by (simp add: sr_bytes_def)
  have "dsrlizr_read_all (map length ds) (dsrlizr_create (sr_data s) (sr_dlen s)) = Some ds"
    by (rule dsrlizr_read_all_ok)
       (use le n s(3) \<open>0 < length (concat ds)\<close> in \<open>simp_all add: dsrlizr_create_def sr_bytes_def del: length_concat\<close>)
  then show ?thesis using s n by blast
qed

theorem serializer_round_trip_witness:
  "\<exists>s. srlizr_write_all [[1, 2], [3]] (srlizr_create [0, 0, 0, 0] 4) = Some s \<and>
     unat (sr_dlen s) = length (concat [[1, 2], [3 :: u8]]) \<and>
     dsrlizr_read_all (map length [[1, 2], [3 :: u8]]) (dsrlizr_create (sr_data s) (sr_dlen s)) = Some [[1, 2], [3]]"
  by (rule serializer_round_trip) simp_all

text \<open>
  The bound check of \<open>srlizr_write\<close> is done in 32-bit arithmetic: a length for which the
  sum wraps is accepted, and the copy that follows runs outside the array.
\<close>

theorem srlizr_write_wraps:
  assumes "serializer_wf s" and "4294967296 \<le> unat (sr_dlen s) + unat len" and "unat len \<le> length src"
  shows "sr_dlen s + len \<le> sr_dcap s \<and> srlizr_write s src len = None"
proof -
  have small: "unat (sr_dlen s) + unat len - 4294967296 < 4294967296"
    using u32_less_bound [of "sr_dlen s"] u32_less_bound [of len] by linarith
  have "unat (sr_dlen s + len) = unat (sr_dlen s) + unat len - 4294967296"
    using assms(2) mod_less [OF small] by (simp add: u32_add_wraps le_mod_geq)
  then have "unat (sr_dlen s + len) \<le> unat (sr_dlen s)"
    using u32_less_bound [of len] by linarith
  then have 1: "sr_dlen s + len \<le> sr_dcap s"
    using assms(1) by (auto simp: serializer_wf_def serializer_dbg_def word_le_nat_alt)
  have "\<not> unat (sr_dlen s) + unat len \<le> unat (sr_dcap s)"
    using assms(2) u32_less_bound [of "sr_dcap s"] by linarith
  then show ?thesis
    using 1 assms by (auto simp: srlizr_write_def serializer_wf_def mem_store_def min_def)
qed

theorem srlizr_write_wraps_witness:
  "(2 :: u32) + 0xFFFFFFFE \<le> 4 \<and>
   srlizr_write \<lparr>sr_data = [1, 2, 0, 0], sr_dlen = 2, sr_dcap = 4\<rparr> (replicate 4294967294 0) 0xFFFFFFFE = None"
  using srlizr_write_wraps [of "\<lparr>sr_data = [1, 2, 0, 0], sr_dlen = 2, sr_dcap = 4\<rparr>" "0xFFFFFFFE" "replicate 4294967294 0"]
  by (simp add: serializer_wf_def serializer_dbg_def)

end
