(* ===== verification/Llist.thy ===== *)
theory Llist
  imports Prelude
begin

text \<open>
  The intrusive singly linked list of \<^verbatim>\<open>ds/llist.h\<close>. Nodes are shared and mutated
  through pointers, so the model keeps an explicit store: a function from node addresses
  to their \<open>next\<close> fields. Walks are loops over the store and do not end on a cyclic list.
  \<open>chain nx p ns\<close> says that the pointer \<open>p\<close> heads the list of the nodes \<open>ns\<close>.
\<close>

section \<open>Store and operations\<close>

type_synonym addr = nat
type_synonym links = "addr \<Rightarrow> addr option"

definition llnode_init :: "links \<Rightarrow> addr \<Rightarrow> links" where
  "llnode_init nx n = nx(n := None)"

partial_function (option) list_length_loop :: "links \<Rightarrow> addr option \<Rightarrow> u32 \<Rightarrow> u32 option" where
  "list_length_loop nx cur len =
     (case cur of None \<Rightarrow> Some len | Some c \<Rightarrow> list_length_loop nx (nx c) (len + 1))"

declare list_length_loop.simps [code]

definition list_length :: "links \<Rightarrow> addr option \<Rightarrow> u32 option" where
  "list_length nx head = list_length_loop nx head 0"

definition list_push :: "links \<Rightarrow> addr option \<Rightarrow> addr \<Rightarrow> links \<times> addr option" where
  "list_push nx head n = (nx(n := head), Some n)"

partial_function (option) last_loop :: "links \<Rightarrow> addr \<Rightarrow> addr option" where
  "last_loop nx cur = (case nx cur of None \<Rightarrow> Some cur | Some c \<Rightarrow> last_loop nx c)"

declare last_loop.simps [code]

definition list_append :: "links \<Rightarrow> addr option \<Rightarrow> addr \<Rightarrow> (links \<times> addr option) option" where
  "list_append nx head n =
     (let nx1 = nx(n := None) in
      case head of
        None \<Rightarrow> Some (nx1, Some n)
      | Some h \<Rightarrow> do { cur \<leftarrow> last_loop nx1 h; Some (nx1(cur := Some n), head) })"

definition list_pop :: "links \<Rightarrow> addr option \<Rightarrow> addr option \<times> links \<times> addr option" where
  "list_pop nx head =
     (case head of
        None \<Rightarrow> (None, nx, None)
      | Some n \<Rightarrow> (Some n, nx(n := None), nx n))"

partial_function (option) list_find_loop ::
  "(addr \<Rightarrow> addr \<Rightarrow> bool) \<Rightarrow> links \<Rightarrow> addr option \<Rightarrow> addr \<Rightarrow> u32 \<Rightarrow> (addr option \<times> u32) option" where
  "list_find_loop eq nx iter node didx =
     (case iter of
        None \<Rightarrow> Some (None, didx)
      | Some i \<Rightarrow> if eq i node then Some (Some i, didx)
                  else list_find_loop eq nx (nx i) node (didx + 1))"

declare list_find_loop.simps [code]

definition list_find ::
  "(addr \<Rightarrow> addr \<Rightarrow> bool) \<Rightarrow> links \<Rightarrow> addr option \<Rightarrow> addr \<Rightarrow> (addr option \<times> u32) option" where
  "list_find eq nx head node = list_find_loop eq nx head node 0"

text \<open>
  The cursor of \<open>list_remove\<close> is a pointer to a pointer: the caller's head variable
  (\<open>None\<close>) or the \<open>next\<close> field of a node.
\<close>

definition slot_get :: "links \<Rightarrow> addr option \<Rightarrow> addr option \<Rightarrow> addr option" where
  "slot_get nx head cur = (case cur of None \<Rightarrow> head | Some a \<Rightarrow> nx a)"

partial_function (option) remove_loop :: "links \<Rightarrow> addr option \<Rightarrow> addr \<Rightarrow> addr option \<Rightarrow> addr option option" where
  "remove_loop nx head n cur =
     (case slot_get nx head cur of
        None \<Rightarrow> Some cur
      | Some c \<Rightarrow> if c \<noteq> n then remove_loop nx head n (Some c) else Some cur)"

declare remove_loop.simps [code]

definition list_remove :: "links \<Rightarrow> addr option \<Rightarrow> addr \<Rightarrow> (links \<times> addr option) option" where
  "list_remove nx head n =
     do {
       cur \<leftarrow> remove_loop nx head n None;
       Some (if slot_get nx head cur \<noteq> None
             then (case cur of
                     None \<Rightarrow> (nx(n := None), nx n)
                   | Some a \<Rightarrow> ((nx(a := nx n))(n := None), head))
             else (nx, head))
     }"

partial_function (option) get_n_loop :: "links \<Rightarrow> addr option \<Rightarrow> u32 \<Rightarrow> u32 \<Rightarrow> addr option option" where
  "get_n_loop nx cur index i =
     (case cur of
        None \<Rightarrow> Some None
      | Some c \<Rightarrow> if i < index then get_n_loop nx (nx c) index (i + 1) else Some cur)"

declare get_n_loop.simps [code]

definition llnode_get_n :: "links \<Rightarrow> addr option \<Rightarrow> u32 \<Rightarrow> addr option option" where
  "llnode_get_n nx head index = get_n_loop nx head index 0"

section \<open>Lists in the store\<close>

fun chain :: "links \<Rightarrow> addr option \<Rightarrow> addr list \<Rightarrow> bool" where
  "chain nx p [] = (p = None)"
| "chain nx p (a # as) = (p = Some a \<and> chain nx (nx a) as)"

lemma chain_None [simp]: "chain nx None ns \<longleftrightarrow> ns = []"
  by (cases ns) auto

lemma chain_Some: "chain nx (Some a) ns \<longleftrightarrow> (\<exists>as. ns = a # as \<and> chain nx (nx a) as)"
  by (cases ns) auto

lemma chain_upd [simp]: "a \<notin> set ns \<Longrightarrow> chain (nx(a := v)) p ns = chain nx p ns"
  by (induction ns arbitrary: p) auto

lemma chain_unique: "chain nx p ns \<Longrightarrow> chain nx p ms \<Longrightarrow> ns = ms"
  by (induction ns arbitrary: p ms) (auto simp: chain_Some)

lemma list_length_loop_ok:
  "chain nx p ns \<Longrightarrow> list_length_loop nx p len = Some (len + word_of_nat (length ns))"
  by (induction ns arbitrary: p len; subst list_length_loop.simps) (auto simp: add.assoc)

lemma last_loop_ok: "chain nx (Some h) ns \<Longrightarrow> last_loop nx h = Some (last ns)"
proof (induction ns arbitrary: h)
  case (Cons a as)
  then show ?case
    by (subst last_loop.simps) (cases "nx a"; auto simp: chain_Some)
qed simp

lemma chain_snoc:
  "chain nx p ns \<Longrightarrow> ns \<noteq> [] \<Longrightarrow> distinct ns \<Longrightarrow> n \<notin> set ns \<Longrightarrow> nx n = None \<Longrightarrow>
   chain (nx(last ns := Some n)) p (ns @ [n])"
proof (induction ns arbitrary: p)
  case (Cons a as)
  then show ?case
    by (cases "as = []") auto
qed simp

lemma list_find_loop_ok:
  "chain nx p ns \<Longrightarrow> list_find_loop eq nx p node d =
     Some (List.find (\<lambda>a. eq a node) ns, d + word_of_nat (length (takeWhile (\<lambda>a. \<not> eq a node) ns)))"
  by (induction ns arbitrary: p d; subst list_find_loop.simps) (auto simp: add.assoc)

lemma get_n_loop_ok:
  assumes "chain nx p ns" and "i \<le> index"
  shows "get_n_loop nx p index i = Some (let k = unat index - unat i in if k < length ns then Some (ns ! k) else None)"
  using assms
proof (induction ns arbitrary: p i)
  case Nil
  then show ?case by (subst get_n_loop.simps) simp
next
  case (Cons a as)
  show ?case
  proof (cases "i < index")
    case True
    have "unat i + 1 < 4294967296"
      using u32_less_bound [of index] True unfolding word_less_nat_alt by linarith
    then have s: "unat (i + 1) = unat i + 1"
      using u32_add_nat [of i 1] by simp
    have k: "unat index - unat i = Suc (unat index - unat (i + 1))"
      using True s by (simp add: word_less_nat_alt)
    have "i + 1 \<le> index" using True s by (simp add: word_le_nat_alt word_less_nat_alt)
    then show ?thesis
      using Cons True k by (subst get_n_loop.simps) (simp add: Let_def)
  next
    case False
    then show ?thesis using Cons.prems by (subst get_n_loop.simps) simp
  qed
qed

text \<open>Where the cursor of \<open>list_remove\<close> stops: the node before \<open>n\<close>, or the last one.\<close>

lemma remove_loop_ok:
  assumes "chain nx (slot_get nx head cur) ns"
  shows "\<exists>c. remove_loop nx head n cur = Some c \<and>
     (if n \<in> set ns
      then slot_get nx head c = Some n \<and>
        (c = cur \<and> hd ns = n \<or> (\<exists>as b bs. c = Some b \<and> ns = as @ b # n # bs \<and> n \<notin> set as \<and> n \<noteq> b))
      else slot_get nx head c = None)"
  using assms
proof (induction ns arbitrary: cur)
  case Nil
  then show ?case by (subst remove_loop.simps) simp
next
  case (Cons a as)
  then have a: "slot_get nx head cur = Some a" "chain nx (nx a) as" by auto
  show ?case
  proof (cases "a = n")
    case True
    then show ?thesis using a by (subst remove_loop.simps) simp
  next
    case False
    have "chain nx (slot_get nx head (Some a)) as" using a by (simp add: slot_get_def)
    from Cons.IH [OF this] obtain c where c: "remove_loop nx head n (Some a) = Some c"
      "if n \<in> set as
       then slot_get nx head c = Some n \<and>
         (c = Some a \<and> hd as = n \<or> (\<exists>cs b bs. c = Some b \<and> as = cs @ b # n # bs \<and> n \<notin> set cs \<and> n \<noteq> b))
       else slot_get nx head c = None" by blast
    have "remove_loop nx head n cur = Some c"
      using a False c by (subst remove_loop.simps) simp
    moreover have "\<exists>xs b bs. c = Some b \<and> a # as = xs @ b # n # bs \<and> n \<notin> set xs \<and> n \<noteq> b" if "n \<in> set as"
    proof -
      from c(2) that consider "c = Some a" "hd as = n"
        | cs b bs where "c = Some b" "as = cs @ b # n # bs" "n \<notin> set cs" "n \<noteq> b"
        by auto
      then show ?thesis
      proof cases
        case 1
        then have "a # as = [] @ a # n # tl as" using that by (cases as) auto
        then show ?thesis using 1 False by (metis empty_iff list.set(1))
      next
        case 2
        then have "a # as = (a # cs) @ b # n # bs" "n \<notin> set (a # cs)" using False by auto
        then show ?thesis using 2 by blast
      qed
    qed
    ultimately show ?thesis using c False by auto
  qed
qed

lemma chain_drop_node:
  "chain nx p (as @ b # n # bs) \<Longrightarrow> distinct (as @ b # n # bs) \<Longrightarrow>
   chain ((nx(b := nx n))(n := None)) p (as @ b # bs)"
  by (induction as arbitrary: p) auto

lemma list_append_empty:
  "list_append nx None n = Some (nx(n := None), Some n)"
  by (simp add: list_append_def)

lemma list_append_ok:
  assumes c: "chain nx head ns" and d: "distinct ns" and n: "n \<notin> set ns"
  shows "\<exists>nx' head'. list_append nx head n = Some (nx', head') \<and> chain nx' head' (ns @ [n])"
proof (cases head)
  case None
  then show ?thesis using c by (simp add: list_append_empty)
next
  case (Some h)
  then have ne: "ns \<noteq> []" using c by auto
  have c1: "chain (nx(n := None)) (Some h) ns" using c n Some by simp
  have "chain ((nx(n := None))(last ns := Some n)) head (ns @ [n])"
    by (rule chain_snoc) (use c n d ne in simp_all)
  then show ?thesis using last_loop_ok [OF c1] Some by (simp add: list_append_def)
qed

lemma list_pop_ok:
  assumes "chain nx head ns" and "distinct ns"
  shows "\<exists>nx' head'. list_pop nx head = (if ns = [] then None else Some (hd ns), nx', head') \<and>
     chain nx' head' (tl ns) \<and> (ns \<noteq> [] \<longrightarrow> nx' (hd ns) = None)"
  using assms by (cases ns) (auto simp: list_pop_def)

lemma list_remove_ok:
  assumes c: "chain nx head ns" and d: "distinct ns"
  shows "\<exists>nx' head'. list_remove nx head m = Some (nx', head') \<and> chain nx' head' (remove1 m ns) \<and>
     (if m \<in> set ns then nx' m = None else nx' = nx \<and> head' = head)"
proof -
  have c0: "chain nx (slot_get nx head None) ns" using c by (simp add: slot_get_def)
  from remove_loop_ok [OF this, of m] obtain cur where r: "remove_loop nx head m None = Some cur"
    and p: "if m \<in> set ns
      then slot_get nx head cur = Some m \<and>
        (cur = None \<and> hd ns = m \<or> (\<exists>as b bs. cur = Some b \<and> ns = as @ b # m # bs \<and> m \<notin> set as \<and> m \<noteq> b))
      else slot_get nx head cur = None" by blast
  show ?thesis
  proof (cases "m \<in> set ns")
    case False
    then show ?thesis using r p c by (simp add: list_remove_def remove1_idem)
  next
    case True
    with p consider (front) "cur = None" "hd ns = m"
      | (later) as b bs where "cur = Some b" "ns = as @ b # m # bs" "m \<notin> set as" "m \<noteq> b"
      by auto
    then show ?thesis
    proof cases
      case front
      then obtain bs where "ns = m # bs" using True by (cases ns) auto
      then show ?thesis using front r c d by (auto simp: list_remove_def slot_get_def)
    next
      case later
      then have "remove1 m ns = as @ b # bs" by (simp add: remove1_append)
      moreover have "chain ((nx(b := nx m))(m := None)) head (as @ b # bs)"
        using chain_drop_node [of nx head as b m bs] c d later by simp
      ultimately show ?thesis using later r p True by (simp add: list_remove_def)
    qed
  qed
qed

text \<open>
  C12. The pointer operations are the list operations. On a store that holds a list with
  pairwise distinct nodes, the empty list included, pushing and appending a new node give a
  store that holds the list with that node in front or behind, and popping returns and
  detaches the first node, if there is one, and leaves the rest. Removing a node of the
  list leaves the others in their order and detaches it; removing a node that is not in the
  list changes neither the links nor the head. Every walk ends.
\<close>

theorem llist_operations_refine:
  assumes c: "chain nx head ns" and d: "distinct ns" and n: "n \<notin> set ns"
  shows "(\<exists>nx' head'. list_push nx head n = (nx', head') \<and> chain nx' head' (n # ns)) \<and>
     (\<exists>nx' head'. list_append nx head n = Some (nx', head') \<and> chain nx' head' (ns @ [n])) \<and>
     (\<exists>nx' head'. list_pop nx head = (if ns = [] then None else Some (hd ns), nx', head') \<and>
        chain nx' head' (tl ns) \<and> (ns \<noteq> [] \<longrightarrow> nx' (hd ns) = None)) \<and>
     (\<exists>nx' head'. list_remove nx head m = Some (nx', head') \<and> chain nx' head' (remove1 m ns) \<and>
        (if m \<in> set ns then nx' m = None else nx' = nx \<and> head' = head))"
proof (intro conjI)
  show "\<exists>nx' head'. list_push nx head n = (nx', head') \<and> chain nx' head' (n # ns)"
    using c n by (auto simp: list_push_def)
qed (use list_append_ok [OF c d n] list_pop_ok [OF c d] list_remove_ok [OF c d] in blast)+

theorem llist_operations_refine_witness:
  "(\<exists>nx' head'. list_append (\<lambda>_. Some 9) None 3 = Some (nx', head') \<and> chain nx' head' [3]) \<and>
   (\<exists>nx' head'. list_append ((\<lambda>_. None)(1 := Some 2)) (Some 1) 3 = Some (nx', head') \<and> chain nx' head' [1, 2, 3]) \<and>
   (\<exists>nx' head'. list_remove ((\<lambda>_. None)(1 := Some 2)) (Some 1) 2 = Some (nx', head') \<and> chain nx' head' [1] \<and> nx' 2 = None)"
  using llist_operations_refine [of "\<lambda>_. Some 9" None "[]" 3 0]
    llist_operations_refine [of "(\<lambda>_. None)(1 := Some 2)" "Some 1" "[1, 2]" 3 2]
  by simp

text \<open>
  C13. The read-only walks end on every list and agree with the list: the length (modulo
  the word size), the element at an index, and the first node that matches with its index.
\<close>

theorem llist_walks_refine:
  assumes "chain nx head ns"
  shows "list_length nx head = Some (word_of_nat (length ns)) \<and>
     llnode_get_n nx head i = Some (if unat i < length ns then Some (ns ! unat i) else None) \<and>
     list_find eq nx head node = Some (List.find (\<lambda>a. eq a node) ns,
       word_of_nat (length (takeWhile (\<lambda>a. \<not> eq a node) ns)))"
  using list_length_loop_ok [OF assms, of 0] get_n_loop_ok [OF assms, of 0 i] list_find_loop_ok [OF assms, of eq node 0]
  by (simp add: list_length_def llnode_get_n_def list_find_def Let_def)

theorem llist_walks_refine_witness:
  "list_length ((\<lambda>_. None)(1 := Some 2)) (Some 1) = Some (word_of_nat (length [1, 2 :: nat])) \<and>
   llnode_get_n ((\<lambda>_. None)(1 := Some 2)) (Some 1) 1 =
     Some (if unat (1 :: u32) < length [1, 2 :: nat] then Some ([1, 2] ! unat (1 :: u32)) else None) \<and>
   list_find (=) ((\<lambda>_. None)(1 := Some 2)) (Some 1) 2 = Some (List.find (\<lambda>a. a = 2) [1, 2],
       word_of_nat (length (takeWhile (\<lambda>a. a \<noteq> 2) [1, 2 :: nat])))"
  by (rule llist_walks_refine) simp

end
