(* ===== verification/Stride.thy ===== *)
theory Stride
  imports Chunk_alloc
begin

text \<open>
  Python-style slices, \<^verbatim>\<open>ds/stride.h\<close> and \<^verbatim>\<open>ds/stride.c\<close>: a user's slice with
  optional, possibly negative bounds is resolved against an array length into a start, a
  step and an element count. Signed fields are 64-bit words read with \<open>sint\<close>; a signed
  operation that overflows is undefined.
\<close>

unbundle bit_operations_syntax

section \<open>Data\<close>

type_synonym i64 = "64 word"

record stride =
  st_start :: u64
  st_stride :: u64
  st_nelems :: u64

record user_stride =
  us_start :: i64
  us_step :: i64
  us_stop :: i64
  us_present :: u32

definition STOP_PRESENT :: u32 where "STOP_PRESENT = 1"
definition STEP_PRESENT :: u32 where "STEP_PRESENT = 2"
definition START_PRESENT :: u32 where "START_PRESENT = 4"
definition COLON_PRESENT :: u32 where "COLON_PRESENT = 8"

lemmas present_defs = STOP_PRESENT_def STEP_PRESENT_def START_PRESENT_def COLON_PRESENT_def

definition has :: "user_stride \<Rightarrow> u32 \<Rightarrow> bool" where
  "has s flag \<longleftrightarrow> us_present s AND flag \<noteq> 0"

text \<open>Fields that an initializer does not name are zero.\<close>

definition ustride_zero :: user_stride where
  "ustride_zero = \<lparr>us_start = 0, us_step = 0, us_stop = 0, us_present = 0\<rparr>"

definition USER_STRIDE_ALL :: user_stride where
  "USER_STRIDE_ALL = \<lparr>us_start = 0, us_step = 1, us_stop = 0, us_present = STEP_PRESENT OR START_PRESENT\<rparr>"

definition ustride_single :: "i64 \<Rightarrow> user_stride" where
  "ustride_single start = ustride_zero\<lparr>us_start := start, us_present := START_PRESENT\<rparr>"

definition ustride012 :: "i64 \<Rightarrow> i64 \<Rightarrow> i64 \<Rightarrow> user_stride" where
  "ustride012 start step stop =
     \<lparr>us_start = start, us_step = step, us_stop = stop,
      us_present = STOP_PRESENT OR STEP_PRESENT OR START_PRESENT OR COLON_PRESENT\<rparr>"

definition ustride01 :: "i64 \<Rightarrow> i64 \<Rightarrow> user_stride" where
  "ustride01 start step =
     ustride_zero\<lparr>us_start := start, us_step := step,
                  us_present := STEP_PRESENT OR START_PRESENT OR COLON_PRESENT\<rparr>"

definition ustride0 :: "i64 \<Rightarrow> user_stride" where
  "ustride0 start = ustride_zero\<lparr>us_start := start, us_present := START_PRESENT OR COLON_PRESENT\<rparr>"

definition ustride12 :: "i64 \<Rightarrow> i64 \<Rightarrow> user_stride" where
  "ustride12 step stop =
     ustride_zero\<lparr>us_step := step, us_stop := stop,
                  us_present := STOP_PRESENT OR STEP_PRESENT OR COLON_PRESENT\<rparr>"

definition ustride1 :: "i64 \<Rightarrow> user_stride" where
  "ustride1 step = ustride_zero\<lparr>us_step := step,
                  us_present := STEP_PRESENT OR START_PRESENT OR COLON_PRESENT\<rparr>"

definition ustride2 :: "i64 \<Rightarrow> user_stride" where
  "ustride2 stop = ustride_zero\<lparr>us_stop := stop, us_present := STOP_PRESENT OR COLON_PRESENT\<rparr>"

definition ustride :: user_stride where
  "ustride = ustride_zero\<lparr>us_present := COLON_PRESENT\<rparr>"

definition usfrms :: "stride \<Rightarrow> user_stride" where
  "usfrms str = ustride012 (st_start str) (st_stride str) (st_start str + st_stride str * st_nelems str)"

section \<open>Operations\<close>

definition ustride_equal :: "user_stride \<Rightarrow> user_stride \<Rightarrow> bool" where
  "ustride_equal l r =
     (let mask = STOP_PRESENT OR STEP_PRESENT OR START_PRESENT;
          left_present = us_present l AND mask;
          right_present = us_present r AND mask in
      if left_present \<noteq> right_present then False
      else if left_present AND START_PRESENT \<noteq> 0 \<and> us_start l \<noteq> us_start r then False
      else if left_present AND STEP_PRESENT \<noteq> 0 \<and> us_step l \<noteq> us_step r then False
      else if left_present AND STOP_PRESENT \<noteq> 0 \<and> us_stop l \<noteq> us_stop r then False
      else True)"

definition i64_of :: "int \<Rightarrow> i64 option" where
  "i64_of k = (if - (2 ^ 63) \<le> k \<and> k < 2 ^ 63 then Some (word_of_int k) else None)"

text \<open>\<open>start += arrlen\<close> mixes signed and unsigned: it wraps, and so does the cast back.\<close>

definition stride_clamp :: "i64 \<Rightarrow> u64 \<Rightarrow> i64" where
  "stride_clamp i arrlen =
     (let i = (if sint i < 0 then i + arrlen else i);
          i = (if sint i < 0 then 0 else i) in
      if sint i > sint arrlen then arrlen else i)"

definition stride_resolve_expect :: "user_stride \<Rightarrow> u64 \<Rightarrow> stride option" where
  "stride_resolve_expect src arrlen =
     (let step = (if has src STEP_PRESENT then us_step src else 1) in
      do {
        ASSERT (sint step > 0);
        if arrlen = 0
        then Some \<lparr>st_start = 0, st_stride = ucast (ucast step :: u32), st_nelems = 0\<rparr>
        else do {
          let start = (if has src START_PRESENT then stride_clamp (us_start src) arrlen else 0);
          let stop = (if has src STOP_PRESENT then stride_clamp (us_stop src) arrlen else arrlen);
          nelems \<leftarrow> (if sint stop \<le> sint start then Some 0
                    else do {
                      d \<leftarrow> i64_of (sint stop - sint start);
                      d \<leftarrow> i64_of (sint d + sint step);
                      d \<leftarrow> i64_of (sint d - 1);
                      Some (word_of_int (sint d div sint step))
                    });
          Some \<lparr>st_start = start, st_stride = ucast (ucast step :: u32), st_nelems = nelems\<rparr>
        }
      })"

definition stride_resolve :: "user_stride \<Rightarrow> u64 \<Rightarrow> errp \<Rightarrow> (stride option \<times> errp \<times> err_t) option" where
  "stride_resolve src arrlen e =
     (let step = (if has src STEP_PRESENT then us_step src else 1) in
      if sint step \<le> 0
      then Some (None, error_causef e ERR_INVALID_ARGUMENT ''stride step must be positive'')
      else do { dest \<leftarrow> stride_resolve_expect src arrlen; Some (Some dest, e, SUCCESS) })"

section \<open>Collecting several slices\<close>

text \<open>
  The builder's linked list holds the slices in the order they arrive; its nodes are
  drawn from the temporary allocator, the final array from the persistent one (two
  distinct allocators).
\<close>

record mus_builder =
  mb_keys :: "user_stride list"
  mb_temp :: chunk_alloc
  mb_persistent :: chunk_alloc

record multi_user_stride =
  mus_strides :: "user_stride list"
  mus_len :: u32

definition sizeof_user_stride :: u32 where "sizeof_user_stride = 32"
definition sizeof_mus_llnode :: u32 where "sizeof_mus_llnode = 40"

definition musb_create :: "chunk_alloc \<Rightarrow> chunk_alloc \<Rightarrow> mus_builder" where
  "musb_create temp persistent = \<lparr>mb_keys = [], mb_temp = temp, mb_persistent = persistent\<rparr>"

definition musb_accept_key ::
  "libc \<Rightarrow> mus_builder \<Rightarrow> user_stride \<Rightarrow> errp \<Rightarrow> (err_t \<times> mus_builder \<times> errp) option" where
  "musb_accept_key os eb s e =
     do {
       (node, temp, e') \<leftarrow> chunk_malloc os (mb_temp eb) 1 sizeof_mus_llnode e;
       let eb' = eb\<lparr>mb_temp := temp\<rparr>;
       case node of
         None \<Rightarrow> do { c \<leftarrow> error_trace e'; Some (c, eb', e') }
       | Some _ \<Rightarrow> Some (SUCCESS, eb'\<lparr>mb_keys := mb_keys eb @ [s]\<rparr>, e')
     }"

definition musb_build ::
  "libc \<Rightarrow> mus_builder \<Rightarrow> errp \<Rightarrow> (err_t \<times> multi_user_stride option \<times> mus_builder \<times> errp) option" where
  "musb_build os eb e =
     do {
       let len = u32_of (length (mb_keys eb));
       ASSERT (len > 0);
       (strides, p, e') \<leftarrow> chunk_malloc os (mb_persistent eb) len sizeof_user_stride e;
       let eb' = eb\<lparr>mb_persistent := p\<rparr>;
       case strides of
         None \<Rightarrow> do { c \<leftarrow> error_trace e'; Some (c, None, eb', e') }
       | Some _ \<Rightarrow> Some (SUCCESS, Some \<lparr>mus_strides = mb_keys eb, mus_len = len\<rparr>, eb', e')
     }"

section \<open>What a slice selects\<close>

text \<open>The reference: Python's rule for a bound, and the indices a slice stands for.\<close>

definition py_clamp :: "int \<Rightarrow> int \<Rightarrow> int" where
  "py_clamp i n = (if i < 0 then max 0 (i + n) else min i n)"

definition py_slice :: "nat \<Rightarrow> nat \<Rightarrow> nat \<Rightarrow> nat \<Rightarrow> nat list" where
  "py_slice lo hi step n = filter (\<lambda>k. lo \<le> k \<and> k < hi \<and> (k - lo) mod step = 0) [0..<n]"

definition us_lo :: "user_stride \<Rightarrow> nat \<Rightarrow> nat" where
  "us_lo s n = (if has s START_PRESENT then nat (py_clamp (sint (us_start s)) (int n)) else 0)"

definition us_hi :: "user_stride \<Rightarrow> nat \<Rightarrow> nat" where
  "us_hi s n = (if has s STOP_PRESENT then nat (py_clamp (sint (us_stop s)) (int n)) else n)"

definition us_by :: "user_stride \<Rightarrow> int" where
  "us_by s = (if has s STEP_PRESENT then sint (us_step s) else 1)"

definition stride_indices :: "stride \<Rightarrow> nat list" where
  "stride_indices st = map (\<lambda>i. unat (st_start st) + i * unat (st_stride st)) [0..<unat (st_nelems st)]"

lemma ceil_div_less: "0 < (s :: nat) \<Longrightarrow> i < (d + s - Suc 0) div s \<longleftrightarrow> i * s < d"
  using less_eq_div_iff_mult_less_eq [of s "Suc i" "d + s - 1"] by (auto simp: less_eq_Suc_le)

lemma sorted_distinct_filter_eq:
  "sorted xs \<Longrightarrow> distinct xs \<Longrightarrow> set xs = {k. k < n \<and> P k} \<Longrightarrow> xs = filter P [0..<n]"
  by (rule sorted_distinct_set_unique) (auto simp: sorted_wrt_filter)

lemma slice_indices:
  assumes "0 < step" and "hi \<le> n"
  shows "map (\<lambda>i. lo + i * step) [0..<(hi - lo + step - 1) div step] = py_slice lo hi step n"
  unfolding py_slice_def
proof (rule sorted_distinct_filter_eq)
  show "sorted (map (\<lambda>i. lo + i * step) [0..<(hi - lo + step - 1) div step])"
    by (auto simp: sorted_iff_nth_mono)
  show "distinct (map (\<lambda>i. lo + i * step) [0..<(hi - lo + step - 1) div step])"
    using assms(1) by (simp add: distinct_map inj_on_def)
  show "set (map (\<lambda>i. lo + i * step) [0..<(hi - lo + step - 1) div step])
      = {k. k < n \<and> lo \<le> k \<and> k < hi \<and> (k - lo) mod step = 0}"
  proof (intro equalityI subsetI)
    fix k assume "k \<in> set (map (\<lambda>i. lo + i * step) [0..<(hi - lo + step - 1) div step])"
    then obtain i where "k = lo + i * step" "i * step < hi - lo"
      using assms(1) by (auto simp: ceil_div_less)
    then show "k \<in> {k. k < n \<and> lo \<le> k \<and> k < hi \<and> (k - lo) mod step = 0}"
      using assms by auto
  next
    fix k assume k: "k \<in> {k. k < n \<and> lo \<le> k \<and> k < hi \<and> (k - lo) mod step = 0}"
    then have "k = lo + (k - lo) div step * step" "(k - lo) div step * step < hi - lo"
      by (auto simp: mod_eq_0_iff_dvd)
    then have "(k - lo) div step < (hi - lo + step - 1) div step"
      using ceil_div_less [OF assms(1), of "(k - lo) div step" "hi - lo"] by (simp only: One_nat_def)
    then have "(k - lo) div step \<in> set [0..<(hi - lo + step - 1) div step]"
      by (simp only: set_upt atLeastLessThan_iff le0 simp_thms)
    then show "k \<in> set (map (\<lambda>i. lo + i * step) [0..<(hi - lo + step - 1) div step])"
      unfolding set_map using \<open>k = _\<close> by (rule rev_image_eqI)
  qed
qed

lemma i64_range:
  "- 9223372036854775808 \<le> k \<Longrightarrow> k < 9223372036854775808 \<Longrightarrow> signed_take_bit 63 k = (k :: int)"
  by (rule signed_take_bit_int_eq_self) simp_all

lemma i64_of_eq:
  assumes "- 9223372036854775808 \<le> k" and "k < 9223372036854775808"
  shows "i64_of k = Some (word_of_int k)" and "sint (word_of_int k :: i64) = k"
  using assms i64_range [OF assms] by (simp_all add: i64_of_def sint_sbintrunc')

lemma unat_word_of_int: "0 \<le> k \<Longrightarrow> k < 18446744073709551616 \<Longrightarrow> unat (word_of_int k :: u64) = nat k"
  by (simp add: unsigned_of_int nat_take_bit_eq take_bit_int_eq_self)

lemma u64_of_sint:
  assumes "0 \<le> sint (w :: u64)"
  shows "unat w = nat (sint w)"
proof -
  have "sint w < 2 ^ 63" using sint_less [of w] by simp
  then have "unat (word_of_int (sint w) :: u64) = nat (sint w)"
    using assms by (intro unat_word_of_int) simp_all
  then show ?thesis by simp
qed

lemma sint_u64:
  assumes "unat (w :: u64) < 9223372036854775808"
  shows "sint w = int (unat w)"
proof -
  have w: "uint w < 9223372036854775808" using uint_less_of_unat [OF assms] by simp
  have "sint (word_of_int (uint w) :: u64) = uint w"
    by (rule i64_of_eq) (use w uint_ge_0 [of w] in linarith)+
  then show ?thesis by simp
qed

lemma clamp_bounds:
  assumes "0 \<le> (n :: int)" shows "0 \<le> py_clamp i n" and "py_clamp i n \<le> n"
  using assms by (auto simp: py_clamp_def)

text \<open>An array length small enough for the sums of the code.\<close>

definition len_ok :: "u64 \<Rightarrow> bool" where
  "len_ok n \<longleftrightarrow> uint n < 4611686018427387904"

lemma sint_len: "len_ok n \<Longrightarrow> sint n = uint n"
proof -
  assume "len_ok n"
  then have "int (unat n) < int 9223372036854775808" by (simp add: len_ok_def)
  then have "unat n < 9223372036854775808" by (simp only: of_nat_less_iff)
  then show ?thesis by (simp add: sint_u64)
qed

lemma sint_clamp:
  assumes "len_ok n"
  shows "sint (stride_clamp i n) = py_clamp (sint i) (uint n)"
proof -
  note n = sint_len [OF assms] and un = assms [unfolded len_ok_def]
  have lo: "- 9223372036854775808 \<le> sint i" using sint_ge [of i] by simp
  have "signed_take_bit 63 (sint i + uint n) = sint i + uint n" if "sint i < 0"
    by (rule i64_range) (use that un lo uint_ge_0 [of n] in linarith)+
  then have "sint (i + n) = sint i + uint n" if "sint i < 0"
    using that by (simp add: sint_word_ariths n)
  then show ?thesis
    by (auto simp: stride_clamp_def py_clamp_def n Let_def)
qed

lemma py_clamp_nat: "a \<le> n \<Longrightarrow> nat (py_clamp (int a) (int n)) = a"
  by (simp add: py_clamp_def)

lemma us_bounds:
  assumes "len_ok n"
  shows "sint (if has s START_PRESENT then stride_clamp (us_start s) n else 0) = int (us_lo s (unat n))"
    and "sint (if has s STOP_PRESENT then stride_clamp (us_stop s) n else n) = int (us_hi s (unat n))"
    and "us_lo s (unat n) \<le> unat n" and "us_hi s (unat n) \<le> unat n"
  using clamp_bounds [of "uint n"] sint_clamp [OF assms] sint_len [OF assms]
  by (auto simp: us_lo_def us_hi_def nat_le_iff)

lemma ucast_step:
  assumes "0 < sint (w :: i64)" and "sint w < 4294967296"
  shows "unat (ucast (ucast w :: u32) :: u64) = nat (sint w)"
proof -
  have "unat w = nat (sint w)" using assms by (intro u64_of_sint) simp
  moreover have "unat (ucast w :: u32) = unat w mod 4294967296"
    by (simp add: unsigned_ucast_eq unsigned_take_bit_eq take_bit_eq_mod)
  moreover have "unat (ucast (ucast w :: u32) :: u64) = unat (ucast w :: u32)"
    by (simp add: unsigned_ucast_eq unsigned_take_bit_eq take_bit_nat_eq_self)
  ultimately show ?thesis using assms by (simp add: nat_less_iff)
qed

lemma stride_resolve_ok:
  assumes n: "len_ok n" and step: "0 < us_by s" "us_by s < 4294967296"
  shows "\<exists>st. stride_resolve s n e = Some (Some st, e, SUCCESS) \<and>
     unat (st_start st) = us_lo s (unat n) \<and> unat (st_stride st) = nat (us_by s) \<and>
     unat (st_nelems st) = (us_hi s (unat n) - us_lo s (unat n) + nat (us_by s) - 1) div nat (us_by s)"
proof -
  define w where "w = (if has s STEP_PRESENT then us_step s else 1)"
  define a where "a = (if has s START_PRESENT then stride_clamp (us_start s) n else 0)"
  define b where "b = (if has s STOP_PRESENT then stride_clamp (us_stop s) n else n)"
  let ?lo = "us_lo s (unat n)" and ?hi = "us_hi s (unat n)"
  note bounds = us_bounds [OF n, of s, folded a_def b_def]
  have w: "sint w = us_by s" by (simp add: w_def us_by_def)
  have a: "unat a = ?lo" using bounds(1) u64_of_sint [of a] by simp
  have un: "int (unat n) < 4611686018427387904" using n by (simp add: len_ok_def)
  have ucs: "unat (ucast (ucast w :: u32) :: u64) = nat (us_by s)"
    using ucast_step [of w] step w by simp
  show ?thesis
  proof (cases "n = 0")
    case True
    then show ?thesis
      using bounds(3,4) step ucs w
      by (simp add: stride_resolve_def stride_resolve_expect_def w_def [symmetric])
  next
    case False
    let ?d = "sint b - sint a"
    show ?thesis
    proof (cases "?hi \<le> ?lo")
      case True
      then have "sint b \<le> sint a" using bounds by simp
      then show ?thesis
        using False True step ucs w a
        by (simp add: stride_resolve_def stride_resolve_expect_def w_def [symmetric] a_def [symmetric]
              b_def [symmetric])
    next
      case lt: False
      have "int ?hi \<le> int (unat n)" using bounds(4) by (simp only: of_nat_le_iff)
      then have d3: "?d < 4611686018427387904" using bounds(1,2) un by linarith
      have d: "?d = int (?hi - ?lo)" "0 < ?d"
        using lt bounds(1,2) by (simp_all add: of_nat_diff)
      have i1: "i64_of ?d = Some (word_of_int ?d)" "sint (word_of_int ?d :: i64) = ?d"
        by (rule i64_of_eq; use d d3 in linarith)+
      have i2: "i64_of (?d + sint w) = Some (word_of_int (?d + sint w))" "sint (word_of_int (?d + sint w) :: i64) = ?d + sint w"
        by (rule i64_of_eq; use d d3 step w in linarith)+
      have i3: "i64_of (?d + sint w - 1) = Some (word_of_int (?d + sint w - 1))"
          "sint (word_of_int (?d + sint w - 1) :: i64) = ?d + sint w - 1"
        by (rule i64_of_eq; use d d3 step w in linarith)+
      let ?k = "?hi - ?lo + nat (us_by s) - 1"
      have k: "int ?k = ?d + sint w - 1" using d(1) step w by linarith
      have q: "(?d + sint w - 1) div sint w = int (?k div nat (us_by s))"
        using step w by (simp only: zdiv_int k) simp
      have "?k div nat (us_by s) \<le> ?k" by (rule div_le_dividend)
      then have "int (?k div nat (us_by s)) < 18446744073709551616"
        using k d3 step w by linarith
      then have "unat (word_of_int ((?d + sint w - 1) div sint w) :: u64) = ?k div nat (us_by s)"
        unfolding q by (subst unat_word_of_int) simp_all
      moreover have "\<not> sint b \<le> sint a" using d by simp
      ultimately show ?thesis
        using False step ucs w a i1 i2 i3
        by (simp add: stride_resolve_def stride_resolve_expect_def w_def [symmetric] a_def [symmetric]
              b_def [symmetric])
    qed
  qed
qed

text \<open>
  C14. A slice is resolved as Python does: for an array of fewer than \<open>2^62\<close> elements and a
  positive step below \<open>2^32\<close>, \<open>stride_resolve\<close> succeeds, and the indices that its start,
  stride and element count enumerate are exactly the indices of the array between the two
  bounds, each clamped by Python's rule for negative and oversized values, at every step-th
  place; so all of them lie inside the array.
\<close>

theorem stride_resolve_is_slice:
  assumes "len_ok n" and "0 < us_by s" and "us_by s < 4294967296"
  shows "\<exists>st. stride_resolve s n e = Some (Some st, e, SUCCESS) \<and>
     stride_indices st = py_slice (us_lo s (unat n)) (us_hi s (unat n)) (nat (us_by s)) (unat n) \<and>
     list_all (\<lambda>i. i < unat n) (stride_indices st)"
proof -
  obtain st where st: "stride_resolve s n e = Some (Some st, e, SUCCESS)"
    "unat (st_start st) = us_lo s (unat n)" "unat (st_stride st) = nat (us_by s)"
    "unat (st_nelems st) = (us_hi s (unat n) - us_lo s (unat n) + nat (us_by s) - 1) div nat (us_by s)"
    using stride_resolve_ok [OF assms] by blast
  have "stride_indices st = py_slice (us_lo s (unat n)) (us_hi s (unat n)) (nat (us_by s)) (unat n)"
    unfolding stride_indices_def st
    by (rule slice_indices) (use assms(2) us_bounds(4) [OF assms(1)] in simp_all)
  then show ?thesis
    using st(1) by (auto simp: py_slice_def list_all_iff)
qed

theorem stride_resolve_is_slice_witness:
  "\<exists>st. stride_resolve (ustride012 (-5) 2 (-1)) 10 None = Some (Some st, None, SUCCESS) \<and>
     stride_indices st = py_slice (us_lo (ustride012 (-5) 2 (-1)) (unat (10 :: u64)))
       (us_hi (ustride012 (-5) 2 (-1)) (unat (10 :: u64))) (nat (us_by (ustride012 (-5) 2 (-1)))) (unat (10 :: u64)) \<and>
     list_all (\<lambda>i. i < unat (10 :: u64)) (stride_indices st)"
  by (rule stride_resolve_is_slice)
     (simp_all add: len_ok_def us_by_def has_def ustride012_def present_defs)

text \<open>
  Round trip: a resolved stride whose elements end inside the array comes back unchanged
  when it is turned into a user slice with \<open>usfrms\<close> and resolved again.
\<close>

theorem usfrms_round_trip:
  assumes n: "len_ok n" and step: "0 < unat (st_stride st)" "unat (st_stride st) < 4294967296"
    and fits: "unat (st_start st) + unat (st_stride st) * unat (st_nelems st) \<le> unat n"
  shows "stride_resolve (usfrms st) n e = Some (Some st, e, SUCCESS)"
proof -
  let ?s = "usfrms st" and ?e = "unat (st_start st) + unat (st_stride st) * unat (st_nelems st)"
  have un: "unat n < 4611686018427387904"
  proof -
    have "int (unat n) < int 4611686018427387904" using n by (simp add: len_ok_def)
    then show ?thesis by (simp only: of_nat_less_iff)
  qed
  have prod: "unat (st_stride st * st_nelems st) = unat (st_stride st) * unat (st_nelems st)"
    using fits un unat_mult_lem [of "st_stride st" "st_nelems st"] by simp
  have stop: "unat (st_start st + st_stride st * st_nelems st) = ?e"
    using fits un prod by (subst u64_add_nat) simp_all
  have flags: "has ?s START_PRESENT" "has ?s STEP_PRESENT" "has ?s STOP_PRESENT"
    by (simp_all add: has_def usfrms_def ustride012_def present_defs)
  have by1: "us_by ?s = int (unat (st_stride st))"
    using flags step by (simp add: us_by_def usfrms_def ustride012_def sint_u64)
  have lo: "us_lo ?s (unat n) = unat (st_start st)"
    using flags fits un py_clamp_nat [of "unat (st_start st)" "unat n"]
    by (simp add: us_lo_def usfrms_def ustride012_def sint_u64)
  have hi: "us_hi ?s (unat n) = ?e"
  proof -
    have "sint (st_start st + st_stride st * st_nelems st) = int ?e"
      using fits un stop by (subst sint_u64) simp_all
    then show ?thesis
      using flags py_clamp_nat [OF fits] by (simp add: us_hi_def usfrms_def ustride012_def)
  qed
  obtain st' where st': "stride_resolve ?s n e = Some (Some st', e, SUCCESS)"
    "unat (st_start st') = us_lo ?s (unat n)" "unat (st_stride st') = nat (us_by ?s)"
    "unat (st_nelems st') = (us_hi ?s (unat n) - us_lo ?s (unat n) + nat (us_by ?s) - 1) div nat (us_by ?s)"
  proof -
    have "0 < us_by ?s" "us_by ?s < 4294967296" using by1 step by linarith+
    from stride_resolve_ok [OF n this] that show thesis by blast
  qed
  have "(unat (st_stride st) * unat (st_nelems st) + unat (st_stride st) - 1) div unat (st_stride st) = unat (st_nelems st)"
  proof -
    have "unat (st_stride st) * unat (st_nelems st) + unat (st_stride st) - 1
        = unat (st_stride st) * unat (st_nelems st) + (unat (st_stride st) - 1)"
      using step by simp
    then show ?thesis using step by (simp only: div_mult_self4) simp
  qed
  then have "st' = st"
    using st'(2-4) by1 lo hi by (cases st; cases st') (simp add: word_unat_eq_iff)
  then show ?thesis using st'(1) by simp
qed

theorem usfrms_round_trip_witness:
  "stride_resolve (usfrms \<lparr>st_start = 1, st_stride = 3, st_nelems = 2\<rparr>) 10 None
     = Some (Some \<lparr>st_start = 1, st_stride = 3, st_nelems = 2\<rparr>, None, SUCCESS)"
  by (rule usfrms_round_trip) (simp_all add: len_ok_def)

text \<open>
  The step is cut to 32 bits on its way into a 64-bit field: a slice with step \<open>2^32\<close>
  over an array of \<open>2^32 + 1\<close> elements selects two elements, but the resolved stride is
  zero, so both of them are the first.
\<close>

theorem stride_step_truncated:
  "\<exists>st. stride_resolve (ustride01 0 4294967296) 4294967297 None = Some (Some st, None, SUCCESS) \<and>
     st_nelems st = 2 \<and> st_stride st = 0 \<and> stride_indices st = [0, 0]"
proof -
  have "stride_resolve (ustride01 0 4294967296) 4294967297 None
      = Some (Some \<lparr>st_start = 0, st_stride = 0, st_nelems = 2\<rparr>, None, SUCCESS)"
    by code_simp
  then show ?thesis
    by (simp add: stride_indices_def upt_rec)
qed

text \<open>Feeding slices to the builder, stopping at the first failure.\<close>

fun musb_accept_all ::
  "libc \<Rightarrow> mus_builder \<Rightarrow> user_stride list \<Rightarrow> errp \<Rightarrow> (err_t \<times> mus_builder \<times> errp) option" where
  "musb_accept_all os eb [] e = Some (SUCCESS, eb, e)"
| "musb_accept_all os eb (s # ss) e =
     do {
       (rc, eb', e') \<leftarrow> musb_accept_key os eb s e;
       if rc \<noteq> SUCCESS then Some (rc, eb', e') else musb_accept_all os eb' ss e'
     }"

lemma musb_accept_key_keys:
  assumes "musb_accept_key os eb s (Some er) = Some (SUCCESS, eb', e')"
  shows "mb_keys eb' = mb_keys eb @ [s] \<and> e' = Some er"
proof -
  from assms obtain p t e1 where m: "chunk_malloc os (mb_temp eb) 1 sizeof_mus_llnode (Some er) = Some (p, t, e1)"
    and r: "(case p of None \<Rightarrow> do { c \<leftarrow> error_trace e1; Some (c, eb\<lparr>mb_temp := t\<rparr>, e1) }
        | Some _ \<Rightarrow> Some (SUCCESS, eb\<lparr>mb_temp := t, mb_keys := mb_keys eb @ [s]\<rparr>, e1)) = Some (SUCCESS, eb', e')"
    by (auto simp: musb_accept_key_def bind_Some_iff Let_def)
  show ?thesis
    using chunk_malloc_error [OF m] r
    by (cases p) (auto simp: bind_Some_iff pending_def)
qed

lemma musb_accept_all_keys:
  "musb_accept_all os eb ss (Some er) = Some (SUCCESS, eb', e') \<Longrightarrow>
   mb_keys eb' = mb_keys eb @ ss \<and> e' = Some er"
proof (induction ss arbitrary: eb)
  case (Cons s ss)
  then obtain eb1 e1 where 1: "musb_accept_key os eb s (Some er) = Some (SUCCESS, eb1, e1)"
    and 2: "musb_accept_all os eb1 ss e1 = Some (SUCCESS, eb', e')"
    by (auto simp: bind_Some_iff split: if_splits)
  from musb_accept_key_keys [OF 1] 2 Cons.IH [of eb1] show ?case by simp
qed simp

text \<open>
  The slice builder keeps every slice in order: if all keys are accepted and the build
  succeeds, the array holds exactly the accepted slices and their number; and it fails
  only with the allocator's error pending.
\<close>

theorem musb_builds_keys:
  assumes "musb_accept_all os (musb_create t p) ss (Some er) = Some (SUCCESS, eb, e1)"
    and "musb_build os eb e1 = Some (rc, res, eb', e2)" and "cause_code er = SUCCESS"
  shows "if rc = SUCCESS then res = Some \<lparr>mus_strides = ss, mus_len = u32_of (length ss)\<rparr>
         else res = None \<and> (\<exists>er'. e2 = Some er' \<and> cause_code er' = rc)"
proof -
  have k: "mb_keys eb = ss" "e1 = Some er"
    using musb_accept_all_keys [OF assms(1)] by (simp_all add: musb_create_def)
  from assms(2) k obtain q t' where
    m: "chunk_malloc os (mb_persistent eb) (u32_of (length ss)) sizeof_user_stride (Some er) = Some (q, t', e2)"
    and r: "(case q of None \<Rightarrow> do { c \<leftarrow> error_trace e2; Some (c, None) }
        | Some _ \<Rightarrow> Some (SUCCESS, Some \<lparr>mus_strides = ss, mus_len = u32_of (length ss)\<rparr>)) = Some (rc, res)"
    by (auto simp: musb_build_def bind_Some_iff Let_def split: option.splits if_splits)
  show ?thesis
    using chunk_malloc_error [OF m] r
    by (cases q) (auto simp: bind_Some_iff pending_def)
qed

theorem musb_builds_keys_witness:
  "\<exists>ca eb e1 rc res eb' e2. chunk_alloc_create_default = Some ca \<and>
     musb_accept_all libc_ample (musb_create ca ca) [ustride0 1, ustride2 3] (Some error_create) = Some (SUCCESS, eb, e1) \<and>
     musb_build libc_ample eb e1 = Some (rc, res, eb', e2) \<and>
     (if rc = SUCCESS then res = Some \<lparr>mus_strides = [ustride0 1, ustride2 3], mus_len = u32_of (length [ustride0 1, ustride2 3])\<rparr>
      else res = None \<and> (\<exists>er'. e2 = Some er' \<and> cause_code er' = rc))"
proof -
  have "(do { ca \<leftarrow> chunk_alloc_create_default;
         (rc, eb, e) \<leftarrow> musb_accept_all libc_ample (musb_create ca ca) [ustride0 1, ustride2 3] (Some error_create);
         (rc2, res, eb, e) \<leftarrow> musb_build libc_ample eb e;
         Some (rc, rc2) }) = Some (SUCCESS, SUCCESS)"
    by code_simp
  then obtain ca eb e1 rc res eb' e2 where ca: "chunk_alloc_create_default = Some ca"
    and a: "musb_accept_all libc_ample (musb_create ca ca) [ustride0 1, ustride2 3] (Some error_create) = Some (SUCCESS, eb, e1)"
    and b: "musb_build libc_ample eb e1 = Some (rc, res, eb', e2)"
    by (auto simp: bind_Some_iff)
  have "cause_code error_create = SUCCESS" by (simp add: error_create_def)
  from musb_builds_keys [OF a b this] ca a b show ?thesis by blast
qed

end
