(* ===== verification/Data_writer.thy ===== *)
theory Data_writer
  imports Stride "HOL-Library.Multiset"
begin

text \<open>
  The interface of \<^verbatim>\<open>ds/data_writer.h\<close>: a mutable byte sequence with insertion at a
  byte offset and strided reads, writes and removals of fixed-size elements. The first
  part gives the meaning of the five operations on plain byte lists; the locale
  \<open>byte_store\<close> states what an implementation promises in these terms, and holds what
  its clients derive.
\<close>

section \<open>Reference semantics\<close>

text \<open>Element \<open>i\<close> of \<open>sz\<close> bytes.\<close>

definition elem :: "nat \<Rightarrow> u8 list \<Rightarrow> nat \<Rightarrow> u8 list" where
  "elem sz bs i = take sz (drop (i * sz) bs)"

text \<open>The places a strided access visits before it leaves the sequence.\<close>

fun visits :: "nat \<Rightarrow> nat \<Rightarrow> nat \<Rightarrow> nat \<Rightarrow> nat \<Rightarrow> nat list" where
  "visits 0 i stp sz len = []"
| "visits (Suc n) i stp sz len = (if (i + 1) * sz \<le> len then i # visits n (i + stp) stp sz len else [])"

definition spec_read :: "nat \<Rightarrow> nat list \<Rightarrow> u8 list \<Rightarrow> u8 list" where
  "spec_read sz ps bs = concat (map (elem sz bs) ps)"

fun spec_write :: "nat \<Rightarrow> nat list \<Rightarrow> u8 list \<Rightarrow> u8 list \<Rightarrow> u8 list" where
  "spec_write sz [] src bs = bs"
| "spec_write sz (i # ps) src bs = spec_write sz ps (drop sz src) (overwrite bs (i * sz) (take sz src))"

text \<open>What is left of the elements \<open>[k, n)\<close> when the places \<open>ps\<close> are taken out.\<close>

definition spec_remove :: "nat \<Rightarrow> nat list \<Rightarrow> u8 list \<Rightarrow> u8 list" where
  "spec_remove sz ps bs =
     concat (map (elem sz bs) (filter (\<lambda>k. k \<notin> set ps) [0..<length bs div sz]))"

definition spec_insert :: "nat \<Rightarrow> u8 list \<Rightarrow> u8 list \<Rightarrow> u8 list" where
  "spec_insert ofst src bs = take ofst bs @ src @ drop ofst bs"

lemma length_elem [simp]: "(i + 1) * sz \<le> length bs \<Longrightarrow> length (elem sz bs i) = sz"
  by (simp add: elem_def)

lemma visits_range: "k \<in> set (visits n i stp sz len) \<Longrightarrow> i \<le> k \<and> (k + 1) * sz \<le> len"
  by (induction n i stp sz len rule: visits.induct) (auto split: if_splits)

lemma length_visits: "length (visits n i stp sz len) \<le> n"
  by (induction n i stp sz len rule: visits.induct) auto

lemma length_spec_read:
  "(\<And>k. k \<in> set ps \<Longrightarrow> (k + 1) * sz \<le> length bs) \<Longrightarrow> length (spec_read sz ps bs) = length ps * sz"
  by (induction ps) (auto simp: spec_read_def)

lemma length_spec_write [simp]:
  "(\<forall>i\<in>set ps. (i + 1) * sz \<le> length bs) \<Longrightarrow> length (spec_write sz ps src bs) = length bs"
  by (induction sz ps src bs rule: spec_write.induct) (auto simp: min_def)

text \<open>The request stays within 32-bit byte offsets, so that the sums of the code do not wrap.\<close>

definition access_ok :: "stride \<Rightarrow> u32 \<Rightarrow> nat \<Rightarrow> bool" where
  "access_ok str sz len \<longleftrightarrow> 0 < unat sz \<and> 0 < unat (st_stride str) \<and>
     (unat (st_start str) + unat (st_nelems str) * unat (st_stride str) + 1) * unat sz + len < 4294967296"

text \<open>The places a stride visits in a sequence of \<open>len\<close> bytes.\<close>

definition places :: "stride \<Rightarrow> u32 \<Rightarrow> nat \<Rightarrow> nat list" where
  "places str sz len = visits (unat (st_nelems str)) (unat (st_start str)) (unat (st_stride str)) (unat sz) len"

lemma places_range: "k \<in> set (places str sz len) \<Longrightarrow> (k + 1) * unat sz \<le> len"
  unfolding places_def using visits_range by blast

section \<open>Facts on the reference semantics\<close>

lemma visits_sorted: "0 < stp \<Longrightarrow> sorted_wrt (<) (visits n i stp sz len)"
  by (induction n i stp sz len rule: visits.induct) (fastforce dest: visits_range)+

lemma elem_overwrite_same: "(i + 1) * sz \<le> length bs \<Longrightarrow> length x = sz \<Longrightarrow> elem sz (overwrite bs (i * sz) x) i = x"
  by (simp add: elem_def overwrite_def)

lemma elem_overwrite_other:
  assumes "i \<noteq> j" and "(i + 1) * sz \<le> length bs" and "(j + 1) * sz \<le> length bs" and "length x = sz"
  shows "elem sz (overwrite bs (i * sz) x) j = elem sz bs j"
proof -
  have "j * sz + sz \<le> i * sz \<or> i * sz + sz \<le> j * sz"
    using assms(1) by (metis Suc_leI add.commute linorder_neqE_nat mult_Suc mult_le_mono1)
  then show ?thesis
  proof
    assume a: "j * sz + sz \<le> i * sz"
    show ?thesis
      using a assms by (intro nth_equalityI) (auto simp: elem_def nth_overwrite)
  next
    assume a: "i * sz + sz \<le> j * sz"
    show ?thesis
      using a assms by (intro nth_equalityI) (auto simp: elem_def nth_overwrite)
  qed
qed

lemma elem_spec_write_other:
  "k \<notin> set ps \<Longrightarrow> (k + 1) * sz \<le> length bs \<Longrightarrow> \<forall>i\<in>set ps. (i + 1) * sz \<le> length bs \<Longrightarrow>
   length ps * sz \<le> length src \<Longrightarrow> elem sz (spec_write sz ps src bs) k = elem sz bs k"
proof (induction sz ps src bs rule: spec_write.induct)
  case (2 sz i ps src bs)
  have l: "length (take sz src) = sz" using 2(5) by simp
  have "elem sz (spec_write sz ps (drop sz src) (overwrite bs (i * sz) (take sz src))) k =
      elem sz (overwrite bs (i * sz) (take sz src)) k"
    using 2 l by (intro 2(1)) auto
  also have "\<dots> = elem sz bs k" using 2(2-4) l by (intro elem_overwrite_other) auto
  finally show ?case by simp
qed simp

lemma spec_read_write:
  "distinct ps \<Longrightarrow> \<forall>i\<in>set ps. (i + 1) * sz \<le> length bs \<Longrightarrow> length ps * sz \<le> length src \<Longrightarrow>
   spec_read sz ps (spec_write sz ps src bs) = take (length ps * sz) src"
proof (induction sz ps src bs rule: spec_write.induct)
  case (2 sz i ps src bs)
  let ?o = "overwrite bs (i * sz) (take sz src)"
  have l: "length (take sz src) = sz" using 2(4) by simp
  have lo: "length ?o = length bs" using 2(3) l by simp
  have "elem sz (spec_write sz ps (drop sz src) ?o) i = take sz src"
    using 2(2-4) l lo by (subst elem_spec_write_other) (auto simp: elem_overwrite_same)
  moreover have "spec_read sz ps (spec_write sz ps (drop sz src) ?o) = take (length ps * sz) (drop sz src)"
    using 2(2-4) lo by (intro 2(1)) auto
  ultimately show ?case by (simp add: spec_read_def take_add)
qed (simp add: spec_read_def)

lemma concat_elems: "length bs = n * sz \<Longrightarrow> concat (map (elem sz bs) [0..<n]) = bs"
proof (induction n arbitrary: bs)
  case (Suc n)
  have m: "map (elem sz bs) [0..<n] = map (elem sz (take (n * sz) bs)) [0..<n]"
  proof (rule map_cong)
    fix i assume "i \<in> set [0..<n]"
    then have "(i + 1) * sz \<le> n * sz" by (intro mult_le_mono1) simp
    then show "elem sz bs i = elem sz (take (n * sz) bs) i"
      by (simp add: elem_def drop_take min_def)
  qed simp
  have "concat (map (elem sz bs) [0..<n]) = take (n * sz) bs"
    unfolding m by (rule Suc.IH) (use Suc.prems in simp)
  moreover have "elem sz bs n = drop (n * sz) bs" using Suc.prems by (simp add: elem_def)
  ultimately show ?case by simp
qed simp

lemma mset_concat_filter:
  "mset (concat (map f (filter P xs))) + mset (concat (map f (filter (\<lambda>x. \<not> P x) xs))) = mset (concat (map f xs))"
  by (induction xs) auto

lemma sorted_filter_range:
  "sorted_wrt (<) ps \<Longrightarrow> \<forall>i\<in>set ps. i < (n :: nat) \<Longrightarrow> filter (\<lambda>i. i \<in> set ps) [0..<n] = ps"
  by (rule sorted_distinct_set_unique)
    (auto simp: strict_sorted_iff intro: sorted_wrt_filter)

lemma in_range_lt: "0 < sz \<Longrightarrow> (i + 1) * sz \<le> len \<Longrightarrow> i < len div (sz :: nat)"
  by (metis Suc_eq_plus1 Suc_le_lessD less_eq_div_iff_mult_less_eq)

text \<open>Taking elements out and keeping the rest loses no byte.\<close>

lemma spec_remove_conserves:
  assumes "sorted_wrt (<) ps" and "\<forall>i\<in>set ps. (i + 1) * sz \<le> length bs" and "0 < sz" and "length bs mod sz = 0"
  shows "mset (spec_read sz ps bs) + mset (spec_remove sz ps bs) = mset bs"
proof -
  let ?n = "length bs div sz"
  have f: "filter (\<lambda>i. i \<in> set ps) [0..<?n] = ps"
    using assms in_range_lt by (intro sorted_filter_range) auto
  have "concat (map (elem sz bs) [0..<?n]) = bs" using assms(4) by (intro concat_elems) auto
  then show ?thesis
    using mset_concat_filter [of "elem sz bs" "\<lambda>i. i \<in> set ps" "[0..<?n]"]
    unfolding f spec_read_def spec_remove_def by simp
qed

lemma spec_remove_length:
  assumes "sorted_wrt (<) ps" and "\<forall>i\<in>set ps. (i + 1) * sz \<le> length bs" and "0 < sz" and "length bs mod sz = 0"
  shows "length ps * sz + length (spec_remove sz ps bs) = length bs"
  using arg_cong [OF spec_remove_conserves [OF assms], of size] assms(2)
  by (simp add: length_spec_read)

lemma visits_unit: "i + n \<le> len \<Longrightarrow> visits n i 1 1 len = [i..<i + n]"
  by (induction n arbitrary: i) (auto simp: upt_rec)

lemma spec_read_unit: "i + n \<le> length bs \<Longrightarrow> spec_read 1 [i..<i + n] bs = take n (drop i bs)"
proof (induction n)
  case (Suc n)
  then show ?case by (simp add: spec_read_def elem_def take_Suc_conv_app_nth take_add hd_drop_conv_nth)
qed (simp add: spec_read_def)

lemma places_sorted: "access_ok str sz len \<Longrightarrow> sorted_wrt (<) (places str sz len)"
  by (simp add: places_def access_ok_def visits_sorted)

lemma places_in: "\<forall>i\<in>set (places str sz len). (i + 1) * unat sz \<le> len"
  using places_range by blast

lemma length_places: "length (places str sz len) \<le> unat (st_nelems str)"
  by (simp add: places_def length_visits)

lemma unat_ucast_u32_u64 [simp]: "unat (ucast (x :: u32) :: u64) = unat x"
  by (simp add: unsigned_ucast_eq unsigned_take_bit_eq take_bit_nat_eq_self less_trans [OF u32_less_bound])

lemma sint_small_u64: "unat (w :: u64) < 4294967296 \<Longrightarrow> sint w = int (unat w)"
  unfolding sint_uint by (rule trans [OF signed_take_bit_int_eq_self])
    (use uint_less_of_unat [of w 4294967296] uint_ge_0 [of w] in \<open>auto intro: order_trans [of _ 0]\<close>)

lemma sint_ucast_u32_u64 [simp]: "sint (ucast (x :: u32) :: u64) = int (unat x)"
  using sint_small_u64 [of "ucast x"] by simp

lemma sint_small_u32: "2 * unat (x :: u32) < 4294967296 \<Longrightarrow> sint x = int (unat x)"
  unfolding sint_uint by (rule trans [OF signed_take_bit_int_eq_self])
    (use uint_less_of_unat [of x 2147483648] uint_ge_0 [of x] in \<open>auto intro: order_trans [of _ 0]\<close>)

lemma visits_numeral [simp]:
  "visits (numeral k) i stp sz len = (if (i + 1) * sz \<le> len then i # visits (pred_numeral k) (i + stp) stp sz len else [])"
  by (simp add: numeral_eq_Suc)

lemma unat_ucast_u64_u32: "unat (x :: u64) < 4294967296 \<Longrightarrow> unat (ucast x :: u32) = unat x"
  by (simp add: unsigned_ucast_eq unsigned_take_bit_eq take_bit_nat_eq_self)

lemma u64_mul_u32:
  assumes "unat (a :: u64) * unat (b :: u32) < 4294967296"
  shows "unat (ucast (a * ucast b) :: u32) = unat a * unat b"
proof -
  have "unat b < 2 ^ 64" by (rule less_trans [OF u32_less_bound]) simp
  then have b: "unat (ucast b :: u64) = unat b"
    by (simp add: unsigned_ucast_eq unsigned_take_bit_eq take_bit_nat_eq_self)
  then have "unat (a * ucast b) = unat a * unat b"
    using assms unat_mult_lem [of a "ucast b"] by simp
  then show ?thesis using assms by (simp add: unat_ucast_u64_u32)
qed

text \<open>What \<open>access_ok\<close> gives at the element \<open>i = start + t * stride\<close> with \<open>n\<close> elements to go.\<close>

definition go_ok :: "nat \<Rightarrow> nat \<Rightarrow> stride \<Rightarrow> u32 \<Rightarrow> nat \<Rightarrow> bool" where
  "go_ok n i str sz len \<longleftrightarrow> 0 < unat sz \<and> 0 < unat (st_stride str) \<and>
     (i + n * unat (st_stride str) + 1) * unat sz + len < 4294967296"

lemma go_okD:
  assumes "go_ok n i str sz len"
  shows "(i + 1) * unat sz < 4294967296" "n < 4294967296"
proof -
  have s: "0 < unat sz" "0 < unat (st_stride str)" using assms by (auto simp: go_ok_def)
  have "(i + 1) * unat sz \<le> (i + n * unat (st_stride str) + 1) * unat sz"
    by (intro mult_le_mono1) simp
  then show "(i + 1) * unat sz < 4294967296" using assms unfolding go_ok_def by linarith
  have "n * 1 \<le> n * unat (st_stride str)" using s by (intro mult_le_mono2) simp
  then have "n * 1 \<le> (i + n * unat (st_stride str) + 1) * 1" unfolding mult_1_right by (rule trans_le_add1 [OF trans_le_add2])
  also have "\<dots> \<le> (i + n * unat (st_stride str) + 1) * unat sz" using s by (intro mult_le_mono2) simp
  finally show "n < 4294967296" using assms unfolding go_ok_def by linarith
qed

lemma access_go: "access_ok str sz len \<Longrightarrow> go_ok (unat (st_nelems str)) (unat (st_start str)) str sz len"
  by (simp add: access_ok_def go_ok_def)

lemma access_nelems: "access_ok str sz len \<Longrightarrow> unat (st_nelems str) < 4294967296"
  by (rule go_okD(2) [OF access_go])

text \<open>The byte index of the first element, computed in 64 bits and cut to 32.\<close>

lemma access_index:
  assumes "access_ok str sz len"
  shows "unat (ucast (st_start str * ucast sz) :: u32) = unat (st_start str) * unat sz"
proof -
  have "unat (st_start str) * unat sz < 4294967296"
    using go_okD(1) [OF access_go [OF assms]] by (simp add: algebra_simps)
  then show ?thesis by (rule u64_mul_u32)
qed

lemma places_few:
  assumes "access_ok str sz len"
  shows "length (places str sz len) < 4294967296"
  unfolding places_def by (rule le_less_trans [OF length_visits access_nelems [OF assms]])

text \<open>A stride for the concrete examples: elements 0 and 2.\<close>

definition stride_every_other :: stride where
  "stride_every_other = \<lparr>st_start = 0, st_stride = 2, st_nelems = 2\<rparr>"

lemma stride_every_other_places [simp]:
  "places stride_every_other 1 3 = [0, 2]" "access_ok stride_every_other 1 3"
  "places stride_every_other 1 (Suc (Suc (Suc 0))) = [0, 2]" "access_ok stride_every_other 1 (Suc (Suc (Suc 0)))"
  by (simp_all add: stride_every_other_def places_def access_ok_def)

section \<open>The function table\<close>

text \<open>
  The entries of \<open>struct data_writer_functions\<close>, over a context of type \<open>'c\<close>. Each
  returns the C result code, the context and the error object; reads and removals also
  the destination (\<open>None\<close> for a null pointer).
\<close>

record 'c data_writer =
  dw_insert :: "'c \<Rightarrow> u32 \<Rightarrow> u8 list \<Rightarrow> u32 \<Rightarrow> errp \<Rightarrow> (int \<times> 'c \<times> errp) option"
  dw_read :: "'c \<Rightarrow> stride \<Rightarrow> u32 \<Rightarrow> u8 list \<Rightarrow> errp \<Rightarrow> (int \<times> u8 list \<times> 'c \<times> errp) option"
  dw_write :: "'c \<Rightarrow> stride \<Rightarrow> u32 \<Rightarrow> u8 list \<Rightarrow> errp \<Rightarrow> (int \<times> 'c \<times> errp) option"
  dw_remove :: "'c \<Rightarrow> stride \<Rightarrow> u32 \<Rightarrow> u8 list option \<Rightarrow> errp \<Rightarrow> (int \<times> u8 list option \<times> 'c \<times> errp) option"
  dw_getlen :: "'c \<Rightarrow> errp \<Rightarrow> (int \<times> 'c \<times> errp) option"

section \<open>The contract\<close>

text \<open>
  What an implementation promises of its table, in terms of the bytes it holds. \<open>env_ok\<close>
  says that the allocator behind it serves every request, \<open>ret\<close> is the code a
  successful insertion of so many bytes returns.
\<close>

locale byte_store =
  fixes env_ok :: "'o \<Rightarrow> bool"
    and dw :: "'o \<Rightarrow> 'c data_writer"
    and inv :: "'c \<Rightarrow> bool"
    and bytes :: "'c \<Rightarrow> u8 list"
    and ret :: "u32 \<Rightarrow> int"
  assumes getlen_law: "inv c \<Longrightarrow> length (bytes c) < 4294967296 \<Longrightarrow>
      dw_getlen (dw os) c e = Some (int (length (bytes c)), c, e)"
    and read_law: "inv c \<Longrightarrow> access_ok str sz (length (bytes c)) \<Longrightarrow> length (bytes c) mod unat sz = 0 \<Longrightarrow>
      length (places str sz (length (bytes c))) * unat sz \<le> length dest \<Longrightarrow>
      dw_read (dw os) c str sz dest e =
        Some (int (length (places str sz (length (bytes c)))),
              overwrite dest 0 (spec_read (unat sz) (places str sz (length (bytes c))) (bytes c)), c, e)"
    and write_law: "inv c \<Longrightarrow> access_ok str sz (length (bytes c)) \<Longrightarrow> length (bytes c) mod unat sz = 0 \<Longrightarrow>
      length (places str sz (length (bytes c))) * unat sz \<le> length src \<Longrightarrow>
      \<exists>c'. dw_write (dw os) c str sz src e = Some (int (length (places str sz (length (bytes c)))), c', e) \<and>
           inv c' \<and> bytes c' = spec_write (unat sz) (places str sz (length (bytes c))) src (bytes c)"
    and remove_law: "inv c \<Longrightarrow> access_ok str sz (length (bytes c)) \<Longrightarrow> length (bytes c) mod unat sz = 0 \<Longrightarrow>
      0 < unat (st_nelems str) \<Longrightarrow>
      (\<forall>d. dst = Some d \<longrightarrow> length (places str sz (length (bytes c))) * unat sz \<le> length d) \<Longrightarrow>
      \<exists>c'. dw_remove (dw os) c str sz dst e =
             Some (int (length (places str sz (length (bytes c)))),
                   map_option (\<lambda>d. overwrite d 0
                     (spec_read (unat sz) (places str sz (length (bytes c))) (bytes c))) dst, c', e) \<and>
           inv c' \<and> bytes c' = spec_remove (unat sz) (places str sz (length (bytes c))) (bytes c)"
    and insert_law: "env_ok os \<Longrightarrow> inv c \<Longrightarrow> unat ofst \<le> length (bytes c) \<Longrightarrow> 0 < unat slen \<Longrightarrow>
      unat slen \<le> length src \<Longrightarrow> 2 * (length (bytes c) + unat slen) < 4294967296 \<Longrightarrow>
      \<exists>c'. dw_insert (dw os) c ofst src slen (Some er) = Some (ret slen, c', Some er) \<and> inv c' \<and>
           bytes c' = spec_insert (unat ofst) (take (unat slen) src) (bytes c)"
begin

text \<open>What was inserted is what a read of that range returns.\<close>

lemma insert_then_read:
  assumes "env_ok os" and "inv c" and "unat ofst \<le> length (bytes c)" and "0 < unat slen"
    and "unat slen \<le> length src" and "2 * (length (bytes c) + unat slen) + 1 < 4294967296"
    and "unat slen \<le> length dest"
  shows "\<exists>c'. dw_insert (dw os) c ofst src slen (Some er) = Some (ret slen, c', Some er) \<and>
    dw_read (dw os) c' \<lparr>st_start = ucast ofst, st_stride = 1, st_nelems = ucast slen\<rparr> 1 dest e =
      Some (int (unat slen), overwrite dest 0 (take (unat slen) src), c', e)"
proof -
  let ?o = "unat ofst" and ?n = "unat slen" and ?l = "length (bytes c)"
  let ?str = "\<lparr>st_start = ucast ofst, st_stride = 1, st_nelems = ucast slen\<rparr> :: stride"
  from insert_law [OF assms(1-5)] assms(6) obtain c' where c': "inv c'"
    "dw_insert (dw os) c ofst src slen (Some er) = Some (ret slen, c', Some er)"
    "bytes c' = spec_insert ?o (take ?n src) (bytes c)"
    by (metis add_lessD1)
  have len: "length (bytes c') = ?l + ?n"
    using c'(3) assms(3,5) by (simp add: spec_insert_def)
  have p: "places ?str 1 (?l + ?n) = [?o..<?o + ?n]"
    using assms(3) visits_unit [of ?o ?n "?l + ?n"] by (simp add: places_def unat_ucast_u32_u64)
  have a: "access_ok ?str 1 (?l + ?n)"
    using assms(3,6) by (simp add: access_ok_def unat_ucast_u32_u64)
  have "spec_read 1 [?o..<?o + ?n] (bytes c') = take ?n src"
    using spec_read_unit [of ?o ?n "bytes c'"] len assms(3,5) c'(3) by (simp add: spec_insert_def)
  then show ?thesis
    using read_law [of c' ?str 1 dest os e] c' len p a assms(7) by simp
qed

text \<open>A read of the places just written returns what was written.\<close>

lemma write_then_read:
  assumes "inv c" and "access_ok str sz (length (bytes c))" and "length (bytes c) mod unat sz = 0"
    and "length (places str sz (length (bytes c))) * unat sz \<le> length src"
    and "length (places str sz (length (bytes c))) * unat sz \<le> length dest"
  shows "\<exists>c'. dw_write (dw os) c str sz src e = Some (int (length (places str sz (length (bytes c)))), c', e) \<and>
    dw_read (dw os) c' str sz dest e =
      Some (int (length (places str sz (length (bytes c)))),
            overwrite dest 0 (take (length (places str sz (length (bytes c))) * unat sz) src), c', e)"
proof -
  let ?P = "places str sz (length (bytes c))"
  from write_law [OF assms(1-4)] obtain c' where c': "inv c'"
    "dw_write (dw os) c str sz src e = Some (int (length ?P), c', e)"
    "bytes c' = spec_write (unat sz) ?P src (bytes c)" by blast
  have len: "length (bytes c') = length (bytes c)"
    using c'(3) places_in by simp
  have d: "distinct ?P" using places_sorted [OF assms(2)] by (simp add: strict_sorted_iff)
  have "spec_read (unat sz) ?P (bytes c') = take (length ?P * unat sz) src"
    unfolding c'(3) using d places_in assms(4) by (intro spec_read_write) auto
  then show ?thesis
    using read_law [of c' str sz dest os e] c' len assms by simp
qed

text \<open>A removal hands out what it takes away: no byte is lost and none appears.\<close>

lemma remove_conserves:
  assumes "inv c" and "access_ok str sz (length (bytes c))" and "length (bytes c) mod unat sz = 0"
    and "0 < unat (st_nelems str)" and "length (places str sz (length (bytes c))) * unat sz = length d"
  shows "\<exists>d' c'. dw_remove (dw os) c str sz (Some d) e =
      Some (int (length (places str sz (length (bytes c)))), Some d', c', e) \<and>
    inv c' \<and> mset d' + mset (bytes c') = mset (bytes c)"
proof -
  let ?P = "places str sz (length (bytes c))"
  have "length (spec_read (unat sz) ?P (bytes c)) = length d"
    using places_in assms(5) by (simp add: length_spec_read)
  then have o: "overwrite d 0 (spec_read (unat sz) ?P (bytes c)) = spec_read (unat sz) ?P (bytes c)"
    by (simp add: overwrite_def)
  have z: "0 < unat sz" using assms(2) by (simp add: access_ok_def)
  from remove_law [OF assms(1-4), of "Some d" os e] assms(5) obtain c' where
    "dw_remove (dw os) c str sz (Some d) e =
       Some (int (length ?P), Some (overwrite d 0 (spec_read (unat sz) ?P (bytes c))), c', e)"
    "inv c'" "bytes c' = spec_remove (unat sz) ?P (bytes c)" by auto
  then show ?thesis
    using spec_remove_conserves [OF places_sorted [OF assms(2)] places_in z assms(3)] o by auto
qed

end

end
