(* ===== verification/Ext_array.thy ===== *)
theory Ext_array
  imports Data_writer
begin

text \<open>
  The growable byte array of \<^verbatim>\<open>ds/ext_array.c\<close>. Offsets are computed in the widths of
  the code: \<open>start * size\<close> in 64 bits, then cut to 32.
\<close>

section \<open>State and operations\<close>

record ext_array =
  ea_data :: "u8 list option"
  ea_len :: u32
  ea_cap :: u32

definition ea_obj :: "ext_array \<Rightarrow> u8 list" where
  "ea_obj r = (case ea_data r of None \<Rightarrow> [] | Some d \<Rightarrow> d)"

definition ext_array_create :: ext_array where
  "ext_array_create = \<lparr>ea_data = None, ea_len = 0, ea_cap = 0\<rparr>"

definition ext_array_free :: "ext_array \<Rightarrow> ext_array option" where
  "ext_array_free r =
     do {
       (if ea_data r \<noteq> None then i_free (ea_data r) else Some ());
       Some \<lparr>ea_data = None, ea_len = 0, ea_cap = 0\<rparr>
     }"

definition ext_array_reserve :: "libc \<Rightarrow> ext_array \<Rightarrow> u32 \<Rightarrow> errp \<Rightarrow> (err_t \<times> ext_array \<times> errp) option" where
  "ext_array_reserve os r cap e =
     (if cap > ea_cap r
      then do {
        (data, e') \<leftarrow> i_realloc_right os (ea_data r) (ea_cap r) (cap * 2) 1 e;
        case data of
          None \<Rightarrow> do { c \<leftarrow> error_trace e'; Some (c, r, e') }
        | Some d \<Rightarrow> Some (SUCCESS, r\<lparr>ea_data := Some d, ea_cap := cap * 2\<rparr>, e')
      }
      else Some (SUCCESS, r, e))"

definition ext_array_insert ::
  "libc \<Rightarrow> ext_array \<Rightarrow> u32 \<Rightarrow> u8 list \<Rightarrow> u32 \<Rightarrow> errp \<Rightarrow> (int \<times> ext_array \<times> errp) option" where
  "ext_array_insert os r ofst src slen e =
     do {
       ASSERT (ofst \<le> ea_len r);
       (rc, r1, e1) \<leftarrow> ext_array_reserve os r (ea_len r + slen) e;
       if rc \<noteq> SUCCESS then do { c \<leftarrow> error_trace e1; Some (c, r1, e1) }
       else do {
         let tlen = ea_len r1 - ofst;
         bs \<leftarrow> mem_load src 0 (unat slen);
         if tlen > 0
         then do {
           (tail, e2) \<leftarrow> i_malloc os tlen 1 e1;
           case tail of
             None \<Rightarrow> do { c \<leftarrow> error_trace e2; Some (c, r1, e2) }
           | Some t \<Rightarrow>
               do {
                 saved \<leftarrow> mem_load (ea_obj r1) (unat ofst) (unat tlen);
                 t' \<leftarrow> mem_store t 0 saved;
                 d1 \<leftarrow> mem_store (ea_obj r1) (unat ofst) bs;
                 saved' \<leftarrow> mem_load t' 0 (unat tlen);
                 d2 \<leftarrow> mem_store d1 (unat ofst + unat slen) saved';
                 i_free (Some t');
                 Some (int (unat slen), r1\<lparr>ea_data := Some d2, ea_len := ea_len r1 + slen\<rparr>, e2)
               }
         }
         else do {
           d1 \<leftarrow> mem_store (ea_obj r1) (unat ofst) bs;
           Some (int (unat slen),
                 r1\<lparr>ea_data := (if ea_data r1 = None then None else Some d1),
                    ea_len := ea_len r1 + slen\<rparr>, e1)
         }
       }
     }"

text \<open>\<open>u32 bidx = str.start * size\<close> and \<open>bidx += str.stride * size\<close>.\<close>

definition byte_index :: "stride \<Rightarrow> u32 \<Rightarrow> u32" where
  "byte_index str sz = ucast (st_start str * ucast sz)"

definition byte_step :: "stride \<Rightarrow> u32 \<Rightarrow> u32" where
  "byte_step str sz = ucast (st_stride str * ucast sz)"

partial_function (option) ext_array_read_loop ::
  "ext_array \<Rightarrow> stride \<Rightarrow> u32 \<Rightarrow> u8 list \<Rightarrow> nat \<Rightarrow> u32 \<Rightarrow> u32 \<Rightarrow> (int \<times> u8 list) option" where
  "ext_array_read_loop r str sz dest doff bidx total_read =
     (if unat total_read < unat (st_nelems str)
      then if bidx + sz > ea_len r then Some (int (unat total_read), dest)
      else do {
        bs \<leftarrow> mem_load (ea_obj r) (unat bidx) (unat sz);
        dest' \<leftarrow> mem_store dest doff bs;
        ext_array_read_loop r str sz dest' (doff + unat sz) (bidx + byte_step str sz) (total_read + 1)
      }
      else Some (int (unat total_read), dest))"

declare ext_array_read_loop.simps [code]

definition ext_array_read :: "ext_array \<Rightarrow> stride \<Rightarrow> u32 \<Rightarrow> u8 list \<Rightarrow> (int \<times> u8 list) option" where
  "ext_array_read r str sz dest = ext_array_read_loop r str sz dest 0 (byte_index str sz) 0"

partial_function (option) ext_array_write_loop ::
  "ext_array \<Rightarrow> stride \<Rightarrow> u32 \<Rightarrow> u8 list \<Rightarrow> nat \<Rightarrow> u32 \<Rightarrow> u32 \<Rightarrow> (int \<times> ext_array) option" where
  "ext_array_write_loop r str sz src soff bidx total_written =
     (if unat total_written < unat (st_nelems str)
      then if bidx + sz > ea_len r then Some (int (unat total_written), r)
      else do {
        bs \<leftarrow> mem_load src soff (unat sz);
        d \<leftarrow> mem_store (ea_obj r) (unat bidx) bs;
        ext_array_write_loop (r\<lparr>ea_data := Some d\<rparr>) str sz src (soff + unat sz)
          (bidx + byte_step str sz) (total_written + 1)
      }
      else Some (int (unat total_written), r))"

declare ext_array_write_loop.simps [code]

definition ext_array_write :: "ext_array \<Rightarrow> stride \<Rightarrow> u32 \<Rightarrow> u8 list \<Rightarrow> (int \<times> ext_array) option" where
  "ext_array_write r str sz src = ext_array_write_loop r str sz src 0 (byte_index str sz) 0"

record rm_state =
  rm_total :: u32
  rm_wpos :: u32
  rm_rpos :: u32
  rm_next :: u32
  rm_data :: "u8 list"
  rm_dest :: "u8 list option"
  rm_doff :: nat

definition ea_remove_step :: "stride \<Rightarrow> u32 \<Rightarrow> rm_state \<Rightarrow> rm_state option" where
  "ea_remove_step str sz s =
     do {
       s1 \<leftarrow>
         (if unat (rm_total s) < unat (st_nelems str) \<and> rm_rpos s = rm_next s
          then do {
            s0 \<leftarrow> (case rm_dest s of
                     None \<Rightarrow> Some s
                   | Some dest \<Rightarrow>
                       do {
                         bs \<leftarrow> mem_load (rm_data s) (unat (rm_rpos s * sz)) (unat sz);
                         dest' \<leftarrow> mem_store dest (rm_doff s) bs;
                         Some (s\<lparr>rm_dest := Some dest', rm_doff := rm_doff s + unat sz\<rparr>)
                       });
            Some (s0\<lparr>rm_total := rm_total s0 + 1, rm_next := rm_next s0 + ucast (st_stride str)\<rparr>)
          }
          else do {
            d \<leftarrow> (if rm_wpos s \<noteq> rm_rpos s
                 then do {
                   bs \<leftarrow> mem_load (rm_data s) (unat (rm_rpos s * sz)) (unat sz);
                   mem_store (rm_data s) (unat (rm_wpos s * sz)) bs
                 }
                 else Some (rm_data s));
            Some (s\<lparr>rm_data := d, rm_wpos := rm_wpos s + 1\<rparr>)
          });
       Some (s1\<lparr>rm_rpos := rm_rpos s1 + 1\<rparr>)
     }"

partial_function (option) ea_remove_loop :: "stride \<Rightarrow> u32 \<Rightarrow> u32 \<Rightarrow> rm_state \<Rightarrow> rm_state option" where
  "ea_remove_loop str sz len s =
     (if rm_rpos s * sz < len
      then do { s' \<leftarrow> ea_remove_step str sz s; ea_remove_loop str sz len s' }
      else Some s)"

declare ea_remove_loop.simps [code]

definition ext_array_remove ::
  "ext_array \<Rightarrow> stride \<Rightarrow> u32 \<Rightarrow> u8 list option \<Rightarrow> (int \<times> u8 list option \<times> ext_array) option" where
  "ext_array_remove r str sz dest =
     do {
       s \<leftarrow> ea_remove_loop str sz (ea_len r)
              \<lparr>rm_total = 0, rm_wpos = 0, rm_rpos = 0, rm_next = ucast (st_start str),
               rm_data = ea_obj r, rm_dest = dest, rm_doff = 0\<rparr>;
       Some (int (unat (rm_total s)), rm_dest s,
             r\<lparr>ea_data := map_option (\<lambda>_. rm_data s) (ea_data r), ea_len := rm_wpos s * sz\<rparr>)
     }"

definition ext_array_get_len :: "ext_array \<Rightarrow> u64" where
  "ext_array_get_len r = ucast (ea_len r)"

text \<open>The table of \<open>ext_array_data_writer\<close>; \<open>insert\<close> narrows its result to an \<open>int\<close>.\<close>

definition ext_array_insert_func ::
  "libc \<Rightarrow> ext_array \<Rightarrow> u32 \<Rightarrow> u8 list \<Rightarrow> u32 \<Rightarrow> errp \<Rightarrow> (int \<times> ext_array \<times> errp) option" where
  "ext_array_insert_func os arr ofst src slen e =
     do {
       (n, arr', e') \<leftarrow> ext_array_insert os arr ofst src slen e;
       Some (sint (word_of_int n :: u32), arr', e')
     }"

definition ext_array_data_writer :: "libc \<Rightarrow> ext_array data_writer" where
  "ext_array_data_writer os =
     \<lparr>dw_insert = ext_array_insert_func os,
      dw_read = (\<lambda>arr str sz dest e. do { (n, d) \<leftarrow> ext_array_read arr str sz dest; Some (n, d, arr, e) }),
      dw_write = (\<lambda>arr str sz src e. do { (n, arr') \<leftarrow> ext_array_write arr str sz src; Some (n, arr', e) }),
      dw_remove = (\<lambda>arr str sz dest e.
         do { (n, d, arr') \<leftarrow> ext_array_remove arr str sz dest; Some (n, d, arr', e) }),
      dw_getlen = (\<lambda>arr e. Some (sint (ext_array_get_len arr), arr, e))\<rparr>"

section \<open>Strided access\<close>

definition ea_wf :: "ext_array \<Rightarrow> bool" where
  "ea_wf r \<longleftrightarrow> ea_len r \<le> ea_cap r \<and> length (ea_obj r) = unat (ea_cap r)"

definition ea_bytes :: "ext_array \<Rightarrow> u8 list" where
  "ea_bytes r = take (unat (ea_len r)) (ea_obj r)"

lemma length_ea_bytes [simp]: "ea_wf r \<Longrightarrow> length (ea_bytes r) = unat (ea_len r)"
  by (simp add: ea_wf_def ea_bytes_def word_le_nat_alt)

lemma go_ok_Suc:
  assumes "go_ok (Suc n) i str sz len"
  shows "go_ok n (i + unat (st_stride str)) str sz len"
    and "unat (byte_step str sz) = unat (st_stride str) * unat sz"
    and "(i + unat (st_stride str)) * unat sz < 4294967296"
proof -
  show g: "go_ok n (i + unat (st_stride str)) str sz len"
    using assms by (simp add: go_ok_def algebra_simps)
  show b: "(i + unat (st_stride str)) * unat sz < 4294967296"
    using go_okD(1) [OF g] by (simp add: algebra_simps)
  have "unat (st_stride str) * unat sz \<le> (i + unat (st_stride str)) * unat sz"
    by (intro mult_le_mono1) simp
  then have "unat (st_stride str) * unat sz < 4294967296" using b by (rule le_less_trans)
  then show "unat (byte_step str sz) = unat (st_stride str) * unat sz"
    by (simp add: byte_step_def u64_mul_u32)
qed

lemma access_start:
  assumes "access_ok str sz len"
  shows "go_ok (unat (st_nelems str)) (unat (st_start str)) str sz len"
    and "unat (byte_index str sz) = unat (st_start str) * unat sz"
  using access_go [OF assms] access_index [OF assms] by (simp_all add: byte_index_def)

text \<open>One iteration: the bound test of the code is the test of \<open>visits\<close>, and the cursor moves on.\<close>

lemma bidx_step:
  assumes g: "go_ok (Suc n) i str sz len" and b: "unat bidx = i * unat sz"
  shows "bidx + sz > l \<longleftrightarrow> \<not> (i + 1) * unat sz \<le> unat l"
    and "unat (bidx + byte_step str sz) = (i + unat (st_stride str)) * unat sz"
proof -
  have "unat (bidx + sz) = (i + 1) * unat sz"
    using go_okD(1) [OF g] b by (subst u32_add_nat) (auto simp: algebra_simps)
  then show "bidx + sz > l \<longleftrightarrow> \<not> (i + 1) * unat sz \<le> unat l"
    by (auto simp: word_less_nat_alt)
  show "unat (bidx + byte_step str sz) = (i + unat (st_stride str)) * unat sz"
    using go_ok_Suc [OF g] b by (subst u32_add_nat) (auto simp: algebra_simps)
qed

lemma elem_bytes: "(i + 1) * sz \<le> n \<Longrightarrow> elem sz (take n m) i = elem sz m i"
  by (simp add: elem_def drop_take min_def)

lemma ext_array_read_loop_ok:
  assumes wf: "ea_wf r" and n: "unat (st_nelems str) = unat total_read + n"
    and g: "go_ok n i str sz (unat (ea_len r))" and b: "unat bidx = i * unat sz"
    and small: "unat (st_nelems str) < 4294967296"
    and dest: "doff + length (visits n i (unat (st_stride str)) (unat sz) (unat (ea_len r))) * unat sz \<le> length dest"
  shows "ext_array_read_loop r str sz dest doff bidx total_read =
     Some (let V = visits n i (unat (st_stride str)) (unat sz) (unat (ea_len r)) in
           (int (unat total_read + length V), overwrite dest doff (spec_read (unat sz) V (ea_bytes r))))"
  using n g b dest
proof (induction n arbitrary: i bidx total_read dest doff)
  case 0
  then show ?case by (subst ext_array_read_loop.simps) (simp add: spec_read_def)
next
  case (Suc n)
  note bs = bidx_step [OF Suc.prems(2,3)]
  let ?V = "visits n (i + unat (st_stride str)) (unat (st_stride str)) (unat sz) (unat (ea_len r))"
  have t: "unat total_read < unat (st_nelems str)" using Suc.prems(1) by simp
  show ?case
  proof (cases "(i + 1) * unat sz \<le> unat (ea_len r)")
    case False
    then show ?thesis
      using bs(1) t by (subst ext_array_read_loop.simps) (simp add: spec_read_def)
  next
    case True
    let ?x = "elem (unat sz) (ea_bytes r) i"
    let ?d = "overwrite dest doff ?x"
    have lx: "length ?x = unat sz" using True wf by (intro length_elem) simp
    have obj: "i * unat sz + unat sz \<le> length (ea_obj r)"
      using True wf by (simp add: ea_wf_def word_le_nat_alt)
    have d: "doff + unat sz + length ?V * unat sz \<le> length dest"
      using Suc.prems(4) True by (simp add: algebra_simps)
    have "take (unat sz) (drop (i * unat sz) (ea_obj r)) = ?x"
      using elem_bytes [OF True] by (simp add: ea_bytes_def elem_def)
    then have ld: "mem_load (ea_obj r) (unat bidx) (unat sz) = Some ?x"
      using obj Suc.prems(3) by simp
    have st: "mem_store dest doff ?x = Some ?d" using lx d by simp
    have tt: "unat (total_read + 1) = unat total_read + 1"
      using t small u32_add_nat [of total_read 1] by simp
    have "ext_array_read_loop r str sz ?d (doff + unat sz) (bidx + byte_step str sz) (total_read + 1) =
       Some (let V = ?V in (int (unat (total_read + 1) + length V),
             overwrite ?d (doff + unat sz) (spec_read (unat sz) V (ea_bytes r))))"
      by (rule Suc.IH) (use Suc.prems(1) tt go_ok_Suc [OF Suc.prems(2)] bs d lx in simp_all)
    moreover have "overwrite ?d (doff + length ?x) (spec_read (unat sz) ?V (ea_bytes r)) =
        overwrite dest doff (?x @ spec_read (unat sz) ?V (ea_bytes r))"
    proof (rule overwrite_overwrite)
      have "length (spec_read (unat sz) ?V (ea_bytes r)) = length ?V * unat sz"
        using visits_range [of _ n] wf by (intro length_spec_read) fastforce
      then show "doff + length ?x + length (spec_read (unat sz) ?V (ea_bytes r)) \<le> length dest"
        using d lx by simp
    qed
    ultimately show ?thesis
      using True t bs(1) ld st tt lx
      by (subst ext_array_read_loop.simps) (simp add: Let_def spec_read_def)
  qed
qed

lemma ext_array_read_ok:
  assumes wf: "ea_wf r" and a: "access_ok str sz (unat (ea_len r))"
    and dest: "length (places str sz (unat (ea_len r))) * unat sz \<le> length dest"
  shows "ext_array_read r str sz dest =
     Some (int (length (places str sz (unat (ea_len r)))),
           overwrite dest 0 (spec_read (unat sz) (places str sz (unat (ea_len r))) (ea_bytes r)))"
  using ext_array_read_loop_ok [OF wf, of str 0 "unat (st_nelems str)" "unat (st_start str)" sz "byte_index str sz" 0 dest]
    access_start [OF a] go_okD(2) [OF access_start(1) [OF a]] dest
  by (simp add: ext_array_read_def places_def Let_def)

lemma ext_array_write_loop_ok:
  assumes "ea_wf r" and n: "unat (st_nelems str) = unat tot + n"
    and g: "go_ok n i str sz (unat (ea_len r))" and b: "unat bidx = i * unat sz"
    and small: "unat (st_nelems str) < 4294967296"
    and src: "soff + length (visits n i (unat (st_stride str)) (unat sz) (unat (ea_len r))) * unat sz \<le> length src"
  shows "\<exists>r'. ext_array_write_loop r str sz src soff bidx tot =
       Some (int (unat tot + length (visits n i (unat (st_stride str)) (unat sz) (unat (ea_len r)))), r') \<and>
     ea_wf r' \<and> ea_len r' = ea_len r \<and>
     ea_bytes r' = spec_write (unat sz) (visits n i (unat (st_stride str)) (unat sz) (unat (ea_len r)))
       (drop soff src) (ea_bytes r)"
  using assms(1) n g b src
proof (induction n arbitrary: i bidx tot soff r)
  case 0
  then show ?case by (subst ext_array_write_loop.simps) simp
next
  case (Suc n)
  note bs = bidx_step [OF Suc.prems(3,4)]
  let ?len = "unat (ea_len r)"
  let ?V = "visits n (i + unat (st_stride str)) (unat (st_stride str)) (unat sz) ?len"
  have t: "unat tot < unat (st_nelems str)" using Suc.prems(2) by simp
  show ?case
  proof (cases "(i + 1) * unat sz \<le> ?len")
    case False
    then show ?thesis
      using bs(1) t Suc.prems(1) by (subst ext_array_write_loop.simps) simp
  next
    case True
    let ?x = "take (unat sz) (drop soff src)"
    let ?d = "overwrite (ea_obj r) (i * unat sz) ?x"
    let ?r = "r\<lparr>ea_data := Some ?d\<rparr>"
    have s: "soff + unat sz + length ?V * unat sz \<le> length src"
      using Suc.prems(5) True by (simp add: algebra_simps)
    have lx: "length ?x = unat sz" using s by simp
    have cap: "?len \<le> length (ea_obj r)" using Suc.prems(1) by (simp add: ea_wf_def word_le_nat_alt)
    have obj: "i * unat sz + unat sz \<le> length (ea_obj r)" using True cap by simp
    have ld: "mem_load src soff (unat sz) = Some ?x" using s by simp
    have st: "mem_store (ea_obj r) (unat bidx) ?x = Some ?d" using lx obj Suc.prems(4) by simp
    have tt: "unat (tot + 1) = unat tot + 1"
      using t small u32_add_nat [of tot 1] by simp
    have wf': "ea_wf ?r" using Suc.prems(1) obj lx by (simp add: ea_wf_def ea_obj_def split: option.splits)
    have by': "ea_bytes ?r = overwrite (ea_bytes r) (i * unat sz) ?x"
      using take_overwrite_within [of "i * unat sz" ?x ?len "ea_obj r"] True cap lx
      by (simp add: ea_bytes_def ea_obj_def split: option.splits)
    have "\<exists>r'. ext_array_write_loop ?r str sz src (soff + unat sz) (bidx + byte_step str sz) (tot + 1) =
       Some (int (unat (tot + 1) + length (visits n (i + unat (st_stride str)) (unat (st_stride str)) (unat sz) (unat (ea_len ?r)))), r') \<and>
     ea_wf r' \<and> ea_len r' = ea_len ?r \<and>
     ea_bytes r' = spec_write (unat sz) (visits n (i + unat (st_stride str)) (unat (st_stride str)) (unat sz) (unat (ea_len ?r)))
       (drop (soff + unat sz) src) (ea_bytes ?r)"
      by (rule Suc.IH) (use Suc.prems(2) tt go_ok_Suc [OF Suc.prems(3)] bs s wf' in simp_all)
    moreover have "drop (soff + unat sz) src = drop (unat sz + soff) src" by (simp add: add.commute)
    ultimately show ?thesis
      using True t bs(1) ld st tt by'
      by (subst ext_array_write_loop.simps) simp
  qed
qed

lemma ext_array_write_ok:
  assumes wf: "ea_wf r" and a: "access_ok str sz (unat (ea_len r))"
    and src: "length (places str sz (unat (ea_len r))) * unat sz \<le> length src"
  shows "\<exists>r'. ext_array_write r str sz src = Some (int (length (places str sz (unat (ea_len r)))), r') \<and>
     ea_wf r' \<and> ea_len r' = ea_len r \<and>
     ea_bytes r' = spec_write (unat sz) (places str sz (unat (ea_len r))) src (ea_bytes r)"
  using ext_array_write_loop_ok [OF wf, of str 0 "unat (st_nelems str)" "unat (st_start str)" sz "byte_index str sz" 0 src]
    access_start [OF a] go_okD(2) [OF access_start(1) [OF a]] src
  by (simp add: ext_array_write_def places_def)

section \<open>Insertion\<close>

lemma i_malloc_total:
  assumes "0 < unat n" 
  shows "\<exists>p e'. i_malloc os n 1 (Some er) = Some (p, e') \<and>
    (if p = None then pending e' \<and> \<not> libc_total os else e' = Some er)"
proof -
  have "i_malloc os n 1 (Some er) \<noteq> None"
    using assms by (auto simp: i_malloc_def word_less_nat_alt split: option.split)
  then obtain p e' where m: "i_malloc os n 1 (Some er) = Some (p, e')" by auto
  then have "if p = None then pending e' \<and> \<not> libc_total os else e' = Some er"
    by (auto simp: i_malloc_def nomem_def safe_mul_u32_def libc_total_def split: option.splits if_splits)
  with m show ?thesis by blast
qed

lemma ext_array_reserve_ok:
  assumes os: "libc_ok os" and wf: "ea_wf r" and fits: "2 * unat cap < 4294967296"
  shows "\<exists>rc r1 e1. ext_array_reserve os r cap (Some er) = Some (rc, r1, e1) \<and> ea_wf r1 \<and>
     ea_len r1 = ea_len r \<and> ea_bytes r1 = ea_bytes r \<and>
     (rc = SUCCESS \<and> e1 = Some er \<and> cap \<le> ea_cap r1 \<or> rc \<noteq> SUCCESS \<and> pending e1 \<and> \<not> libc_total os)"
proof (cases "cap > ea_cap r")
  case False
  then show ?thesis using wf by (simp add: ext_array_reserve_def del: linorder_not_less)
next
  case True
  have c2: "unat (cap * 2) = unat cap * 2" using fits by (subst u32_mult_nat) simp_all
  have lt: "unat (ea_cap r) < unat cap" using True by (simp add: word_less_nat_alt)
  have nn: "ea_data r = None \<longrightarrow> ea_cap r = 0" using wf by (auto simp: ea_wf_def ea_obj_def u32_eq_nat)
  have rr: "i_realloc_right os (ea_data r) (ea_cap r) (cap * 2) 1 (Some er) = i_realloc os (ea_data r) (cap * 2) 1 (Some er)"
    using nn c2 lt by (auto simp: i_realloc_right_def word_less_nat_alt)
  have re: "i_realloc os (ea_data r) (cap * 2) 1 (Some er) = Some
      (case lc_realloc os (ea_data r) (unat cap * 2) of
         None \<Rightarrow> nomem (Some er) (''realloc '' @ fmt_u (cap * 2) @ '' bytes: '' @ lc_strerror os)
       | Some ret \<Rightarrow> (Some ret, Some er))"
    using c2 lt fits by (auto simp: i_realloc_def safe_mul_u32_def word_less_nat_alt split: option.split)
  show ?thesis
  proof (cases "lc_realloc os (ea_data r) (unat cap * 2)")
    case None
    have "pending (fst (error_causef (Some er) ERR_NOMEM (''realloc '' @ fmt_u (cap * 2) @ '' bytes: '' @ lc_strerror os)))"
      by simp
    moreover have "\<not> libc_total os" using None by (metis libc_total_def)
    ultimately show ?thesis
      using True None rr re wf by (auto simp: ext_array_reserve_def nomem_def pending_def)
  next
    case (Some d)
    have l: "length d = unat cap * 2" using lc_realloc_length [OF os Some] .
    have len: "unat (ea_len r) \<le> length (ea_obj r)" using wf by (simp add: ea_wf_def word_le_nat_alt)
    have "take (unat (ea_len r)) d = ea_bytes r"
    proof (cases "ea_data r")
      case None
      then show ?thesis using len by (simp add: ea_bytes_def ea_obj_def)
    next
      case (Some old)
      then show ?thesis
        using lc_realloc_prefix [OF os, of old "unat cap * 2" d "unat (ea_len r)"] len lt wf
          \<open>lc_realloc os (ea_data r) (unat cap * 2) = Some d\<close>
        by (simp add: ea_bytes_def ea_obj_def ea_wf_def word_le_nat_alt)
    qed
    then show ?thesis
      using True Some rr re wf l c2 lt
      by (simp add: ext_array_reserve_def ea_wf_def ea_bytes_def ea_obj_def word_le_nat_alt)
  qed
qed

lemma ext_array_insert_ok:
  assumes os: "libc_ok os" and wf: "ea_wf r" and ofst: "ofst \<le> ea_len r" and src: "unat slen \<le> length src"
    and fits: "2 * (unat (ea_len r) + unat slen) < 4294967296"
  shows "\<exists>n r' e'. ext_array_insert os r ofst src slen (Some er) = Some (n, r', e') \<and> ea_wf r' \<and>
     (n = int (unat slen) \<and> e' = Some er \<and>
        ea_bytes r' = spec_insert (unat ofst) (take (unat slen) src) (ea_bytes r) \<or>
      pending e' \<and> \<not> libc_total os \<and> ea_bytes r' = ea_bytes r)"
proof -
  let ?len = "unat (ea_len r)" and ?o = "unat ofst" and ?bs = "take (unat slen) src"
  have sum: "unat (ea_len r + slen) = ?len + unat slen" using fits by (subst u32_add_nat) simp_all
  obtain rc r1 e1 where
    rs: "ext_array_reserve os r (ea_len r + slen) (Some er) = Some (rc, r1, e1)"
    and r1: "ea_wf r1" "ea_len r1 = ea_len r" "ea_bytes r1 = ea_bytes r"
    and c: "rc = SUCCESS \<and> e1 = Some er \<and> ea_len r + slen \<le> ea_cap r1 \<or> rc \<noteq> SUCCESS \<and> pending e1 \<and> \<not> libc_total os"
    using ext_array_reserve_ok [OF os wf, of "ea_len r + slen" er] fits sum by auto
  show ?thesis
  proof (cases "rc = SUCCESS")
    case False
    with c obtain er' where "e1 = Some er'" "cause_code er' \<noteq> SUCCESS" by (auto simp: pending_def)
    then show ?thesis
      using rs False c ofst r1 by (auto simp: ext_array_insert_def pending_def)
  next
    case True
    then have e1: "e1 = Some er" and room: "?len + unat slen \<le> length (ea_obj r1)"
      using c sum r1(1) by (auto simp: ea_wf_def word_le_nat_alt)
    have o: "?o \<le> ?len" using ofst by (simp add: word_le_nat_alt)
    have lbs: "length ?bs = unat slen" using src by simp
    have tl: "unat (ea_len r - ofst) = ?len - ?o" using o by simp
    let ?ob = "ea_obj r1"
    have b1: "take ?len ?ob = ea_bytes r" using r1 by (simp add: ea_bytes_def)
    show ?thesis
    proof (cases "?o < ?len")
      case False
      then have "?o = ?len" using o by simp
      let ?r' = "r1\<lparr>ea_data := (if ea_data r1 = None then None else Some (overwrite ?ob ?o ?bs)), ea_len := ea_len r1 + slen\<rparr>"
      have ob: "ea_obj ?r' = overwrite ?ob ?o ?bs"
        using room lbs \<open>?o = ?len\<close> by (auto simp: ea_obj_def overwrite_def split: option.splits)
      have "ea_wf ?r'"
        using r1 room sum lbs \<open>?o = ?len\<close> ob c True by (auto simp: ea_wf_def)
      moreover have "ea_bytes ?r' = spec_insert ?o ?bs (ea_bytes r)"
        using take_overwrite_full [of ?o ?bs ?ob] room lbs sum b1 \<open>?o = ?len\<close> r1 ob
        by (simp add: ea_bytes_def spec_insert_def)
      moreover have "ext_array_insert os r ofst src slen (Some er) = Some (int (unat slen), ?r', Some er)"
        using rs True e1 ofst r1 src room lbs tl \<open>?o = ?len\<close>
        by (simp add: ext_array_insert_def word_less_nat_alt)
      ultimately show ?thesis by blast
    next
      case lt: True
      obtain t e2 where t: "i_malloc os (ea_len r - ofst) 1 (Some er) = Some (t, e2)"
        "if t = None then pending e2 \<and> \<not> libc_total os else e2 = Some er"
        using i_malloc_total [of "ea_len r - ofst" os er] lt tl by auto
      show ?thesis
      proof (cases t)
        case None
        then obtain er2 where "e2 = Some er2" "cause_code er2 \<noteq> SUCCESS" using t(2) by (auto simp: pending_def)
        then show ?thesis
          using rs True e1 ofst r1 src t None tl lt
          by (auto simp: ext_array_insert_def word_less_nat_alt pending_def)
      next
        case (Some tb)
        have ltb: "length tb = ?len - ?o" using i_malloc_ok [OF os, of _ _ _ tb] t Some tl by fastforce
        let ?sv = "take (?len - ?o) (drop ?o ?ob)"
        let ?d1 = "overwrite ?ob ?o ?bs"
        let ?d2 = "overwrite ?d1 (?o + unat slen) ?sv"
        have lsv: "length ?sv = ?len - ?o" using room o by simp
        have sv: "?sv = drop ?o (ea_bytes r)" using b1 by (simp add: drop_take flip: b1)
        have ot: "overwrite tb 0 ?sv = ?sv" using ltb lsv by (simp add: overwrite_def)
        have d2: "?d2 = overwrite ?ob ?o (?bs @ ?sv)"
          using overwrite_overwrite [of ?o ?bs ?sv ?ob] room lbs lsv o by simp
        let ?r' = "r1\<lparr>ea_data := Some ?d2, ea_len := ea_len r1 + slen\<rparr>"
        have "ea_wf ?r'"
          using r1 room sum lbs lsv o c True by (auto simp: ea_wf_def ea_obj_def)
        moreover have "ea_bytes ?r' = spec_insert ?o ?bs (ea_bytes r)"
        proof -
          have n: "?len + unat slen = ?o + length (?bs @ ?sv)" using lbs lsv o by simp
          have "ea_bytes ?r' = take (?len + unat slen) ?d2"
            using sum r1 by (simp add: ea_bytes_def ea_obj_def)
          also have "\<dots> = take ?o ?ob @ ?bs @ ?sv"
            unfolding n d2 by (rule take_overwrite_full) (use room n in linarith)
          also have "take ?o ?ob = take ?o (ea_bytes r)" using o by (simp add: min_def flip: b1)
          finally show ?thesis by (simp add: spec_insert_def sv)
        qed
        moreover have "ext_array_insert os r ofst src slen (Some er) = Some (int (unat slen), ?r', Some er)"
          using rs True e1 ofst r1 src room lbs tl lt t Some ltb lsv ot o
          by (simp add: ext_array_insert_def word_less_nat_alt i_free_def)
        ultimately show ?thesis by blast
      qed
    qed
  qed
qed

section \<open>Removal\<close>

text \<open>The state of the compaction loop before element \<open>k\<close>, with \<open>w\<close> elements kept so far.\<close>

definition rm_inv :: "stride \<Rightarrow> u32 \<Rightarrow> u8 list \<Rightarrow> nat \<Rightarrow> nat \<Rightarrow> nat \<Rightarrow> nat \<Rightarrow> rm_state \<Rightarrow> bool" where
  "rm_inv str sz bs len k n i s \<longleftrightarrow>
     unat (rm_rpos s) = k \<and> unat (rm_wpos s) \<le> k \<and> unat (st_nelems str) = unat (rm_total s) + n \<and>
     unat (rm_next s) = i \<and> (n = 0 \<or> k \<le> i) \<and> go_ok n i str sz len \<and>
     length (rm_data s) = length bs \<and> drop (k * unat sz) (rm_data s) = drop (k * unat sz) bs"

lemma visits_notin: "k < i \<Longrightarrow> k \<notin> set (visits n i stp sz len)"
  using visits_range by fastforce

lemma keep_step:
  assumes "length d = length bs" and "drop (k * z) d = drop (k * z) bs" and "w \<le> k" and "k * z + z \<le> length bs"
  defines "d' \<equiv> (if w = k then d else overwrite d (w * z) (take z (drop (k * z) d)))"
  shows "length d' = length bs" and "drop (k * z + z) d' = drop (k * z + z) bs"
    and "take (w * z + z) d' = take (w * z) d @ elem z bs k"
proof -
  let ?x = "take z (drop (k * z) d)"
  have wk: "w * z \<le> k * z" using assms(3) by simp
  have lx: "length ?x = z" using assms(1,4) by simp
  have x: "?x = elem z bs k" using assms(2) by (simp add: elem_def)
  have "length (overwrite d (w * z) ?x) = length d"
    by (rule length_overwrite) (use wk lx assms(1,4) in linarith)
  then show "length d' = length bs" using assms(1) by (simp add: d'_def)
  have tail: "drop (k * z + z) d = drop (k * z + z) bs"
    using arg_cong [OF assms(2), of "drop z"] by (simp add: add.commute)
  have "drop (k * z + z) (overwrite d (w * z) ?x) = drop (k * z + z) d"
    by (rule drop_overwrite_eq) (use wk lx assms(1,4) in linarith)+
  then show "drop (k * z + z) d' = drop (k * z + z) bs" using tail by (simp add: d'_def)
  show "take (w * z + z) d' = take (w * z) d @ elem z bs k"
  proof (cases "w = k")
    case True
    then show ?thesis using x by (simp add: d'_def take_add)
  next
    case False
    have "take (w * z + length ?x) (overwrite d (w * z) ?x) = take (w * z) d @ ?x"
      by (rule take_overwrite_full) (use wk lx assms(1,4) in linarith)
    then show ?thesis using False x lx by (simp add: d'_def)
  qed
qed

lemma ea_remove_loop_ok:
  assumes len: "unat l = L * unat sz" "unat l \<le> length bs" and small: "unat (st_nelems str) < 4294967296"
    and inv: "rm_inv str sz bs (unat l) k n i s" and k: "k \<le> L"
    and dest: "\<forall>d. rm_dest s = Some d \<longrightarrow>
       rm_doff s + length (visits n i (unat (st_stride str)) (unat sz) (unat l)) * unat sz \<le> length d"
  shows "\<exists>s'. ea_remove_loop str sz l s = Some s' \<and> length (rm_data s') = length bs \<and>
     (let P = visits n i (unat (st_stride str)) (unat sz) (unat l);
          K = filter (\<lambda>j. j \<notin> set P) [k..<L] in
      unat (rm_total s') = unat (rm_total s) + length P \<and>
      unat (rm_wpos s') = unat (rm_wpos s) + length K \<and>
      take (unat (rm_wpos s') * unat sz) (rm_data s') =
        take (unat (rm_wpos s) * unat sz) (rm_data s) @ concat (map (elem (unat sz) bs) K) \<and>
      rm_dest s' = map_option (\<lambda>d. overwrite d (rm_doff s) (concat (map (elem (unat sz) bs) P))) (rm_dest s))"
  using inv k dest
proof (induction "L - k" arbitrary: k n i s)
  case 0
  then have kL: "k = L" by simp
  have z: "0 < unat sz" using 0(2) by (simp add: rm_inv_def go_ok_def)
  have "unat (rm_rpos s * sz) = L * unat sz"
    using 0(2) kL len u32_less_bound [of l] by (subst u32_mult_nat) (auto simp: rm_inv_def)
  then have "\<not> rm_rpos s * sz < l" using len by (simp add: word_less_nat_alt)
  moreover have "visits n i (unat (st_stride str)) (unat sz) (unat l) = []"
  proof -
    have "n = 0 \<or> L \<le> i" using 0(2) kL by (auto simp: rm_inv_def)
    moreover have "L * unat sz \<le> i * unat sz" if "L \<le> i" using that by simp
    ultimately have "n = 0 \<or> \<not> (i + 1) * unat sz \<le> L * unat sz"
      using z unfolding add_mult_distrib by linarith
    then show ?thesis using len by (cases n) simp_all
  qed
  ultimately show ?case
    using 0(2) kL by (subst ea_remove_loop.simps) (cases "rm_dest s"; simp add: rm_inv_def)
next
  case (Suc x)
  let ?z = "unat sz" and ?S = "unat (st_stride str)" and ?l = "unat l"
  have kL: "k < L" using Suc.hyps(2) by simp
  have I: "unat (rm_rpos s) = k" "unat (rm_wpos s) \<le> k" "unat (st_nelems str) = unat (rm_total s) + n"
    "unat (rm_next s) = i" "n = 0 \<or> k \<le> i" "go_ok n i str sz ?l" "length (rm_data s) = length bs"
    "drop (k * ?z) (rm_data s) = drop (k * ?z) bs"
    using Suc.prems(1) by (auto simp: rm_inv_def)
  have z: "0 < ?z" using I(6) by (simp add: go_ok_def)
  have kz: "(k + 1) * ?z \<le> ?l" using kL len by (metis Suc_eq_plus1 Suc_leI mult_le_mono1)
  then have kz': "k * ?z + ?z \<le> length bs" "k * ?z < ?l" "k * ?z + ?z \<le> ?l" using len z kL by auto
  have kb: "k * ?z < 4294967296" by (rule less_trans [OF kz'(2) u32_less_bound])
  have rp: "unat (rm_rpos s * sz) = k * ?z"
    using I(1) kb by (subst u32_mult_nat) auto
  have wle: "unat (rm_wpos s) * ?z \<le> k * ?z" using I(2) by simp
  have wp: "unat (rm_wpos s * sz) = unat (rm_wpos s) * ?z"
    using le_less_trans [OF wle kb] by (subst u32_mult_nat) auto
  have go: "rm_rpos s * sz < l" using rp kz' by (simp add: word_less_nat_alt)
  have "L * 1 \<le> L * ?z" using z by (intro mult_le_mono2) simp
  then have k1: "k + 1 < 4294967296" using kL len u32_less_bound [of l] by linarith
  have k1': "unat (rm_rpos s + 1) = k + 1" using k1 I(1) u32_add_nat [of "rm_rpos s" 1] by simp
  have ld: "mem_load (rm_data s) (unat (rm_rpos s * sz)) ?z = Some (elem ?z bs k)"
    using rp kz' I(7,8) by (simp add: elem_def)
  have up: "[k..<L] = k # [k + 1..<L]" using kL by (simp add: upt_rec)
  have dk: "drop (?z + k * ?z) (rm_data s) = drop (?z + k * ?z) bs"
    using arg_cong [OF I(8), of "drop ?z"] by (simp only: drop_drop)
  let ?P = "visits n i ?S ?z ?l"
  show ?case
  proof (cases "0 < n \<and> k = i")
    case True
    then obtain m where n: "n = Suc m" by (cases n) auto
    let ?P1 = "visits m (i + ?S) ?S ?z ?l"
    have P: "?P = k # ?P1" using True n kz by simp
    note gs = go_ok_Suc [OF I(6) [unfolded n]]
    have S: "?S < 4294967296" "i + ?S < 4294967296" "0 < ?S"
    proof -
      show "0 < ?S" using I(6) by (simp add: go_ok_def)
      have "(i + ?S) * 1 \<le> (i + ?S) * ?z" using z by (intro mult_le_mono2) simp
      then have "(i + ?S) * 1 < 4294967296" using gs(3) by (rule le_less_trans)
      then show "i + ?S < 4294967296" by simp
      then show "?S < 4294967296" by linarith
    qed
    have nx: "unat (rm_next s + ucast (st_stride str)) = i + ?S"
      using S I(4) unat_ucast_u64_u32 [OF S(1)] by (subst u32_add_nat) auto
    have tt: "unat (rm_total s + 1) = unat (rm_total s) + 1"
      using I(3) n small u32_add_nat [of "rm_total s" 1] by simp
    let ?dest = "map_option (\<lambda>d. overwrite d (rm_doff s) (elem ?z bs k)) (rm_dest s)"
    let ?s = "s\<lparr>rm_dest := ?dest, rm_doff := (if rm_dest s = None then rm_doff s else rm_doff s + ?z),
               rm_total := rm_total s + 1, rm_next := rm_next s + ucast (st_stride str), rm_rpos := rm_rpos s + 1\<rparr>"
    have le: "length (elem ?z bs k) = ?z" using kz' by (intro length_elem) simp
    have room: "rm_doff s + ?z + length ?P1 * ?z \<le> length d" if "rm_dest s = Some d" for d
      using Suc.prems(3) that P by (simp add: algebra_simps)
    have step: "ea_remove_step str sz s = Some ?s"
    proof (cases "rm_dest s")
      case None
      then show ?thesis using I True by (cases s) (simp add: ea_remove_step_def u32_eq_nat)
    next
      case (Some d)
      then have "mem_store d (rm_doff s) (elem ?z bs k) = Some (overwrite d (rm_doff s) (elem ?z bs k))"
        using room [OF Some] le by simp
      then show ?thesis using I True ld Some by (cases s) (simp add: ea_remove_step_def u32_eq_nat)
    qed
    have inv': "rm_inv str sz bs ?l (k + 1) m (i + ?S) ?s"
      using I k1' nx tt n gs(1) S True dk
      by (simp add: rm_inv_def add.commute)
    have dd: "\<forall>d. rm_dest ?s = Some d \<longrightarrow> rm_doff ?s + length ?P1 * ?z \<le> length d"
      using room le by (cases "rm_dest s") auto
    have xk: "x = L - (k + 1)" and kL': "k + 1 \<le> L" using Suc.hyps(2) kL by simp_all
    have K: "filter (\<lambda>j. j \<notin> set ?P) [k..<L] = filter (\<lambda>j. j \<notin> set ?P1) [k + 1..<L]"
      unfolding up P by (auto intro!: filter_cong)
    from Suc.hyps(1) [OF xk inv' kL' dd] obtain s' where s': "ea_remove_loop str sz l ?s = Some s'"
      "length (rm_data s') = length bs"
      "unat (rm_total s') = unat (rm_total s + 1) + length ?P1"
      "unat (rm_wpos s') = unat (rm_wpos s) + length (filter (\<lambda>j. j \<notin> set ?P1) [k + 1..<L])"
      "take (unat (rm_wpos s') * ?z) (rm_data s') = take (unat (rm_wpos s) * ?z) (rm_data s) @
         concat (map (elem ?z bs) (filter (\<lambda>j. j \<notin> set ?P1) [k + 1..<L]))"
      "rm_dest s' = map_option (\<lambda>d. overwrite d (rm_doff ?s) (concat (map (elem ?z bs) ?P1))) ?dest"
      by (auto simp: Let_def)
    have "rm_dest s' = map_option (\<lambda>d. overwrite d (rm_doff s) (concat (map (elem ?z bs) ?P))) (rm_dest s)"
    proof (cases "rm_dest s")
      case (Some d)
      have "length (concat (map (elem ?z bs) ?P1)) = length ?P1 * ?z"
        using length_spec_read [of ?P1 ?z bs] visits_range [of _ m "i + ?S" ?S ?z ?l] len
        by (force simp: spec_read_def)
      then have "overwrite (overwrite d (rm_doff s) (elem ?z bs k)) (rm_doff s + length (elem ?z bs k)) (concat (map (elem ?z bs) ?P1))
          = overwrite d (rm_doff s) (elem ?z bs k @ concat (map (elem ?z bs) ?P1))"
        using room [OF Some] le by (intro overwrite_overwrite) simp
      then show ?thesis using s'(6) Some P le by simp
    qed (use s'(6) in simp)
    then show ?thesis
      using go step s' tt K P by (subst ea_remove_loop.simps) (simp add: Let_def)
  next
    case False
    have kP: "k \<notin> set ?P"
      using False I(5) visits_notin [of k i n ?S ?z ?l] by (cases n) auto
    have nr: "\<not> (unat (rm_total s) < unat (st_nelems str) \<and> rm_rpos s = rm_next s)"
      using False I by (auto simp: u32_eq_nat)
    let ?w = "unat (rm_wpos s)"
    let ?d = "if ?w = k then rm_data s else overwrite (rm_data s) (?w * ?z) (take ?z (drop (k * ?z) (rm_data s)))"
    note keep = keep_step [OF I(7,8,2) kz'(1)]
    let ?s = "s\<lparr>rm_data := ?d, rm_wpos := rm_wpos s + 1, rm_rpos := rm_rpos s + 1\<rparr>"
    have w1: "unat (rm_wpos s + 1) = ?w + 1"
      using k1 I(2) u32_add_nat [of "rm_wpos s" 1] by simp
    have lx: "length (take ?z (drop (k * ?z) (rm_data s))) = ?z" using kz' I(7) by simp
    have st: "mem_store (rm_data s) (?w * ?z) (take ?z (drop (k * ?z) (rm_data s))) =
        Some (overwrite (rm_data s) (?w * ?z) (take ?z (drop (k * ?z) (rm_data s))))"
      by (rule mem_store_ok) (unfold lx, use wle kz' I(7) in linarith)
    have "(if rm_wpos s \<noteq> rm_rpos s
           then do { b \<leftarrow> mem_load (rm_data s) (unat (rm_rpos s * sz)) ?z; mem_store (rm_data s) (unat (rm_wpos s * sz)) b }
           else Some (rm_data s)) = Some ?d"
      using rp wp st kz' I(1,7) by (auto simp: u32_eq_nat)
    then have step: "ea_remove_step str sz s = Some ?s"
      unfolding ea_remove_step_def if_not_P [OF nr] by (cases s) (simp split del: if_split)
    have inv': "rm_inv str sz bs ?l (k + 1) n i ?s"
      using I k1' w1 keep False by (cases n) (auto simp: rm_inv_def add.commute)
    have dd: "\<forall>d. rm_dest ?s = Some d \<longrightarrow> rm_doff ?s + length ?P * ?z \<le> length d"
      using Suc.prems(3) by simp
    have xk: "x = L - (k + 1)" and kL': "k + 1 \<le> L" using Suc.hyps(2) kL by simp_all
    have K: "filter (\<lambda>j. j \<notin> set ?P) [k..<L] = k # filter (\<lambda>j. j \<notin> set ?P) [k + 1..<L]"
      unfolding up using kP by simp
    from Suc.hyps(1) [OF xk inv' kL' dd] obtain s' where s': "ea_remove_loop str sz l ?s = Some s'"
      "length (rm_data s') = length bs"
      "unat (rm_total s') = unat (rm_total s) + length ?P"
      "unat (rm_wpos s') = ?w + 1 + length (filter (\<lambda>j. j \<notin> set ?P) [k + 1..<L])"
      "take (unat (rm_wpos s') * ?z) (rm_data s') = take ((?w + 1) * ?z) ?d @
         concat (map (elem ?z bs) (filter (\<lambda>j. j \<notin> set ?P) [k + 1..<L]))"
      "rm_dest s' = map_option (\<lambda>d. overwrite d (rm_doff s) (concat (map (elem ?z bs) ?P))) (rm_dest s)"
      using w1 by (auto simp: Let_def)
    have "take ((?w + 1) * ?z) ?d = take (?w * ?z) (rm_data s) @ elem ?z bs k"
      using keep(3) by (simp add: add.commute)
    then show ?thesis
      using go step s' K by (subst ea_remove_loop.simps) (simp add: Let_def)
  qed
qed

lemma ext_array_remove_ok:
  assumes wf: "ea_wf r" and a: "access_ok str sz (unat (ea_len r))" and mult: "unat (ea_len r) mod unat sz = 0"
    and dest: "\<forall>d. dest = Some d \<longrightarrow> length (places str sz (unat (ea_len r))) * unat sz \<le> length d"
  shows "\<exists>r'. ext_array_remove r str sz dest =
     Some (int (length (places str sz (unat (ea_len r)))),
           map_option (\<lambda>d. overwrite d 0 (spec_read (unat sz) (places str sz (unat (ea_len r))) (ea_bytes r))) dest, r') \<and>
     ea_wf r' \<and> ea_bytes r' = spec_remove (unat sz) (places str sz (unat (ea_len r))) (ea_bytes r)"
proof -
  let ?z = "unat sz" and ?l = "unat (ea_len r)" and ?V = "places str sz (unat (ea_len r))"
  define L where "L = ?l div ?z"
  have len: "?l = L * ?z" using mult by (auto simp: L_def)
  note g = access_start(1) [OF a]
  have z: "0 < ?z" "0 < unat (st_stride str)" using a by (auto simp: access_ok_def)
  have small: "unat (st_nelems str) < 4294967296" using go_okD(2) [OF g] .
  have "(unat (st_start str) + 1) * 1 \<le> (unat (st_start str) + 1) * ?z" using z by (intro mult_le_mono2) simp
  then have "(unat (st_start str) + 1) * 1 < 4294967296" using go_okD(1) [OF g] by (rule le_less_trans)
  then have st: "unat (st_start str) < 4294967296" by simp
  let ?s = "\<lparr>rm_total = 0, rm_wpos = 0, rm_rpos = 0, rm_next = ucast (st_start str),
               rm_data = ea_obj r, rm_dest = dest, rm_doff = 0\<rparr>"
  have inv: "rm_inv str sz (ea_obj r) ?l 0 (unat (st_nelems str)) (unat (st_start str)) ?s"
    using g unat_ucast_u64_u32 [OF st] by (simp add: rm_inv_def)
  have cap: "?l \<le> length (ea_obj r)" using wf by (simp add: ea_wf_def word_le_nat_alt)
  have dd: "\<forall>d. rm_dest ?s = Some d \<longrightarrow> rm_doff ?s +
      length (visits (unat (st_nelems str)) (unat (st_start str)) (unat (st_stride str)) ?z ?l) * ?z \<le> length d"
    using dest by (simp add: places_def)
  let ?K = "filter (\<lambda>j. j \<notin> set ?V) [0..<L]"
  from ea_remove_loop_ok [OF len cap small inv _ dd] obtain s' where
    s': "ea_remove_loop str sz (ea_len r) ?s = Some s'" "length (rm_data s') = length (ea_obj r)"
      "unat (rm_total s') = length ?V" "unat (rm_wpos s') = length ?K"
      "take (length ?K * ?z) (rm_data s') = concat (map (elem ?z (ea_obj r)) ?K)"
      "rm_dest s' = map_option (\<lambda>d. overwrite d 0 (concat (map (elem ?z (ea_obj r)) ?V))) dest"
    by (auto simp: Let_def places_def)
  have el: "elem ?z (ea_bytes r) j = elem ?z (ea_obj r) j" if "(j + 1) * ?z \<le> ?l" for j
    using elem_bytes [OF that] by (simp add: ea_bytes_def)
  have V: "concat (map (elem ?z (ea_obj r)) ?V) = spec_read ?z ?V (ea_bytes r)"
    unfolding spec_read_def using el places_range by (intro arg_cong [of _ _ concat] map_cong) auto
  have inL: "(j + 1) * ?z \<le> ?l" if "j < L" for j
    using that len by (metis Suc_eq_plus1 Suc_leI mult_le_mono1)
  have K: "concat (map (elem ?z (ea_obj r)) ?K) = spec_remove ?z ?V (ea_bytes r)"
    unfolding spec_remove_def using el inL wf by (intro arg_cong [of _ _ concat] map_cong) (auto simp: L_def)
  have "length ?K \<le> L" using length_filter_le [of _ "[0..<L]"] by simp
  then have kz: "length ?K * ?z \<le> ?l" using len by (simp add: mult_le_mono1)
  have wz: "unat (rm_wpos s' * sz) = length ?K * ?z"
    using s'(4) u32_fits [OF kz] by (subst u32_mult_nat) simp_all
  let ?r' = "r\<lparr>ea_data := map_option (\<lambda>_. rm_data s') (ea_data r), ea_len := rm_wpos s' * sz\<rparr>"
  have ob: "ea_obj ?r' = rm_data s'"
    using s'(2) by (cases "ea_data r") (simp_all add: ea_obj_def)
  have "ea_wf ?r'"
    using wf s'(2) kz wz ob by (auto simp: ea_wf_def word_le_nat_alt)
  moreover have "ea_bytes ?r' = spec_remove ?z ?V (ea_bytes r)"
    using ob s'(5) wz K by (simp add: ea_bytes_def)
  moreover have "ext_array_remove r str sz dest = Some (int (length ?V),
      map_option (\<lambda>d. overwrite d 0 (spec_read ?z ?V (ea_bytes r))) dest, ?r')"
    using s' V arg_cong [OF s'(3), of int] by (simp add: ext_array_remove_def)
  ultimately show ?thesis by blast
qed

section \<open>The contract\<close>

interpretation ea: byte_store "\<lambda>os. libc_ok os \<and> libc_total os" ext_array_data_writer ea_wf ea_bytes "\<lambda>n. int (unat n)"
proof (unfold_locales, goal_cases)
  case (1 c os e)
  then show ?case
    by (simp add: ext_array_data_writer_def ext_array_get_len_def sint_ucast_u32_u64)
next
  case (2 c str sz dest os e)
  then show ?case using ext_array_read_ok [of c str sz dest] by (simp add: ext_array_data_writer_def)
next
  case (3 c str sz src os e)
  then show ?case
    using ext_array_write_ok [of c str sz src] by (fastforce simp: ext_array_data_writer_def)
next
  case (4 c str sz dst os e)
  then show ?case
    using ext_array_remove_ok [of c str sz dst] by (fastforce simp: ext_array_data_writer_def)
next
  case (5 os c ofst slen src er)
  then have "ofst \<le> ea_len c" by (simp add: word_le_nat_alt)
  with ext_array_insert_ok [of os c ofst slen src er] 5 obtain r' where
    "ext_array_insert os c ofst src slen (Some er) = Some (int (unat slen), r', Some er)" "ea_wf r'"
    "ea_bytes r' = spec_insert (unat ofst) (take (unat slen) src) (ea_bytes c)"
    by auto
  then show ?case
    using 5 by (simp add: ext_array_data_writer_def ext_array_insert_func_def sint_small_u32)
qed

section \<open>Properties\<close>

text \<open>
  C10. Insertion into the growable array either splices the source bytes in at the offset,
  leaving the bytes before and after it as they were, or reports an error and leaves the
  contents as they were.
\<close>

theorem ext_array_insert_splices:
  assumes "libc_ok os" and "ea_wf r" and "ofst \<le> ea_len r" and "unat slen \<le> length src"
    and "2 * (unat (ea_len r) + unat slen) < 4294967296"
  shows "\<exists>n r' e'. ext_array_insert os r ofst src slen (Some er) = Some (n, r', e') \<and> ea_wf r' \<and>
     (n = int (unat slen) \<and> e' = Some er \<and>
        ea_bytes r' = take (unat ofst) (ea_bytes r) @ take (unat slen) src @ drop (unat ofst) (ea_bytes r) \<or>
      pending e' \<and> ea_bytes r' = ea_bytes r)"
  using ext_array_insert_ok [OF assms, of er] by (auto simp: spec_insert_def)

definition ea3 :: ext_array where
  "ea3 = \<lparr>ea_data = Some [1, 2, 3, 0], ea_len = 3, ea_cap = 4\<rparr>"

lemma ea3_wf [simp]: "ea_wf ea3" "ea_len ea3 = 3" "ea_bytes ea3 = [1, 2, 3]"
  by (simp_all add: ea3_def ea_wf_def ea_obj_def ea_bytes_def)

theorem ext_array_insert_splices_witness:
  "\<exists>n r' e'. ext_array_insert libc_ample ea3 1 [8, 9] 2 (Some error_create) = Some (n, r', e') \<and> ea_wf r' \<and>
     (n = 2 \<and> e' = Some error_create \<and> ea_bytes r' = [1, 8, 9, 2, 3] \<or> pending e' \<and> ea_bytes r' = [1, 2, 3])"
  using ext_array_insert_splices [of libc_ample ea3 1 2 "[8, 9]" error_create] by simp

text \<open>
  C9. A strided removal visits exactly the elements of the stride that lie in the array,
  hands them out in order, and closes the gaps: the elements that are not visited keep
  their order.
\<close>

theorem ext_array_remove_compacts:
  assumes "ea_wf r" and "access_ok str sz (unat (ea_len r))" and "unat (ea_len r) mod unat sz = 0"
    and "length (places str sz (unat (ea_len r))) * unat sz \<le> length d"
  shows "\<exists>r'. ext_array_remove r str sz (Some d) =
     Some (int (length (places str sz (unat (ea_len r)))),
           Some (overwrite d 0 (concat (map (elem (unat sz) (ea_bytes r)) (places str sz (unat (ea_len r)))))), r') \<and>
     ea_wf r' \<and>
     ea_bytes r' = concat (map (elem (unat sz) (ea_bytes r))
       (filter (\<lambda>k. k \<notin> set (places str sz (unat (ea_len r)))) [0..<unat (ea_len r) div unat sz]))"
  using ext_array_remove_ok [of r str sz "Some d"] assms by (simp add: spec_remove_def spec_read_def)

theorem ext_array_remove_compacts_witness:
  "\<exists>r'. ext_array_remove ea3 stride_every_other 1 (Some [0, 0]) = Some (2, Some [1, 3], r') \<and> ea_bytes r' = [2]"
proof -
  have "filter (\<lambda>k. k \<notin> {0, 2}) [0..<3] = [1 :: nat]" by (simp add: upt_rec)
  then show ?thesis
    using ext_array_remove_compacts [of ea3 stride_every_other 1 "[0, 0]"]
    by (auto simp: elem_def overwrite_def)
qed

text \<open>
  Through the table of functions, bytes just inserted into the growable array are what
  a read of that range returns, provided the allocator serves the request.
\<close>

theorem ext_array_insert_then_read:
  assumes "libc_ok os \<and> libc_total os" and "ea_wf c" and "unat ofst \<le> length (ea_bytes c)" and "0 < unat slen"
    and "unat slen \<le> length src" and "2 * (length (ea_bytes c) + unat slen) + 1 < 4294967296"
    and "unat slen \<le> length dest"
  shows "\<exists>c'. dw_insert (ext_array_data_writer os) c ofst src slen (Some er) = Some (int (unat slen), c', Some er) \<and>
    dw_read (ext_array_data_writer os) c' \<lparr>st_start = ucast ofst, st_stride = 1, st_nelems = ucast slen\<rparr> 1 dest e =
      Some (int (unat slen), overwrite dest 0 (take (unat slen) src), c', e)"
  by (rule ea.insert_then_read [OF assms])

theorem ext_array_insert_then_read_witness:
  "\<exists>c'. dw_insert (ext_array_data_writer libc_ample) ea3 1 [8, 9] 2 (Some error_create) = Some (2, c', Some error_create) \<and>
    dw_read (ext_array_data_writer libc_ample) c' \<lparr>st_start = 1, st_stride = 1, st_nelems = 2\<rparr> 1 [0, 0] None =
      Some (2, [8, 9], c', None)"
  using ext_array_insert_then_read [of libc_ample ea3 1 2 "[8, 9]" "[0, 0]" error_create None]
  by (simp add: overwrite_def)

text \<open>
  Through the table of functions, the elements a strided write stored are what a read
  with the same stride returns.
\<close>

theorem ext_array_write_then_read:
  assumes "ea_wf c" and "access_ok str sz (length (ea_bytes c))" and "length (ea_bytes c) mod unat sz = 0"
    and "length (places str sz (length (ea_bytes c))) * unat sz \<le> length src"
    and "length (places str sz (length (ea_bytes c))) * unat sz \<le> length dest"
  shows "\<exists>c'. dw_write (ext_array_data_writer os) c str sz src e =
      Some (int (length (places str sz (length (ea_bytes c)))), c', e) \<and>
    dw_read (ext_array_data_writer os) c' str sz dest e =
      Some (int (length (places str sz (length (ea_bytes c)))),
            overwrite dest 0 (take (length (places str sz (length (ea_bytes c))) * unat sz) src), c', e)"
  by (rule ea.write_then_read [OF assms])

theorem ext_array_write_then_read_witness:
  "\<exists>c'. dw_write (ext_array_data_writer libc_ample) ea3 stride_every_other 1 [7, 8] None = Some (2, c', None) \<and>
    dw_read (ext_array_data_writer libc_ample) c' stride_every_other 1 [0, 0] None = Some (2, [7, 8], c', None)"
  using ext_array_write_then_read [of ea3 stride_every_other 1 "[7, 8]" "[0, 0]" libc_ample None]
  by (simp add: overwrite_def)

end
