(* ===== verification/Slot_pool.thy ===== *)
theory Slot_pool
  imports Cerror
begin

text \<open>
  The contract of a pool of equal slots: \<open>get\<close> hands out a slot that nobody holds or
  reports that there is none, \<open>put\<close> takes back a slot that is held, and the holder may
  write anything into a slot. The client theorem: whatever a client does that only frees
  and writes slots it holds, no operation of the pool fails and no slot is held twice.
\<close>

text \<open>The steps of a client that holds the slots \<open>H\<close>.\<close>

inductive pool_step ::
  "('o \<Rightarrow> bool) \<Rightarrow> ('o \<Rightarrow> 's \<Rightarrow> errp \<Rightarrow> ('p option \<times> 's \<times> errp) option) \<Rightarrow> ('s \<Rightarrow> 'p \<Rightarrow> 's option) \<Rightarrow>
   ('s \<Rightarrow> 'p \<Rightarrow> 'p option \<Rightarrow> 's) \<Rightarrow> 's \<times> 'p set \<Rightarrow> 's \<times> 'p set \<Rightarrow> bool"
  for env get put poke where
  step_get: "env os \<Longrightarrow> get os s e = Some (Some p, s', e') \<Longrightarrow> pool_step env get put poke (s, H) (s', insert p H)"
| step_full: "env os \<Longrightarrow> get os s e = Some (None, s', e') \<Longrightarrow> pool_step env get put poke (s, H) (s', H)"
| step_put: "p \<in> H \<Longrightarrow> put s p = Some s' \<Longrightarrow> pool_step env get put poke (s, H) (s', H - {p})"
| step_poke: "p \<in> H \<Longrightarrow> pool_step env get put poke (s, H) (poke s p w, H)"

inductive_cases pool_stepE: "pool_step env get put poke (s, H) (s', H')"

locale slot_pool =
  fixes env :: "'o \<Rightarrow> bool"
    and pinv :: "'s \<Rightarrow> 'p set \<Rightarrow> bool"
    and get :: "'o \<Rightarrow> 's \<Rightarrow> errp \<Rightarrow> ('p option \<times> 's \<times> errp) option"
    and put :: "'s \<Rightarrow> 'p \<Rightarrow> 's option"
    and poke :: "'s \<Rightarrow> 'p \<Rightarrow> 'p option \<Rightarrow> 's"
  assumes get_law: "env os \<Longrightarrow> pinv s H \<Longrightarrow> \<exists>r s' e'. get os s e = Some (r, s', e') \<and> (r \<noteq> None \<longrightarrow> e' = e) \<and>
      (case r of None \<Rightarrow> pinv s' H | Some p \<Rightarrow> p \<notin> H \<and> pinv s' (insert p H))"
    and put_law: "pinv s H \<Longrightarrow> p \<in> H \<Longrightarrow> \<exists>s'. put s p = Some s' \<and> pinv s' (H - {p})"
    and poke_law: "pinv s H \<Longrightarrow> p \<in> H \<Longrightarrow> pinv (poke s p w) H"
begin

lemma step_inv:
  assumes "pool_step env get put poke (s, H) (s', H')" and "pinv s H"
  shows "pinv s' H'"
  using assms(1)
proof (rule pool_stepE)
  fix os e p e'
  assume "H' = insert p H" and "env os" and "get os s e = Some (Some p, s', e')"
  then show ?thesis using get_law [OF _ assms(2), of os e] by auto
next
  fix os e e'
  assume "H' = H" and "env os" and "get os s e = Some (None, s', e')"
  then show ?thesis using get_law [OF _ assms(2), of os e] by auto
next
  fix p
  assume "H' = H - {p}" and "p \<in> H" and "put s p = Some s'"
  then show ?thesis using put_law [OF assms(2), of p] by auto
next
  fix p w
  assume "H = H'" and "s' = poke s p w" and "p \<in> H'"
  then show ?thesis using poke_law [OF assms(2)] by auto
qed

lemma reachable_inv: "(pool_step env get put poke)\<^sup>*\<^sup>* (s, H) (s', H') \<Longrightarrow> pinv s H \<Longrightarrow> pinv s' H'"
proof (induction "(s', H')" arbitrary: s' H' rule: rtranclp_induct)
  case (step y)
  then show ?case using step_inv by (cases y) blast
qed

text \<open>In every state a client can reach, a request is answered, by a slot nobody holds, and
  a held slot can be returned.\<close>

lemma reachable_get:
  assumes "(pool_step env get put poke)\<^sup>*\<^sup>* (s, H) (s', H')" and "pinv s H" and "env os"
  shows "\<exists>r s'' e'. get os s' e = Some (r, s'', e') \<and> (\<forall>p. r = Some p \<longrightarrow> p \<notin> H')"
  using get_law [OF assms(3) reachable_inv [OF assms(1,2)], of e] by (auto split: option.splits)

lemma reachable_put:
  assumes "(pool_step env get put poke)\<^sup>*\<^sup>* (s, H) (s', H')" and "pinv s H" and "p \<in> H'"
  shows "\<exists>s''. put s' p = Some s''"
  using put_law [OF reachable_inv [OF assms(1,2)] assms(3)] by blast

end

text \<open>With a heap that always has room, a request is never refused.\<close>

locale ample_pool = slot_pool +
  fixes ample :: "'a \<Rightarrow> bool"
  assumes ample_law: "env os \<Longrightarrow> ample os \<Longrightarrow> pinv s H \<Longrightarrow> get os s e \<noteq> Some (None, s', e')"
begin

lemma get_granted:
  assumes "env os" and "ample os" and "pinv s H"
  shows "\<exists>p s'. get os s e = Some (Some p, s', e) \<and> p \<notin> H \<and> pinv s' (insert p H)"
proof -
  from get_law [OF assms(1,3), of e] obtain r s' e' where r: "get os s e = Some (r, s', e')"
    "r \<noteq> None \<longrightarrow> e' = e" "case r of None \<Rightarrow> pinv s' H | Some p \<Rightarrow> p \<notin> H \<and> pinv s' (insert p H)"
    by blast
  then show ?thesis using ample_law [OF assms, of e s' e'] by (cases r) auto
qed

end

end
