(* ===== verification/Slab_alloc.thy ===== *)
theory Slab_alloc
  imports Slot_pool Osmem
begin

text \<open>
  The slab allocator of \<^verbatim>\<open>memory/slab_alloc.c\<close>. A pointer is the address of the slab
  it points into and an offset into the slab's \<open>data\<close>. The doubly linked list of slabs is a
  list, head first; the free list is threaded through the first word of the free slots, so
  it lives in the same memory that the holders of slots write to. The lock is not modelled:
  an operation is one step.
\<close>

section \<open>State and operations\<close>

type_synonym slot = "nat \<times> nat"

record slab =
  sl_addr :: nat
  sl_freelist :: "slot option"
  sl_used :: u32
  sl_total_size :: u32

text \<open>
  \<open>sa_word\<close> is the memory: the pointer-sized word at each slot. \<open>sa_fresh\<close> is the address
  the C allocator gives out next.
\<close>

record slab_alloc =
  sa_slabs :: "slab list"
  sa_current :: "nat option"
  sa_size :: u32
  sa_cap_per_slab :: u32
  sa_word :: "slot \<Rightarrow> slot option"
  sa_fresh :: nat

definition sizeof_slab :: u32 where "sizeof_slab = 32"

definition slab_alloc_init :: "u32 \<Rightarrow> u32 \<Rightarrow> slab_alloc option" where
  "slab_alloc_init sz cap_per_slab =
     do {
       ASSERT (sz \<ge> 8);
       ASSERT (cap_per_slab > 0);
       let aligned = ucast (and (ucast sz + 8 - 1 :: u64) (not (8 - 1)));
       Some \<lparr>sa_slabs = [], sa_current = None, sa_size = aligned, sa_cap_per_slab = cap_per_slab,
             sa_word = (\<lambda>_. None), sa_fresh = 0\<rparr>
     }"

definition slab_alloc_destroy :: "slab_alloc \<Rightarrow> slab_alloc" where
  "slab_alloc_destroy a = a\<lparr>sa_slabs := [], sa_current := None\<rparr>"

text \<open>\<open>*(void **)p = w\<close> for a slot of a slab whose data area has \<open>room\<close> bytes.\<close>

definition store_word :: "nat \<Rightarrow> slot \<Rightarrow> slot option \<Rightarrow> (slot \<Rightarrow> slot option) \<Rightarrow> (slot \<Rightarrow> slot option) option" where
  "store_word room p w m = (if snd p + 8 \<le> room then Some (m(p := w)) else None)"

function link_freelist ::
  "nat \<Rightarrow> nat \<Rightarrow> u32 \<Rightarrow> u32 \<Rightarrow> u32 \<Rightarrow> nat \<Rightarrow> (slot \<Rightarrow> slot option) \<Rightarrow> (nat \<times> (slot \<Rightarrow> slot option)) option" where
  "link_freelist room s sz lim i cur m =
     (if i < lim
      then do {
        let nxt = cur + unat sz;
        m' \<leftarrow> store_word room (s, cur) (Some (s, nxt)) m;
        link_freelist room s sz lim (i + 1) nxt m'
      }
      else Some (cur, m))"
  by pat_completeness auto

termination
proof (relation "measure (\<lambda>(room, s, sz, lim, i, cur, m). unat lim - unat i)", goal_cases)
  case (2 room s sz lim i cur m nxt m')
  then have "i < lim" and "unat i < unat lim" by (simp_all add: word_less_nat_alt)
  then show ?case by (simp add: u32_inc)
qed simp

declare link_freelist.simps [simp del]

definition slab_alloc_extend :: "libc \<Rightarrow> slab_alloc \<Rightarrow> errp \<Rightarrow> (slab option \<times> slab_alloc \<times> errp) option" where
  "slab_alloc_extend os a e =
     do {
       let data_size = sa_size a * sa_cap_per_slab a;
       let total_size = data_size + sizeof_slab;
       (blk, e') \<leftarrow> i_malloc os 1 total_size e;
       case blk of
         None \<Rightarrow> Some (None, a, e')
       | Some bs \<Rightarrow>
           do {
             let s = sa_fresh a;
             let room = length bs - unat sizeof_slab;
             (cur, m) \<leftarrow> link_freelist room s (sa_size a) (sa_cap_per_slab a - 1) 0 0 (sa_word a);
             m' \<leftarrow> store_word room (s, cur) None m;
             let slab = \<lparr>sl_addr = s, sl_freelist = Some (s, 0), sl_used = 0, sl_total_size = total_size\<rparr>;
             Some (Some slab, a\<lparr>sa_slabs := slab # sa_slabs a, sa_word := m', sa_fresh := s + 1\<rparr>, e')
           }
     }"

text \<open>The slab at an address; \<open>None\<close> when no live slab is there.\<close>

definition slab_at :: "slab_alloc \<Rightarrow> nat \<Rightarrow> slab option" where
  "slab_at a i = find (\<lambda>s. sl_addr s = i) (sa_slabs a)"

definition slab_put :: "slab_alloc \<Rightarrow> slab \<Rightarrow> slab_alloc" where
  "slab_put a s = a\<lparr>sa_slabs := map (\<lambda>t. if sl_addr t = sl_addr s then s else t) (sa_slabs a)\<rparr>"

text \<open>\<open>ret = s->freelist; s->freelist = *(void **)ret; s->used++\<close>\<close>

definition pop_slot :: "slab_alloc \<Rightarrow> slab \<Rightarrow> (slot \<times> slab_alloc) option" where
  "pop_slot a s =
     do {
       ret \<leftarrow> sl_freelist s;
       Some (ret, slab_put a (s\<lparr>sl_freelist := sa_word a ret, sl_used := sl_used s + 1\<rparr>))
     }"

text \<open>The slab \<open>alloc->current\<close> points to, if it is set.\<close>

definition current_slab :: "slab_alloc \<Rightarrow> slab option option" where
  "current_slab a =
     (case sa_current a of
        None \<Rightarrow> Some None
      | Some i \<Rightarrow> do { s \<leftarrow> slab_at a i; Some (Some s) })"

definition slab_alloc_alloc :: "libc \<Rightarrow> slab_alloc \<Rightarrow> errp \<Rightarrow> (slot option \<times> slab_alloc \<times> errp) option" where
  "slab_alloc_alloc os a e =
     do {
       cur \<leftarrow> current_slab a;
       case (case cur of None \<Rightarrow> None | Some s \<Rightarrow> if sl_freelist s \<noteq> None then Some s else None) of
         Some s \<Rightarrow>
           do { (ret, a') \<leftarrow> pop_slot a s; Some (Some ret, a', e) }
       | None \<Rightarrow>
           do {
             (found, a1, e1) \<leftarrow>
               (case find (\<lambda>s. sl_freelist s \<noteq> None) (sa_slabs a) of
                  Some s \<Rightarrow> Some (Some s, a, e)
                | None \<Rightarrow> slab_alloc_extend os a e);
             case found of
               None \<Rightarrow> Some (None, a1, e1)
             | Some s \<Rightarrow>
                 do {
                   (ret, a2) \<leftarrow> pop_slot (a1\<lparr>sa_current := Some (sl_addr s)\<rparr>) s;
                   Some (Some ret, a2, e1)
                 }
           }
     }"

definition slab_contains :: "slab_alloc \<Rightarrow> slab \<Rightarrow> slot \<Rightarrow> bool" where
  "slab_contains a s p \<longleftrightarrow> fst p = sl_addr s \<and> snd p < unat (sa_cap_per_slab a * sa_size a)"

definition slab_from_ptr :: "slab_alloc \<Rightarrow> slot \<Rightarrow> slab option" where
  "slab_from_ptr a p =
     do {
       cur \<leftarrow> current_slab a;
       case (case cur of None \<Rightarrow> None | Some s \<Rightarrow> if slab_contains a s p then Some s else None) of
         Some s \<Rightarrow> Some s
       | None \<Rightarrow>
           (case find (\<lambda>s. slab_contains a s p) (sa_slabs a) of
              Some s \<Rightarrow> Some s
            | None \<Rightarrow> UNREACHABLE)
     }"

text \<open>The slab becomes the cached one when the cached one is missing or full.\<close>

definition slab_update_current :: "slab_alloc \<Rightarrow> slab \<Rightarrow> slab_alloc option" where
  "slab_update_current a s =
     do {
       cur \<leftarrow> current_slab a;
       Some (if (case cur of None \<Rightarrow> True | Some c \<Rightarrow> sl_freelist c = None)
             then a\<lparr>sa_current := Some (sl_addr s)\<rparr> else a)
     }"

text \<open>An empty slab that is not the only one is unlinked and given back.\<close>

definition slab_reclaim :: "slab_alloc \<Rightarrow> slab \<Rightarrow> slab_alloc" where
  "slab_reclaim a s =
     (if sl_used s = 0 \<and> length (sa_slabs a) > 1
      then let a' = (if sa_current a = Some (sl_addr s) then a\<lparr>sa_current := None\<rparr> else a) in
           a'\<lparr>sa_slabs := filter (\<lambda>t. sl_addr t \<noteq> sl_addr s) (sa_slabs a')\<rparr>
      else a)"

definition slab_alloc_free :: "slab_alloc \<Rightarrow> slot \<Rightarrow> slab_alloc option" where
  "slab_alloc_free a p =
     do {
       s \<leftarrow> slab_from_ptr a p;
       ASSERT (sl_used s > 0);
       m \<leftarrow> store_word (unat (sl_total_size s) - unat sizeof_slab) p (sl_freelist s) (sa_word a);
       let s' = s\<lparr>sl_freelist := Some p, sl_used := sl_used s - 1\<rparr>;
       a' \<leftarrow> slab_update_current (slab_put (a\<lparr>sa_word := m\<rparr>) s') s';
       Some (slab_reclaim a' s')
     }"

text \<open>A write of the holder of a slot to its first word.\<close>

definition slot_poke :: "slab_alloc \<Rightarrow> slot \<Rightarrow> slot option \<Rightarrow> slab_alloc" where
  "slot_poke a p w = a\<lparr>sa_word := (sa_word a)(p := w)\<rparr>"

section \<open>The free lists\<close>

fun free_chain :: "(slot \<Rightarrow> slot option) \<Rightarrow> slot option \<Rightarrow> slot list \<Rightarrow> bool" where
  "free_chain w p [] \<longleftrightarrow> p = None"
| "free_chain w p (q # qs) \<longleftrightarrow> p = Some q \<and> free_chain w (w q) qs"

lemma free_chain_cong: "(\<And>q. q \<in> set fl \<Longrightarrow> w q = w' q) \<Longrightarrow> free_chain w p fl = free_chain w' p fl"
  by (induction fl arbitrary: p) auto

lemma free_chain_None [simp]: "free_chain w None fl \<longleftrightarrow> fl = []"
  by (cases fl) auto

lemma free_chain_Some: "free_chain w (Some q) fl \<longleftrightarrow> (\<exists>qs. fl = q # qs \<and> free_chain w (w q) qs)"
  by (cases fl) auto

definition slots :: "nat \<Rightarrow> nat \<Rightarrow> nat \<Rightarrow> slot set" where
  "slots sz cap i = (\<lambda>k. (i, k * sz)) ` {..<cap}"

definition held :: "slot set \<Rightarrow> nat \<Rightarrow> slot set" where
  "held H i = {p \<in> H. fst p = i}"

lemma held_insert: "held (insert p H) i = (if fst p = i then insert p (held H i) else held H i)"
  by (auto simp: held_def)

lemma held_remove: "held (H - {p}) i = held H i - {p}"
  by (auto simp: held_def)

lemma finite_slots [simp]: "finite (slots sz cap i)"
  by (simp add: slots_def)

lemma slots_fst: "p \<in> slots sz cap i \<Longrightarrow> fst p = i"
  by (auto simp: slots_def)

lemma slots_room: "p \<in> slots sz cap i \<Longrightarrow> snd p + sz \<le> cap * sz"
  by (auto simp: slots_def) (metis Suc_leI add.commute mult_Suc mult_le_mono1)

text \<open>
  A slab of \<open>cap\<close> slots of \<open>sz\<close> bytes: each slot is either held or on the free list, once,
  and \<open>used\<close> counts the held ones.
\<close>

definition slab_ok :: "nat \<Rightarrow> nat \<Rightarrow> (slot \<Rightarrow> slot option) \<Rightarrow> slot set \<Rightarrow> slab \<Rightarrow> bool" where
  "slab_ok sz cap w H s \<longleftrightarrow>
     (\<exists>fl. free_chain w (sl_freelist s) fl \<and> distinct fl \<and> set fl \<union> held H (sl_addr s) = slots sz cap (sl_addr s) \<and>
           set fl \<inter> H = {}) \<and>
     unat (sl_used s) = card (held H (sl_addr s)) \<and> unat (sl_total_size s) = cap * sz + 32"

lemma held_slots: "slab_ok sz cap w H s \<Longrightarrow> held H (sl_addr s) \<subseteq> slots sz cap (sl_addr s)"
  unfolding slab_ok_def by blast

definition addrs :: "slab_alloc \<Rightarrow> nat list" where
  "addrs a = map sl_addr (sa_slabs a)"

definition slab_inv :: "slab_alloc \<Rightarrow> slot set \<Rightarrow> bool" where
  "slab_inv a H \<longleftrightarrow>
     8 \<le> unat (sa_size a) \<and> 0 < unat (sa_cap_per_slab a) \<and>
     unat (sa_cap_per_slab a) * unat (sa_size a) + 32 < 4294967296 \<and>
     distinct (addrs a) \<and> (\<forall>i\<in>set (addrs a). i < sa_fresh a) \<and>
     (\<forall>i. sa_current a = Some i \<longrightarrow> i \<in> set (addrs a)) \<and>
     (\<forall>s\<in>set (sa_slabs a). slab_ok (unat (sa_size a)) (unat (sa_cap_per_slab a)) (sa_word a) H s) \<and>
     fst ` H \<subseteq> set (addrs a)"

lemma slab_ok_other:
  assumes "slab_ok sz cap w H s" and "\<And>p. fst p = sl_addr s \<Longrightarrow> w' p = w p"
    and "\<And>p. fst p = sl_addr s \<Longrightarrow> p \<in> H' \<longleftrightarrow> p \<in> H"
  shows "slab_ok sz cap w' H' s"
proof -
  have h: "held H' (sl_addr s) = held H (sl_addr s)" using assms(3) by (auto simp: held_def)
  from assms(1) obtain fl where fl: "free_chain w (sl_freelist s) fl" "distinct fl"
    "set fl \<union> held H (sl_addr s) = slots sz cap (sl_addr s)" "set fl \<inter> H = {}"
    by (auto simp: slab_ok_def)
  have f: "fst p = sl_addr s" if "p \<in> set fl" for p using fl(3) that slots_fst by blast
  have "free_chain w' (sl_freelist s) fl" using fl(1) f assms(2) by (subst free_chain_cong [of _ w' w]) auto
  moreover have "set fl \<inter> H' = {}" using fl(4) f assms(3) by blast
  ultimately show ?thesis using assms(1) fl h unfolding slab_ok_def by metis
qed

lemma slab_at_mem: "slab_at a i = Some s \<Longrightarrow> s \<in> set (sa_slabs a) \<and> sl_addr s = i"
  by (auto simp: slab_at_def find_Some_iff)

lemma slab_at_in: "i \<in> set (addrs a) \<Longrightarrow> \<exists>s. slab_at a i = Some s"
  by (cases "slab_at a i") (auto simp: slab_at_def find_None_iff addrs_def)

lemma addrs_put [simp]: "addrs (slab_put a s) = addrs a"
  by (auto simp: addrs_def slab_put_def)

lemma slab_put_fields [simp]:
  "sa_size (slab_put a s) = sa_size a" "sa_cap_per_slab (slab_put a s) = sa_cap_per_slab a"
  "sa_word (slab_put a s) = sa_word a" "sa_fresh (slab_put a s) = sa_fresh a"
  "sa_current (slab_put a s) = sa_current a"
  by (simp_all add: slab_put_def)

lemma addrs_fields [simp]: "addrs (a\<lparr>sa_word := w\<rparr>) = addrs a" "addrs (a\<lparr>sa_current := c\<rparr>) = addrs a"
  by (simp_all add: addrs_def)

text \<open>One slab is replaced, and only its words and its held slots change.\<close>

lemma slab_inv_put:
  assumes inv: "slab_inv a H" and s: "s \<in> set (sa_slabs a)" "sl_addr s' = sl_addr s"
    and w: "\<And>p. fst p \<noteq> sl_addr s \<Longrightarrow> w' p = sa_word a p"
    and H: "\<And>p. fst p \<noteq> sl_addr s \<Longrightarrow> p \<in> H' \<longleftrightarrow> p \<in> H"
    and ok: "slab_ok (unat (sa_size a)) (unat (sa_cap_per_slab a)) w' H' s'"
    and c: "c = sa_current a \<or> c = Some (sl_addr s)"
  shows "slab_inv (slab_put (a\<lparr>sa_word := w', sa_current := c\<rparr>) s') H'"
proof -
  have sin: "sl_addr s \<in> set (addrs a)" using s by (simp add: addrs_def)
  have "slab_ok (unat (sa_size a)) (unat (sa_cap_per_slab a)) w' H' t"
    if t: "t \<in> set (sa_slabs (slab_put (a\<lparr>sa_word := w', sa_current := c\<rparr>) s'))" for t
  proof (cases "t = s'")
    case False
    then have "t \<in> set (sa_slabs a)" "sl_addr t \<noteq> sl_addr s"
      using t s by (auto simp: slab_put_def split: if_splits)
    then have okt: "slab_ok (unat (sa_size a)) (unat (sa_cap_per_slab a)) (sa_word a) H t"
      using inv by (simp add: slab_inv_def)
    show ?thesis
    proof (rule slab_ok_other [OF okt])
      fix p :: slot assume "fst p = sl_addr t"
      then have "fst p \<noteq> sl_addr s" using \<open>sl_addr t \<noteq> sl_addr s\<close> by metis
      then show "w' p = sa_word a p" and "p \<in> H' \<longleftrightarrow> p \<in> H" by (rule w, rule H)
    qed
  qed (use ok in simp)
  moreover have "fst ` H' \<subseteq> set (addrs a)"
  proof
    fix i assume "i \<in> fst ` H'"
    then obtain p where p: "p \<in> H'" "i = fst p" by auto
    show "i \<in> set (addrs a)"
    proof (cases "fst p = sl_addr s")
      case False
      then show ?thesis using H [of p] p inv by (auto simp: slab_inv_def)
    qed (use sin p in simp)
  qed
  moreover have "c = Some i \<Longrightarrow> i \<in> set (addrs a)" for i
    using c sin inv by (auto simp: slab_inv_def)
  ultimately show ?thesis
    using inv unfolding slab_inv_def by simp
qed

section \<open>The operations keep the invariant\<close>

lemma slab_ok_pop:
  assumes ok: "slab_ok sz cap w H s" and p: "sl_freelist s = Some p" and fits: "cap < 4294967296"
  shows "p \<notin> H \<and> fst p = sl_addr s \<and>
    slab_ok sz cap w (insert p H) (s\<lparr>sl_freelist := w p, sl_used := sl_used s + 1\<rparr>)"
proof -
  from ok p obtain fl where fl: "free_chain w (w p) fl" "distinct (p # fl)"
    "set (p # fl) \<union> held H (sl_addr s) = slots sz cap (sl_addr s)" "set (p # fl) \<inter> H = {}"
    by (auto simp: slab_ok_def free_chain_Some)
  have pf: "fst p = sl_addr s" using fl(3) slots_fst by (metis UnI1 list.set_intros(1))
  have pH: "p \<notin> held H (sl_addr s)" using fl(4) by (auto simp: held_def)
  have fin: "finite (held H (sl_addr s))" using fl(3) by (metis finite_Un finite_slots)
  have "insert p (held H (sl_addr s)) \<subseteq> slots sz cap (sl_addr s)" using fl(3) by auto
  then have "card (insert p (held H (sl_addr s))) \<le> card (slots sz cap (sl_addr s))"
    by (rule card_mono [OF finite_slots])
  also have "\<dots> \<le> cap" unfolding slots_def by (metis card_image_le card_lessThan finite_lessThan)
  finally have "card (held H (sl_addr s)) + 1 < 4294967296" using fits fin pH by simp
  then have "unat (sl_used s + 1) = card (held (insert p H) (sl_addr s))"
    using ok fin pH pf u32_add_nat [of "sl_used s" 1] by (simp add: slab_ok_def held_insert)
  moreover have "set fl \<inter> insert p H = {}" using fl by auto
  moreover have "set fl \<union> held (insert p H) (sl_addr s) = slots sz cap (sl_addr s)"
    using fl(3) pf by (auto simp: held_insert)
  ultimately show ?thesis
    using ok fl pf by (auto simp: slab_ok_def)
qed

lemma slab_caps:
  assumes "slab_inv a H"
  shows "unat (sa_cap_per_slab a * sa_size a) = unat (sa_cap_per_slab a) * unat (sa_size a)"
  using assms by (subst u32_mult_nat) (simp_all add: slab_inv_def)

lemma pop_slot_ok:
  assumes inv: "slab_inv a H" and s: "s \<in> set (sa_slabs a)" and p: "sl_freelist s = Some p"
    and c: "c = sa_current a \<or> c = Some (sl_addr s)"
  shows "\<exists>a'. pop_slot (a\<lparr>sa_current := c\<rparr>) s = Some (p, a') \<and> p \<notin> H \<and> slab_inv a' (insert p H)"
proof -
  let ?s' = "s\<lparr>sl_freelist := sa_word a p, sl_used := sl_used s + 1\<rparr>"
  have "slab_ok (unat (sa_size a)) (unat (sa_cap_per_slab a)) (sa_word a) H s"
    using inv s by (simp add: slab_inv_def)
  note ok = slab_ok_pop [OF this p u32_less_bound]
  have "slab_inv (slab_put (a\<lparr>sa_word := sa_word a, sa_current := c\<rparr>) ?s') (insert p H)"
    by (rule slab_inv_put [OF inv s]) (use ok c in auto)
  then show ?thesis using ok p by (simp add: pop_slot_def)
qed


lemma link_freelist_ok:
  assumes "unat lim = unat i + n" and "cur = unat i * unat sz" and "(unat lim + 1) * unat sz \<le> room"
    and "8 \<le> unat sz"
  shows "\<exists>m'. link_freelist room s sz lim i cur m = Some (unat lim * unat sz, m') \<and>
    (\<forall>p. fst p \<noteq> s \<longrightarrow> m' p = m p) \<and>
    (\<forall>k. k < unat i \<longrightarrow> m' (s, k * unat sz) = m (s, k * unat sz)) \<and>
    (\<forall>k. unat i \<le> k \<longrightarrow> k < unat lim \<longrightarrow> m' (s, k * unat sz) = Some (s, (k + 1) * unat sz))"
  using assms(1,2)
proof (induction n arbitrary: i cur m)
  case 0
  then show ?case by (subst link_freelist.simps) (simp add: word_less_nat_alt)
next
  case (Suc n)
  then have lt: "i < lim" by (simp add: word_less_nat_alt)
  let ?m = "m((s, cur) := Some (s, cur + unat sz))"
  have "(unat i + 1) * unat sz \<le> (unat lim + 1) * unat sz"
    by (rule mult_le_mono1) (use Suc.prems in simp)
  then have "cur + 8 \<le> room"
    using assms(3,4) Suc.prems(2) unfolding add_mult_distrib by linarith
  moreover have pre: "unat lim = unat (i + 1) + n" "cur + unat sz = unat (i + 1) * unat sz"
    using Suc.prems u32_inc [OF lt] by simp_all
  from Suc.IH [OF pre, of ?m, unfolded u32_inc [OF lt]] obtain m' where
    m': "link_freelist room s sz lim (i + 1) (cur + unat sz) ?m = Some (unat lim * unat sz, m')"
      "\<forall>p. fst p \<noteq> s \<longrightarrow> m' p = ?m p"
      "\<forall>k. k < unat i + 1 \<longrightarrow> m' (s, k * unat sz) = ?m (s, k * unat sz)"
      "\<forall>k. unat i + 1 \<le> k \<longrightarrow> k < unat lim \<longrightarrow> m' (s, k * unat sz) = Some (s, (k + 1) * unat sz)"
    by blast
  moreover have "m' (s, unat i * unat sz) = Some (s, (unat i + 1) * unat sz)"
    using m'(3) Suc.prems(2) by (simp add: add.commute)
  moreover have "m' (s, k * unat sz) = Some (s, (k + 1) * unat sz)" if "unat i \<le> k" "k < unat lim" for k
    using m'(4) that \<open>m' (s, unat i * unat sz) = Some (s, (unat i + 1) * unat sz)\<close> by (cases "k = unat i") auto
  moreover have "m' (s, k * unat sz) = m (s, k * unat sz)" if "k < unat i" for k
    using m'(3) that Suc.prems(2) assms(4) by simp
  ultimately show ?case
    using lt by (subst link_freelist.simps) (simp add: store_word_def)
qed

lemma free_chain_upt:
  assumes "\<forall>k. i \<le> k \<longrightarrow> k + 1 < n \<longrightarrow> w (s, k * sz) = Some (s, (k + 1) * sz)" and "w (s, (n - 1) * sz) = None"
    and "i < n"
  shows "free_chain w (Some (s, i * sz)) (map (\<lambda>k. (s, k * sz)) [i..<n])"
  using assms
proof (induction "n - i" arbitrary: i)
  case (Suc d)
  have up: "[i..<n] = i # [i + 1..<n]" using Suc.prems(3) by (simp add: upt_rec)
  show ?case
  proof (cases "i + 1 < n")
    case True
    then have "free_chain w (Some (s, (i + 1) * sz)) (map (\<lambda>k. (s, k * sz)) [i + 1..<n])"
      using Suc.prems Suc.hyps(2) by (intro Suc.hyps(1)) auto
    then show ?thesis unfolding up using Suc.prems(1) True by simp
  next
    case False
    then have "n = i + 1" using Suc.prems(3) by simp
    then show ?thesis using Suc.prems(2) by simp
  qed
qed simp

lemma slab_alloc_extend_ok:
  assumes os: "libc_ok os" and inv: "slab_inv a H"
  shows "\<exists>r a' e'. slab_alloc_extend os a e = Some (r, a', e') \<and> (r = None \<longrightarrow> a' = a) \<and>
    (libc_total os \<longrightarrow> r \<noteq> None) \<and>
    (\<forall>s. r = Some s \<longrightarrow> e' = e \<and> slab_inv a' H \<and> s \<in> set (sa_slabs a') \<and> sl_freelist s \<noteq> None)"
proof -
  let ?sz = "unat (sa_size a)" and ?cap = "unat (sa_cap_per_slab a)" and ?s = "sa_fresh a"
  let ?tot = "sa_size a * sa_cap_per_slab a + sizeof_slab"
  have b: "8 \<le> ?sz" "0 < ?cap" "?cap * ?sz + 32 < 4294967296" using inv by (simp_all add: slab_inv_def)
  have ds: "unat (sa_size a * sa_cap_per_slab a) = ?cap * ?sz"
    using b(3) by (subst u32_mult_nat) (simp_all add: mult.commute)
  have tot: "unat ?tot = ?cap * ?sz + 32"
    using b(3) ds by (subst u32_add_nat) (simp_all add: sizeof_slab_def)
  have lim: "unat (sa_cap_per_slab a - 1) = ?cap - 1" using b(2) by simp
  obtain p e' where m: "i_malloc os 1 ?tot e = Some (p, e')" "p \<noteq> None \<longrightarrow> e' = e"
    "\<forall>bs. p = Some bs \<longrightarrow> length bs = unat ?tot" "libc_total os \<longrightarrow> p \<noteq> None"
    using i_malloc_one [OF os, of ?tot e] tot by auto
  show ?thesis
  proof (cases p)
    case None
    then show ?thesis using m by (simp add: slab_alloc_extend_def Let_def)
  next
    case (Some bs)
    let ?room = "length bs - unat sizeof_slab"
    have room: "?room = ?cap * ?sz" using m(3) Some tot by (simp add: sizeof_slab_def)
    have r1: "(unat (sa_cap_per_slab a - 1) + 1) * ?sz \<le> ?room" using room lim b(2) by simp
    from link_freelist_ok [where i = 0 and cur = 0 and m = "sa_word a" and s = ?s, OF _ _ r1 b(1)] obtain m' where
      l: "link_freelist ?room ?s (sa_size a) (sa_cap_per_slab a - 1) 0 0 (sa_word a) = Some ((?cap - 1) * ?sz, m')"
        "\<forall>p. fst p \<noteq> ?s \<longrightarrow> m' p = sa_word a p"
        "\<forall>k. k < ?cap - 1 \<longrightarrow> m' (?s, k * ?sz) = Some (?s, (k + 1) * ?sz)"
      unfolding lim by auto
    let ?m = "m'((?s, (?cap - 1) * ?sz) := None)"
    let ?new = "\<lparr>sl_addr = ?s, sl_freelist = Some (?s, 0), sl_used = 0, sl_total_size = ?tot\<rparr>"
    let ?a = "a\<lparr>sa_slabs := ?new # sa_slabs a, sa_word := ?m, sa_fresh := ?s + 1\<rparr>"
    have "(?cap - 1) * ?sz + ?sz = ?cap * ?sz" using b(2) by (cases ?cap) simp_all
    then have "store_word ?room (?s, (?cap - 1) * ?sz) None m' = Some ?m"
      using room b(1) by (simp add: store_word_def)
    then have ext: "slab_alloc_extend os a e = Some (Some ?new, ?a, e)"
      using m Some l(1) by (simp add: slab_alloc_extend_def Let_def)
    let ?fl = "map (\<lambda>k. (?s, k * ?sz)) [0..<?cap]"
    have fresh: "?s \<notin> set (addrs a)" using inv by (auto simp: slab_inv_def)
    then have h: "held H ?s = {}" using inv by (auto simp: slab_inv_def held_def)
    have "free_chain ?m (Some (?s, 0 * ?sz)) ?fl"
      by (rule free_chain_upt) (use l(3) b in auto)
    then have "free_chain ?m (sl_freelist ?new) ?fl" by simp
    moreover have "distinct ?fl" using b(1) by (simp add: distinct_map inj_on_def)
    moreover have "set ?fl \<union> held H ?s = slots ?sz ?cap ?s" using h by (auto simp: slots_def)
    moreover have "set ?fl \<inter> H = {}" using h by (auto simp: held_def)
    ultimately have "\<exists>fl. free_chain ?m (sl_freelist ?new) fl \<and> distinct fl \<and>
        set fl \<union> held H (sl_addr ?new) = slots ?sz ?cap (sl_addr ?new) \<and> set fl \<inter> H = {}"
      by (intro exI [of _ ?fl]) simp
    then have new: "slab_ok ?sz ?cap ?m H ?new"
      unfolding slab_ok_def using tot h by (intro conjI) simp_all
    have old: "slab_ok ?sz ?cap ?m H t" if t: "t \<in> set (sa_slabs a)" for t
    proof (rule slab_ok_other)
      show "slab_ok ?sz ?cap (sa_word a) H t" using inv t by (simp add: slab_inv_def)
      have "sl_addr t \<in> set (addrs a)" using t by (simp add: addrs_def)
      then have "sl_addr t \<noteq> ?s" using fresh by metis
      then show "?m p = sa_word a p" if "fst p = sl_addr t" for p :: slot
        using that l(2) by (cases p) simp
    qed simp
    have ad: "addrs ?a = ?s # addrs a" by (simp add: addrs_def)
    have oks: "\<forall>t\<in>set (sa_slabs ?a). slab_ok ?sz ?cap ?m H t" using new old by simp
    have lt: "\<forall>i\<in>set (addrs a). i < ?s + 1" using inv by (auto simp: slab_inv_def intro: less_SucI)
    have "fst ` H \<subseteq> set (addrs ?a)" using inv unfolding ad by (auto simp: slab_inv_def)
    then have "slab_inv ?a H"
      using inv oks lt fresh unfolding slab_inv_def ad by simp
    then show ?thesis using ext by auto
  qed
qed

lemma current_slab_ok:
  assumes "slab_inv a H"
  shows "\<exists>c. current_slab a = Some c \<and> (\<forall>s. c = Some s \<longrightarrow> s \<in> set (sa_slabs a) \<and> sa_current a = Some (sl_addr s))"
proof (cases "sa_current a")
  case (Some i)
  then have "i \<in> set (addrs a)" using assms by (simp add: slab_inv_def)
  then obtain s where "slab_at a i = Some s" using slab_at_in by blast
  then show ?thesis using Some slab_at_mem by (fastforce simp: current_slab_def)
qed (simp add: current_slab_def)

lemma slab_alloc_alloc_ok:
  assumes os: "libc_ok os" and inv: "slab_inv a H"
  shows "\<exists>r a' e'. slab_alloc_alloc os a e = Some (r, a', e') \<and> (r \<noteq> None \<longrightarrow> e' = e) \<and>
    (libc_total os \<longrightarrow> r \<noteq> None) \<and>
    (case r of None \<Rightarrow> slab_inv a' H | Some p \<Rightarrow> p \<notin> H \<and> slab_inv a' (insert p H))"
proof -
  obtain c where c: "current_slab a = Some c"
    "\<forall>s. c = Some s \<longrightarrow> s \<in> set (sa_slabs a) \<and> sa_current a = Some (sl_addr s)"
    using current_slab_ok [OF inv] by blast
  let ?hot = "case c of None \<Rightarrow> None | Some s \<Rightarrow> if sl_freelist s \<noteq> None then Some s else None"
  show ?thesis
  proof (cases ?hot)
    case (Some s)
    then have s: "c = Some s" "sl_freelist s \<noteq> None" by (auto split: option.splits if_splits)
    then obtain p where p: "sl_freelist s = Some p" by auto
    have id: "a\<lparr>sa_current := sa_current a\<rparr> = a" by simp
    have "s \<in> set (sa_slabs a)" using c s by simp
    from pop_slot_ok [OF inv this p, of "sa_current a", unfolded id]
    obtain a' where "pop_slot a s = Some (p, a')" "p \<notin> H" "slab_inv a' (insert p H)" by blast
    then show ?thesis using c s by (simp add: slab_alloc_alloc_def)
  next
    case cold: None
    let ?f = "find (\<lambda>s. sl_freelist s \<noteq> None) (sa_slabs a)"
    obtain r a1 e1 where x: "(case ?f of Some s \<Rightarrow> Some (Some s, a, e) | None \<Rightarrow> slab_alloc_extend os a e) = Some (r, a1, e1)"
      "r = None \<longrightarrow> a1 = a" "libc_total os \<longrightarrow> r \<noteq> None"
      "\<forall>s. r = Some s \<longrightarrow> e1 = e \<and> slab_inv a1 H \<and> s \<in> set (sa_slabs a1) \<and> sl_freelist s \<noteq> None"
    proof (cases ?f)
      case None
      then show thesis using slab_alloc_extend_ok [OF os inv, of e] that by auto
    next
      case (Some s)
      then have "s \<in> set (sa_slabs a)" "sl_freelist s \<noteq> None" by (auto simp: find_Some_iff)
      then show thesis using Some inv that [of "Some s" a e] by (simp del: not_None_eq)
    qed
    have run: "slab_alloc_alloc os a e = (case r of
        None \<Rightarrow> Some (None, a1, e1)
      | Some s \<Rightarrow> do { (ret, a2) \<leftarrow> pop_slot (a1\<lparr>sa_current := Some (sl_addr s)\<rparr>) s; Some (Some ret, a2, e1) })"
      unfolding slab_alloc_alloc_def using c(1) cold x(1) by simp
    show ?thesis
    proof (cases r)
      case None
      then show ?thesis using run x inv by simp
    next
      case (Some s)
      then obtain p where p: "sl_freelist s = Some p" using x(4) by auto
      from pop_slot_ok [OF _ _ p, of a1 H "Some (sl_addr s)"] x(4) Some run show ?thesis by auto
    qed
  qed
qed

lemma slab_from_ptr_ok:
  assumes inv: "slab_inv a H" and p: "p \<in> H"
  shows "\<exists>s. slab_from_ptr a p = Some s \<and> s \<in> set (sa_slabs a) \<and> sl_addr s = fst p"
proof -
  let ?sz = "unat (sa_size a)" and ?cap = "unat (sa_cap_per_slab a)"
  obtain c where c: "current_slab a = Some c"
    "\<forall>s. c = Some s \<longrightarrow> s \<in> set (sa_slabs a) \<and> sa_current a = Some (sl_addr s)"
    using current_slab_ok [OF inv] by blast
  have "fst p \<in> set (addrs a)" using inv p by (auto simp: slab_inv_def)
  then obtain t where t: "t \<in> set (sa_slabs a)" "sl_addr t = fst p" by (auto simp: addrs_def)
  then have "held H (fst p) \<subseteq> slots ?sz ?cap (fst p)" using inv held_slots by (fastforce simp: slab_inv_def)
  then have "p \<in> slots ?sz ?cap (fst p)" using p by (auto simp: held_def)
  then have "snd p + ?sz \<le> ?cap * ?sz" by (rule slots_room)
  then have ct: "slab_contains a t p"
    using t slab_caps [OF inv] inv by (simp add: slab_contains_def slab_inv_def)
  have only: "sl_addr s = fst p" if "slab_contains a s p" for s using that by (simp add: slab_contains_def)
  show ?thesis
  proof (cases "\<exists>s. c = Some s \<and> slab_contains a s p")
    case True
    then show ?thesis using c only by (auto simp: slab_from_ptr_def)
  next
    case False
    obtain s where s: "find (\<lambda>s. slab_contains a s p) (sa_slabs a) = Some s"
      using ct t by (cases "find (\<lambda>s. slab_contains a s p) (sa_slabs a)") (auto simp: find_None_iff)
    then have "s \<in> set (sa_slabs a)" "slab_contains a s p" by (auto simp: find_Some_iff)
    then show ?thesis using False c s only by (cases c) (auto simp: slab_from_ptr_def)
  qed
qed

lemma slab_ok_push:
  assumes ok: "slab_ok sz cap w H s" and p: "p \<in> H" "fst p = sl_addr s"
  shows "0 < unat (sl_used s) \<and> snd p + sz \<le> cap * sz \<and>
    slab_ok sz cap (w(p := sl_freelist s)) (H - {p}) (s\<lparr>sl_freelist := Some p, sl_used := sl_used s - 1\<rparr>)"
proof -
  from ok obtain fl where fl: "free_chain w (sl_freelist s) fl" "distinct fl"
    "set fl \<union> held H (sl_addr s) = slots sz cap (sl_addr s)" "set fl \<inter> H = {}"
    by (auto simp: slab_ok_def)
  have ph: "p \<in> held H (sl_addr s)" using p by (simp add: held_def)
  have fin: "finite (held H (sl_addr s))" using fl(3) by (metis finite_Un finite_slots)
  have u: "unat (sl_used s) = card (held H (sl_addr s))" using ok by (simp add: slab_ok_def)
  then have pos: "0 < unat (sl_used s)" using ph fin by (auto simp: card_gt_0_iff)
  then have u': "unat (sl_used s - 1) = card (held (H - {p}) (sl_addr s))"
    using u ph fin by (simp add: held_remove)
  have "p \<in> slots sz cap (sl_addr s)" using fl(3) ph by auto
  note room = slots_room [OF this]
  have nf: "p \<notin> set fl" using fl(4) p by auto
  then have "free_chain (w(p := sl_freelist s)) (sl_freelist s) fl"
    using fl(1) by (subst free_chain_cong [of _ _ w]) auto
  then have "free_chain (w(p := sl_freelist s)) (Some p) (p # fl)" by simp
  moreover have "distinct (p # fl)" using nf fl(2) by simp
  moreover have "set (p # fl) \<union> held (H - {p}) (sl_addr s) = slots sz cap (sl_addr s)"
    using fl(3) ph by (auto simp: held_remove)
  moreover have "set (p # fl) \<inter> (H - {p}) = {}" using fl(4) by auto
  ultimately have "\<exists>fl. free_chain (w(p := sl_freelist s)) (Some p) fl \<and> distinct fl \<and>
      set fl \<union> held (H - {p}) (sl_addr s) = slots sz cap (sl_addr s) \<and> set fl \<inter> (H - {p}) = {}"
    by (intro exI [of _ "p # fl"] conjI)
  then show ?thesis using pos room u' ok by (simp add: slab_ok_def)
qed

lemma slab_inv_current:
  "slab_inv a H \<Longrightarrow> \<forall>i. c = Some i \<longrightarrow> i \<in> set (addrs a) \<Longrightarrow> slab_inv (a\<lparr>sa_current := c\<rparr>) H"
  by (simp add: slab_inv_def)

lemma slab_inv_drop:
  assumes inv: "slab_inv a H" and "held H i = {}" and "sa_current a \<noteq> Some i"
  shows "slab_inv (a\<lparr>sa_slabs := filter (\<lambda>t. sl_addr t \<noteq> i) (sa_slabs a)\<rparr>) H"
proof -
  let ?a = "a\<lparr>sa_slabs := filter (\<lambda>t. sl_addr t \<noteq> i) (sa_slabs a)\<rparr>"
  have ad: "addrs ?a = filter (\<lambda>j. j \<noteq> i) (addrs a)" by (simp add: addrs_def filter_map o_def)
  have "fst ` H \<subseteq> set (addrs ?a)" using inv assms(2) unfolding ad by (auto simp: slab_inv_def held_def)
  moreover have "\<forall>j. sa_current a = Some j \<longrightarrow> j \<in> set (addrs ?a)"
    using inv assms(3) unfolding ad by (auto simp: slab_inv_def)
  ultimately show ?thesis using inv unfolding slab_inv_def ad by simp
qed

lemma slab_update_current_ok:
  assumes "slab_inv a H" and "sl_addr s \<in> set (addrs a)"
  shows "\<exists>a'. slab_update_current a s = Some a' \<and> slab_inv a' H"
proof -
  obtain c where "current_slab a = Some c" using current_slab_ok [OF assms(1)] by blast
  then show ?thesis
    using assms slab_inv_current [OF assms(1), of "Some (sl_addr s)"] by (simp add: slab_update_current_def)
qed

lemma slab_reclaim_ok:
  assumes inv: "slab_inv a H" and h: "sl_used s = 0 \<Longrightarrow> held H (sl_addr s) = {}"
  shows "slab_inv (slab_reclaim a s) H"
proof (cases "sl_used s = 0 \<and> length (sa_slabs a) > 1")
  case True
  show ?thesis
  proof (cases "sa_current a = Some (sl_addr s)")
    case cur: True
    have "slab_inv (a\<lparr>sa_current := None\<rparr>) H" using slab_inv_current [OF inv, of None] by simp
    from slab_inv_drop [OF this h] True show ?thesis using cur by (simp add: slab_reclaim_def)
  next
    case False
    from slab_inv_drop [OF inv h False] True show ?thesis using False by (simp add: slab_reclaim_def)
  qed
qed (use inv in \<open>auto simp: slab_reclaim_def\<close>)

lemma slab_alloc_free_ok:
  assumes inv: "slab_inv a H" and p: "p \<in> H"
  shows "\<exists>a'. slab_alloc_free a p = Some a' \<and> slab_inv a' (H - {p})"
proof -
  let ?sz = "unat (sa_size a)" and ?cap = "unat (sa_cap_per_slab a)"
  obtain s where s: "slab_from_ptr a p = Some s" "s \<in> set (sa_slabs a)" "sl_addr s = fst p"
    using slab_from_ptr_ok [OF inv p] by blast
  have ok: "slab_ok ?sz ?cap (sa_word a) H s" using inv s by (simp add: slab_inv_def)
  let ?m = "(sa_word a)(p := sl_freelist s)"
  let ?s = "s\<lparr>sl_freelist := Some p, sl_used := sl_used s - 1\<rparr>"
  let ?a1 = "slab_put (a\<lparr>sa_word := ?m\<rparr>) ?s"
  note push = slab_ok_push [OF ok p s(3) [symmetric]]
  have st: "store_word (unat (sl_total_size s) - unat sizeof_slab) p (sl_freelist s) (sa_word a) = Some ?m"
    using push ok inv by (simp add: store_word_def slab_ok_def sizeof_slab_def slab_inv_def)
  have i1: "slab_inv ?a1 (H - {p})"
  proof -
    have "slab_inv (slab_put (a\<lparr>sa_word := ?m, sa_current := sa_current a\<rparr>) ?s) (H - {p})"
      by (rule slab_inv_put [OF inv s(2)]) (use push s in auto)
    then show ?thesis by simp
  qed
  have "addrs ?a1 = addrs a" by simp
  then have sin: "sl_addr ?s \<in> set (addrs ?a1)" using s(2) by (simp only:) (simp add: addrs_def)
  obtain a2 where a2: "slab_update_current ?a1 ?s = Some a2" "slab_inv a2 (H - {p})"
    using slab_update_current_ok [OF i1 sin] by blast
  have "held H (sl_addr s) \<subseteq> slots ?sz ?cap (sl_addr s)" using ok by (rule held_slots)
  then have fin: "finite (held (H - {p}) (sl_addr s))"
    unfolding held_remove by (metis finite_Diff finite_slots finite_subset)
  have "held (H - {p}) (sl_addr ?s) = {}" if "sl_used ?s = 0"
    using push that fin by (simp add: slab_ok_def)
  then have "slab_inv (slab_reclaim a2 ?s) (H - {p})" by (rule slab_reclaim_ok [OF a2(2)])
  then show ?thesis
    using s(1) st a2(1) push by (simp add: slab_alloc_free_def word_less_nat_alt Let_def)
qed

lemma slot_poke_ok:
  assumes inv: "slab_inv a H" and p: "p \<in> H"
  shows "slab_inv (slot_poke a p w) H"
proof -
  have "slab_ok (unat (sa_size a)) (unat (sa_cap_per_slab a)) ((sa_word a)(p := w)) H s"
    if "slab_ok (unat (sa_size a)) (unat (sa_cap_per_slab a)) (sa_word a) H s" for s
  proof -
    from that obtain fl where fl: "free_chain (sa_word a) (sl_freelist s) fl" "distinct fl"
      "set fl \<union> held H (sl_addr s) = slots (unat (sa_size a)) (unat (sa_cap_per_slab a)) (sl_addr s)" "set fl \<inter> H = {}"
      by (auto simp: slab_ok_def)
    have "free_chain ((sa_word a)(p := w)) (sl_freelist s) fl"
      using fl p by (subst free_chain_cong [of _ _ "sa_word a"]) auto
    then show ?thesis using that fl unfolding slab_ok_def by blast
  qed
  then show ?thesis using inv by (simp add: slab_inv_def slot_poke_def addrs_def)
qed

interpretation slab: ample_pool libc_ok slab_inv slab_alloc_alloc slab_alloc_free slot_poke libc_total
proof (unfold_locales, goal_cases)
  case (1 os s H e)
  then show ?case using slab_alloc_alloc_ok [of os s H e] by blast
next
  case (2 s H p)
  then show ?case by (rule slab_alloc_free_ok)
next
  case (3 s H p w)
  then show ?case by (rule slot_poke_ok)
next
  case (4 os s H e s' e')
  then show ?case using slab_alloc_alloc_ok [of os s H e] by auto
qed

lemma align8:
  fixes x :: u64
  shows "unat (and x (not 7)) = unat x div 8 * 8"
proof -
  have m: "(7 :: u64) = mask 3" by (simp add: mask_eq_exp_minus_1)
  have "and x (not (mask 3)) = push_bit 3 (drop_bit 3 x)"
    by (rule bit_eqI) (auto simp: bit_simps simp del: mask_numeral)
  then have "unat (and x (not 7)) = take_bit 64 (push_bit 3 (drop_bit 3 (unat x)))"
    unfolding m by (simp add: unsigned_push_bit_eq unsigned_drop_bit_eq take_bit_nat_eq_self)
  also have "\<dots> = unat x div 8 * 8"
    by (simp add: push_bit_eq_mult drop_bit_eq_div take_bit_nat_eq_self
      le_less_trans [OF div_times_less_eq_dividend])
  finally show ?thesis .
qed

lemma slab_alloc_init_inv:
  assumes "8 \<le> sz" and "0 < cap" and fits: "unat cap * (unat sz + 7) + 32 < 4294967296"
  shows "\<exists>a. slab_alloc_init sz cap = Some a \<and> slab_inv a {}"
proof -
  let ?x = "ucast sz + 8 - 1 :: u64"
  let ?al = "ucast (and ?x (not (8 - 1))) :: u32"
  have e: "?x = ucast sz + 7" by simp
  have x: "unat ?x = unat sz + 7"
    unfolding e by (subst u64_add_nat) (simp_all add: unsigned_ucast_eq unsigned_take_bit_eq
      take_bit_nat_eq_self less_trans [OF u32_less_bound])
  have sz: "8 \<le> unat sz" and cap: "1 \<le> unat cap" using assms(1,2) by (simp_all add: word_le_nat_alt word_less_nat_alt)
  have "1 * (unat sz + 7) \<le> unat cap * (unat sz + 7)" using cap by (rule mult_le_mono1)
  then have small: "unat sz + 7 < 4294967296"
    using le_less_trans [OF _ add_lessD1 [OF fits]] by simp
  have "unat (and ?x (not (8 - 1))) = (unat sz + 7) div 8 * 8" using align8 [of ?x] x by simp
  moreover have "(unat sz + 7) div 8 * 8 \<le> unat sz + 7" by (rule div_times_less_eq_dividend)
  ultimately have al: "unat ?al = (unat sz + 7) div 8 * 8"
    using small by (simp add: unsigned_ucast_eq unsigned_take_bit_eq take_bit_nat_eq_self)
  then have lo: "8 \<le> unat ?al" and hi: "unat ?al \<le> unat sz + 7" using sz by linarith+
  have "unat cap * unat ?al \<le> unat cap * (unat sz + 7)" using hi by (rule mult_le_mono2)
  then have "unat cap * unat ?al + 32 < 4294967296"
    by (rule le_less_trans [OF add_le_mono1 fits])
  then show ?thesis
    using assms(1,2) cap lo by (simp add: slab_alloc_init_def slab_inv_def addrs_def)
qed

section \<open>Properties\<close>

abbreviation slab_step :: "slab_alloc \<times> slot set \<Rightarrow> slab_alloc \<times> slot set \<Rightarrow> bool" where
  "slab_step \<equiv> pool_step libc_ok slab_alloc_alloc slab_alloc_free slot_poke"

lemma slab_reachable_inv:
  assumes "8 \<le> sz" and "0 < cap" and "unat cap * (unat sz + 7) + 32 < 4294967296"
    and "slab_alloc_init sz cap = Some a0" and "slab_step\<^sup>*\<^sup>* (a0, {}) (a, H)"
  shows "slab_inv a H"
  using slab.reachable_inv [OF assms(5)] slab_alloc_init_inv [OF assms(1-3)] assms(4) by simp

lemma slab_inv_slot:
  assumes "slab_inv a H" and "p \<in> H"
  shows "p \<in> slots (unat (sa_size a)) (unat (sa_cap_per_slab a)) (fst p)"
proof -
  obtain s where "s \<in> set (sa_slabs a)" "sl_addr s = fst p"
    using slab_from_ptr_ok [OF assms] by blast
  then have "held H (fst p) \<subseteq> slots (unat (sa_size a)) (unat (sa_cap_per_slab a)) (fst p)"
    using assms(1) held_slots by (fastforce simp: slab_inv_def)
  then show ?thesis using assms(2) by (auto simp: held_def)
qed

lemma slots_apart:
  assumes "p \<in> slots sz cap i" and "q \<in> slots sz cap i" and "p \<noteq> q"
  shows "snd p + sz \<le> snd q \<or> snd q + sz \<le> snd p"
proof -
  obtain j k where jk: "p = (i, j * sz)" "q = (i, k * sz)" using assms(1,2) by (auto simp: slots_def)
  then have "j < k \<or> k < j" using assms(3) by auto
  then show ?thesis using jk next_block by auto
qed

text \<open>
  C6. Slots never overlap: in every state that a client can reach from a fresh slab allocator
  by requesting slots, returning slots it holds and writing anything into slots it holds, with
  any failures of the heap, a new request is answered, and a slot that it hands out overlaps
  none of those the client holds.
\<close>

theorem slab_slots_never_overlap:
  assumes "8 \<le> sz" and "0 < cap" and "unat cap * (unat sz + 7) + 32 < 4294967296"
    and "slab_alloc_init sz cap = Some a0" and "slab_step\<^sup>*\<^sup>* (a0, {}) (a, H)" and "libc_ok os"
  shows "\<exists>r a' e'. slab_alloc_alloc os a e = Some (r, a', e') \<and>
    (\<forall>p. r = Some p \<longrightarrow> (\<forall>q\<in>H. fst p \<noteq> fst q \<or>
       snd p + unat (sa_size a') \<le> snd q \<or> snd q + unat (sa_size a') \<le> snd p))"
proof -
  from slab.get_law [OF assms(6) slab_reachable_inv [OF assms(1-5)], of e] obtain r a' e' where
    r: "slab_alloc_alloc os a e = Some (r, a', e')"
      "case r of None \<Rightarrow> slab_inv a' H | Some p \<Rightarrow> p \<notin> H \<and> slab_inv a' (insert p H)" by blast
  have "fst p \<noteq> fst q \<or> snd p + unat (sa_size a') \<le> snd q \<or> snd q + unat (sa_size a') \<le> snd p"
    if "r = Some p" "q \<in> H" for p q
  proof (cases "fst p = fst q")
    case True
    have inv: "slab_inv a' (insert p H)" and "p \<noteq> q" using r(2) that by auto
    then show ?thesis
      using slots_apart slab_inv_slot [OF inv, of p] slab_inv_slot [OF inv, of q] that(2) True by auto
  qed simp
  then show ?thesis using r(1) by blast
qed

lemma slab_example:
  "\<exists>a0 a1 p. slab_alloc_init 8 2 = Some a0 \<and> slab_alloc_alloc libc_ample a0 None = Some (Some p, a1, None) \<and>
    slab_step\<^sup>*\<^sup>* (a0, {}) (a1, {p})"
proof -
  obtain a0 where a0: "slab_alloc_init 8 2 = Some a0" "slab_inv a0 {}"
    using slab_alloc_init_inv [of 8 2] by auto
  from slab.get_granted [OF libc_ok_ample libc_total_ample a0(2), of None] obtain p a1 where
    p: "slab_alloc_alloc libc_ample a0 None = Some (Some p, a1, None)" by blast
  have "slab_step (a0, {}) (a1, {p})" by (rule step_get) (rule libc_ok_ample, rule p)
  then show ?thesis using a0 p by blast
qed

theorem slab_slots_never_overlap_witness:
  "\<exists>a0 a1 p. slab_alloc_init 8 2 = Some a0 \<and> slab_step\<^sup>*\<^sup>* (a0, {}) (a1, {p}) \<and>
    (\<exists>r a' e'. slab_alloc_alloc libc_ample a1 None = Some (r, a', e') \<and>
      (\<forall>x. r = Some x \<longrightarrow> (\<forall>q\<in>{p}. fst x \<noteq> fst q \<or>
         snd x + unat (sa_size a') \<le> snd q \<or> snd q + unat (sa_size a') \<le> snd x)))"
proof -
  obtain a0 a1 p where e: "slab_alloc_init 8 2 = Some a0" "slab_step\<^sup>*\<^sup>* (a0, {}) (a1, {p})"
    using slab_example by blast
  from slab_slots_never_overlap [OF _ _ _ e libc_ok_ample, of None] e show ?thesis by fastforce
qed

text \<open>
  Returning a slot never fails: in every reachable state each slot the client holds is
  found in a slab and taken back, whatever the client wrote into its slots before.
\<close>

theorem slab_free_never_stuck:
  assumes "8 \<le> sz" and "0 < cap" and "unat cap * (unat sz + 7) + 32 < 4294967296"
    and "slab_alloc_init sz cap = Some a0" and "slab_step\<^sup>*\<^sup>* (a0, {}) (a, H)" and "p \<in> H"
  shows "\<exists>a'. slab_alloc_free a p = Some a' \<and> slab_step\<^sup>*\<^sup>* (a0, {}) (a', H - {p})"
proof -
  obtain a' where a': "slab_alloc_free a p = Some a'"
    using slab.put_law [OF slab_reachable_inv [OF assms(1-5)] assms(6)] by blast
  have "slab_step (a, H) (a', H - {p})" by (rule step_put) (rule assms(6), rule a')
  then show ?thesis using a' rtranclp.rtrancl_into_rtrancl [OF assms(5)] by blast
qed

theorem slab_free_never_stuck_witness:
  "\<exists>a0 a1 p a'. slab_alloc_init 8 2 = Some a0 \<and> slab_step\<^sup>*\<^sup>* (a0, {}) (a1, {p}) \<and>
    slab_alloc_free a1 p = Some a' \<and> slab_step\<^sup>*\<^sup>* (a0, {}) (a', {p} - {p})"
proof -
  obtain a0 a1 p where e: "slab_alloc_init 8 2 = Some a0" "slab_step\<^sup>*\<^sup>* (a0, {}) (a1, {p})"
    using slab_example by blast
  from slab_free_never_stuck [OF _ _ _ e, of p] e show ?thesis by fastforce
qed

section \<open>Reclamation\<close>

text \<open>A slab without held slots is the only one.\<close>

definition slab_lean :: "slab_alloc \<Rightarrow> bool" where
  "slab_lean a \<longleftrightarrow> (\<forall>s\<in>set (sa_slabs a). sl_used s = 0 \<longrightarrow> length (sa_slabs a) = 1)"

lemma slab_lean_put:
  assumes "\<forall>t\<in>set (sa_slabs a). sl_addr t \<noteq> sl_addr s \<longrightarrow> sl_used t = 0 \<longrightarrow> length (sa_slabs a) = 1"
    and "sl_used s = 0 \<longrightarrow> length (sa_slabs a) = 1"
  shows "slab_lean (slab_put a s)"
  using assms by (auto simp: slab_lean_def slab_put_def)

lemma pop_slot_lean:
  assumes inv: "slab_inv a H" and s: "s \<in> set (sa_slabs a)"
    and others: "\<forall>t\<in>set (sa_slabs a). sl_addr t \<noteq> sl_addr s \<longrightarrow> sl_used t = 0 \<longrightarrow> length (sa_slabs a) = 1"
    and pop: "pop_slot (a\<lparr>sa_current := c\<rparr>) s = Some (p, a')"
  shows "slab_lean a'"
proof -
  let ?s = "s\<lparr>sl_freelist := sa_word a p, sl_used := sl_used s + 1\<rparr>"
  from pop have p: "sl_freelist s = Some p" and a': "a' = slab_put (a\<lparr>sa_current := c\<rparr>) ?s"
    by (auto simp: pop_slot_def bind_Some_iff)
  have "slab_ok (unat (sa_size a)) (unat (sa_cap_per_slab a)) (sa_word a) H s" using inv s by (simp add: slab_inv_def)
  from slab_ok_pop [OF this p u32_less_bound] have
    f: "fst p = sl_addr s" and ok: "slab_ok (unat (sa_size a)) (unat (sa_cap_per_slab a)) (sa_word a) (insert p H) ?s" by auto
  have "finite (held (insert p H) (sl_addr ?s))"
    using finite_subset [OF held_slots [OF ok] finite_slots] .
  then have "0 < card (held (insert p H) (sl_addr ?s))" using f by (auto simp: card_gt_0_iff held_insert)
  then have "sl_used ?s \<noteq> 0" using ok by (auto simp: slab_ok_def)
  then show ?thesis unfolding a' using others by (intro slab_lean_put) auto
qed

lemma slab_alloc_lean:
  assumes os: "libc_ok os" and inv: "slab_inv a H" and lean: "slab_lean a"
    and run: "slab_alloc_alloc os a e = Some (r, a', e')"
  shows "slab_lean a'"
proof -
  obtain c where c: "current_slab a = Some c"
    "\<forall>s. c = Some s \<longrightarrow> s \<in> set (sa_slabs a) \<and> sa_current a = Some (sl_addr s)"
    using current_slab_ok [OF inv] by blast
  have id: "a\<lparr>sa_current := sa_current a\<rparr> = a" by simp
  have oth: "\<forall>t\<in>set (sa_slabs a). sl_addr t \<noteq> x \<longrightarrow> sl_used t = 0 \<longrightarrow> length (sa_slabs a) = 1" for x
    using lean unfolding slab_lean_def by blast
  show ?thesis
  proof (cases "\<exists>s. c = Some s \<and> sl_freelist s \<noteq> None")
    case True
    then obtain s where s: "c = Some s" "sl_freelist s \<noteq> None" by blast
    then obtain ret where "pop_slot a s = Some (ret, a')"
      using run c(1) by (auto simp: slab_alloc_alloc_def bind_Some_iff)
    then show ?thesis
      using pop_slot_lean [OF inv _ oth, of s "sa_current a", unfolded id] s c(2) by simp
  next
    case cold: False
    let ?f = "find (\<lambda>s. sl_freelist s \<noteq> None) (sa_slabs a)"
    have slow: "slab_alloc_alloc os a e = do {
        (found, a1, e1) \<leftarrow> (case ?f of Some s \<Rightarrow> Some (Some s, a, e) | None \<Rightarrow> slab_alloc_extend os a e);
        case found of
          None \<Rightarrow> Some (None, a1, e1)
        | Some s \<Rightarrow> do { (ret, a2) \<leftarrow> pop_slot (a1\<lparr>sa_current := Some (sl_addr s)\<rparr>) s; Some (Some ret, a2, e1) } }"
      unfolding slab_alloc_alloc_def using c(1) cold by (cases c) simp_all
    show ?thesis
    proof (cases ?f)
      case (Some s)
      then have "s \<in> set (sa_slabs a)" by (auto simp: find_Some_iff)
      then show ?thesis
        using run slow Some pop_slot_lean [OF inv _ oth, of s] by (auto simp: bind_Some_iff)
    next
      case None
      obtain x a1 e1 where ext: "slab_alloc_extend os a e = Some (x, a1, e1)" "x = None \<longrightarrow> a1 = a"
        "\<forall>s. x = Some s \<longrightarrow> e1 = e \<and> slab_inv a1 H \<and> s \<in> set (sa_slabs a1) \<and> sl_freelist s \<noteq> None"
        using slab_alloc_extend_ok [OF os inv, of e] by blast
      show ?thesis
      proof (cases x)
        case None
        then show ?thesis using run slow ext \<open>?f = None\<close> lean by simp
      next
        case (Some s)
        have sl: "sa_slabs a1 = s # sa_slabs a"
          using ext(1) Some by (auto simp: slab_alloc_extend_def bind_Some_iff Let_def split: option.splits)
        have "sl_used t \<noteq> 0" if t: "t \<in> set (sa_slabs a)" for t
        proof -
          have "sl_freelist t = None" using \<open>?f = None\<close> t unfolding find_None_iff by blast
          moreover have ok: "slab_ok (unat (sa_size a)) (unat (sa_cap_per_slab a)) (sa_word a) H t"
            using inv t by (simp add: slab_inv_def)
          ultimately have "held H (sl_addr t) = slots (unat (sa_size a)) (unat (sa_cap_per_slab a)) (sl_addr t)"
            by (auto simp: slab_ok_def)
          moreover have "\<dots> \<noteq> {}" using inv by (auto simp: slots_def slab_inv_def)
          ultimately show ?thesis using ok by (auto simp: slab_ok_def)
        qed
        then have "\<forall>t\<in>set (sa_slabs a1). sl_addr t \<noteq> sl_addr s \<longrightarrow> sl_used t = 0 \<longrightarrow> length (sa_slabs a1) = 1"
          unfolding sl by auto
        moreover obtain ret where "pop_slot (a1\<lparr>sa_current := Some (sl_addr s)\<rparr>) s = Some (ret, a')"
          using run slow ext(1) \<open>?f = None\<close> Some by (auto simp: bind_Some_iff)
        ultimately show ?thesis
          using pop_slot_lean [of a1 H s "Some (sl_addr s)"] ext(3) Some by simp
      qed
    qed
  qed
qed

lemma slab_free_lean:
  assumes "slab_inv a H" and "p \<in> H" and lean: "slab_lean a" and run: "slab_alloc_free a p = Some a'"
  shows "slab_lean a'"
proof -
  obtain s where s: "slab_from_ptr a p = Some s" "s \<in> set (sa_slabs a)"
    using slab_from_ptr_ok [OF assms(1,2)] by blast
  let ?s = "s\<lparr>sl_freelist := Some p, sl_used := sl_used s - 1\<rparr>"
  from run s(1) obtain m a2 where
    a2: "slab_update_current (slab_put (a\<lparr>sa_word := m\<rparr>) ?s) ?s = Some a2" and a': "a' = slab_reclaim a2 ?s"
    by (auto simp: slab_alloc_free_def bind_Some_iff Let_def split: if_splits)
  then have sl: "sa_slabs a2 = sa_slabs (slab_put a ?s)"
    by (auto simp: slab_update_current_def bind_Some_iff slab_put_def)
  have len: "length (sa_slabs a2) = length (sa_slabs a)" unfolding sl by (simp add: slab_put_def)
  have ne: "0 < length (sa_slabs a)" using s(2) by (cases "sa_slabs a") auto
  have old: "length (sa_slabs a2) = 1" if "t \<in> set (sa_slabs a2)" "sl_addr t \<noteq> sl_addr ?s" "sl_used t = 0" for t
    using that lean len unfolding sl by (auto simp: slab_put_def slab_lean_def split: if_splits)
  have new: "t = ?s" if "t \<in> set (sa_slabs a2)" "sl_addr t = sl_addr ?s" for t
    using that unfolding sl by (auto simp: slab_put_def split: if_splits)
  show ?thesis
  proof (cases "sl_used ?s = 0 \<and> length (sa_slabs a2) > 1")
    case True
    then show ?thesis unfolding a' using old by (auto simp: slab_reclaim_def slab_lean_def Let_def)
  next
    case False
    then have "slab_reclaim a2 ?s = a2" by (auto simp: slab_reclaim_def)
    moreover have "length (sa_slabs a2) = 1" if t: "t \<in> set (sa_slabs a2)" "sl_used t = 0" for t
    proof (cases "sl_addr t = sl_addr ?s")
      case True
      then have "sl_used ?s = 0" using new t by blast
      then show ?thesis using False len ne by linarith
    qed (use old t in blast)
    ultimately show ?thesis unfolding a' by (simp add: slab_lean_def)
  qed
qed

lemma slab_step_lean:
  assumes "slab_step (a, H) (a', H')" and "slab_inv a H" and "slab_lean a"
  shows "slab_lean a'"
  using assms(1)
proof (rule pool_stepE)
  fix os e p e'
  assume "libc_ok os" and "slab_alloc_alloc os a e = Some (Some p, a', e')"
  then show ?thesis using slab_alloc_lean assms(2,3) by blast
next
  fix os e e'
  assume "libc_ok os" and "slab_alloc_alloc os a e = Some (None, a', e')"
  then show ?thesis using slab_alloc_lean assms(2,3) by blast
next
  fix p
  assume "p \<in> H" and "slab_alloc_free a p = Some a'"
  then show ?thesis using slab_free_lean assms(2,3) by blast
next
  fix p w
  assume "a' = slot_poke a p w"
  then show ?thesis using assms(3) by (simp add: slab_lean_def slot_poke_def)
qed

lemma slab_reachable_lean:
  "slab_step\<^sup>*\<^sup>* (a0, H0) (a, H) \<Longrightarrow> slab_inv a0 H0 \<Longrightarrow> slab_lean a0 \<Longrightarrow> slab_lean a"
proof (induction "(a, H)" arbitrary: a H rule: rtranclp_induct)
  case (step y)
  obtain a1 H1 where y: "y = (a1, H1)" by (cases y)
  have "slab_inv a1 H1" using slab.reachable_inv step.hyps(1) step.prems(1) unfolding y by blast
  then show ?case using slab_step_lean step unfolding y by blast
qed

text \<open>
  Memory is given back: in every reachable state in which the client holds no slot, at
  most one slab is left, however many there were before.
\<close>

theorem slab_memory_returned:
  assumes "8 \<le> sz" and "0 < cap" and "unat cap * (unat sz + 7) + 32 < 4294967296"
    and "slab_alloc_init sz cap = Some a0" and "slab_step\<^sup>*\<^sup>* (a0, {}) (a, {})"
  shows "length (sa_slabs a) \<le> 1"
proof -
  have inv: "slab_inv a {}" by (rule slab_reachable_inv [OF assms])
  have "slab_inv a0 {}" using slab_alloc_init_inv [OF assms(1-3)] assms(4) by simp
  moreover have "slab_lean a0" using assms(1,2,4) by (auto simp: slab_alloc_init_def slab_lean_def)
  ultimately have lean: "slab_lean a" using slab_reachable_lean assms(5) by blast
  have "sl_used s = 0" if "s \<in> set (sa_slabs a)" for s
  proof -
    have "unat (sl_used s) = card (held {} (sl_addr s))" using inv that by (simp add: slab_inv_def slab_ok_def)
    then show ?thesis by (simp add: held_def u32_eq_nat)
  qed
  then show ?thesis using lean by (cases "sa_slabs a") (auto simp: slab_lean_def)
qed

theorem slab_memory_returned_witness:
  "\<exists>a0 a1 p a2. slab_alloc_init 8 2 = Some a0 \<and> slab_step\<^sup>*\<^sup>* (a0, {}) (a1, {p}) \<and>
    slab_alloc_free a1 p = Some a2 \<and> length (sa_slabs a2) \<le> 1"
proof -
  obtain a0 a1 p where e: "slab_alloc_init 8 2 = Some a0" "slab_step\<^sup>*\<^sup>* (a0, {}) (a1, {p})"
    using slab_example by blast
  have "slab_inv a1 {p}" by (rule slab_reachable_inv [OF _ _ _ e]) simp_all
  then obtain a2 where f: "slab_alloc_free a1 p = Some a2" using slab.put_law [of a1 "{p}" p] by blast
  have "slab_step (a1, {p}) (a2, {p} - {p})" by (rule step_put) (simp, rule f)
  then have "slab_step\<^sup>*\<^sup>* (a0, {}) (a2, {})" using e(2) by (simp add: rtranclp.rtrancl_into_rtrancl)
  from slab_memory_returned [OF _ _ _ e(1) this] e f show ?thesis by fastforce
qed

section \<open>When a slot is refused\<close>

text \<open>The size of the request for a new slab, the same for the whole life of the allocator.\<close>

definition slab_bytes :: "slab_alloc \<Rightarrow> nat" where
  "slab_bytes a = unat (sa_size a * sa_cap_per_slab a + sizeof_slab)"

lemma slab_bytes_upd [simp]:
  "slab_bytes (a\<lparr>sa_slabs := x\<rparr>) = slab_bytes a" "slab_bytes (a\<lparr>sa_current := c\<rparr>) = slab_bytes a"
  "slab_bytes (a\<lparr>sa_word := m\<rparr>) = slab_bytes a" "slab_bytes (a\<lparr>sa_fresh := n\<rparr>) = slab_bytes a"
  by (simp_all add: slab_bytes_def)

lemma slab_alloc_extend_bytes:
  "slab_alloc_extend os a e = Some (r, a', e') \<Longrightarrow> slab_bytes a' = slab_bytes a"
  by (auto simp: slab_alloc_extend_def Let_def Option.bind_eq_Some_conv split: option.splits)

lemma pop_slot_bytes: "pop_slot a s = Some (p, a') \<Longrightarrow> slab_bytes a' = slab_bytes a"
  by (auto simp: pop_slot_def slab_put_def Option.bind_eq_Some_conv)

lemma slab_alloc_alloc_bytes:
  assumes "slab_alloc_alloc os a e = Some (r, a', e')"
  shows "slab_bytes a' = slab_bytes a"
  using assms
  by (auto simp: slab_alloc_alloc_def Option.bind_eq_Some_conv split: option.splits if_splits
        dest!: pop_slot_bytes slab_alloc_extend_bytes)

lemma slab_alloc_extend_refused:
  assumes "slab_alloc_extend os a e = Some (None, a', e')"
  shows "lc_malloc os (slab_bytes a) = None"
  using assms
  by (auto simp: slab_alloc_extend_def Let_def Option.bind_eq_Some_conv i_malloc_def nomem_def safe_mul_u32_def slab_bytes_def
        split: option.splits if_splits)

lemma slab_alloc_alloc_refused:
  assumes "slab_alloc_alloc os a e = Some (None, a', e')"
  shows "lc_malloc os (slab_bytes a) = None"
  using assms
  by (auto simp: slab_alloc_alloc_def Option.bind_eq_Some_conv split: option.splits if_splits
        dest!: slab_alloc_extend_refused)

end
