(* ===== verification/Block_array.thy ===== *)
theory Block_array
  imports Data_writer Slab_alloc
begin

text \<open>
  The block array of \<^verbatim>\<open>ds/block_array.c\<close>: bytes spread over a chain of blocks of fixed
  capacity that a slab allocator provides. The chain is the list \<open>ba_blocks\<close>, head first; a
  block pointer is an index into it, \<open>cur->next\<close> is the next index, and a null pointer an index
  past the end. What a new block's \<open>data\<close> holds before it is written is the argument
  \<open>junk\<close> of the environment.
\<close>

section \<open>State\<close>

record block =
  bl_addr :: slot
  bl_len :: u32
  bl_data :: "u8 list"

record block_array =
  ba_alloc :: slab_alloc
  ba_cap :: u32
  ba_blocks :: "block list"
  ba_tlen :: u32
  ba_tail :: "u8 list"

record block_env =
  be_libc :: libc
  be_junk :: "slot \<Rightarrow> nat \<Rightarrow> u8"

definition sizeof_block :: u32 where "sizeof_block = 24"
definition sizeof_block_array :: u32 where "sizeof_block_array = 56"

section \<open>Creation\<close>

definition block_array_create :: "libc \<Rightarrow> u32 \<Rightarrow> errp \<Rightarrow> (block_array option \<times> errp) option" where
  "block_array_create os cap_per_node e =
     do {
       ASSERT (cap_per_node > 0);
       (ret, e') \<leftarrow> i_malloc os 1 (sizeof_block_array + cap_per_node) e;
       case ret of
         None \<Rightarrow> Some (None, e')
       | Some obj \<Rightarrow>
           do {
             alloc \<leftarrow> slab_alloc_init (sizeof_block + cap_per_node) 512;
             tail \<leftarrow> mem_load obj (unat sizeof_block_array) (unat cap_per_node);
             Some (Some \<lparr>ba_alloc = alloc, ba_cap = cap_per_node, ba_blocks = [], ba_tlen = 0, ba_tail = tail\<rparr>, e')
           }
     }"

definition block_array_free :: "block_array \<Rightarrow> unit option" where
  "block_array_free r = i_free (Some (slab_alloc_destroy (ba_alloc r)))"

section \<open>Insertion\<close>

definition get_block :: "block_array \<Rightarrow> nat \<Rightarrow> block option" where
  "get_block r i = (if i < length (ba_blocks r) then Some (ba_blocks r ! i) else None)"

definition set_block :: "block_array \<Rightarrow> nat \<Rightarrow> block \<Rightarrow> block_array" where
  "set_block r i b = r\<lparr>ba_blocks := (ba_blocks r)[i := b]\<rparr>"

text \<open>A new block, linked behind \<open>prev\<close> if there is one; gives its position.\<close>

definition block_alloc_empty ::
  "block_env \<Rightarrow> block_array \<Rightarrow> nat option \<Rightarrow> errp \<Rightarrow> (nat option \<times> block_array \<times> errp) option" where
  "block_alloc_empty env r prev e =
     do {
       (ret, alloc, e') \<leftarrow> slab_alloc_alloc (be_libc env) (ba_alloc r) e;
       let r1 = r\<lparr>ba_alloc := alloc\<rparr>;
       case ret of
         None \<Rightarrow> Some (None, r1, e')
       | Some p \<Rightarrow>
           let blk = \<lparr>bl_addr = p, bl_len = 0, bl_data = map (be_junk env p) [0..<unat (ba_cap r)]\<rparr> in
           (case prev of
              None \<Rightarrow> Some (Some 0, r1\<lparr>ba_blocks := [blk]\<rparr>, e')
            | Some i \<Rightarrow>
                Some (Some (i + 1),
                      r1\<lparr>ba_blocks := take (i + 1) (ba_blocks r) @ blk # drop (i + 1) (ba_blocks r)\<rparr>, e'))
     }"

text \<open>\<open>while (ofst > cur->len)\<close>; \<open>cs\<close> is the chain from \<open>cur\<close> on, \<open>i\<close> the position of \<open>cur\<close>.\<close>

fun insert_seek :: "block list \<Rightarrow> nat \<Rightarrow> u32 \<Rightarrow> (nat \<times> u32) option" where
  "insert_seek [] i ofst = None"
| "insert_seek (c # cs) i ofst =
     (if ofst > bl_len c
      then do { ASSERT (cs \<noteq> []); insert_seek cs (i + 1) (ofst - bl_len c) }
      else Some (i, ofst))"

text \<open>
  One round of the two copy loops: move on to a new block when \<open>cur\<close> is full (a failure of the
  allocator panics), then append what fits of the \<open>left\<close> bytes of \<open>src\<close> from \<open>off\<close> on.
\<close>

definition append_round ::
  "block_env \<Rightarrow> block_array \<Rightarrow> nat \<Rightarrow> u8 list \<Rightarrow> nat \<Rightarrow> u32 \<Rightarrow> errp \<Rightarrow>
   (u32 \<times> block_array \<times> nat \<times> errp) option" where
  "append_round env r cur src off left e =
     do {
       c0 \<leftarrow> get_block r cur;
       (r1, cur1, e1) \<leftarrow>
         (if bl_len c0 = ba_cap r
          then do {
            (nw, r', e') \<leftarrow> block_alloc_empty env r (Some cur) e;
            case nw of None \<Rightarrow> UNREACHABLE | Some i \<Rightarrow> Some (r', i, e')
          }
          else Some (r, cur, e));
       c \<leftarrow> get_block r1 cur1;
       let next_write = min (ba_cap r1 - bl_len c) left;
       bs \<leftarrow> mem_load src off (unat next_write);
       d \<leftarrow> mem_store (bl_data c) (unat (bl_len c)) bs;
       Some (next_write, set_block r1 cur1 (c\<lparr>bl_data := d, bl_len := bl_len c + next_write\<rparr>), cur1, e1)
     }"

text \<open>\<open>while (slen > 0)\<close>\<close>

partial_function (option) write_source ::
  "block_env \<Rightarrow> block_array \<Rightarrow> nat \<Rightarrow> u8 list \<Rightarrow> nat \<Rightarrow> u32 \<Rightarrow> errp \<Rightarrow> (block_array \<times> nat \<times> errp) option" where
  "write_source env r cur src off slen e =
     (if slen > 0
      then do {
        (n, r', cur', e') \<leftarrow> append_round env r cur src off slen e;
        ASSERT (n \<le> slen);
        write_source env r' cur' src (off + unat n) (slen - n) e'
      }
      else Some (r, cur, e))"

declare write_source.simps [code]

text \<open>\<open>while (twritten < r->tlen)\<close>; the tail buffer is not written in between.\<close>

partial_function (option) write_tail ::
  "block_env \<Rightarrow> block_array \<Rightarrow> nat \<Rightarrow> u32 \<Rightarrow> errp \<Rightarrow> (block_array \<times> nat \<times> errp) option" where
  "write_tail env r cur twritten e =
     (if twritten < ba_tlen r
      then do {
        (n, r', cur', e') \<leftarrow> append_round env r cur (ba_tail r) (unat twritten) (ba_tlen r - twritten) e;
        write_tail env r' cur' (twritten + n) e'
      }
      else Some (r, cur, e))"

declare write_tail.simps [code]

text \<open>Saves the bytes behind the insertion point and cuts the block there.\<close>

definition save_tail :: "block_array \<Rightarrow> nat \<Rightarrow> u32 \<Rightarrow> block_array option" where
  "save_tail r cur ofst =
     do {
       c \<leftarrow> get_block r cur;
       let tlen = bl_len c - ofst;
       if tlen > 0
       then do {
         bs \<leftarrow> mem_load (bl_data c) (unat ofst) (unat tlen);
         t \<leftarrow> mem_store (ba_tail r) 0 bs;
         Some (set_block (r\<lparr>ba_tlen := tlen, ba_tail := t\<rparr>) cur (c\<lparr>bl_len := ofst\<rparr>))
       }
       else Some (r\<lparr>ba_tlen := tlen\<rparr>)
     }"

definition block_array_insert ::
  "block_env \<Rightarrow> block_array \<Rightarrow> u32 \<Rightarrow> u8 list \<Rightarrow> u32 \<Rightarrow> errp \<Rightarrow> (err_t \<times> block_array \<times> errp) option" where
  "block_array_insert env r ofst src slen e =
     do {
       ASSERT (slen > 0);
       (r0, e0) \<leftarrow>
         (if ba_blocks r = []
          then do {
            (nw, r', e') \<leftarrow> block_alloc_empty env r None e;
            if nw = None then UNREACHABLE else Some (r', e')
          }
          else Some (r, e));
       (cur, ofst') \<leftarrow> insert_seek (ba_blocks r0) 0 ofst;
       r1 \<leftarrow> save_tail r0 cur ofst';
       (r2, cur2, e2) \<leftarrow> write_source env r1 cur src 0 slen e0;
       (r3, cur3, e3) \<leftarrow> write_tail env r2 cur2 0 e2;
       Some (SUCCESS, r3\<lparr>ba_tlen := 0\<rparr>, e3)
     }"

section \<open>Strided access\<close>

record stride_state =
  ss_next :: u32
  ss_active :: bool

text \<open>The state that follows a finished element: the next one, or the gap before it.\<close>

definition after_element :: "stride \<Rightarrow> u32 \<Rightarrow> stride_state" where
  "after_element str sz =
     (if st_stride str = 1 then \<lparr>ss_next = sz, ss_active = True\<rparr>
      else \<lparr>ss_next = ucast ((st_stride str - 1) * ucast sz), ss_active = False\<rparr>)"

text \<open>What a round does to the state when it has used up \<open>n\<close> bytes of its run.\<close>

definition advance :: "stride \<Rightarrow> u32 \<Rightarrow> stride_state \<Rightarrow> u32 \<Rightarrow> stride_state" where
  "advance str sz st n =
     (if ss_next st - n = 0
      then if ss_active st then after_element str sz else \<lparr>ss_next = sz, ss_active = True\<rparr>
      else st\<lparr>ss_next := ss_next st - n\<rparr>)"

text \<open>The number of finished elements after the round.\<close>

definition count_done :: "stride_state \<Rightarrow> u32 \<Rightarrow> u32 \<Rightarrow> u32" where
  "count_done st n tot = (if ss_active st \<and> ss_next st - n = 0 then tot + 1 else tot)"

text \<open>\<open>MIN (state.next, cur->len - bidx)\<close>\<close>

definition next_chunk :: "stride_state \<Rightarrow> block \<Rightarrow> u32 \<Rightarrow> u32" where
  "next_chunk st c bidx = min (ss_next st) (bl_len c - bidx)"

text \<open>The block and the offset in it at which byte \<open>bidx\<close> lies.\<close>

fun block_seek :: "block list \<Rightarrow> nat \<Rightarrow> u32 \<Rightarrow> (nat \<times> u32) option" where
  "block_seek [] i bidx = None"
| "block_seek (c # cs) i bidx =
     (if bidx \<ge> bl_len c then block_seek cs (i + 1) (bidx - bl_len c) else Some (i, bidx))"

text \<open>\<open>bidx == cur->len\<close>: on to the next block; \<open>None\<close> when there is none.\<close>

definition next_pos :: "block_array \<Rightarrow> nat \<Rightarrow> u32 \<Rightarrow> (nat \<times> u32) option" where
  "next_pos r cur bidx =
     (if bidx = bl_len (ba_blocks r ! cur)
      then if cur + 1 < length (ba_blocks r) then Some (cur + 1, 0) else None
      else Some (cur, bidx))"

partial_function (option) block_read_loop ::
  "block_array \<Rightarrow> stride \<Rightarrow> u32 \<Rightarrow> nat \<Rightarrow> u32 \<Rightarrow> stride_state \<Rightarrow> u32 \<Rightarrow> u8 list \<Rightarrow> nat \<Rightarrow> (u64 \<times> u8 list) option" where
  "block_read_loop r str sz cur bidx st total_read dest doff =
     (if unat total_read < unat (st_nelems str)
      then do {
        c \<leftarrow> get_block r cur;
        let n = next_chunk st c bidx;
        dest' \<leftarrow>
          (if ss_active st \<and> n > 0
           then do { bs \<leftarrow> mem_load (bl_data c) (unat bidx) (unat n); mem_store dest doff bs }
           else Some dest);
        let doff' = (if ss_active st then doff + unat n else doff);
        let tot' = count_done st n total_read;
        let st' = advance str sz st n;
        case next_pos r cur (bidx + n) of
          None \<Rightarrow> Some (ucast tot', dest')
        | Some (cur', bidx') \<Rightarrow> block_read_loop r str sz cur' bidx' st' tot' dest' doff'
      }
      else Some (ucast total_read, dest))"

declare block_read_loop.simps [code]

definition block_array_read :: "block_array \<Rightarrow> stride \<Rightarrow> u32 \<Rightarrow> u8 list \<Rightarrow> (u64 \<times> u8 list) option" where
  "block_array_read r str sz dest =
     (case block_seek (ba_blocks r) 0 (ucast (st_start str * ucast sz)) of
        None \<Rightarrow> Some (0, dest)
      | Some (cur, bidx) \<Rightarrow> block_read_loop r str sz cur bidx \<lparr>ss_next = sz, ss_active = True\<rparr> 0 dest 0)"

partial_function (option) block_write_loop ::
  "block_array \<Rightarrow> stride \<Rightarrow> u32 \<Rightarrow> nat \<Rightarrow> u32 \<Rightarrow> stride_state \<Rightarrow> u32 \<Rightarrow> u8 list \<Rightarrow> nat \<Rightarrow> (u64 \<times> block_array) option" where
  "block_write_loop r str sz cur bidx st total_written src soff =
     (if unat total_written < unat (st_nelems str)
      then do {
        c \<leftarrow> get_block r cur;
        let n = next_chunk st c bidx;
        d \<leftarrow>
          (if ss_active st \<and> n > 0
           then do { bs \<leftarrow> mem_load src soff (unat n); mem_store (bl_data c) (unat bidx) bs }
           else Some (bl_data c));
        let r' = set_block r cur (c\<lparr>bl_data := d\<rparr>);
        let soff' = (if ss_active st then soff + unat n else soff);
        let tot' = count_done st n total_written;
        let st' = advance str sz st n;
        case next_pos r' cur (bidx + n) of
          None \<Rightarrow> Some (ucast tot', r')
        | Some (cur', bidx') \<Rightarrow> block_write_loop r' str sz cur' bidx' st' tot' src soff'
      }
      else Some (ucast total_written, r))"

declare block_write_loop.simps [code]

definition block_array_write :: "block_array \<Rightarrow> stride \<Rightarrow> u32 \<Rightarrow> u8 list \<Rightarrow> (u64 \<times> block_array) option" where
  "block_array_write r str sz src =
     (case block_seek (ba_blocks r) 0 (ucast (st_start str * ucast sz)) of
        None \<Rightarrow> Some (0, r)
      | Some (cur, bidx) \<Rightarrow> block_write_loop r str sz cur bidx \<lparr>ss_next = sz, ss_active = True\<rparr> 0 src 0)"

section \<open>Removal\<close>

text \<open>The block array under removal, with the read and the write position.\<close>

record remove_pos =
  rp_arr :: block_array
  rp_rcur :: nat
  rp_rbidx :: u32
  rp_wcur :: nat
  rp_wbidx :: u32

text \<open>Moves \<open>n\<close> bytes from the read to the write position and steps over a full write block.\<close>

definition shift_bytes :: "remove_pos \<Rightarrow> u32 \<Rightarrow> remove_pos option" where
  "shift_bytes p n =
     do {
       let r = rp_arr p;
       rc \<leftarrow> get_block r (rp_rcur p);
       wc \<leftarrow> get_block r (rp_wcur p);
       d \<leftarrow> (if n > 0
            then do {
              bs \<leftarrow> mem_load (bl_data rc) (unat (rp_rbidx p)) (unat n);
              mem_store (bl_data wc) (unat (rp_wbidx p)) bs
            }
            else Some (bl_data wc));
       let wc' = wc\<lparr>bl_data := d\<rparr>;
       let wbidx = rp_wbidx p + n;
       let p' = p\<lparr>rp_rbidx := rp_rbidx p + n\<rparr>;
       if wbidx = ba_cap r
       then do {
         ASSERT (rp_wcur p + 1 = rp_rcur p);
         Some (p'\<lparr>rp_arr := set_block r (rp_wcur p) (wc'\<lparr>bl_len := ba_cap r\<rparr>),
                  rp_wcur := rp_wcur p + 1, rp_wbidx := 0\<rparr>)
       }
       else Some (p'\<lparr>rp_arr := set_block r (rp_wcur p) wc', rp_wbidx := wbidx\<rparr>)
     }"

text \<open>Unlinks block \<open>i\<close> and returns it to the slab allocator.\<close>

definition delete_block :: "block_array \<Rightarrow> nat \<Rightarrow> block_array option" where
  "delete_block r i =
     do {
       c \<leftarrow> get_block r i;
       alloc \<leftarrow> slab_alloc_free (ba_alloc r) (bl_addr c);
       Some (r\<lparr>ba_alloc := alloc, ba_blocks := take i (ba_blocks r) @ drop (i + 1) (ba_blocks r)\<rparr>)
     }"

text \<open>At the end of the read block: on to the next; a read block that is not the write block goes.\<close>

definition leave_block :: "remove_pos \<Rightarrow> remove_pos option" where
  "leave_block p =
     (if rp_rcur p \<noteq> rp_wcur p
      then do { r' \<leftarrow> delete_block (rp_arr p) (rp_rcur p); Some (p\<lparr>rp_arr := r', rp_rbidx := 0\<rparr>) }
      else Some (p\<lparr>rp_rcur := rp_rcur p + 1, rp_rbidx := 0\<rparr>))"

definition at_block_end :: "remove_pos \<Rightarrow> bool" where
  "at_block_end p \<longleftrightarrow> rp_rbidx p = bl_len (ba_blocks (rp_arr p) ! rp_rcur p)"

text \<open>
  One round: the next run of bytes is copied out and skipped, or moved to the write position.
\<close>

definition remove_round ::
  "remove_pos \<Rightarrow> stride_state \<Rightarrow> u8 list option \<Rightarrow> nat \<Rightarrow> (remove_pos \<times> u32 \<times> u8 list option) option" where
  "remove_round p st dest doff =
     do {
       c \<leftarrow> get_block (rp_arr p) (rp_rcur p);
       if ss_active st
       then do {
         let n = next_chunk st c (rp_rbidx p);
         dest' \<leftarrow> (case dest of
                    Some d \<Rightarrow>
                      if n > 0
                      then do {
                        bs \<leftarrow> mem_load (bl_data c) (unat (rp_rbidx p)) (unat n);
                        d' \<leftarrow> mem_store d doff bs;
                        Some (Some d')
                      }
                      else Some dest
                  | None \<Rightarrow> Some None);
         Some (p\<lparr>rp_rbidx := rp_rbidx p + n\<rparr>, n, dest')
       }
       else do {
         let n = min (min (ss_next st) (ba_cap (rp_arr p) - rp_wbidx p)) (bl_len c - rp_rbidx p);
         p' \<leftarrow> shift_bytes p n;
         Some (p', n, dest)
       }
     }"

partial_function (option) block_remove_loop ::
  "stride \<Rightarrow> u32 \<Rightarrow> remove_pos \<Rightarrow> stride_state \<Rightarrow> u32 \<Rightarrow> u8 list option \<Rightarrow> nat \<Rightarrow>
   (remove_pos \<times> u32 \<times> u8 list option) option" where
  "block_remove_loop str sz p st tot dest doff =
     (if unat tot < unat (st_nelems str)
      then do {
        (p1, n, dest') \<leftarrow> remove_round p st dest doff;
        let doff' = (if ss_active st then doff + unat n else doff);
        let tot' = count_done st n tot;
        let st' = advance str sz st n;
        if at_block_end p1
        then do {
          p2 \<leftarrow> leave_block p1;
          if rp_rcur p2 < length (ba_blocks (rp_arr p2))
          then block_remove_loop str sz p2 st' tot' dest' doff'
          else Some (p2, tot', dest')
        }
        else block_remove_loop str sz p1 st' tot' dest' doff'
      }
      else Some (p, tot, dest))"

declare block_remove_loop.simps [code]

text \<open>Moves what is left of the read block.\<close>

partial_function (option) block_remove_rest :: "remove_pos \<Rightarrow> remove_pos option" where
  "block_remove_rest p =
     do {
       c \<leftarrow> get_block (rp_arr p) (rp_rcur p);
       p' \<leftarrow> shift_bytes p (min (ba_cap (rp_arr p) - rp_wbidx p) (bl_len c - rp_rbidx p));
       if at_block_end p' then leave_block p' else block_remove_rest p'
     }"

declare block_remove_rest.simps [code]

definition block_array_remove ::
  "block_array \<Rightarrow> stride \<Rightarrow> u32 \<Rightarrow> u8 list option \<Rightarrow> (int \<times> u8 list option \<times> block_array) option" where
  "block_array_remove r str sz dest =
     (case block_seek (ba_blocks r) 0 (ucast (st_start str * ucast sz)) of
        None \<Rightarrow> Some (0, dest, r)
      | Some (cur, bidx) \<Rightarrow>
          do {
            (p, tot, dest') \<leftarrow> block_remove_loop str sz
              \<lparr>rp_arr = r, rp_rcur = cur, rp_rbidx = bidx, rp_wcur = cur, rp_wbidx = bidx\<rparr>
              \<lparr>ss_next = sz, ss_active = True\<rparr> 0 dest 0;
            p' \<leftarrow> (if rp_rcur p < length (ba_blocks (rp_arr p)) then block_remove_rest p else Some p);
            wc \<leftarrow> get_block (rp_arr p') (rp_wcur p');
            Some (int (unat tot), dest', set_block (rp_arr p') (rp_wcur p') (wc\<lparr>bl_len := rp_wbidx p'\<rparr>))
          })"

section \<open>The table\<close>

fun getlen_loop :: "block list \<Rightarrow> u64 \<Rightarrow> u64" where
  "getlen_loop [] len = len"
| "getlen_loop (c # cs) len = getlen_loop cs (len + ucast (bl_len c))"

definition block_array_getlen :: "block_array \<Rightarrow> u64" where
  "block_array_getlen r = getlen_loop (ba_blocks r) 0"

definition block_array_data_writer :: "block_env \<Rightarrow> block_array data_writer" where
  "block_array_data_writer env =
     \<lparr>dw_insert = block_array_insert env,
      dw_read = (\<lambda>arr str sz dest e. do { (n, d) \<leftarrow> block_array_read arr str sz dest; Some (sint n, d, arr, e) }),
      dw_write = (\<lambda>arr str sz src e. do { (n, arr') \<leftarrow> block_array_write arr str sz src; Some (sint n, arr', e) }),
      dw_remove = (\<lambda>arr str sz dest e.
         do { (n, d, arr') \<leftarrow> block_array_remove arr str sz dest; Some (n, d, arr', e) }),
      dw_getlen = (\<lambda>arr e. Some (sint (block_array_getlen arr), arr, e))\<rparr>"

end
