(* ===== verification/Block_insert.thy ===== *)
theory Block_insert
  imports Block_array
begin

text \<open>
  What the block array holds, its invariant, and insertion: the seek, the saving of the
  block's tail and the two copy loops together splice the source in at the offset.
\<close>

section \<open>Contents and invariant\<close>

definition blk_bytes :: "block \<Rightarrow> u8 list" where
  "blk_bytes b = take (unat (bl_len b)) (bl_data b)"

definition chain_bytes :: "block list \<Rightarrow> u8 list" where
  "chain_bytes bs = concat (map blk_bytes bs)"

lemma chain_bytes_simps [simp]:
  "chain_bytes [] = []" "chain_bytes (b # bs) = blk_bytes b @ chain_bytes bs"
  "chain_bytes (bs @ cs) = chain_bytes bs @ chain_bytes cs"
  by (simp_all add: chain_bytes_def)

definition ba_bytes :: "block_array \<Rightarrow> u8 list" where
  "ba_bytes r = chain_bytes (ba_blocks r)"

definition block_ok :: "u32 \<Rightarrow> block \<Rightarrow> bool" where
  "block_ok cap b \<longleftrightarrow> bl_len b \<le> cap \<and> length (bl_data b) = unat cap"

text \<open>
  The blocks of the chain are slots that the array holds of its slab allocator, each once.
\<close>

definition ba_inv :: "block_array \<Rightarrow> bool" where
  "ba_inv r \<longleftrightarrow>
     slab_inv (ba_alloc r) (set (map bl_addr (ba_blocks r))) \<and> distinct (map bl_addr (ba_blocks r)) \<and>
     0 < ba_cap r \<and> length (ba_tail r) = unat (ba_cap r) \<and> (\<forall>b\<in>set (ba_blocks r). block_ok (ba_cap r) b)"

lemma length_blk_bytes [simp]: "block_ok cap b \<Longrightarrow> length (blk_bytes b) = unat (bl_len b)"
  by (simp add: block_ok_def blk_bytes_def word_le_nat_alt)

text \<open>Replacing a block by one at the same address.\<close>

lemma ba_inv_set:
  assumes "ba_inv r" and "ba_blocks r = B @ c # A" and "bl_addr c' = bl_addr c" and "block_ok (ba_cap r) c'"
  shows "ba_inv (set_block r (length B) c') \<and> ba_blocks (set_block r (length B) c') = B @ c' # A"
  using assms by (auto simp: ba_inv_def set_block_def)

lemma set_block_fields [simp]:
  "ba_cap (set_block r i b) = ba_cap r" "ba_tail (set_block r i b) = ba_tail r"
  "ba_tlen (set_block r i b) = ba_tlen r" "ba_alloc (set_block r i b) = ba_alloc r"
  by (simp_all add: set_block_def)

lemma get_block_at [simp]: "ba_blocks r = B @ c # A \<Longrightarrow> get_block r (length B) = Some c"
  by (simp add: get_block_def)

section \<open>Insertion\<close>

text \<open>
  The heap refuses a new slab to the array's allocator. A block that is asked for then is
  handed out of an older slab or not at all, and insertion panics on a refused block.
\<close>

definition slab_refused :: "block_env \<Rightarrow> block_array \<Rightarrow> bool" where
  "slab_refused env r \<longleftrightarrow> lc_malloc (be_libc env) (slab_bytes (ba_alloc r)) = None"

lemma slab_refused_cong:
  "slab_bytes (ba_alloc r') = slab_bytes (ba_alloc r) \<Longrightarrow> slab_refused env r' = slab_refused env r"
  by (simp add: slab_refused_def)

text \<open>The slot of a new block, given the slots in use.\<close>

lemma block_slot:
  assumes "libc_ok (be_libc env)" and "ba_inv r"
  obtains (refused) a' e' where "slab_alloc_alloc (be_libc env) (ba_alloc r) e = Some (None, a', e')" "slab_refused env r"
    | (granted) p a' where "slab_alloc_alloc (be_libc env) (ba_alloc r) e = Some (Some p, a', e)"
        "p \<notin> set (map bl_addr (ba_blocks r))" "slab_inv a' (insert p (set (map bl_addr (ba_blocks r))))"
        "slab_bytes a' = slab_bytes (ba_alloc r)"
proof -
  let ?H = "set (map bl_addr (ba_blocks r))"
  have "slab_inv (ba_alloc r) ?H" using assms(2) by (simp add: ba_inv_def)
  from slab_alloc_alloc_ok [OF assms(1) this, of e] obtain q a' e' where
    q: "slab_alloc_alloc (be_libc env) (ba_alloc r) e = Some (q, a', e')" "q \<noteq> None \<longrightarrow> e' = e"
      "case q of None \<Rightarrow> slab_inv a' ?H | Some p \<Rightarrow> p \<notin> ?H \<and> slab_inv a' (insert p ?H)" by blast
  show thesis
  proof (cases q)
    case None
    then show thesis using q refused slab_alloc_alloc_refused [of _ "ba_alloc r" e a' e'] by (simp add: slab_refused_def)
  next
    case (Some p)
    then show thesis using q granted slab_alloc_alloc_bytes [OF q(1)] by simp
  qed
qed

lemma block_alloc_empty_head:
  assumes "libc_ok (be_libc env)" and "ba_inv r" and "ba_blocks r = []"
  shows "(\<exists>r' e'. block_alloc_empty env r None e = Some (None, r', e')) \<and> slab_refused env r \<or>
    (\<exists>r' c. block_alloc_empty env r None e = Some (Some 0, r', e) \<and> ba_inv r' \<and>
     ba_blocks r' = [c] \<and> blk_bytes c = [] \<and> bl_len c = 0 \<and> ba_cap r' = ba_cap r \<and>
     slab_bytes (ba_alloc r') = slab_bytes (ba_alloc r))"
  by (rule block_slot [OF assms(1,2), of e])
    (use assms(2,3) in \<open>auto simp: block_alloc_empty_def ba_inv_def blk_bytes_def block_ok_def\<close>)

lemma block_alloc_empty_behind:
  assumes "libc_ok (be_libc env)" and "ba_inv r" and "ba_blocks r = B @ c # A"
  shows "(\<exists>r' e'. block_alloc_empty env r (Some (length B)) e = Some (None, r', e')) \<and> slab_refused env r \<or>
    (\<exists>r' n. block_alloc_empty env r (Some (length B)) e = Some (Some (length (B @ [c])), r', e) \<and> ba_inv r' \<and>
     ba_blocks r' = (B @ [c]) @ n # A \<and> blk_bytes n = [] \<and> bl_len n = 0 \<and>
     ba_cap r' = ba_cap r \<and> ba_tail r' = ba_tail r \<and> ba_tlen r' = ba_tlen r \<and>
     slab_bytes (ba_alloc r') = slab_bytes (ba_alloc r))"
proof (rule block_slot [OF assms(1,2), of e])
  fix p a assume p: "slab_alloc_alloc (be_libc env) (ba_alloc r) e = Some (Some p, a, e)"
    "p \<notin> set (map bl_addr (ba_blocks r))" "slab_inv a (insert p (set (map bl_addr (ba_blocks r))))"
    and sb: "slab_bytes a = slab_bytes (ba_alloc r)"
  let ?n = "\<lparr>bl_addr = p, bl_len = 0, bl_data = map (be_junk env p) [0..<unat (ba_cap r)]\<rparr>"
  let ?r = "r\<lparr>ba_alloc := a, ba_blocks := (B @ [c]) @ ?n # A\<rparr>"
  have "set (map bl_addr (ba_blocks ?r)) = insert p (set (map bl_addr (ba_blocks r)))" using assms(3) by auto
  then have "ba_inv ?r"
    using assms(2,3) p by (auto simp: ba_inv_def block_ok_def)
  moreover have "block_alloc_empty env r (Some (length B)) e = Some (Some (length (B @ [c])), ?r, e)"
    using p(1) assms(3) by (simp add: block_alloc_empty_def)
  ultimately show ?thesis using sb by (intro disjI2 exI [of _ ?r] exI [of _ ?n]) (simp add: blk_bytes_def)
qed (simp add: block_alloc_empty_def)

lemma blk_bytes_append:
  assumes "block_ok cap c" and "unat (bl_len c) + length bs \<le> unat cap" and "unat n = length bs"
  shows "\<exists>d. mem_store (bl_data c) (unat (bl_len c)) bs = Some d \<and>
    block_ok cap (c\<lparr>bl_data := d, bl_len := bl_len c + n\<rparr>) \<and>
    blk_bytes (c\<lparr>bl_data := d, bl_len := bl_len c + n\<rparr>) = blk_bytes c @ bs"
proof -
  let ?d = "overwrite (bl_data c) (unat (bl_len c)) bs"
  have l: "length (bl_data c) = unat cap" using assms(1) by (simp add: block_ok_def)
  have s: "unat (bl_len c + n) = unat (bl_len c) + length bs"
    using assms(2,3) u32_fits [OF assms(2)] by simp
  have "take (unat (bl_len c) + length bs) ?d = take (unat (bl_len c)) (bl_data c) @ bs"
    by (rule take_overwrite_full) (use assms l in simp)
  then show ?thesis using assms l s by (simp add: block_ok_def blk_bytes_def word_le_nat_alt)
qed

text \<open>The block that a round of the copy loops writes to.\<close>

lemma write_block:
  fixes e :: errp
  assumes env: "libc_ok (be_libc env)" and inv: "ba_inv r" and bl: "ba_blocks r = B @ c # A"
  defines "step \<equiv> (if bl_len c = ba_cap r
          then do {
            (nw, r', e') \<leftarrow> block_alloc_empty env r (Some (length B)) e;
            case nw of None \<Rightarrow> UNREACHABLE | Some i \<Rightarrow> Some (r', i, e')
          }
          else Some (r, length B, e))"
  obtains (refused) "step = None" "slab_refused env r"
    | (granted) r1 B1 c1 where "step = Some (r1, length B1, e)" "ba_inv r1" "ba_blocks r1 = B1 @ c1 # A"
        "chain_bytes (B1 @ [c1]) = chain_bytes (B @ [c])" "bl_len c1 \<noteq> ba_cap r1" "ba_tail r1 = ba_tail r"
        "ba_tlen r1 = ba_tlen r" "slab_bytes (ba_alloc r1) = slab_bytes (ba_alloc r)"
proof (cases "bl_len c = ba_cap r")
  case True
  from block_alloc_empty_behind [OF env inv bl, of e] show thesis
  proof (elim disjE exE conjE)
    fix r' e' assume "block_alloc_empty env r (Some (length B)) e = Some (None, r', e')" "slab_refused env r"
    then show thesis using refused True by (simp add: step_def UNREACHABLE_def)
  next
    fix r' n assume n: "block_alloc_empty env r (Some (length B)) e = Some (Some (length (B @ [c])), r', e)"
      "ba_inv r'" "ba_blocks r' = (B @ [c]) @ n # A" "blk_bytes n = []" "bl_len n = 0"
      "ba_cap r' = ba_cap r" "ba_tail r' = ba_tail r" "ba_tlen r' = ba_tlen r"
      "slab_bytes (ba_alloc r') = slab_bytes (ba_alloc r)"
    then have "bl_len n \<noteq> ba_cap r'" by (auto simp: ba_inv_def)
    then show thesis using granted [of r' "B @ [c]" n] n True by (simp add: step_def)
  qed
next
  case False
  then show thesis using granted [of r B c] inv bl by (simp add: step_def)
qed

lemma append_round_ok:
  assumes env: "libc_ok (be_libc env)" and inv: "ba_inv r" and bl: "ba_blocks r = B @ c # A"
    and left: "0 < left" and src: "off + unat left \<le> length src"
  shows "append_round env r (length B) src off left e = None \<and> slab_refused env r \<or>
    (\<exists>n r' B' c'. append_round env r (length B) src off left e = Some (n, r', length B', e) \<and>
     ba_inv r' \<and> ba_blocks r' = B' @ c' # A \<and> 0 < n \<and> n \<le> left \<and>
     chain_bytes (B' @ [c']) = chain_bytes (B @ [c]) @ take (unat n) (drop off src) \<and>
     ba_tail r' = ba_tail r \<and> ba_tlen r' = ba_tlen r \<and> slab_bytes (ba_alloc r') = slab_bytes (ba_alloc r))"
proof (cases rule: write_block [OF env inv bl, of e, case_names refused granted])
  case refused
  then show ?thesis using bl unfolding append_round_def by (simp split del: if_split)
next
  case (granted r1 B1 c1)
  note r1 = granted(1) and i1 = granted(2-7)
  have ok: "block_ok (ba_cap r1) c1" using i1(1,2) by (simp add: ba_inv_def)
  then have lt: "unat (bl_len c1) < unat (ba_cap r1)"
    using i1(4) by (simp add: block_ok_def word_le_nat_alt u32_eq_nat)
  let ?n = "min (ba_cap r1 - bl_len c1) left"
  have n: "unat ?n = min (unat (ba_cap r1) - unat (bl_len c1)) (unat left)" using lt by simp
  let ?bs = "take (unat ?n) (drop off src)"
  have lb: "length ?bs = unat ?n" using src n by simp
  have ld: "mem_load src off (unat ?n) = Some ?bs" using src n by simp
  have "unat (bl_len c1) + length ?bs \<le> unat (ba_cap r1)" unfolding lb using n lt by simp
  from blk_bytes_append [OF ok this lb [symmetric]] obtain d where
    d: "mem_store (bl_data c1) (unat (bl_len c1)) ?bs = Some d"
      "block_ok (ba_cap r1) (c1\<lparr>bl_data := d, bl_len := bl_len c1 + ?n\<rparr>)"
      "blk_bytes (c1\<lparr>bl_data := d, bl_len := bl_len c1 + ?n\<rparr>) = blk_bytes c1 @ ?bs" by blast
  let ?c = "c1\<lparr>bl_data := d, bl_len := bl_len c1 + ?n\<rparr>"
  have set: "ba_inv (set_block r1 (length B1) ?c) \<and> ba_blocks (set_block r1 (length B1) ?c) = B1 @ ?c # A"
    by (rule ba_inv_set [OF i1(1,2) _ d(2)]) simp
  have "append_round env r (length B) src off left e = Some (?n, set_block r1 (length B1) ?c, length B1, e)"
    unfolding append_round_def using bl r1 i1(2) ld d(1) by (simp add: Let_def split del: if_split)
  moreover have "0 < ?n" using lt left n by (simp add: word_less_nat_alt)
  moreover have "chain_bytes (B1 @ [?c]) = chain_bytes (B @ [c]) @ ?bs"
    using i1(3) d(3) by simp
  ultimately show ?thesis using set i1(5,6) granted(8)
    by (intro disjI2 exI [of _ ?n] exI [of _ "set_block r1 (length B1) ?c"] exI [of _ B1] exI [of _ ?c]) simp
qed

lemma write_source_ok:
  assumes "libc_ok (be_libc env)"
  shows "ba_inv r \<Longrightarrow> ba_blocks r = B @ c # A \<Longrightarrow> off + unat slen \<le> length src \<Longrightarrow>
    write_source env r (length B) src off slen e = None \<and> slab_refused env r \<or>
    (\<exists>r' B' c'. write_source env r (length B) src off slen e = Some (r', length B', e) \<and>
      ba_inv r' \<and> ba_blocks r' = B' @ c' # A \<and>
      chain_bytes (B' @ [c']) = chain_bytes (B @ [c]) @ take (unat slen) (drop off src) \<and>
      ba_tail r' = ba_tail r \<and> ba_tlen r' = ba_tlen r \<and> slab_bytes (ba_alloc r') = slab_bytes (ba_alloc r))"
proof (induction "unat slen" arbitrary: r B c off slen rule: less_induct)
  case less
  show ?case
  proof (cases "slen = 0")
    case True
    then show ?thesis using less.prems by (subst write_source.simps) auto
  next
    case False
    then have pos: "0 < slen" by (simp add: word_neq_0_conv)
    show ?thesis
    proof (cases "append_round env r (length B) src off slen e = None \<and> slab_refused env r")
      case True
      then show ?thesis using pos by (subst write_source.simps) simp
    next
      case False
      with append_round_ok [OF assms less.prems(1,2) pos less.prems(3), of e] obtain n r1 B1 c1 where
        a: "append_round env r (length B) src off slen e = Some (n, r1, length B1, e)" "ba_inv r1"
          "ba_blocks r1 = B1 @ c1 # A" "0 < n" "n \<le> slen"
          "chain_bytes (B1 @ [c1]) = chain_bytes (B @ [c]) @ take (unat n) (drop off src)"
          "ba_tail r1 = ba_tail r" "ba_tlen r1 = ba_tlen r" "slab_bytes (ba_alloc r1) = slab_bytes (ba_alloc r)" by blast
      have nn: "0 < unat n" "unat n \<le> unat slen" using a(4,5) by (simp_all add: word_less_nat_alt word_le_nat_alt)
      have sub: "unat (slen - n) = unat slen - unat n" using nn by simp
      have run: "write_source env r (length B) src off slen e = write_source env r1 (length B1) src (off + unat n) (slen - n) e"
        using pos a(1,5) by (subst write_source.simps) simp
      have "unat (slen - n) < unat slen" "(off + unat n) + unat (slen - n) \<le> length src"
        using sub nn less.prems(3) by linarith+
      from less.hyps [OF this(1) a(2,3) this(2)] show ?thesis
      proof (elim disjE exE conjE)
        fix r' B' c' assume
          r': "write_source env r1 (length B1) src (off + unat n) (slen - n) e = Some (r', length B', e)" "ba_inv r'"
            "ba_blocks r' = B' @ c' # A"
            "chain_bytes (B' @ [c']) = chain_bytes (B1 @ [c1]) @ take (unat (slen - n)) (drop (off + unat n) src)"
            "ba_tail r' = ba_tail r1" "ba_tlen r' = ba_tlen r1" "slab_bytes (ba_alloc r') = slab_bytes (ba_alloc r1)"
        have "take (unat n) (drop off src) @ take (unat (slen - n)) (drop (off + unat n) src) = take (unat slen) (drop off src)"
          using take_split [OF nn(2), of "drop off src"] sub by (simp add: add.commute)
        then have "chain_bytes (B' @ [c']) = chain_bytes (B @ [c]) @ take (unat slen) (drop off src)"
          unfolding r'(4) a(6) append_assoc by (simp only:)
        then show ?thesis using run r' a(7-9)
          by (intro disjI2 exI [of _ r'] exI [of _ B'] exI [of _ c']) simp
      qed (use run slab_refused_cong [OF a(9)] in simp)
    qed
  qed
qed

lemma write_tail_ok:
  assumes "libc_ok (be_libc env)"
  shows "ba_inv r \<Longrightarrow> ba_blocks r = B @ c # A \<Longrightarrow> tw \<le> ba_tlen r \<Longrightarrow> unat (ba_tlen r) \<le> length (ba_tail r) \<Longrightarrow>
    write_tail env r (length B) tw e = None \<and> slab_refused env r \<or>
    (\<exists>r' B' c'. write_tail env r (length B) tw e = Some (r', length B', e) \<and>
      ba_inv r' \<and> ba_blocks r' = B' @ c' # A \<and>
      chain_bytes (B' @ [c']) = chain_bytes (B @ [c]) @ drop (unat tw) (take (unat (ba_tlen r)) (ba_tail r)))"
proof (induction "unat (ba_tlen r) - unat tw" arbitrary: r B c tw rule: less_induct)
  case less
  show ?case
  proof (cases "tw = ba_tlen r")
    case True
    then show ?thesis using less.prems by (subst write_tail.simps) auto
  next
    case False
    then have lt: "tw < ba_tlen r" using less.prems(3) by simp
    then have ltn: "unat tw < unat (ba_tlen r)" by (simp add: word_less_nat_alt)
    let ?left = "ba_tlen r - tw"
    have left: "unat ?left = unat (ba_tlen r) - unat tw" using ltn by simp
    have pos: "0 < ?left" using ltn by (simp add: word_less_nat_alt)
    have fits: "unat tw + unat ?left \<le> length (ba_tail r)" using left ltn less.prems(4) by simp
    show ?thesis
    proof (cases "append_round env r (length B) (ba_tail r) (unat tw) ?left e = None \<and> slab_refused env r")
      case True
      then show ?thesis using lt by (subst write_tail.simps) simp
    next
      case False
      with append_round_ok [OF assms less.prems(1,2) pos fits, of e] obtain n r1 B1 c1 where
        a: "append_round env r (length B) (ba_tail r) (unat tw) ?left e = Some (n, r1, length B1, e)" "ba_inv r1"
          "ba_blocks r1 = B1 @ c1 # A" "0 < n" "n \<le> ?left"
          "chain_bytes (B1 @ [c1]) = chain_bytes (B @ [c]) @ take (unat n) (drop (unat tw) (ba_tail r))"
          "ba_tail r1 = ba_tail r" "ba_tlen r1 = ba_tlen r" "slab_bytes (ba_alloc r1) = slab_bytes (ba_alloc r)" by blast
      have nn: "0 < unat n" "unat n \<le> unat (ba_tlen r) - unat tw"
        using a(4,5) left by (simp_all add: word_less_nat_alt word_le_nat_alt)
      then have sum: "unat tw + unat n \<le> unat (ba_tlen r)" using ltn by linarith
      have tw': "unat (tw + n) = unat tw + unat n" using u32_fits [OF sum] by simp
      have run: "write_tail env r (length B) tw e = write_tail env r1 (length B1) (tw + n) e"
        using lt a(1) by (subst write_tail.simps) simp
      have "unat (ba_tlen r1) - unat (tw + n) < unat (ba_tlen r) - unat tw" "tw + n \<le> ba_tlen r1"
        "unat (ba_tlen r1) \<le> length (ba_tail r1)"
        using tw' nn ltn sum a(7,8) less.prems(4) by (simp_all add: word_le_nat_alt)
      from less.hyps [OF this(1) a(2,3) this(2,3)] show ?thesis
      proof (elim disjE exE conjE)
        fix r' B' c' assume
          r': "write_tail env r1 (length B1) (tw + n) e = Some (r', length B', e)" "ba_inv r'"
            "ba_blocks r' = B' @ c' # A"
            "chain_bytes (B' @ [c']) = chain_bytes (B1 @ [c1]) @ drop (unat (tw + n)) (take (unat (ba_tlen r1)) (ba_tail r1))"
        let ?t = "take (unat (ba_tlen r)) (ba_tail r)"
        have "take (unat n) (drop (unat tw) (ba_tail r)) = take (unat n) (drop (unat tw) ?t)"
          using nn(2) by (simp add: drop_take min_def)
        moreover have "drop (unat tw + unat n) ?t = drop (unat n) (drop (unat tw) ?t)"
          by (simp add: add.commute)
        ultimately have "take (unat n) (drop (unat tw) (ba_tail r)) @ drop (unat tw + unat n) ?t = drop (unat tw) ?t"
          by (simp only: append_take_drop_id)
        then have "chain_bytes (B' @ [c']) = chain_bytes (B @ [c]) @ drop (unat tw) ?t"
          unfolding r'(4) a(6,7,8) append_assoc tw' by (simp only:)
        then show ?thesis using run r'(1-3) by (intro disjI2 exI [of _ r'] exI [of _ B'] exI [of _ c']) simp
      qed (use run slab_refused_cong [OF a(9)] in simp)
    qed
  qed
qed

lemma insert_seek_ok:
  "cs \<noteq> [] \<Longrightarrow> \<forall>b\<in>set cs. block_ok cap b \<Longrightarrow> unat ofst \<le> length (chain_bytes cs) \<Longrightarrow>
   \<exists>B c A o'. insert_seek cs k ofst = Some (k + length B, o') \<and> cs = B @ c # A \<and> o' \<le> bl_len c \<and>
     unat ofst = length (chain_bytes B) + unat o'"
proof (induction cs k ofst rule: insert_seek.induct)
  case (2 c cs i ofst)
  show ?case
  proof (cases "ofst > bl_len c")
    case False
    then show ?thesis using 2(2) by (intro exI [of _ "[]"] exI [of _ c] exI [of _ cs] exI [of _ ofst]) simp
  next
    case True
    then have lt: "unat (bl_len c) < unat ofst" by (simp add: word_less_nat_alt)
    have "block_ok cap c" using 2(3) by simp
    then have lc: "length (blk_bytes c) = unat (bl_len c)" by simp
    have ne: "cs \<noteq> []" using lt lc 2(4) by (cases cs) auto
    have sub: "unat (ofst - bl_len c) = unat ofst - unat (bl_len c)" using lt by simp
    then have "unat (ofst - bl_len c) \<le> length (chain_bytes cs)" using 2(4) lc by simp
    with 2(1) [OF True _ ne] ne 2(3) obtain B d A o' where
      "insert_seek cs (i + 1) (ofst - bl_len c) = Some (i + 1 + length B, o')" "cs = B @ d # A" "o' \<le> bl_len d"
      "unat (ofst - bl_len c) = length (chain_bytes B) + unat o'"
      by (auto simp: ASSERT_def)
    then show ?thesis using True ne sub lt lc
      by (intro exI [of _ "c # B"] exI [of _ d] exI [of _ A] exI [of _ o']) simp
  qed
qed simp

lemma save_tail_ok:
  assumes inv: "ba_inv r" and bl: "ba_blocks r = B @ c # A" and o: "ofst \<le> bl_len c"
  shows "\<exists>r' c'. save_tail r (length B) ofst = Some r' \<and> ba_inv r' \<and> ba_blocks r' = B @ c' # A \<and>
    blk_bytes c' = take (unat ofst) (blk_bytes c) \<and> unat (ba_tlen r') \<le> length (ba_tail r') \<and>
    take (unat (ba_tlen r')) (ba_tail r') = drop (unat ofst) (blk_bytes c)"
proof -
  have ok: "block_ok (ba_cap r) c" using inv bl by (simp add: ba_inv_def)
  have tl: "length (ba_tail r) = unat (ba_cap r)" using inv by (simp add: ba_inv_def)
  have on: "unat ofst \<le> unat (bl_len c)" using o by (simp add: word_le_nat_alt)
  have cl: "unat (bl_len c) \<le> unat (ba_cap r)" "length (bl_data c) = unat (ba_cap r)"
    using ok by (simp_all add: block_ok_def word_le_nat_alt)
  let ?t = "bl_len c - ofst"
  have t: "unat ?t = unat (bl_len c) - unat ofst" using on by simp
  show ?thesis
  proof (cases "?t > 0")
    case False
    then have "unat ofst = unat (bl_len c)" using t on by (simp add: word_less_nat_alt)
    then have eq: "ofst = bl_len c" by (simp add: u32_eq_nat)
    have i: "ba_inv (r\<lparr>ba_tlen := 0\<rparr>)" using inv by (simp add: ba_inv_def)
    have "save_tail r (length B) ofst = Some (r\<lparr>ba_tlen := 0\<rparr>)" using bl eq by (simp add: save_tail_def)
    then show ?thesis using i bl ok eq by (intro exI [of _ "r\<lparr>ba_tlen := 0\<rparr>"] exI [of _ c]) simp
  next
    case True
    let ?bs = "take (unat ?t) (drop (unat ofst) (bl_data c))"
    have bs: "?bs = drop (unat ofst) (blk_bytes c)" using t by (simp add: blk_bytes_def drop_take)
    have lb: "length ?bs = unat ?t" using t on cl by simp
    let ?tail = "overwrite (ba_tail r) 0 ?bs"
    have ld: "mem_load (bl_data c) (unat ofst) (unat ?t) = Some ?bs"
      by (rule mem_load_ok) (use t on cl in linarith)
    have st: "mem_store (ba_tail r) 0 ?bs = Some ?tail"
      by (rule mem_store_ok) (unfold lb, use t cl tl in linarith)
    let ?c = "c\<lparr>bl_len := ofst\<rparr>"
    let ?r1 = "r\<lparr>ba_tlen := ?t, ba_tail := ?tail\<rparr>"
    have lt: "length ?tail = length (ba_tail r)"
      by (rule length_overwrite) (unfold lb, use t cl tl in linarith)
    then have i1: "ba_inv ?r1" using inv by (simp add: ba_inv_def)
    have okc: "block_ok (ba_cap ?r1) ?c" using ok o by (auto simp: block_ok_def)
    have set: "ba_inv (set_block ?r1 (length B) ?c) \<and> ba_blocks (set_block ?r1 (length B) ?c) = B @ ?c # A"
      by (rule ba_inv_set [OF i1 _ _ okc]) (use bl in simp_all)
    have run: "save_tail r (length B) ofst = Some (set_block ?r1 (length B) ?c)"
      unfolding save_tail_def using bl True ld st by (simp add: Let_def)
    have "take (0 + length ?bs) ?tail = take 0 (ba_tail r) @ ?bs"
      by (rule take_overwrite_full) (unfold lb, use t cl tl in linarith)
    then have "take (unat ?t) ?tail = drop (unat ofst) (blk_bytes c)" using lb bs by simp
    moreover have "blk_bytes ?c = take (unat ofst) (blk_bytes c)" using on by (simp add: blk_bytes_def min_def)
    moreover have "unat ?t \<le> length ?tail" using lt tl t cl by linarith
    ultimately show ?thesis using run set by (intro exI [of _ "set_block ?r1 (length B) ?c"] exI [of _ ?c]) simp
  qed
qed

lemma save_tail_alloc: "save_tail r i ofst = Some r' \<Longrightarrow> ba_alloc r' = ba_alloc r"
  by (auto simp: save_tail_def Let_def Option.bind_eq_Some_conv split: if_splits)

text \<open>The first block of an empty array.\<close>

lemma insert_head:
  fixes e :: errp
  assumes env: "libc_ok (be_libc env)" and inv: "ba_inv r"
  defines "step \<equiv> (if ba_blocks r = []
          then do {
            (nw, r', e') \<leftarrow> block_alloc_empty env r None e;
            if nw = None then UNREACHABLE else Some (r', e')
          }
          else Some (r, e))"
  obtains (refused) "step = None" "slab_refused env r"
    | (granted) r0 where "step = Some (r0, e)" "ba_inv r0" "ba_blocks r0 \<noteq> []" "ba_bytes r0 = ba_bytes r"
        "slab_bytes (ba_alloc r0) = slab_bytes (ba_alloc r)"
proof (cases "ba_blocks r = []")
  case True
  from block_alloc_empty_head [OF env inv True, of e] show thesis
  proof (elim disjE exE conjE)
    fix r' e' assume "block_alloc_empty env r None e = Some (None, r', e')" "slab_refused env r"
    then show thesis using refused True by (simp add: step_def UNREACHABLE_def)
  next
    fix r' c assume "block_alloc_empty env r None e = Some (Some 0, r', e)" "ba_inv r'" "ba_blocks r' = [c]"
      "blk_bytes c = []" "slab_bytes (ba_alloc r') = slab_bytes (ba_alloc r)"
    then show thesis using granted [of r'] True by (simp add: step_def ba_bytes_def)
  qed
next
  case False
  then show thesis using granted [of r] inv by (simp add: step_def)
qed

text \<open>The two copy loops behind the cut.\<close>

lemma insert_copies:
  fixes e :: errp
  assumes env: "libc_ok (be_libc env)" and inv: "ba_inv r" and bl: "ba_blocks r = B @ c # A"
    and src: "unat slen \<le> length src" and tl: "unat (ba_tlen r) \<le> length (ba_tail r)"
  defines "step \<equiv> do {
       (r2, cur2, e2) \<leftarrow> write_source env r (length B) src 0 slen e;
       (r3, cur3, e3) \<leftarrow> write_tail env r2 cur2 0 e2;
       Some (SUCCESS, r3\<lparr>ba_tlen := 0\<rparr>, e3)
     }"
  shows "step = None \<and> slab_refused env r \<or>
    (\<exists>r'. step = Some (SUCCESS, r', e) \<and> ba_inv r' \<and>
      ba_bytes r' = chain_bytes (B @ [c]) @ take (unat slen) src @ take (unat (ba_tlen r)) (ba_tail r) @ chain_bytes A)"
proof -
  from src have "0 + unat slen \<le> length src" by simp
  from write_source_ok [OF env inv bl this, of e] show ?thesis
  proof (elim disjE exE conjE)
    fix r2 B2 c2 assume r2: "write_source env r (length B) src 0 slen e = Some (r2, length B2, e)" "ba_inv r2"
      "ba_blocks r2 = B2 @ c2 # A" "chain_bytes (B2 @ [c2]) = chain_bytes (B @ [c]) @ take (unat slen) (drop 0 src)"
      "ba_tail r2 = ba_tail r" "ba_tlen r2 = ba_tlen r" "slab_bytes (ba_alloc r2) = slab_bytes (ba_alloc r)"
    have z: "(0 :: u32) \<le> ba_tlen r2" "unat (ba_tlen r2) \<le> length (ba_tail r2)" using tl r2(5,6) by simp_all
    from write_tail_ok [OF env r2(2,3) z, of e] show ?thesis
    proof (elim disjE exE conjE)
      assume "write_tail env r2 (length B2) 0 e = None" "slab_refused env r2"
      then show ?thesis using r2(1) slab_refused_cong [OF r2(7)] by (simp add: step_def)
    next
      fix r3 B3 c3 assume r3: "write_tail env r2 (length B2) 0 e = Some (r3, length B3, e)" "ba_inv r3"
        "ba_blocks r3 = B3 @ c3 # A"
        "chain_bytes (B3 @ [c3]) = chain_bytes (B2 @ [c2]) @ drop (unat (0 :: u32)) (take (unat (ba_tlen r2)) (ba_tail r2))"
      have "ba_bytes (r3\<lparr>ba_tlen := 0\<rparr>) = chain_bytes (B3 @ [c3]) @ chain_bytes A"
        using r3(3) by (simp add: ba_bytes_def)
      also have "\<dots> = chain_bytes (B @ [c]) @ take (unat slen) src @ take (unat (ba_tlen r)) (ba_tail r) @ chain_bytes A"
        unfolding r3(4) r2(4,5,6) by simp
      finally show ?thesis using r2(1) r3(1,2) by (intro disjI2 exI [of _ "r3\<lparr>ba_tlen := 0\<rparr>"]) (simp add: step_def ba_inv_def)
    qed
  qed (simp add: step_def)
qed

lemma block_array_insert_ok:
  assumes env: "libc_ok (be_libc env)" and inv: "ba_inv r" and ofst: "unat ofst \<le> length (ba_bytes r)"
    and slen: "0 < slen" "unat slen \<le> length src"
  shows "block_array_insert env r ofst src slen e = None \<and> slab_refused env r \<or>
    (\<exists>r'. block_array_insert env r ofst src slen e = Some (SUCCESS, r', e) \<and> ba_inv r' \<and>
      ba_bytes r' = spec_insert (unat ofst) (take (unat slen) src) (ba_bytes r))"
proof (cases rule: insert_head [OF env inv, of e, case_names refused granted])
  case refused
  then show ?thesis using slen(1) unfolding block_array_insert_def by (simp split del: if_split)
next
  case (granted r0)
  note i0 = granted(2-4)
  have oks: "\<forall>b\<in>set (ba_blocks r0). block_ok (ba_cap r0) b" using i0(1) by (simp add: ba_inv_def)
  have "unat ofst \<le> length (chain_bytes (ba_blocks r0))" using ofst i0(3) by (simp add: ba_bytes_def)
  from insert_seek_ok [OF i0(2) oks this, of 0] obtain B c A o' where
    s: "insert_seek (ba_blocks r0) 0 ofst = Some (length B, o')" "ba_blocks r0 = B @ c # A" "o' \<le> bl_len c"
      "unat ofst = length (chain_bytes B) + unat o'" by auto
  from save_tail_ok [OF i0(1) s(2,3)] obtain r1 c1 where
    r1: "save_tail r0 (length B) o' = Some r1" "ba_inv r1" "ba_blocks r1 = B @ c1 # A"
      "blk_bytes c1 = take (unat o') (blk_bytes c)" "unat (ba_tlen r1) \<le> length (ba_tail r1)"
      "take (unat (ba_tlen r1)) (ba_tail r1) = drop (unat o') (blk_bytes c)" by blast
  have rf: "slab_refused env r1 = slab_refused env r"
    using granted(5) save_tail_alloc [OF r1(1)] by (intro slab_refused_cong) simp
  have "block_ok (ba_cap r0) c" using oks s(2) by simp
  then have "unat o' \<le> length (blk_bytes c)" using s(3) by (simp add: word_le_nat_alt)
  moreover have "ba_bytes r = chain_bytes B @ blk_bytes c @ chain_bytes A"
    using i0(3) s(2) by (simp add: ba_bytes_def)
  ultimately have bts: "chain_bytes (B @ [c1]) @ take (unat slen) src @ take (unat (ba_tlen r1)) (ba_tail r1) @ chain_bytes A =
      spec_insert (unat ofst) (take (unat slen) src) (ba_bytes r)"
    unfolding r1(6) using s(4) r1(4) by (simp add: spec_insert_def)
  have run: "block_array_insert env r ofst src slen e = do {
       (r2, cur2, e2) \<leftarrow> write_source env r1 (length B) src 0 slen e;
       (r3, cur3, e3) \<leftarrow> write_tail env r2 cur2 0 e2;
       Some (SUCCESS, r3\<lparr>ba_tlen := 0\<rparr>, e3)
     }"
    unfolding block_array_insert_def using granted(1) s(1) r1(1) slen(1) by (simp split del: if_split)
  show ?thesis
    using insert_copies [OF env r1(2,3) slen(2) r1(5), of e] unfolding run rf bts .
qed

text \<open>With a heap that grants the array's slabs, insertion always succeeds.\<close>

corollary block_array_insert_granted:
  assumes "libc_ok (be_libc env)" and "ba_inv r" and "unat ofst \<le> length (ba_bytes r)"
    and "0 < slen" and "unat slen \<le> length src" and "\<not> slab_refused env r"
  shows "\<exists>r'. block_array_insert env r ofst src slen e = Some (SUCCESS, r', e) \<and> ba_inv r' \<and>
      ba_bytes r' = spec_insert (unat ofst) (take (unat slen) src) (ba_bytes r)"
  using block_array_insert_ok [OF assms(1-5), of e] assms(6) by simp

end
