(* ===== verification/Block_access.thy ===== *)
theory Block_access
  imports Block_insert
begin

text \<open>
  Strided reads, writes and removals of the block array. The state machine that the three
  loops share is summarised by a mask: for each byte from the current position on, whether it
  is visited. The loops are then shown to copy, overwrite or take out the marked bytes.
\<close>

section \<open>The bytes a strided access visits\<close>

text \<open>
  Along the \<open>L\<close> bytes from the current position on, which bytes are visited and how many
  elements are finished: with \<open>n\<close> elements to go, \<open>nx\<close> bytes left of the current one, \<open>sz\<close>
  bytes per element and a gap of \<open>gap\<close> bytes between them.
\<close>

fun visit_mask :: "nat \<Rightarrow> nat \<Rightarrow> nat \<Rightarrow> nat \<Rightarrow> nat \<Rightarrow> bool list" where
  "visit_mask sz gap 0 nx L = replicate L False"
| "visit_mask sz gap (Suc n) nx L =
     (if L < nx then replicate L True
      else replicate nx True @ replicate (min gap (L - nx)) False @ visit_mask sz gap n sz (L - nx - gap))"

fun visit_count :: "nat \<Rightarrow> nat \<Rightarrow> nat \<Rightarrow> nat \<Rightarrow> nat \<Rightarrow> nat" where
  "visit_count sz gap 0 nx L = 0"
| "visit_count sz gap (Suc n) nx L = (if L < nx then 0 else Suc (visit_count sz gap n sz (L - nx - gap)))"

lemma length_visit_mask [simp]: "length (visit_mask sz gap n nx L) = L"
  by (induction sz gap n nx L rule: visit_mask.induct) auto

lemma visit_mask_empty [simp]: "visit_mask sz gap n nx 0 = []"
  using length_visit_mask [of sz gap n nx 0] by (simp del: length_visit_mask)

lemma visit_count_empty [simp]: "0 < nx \<Longrightarrow> visit_count sz gap n nx 0 = 0"
  by (cases n) auto

text \<open>The same from a state of the loops.\<close>

definition st_mask :: "nat \<Rightarrow> nat \<Rightarrow> nat \<Rightarrow> stride_state \<Rightarrow> nat \<Rightarrow> bool list" where
  "st_mask sz gap n st L =
     (if ss_active st then visit_mask sz gap n (unat (ss_next st)) L
      else replicate (min (unat (ss_next st)) L) False @ visit_mask sz gap n sz (L - unat (ss_next st)))"

definition st_count :: "nat \<Rightarrow> nat \<Rightarrow> nat \<Rightarrow> stride_state \<Rightarrow> nat \<Rightarrow> nat" where
  "st_count sz gap n st L =
     (if ss_active st then visit_count sz gap n (unat (ss_next st)) L
      else visit_count sz gap n sz (L - unat (ss_next st)))"

lemma length_st_mask [simp]: "length (st_mask sz gap n st L) = L"
  by (auto simp: st_mask_def min_def)

lemma st_mask_done [simp]: "st_mask sz gap 0 st L = replicate L False" "st_count sz gap 0 st L = 0"
  by (auto simp: st_mask_def st_count_def min_def simp flip: replicate_add)

lemma st_mask_end [simp]: "st_mask sz gap n st 0 = []"
  by (simp add: st_mask_def)

lemma st_count_end [simp]: "0 < sz \<Longrightarrow> 0 < unat (ss_next st) \<Longrightarrow> st_count sz gap n st 0 = 0"
  by (simp add: st_count_def)

text \<open>\<open>gap\<close> is the distance the code skips between two elements.\<close>

definition gap_ok :: "stride \<Rightarrow> u32 \<Rightarrow> nat \<Rightarrow> bool" where
  "gap_ok str sz gap \<longleftrightarrow> 0 < unat sz \<and>
     (if st_stride str = 1 then gap = 0
      else 0 < gap \<and> unat (ss_next (after_element str sz)) = gap)"

definition finishes :: "stride_state \<Rightarrow> u32 \<Rightarrow> nat" where
  "finishes st m = (if ss_active st \<and> ss_next st - m = 0 then 1 else 0)"

lemma sub_zero_iff: "m \<le> (n :: u32) \<Longrightarrow> n - m = 0 \<longleftrightarrow> unat m = unat n"
  by (auto simp: word_le_nat_alt u32_eq_nat)

lemma advance_pos:
  assumes "gap_ok str sz gap" and "m \<le> ss_next st"
  shows "0 < unat (ss_next (advance str sz st m))"
proof (cases "ss_next st - m = 0")
  case True
  then show ?thesis using assms(1) by (auto simp: advance_def gap_ok_def after_element_def)
next
  case False
  then have "0 < unat (ss_next st - m)" by (simp add: u32_eq_nat)
  then show ?thesis using False by (simp add: advance_def)
qed

lemma st_mask_after:
  "gap_ok str sz gap \<Longrightarrow> st_mask z gap n (after_element str sz) L =
     (if st_stride str = 1 then visit_mask z gap n (unat sz) L
      else replicate (min gap L) False @ visit_mask z gap n z (L - gap))"
  "gap_ok str sz gap \<Longrightarrow> st_count z gap n (after_element str sz) L =
     (if st_stride str = 1 then visit_count z gap n (unat sz) L else visit_count z gap n z (L - gap))"
  by (auto simp: st_mask_def st_count_def gap_ok_def after_element_def split: if_splits)

lemma st_mask_partial:
  assumes "m \<le> L" and "m \<le> nx"
  shows "replicate (min nx L) False @ X = replicate m False @ replicate (min (nx - m) (L - m)) False @ X"
proof -
  have "min nx L = m + min (nx - m) (L - m)" using assms by simp
  then show ?thesis by (simp add: replicate_add)
qed

lemma visit_mask_partial:
  assumes "m \<le> L" and "m \<le> nx"
  shows "visit_mask sz gap (Suc n) nx L = replicate m True @ visit_mask sz gap (Suc n) (nx - m) (L - m)"
    and "visit_count sz gap (Suc n) nx L = visit_count sz gap (Suc n) (nx - m) (L - m)"
proof -
  have r: "replicate k True = replicate m True @ replicate (k - m) True" if "m \<le> k" for k
    using that by (simp flip: replicate_add)
  show "visit_mask sz gap (Suc n) nx L = replicate m True @ visit_mask sz gap (Suc n) (nx - m) (L - m)"
  proof (cases "L < nx")
    case True
    then show ?thesis using r [OF assms(1)] assms by simp
  next
    case False
    then show ?thesis using r [OF assms(2)] assms by simp
  qed
  have "L < nx \<longleftrightarrow> L - m < nx - m" using assms by linarith
  then show "visit_count sz gap (Suc n) nx L = visit_count sz gap (Suc n) (nx - m) (L - m)"
    using assms by simp
qed

text \<open>Consuming \<open>m\<close> bytes of the state's run splits off \<open>m\<close> equal marks.\<close>

lemma st_mask_step:
  assumes g: "gap_ok str sz gap" and m: "m \<le> ss_next st" "unat m \<le> L"
  shows "st_mask (unat sz) gap (Suc n) st L = replicate (unat m) (ss_active st) @
      st_mask (unat sz) gap (Suc n - finishes st m) (advance str sz st m) (L - unat m)"
    and "st_count (unat sz) gap (Suc n) st L = finishes st m +
      st_count (unat sz) gap (Suc n - finishes st m) (advance str sz st m) (L - unat m)"
proof -
  have mn: "unat m \<le> unat (ss_next st)" using m(1) by (simp add: word_le_nat_alt)
  have sub: "unat (ss_next st - m) = unat (ss_next st) - unat m" using mn by simp
  note z = sub_zero_iff [OF m(1)]
  have "st_mask (unat sz) gap (Suc n) st L = replicate (unat m) (ss_active st) @
      st_mask (unat sz) gap (Suc n - finishes st m) (advance str sz st m) (L - unat m) \<and>
    st_count (unat sz) gap (Suc n) st L = finishes st m +
      st_count (unat sz) gap (Suc n - finishes st m) (advance str sz st m) (L - unat m)"
  proof (cases "unat m = unat (ss_next st)")
    case True
    show ?thesis
    proof (cases "ss_active st")
      case act: True
      have f: "finishes st m = 1" "advance str sz st m = after_element str sz"
        using act True z by (simp_all add: finishes_def advance_def)
      have one: "st_stride str = 1 \<Longrightarrow> gap = 0" using g by (simp add: gap_ok_def)
      show ?thesis
        unfolding f st_mask_after [OF g] using act True m(2) one by (simp add: st_mask_def st_count_def)
    next
      case act: False
      have f: "finishes st m = 0" "advance str sz st m = \<lparr>ss_next = sz, ss_active = True\<rparr>"
        using act True z by (simp_all add: finishes_def advance_def)
      show ?thesis
        unfolding f using act True m(2) by (simp add: st_mask_def st_count_def min_def)
    qed
  next
    case False
    have f: "finishes st m = 0" "advance str sz st m = st\<lparr>ss_next := ss_next st - m\<rparr>"
      using False z by (simp_all add: finishes_def advance_def)
    show ?thesis
    proof (cases "ss_active st")
      case True
      then show ?thesis
        unfolding f using visit_mask_partial [OF m(2) mn] sub by (simp add: st_mask_def st_count_def del: visit_mask.simps visit_count.simps)
    next
      case act: False
      have "L - unat m - (unat (ss_next st) - unat m) = L - unat (ss_next st)" using mn by simp
      then show ?thesis
        unfolding f using st_mask_partial [OF m(2) mn] sub act
        by (simp add: st_mask_def st_count_def del: visit_mask.simps visit_count.simps)
    qed
  qed
  then show "st_mask (unat sz) gap (Suc n) st L = replicate (unat m) (ss_active st) @
      st_mask (unat sz) gap (Suc n - finishes st m) (advance str sz st m) (L - unat m)"
    and "st_count (unat sz) gap (Suc n) st L = finishes st m +
      st_count (unat sz) gap (Suc n - finishes st m) (advance str sz st m) (L - unat m)"
    by blast+
qed

section \<open>Reading\<close>

definition sel :: "'a list \<Rightarrow> bool list \<Rightarrow> 'a list" where
  "sel S M = map fst (filter snd (zip S M))"

lemma sel_append [simp]: "length S = length M \<Longrightarrow> sel (S @ S') (M @ M') = sel S M @ sel S' M'"
  by (simp add: sel_def)

lemma sel_replicate [simp]: "length S = n \<Longrightarrow> sel S (replicate n b) = (if b then S else [])"
  by (induction S arbitrary: n) (auto simp: sel_def)

lemma sel_Nil [simp]: "sel [] M = []"
  by (simp add: sel_def)

lemma length_sel: "length S = length M \<Longrightarrow> length (sel S M) = length (filter id M)"
  by (induction S M rule: list_induct2) (auto simp: sel_def)

definition u64_of :: "nat \<Rightarrow> u64" where
  "u64_of n = word_of_nat n"

lemma ucast_u64_of: "ucast (x :: u32) = u64_of (unat x)"
  by (simp add: u64_of_def)

text \<open>What lies ahead of a position.\<close>

definition ahead :: "block \<Rightarrow> u32 \<Rightarrow> block list \<Rightarrow> u8 list" where
  "ahead c bidx A = drop (unat bidx) (blk_bytes c) @ chain_bytes A"

text \<open>A round consumes the first \<open>m\<close> of the bytes ahead.\<close>

lemma ahead_chunk:
  assumes ok: "block_ok cap c" and m: "unat bidx + m \<le> unat (bl_len c)"
  shows "take m (ahead c bidx A) = take m (drop (unat bidx) (bl_data c))"
    and "m \<le> length (ahead c bidx A)"
    and "unat bidx + m \<le> length (bl_data c)"
  using assms length_blk_bytes [OF ok]
  by (auto simp: ahead_def blk_bytes_def drop_take min_def block_ok_def word_le_nat_alt)

lemma ahead_stay:
  assumes "block_ok cap c" and "unat bidx + unat m \<le> unat (bl_len c)"
  shows "drop (unat m) (ahead c bidx A) = ahead c (bidx + m) A"
proof -
  have "unat (bidx + m) = unat bidx + unat m" using assms(2) u32_fits [OF assms(2)] by simp
  then show ?thesis using assms by (simp add: ahead_def add.commute)
qed

lemma ahead_move:
  assumes "block_ok cap c" and "unat bidx + unat m = unat (bl_len c)"
  shows "drop (unat m) (ahead c bidx A) = chain_bytes A"
  using assms by (simp add: ahead_def)

lemma ahead_start: "ahead c 0 A = chain_bytes (c # A)"
  by (simp add: ahead_def)

lemma next_pos_at:
  "ba_blocks r = B @ c # A \<Longrightarrow> next_pos r (length B) bidx =
     (if bidx = bl_len c then if A = [] then None else Some (length (B @ [c]), 0) else Some (length B, bidx))"
  by (simp add: next_pos_def)

lemma next_chunk_fits:
  assumes "bidx \<le> bl_len c"
  shows "unat bidx + unat (next_chunk st c bidx) \<le> unat (bl_len c)"
    and "next_chunk st c bidx \<le> ss_next st"
    and "bidx + next_chunk st c bidx \<le> bl_len c"
    and "bidx + next_chunk st c bidx \<noteq> bl_len c \<Longrightarrow> next_chunk st c bidx = ss_next st"
proof -
  have b: "unat bidx \<le> unat (bl_len c)" using assms by (simp add: word_le_nat_alt)
  have s: "unat (bl_len c - bidx) = unat (bl_len c) - unat bidx" using b by simp
  show a: "unat bidx + unat (next_chunk st c bidx) \<le> unat (bl_len c)" using b s by (simp add: next_chunk_def)
  show "next_chunk st c bidx \<le> ss_next st" by (simp add: next_chunk_def)
  have u: "unat (bidx + next_chunk st c bidx) = unat bidx + unat (next_chunk st c bidx)" using u32_fits [OF a] by simp
  then show "bidx + next_chunk st c bidx \<le> bl_len c" using a by (simp add: word_le_nat_alt)
  assume "bidx + next_chunk st c bidx \<noteq> bl_len c"
  then have "unat bidx + unat (next_chunk st c bidx) \<noteq> unat (bl_len c)" using u by (simp add: u32_eq_nat)
  then show "next_chunk st c bidx = ss_next st" using b s by (auto simp: next_chunk_def min_def split: if_splits)
qed

lemma finishes_word:
  assumes "unat (tot :: u32) + n < 4294967296" and "finishes st m \<le> n"
  shows "unat (count_done st m tot) = unat tot + finishes st m"
  using assms u32_add_nat [of tot 1] by (auto simp: finishes_def count_done_def)

lemma finishes_le [simp]: "finishes st m \<le> Suc n"
  by (simp add: finishes_def)

lemma block_read_loop_ok:
  assumes oks: "\<forall>b\<in>set (ba_blocks r). block_ok cap b" and g: "gap_ok str sz gap"
    and small: "unat (st_nelems str) < 4294967296"
  shows "ba_blocks r = B @ c # A \<Longrightarrow> bidx \<le> bl_len c \<Longrightarrow> unat (st_nelems str) = unat tot + n \<Longrightarrow>
    0 < unat (ss_next st) \<Longrightarrow>
    doff + length (sel (ahead c bidx A) (st_mask (unat sz) gap n st (length (ahead c bidx A)))) \<le> length dest \<Longrightarrow>
    block_read_loop r str sz (length B) bidx st tot dest doff =
      Some (u64_of (unat tot + st_count (unat sz) gap n st (length (ahead c bidx A))),
            overwrite dest doff (sel (ahead c bidx A) (st_mask (unat sz) gap n st (length (ahead c bidx A)))))"
proof (induction "length (ahead c bidx A) + length A" arbitrary: B c A bidx tot n st dest doff rule: less_induct)
  case less
  note bl = less.prems(1) and nn = less.prems(3) and pos = less.prems(4) and room = less.prems(5)
  let ?S = "ahead c bidx A"
  show ?case
  proof (cases n)
    case 0
    then show ?thesis using nn by (subst block_read_loop.simps) (simp add: ucast_u64_of)
  next
    case (Suc k)
    let ?m = "next_chunk st c bidx"
    have ok: "block_ok cap c" using oks bl by simp
    note cf = next_chunk_fits [OF less.prems(2)]
    note ac = ahead_chunk(1,2) [OF ok cf(1), where A = A] ahead_chunk(3) [OF ok cf(1)]
    let ?x = "if ss_active st then take (unat ?m) ?S else []"
    let ?st = "advance str sz st ?m"
    let ?tot = "count_done st ?m tot"
    let ?k = "Suc k - finishes st ?m"
    let ?S' = "drop (unat ?m) ?S"
    let ?M' = "st_mask (unat sz) gap ?k ?st (length ?S')"
    note step = st_mask_step [OF g cf(2) ac(2), where n = k, folded length_drop]
    have tot: "unat ?tot = unat tot + finishes st ?m"
      by (rule finishes_word [of _ n]) (use nn small Suc in auto)
    have nn': "unat (st_nelems str) = unat ?tot + ?k" using nn Suc tot by simp
    have selS: "sel ?S (st_mask (unat sz) gap n st (length ?S)) = ?x @ sel ?S' ?M'"
    proof -
      have "sel (take (unat ?m) ?S @ ?S') (replicate (unat ?m) (ss_active st) @ ?M') = ?x @ sel ?S' ?M'"
        using ac(2) by (subst sel_append) simp_all
      then show ?thesis unfolding Suc step(1) by simp
    qed
    have lx: "doff + length ?x + length (sel ?S' ?M') \<le> length dest" using room unfolding selS by simp
    let ?dest = "overwrite dest doff ?x"
    let ?doff = "doff + length ?x"
    have dest: "(if ss_active st \<and> ?m > 0
         then do { bs \<leftarrow> mem_load (bl_data c) (unat bidx) (unat ?m); mem_store dest doff bs }
         else Some dest) = Some ?dest"
    proof (cases "ss_active st \<and> ?m > 0")
      case True
      then have "mem_load (bl_data c) (unat bidx) (unat ?m) = Some ?x" using ac by simp
      then show ?thesis using True lx by simp
    next
      case False
      then have "?x = []" by (auto simp: word_less_nat_alt)
      then show ?thesis unfolding if_not_P [OF False] by (simp only: overwrite_Nil)
    qed
    have doff': "(if ss_active st then doff + unat ?m else doff) = ?doff" using ac(2) by simp
    have lt: "unat tot < unat (st_nelems str)" using nn Suc by simp
    note runs = if_P [OF lt] get_block_at [OF bl] Option.bind.bind_lunit Let_def
    have run: "block_read_loop r str sz (length B) bidx st tot dest doff =
      (case next_pos r (length B) (bidx + ?m) of
         None \<Rightarrow> Some (ucast ?tot, ?dest)
       | Some (cur', bidx') \<Rightarrow> block_read_loop r str sz cur' bidx' ?st ?tot ?dest ?doff)"
      by (subst block_read_loop.simps) (simp only: runs dest doff')
    have ov: "overwrite ?dest ?doff (sel ?S' ?M') = overwrite dest doff (?x @ sel ?S' ?M')"
      by (rule overwrite_overwrite [OF lx])
    have room': "?doff + length (sel ?S' ?M') \<le> length ?dest" using lx by simp
    have cnt: "unat tot + st_count (unat sz) gap n st (length ?S) = unat ?tot + st_count (unat sz) gap ?k ?st (length ?S')"
      unfolding Suc step(2) tot by simp
    have pos': "0 < unat (ss_next ?st)" by (rule advance_pos [OF g cf(2)])
    show ?thesis
    proof (cases "bidx + ?m = bl_len c")
      case True
      then have u: "unat bidx + unat ?m = unat (bl_len c)"
        using u32_add_nat [of bidx ?m] u32_fits [OF cf(1)] by metis
      have S': "?S' = chain_bytes A" by (rule ahead_move [OF ok u])
      show ?thesis
      proof (cases A)
        case Nil
        then have e: "?S' = []" using S' by simp
        have z: "0 < unat sz" using g by (simp add: gap_ok_def)
        have "block_read_loop r str sz (length B) bidx st tot dest doff = Some (ucast ?tot, ?dest)"
          unfolding run next_pos_at [OF bl] using True Nil by simp
        moreover have "st_count (unat sz) gap ?k ?st (length ?S') = 0" unfolding e using z pos' by simp
        moreover have "sel ?S' ?M' = []" unfolding e by simp
        ultimately show ?thesis unfolding selS cnt ucast_u64_of by simp
      next
        case (Cons c2 A2)
        have bl2: "ba_blocks r = (B @ [c]) @ c2 # A2" using bl Cons by simp
        have S2: "?S' = ahead c2 0 A2" unfolding ahead_start using S' Cons by simp
        have "block_read_loop r str sz (length B) bidx st tot dest doff =
            block_read_loop r str sz (length (B @ [c])) 0 ?st ?tot ?dest ?doff"
          unfolding run next_pos_at [OF bl] using True Cons by simp
        also have "\<dots> = Some (u64_of (unat ?tot + st_count (unat sz) gap ?k ?st (length (ahead c2 0 A2))),
            overwrite ?dest ?doff (sel (ahead c2 0 A2) (st_mask (unat sz) gap ?k ?st (length (ahead c2 0 A2)))))"
        proof (rule less.hyps [OF _ bl2 _ nn' pos'])
          have "length ?S' \<le> length ?S" by simp
          then have "length (ahead c2 0 A2) \<le> length ?S" unfolding S2 .
          then show "length (ahead c2 0 A2) + length A2 < length ?S + length A" using Cons by simp
        qed (use room' S2 in simp_all)
        finally show ?thesis unfolding selS cnt S2 by (simp only: ov [unfolded S2])
      qed
    next
      case False
      then have mn: "?m = ss_next st" by (rule cf(4))
      have u: "unat (bidx + ?m) = unat bidx + unat ?m" using u32_fits [OF cf(1)] by simp
      have S2: "?S' = ahead c (bidx + ?m) A" by (rule ahead_stay [OF ok cf(1)])
      have "block_read_loop r str sz (length B) bidx st tot dest doff =
          block_read_loop r str sz (length B) (bidx + ?m) ?st ?tot ?dest ?doff"
        unfolding run next_pos_at [OF bl] using False by simp
      also have "\<dots> = Some (u64_of (unat ?tot + st_count (unat sz) gap ?k ?st (length (ahead c (bidx + ?m) A))),
          overwrite ?dest ?doff (sel (ahead c (bidx + ?m) A) (st_mask (unat sz) gap ?k ?st (length (ahead c (bidx + ?m) A)))))"
      proof (rule less.hyps [OF _ bl cf(3) nn' pos'])
        have "0 < unat ?m" using mn pos by simp
        moreover have "0 < length ?S" by (rule less_le_trans [OF calculation ac(2)])
        ultimately have "length ?S' < length ?S" by simp
        then have "length (ahead c (bidx + ?m) A) < length ?S" unfolding S2 .
        then show "length (ahead c (bidx + ?m) A) + length A < length ?S + length A" by simp
      qed (use room' S2 in simp)
      finally show ?thesis unfolding selS cnt S2 by (simp only: ov [unfolded S2])
    qed
  qed
qed

lemma block_seek_None:
  "\<forall>b\<in>set cs. block_ok cap b \<Longrightarrow> length (chain_bytes cs) \<le> unat bidx \<Longrightarrow> block_seek cs k bidx = None"
proof (induction cs k bidx rule: block_seek.induct)
  case (2 c cs i bidx)
  then have "block_ok cap c" by simp
  with 2 show ?case by (auto simp: word_le_nat_alt)
qed simp

lemma block_seek_Some:
  "\<forall>b\<in>set cs. block_ok cap b \<Longrightarrow> unat bidx < length (chain_bytes cs) \<Longrightarrow>
   \<exists>B c A o'. block_seek cs k bidx = Some (k + length B, o') \<and> cs = B @ c # A \<and> o' < bl_len c \<and>
     unat bidx = length (chain_bytes B) + unat o'"
proof (induction cs k bidx rule: block_seek.induct)
  case (2 c cs i bidx)
  then have "block_ok cap c" by simp
  then have lc: "length (blk_bytes c) = unat (bl_len c)" by simp
  show ?case
  proof (cases "bidx \<ge> bl_len c")
    case False
    then show ?thesis by (intro exI [of _ "[]"] exI [of _ c] exI [of _ cs] exI [of _ bidx]) simp
  next
    case True
    then have le: "unat (bl_len c) \<le> unat bidx" by (simp add: word_le_nat_alt)
    then have sub: "unat (bidx - bl_len c) = unat bidx - unat (bl_len c)" by simp
    then have "unat (bidx - bl_len c) < length (chain_bytes cs)" using 2(3) lc le by simp
    with 2(1) [OF True] 2(2) obtain B d A o' where
      "block_seek cs (i + 1) (bidx - bl_len c) = Some (i + 1 + length B, o')" "cs = B @ d # A" "o' < bl_len d"
      "unat (bidx - bl_len c) = length (chain_bytes B) + unat o'" by auto
    then show ?thesis using True sub le lc
      by (intro exI [of _ "c # B"] exI [of _ d] exI [of _ A] exI [of _ o']) simp
  qed
qed simp

lemma ahead_seek:
  assumes "block_ok cap c" and "o' < bl_len c"
  shows "ahead c o' A = drop (length (chain_bytes B) + unat o') (chain_bytes (B @ c # A))"
  using assms by (simp add: ahead_def word_less_nat_alt)

section \<open>The mask and the places\<close>

lemma aligned_end:
  assumes "0 < sz" and "len mod sz = 0" and "\<not> (i + 1) * sz \<le> (len :: nat)"
  shows "len - i * sz = 0" and "len div sz \<le> i"
proof -
  obtain q where q: "len = q * sz" using assms(2) by (metis mod_0_imp_dvd dvd_def mult.commute)
  then have "q < i + 1" using assms(3) by (metis mult_le_mono1 not_le)
  then have "q \<le> i" by simp
  then show "len div sz \<le> i" "len - i * sz = 0" using q assms(1) by simp_all
qed

lemma visits_step_len:
  fixes stp :: nat
  assumes "(i + 1) * sz \<le> len" and "0 < stp"
  shows "len - i * sz - sz - (stp - 1) * sz = len - (i + stp) * sz"
proof -
  obtain k where "stp = Suc k" using assms(2) by (cases stp) auto
  then have "i * sz + sz + (stp - 1) * sz = (i + stp) * sz" by (simp add: algebra_simps)
  then show ?thesis by simp
qed

lemma drop_elem: "(i + 1) * sz \<le> length bs \<Longrightarrow> drop (i * sz) bs = elem sz bs i @ drop ((i + 1) * sz) bs"
  by (simp add: elem_def add.commute flip: drop_drop)

lemma gap_split:
  assumes "(i + 1) * sz \<le> length bs" and "0 < stp"
  shows "drop ((i + 1) * sz) bs = take ((stp - 1) * sz) (drop ((i + 1) * sz) bs) @ drop ((i + stp) * sz) bs"
proof -
  obtain k where "stp = Suc k" using assms(2) by (cases stp) auto
  then have "(i + 1) * sz + (stp - 1) * sz = (i + stp) * sz" by (simp add: algebra_simps)
  then have "drop ((stp - 1) * sz) (drop ((i + 1) * sz) bs) = drop ((i + stp) * sz) bs"
    by (metis add.commute drop_drop)
  then show ?thesis by (metis append_take_drop_id)
qed

lemma visits_mask_read:
  assumes "0 < sz" and "0 < stp" and "length bs mod sz = 0"
  shows "sel (drop (i * sz) bs) (visit_mask sz ((stp - 1) * sz) n sz (length bs - i * sz)) =
      spec_read sz (visits n i stp sz (length bs)) bs \<and>
    visit_count sz ((stp - 1) * sz) n sz (length bs - i * sz) = length (visits n i stp sz (length bs))"
proof (induction n arbitrary: i)
  case 0
  then show ?case by (simp add: spec_read_def)
next
  case (Suc n)
  let ?L = "length bs - i * sz" and ?g = "(stp - 1) * sz"
  show ?case
  proof (cases "(i + 1) * sz \<le> length bs")
    case False
    then show ?thesis using aligned_end [OF assms(1,3) False] assms(1) by (simp add: spec_read_def)
  next
    case True
    have nl: "\<not> ?L < sz" using True by simp
    have S: "drop (i * sz) bs = elem sz bs i @ take ?g (drop ((i + 1) * sz) bs) @ drop ((i + stp) * sz) bs"
      using drop_elem [OF True] gap_split [OF True assms(2)] by simp
    have lt: "length (take ?g (drop ((i + 1) * sz) bs)) = min ?g (?L - sz)" by (simp add: min.commute)
    have "sel (drop (i * sz) bs) (visit_mask sz ?g (Suc n) sz ?L) =
        elem sz bs i @ sel (drop ((i + stp) * sz) bs) (visit_mask sz ?g n sz (length bs - (i + stp) * sz))"
      unfolding S visit_mask.simps if_not_P [OF nl] visits_step_len [OF True assms(2)]
      using length_elem [OF True] lt by (simp only: sel_append sel_replicate length_replicate if_True if_False append.left_neutral)
    then show ?thesis
      using Suc [of "i + stp"] True nl visits_step_len [OF True assms(2)] by (simp add: spec_read_def)
  qed
qed

section \<open>Reading the array\<close>

lemma gap_ok_access:
  assumes a: "access_ok str sz len" and n: "0 < unat (st_nelems str)"
  shows "gap_ok str sz ((unat (st_stride str) - 1) * unat sz)"
proof -
  let ?s = "unat (st_stride str)" and ?z = "unat sz"
  have p: "0 < ?s" "0 < ?z" using a by (simp_all add: access_ok_def)
  have "1 * ?s \<le> unat (st_nelems str) * ?s" using n by (intro mult_le_mono1) simp
  then have "?s \<le> unat (st_start str) + unat (st_nelems str) * ?s + 1" by linarith
  then have "?s * ?z \<le> (unat (st_start str) + unat (st_nelems str) * ?s + 1) * ?z" by (rule mult_le_mono1)
  also have "\<dots> < 4294967296" using a unfolding access_ok_def by linarith
  finally have f: "?s * ?z < 4294967296" .
  have "(?s - 1) * ?z \<le> ?s * ?z" by (rule mult_le_mono1) simp
  then have f': "(?s - 1) * ?z < 4294967296" using f by (rule le_less_trans)
  have s1: "unat (st_stride str - 1) = ?s - 1" using p by (subst u64_sub_nat) simp_all
  have w: "unat (ucast ((st_stride str - 1) * ucast sz) :: u32) = (?s - 1) * ?z"
    using u64_mul_u32 [of "st_stride str - 1" sz] f' s1 by simp
  show ?thesis
  proof (cases "st_stride str = 1")
    case True
    then show ?thesis using p by (simp add: gap_ok_def)
  next
    case False
    then have "unat (st_stride str) \<noteq> 1" by (metis unat_1 word_unat_eq_iff)
    then have "1 < ?s" using p by linarith
    then have "0 < (?s - 1) * ?z" using p by simp
    then show ?thesis using False p w by (simp add: gap_ok_def after_element_def)
  qed
qed

lemma block_array_read_ok:
  assumes inv: "ba_inv r" and a: "access_ok str sz (length (ba_bytes r))"
    and al: "length (ba_bytes r) mod unat sz = 0"
    and dest: "length (places str sz (length (ba_bytes r))) * unat sz \<le> length dest"
  shows "block_array_read r str sz dest =
     Some (u64_of (length (places str sz (length (ba_bytes r)))),
           overwrite dest 0 (spec_read (unat sz) (places str sz (length (ba_bytes r))) (ba_bytes r)))"
proof -
  let ?bs = "ba_bytes r" and ?z = "unat sz" and ?P = "places str sz (length (ba_bytes r))"
  let ?stp = "unat (st_stride str)" and ?n = "unat (st_nelems str)" and ?i = "unat (st_start str)"
  have p: "0 < ?z" "0 < ?stp" using a by (simp_all add: access_ok_def)
  have oks: "\<forall>b\<in>set (ba_blocks r). block_ok (ba_cap r) b" using inv by (simp add: ba_inv_def)
  have bidx: "unat (ucast (st_start str * ucast sz) :: u32) = ?i * ?z" by (rule access_index [OF a])
  note small = access_nelems [OF a]
  note vm = visits_mask_read [OF p al, of ?i ?n, folded places_def]
  show ?thesis
  proof (cases "?i * ?z < length ?bs")
    case False
    then have "block_seek (ba_blocks r) 0 (ucast (st_start str * ucast sz)) = None"
      using bidx by (intro block_seek_None [OF oks]) (simp add: ba_bytes_def)
    moreover have "?P = []"
      using False p by (cases ?n) (auto simp: places_def)
    ultimately show ?thesis by (simp add: block_array_read_def spec_read_def u64_of_def)
  next
    case True
    then have "unat (ucast (st_start str * ucast sz) :: u32) < length (chain_bytes (ba_blocks r))"
      using bidx by (simp add: ba_bytes_def)
    from block_seek_Some [OF oks this, of 0] obtain B c A o' where
      s: "block_seek (ba_blocks r) 0 (ucast (st_start str * ucast sz)) = Some (length B, o')"
        "ba_blocks r = B @ c # A" "o' < bl_len c" "?i * ?z = length (chain_bytes B) + unat o'"
      using bidx by auto
    have ok: "block_ok (ba_cap r) c" using oks s(2) by simp
    have ah: "ahead c o' A = drop (?i * ?z) ?bs"
      using ahead_seek [OF ok s(3), of A B] s(2,4) by (simp add: ba_bytes_def)
    show ?thesis
    proof (cases "?n = 0")
      case True
      then show ?thesis using s(1)
        by (simp add: block_array_read_def block_read_loop.simps [of r] places_def spec_read_def u64_of_def)
    next
      case False
      then have g: "gap_ok str sz ((?stp - 1) * ?z)" using gap_ok_access [OF a] by simp
      let ?st = "\<lparr>ss_next = sz, ss_active = True\<rparr>"
      have m: "st_mask ?z ((?stp - 1) * ?z) ?n ?st (length (ahead c o' A)) = visit_mask ?z ((?stp - 1) * ?z) ?n ?z (length ?bs - ?i * ?z)"
        "st_count ?z ((?stp - 1) * ?z) ?n ?st (length (ahead c o' A)) = length ?P"
        using ah vm by (simp_all add: st_mask_def st_count_def)
      have sl: "sel (ahead c o' A) (st_mask ?z ((?stp - 1) * ?z) ?n ?st (length (ahead c o' A))) = spec_read ?z ?P ?bs"
        using m(1) vm ah by simp
      have "length (spec_read ?z ?P ?bs) = length ?P * ?z"
        using places_in by (intro length_spec_read) auto
      then have "block_read_loop r str sz (length B) o' ?st 0 dest 0 = Some (u64_of (unat (0 :: u32) + length ?P), overwrite dest 0 (spec_read ?z ?P ?bs))"
        using block_read_loop_ok [OF oks g small s(2), of o' 0 ?n ?st 0 dest] s(3) p dest sl m(2) by simp
      then show ?thesis using s(1) by (simp add: block_array_read_def)
    qed
  qed
qed

section \<open>Writing\<close>

fun put :: "'a list \<Rightarrow> bool list \<Rightarrow> 'a list \<Rightarrow> 'a list" where
  "put (x # S) (b # M) src =
     (if b then (case src of [] \<Rightarrow> x # put S M [] | y # ys \<Rightarrow> y # put S M ys) else x # put S M src)"
| "put S M src = S"

lemma put_True: "length S \<le> length src \<Longrightarrow>
   put (S @ S') (replicate (length S) True @ M) src = take (length S) src @ put S' M (drop (length S) src)"
proof (induction S arbitrary: src)
  case (Cons x S)
  then show ?case by (cases src) simp_all
qed simp

lemma put_False: "put (S @ S') (replicate (length S) False @ M) src = S @ put S' M src"
  by (induction S) simp_all

lemma put_Nil [simp]: "put [] M src = []"
  by (cases M) simp_all

lemma put_all_False [simp]: "put S (replicate n False) src = S"
  by (induction S arbitrary: n) (auto simp: gr0_conv_Suc elim: put.elims split: nat.splits, (case_tac n; simp)+)

lemma length_put [simp]: "length (put S M src) = length S"
  by (induction S M src rule: put.induct) (auto split: list.split)

lemma overwrite_self: "off + m \<le> length d \<Longrightarrow> overwrite d off (take m (drop off d)) = d"
  by (rule nth_equalityI) (auto simp: nth_overwrite)

text \<open>The block after its bytes from \<open>bidx\<close> on were overwritten.\<close>

lemma blk_bytes_store:
  assumes ok: "block_ok cap c" and fits: "unat bidx + length x \<le> unat (bl_len c)"
  defines "c' \<equiv> c\<lparr>bl_data := overwrite (bl_data c) (unat bidx) x\<rparr>"
  shows "block_ok cap c'" and "take (unat bidx + length x) (blk_bytes c') = take (unat bidx) (blk_bytes c) @ x"
    and "drop (unat bidx + length x) (blk_bytes c') = drop (unat bidx + length x) (blk_bytes c)"
proof -
  have l: "length (bl_data c) = unat cap" "unat (bl_len c) \<le> unat cap"
    using ok by (simp_all add: block_ok_def word_le_nat_alt)
  have e: "blk_bytes c' = overwrite (blk_bytes c) (unat bidx) x"
    using take_overwrite_within [of "unat bidx" x "unat (bl_len c)" "bl_data c"] fits l
    by (simp add: blk_bytes_def c'_def)
  show "block_ok cap c'" using ok fits l by (simp add: block_ok_def c'_def)
  have lb: "length (blk_bytes c) = unat (bl_len c)" using ok by simp
  show "take (unat bidx + length x) (blk_bytes c') = take (unat bidx) (blk_bytes c) @ x"
    unfolding e by (rule take_overwrite_full) (use fits lb in simp)
  show "drop (unat bidx + length x) (blk_bytes c') = drop (unat bidx + length x) (blk_bytes c)"
    unfolding e by (rule drop_overwrite_eq) (use fits lb in simp_all)
qed

lemma block_write_loop_ok:
  assumes g: "gap_ok str sz gap" and small: "unat (st_nelems str) < 4294967296"
  shows "ba_inv r \<Longrightarrow> ba_blocks r = B @ c # A \<Longrightarrow> bidx \<le> bl_len c \<Longrightarrow> unat (st_nelems str) = unat tot + n \<Longrightarrow>
    0 < unat (ss_next st) \<Longrightarrow>
    soff + length (filter id (st_mask (unat sz) gap n st (length (ahead c bidx A)))) \<le> length src \<Longrightarrow>
    \<exists>r'. block_write_loop r str sz (length B) bidx st tot src soff =
        Some (u64_of (unat tot + st_count (unat sz) gap n st (length (ahead c bidx A))), r') \<and> ba_inv r' \<and>
      ba_bytes r' = chain_bytes B @ take (unat bidx) (blk_bytes c) @
        put (ahead c bidx A) (st_mask (unat sz) gap n st (length (ahead c bidx A))) (drop soff src)"
proof (induction "length (ahead c bidx A) + length A" arbitrary: r B c A bidx tot n st soff rule: less_induct)
  case less
  note inv = less.prems(1) and bl = less.prems(2) and nn = less.prems(4) and pos = less.prems(5) and room = less.prems(6)
  let ?S = "ahead c bidx A"
  have ok: "block_ok (ba_cap r) c" using inv bl by (simp add: ba_inv_def)
  show ?case
  proof (cases n)
    case 0
    have "ba_bytes r = chain_bytes B @ take (unat bidx) (blk_bytes c) @ ?S"
      using bl by (simp add: ba_bytes_def ahead_def)
    then show ?thesis using nn 0 inv by (subst block_write_loop.simps) (simp add: ucast_u64_of)
  next
    case (Suc k)
    let ?m = "next_chunk st c bidx"
    note cf = next_chunk_fits [OF less.prems(3)]
    note ac = ahead_chunk(1,2) [OF ok cf(1), where A = A] ahead_chunk(3) [OF ok cf(1)]
    let ?st = "advance str sz st ?m"
    let ?tot = "count_done st ?m tot"
    let ?k = "Suc k - finishes st ?m"
    let ?S' = "drop (unat ?m) ?S"
    let ?M' = "st_mask (unat sz) gap ?k ?st (length ?S')"
    let ?soff = "if ss_active st then soff + unat ?m else soff"
    let ?x = "if ss_active st then take (unat ?m) (drop soff src) else take (unat ?m) ?S"
    note step = st_mask_step [OF g cf(2) ac(2), where n = k, folded length_drop]
    have tot: "unat ?tot = unat tot + finishes st ?m"
      by (rule finishes_word [of _ n]) (use nn small Suc in auto)
    have nn': "unat (st_nelems str) = unat ?tot + ?k" using nn Suc tot by simp
    have lt: "unat tot < unat (st_nelems str)" using nn Suc by simp
    have cnt: "unat tot + st_count (unat sz) gap n st (length ?S) = unat ?tot + st_count (unat sz) gap ?k ?st (length ?S')"
      unfolding Suc step(2) tot by simp
    have pos': "0 < unat (ss_next ?st)" by (rule advance_pos [OF g cf(2)])
    have room': "?soff + length (filter id ?M') \<le> length src"
      and sfits: "ss_active st \<Longrightarrow> soff + unat ?m \<le> length src"
      using room unfolding Suc step(1) by auto
    have lx: "length ?x = unat ?m" using sfits ac(2) by auto
    have putS: "put ?S (st_mask (unat sz) gap n st (length ?S)) (drop soff src) = ?x @ put ?S' ?M' (drop ?soff src)"
    proof -
      have lm: "length (take (unat ?m) ?S) = unat ?m" using ac(2) by simp
      have "put (take (unat ?m) ?S @ ?S') (replicate (unat ?m) (ss_active st) @ ?M') (drop soff src) =
          ?x @ put ?S' ?M' (drop ?soff src)"
        using put_True [of "take (unat ?m) ?S" "drop soff src" ?S' ?M', unfolded lm]
          put_False [of "take (unat ?m) ?S" ?S' ?M' "drop soff src", unfolded lm] sfits
        by (cases "ss_active st") (simp_all add: add.commute)
      then show ?thesis unfolding Suc step(1) by simp
    qed
    let ?d = "overwrite (bl_data c) (unat bidx) ?x"
    let ?c = "c\<lparr>bl_data := ?d\<rparr>"
    have fx: "unat bidx + length ?x \<le> unat (bl_len c)" unfolding lx by (rule cf(1))
    note sto = blk_bytes_store [OF ok fx, unfolded lx]
    have d: "(if ss_active st \<and> ?m > 0
         then do { bs \<leftarrow> mem_load src soff (unat ?m); mem_store (bl_data c) (unat bidx) bs }
         else Some (bl_data c)) = Some ?d"
    proof (cases "ss_active st \<and> ?m > 0")
      case True
      then have "mem_load src soff (unat ?m) = Some ?x" using sfits by simp
      moreover have "mem_store (bl_data c) (unat bidx) ?x = Some ?d"
        by (rule mem_store_ok) (unfold lx, rule ac(3))
      ultimately show ?thesis using True by (simp only: if_True Option.bind.bind_lunit simp_thms)
    next
      case False
      have "?d = bl_data c"
      proof (cases "ss_active st")
        case True
        then have "unat ?m = 0" using False by (simp add: word_less_nat_alt)
        then have "?x = []" by simp
        then show ?thesis by (simp only: overwrite_Nil)
      next
        case act: False
        have "overwrite (bl_data c) (unat bidx) (take (unat ?m) (drop (unat bidx) (bl_data c))) = bl_data c"
          by (rule overwrite_self [OF ac(3)])
        then show ?thesis using act ac(1) by simp
      qed
      then show ?thesis unfolding if_not_P [OF False] by (simp only:)
    qed
    let ?r = "set_block r (length B) ?c"
    have set: "ba_inv ?r \<and> ba_blocks ?r = B @ ?c # A"
      by (rule ba_inv_set [OF inv bl _ sto(1)]) simp
    then have bl': "ba_blocks ?r = B @ ?c # A" and inv': "ba_inv ?r" by blast+
    note runs = if_P [OF lt] get_block_at [OF bl] Option.bind.bind_lunit Let_def
    have run: "block_write_loop r str sz (length B) bidx st tot src soff =
      (case next_pos ?r (length B) (bidx + ?m) of
         None \<Rightarrow> Some (ucast ?tot, ?r)
       | Some (cur', bidx') \<Rightarrow> block_write_loop ?r str sz cur' bidx' ?st ?tot src ?soff)"
      by (subst block_write_loop.simps) (simp only: runs d)
    have len': "bl_len ?c = bl_len c" by simp
    show ?thesis
    proof (cases "bidx + ?m = bl_len c")
      case True
      then have u: "unat bidx + unat ?m = unat (bl_len c)"
        using u32_add_nat [of bidx ?m] u32_fits [OF cf(1)] by metis
      have S': "?S' = chain_bytes A" by (rule ahead_move [OF ok u])
      have whole: "blk_bytes ?c = take (unat bidx) (blk_bytes c) @ ?x"
        using sto(2) length_blk_bytes [OF sto(1)] u len' by simp
      show ?thesis
      proof (cases A)
        case Nil
        then have e: "?S' = []" using S' by simp
        have z: "0 < unat sz" using g by (simp add: gap_ok_def)
        have "block_write_loop r str sz (length B) bidx st tot src soff = Some (ucast ?tot, ?r)"
          unfolding run next_pos_at [OF bl'] using True Nil by simp
        moreover have "st_count (unat sz) gap ?k ?st (length ?S') = 0" unfolding e using z pos' by simp
        moreover have "ba_bytes ?r = chain_bytes B @ take (unat bidx) (blk_bytes c) @ ?x"
          using bl' whole Nil by (simp add: ba_bytes_def)
        ultimately show ?thesis unfolding putS cnt e using inv' by (simp add: ucast_u64_of)
      next
        case (Cons c2 A2)
        have bl2: "ba_blocks ?r = (B @ [?c]) @ c2 # A2" using bl' Cons by simp
        have S2: "?S' = ahead c2 0 A2" unfolding ahead_start using S' Cons by simp
        have "block_write_loop r str sz (length B) bidx st tot src soff =
            block_write_loop ?r str sz (length (B @ [?c])) 0 ?st ?tot src ?soff"
          unfolding run next_pos_at [OF bl'] using True Cons by simp
        moreover have "\<exists>r'. block_write_loop ?r str sz (length (B @ [?c])) 0 ?st ?tot src ?soff =
            Some (u64_of (unat ?tot + st_count (unat sz) gap ?k ?st (length (ahead c2 0 A2))), r') \<and> ba_inv r' \<and>
          ba_bytes r' = chain_bytes (B @ [?c]) @ take (unat (0 :: u32)) (blk_bytes c2) @
            put (ahead c2 0 A2) (st_mask (unat sz) gap ?k ?st (length (ahead c2 0 A2))) (drop ?soff src)"
        proof (rule less.hyps [OF _ inv' bl2 _ nn' pos'])
          have "length ?S' \<le> length ?S" by simp
          then have "length (ahead c2 0 A2) \<le> length ?S" unfolding S2 .
          then show "length (ahead c2 0 A2) + length A2 < length ?S + length A" using Cons by simp
        qed (use room' S2 in simp_all)
        ultimately show ?thesis unfolding putS cnt S2 using whole by simp
      qed
    next
      case False
      then have mn: "?m = ss_next st" by (rule cf(4))
      have u: "unat (bidx + ?m) = unat bidx + unat ?m" using u32_fits [OF cf(1)] by simp
      have S2: "?S' = ahead ?c (bidx + ?m) A"
        using ahead_stay [OF ok cf(1), where A = A] sto(3) u by (simp add: ahead_def)
      have tk: "take (unat (bidx + ?m)) (blk_bytes ?c) = take (unat bidx) (blk_bytes c) @ ?x"
        unfolding u by (rule sto(2))
      have "block_write_loop r str sz (length B) bidx st tot src soff =
          block_write_loop ?r str sz (length B) (bidx + ?m) ?st ?tot src ?soff"
        unfolding run next_pos_at [OF bl'] using False by simp
      moreover have "\<exists>r'. block_write_loop ?r str sz (length B) (bidx + ?m) ?st ?tot src ?soff =
          Some (u64_of (unat ?tot + st_count (unat sz) gap ?k ?st (length (ahead ?c (bidx + ?m) A))), r') \<and> ba_inv r' \<and>
        ba_bytes r' = chain_bytes B @ take (unat (bidx + ?m)) (blk_bytes ?c) @
          put (ahead ?c (bidx + ?m) A) (st_mask (unat sz) gap ?k ?st (length (ahead ?c (bidx + ?m) A))) (drop ?soff src)"
      proof (rule less.hyps [OF _ inv' bl' _ nn' pos'])
        have "0 < unat ?m" using mn pos by simp
        moreover have "0 < length ?S" by (rule less_le_trans [OF calculation ac(2)])
        ultimately have "length ?S' < length ?S" by simp
        then have "length (ahead ?c (bidx + ?m) A) < length ?S" unfolding S2 .
        then show "length (ahead ?c (bidx + ?m) A) + length A < length ?S + length A" by simp
      qed (use cf(3) room' S2 in simp_all)
      ultimately show ?thesis unfolding putS cnt S2 tk by simp
    qed
  qed
qed

lemma visits_mask_count:
  assumes "0 < sz" and "0 < stp" and "length (bs :: u8 list) mod sz = 0"
  shows "length (filter id (visit_mask sz ((stp - 1) * sz) n sz (length bs - i * sz))) = length (visits n i stp sz (length bs)) * sz"
proof -
  have "length (sel (drop (i * sz) bs) (visit_mask sz ((stp - 1) * sz) n sz (length bs - i * sz))) =
      length (spec_read sz (visits n i stp sz (length bs)) bs)"
    using visits_mask_read [OF assms, of i n] by simp
  also have "\<dots> = length (visits n i stp sz (length bs)) * sz"
    by (rule length_spec_read) (use visits_range [of _ n i stp sz "length bs"] in blast)
  finally show ?thesis by (simp add: length_sel)
qed

lemma visits_mask_write:
  assumes "0 < sz" and "0 < stp"
  shows "length bs mod sz = 0 \<Longrightarrow> length (visits n i stp sz (length bs)) * sz \<le> length src \<Longrightarrow>
    take (i * sz) bs @ put (drop (i * sz) bs) (visit_mask sz ((stp - 1) * sz) n sz (length bs - i * sz)) src =
      spec_write sz (visits n i stp sz (length bs)) src bs"
proof (induction n arbitrary: i bs src)
  case 0
  then show ?case by simp
next
  case (Suc n)
  let ?L = "length bs - i * sz" and ?g = "(stp - 1) * sz"
  show ?case
  proof (cases "(i + 1) * sz \<le> length bs")
    case False
    then show ?thesis using aligned_end [OF assms(1) Suc.prems(1) False] by simp
  next
    case True
    let ?x = "take sz src" and ?G = "take ?g (drop ((i + 1) * sz) bs)" and ?R = "drop ((i + stp) * sz) bs"
    let ?b = "overwrite bs (i * sz) ?x"
    have src: "sz + length (visits n (i + stp) stp sz (length bs)) * sz \<le> length src"
      using Suc.prems(2) True by simp
    have lx: "length ?x = sz" using src by simp
    have nl: "\<not> ?L < sz" using True by simp
    have S: "drop (i * sz) bs = elem sz bs i @ ?G @ ?R"
      using drop_elem [OF True] gap_split [OF True assms(2)] by simp
    have lG: "length ?G = min ?g (?L - sz)" by (simp add: min.commute)
    have le: "length (elem sz bs i) = sz" using True by (rule length_elem)
    have "put (drop (i * sz) bs) (visit_mask sz ?g (Suc n) sz ?L) src =
        ?x @ ?G @ put ?R (visit_mask sz ?g n sz (length bs - (i + stp) * sz)) (drop sz src)"
    proof -
      have "put (elem sz bs i @ ?G @ ?R) (replicate sz True @ replicate (min ?g (?L - sz)) False @
            visit_mask sz ?g n sz (length bs - (i + stp) * sz)) src =
          ?x @ put (?G @ ?R) (replicate (min ?g (?L - sz)) False @ visit_mask sz ?g n sz (length bs - (i + stp) * sz)) (drop sz src)"
        using put_True [of "elem sz bs i" src "?G @ ?R", unfolded le] src by simp
      also have "put (?G @ ?R) (replicate (min ?g (?L - sz)) False @ visit_mask sz ?g n sz (length bs - (i + stp) * sz)) (drop sz src) =
          ?G @ put ?R (visit_mask sz ?g n sz (length bs - (i + stp) * sz)) (drop sz src)"
        using put_False [of ?G ?R _ "drop sz src", unfolded lG] .
      finally show ?thesis
        unfolding S visit_mask.simps if_not_P [OF nl] visits_step_len [OF True assms(2)] .
    qed
    moreover have lb: "length ?b = length bs" using True lx by (intro length_overwrite) simp
    moreover have dR: "drop ((i + stp) * sz) ?b = ?R"
    proof (cases "(i + stp) * sz \<le> length bs")
      case in_range: True
      have "i * sz + sz \<le> (i + stp) * sz" using next_block [of i "i + stp" sz] assms(2) by simp
      then show ?thesis using in_range lx by (intro drop_overwrite_eq) simp_all
    qed (use lb in simp)
    moreover have "take ((i + stp) * sz) ?b = take (i * sz) bs @ ?x @ ?G"
    proof -
      have b: "?b = take (i * sz) bs @ ?x @ ?G @ ?R"
        using gap_split [OF True assms(2)] lx by (simp add: overwrite_def add.commute)
      show ?thesis
      proof (cases "(i + stp) * sz \<le> length bs")
        case in_range: True
        obtain k where k: "stp = Suc k" using assms(2) by (cases stp) auto
        have "length (take (i * sz) bs @ ?x @ ?G) = (i + stp) * sz"
          using in_range True lx k by (simp add: algebra_simps)
        then show ?thesis unfolding b by (metis append.assoc append_eq_conv_conj)
      next
        case False
        have "?R = []" using False by simp
        moreover have "take ((i + stp) * sz) ?b = ?b" using False lb by (intro take_all) simp
        ultimately show ?thesis using b by (simp only: append_Nil2)
      qed
    qed
    moreover have "take ((i + stp) * sz) ?b @ put (drop ((i + stp) * sz) ?b)
        (visit_mask sz ?g n sz (length ?b - (i + stp) * sz)) (drop sz src) =
      spec_write sz (visits n (i + stp) stp sz (length ?b)) (drop sz src) ?b"
      by (rule Suc.IH) (use Suc.prems(1) src lb in simp_all)
    ultimately show ?thesis using True by simp
  qed
qed

section \<open>Writing the array\<close>

text \<open>A position of the chain, for the first element of a stride.\<close>

lemma seek_position:
  assumes inv: "ba_inv r" and a: "access_ok str sz (length (ba_bytes r))"
    and "unat (st_start str) * unat sz < length (ba_bytes r)"
  obtains B c A o' where "block_seek (ba_blocks r) 0 (ucast (st_start str * ucast sz)) = Some (length B, o')"
    and "ba_blocks r = B @ c # A" and "o' < bl_len c"
    and "ahead c o' A = drop (unat (st_start str) * unat sz) (ba_bytes r)"
    and "chain_bytes B @ take (unat o') (blk_bytes c) = take (unat (st_start str) * unat sz) (ba_bytes r)"
proof -
  have oks: "\<forall>b\<in>set (ba_blocks r). block_ok (ba_cap r) b" using inv by (simp add: ba_inv_def)
  note bidx = access_index [OF a]
  have "unat (ucast (st_start str * ucast sz) :: u32) < length (chain_bytes (ba_blocks r))"
    using bidx assms(3) by (simp add: ba_bytes_def)
  from block_seek_Some [OF oks this, of 0] obtain B c A o' where
    s: "block_seek (ba_blocks r) 0 (ucast (st_start str * ucast sz)) = Some (length B, o')"
      "ba_blocks r = B @ c # A" "o' < bl_len c" "unat (st_start str) * unat sz = length (chain_bytes B) + unat o'"
    using bidx by auto
  have ok: "block_ok (ba_cap r) c" using oks s(2) by simp
  have "ahead c o' A = drop (unat (st_start str) * unat sz) (ba_bytes r)"
    using ahead_seek [OF ok s(3), of A B] s(2,4) by (simp add: ba_bytes_def)
  moreover have "chain_bytes B @ take (unat o') (blk_bytes c) = take (unat (st_start str) * unat sz) (ba_bytes r)"
    using s(2-4) length_blk_bytes [OF ok] by (simp add: ba_bytes_def word_less_nat_alt)
  ultimately show thesis using that s by blast
qed

lemma seek_nowhere:
  assumes inv: "ba_inv r" and a: "access_ok str sz (length (ba_bytes r))"
    and "\<not> unat (st_start str) * unat sz < length (ba_bytes r)"
  shows "block_seek (ba_blocks r) 0 (ucast (st_start str * ucast sz)) = None"
    and "places str sz (length (ba_bytes r)) = []"
proof -
  have oks: "\<forall>b\<in>set (ba_blocks r). block_ok (ba_cap r) b" using inv by (simp add: ba_inv_def)
  show "block_seek (ba_blocks r) 0 (ucast (st_start str * ucast sz)) = None"
    using access_index [OF a] assms(3) by (intro block_seek_None [OF oks]) (simp add: ba_bytes_def)
  show "places str sz (length (ba_bytes r)) = []"
    using assms(3) a by (cases "unat (st_nelems str)") (auto simp: places_def access_ok_def)
qed

lemma block_array_write_ok:
  assumes inv: "ba_inv r" and a: "access_ok str sz (length (ba_bytes r))"
    and al: "length (ba_bytes r) mod unat sz = 0"
    and src: "length (places str sz (length (ba_bytes r))) * unat sz \<le> length src"
  shows "\<exists>r'. block_array_write r str sz src = Some (u64_of (length (places str sz (length (ba_bytes r)))), r') \<and>
     ba_inv r' \<and> ba_bytes r' = spec_write (unat sz) (places str sz (length (ba_bytes r))) src (ba_bytes r)"
proof -
  let ?bs = "ba_bytes r" and ?z = "unat sz" and ?P = "places str sz (length (ba_bytes r))"
  let ?stp = "unat (st_stride str)" and ?n = "unat (st_nelems str)" and ?i = "unat (st_start str)"
  let ?g = "(?stp - 1) * ?z"
  have p: "0 < ?z" "0 < ?stp" using a by (simp_all add: access_ok_def)
  show ?thesis
  proof (cases "?i * ?z < length ?bs")
    case False
    then show ?thesis using seek_nowhere [OF inv a False] inv by (simp add: block_array_write_def u64_of_def)
  next
    case True
    obtain B c A o' where s: "block_seek (ba_blocks r) 0 (ucast (st_start str * ucast sz)) = Some (length B, o')"
      "ba_blocks r = B @ c # A" "o' < bl_len c" "ahead c o' A = drop (?i * ?z) ?bs"
      "chain_bytes B @ take (unat o') (blk_bytes c) = take (?i * ?z) ?bs"
      by (rule seek_position [OF inv a True])
    show ?thesis
    proof (cases "?n = 0")
      case True
      then show ?thesis using s(1) inv
        by (simp add: block_array_write_def block_write_loop.simps [of r] places_def u64_of_def)
    next
      case False
      then have g: "gap_ok str sz ?g" using gap_ok_access [OF a] by simp
      let ?st = "\<lparr>ss_next = sz, ss_active = True\<rparr>"
      let ?M = "visit_mask ?z ?g ?n ?z (length ?bs - ?i * ?z)"
      have m: "st_mask ?z ?g ?n ?st (length (ahead c o' A)) = ?M"
        "st_count ?z ?g ?n ?st (length (ahead c o' A)) = length ?P"
        using s(4) visits_mask_read [OF p al, of ?i ?n, folded places_def] by (simp_all add: st_mask_def st_count_def)
      have lm: "length (filter id ?M) = length ?P * ?z"
        using visits_mask_count [OF p al, of ?n ?i] by (simp add: places_def)
      have "take (?i * ?z) ?bs @ put (drop (?i * ?z) ?bs) ?M src = spec_write ?z ?P src ?bs"
        using visits_mask_write [OF p al, of ?n ?i src] src by (simp add: places_def)
      then have w: "chain_bytes B @ take (unat o') (blk_bytes c) @ put (ahead c o' A) ?M (drop 0 src) = spec_write ?z ?P src ?bs"
        using s(4,5) by (simp flip: append_assoc)
      have "o' \<le> bl_len c" using s(3) by simp
      with block_write_loop_ok [OF g access_nelems [OF a] inv s(2) this, of 0 ?n ?st 0 src] p lm m w src
      show ?thesis using s(1) by (auto simp: block_array_write_def)
    qed
  qed
qed

end
