(* ===== verification/Block_remove.thy ===== *)
theory Block_remove
  imports Block_access
begin

text \<open>
  Removal from the block array. The bytes before the write position are the ones kept so far,
  those from the read position on are still to be visited; each step of the loops moves bytes
  from the second sequence to the first or drops them.
\<close>

section \<open>Positions\<close>

definition rp_inv :: "remove_pos \<Rightarrow> u8 list \<Rightarrow> u8 list \<Rightarrow> bool" where
  "rp_inv p K S \<longleftrightarrow> (\<exists>B w A.
     ba_inv (rp_arr p) \<and> ba_blocks (rp_arr p) = B @ w # A \<and> rp_wcur p = length B \<and>
     rp_wbidx p < ba_cap (rp_arr p) \<and> K = chain_bytes B @ take (unat (rp_wbidx p)) (bl_data w) \<and>
     (rp_rcur p = length B \<and> rp_wbidx p \<le> rp_rbidx p \<and> rp_rbidx p \<le> bl_len w \<and> S = ahead w (rp_rbidx p) A \<or>
      rp_rcur p = length B + 1 \<and>
        (case A of [] \<Rightarrow> S = [] | c # A' \<Rightarrow> rp_rbidx p \<le> bl_len c \<and> S = ahead c (rp_rbidx p) A')))"

text \<open>In a common block the write position is behind the read position.\<close>

definition rp_strict :: "remove_pos \<Rightarrow> bool" where
  "rp_strict p \<longleftrightarrow> (rp_rcur p = rp_wcur p \<longrightarrow> rp_wbidx p < rp_rbidx p)"

definition rp_live :: "remove_pos \<Rightarrow> bool" where
  "rp_live p \<longleftrightarrow> rp_rcur p < length (ba_blocks (rp_arr p))"

lemma rp_cases [consumes 2, case_names same two]:
  assumes "rp_inv p K S" and "rp_live p"
  obtains B c A where "ba_inv (rp_arr p)" "ba_blocks (rp_arr p) = B @ c # A" "rp_wcur p = length B"
      "rp_rcur p = length B" "rp_wbidx p < ba_cap (rp_arr p)" "rp_wbidx p \<le> rp_rbidx p" "rp_rbidx p \<le> bl_len c"
      "K = chain_bytes B @ take (unat (rp_wbidx p)) (bl_data c)" "S = ahead c (rp_rbidx p) A"
    | B w c A where "ba_inv (rp_arr p)" "ba_blocks (rp_arr p) = B @ w # c # A" "rp_wcur p = length B"
      "rp_rcur p = length B + 1" "rp_wbidx p < ba_cap (rp_arr p)" "rp_rbidx p \<le> bl_len c"
      "K = chain_bytes B @ take (unat (rp_wbidx p)) (bl_data w)" "S = ahead c (rp_rbidx p) A"
proof -
  from assms(1) obtain B w A where *: "ba_inv (rp_arr p)" "ba_blocks (rp_arr p) = B @ w # A" "rp_wcur p = length B"
    "rp_wbidx p < ba_cap (rp_arr p)" "K = chain_bytes B @ take (unat (rp_wbidx p)) (bl_data w)"
    "rp_rcur p = length B \<and> rp_wbidx p \<le> rp_rbidx p \<and> rp_rbidx p \<le> bl_len w \<and> S = ahead w (rp_rbidx p) A \<or>
      rp_rcur p = length B + 1 \<and>
        (case A of [] \<Rightarrow> S = [] | c # A' \<Rightarrow> rp_rbidx p \<le> bl_len c \<and> S = ahead c (rp_rbidx p) A')"
    unfolding rp_inv_def by blast
  show thesis
  proof (cases "rp_rcur p = length B")
    case True
    then show thesis using that(1) [of B w A] * by auto
  next
    case False
    then have r: "rp_rcur p = length B + 1" using *(6) by blast
    then obtain c A' where "A = c # A'" using assms(2) *(2) by (cases A) (auto simp: rp_live_def)
    then show thesis using that(2) [of B w c A'] * r by auto
  qed
qed

lemma rp_invI:
  assumes "ba_inv (rp_arr p)" and "ba_blocks (rp_arr p) = B @ w # A" and "rp_wcur p = length B"
    and "rp_wbidx p < ba_cap (rp_arr p)" and "K = chain_bytes B @ take (unat (rp_wbidx p)) (bl_data w)"
    and "rp_rcur p = length B \<and> rp_wbidx p \<le> rp_rbidx p \<and> rp_rbidx p \<le> bl_len w \<and> S = ahead w (rp_rbidx p) A \<or>
      rp_rcur p = length B + 1 \<and>
        (case A of [] \<Rightarrow> S = [] | c # A' \<Rightarrow> rp_rbidx p \<le> bl_len c \<and> S = ahead c (rp_rbidx p) A')"
  shows "rp_inv p K S"
  unfolding rp_inv_def using assms by blast

definition read_block :: "remove_pos \<Rightarrow> block" where
  "read_block p = ba_blocks (rp_arr p) ! rp_rcur p"

lemma read_block_get: "rp_live p \<Longrightarrow> get_block (rp_arr p) (rp_rcur p) = Some (read_block p)"
  by (simp add: get_block_def read_block_def rp_live_def)

lemma rp_read_block:
  assumes "rp_inv p K S" and "rp_live p"
  shows "block_ok (ba_cap (rp_arr p)) (read_block p)" and "rp_rbidx p \<le> bl_len (read_block p)"
    and "\<exists>A. S = ahead (read_block p) (rp_rbidx p) A"
proof -
  have "block_ok (ba_cap (rp_arr p)) (read_block p) \<and> rp_rbidx p \<le> bl_len (read_block p) \<and>
    (\<exists>A. S = ahead (read_block p) (rp_rbidx p) A)"
    using assms
  proof (cases rule: rp_cases)
    case (same B c A)
    then have "read_block p = c" by (simp add: read_block_def)
    moreover have "block_ok (ba_cap (rp_arr p)) c" using same(1,2) by (simp add: ba_inv_def)
    ultimately show ?thesis using same(7,9) by auto
  next
    case (two B w c A)
    then have "read_block p = c" by (simp add: read_block_def nth_append)
    moreover have "block_ok (ba_cap (rp_arr p)) c" using two(1,2) by (simp add: ba_inv_def)
    ultimately show ?thesis using two(6,8) by auto
  qed
  then show "block_ok (ba_cap (rp_arr p)) (read_block p)" and "rp_rbidx p \<le> bl_len (read_block p)"
    and "\<exists>A. S = ahead (read_block p) (rp_rbidx p) A" by blast+
qed

text \<open>Skipping \<open>n\<close> bytes of the read block.\<close>

lemma rp_skip:
  assumes inv: "rp_inv p K S" and live: "rp_live p"
    and n: "unat (rp_rbidx p) + unat n \<le> unat (bl_len (read_block p))"
  shows "rp_inv (p\<lparr>rp_rbidx := rp_rbidx p + n\<rparr>) K (drop (unat n) S)"
proof -
  have u: "unat (rp_rbidx p + n) = unat (rp_rbidx p) + unat n" using u32_fits [OF n] by simp
  then have le: "rp_rbidx p + n \<le> bl_len (read_block p)" using n by (simp add: word_le_nat_alt)
  note ok = rp_read_block(1) [OF inv live]
  show ?thesis using inv live
  proof (cases rule: rp_cases)
    case (same B c A)
    then have c: "read_block p = c" by (simp add: read_block_def)
    have "rp_wbidx p \<le> rp_rbidx p + n" using same(6) u by (simp add: word_le_nat_alt)
    moreover have "drop (unat n) S = ahead c (rp_rbidx p + n) A"
      unfolding same(9) by (rule ahead_stay [of "ba_cap (rp_arr p)"]) (use ok n c in simp_all)
    ultimately show ?thesis 
      by (intro rp_invI [of _ B c A]) (use same le c in simp_all)
  next
    case (two B w c A)
    then have c: "read_block p = c" by (simp add: read_block_def nth_append)
    have "drop (unat n) S = ahead c (rp_rbidx p + n) A"
      unfolding two(8) by (rule ahead_stay [of "ba_cap (rp_arr p)"]) (use ok n c in simp_all)
    then show ?thesis 
      by (intro rp_invI [of _ B w "c # A"]) (use two le c in simp_all)
  qed
qed

lemma set_drop_one: "distinct (xs @ y # z # zs) \<Longrightarrow> set (xs @ y # z # zs) - {z} = set (xs @ y # zs)"
  by auto

lemma leave_block_ok:
  assumes inv: "rp_inv p K S" and live: "rp_live p" and e: "at_block_end p"
  shows "\<exists>p'. leave_block p = Some p' \<and> rp_inv p' K S \<and> rp_rcur p' = rp_wcur p' + 1 \<and> rp_rbidx p' = 0 \<and>
    length (ba_blocks (rp_arr p')) - rp_rcur p' < length (ba_blocks (rp_arr p)) - rp_rcur p"
  using inv live
proof (cases rule: rp_cases)
  case (same B c A)
  let ?p = "p\<lparr>rp_rcur := rp_rcur p + 1, rp_rbidx := 0\<rparr>"
  have ok: "block_ok (ba_cap (rp_arr p)) c" using same(1,2) by (simp add: ba_inv_def)
  have "rp_rbidx p = bl_len c" using e same(2,4) by (simp add: at_block_end_def)
  then have S: "S = chain_bytes A" using same(9) ok by (simp add: ahead_def)
  have "case A of [] \<Rightarrow> S = [] | c # A' \<Rightarrow> (0 :: u32) \<le> bl_len c \<and> S = ahead c 0 A'"
    unfolding S by (cases A) (simp_all add: ahead_start)
  then have "rp_inv ?p K S" 
    by (intro rp_invI [of _ B c A]) (use same(1-5,8) in \<open>simp_all cong: list.case_cong\<close>)
  moreover have "leave_block p = Some ?p" using same(3,4) by (simp add: leave_block_def)
  ultimately show ?thesis using same(2-4) by simp
next
  case (two B w c A)
  have ok: "block_ok (ba_cap (rp_arr p)) c" using two(1,2) by (simp add: ba_inv_def)
  have "rp_rbidx p = bl_len c" using e two(2,4) by (simp add: at_block_end_def nth_append)
  then have S: "S = chain_bytes A" using two(8) ok by (simp add: ahead_def)
  let ?r = "rp_arr p" and ?H = "set (map bl_addr (ba_blocks (rp_arr p)))"
  have "slab_inv (ba_alloc ?r) ?H" "bl_addr c \<in> ?H" using two(1,2) by (simp_all add: ba_inv_def)
  from slab.put_law [OF this] obtain a where
    a: "slab_alloc_free (ba_alloc ?r) (bl_addr c) = Some a" "slab_inv a (?H - {bl_addr c})" by blast
  let ?r' = "?r\<lparr>ba_alloc := a, ba_blocks := B @ w # A\<rparr>"
  have "distinct (map bl_addr (B @ w # c # A))" using two(1,2) by (simp add: ba_inv_def)
  then have "?H - {bl_addr c} = set (map bl_addr (B @ w # A))"
    using set_drop_one [of "map bl_addr B" "bl_addr w" "bl_addr c" "map bl_addr A"] two(2) by simp
  then have i': "ba_inv ?r'" using two(1,2) a(2) by (auto simp: ba_inv_def)
  have g: "get_block ?r (rp_rcur p) = Some c"
    using get_block_at [of ?r "B @ [w]" c A] two(2,4) by simp
  have del: "delete_block ?r (rp_rcur p) = Some ?r'"
    using g a(1) two(2,4) by (simp add: delete_block_def)
  let ?p = "p\<lparr>rp_arr := ?r', rp_rbidx := 0\<rparr>"
  have "case A of [] \<Rightarrow> S = [] | c # A' \<Rightarrow> (0 :: u32) \<le> bl_len c \<and> S = ahead c 0 A'"
    unfolding S by (cases A) (simp_all add: ahead_start)
  then have "rp_inv ?p K S" 
    by (intro rp_invI [of _ B w A]) (use two(1-5,7) i' in \<open>simp_all cong: list.case_cong\<close>)
  moreover have "leave_block p = Some ?p" using two(3,4) del by (simp add: leave_block_def)
  ultimately show ?thesis using two(2-4) by simp
qed

text \<open>Moving \<open>n\<close> bytes from the read to the write position.\<close>

lemma shift_bytes_ok:
  assumes inv: "rp_inv p K S" and live: "rp_live p" and strict: "rp_strict p"
    and n: "unat (rp_rbidx p) + unat n \<le> unat (bl_len (read_block p))"
      "unat (rp_wbidx p) + unat n \<le> unat (ba_cap (rp_arr p))"
  shows "\<exists>p'. shift_bytes p n = Some p' \<and> rp_inv p' (K @ take (unat n) S) (drop (unat n) S) \<and> rp_strict p' \<and>
    rp_rcur p' = rp_rcur p \<and> rp_rbidx p' = rp_rbidx p + n \<and> bl_len (read_block p') = bl_len (read_block p) \<and>
    length (ba_blocks (rp_arr p')) = length (ba_blocks (rp_arr p))"
proof -
  let ?r = "rp_arr p"
  have u: "unat (rp_rbidx p + n) = unat (rp_rbidx p) + unat n" using u32_fits [OF n(1)] by simp
  have uw: "unat (rp_wbidx p + n) = unat (rp_wbidx p) + unat n" using u32_fits [OF n(2)] by simp
  have le: "rp_rbidx p + n \<le> bl_len (read_block p)" using u n by (simp add: word_le_nat_alt)
  note ok = rp_read_block(1) [OF inv live]
  let ?bs = "take (unat n) (drop (unat (rp_rbidx p)) (bl_data (read_block p)))"
  have ldr: "unat (rp_rbidx p) + unat n \<le> length (bl_data (read_block p))"
    by (rule ahead_chunk(3) [OF ok n(1)])
  then have lb: "length ?bs = unat n" by simp
  have bs: "take (unat n) S = ?bs"
  proof -
    from rp_read_block(3) [OF inv live] obtain A where A: "S = ahead (read_block p) (rp_rbidx p) A" by blast
    show ?thesis unfolding A by (rule ahead_chunk(1) [OF ok n(1)])
  qed
  have ld: "(if n > 0 then do { bs \<leftarrow> mem_load (bl_data (read_block p)) (unat (rp_rbidx p)) (unat n); mem_store d (unat (rp_wbidx p)) bs }
      else Some d) = Some (overwrite d (unat (rp_wbidx p)) ?bs)"
    if d: "length d = unat (ba_cap ?r)" for d
  proof (cases "n > 0")
    case True
    then show ?thesis using ldr lb n(2) d by simp
  next
    case False
    then have "n = 0" by (simp add: word_less_nat_alt unat_eq_0)
    then show ?thesis by simp
  qed
  show ?thesis using inv live
  proof (cases rule: rp_cases)
    case (same B c A)
    then have c: "read_block p = c" by (simp add: read_block_def)
    let ?d = "overwrite (bl_data c) (unat (rp_wbidx p)) ?bs"
    let ?c = "c\<lparr>bl_data := ?d\<rparr>"
    have okc: "block_ok (ba_cap ?r) c" using ok c by simp
    then have lc: "length (bl_data c) = unat (ba_cap ?r)" by (simp add: block_ok_def)
    have lt: "unat (rp_wbidx p) < unat (rp_rbidx p)"
      using strict same(3,4) by (simp add: rp_strict_def word_less_nat_alt)
    have lc': "unat (bl_len c) \<le> unat (ba_cap ?r)" using okc by (simp add: block_ok_def word_le_nat_alt)
    then have nf: "rp_wbidx p + n \<noteq> ba_cap ?r" using lt n(1) uw c by auto
    have ld': "length ?d = length (bl_data c)" using n(2) lb lc by (intro length_overwrite) simp
    then have okc': "block_ok (ba_cap ?r) ?c" using okc by (simp add: block_ok_def)
    let ?r' = "set_block ?r (length B) ?c"
    have set: "ba_inv ?r'" "ba_blocks ?r' = B @ ?c # A" using ba_inv_set [OF same(1,2) _ okc'] by simp_all
    let ?p = "p\<lparr>rp_rbidx := rp_rbidx p + n, rp_arr := ?r', rp_wbidx := rp_wbidx p + n\<rparr>"
    have run: "shift_bytes p n = Some ?p"
      using same(2-4) c nf get_block_at [OF same(2)]
      by (simp add: shift_bytes_def Let_def ld [OF lc, unfolded c] split del: if_split)
    have "take (unat (rp_wbidx p) + length ?bs) ?d = take (unat (rp_wbidx p)) (bl_data c) @ ?bs"
      by (rule take_overwrite_full) (use n(2) lb lc in simp)
    then have K: "K @ take (unat n) S = chain_bytes B @ take (unat (rp_wbidx p + n)) ?d"
      unfolding bs same(8) using lb uw by simp
    have "drop (unat (rp_rbidx p) + unat n) ?d = drop (unat (rp_rbidx p) + unat n) (bl_data c)"
      by (rule drop_overwrite_eq) (use lt lb ldr c in simp_all)
    then have "ahead c (rp_rbidx p + n) A = ahead ?c (rp_rbidx p + n) A"
      using u by (simp add: ahead_def blk_bytes_def drop_take)
    then have S: "drop (unat n) S = ahead ?c (rp_rbidx p + n) A"
      unfolding same(9) using ahead_stay [OF okc, of "rp_rbidx p" n A] n(1) c by simp
    have lt': "rp_wbidx p + n < rp_rbidx p + n" using lt u uw by (simp add: word_less_nat_alt)
    have "rp_wbidx p + n < ba_cap ?r" using lt n(1) lc' u uw c by (simp add: word_less_nat_alt)
    then have "rp_inv ?p (K @ take (unat n) S) (drop (unat n) S)" unfolding K S
      by (intro rp_invI [of _ B ?c A]) (use same set le lt' c in simp_all)
    then show ?thesis using run lt' c set same(2,4) by (simp add: rp_strict_def read_block_def)
  next
    case (two B w c A)
    then have c: "read_block p = c" by (simp add: read_block_def nth_append)
    let ?d = "overwrite (bl_data w) (unat (rp_wbidx p)) ?bs"
    have okw: "block_ok (ba_cap ?r) w" using two(1,2) by (simp add: ba_inv_def)
    then have lw: "length (bl_data w) = unat (ba_cap ?r)" by (simp add: block_ok_def)
    have ld': "length ?d = length (bl_data w)" using n(2) lb lw by (intro length_overwrite) simp
    have gs: "get_block ?r (rp_rcur p) = Some c" "get_block ?r (rp_wcur p) = Some w"
      using get_block_at [of ?r "B @ [w]" c A] get_block_at [OF two(2)] two(2-4) by simp_all
    have tk: "take (unat (rp_wbidx p) + length ?bs) ?d = take (unat (rp_wbidx p)) (bl_data w) @ ?bs"
      by (rule take_overwrite_full) (use n(2) lb lw in simp)
    have S: "drop (unat n) S = ahead c (rp_rbidx p + n) A"
      unfolding two(8) using ahead_stay [of "ba_cap ?r" c "rp_rbidx p" n A] ok n(1) c by simp
    show ?thesis
    proof (cases "rp_wbidx p + n = ba_cap ?r")
      case True
      let ?w = "w\<lparr>bl_data := ?d, bl_len := ba_cap ?r\<rparr>"
      let ?r' = "set_block ?r (length B) ?w"
      have okw': "block_ok (ba_cap ?r) ?w" using ld' lw by (simp add: block_ok_def)
      have set: "ba_inv ?r'" "ba_blocks ?r' = B @ ?w # c # A" using ba_inv_set [OF two(1,2) _ okw'] by simp_all
      let ?p = "p\<lparr>rp_rbidx := rp_rbidx p + n, rp_arr := ?r', rp_wcur := rp_wcur p + 1, rp_wbidx := 0\<rparr>"
      have run: "shift_bytes p n = Some ?p"
        using gs c True two(3,4)
        by (simp add: shift_bytes_def Let_def ld [OF lw, unfolded c] split del: if_split)
      have full: "unat (rp_wbidx p) + unat n = unat (ba_cap ?r)" using True uw by simp
      have "blk_bytes ?w = take (unat (rp_wbidx p)) (bl_data w) @ ?bs"
        using tk full lb by (simp add: blk_bytes_def)
      then have K: "K @ take (unat n) S = chain_bytes (B @ [?w]) @ take (unat (0 :: u32)) (bl_data c)"
        unfolding bs two(7) by simp
      have "0 < unat n" using full two(5) by (simp add: word_less_nat_alt)
      then have pos: "0 < rp_rbidx p + n" using u by (simp add: word_less_nat_alt)
      have "0 < ba_cap ?r" using two(1) by (simp add: ba_inv_def)
      then have "rp_inv ?p (K @ take (unat n) S) (drop (unat n) S)" unfolding K S
        by (intro rp_invI [of _ "B @ [?w]" c A]) (use two set le c in simp_all)
      then show ?thesis using run pos c set two(2,4) by (simp add: rp_strict_def read_block_def nth_append)
    next
      case False
      let ?w = "w\<lparr>bl_data := ?d\<rparr>"
      let ?r' = "set_block ?r (length B) ?w"
      have okw': "block_ok (ba_cap ?r) ?w" using ld' okw by (simp add: block_ok_def)
      have set: "ba_inv ?r'" "ba_blocks ?r' = B @ ?w # c # A" using ba_inv_set [OF two(1,2) _ okw'] by simp_all
      let ?p = "p\<lparr>rp_rbidx := rp_rbidx p + n, rp_arr := ?r', rp_wbidx := rp_wbidx p + n\<rparr>"
      have run: "shift_bytes p n = Some ?p"
        using gs c False two(3,4)
        by (simp add: shift_bytes_def Let_def ld [OF lw, unfolded c] split del: if_split)
      have K: "K @ take (unat n) S = chain_bytes B @ take (unat (rp_wbidx p + n)) ?d"
        unfolding bs two(7) using tk lb uw by simp
      have "unat (rp_wbidx p + n) \<noteq> unat (ba_cap ?r)" using False by (simp add: u32_eq_nat)
      then have "rp_wbidx p + n < ba_cap ?r" using n(2) uw by (simp add: word_less_nat_alt)
      then have "rp_inv ?p (K @ take (unat n) S) (drop (unat n) S)" unfolding K S
        by (intro rp_invI [of _ B ?w "c # A"]) (use two set le c in simp_all)
      then show ?thesis using run c set two(2-4) by (simp add: rp_strict_def read_block_def nth_append)
    qed
  qed
qed

section \<open>One round\<close>

definition rej :: "'a list \<Rightarrow> bool list \<Rightarrow> 'a list" where
  "rej S M = map fst (filter (Not \<circ> snd) (zip S M))"

lemma rej_append [simp]: "length S = length M \<Longrightarrow> rej (S @ S') (M @ M') = rej S M @ rej S' M'"
  by (simp add: rej_def)

lemma rej_replicate [simp]: "length S = n \<Longrightarrow> rej S (replicate n b) = (if b then [] else S)"
  by (induction S arbitrary: n) (auto simp: rej_def)

lemma rej_Nil [simp]: "rej [] M = []"
  by (simp add: rej_def)

definition store_opt :: "u8 list option \<Rightarrow> nat \<Rightarrow> u8 list \<Rightarrow> u8 list option" where
  "store_opt dest off bs = map_option (\<lambda>d. overwrite d off bs) dest"

definition room_opt :: "u8 list option \<Rightarrow> nat \<Rightarrow> bool" where
  "room_opt dest n \<longleftrightarrow> (case dest of None \<Rightarrow> True | Some d \<Rightarrow> n \<le> length d)"

lemma store_opt_Nil [simp]: "store_opt dest off [] = dest"
  by (cases dest) (simp_all add: store_opt_def)

lemma store_opt_store:
  "room_opt dest (off + length xs + length ys) \<Longrightarrow>
     store_opt (store_opt dest off xs) (off + length xs) ys = store_opt dest off (xs @ ys)"
  by (cases dest) (simp_all add: store_opt_def room_opt_def overwrite_overwrite)

lemma room_opt_le: "room_opt dest n \<Longrightarrow> m \<le> n \<Longrightarrow> room_opt dest m"
  by (cases dest) (auto simp: room_opt_def)

lemma room_store_opt [simp]: "room_opt dest (off + length xs) \<Longrightarrow> room_opt (store_opt dest off xs) n = room_opt dest n"
  by (cases dest) (auto simp: room_opt_def store_opt_def)

lemma remove_round_ok:
  assumes inv: "rp_inv p K S" and live: "rp_live p" and nx: "0 < unat (ss_next st)"
    and ready: "rp_strict p \<or> ss_active st \<and> rp_rbidx p < bl_len (read_block p)"
    and room: "ss_active st \<Longrightarrow> room_opt dest (doff + length (take (unat (ss_next st)) S))"
  shows "\<exists>p' m. remove_round p st dest doff = Some (p', m, store_opt dest doff (if ss_active st then take (unat m) S else [])) \<and>
     rp_inv p' (K @ (if ss_active st then [] else take (unat m) S)) (drop (unat m) S) \<and> rp_strict p' \<and> rp_live p' \<and>
     m \<le> ss_next st \<and> unat m \<le> length S \<and> (at_block_end p' \<or> 0 < unat m) \<and>
     length (ba_blocks (rp_arr p')) - rp_rcur p' = length (ba_blocks (rp_arr p)) - rp_rcur p"
proof -
  let ?c = "read_block p"
  note ok = rp_read_block(1) [OF inv live] and le = rp_read_block(2) [OF inv live]
  from rp_read_block(3) [OF inv live] obtain A where S: "S = ahead ?c (rp_rbidx p) A" by blast
  note g = read_block_get [OF live]
  show ?thesis
  proof (cases "ss_active st")
    case True
    let ?m = "next_chunk st ?c (rp_rbidx p)"
    note cf = next_chunk_fits [OF le, of st]
    note ac = ahead_chunk(1,2) [OF ok cf(1), of A, folded S] ahead_chunk(3) [OF ok cf(1)]
    have mn: "unat ?m \<le> unat (ss_next st)" using cf(2) by (simp add: word_le_nat_alt)
    then have rm: "room_opt dest (doff + length (take (unat ?m) S))"
      using room [OF True] by (rule_tac room_opt_le) auto
    have d: "(case dest of
        Some d \<Rightarrow> if ?m > 0 then do { bs \<leftarrow> mem_load (bl_data ?c) (unat (rp_rbidx p)) (unat ?m); d' \<leftarrow> mem_store d doff bs; Some (Some d') } else Some dest
      | None \<Rightarrow> Some None) = Some (store_opt dest doff (take (unat ?m) S))"
    proof (cases "?m > 0")
      case True
      then show ?thesis using ac rm by (cases dest) (simp_all add: store_opt_def room_opt_def)
    next
      case False
      then have "unat ?m = 0" by (simp add: word_less_nat_alt)
      then show ?thesis using False by (cases dest) simp_all
    qed
    let ?p = "p\<lparr>rp_rbidx := rp_rbidx p + ?m\<rparr>"
    have run: "remove_round p st dest doff = Some (?p, ?m, store_opt dest doff (take (unat ?m) S))"
      using True by (simp add: remove_round_def g Let_def d)
    have i: "rp_inv ?p K (drop (unat ?m) S)" by (rule rp_skip [OF inv live cf(1)])
    have u: "unat (rp_rbidx p + ?m) = unat (rp_rbidx p) + unat ?m" using u32_fits [OF cf(1)] by simp
    have rb: "read_block ?p = ?c" by (simp add: read_block_def)
    have e: "at_block_end ?p \<or> 0 < unat ?m"
    proof (cases "rp_rbidx p + ?m = bl_len ?c")
      case True
      then show ?thesis by (simp add: at_block_end_def read_block_def)
    next
      case False
      then show ?thesis using cf(4) nx by simp
    qed
    have "rp_strict ?p"
    proof (cases "rp_strict p")
      case True
      then show ?thesis using u by (auto simp: rp_strict_def word_less_nat_alt)
    next
      case False
      then have lt: "unat (rp_rbidx p) < unat (bl_len ?c)" using ready by (simp add: word_less_nat_alt)
      have m: "0 < unat ?m"
      proof (rule ccontr)
        assume "\<not> 0 < unat ?m"
        then have "rp_rbidx p + ?m \<noteq> bl_len ?c" using lt u by (metis add_0_right nat_less_le neq0_conv)
        then show False using cf(4) nx \<open>\<not> 0 < unat ?m\<close> by simp
      qed
      show ?thesis using inv live
      proof (cases rule: rp_cases)
        case (same B c A)
        then show ?thesis using m u by (simp add: rp_strict_def word_less_nat_alt word_le_nat_alt)
      next
        case (two B w c A)
        then show ?thesis by (simp add: rp_strict_def)
      qed
    qed
    then show ?thesis using run i e cf(2) ac(2) live True by (simp add: rp_live_def)
  next
    case False
    then have strict: "rp_strict p" using ready by simp
    let ?m = "min (min (ss_next st) (ba_cap (rp_arr p) - rp_wbidx p)) (bl_len ?c - rp_rbidx p)"
    have wlt: "rp_wbidx p < ba_cap (rp_arr p)" using inv by (auto simp: rp_inv_def)
    have s: "unat (bl_len ?c - rp_rbidx p) = unat (bl_len ?c) - unat (rp_rbidx p)"
      "unat (ba_cap (rp_arr p) - rp_wbidx p) = unat (ba_cap (rp_arr p)) - unat (rp_wbidx p)"
      using le wlt by (simp_all add: word_le_nat_alt word_less_nat_alt unat_sub)
    have um: "unat ?m = min (min (unat (ss_next st)) (unat (ba_cap (rp_arr p)) - unat (rp_wbidx p)))
        (unat (bl_len ?c) - unat (rp_rbidx p))"
      using s by simp
    have n: "unat (rp_rbidx p) + unat ?m \<le> unat (bl_len ?c)" "unat (rp_wbidx p) + unat ?m \<le> unat (ba_cap (rp_arr p))"
      using um le wlt by (simp_all add: word_le_nat_alt word_less_nat_alt)
    from shift_bytes_ok [OF inv live strict n] obtain p' where
      p': "shift_bytes p ?m = Some p'" "rp_inv p' (K @ take (unat ?m) S) (drop (unat ?m) S)" "rp_strict p'"
        "rp_rcur p' = rp_rcur p" "rp_rbidx p' = rp_rbidx p + ?m" "bl_len (read_block p') = bl_len ?c"
        "length (ba_blocks (rp_arr p')) = length (ba_blocks (rp_arr p))" by blast
    have run: "remove_round p st dest doff = Some (p', ?m, dest)"
      using False p'(1) by (simp add: remove_round_def g Let_def)
    have u: "unat (rp_rbidx p + ?m) = unat (rp_rbidx p) + unat ?m" using u32_fits [OF n(1)] by simp
    have "at_block_end p' \<or> 0 < unat ?m"
    proof (cases "unat ?m = 0")
      case True
      then have "unat (bl_len ?c) = unat (rp_rbidx p)"
        using um nx wlt le by (auto simp: word_le_nat_alt word_less_nat_alt min_def split: if_splits)
      then have "rp_rbidx p + ?m = bl_len ?c" using True u by (simp add: u32_eq_nat)
      then show ?thesis using p'(5,6) by (simp add: at_block_end_def read_block_def)
    qed simp
    moreover have "?m \<le> ss_next st" unfolding word_le_nat_alt um by linarith
    moreover have "unat ?m \<le> length S" using ahead_chunk(2) [OF ok n(1), of A] S by simp
    ultimately show ?thesis using run p' False live by (auto simp: rp_live_def)
  qed
qed

section \<open>The loops\<close>

text \<open>Where removal stops: the rest of the chain is still in place.\<close>

definition rp_settled :: "remove_pos \<Rightarrow> u8 list \<Rightarrow> bool" where
  "rp_settled p bs \<longleftrightarrow> (\<exists>K S. rp_inv p K S \<and> bs = K @ S \<and> rp_strict p)"

lemma rp_dead: "rp_inv p K S \<Longrightarrow> \<not> rp_live p \<Longrightarrow> S = []"
proof -
  assume "rp_inv p K S" and d: "\<not> rp_live p"
  then obtain B w A where *: "ba_blocks (rp_arr p) = B @ w # A"
    "rp_rcur p = length B \<and> rp_wbidx p \<le> rp_rbidx p \<and> rp_rbidx p \<le> bl_len w \<and> S = ahead w (rp_rbidx p) A \<or>
      rp_rcur p = length B + 1 \<and>
        (case A of [] \<Rightarrow> S = [] | c # A' \<Rightarrow> rp_rbidx p \<le> bl_len c \<and> S = ahead c (rp_rbidx p) A')"
    unfolding rp_inv_def by blast
  then show "S = []" using d by (cases A) (auto simp: rp_live_def)
qed

lemma sel_next:
  assumes "ss_active st"
  shows "min (length S) (unat (ss_next st)) \<le> length (sel S (st_mask sz gap (Suc n) st (length S)))"
proof (cases "length S < unat (ss_next st)")
  case True
  then show ?thesis using assms by (simp add: st_mask_def)
next
  case False
  let ?x = "take (unat (ss_next st)) S" and ?n = "unat (ss_next st)"
  obtain X where X: "st_mask sz gap (Suc n) st (length S) = replicate ?n True @ X"
    using assms False by (simp add: st_mask_def)
  have "sel (?x @ drop ?n S) (replicate ?n True @ X) = ?x @ sel (drop ?n S) X"
    using False by (subst sel_append) simp_all
  then show ?thesis unfolding X using False by simp
qed

lemma block_remove_loop_ok:
  assumes g: "gap_ok str sz gap" and small: "unat (st_nelems str) < 4294967296"
  shows "rp_inv p K S \<Longrightarrow> rp_live p \<Longrightarrow> unat (st_nelems str) = unat tot + n \<Longrightarrow> 0 < unat (ss_next st) \<Longrightarrow>
    rp_strict p \<or> ss_active st \<and> 0 < n \<and> rp_rbidx p < bl_len (read_block p) \<Longrightarrow>
    room_opt dest (doff + length (sel S (st_mask (unat sz) gap n st (length S)))) \<Longrightarrow>
    \<exists>p' tot'. block_remove_loop str sz p st tot dest doff =
        Some (p', tot', store_opt dest doff (sel S (st_mask (unat sz) gap n st (length S)))) \<and>
      unat tot' = unat tot + st_count (unat sz) gap n st (length S) \<and>
      rp_settled p' (K @ rej S (st_mask (unat sz) gap n st (length S)))"
proof (induction "length S + (length (ba_blocks (rp_arr p)) - rp_rcur p)" arbitrary: p K S tot n st dest doff rule: less_induct)
  case less
  note inv = less.prems(1) and live = less.prems(2) and nn = less.prems(3) and pos = less.prems(4)
    and ready = less.prems(5) and room = less.prems(6)
  show ?case
  proof (cases n)
    case 0
    then have "rp_settled p (K @ S)" using inv ready by (auto simp: rp_settled_def)
    then show ?thesis using nn 0 by (subst block_remove_loop.simps) simp
  next
    case (Suc k)
    have z: "0 < unat sz" using g by (simp add: gap_ok_def)
    let ?M = "st_mask (unat sz) gap (Suc k) st (length S)"
    have room': "room_opt dest (doff + length (take (unat (ss_next st)) S))" if "ss_active st"
      by (rule room_opt_le [OF room]) (use that Suc in \<open>simp add: sel_next\<close>)
    have ready': "rp_strict p \<or> ss_active st \<and> rp_rbidx p < bl_len (read_block p)" using ready by blast
    from remove_round_ok [OF inv live pos ready' room'] obtain p1 m where
      r: "remove_round p st dest doff = Some (p1, m, store_opt dest doff (if ss_active st then take (unat m) S else []))"
        "rp_inv p1 (K @ (if ss_active st then [] else take (unat m) S)) (drop (unat m) S)" "rp_strict p1" "rp_live p1"
        "m \<le> ss_next st" "unat m \<le> length S" "at_block_end p1 \<or> 0 < unat m"
        "length (ba_blocks (rp_arr p1)) - rp_rcur p1 = length (ba_blocks (rp_arr p)) - rp_rcur p" by blast
    let ?x = "if ss_active st then take (unat m) S else []"
    let ?y = "if ss_active st then [] else take (unat m) S"
    let ?st = "advance str sz st m"
    let ?tot = "count_done st m tot"
    let ?k = "Suc k - finishes st m"
    let ?S' = "drop (unat m) S"
    let ?M' = "st_mask (unat sz) gap ?k ?st (length ?S')"
    note step = st_mask_step [OF g r(5,6), where n = k, folded length_drop]
    have tot: "unat ?tot = unat tot + finishes st m"
      by (rule finishes_word [of _ n]) (use nn small Suc in auto)
    have nn': "unat (st_nelems str) = unat ?tot + ?k" using nn Suc tot by simp
    have cut: "S = take (unat m) S @ ?S'" by simp
    have selS: "sel S ?M = ?x @ sel ?S' ?M'"
      unfolding step(1) using r(6) by (subst cut, subst sel_append) simp_all
    have rejS: "rej S ?M = ?y @ rej ?S' ?M'"
      unfolding step(1) using r(6) by (subst cut, subst rej_append) simp_all
    have doff': "(if ss_active st then doff + unat m else doff) = doff + length ?x" using r(6) by simp
    have lx: "room_opt dest (doff + length ?x + length (sel ?S' ?M'))"
      using room unfolding Suc selS by (simp add: add.assoc)
    have pos': "0 < unat (ss_next ?st)" by (rule advance_pos [OF g r(5)])
    have cnt: "unat tot + st_count (unat sz) gap n st (length S) = unat ?tot + st_count (unat sz) gap ?k ?st (length ?S')"
      unfolding Suc step(2) tot by simp
    let ?dest = "store_opt dest doff ?x"
    have st2: "store_opt ?dest (doff + length ?x) (sel ?S' ?M') = store_opt dest doff (sel S ?M)"
      unfolding selS by (rule store_opt_store [OF lx])
    have lt: "unat tot < unat (st_nelems str)" using nn Suc by simp
    note run = block_remove_loop.simps [of str sz p st tot dest doff, unfolded if_P [OF lt] r(1) Option.bind.bind_lunit Let_def prod.case doff']
    have room2: "room_opt ?dest (doff + length ?x + length (sel ?S' ?M'))"
      using lx by (simp add: room_opt_le)
    show ?thesis
    proof (cases "at_block_end p1")
      case False
      then have m: "0 < unat m" using r(7) by simp
      have "length ?S' + (length (ba_blocks (rp_arr p1)) - rp_rcur p1) < length S + (length (ba_blocks (rp_arr p)) - rp_rcur p)"
        using m r(6,8) by simp
      from less.hyps [OF this r(2,4) nn' pos' disjI1 [OF r(3)] room2]
      show ?thesis unfolding run if_not_P [OF False] Suc [symmetric] cnt
        using st2 rejS Suc by simp
    next
      case True
      from leave_block_ok [OF r(2,4) True] obtain p2 where
        l: "leave_block p1 = Some p2" "rp_inv p2 (K @ ?y) ?S'" "rp_rcur p2 = rp_wcur p2 + 1"
          "length (ba_blocks (rp_arr p2)) - rp_rcur p2 < length (ba_blocks (rp_arr p1)) - rp_rcur p1" by blast
      have s2: "rp_strict p2" using l(3) by (simp add: rp_strict_def)
      note run2 = run [unfolded if_P [OF True] l(1) Option.bind.bind_lunit]
      show ?thesis
      proof (cases "rp_live p2")
        case False
        have e: "?S' = []" by (rule rp_dead [OF l(2) False])
        have "rp_settled p2 (K @ ?y)" using l(2) s2 unfolding e rp_settled_def by force
        moreover have "st_count (unat sz) gap ?k ?st (length ?S') = 0" unfolding e using z pos' by simp
        moreover have "sel S ?M = ?x" "rej S ?M = ?y" unfolding selS rejS e by simp_all
        ultimately show ?thesis unfolding run2 if_not_P [OF False [unfolded rp_live_def]] cnt
          using Suc by simp
      next
        case True
        have "length ?S' + (length (ba_blocks (rp_arr p2)) - rp_rcur p2) < length S + (length (ba_blocks (rp_arr p)) - rp_rcur p)"
          using l(4) r(6,8) by simp
        from less.hyps [OF this l(2) True nn' pos' disjI1 [OF s2] room2]
        show ?thesis unfolding run2 if_P [OF True [unfolded rp_live_def]] Suc [symmetric] cnt
          using st2 rejS Suc by simp
      qed
    qed
  qed
qed

lemma block_remove_rest_ok:
  "rp_inv p K S \<Longrightarrow> rp_live p \<Longrightarrow> rp_strict p \<Longrightarrow>
    \<exists>p'. block_remove_rest p = Some p' \<and> rp_settled p' (K @ S) \<and> rp_rcur p' = rp_wcur p' + 1 \<and> rp_rbidx p' = 0"
proof (induction "unat (bl_len (read_block p)) - unat (rp_rbidx p)" arbitrary: p K S rule: less_induct)
  case less
  note inv = less.prems(1) and live = less.prems(2) and strict = less.prems(3)
  let ?c = "read_block p"
  note le = rp_read_block(2) [OF inv live] and g = read_block_get [OF live]
  let ?m = "min (ba_cap (rp_arr p) - rp_wbidx p) (bl_len ?c - rp_rbidx p)"
  have wlt: "rp_wbidx p < ba_cap (rp_arr p)" using inv by (auto simp: rp_inv_def)
  have um: "unat ?m = min (unat (ba_cap (rp_arr p)) - unat (rp_wbidx p)) (unat (bl_len ?c) - unat (rp_rbidx p))"
    using le wlt by (simp add: word_le_nat_alt word_less_nat_alt unat_sub)
  have n: "unat (rp_rbidx p) + unat ?m \<le> unat (bl_len ?c)" "unat (rp_wbidx p) + unat ?m \<le> unat (ba_cap (rp_arr p))"
    using um le wlt by (simp_all add: word_le_nat_alt word_less_nat_alt)
  from shift_bytes_ok [OF inv live strict n] obtain p' where
    p': "shift_bytes p ?m = Some p'" "rp_inv p' (K @ take (unat ?m) S) (drop (unat ?m) S)" "rp_strict p'"
      "rp_rcur p' = rp_rcur p" "rp_rbidx p' = rp_rbidx p + ?m" "bl_len (read_block p') = bl_len ?c"
      "length (ba_blocks (rp_arr p')) = length (ba_blocks (rp_arr p))" by blast
  have live': "rp_live p'" using live p'(4,7) by (simp add: rp_live_def)
  note run = block_remove_rest.simps [of p, unfolded g Option.bind.bind_lunit p'(1)]
  show ?case
  proof (cases "at_block_end p'")
    case True
    from leave_block_ok [OF p'(2) live' True] obtain p2 where
      l: "leave_block p' = Some p2" "rp_inv p2 (K @ take (unat ?m) S) (drop (unat ?m) S)"
        "rp_rcur p2 = rp_wcur p2 + 1" "rp_rbidx p2 = 0" by blast
    have "rp_settled p2 (K @ S)"
      unfolding rp_settled_def using l(2,3) by (force simp: rp_strict_def)
    then show ?thesis using run True l by simp
  next
    case False
    then have e: "rp_rbidx p + ?m \<noteq> bl_len ?c" using p'(5,6) by (auto simp: at_block_end_def read_block_def)
    have u: "unat (rp_rbidx p + ?m) = unat (rp_rbidx p) + unat ?m" using u32_fits [OF n(1)] by simp
    have "unat (rp_rbidx p) + unat ?m \<noteq> unat (bl_len ?c)" using e u by (metis u32_eq_nat)
    then have "unat (bl_len (read_block p')) - unat (rp_rbidx p') < unat (bl_len ?c) - unat (rp_rbidx p)"
      unfolding p'(5,6) u using n(1) um wlt by (simp add: word_less_nat_alt min_def split: if_splits)
    from less.hyps [OF this p'(2) live' p'(3)] show ?thesis using run False by simp
  qed
qed

lemma remove_finish:
  assumes s: "rp_settled p bs" and e: "rp_rcur p = rp_wcur p + 1 \<and> rp_rbidx p = 0 \<or> \<not> rp_live p"
  shows "\<exists>wc. get_block (rp_arr p) (rp_wcur p) = Some wc \<and>
    ba_inv (set_block (rp_arr p) (rp_wcur p) (wc\<lparr>bl_len := rp_wbidx p\<rparr>)) \<and>
    ba_bytes (set_block (rp_arr p) (rp_wcur p) (wc\<lparr>bl_len := rp_wbidx p\<rparr>)) = bs"
proof -
  from s obtain K S where inv: "rp_inv p K S" and bs: "bs = K @ S" unfolding rp_settled_def by blast
  from inv obtain B w A where *: "ba_inv (rp_arr p)" "ba_blocks (rp_arr p) = B @ w # A" "rp_wcur p = length B"
    "rp_wbidx p < ba_cap (rp_arr p)" "K = chain_bytes B @ take (unat (rp_wbidx p)) (bl_data w)"
    "rp_rcur p = length B \<and> rp_wbidx p \<le> rp_rbidx p \<and> rp_rbidx p \<le> bl_len w \<and> S = ahead w (rp_rbidx p) A \<or>
      rp_rcur p = length B + 1 \<and>
        (case A of [] \<Rightarrow> S = [] | c # A' \<Rightarrow> rp_rbidx p \<le> bl_len c \<and> S = ahead c (rp_rbidx p) A')"
    unfolding rp_inv_def by blast
  have S: "S = chain_bytes A"
  proof (cases A)
    case Nil
    then show ?thesis using *(2,3,6) e by (auto simp: rp_live_def)
  next
    case (Cons c A')
    then show ?thesis using *(2,3,6) e by (auto simp: rp_live_def ahead_start)
  qed
  let ?w = "w\<lparr>bl_len := rp_wbidx p\<rparr>"
  have "block_ok (ba_cap (rp_arr p)) w" using *(1,2) by (simp add: ba_inv_def)
  then have ok: "block_ok (ba_cap (rp_arr p)) ?w" using *(4) by (simp add: block_ok_def)
  have set: "ba_inv (set_block (rp_arr p) (length B) ?w)" "ba_blocks (set_block (rp_arr p) (length B) ?w) = B @ ?w # A"
    using ba_inv_set [OF *(1,2) _ ok] by simp_all
  have "ba_bytes (set_block (rp_arr p) (length B) ?w) = bs"
    unfolding ba_bytes_def set(2) bs *(5) S by (simp add: blk_bytes_def)
  then show ?thesis using set(1) get_block_at [OF *(2)] *(3) by simp
qed

section \<open>What is left\<close>

lemma elems_take:
  assumes "0 < sz" and "length bs mod sz = 0"
  shows "take (m * sz) (drop (i * sz) bs) = concat (map (elem sz bs) [i..<min (i + m) (length bs div sz)])"
proof (induction m arbitrary: i)
  case 0
  then show ?case by simp
next
  case (Suc m)
  show ?case
  proof (cases "(i + 1) * sz \<le> length bs")
    case True
    have "i < length bs div sz" by (rule in_range_lt [OF assms(1) True])
    then have "[i..<min (i + Suc m) (length bs div sz)] = i # [i + 1..<min (i + 1 + m) (length bs div sz)]"
      by (simp add: upt_conv_Cons)
    then show ?thesis
      using Suc [of "i + 1"] length_elem [OF True] by (simp add: drop_elem [OF True, simplified])
  next
    case False
    then show ?thesis using aligned_end [OF assms False] by simp
  qed
qed

lemma elems_drop:
  assumes "0 < sz" and "length bs mod sz = 0"
  shows "drop (i * sz) bs = concat (map (elem sz bs) [i..<length bs div sz])"
proof -
  have "length (drop (i * sz) bs) \<le> (length bs div sz) * sz" using assms(2) by (simp add: mod_0_imp_dvd)
  then have "drop (i * sz) bs = take (length bs div sz * sz) (drop (i * sz) bs)" by simp
  then show ?thesis unfolding elems_take [OF assms] by simp
qed

lemma visits_mask_reject:
  assumes "0 < sz" and "0 < stp" and "length bs mod sz = 0"
  shows "rej (drop (i * sz) bs) (visit_mask sz ((stp - 1) * sz) n sz (length bs - i * sz)) =
    concat (map (elem sz bs) (filter (\<lambda>k. k \<notin> set (visits n i stp sz (length bs))) [i..<length bs div sz]))"
proof (induction n arbitrary: i)
  case 0
  then show ?case by (simp flip: elems_drop [OF assms(1,3)])
next
  case (Suc n)
  let ?L = "length bs - i * sz" and ?g = "(stp - 1) * sz" and ?q = "length bs div sz"
  show ?case
  proof (cases "(i + 1) * sz \<le> length bs")
    case False
    then show ?thesis using aligned_end [OF assms(1,3) False] assms(1) by simp
  next
    case True
    let ?V = "visits n (i + stp) stp sz (length bs)"
    have nl: "\<not> ?L < sz" using True by simp
    have S: "drop (i * sz) bs = elem sz bs i @ take ?g (drop ((i + 1) * sz) bs) @ drop ((i + stp) * sz) bs"
      using drop_elem [OF True] gap_split [OF True assms(2)] by simp
    have lt: "length (take ?g (drop ((i + 1) * sz) bs)) = min ?g (?L - sz)" by (simp add: min.commute)
    have l: "rej (drop (i * sz) bs) (visit_mask sz ?g (Suc n) sz ?L) =
        take ?g (drop ((i + 1) * sz) bs) @ rej (drop ((i + stp) * sz) bs) (visit_mask sz ?g n sz (length bs - (i + stp) * sz))"
      unfolding S visit_mask.simps if_not_P [OF nl] visits_step_len [OF True assms(2)]
      using length_elem [OF True] lt by (simp only: rej_append rej_replicate length_replicate if_True if_False append.left_neutral)
    have iq: "i < ?q" by (rule in_range_lt [OF assms(1) True])
    have "[i..<?q] = i # [i + 1..<min (i + stp) ?q] @ [i + stp..<?q]"
    proof (cases "i + stp \<le> ?q")
      case True
      then have "[i + 1..<?q] = [i + 1..<i + stp] @ [i + stp..<?q]"
        using assms(2) True upt_add_eq_append [of "i + 1" "i + stp" "?q - (i + stp)"] by simp
      then show ?thesis using iq True by (simp add: upt_conv_Cons min_absorb1)
    next
      case False
      then show ?thesis using iq by (simp add: upt_conv_Cons)
    qed
    moreover have "filter (\<lambda>k. k \<notin> set (i # ?V)) [i + 1..<min (i + stp) ?q] = [i + 1..<min (i + stp) ?q]"
      by (rule filter_True) (auto dest: visits_range)
    moreover have "filter (\<lambda>k. k \<notin> set (i # ?V)) [i + stp..<?q] = filter (\<lambda>k. k \<notin> set ?V) [i + stp..<?q]"
      using assms(2) by (intro filter_cong) auto
    ultimately have r: "filter (\<lambda>k. k \<notin> set (i # ?V)) [i..<?q] =
        [i + 1..<min (i + stp) ?q] @ filter (\<lambda>k. k \<notin> set ?V) [i + stp..<?q]" by simp
    have "i + 1 + (stp - 1) = i + stp" using assms(2) by simp
    then have "take ?g (drop ((i + 1) * sz) bs) = concat (map (elem sz bs) [i + 1..<min (i + stp) ?q])"
      using elems_take [OF assms(1,3), of "stp - 1" "i + 1"] by simp
    moreover have "visits (Suc n) i stp sz (length bs) = i # ?V" using True by simp
    ultimately show ?thesis unfolding l using Suc [of "i + stp"] r by simp
  qed
qed

lemma mask_spec_remove:
  assumes "0 < sz" and "0 < stp" and "length bs mod sz = 0"
  shows "take (i * sz) bs @ rej (drop (i * sz) bs) (visit_mask sz ((stp - 1) * sz) n sz (length bs - i * sz)) =
    spec_remove sz (visits n i stp sz (length bs)) bs"
proof -
  let ?q = "length bs div sz" and ?V = "visits n i stp sz (length bs)"
  have "[0..<?q] = [0..<min i ?q] @ [i..<?q]"
    using upt_add_eq_append [of 0 i "?q - i"] by (cases "i \<le> ?q") (simp_all add: min_absorb1)
  moreover have "filter (\<lambda>k. k \<notin> set ?V) [0..<min i ?q] = [0..<min i ?q]"
    by (rule filter_True) (auto dest: visits_range)
  moreover have "take (i * sz) bs = concat (map (elem sz bs) [0..<min i ?q])"
    using elems_take [OF assms(1,3), of i 0] by simp
  ultimately show ?thesis unfolding visits_mask_reject [OF assms] spec_remove_def by simp
qed

section \<open>Removal\<close>

lemma block_array_remove_ok:
  assumes inv: "ba_inv r" and a: "access_ok str sz (length (ba_bytes r))" and n0: "0 < unat (st_nelems str)"
    and al: "length (ba_bytes r) mod unat sz = 0"
    and dest: "room_opt dest (length (places str sz (length (ba_bytes r))) * unat sz)"
  shows "\<exists>r'. block_array_remove r str sz dest =
      Some (int (length (places str sz (length (ba_bytes r)))),
        store_opt dest 0 (spec_read (unat sz) (places str sz (length (ba_bytes r))) (ba_bytes r)), r') \<and>
     ba_inv r' \<and> ba_bytes r' = spec_remove (unat sz) (places str sz (length (ba_bytes r))) (ba_bytes r)"
proof -
  let ?bs = "ba_bytes r" and ?z = "unat sz" and ?P = "places str sz (length (ba_bytes r))"
  let ?stp = "unat (st_stride str)" and ?n = "unat (st_nelems str)" and ?i = "unat (st_start str)"
  let ?g = "(?stp - 1) * ?z"
  have p: "0 < ?z" "0 < ?stp" using a by (simp_all add: access_ok_def)
  have msr: "take (?i * ?z) ?bs @ rej (drop (?i * ?z) ?bs) (visit_mask ?z ?g ?n ?z (length ?bs - ?i * ?z)) = spec_remove ?z ?P ?bs"
    using mask_spec_remove [OF p al] by (simp add: places_def)
  show ?thesis
  proof (cases "?i * ?z < length ?bs")
    case False
    then have "spec_remove ?z ?P ?bs = ?bs" using msr by simp
    then show ?thesis using seek_nowhere [OF inv a False] inv by (simp add: block_array_remove_def spec_read_def)
  next
    case True
    obtain B c A o' where s: "block_seek (ba_blocks r) 0 (ucast (st_start str * ucast sz)) = Some (length B, o')"
      "ba_blocks r = B @ c # A" "o' < bl_len c" "ahead c o' A = drop (?i * ?z) ?bs"
      "chain_bytes B @ take (unat o') (blk_bytes c) = take (?i * ?z) ?bs"
      by (rule seek_position [OF inv a True])
    have g: "gap_ok str sz ?g" by (rule gap_ok_access [OF a n0])
    let ?st = "\<lparr>ss_next = sz, ss_active = True\<rparr>"
    let ?p = "\<lparr>rp_arr = r, rp_rcur = length B, rp_rbidx = o', rp_wcur = length B, rp_wbidx = o'\<rparr>"
    let ?M = "visit_mask ?z ?g ?n ?z (length ?bs - ?i * ?z)"
    let ?S = "drop (?i * ?z) ?bs"
    have ok: "block_ok (ba_cap r) c" using inv s(2) by (simp add: ba_inv_def)
    have "o' < ba_cap r" using s(3) ok by (auto simp: block_ok_def)
    moreover have "take (unat o') (blk_bytes c) = take (unat o') (bl_data c)"
      using s(3) by (simp add: blk_bytes_def word_less_nat_alt min_def)
    ultimately have ri: "rp_inv ?p (take (?i * ?z) ?bs) ?S"
      by (intro rp_invI [of _ B c A]) (use inv s in simp_all)
    have rl: "rp_live ?p" using s(2) by (simp add: rp_live_def)
    have rb: "rp_rbidx ?p < bl_len (read_block ?p)" using s(2,3) by (simp add: read_block_def)
    have m: "st_mask ?z ?g ?n ?st (length ?S) = ?M"
      "st_count ?z ?g ?n ?st (length ?S) = length ?P" "sel ?S ?M = spec_read ?z ?P ?bs"
      using visits_mask_read [OF p al, of ?i ?n, folded places_def] by (simp_all add: st_mask_def st_count_def)
    have "length (spec_read ?z ?P ?bs) = length ?P * ?z"
      using places_in by (intro length_spec_read) auto
    then have room: "room_opt dest (0 + length (sel ?S (st_mask ?z ?g ?n ?st (length ?S))))" using dest m by simp
    have nn: "?n = unat (0 :: u32) + ?n" by simp
    from block_remove_loop_ok [OF g access_nelems [OF a] ri rl nn _ _ room] p(1) n0 rb obtain p' tot' where
      l: "block_remove_loop str sz ?p ?st 0 dest 0 = Some (p', tot', store_opt dest 0 (spec_read ?z ?P ?bs))"
        "unat tot' = length ?P" "rp_settled p' (spec_remove ?z ?P ?bs)"
      using m msr by auto
    obtain p2 where p2: "(if rp_rcur p' < length (ba_blocks (rp_arr p')) then block_remove_rest p' else Some p') = Some p2"
      "rp_settled p2 (spec_remove ?z ?P ?bs)" "rp_rcur p2 = rp_wcur p2 + 1 \<and> rp_rbidx p2 = 0 \<or> \<not> rp_live p2"
    proof (cases "rp_live p'")
      case True
      from l(3) obtain K S where "rp_inv p' K S" "spec_remove ?z ?P ?bs = K @ S" "rp_strict p'"
        unfolding rp_settled_def by blast
      with block_remove_rest_ok [of p' K S] True that show ?thesis by (auto simp: rp_live_def)
    next
      case False
      then show ?thesis using that l(3) by (simp add: rp_live_def)
    qed
    from remove_finish [OF p2(2,3)] obtain wc where "get_block (rp_arr p2) (rp_wcur p2) = Some wc"
      "ba_inv (set_block (rp_arr p2) (rp_wcur p2) (wc\<lparr>bl_len := rp_wbidx p2\<rparr>))"
      "ba_bytes (set_block (rp_arr p2) (rp_wcur p2) (wc\<lparr>bl_len := rp_wbidx p2\<rparr>)) = spec_remove ?z ?P ?bs" by blast
    moreover have "uint tot' = int (length ?P)" unfolding uint_nat l(2) by simp
    ultimately show ?thesis using s(1) l(1) p2(1) by (simp add: block_array_remove_def)
  qed
qed

end
