(* ===== verification/Block_store.thy ===== *)
theory Block_store
  imports Block_remove
begin

text \<open>
  The block array as an implementation of the byte store contract, and its properties.
\<close>

section \<open>The length\<close>

lemma getlen_loop_sum:
  assumes "\<forall>b\<in>set cs. block_ok cap b" and "unat len + length (chain_bytes cs) < 4294967296"
  shows "unat (getlen_loop cs len) = unat len + length (chain_bytes cs)"
  using assms
proof (induction cs len rule: getlen_loop.induct)
  case (2 c cs len)
  have ok: "block_ok cap c" using 2(2) by simp
  have "unat len + unat (bl_len c) < 18446744073709551616" using 2(3) length_blk_bytes [OF ok] by simp
  then have u: "unat (len + ucast (bl_len c)) = unat len + unat (bl_len c)"
    by (subst u64_add_nat) simp_all
  then show ?case using 2 length_blk_bytes [OF ok] by simp
qed simp

lemma block_array_getlen_ok:
  assumes "ba_inv r" and "length (ba_bytes r) < 4294967296"
  shows "sint (block_array_getlen r) = int (length (ba_bytes r))"
proof -
  have "\<forall>b\<in>set (ba_blocks r). block_ok (ba_cap r) b" using assms(1) by (simp add: ba_inv_def)
  then have "unat (block_array_getlen r) = length (ba_bytes r)"
    using getlen_loop_sum [of "ba_blocks r" "ba_cap r" 0] assms(2)
    by (simp add: block_array_getlen_def ba_bytes_def)
  then show ?thesis using assms(2) by (simp add: sint_small_u64)
qed

lemma sint_u64_of: "n < 4294967296 \<Longrightarrow> sint (u64_of n) = int n"
  by (subst sint_small_u64) (simp_all add: u64_of_def unat_of_nat)

section \<open>The contract\<close>

text \<open>
  The contract of the byte store promises that an insertion succeeds, which the block array
  keeps as long as its heap grants every slab; \<open>block_array_insert_splices\<close> below covers the
  refusing heap.
\<close>

lemma total_not_refused: "libc_total (be_libc env) \<Longrightarrow> \<not> slab_refused env r"
  by (simp add: libc_total_def slab_refused_def)

interpretation ba: byte_store "\<lambda>env. libc_ok (be_libc env) \<and> libc_total (be_libc env)" block_array_data_writer ba_inv ba_bytes "\<lambda>_. SUCCESS"
proof (unfold_locales, goal_cases)
  case (1 c os e)
  then show ?case by (simp add: block_array_data_writer_def block_array_getlen_ok)
next
  case (2 c str sz dest os e)
  then show ?case
    using block_array_read_ok [of c str sz dest] sint_u64_of [OF places_few [OF 2(2)]]
    by (simp add: block_array_data_writer_def)
next
  case (3 c str sz src os e)
  then show ?case
    using block_array_write_ok [of c str sz src] sint_u64_of [OF places_few [OF 3(2)]]
    by (fastforce simp: block_array_data_writer_def)
next
  case (4 c str sz dst os e)
  then have "room_opt dst (length (places str sz (length (ba_bytes c))) * unat sz)"
    by (cases dst) (simp_all add: room_opt_def)
  then show ?case
    using 4 block_array_remove_ok [of c str sz dst] by (fastforce simp: block_array_data_writer_def store_opt_def)
next
  case (5 os c ofst slen src er)
  then have "0 < slen" by (simp add: word_less_nat_alt)
  then show ?case
    using 5 block_array_insert_granted [of os c ofst slen src "Some er"] total_not_refused [of os c]
    by (simp add: block_array_data_writer_def)
qed

section \<open>Properties\<close>

lemma i_malloc_refused:
  "i_malloc os n m (Some er) = Some (None, e') \<Longrightarrow> pending e'"
  by (auto simp: i_malloc_def nomem_def split: option.splits if_splits)

text \<open>
  C16. A new block array is well formed and empty; if the heap refuses it, no array is made
  and the error is reported.
\<close>

theorem block_array_create_empty:
  assumes "libc_ok os" and "0 < cap" and "512 * (unat cap + 31) + 32 < 4294967296"
  shows "\<exists>ret e'. block_array_create os cap (Some er) = Some (ret, e') \<and>
    (case ret of None \<Rightarrow> pending e'
     | Some r \<Rightarrow> ba_inv r \<and> ba_bytes r = [] \<and> ba_cap r = cap \<and> e' = Some er)"
proof -
  have small: "unat cap + 56 < 4294967296" using assms(3) by simp
  have s: "unat (sizeof_block_array + cap) = unat cap + 56" "unat (sizeof_block + cap) = unat cap + 24"
    using small by (simp_all add: sizeof_block_array_def sizeof_block_def u32_add_nat)
  from i_malloc_one [OF assms(1), of "sizeof_block_array + cap" "Some er"] s obtain p e' where
    p: "i_malloc os 1 (sizeof_block_array + cap) (Some er) = Some (p, e')" "p \<noteq> None \<longrightarrow> e' = Some er"
      "\<forall>bs. p = Some bs \<longrightarrow> length bs = unat cap + 56" by auto
  have "(8 :: u32) \<le> sizeof_block + cap" using s by (simp add: word_le_nat_alt)
  from slab_alloc_init_inv [OF this, of 512] s assms(3) obtain a where
    a: "slab_alloc_init (sizeof_block + cap) 512 = Some a" "slab_inv a {}" by auto
  show ?thesis
  proof (cases p)
    case None
    then show ?thesis using p(1) i_malloc_refused [of os 1 "sizeof_block_array + cap" er e'] assms(2)
      by (simp add: block_array_create_def)
  next
    case (Some bs)
    then show ?thesis using p a assms(2)
      by (auto simp: block_array_create_def ba_inv_def ba_bytes_def sizeof_block_array_def)
  qed
qed

text \<open>
  C7. Insertion into a block array splices the bytes in at the offset, whatever blocks the
  bytes are spread over, and leaves a well-formed chain. The one exception is the panic of
  the code on a block it is refused: the operation does not return, and then the heap has
  refused the array's allocator a slab.
\<close>

theorem block_array_insert_splices:
  assumes "libc_ok (be_libc env)" and "ba_inv r" and "unat ofst \<le> length (ba_bytes r)"
    and "0 < slen" and "unat slen \<le> length src"
  shows "block_array_insert env r ofst src slen e = None \<and> slab_refused env r \<or>
    (\<exists>r'. block_array_insert env r ofst src slen e = Some (SUCCESS, r', e) \<and> ba_inv r' \<and>
      ba_bytes r' = take (unat ofst) (ba_bytes r) @ take (unat slen) src @ drop (unat ofst) (ba_bytes r))"
  using block_array_insert_ok [OF assms] by (simp add: spec_insert_def)

theorem block_array_create_empty_witness:
  "\<exists>ret e'. block_array_create libc_ample 4 (Some error_create) = Some (ret, e') \<and>
    (case ret of None \<Rightarrow> pending e'
     | Some r \<Rightarrow> ba_inv r \<and> ba_bytes r = [] \<and> ba_cap r = 4 \<and> e' = Some error_create)"
  using block_array_create_empty [of libc_ample 4 error_create] by simp

text \<open>A block array for the concrete examples: three bytes in blocks of at most two.\<close>

definition env_ample :: block_env where
  "env_ample = \<lparr>be_libc = libc_ample, be_junk = (\<lambda>_ _. 0)\<rparr>"

lemma env_ample_libc [simp]: "libc_ok (be_libc env_ample)" "libc_total (be_libc env_ample)"
  by (simp_all add: env_ample_def)

lemma block_array_empty: "\<exists>r. ba_inv r \<and> ba_bytes r = [] \<and> ba_cap r = 2"
proof -
  from slab_alloc_init_inv [of 26 512] obtain a where "slab_inv a {}" by auto
  then have "ba_inv \<lparr>ba_alloc = a, ba_cap = 2, ba_blocks = [], ba_tlen = 0, ba_tail = [0, 0]\<rparr>"
    by (simp add: ba_inv_def)
  then show ?thesis by (fastforce simp: ba_bytes_def)
qed

lemma block_array_three: "\<exists>r. ba_inv r \<and> ba_bytes r = [1, 2, 3]"
proof -
  from block_array_empty obtain r where "ba_inv r" "ba_bytes r = []" by blast
  with block_array_insert_granted [of env_ample r 0 3 "[1, 2, 3]" None] total_not_refused [of env_ample r]
  show ?thesis by (auto simp: spec_insert_def)
qed

text \<open>A heap that refuses everything: a new array does not get its first block.\<close>

definition env_empty :: block_env where
  "env_empty = \<lparr>be_libc = libc_empty, be_junk = (\<lambda>_ _. 0)\<rparr>"

lemma block_array_refused:
  "\<exists>r. ba_inv r \<and> ba_bytes r = [] \<and> block_array_insert env_empty r 0 [8, 9] 2 None = None"
proof -
  from slab_alloc_init_inv [of 26 512] obtain a where a: "slab_alloc_init 26 512 = Some a" "slab_inv a {}" by auto
  let ?r = "\<lparr>ba_alloc = a, ba_cap = 2, ba_blocks = [], ba_tlen = 0, ba_tail = [0, 0]\<rparr>"
  have "sa_slabs a = []" "sa_current a = None" "sa_size a = 32" "sa_cap_per_slab a = 512"
    using a(1) by (auto simp: slab_alloc_init_def Option.bind_eq_Some_conv)
  then obtain e' where "slab_alloc_alloc libc_empty a None = Some (None, a, e')"
    by (simp add: slab_alloc_alloc_def slab_alloc_extend_def current_slab_def i_malloc_def nomem_def
          safe_mul_u32_def sizeof_slab_def libc_empty_def)
  then have "block_array_insert env_empty ?r 0 [8, 9] 2 None = None"
    by (simp add: block_array_insert_def block_alloc_empty_def env_empty_def UNREACHABLE_def)
  then show ?thesis using a(2) by (intro exI [of _ ?r]) (simp add: ba_inv_def ba_bytes_def)
qed

theorem block_array_insert_splices_witness:
  "(\<exists>r r'. ba_inv r \<and> ba_bytes r = [1, 2, 3] \<and>
    block_array_insert env_ample r 1 [8, 9] 2 None = Some (SUCCESS, r', None) \<and> ba_inv r' \<and> ba_bytes r' = [1, 8, 9, 2, 3]) \<and>
   (\<exists>r. ba_inv r \<and> block_array_insert env_empty r 0 [8, 9] 2 None = None \<and> slab_refused env_empty r)"
proof
  from block_array_three obtain r where r: "ba_inv r" "ba_bytes r = [1, 2, 3]" by blast
  with block_array_insert_splices [of env_ample r 1 2 "[8, 9]" None] total_not_refused [of env_ample r]
  show "\<exists>r r'. ba_inv r \<and> ba_bytes r = [1, 2, 3] \<and>
    block_array_insert env_ample r 1 [8, 9] 2 None = Some (SUCCESS, r', None) \<and> ba_inv r' \<and> ba_bytes r' = [1, 8, 9, 2, 3]"
    by auto
  from block_array_refused obtain q where q: "ba_inv q" "ba_bytes q = []" "block_array_insert env_empty q 0 [8, 9] 2 None = None"
    by blast
  with block_array_insert_splices [of env_empty q 0 2 "[8, 9]" None]
  show "\<exists>r. ba_inv r \<and> block_array_insert env_empty r 0 [8, 9] 2 None = None \<and> slab_refused env_empty r"
    by (intro exI [of _ q]) (auto simp: env_empty_def)
qed

text \<open>
  C8. A strided removal from a block array hands out the visited elements in order and closes
  the gaps across the blocks; the blocks that become empty go back to the slab allocator.
\<close>

theorem block_array_remove_compacts:
  assumes "ba_inv r" and "access_ok str sz (length (ba_bytes r))" and "length (ba_bytes r) mod unat sz = 0"
    and "0 < unat (st_nelems str)" and "length (places str sz (length (ba_bytes r))) * unat sz \<le> length d"
  shows "\<exists>r'. block_array_remove r str sz (Some d) =
     Some (int (length (places str sz (length (ba_bytes r)))),
           Some (overwrite d 0 (concat (map (elem (unat sz) (ba_bytes r)) (places str sz (length (ba_bytes r)))))), r') \<and>
     ba_inv r' \<and>
     ba_bytes r' = concat (map (elem (unat sz) (ba_bytes r))
       (filter (\<lambda>k. k \<notin> set (places str sz (length (ba_bytes r)))) [0..<length (ba_bytes r) div unat sz]))"
  using block_array_remove_ok [OF assms(1,2,4,3), of "Some d"] assms(5)
  by (simp add: spec_remove_def spec_read_def room_opt_def store_opt_def)

theorem block_array_remove_compacts_witness:
  "\<exists>r r'. ba_inv r \<and> ba_bytes r = [1, 2, 3] \<and>
    block_array_remove r stride_every_other 1 (Some [0, 0]) = Some (2, Some [1, 3], r') \<and> ba_bytes r' = [2]"
proof -
  from block_array_three obtain r where r: "ba_inv r" "ba_bytes r = [1, 2, 3]" by blast
  have "filter (\<lambda>k. k \<notin> {0, 2}) [0..<3] = [1 :: nat]" by (simp add: upt_rec)
  moreover have "0 < unat (st_nelems stride_every_other)" by (simp add: stride_every_other_def)
  ultimately show ?thesis
    using r block_array_remove_compacts [of r stride_every_other 1 "[0, 0]"]
    by (auto simp: elem_def overwrite_def)
qed

text \<open>
  The elements a strided write stored in a block array are what a read with the same
  stride returns, through the table of functions.
\<close>

theorem block_array_write_then_read:
  assumes "ba_inv c" and "access_ok str sz (length (ba_bytes c))" and "length (ba_bytes c) mod unat sz = 0"
    and "length (places str sz (length (ba_bytes c))) * unat sz \<le> length src"
    and "length (places str sz (length (ba_bytes c))) * unat sz \<le> length dest"
  shows "\<exists>c'. dw_write (block_array_data_writer env) c str sz src e =
      Some (int (length (places str sz (length (ba_bytes c)))), c', e) \<and>
    dw_read (block_array_data_writer env) c' str sz dest e =
      Some (int (length (places str sz (length (ba_bytes c)))),
            overwrite dest 0 (take (length (places str sz (length (ba_bytes c))) * unat sz) src), c', e)"
  by (rule ba.write_then_read [OF assms])

theorem block_array_write_then_read_witness:
  "\<exists>r c'. ba_bytes r = [1, 2, 3] \<and>
    dw_write (block_array_data_writer env_ample) r stride_every_other 1 [7, 8] None = Some (2, c', None) \<and>
    dw_read (block_array_data_writer env_ample) c' stride_every_other 1 [0, 0] None = Some (2, [7, 8], c', None)"
proof -
  from block_array_three obtain r where r: "ba_inv r" "ba_bytes r = [1, 2, 3]" by blast
  then show ?thesis
    using block_array_write_then_read [of r stride_every_other 1 "[7, 8]" "[0, 0]" env_ample None]
    by (auto simp: overwrite_def)
qed

text \<open>
  A removal of no element from the start of an array whose first block is full does not
  return: the loop that moves the rest fills the write block while it is still the read block,
  which an assertion excludes.
\<close>

theorem block_array_remove_nothing_aborts:
  assumes "ba_blocks r = c # A" and "block_ok (ba_cap r) c" and "bl_len c = ba_cap r" and "0 < ba_cap r"
  shows "block_array_remove r \<lparr>st_start = 0, st_stride = 1, st_nelems = 0\<rparr> sz dest = None"
proof -
  let ?p = "\<lparr>rp_arr = r, rp_rcur = 0, rp_rbidx = 0, rp_wcur = 0, rp_wbidx = 0\<rparr>"
  have "shift_bytes ?p (ba_cap r) = None"
    using assms by (simp add: shift_bytes_def get_block_def block_ok_def)
  then have "block_remove_rest ?p = None"
    using assms by (subst block_remove_rest.simps) (simp add: get_block_def)
  moreover have "ba_cap r \<noteq> 0" using assms(4) by simp
  ultimately show ?thesis
    using assms by (simp add: block_array_remove_def block_remove_loop.simps)
qed

theorem block_array_remove_nothing_aborts_witness:
  "\<exists>r. ba_bytes r = [1, 2] \<and> block_array_remove r \<lparr>st_start = 0, st_stride = 1, st_nelems = 0\<rparr> 1 None = None"
proof -
  define r where "r = \<lparr>ba_alloc = undefined, ba_cap = 2, ba_blocks = [\<lparr>bl_addr = (0, 32), bl_len = 2, bl_data = [1, 2]\<rparr>],
    ba_tlen = 0, ba_tail = [0, 0]\<rparr>"
  then have "block_array_remove r \<lparr>st_start = 0, st_stride = 1, st_nelems = 0\<rparr> 1 None = None"
    using block_array_remove_nothing_aborts [of r "\<lparr>bl_addr = (0, 32), bl_len = 2, bl_data = [1, 2]\<rparr>" "[]" 1 None]
    by (simp add: block_ok_def)
  moreover have "ba_bytes r = [1, 2]" by (simp add: r_def ba_bytes_def blk_bytes_def)
  ultimately show ?thesis by blast
qed

end
