(* ===== verification/Rand.thy ===== *)
theory Rand
  imports Data_writer
begin

text \<open>
  Random numbers (\<^verbatim>\<open>core/random.c\<close>). The generator of the C library is a parameter: the
  sequence that \<open>rand ()\<close> delivers after \<open>srand (seed)\<close>, with values up to \<open>RAND_MAX\<close>. The state
  is the seed and the number of calls made since.
\<close>

section \<open>The generator\<close>

type_synonym i32 = "32 word"
type_synonym u128 = "128 word"

record crand =
  cr_max :: nat
  cr_seq :: "u32 \<Rightarrow> nat \<Rightarrow> nat"

text \<open>The C standard: \<open>RAND_MAX\<close> is at least 32767; here it fits an \<open>int\<close>.\<close>

definition crand_ok :: "crand \<Rightarrow> bool" where
  "crand_ok g \<longleftrightarrow> 32767 \<le> cr_max g \<and> cr_max g < 2 ^ 31 \<and> (\<forall>s n. cr_seq g s n \<le> cr_max g)"

record rng =
  rg_seed :: u32
  rg_calls :: nat

definition rand_seed :: "u32 \<Rightarrow> rng" where
  "rand_seed now = \<lparr>rg_seed = now, rg_calls = 0\<rparr>"

definition rand_seed_with :: "u32 \<Rightarrow> rng" where
  "rand_seed_with seed = \<lparr>rg_seed = seed, rg_calls = 0\<rparr>"

definition c_rand :: "crand \<Rightarrow> rng \<Rightarrow> nat \<times> rng" where
  "c_rand g s = (cr_seq g (rg_seed s) (rg_calls s), s\<lparr>rg_calls := rg_calls s + 1\<rparr>)"

section \<open>Unsigned numbers\<close>

text \<open>\<open>while (capacity <= U64_MAX / base)\<close>\<close>

partial_function (option) randu64_loop :: "crand \<Rightarrow> u64 \<Rightarrow> u64 \<Rightarrow> u64 \<Rightarrow> rng \<Rightarrow> (u64 \<times> rng) option" where
  "randu64_loop g base r capacity s =
     (if capacity \<le> - 1 div base
      then (case c_rand g s of
              (x, s') \<Rightarrow> randu64_loop g base (r * base + word_of_nat x) (capacity * base) s')
      else Some (r, s))"

declare randu64_loop.simps [code]

definition randu64 :: "crand \<Rightarrow> rng \<Rightarrow> (u64 \<times> rng) option" where
  "randu64 g s =
     do {
       let base = word_of_nat (cr_max g) + 1;
       let (x, s1) = c_rand g s;
       (r, s2) \<leftarrow> randu64_loop g base (word_of_nat x) base s1;
       let (y, s3) = c_rand g s2;
       Some (r * base + word_of_nat y, s3)
     }"

definition randu64r :: "crand \<Rightarrow> u64 \<Rightarrow> u64 \<Rightarrow> rng \<Rightarrow> (u64 \<times> rng) option" where
  "randu64r g lower upper s =
     do {
       ASSERT (upper \<ge> lower);
       if upper = lower then Some (lower, s)
       else do {
         let range = (ucast upper - ucast lower + 1 :: u128);
         (x, s') \<leftarrow> randu64 g s;
         let prod = ucast x * range;
         let r = (ucast (drop_bit 64 prod) :: u64);
         Some (lower + r, s')
       }
     }"

definition randu32 :: "crand \<Rightarrow> rng \<Rightarrow> u32 \<times> rng" where
  "randu32 g s = (case c_rand g s of (x, s') \<Rightarrow> (word_of_nat x, s'))"

definition randu32r :: "crand \<Rightarrow> u32 \<Rightarrow> u32 \<Rightarrow> rng \<Rightarrow> (u32 \<times> rng) option" where
  "randu32r g lower upper s =
     do {
       ASSERT (upper \<ge> lower);
       if upper = lower then Some (lower, s)
       else do {
         (x, s') \<leftarrow> randu64r g (ucast lower) (ucast upper) s;
         Some (ucast x, s')
       }
     }"

definition randu8 :: "crand \<Rightarrow> rng \<Rightarrow> u8 \<times> rng" where
  "randu8 g s = (case c_rand g s of (x, s') \<Rightarrow> (word_of_nat x, s'))"

definition randu8r :: "crand \<Rightarrow> u8 \<Rightarrow> u8 \<Rightarrow> rng \<Rightarrow> (u8 \<times> rng) option" where
  "randu8r g lower upper s =
     do { (x, s') \<leftarrow> randu32r g (ucast lower) (ucast upper) s; Some (ucast x, s') }"

definition randu16 :: "crand \<Rightarrow> rng \<Rightarrow> u16 \<times> rng" where
  "randu16 g s = (case randu32 g s of (x, s') \<Rightarrow> (ucast x, s'))"

definition randu16r :: "crand \<Rightarrow> u16 \<Rightarrow> u16 \<Rightarrow> rng \<Rightarrow> (u16 \<times> rng) option" where
  "randu16r g lower upper s =
     do { (x, s') \<leftarrow> randu32r g (ucast lower) (ucast upper) s; Some (ucast x, s') }"

section \<open>Signed numbers\<close>

text \<open>A signed addition that overflows is undefined.\<close>

definition i32_of :: "int \<Rightarrow> i32 option" where
  "i32_of k = (if - (2 ^ 31) \<le> k \<and> k < 2 ^ 31 then Some (word_of_int k) else None)"

definition randi32r :: "crand \<Rightarrow> i32 \<Rightarrow> i32 \<Rightarrow> rng \<Rightarrow> (i32 \<times> rng) option" where
  "randi32r g lower upper s =
     do {
       ASSERT (sint upper \<ge> sint lower);
       if upper = lower then Some (lower, s)
       else do {
         let range = (word_of_int (sint upper - sint lower + 1) :: u64);
         (r, s') \<leftarrow> randu64r g 0 (range - 1) s;
         v \<leftarrow> i32_of (sint lower + sint (ucast r :: i32));
         Some (v, s')
       }
     }"

definition randi32 :: "crand \<Rightarrow> rng \<Rightarrow> (i32 \<times> rng) option" where
  "randi32 g = randi32r g 0x80000000 0x7FFFFFFF"

definition randi16r :: "crand \<Rightarrow> 16 word \<Rightarrow> 16 word \<Rightarrow> rng \<Rightarrow> (16 word \<times> rng) option" where
  "randi16r g lower upper s =
     do {
       ASSERT (sint upper \<ge> sint lower);
       if upper = lower then Some (lower, s)
       else do { (x, s') \<leftarrow> randi32r g (scast lower) (scast upper) s; Some (ucast x, s') }
     }"

definition randi16 :: "crand \<Rightarrow> rng \<Rightarrow> (16 word \<times> rng) option" where
  "randi16 g = randi16r g 0x8000 0x7FFF"

definition randi8r :: "crand \<Rightarrow> 8 word \<Rightarrow> 8 word \<Rightarrow> rng \<Rightarrow> (8 word \<times> rng) option" where
  "randi8r g lower upper s =
     do { (x, s') \<leftarrow> randi32r g (scast lower) (scast upper) s; Some (ucast x, s') }"

definition randi8 :: "crand \<Rightarrow> rng \<Rightarrow> (8 word \<times> rng) option" where
  "randi8 g = randi8r g 0x80 0x7F"

definition randi64r :: "crand \<Rightarrow> i64 \<Rightarrow> i64 \<Rightarrow> rng \<Rightarrow> (i64 \<times> rng) option" where
  "randi64r g lower upper s =
     do {
       ASSERT (sint upper \<ge> sint lower);
       if upper = lower then Some (lower, s)
       else do {
         let range = (word_of_int (sint upper - sint lower + 1) :: u128);
         (x, s') \<leftarrow> randu64 g s;
         let prod = ucast x * range;
         let r = (ucast (drop_bit 64 prod) :: i64);
         v \<leftarrow> i64_of (sint lower + sint r);
         Some (v, s')
       }
     }"

definition randi64 :: "crand \<Rightarrow> rng \<Rightarrow> (i64 \<times> rng) option" where
  "randi64 g = randi64r g 0x8000000000000000 0x7FFFFFFFFFFFFFFF"

section \<open>Strings, bytes and permutations\<close>

text \<open>The character for a draw between 0 and 61.\<close>

definition rand_char :: "u32 \<Rightarrow> u8" where
  "rand_char r =
     (if r < 10 then 48 + ucast r else if r < 36 then 65 + ucast (r - 10) else 97 + ucast (r - 36))"

fun rand_chars :: "crand \<Rightarrow> nat \<Rightarrow> rng \<Rightarrow> (u8 list \<times> rng) option" where
  "rand_chars g 0 s = Some ([], s)"
| "rand_chars g (Suc n) s =
     do {
       (r, s1) \<leftarrow> randu32r g 0 61 s;
       (cs, s2) \<leftarrow> rand_chars g n s1;
       Some (rand_char r # cs, s2)
     }"

text \<open>
  The new string as its length field and the place of its data; the code cuts the length to
  16 bits.
\<close>

definition rand_str ::
  "crand \<Rightarrow> libc \<Rightarrow> chunk_alloc \<Rightarrow> u32 \<Rightarrow> u32 \<Rightarrow> rng \<Rightarrow> errp \<Rightarrow>
   (err_t \<times> (u32 \<times> u32) option \<times> chunk_alloc \<times> rng \<times> errp) option" where
  "rand_str g os ca minlen maxlen s e =
     do {
       ASSERT (maxlen \<ge> minlen);
       (len, s1) \<leftarrow> randu32r g minlen maxlen s;
       (ret, ca1, e1) \<leftarrow> chunk_malloc os ca len 1 e;
       case ret of
         None \<Rightarrow> do { c \<leftarrow> error_trace e1; Some (c, None, ca1, s1, e1) }
       | Some p \<Rightarrow>
           do {
             (cs, s2) \<leftarrow> rand_chars g (unat len) s1;
             ca2 \<leftarrow> head_store ca1 p cs;
             Some (SUCCESS, Some (ucast (ucast len :: u16), p), ca2, s2, e1)
           }
     }"

fun rand_bytes_loop :: "crand \<Rightarrow> nat \<Rightarrow> rng \<Rightarrow> u8 list \<times> rng" where
  "rand_bytes_loop g 0 s = ([], s)"
| "rand_bytes_loop g (Suc n) s =
     (case c_rand g s of
        (x, s1) \<Rightarrow> (case rand_bytes_loop g n s1 of (bs, s2) \<Rightarrow> (word_of_nat x # bs, s2)))"

definition rand_bytes :: "crand \<Rightarrow> u8 list \<Rightarrow> u32 \<Rightarrow> rng \<Rightarrow> (u8 list \<times> rng) option" where
  "rand_bytes g dest len s =
     do {
       ASSERT (len > 0);
       let (bs, s') = rand_bytes_loop g (unat len) s;
       dest' \<leftarrow> mem_store dest 0 bs;
       Some (dest', s')
     }"

text \<open>\<open>for (int i = (int)len - 1; i > 0; i--)\<close>\<close>

fun shuffle_loop :: "crand \<Rightarrow> nat \<Rightarrow> u32 list \<Rightarrow> rng \<Rightarrow> (u32 list \<times> rng) option" where
  "shuffle_loop g 0 arr s = Some (arr, s)"
| "shuffle_loop g (Suc i) arr s =
     do {
       (j, s') \<leftarrow> randu32r g 0 (word_of_nat (Suc i)) s;
       if Suc i < length arr \<and> unat j < length arr
       then shuffle_loop g i (arr[Suc i := arr ! unat j, unat j := arr ! Suc i]) s'
       else None
     }"

definition shuffle_u32 :: "crand \<Rightarrow> u32 list \<Rightarrow> u32 \<Rightarrow> rng \<Rightarrow> (u32 list \<times> rng) option" where
  "shuffle_u32 g array len s = shuffle_loop g (nat (sint len - 1)) array s"

section \<open>The draws return\<close>

lemma randu64_loop_returns:
  assumes base: "2 \<le> unat base"
  shows "0 < unat capacity \<Longrightarrow> \<exists>r' s'. randu64_loop g base r capacity s = Some (r', s')"
proof (induction "18446744073709551616 - unat capacity" arbitrary: r capacity s rule: less_induct)
  case less
  show ?case
  proof (cases "capacity \<le> - 1 div base")
    case False
    then show ?thesis by (simp add: randu64_loop.simps)
  next
    case True
    then have "unat capacity \<le> 18446744073709551615 div unat base"
      by (simp add: word_le_nat_alt unat_div_distrib unsigned_minus_1_eq_mask mask_eq_exp_minus_1)
    then have "unat capacity * unat base \<le> 18446744073709551615 div unat base * unat base"
      by (rule mult_le_mono1)
    also have "\<dots> \<le> 18446744073709551615" by (rule div_times_less_eq_dividend)
    finally have le: "unat capacity * unat base \<le> 18446744073709551615" .
    then have u: "unat (capacity * base) = unat capacity * unat base" by (intro u64_mult_nat) simp
    have "unat capacity * 2 \<le> unat capacity * unat base" using base by (rule mult_le_mono2)
    then have "unat capacity < unat (capacity * base)" using less.prems unfolding u by linarith
    then have "18446744073709551616 - unat (capacity * base) < 18446744073709551616 - unat capacity"
      "0 < unat (capacity * base)" using le u by linarith+
    from less.hyps [OF this] show ?thesis
      using True by (subst randu64_loop.simps) (simp add: c_rand_def)
  qed
qed

lemma randu64_returns:
  assumes "crand_ok g"
  shows "\<exists>r s'. randu64 g s = Some (r, s')"
proof -
  have m: "32767 \<le> cr_max g" "cr_max g < 2147483648" using assms by (simp_all add: crand_ok_def)
  have "unat (word_of_nat (cr_max g) :: u64) = cr_max g" using m by (simp add: unat_of_nat)
  then have "unat (word_of_nat (cr_max g) + 1 :: u64) = cr_max g + 1" using m by (subst u64_add_nat) simp_all
  then have b: "2 \<le> unat (word_of_nat (cr_max g) + 1 :: u64)" using m by simp
  have p: "0 < unat (word_of_nat (cr_max g) + 1 :: u64)" using b by linarith
  obtain x s1 where x: "c_rand g s = (x, s1)" by (metis surj_pair)
  from randu64_loop_returns [OF b p, of g "word_of_nat x" s1] obtain r s2 where
    r: "randu64_loop g (word_of_nat (cr_max g) + 1) (word_of_nat x) (word_of_nat (cr_max g) + 1) s1 = Some (r, s2)" by blast
  obtain y s3 where "c_rand g s2 = (y, s3)" by (metis surj_pair)
  then show ?thesis using x r by (simp add: randu64_def Let_def)
qed

text \<open>Scaling a 64-bit draw to a range of at most \<open>2 ^ 64\<close> values.\<close>

lemma unat_u128: "unat (ucast (x :: u64) :: u128) = unat x"
  by (simp add: unsigned_ucast_eq unsigned_take_bit_eq take_bit_nat_eq_self less_trans [OF u64_less_bound])

lemma scale_draw:
  assumes R: "unat (R :: u128) \<le> 18446744073709551616" "0 < unat R"
  shows "unat (ucast (drop_bit 64 (ucast (x :: u64) * R)) :: u64) = unat x * unat R div 18446744073709551616"
    and "unat x * unat R div 18446744073709551616 < unat R"
proof -
  have "unat x * unat R \<le> 18446744073709551615 * 18446744073709551616"
    using R(1) u64_less_bound [of x] by (intro mult_le_mono) linarith+
  then have lt: "unat x * unat R < 340282366920938463463374607431768211456" by simp
  then have p: "unat (ucast x * R) = unat x * unat R"
    using unat_mult_lem [of "ucast x" R] by (simp add: unat_u128)
  have "unat x * unat R < 18446744073709551616 * unat R" using R(2) u64_less_bound [of x] by (intro mult_strict_right_mono) simp_all
  then show b: "unat x * unat R div 18446744073709551616 < unat R" by (simp add: less_mult_imp_div_less mult.commute)
  then have "unat x * unat R div 18446744073709551616 < 18446744073709551616" using R(1) by linarith
  then show "unat (ucast (drop_bit 64 (ucast x * R)) :: u64) = unat x * unat R div 18446744073709551616"
    unfolding unsigned_ucast_eq unsigned_drop_bit_eq p by (simp add: take_bit_nat_eq_self drop_bit_eq_div)
qed

lemma randu64r_range:
  assumes "crand_ok g" and "lower \<le> upper"
  shows "\<exists>v s'. randu64r g lower upper s = Some (v, s') \<and> lower \<le> v \<and> v \<le> upper"
proof (cases "upper = lower")
  case True
  then show ?thesis by (simp add: randu64r_def)
next
  case False
  obtain x s' where x: "randu64 g s = Some (x, s')" using randu64_returns [OF assms(1)] by blast
  let ?R = "ucast upper - ucast lower + 1 :: u128"
  have le: "unat lower \<le> unat upper" using assms(2) by (simp add: word_le_nat_alt)
  have "unat (ucast upper - ucast lower :: u128) = unat upper - unat lower"
    using le by (simp add: unat_sub word_le_nat_alt unat_u128)
  then have R: "unat ?R = unat upper - unat lower + 1"
    using unat_add_lem [of "ucast upper - ucast lower :: u128" 1] less_imp_diff_less [OF u64_less_bound [of upper], of "unat lower"] by simp
  have R': "unat ?R \<le> 18446744073709551616" "0 < unat ?R" using R u64_less_bound [of upper] by linarith+
  let ?r = "ucast (drop_bit 64 (ucast x * ?R)) :: u64"
  have r: "unat ?r \<le> unat upper - unat lower" using scale_draw [OF R', of x] R by simp
  then have "unat (lower + ?r) = unat lower + unat ?r"
    using le u64_less_bound [of upper] by (intro u64_add_nat) linarith
  then have "lower \<le> lower + ?r \<and> lower + ?r \<le> upper" using r le by (simp add: word_le_nat_alt)
  then show ?thesis using False assms(2) x by (simp add: randu64r_def)
qed

lemma randu32r_range:
  assumes "crand_ok g" and "lower \<le> upper"
  shows "\<exists>v s'. randu32r g lower upper s = Some (v, s') \<and> lower \<le> v \<and> v \<le> upper"
proof (cases "upper = lower")
  case True
  then show ?thesis by (simp add: randu32r_def)
next
  case False
  have "(ucast lower :: u64) \<le> ucast upper" using assms(2) by (simp add: word_le_nat_alt unat_ucast_u32_u64)
  from randu64r_range [OF assms(1) this, of s] obtain v s' where
    v: "randu64r g (ucast lower) (ucast upper) s = Some (v, s')" "ucast lower \<le> v" "v \<le> ucast upper" by blast
  have n: "unat lower \<le> unat v" "unat v \<le> unat upper" using v(2,3) by (simp_all add: word_le_nat_alt unat_ucast_u32_u64)
  then have "unat (ucast v :: u32) = unat v" using u32_less_bound [of upper] by (intro unat_ucast_u64_u32) linarith
  then show ?thesis using False assms(2) v(1) n by (simp add: randu32r_def word_le_nat_alt)
qed

section \<open>Characters and permutations\<close>

definition alnum :: "u8 \<Rightarrow> bool" where
  "alnum c \<longleftrightarrow> 48 \<le> unat c \<and> unat c \<le> 57 \<or> 65 \<le> unat c \<and> unat c \<le> 90 \<or> 97 \<le> unat c \<and> unat c \<le> 122"

lemma unat_u8_of_u32: "unat (x :: u32) < 256 \<Longrightarrow> unat (ucast x :: u8) = unat x"
  by (simp add: unsigned_ucast_eq unsigned_take_bit_eq take_bit_nat_eq_self)

lemma rand_char_alnum:
  assumes "r \<le> 61"
  shows "alnum (rand_char r)"
proof -
  have r: "unat r \<le> 61" using assms by (simp add: word_le_nat_alt)
  have add: "unat (a + b :: u8) = unat a + unat b" if "unat a + unat b < 256" for a b
    using that unat_add_lem [of a b] by simp
  consider "unat r < 10" | "10 \<le> unat r" "unat r < 36" | "36 \<le> unat r" by linarith
  then show ?thesis
  proof cases
    case 1
    then have "unat (rand_char r) = 48 + unat r"
      by (simp add: rand_char_def word_less_nat_alt add unat_u8_of_u32)
    then show ?thesis using 1 by (simp add: alnum_def)
  next
    case 2
    then have "unat (rand_char r) = 65 + (unat r - 10)"
      by (simp add: rand_char_def word_less_nat_alt add unat_u8_of_u32)
    then show ?thesis using 2 by (simp add: alnum_def)
  next
    case 3
    then have "unat (rand_char r) = 97 + (unat r - 36)"
      using r by (simp add: rand_char_def word_less_nat_alt add unat_u8_of_u32)
    then show ?thesis using 3 r by (simp add: alnum_def)
  qed
qed

lemma rand_chars_alnum:
  assumes "crand_ok g"
  shows "\<exists>cs s'. rand_chars g n s = Some (cs, s') \<and> length cs = n \<and> (\<forall>c\<in>set cs. alnum c)"
proof (induction n arbitrary: s)
  case (Suc n)
  from randu32r_range [OF assms, of 0 61 s] obtain r s1 where
    r: "randu32r g 0 61 s = Some (r, s1)" "r \<le> 61" by auto
  from Suc [of s1] obtain cs s2 where "rand_chars g n s1 = Some (cs, s2)" "length cs = n" "\<forall>c\<in>set cs. alnum c" by blast
  then show ?case using r rand_char_alnum [OF r(2)] by simp
qed simp

lemma shuffle_loop_permutes:
  assumes "crand_ok g"
  shows "i < length arr \<or> i = 0 \<Longrightarrow> length arr < 4294967296 \<Longrightarrow>
    \<exists>arr' s'. shuffle_loop g i arr s = Some (arr', s') \<and> mset arr' = mset arr"
proof (induction i arbitrary: arr s)
  case (Suc i)
  have i: "unat (word_of_nat (Suc i) :: u32) = Suc i" using Suc.prems by (simp add: unat_of_nat)
  have "(0 :: u32) \<le> word_of_nat (Suc i)" by simp
  from randu32r_range [OF assms this, of s] obtain j s1 where
    j: "randu32r g 0 (word_of_nat (Suc i)) s = Some (j, s1)" "j \<le> word_of_nat (Suc i)" by blast
  have jl: "unat j < length arr" using j(2) i Suc.prems by (simp add: word_le_nat_alt)
  have il: "Suc i < length arr" using Suc.prems by simp
  let ?a = "arr[Suc i := arr ! unat j, unat j := arr ! Suc i]"
  have "mset ?a = mset arr" using mset_swap [OF jl il] by (simp add: list_update_swap)
  moreover from Suc.IH [of ?a s1] Suc.prems obtain arr' s' where
    "shuffle_loop g i ?a s1 = Some (arr', s')" "mset arr' = mset ?a" by auto
  ultimately show ?case using j(1) jl il by (simp only: shuffle_loop.simps) simp
qed simp

lemma sint_top_neg:
  assumes "2147483648 \<le> unat (w :: i32)"
  shows "sint w < 0"
proof -
  have "uint w = int (unat w)" by simp
  then have "2147483648 \<le> uint w" "uint w < 4294967296" using assms u32_less_bound [of w] by linarith+
  then have "uint w div 2147483648 = 1" by simp
  then have "bit (uint w) 31" by (simp add: bit_iff_odd)
  then show ?thesis by (simp add: sint_uint)
qed

section \<open>Properties\<close>

text \<open>
  A draw from a range returns and lies within the bounds, whatever the generator of the C
  library delivers.
\<close>

theorem randu32r_within_bounds:
  assumes "crand_ok g" and "lower \<le> upper"
  shows "\<exists>v s'. randu32r g lower upper s = Some (v, s') \<and> lower \<le> v \<and> v \<le> upper"
  by (rule randu32r_range [OF assms])

text \<open>A generator that always delivers the largest number, for the concrete examples.\<close>

definition crand_high :: crand where
  "crand_high = \<lparr>cr_max = 2147483647, cr_seq = (\<lambda>_ _. 2147483647)\<rparr>"

lemma crand_high_ok [simp]: "crand_ok crand_high"
  by (simp add: crand_high_def crand_ok_def)

theorem randu32r_within_bounds_witness:
  "\<exists>v s'. randu32r crand_high 5 9 (rand_seed_with 1) = Some (v, s') \<and> 5 \<le> v \<and> v \<le> 9"
  using randu32r_within_bounds [of crand_high 5 9 "rand_seed_with 1"] by simp

text \<open>
  Shuffling an array returns and permutes it.
\<close>

theorem shuffle_u32_permutes:
  assumes "crand_ok g" and "unat len = length array" and "unat len < 2147483648"
  shows "\<exists>array' s'. shuffle_u32 g array len s = Some (array', s') \<and> mset array' = mset array"
proof -
  have "sint len = int (length array)" using assms(2,3) by (subst sint_small_u32) simp_all
  then have "nat (sint len - 1) = length array - 1" by simp
  then show ?thesis
    using shuffle_loop_permutes [OF assms(1), of "length array - 1" array s] assms(2,3)
    by (cases array) (simp_all add: shuffle_u32_def)
qed

theorem shuffle_u32_permutes_witness:
  "\<exists>array' s'. shuffle_u32 crand_high [3, 1, 2] 3 (rand_seed_with 1) = Some (array', s') \<and> mset array' = mset [3, 1, 2]"
  using shuffle_u32_permutes [of crand_high 3 "[3, 1, 2]" "rand_seed_with 1"] by simp

text \<open>
  \<open>randi32\<close> is undefined for half of the draws: when the 64-bit draw has its top bit set,
  the addition of the lower bound overflows.
\<close>

theorem randi32_undefined:
  assumes "randu64 g s = Some (x, s')" and "9223372036854775808 \<le> unat x"
  shows "randi32 g s = None"
proof -
  let ?r = "ucast (drop_bit 64 (ucast x * (4294967296 :: u128))) :: u64"
  have "unat ?r = unat x * 4294967296 div 18446744073709551616"
    "unat x * 4294967296 div 18446744073709551616 < 4294967296"
    using scale_draw [of "4294967296" x] by simp_all
  moreover have "9223372036854775808 * 4294967296 div 18446744073709551616 \<le> unat x * 4294967296 div 18446744073709551616"
    using assms(2) by (intro div_le_mono mult_le_mono1) simp
  ultimately have r: "2147483648 \<le> unat ?r" "unat ?r < 4294967296" by simp_all
  have d: "randu64r g 0 4294967295 s = Some (?r, s')"
    using assms(1) by (simp add: randu64r_def)
  have "unat (ucast ?r :: i32) = unat ?r" using r(2) by (rule unat_ucast_u64_u32)
  then have neg: "sint (ucast ?r :: i32) < 0"
    using r(1) by (intro sint_top_neg) simp
  then have "i32_of (- 2147483648 + sint (ucast ?r :: i32)) = None" by (simp add: i32_of_def)
  then show ?thesis
    using d by (simp add: randi32_def randi32r_def)
qed

theorem randi32_undefined_witness:
  "randi32 crand_high (rand_seed_with 1) = None"
proof -
  have "randu64 crand_high (rand_seed_with 1) = Some (18446744073709551615, \<lparr>rg_seed = 1, rg_calls = 3\<rparr>)"
    by (simp add: randu64_def randu64_loop.simps crand_high_def c_rand_def rand_seed_with_def)
  from randi32_undefined [OF this] show ?thesis by simp
qed

end
