(* ===== verification/Data_validator.thy ===== *)
theory Data_validator
  imports Rand
begin

text \<open>
  The data validator (\<^verbatim>\<open>dev/data_validator.c\<close>): it applies every operation to a reference and to a
  system under test, both behind the function table, and compares what they return. Errors are
  left in the error object; an operation gives the code that \<open>error_trace\<close> reads from it.
\<close>

section \<open>The validator\<close>

record ('r, 's) dvalidtr =
  dv_ref :: "'r data_writer"
  dv_rctx :: 'r
  dv_sut :: "'s data_writer"
  dv_sctx :: 's
  dv_isvalid :: "('s \<Rightarrow> errp \<Rightarrow> (err_t \<times> 's \<times> errp) option) option"

text \<open>Printing with \<open>PRIu64\<close>, of words and of signed numbers.\<close>

definition fmt_u64 :: "u64 \<Rightarrow> string" where
  "fmt_u64 w = dec (unat w)"

definition fmt_i64 :: "int \<Rightarrow> string" where
  "fmt_i64 k = dec (nat (k mod 2 ^ 64))"

definition corrupt :: "errp \<Rightarrow> string \<Rightarrow> errp" where
  "corrupt e msg = fst (error_causef e ERR_CORRUPT msg)"

definition at_stride :: "stride \<Rightarrow> u32 \<Rightarrow> string" where
  "at_stride str sz = ''start='' @ fmt_u64 (st_start str) @ '' stride='' @ fmt_u64 (st_stride str) @
     '' nelems='' @ fmt_u64 (st_nelems str) @ '' size='' @ fmt_u sz"

definition free_if :: "'a option \<Rightarrow> unit option" where
  "free_if p = (case p of None \<Rightarrow> Some () | Some x \<Rightarrow> i_free (Some x))"

text \<open>\<open>memcmp (a, b, n) == 0\<close>; both objects must have \<open>n\<close> bytes.\<close>

definition mem_equal :: "u8 list \<Rightarrow> u8 list \<Rightarrow> nat \<Rightarrow> bool option" where
  "mem_equal a b n = do { x \<leftarrow> mem_load a 0 n; y \<leftarrow> mem_load b 0 n; Some (x = y) }"

definition ptr_range :: "u8 list \<Rightarrow> nat \<Rightarrow> u8 list option" where
  "ptr_range arr n = (if n \<le> length arr then mem_store arr 0 (map word_of_nat [0..<n]) else None)"

section \<open>Operations\<close>

definition dvalidtr_light_validate ::
  "('r, 's) dvalidtr \<Rightarrow> errp \<Rightarrow> (err_t \<times> ('r, 's) dvalidtr \<times> errp) option" where
  "dvalidtr_light_validate d e =
     do {
       (sut_len, sc, e1) \<leftarrow> dw_getlen (dv_sut d) (dv_sctx d) e;
       let d1 = d\<lparr>dv_sctx := sc\<rparr>;
       if sut_len < 0 then do { c \<leftarrow> error_trace e1; Some (c, d1, e1) }
       else do {
         (ref_len, rc, e2) \<leftarrow> dw_getlen (dv_ref d1) (dv_rctx d1) e1;
         let d2 = d1\<lparr>dv_rctx := rc\<rparr>;
         if ref_len < 0 then do { c \<leftarrow> error_trace e2; Some (c, d2, e2) }
         else if sut_len \<noteq> ref_len
         then Some (ERR_CORRUPT, d2, corrupt e2
                (''length mismatch: ref='' @ fmt_i64 ref_len @ '' sut='' @ fmt_i64 sut_len @
                 '' (delta='' @ fmt_i64 (sut_len - ref_len) @ '')''))
         else Some (SUCCESS, d2, e2)
       }
     }"

text \<open>Both reads and their comparison, into the buffers \<open>rf\<close> and \<open>ds\<close>.\<close>

definition read_both ::
  "('r, 's) dvalidtr \<Rightarrow> stride \<Rightarrow> u32 \<Rightarrow> u8 list \<Rightarrow> u8 list \<Rightarrow> errp \<Rightarrow>
   (u8 list \<times> ('r, 's) dvalidtr \<times> errp) option" where
  "read_both d str sz rf ds e =
     do {
       (ref_read, rf', rc, e1) \<leftarrow> dw_read (dv_ref d) (dv_rctx d) str sz rf e;
       let d1 = d\<lparr>dv_rctx := rc\<rparr>;
       if ref_read < 0 then Some (ds, d1, corrupt e1 (''ref read failed ('' @ at_stride str sz @ '')''))
       else do {
         (sut_read, ds', sc, e2) \<leftarrow> dw_read (dv_sut d1) (dv_sctx d1) str sz ds e1;
         let d2 = d1\<lparr>dv_sctx := sc\<rparr>;
         if sut_read < 0 then Some (ds', d2, corrupt e2 (''sut read failed ('' @ at_stride str sz @ '')''))
         else if ref_read \<noteq> sut_read
         then Some (ds', d2, corrupt e2 (''read count mismatch: ref='' @ fmt_i64 ref_read @ '' sut='' @
                fmt_i64 sut_read @ '' ('' @ at_stride str sz @ '')''))
         else do {
           same \<leftarrow> mem_equal ds' rf' (unat (word_of_int sut_read * ucast sz :: u64));
           if \<not> same
           then Some (ds', d2, corrupt e2 (''read data mismatch: ref/sut diverged ('' @ at_stride str sz @
                  '' nread='' @ fmt_i64 sut_read @ '')''))
           else Some (ds', d2, e2)
         }
       }
     }"

definition dvalidtr_read ::
  "libc \<Rightarrow> ('r, 's) dvalidtr \<Rightarrow> stride \<Rightarrow> u32 \<Rightarrow> u8 list option \<Rightarrow> errp \<Rightarrow>
   (err_t \<times> u8 list option \<times> ('r, 's) dvalidtr \<times> errp) option" where
  "dvalidtr_read os d str sz dest0 e =
     do {
       (rf, e1) \<leftarrow> i_malloc os (ucast (st_nelems str)) sz e;
       (dest, d', e') \<leftarrow>
         (case rf of
            None \<Rightarrow> Some (dest0, d, e1)
          | Some rb \<Rightarrow>
              do {
                (dest1, e2) \<leftarrow> (case dest0 of
                    None \<Rightarrow> i_malloc os (ucast (st_nelems str)) sz e1
                  | Some _ \<Rightarrow> Some (dest0, e1));
                case dest1 of
                  None \<Rightarrow> Some (None, d, e2)
                | Some ds \<Rightarrow> do { (ds', d', e') \<leftarrow> read_both d str sz rb ds e2; Some (Some ds', d', e') }
              });
       free_if rf;
       (if dest0 = None then free_if dest else Some ());
       c \<leftarrow> error_trace e';
       Some (c, if dest0 = None then None else dest, d', e')
     }"

definition check_valid :: "('r, 's) dvalidtr \<Rightarrow> errp \<Rightarrow> (('r, 's) dvalidtr \<times> errp) option" where
  "check_valid d e =
     (case dv_isvalid d of
        None \<Rightarrow> Some (d, e)
      | Some f \<Rightarrow> do { (_, sc, e') \<leftarrow> f (dv_sctx d) e; Some (d\<lparr>dv_sctx := sc\<rparr>, e') })"

text \<open>The body of \<open>dvalidtr_insert\<close> once the source bytes are there.\<close>

definition insert_both ::
  "libc \<Rightarrow> ('r, 's) dvalidtr \<Rightarrow> u32 \<Rightarrow> u8 list \<Rightarrow> u32 \<Rightarrow> errp \<Rightarrow> (('r, 's) dvalidtr \<times> errp) option" where
  "insert_both os d ofst src slen e =
     do {
       (ref_written, rc, e1) \<leftarrow> dw_insert (dv_ref d) (dv_rctx d) ofst src slen e;
       let d1 = d\<lparr>dv_rctx := rc\<rparr>;
       if ref_written < 0
       then Some (d1, corrupt e1 (''insert into ref failed at byte offset '' @ fmt_u ofst @
              '' (slen='' @ fmt_u slen @ '')''))
       else do {
         (sut_written, sc, e2) \<leftarrow> dw_insert (dv_sut d1) (dv_sctx d1) ofst src slen e1;
         let d2 = d1\<lparr>dv_sctx := sc\<rparr>;
         if sut_written < 0
         then Some (d2, corrupt e2 (''insert into sut failed at byte offset '' @ fmt_u ofst @
                '' (slen='' @ fmt_u slen @ '')''))
         else if ref_written \<noteq> sut_written
         then Some (d2, corrupt e2 (''insert count mismatch: ref='' @ fmt_i64 ref_written @
                '' sut='' @ fmt_i64 sut_written))
         else do {
           (sut_read, _, d3, e3) \<leftarrow>
             dvalidtr_read os d2 \<lparr>st_start = ucast ofst, st_stride = 1, st_nelems = ucast slen\<rparr> 1 None e2;
           if sut_read < 0
           then Some (d3, corrupt e3 (''read-back after insert failed (byte offset='' @ fmt_u ofst @
                  '', slen='' @ fmt_u slen @ '')''))
           else do {
             (c, d4, e4) \<leftarrow> dvalidtr_light_validate d3 e3;
             if c \<noteq> 0
             then Some (d4, corrupt e4 (''length check failed after insert at byte offset '' @
                    fmt_u ofst @ '' (slen='' @ fmt_u slen @ '')''))
             else check_valid d4 e4
           }
         }
       }
     }"

text \<open>Without a source the bytes 0, 1, 2, \<open>\<dots>\<close> are used; a refused buffer is freed all the same.\<close>

definition dvalidtr_insert ::
  "libc \<Rightarrow> ('r, 's) dvalidtr \<Rightarrow> u32 \<Rightarrow> u8 list option \<Rightarrow> u32 \<Rightarrow> errp \<Rightarrow>
   (err_t \<times> ('r, 's) dvalidtr \<times> errp) option" where
  "dvalidtr_insert os d ofst src0 slen e =
     do {
       (src, e1) \<leftarrow> (case src0 of None \<Rightarrow> i_malloc os slen 1 e | Some s \<Rightarrow> Some (Some s, e));
       (d', e') \<leftarrow>
         (case src of
            None \<Rightarrow> Some (d, e1)
          | Some s \<Rightarrow>
              do {
                s' \<leftarrow> (if src0 = None then ptr_range s (unat slen) else Some s);
                insert_both os d ofst s' slen e1
              });
       (if src0 = None then i_free src else Some ());
       c \<leftarrow> error_trace e';
       Some (c, d', e')
     }"

definition write_both ::
  "libc \<Rightarrow> ('r, 's) dvalidtr \<Rightarrow> stride \<Rightarrow> u32 \<Rightarrow> u8 list \<Rightarrow> errp \<Rightarrow> (('r, 's) dvalidtr \<times> errp) option" where
  "write_both os d str sz src e =
     do {
       (sut_written, sc, e1) \<leftarrow> dw_write (dv_sut d) (dv_sctx d) str sz src e;
       let d1 = d\<lparr>dv_sctx := sc\<rparr>;
       if sut_written < 0 then Some (d1, corrupt e1 (''write into sut failed ('' @ at_stride str sz @ '')''))
       else do {
         (ref_written, rc, e2) \<leftarrow> dw_write (dv_ref d1) (dv_rctx d1) str sz src e1;
         let d2 = d1\<lparr>dv_rctx := rc\<rparr>;
         if ref_written < 0 then Some (d2, corrupt e2 (''write into ref failed ('' @ at_stride str sz @ '')''))
         else if ref_written \<noteq> sut_written
         then Some (d2, corrupt e2 (''write count mismatch: ref='' @ fmt_i64 ref_written @ '' sut='' @
                fmt_i64 sut_written @ '' ('' @ at_stride str sz @ '')''))
         else do {
           (c, _, d3, e3) \<leftarrow> dvalidtr_read os d2 str sz None e2;
           if c \<noteq> 0
           then Some (d3, corrupt e3 (''read-back after write failed ('' @ at_stride str sz @ '')''))
           else check_valid d3 e3
         }
       }
     }"

definition dvalidtr_write ::
  "libc \<Rightarrow> ('r, 's) dvalidtr \<Rightarrow> stride \<Rightarrow> u32 \<Rightarrow> u8 list option \<Rightarrow> errp \<Rightarrow>
   (err_t \<times> ('r, 's) dvalidtr \<times> errp) option" where
  "dvalidtr_write os d str sz src0 e =
     do {
       (src, e1) \<leftarrow> (case src0 of
           None \<Rightarrow> i_malloc os (ucast (st_nelems str)) sz e
         | Some s \<Rightarrow> Some (Some s, e));
       (d', e') \<leftarrow>
         (case src of
            None \<Rightarrow> Some (d, e1)
          | Some s \<Rightarrow>
              do {
                s' \<leftarrow> (if src0 = None then ptr_range s (unat (st_nelems str * ucast sz)) else Some s);
                write_both os d str sz s' e1
              });
       (if src0 = None then free_if src else Some ());
       c \<leftarrow> error_trace e';
       Some (c, d', e')
     }"

text \<open>Both removals and their comparison, into the buffers \<open>rf\<close> and \<open>ds\<close>.\<close>

definition remove_both ::
  "('r, 's) dvalidtr \<Rightarrow> stride \<Rightarrow> u32 \<Rightarrow> u8 list \<Rightarrow> u8 list \<Rightarrow> errp \<Rightarrow>
   (u8 list \<times> ('r, 's) dvalidtr \<times> errp) option" where
  "remove_both d str sz rf ds e =
     do {
       (ref_read, rf1, rc, e1) \<leftarrow> dw_remove (dv_ref d) (dv_rctx d) str sz (Some rf) e;
       rf' \<leftarrow> rf1;
       let d1 = d\<lparr>dv_rctx := rc\<rparr>;
       if ref_read < 0 then Some (ds, d1, corrupt e1 (''remove from ref failed ('' @ at_stride str sz @ '')''))
       else do {
         (sut_read, ds1, sc, e2) \<leftarrow> dw_remove (dv_sut d1) (dv_sctx d1) str sz (Some ds) e1;
         ds' \<leftarrow> ds1;
         let d2 = d1\<lparr>dv_sctx := sc\<rparr>;
         if sut_read < 0 then Some (ds', d2, corrupt e2 (''remove from sut failed ('' @ at_stride str sz @ '')''))
         else if ref_read \<noteq> sut_read
         then Some (ds', d2, corrupt e2 (''remove count mismatch: ref='' @ fmt_i64 ref_read @ '' sut='' @
                fmt_i64 sut_read @ '' ('' @ at_stride str sz @ '')''))
         else do {
           same \<leftarrow> mem_equal ds' rf' (unat (word_of_int sut_read * ucast sz :: u64));
           if \<not> same
           then Some (ds', d2, corrupt e2 (''remove data mismatch: ref/sut diverged ('' @ at_stride str sz @
                  '' nremoved='' @ fmt_i64 sut_read @ '')''))
           else do {
             (c, d3, e3) \<leftarrow> dvalidtr_light_validate d2 e2;
             if c \<noteq> 0
             then Some (ds', d3, corrupt e3 (''length check failed after remove (start='' @
                    fmt_u64 (st_start str) @ ''stride='' @ fmt_u64 (st_stride str) @ '' nelems='' @
                    fmt_u64 (st_nelems str) @ '' size='' @ fmt_u sz @ '')''))
             else do { (d4, e4) \<leftarrow> check_valid d3 e3; Some (ds', d4, e4) }
           }
         }
       }
     }"

definition dvalidtr_remove ::
  "libc \<Rightarrow> ('r, 's) dvalidtr \<Rightarrow> stride \<Rightarrow> u32 \<Rightarrow> u8 list option \<Rightarrow> errp \<Rightarrow>
   (err_t \<times> u8 list option \<times> ('r, 's) dvalidtr \<times> errp) option" where
  "dvalidtr_remove os d str sz dest0 e =
     do {
       (rf, e1) \<leftarrow> i_malloc os (ucast (st_nelems str)) sz e;
       (dest, d', e') \<leftarrow>
         (case rf of
            None \<Rightarrow> Some (dest0, d, e1)
          | Some rb \<Rightarrow>
              do {
                (dest1, e2) \<leftarrow> (case dest0 of
                    None \<Rightarrow> i_malloc os (ucast (st_nelems str)) sz e1
                  | Some _ \<Rightarrow> Some (dest0, e1));
                case dest1 of
                  None \<Rightarrow> Some (None, d, e2)
                | Some ds \<Rightarrow> do { (ds', d', e') \<leftarrow> remove_both d str sz rb ds e2; Some (Some ds', d', e') }
              });
       free_if rf;
       (if dest0 = None then free_if dest else Some ());
       c \<leftarrow> error_trace e';
       Some (c, if dest0 = None then None else dest, d', e')
     }"

definition dvalidtr_getlen :: "('r, 's) dvalidtr \<Rightarrow> errp \<Rightarrow> (int \<times> ('r, 's) dvalidtr \<times> errp) option" where
  "dvalidtr_getlen d e =
     do { (n, rc, e') \<leftarrow> dw_getlen (dv_ref d) (dv_rctx d) e; Some (sint (word_of_int n :: i32), d\<lparr>dv_rctx := rc\<rparr>, e') }"

definition dvalidtr_validate ::
  "libc \<Rightarrow> ('r, 's) dvalidtr \<Rightarrow> errp \<Rightarrow> (err_t \<times> ('r, 's) dvalidtr \<times> errp) option" where
  "dvalidtr_validate os d e =
     do {
       (c, d1, e1) \<leftarrow> dvalidtr_light_validate d e;
       if c \<noteq> 0 then do { c' \<leftarrow> error_trace e1; Some (c', d1, e1) }
       else do {
         (len, rc, e2) \<leftarrow> dw_getlen (dv_ref d1) (dv_rctx d1) e1;
         let d2 = d1\<lparr>dv_rctx := rc\<rparr>;
         if len < 0 then do { c' \<leftarrow> error_trace e2; Some (c', d2, e2) }
         else do {
           (c', _, d3, e3) \<leftarrow>
             dvalidtr_read os d2 \<lparr>st_start = 0, st_stride = 1, st_nelems = word_of_int len\<rparr> 1 None e2;
           if c' \<noteq> 0
           then do {
             let e4 = corrupt e3 (''full read validation failed (len='' @ fmt_i64 len @ '')'');
             c2 \<leftarrow> error_trace e4;
             Some (c2, d3, e4)
           }
           else Some (SUCCESS, d3, e3)
         }
       }
     }"

section \<open>The random test\<close>

datatype choice = C_INSERT | C_READ | C_REMOVE | C_WRITE

definition choice_of :: "u32 \<Rightarrow> choice" where
  "choice_of n = (if n = 0 then C_INSERT else if n = 1 then C_READ else if n = 2 then C_REMOVE else C_WRITE)"

text \<open>
  The draws of one iteration over an array of \<open>len\<close> elements: the operation, the stride and the
  number of elements to insert.
\<close>

definition random_draws ::
  "crand \<Rightarrow> int \<Rightarrow> u64 \<Rightarrow> rng \<Rightarrow> (choice \<times> stride \<times> u32 \<times> rng) option" where
  "random_draws g len max_insert s0 =
     do {
       (ch, s1) \<leftarrow> randu32r g 0 3 s0;
       let choice = (if len = 0 then C_INSERT else choice_of ch);
       let last = (word_of_int len - 1 :: u32);
       (start, s2) \<leftarrow> (if len > 0 then randu32r g 0 last s1 else Some (0, s1));
       (stp, s3) \<leftarrow> randu32r g 1 8 s2;
       let max_n = (if len > 0 then ucast ((ucast last - ucast start) div ucast stp + 1 :: u64) else 0 :: u32);
       (nelems, s4) \<leftarrow>
         (if max_n > 0 then randu32r g 1 (ucast (min (ucast max_n) max_insert)) s3 else Some (0, s3));
       (ninsert, s5) \<leftarrow> randu32r g 1 (ucast max_insert) s4;
       Some (choice, \<lparr>st_start = ucast start, st_stride = ucast stp, st_nelems = ucast nelems\<rparr>, ninsert, s5)
     }"

text \<open>The operation of one iteration; a nonzero code ends the test.\<close>

definition random_op ::
  "libc \<Rightarrow> ('r, 's) dvalidtr \<Rightarrow> choice \<Rightarrow> stride \<Rightarrow> u32 \<Rightarrow> u32 \<Rightarrow> errp \<Rightarrow>
   (err_t \<times> ('r, 's) dvalidtr \<times> errp) option" where
  "random_op os d choice str ninsert sz e =
     (case choice of
        C_INSERT \<Rightarrow> dvalidtr_insert os d (ucast (st_start str * ucast sz)) None (ninsert * sz) e
      | C_READ \<Rightarrow> do { (c, _, d', e') \<leftarrow> dvalidtr_read os d str sz None e; Some (c, d', e') }
      | C_REMOVE \<Rightarrow> do { (c, _, d', e') \<leftarrow> dvalidtr_remove os d str sz None e; Some (c, d', e') }
      | C_WRITE \<Rightarrow> dvalidtr_write os d str sz None e)"

definition random_failure :: "u32 \<Rightarrow> choice \<Rightarrow> int \<Rightarrow> stride \<Rightarrow> u32 \<Rightarrow> u32 \<Rightarrow> string" where
  "random_failure k choice len str ninsert sz =
     ''random test failed on iter '' @ fmt_u k @ '': '' @
     (let region = '' (len='' @ fmt_i64 len @ '' start='' @ fmt_u64 (st_start str);
          rest = '' stride='' @ fmt_u64 (st_stride str) @ '' nelems='' @ fmt_u64 (st_nelems str) @
            '' size='' @ fmt_u sz @ '')'' in
      case choice of
        C_INSERT \<Rightarrow> ''insert'' @ region @ '' ninsert='' @ fmt_u ninsert @ '' size='' @ fmt_u sz @ '')''
      | C_READ \<Rightarrow> ''read'' @ region @ rest
      | C_REMOVE \<Rightarrow> ''remove'' @ region @ rest
      | C_WRITE \<Rightarrow> ''write'' @ region @ rest)"

text \<open>
  \<open>n\<close> iterations to go, the next one is number \<open>k\<close>. The first component is the code with which
  an iteration ends the test, if one does.
\<close>

fun random_loop ::
  "libc \<Rightarrow> crand \<Rightarrow> nat \<Rightarrow> u32 \<Rightarrow> ('r, 's) dvalidtr \<Rightarrow> u32 \<Rightarrow> u64 \<Rightarrow> rng \<Rightarrow> errp \<Rightarrow>
   (err_t option \<times> ('r, 's) dvalidtr \<times> rng \<times> errp) option" where
  "random_loop os g 0 k d sz max_insert s e = Some (None, d, s, e)"
| "random_loop os g (Suc n) k d sz max_insert s e =
     do {
       (bytes, d1, e1) \<leftarrow> dvalidtr_getlen d e;
       if bytes < 0 then do { c \<leftarrow> error_trace e1; Some (Some c, d1, s, e1) }
       else do {
         ASSERT (sz \<noteq> 0);
         let len = bytes div int (unat sz);
         (choice, str, ninsert, s') \<leftarrow> random_draws g len max_insert s;
         (c, d2, e2) \<leftarrow> random_op os d1 choice str ninsert sz e1;
         if c \<noteq> 0
         then Some (Some ERR_CORRUPT, d2, s', corrupt e2 (random_failure k choice len str ninsert sz))
         else random_loop os g n (k + 1) d2 sz max_insert s' e2
       }
     }"

definition dvalidtr_random_test ::
  "libc \<Rightarrow> crand \<Rightarrow> ('r, 's) dvalidtr \<Rightarrow> u32 \<Rightarrow> u32 \<Rightarrow> u64 \<Rightarrow> rng \<Rightarrow> errp \<Rightarrow>
   (err_t \<times> ('r, 's) dvalidtr \<times> rng \<times> errp) option" where
  "dvalidtr_random_test os g d sz niters max_insert s e =
     do {
       (r, d1, s1, e1) \<leftarrow> random_loop os g (unat niters) 0 d sz max_insert s e;
       case r of
         Some c \<Rightarrow> Some (c, d1, s1, e1)
       | None \<Rightarrow>
           do {
             (c, d2, e2) \<leftarrow> dvalidtr_validate os d1 e1;
             if c \<noteq> 0
             then Some (ERR_CORRUPT, d2, s1, corrupt e2 ''random test failed to validate data at the end'')
             else Some (SUCCESS, d2, s1, e2)
           }
     }"

end
