(* ===== verification/Store_pair.thy ===== *)
theory Store_pair
  imports Data_validator
begin

text \<open>
  The data validator over two implementations of the byte store contract: as long as both keep
  the contract, no operation and no random test reports an error.
\<close>

section \<open>Buffers\<close>

lemma i_malloc_granted:
  assumes "libc_ok os" and "libc_total os" and "0 < unat n" and "0 < unat sz" and "unat n * unat sz < 4294967296"
  shows "\<exists>bs. i_malloc os n sz e = Some (Some bs, e) \<and> length bs = unat n * unat sz"
proof -
  have s: "safe_mul_u32 n sz = Some (n * sz)" using assms(5) by (simp add: safe_mul_u32_Some)
  obtain bs where bs: "lc_malloc os (unat n * unat sz) = Some bs" using assms(2) by (fastforce simp: libc_total_def)
  have "i_malloc os n sz e = Some (Some bs, e)"
    using s bs assms by (simp add: i_malloc_def word_less_nat_alt)
  then show ?thesis using lc_malloc_length [OF assms(1) bs] by blast
qed

lemma mem_equal_overwrite:
  "length x \<le> length a \<Longrightarrow> length x \<le> length b \<Longrightarrow> n \<le> length x \<Longrightarrow>
   mem_equal (overwrite a 0 x) (overwrite b 0 x) n = Some True"
  by (simp add: mem_equal_def overwrite_def min_def)

lemma count_bytes:
  assumes "n * unat (sz :: u32) < 4294967296" and "n < 4294967296"
  shows "unat (word_of_nat n * ucast sz :: u64) = n * unat sz"
proof -
  have "unat (word_of_nat n :: u64) = n" using assms(2) by (simp add: unat_of_nat)
  then show ?thesis using assms(1) by (subst u64_mult_nat) (simp_all add: unat_ucast_u32_u64)
qed

definition fresh :: "error \<Rightarrow> bool" where
  "fresh er \<longleftrightarrow> cause_code er = SUCCESS"

lemma fresh_trace: "fresh er \<Longrightarrow> error_trace (Some er) = Some SUCCESS"
  by (simp add: fresh_def)

section \<open>Agreement\<close>

text \<open>Both contexts satisfy their invariants and hold the bytes \<open>B\<close>; the extra check, if any, is silent.\<close>

definition paired ::
  "('r \<Rightarrow> bool) \<Rightarrow> ('r \<Rightarrow> u8 list) \<Rightarrow> ('s \<Rightarrow> bool) \<Rightarrow> ('s \<Rightarrow> u8 list) \<Rightarrow> 'r data_writer \<Rightarrow> 's data_writer \<Rightarrow>
   ('r, 's) dvalidtr \<Rightarrow> u8 list \<Rightarrow> bool" where
  "paired ir br is bs W V d B \<longleftrightarrow>
     dv_ref d = W \<and> dv_sut d = V \<and> ir (dv_rctx d) \<and> br (dv_rctx d) = B \<and> is (dv_sctx d) \<and> bs (dv_sctx d) = B \<and>
     (\<forall>f. dv_isvalid d = Some f \<longrightarrow> (\<forall>c e. is c \<longrightarrow> f c e = Some (SUCCESS, c, e)))"

lemma paired_check_valid: "paired ir br is bs W V d B \<Longrightarrow> check_valid d e = Some (d, e)"
  by (cases d) (auto simp: paired_def check_valid_def split: option.split)

text \<open>Moving both contexts to states that hold \<open>B'\<close>.\<close>

lemma paired_move:
  "paired ir br is bs W V d B \<Longrightarrow> ir rc \<Longrightarrow> br rc = B' \<Longrightarrow> is sc \<Longrightarrow> bs sc = B' \<Longrightarrow>
   paired ir br is bs W V (d\<lparr>dv_rctx := rc, dv_sctx := sc\<rparr>) B'"
  by (auto simp: paired_def)

locale store_pair =
  ref: byte_store env_r dw_r inv_r bytes_r ret +
  sut: byte_store env_s dw_s inv_s bytes_s ret
  for env_r :: "'o \<Rightarrow> bool" and dw_r :: "'o \<Rightarrow> 'r data_writer" and inv_r and bytes_r
    and env_s :: "'p \<Rightarrow> bool" and dw_s :: "'p \<Rightarrow> 's data_writer" and inv_s and bytes_s
    and ret :: "u32 \<Rightarrow> int" +
  assumes ret_nonneg: "0 \<le> ret n"
begin

lemma light_validate_ok:
  assumes "paired inv_r bytes_r inv_s bytes_s (dw_r o1) (dw_s o2) d B" and "length B < 4294967296"
  shows "dvalidtr_light_validate d e = Some (SUCCESS, d, e)"
proof -
  have p: "dv_ref d = dw_r o1" "dv_sut d = dw_s o2" "inv_r (dv_rctx d)" "bytes_r (dv_rctx d) = B"
    "inv_s (dv_sctx d)" "bytes_s (dv_sctx d) = B"
    using assms(1) by (simp_all add: paired_def)
  show ?thesis
    using sut.getlen_law [of "dv_sctx d" o2 e] ref.getlen_law [of "dv_rctx d" o1 e] p assms(2)
    by (cases d) (simp add: dvalidtr_light_validate_def)
qed

lemma read_ok:
  assumes pr: "paired inv_r bytes_r inv_s bytes_s (dw_r o1) (dw_s o2) d B"
    and a: "access_ok str sz (length B)" and al: "length B mod unat sz = 0" and n: "0 < unat (st_nelems str)"
    and fits: "unat (st_nelems str) * unat sz < 4294967296"
    and os: "libc_ok os" "libc_total os" and er: "fresh er"
  shows "dvalidtr_read os d str sz None (Some er) = Some (SUCCESS, None, d, Some er)"
proof -
  have p: "dv_ref d = dw_r o1" "dv_sut d = dw_s o2" "inv_r (dv_rctx d)" "bytes_r (dv_rctx d) = B"
    "inv_s (dv_sctx d)" "bytes_s (dv_sctx d) = B"
    using pr by (simp_all add: paired_def)
  let ?P = "places str sz (length B)"
  have z: "0 < unat sz" using a by (simp add: access_ok_def)
  have nn: "unat (ucast (st_nelems str) :: u32) = unat (st_nelems str)"
    by (rule unat_ucast_u64_u32 [OF access_nelems [OF a]])
  have lp: "length ?P * unat sz \<le> unat (st_nelems str) * unat sz"
    unfolding places_def by (intro mult_le_mono1 length_visits)
  from i_malloc_granted [OF os, of "ucast (st_nelems str)" sz "Some er"] n z fits nn obtain rb where
    rb: "i_malloc os (ucast (st_nelems str)) sz (Some er) = Some (Some rb, Some er)" "length rb = unat (st_nelems str) * unat sz"
    by auto
  let ?x = "spec_read (unat sz) ?P B"
  have lx: "length ?x = length ?P * unat sz" using places_in by (intro length_spec_read) auto
  have cb: "unat (word_of_nat (length ?P) * ucast sz :: u64) = length ?x"
    unfolding lx by (rule count_bytes [OF _ places_few [OF a]]) (use lp fits in linarith)
  have eq: "mem_equal (overwrite rb 0 ?x) (overwrite rb 0 ?x) (length ?x) = Some True"
    by (rule mem_equal_overwrite) (use lx lp rb(2) in simp_all)
  show ?thesis
    using rb ref.read_law [of "dv_rctx d" str sz rb o1 "Some er"] sut.read_law [of "dv_sctx d" str sz rb o2 "Some er"]
      p a al lp eq fresh_trace [OF er]
    by (cases d) (simp add: dvalidtr_read_def read_both_def cb free_if_def i_free_def)
qed


lemma insert_ok:
  assumes pr: "paired inv_r bytes_r inv_s bytes_s (dw_r o1) (dw_s o2) d B"
    and envs: "env_r o1" "env_s o2" and ofst: "unat ofst \<le> length B" and slen: "0 < unat slen"
    and fits: "2 * (length B + unat slen) + 1 < 4294967296"
    and os: "libc_ok os" "libc_total os" and er: "fresh er"
  shows "\<exists>d'. dvalidtr_insert os d ofst None slen (Some er) = Some (SUCCESS, d', Some er) \<and>
    paired inv_r bytes_r inv_s bytes_s (dw_r o1) (dw_s o2) d'
      (spec_insert (unat ofst) (map word_of_nat [0..<unat slen]) B)"
proof -
  have p: "dv_ref d = dw_r o1" "dv_sut d = dw_s o2" "inv_r (dv_rctx d)" "bytes_r (dv_rctx d) = B"
    "inv_s (dv_sctx d)" "bytes_s (dv_sctx d) = B"
    using pr by (simp_all add: paired_def)
  let ?src = "map word_of_nat [0..<unat slen] :: u8 list"
  let ?B = "spec_insert (unat ofst) ?src B"
  from i_malloc_granted [OF os, of slen 1 "Some er"] slen obtain sb where
    sb: "i_malloc os slen 1 (Some er) = Some (Some sb, Some er)" "length sb = unat slen" by auto
  have pt: "ptr_range sb (unat slen) = Some ?src"
    using sb(2) by (simp add: ptr_range_def overwrite_def)
  have f2: "2 * (length B + unat slen) < 4294967296" using fits by simp
  from ref.insert_law [OF envs(1) p(3), of ofst slen ?src er] p(4) ofst slen f2 obtain rc where
    rc: "dw_insert (dw_r o1) (dv_rctx d) ofst ?src slen (Some er) = Some (ret slen, rc, Some er)" "inv_r rc" "bytes_r rc = ?B"
    by auto
  from sut.insert_law [OF envs(2) p(5), of ofst slen ?src er] p(6) ofst slen f2 obtain sc where
    sc: "dw_insert (dw_s o2) (dv_sctx d) ofst ?src slen (Some er) = Some (ret slen, sc, Some er)" "inv_s sc" "bytes_s sc = ?B"
    by auto
  let ?d = "d\<lparr>dv_rctx := rc, dv_sctx := sc\<rparr>"
  have pd: "paired inv_r bytes_r inv_s bytes_s (dw_r o1) (dw_s o2) ?d ?B"
    by (rule paired_move [OF pr rc(2,3) sc(2,3)])
  let ?str = "\<lparr>st_start = ucast ofst, st_stride = 1, st_nelems = ucast slen\<rparr> :: stride"
  have lB: "length ?B = length B + unat slen" using ofst by (simp add: spec_insert_def)
  have a: "access_ok ?str 1 (length ?B)"
    using ofst fits lB by (simp add: access_ok_def unat_ucast_u32_u64)
  have rd: "dvalidtr_read os ?d ?str 1 None (Some er) = Some (SUCCESS, None, ?d, Some er)"
    by (rule read_ok [OF pd a _ _ _ os er]) (use slen in \<open>simp_all add: unat_ucast_u32_u64\<close>)
  have lv: "dvalidtr_light_validate ?d (Some er) = Some (SUCCESS, ?d, Some er)"
    by (rule light_validate_ok [OF pd]) (use lB f2 in simp)
  have "insert_both os d ofst ?src slen (Some er) = Some (?d, Some er)"
    using rc(1) sc(1) p(1,2) rd lv paired_check_valid [OF pd, of "Some er"] ret_nonneg [of slen]
    by (simp add: insert_both_def not_less [symmetric] SUCCESS_def)
  then have "dvalidtr_insert os d ofst None slen (Some er) = Some (SUCCESS, ?d, Some er)"
    using sb(1) pt fresh_trace [OF er] by (simp add: dvalidtr_insert_def i_free_def)
  then show ?thesis using pd by blast
qed

lemma write_ok:
  assumes pr: "paired inv_r bytes_r inv_s bytes_s (dw_r o1) (dw_s o2) d B"
    and a: "access_ok str sz (length B)" and al: "length B mod unat sz = 0" and n: "0 < unat (st_nelems str)"
    and fits: "unat (st_nelems str) * unat sz < 4294967296"
    and os: "libc_ok os" "libc_total os" and er: "fresh er"
  shows "\<exists>d'. dvalidtr_write os d str sz None (Some er) = Some (SUCCESS, d', Some er) \<and>
    paired inv_r bytes_r inv_s bytes_s (dw_r o1) (dw_s o2) d'
      (spec_write (unat sz) (places str sz (length B)) (map word_of_nat [0..<unat (st_nelems str) * unat sz]) B)"
proof -
  have p: "dv_ref d = dw_r o1" "dv_sut d = dw_s o2" "inv_r (dv_rctx d)" "bytes_r (dv_rctx d) = B"
    "inv_s (dv_sctx d)" "bytes_s (dv_sctx d) = B"
    using pr by (simp_all add: paired_def)
  let ?P = "places str sz (length B)"
  let ?src = "map word_of_nat [0..<unat (st_nelems str) * unat sz] :: u8 list"
  let ?B = "spec_write (unat sz) ?P ?src B"
  have z: "0 < unat sz" using a by (simp add: access_ok_def)
  have nn: "unat (ucast (st_nelems str) :: u32) = unat (st_nelems str)"
    by (rule unat_ucast_u64_u32 [OF access_nelems [OF a]])
  have lp: "length ?P * unat sz \<le> unat (st_nelems str) * unat sz"
    unfolding places_def by (intro mult_le_mono1 length_visits)
  from i_malloc_granted [OF os, of "ucast (st_nelems str)" sz "Some er"] n z fits nn obtain sb where
    sb: "i_malloc os (ucast (st_nelems str)) sz (Some er) = Some (Some sb, Some er)" "length sb = unat (st_nelems str) * unat sz"
    by auto
  have "unat (st_nelems str * ucast sz) = unat (st_nelems str) * unat sz"
    using fits by (subst u64_mult_nat) (simp_all add: unat_ucast_u32_u64)
  then have pt: "ptr_range sb (unat (st_nelems str * ucast sz)) = Some ?src"
    using sb(2) by (simp add: ptr_range_def overwrite_def)
  have room: "length ?P * unat sz \<le> length ?src" using lp by simp
  from ref.write_law [OF p(3), of str sz ?src o1 "Some er"] p(4) a al room obtain rc where
    rc: "dw_write (dw_r o1) (dv_rctx d) str sz ?src (Some er) = Some (int (length ?P), rc, Some er)" "inv_r rc" "bytes_r rc = ?B"
    by auto
  from sut.write_law [OF p(5), of str sz ?src o2 "Some er"] p(6) a al room obtain sc where
    sc: "dw_write (dw_s o2) (dv_sctx d) str sz ?src (Some er) = Some (int (length ?P), sc, Some er)" "inv_s sc" "bytes_s sc = ?B"
    by auto
  let ?d = "d\<lparr>dv_rctx := rc, dv_sctx := sc\<rparr>"
  have pd: "paired inv_r bytes_r inv_s bytes_s (dw_r o1) (dw_s o2) ?d ?B"
    by (rule paired_move [OF pr rc(2,3) sc(2,3)])
  have lB: "length ?B = length B" using places_in by simp
  have rd: "dvalidtr_read os ?d str sz None (Some er) = Some (SUCCESS, None, ?d, Some er)"
    by (rule read_ok [OF pd _ _ n fits os er]) (use a al lB in simp_all)
  have sw: "d\<lparr>dv_sctx := sc, dv_rctx := rc\<rparr> = ?d" by (cases d) simp
  have "write_both os d str sz ?src (Some er) = Some (?d, Some er)"
    using rc(1) sc(1) p(1,2) rd paired_check_valid [OF pd, of "Some er"]
    by (simp add: write_both_def SUCCESS_def sw)
  then have "dvalidtr_write os d str sz None (Some er) = Some (SUCCESS, ?d, Some er)"
    using sb(1) pt fresh_trace [OF er] by (simp add: dvalidtr_write_def free_if_def i_free_def)
  then show ?thesis using pd by blast
qed

lemma remove_ok:
  assumes pr: "paired inv_r bytes_r inv_s bytes_s (dw_r o1) (dw_s o2) d B"
    and a: "access_ok str sz (length B)" and al: "length B mod unat sz = 0" and n: "0 < unat (st_nelems str)"
    and fits: "unat (st_nelems str) * unat sz < 4294967296"
    and os: "libc_ok os" "libc_total os" and er: "fresh er"
  shows "\<exists>d'. dvalidtr_remove os d str sz None (Some er) = Some (SUCCESS, None, d', Some er) \<and>
    paired inv_r bytes_r inv_s bytes_s (dw_r o1) (dw_s o2) d'
      (spec_remove (unat sz) (places str sz (length B)) B)"
proof -
  have p: "dv_ref d = dw_r o1" "dv_sut d = dw_s o2" "inv_r (dv_rctx d)" "bytes_r (dv_rctx d) = B"
    "inv_s (dv_sctx d)" "bytes_s (dv_sctx d) = B"
    using pr by (simp_all add: paired_def)
  let ?P = "places str sz (length B)"
  let ?B = "spec_remove (unat sz) ?P B"
  have z: "0 < unat sz" using a by (simp add: access_ok_def)
  have nn: "unat (ucast (st_nelems str) :: u32) = unat (st_nelems str)"
    by (rule unat_ucast_u64_u32 [OF access_nelems [OF a]])
  have lp: "length ?P * unat sz \<le> unat (st_nelems str) * unat sz"
    unfolding places_def by (intro mult_le_mono1 length_visits)
  from i_malloc_granted [OF os, of "ucast (st_nelems str)" sz "Some er"] n z fits nn obtain rb where
    rb: "i_malloc os (ucast (st_nelems str)) sz (Some er) = Some (Some rb, Some er)" "length rb = unat (st_nelems str) * unat sz"
    by auto
  let ?x = "spec_read (unat sz) ?P B"
  have lx: "length ?x = length ?P * unat sz" using places_in by (intro length_spec_read) auto
  have cb: "unat (word_of_nat (length ?P) * ucast sz :: u64) = length ?x"
    unfolding lx by (rule count_bytes [OF _ places_few [OF a]]) (use lp fits in linarith)
  have eq: "mem_equal (overwrite rb 0 ?x) (overwrite rb 0 ?x) (length ?x) = Some True"
    by (rule mem_equal_overwrite) (use lx lp rb(2) in simp_all)
  from ref.remove_law [OF p(3), of str sz "Some rb" o1 "Some er"] p(4) a al n lp rb(2) obtain rc where
    rc: "dw_remove (dw_r o1) (dv_rctx d) str sz (Some rb) (Some er) = Some (int (length ?P), Some (overwrite rb 0 ?x), rc, Some er)"
      "inv_r rc" "bytes_r rc = ?B" by auto
  from sut.remove_law [OF p(5), of str sz "Some rb" o2 "Some er"] p(6) a al n lp rb(2) obtain sc where
    sc: "dw_remove (dw_s o2) (dv_sctx d) str sz (Some rb) (Some er) = Some (int (length ?P), Some (overwrite rb 0 ?x), sc, Some er)"
      "inv_s sc" "bytes_s sc = ?B" by auto
  let ?d = "d\<lparr>dv_rctx := rc, dv_sctx := sc\<rparr>"
  have pd: "paired inv_r bytes_r inv_s bytes_s (dw_r o1) (dw_s o2) ?d ?B"
    by (rule paired_move [OF pr rc(2,3) sc(2,3)])
  have "length ?P * unat sz + length ?B = length B"
    by (rule spec_remove_length [OF places_sorted [OF a] places_in z al])
  then have lv: "dvalidtr_light_validate ?d (Some er) = Some (SUCCESS, ?d, Some er)"
    by (intro light_validate_ok [OF pd]) (use a in \<open>simp add: access_ok_def\<close>)
  have "remove_both d str sz rb rb (Some er) = Some (overwrite rb 0 ?x, ?d, Some er)"
    using rc(1) sc(1) p(1,2) lv eq paired_check_valid [OF pd, of "Some er"]
    by (simp add: remove_both_def cb SUCCESS_def)
  then have "dvalidtr_remove os d str sz None (Some er) = Some (SUCCESS, None, ?d, Some er)"
    using rb(1) fresh_trace [OF er] by (simp add: dvalidtr_remove_def free_if_def i_free_def)
  then show ?thesis using pd by blast
qed

end

section \<open>The random test\<close>

lemma random_draws_ok:
  assumes g: "crand_ok g" and len: "L < 2147483648" and mx: "1 \<le> unat mx" "unat mx < 4294967296"
  shows "\<exists>ch str ni s'. random_draws g (int L) mx s = Some (ch, str, ni, s') \<and> 1 \<le> unat ni \<and> unat ni \<le> unat mx \<and>
    (if L = 0 then ch = C_INSERT \<and> unat (st_start str) = 0
     else unat (st_start str) < L \<and> 0 < unat (st_stride str) \<and> 0 < unat (st_nelems str) \<and>
       unat (st_nelems str) \<le> L \<and> unat (st_start str) + unat (st_nelems str) * unat (st_stride str) + 1 \<le> L + 8)"
proof -
  have um: "unat (ucast mx :: u32) = unat mx" by (rule unat_ucast_u64_u32 [OF mx(2)])
  obtain c s1 where c: "randu32r g 0 3 s = Some (c, s1)" using randu32r_range [OF g, of 0 3 s] by auto
  have one: "(1 :: u32) \<le> ucast mx" using um mx(1) by (simp add: word_le_nat_alt)
  show ?thesis
  proof (cases "L = 0")
    case True
    obtain p s3 where p: "randu32r g 1 8 s1 = Some (p, s3)" using randu32r_range [OF g, of 1 8 s1] by auto
    obtain ni s5 where ni: "randu32r g 1 (ucast mx) s3 = Some (ni, s5)" "1 \<le> ni" "ni \<le> ucast mx"
      using randu32r_range [OF g one, of s3] by auto
    have "unat ni \<le> unat mx" "1 \<le> unat ni" using ni um by (simp_all add: word_le_nat_alt)
    then show ?thesis using True c p ni by (simp add: random_draws_def Let_def)
  next
    case False
    let ?last = "word_of_nat L - 1 :: u32"
    have uL: "unat (word_of_nat L :: u32) = L" using len by (simp add: unat_of_nat)
    have ul: "unat ?last = L - 1" using uL False by simp
    obtain st s2 where st: "randu32r g 0 ?last s1 = Some (st, s2)" "st \<le> ?last"
      using randu32r_range [OF g, of 0 ?last s1] by auto
    have stL: "unat st < L" using st(2) ul False by (simp add: word_le_nat_alt)
    obtain p s3 where p: "randu32r g 1 8 s2 = Some (p, s3)" "1 \<le> p" "p \<le> 8" using randu32r_range [OF g, of 1 8 s2] by auto
    have up: "1 \<le> unat p" "unat p \<le> 8" using p(2,3) by (simp_all add: word_le_nat_alt)
    let ?q = "(L - 1 - unat st) div unat p + 1"
    let ?w = "(ucast ?last - ucast st) div ucast p + 1 :: u64"
    have "unat (ucast ?last - ucast st :: u64) = L - 1 - unat st"
      using stL ul by (subst u64_sub_nat) (simp_all add: unat_ucast_u32_u64)
    then have dv: "unat ((ucast ?last - ucast st) div ucast p :: u64) = (L - 1 - unat st) div unat p"
      by (simp add: unat_div_distrib unat_ucast_u32_u64)
    have qb: "?q \<le> L" using div_le_dividend [of "L - 1 - unat st" "unat p"] stL by linarith
    have uw: "unat ?w = ?q" using dv qb len by (subst u64_add_nat) simp_all
    have uq: "unat (ucast ?w :: u32) = ?q" unfolding uw [symmetric] by (rule unat_ucast_u64_u32) (use uw qb len in simp)
    let ?m = "ucast (min (ucast (ucast ?w :: u32)) mx) :: u32"
    have "unat (min (ucast (ucast ?w :: u32)) mx) = min ?q (unat mx)"
      using uq by (simp add: min_def word_le_nat_alt unat_ucast_u32_u64)
    then have m: "unat ?m = min ?q (unat mx)" using mx(2) by (subst unat_ucast_u64_u32) simp_all
    then have m1: "1 \<le> ?m" using mx(1) by (simp add: word_le_nat_alt)
    obtain n s4 where n: "randu32r g 1 ?m s3 = Some (n, s4)" "1 \<le> n" "n \<le> ?m" using randu32r_range [OF g m1, of s3] by auto
    have un: "1 \<le> unat n" "unat n \<le> ?q" using n(2,3) m by (simp_all add: word_le_nat_alt)
    obtain ni s5 where ni: "randu32r g 1 (ucast mx) s4 = Some (ni, s5)" "1 \<le> ni" "ni \<le> ucast mx"
      using randu32r_range [OF g one, of s4] by auto
    have uni: "unat ni \<le> unat mx" "1 \<le> unat ni" using ni um by (simp_all add: word_le_nat_alt)
    have "unat n * unat p \<le> ?q * unat p" using un(2) by (rule mult_le_mono1)
    also have "\<dots> = (L - 1 - unat st) div unat p * unat p + unat p" by simp
    also have "\<dots> \<le> (L - 1 - unat st) + 8" using up(2) div_times_less_eq_dividend [of "L - 1 - unat st" "unat p"] by linarith
    finally have b: "unat st + unat n * unat p + 1 \<le> L + 8" using stL by linarith
    have w0: "0 < (ucast ?w :: u32)" using uq by (simp add: word_less_nat_alt)
    have "random_draws g (int L) mx s = Some (choice_of c, \<lparr>st_start = ucast st, st_stride = ucast p, st_nelems = ucast n\<rparr>, ni, s5)"
      using False c st(1) p(1) n(1) ni(1) w0 by (simp add: random_draws_def Let_def)
    then show ?thesis using False uni stL up un qb b by (simp add: unat_ucast_u32_u64)
  qed
qed

lemma bound_part: "2 * (a + b) + c + 1 < n \<Longrightarrow> 2 * a + 1 < (n :: nat)"
  by presburger

lemma bound_second: "2 * (a + b) + c + 1 < n \<Longrightarrow> 2 * b + 1 < (n :: nat)"
  by presburger

lemma bound_less: "2 * (a + m) + c + 1 < n \<Longrightarrow> i \<le> m \<Longrightarrow> 2 * (a + i) + 1 < (n :: nat)"
  by presburger

lemma bound_step: "2 * (a + (m + p)) + c + 1 < n \<Longrightarrow> a' \<le> a + m \<Longrightarrow> 2 * (a' + p) + c + 1 < (n :: nat)"
  by presburger

context store_pair
begin

lemma random_op_ok:
  assumes pr: "paired inv_r bytes_r inv_s bytes_s (dw_r o1) (dw_s o2) d B"
    and envs: "env_r o1" "env_s o2" and os: "libc_ok os" "libc_total os" and er: "fresh er"
    and z: "0 < unat sz" and L: "length B = L * unat sz"
    and fits: "2 * (length B + unat mx * unat sz) + 8 * unat sz + 1 < 4294967296"
    and ni: "1 \<le> unat ni" "unat ni \<le> unat mx"
    and dr: "if L = 0 then ch = C_INSERT \<and> unat (st_start str) = 0
      else unat (st_start str) < L \<and> 0 < unat (st_stride str) \<and> 0 < unat (st_nelems str) \<and>
       unat (st_nelems str) \<le> L \<and> unat (st_start str) + unat (st_nelems str) * unat (st_stride str) + 1 \<le> L + 8"
  shows "\<exists>d' B'. random_op os d ch str ni sz (Some er) = Some (SUCCESS, d', Some er) \<and>
    paired inv_r bytes_r inv_s bytes_s (dw_r o1) (dw_s o2) d' B' \<and>
    length B' mod unat sz = 0 \<and> length B' \<le> length B + unat mx * unat sz"
proof (cases "ch = C_INSERT")
  case True
  have "unat (st_start str) \<le> L" using dr by (auto split: if_splits)
  then have sL: "unat (st_start str) * unat sz \<le> length B" unfolding L by (rule mult_le_mono1)
  let ?o = "ucast (st_start str * ucast sz) :: u32"
  have uo: "unat ?o = unat (st_start str) * unat sz" by (rule u64_mul_u32) (use sL bound_part [OF fits] in linarith)
  have le: "unat ni * unat sz \<le> unat mx * unat sz" using ni(2) by (rule mult_le_mono1)
  then have un: "unat (ni * sz) = unat ni * unat sz" using bound_second [OF fits] by (intro u32_mult_nat) linarith
  have "1 * unat sz \<le> unat ni * unat sz" using ni(1) by (rule mult_le_mono1)
  then have pos: "0 < unat (ni * sz)" using un z by linarith
  have fi: "2 * (length B + unat (ni * sz)) + 1 < 4294967296" unfolding un by (rule bound_less [OF fits le])
  have oL: "unat ?o \<le> length B" using uo sL by simp
  from insert_ok [OF pr envs oL pos fi os er] obtain d' where
    "dvalidtr_insert os d ?o None (ni * sz) (Some er) = Some (SUCCESS, d', Some er)"
    "paired inv_r bytes_r inv_s bytes_s (dw_r o1) (dw_s o2) d'
      (spec_insert (unat ?o) (map word_of_nat [0..<unat (ni * sz)]) B)" by blast
  moreover have "length (spec_insert (unat ?o) (map word_of_nat [0..<unat (ni * sz)]) B) = length B + unat ni * unat sz"
    using sL uo un by (simp add: spec_insert_def)
  moreover have "(length B + unat ni * unat sz) mod unat sz = 0" unfolding L by simp
  ultimately show ?thesis using True le by (auto simp: random_op_def)
next
  case False
  then have L0: "L \<noteq> 0" using dr by (cases "L = 0") simp_all
  then have d1: "unat (st_start str) < L" "0 < unat (st_stride str)" "0 < unat (st_nelems str)"
      "unat (st_nelems str) \<le> L" "unat (st_start str) + unat (st_nelems str) * unat (st_stride str) + 1 \<le> L + 8"
    using dr by simp_all
  have al: "length B mod unat sz = 0" unfolding L by simp
  have "(unat (st_start str) + unat (st_nelems str) * unat (st_stride str) + 1) * unat sz \<le> (L + 8) * unat sz"
    using d1(5) by (rule mult_le_mono1)
  also have "\<dots> = length B + 8 * unat sz" unfolding L by (rule add_mult_distrib)
  finally have a: "access_ok str sz (length B)" using z d1(2) fits by (simp add: access_ok_def)
  have "unat (st_nelems str) * unat sz \<le> length B" unfolding L using d1(4) by (rule mult_le_mono1)
  then have f: "unat (st_nelems str) * unat sz < 4294967296" using bound_part [OF fits] by linarith
  have rm: "length (places str sz (length B)) * unat sz + length (spec_remove (unat sz) (places str sz (length B)) B) = length B"
    by (rule spec_remove_length [OF places_sorted [OF a] places_in z al])
  then have rm_mod: "length (spec_remove (unat sz) (places str sz (length B)) B) mod unat sz = 0"
    using al by (metis mod_mult_self3)
  note acts = read_ok [OF pr a al d1(3) f os er] write_ok [OF pr a al d1(3) f os er] remove_ok [OF pr a al d1(3) f os er]
  show ?thesis
  proof (cases ch)
    case C_INSERT
    then show ?thesis using False by simp
  next
    case C_READ
    then show ?thesis using acts(1) pr al by (auto simp: random_op_def)
  next
    case C_REMOVE
    from acts(3) obtain d' where "dvalidtr_remove os d str sz None (Some er) = Some (SUCCESS, None, d', Some er)"
      "paired inv_r bytes_r inv_s bytes_s (dw_r o1) (dw_s o2) d' (spec_remove (unat sz) (places str sz (length B)) B)" by blast
    then show ?thesis using C_REMOVE rm rm_mod by (auto simp: random_op_def)
  next
    case C_WRITE
    let ?B = "spec_write (unat sz) (places str sz (length B)) (map word_of_nat [0..<unat (st_nelems str) * unat sz]) B"
    from acts(2) obtain d' where "dvalidtr_write os d str sz None (Some er) = Some (SUCCESS, d', Some er)"
      "paired inv_r bytes_r inv_s bytes_s (dw_r o1) (dw_s o2) d' ?B" by blast
    moreover have "length ?B = length B" using places_in by simp
    ultimately show ?thesis using C_WRITE al by (auto simp: random_op_def)
  qed
qed

lemma random_loop_ok:
  assumes envs: "env_r o1" "env_s o2" and os: "libc_ok os" "libc_total os" and er: "fresh er"
    and g: "crand_ok g" and z: "0 < unat sz" and mx: "1 \<le> unat mx"
  shows "paired inv_r bytes_r inv_s bytes_s (dw_r o1) (dw_s o2) d B \<Longrightarrow> length B mod unat sz = 0 \<Longrightarrow>
    2 * (length B + (n + 1) * (unat mx * unat sz)) + 8 * unat sz + 1 < 4294967296 \<Longrightarrow>
    \<exists>d' s' B'. random_loop os g n k d sz mx s (Some er) = Some (None, d', s', Some er) \<and>
      paired inv_r bytes_r inv_s bytes_s (dw_r o1) (dw_s o2) d' B' \<and>
      length B' \<le> length B + n * (unat mx * unat sz)"
proof (induction n arbitrary: k d s B)
  case 0
  then show ?case by auto
next
  case (Suc n)
  note pr = Suc.prems(1)
  let ?L = "length B div unat sz"
  have L: "length B = ?L * unat sz" using Suc.prems(2) by auto
  have "?L \<le> length B" by (rule div_le_dividend)
  then have Ls: "?L < 2147483648" using bound_part [OF Suc.prems(3)] by linarith
  have m1: "unat mx * 1 \<le> unat mx * unat sz" using z by (intro mult_le_mono2) simp
  have m2: "(Suc n + 1) * (unat mx * unat sz) = unat mx * unat sz + (n + 1) * (unat mx * unat sz)" by simp
  have fits: "2 * (length B + (unat mx * unat sz + (n + 1) * (unat mx * unat sz))) + 8 * unat sz + 1 < 4294967296"
    using Suc.prems(3) unfolding m2 .
  have f: "2 * (length B + unat mx * unat sz) + 8 * unat sz + 1 < 4294967296" using fits by presburger
  have ms: "unat mx < 4294967296" using bound_second [OF f] m1 by linarith
  have gl: "dvalidtr_getlen d (Some er) = Some (int (length B), d, Some er)"
  proof -
    have "sint (word_of_int (int (length B)) :: i32) = int (length B)"
      using bound_part [OF Suc.prems(3)] by (subst sint_small_u32) (simp_all add: unat_of_nat)
    moreover have "length B < 4294967296" using bound_part [OF Suc.prems(3)] by linarith
    ultimately show ?thesis
      using pr ref.getlen_law [of "dv_rctx d" o1 "Some er"]
      by (cases d) (simp add: dvalidtr_getlen_def paired_def)
  qed
  from random_draws_ok [OF g Ls mx ms, of s] obtain ch str ni s1 where
    dr: "random_draws g (int ?L) mx s = Some (ch, str, ni, s1)" "1 \<le> unat ni" "unat ni \<le> unat mx"
      "if ?L = 0 then ch = C_INSERT \<and> unat (st_start str) = 0
       else unat (st_start str) < ?L \<and> 0 < unat (st_stride str) \<and> 0 < unat (st_nelems str) \<and>
         unat (st_nelems str) \<le> ?L \<and> unat (st_start str) + unat (st_nelems str) * unat (st_stride str) + 1 \<le> ?L + 8"
    by blast
  from random_op_ok [OF pr envs os er z L f dr(2-4)] obtain d1 B1 where
    op: "random_op os d ch str ni sz (Some er) = Some (SUCCESS, d1, Some er)"
      "paired inv_r bytes_r inv_s bytes_s (dw_r o1) (dw_s o2) d1 B1"
      "length B1 mod unat sz = 0" "length B1 \<le> length B + unat mx * unat sz" by (elim exE conjE)
  have "2 * (length B1 + (n + 1) * (unat mx * unat sz)) + 8 * unat sz + 1 < 4294967296"
    by (rule bound_step [OF fits op(4)])
  from Suc.IH [OF op(2,3) this, of "k + 1" s1] obtain d' s' B' where
    l: "random_loop os g n (k + 1) d1 sz mx s1 (Some er) = Some (None, d', s', Some er)"
      "paired inv_r bytes_r inv_s bytes_s (dw_r o1) (dw_s o2) d' B'" "length B' \<le> length B1 + n * (unat mx * unat sz)"
    by (elim exE conjE)
  have "length B' \<le> length B + Suc n * (unat mx * unat sz)" using l(3) op(4) by simp
  moreover have "sz \<noteq> 0" using z by auto
  moreover have "int (length B) div int (unat sz) = int ?L" by (simp add: zdiv_int)
  ultimately show ?case
    using gl dr(1) op(1) l(1,2) by (intro exI [of _ d'] exI [of _ s'] exI [of _ B']) (simp add: SUCCESS_def)
qed

text \<open>A random test reports no error; only the final check of two empty stores does not return.\<close>

lemma random_test_ok:
  assumes envs: "env_r o1" "env_s o2" and os: "libc_ok os" "libc_total os" and er: "fresh er"
    and g: "crand_ok g" and z: "0 < unat sz" and mx: "1 \<le> unat mx"
    and pr: "paired inv_r bytes_r inv_s bytes_s (dw_r o1) (dw_s o2) d B" and al: "length B mod unat sz = 0"
    and fits: "2 * (length B + (unat niters + 1) * (unat mx * unat sz)) + 8 * unat sz + 1 < 4294967296"
  shows "\<exists>d' s' B'. paired inv_r bytes_r inv_s bytes_s (dw_r o1) (dw_s o2) d' B' \<and>
    random_loop os g (unat niters) 0 d sz mx s (Some er) = Some (None, d', s', Some er) \<and>
    dvalidtr_random_test os g d sz niters mx s (Some er) =
      (if B' = [] then None else Some (SUCCESS, d', s', Some er))"
proof -
  from random_loop_ok [OF envs os er g z mx pr al fits, of 0 s] obtain d' s' B' where
    l: "random_loop os g (unat niters) 0 d sz mx s (Some er) = Some (None, d', s', Some er)"
      "paired inv_r bytes_r inv_s bytes_s (dw_r o1) (dw_s o2) d' B'"
      "length B' \<le> length B + unat niters * (unat mx * unat sz)" by blast
  have m: "unat niters * (unat mx * unat sz) + unat mx * unat sz = (unat niters + 1) * (unat mx * unat sz)" by simp
  have "2 * (length B' + unat mx * unat sz) + 8 * unat sz + 1 < 4294967296"
    by (rule bound_step [OF _ l(3)]) (use fits m in simp)
  then have small: "2 * length B' + 1 < 4294967296" by (rule bound_part)
  have lv: "dvalidtr_light_validate d' (Some er) = Some (SUCCESS, d', Some er)"
    by (rule light_validate_ok [OF l(2)]) (use small in linarith)
  have "length B' < 4294967296" using small by linarith
  then have gl: "dw_getlen (dv_ref d') (dv_rctx d') (Some er) = Some (int (length B'), dv_rctx d', Some er)"
    using l(2) ref.getlen_law [of "dv_rctx d'" o1 "Some er"] by (simp add: paired_def)
  let ?str = "\<lparr>st_start = 0, st_stride = 1, st_nelems = word_of_nat (length B')\<rparr> :: stride"
  have n: "unat (word_of_nat (length B') :: u64) = length B'" using small by (simp add: unat_of_nat)
  have dd: "d'\<lparr>dv_rctx := dv_rctx d'\<rparr> = d'" by (cases d') simp
  have "dvalidtr_validate os d' (Some er) = (if B' = [] then None else Some (SUCCESS, d', Some er))"
  proof (cases "B' = []")
    case True
    then show ?thesis using lv gl dd
      by (simp add: dvalidtr_validate_def SUCCESS_def dvalidtr_read_def i_malloc_def)
  next
    case False
    have a: "access_ok ?str 1 (length B')" using small n by (simp add: access_ok_def)
    have "dvalidtr_read os d' ?str 1 None (Some er) = Some (SUCCESS, None, d', Some er)"
      by (rule read_ok [OF l(2) a _ _ _ os er]) (use False n small in simp_all)
    then show ?thesis using lv gl dd False by (simp add: dvalidtr_validate_def SUCCESS_def)
  qed
  then show ?thesis using l by (auto simp: dvalidtr_random_test_def SUCCESS_def)
qed

end

end
