(* ===== verification/Validator.thy ===== *)
theory Validator
  imports Store_pair Block_store Ext_array
begin

text \<open>
  The data validator on the implementations of the byte store contract.
\<close>

interpretation block_pair: store_pair "\<lambda>env. libc_ok (be_libc env) \<and> libc_total (be_libc env)" block_array_data_writer ba_inv ba_bytes
    "\<lambda>env. libc_ok (be_libc env) \<and> libc_total (be_libc env)" block_array_data_writer ba_inv ba_bytes "\<lambda>_. SUCCESS"
  by unfold_locales (simp add: SUCCESS_def)

interpretation ext_pair: store_pair "\<lambda>os. libc_ok os \<and> libc_total os" ext_array_data_writer ea_wf ea_bytes
    "\<lambda>os. libc_ok os \<and> libc_total os" ext_array_data_writer ea_wf ea_bytes "\<lambda>n. int (unat n)"
  by unfold_locales simp

section \<open>Properties\<close>

text \<open>
  On a heap that refuses nothing, two block arrays with the same contents, of any block sizes,
  pass every random test: whatever is drawn, no operation reports an error and the contents
  stay equal. If the operations emptied both arrays, the final check does not return: it asks
  for a buffer of no bytes, which an assertion excludes.
\<close>

theorem validator_accepts_block_arrays:
  assumes "libc_ok (be_libc o1) \<and> libc_total (be_libc o1)" and "libc_ok (be_libc o2) \<and> libc_total (be_libc o2)" and "libc_ok os" and "libc_total os" and "crand_ok g"
    and "cause_code er = SUCCESS" and "0 < unat sz" and "1 \<le> unat mx"
    and "dv_ref d = block_array_data_writer o1" and "dv_sut d = block_array_data_writer o2" and "dv_isvalid d = None"
    and "ba_inv (dv_rctx d)" and "ba_inv (dv_sctx d)" and "ba_bytes (dv_rctx d) = ba_bytes (dv_sctx d)"
    and "length (ba_bytes (dv_sctx d)) mod unat sz = 0"
    and "2 * (length (ba_bytes (dv_sctx d)) + (unat niters + 1) * (unat mx * unat sz)) + 8 * unat sz + 1 < 4294967296"
  shows "\<exists>d' s'. ba_inv (dv_rctx d') \<and> ba_inv (dv_sctx d') \<and> ba_bytes (dv_rctx d') = ba_bytes (dv_sctx d') \<and>
    random_loop os g (unat niters) 0 d sz mx s (Some er) = Some (None, d', s', Some er) \<and>
    dvalidtr_random_test os g d sz niters mx s (Some er) =
      (if ba_bytes (dv_sctx d') = [] then None else Some (SUCCESS, d', s', Some er))"
proof -
  have "paired ba_inv ba_bytes ba_inv ba_bytes (block_array_data_writer o1) (block_array_data_writer o2) d (ba_bytes (dv_sctx d))"
    using assms by (simp add: paired_def)
  from block_pair.random_test_ok [OF assms(1-4) _ assms(5,7,8) this assms(15,16), of er s] assms(6)
  show ?thesis by (fastforce simp: paired_def fresh_def)
qed

theorem validator_accepts_block_arrays_witness:
  "\<exists>d d' s'. ba_bytes (dv_sctx d) = [1, 2, 3] \<and>
    random_loop libc_ample crand_high 2 0 d 1 4 (rand_seed_with 1) (Some error_create) = Some (None, d', s', Some error_create) \<and>
    ba_bytes (dv_rctx d') = ba_bytes (dv_sctx d')"
proof -
  from block_array_three obtain r where r: "ba_inv r" "ba_bytes r = [1, 2, 3]" by blast
  let ?d = "\<lparr>dv_ref = block_array_data_writer env_ample, dv_rctx = r, dv_sut = block_array_data_writer env_ample,
    dv_sctx = r, dv_isvalid = None\<rparr>"
  have env: "libc_ok (be_libc env_ample) \<and> libc_total (be_libc env_ample)" by simp
  have e: "cause_code error_create = SUCCESS" by (simp add: error_create_def)
  have n: "unat (2 :: u32) = 2" by simp
  note t = validator_accepts_block_arrays [of env_ample env_ample libc_ample crand_high error_create 1 4 ?d 2 "rand_seed_with 1",
      OF env env libc_ok_ample libc_total_ample crand_high_ok e, unfolded n]
  have "\<exists>d' s'. ba_inv (dv_rctx d') \<and> ba_inv (dv_sctx d') \<and> ba_bytes (dv_rctx d') = ba_bytes (dv_sctx d') \<and>
    random_loop libc_ample crand_high 2 0 ?d 1 4 (rand_seed_with 1) (Some error_create) = Some (None, d', s', Some error_create) \<and>
    dvalidtr_random_test libc_ample crand_high ?d 1 2 4 (rand_seed_with 1) (Some error_create) =
      (if ba_bytes (dv_sctx d') = [] then None else Some (SUCCESS, d', s', Some error_create))"
    by (rule t) (use r in simp_all)
  then obtain d' s' where "ba_bytes (dv_rctx d') = ba_bytes (dv_sctx d')"
    "random_loop libc_ample crand_high 2 0 ?d 1 4 (rand_seed_with 1) (Some error_create) = Some (None, d', s', Some error_create)"
    by (elim exE conjE)
  moreover have "ba_bytes (dv_sctx ?d) = [1, 2, 3]" using r by simp
  ultimately show ?thesis by (intro exI conjI)
qed

lemma ext_block_insert_mismatch:
  assumes envs: "libc_ok o1 \<and> libc_total o1" "libc_ok (be_libc o2) \<and> libc_total (be_libc o2)" and os: "libc_ok os" "libc_total os"
    and d: "dv_ref d = ext_array_data_writer o1" "dv_sut d = block_array_data_writer o2"
    and inv: "ea_wf (dv_rctx d)" "ba_inv (dv_sctx d)" "ea_bytes (dv_rctx d) = B" "ba_bytes (dv_sctx d) = B"
    and ofst: "unat ofst \<le> length B" and slen: "0 < unat slen"
    and fits: "2 * (length B + unat slen) < 4294967296" and er: "cause_code er = SUCCESS"
  shows "\<exists>d' er'. dvalidtr_insert os d ofst None slen (Some er) = Some (ERR_CORRUPT, d', Some er') \<and>
    ea_bytes (dv_rctx d') = ba_bytes (dv_sctx d')"
proof -
  let ?src = "map word_of_nat [0..<unat slen] :: u8 list"
  from i_malloc_granted [OF os, of slen 1 "Some er"] slen obtain sb where
    sb: "i_malloc os slen 1 (Some er) = Some (Some sb, Some er)" "length sb = unat slen" by auto
  have pt: "ptr_range sb (unat slen) = Some ?src"
    using sb(2) by (simp add: ptr_range_def overwrite_def)
  from ea.insert_law [OF envs(1) inv(1), of ofst slen ?src er] inv(3) ofst slen fits obtain rc where
    rc: "dw_insert (ext_array_data_writer o1) (dv_rctx d) ofst ?src slen (Some er) = Some (int (unat slen), rc, Some er)"
      "ea_bytes rc = spec_insert (unat ofst) ?src B" by auto
  from ba.insert_law [OF envs(2) inv(2), of ofst slen ?src er] inv(4) ofst slen fits obtain sc where
    sc: "dw_insert (block_array_data_writer o2) (dv_sctx d) ofst ?src slen (Some er) = Some (SUCCESS, sc, Some er)"
      "ba_bytes sc = spec_insert (unat ofst) ?src B" by auto
  let ?d = "d\<lparr>dv_rctx := rc, dv_sctx := sc\<rparr>"
  let ?e = "corrupt (Some er) (''insert count mismatch: ref='' @ fmt_i64 (int (unat slen)) @ '' sut='' @ fmt_i64 SUCCESS)"
  obtain v where v: "v = int (unat slen)" "0 < v" using slen by (meson of_nat_0_less_iff)
  then have ne: "\<not> v < 0" "v \<noteq> SUCCESS" by (simp_all add: SUCCESS_def)
  have ib: "insert_both os d ofst ?src slen (Some er) = Some (?d, ?e)"
    using rc(1) sc(1) d ne unfolding v(1) [symmetric] by (simp add: insert_both_def) (simp add: SUCCESS_def)
  obtain er' where e: "?e = Some er'" "cause_code er' = ERR_CORRUPT"
    using er by (simp add: corrupt_def error_causef_fresh)
  have "error_trace ?e = Some ERR_CORRUPT" using e by simp
  then have "dvalidtr_insert os d ofst None slen (Some er) = Some (ERR_CORRUPT, ?d, ?e)"
    using sb(1) pt ib by (simp add: dvalidtr_insert_def i_free_def)
  then show ?thesis using rc(2) sc(2) e(1) by auto
qed

text \<open>
  The growable array and the block array do not pass the validator as a pair: the first
  returns the number of bytes it inserted, the second returns \<open>SUCCESS\<close>, so that a random test
  of two empty arrays stops with \<open>ERR_CORRUPT\<close> in its first iteration although both arrays
  hold the inserted bytes.
\<close>

theorem validator_rejects_ext_block_pair:
  assumes "libc_ok o1 \<and> libc_total o1" and "libc_ok (be_libc o2) \<and> libc_total (be_libc o2)" and "libc_ok os" and "libc_total os" and "crand_ok g"
    and "cause_code er = SUCCESS" and "0 < unat sz" and "1 \<le> unat mx"
    and "dv_ref d = ext_array_data_writer o1" and "dv_sut d = block_array_data_writer o2"
    and "ea_wf (dv_rctx d)" and "ba_inv (dv_sctx d)" and "ea_bytes (dv_rctx d) = []" and "ba_bytes (dv_sctx d) = []"
    and "2 * (unat mx * unat sz) < 4294967296" and "0 < unat niters"
  shows "\<exists>d' s' er'. dvalidtr_random_test os g d sz niters mx s (Some er) = Some (ERR_CORRUPT, d', s', Some er') \<and>
    ea_bytes (dv_rctx d') = ba_bytes (dv_sctx d')"
proof -
  have "unat mx * 1 \<le> unat mx * unat sz" using assms(7) by (intro mult_le_mono2) simp
  then have mx: "unat mx < 4294967296" using assms(15) by linarith
  from random_draws_ok [OF assms(5) _ assms(8) mx, of 0 s] obtain str ni s1 where
    dr: "random_draws g 0 mx s = Some (C_INSERT, str, ni, s1)" "1 \<le> unat ni" "unat ni \<le> unat mx" "unat (st_start str) = 0"
    by auto
  have le: "unat ni * unat sz \<le> unat mx * unat sz" using dr(3) by (rule mult_le_mono1)
  then have un: "unat (ni * sz) = unat ni * unat sz" using assms(15) by (intro u32_mult_nat) linarith
  have "1 * unat sz \<le> unat ni * unat sz" using dr(2) by (rule mult_le_mono1)
  then have pos: "0 < unat (ni * sz)" using un assms(7) by linarith
  have fits: "2 * (length ([] :: u8 list) + unat (ni * sz)) < 4294967296"
    unfolding un using le assms(15) by (simp only: list.size add_0)
  have "unat (ucast (st_start str * ucast sz) :: u32) = unat (st_start str) * unat sz"
    by (rule u64_mul_u32) (simp add: dr(4))
  then have o0: "unat (ucast (st_start str * ucast sz) :: u32) \<le> length ([] :: u8 list)" using dr(4) by simp
  from ext_block_insert_mismatch [OF assms(1-4,9-14) o0 pos fits assms(6)] obtain d' er' where
    i: "dvalidtr_insert os d (ucast (st_start str * ucast sz)) None (ni * sz) (Some er) = Some (ERR_CORRUPT, d', Some er')"
      "ea_bytes (dv_rctx d') = ba_bytes (dv_sctx d')" by blast
  have gl: "dvalidtr_getlen d (Some er) = Some (0, d, Some er)"
  proof -
    have "dw_getlen (ext_array_data_writer o1) (dv_rctx d) (Some er) = Some (int (length (ea_bytes (dv_rctx d))), dv_rctx d, Some er)"
      using assms(13) by (intro ea.getlen_law [OF assms(11)]) simp
    then show ?thesis unfolding assms(13) using assms(9) by (cases d) (simp add: dvalidtr_getlen_def)
  qed
  obtain n where n: "unat niters = Suc n" using assms(16) by (cases "unat niters") auto
  have sz: "sz \<noteq> 0" using assms(7) by auto
  have c: "ERR_CORRUPT \<noteq> 0" by (simp add: ERR_CORRUPT_def)
  have "random_loop os g (unat niters) 0 d sz mx s (Some er) =
    Some (Some ERR_CORRUPT, d', s1, corrupt (Some er') (random_failure 0 C_INSERT 0 str ni sz))"
    using n gl sz dr(1) i(1) c by (simp add: random_op_def)
  then have "dvalidtr_random_test os g d sz niters mx s (Some er) =
    Some (ERR_CORRUPT, d', s1, corrupt (Some er') (random_failure 0 C_INSERT 0 str ni sz))"
    by (simp add: dvalidtr_random_test_def)
  moreover obtain er2 where "corrupt (Some er') (random_failure 0 C_INSERT 0 str ni sz) = Some er2"
    by (cases "cause_code er' = SUCCESS") (simp_all add: corrupt_def error_causef_fresh)
  ultimately show ?thesis using i(2) by auto
qed

theorem validator_rejects_ext_block_pair_witness:
  "\<exists>d d' s' er'. ea_bytes (dv_rctx d) = [] \<and> ba_bytes (dv_sctx d) = [] \<and>
    dvalidtr_random_test libc_ample crand_high d 1 100 1000 (rand_seed_with 1) (Some error_create) =
      Some (ERR_CORRUPT, d', s', Some er')"
proof -
  from block_array_empty obtain r where r: "ba_inv r" "ba_bytes r = []" by blast
  let ?d = "\<lparr>dv_ref = ext_array_data_writer libc_ample, dv_rctx = ext_array_create,
    dv_sut = block_array_data_writer env_ample, dv_sctx = r, dv_isvalid = None\<rparr>"
  have e: "cause_code error_create = SUCCESS" by (simp add: error_create_def)
  have ea: "ea_wf ext_array_create" "ea_bytes ext_array_create = []"
    by (simp_all add: ext_array_create_def ea_wf_def ea_obj_def ea_bytes_def)
  have "\<exists>d' s' er'. dvalidtr_random_test libc_ample crand_high ?d 1 100 1000 (rand_seed_with 1) (Some error_create) =
      Some (ERR_CORRUPT, d', s', Some er') \<and> ea_bytes (dv_rctx d') = ba_bytes (dv_sctx d')"
    by (rule validator_rejects_ext_block_pair [of libc_ample env_ample]) (use r ea e in simp_all)
  then obtain d' s' er' where "dvalidtr_random_test libc_ample crand_high ?d 1 100 1000 (rand_seed_with 1) (Some error_create) =
      Some (ERR_CORRUPT, d', s', Some er')"
    by (elim exE conjE)
  moreover have "ea_bytes (dv_rctx ?d) = []" "ba_bytes (dv_sctx ?d) = []" using r ea by simp_all
  ultimately show ?thesis by (intro exI conjI)
qed

end
