(* ===== verification/Validator_sound.thy ===== *)
theory Validator_sound
  imports Validator
begin

text \<open>
  What the data validator certifies. The two stores are arbitrary tables of functions; the
  step relations below say what they answered to the calls of an operation, of an iteration
  and of the final check, and a random test that returns \<open>SUCCESS\<close> consists of such steps.
\<close>

section \<open>How operations report failure\<close>

text \<open>
  The protocol of the error object: an operation that returns a count leaves a fresh error
  object alone, and one that does not may leave a negative code in it; a length that comes
  with a failure is an error code, an \<^verbatim>\<open>int\<close>.
\<close>

definition failed :: "errp \<Rightarrow> bool" where
  "failed e \<longleftrightarrow> (\<exists>er. e = Some er \<and> cause_code er < 0)"

definition reported :: "error \<Rightarrow> int \<Rightarrow> errp \<Rightarrow> bool" where
  "reported er n e \<longleftrightarrow> (0 \<le> n \<longrightarrow> e = Some er) \<and> (e = Some er \<or> failed e)"

definition reports :: "error \<Rightarrow> 'c data_writer \<Rightarrow> bool" where
  "reports er W \<longleftrightarrow>
     (\<forall>c e n c'. dw_getlen W c (Some er) = Some (n, c', e) \<longrightarrow> reported er n e \<and> (failed e \<longrightarrow> - 2147483648 \<le> n)) \<and>
     (\<forall>c str sz d n d' c' e. dw_read W c str sz d (Some er) = Some (n, d', c', e) \<longrightarrow> reported er n e) \<and>
     (\<forall>c str sz s n c' e. dw_write W c str sz s (Some er) = Some (n, c', e) \<longrightarrow> reported er n e) \<and>
     (\<forall>c str sz d n d' c' e. dw_remove W c str sz d (Some er) = Some (n, d', c', e) \<longrightarrow> reported er n e) \<and>
     (\<forall>c ofst s slen n c' e. dw_insert W c ofst s slen (Some er) = Some (n, c', e) \<longrightarrow> reported er n e)"

definition protocol :: "error \<Rightarrow> ('r, 's) dvalidtr \<Rightarrow> bool" where
  "protocol er d \<longleftrightarrow> cause_code er = SUCCESS \<and> reports er (dv_ref d) \<and> reports er (dv_sut d) \<and>
     (\<forall>f c n c' e. dv_isvalid d = Some f \<longrightarrow> f c (Some er) = Some (n, c', e) \<longrightarrow> e = Some er \<or> failed e)"

section \<open>Agreement of the two stores\<close>

text \<open>
  What the two stores answer, in the order of the calls; \<open>d'\<close> has the contexts behind them.
  A buffer may hold anything before the call.
\<close>

text \<open>
  The length check passes when both lengths are the same. A negative length ends it with the
  code of the error object, so that one that comes without a failure passes as well.
\<close>

inductive lengths_pass :: "error \<Rightarrow> ('r, 's) dvalidtr \<Rightarrow> ('r, 's) dvalidtr \<Rightarrow> bool"
  for er d where
  lengths_agree: "0 \<le> n \<Longrightarrow>
     dw_getlen (dv_sut d) (dv_sctx d) (Some er) = Some (n, sc, Some er) \<Longrightarrow>
     dw_getlen (dv_ref d) (dv_rctx d) (Some er) = Some (n, rc, Some er) \<Longrightarrow>
     lengths_pass er d (d\<lparr>dv_sctx := sc, dv_rctx := rc\<rparr>)"
| sut_silent: "n < 0 \<Longrightarrow>
     dw_getlen (dv_sut d) (dv_sctx d) (Some er) = Some (n, sc, Some er) \<Longrightarrow>
     lengths_pass er d (d\<lparr>dv_sctx := sc\<rparr>)"
| ref_silent: "0 \<le> n \<Longrightarrow> m < 0 \<Longrightarrow>
     dw_getlen (dv_sut d) (dv_sctx d) (Some er) = Some (n, sc, Some er) \<Longrightarrow>
     dw_getlen (dv_ref d) (dv_rctx d) (Some er) = Some (m, rc, Some er) \<Longrightarrow>
     lengths_pass er d (d\<lparr>dv_sctx := sc, dv_rctx := rc\<rparr>)"

definition same_start :: "u8 list \<Rightarrow> u8 list \<Rightarrow> nat \<Rightarrow> bool" where
  "same_start a b k \<longleftrightarrow> k \<le> length a \<and> k \<le> length b \<and> take k a = take k b"

inductive reads_agree :: "error \<Rightarrow> stride \<Rightarrow> u32 \<Rightarrow> ('r, 's) dvalidtr \<Rightarrow> ('r, 's) dvalidtr \<Rightarrow> bool"
  for er str sz d where
  reads_agreeI: "0 \<le> n \<Longrightarrow>
     dw_read (dv_ref d) (dv_rctx d) str sz a (Some er) = Some (n, a', rc, Some er) \<Longrightarrow>
     dw_read (dv_sut d) (dv_sctx d) str sz b (Some er) = Some (n, b', sc, Some er) \<Longrightarrow>
     same_start b' a' (unat (word_of_int n * ucast sz :: u64)) \<Longrightarrow>
     reads_agree er str sz d (d\<lparr>dv_rctx := rc, dv_sctx := sc\<rparr>)"

inductive removals_agree :: "error \<Rightarrow> stride \<Rightarrow> u32 \<Rightarrow> ('r, 's) dvalidtr \<Rightarrow> ('r, 's) dvalidtr \<Rightarrow> bool"
  for er str sz d where
  removals_agreeI: "0 \<le> n \<Longrightarrow>
     dw_remove (dv_ref d) (dv_rctx d) str sz (Some a) (Some er) = Some (n, Some a', rc, Some er) \<Longrightarrow>
     dw_remove (dv_sut d) (dv_sctx d) str sz (Some b) (Some er) = Some (n, Some b', sc, Some er) \<Longrightarrow>
     same_start b' a' (unat (word_of_int n * ucast sz :: u64)) \<Longrightarrow>
     removals_agree er str sz d (d\<lparr>dv_rctx := rc, dv_sctx := sc\<rparr>)"

inductive writes_agree :: "error \<Rightarrow> stride \<Rightarrow> u32 \<Rightarrow> u8 list \<Rightarrow> ('r, 's) dvalidtr \<Rightarrow> ('r, 's) dvalidtr \<Rightarrow> bool"
  for er str sz src d where
  writes_agreeI: "0 \<le> n \<Longrightarrow>
     dw_write (dv_sut d) (dv_sctx d) str sz src (Some er) = Some (n, sc, Some er) \<Longrightarrow>
     dw_write (dv_ref d) (dv_rctx d) str sz src (Some er) = Some (n, rc, Some er) \<Longrightarrow>
     writes_agree er str sz src d (d\<lparr>dv_sctx := sc, dv_rctx := rc\<rparr>)"

inductive inserts_agree :: "error \<Rightarrow> u32 \<Rightarrow> u8 list \<Rightarrow> u32 \<Rightarrow> ('r, 's) dvalidtr \<Rightarrow> ('r, 's) dvalidtr \<Rightarrow> bool"
  for er ofst src slen d where
  inserts_agreeI: "0 \<le> n \<Longrightarrow>
     dw_insert (dv_ref d) (dv_rctx d) ofst src slen (Some er) = Some (n, rc, Some er) \<Longrightarrow>
     dw_insert (dv_sut d) (dv_sctx d) ofst src slen (Some er) = Some (n, sc, Some er) \<Longrightarrow>
     inserts_agree er ofst src slen d (d\<lparr>dv_rctx := rc, dv_sctx := sc\<rparr>)"

text \<open>An operation of the random test on which the two stores agree, checks included.\<close>

inductive op_agrees :: "error \<Rightarrow> u32 \<Rightarrow> ('r, 's) dvalidtr \<Rightarrow> stride \<Rightarrow> u32 \<Rightarrow> choice \<Rightarrow> ('r, 's) dvalidtr \<Rightarrow> bool"
  for er sz d str ninsert where
  op_read: "reads_agree er str sz d d' \<Longrightarrow> op_agrees er sz d str ninsert C_READ d'"
| op_remove: "removals_agree er str sz d d1 \<Longrightarrow> lengths_pass er d1 d2 \<Longrightarrow>
     check_valid d2 (Some er) = Some (d', Some er) \<Longrightarrow> op_agrees er sz d str ninsert C_REMOVE d'"
| op_write: "writes_agree er str sz src d d1 \<Longrightarrow> reads_agree er str sz d1 d2 \<Longrightarrow>
     check_valid d2 (Some er) = Some (d', Some er) \<Longrightarrow> op_agrees er sz d str ninsert C_WRITE d'"
| op_insert: "ofst = ucast (st_start str * ucast sz) \<Longrightarrow> slen = ninsert * sz \<Longrightarrow>
     inserts_agree er ofst src slen d d1 \<Longrightarrow>
     reads_agree er \<lparr>st_start = ucast ofst, st_stride = 1, st_nelems = ucast slen\<rparr> 1 d1 d2 \<Longrightarrow>
     lengths_pass er d2 d3 \<Longrightarrow> check_valid d3 (Some er) = Some (d', Some er) \<Longrightarrow>
     op_agrees er sz d str ninsert C_INSERT d'"

text \<open>\<open>n\<close> iterations of the random test, each with what was drawn for the length at hand.\<close>

inductive run_agrees :: "error \<Rightarrow> crand \<Rightarrow> u32 \<Rightarrow> u64 \<Rightarrow> nat \<Rightarrow> ('r, 's) dvalidtr \<Rightarrow> rng \<Rightarrow> ('r, 's) dvalidtr \<Rightarrow> rng \<Rightarrow> bool"
  for er g sz mx where
  run_done: "run_agrees er g sz mx 0 d s d s"
| run_op: "dvalidtr_getlen d (Some er) = Some (bytes, d1, Some er) \<Longrightarrow> 0 \<le> bytes \<Longrightarrow>
     random_draws g (bytes div int (unat sz)) mx s = Some (choice, str, ninsert, s1) \<Longrightarrow>
     op_agrees er sz d1 str ninsert choice d2 \<Longrightarrow> run_agrees er g sz mx n d2 s1 d' s' \<Longrightarrow>
     run_agrees er g sz mx (Suc n) d s d' s'"

text \<open>The final check: the lengths pass, and the bytes over the whole length of the reference agree.\<close>

inductive contents_pass :: "error \<Rightarrow> ('r, 's) dvalidtr \<Rightarrow> ('r, 's) dvalidtr \<Rightarrow> bool"
  for er d where
  contents_agree: "lengths_pass er d d1 \<Longrightarrow> 0 \<le> len \<Longrightarrow>
     dw_getlen (dv_ref d1) (dv_rctx d1) (Some er) = Some (len, rc, Some er) \<Longrightarrow>
     reads_agree er \<lparr>st_start = 0, st_stride = 1, st_nelems = word_of_int len\<rparr> 1 (d1\<lparr>dv_rctx := rc\<rparr>) d' \<Longrightarrow>
     contents_pass er d d'"
| contents_silent: "lengths_pass er d d1 \<Longrightarrow> len < 0 \<Longrightarrow>
     dw_getlen (dv_ref d1) (dv_rctx d1) (Some er) = Some (len, rc, Some er) \<Longrightarrow>
     contents_pass er d (d1\<lparr>dv_rctx := rc\<rparr>)"

section \<open>The operations certify agreement\<close>

lemma protocol_move [simp]: "protocol er (d\<lparr>dv_rctx := rc, dv_sctx := sc\<rparr>) = protocol er d"
  "protocol er (d\<lparr>dv_sctx := sc\<rparr>) = protocol er d" "protocol er (d\<lparr>dv_rctx := rc\<rparr>) = protocol er d"
  by (simp_all add: protocol_def)

lemma corrupt_failed: "cause_code er = SUCCESS \<Longrightarrow> failed (corrupt (Some er) m)"
  by (simp add: failed_def corrupt_def error_causef_def ERR_CORRUPT_def Let_def)

lemma corrupt_pending: "failed e \<Longrightarrow> failed (corrupt e m)"
  by (auto simp: failed_def corrupt_def error_causef_def SUCCESS_def Let_def)

lemma corrupt_trace: "failed e \<Longrightarrow> error_trace (corrupt e m) = Some k \<Longrightarrow> k < 0"
  using corrupt_pending [of e m] by (auto simp: failed_def)

lemma failed_trace: "failed e \<Longrightarrow> \<exists>c. error_trace e = Some c \<and> c < 0"
  by (auto simp: failed_def)

lemma reports_elims:
  assumes "reports er W"
  shows "dw_getlen W c (Some er) = Some (n, c', e) \<Longrightarrow> reported er n e"
    and "dw_getlen W c (Some er) = Some (n, c', e) \<Longrightarrow> failed e \<Longrightarrow> - 2147483648 \<le> n"
    and "dw_read W c str sz x (Some er) = Some (n, x', c', e) \<Longrightarrow> reported er n e"
    and "dw_write W c str sz x (Some er) = Some (n, c', e) \<Longrightarrow> reported er n e"
    and "dw_remove W c str sz y (Some er) = Some (n, y', c', e) \<Longrightarrow> reported er n e"
    and "dw_insert W c ofst x slen (Some er) = Some (n, c', e) \<Longrightarrow> reported er n e"
  by (use assms in \<open>auto simp: reports_def\<close>)

lemma light_validate_verdict:
  assumes p: "protocol er d" and run: "dvalidtr_light_validate d (Some er) = Some (c, d', e)"
  shows "c = SUCCESS \<and> e = Some er \<and> lengths_pass er d d' \<or> c < 0 \<and> failed e"
proof -
  have er: "cause_code er = SUCCESS" and rep: "reports er (dv_ref d)" "reports er (dv_sut d)"
    using p by (simp_all add: protocol_def)
  obtain n sc e1 where s: "dw_getlen (dv_sut d) (dv_sctx d) (Some er) = Some (n, sc, e1)"
    using run by (auto simp: dvalidtr_light_validate_def Option.bind_eq_Some_conv)
  note r1 = reports_elims(1) [OF rep(2) s]
  show ?thesis
  proof (cases "n < 0")
    case True
    then show ?thesis using r1 run s er sut_silent [where n = n and d = d and er = er and sc = sc] failed_trace [of e1]
      by (auto simp: dvalidtr_light_validate_def reported_def Option.bind_eq_Some_conv)
  next
    case n: False
    then have e1: "e1 = Some er" using r1 by (simp add: reported_def)
    obtain m rc e2 where r: "dw_getlen (dv_ref d) (dv_rctx d) (Some er) = Some (m, rc, e2)"
      using run s n e1 by (auto simp: dvalidtr_light_validate_def Option.bind_eq_Some_conv)
    note r2 = reports_elims(1) [OF rep(1) r]
    show ?thesis
    proof (cases "m < 0")
      case True
      have "e2 = Some er \<Longrightarrow> lengths_pass er d (d\<lparr>dv_sctx := sc, dv_rctx := rc\<rparr>)"
        by (rule ref_silent [of n m]) (use n True s r e1 in simp_all)
      then show ?thesis using True r2 run s r n e1 er failed_trace [of e2]
        by (auto simp: dvalidtr_light_validate_def reported_def Option.bind_eq_Some_conv)
    next
      case m: False
      then have e2: "e2 = Some er" using r2 by (simp add: reported_def)
      have "n = m \<Longrightarrow> lengths_pass er d (d\<lparr>dv_sctx := sc, dv_rctx := rc\<rparr>)"
        by (rule lengths_agree [of n]) (use n s r e1 e2 in simp_all)
      then show ?thesis
        using run s r n m e1 e2 corrupt_failed [OF er]
        by (cases "n = m") (auto simp: dvalidtr_light_validate_def ERR_CORRUPT_def)
    qed
  qed
qed

lemma mem_equal_start: "mem_equal a b k = Some same \<Longrightarrow> same = same_start a b k"
  by (auto simp: mem_equal_def same_start_def mem_load_def Option.bind_eq_Some_conv split: if_splits)

lemma read_both_verdict:
  assumes p: "protocol er d" and run: "read_both d str sz rf ds (Some er) = Some (ds', d', e)"
  shows "e = Some er \<and> reads_agree er str sz d d' \<or> failed e"
proof -
  have er: "cause_code er = SUCCESS" and rep: "reports er (dv_ref d)" "reports er (dv_sut d)"
    using p by (simp_all add: protocol_def)
  note bad = corrupt_failed [OF er] corrupt_pending
  obtain n rf' rc e1 where r: "dw_read (dv_ref d) (dv_rctx d) str sz rf (Some er) = Some (n, rf', rc, e1)"
    using run by (auto simp: read_both_def Option.bind_eq_Some_conv)
  show ?thesis
  proof (cases "n < 0")
    case True
    then show ?thesis using reports_elims(3) [OF rep(1) r] run r bad by (auto simp: read_both_def reported_def)
  next
    case n: False
    then have e1: "e1 = Some er" using reports_elims(3) [OF rep(1) r] by (simp add: reported_def)
    obtain m ds1 sc e2 where s: "dw_read (dv_sut d) (dv_sctx d) str sz ds (Some er) = Some (m, ds1, sc, e2)"
      using run r n e1 by (auto simp: read_both_def Option.bind_eq_Some_conv)
    show ?thesis
    proof (cases "m < 0")
      case True
      then show ?thesis using reports_elims(3) [OF rep(2) s] run r s n e1 bad by (auto simp: read_both_def reported_def)
    next
      case m: False
      then have e2: "e2 = Some er" using reports_elims(3) [OF rep(2) s] by (simp add: reported_def)
      show ?thesis
      proof (cases "n = m")
        case False
        then show ?thesis using run r s n m e1 e2 bad by (auto simp: read_both_def)
      next
        case True
        then obtain same where q: "mem_equal ds1 rf' (unat (word_of_int m * ucast sz :: u64)) = Some same"
          using run r s n e1 e2 by (auto simp: read_both_def Let_def Option.bind_eq_Some_conv)
        show ?thesis
          using run r s n m e1 e2 True q mem_equal_start [OF q] bad reads_agreeI [where n = n and d = d and er = er and str = str and sz = sz and a = rf and a' = rf' and rc = rc and b = ds and b' = ds1 and sc = sc]
          by (cases same) (auto simp: read_both_def)
      qed
    qed
  qed
qed

lemma i_malloc_refuses: "cause_code er = SUCCESS \<Longrightarrow> i_malloc os n sz (Some er) = Some (p, e) \<Longrightarrow>
  (if p = None then failed e else e = Some er)"
  by (auto simp: i_malloc_def nomem_def error_causef_def ERR_NOMEM_def failed_def Let_def
        Option.bind_eq_Some_conv split: option.splits if_splits)

lemma dvalidtr_read_verdict:
  assumes p: "protocol er d" and run: "dvalidtr_read os d str sz dest0 (Some er) = Some (c, dest, d', e)"
  shows "c = SUCCESS \<and> e = Some er \<and> reads_agree er str sz d d' \<or> c < 0 \<and> failed e"
proof -
  have er: "cause_code er = SUCCESS" using p by (simp add: protocol_def)
  obtain rf e1 where m: "i_malloc os (ucast (st_nelems str)) sz (Some er) = Some (rf, e1)"
    using run by (auto simp: dvalidtr_read_def Option.bind_eq_Some_conv)
  note m1 = i_malloc_refuses [OF er m]
  have tr: "error_trace e = Some c" using run by (auto simp: dvalidtr_read_def Option.bind_eq_Some_conv)
  have "e = Some er \<and> reads_agree er str sz d d' \<or> failed e"
  proof (cases rf)
    case None
    then show ?thesis using run m m1 by (auto simp: dvalidtr_read_def Option.bind_eq_Some_conv)
  next
    case (Some rb)
    then have e1: "e1 = Some er" using m1 by simp
    obtain dest1 e2 where b: "(case dest0 of None \<Rightarrow> i_malloc os (ucast (st_nelems str)) sz (Some er) | Some _ \<Rightarrow> Some (dest0, Some er)) = Some (dest1, e2)"
      using run m Some e1 by (auto simp: dvalidtr_read_def Option.bind_eq_Some_conv)
    have b1: "if dest1 = None then failed e2 else e2 = Some er"
      using b i_malloc_refuses [OF er] by (cases dest0) auto
    show ?thesis
    proof (cases dest1)
      case None
      then show ?thesis using run m Some e1 b b1 by (auto simp: dvalidtr_read_def Option.bind_eq_Some_conv)
    next
      case (Some ds)
      then have e2: "e2 = Some er" using b1 by simp
      obtain ds' where "read_both d str sz rb ds (Some er) = Some (ds', d', e)"
        using run m \<open>rf = Some rb\<close> e1 b Some e2 by (auto simp: dvalidtr_read_def Option.bind_eq_Some_conv)
      from read_both_verdict [OF p this] show ?thesis .
    qed
  qed
  then show ?thesis using tr er failed_trace [of e] by auto
qed

lemma agree_protocol:
  "lengths_pass er0 d d' \<Longrightarrow> protocol er d' = protocol er d"
  "reads_agree er0 str sz d d' \<Longrightarrow> protocol er d' = protocol er d"
  "removals_agree er0 str sz d d' \<Longrightarrow> protocol er d' = protocol er d"
  "writes_agree er0 str sz src d d' \<Longrightarrow> protocol er d' = protocol er d"
  "inserts_agree er0 ofst src slen d d' \<Longrightarrow> protocol er d' = protocol er d"
  by (auto elim: lengths_pass.cases reads_agree.cases removals_agree.cases writes_agree.cases inserts_agree.cases)

lemma check_valid_verdict:
  assumes "protocol er d" and "check_valid d (Some er) = Some (d', e)"
  shows "e = Some er \<and> protocol er d' \<or> failed e"
  using assms by (fastforce simp: check_valid_def protocol_def reported_def Option.bind_eq_Some_conv split: option.splits if_splits)

lemma check_valid_protocol: "check_valid d e = Some (d', e') \<Longrightarrow> protocol er d' = protocol er d"
  by (auto simp: check_valid_def Option.bind_eq_Some_conv split: option.splits)

lemma remove_both_verdict:
  assumes p: "protocol er d" and run: "remove_both d str sz rf ds (Some er) = Some (ds', d', e)"
  shows "e = Some er \<and> op_agrees er sz d str ninsert C_REMOVE d' \<or> failed e"
proof -
  have er: "cause_code er = SUCCESS" and rep: "reports er (dv_ref d)" "reports er (dv_sut d)"
    using p by (simp_all add: protocol_def)
  note bad = corrupt_failed [OF er] corrupt_pending
  obtain n rf' rc e1 where r: "dw_remove (dv_ref d) (dv_rctx d) str sz (Some rf) (Some er) = Some (n, Some rf', rc, e1)"
    using run by (auto simp: remove_both_def Option.bind_eq_Some_conv)
  note r1 = reports_elims(5) [OF rep(1) r]
  show ?thesis
  proof (cases "n < 0")
    case True
    then show ?thesis using r1 run r bad by (auto simp: remove_both_def reported_def)
  next
    case n: False
    then have e1: "e1 = Some er" using r1 by (simp add: reported_def)
    obtain m ds1 sc e2 where s: "dw_remove (dv_sut d) (dv_sctx d) str sz (Some ds) (Some er) = Some (m, Some ds1, sc, e2)"
      using run r n e1 by (auto simp: remove_both_def Option.bind_eq_Some_conv)
    note s1 = reports_elims(5) [OF rep(2) s]
    show ?thesis
    proof (cases "m < 0")
      case True
      then show ?thesis using s1 run r s n e1 bad by (auto simp: remove_both_def reported_def)
    next
      case m: False
      then have e2: "e2 = Some er" using s1 by (simp add: reported_def)
      show ?thesis
      proof (cases "n = m")
        case False
        then show ?thesis using run r s n m e1 e2 bad by (auto simp: remove_both_def)
      next
        case nm: True
        then obtain same where q: "mem_equal ds1 rf' (unat (word_of_int m * ucast sz :: u64)) = Some same"
          using run r s n e1 e2 by (auto simp: remove_both_def Let_def Option.bind_eq_Some_conv)
        let ?d = "d\<lparr>dv_rctx := rc, dv_sctx := sc\<rparr>"
        show ?thesis
        proof (cases same)
          case False
          then show ?thesis using run r s n m e1 e2 nm q bad by (auto simp: remove_both_def)
        next
          case True
          have ag: "removals_agree er str sz d ?d"
            by (rule removals_agreeI [where n = n])
              (use n r s e1 e2 nm q True mem_equal_start [OF q] in simp_all)
          obtain c d3 e3 where l: "dvalidtr_light_validate ?d (Some er) = Some (c, d3, e3)"
            using run r s n m e1 e2 nm q True by (auto simp: remove_both_def Let_def Option.bind_eq_Some_conv)
          have "protocol er ?d" using p by simp
          from light_validate_verdict [OF this l] show ?thesis
          proof
            assume bad3: "c < 0 \<and> failed e3"
            then show ?thesis using run r s n m e1 e2 nm q True l bad by (auto simp: remove_both_def)
          next
            assume ok3: "c = SUCCESS \<and> e3 = Some er \<and> lengths_pass er ?d d3"
            then have cv: "check_valid d3 (Some er) = Some (d', e)"
              using run r s n m e1 e2 nm q True l
              by (auto simp: remove_both_def SUCCESS_def Option.bind_eq_Some_conv)
            have "protocol er d3" using agree_protocol(1) [of er ?d d3 er] ok3 p by simp
            from check_valid_verdict [OF this cv] show ?thesis
              using op_remove [OF ag, of d3 d'] ok3 cv by auto
          qed
        qed
      qed
    qed
  qed
qed

lemma write_both_verdict:
  assumes p: "protocol er d" and run: "write_both os d str sz src (Some er) = Some (d', e)"
  shows "e = Some er \<and> op_agrees er sz d str ninsert C_WRITE d' \<or> failed e"
proof -
  have er: "cause_code er = SUCCESS" and rep: "reports er (dv_ref d)" "reports er (dv_sut d)"
    using p by (simp_all add: protocol_def)
  note bad = corrupt_failed [OF er] corrupt_pending
  obtain n sc e1 where s: "dw_write (dv_sut d) (dv_sctx d) str sz src (Some er) = Some (n, sc, e1)"
    using run by (auto simp: write_both_def Option.bind_eq_Some_conv)
  note s1 = reports_elims(4) [OF rep(2) s]
  show ?thesis
  proof (cases "n < 0")
    case True
    then show ?thesis using s1 run s bad by (auto simp: write_both_def reported_def)
  next
    case n: False
    then have e1: "e1 = Some er" using s1 by (simp add: reported_def)
    obtain m rc e2 where r: "dw_write (dv_ref d) (dv_rctx d) str sz src (Some er) = Some (m, rc, e2)"
      using run s n e1 by (auto simp: write_both_def Option.bind_eq_Some_conv)
    note r1 = reports_elims(4) [OF rep(1) r]
    show ?thesis
    proof (cases "m < 0 \<or> n \<noteq> m")
      case True
      then show ?thesis using r1 run r s n e1 bad by (cases "m < 0") (auto simp: write_both_def reported_def)
    next
      case False
      then have e2: "e2 = Some er" using r1 by (simp add: reported_def)
      let ?d = "d\<lparr>dv_sctx := sc, dv_rctx := rc\<rparr>"
      have ag: "writes_agree er str sz src d ?d"
        by (rule writes_agreeI [where n = n]) (use n r s e1 e2 False in simp_all)
      have p1: "protocol er ?d" using p by simp
      obtain c ds d3 e3 where l: "dvalidtr_read os ?d str sz None (Some er) = Some (c, ds, d3, e3)"
        using run r s n e1 e2 False by (auto simp: write_both_def Let_def Option.bind_eq_Some_conv)
      from dvalidtr_read_verdict [OF p1 l] show ?thesis
      proof
        assume "c < 0 \<and> failed e3"
        then show ?thesis using run r s n e1 e2 False l bad by (auto simp: write_both_def)
      next
        assume ok3: "c = SUCCESS \<and> e3 = Some er \<and> reads_agree er str sz ?d d3"
        then have cv: "check_valid d3 (Some er) = Some (d', e)"
          using run r s n e1 e2 False l by (auto simp: write_both_def SUCCESS_def Option.bind_eq_Some_conv)
        have "protocol er d3" using agree_protocol(2) [of er str sz ?d d3 er] ok3 p1 by simp
        from check_valid_verdict [OF this cv] show ?thesis
          using op_write [OF ag, of d3 d'] ok3 cv by auto
      qed
    qed
  qed
qed

lemma insert_both_verdict:
  assumes p: "protocol er d" and run: "insert_both os d ofst src slen (Some er) = Some (d', e)"
    and o: "ofst = ucast (st_start str * ucast sz)" "slen = ninsert * sz"
  shows "e = Some er \<and> op_agrees er sz d str ninsert C_INSERT d' \<or> failed e"
proof -
  have er: "cause_code er = SUCCESS" and rep: "reports er (dv_ref d)" "reports er (dv_sut d)"
    using p by (simp_all add: protocol_def)
  note bad = corrupt_failed [OF er] corrupt_pending
  obtain n rc e1 where r: "dw_insert (dv_ref d) (dv_rctx d) ofst src slen (Some er) = Some (n, rc, e1)"
    using run by (auto simp: insert_both_def Option.bind_eq_Some_conv)
  note r1 = reports_elims(6) [OF rep(1) r]
  show ?thesis
  proof (cases "n < 0")
    case True
    then show ?thesis using r1 run r bad by (auto simp: insert_both_def reported_def)
  next
    case n: False
    then have e1: "e1 = Some er" using r1 by (simp add: reported_def)
    obtain m sc e2 where s: "dw_insert (dv_sut d) (dv_sctx d) ofst src slen (Some er) = Some (m, sc, e2)"
      using run r n e1 by (auto simp: insert_both_def Option.bind_eq_Some_conv)
    note s1 = reports_elims(6) [OF rep(2) s]
    show ?thesis
    proof (cases "m < 0 \<or> n \<noteq> m")
      case True
      then show ?thesis using s1 run r s n e1 bad by (cases "m < 0") (auto simp: insert_both_def reported_def)
    next
      case False
      then have e2: "e2 = Some er" using s1 by (simp add: reported_def)
      let ?d = "d\<lparr>dv_rctx := rc, dv_sctx := sc\<rparr>"
      let ?str = "\<lparr>st_start = ucast ofst, st_stride = 1, st_nelems = ucast slen\<rparr> :: stride"
      have ag: "inserts_agree er ofst src slen d ?d"
        by (rule inserts_agreeI [where n = n]) (use n r s e1 e2 False in simp_all)
      have p1: "protocol er ?d" using p by simp
      obtain c ds d3 e3 where l: "dvalidtr_read os ?d ?str 1 None (Some er) = Some (c, ds, d3, e3)"
        using run r s n e1 e2 False by (auto simp: insert_both_def Let_def Option.bind_eq_Some_conv)
      from dvalidtr_read_verdict [OF p1 l] show ?thesis
      proof
        assume "c < 0 \<and> failed e3"
        then show ?thesis using run r s n e1 e2 False l bad by (auto simp: insert_both_def)
      next
        assume ok3: "c = SUCCESS \<and> e3 = Some er \<and> reads_agree er ?str 1 ?d d3"
        have p3: "protocol er d3" using agree_protocol(2) [of er ?str 1 ?d d3 er] ok3 p1 by simp
        obtain c4 d4 e4 where v: "dvalidtr_light_validate d3 (Some er) = Some (c4, d4, e4)"
          using run r s n e1 e2 False l ok3 by (auto simp: insert_both_def SUCCESS_def Option.bind_eq_Some_conv)
        from light_validate_verdict [OF p3 v] show ?thesis
        proof
          assume "c4 < 0 \<and> failed e4"
          then show ?thesis using run r s n e1 e2 False l ok3 v bad by (auto simp: insert_both_def SUCCESS_def)
        next
          assume ok4: "c4 = SUCCESS \<and> e4 = Some er \<and> lengths_pass er d3 d4"
          then have cv: "check_valid d4 (Some er) = Some (d', e)"
            using run r s n e1 e2 False l ok3 v by (auto simp: insert_both_def SUCCESS_def Option.bind_eq_Some_conv)
          have "protocol er d4" using agree_protocol(1) [of er d3 d4 er] ok4 p3 by simp
          from check_valid_verdict [OF this cv] show ?thesis
            using op_insert [OF o ag, of d3 d4 d'] ok3 ok4 cv by auto
        qed
      qed
    qed
  qed
qed

lemma dvalidtr_remove_verdict:
  assumes p: "protocol er d" and run: "dvalidtr_remove os d str sz dest0 (Some er) = Some (c, dest, d', e)"
  shows "c = SUCCESS \<and> e = Some er \<and> op_agrees er sz d str ninsert C_REMOVE d' \<or> c < 0 \<and> failed e"
proof -
  have er: "cause_code er = SUCCESS" using p by (simp add: protocol_def)
  obtain rf e1 where m: "i_malloc os (ucast (st_nelems str)) sz (Some er) = Some (rf, e1)"
    using run by (auto simp: dvalidtr_remove_def Option.bind_eq_Some_conv)
  note m1 = i_malloc_refuses [OF er m]
  have tr: "error_trace e = Some c" using run by (auto simp: dvalidtr_remove_def Option.bind_eq_Some_conv)
  have "e = Some er \<and> op_agrees er sz d str ninsert C_REMOVE d' \<or> failed e"
  proof (cases rf)
    case None
    then show ?thesis using run m m1 by (auto simp: dvalidtr_remove_def Option.bind_eq_Some_conv)
  next
    case (Some rb)
    then have e1: "e1 = Some er" using m1 by simp
    obtain dest1 e2 where b: "(case dest0 of None \<Rightarrow> i_malloc os (ucast (st_nelems str)) sz (Some er) | Some _ \<Rightarrow> Some (dest0, Some er)) = Some (dest1, e2)"
      using run m Some e1 by (auto simp: dvalidtr_remove_def Option.bind_eq_Some_conv)
    have b1: "if dest1 = None then failed e2 else e2 = Some er"
      using b i_malloc_refuses [OF er] by (cases dest0) auto
    show ?thesis
    proof (cases dest1)
      case None
      then show ?thesis using run m Some e1 b b1 by (auto simp: dvalidtr_remove_def Option.bind_eq_Some_conv)
    next
      case (Some ds)
      then have e2: "e2 = Some er" using b1 by simp
      obtain ds' where "remove_both d str sz rb ds (Some er) = Some (ds', d', e)"
        using run m \<open>rf = Some rb\<close> e1 b Some e2 by (auto simp: dvalidtr_remove_def Option.bind_eq_Some_conv)
      from remove_both_verdict [OF p this] show ?thesis .
    qed
  qed
  then show ?thesis using tr er failed_trace [of e] by auto
qed

lemma dvalidtr_write_verdict:
  assumes p: "protocol er d" and run: "dvalidtr_write os d str sz src0 (Some er) = Some (c, d', e)"
  shows "c = SUCCESS \<and> e = Some er \<and> op_agrees er sz d str ninsert C_WRITE d' \<or> c < 0 \<and> failed e"
proof -
  have er: "cause_code er = SUCCESS" using p by (simp add: protocol_def)
  obtain src e1 where m: "(case src0 of None \<Rightarrow> i_malloc os (ucast (st_nelems str)) sz (Some er) | Some s \<Rightarrow> Some (Some s, Some er)) = Some (src, e1)"
    using run by (auto simp: dvalidtr_write_def Option.bind_eq_Some_conv)
  have m1: "if src = None then failed e1 else e1 = Some er"
    using m i_malloc_refuses [OF er] by (cases src0) auto
  have tr: "error_trace e = Some c" using run by (auto simp: dvalidtr_write_def Option.bind_eq_Some_conv)
  have "e = Some er \<and> op_agrees er sz d str ninsert C_WRITE d' \<or> failed e"
  proof (cases src)
    case None
    then show ?thesis using run m m1 by (auto simp: dvalidtr_write_def Option.bind_eq_Some_conv)
  next
    case (Some sb)
    then obtain s' where "write_both os d str sz s' (Some er) = Some (d', e)"
      using run m m1 by (auto simp: dvalidtr_write_def Option.bind_eq_Some_conv)
    from write_both_verdict [OF p this] show ?thesis .
  qed
  then show ?thesis using tr er failed_trace [of e] by auto
qed

lemma dvalidtr_insert_verdict:
  assumes p: "protocol er d" and run: "dvalidtr_insert os d ofst src0 slen (Some er) = Some (c, d', e)"
    and o: "ofst = ucast (st_start str * ucast sz)" "slen = ninsert * sz"
  shows "c = SUCCESS \<and> e = Some er \<and> op_agrees er sz d str ninsert C_INSERT d' \<or> c < 0 \<and> failed e"
proof -
  have er: "cause_code er = SUCCESS" using p by (simp add: protocol_def)
  obtain src e1 where m: "(case src0 of None \<Rightarrow> i_malloc os slen 1 (Some er) | Some s \<Rightarrow> Some (Some s, Some er)) = Some (src, e1)"
    using run by (auto simp: dvalidtr_insert_def Option.bind_eq_Some_conv)
  have m1: "if src = None then failed e1 else e1 = Some er"
    using m i_malloc_refuses [OF er] by (cases src0) auto
  have tr: "error_trace e = Some c" using run by (auto simp: dvalidtr_insert_def Option.bind_eq_Some_conv)
  have "e = Some er \<and> op_agrees er sz d str ninsert C_INSERT d' \<or> failed e"
  proof (cases src)
    case None
    then show ?thesis using run m m1 by (auto simp: dvalidtr_insert_def Option.bind_eq_Some_conv)
  next
    case (Some sb)
    then obtain s' where "insert_both os d ofst s' slen (Some er) = Some (d', e)"
      using run m m1 by (auto simp: dvalidtr_insert_def Option.bind_eq_Some_conv)
    from insert_both_verdict [OF p this o] show ?thesis .
  qed
  then show ?thesis using tr er failed_trace [of e] by auto
qed

lemma random_op_verdict:
  assumes p: "protocol er d" and run: "random_op os d choice str ninsert sz (Some er) = Some (c, d', e)"
  shows "c = SUCCESS \<and> e = Some er \<and> op_agrees er sz d str ninsert choice d' \<or> c < 0 \<and> failed e"
proof (cases choice)
  case C_INSERT
  then show ?thesis using dvalidtr_insert_verdict [OF p _ refl refl] run by (simp add: random_op_def)
next
  case C_READ
  then show ?thesis using dvalidtr_read_verdict [OF p] run op_read [of er str sz d]
    by (fastforce simp: random_op_def Option.bind_eq_Some_conv)
next
  case C_REMOVE
  then show ?thesis using dvalidtr_remove_verdict [OF p] run
    by (fastforce simp: random_op_def Option.bind_eq_Some_conv)
next
  case C_WRITE
  then show ?thesis using dvalidtr_write_verdict [OF p] run by (simp add: random_op_def)
qed

lemma op_agrees_protocol: "op_agrees er0 sz d str ninsert choice d' \<Longrightarrow> protocol er d' = protocol er d"
  by (erule op_agrees.cases) (auto dest!: check_valid_protocol [where er = er] agree_protocol [where er = er])

text \<open>
  The length of the reference as the random test reads it: \<open>dvalidtr_getlen\<close> has the type of an
  error code, so that a length from \<open>2 ^ 31\<close> on turns negative without a failure and ends the
  test.
\<close>

definition too_long :: "error \<Rightarrow> ('r, 's) dvalidtr \<Rightarrow> ('r, 's) dvalidtr \<Rightarrow> bool" where
  "too_long er d d' \<longleftrightarrow> (\<exists>len. sint (word_of_int len :: i32) < 0 \<and>
     dw_getlen (dv_ref d) (dv_rctx d) (Some er) = Some (len, dv_rctx d', Some er) \<and> d' = d\<lparr>dv_rctx := dv_rctx d'\<rparr>)"

lemma getlen_verdict:
  assumes p: "protocol er d" and run: "dvalidtr_getlen d (Some er) = Some (b, d', e)"
  shows "protocol er d' \<and> (failed e \<and> b < 0 \<or> e = Some er \<and> (b < 0 \<longrightarrow> too_long er d d'))"
proof -
  have rep: "reports er (dv_ref d)" using p by (simp add: protocol_def)
  obtain n rc where n: "dw_getlen (dv_ref d) (dv_rctx d) (Some er) = Some (n, rc, e)"
    "b = sint (word_of_int n :: i32)" "d' = d\<lparr>dv_rctx := rc\<rparr>"
    using run by (auto simp: dvalidtr_getlen_def Option.bind_eq_Some_conv)
  have r: "reported er n e" by (rule reports_elims(1) [OF rep n(1)])
  show ?thesis
  proof (cases "failed e")
    case True
    then have n0: "n < 0" using r p by (auto simp: reported_def protocol_def failed_def SUCCESS_def)
    have "- 2147483648 \<le> n" by (rule reports_elims(2) [OF rep n(1) True])
    then have "sint (word_of_int n :: i32) = n" using n0 by (simp add: int_word_sint)
    then show ?thesis using True n0 n p by simp
  next
    case False
    then show ?thesis using r n p by (auto simp: reported_def too_long_def)
  qed
qed

lemma random_loop_verdict:
  assumes "protocol er d" and "random_loop os g n k d sz mx s (Some er) = Some (r, d', s', e)"
  shows "case r of
      None \<Rightarrow> e = Some er \<and> protocol er d' \<and> run_agrees er g sz mx n d s d' s'
    | Some c \<Rightarrow> c < 0 \<or> c = SUCCESS \<and> (\<exists>j d1. j < n \<and> run_agrees er g sz mx j d s d1 s' \<and> too_long er d1 d')"
  using assms
proof (induction n arbitrary: k d s)
  case 0
  then show ?case by (auto intro: run_done)
next
  case (Suc n)
  have er: "cause_code er = SUCCESS" using Suc.prems(1) by (simp add: protocol_def)
  obtain b d1 e1 where b: "dvalidtr_getlen d (Some er) = Some (b, d1, e1)"
    using Suc.prems(2) by (auto simp: Option.bind_eq_Some_conv)
  note v = getlen_verdict [OF Suc.prems(1) b]
  show ?case
  proof (cases "b < 0")
    case True
    obtain c where c: "r = Some c" "error_trace e1 = Some c" "d' = d1" "s' = s"
      using Suc.prems(2) b True by (auto simp: Option.bind_eq_Some_conv)
    then show ?thesis
      using v True er failed_trace [of e1] run_done [of er g sz mx d s] by auto
  next
    case False
    then have e1: "e1 = Some er" and p1: "protocol er d1" using v by auto
    obtain choice str ni s1 c d2 e2 where
      dr: "random_draws g (b div int (unat sz)) mx s = Some (choice, str, ni, s1)"
      and op: "random_op os d1 choice str ni sz (Some er) = Some (c, d2, e2)"
      and rest: "(if c \<noteq> 0 then Some (Some ERR_CORRUPT, d2, s1, corrupt e2 (random_failure k choice (b div int (unat sz)) str ni sz))
        else random_loop os g n (k + 1) d2 sz mx s1 e2) = Some (r, d', s', e)"
      using Suc.prems(2) b False e1 by (auto simp: Let_def Option.bind_eq_Some_conv ASSERT_def split: if_splits)
    from random_op_verdict [OF p1 op] show ?thesis
    proof
      assume "c < 0 \<and> failed e2"
      then show ?thesis using rest by (auto simp: ERR_CORRUPT_def)
    next
      assume ok: "c = SUCCESS \<and> e2 = Some er \<and> op_agrees er sz d1 str ni choice d2"
      then have loop: "random_loop os g n (k + 1) d2 sz mx s1 (Some er) = Some (r, d', s', e)"
        using rest by (simp add: SUCCESS_def)
      have p2: "protocol er d2" using op_agrees_protocol [of er sz d1 str ni choice d2 er] ok p1 by simp
      have step: "run_agrees er g sz mx j d2 s1 dd ss \<Longrightarrow> run_agrees er g sz mx (Suc j) d s dd ss" for j dd ss
        by (rule run_op [OF _ _ dr]) (use b e1 False ok in auto)
      from Suc.IH [OF p2 loop] show ?thesis using step
        by (cases r) (auto, metis Suc_mono)
    qed
  qed
qed

lemma dvalidtr_validate_verdict:
  assumes p: "protocol er d" and run: "dvalidtr_validate os d (Some er) = Some (c, d', e)"
  shows "c = SUCCESS \<and> e = Some er \<and> contents_pass er d d' \<or> c < 0"
proof -
  obtain c1 d1 e1 where l: "dvalidtr_light_validate d (Some er) = Some (c1, d1, e1)"
    using run by (auto simp: dvalidtr_validate_def Option.bind_eq_Some_conv)
  from light_validate_verdict [OF p l] show ?thesis
  proof
    assume "c1 < 0 \<and> failed e1"
    then show ?thesis using run l failed_trace [of e1]
      by (auto simp: dvalidtr_validate_def Option.bind_eq_Some_conv)
  next
    assume ok1: "c1 = SUCCESS \<and> e1 = Some er \<and> lengths_pass er d d1"
    have p1: "protocol er d1" using agree_protocol(1) [of er d d1 er] ok1 p by simp
    then have rep: "reports er (dv_ref d1)" by (simp add: protocol_def)
    obtain len rc e2 where g: "dw_getlen (dv_ref d1) (dv_rctx d1) (Some er) = Some (len, rc, e2)"
      using run l ok1 by (auto simp: dvalidtr_validate_def SUCCESS_def Option.bind_eq_Some_conv)
    note r = reports_elims(1) [OF rep g]
    show ?thesis
    proof (cases "len < 0")
      case True
      have pe: "protocol er d1" by (rule p1)
      then have er: "cause_code er = SUCCESS" by (simp add: protocol_def)
      have "e2 = Some er \<Longrightarrow> contents_pass er d (d1\<lparr>dv_rctx := rc\<rparr>)"
        by (rule contents_silent [of er d d1 len]) (use ok1 True g in simp_all)
      then show ?thesis using True run l ok1 g r er failed_trace [of e2]
        by (auto simp: dvalidtr_validate_def SUCCESS_def reported_def Option.bind_eq_Some_conv)
    next
      case False
      then have e2: "e2 = Some er" using r by (simp add: reported_def)
      let ?d = "d1\<lparr>dv_rctx := rc\<rparr>"
      let ?str = "\<lparr>st_start = 0, st_stride = 1, st_nelems = word_of_int len\<rparr> :: stride"
      obtain c3 ds d3 e3 where x: "dvalidtr_read os ?d ?str 1 None (Some er) = Some (c3, ds, d3, e3)"
        using run l ok1 g False e2 by (auto simp: dvalidtr_validate_def SUCCESS_def Let_def Option.bind_eq_Some_conv)
      have "protocol er ?d" using p1 by simp
      from dvalidtr_read_verdict [OF this x] show ?thesis
      proof
        assume "c3 < 0 \<and> failed e3"
        then have "c3 \<noteq> 0" and bad: "\<And>m k. error_trace (corrupt e3 m) = Some k \<Longrightarrow> k < 0"
          by (auto intro: corrupt_trace)
        then show ?thesis using run l ok1 g False e2 x
          by (auto simp: dvalidtr_validate_def SUCCESS_def Let_def Option.bind_eq_Some_conv dest: bad)
      next
        assume ok3: "c3 = SUCCESS \<and> e3 = Some er \<and> reads_agree er ?str 1 ?d d3"
        then have "c = SUCCESS \<and> e = Some er \<and> d' = d3"
          using run l ok1 g False e2 x by (auto simp: dvalidtr_validate_def SUCCESS_def)
        then show ?thesis using contents_agree [of er d d1 len rc d3] ok1 g e2 False ok3 by auto
      qed
    qed
  qed
qed

section \<open>The block array keeps the protocol\<close>

lemma slab_alloc_alloc_silent: "slab_alloc_alloc os a e = Some (Some p, a', e') \<Longrightarrow> e' = e"
  by (auto simp: slab_alloc_alloc_def slab_alloc_extend_def i_malloc_def nomem_def Let_def Option.bind_eq_Some_conv
      split: option.splits if_splits)

lemma block_alloc_empty_silent:
  assumes "block_alloc_empty env r prev e = Some (Some i, r', e')"
  shows "e' = e"
proof -
  obtain q a' e1 where q: "slab_alloc_alloc (be_libc env) (ba_alloc r) e = Some (q, a', e1)"
    using assms by (auto simp: block_alloc_empty_def Option.bind_eq_Some_conv)
  then obtain p where "q = Some p" using assms by (cases q) (auto simp: block_alloc_empty_def)
  then show ?thesis using assms q slab_alloc_alloc_silent [of "be_libc env" "ba_alloc r" e p a' e1]
    by (cases prev) (auto simp: block_alloc_empty_def)
qed

lemma append_round_silent: "append_round env r cur src off left e = Some (n, r', cur', e') \<Longrightarrow> e' = e"
  by (auto simp: append_round_def Let_def Option.bind_eq_Some_conv UNREACHABLE_def
      split: option.splits if_splits dest: block_alloc_empty_silent)

lemma write_source_silent:
  assumes "write_source env r cur src off slen e = Some y"
  shows "snd (snd y) = e"
proof (rule write_source.raw_induct [where P = "\<lambda>env r cur src off slen e y. snd (snd y) = e", OF _ assms])
  fix ws env r cur src off slen e y
  assume ih: "\<And>env r cur src off slen e y. ws env r cur src off slen e = Some y \<Longrightarrow> snd (snd y) = e"
    and run: "(if 0 < slen
      then do {
        (n, r', cur', e') \<leftarrow> append_round env r cur src off slen e;
        ASSERT (n \<le> slen);
        ws env r' cur' src (off + unat n) (slen - n) e'
      }
      else Some (r, cur, e)) = Some (y :: block_array \<times> nat \<times> errp)"
  show "snd (snd y) = e"
  proof (cases "0 < slen")
    case True
    then obtain n r1 cur1 e1 where a: "append_round env r cur src off slen e = Some (n, r1, cur1, e1)"
      "ws env r1 cur1 src (off + unat n) (slen - n) e1 = Some y"
      using run by (auto simp: Option.bind_eq_Some_conv ASSERT_def split: if_splits)
    show ?thesis using ih [OF a(2)] append_round_silent [OF a(1)] by simp
  qed (use run in auto)
qed

lemma write_tail_silent:
  assumes "write_tail env r cur tw e = Some y"
  shows "snd (snd y) = e"
proof (rule write_tail.raw_induct [where P = "\<lambda>env r cur tw e y. snd (snd y) = e", OF _ assms])
  fix wt env r cur tw e y
  assume ih: "\<And>env r cur tw e y. wt env r cur tw e = Some y \<Longrightarrow> snd (snd y) = e"
    and run: "(if tw < ba_tlen r
      then do {
        (n, r', cur', e') \<leftarrow> append_round env r cur (ba_tail r) (unat tw) (ba_tlen r - tw) e;
        wt env r' cur' (tw + n) e'
      }
      else Some (r, cur, e)) = Some (y :: block_array \<times> nat \<times> errp)"
  show "snd (snd y) = e"
  proof (cases "tw < ba_tlen r")
    case True
    then obtain n r1 cur1 e1 where
      a: "append_round env r cur (ba_tail r) (unat tw) (ba_tlen r - tw) e = Some (n, r1, cur1, e1)"
        "wt env r1 cur1 (tw + n) e1 = Some y"
      using run by (auto simp: Option.bind_eq_Some_conv)
    show ?thesis using ih [OF a(2)] append_round_silent [OF a(1)] by simp
  qed (use run in auto)
qed

lemma block_array_insert_silent:
  assumes "block_array_insert env r ofst src slen e = Some (n, r', e')"
  shows "n = SUCCESS \<and> e' = e"
proof -
  have "slen > 0" using assms by (simp add: block_array_insert_def ASSERT_def split: if_splits)
  then obtain r0 e0 cur o' r1 r2 cur2 e2 r3 cur3 e3 where
    h: "(if ba_blocks r = []
          then do {
            (nw, r', e') \<leftarrow> block_alloc_empty env r None e;
            if nw = None then UNREACHABLE else Some (r', e')
          }
          else Some (r, e)) = Some (r0, e0)"
    and w: "write_source env r1 cur src 0 slen e0 = Some (r2, cur2, e2)" "write_tail env r2 cur2 0 e2 = Some (r3, cur3, e3)"
      "n = SUCCESS" "e' = e3"
    using assms unfolding block_array_insert_def by (auto simp: Option.bind_eq_Some_conv split del: if_split)
  have "e0 = e" using h
    by (auto simp: Option.bind_eq_Some_conv UNREACHABLE_def split: if_splits dest: block_alloc_empty_silent)
  then show ?thesis using w write_source_silent [OF w(1)] write_tail_silent [OF w(2)] by simp
qed

lemma block_array_reports:
  assumes "cause_code er = SUCCESS"
  shows "reports er (block_array_data_writer env)"
proof -
  have "\<not> failed (Some er)" using assms by (simp add: failed_def SUCCESS_def)
  then show ?thesis
    by (auto simp: reports_def reported_def block_array_data_writer_def Option.bind_eq_Some_conv
        dest!: block_array_insert_silent)
qed

section \<open>Properties\<close>

text \<open>
  C4. A random test that returns \<open>SUCCESS\<close> certifies agreement, for any two tables of
  functions that follow the error protocol, whatever they do to their contexts, and for any
  heap. In every iteration, with the operation and the stride that were drawn for the length
  at hand, both stores answered with the same count, the bytes they read or removed are the
  same, and so are the bytes they read back after a write or an insertion; where the code
  compares the lengths, they passed. At the end the lengths passed once more, and a read over
  the whole length of the reference gave the same count and bytes. A length passes if both
  stores gave the same, and, as the code is written, also if one of them was negative without
  an error. There is one way to \<open>SUCCESS\<close> with iterations missing: a reference whose length
  does not fit an \<^verbatim>\<open>int\<close> ends the test as a failure would, but without an error.
\<close>

theorem validator_certifies_agreement:
  assumes "protocol er d" and "dvalidtr_random_test os g d sz niters mx s (Some er) = Some (SUCCESS, d', s', e)"
  shows "\<exists>j d1. run_agrees er g sz mx j d s d1 s' \<and>
    (j = unat niters \<and> contents_pass er d1 d' \<or> j < unat niters \<and> too_long er d1 d')"
proof -
  obtain r d1 s1 e1 where l: "random_loop os g (unat niters) 0 d sz mx s (Some er) = Some (r, d1, s1, e1)"
    using assms(2) by (auto simp: dvalidtr_random_test_def Option.bind_eq_Some_conv)
  note v = random_loop_verdict [OF assms(1) l]
  show ?thesis
  proof (cases r)
    case (Some c)
    then show ?thesis using assms(2) l v by (auto simp: dvalidtr_random_test_def SUCCESS_def)
  next
    case None
    then have ok: "e1 = Some er" "protocol er d1" "run_agrees er g sz mx (unat niters) d s d1 s1" using v by simp_all
    obtain c d2 e2 where x: "dvalidtr_validate os d1 (Some er) = Some (c, d2, e2)"
      using assms(2) l None ok(1) by (auto simp: dvalidtr_random_test_def Option.bind_eq_Some_conv)
    from dvalidtr_validate_verdict [OF ok(2) x] have "contents_pass er d1 d' \<and> s1 = s'"
      using assms(2) l None ok x by (auto simp: dvalidtr_random_test_def SUCCESS_def ERR_CORRUPT_def)
    then show ?thesis using ok(3) by blast
  qed
qed

lemma one_iteration:
  assumes "random_loop os g (unat 1) 0 d sz mx s e = Some (None, d1, s1, e1)"
  shows "dvalidtr_random_test os g d sz 1 mx s e = dvalidtr_random_test os g d1 sz 0 mx s1 e1"
  using assms by (simp add: dvalidtr_random_test_def)

lemma empty_pair_test:
  assumes d: "d = \<lparr>dv_ref = block_array_data_writer env_ample, dv_rctx = r, dv_sut = block_array_data_writer env_ample,
      dv_sctx = r, dv_isvalid = None\<rparr>" and r: "ba_inv r" "ba_bytes r = []" and er: "cause_code er = SUCCESS"
  shows "\<exists>d' s'. dvalidtr_random_test libc_ample crand_high d 1 1 4 s (Some er) = Some (SUCCESS, d', s', Some er)"
proof -
  let ?W = "block_array_data_writer env_ample"
  have env: "libc_ok (be_libc env_ample) \<and> libc_total (be_libc env_ample)" by simp
  have pr: "paired ba_inv ba_bytes ba_inv ba_bytes ?W ?W d []" using d r by (simp add: paired_def)
  have f: "fresh er" using er by (simp add: fresh_def)
  from random_draws_ok [of crand_high 0 4 s] obtain str ni s1 where
    dr: "random_draws crand_high 0 4 s = Some (C_INSERT, str, ni, s1)" "1 \<le> unat ni" "unat ni \<le> 4" "unat (st_start str) = 0"
    by auto
  have st: "st_start str = 0" using dr(4) by (simp add: unat_eq_0)
  have ins: "unat (0 :: u32) \<le> length ([] :: u8 list)" "0 < unat ni" "2 * (length ([] :: u8 list) + unat ni) + 1 < 4294967296"
    using dr(2,3) by simp_all
  from block_pair.insert_ok [OF pr env env ins libc_ok_ample libc_total_ample f] obtain d1 where
    d1: "dvalidtr_insert libc_ample d 0 None ni (Some er) = Some (SUCCESS, d1, Some er)"
      "paired ba_inv ba_bytes ba_inv ba_bytes ?W ?W d1 (spec_insert (unat (0 :: u32)) (map word_of_nat [0..<unat ni]) [])" by blast
  let ?B = "spec_insert (unat (0 :: u32)) (map word_of_nat [0..<unat ni]) [] :: u8 list"
  have B: "?B \<noteq> []" "length ?B \<le> 4" using dr(2,3) by (simp_all add: spec_insert_def)
  have "dvalidtr_getlen d (Some er) = Some (0, d, Some er)"
    using d r block_array_getlen_ok [of r] by (simp add: dvalidtr_getlen_def block_array_data_writer_def)
  then have "random_loop libc_ample crand_high (unat 1) 0 d 1 4 s (Some er) = Some (None, d1, s1, Some er)"
    using dr(1) d1(1) st by (simp add: random_op_def SUCCESS_def)
  note one = one_iteration [OF this]
  have fits: "2 * (length ?B + (unat (0 :: u32) + 1) * (unat (4 :: u64) * unat (1 :: u32))) + 8 * unat (1 :: u32) + 1 < 4294967296" using B(2) by simp
  from block_pair.random_test_ok [OF env env libc_ok_ample libc_total_ample f crand_high_ok _ _ d1(2) _ fits, of s1]
  obtain d' s' B' where "dvalidtr_random_test libc_ample crand_high d1 1 0 4 s1 (Some er) =
      (if B' = [] then None else Some (SUCCESS, d', s', Some er))"
    "random_loop libc_ample crand_high (unat 0) 0 d1 1 4 s1 (Some er) = Some (None, d', s', Some er)"
    "paired ba_inv ba_bytes ba_inv ba_bytes ?W ?W d' B'" by auto
  then have "dvalidtr_random_test libc_ample crand_high d1 1 0 4 s1 (Some er) = Some (SUCCESS, d', s', Some er)"
    using d1(2) B(1) by (auto simp: paired_def)
  then show ?thesis using one by auto
qed

theorem validator_certifies_agreement_witness:
  "\<exists>d d' s' j d1. ba_bytes (dv_rctx d) = [] \<and> ba_bytes (dv_sctx d) = [] \<and>
    dvalidtr_random_test libc_ample crand_high d 1 1 4 (rand_seed_with 1) (Some error_create) =
      Some (SUCCESS, d', s', Some error_create) \<and>
    run_agrees error_create crand_high 1 4 j d (rand_seed_with 1) d1 s' \<and>
    (j = 1 \<and> contents_pass error_create d1 d' \<or> j < 1 \<and> too_long error_create d1 d')"
proof -
  from block_array_empty obtain r where r: "ba_inv r" "ba_bytes r = []" by blast
  let ?d = "\<lparr>dv_ref = block_array_data_writer env_ample, dv_rctx = r, dv_sut = block_array_data_writer env_ample,
      dv_sctx = r, dv_isvalid = None\<rparr>"
  have er: "cause_code error_create = SUCCESS" by (simp add: error_create_def)
  from empty_pair_test [OF refl r er, of "rand_seed_with 1"] obtain d' s' where
    t: "dvalidtr_random_test libc_ample crand_high ?d 1 1 4 (rand_seed_with 1) (Some error_create) =
      Some (SUCCESS, d', s', Some error_create)" by blast
  have "protocol error_create ?d" using er block_array_reports [OF er] by (simp add: protocol_def)
  from validator_certifies_agreement [OF this t] t r show ?thesis
    by (intro exI [of _ ?d] exI [of _ d'] exI [of _ s']) simp
qed

end
