(* ===== verification/Gr_lock.thy ===== *)
theory Gr_lock
  imports Cerror "HOL-Library.Multiset"
begin

text \<open>
  The granular lock (\<^verbatim>\<open>concurrency/gr_lock.c\<close>). Every access to the lock happens under its mutex,
  so each stretch of code between two points where the mutex is given up is one function here:
  entering \<open>gr_lock\<close> until it returns or sleeps, waking up in \<open>i_cond_wait\<close> until it returns or
  sleeps again, \<open>gr_trylock\<close> and \<open>gr_unlock\<close>. A waiter is the stack frame of the thread that waits
  and is named by it; \<open>wt_signalled\<close> says that its condition variable was signalled since it fell
  asleep. The mutex and the condition variables of the operating system are parameters.
\<close>

section \<open>Modes\<close>

datatype lock_mode = LM_IS | LM_IX | LM_S | LM_SIX | LM_X

fun lock_index :: "lock_mode \<Rightarrow> nat" where
  "lock_index LM_IS = 0" | "lock_index LM_IX = 1" | "lock_index LM_S = 2" | "lock_index LM_SIX = 3"
| "lock_index LM_X = 4"

definition lock_modes :: "lock_mode list" where
  "lock_modes = [LM_IS, LM_IX, LM_S, LM_SIX, LM_X]"

definition compatible_table :: "bool list list" where
  "compatible_table =
     [[True, True, True, True, False],
      [True, True, False, False, False],
      [True, False, True, False, False],
      [True, False, False, False, False],
      [False, False, False, False, False]]"

definition compatible :: "lock_mode \<Rightarrow> lock_mode \<Rightarrow> bool" where
  "compatible m n = compatible_table ! lock_index m ! lock_index n"

definition mode_names :: "string list" where
  "mode_names = [''IS'', ''IX'', ''S'', ''SIX'', ''X'']"

text \<open>The argument is an \<open>enum\<close>, hence any number.\<close>

definition gr_lock_mode_name :: "int \<Rightarrow> string" where
  "gr_lock_mode_name mode = (if 0 \<le> mode \<and> mode < 5 then mode_names ! nat mode else ''INVALID'')"

fun get_parent_mode :: "lock_mode \<Rightarrow> lock_mode" where
  "get_parent_mode LM_IS = LM_IS" | "get_parent_mode LM_S = LM_IS"
| "get_parent_mode LM_IX = LM_IX" | "get_parent_mode LM_SIX = LM_IX" | "get_parent_mode LM_X = LM_IX"

section \<open>The lock\<close>

record waiter =
  wt_mode :: lock_mode
  wt_prev :: "nat option"
  wt_next :: "nat option"
  wt_signalled :: bool

record gr_lock =
  gl_counts :: "lock_mode \<Rightarrow> int"
  gl_head :: "nat option"
  gl_waiters :: "nat \<Rightarrow> waiter option"

definition gr_lock_init :: "(errp \<Rightarrow> err_t \<times> errp) \<Rightarrow> errp \<Rightarrow> err_t \<times> gr_lock option \<times> errp" where
  "gr_lock_init mutex_create e =
     (case mutex_create e of
        (result, e') \<Rightarrow>
          if result \<noteq> SUCCESS then (result, None, e')
          else (SUCCESS, Some \<lparr>gl_counts = (\<lambda>_. 0), gl_head = None, gl_waiters = (\<lambda>_. None)\<rparr>, e'))"

definition upd_waiter :: "gr_lock \<Rightarrow> nat \<Rightarrow> (waiter \<Rightarrow> waiter) \<Rightarrow> gr_lock option" where
  "upd_waiter l i f = do { w \<leftarrow> gl_waiters l i; Some (l\<lparr>gl_waiters := (gl_waiters l)(i \<mapsto> f w)\<rparr>) }"

text \<open>The condition variables of the waiters that are left are freed.\<close>

partial_function (option) gr_lock_destroy :: "gr_lock \<Rightarrow> gr_lock option" where
  "gr_lock_destroy l =
     (case gl_head l of
        None \<Rightarrow> Some l
      | Some i \<Rightarrow> do { w \<leftarrow> gl_waiters l i; gr_lock_destroy (l\<lparr>gl_head := wt_next w\<rparr>) })"

declare gr_lock_destroy.simps [code]

fun compatible_loop :: "(lock_mode \<Rightarrow> int) \<Rightarrow> lock_mode \<Rightarrow> lock_mode list \<Rightarrow> bool" where
  "compatible_loop counts mode [] = True"
| "compatible_loop counts mode (i # is) =
     (if counts i > 0 \<and> \<not> compatible mode i then False else compatible_loop counts mode is)"

definition is_compatible :: "gr_lock \<Rightarrow> lock_mode \<Rightarrow> bool" where
  "is_compatible l mode = compatible_loop (gl_counts l) mode lock_modes"

partial_function (option) wake_loop :: "gr_lock \<Rightarrow> nat option \<Rightarrow> gr_lock option" where
  "wake_loop l w =
     (case w of
        None \<Rightarrow> Some l
      | Some i \<Rightarrow>
          do {
            wt \<leftarrow> gl_waiters l i;
            l' \<leftarrow> (if is_compatible l (wt_mode wt) then upd_waiter l i (wt_signalled_update (\<lambda>_. True)) else Some l);
            wake_loop l' (wt_next wt)
          })"

declare wake_loop.simps [code]

definition wake_waiters :: "gr_lock \<Rightarrow> gr_lock option" where
  "wake_waiters l = wake_loop l (gl_head l)"

section \<open>The list of waiters\<close>

definition gr_lock_waiter_init :: "(errp \<Rightarrow> err_t \<times> errp) \<Rightarrow> lock_mode \<Rightarrow> errp \<Rightarrow> (err_t \<times> waiter \<times> errp) option" where
  "gr_lock_waiter_init cond_create mode e =
     (let w = \<lparr>wt_mode = mode, wt_prev = None, wt_next = None, wt_signalled = False\<rparr> in
      case cond_create e of
        (rc, e') \<Rightarrow>
          if rc \<noteq> 0 then do { c \<leftarrow> error_trace e'; Some (c, w, e') } else Some (SUCCESS, w, e'))"

partial_function (option) find_end :: "gr_lock \<Rightarrow> nat \<Rightarrow> nat option" where
  "find_end l i =
     do {
       w \<leftarrow> gl_waiters l i;
       case wt_next w of None \<Rightarrow> Some i | Some j \<Rightarrow> find_end l j
     }"

declare find_end.simps [code]

definition gr_lock_waiter_append_unsafe :: "gr_lock \<Rightarrow> nat \<Rightarrow> gr_lock option" where
  "gr_lock_waiter_append_unsafe l w =
     (case gl_head l of
        None \<Rightarrow> Some (l\<lparr>gl_head := Some w\<rparr>)
      | Some h \<Rightarrow>
          do {
            i \<leftarrow> find_end l h;
            l1 \<leftarrow> upd_waiter l i (wt_next_update (\<lambda>_. Some w));
            upd_waiter l1 w (wt_prev_update (\<lambda>_. Some i))
          })"

definition gr_lock_waiter_remove_unsafe :: "gr_lock \<Rightarrow> nat \<Rightarrow> gr_lock option" where
  "gr_lock_waiter_remove_unsafe l i =
     do {
       w \<leftarrow> gl_waiters l i;
       l1 \<leftarrow> (case wt_prev w of
                Some p \<Rightarrow> upd_waiter l p (wt_next_update (\<lambda>_. wt_next w))
              | None \<Rightarrow> do { ASSERT (gl_head l = Some i); Some (l\<lparr>gl_head := wt_next w\<rparr>) });
       case wt_next w of
         Some n \<Rightarrow> upd_waiter l1 n (wt_prev_update (\<lambda>_. wt_prev w))
       | None \<Rightarrow> Some l1
     }"

section \<open>Operations\<close>

text \<open>\<open>holder_counts[mode]++\<close>, undefined at the largest \<open>int\<close>.\<close>

definition count_up :: "gr_lock \<Rightarrow> lock_mode \<Rightarrow> gr_lock option" where
  "count_up l mode =
     (if gl_counts l mode < 2147483647
      then Some (l\<lparr>gl_counts := (gl_counts l)(mode := gl_counts l mode + 1)\<rparr>) else None)"

datatype outcome = Granted | Blocked | Failed err_t

text \<open>Thread \<open>t\<close> calls \<open>gr_lock\<close> and runs until it returns or waits.\<close>

definition gr_lock_enter ::
  "(errp \<Rightarrow> err_t \<times> errp) \<Rightarrow> nat \<Rightarrow> lock_mode \<Rightarrow> gr_lock \<Rightarrow> errp \<Rightarrow> (outcome \<times> gr_lock \<times> errp) option" where
  "gr_lock_enter cond_create t mode l e =
     (if is_compatible l mode
      then do { l' \<leftarrow> count_up l mode; Some (Granted, l', e) }
      else do {
        (rc, w, e') \<leftarrow> gr_lock_waiter_init cond_create mode e;
        if rc \<noteq> 0 then do { c \<leftarrow> error_trace e'; Some (Failed c, l, e') }
        else do {
          l' \<leftarrow> gr_lock_waiter_append_unsafe (l\<lparr>gl_waiters := (gl_waiters l)(t \<mapsto> w)\<rparr>) t;
          Some (Blocked, l', e')
        }
      })"

text \<open>\<open>i_cond_wait\<close> of thread \<open>t\<close> returns, signalled or not; its frame ends when it is granted.\<close>

definition gr_lock_wake :: "nat \<Rightarrow> gr_lock \<Rightarrow> (outcome \<times> gr_lock) option" where
  "gr_lock_wake t l =
     do {
       w \<leftarrow> gl_waiters l t;
       if is_compatible l (wt_mode w)
       then do {
         l1 \<leftarrow> gr_lock_waiter_remove_unsafe l t;
         l2 \<leftarrow> count_up (l1\<lparr>gl_waiters := (gl_waiters l1)(t := None)\<rparr>) (wt_mode w);
         Some (Granted, l2)
       }
       else do { l1 \<leftarrow> upd_waiter l t (wt_signalled_update (\<lambda>_. False)); Some (Blocked, l1) }
     }"

text \<open>\<open>got\<close> says whether the mutex was free.\<close>

definition gr_trylock :: "gr_lock \<Rightarrow> lock_mode \<Rightarrow> bool \<Rightarrow> (bool \<times> gr_lock) option" where
  "gr_trylock l mode got =
     (if \<not> got then Some (False, l)
      else if \<not> is_compatible l mode then Some (False, l)
      else do { l' \<leftarrow> count_up l mode; Some (True, l') })"

definition gr_unlock :: "gr_lock \<Rightarrow> lock_mode \<Rightarrow> gr_lock option" where
  "gr_unlock l mode =
     do {
       ASSERT (gl_counts l mode > 0);
       let l' = l\<lparr>gl_counts := (gl_counts l)(mode := gl_counts l mode - 1)\<rparr>;
       if gl_head l' \<noteq> None then wake_waiters l' else Some l'
     }"

section \<open>Threads\<close>

text \<open>
  The lock with the modes the threads hold. A thread waits in at most one call, and while it
  waits it does nothing else. Threads unlock only what they hold.
\<close>

type_synonym lock_sys = "gr_lock \<times> (nat \<times> lock_mode) multiset"

inductive gr_step :: "lock_sys \<Rightarrow> lock_sys \<Rightarrow> bool" where
  step_enter: "gl_waiters l t = None \<Longrightarrow> gr_lock_enter cc t m l e = Some (r, l', e') \<Longrightarrow>
    gr_step (l, H) (l', if r = Granted then add_mset (t, m) H else H)"
| step_wake: "gl_waiters l t = Some w \<Longrightarrow> gr_lock_wake t l = Some (r, l') \<Longrightarrow>
    gr_step (l, H) (l', if r = Granted then add_mset (t, wt_mode w) H else H)"
| step_try: "gl_waiters l t = None \<Longrightarrow> gr_trylock l m got = Some (b, l') \<Longrightarrow>
    gr_step (l, H) (l', if b then add_mset (t, m) H else H)"
| step_unlock: "gl_waiters l t = None \<Longrightarrow> (t, m) \<in># H \<Longrightarrow> gr_unlock l m = Some l' \<Longrightarrow>
    gr_step (l, H) (l', H - {#(t, m)#})"

inductive_cases gr_stepE: "gr_step s s'"

end
