(* ===== verification/Gr_lock_ok.thy ===== *)
theory Gr_lock_ok
  imports Gr_lock
begin

text \<open>
  The granular lock: the waiters form a doubly linked list, the granted modes are pairwise
  compatible, and no waiter that could be granted sleeps unsignalled.
\<close>

section \<open>Granted groups\<close>

text \<open>A group of grants under a symmetric compatibility relation.\<close>

locale grant_group =
  fixes compat :: "'m \<Rightarrow> 'm \<Rightarrow> bool"
  assumes compat_sym: "compat a b = compat b a"
begin

lemma group_add:
  assumes "\<And>a b. {#a, b#} \<subseteq># M \<Longrightarrow> compat a b" and "\<And>i. i \<in># M \<Longrightarrow> compat m i"
    and "{#a, b#} \<subseteq># add_mset m M"
  shows "compat a b"
proof (cases "a = m")
  case True
  then have "{#b#} \<subseteq># M" using assms(3) by simp
  then show ?thesis using assms(2) [of b] True by simp
next
  case a: False
  show ?thesis
  proof (cases "b = m")
    case True
    then have "{#a#} \<subseteq># M" using assms(3) by (simp add: add_mset_commute [of a b])
    then show ?thesis using assms(2) [of a] True compat_sym by simp
  next
    case False
    have "{#a, b#} - {#m#} = {#a, b#}" using a False by (simp add: diff_single_trivial)
    then have "{#a, b#} \<subseteq># M" using subset_eq_diff_conv [of "{#a, b#}" "{#m#}" M] assms(3) by simp
    then show ?thesis by (rule assms(1))
  qed
qed

lemma group_sub:
  assumes "\<And>a b. {#a, b#} \<subseteq># M \<Longrightarrow> compat a b" and "N \<subseteq># M" and "{#a, b#} \<subseteq># N"
  shows "compat a b"
  using assms by (meson subset_mset.order_trans)

end

interpretation lg: grant_group compatible
proof (unfold_locales, goal_cases)
  case (1 a b)
  then show ?case by (cases a; cases b) (simp_all add: compatible_def compatible_table_def)
qed

lemma compatible_X [simp]: "\<not> compatible LM_X m" "\<not> compatible m LM_X"
  by (cases m; simp add: compatible_def compatible_table_def)+

section \<open>Compatibility with the holders\<close>

definition modes_of :: "(nat \<times> lock_mode) multiset \<Rightarrow> lock_mode multiset" where
  "modes_of H = image_mset snd H"

definition counts_ok :: "gr_lock \<Rightarrow> (nat \<times> lock_mode) multiset \<Rightarrow> bool" where
  "counts_ok l H \<longleftrightarrow> (\<forall>m. gl_counts l m = int (count (modes_of H) m))"

definition group_ok :: "(nat \<times> lock_mode) multiset \<Rightarrow> bool" where
  "group_ok H \<longleftrightarrow> (\<forall>a b. {#a, b#} \<subseteq># modes_of H \<longrightarrow> compatible a b)"

lemma compatible_loop_iff: "compatible_loop c m is \<longleftrightarrow> (\<forall>i\<in>set is. c i > 0 \<longrightarrow> compatible m i)"
  by (induction c m "is" rule: compatible_loop.induct) auto

lemma set_lock_modes [simp]: "set lock_modes = UNIV"
proof -
  have "m \<in> set lock_modes" for m by (cases m) (simp_all add: lock_modes_def)
  then show ?thesis by blast
qed

lemma is_compatible_iff: "counts_ok l H \<Longrightarrow> is_compatible l m \<longleftrightarrow> (\<forall>i\<in>#modes_of H. compatible m i)"
  by (auto simp: is_compatible_def compatible_loop_iff counts_ok_def)

lemma count_up_ok:
  assumes "counts_ok l H" and "size H < 2147483647"
  shows "count_up l m = Some (l\<lparr>gl_counts := (gl_counts l)(m := gl_counts l m + 1)\<rparr>)"
    and "counts_ok (l\<lparr>gl_counts := (gl_counts l)(m := gl_counts l m + 1)\<rparr>) (add_mset (t, m) H)"
proof -
  have "count (modes_of H) m \<le> size (modes_of H)" by (rule count_le_size)
  then have "count (modes_of H) m < 2147483647" using assms(2) by (simp add: modes_of_def)
  then show "count_up l m = Some (l\<lparr>gl_counts := (gl_counts l)(m := gl_counts l m + 1)\<rparr>)"
    using assms(1) by (simp add: count_up_def counts_ok_def)
  show "counts_ok (l\<lparr>gl_counts := (gl_counts l)(m := gl_counts l m + 1)\<rparr>) (add_mset (t, m) H)"
    using assms(1) by (simp add: counts_ok_def modes_of_def)
qed

lemma group_ok_add:
  assumes "group_ok H" and "\<forall>i\<in>#modes_of H. compatible m i"
  shows "group_ok (add_mset (t, m) H)"
  using lg.group_add [of "modes_of H" m] assms by (auto simp: group_ok_def modes_of_def)

lemma group_ok_sub:
  assumes "group_ok H"
  shows "group_ok (H - X)"
proof -
  have "modes_of (H - X) \<subseteq># modes_of H" unfolding modes_of_def by (rule image_mset_subseteq_mono) simp
  then show ?thesis using lg.group_sub [of "modes_of H" "modes_of (H - X)"] assms by (auto simp: group_ok_def)
qed

section \<open>The list of waiters\<close>

text \<open>
  \<open>dseg W p h is q n\<close>: from \<open>h\<close> on the frames \<open>is\<close> are linked in both directions; \<open>p\<close> is in front
  of the first, \<open>q\<close> is the last and \<open>n\<close> what follows it.
\<close>

fun dseg :: "(nat \<Rightarrow> waiter option) \<Rightarrow> nat option \<Rightarrow> nat option \<Rightarrow> nat list \<Rightarrow> nat option \<Rightarrow> nat option \<Rightarrow> bool" where
  "dseg W p h [] q n \<longleftrightarrow> p = q \<and> h = n"
| "dseg W p h (i # is) q n \<longleftrightarrow>
     h = Some i \<and> (\<exists>w. W i = Some w \<and> wt_prev w = p \<and> dseg W (Some i) (wt_next w) is q n)"

lemma dseg_append: "dseg W p h (xs @ ys) q n \<longleftrightarrow> (\<exists>r m. dseg W p h xs r m \<and> dseg W r m ys q n)"
  by (induction xs arbitrary: p h) auto

lemma dseg_cong:
  assumes "\<And>i. i \<in> set xs \<Longrightarrow> map_option (\<lambda>w. (wt_prev w, wt_next w)) (W' i) = map_option (\<lambda>w. (wt_prev w, wt_next w)) (W i)"
  shows "dseg W' p h xs q n = dseg W p h xs q n"
  using assms
proof (induction xs arbitrary: p h)
  case (Cons i xs)
  have "map_option (\<lambda>w. (wt_prev w, wt_next w)) (W' i) = map_option (\<lambda>w. (wt_prev w, wt_next w)) (W i)"
    by (rule Cons.prems) simp
  then show ?case using Cons.IH [OF Cons.prems] by (cases "W i"; cases "W' i") auto
qed simp

lemma dseg_other: "i \<notin> set xs \<Longrightarrow> dseg (W(i := x)) p h xs q n = dseg W p h xs q n"
  by (rule dseg_cong) auto

text \<open>Redirecting what follows the last frame, and what precedes the first.\<close>

lemma dseg_set_next:
  assumes "dseg W p h (xs @ [a]) q n" and "a \<notin> set xs" and "W a = Some w"
  shows "q = Some a" and "dseg (W(a \<mapsto> w\<lparr>wt_next := n'\<rparr>)) p h (xs @ [a]) (Some a) n'"
  using assms by (auto simp: dseg_append dseg_other)

lemma dseg_set_prev:
  assumes "dseg W p h (b # ys) q n" and "b \<notin> set ys" and "W b = Some w"
  shows "h = Some b" and "dseg (W(b \<mapsto> w\<lparr>wt_prev := p'\<rparr>)) p' (Some b) (b # ys) q n"
  using assms by (auto simp: dseg_other)

definition waiters_ok :: "gr_lock \<Rightarrow> nat list \<Rightarrow> bool" where
  "waiters_ok l ws \<longleftrightarrow> (\<exists>q. dseg (gl_waiters l) None (gl_head l) ws q None) \<and> distinct ws \<and> set ws = dom (gl_waiters l)"

lemma waiters_okD:
  assumes "waiters_ok l ws" and "i \<in> set ws"
  shows "\<exists>w. gl_waiters l i = Some w"
  using assms by (auto simp: waiters_ok_def)

lemma find_end_ok:
  assumes "distinct (xs @ [a])"
  shows "dseg (gl_waiters l) p (Some h) (xs @ [a]) q None \<Longrightarrow> find_end l h = Some a"
  using assms
proof (induction xs arbitrary: p h)
  case Nil
  then obtain w where "gl_waiters l h = Some w" "wt_next w = None" "h = a" by auto
  then show ?case by (simp add: find_end.simps [of l])
next
  case (Cons i xs)
  then obtain w where w: "h = i" "gl_waiters l h = Some w" "dseg (gl_waiters l) (Some i) (wt_next w) (xs @ [a]) q None" by auto
  then obtain j where j: "wt_next w = Some j" by (cases xs) auto
  then have "find_end l j = Some a" using Cons.IH [of "Some i" j] w(3) Cons.prems(2) by simp
  then show ?case using w(2) j by (simp add: find_end.simps [of l h])
qed

lemma waiter_append_ok:
  assumes ok: "waiters_ok l ws" and t: "gl_waiters l t = None" and w: "wt_prev w = None" "wt_next w = None"
  shows "\<exists>l'. gr_lock_waiter_append_unsafe (l\<lparr>gl_waiters := (gl_waiters l)(t \<mapsto> w)\<rparr>) t = Some l' \<and>
    waiters_ok l' (ws @ [t]) \<and> gl_counts l' = gl_counts l \<and>
    (\<forall>i. map_option wt_mode (gl_waiters l' i) = (if i = t then Some (wt_mode w) else map_option wt_mode (gl_waiters l i))) \<and>
    (\<forall>i. map_option wt_signalled (gl_waiters l' i) = (if i = t then Some (wt_signalled w) else map_option wt_signalled (gl_waiters l i)))"
proof -
  from ok obtain q where q: "dseg (gl_waiters l) None (gl_head l) ws q None" and ds: "distinct ws" "set ws = dom (gl_waiters l)"
    by (auto simp: waiters_ok_def)
  have tn: "t \<notin> set ws" using ds(2) t by auto
  let ?l = "l\<lparr>gl_waiters := (gl_waiters l)(t \<mapsto> w)\<rparr>"
  show ?thesis
  proof (cases ws rule: rev_cases)
    case Nil
    then show ?thesis using q ds w by (auto simp: gr_lock_waiter_append_unsafe_def waiters_ok_def)
  next
    case (snoc xs a)
    then obtain h where h: "gl_head l = Some h" using q by (cases xs) auto
    obtain wa where wa: "gl_waiters l a = Some wa" using waiters_okD [OF ok, of a] snoc by auto
    have at: "a \<noteq> t" "a \<notin> set xs" "t \<notin> set xs" using tn snoc ds(1) by auto
    have d1: "dseg (gl_waiters ?l) None (Some h) (xs @ [a]) q None"
      using q snoc h at by (simp add: dseg_append dseg_other)
    have f: "find_end ?l h = Some a"
      by (rule find_end_ok [OF _ d1]) (use ds(1) snoc in simp)
    have "gl_waiters ?l a = Some wa" using wa at by simp
    from dseg_set_next(2) [OF d1 at(2) this, of "Some t"] have
      d2: "dseg ((gl_waiters ?l)(a \<mapsto> wa\<lparr>wt_next := Some t\<rparr>)) None (Some h) (xs @ [a]) (Some a) (Some t)" .
    let ?W = "(gl_waiters ?l)(a \<mapsto> wa\<lparr>wt_next := Some t\<rparr>, t \<mapsto> w\<lparr>wt_prev := Some a\<rparr>)"
    let ?l' = "l\<lparr>gl_waiters := ?W\<rparr>"
    have "dseg ?W None (Some h) (xs @ [a]) (Some a) (Some t)" using d2 at by (simp add: dseg_append dseg_other)
    then have "dseg ?W None (Some h) ((xs @ [a]) @ [t]) (Some t) None" using w unfolding dseg_append by auto
    moreover have "set (ws @ [t]) = dom ?W" using ds(2) wa t by auto
    ultimately have "waiters_ok ?l' (ws @ [t])" using snoc ds(1) tn h by (auto simp: waiters_ok_def)
    moreover have "gr_lock_waiter_append_unsafe ?l t = Some ?l'"
      using h f wa at by (simp add: gr_lock_waiter_append_unsafe_def upd_waiter_def fun_upd_twist)
    ultimately show ?thesis using wa at by auto
  qed
qed

text \<open>Two stores that agree on modes and signals.\<close>

definition same_waits :: "(nat \<Rightarrow> waiter option) \<Rightarrow> (nat \<Rightarrow> waiter option) \<Rightarrow> bool" where
  "same_waits W W' \<longleftrightarrow> (\<forall>i. map_option (\<lambda>w. (wt_mode w, wt_signalled w)) (W' i) = map_option (\<lambda>w. (wt_mode w, wt_signalled w)) (W i))"

lemma same_waits_upd:
  "W i = Some w \<Longrightarrow> wt_mode w' = wt_mode w \<Longrightarrow> wt_signalled w' = wt_signalled w \<Longrightarrow> same_waits W (W(i \<mapsto> w'))"
  by (simp add: same_waits_def)

lemma same_waits_refl [simp]: "same_waits W W"
  by (simp add: same_waits_def)

lemma same_waits_dom:
  assumes "same_waits W W'"
  shows "dom W' = dom W"
proof -
  have "W' i = None \<longleftrightarrow> W i = None" for i 
  proof -
    have "map_option (\<lambda>w. (wt_mode w, wt_signalled w)) (W' i) = map_option (\<lambda>w. (wt_mode w, wt_signalled w)) (W i)"
      using assms unfolding same_waits_def by (rule spec)
    then show ?thesis by (cases "W' i"; cases "W i") simp_all
  qed
  then show ?thesis unfolding dom_def by simp
qed

lemma unlink_left:
  assumes "dseg (gl_waiters l) None (gl_head l) xs (wt_prev w) (Some t)" and "distinct xs" and "t \<notin> set xs"
  shows "\<exists>l1. (case wt_prev w of
        Some p \<Rightarrow> upd_waiter l p (wt_next_update (\<lambda>_. n'))
      | None \<Rightarrow> do { ASSERT (gl_head l = Some t); Some (l\<lparr>gl_head := n'\<rparr>) }) = Some l1 \<and>
    dseg (gl_waiters l1) None (gl_head l1) xs (wt_prev w) n' \<and> gl_counts l1 = gl_counts l \<and>
    same_waits (gl_waiters l) (gl_waiters l1) \<and> (\<forall>i. i \<notin> set xs \<longrightarrow> gl_waiters l1 i = gl_waiters l i)"
proof (cases xs rule: rev_cases)
  case Nil
  then show ?thesis using assms by auto
next
  case (snoc as a)
  have na: "a \<notin> set as" using assms(2) snoc by simp
  obtain wa where wa: "gl_waiters l a = Some wa" using assms(1) snoc by (auto simp: dseg_append)
  note d = dseg_set_next [OF assms(1) [unfolded snoc] na wa]
  have "same_waits (gl_waiters l) ((gl_waiters l)(a \<mapsto> wa\<lparr>wt_next := n'\<rparr>))"
    by (rule same_waits_upd) (rule wa, simp_all)
  then show ?thesis using d(1) d(2) [of n'] wa snoc by (auto simp: upd_waiter_def)
qed

lemma unlink_right:
  assumes "dseg (gl_waiters l) (Some t) (wt_next w) ys q None" and "distinct ys" and "t \<notin> set ys"
  shows "\<exists>l2 q'. (case wt_next w of Some n \<Rightarrow> upd_waiter l n (wt_prev_update (\<lambda>_. p')) | None \<Rightarrow> Some l) = Some l2 \<and>
    dseg (gl_waiters l2) p' (wt_next w) ys q' None \<and> gl_counts l2 = gl_counts l \<and> gl_head l2 = gl_head l \<and>
    same_waits (gl_waiters l) (gl_waiters l2) \<and> (\<forall>i. i \<notin> set ys \<longrightarrow> gl_waiters l2 i = gl_waiters l i)"
proof (cases ys)
  case Nil
  then show ?thesis using assms by auto
next
  case (Cons b bs)
  have nb: "b \<notin> set bs" using assms(2) Cons by simp
  obtain wb where wb: "gl_waiters l b = Some wb" using assms(1) Cons by auto
  note d = dseg_set_prev [OF assms(1) [unfolded Cons] nb wb]
  have "same_waits (gl_waiters l) ((gl_waiters l)(b \<mapsto> wb\<lparr>wt_prev := p'\<rparr>))"
    by (rule same_waits_upd) (rule wb, simp_all)
  then show ?thesis using d(1) d(2) [of p'] wb Cons by (auto simp: upd_waiter_def)
qed

lemma same_waits_trans: "same_waits W W' \<Longrightarrow> same_waits W' W'' \<Longrightarrow> same_waits W W''"
  by (simp add: same_waits_def)

lemma waiter_remove_ok:
  assumes ok: "waiters_ok l (xs @ t # ys)"
  shows "\<exists>l1. gr_lock_waiter_remove_unsafe l t = Some l1 \<and> same_waits (gl_waiters l) (gl_waiters l1) \<and>
    gl_counts l1 = gl_counts l \<and> waiters_ok (l1\<lparr>gl_waiters := (gl_waiters l1)(t := None)\<rparr>) (xs @ ys)"
proof -
  from ok obtain q where q: "dseg (gl_waiters l) None (gl_head l) (xs @ t # ys) q None"
    and ds: "distinct (xs @ t # ys)" "set (xs @ t # ys) = dom (gl_waiters l)"
    by (auto simp: waiters_ok_def)
  then obtain w where w: "gl_waiters l t = Some w" "dseg (gl_waiters l) None (gl_head l) xs (wt_prev w) (Some t)"
    "dseg (gl_waiters l) (Some t) (wt_next w) ys q None" by (auto simp: dseg_append)
  have n: "t \<notin> set xs" "t \<notin> set ys" "distinct xs" "distinct ys" "set xs \<inter> set ys = {}" using ds(1) by auto
  from unlink_left [OF w(2) n(3,1), of "wt_next w"] obtain l1 where
    l1: "(case wt_prev w of
        Some p \<Rightarrow> upd_waiter l p (wt_next_update (\<lambda>_. wt_next w))
      | None \<Rightarrow> do { ASSERT (gl_head l = Some t); Some (l\<lparr>gl_head := wt_next w\<rparr>) }) = Some l1"
      "dseg (gl_waiters l1) None (gl_head l1) xs (wt_prev w) (wt_next w)" "gl_counts l1 = gl_counts l"
      "same_waits (gl_waiters l) (gl_waiters l1)" "\<forall>i. i \<notin> set xs \<longrightarrow> gl_waiters l1 i = gl_waiters l i" by blast
  have "dseg (gl_waiters l1) (Some t) (wt_next w) ys q None = dseg (gl_waiters l) (Some t) (wt_next w) ys q None"
    by (rule dseg_cong) (use l1(5) n(5) in auto)
  then have "dseg (gl_waiters l1) (Some t) (wt_next w) ys q None" using w(3) by simp
  from unlink_right [OF this n(4,2), of "wt_prev w"] obtain l2 q' where
    l2: "(case wt_next w of Some n \<Rightarrow> upd_waiter l1 n (wt_prev_update (\<lambda>_. wt_prev w)) | None \<Rightarrow> Some l1) = Some l2"
      "dseg (gl_waiters l2) (wt_prev w) (wt_next w) ys q' None" "gl_counts l2 = gl_counts l1" "gl_head l2 = gl_head l1"
      "same_waits (gl_waiters l1) (gl_waiters l2)" "\<forall>i. i \<notin> set ys \<longrightarrow> gl_waiters l2 i = gl_waiters l1 i" by blast
  have run: "gr_lock_waiter_remove_unsafe l t = Some l2"
    unfolding gr_lock_waiter_remove_unsafe_def w(1) Option.bind.bind_lunit l1(1) l2(1) ..
  have "dseg (gl_waiters l2) None (gl_head l1) xs (wt_prev w) (wt_next w) = dseg (gl_waiters l1) None (gl_head l1) xs (wt_prev w) (wt_next w)"
    by (rule dseg_cong) (use l2(6) n(5) in auto)
  then have "dseg (gl_waiters l2) None (gl_head l2) xs (wt_prev w) (wt_next w)" using l1(2) l2(4) by simp
  then have "dseg (gl_waiters l2) None (gl_head l2) (xs @ ys) q' None" using l2(2) unfolding dseg_append by blast
  then have d: "dseg ((gl_waiters l2)(t := None)) None (gl_head l2) (xs @ ys) q' None" using n by (simp add: dseg_other)
  have s: "same_waits (gl_waiters l) (gl_waiters l2)" by (rule same_waits_trans [OF l1(4) l2(5)])
  have "set (xs @ ys) = dom ((gl_waiters l2)(t := None))" using same_waits_dom [OF s] ds n by auto
  then have "waiters_ok (l2\<lparr>gl_waiters := (gl_waiters l2)(t := None)\<rparr>) (xs @ ys)"
    using d n by (auto simp: waiters_ok_def)
  then show ?thesis using run s l1(3) l2(3) by auto
qed

section \<open>Waking\<close>

definition wake_one :: "gr_lock \<Rightarrow> waiter \<Rightarrow> waiter" where
  "wake_one l w = (if is_compatible l (wt_mode w) then w\<lparr>wt_signalled := True\<rparr> else w)"

lemma is_compatible_cong: "gl_counts l' = gl_counts l \<Longrightarrow> is_compatible l' m = is_compatible l m"
  by (simp add: is_compatible_def)

lemma wake_loop_ok:
  "dseg (gl_waiters l) p h ws q None \<Longrightarrow> distinct ws \<Longrightarrow>
   wake_loop l h = Some (l\<lparr>gl_waiters := (\<lambda>i. if i \<in> set ws then map_option (wake_one l) (gl_waiters l i) else gl_waiters l i)\<rparr>)"
proof (induction ws arbitrary: l p h)
  case Nil
  then show ?case by (simp add: wake_loop.simps)
next
  case (Cons i ws)
  then obtain w where w: "h = Some i" "gl_waiters l i = Some w" "dseg (gl_waiters l) (Some i) (wt_next w) ws q None" by auto
  have i: "i \<notin> set ws" "distinct ws" using Cons.prems(2) by auto
  let ?l = "l\<lparr>gl_waiters := (gl_waiters l)(i \<mapsto> wake_one l w)\<rparr>"
  have step: "(if is_compatible l (wt_mode w) then upd_waiter l i (wt_signalled_update (\<lambda>_. True)) else Some l) = Some ?l"
    using w(2) by (auto simp: upd_waiter_def wake_one_def fun_upd_idem)
  have "dseg (gl_waiters ?l) (Some i) (wt_next w) ws q None" using w(3) i by (simp add: dseg_other)
  note ih = Cons.IH [OF this i(2)]
  have one: "wake_one ?l = wake_one l" by (rule ext) (simp add: wake_one_def is_compatible_def)
  have "(\<lambda>j. if j \<in> set ws then map_option (wake_one ?l) (gl_waiters ?l j) else gl_waiters ?l j) =
      (\<lambda>j. if j \<in> set (i # ws) then map_option (wake_one l) (gl_waiters l j) else gl_waiters l j)"
    unfolding one by (rule ext) (use i w(2) in auto)
  then have "wake_loop ?l (wt_next w) =
      Some (l\<lparr>gl_waiters := (\<lambda>j. if j \<in> set (i # ws) then map_option (wake_one l) (gl_waiters l j) else gl_waiters l j)\<rparr>)"
    unfolding ih by simp
  moreover have "wake_loop l h = wake_loop ?l (wt_next w)"
    using w(1,2) step by (subst wake_loop.simps) simp
  ultimately show ?case by simp
qed

lemma wake_waiters_ok:
  assumes "waiters_ok l ws"
  shows "wake_waiters l = Some (l\<lparr>gl_waiters := (\<lambda>i. map_option (wake_one l) (gl_waiters l i))\<rparr>)"
    and "waiters_ok (l\<lparr>gl_waiters := (\<lambda>i. map_option (wake_one l) (gl_waiters l i))\<rparr>) ws"
proof -
  from assms obtain q where q: "dseg (gl_waiters l) None (gl_head l) ws q None" and ds: "distinct ws" "set ws = dom (gl_waiters l)"
    by (auto simp: waiters_ok_def)
  have e: "(\<lambda>i. if i \<in> set ws then map_option (wake_one l) (gl_waiters l i) else gl_waiters l i) = (\<lambda>i. map_option (wake_one l) (gl_waiters l i))"
    using ds(2) by (auto simp: fun_eq_iff domIff)
  show "wake_waiters l = Some (l\<lparr>gl_waiters := (\<lambda>i. map_option (wake_one l) (gl_waiters l i))\<rparr>)"
    unfolding wake_waiters_def wake_loop_ok [OF q ds(1)] e ..
  have "dseg (\<lambda>i. map_option (wake_one l) (gl_waiters l i)) None (gl_head l) ws q None = dseg (gl_waiters l) None (gl_head l) ws q None"
    by (rule dseg_cong) (auto simp: option.map_comp comp_def wake_one_def intro: option.map_cong)
  then show "waiters_ok (l\<lparr>gl_waiters := (\<lambda>i. map_option (wake_one l) (gl_waiters l i))\<rparr>) ws"
    using q ds by (auto simp: waiters_ok_def dom_def)
qed

section \<open>The invariant\<close>

definition no_lost_wakeup :: "gr_lock \<Rightarrow> bool" where
  "no_lost_wakeup l \<longleftrightarrow>
     (\<forall>i w. gl_waiters l i = Some w \<longrightarrow> is_compatible l (wt_mode w) \<longrightarrow> wt_signalled w)"

definition lock_inv :: "lock_sys \<Rightarrow> bool" where
  "lock_inv s \<longleftrightarrow> (case s of (l, H) \<Rightarrow>
     counts_ok l H \<and> group_ok H \<and> (\<exists>ws. waiters_ok l ws) \<and> no_lost_wakeup l)"

lemma lock_invI:
  "counts_ok l H \<Longrightarrow> group_ok H \<Longrightarrow> waiters_ok l ws \<Longrightarrow> no_lost_wakeup l \<Longrightarrow> lock_inv (l, H)"
  by (auto simp: lock_inv_def)

lemma count_upD:
  assumes "count_up l m = Some l'" and "counts_ok l H"
  shows "gl_waiters l' = gl_waiters l" "gl_head l' = gl_head l" "counts_ok l' (add_mset (t, m) H)"
    and "is_compatible l' n \<Longrightarrow> is_compatible l n"
proof -
  have l': "l' = l\<lparr>gl_counts := (gl_counts l)(m := gl_counts l m + 1)\<rparr>"
    using assms(1) by (auto simp: count_up_def split: if_splits)
  then show "gl_waiters l' = gl_waiters l" "gl_head l' = gl_head l" by simp_all
  show c: "counts_ok l' (add_mset (t, m) H)" using assms(2) unfolding l' by (simp add: counts_ok_def modes_of_def)
  show "is_compatible l' n \<Longrightarrow> is_compatible l n"
    unfolding is_compatible_iff [OF c] is_compatible_iff [OF assms(2)] by (simp add: modes_of_def)
qed

lemma waiters_ok_cong:
  "waiters_ok l ws \<Longrightarrow> gl_waiters l' = gl_waiters l \<Longrightarrow> gl_head l' = gl_head l \<Longrightarrow> waiters_ok l' ws"
  by (simp add: waiters_ok_def)

text \<open>Granting a compatible mode to a lock whose waiters are in order.\<close>

lemma grant_inv:
  assumes "counts_ok l H" and "group_ok H" and "waiters_ok l ws" and "no_lost_wakeup l"
    and "is_compatible l m" and "count_up l m = Some l'"
  shows "lock_inv (l', add_mset (t, m) H)"
proof (rule lock_invI)
  note u = count_upD [OF assms(6,1)]
  show "counts_ok l' (add_mset (t, m) H)" by (rule u(3))
  show "group_ok (add_mset (t, m) H)"
    using assms(5) unfolding is_compatible_iff [OF assms(1)] by (rule group_ok_add [OF assms(2)])
  show "waiters_ok l' ws" by (rule waiters_ok_cong [OF assms(3) u(1,2)])
  show "no_lost_wakeup l'" using assms(4) u(1,4) by (auto simp: no_lost_wakeup_def)
qed

lemma lock_invE:
  assumes "lock_inv (l, H)"
  obtains ws where "counts_ok l H" "group_ok H" "waiters_ok l ws" "no_lost_wakeup l"
  using assms by (auto simp: lock_inv_def)

lemma waiter_init_Some:
  "gr_lock_waiter_init cc m e = Some (rc, w, e') \<Longrightarrow>
   wt_mode w = m \<and> wt_prev w = None \<and> wt_next w = None \<and> \<not> wt_signalled w"
  by (auto simp: gr_lock_waiter_init_def Let_def bind_eq_Some_conv split: prod.splits if_splits)

lemma enter_inv:
  assumes inv: "lock_inv (l, H)" and t: "gl_waiters l t = None" and run: "gr_lock_enter cc t m l e = Some (r, l', e')"
  shows "lock_inv (l', if r = Granted then add_mset (t, m) H else H)"
proof -
  from inv obtain ws where i: "counts_ok l H" "group_ok H" "waiters_ok l ws" "no_lost_wakeup l" by (rule lock_invE)
  show ?thesis
  proof (cases "is_compatible l m")
    case True
    then have "count_up l m = Some l'" "r = Granted" using run by (auto simp: gr_lock_enter_def bind_eq_Some_conv)
    then show ?thesis using grant_inv [OF i True] by simp
  next
    case False
    then obtain rc w e1 where w: "gr_lock_waiter_init cc m e = Some (rc, w, e1)"
      using run by (auto simp: gr_lock_enter_def bind_eq_Some_conv)
    note wi = waiter_init_Some [OF w]
    show ?thesis
    proof (cases "rc = 0")
      case rc: False
      then have "l' = l" "r \<noteq> Granted" using run False w by (auto simp: gr_lock_enter_def bind_eq_Some_conv)
      then show ?thesis using inv by simp
    next
      case True
      have "wt_prev w = None" "wt_next w = None" using wi by simp_all
      from waiter_append_ok [OF i(3) t this] obtain l1 where
        l1: "gr_lock_waiter_append_unsafe (l\<lparr>gl_waiters := (gl_waiters l)(t \<mapsto> w)\<rparr>) t = Some l1"
          "waiters_ok l1 (ws @ [t])" "gl_counts l1 = gl_counts l"
          "\<forall>i. map_option wt_mode (gl_waiters l1 i) = (if i = t then Some (wt_mode w) else map_option wt_mode (gl_waiters l i))"
          "\<forall>i. map_option wt_signalled (gl_waiters l1 i) = (if i = t then Some (wt_signalled w) else map_option wt_signalled (gl_waiters l i))"
        by blast
      have l': "l' = l1" "r = Blocked" using run False w True l1(1) by (auto simp: gr_lock_enter_def)
      have c: "is_compatible l1 = is_compatible l" by (rule ext) (simp add: is_compatible_def l1(3))
      have "no_lost_wakeup l1" unfolding no_lost_wakeup_def c
      proof (intro allI impI)
        fix i v assume v: "gl_waiters l1 i = Some v" and cv: "is_compatible l (wt_mode v)"
        show "wt_signalled v"
        proof (cases "i = t")
          case True
          then show ?thesis using l1(4) [rule_format, of i] v wi cv False by simp
        next
          case False
          then obtain v0 where "gl_waiters l i = Some v0" "wt_mode v0 = wt_mode v" "wt_signalled v0 = wt_signalled v"
            using l1(4,5) [rule_format, of i] v by (cases "gl_waiters l i") auto
          then show ?thesis using i(4) cv by (auto simp: no_lost_wakeup_def)
        qed
      qed
      moreover have "counts_ok l1 H" using i(1) l1(3) by (simp add: counts_ok_def)
      ultimately show ?thesis using l' lock_invI [OF _ i(2) l1(2)] by simp
    qed
  qed
qed

lemma same_waitsD:
  assumes "same_waits W W'" and "W' i = Some v"
  obtains v0 where "W i = Some v0" "wt_mode v0 = wt_mode v" "wt_signalled v0 = wt_signalled v"
proof -
  have "map_option (\<lambda>w. (wt_mode w, wt_signalled w)) (W' i) = map_option (\<lambda>w. (wt_mode w, wt_signalled w)) (W i)"
    using assms(1) unfolding same_waits_def by (rule spec)
  then show thesis using that assms(2) by (cases "W i") auto
qed

lemma wake_inv:
  assumes inv: "lock_inv (l, H)" and w: "gl_waiters l t = Some w" and run: "gr_lock_wake t l = Some (r, l')"
  shows "lock_inv (l', if r = Granted then add_mset (t, wt_mode w) H else H)"
proof -
  from inv obtain ws where i: "counts_ok l H" "group_ok H" "waiters_ok l ws" "no_lost_wakeup l" by (rule lock_invE)
  show ?thesis
  proof (cases "is_compatible l (wt_mode w)")
    case True
    have "t \<in> set ws" using i(3) w by (auto simp: waiters_ok_def)
    then obtain xs ys where ws: "ws = xs @ t # ys" by (auto simp: in_set_conv_decomp)
    from waiter_remove_ok [OF i(3) [unfolded ws]] obtain l1 where
      l1: "gr_lock_waiter_remove_unsafe l t = Some l1" "same_waits (gl_waiters l) (gl_waiters l1)"
        "gl_counts l1 = gl_counts l" "waiters_ok (l1\<lparr>gl_waiters := (gl_waiters l1)(t := None)\<rparr>) (xs @ ys)" by blast
    let ?l = "l1\<lparr>gl_waiters := (gl_waiters l1)(t := None)\<rparr>"
    have up: "count_up ?l (wt_mode w) = Some l'" "r = Granted"
      using run w True l1(1) by (auto simp: gr_lock_wake_def bind_eq_Some_conv)
    have c: "is_compatible ?l = is_compatible l" by (rule ext) (simp add: is_compatible_def l1(3))
    have "no_lost_wakeup ?l" unfolding no_lost_wakeup_def c
    proof (intro allI impI)
      fix i v assume v: "gl_waiters ?l i = Some v" and cv: "is_compatible l (wt_mode v)"
      then have "gl_waiters l1 i = Some v" by (simp split: if_splits)
      from same_waitsD [OF l1(2) this] obtain v0 where
        "gl_waiters l i = Some v0" "wt_mode v0 = wt_mode v" "wt_signalled v0 = wt_signalled v" .
      then show "wt_signalled v" using i(4) cv by (auto simp: no_lost_wakeup_def)
    qed
    moreover have "counts_ok ?l H" using i(1) l1(3) by (simp add: counts_ok_def)
    moreover have "is_compatible ?l (wt_mode w)" using True c by simp
    ultimately show ?thesis using grant_inv [OF _ i(2) l1(4)] up by simp
  next
    case False
    let ?l = "l\<lparr>gl_waiters := (gl_waiters l)(t \<mapsto> w\<lparr>wt_signalled := False\<rparr>)\<rparr>"
    have l': "l' = ?l" "r = Blocked" using run w False by (auto simp: gr_lock_wake_def upd_waiter_def)
    have c: "is_compatible ?l = is_compatible l" by (rule ext) (simp add: is_compatible_def)
    have "no_lost_wakeup ?l" using i(4) False unfolding no_lost_wakeup_def c by auto
    moreover have "counts_ok ?l H" using i(1) by (simp add: counts_ok_def)
    moreover have "waiters_ok ?l ws"
    proof -
      have "dseg ((gl_waiters l)(t \<mapsto> w\<lparr>wt_signalled := False\<rparr>)) None (gl_head l) ws q None = dseg (gl_waiters l) None (gl_head l) ws q None" for q
        by (rule dseg_cong) (use w in auto)
      then show ?thesis using i(3) w by (auto simp: waiters_ok_def)
    qed
    ultimately show ?thesis using l' lock_invI [OF _ i(2)] by simp
  qed
qed

lemma unlock_ok:
  assumes inv: "lock_inv (l, H)" and held: "(t, m) \<in># H"
  shows "\<exists>l'. gr_unlock l m = Some l' \<and> lock_inv (l', H - {#(t, m)#})"
proof -
  from inv obtain ws where i: "counts_ok l H" "group_ok H" "waiters_ok l ws" "no_lost_wakeup l" by (rule lock_invE)
  from held obtain H' where H: "H = add_mset (t, m) H'" by (metis insert_DiffM)
  have pos: "gl_counts l m > 0" using i(1) H by (simp add: counts_ok_def modes_of_def)
  let ?l = "l\<lparr>gl_counts := (gl_counts l)(m := gl_counts l m - 1)\<rparr>"
  have c: "counts_ok ?l H'" using i(1) H by (simp add: counts_ok_def modes_of_def)
  have g: "group_ok H'" using group_ok_sub [OF i(2), of "{#(t, m)#}"] H by simp
  have w: "waiters_ok ?l ws" by (rule waiters_ok_cong [OF i(3)]) simp_all
  show ?thesis
  proof (cases "gl_head l")
    case None
    then have "ws = []" using i(3) by (cases ws) (auto simp: waiters_ok_def)
    then have "gl_waiters l i = None" for i using i(3) by (auto simp: waiters_ok_def dom_def)
    then have "no_lost_wakeup ?l" by (simp add: no_lost_wakeup_def)
    then show ?thesis using None pos lock_invI [OF c g w] H by (simp add: gr_unlock_def)
  next
    case (Some h)
    let ?l' = "?l\<lparr>gl_waiters := (\<lambda>i. map_option (wake_one ?l) (gl_waiters ?l i))\<rparr>"
    note wk = wake_waiters_ok [OF w]
    have c': "is_compatible ?l' = is_compatible ?l" by (rule ext) (simp add: is_compatible_def)
    have one: "is_compatible ?l (wt_mode (wake_one ?l w)) \<Longrightarrow> wt_signalled (wake_one ?l w)" for w
      by (simp add: wake_one_def split: if_splits)
    have "no_lost_wakeup ?l'" unfolding no_lost_wakeup_def c' using one by fastforce
    moreover have "counts_ok ?l' H'" using c by (simp add: counts_ok_def)
    ultimately have "lock_inv (?l', H')" using lock_invI [OF _ g wk(2)] by blast
    moreover have "gr_unlock l m = Some ?l'" using Some pos wk(1) by (simp add: gr_unlock_def Let_def)
    ultimately show ?thesis using H by auto
  qed
qed

lemma wake_granted:
  assumes inv: "lock_inv (l, H)" and w: "gl_waiters l t = Some w" and c: "is_compatible l (wt_mode w)"
    and few: "size H < 2147483647"
  shows "\<exists>l'. gr_lock_wake t l = Some (Granted, l')"
proof -
  from inv obtain ws where i: "counts_ok l H" "group_ok H" "waiters_ok l ws" "no_lost_wakeup l" by (rule lock_invE)
  have "t \<in> set ws" using i(3) w by (auto simp: waiters_ok_def)
  then obtain xs ys where ws: "ws = xs @ t # ys" by (auto simp: in_set_conv_decomp)
  from waiter_remove_ok [OF i(3) [unfolded ws]] obtain l1 where
    l1: "gr_lock_waiter_remove_unsafe l t = Some l1" "gl_counts l1 = gl_counts l" by blast
  have "counts_ok (l1\<lparr>gl_waiters := (gl_waiters l1)(t := None)\<rparr>) H" using i(1) l1(2) by (simp add: counts_ok_def)
  from count_up_ok(1) [OF this few] show ?thesis using w c l1(1) by (simp add: gr_lock_wake_def)
qed

lemma gr_step_inv: "gr_step s s' \<Longrightarrow> lock_inv s \<Longrightarrow> lock_inv s'"
proof (induction rule: gr_step.induct)
  case (step_enter l t cc m e r l' e' H)
  then show ?case using enter_inv by blast
next
  case (step_wake l t w r l' H)
  then show ?case using wake_inv by blast
next
  case (step_try l t m got b l' H)
  then show ?case
  proof (cases b)
    case True
    then have "is_compatible l m" "count_up l m = Some l'"
      using step_try.hyps(2) by (auto simp: gr_trylock_def bind_eq_Some_conv split: if_splits)
    then show ?thesis using step_try.prems True by (auto elim!: lock_invE intro: grant_inv)
  next
    case False
    then have "l' = l" using step_try.hyps(2) by (auto simp: gr_trylock_def bind_eq_Some_conv split: if_splits)
    then show ?thesis using False step_try.prems by simp
  qed
next
  case (step_unlock l t m H l')
  then show ?case using unlock_ok by fastforce
qed

lemma gr_reachable_inv:
  assumes "gr_lock_init mc e = (SUCCESS, Some l0, e0)" and "gr_step\<^sup>*\<^sup>* (l0, {#}) s"
  shows "lock_inv s"
  using assms(2)
proof (induction rule: rtranclp_induct)
  case base
  have l0: "l0 = \<lparr>gl_counts = (\<lambda>_. 0), gl_head = None, gl_waiters = (\<lambda>_. None)\<rparr>"
    using assms(1) by (auto simp: gr_lock_init_def split: prod.splits if_splits)
  have "waiters_ok l0 []" by (simp add: waiters_ok_def l0)
  then show ?case
    by (rule lock_invI [rotated 2]) (simp_all add: l0 counts_ok_def modes_of_def group_ok_def no_lost_wakeup_def)
next
  case (step s s')
  then show ?case by (rule_tac gr_step_inv)
qed

section \<open>Properties\<close>

text \<open>
  C2. In every reachable state, whatever the interleaving of the threads and the spurious
  wake-ups, any two granted modes are compatible; an exclusive grant is the only one.
\<close>

theorem gr_lock_grants_compatible:
  assumes "gr_lock_init mc e = (SUCCESS, Some l0, e0)" and "gr_step\<^sup>*\<^sup>* (l0, {#}) (l, H)"
  shows "({#(t, m), (u, n)#} \<subseteq># H \<longrightarrow> compatible m n) \<and> ((t, LM_X) \<in># H \<longrightarrow> H = {#(t, LM_X)#})"
proof -
  have g: "group_ok H" using gr_reachable_inv [OF assms] by (auto simp: lock_inv_def)
  have pair: "compatible m n" if "{#(t, m), (u, n)#} \<subseteq># H" for t m u n
    using image_mset_subseteq_mono [OF that, of snd] g by (simp add: group_ok_def modes_of_def)
  have "H = {#(t, LM_X)#}" if x: "(t, LM_X) \<in># H"
  proof -
    from x obtain H' where H: "H = add_mset (t, LM_X) H'" by (metis insert_DiffM)
    have "H' = {#}"
    proof (rule ccontr)
      assume "H' \<noteq> {#}"
      then obtain x where "x \<in># H'" by blast
      then have "{#(t, LM_X), (fst x, snd x)#} \<subseteq># H" using H by simp
      then show False using pair by fastforce
    qed
    then show ?thesis using H by simp
  qed
  then show ?thesis using pair by blast
qed

text \<open>An operating system layer that never fails, for the concrete examples.\<close>

definition os_fine :: "errp \<Rightarrow> err_t \<times> errp" where
  "os_fine e = (SUCCESS, e)"

definition gr_fresh :: gr_lock where
  "gr_fresh = \<lparr>gl_counts = (\<lambda>_. 0), gl_head = None, gl_waiters = (\<lambda>_. None)\<rparr>"

lemma gr_fresh_init: "gr_lock_init os_fine e = (SUCCESS, Some gr_fresh, e)"
  by (simp add: gr_lock_init_def os_fine_def gr_fresh_def)

lemmas gr_eval = gr_lock_enter_def is_compatible_def lock_modes_def compatible_def compatible_table_def count_up_def
  gr_lock_waiter_init_def gr_lock_waiter_append_unsafe_def gr_unlock_def wake_waiters_def wake_loop.simps upd_waiter_def
  os_fine_def SUCCESS_def Let_def

definition gr_x_held :: gr_lock where
  "gr_x_held = gr_fresh\<lparr>gl_counts := (\<lambda>_. 0)(LM_X := 1)\<rparr>"

definition gr_x_waited :: gr_lock where
  "gr_x_waited = gr_x_held\<lparr>gl_head := Some 2, gl_waiters := (\<lambda>_. None)(2 \<mapsto> \<lparr>wt_mode = LM_S, wt_prev = None, wt_next = None, wt_signalled = False\<rparr>)\<rparr>"

text \<open>Thread 1 takes \<open>LM_X\<close>, thread 2 asks for \<open>LM_S\<close> and waits.\<close>

lemma gr_example:
  "gr_step\<^sup>*\<^sup>* (gr_fresh, {#}) (gr_x_held, {#(1, LM_X)#})"
  "gr_step\<^sup>*\<^sup>* (gr_fresh, {#}) (gr_x_waited, {#(1, LM_X)#})"
proof -
  have "gr_lock_enter os_fine 1 LM_X gr_fresh None = Some (Granted, gr_x_held, None)"
    by (simp add: gr_eval gr_fresh_def gr_x_held_def)
  from step_enter [OF _ this, of "{#}"] have s1: "gr_step (gr_fresh, {#}) (gr_x_held, {#(1, LM_X)#})"
    by (simp add: gr_fresh_def)
  have "gr_lock_enter os_fine 2 LM_S gr_x_held None = Some (Blocked, gr_x_waited, None)"
    by (simp add: gr_eval gr_fresh_def gr_x_held_def gr_x_waited_def)
  from step_enter [OF _ this, of "{#(1, LM_X)#}"] have s2: "gr_step (gr_x_held, {#(1, LM_X)#}) (gr_x_waited, {#(1, LM_X)#})"
    by (simp add: gr_fresh_def gr_x_held_def)
  show "gr_step\<^sup>*\<^sup>* (gr_fresh, {#}) (gr_x_held, {#(1, LM_X)#})" using s1 by blast
  then show "gr_step\<^sup>*\<^sup>* (gr_fresh, {#}) (gr_x_waited, {#(1, LM_X)#})" using s2 by (rule rtranclp.rtrancl_into_rtrancl)
qed

theorem gr_lock_grants_compatible_witness:
  "\<exists>l. gr_step\<^sup>*\<^sup>* (gr_fresh, {#}) (l, {#(1, LM_IS), (2, LM_IX)#}) \<and> compatible LM_IS LM_IX"
proof -
  let ?l1 = "gr_fresh\<lparr>gl_counts := (\<lambda>_. 0)(LM_IX := 1)\<rparr>"
  let ?l2 = "gr_fresh\<lparr>gl_counts := (\<lambda>_. 0)(LM_IX := 1, LM_IS := 1)\<rparr>"
  have "gr_lock_enter os_fine 2 LM_IX gr_fresh None = Some (Granted, ?l1, None)"
    by (simp add: gr_eval gr_fresh_def)
  from step_enter [OF _ this, of "{#}"] have s1: "gr_step (gr_fresh, {#}) (?l1, {#(2, LM_IX)#})"
    by (simp add: gr_fresh_def)
  have "gr_lock_enter os_fine 1 LM_IS ?l1 None = Some (Granted, ?l2, None)"
    by (simp add: gr_eval gr_fresh_def)
  from step_enter [OF _ this, of "{#(2, LM_IX)#}"] have s2: "gr_step (?l1, {#(2, LM_IX)#}) (?l2, {#(1, LM_IS), (2, LM_IX)#})"
    by (simp add: gr_fresh_def)
  have r: "gr_step\<^sup>*\<^sup>* (gr_fresh, {#}) (?l2, {#(1, LM_IS), (2, LM_IX)#})" using s1 s2 by (meson converse_rtranclp_into_rtranclp rtranclp.rtrancl_refl)
  then show ?thesis using gr_lock_grants_compatible [OF gr_fresh_init r, of 1 LM_IS 2 LM_IX] by auto
qed

text \<open>
  C3. No wake-up is lost: in every reachable state, a waiter whose mode is compatible with all
  grants has been signalled since it fell asleep, and when it wakes up it is granted. With no
  grants left, this holds for every waiter.
\<close>

theorem gr_lock_no_lost_wakeup:
  assumes "gr_lock_init mc e = (SUCCESS, Some l0, e0)" and "gr_step\<^sup>*\<^sup>* (l0, {#}) (l, H)"
    and "gl_waiters l t = Some w" and "\<forall>x\<in>#H. compatible (wt_mode w) (snd x)" and "size H < 2147483647"
  shows "wt_signalled w \<and> (\<exists>l'. gr_lock_wake t l = Some (Granted, l'))"
proof -
  have inv: "lock_inv (l, H)" by (rule gr_reachable_inv [OF assms(1,2)])
  then have c: "is_compatible l (wt_mode w)" using assms(4)
    by (auto elim!: lock_invE simp: is_compatible_iff modes_of_def)
  then have "wt_signalled w" using inv assms(3) by (auto elim!: lock_invE simp: no_lost_wakeup_def)
  then show ?thesis using wake_granted [OF inv assms(3) c assms(5)] by blast
qed

theorem gr_lock_no_lost_wakeup_witness:
  "\<exists>l w. gr_step\<^sup>*\<^sup>* (gr_fresh, {#}) (l, {#}) \<and> gl_waiters l 2 = Some w \<and> wt_signalled w \<and>
    (\<exists>l'. gr_lock_wake 2 l = Some (Granted, l'))"
proof -
  let ?w = "\<lparr>wt_mode = LM_S, wt_prev = None, wt_next = None, wt_signalled = True\<rparr>"
  obtain l where l: "gr_unlock gr_x_waited LM_X = Some l" "gl_waiters l 2 = Some ?w"
    by (simp add: gr_eval gr_x_waited_def gr_x_held_def)
  have "gr_step (gr_x_waited, {#(1, LM_X)#}) (l, {#(1, LM_X)#} - {#(1, LM_X)#})"
    by (rule step_unlock [OF _ _ l(1)]) (simp_all add: gr_x_waited_def)
  then have r: "gr_step\<^sup>*\<^sup>* (gr_fresh, {#}) (l, {#})"
    using gr_example(2) by (simp add: rtranclp.rtrancl_into_rtrancl)
  from gr_lock_no_lost_wakeup [OF gr_fresh_init r l(2)] show ?thesis using r l(2) by auto
qed

text \<open>
  C17. Unlocking never fails: a thread that holds a mode in a reachable state can return it, the
  assertion on the count holds and the walk over the waiters ends.
\<close>

theorem gr_unlock_returns:
  assumes "gr_lock_init mc e = (SUCCESS, Some l0, e0)" and "gr_step\<^sup>*\<^sup>* (l0, {#}) (l, H)" and "(t, m) \<in># H"
  shows "\<exists>l'. gr_unlock l m = Some l'"
  using unlock_ok [OF gr_reachable_inv [OF assms(1,2)] assms(3)] by blast

theorem gr_unlock_returns_witness:
  "\<exists>l'. gr_unlock gr_x_waited LM_X = Some l'"
  using gr_unlock_returns [OF gr_fresh_init gr_example(2), of 1 LM_X] by simp

end
