(* ===== verification/Robin_hood.thy ===== *)
theory Robin_hood
  imports Prelude
begin

text \<open>
  The robin hood hash set of \<^verbatim>\<open>ds/robin_hood_manual_ht.h\<close>: open addressing with linear
  probing over the caller's array, every entry carrying the distance from its initial
  bucket (\<open>dib\<close>). \<open>VTYPE\<close>, \<open>HASH_FUNC\<close> and \<open>CMP_FUNC\<close> are macros the including file sets;
  they are the type \<open>'v\<close> and the arguments \<open>hf\<close> and \<open>cmp\<close> here. The array is a list, an
  index past its end has no result, and \<open>u32\<close> sums wrap.
\<close>

section \<open>Results and tables\<close>

datatype hti_res = HTIR_SUCCESS | HTIR_EXISTS | HTIR_FULL

datatype hta_res = HTAR_SUCCESS | HTAR_DOESNT_EXIST

record 'v hentry =
  he_value :: 'v
  he_hash :: u32
  he_dib :: u32
  he_present :: bool

record 'v hash_table =
  ht_cap :: u32
  ht_elems :: "'v hentry list"

text \<open>The array is cleared with \<open>memset\<close>; \<open>zero\<close> is the value whose bytes are all zero.\<close>

definition rh_init :: "'v \<Rightarrow> 'v hentry list \<Rightarrow> u32 \<Rightarrow> 'v hash_table option" where
  "rh_init zero arr nelem =
     (if unat nelem \<le> length arr
      then Some \<lparr>ht_cap = nelem,
                 ht_elems = replicate (unat nelem)
                   \<lparr>he_value = zero, he_hash = 0, he_dib = 0, he_present = False\<rparr>\<rparr>
      else None)"

section \<open>Insertion\<close>

function rh_insert_loop ::
  "('v \<Rightarrow> 'v \<Rightarrow> bool) \<Rightarrow> u32 \<Rightarrow> u32 \<Rightarrow> 'v \<Rightarrow> u32 \<Rightarrow> u32 \<Rightarrow> 'v hentry list \<Rightarrow>
   ('v hentry list \<times> hti_res) option" where
  "rh_insert_loop cmp cap i value hash dibn elems =
     (if i < cap then
        let j = unat ((hash + dibn) mod cap) in
        if j < length elems then
          let el = elems ! j in
          if \<not> he_present el
          then Some (elems[j := \<lparr>he_value = value, he_hash = hash, he_dib = dibn,
                                he_present = True\<rparr>], HTIR_SUCCESS)
          else if he_dib el < dibn then
            let elems' = elems[j := el\<lparr>he_value := value, he_hash := hash, he_dib := dibn\<rparr>] in
            if he_hash (elems' ! j) = he_hash el \<and> cmp (he_value (elems' ! j)) (he_value el)
            then Some (elems', HTIR_EXISTS)
            else rh_insert_loop cmp cap (i + 1) (he_value el) (he_hash el) (he_dib el + 1) elems'
          else
            if he_hash el = hash \<and> cmp (he_value el) value
            then Some (elems, HTIR_EXISTS)
            else rh_insert_loop cmp cap (i + 1) value hash (dibn + 1) elems
        else None
      else Some (elems, HTIR_FULL))"
  by pat_completeness auto
termination
  by (relation "measure (\<lambda>(cmp, cap, i, value, hash, dibn, elems). unat cap - unat i)")
    (auto simp: u32_inc word_less_nat_alt)

declare rh_insert_loop.simps [simp del]

definition rh_insert ::
  "('v \<Rightarrow> u32) \<Rightarrow> ('v \<Rightarrow> 'v \<Rightarrow> bool) \<Rightarrow> 'v hash_table \<Rightarrow> 'v \<Rightarrow> ('v hash_table \<times> hti_res) option" where
  "rh_insert hf cmp ht value = do {
     ASSERT (0 < ht_cap ht);
     (elems, ret) \<leftarrow> rh_insert_loop cmp (ht_cap ht) 0 value (hf value) 0 (ht_elems ht);
     Some (ht\<lparr>ht_elems := elems\<rparr>, ret)
   }"

definition rh_insert_expect ::
  "('v \<Rightarrow> u32) \<Rightarrow> ('v \<Rightarrow> 'v \<Rightarrow> bool) \<Rightarrow> 'v hash_table \<Rightarrow> 'v \<Rightarrow> 'v hash_table option" where
  "rh_insert_expect hf cmp ht value = do {
     (ht, ret) \<leftarrow> rh_insert hf cmp ht value;
     ASSERT (ret = HTIR_SUCCESS);
     Some ht
   }"

section \<open>Access\<close>

text \<open>The probing loop is the same in both operations below: it stops at an empty entry, at an
entry closer to its bucket than the probe, or at the value; falling out of it leaves \<open>i\<close> at
the capacity.\<close>

datatype 'v probe = Probe_missing | Probe_found u32 'v | Probe_end

function rh_probe ::
  "('v \<Rightarrow> 'v \<Rightarrow> bool) \<Rightarrow> u32 \<Rightarrow> u32 \<Rightarrow> 'v \<Rightarrow> u32 \<Rightarrow> u32 \<Rightarrow> 'v hentry list \<Rightarrow> 'v probe option" where
  "rh_probe cmp cap i value hash dibn elems =
     (if i < cap then
        let j = unat ((hash + i) mod cap) in
        if j < length elems then
          let el = elems ! j in
          if \<not> he_present el then Some Probe_missing
          else if he_dib el < dibn then Some Probe_missing
          else if he_hash el = hash \<and> cmp (he_value el) value
          then Some (Probe_found i (he_value el))
          else rh_probe cmp cap (i + 1) value hash (dibn + 1) elems
        else None
      else Some Probe_end)"
  by pat_completeness auto
termination
  by (relation "measure (\<lambda>(cmp, cap, i, value, hash, dibn, elems). unat cap - unat i)")
    (auto simp: u32_inc word_less_nat_alt)

declare rh_probe.simps [simp del]

definition rh_get ::
  "('v \<Rightarrow> u32) \<Rightarrow> ('v \<Rightarrow> 'v \<Rightarrow> bool) \<Rightarrow> 'v hash_table \<Rightarrow> 'v \<Rightarrow> (hta_res \<times> 'v option) option" where
  "rh_get hf cmp ht value = do {
     ASSERT (0 < ht_cap ht);
     r \<leftarrow> rh_probe cmp (ht_cap ht) 0 value (hf value) 0 (ht_elems ht);
     Some (case r of Probe_found i v \<Rightarrow> (HTAR_SUCCESS, Some v)
           | _ \<Rightarrow> (HTAR_DOESNT_EXIST, None))
   }"

definition rh_get_expect ::
  "('v \<Rightarrow> u32) \<Rightarrow> ('v \<Rightarrow> 'v \<Rightarrow> bool) \<Rightarrow> 'v hash_table \<Rightarrow> 'v \<Rightarrow> 'v option option" where
  "rh_get_expect hf cmp ht value = do {
     (ret, dest) \<leftarrow> rh_get hf cmp ht value;
     ASSERT (ret = HTAR_SUCCESS);
     Some dest
   }"

text \<open>Deletion closes the hole: the entries behind it move one place back until one is empty
or in its own bucket.\<close>

function rh_shift_loop ::
  "u32 \<Rightarrow> u32 \<Rightarrow> u32 \<Rightarrow> 'v hentry list \<Rightarrow> ('v hentry list \<times> hta_res) option" where
  "rh_shift_loop cap i hash elems =
     (if i < cap then
        let hole = unat ((hash + i) mod cap);
            nxt = unat ((hash + i + 1) mod cap) in
        if hole < length elems \<and> nxt < length elems then
          if \<not> he_present (elems ! nxt) \<or> he_dib (elems ! nxt) = 0
          then Some (elems[hole := (elems ! hole)\<lparr>he_present := False\<rparr>], HTAR_SUCCESS)
          else do {
            let elems' = elems[hole := (elems ! hole)\<lparr>he_value := he_value (elems ! nxt),
                                                      he_hash := he_hash (elems ! nxt)\<rparr>];
            ASSERT (0 < he_dib (elems' ! nxt));
            let elems'' = elems'[hole := (elems' ! hole)\<lparr>he_dib := he_dib (elems' ! nxt) - 1\<rparr>];
            ASSERT (he_present (elems'' ! hole));
            rh_shift_loop cap (i + 1) hash elems''
          }
        else None
      else Some (elems, HTAR_DOESNT_EXIST))"
  by pat_completeness auto
termination
  by (relation "measure (\<lambda>(cap, i, hash, elems). unat cap - unat i)")
    (auto simp: u32_inc word_less_nat_alt)

declare rh_shift_loop.simps [simp del]

definition rh_delete ::
  "('v \<Rightarrow> u32) \<Rightarrow> ('v \<Rightarrow> 'v \<Rightarrow> bool) \<Rightarrow> 'v hash_table \<Rightarrow> 'v \<Rightarrow>
   ('v hash_table \<times> hta_res \<times> 'v option) option" where
  "rh_delete hf cmp ht value = do {
     ASSERT (0 < ht_cap ht);
     r \<leftarrow> rh_probe cmp (ht_cap ht) 0 value (hf value) 0 (ht_elems ht);
     case r of
       Probe_found i v \<Rightarrow> do {
         (elems, ret) \<leftarrow> rh_shift_loop (ht_cap ht) i (hf value) (ht_elems ht);
         Some (ht\<lparr>ht_elems := elems\<rparr>, ret, Some v)
       }
     | _ \<Rightarrow> Some (ht, HTAR_DOESNT_EXIST, None)
   }"

definition rh_delete_expect ::
  "('v \<Rightarrow> u32) \<Rightarrow> ('v \<Rightarrow> 'v \<Rightarrow> bool) \<Rightarrow> 'v hash_table \<Rightarrow> 'v \<Rightarrow>
   ('v hash_table \<times> 'v option) option" where
  "rh_delete_expect hf cmp ht value = do {
     (ht, ret, dest) \<leftarrow> rh_delete hf cmp ht value;
     ASSERT (ret = HTAR_SUCCESS);
     Some (ht, dest)
   }"

end
