(* ===== verification/Robin_hood_ok.thy ===== *)
theory Robin_hood_ok
  imports Robin_hood
begin

text \<open>
  The invariant of the robin hood table, and what it makes of insertion, probing and
  deletion: the table holds a set of values, none twice.
\<close>

section \<open>The table invariant\<close>

text \<open>
  Slots are numbered modulo the capacity \<open>c\<close>. An occupied slot is its entry's bucket plus
  its distance; the slot after an occupied or empty one is empty, in its own bucket, or at
  most one step further from its bucket (the order robin hood insertion keeps); no two
  entries hold the same value; and some slot is empty or holds an entry in its own bucket.
  A hash may be as large as leaves room for a probe over the whole table: beyond that the
  \<open>u32\<close> sum wraps, and \<open>mod cap\<close> of the wrapped sum is no longer the next slot.
\<close>

definition rh_fits :: "nat \<Rightarrow> u32 \<Rightarrow> bool" where
  "rh_fits c h \<longleftrightarrow> unat h + c < 4294967296"

definition rh_same :: "('v \<Rightarrow> u32) \<Rightarrow> ('v \<Rightarrow> 'v \<Rightarrow> bool) \<Rightarrow> 'v \<Rightarrow> 'v \<Rightarrow> bool" where
  "rh_same hf cmp v w \<longleftrightarrow> hf v = hf w \<and> cmp v w"

definition rh_next :: "nat \<Rightarrow> nat \<Rightarrow> nat" where
  "rh_next c p = (if Suc p = c then 0 else Suc p)"

definition rh_placed :: "('v \<Rightarrow> u32) \<Rightarrow> nat \<Rightarrow> nat \<Rightarrow> 'v hentry \<Rightarrow> bool" where
  "rh_placed hf c p el \<longleftrightarrow>
     he_hash el = hf (he_value el) \<and> rh_fits c (he_hash el) \<and>
     unat (he_dib el) < c \<and> (unat (he_hash el) + unat (he_dib el)) mod c = p"

definition rh_follows :: "'v hentry \<Rightarrow> 'v hentry \<Rightarrow> bool" where
  "rh_follows el nx \<longleftrightarrow>
     (he_present nx \<and> 0 < unat (he_dib nx) \<longrightarrow>
      he_present el \<and> unat (he_dib nx) \<le> unat (he_dib el) + 1)"

definition rh_base :: "('v \<Rightarrow> u32) \<Rightarrow> nat \<Rightarrow> 'v hentry list \<Rightarrow> bool" where
  "rh_base hf c E \<longleftrightarrow> 0 < c \<and> c < 4294967296 \<and> length E = c \<and>
     (\<forall>p<c. he_present (E ! p) \<longrightarrow> rh_placed hf c p (E ! p)) \<and>
     (\<forall>p<c. rh_follows (E ! p) (E ! rh_next c p))"

definition rh_distinct :: "('v \<Rightarrow> u32) \<Rightarrow> ('v \<Rightarrow> 'v \<Rightarrow> bool) \<Rightarrow> 'v hentry list \<Rightarrow> bool" where
  "rh_distinct hf cmp E \<longleftrightarrow>
     (\<forall>p<length E. \<forall>q<length E. he_present (E ! p) \<longrightarrow> he_present (E ! q) \<longrightarrow>
        rh_same hf cmp (he_value (E ! p)) (he_value (E ! q)) \<longrightarrow> p = q)"

definition rh_stop :: "'v hentry \<Rightarrow> bool" where
  "rh_stop el \<longleftrightarrow> \<not> he_present el \<or> he_dib el = 0"

definition rh_values :: "'v hentry list \<Rightarrow> 'v set" where
  "rh_values E = {he_value (E ! p) | p. p < length E \<and> he_present (E ! p)}"

definition rh_wf :: "('v \<Rightarrow> u32) \<Rightarrow> ('v \<Rightarrow> 'v \<Rightarrow> bool) \<Rightarrow> 'v hash_table \<Rightarrow> bool" where
  "rh_wf hf cmp ht \<longleftrightarrow>
     rh_base hf (unat (ht_cap ht)) (ht_elems ht) \<and> rh_distinct hf cmp (ht_elems ht) \<and>
     (\<exists>p<unat (ht_cap ht). rh_stop (ht_elems ht ! p))"

section \<open>Slots\<close>

lemma rh_next_less: "p < c \<Longrightarrow> rh_next c p < c"
  by (simp add: rh_next_def)

lemma rh_next_mod: "p < c \<Longrightarrow> rh_next c p = Suc p mod c"
  by (auto simp: rh_next_def)

lemma rh_next_slot: "0 < c \<Longrightarrow> rh_next c (a mod c) = Suc a mod c"
  by (simp add: rh_next_mod mod_Suc_eq)

lemma rh_next_inj: "p < c \<Longrightarrow> q < c \<Longrightarrow> rh_next c p = rh_next c q \<Longrightarrow> p = q"
  by (auto simp: rh_next_def split: if_splits)

lemma rh_next_self: "p < c \<Longrightarrow> rh_next c p = p \<longleftrightarrow> c = 1"
  by (auto simp: rh_next_def)

lemma rh_slot: "rh_fits c h \<Longrightarrow> d < c \<Longrightarrow> c = unat cap \<Longrightarrow> d = unat i \<Longrightarrow>
  unat ((h + i) mod cap) = (unat h + d) mod c"
  by (simp add: rh_fits_def u32_add_mod_nat)

lemma rh_baseD:
  assumes "rh_base hf c E"
  shows "0 < c" "length E = c" "p < c \<Longrightarrow> he_present (E ! p) \<Longrightarrow> rh_placed hf c p (E ! p)"
    "p < c \<Longrightarrow> rh_follows (E ! p) (E ! rh_next c p)"
  using assms by (auto simp: rh_base_def)

text \<open>Replacing one entry touches the order at two places.\<close>

lemma rh_base_upd:
  assumes base: "rh_base hf c E" and p: "p < c"
    and placed: "he_present el \<longrightarrow> rh_placed hf c p el"
    and before: "\<And>q. q < c \<Longrightarrow> q \<noteq> p \<Longrightarrow> rh_next c q = p \<Longrightarrow> rh_follows (E ! q) el"
    and after: "rh_next c p \<noteq> p \<Longrightarrow> rh_follows el (E ! rh_next c p)"
    and loop: "c = 1 \<Longrightarrow> rh_follows el el"
  shows "rh_base hf c (E[p := el])"
  unfolding rh_base_def
proof (intro conjI allI impI)
  show "0 < c" "c < 4294967296" "length (E[p := el]) = c" using base by (auto simp: rh_base_def)
next
  fix q assume "q < c" "he_present (E[p := el] ! q)"
  then show "rh_placed hf c q (E[p := el] ! q)"
    using rh_baseD(2,3) [OF base] placed p by (cases "q = p") auto
next
  fix q assume q: "q < c"
  have len: "length E = c" by (rule rh_baseD(2) [OF base])
  show "rh_follows (E[p := el] ! q) (E[p := el] ! rh_next c q)"
  proof (cases "q = p")
    case True
    then show ?thesis
      using after loop rh_next_self [OF p] len p by (cases "rh_next c p = p") auto
  next
    case False
    then show ?thesis
      using before [OF q False] rh_baseD(4) [OF base q] len p q
      by (cases "rh_next c q = p") auto
  qed
qed

text \<open>An entry at distance \<open>d\<close> is reached from its bucket over occupied slots, none of which
stops the probe.\<close>

lemma rh_chain:
  assumes base: "rh_base hf c E" and "he_present (E ! ((a + d) mod c))"
    and "unat (he_dib (E ! ((a + d) mod c))) \<ge> d"
  shows "j \<le> d \<Longrightarrow> he_present (E ! ((a + j) mod c)) \<and> j \<le> unat (he_dib (E ! ((a + j) mod c)))"
proof (induction "d - j" arbitrary: j)
  case 0
  then show ?case using assms by simp
next
  case (Suc n)
  have c: "0 < c" by (rule rh_baseD(1) [OF base])
  have "he_present (E ! ((a + Suc j) mod c)) \<and> Suc j \<le> unat (he_dib (E ! ((a + Suc j) mod c)))"
    by (rule Suc.hyps(1)) (use Suc.hyps(2) in auto)
  moreover have "rh_follows (E ! ((a + j) mod c)) (E ! rh_next c ((a + j) mod c))"
    by (rule rh_baseD(4) [OF base]) (simp add: c)
  ultimately show ?case
    using c by (auto simp: rh_next_slot rh_follows_def)
qed

section \<open>Insertion\<close>

text \<open>What the loop carries: an entry that belongs at the slot it looks at, is in no slot of the
table, and follows the slot before.\<close>

definition rh_carries ::
  "('v \<Rightarrow> u32) \<Rightarrow> ('v \<Rightarrow> 'v \<Rightarrow> bool) \<Rightarrow> nat \<Rightarrow> 'v hentry list \<Rightarrow> nat \<Rightarrow> 'v hentry \<Rightarrow> bool" where
  "rh_carries hf cmp c E p el \<longleftrightarrow>
     he_present el \<and> rh_placed hf c p el \<and>
     (0 < unat (he_dib el) \<longrightarrow> (\<forall>q<c. rh_next c q = p \<longrightarrow> rh_follows (E ! q) el)) \<and>
     (\<forall>q<c. he_present (E ! q) \<longrightarrow> \<not> rh_same hf cmp (he_value (E ! q)) (he_value el))"

lemma rh_same_sym: "equivp cmp \<Longrightarrow> rh_same hf cmp v w \<Longrightarrow> rh_same hf cmp w v"
  by (auto simp: rh_same_def dest: equivp_symp)

lemma rh_distinct_upd:
  assumes dist: "rh_distinct hf cmp E" and eq: "equivp cmp" and p: "p < length E"
    and fresh: "\<And>q. q < length E \<Longrightarrow> he_present (E ! q) \<Longrightarrow>
      \<not> rh_same hf cmp (he_value (E ! q)) (he_value el)"
  shows "rh_distinct hf cmp (E[p := el])"
proof -
  have "\<And>q. q < length E \<Longrightarrow> he_present (E ! q) \<Longrightarrow>
      \<not> rh_same hf cmp (he_value el) (he_value (E ! q))"
    using fresh rh_same_sym [OF eq] by blast
  then show ?thesis
    using dist fresh p unfolding rh_distinct_def by (auto simp: nth_list_update)
qed

lemma rh_follows_in_bucket: "he_dib nx = 0 \<Longrightarrow> rh_follows el nx"
  by (simp add: rh_follows_def)

lemma rh_carries_follows:
  "rh_carries hf cmp c E p el \<Longrightarrow> q < c \<Longrightarrow> rh_next c q = p \<Longrightarrow> rh_follows (E ! q) el"
  by (cases "0 < unat (he_dib el)") (auto simp: rh_carries_def rh_follows_def)

text \<open>The step that swaps keeps both.\<close>

lemma rh_swap_ok:
  assumes base: "rh_base hf c E" and dist: "rh_distinct hf cmp E" and eq: "equivp cmp"
    and carry: "rh_carries hf cmp c E p el" and p: "p < c" and old: "he_present (E ! p)"
    and closer: "he_dib (E ! p) < he_dib el"
  defines "E' \<equiv> E[p := el]"
  shows "rh_base hf c E'" "rh_distinct hf cmp E'"
    "\<forall>q<c. he_present (E' ! q) \<longrightarrow> \<not> rh_same hf cmp (he_value (E' ! q)) (he_value (E ! p))"
    "insert (he_value (E ! p)) (rh_values E') = insert (he_value el) (rh_values E)"
proof -
  have len: "length E = c" by (rule rh_baseD(2) [OF base])
  have fresh: "\<And>q. q < c \<Longrightarrow> he_present (E ! q) \<Longrightarrow> \<not> rh_same hf cmp (he_value (E ! q)) (he_value el)"
    and pres: "he_present el" and pl: "rh_placed hf c p el"
    using carry by (auto simp: rh_carries_def)
  have far: "1 < c"
    using closer pl by (auto simp: rh_placed_def word_less_nat_alt)
  have nx: "rh_next c p \<noteq> p" using far rh_next_self [OF p] by simp
  show "rh_base hf c E'"
    unfolding E'_def
  proof (rule rh_base_upd [OF base p])
    show "he_present el \<longrightarrow> rh_placed hf c p el" by (simp add: pl)
    show "\<And>q. q < c \<Longrightarrow> q \<noteq> p \<Longrightarrow> rh_next c q = p \<Longrightarrow> rh_follows (E ! q) el"
      by (rule rh_carries_follows [OF carry])
    show "rh_follows el (E ! rh_next c p)"
      using rh_baseD(4) [OF base p] closer pres by (auto simp: rh_follows_def word_less_nat_alt)
    show "c = 1 \<Longrightarrow> rh_follows el el" using far by simp
  qed
  show "rh_distinct hf cmp E'"
    unfolding E'_def by (rule rh_distinct_upd [OF dist eq]) (use fresh len p in auto)
  show "\<forall>q<c. he_present (E' ! q) \<longrightarrow> \<not> rh_same hf cmp (he_value (E' ! q)) (he_value (E ! p))"
    using dist fresh [OF p old] rh_same_sym [OF eq] len p old
    by (auto simp: rh_distinct_def E'_def nth_list_update)
  show "insert (he_value (E ! p)) (rh_values E') = insert (he_value el) (rh_values E)"
    using len p old pres unfolding rh_values_def E'_def
    by (auto simp: nth_list_update)
qed

text \<open>Storing into an empty slot ends the loop.\<close>

lemma rh_store_ok:
  assumes base: "rh_base hf c E" and dist: "rh_distinct hf cmp E" and eq: "equivp cmp"
    and carry: "rh_carries hf cmp c E p el" and p: "p < c" and free: "\<not> he_present (E ! p)"
  defines "E' \<equiv> E[p := el]"
  shows "rh_base hf c E'" "rh_distinct hf cmp E'" "rh_values E' = insert (he_value el) (rh_values E)"
    "\<exists>q<c. rh_stop (E' ! q)"
proof -
  have len: "length E = c" by (rule rh_baseD(2) [OF base])
  have fresh: "\<And>q. q < c \<Longrightarrow> he_present (E ! q) \<Longrightarrow> \<not> rh_same hf cmp (he_value (E ! q)) (he_value el)"
    and pres: "he_present el" and pl: "rh_placed hf c p el"
    using carry by (auto simp: rh_carries_def)
  have after: "rh_stop (E ! rh_next c p)"
    using rh_baseD(4) [OF base p] free by (auto simp: rh_follows_def rh_stop_def unat_gt_0)
  have one: "c = 1 \<Longrightarrow> he_dib el = 0"
    using pl by (simp add: rh_placed_def unat_eq_0)
  show "rh_base hf c E'"
    unfolding E'_def
  proof (rule rh_base_upd [OF base p])
    show "he_present el \<longrightarrow> rh_placed hf c p el" by (simp add: pl)
    show "\<And>q. q < c \<Longrightarrow> q \<noteq> p \<Longrightarrow> rh_next c q = p \<Longrightarrow> rh_follows (E ! q) el"
      by (rule rh_carries_follows [OF carry])
    show "rh_follows el (E ! rh_next c p)"
      using after by (auto simp: rh_follows_def rh_stop_def)
    show "c = 1 \<Longrightarrow> rh_follows el el" using one by (simp add: rh_follows_in_bucket)
  qed
  show "rh_distinct hf cmp E'"
    unfolding E'_def by (rule rh_distinct_upd [OF dist eq]) (use fresh len p in auto)
  show "rh_values E' = insert (he_value el) (rh_values E)"
    using len p free pres unfolding rh_values_def E'_def
    by (auto simp: nth_list_update)
  show "\<exists>q<c. rh_stop (E' ! q)"
    using after one rh_next_less [OF p] rh_next_self [OF p] p len
    by (intro exI [of _ "rh_next c p"]) (auto simp: E'_def nth_list_update rh_stop_def)
qed

lemma rh_placed_slot:
  "rh_placed hf c p el \<Longrightarrow> c = unat cap \<Longrightarrow> unat ((he_hash el + he_dib el) mod cap) = p"
  by (auto simp: rh_placed_def intro: trans [OF rh_slot])

lemma rh_entry_eq:
  "el\<lparr>he_value := he_value x, he_hash := he_hash x, he_dib := he_dib x\<rparr> = (x :: 'v hentry)"
  if "he_present el = he_present x"
  using that by simp

text \<open>The loop puts a value no entry holds into the first free slot after its bucket, moving the
entries that are closer to their buckets.\<close>

lemma rh_insert_loop_ok:
  assumes "equivp cmp" "c = unat cap"
  shows "\<lbrakk>rh_base hf c E; rh_distinct hf cmp E; rh_carries hf cmp c E p el; p < c;
      \<forall>j<n. he_present (E ! ((p + j) mod c)); \<not> he_present (E ! ((p + n) mod c));
      unat i + n < c; unat (he_dib el) \<le> unat i\<rbrakk> \<Longrightarrow>
    \<exists>E'. rh_insert_loop cmp cap i (he_value el) (he_hash el) (he_dib el) E = Some (E', HTIR_SUCCESS) \<and>
      rh_base hf c E' \<and> rh_distinct hf cmp E' \<and>
      rh_values E' = insert (he_value el) (rh_values E) \<and> (\<exists>q<c. rh_stop (E' ! q))"
proof (induction n arbitrary: E p el i)
  case 0
  have len: "length E = c" by (rule rh_baseD(2) [OF 0(1)])
  have pl: "rh_placed hf c p el" and pres: "he_present el"
    using 0(3) by (auto simp: rh_carries_def)
  have j: "unat ((he_hash el + he_dib el) mod cap) = p"
    by (rule rh_placed_slot [OF pl assms(2)])
  have el: "\<lparr>he_value = he_value el, he_hash = he_hash el, he_dib = he_dib el, he_present = True\<rparr> = el"
    using pres by simp
  have "rh_insert_loop cmp cap i (he_value el) (he_hash el) (he_dib el) E
      = Some (E[p := el], HTIR_SUCCESS)"
    using 0 len assms(2) by (subst rh_insert_loop.simps) (simp add: j el word_less_nat_alt)
  then show ?case
    using rh_store_ok [OF 0(1,2) assms(1) 0(3,4)] 0(4,6) by simp
next
  case (Suc n)
  have len: "length E = c" by (rule rh_baseD(2) [OF Suc.prems(1)])
  have pl: "rh_placed hf c p el" and pres: "he_present el"
    and fresh: "\<And>q. q < c \<Longrightarrow> he_present (E ! q) \<Longrightarrow> \<not> rh_same hf cmp (he_value (E ! q)) (he_value el)"
    using Suc.prems(3) by (auto simp: rh_carries_def)
  have ic: "i < cap" using Suc.prems(7) assms(2) by (simp add: word_less_nat_alt)
  have i1: "unat (i + 1) = unat i + 1" by (rule u32_inc [OF ic])
  have j: "unat ((he_hash el + he_dib el) mod cap) = p"
    by (rule rh_placed_slot [OF pl assms(2)])
  have old: "he_present (E ! p)" using Suc.prems(5) Suc.prems(4) by (auto dest: spec [of _ 0])
  have opl: "rh_placed hf c p (E ! p)" by (rule rh_baseD(3) [OF Suc.prems(1,4) old])
  define p' where "p' = rh_next c p"
  have p': "p' < c" "(p' + k) mod c = (p + Suc k) mod c" for k
    using Suc.prems(4) by (auto simp: p'_def rh_next_less rh_next_mod mod_add_left_eq)
  have uniq: "\<And>q. q < c \<Longrightarrow> rh_next c q = p' \<Longrightarrow> q = p"
    using rh_next_inj [OF _ Suc.prems(4)] by (simp add: p'_def)
  have ahead: "\<forall>j<n. he_present (E ! ((p' + j) mod c))" "\<not> he_present (E ! ((p' + n) mod c))"
    using Suc.prems(5,6) by (auto simp: p'(2))
  have step: "rh_placed hf c p' (x\<lparr>he_dib := he_dib x + 1\<rparr>) \<and> unat (he_dib x + 1) = unat (he_dib x) + 1"
    if "rh_placed hf c p x" "unat (he_dib x) \<le> unat i" for x
  proof -
    have "unat (he_dib x) + 1 < c" using that(2) Suc.prems(7) by simp
    moreover from this have "unat (he_dib x + 1) = unat (he_dib x) + 1"
      using assms(2) by (intro u32_inc [of _ cap]) (simp add: word_less_nat_alt)
    ultimately show ?thesis
      using that(1) Suc.prems(4) by (auto simp: rh_placed_def p'_def rh_next_mod mod_Suc_eq)
  qed
  have nsame: "\<not> (he_hash (E ! p) = he_hash el \<and> cmp (he_value (E ! p)) (he_value el))"
    using fresh [OF Suc.prems(4) old] pl opl by (simp add: rh_same_def rh_placed_def)
  show ?case
  proof (cases "he_dib (E ! p) < he_dib el")
    case True
    let ?E = "E[p := el]" and ?el = "(E ! p)\<lparr>he_dib := he_dib (E ! p) + 1\<rparr>"
    note sw = rh_swap_ok [OF Suc.prems(1,2) assms(1) Suc.prems(3,4) old True]
    have st: "rh_placed hf c p' ?el" "unat (he_dib ?el) = unat (he_dib (E ! p)) + 1"
      using step [OF opl] True Suc.prems(8) by (auto simp: word_less_nat_alt)
    have near: "rh_follows el ?el"
      using st(2) True pres by (simp add: rh_follows_def word_less_nat_alt)
    have "\<And>q. q < c \<Longrightarrow> rh_next c q = p' \<Longrightarrow> rh_follows (?E ! q) ?el"
      using near uniq Suc.prems(4) len by fastforce
    then have carry: "rh_carries hf cmp c ?E p' ?el"
      using old st(1) sw(3) by (simp add: rh_carries_def)
    have entry: "(E ! p)\<lparr>he_value := he_value el, he_hash := he_hash el, he_dib := he_dib el\<rparr> = el"
      by (rule rh_entry_eq) (simp add: old pres)
    have "\<not> rh_same hf cmp (he_value el) (he_value (E ! p))"
      using sw(3) Suc.prems(4) len pres by auto
    then have apart: "\<not> (he_hash el = he_hash (E ! p) \<and> cmp (he_value el) (he_value (E ! p)))"
      using pl opl by (simp add: rh_same_def rh_placed_def)
    have move: "rh_insert_loop cmp cap i (he_value el) (he_hash el) (he_dib el) E
      = rh_insert_loop cmp cap (i + 1) (he_value ?el) (he_hash ?el) (he_dib ?el) ?E"
      using True ic old Suc.prems(4) len apart
      by (subst rh_insert_loop.simps) (auto simp: j Let_def entry)
    have "\<forall>j<n. he_present (?E ! ((p' + j) mod c))" "\<not> he_present (?E ! ((p' + n) mod c))"
      using ahead old pres Suc.prems(4) len by (auto simp: nth_list_update)
    from Suc.IH [OF sw(1,2) carry p'(1) this] st(2) True Suc.prems(7,8)
    show ?thesis by (simp add: move i1 word_less_nat_alt sw(4))
  next
    case False
    let ?el = "el\<lparr>he_dib := he_dib el + 1\<rparr>"
    have st: "rh_placed hf c p' ?el" "unat (he_dib ?el) = unat (he_dib el) + 1"
      using step [OF pl] Suc.prems(8) by auto
    have near: "rh_follows (E ! p) ?el"
      using st(2) False old by (simp add: rh_follows_def word_less_nat_alt)
    have "\<And>q. q < c \<Longrightarrow> rh_next c q = p' \<Longrightarrow> rh_follows (E ! q) ?el"
      using near uniq by fastforce
    then have carry: "rh_carries hf cmp c E p' ?el"
      using pres st(1) fresh by (simp add: rh_carries_def)
    have move: "rh_insert_loop cmp cap i (he_value el) (he_hash el) (he_dib el) E
      = rh_insert_loop cmp cap (i + 1) (he_value ?el) (he_hash ?el) (he_dib ?el) E"
      using False ic old Suc.prems(4) len nsame
      by (subst rh_insert_loop.simps) (auto simp: j Let_def)
    from Suc.IH [OF Suc.prems(1,2) carry p'(1) ahead] st(2) Suc.prems(7,8)
    show ?thesis by (simp add: move i1)
  qed
qed

section \<open>Probing\<close>

text \<open>An entry for the value, seen from its bucket.\<close>

definition rh_holds :: "('v \<Rightarrow> 'v \<Rightarrow> bool) \<Rightarrow> nat \<Rightarrow> 'v hentry list \<Rightarrow> u32 \<Rightarrow> nat \<Rightarrow> 'v \<Rightarrow> 'v \<Rightarrow> bool" where
  "rh_holds cmp c E h d v w \<longleftrightarrow> d < c \<and>
     (let el = E ! ((unat h + d) mod c) in
      he_present el \<and> unat (he_dib el) = d \<and> he_hash el = h \<and> he_value el = w \<and> cmp w v)"

lemma rh_same_slot:
  assumes "d < c" "e < c" "(a + d) mod c = (a + e) mod (c :: nat)"
  shows "d = e"
proof -
  have le: "x = y" if "x \<le> y" "y < c" "(a + x) mod c = (a + y) mod c" for x y
  proof -
    have "c dvd (a + y) - (a + x)"
      using that by (subst mod_eq_dvd_iff_nat [symmetric]) auto
    then have "c dvd y - x" by simp
    then show ?thesis using that(1,2) nat_dvd_not_less [of "y - x" c] by (cases "x = y") auto
  qed
  show ?thesis using assms le [of d e] le [of e d] by (cases "d \<le> e") auto
qed

lemma rh_values_slot:
  assumes base: "rh_base hf c E" and w: "w \<in> rh_values E" and same: "rh_same hf cmp w v"
  shows "\<exists>d. rh_holds cmp c E (hf v) d v w"
proof -
  obtain p where p: "p < c" "he_present (E ! p)" "he_value (E ! p) = w"
    using w rh_baseD(2) [OF base] by (auto simp: rh_values_def)
  have "rh_placed hf c p (E ! p)" by (rule rh_baseD(3) [OF base p(1,2)])
  with p same show ?thesis
    by (intro exI [of _ "unat (he_dib (E ! p))"])
      (auto simp: rh_holds_def rh_placed_def rh_same_def Let_def)
qed

lemma rh_holds_value:
  assumes base: "rh_base hf c E" and h: "rh_holds cmp c E (hf v) d v w"
  shows "w \<in> rh_values E" "rh_same hf cmp w v" "rh_fits c (hf v)"
proof -
  let ?p = "(unat (hf v) + d) mod c"
  have p: "?p < c" using rh_baseD(1) [OF base] by simp
  have pl: "rh_placed hf c ?p (E ! ?p)"
    using rh_baseD(3) [OF base p] h by (simp add: rh_holds_def Let_def)
  show "w \<in> rh_values E"
    using h p rh_baseD(2) [OF base] unfolding rh_values_def rh_holds_def Let_def
    by (intro CollectI exI [of _ ?p]) simp
  show "rh_same hf cmp w v" "rh_fits c (hf v)"
    using h pl by (auto simp: rh_holds_def rh_same_def rh_placed_def Let_def)
qed

lemma rh_loop_slot:
  "c = unat cap \<Longrightarrow> rh_fits c h \<Longrightarrow> i < cap \<Longrightarrow> unat ((h + i) mod cap) = (unat h + unat i) mod c"
  by (rule rh_slot) (simp_all add: word_less_nat_alt)

lemma rh_insert_loop_dup:
  assumes base: "rh_base hf c E" and cap: "c = unat cap" and fits: "rh_fits c h"
    and h: "rh_holds cmp c E h d v w"
  shows "unat i \<le> d \<Longrightarrow> rh_insert_loop cmp cap i v h i E = Some (E, HTIR_EXISTS)"
proof (induction "d - unat i" arbitrary: i)
  case 0
  then have i: "unat i = d" by simp
  then have ic: "i < cap" using h cap by (simp add: rh_holds_def word_less_nat_alt)
  have "(unat h + d) mod c < length E" using rh_baseD(1,2) [OF base] by simp
  then show ?case
    using h i ic by (subst rh_insert_loop.simps)
      (auto simp: rh_loop_slot [OF cap fits ic] rh_holds_def Let_def word_less_nat_alt)
next
  case (Suc n)
  have ic: "i < cap" using Suc h cap by (auto simp: rh_holds_def word_less_nat_alt)
  have p: "(unat h + unat i) mod c < length E" using rh_baseD(1,2) [OF base] by simp
  have near: "he_present (E ! ((unat h + unat i) mod c))
      \<and> unat i \<le> unat (he_dib (E ! ((unat h + unat i) mod c)))"
    by (rule rh_chain [OF base]) (use h Suc.prems in \<open>auto simp: rh_holds_def Let_def\<close>)
  have i1: "unat (i + 1) = unat i + 1" by (rule u32_inc [OF ic])
  have "rh_insert_loop cmp cap (i + 1) v h (i + 1) E = Some (E, HTIR_EXISTS)"
    by (rule Suc.hyps(1)) (use Suc.hyps(2) i1 in auto)
  then show ?case
    using near p ic by (subst rh_insert_loop.simps)
      (auto simp: rh_loop_slot [OF cap fits ic] Let_def word_less_nat_alt)
qed

lemma rh_probe_found:
  assumes base: "rh_base hf c E" and cap: "c = unat cap" and fits: "rh_fits c h"
    and h: "rh_holds cmp c E h d v w"
  shows "unat i \<le> d \<Longrightarrow> \<exists>k u. rh_probe cmp cap i v h i E = Some (Probe_found k u)"
proof (induction "d - unat i" arbitrary: i)
  case 0
  then have i: "unat i = d" by simp
  then have ic: "i < cap" using h cap by (simp add: rh_holds_def word_less_nat_alt)
  have "(unat h + d) mod c < length E" using rh_baseD(1,2) [OF base] by simp
  then show ?case
    using h i ic by (subst rh_probe.simps)
      (auto simp: rh_loop_slot [OF cap fits ic] rh_holds_def Let_def word_less_nat_alt)
next
  case (Suc n)
  have ic: "i < cap" using Suc h cap by (auto simp: rh_holds_def word_less_nat_alt)
  have p: "(unat h + unat i) mod c < length E" using rh_baseD(1,2) [OF base] by simp
  have near: "he_present (E ! ((unat h + unat i) mod c))
      \<and> unat i \<le> unat (he_dib (E ! ((unat h + unat i) mod c)))"
    by (rule rh_chain [OF base]) (use h Suc.prems in \<open>auto simp: rh_holds_def Let_def\<close>)
  have i1: "unat (i + 1) = unat i + 1" by (rule u32_inc [OF ic])
  have "\<exists>k u. rh_probe cmp cap (i + 1) v h (i + 1) E = Some (Probe_found k u)"
    by (rule Suc.hyps(1)) (use Suc.hyps(2) i1 in auto)
  then show ?case
    using near p ic by (subst rh_probe.simps)
      (auto simp: rh_loop_slot [OF cap fits ic] Let_def word_less_nat_alt)
qed

text \<open>What the probe says is so.\<close>

lemma rh_probe_sound:
  assumes base: "rh_base hf c E" and cap: "c = unat cap" and fits: "rh_fits c h"
  shows "\<exists>r. rh_probe cmp cap i v h i E = Some r \<and>
    (\<forall>k w. r = Probe_found k w \<longrightarrow> rh_holds cmp c E h (unat k) v w)"
proof (induction "c - unat i" arbitrary: i)
  case 0
  then show ?case using cap by (subst rh_probe.simps) (simp add: word_less_nat_alt)
next
  case (Suc n)
  then have ic: "i < cap" using cap by (simp add: word_less_nat_alt)
  let ?p = "(unat h + unat i) mod c"
  have p: "?p < length E" "?p < c" using rh_baseD(1,2) [OF base] by auto
  have i1: "unat (i + 1) = unat i + 1" by (rule u32_inc [OF ic])
  have rest: "\<exists>r. rh_probe cmp cap (i + 1) v h (i + 1) E = Some r \<and>
    (\<forall>k w. r = Probe_found k w \<longrightarrow> rh_holds cmp c E h (unat k) v w)"
    by (rule Suc.hyps(1)) (use Suc.hyps(2) i1 in auto)
  have here: "rh_holds cmp c E h (unat i) v (he_value (E ! ?p))"
    if "he_present (E ! ?p)" "he_hash (E ! ?p) = h" "cmp (he_value (E ! ?p)) v"
  proof -
    have "rh_placed hf c ?p (E ! ?p)" by (rule rh_baseD(3) [OF base p(2) that(1)])
    then have "unat (he_dib (E ! ?p)) = unat i"
      using rh_same_slot [of "unat (he_dib (E ! ?p))" c "unat i" "unat h"] that(2) ic cap
      by (auto simp: rh_placed_def word_less_nat_alt)
    then show ?thesis using that ic cap by (auto simp: rh_holds_def Let_def word_less_nat_alt)
  qed
  show ?case
    using p(1) ic rest here by (subst rh_probe.simps)
      (auto simp: rh_loop_slot [OF cap fits ic] Let_def)
qed

section \<open>Closing the hole\<close>

text \<open>The table with a slot struck out; what the loop moves back is what its hole would lose.\<close>

definition rh_dead :: "'v hentry list \<Rightarrow> nat \<Rightarrow> 'v hentry list" where
  "rh_dead E q = E[q := (E ! q)\<lparr>he_present := False\<rparr>]"

lemma rh_dead_ok:
  assumes base: "rh_base hf c E" and q: "q < c" and stop: "rh_stop (E ! rh_next c q)"
  shows "rh_base hf c (rh_dead E q)" "\<exists>p<c. rh_stop (rh_dead E q ! p)"
proof -
  show "rh_base hf c (rh_dead E q)"
    unfolding rh_dead_def
    by (rule rh_base_upd [OF base q]) (use stop in \<open>auto simp: rh_follows_def rh_stop_def\<close>)
  show "\<exists>p<c. rh_stop (rh_dead E q ! p)"
    using q rh_baseD(2) [OF base] by (intro exI [of _ q]) (simp add: rh_dead_def rh_stop_def)
qed

lemma rh_values_dead:
  "q < length E \<Longrightarrow> rh_values (rh_dead E q) =
     {he_value (E ! p) | p. p < length E \<and> p \<noteq> q \<and> he_present (E ! p)}"
  unfolding rh_values_def rh_dead_def
  by (intro Collect_cong iff_exI) (auto simp: nth_list_update)

lemma rh_distinct_dead:
  "q < length E \<Longrightarrow> rh_distinct hf cmp (rh_dead E q) \<longleftrightarrow>
     (\<forall>p<length E. \<forall>r<length E. p \<noteq> q \<longrightarrow> r \<noteq> q \<longrightarrow> he_present (E ! p) \<longrightarrow> he_present (E ! r) \<longrightarrow>
        rh_same hf cmp (he_value (E ! p)) (he_value (E ! r)) \<longrightarrow> p = r)"
  by (auto simp: rh_distinct_def rh_dead_def nth_list_update)

lemma rh_dead_values:
  assumes base: "rh_base hf c E" and dist: "rh_distinct hf cmp E" and eq: "equivp cmp"
    and q: "q < c" "he_present (E ! q)"
  shows "rh_distinct hf cmp (rh_dead E q)" "rh_values (rh_dead E q) = rh_values E - {he_value (E ! q)}"
proof -
  have len: "length E = c" by (rule rh_baseD(2) [OF base])
  show "rh_distinct hf cmp (rh_dead E q)"
    using dist len q by (auto simp: rh_distinct_def rh_dead_def nth_list_update)
  have "\<And>p. p < c \<Longrightarrow> he_present (E ! p) \<Longrightarrow> he_value (E ! p) = he_value (E ! q) \<Longrightarrow> p = q"
    using dist len q equivp_reflp [OF eq] by (simp add: rh_distinct_def rh_same_def)
  then show "rh_values (rh_dead E q) = rh_values E - {he_value (E ! q)}"
    using len q by (auto simp: rh_values_dead) (auto simp: rh_values_def)
qed

text \<open>One move.\<close>

definition rh_moved :: "'v hentry \<Rightarrow> 'v hentry" where
  "rh_moved nx = nx\<lparr>he_dib := he_dib nx - 1\<rparr>"

lemma rh_moved_present [simp]: "he_present (rh_moved nx) = he_present nx"
  by (simp add: rh_moved_def)

lemma rh_entry_moved:
  "he_present el = he_present nx \<Longrightarrow>
   el\<lparr>he_value := he_value nx, he_hash := he_hash nx, he_dib := he_dib nx - 1\<rparr> = rh_moved nx"
  by (cases el, cases nx) (simp add: rh_moved_def)

lemma rh_move_ok:
  assumes base: "rh_base hf c E" and q: "q < c" "he_present (E ! q)"
    and go: "\<not> rh_stop (E ! rh_next c q)"
  defines "E' \<equiv> E[q := rh_moved (E ! rh_next c q)]"
  shows "rh_base hf c E'" "rh_next c q \<noteq> q"
    "rh_distinct hf cmp (rh_dead E q) \<Longrightarrow> rh_distinct hf cmp (rh_dead E' (rh_next c q))"
    "rh_values (rh_dead E' (rh_next c q)) = rh_values (rh_dead E q)"
    "rh_stop (E ! q) \<Longrightarrow> rh_stop (E' ! q)"
proof -
  let ?nx = "E ! rh_next c q"
  have len: "length E = c" by (rule rh_baseD(2) [OF base])
  have nq: "rh_next c q < c" by (rule rh_next_less [OF q(1)])
  have pres: "he_present ?nx" and far: "0 < unat (he_dib ?nx)"
    using go by (auto simp: rh_stop_def unat_gt_0)
  have pl: "rh_placed hf c (rh_next c q) ?nx" by (rule rh_baseD(3) [OF base nq pres])
  have foll: "rh_follows (E ! q) ?nx" by (rule rh_baseD(4) [OF base q(1)])
  have dib: "unat (he_dib (rh_moved ?nx)) = unat (he_dib ?nx) - 1"
    using far by (simp add: rh_moved_def)
  have c1: "c \<noteq> 1" using pl far by (auto simp: rh_placed_def)
  then show nxq: "rh_next c q \<noteq> q" using rh_next_self [OF q(1)] by simp
  have sum: "(unat (he_hash ?nx) + unat (he_dib ?nx)) mod c = rh_next c q"
    using pl unfolding rh_placed_def by blast
  have "rh_next c ((unat (he_hash ?nx) + (unat (he_dib ?nx) - 1)) mod c)
      = Suc (unat (he_hash ?nx) + (unat (he_dib ?nx) - 1)) mod c"
    by (rule rh_next_slot) (use q(1) in simp)
  also have "\<dots> = rh_next c q" using sum far by simp
  finally have "rh_next c ((unat (he_hash ?nx) + (unat (he_dib ?nx) - 1)) mod c) = rh_next c q" .
  from rh_next_inj [OF mod_less_divisor q(1) this]
  have "(unat (he_hash ?nx) + (unat (he_dib ?nx) - 1)) mod c = q"
    using q(1) by simp
  moreover have "he_hash (rh_moved ?nx) = he_hash ?nx" "he_value (rh_moved ?nx) = he_value ?nx"
    by (simp_all add: rh_moved_def)
  ultimately have placed: "rh_placed hf c q (rh_moved ?nx)"
    using pl unfolding rh_placed_def dib by auto
  show "rh_base hf c E'"
    unfolding E'_def
  proof (rule rh_base_upd [OF base q(1)])
    show "he_present (rh_moved ?nx) \<longrightarrow> rh_placed hf c q (rh_moved ?nx)" by (simp add: placed)
    show "rh_follows (E ! r) (rh_moved ?nx)" if "r < c" "rh_next c r = q" for r
      using rh_baseD(4) [OF base that(1)] foll that(2) dib pres q(2)
      by (auto simp: rh_follows_def)
    show "rh_follows (rh_moved ?nx) ?nx" using dib pres by (simp add: rh_follows_def rh_moved_def)
    show "c = 1 \<Longrightarrow> rh_follows (rh_moved ?nx) (rh_moved ?nx)" using c1 by simp
  qed
  show "rh_stop (E ! q) \<Longrightarrow> rh_stop (E' ! q)"
    using foll dib pres far q len by (auto simp: rh_stop_def rh_follows_def E'_def unat_eq_0)
  show "rh_values (rh_dead E' (rh_next c q)) = rh_values (rh_dead E q)"
  proof (intro equalityI subsetI)
    fix v assume "v \<in> rh_values (rh_dead E' (rh_next c q))"
    then obtain p where "p < c" "p \<noteq> rh_next c q" "he_present (E' ! p)" "v = he_value (E' ! p)"
      using len nq by (auto simp: rh_values_dead E'_def)
    then show "v \<in> rh_values (rh_dead E q)"
      using len q nq nxq pres
      by (cases "p = q") (auto simp: rh_values_dead E'_def rh_moved_def)
  next
    fix v assume "v \<in> rh_values (rh_dead E q)"
    then obtain p where "p < c" "p \<noteq> q" "he_present (E ! p)" "v = he_value (E ! p)"
      using len q by (auto simp: rh_values_dead)
    then have "\<exists>r<c. r \<noteq> rh_next c q \<and> he_present (E' ! r) \<and> v = he_value (E' ! r)"
      using len q nq nxq pres
      by (intro exI [of _ "if p = rh_next c q then q else p"]) (auto simp: E'_def rh_moved_def)
    then show "v \<in> rh_values (rh_dead E' (rh_next c q))"
      using len nq by (auto simp: rh_values_dead E'_def)
  qed
  show "rh_distinct hf cmp (rh_dead E' (rh_next c q))" if "rh_distinct hf cmp (rh_dead E q)"
  proof -
    define f where "f p = (if p = q then rh_next c q else p)" for p
    have f: "f p < c" "f p \<noteq> q" "he_present (E' ! p) = he_present (E ! f p)"
      "he_value (E' ! p) = he_value (E ! f p)" if "p < c" "p \<noteq> rh_next c q" for p
      using that len q nq nxq by (auto simp: f_def E'_def rh_moved_def)
    have inj: "p = r" if "f p = f r" "p \<noteq> rh_next c q" "r \<noteq> rh_next c q" for p r
      using that by (auto simp: f_def split: if_splits)
    have D: "\<And>p r. p < c \<Longrightarrow> r < c \<Longrightarrow> p \<noteq> q \<Longrightarrow> r \<noteq> q \<Longrightarrow> he_present (E ! p) \<Longrightarrow>
        he_present (E ! r) \<Longrightarrow> rh_same hf cmp (he_value (E ! p)) (he_value (E ! r)) \<Longrightarrow> p = r"
      using that len q(1) unfolding rh_distinct_dead [OF q(1) [folded len]] by simp
    have "p = r" if pr: "p < c" "r < c" "p \<noteq> rh_next c q" "r \<noteq> rh_next c q"
      and occ: "he_present (E' ! p)" "he_present (E' ! r)"
      and same: "rh_same hf cmp (he_value (E' ! p)) (he_value (E' ! r))" for p r
      using inj [OF D [OF f(1,1,2,2)] pr(3,4)] pr occ same f(3,4) [OF pr(1,3)] f(3,4) [OF pr(2,4)]
      by simp
    then show ?thesis using len nq by (auto simp: rh_distinct_dead E'_def)
  qed
qed

lemma rh_shift_loop_ok:
  assumes cap: "c = unat cap" and fits: "rh_fits c h"
  shows "\<lbrakk>rh_base hf c E; i < cap; he_present (E ! ((unat h + unat i) mod c));
      rh_distinct hf cmp (rh_dead E ((unat h + unat i) mod c));
      unat i \<le> j; j < c; rh_stop (E ! ((unat h + j + 1) mod c))\<rbrakk> \<Longrightarrow>
    \<exists>E'. rh_shift_loop cap i h E = Some (E', HTAR_SUCCESS) \<and>
      rh_base hf c E' \<and> rh_distinct hf cmp E' \<and>
      rh_values E' = rh_values (rh_dead E ((unat h + unat i) mod c)) \<and>
      (\<exists>p<c. rh_stop (E' ! p))"
proof (induction "c - unat i" arbitrary: i E rule: less_induct)
  case less
  let ?q = "(unat h + unat i) mod c" and ?n = "rh_next c ((unat h + unat i) mod c)"
  have c: "0 < c" and len: "length E = c" by (rule rh_baseD [OF less.prems(1)])+
  have q: "?q < c" "?n < c" using c by (auto simp: rh_next_less)
  have hole: "unat ((h + i) mod cap) = ?q" by (rule rh_loop_slot [OF cap fits less.prems(2)])
  have i1: "unat (i + 1) = unat i + 1" by (rule u32_inc [OF less.prems(2)])
  have nxt: "unat ((h + i + 1) mod cap) = ?n"
    using fits less.prems(2) i1 c cap
    by (simp add: rh_next_slot rh_fits_def add.assoc u32_add_mod_nat word_less_nat_alt)
  show ?case
  proof (cases "rh_stop (E ! ?n)")
    case True
    then have "rh_shift_loop cap i h E = Some (rh_dead E ?q, HTAR_SUCCESS)"
      using less.prems(2) q len
      by (subst rh_shift_loop.simps) (simp add: hole nxt rh_dead_def rh_stop_def Let_def)
    then show ?thesis
      using rh_dead_ok [OF less.prems(1) q(1) True] less.prems(4) by simp
  next
    case False
    let ?E = "E[?q := rh_moved (E ! ?n)]"
    note mv = rh_move_ok [OF less.prems(1) q(1) less.prems(3) False]
    have eq: "E[?q := (E ! ?q)\<lparr>he_value := he_value (E ! ?n), he_hash := he_hash (E ! ?n),
        he_dib := he_dib (E ! ?n) - 1\<rparr>] = ?E"
      using less.prems(3) False by (simp add: rh_entry_moved rh_stop_def)
    have move: "rh_shift_loop cap i h E = rh_shift_loop cap (i + 1) h ?E"
      using less.prems(2,3) q len False mv(2)
      by (subst rh_shift_loop.simps) (simp add: hole nxt Let_def rh_stop_def eq word_gt_0)
    have ij: "unat (i + 1) \<le> j"
      using False less.prems(5,7) i1 c by (cases "j = unat i") (auto simp: rh_next_slot)
    then have ic: "i + 1 < cap" using less.prems(6) cap by (simp add: word_less_nat_alt)
    have n: "(unat h + unat (i + 1)) mod c = ?n" using i1 c by (simp add: rh_next_slot)
    have less': "c - unat (i + 1) < c - unat i" using less.prems(2) cap i1 by (simp add: word_less_nat_alt)
    have st: "rh_stop (?E ! ((unat h + j + 1) mod c))"
      using less.prems(7) mv(5) len q(1) by (cases "(unat h + j + 1) mod c = ?q") auto
    have pr: "he_present (?E ! ((unat h + unat (i + 1)) mod c))"
      unfolding n using False mv(2) by (simp add: rh_stop_def)
    have ds: "rh_distinct hf cmp (rh_dead ?E ((unat h + unat (i + 1)) mod c))"
      unfolding n by (rule mv(3) [OF less.prems(4)])
    note less.hyps [OF less' mv(1) ic pr ds ij less.prems(6) st]
    then show ?thesis by (simp only: move n mv(4))
  qed
qed

section \<open>The operations\<close>

lemma rh_wf_cap: "rh_wf hf cmp ht \<Longrightarrow> 0 < ht_cap ht"
  by (simp add: rh_wf_def rh_base_def word_less_nat_alt)

text \<open>A table with as many entries as slots has no free one, and conversely.\<close>

lemma rh_values_card:
  assumes base: "rh_base hf c E" and dist: "rh_distinct hf cmp E" and eq: "equivp cmp"
  shows "card (rh_values E) = card {p. p < c \<and> he_present (E ! p)}" "finite (rh_values E)"
proof -
  have img: "rh_values E = (\<lambda>p. he_value (E ! p)) ` {p. p < c \<and> he_present (E ! p)}"
    using rh_baseD(2) [OF base] by (auto simp: rh_values_def)
  have "inj_on (\<lambda>p. he_value (E ! p)) {p. p < c \<and> he_present (E ! p)}"
    using dist rh_baseD(2) [OF base] equivp_reflp [OF eq]
    by (auto simp: inj_on_def rh_distinct_def rh_same_def)
  then show "card (rh_values E) = card {p. p < c \<and> he_present (E ! p)}"
    unfolding img by (rule card_image)
  show "finite (rh_values E)" unfolding img by simp
qed

lemma rh_free_slot:
  assumes "rh_base hf c E" "rh_distinct hf cmp E" "equivp cmp" "card (rh_values E) < c"
  shows "\<exists>p<c. \<not> he_present (E ! p)"
proof (rule ccontr)
  assume "\<not> (\<exists>p<c. \<not> he_present (E ! p))"
  then have "{p. p < c \<and> he_present (E ! p)} = {..<c}" by auto
  then show False using assms(4) rh_values_card(1) [OF assms(1-3)] by simp
qed

text \<open>Every slot lies some number of probes ahead of any other.\<close>

lemma rh_ahead:
  assumes "0 < c" "p < (c :: nat)"
  shows "\<exists>n<c. (a + n) mod c = p"
proof (intro exI conjI)
  show "(p + (c - a mod c)) mod c < c" using assms(1) by simp
  have "a mod c < c" using assms(1) by simp
  then have "a mod c + (p + (c - a mod c)) = p + c" by simp
  then show "(a + (p + (c - a mod c)) mod c) mod c = p"
    using assms(2) by (metis mod_add_eq mod_add_right_eq mod_add_self2 mod_less mod_mod_trivial)
qed

lemma rh_insert_new:
  assumes wf: "rh_wf hf cmp ht" and eq: "equivp cmp" and fits: "rh_fits (unat (ht_cap ht)) (hf v)"
    and room: "card (rh_values (ht_elems ht)) < unat (ht_cap ht)"
    and new: "\<forall>w\<in>rh_values (ht_elems ht). \<not> rh_same hf cmp w v"
  shows "\<exists>E. rh_insert hf cmp ht v = Some (ht\<lparr>ht_elems := E\<rparr>, HTIR_SUCCESS) \<and>
    rh_wf hf cmp (ht\<lparr>ht_elems := E\<rparr>) \<and> rh_values E = insert v (rh_values (ht_elems ht))"
proof -
  let ?c = "unat (ht_cap ht)" and ?E = "ht_elems ht"
  have base: "rh_base hf ?c ?E" and dist: "rh_distinct hf cmp ?E" using wf by (auto simp: rh_wf_def)
  have c: "0 < ?c" by (rule rh_baseD(1) [OF base])
  let ?p = "unat (hf v) mod ?c"
  define el where "el = \<lparr>he_value = v, he_hash = hf v, he_dib = 0, he_present = True\<rparr>"
  obtain q where "q < ?c" "\<not> he_present (?E ! q)" using rh_free_slot [OF base dist eq room] by blast
  then have ex: "\<exists>n. n < ?c \<and> \<not> he_present (?E ! ((?p + n) mod ?c))"
    using rh_ahead [OF c, of q ?p] by auto
  define n where "n = (LEAST n. n < ?c \<and> \<not> he_present (?E ! ((?p + n) mod ?c)))"
  have n: "n < ?c" "\<not> he_present (?E ! ((?p + n) mod ?c))"
    using LeastI_ex [OF ex] by (auto simp: n_def)
  have before: "\<forall>j<n. he_present (?E ! ((?p + j) mod ?c))"
  proof (intro allI impI)
    fix j assume j: "j < n"
    then have "\<not> (j < ?c \<and> \<not> he_present (?E ! ((?p + j) mod ?c)))"
      unfolding n_def by (rule not_less_Least)
    with j n(1) show "he_present (?E ! ((?p + j) mod ?c))" by simp
  qed
  have carry: "rh_carries hf cmp ?c ?E ?p el"
    using new fits c rh_baseD(2) [OF base]
    by (auto simp: rh_carries_def rh_placed_def el_def rh_values_def)
  show ?thesis
    using rh_insert_loop_ok [OF eq refl base dist carry _ before n(2), of 0] n(1) c rh_wf_cap [OF wf]
    by (auto simp: rh_insert_def el_def rh_wf_def)
qed

lemma rh_insert_dup:
  assumes wf: "rh_wf hf cmp ht" and w: "w \<in> rh_values (ht_elems ht)" "rh_same hf cmp w v"
  shows "rh_insert hf cmp ht v = Some (ht, HTIR_EXISTS)"
proof -
  have base: "rh_base hf (unat (ht_cap ht)) (ht_elems ht)" using wf by (simp add: rh_wf_def)
  obtain d where h: "rh_holds cmp (unat (ht_cap ht)) (ht_elems ht) (hf v) d v w"
    using rh_values_slot [OF base w] by blast
  show ?thesis
    using rh_insert_loop_dup [OF base refl rh_holds_value(3) [OF base h] h, of 0] rh_wf_cap [OF wf]
    by (simp add: rh_insert_def)
qed

text \<open>Probing decides membership.\<close>

lemma rh_probe_cases:
  assumes wf: "rh_wf hf cmp ht" and fits: "rh_fits (unat (ht_cap ht)) (hf v)"
  obtains (found) k w where "rh_probe cmp (ht_cap ht) 0 v (hf v) 0 (ht_elems ht) = Some (Probe_found k w)"
      "rh_holds cmp (unat (ht_cap ht)) (ht_elems ht) (hf v) (unat k) v w"
    | (missing) r where "rh_probe cmp (ht_cap ht) 0 v (hf v) 0 (ht_elems ht) = Some r"
      "r = Probe_missing \<or> r = Probe_end" "\<forall>w\<in>rh_values (ht_elems ht). \<not> rh_same hf cmp w v"
proof -
  have base: "rh_base hf (unat (ht_cap ht)) (ht_elems ht)" using wf by (simp add: rh_wf_def)
  obtain r where r: "rh_probe cmp (ht_cap ht) 0 v (hf v) 0 (ht_elems ht) = Some r"
    "\<And>k w. r = Probe_found k w \<Longrightarrow>
       rh_holds cmp (unat (ht_cap ht)) (ht_elems ht) (hf v) (unat k) v w"
    using rh_probe_sound [OF base refl fits] by blast
  have "\<exists>k u. r = Probe_found k u"
    if w: "w \<in> rh_values (ht_elems ht)" "rh_same hf cmp w v" for w
  proof -
    obtain d where h: "rh_holds cmp (unat (ht_cap ht)) (ht_elems ht) (hf v) d v w"
      using rh_values_slot [OF base w] by blast
    show ?thesis using rh_probe_found [OF base refl fits h, of 0] r(1) by auto
  qed
  with r show ?thesis by (cases r) (auto intro: found missing)
qed

lemma rh_get_ok:
  assumes wf: "rh_wf hf cmp ht" and fits: "rh_fits (unat (ht_cap ht)) (hf v)"
  shows "(\<exists>w\<in>rh_values (ht_elems ht). rh_same hf cmp w v \<and>
            rh_get hf cmp ht v = Some (HTAR_SUCCESS, Some w)) \<or>
    (\<forall>w\<in>rh_values (ht_elems ht). \<not> rh_same hf cmp w v) \<and>
      rh_get hf cmp ht v = Some (HTAR_DOESNT_EXIST, None)"
proof -
  have base: "rh_base hf (unat (ht_cap ht)) (ht_elems ht)" using wf by (simp add: rh_wf_def)
  show ?thesis
  proof (rule rh_probe_cases [OF wf fits])
    fix k w
    assume found: "rh_probe cmp (ht_cap ht) 0 v (hf v) 0 (ht_elems ht) = Some (Probe_found k w)"
      "rh_holds cmp (unat (ht_cap ht)) (ht_elems ht) (hf v) (unat k) v w"
    then show ?thesis
      using rh_wf_cap [OF wf] rh_holds_value [OF base found(2)] by (auto simp: rh_get_def)
  next
    fix r
    assume missing: "rh_probe cmp (ht_cap ht) 0 v (hf v) 0 (ht_elems ht) = Some r"
      "r = Probe_missing \<or> r = Probe_end" "\<forall>w\<in>rh_values (ht_elems ht). \<not> rh_same hf cmp w v"
    then show ?thesis using rh_wf_cap [OF wf] by (auto simp: rh_get_def)
  qed
qed

lemma rh_delete_missing:
  assumes wf: "rh_wf hf cmp ht" and fits: "rh_fits (unat (ht_cap ht)) (hf v)"
    and new: "\<forall>w\<in>rh_values (ht_elems ht). \<not> rh_same hf cmp w v"
  shows "rh_delete hf cmp ht v = Some (ht, HTAR_DOESNT_EXIST, None)"
proof -
  have base: "rh_base hf (unat (ht_cap ht)) (ht_elems ht)" using wf by (simp add: rh_wf_def)
  show ?thesis
  proof (rule rh_probe_cases [OF wf fits])
    fix k w
    assume found: "rh_probe cmp (ht_cap ht) 0 v (hf v) 0 (ht_elems ht) = Some (Probe_found k w)"
      "rh_holds cmp (unat (ht_cap ht)) (ht_elems ht) (hf v) (unat k) v w"
    then show ?thesis using rh_holds_value [OF base found(2)] new by blast
  next
    fix r
    assume missing: "rh_probe cmp (ht_cap ht) 0 v (hf v) 0 (ht_elems ht) = Some r"
      "r = Probe_missing \<or> r = Probe_end" "\<forall>w\<in>rh_values (ht_elems ht). \<not> rh_same hf cmp w v"
    then show ?thesis using rh_wf_cap [OF wf] by (auto simp: rh_delete_def)
  qed
qed

text \<open>An entry found at distance \<open>d\<close> leaves a slot that stops the shift within the rounds the loop has left.\<close>

lemma rh_stop_ahead:
  assumes base: "rh_base hf c E" and h: "rh_holds cmp c E h d v w"
    and stop: "q < c" "rh_stop (E ! q)"
  shows "\<exists>j. d \<le> j \<and> j < c \<and> rh_stop (E ! ((unat h + j + 1) mod c))"
proof -
  have c: "0 < c" by (rule rh_baseD(1) [OF base])
  obtain n where n: "n < c" "(unat h + n) mod c = q" using rh_ahead [OF c stop(1)] by blast
  have chain: "he_present (E ! ((unat h + j) mod c)) \<and> j \<le> unat (he_dib (E ! ((unat h + j) mod c)))"
    if "j \<le> d" for j
    by (rule rh_chain [OF base _ _ that]) (use h in \<open>auto simp: rh_holds_def Let_def\<close>)
  show ?thesis
  proof (cases "n = 0")
    case True
    then have "(unat h + (c - 1) + 1) mod c = q" using n c by simp
    then show ?thesis using stop(2) h c
      by (intro exI [of _ "c - 1"]) (auto simp: rh_holds_def)
  next
    case False
    have "d < n" using chain [of n] stop(2) False n(2) by (force simp: rh_stop_def)
    then show ?thesis using n stop(2) by (intro exI [of _ "n - 1"]) auto
  qed
qed

lemma rh_delete_found:
  assumes wf: "rh_wf hf cmp ht" and eq: "equivp cmp" and fits: "rh_fits (unat (ht_cap ht)) (hf v)"
    and w: "w \<in> rh_values (ht_elems ht)" "rh_same hf cmp w v"
  shows "\<exists>E u. rh_delete hf cmp ht v = Some (ht\<lparr>ht_elems := E\<rparr>, HTAR_SUCCESS, Some u) \<and>
    rh_wf hf cmp (ht\<lparr>ht_elems := E\<rparr>) \<and> u \<in> rh_values (ht_elems ht) \<and> rh_same hf cmp u v \<and>
    rh_values E = rh_values (ht_elems ht) - {u}"
proof -
  let ?c = "unat (ht_cap ht)" and ?E = "ht_elems ht"
  have base: "rh_base hf ?c ?E" and dist: "rh_distinct hf cmp ?E" using wf by (auto simp: rh_wf_def)
  obtain q where q: "q < ?c" "rh_stop (?E ! q)" using wf by (auto simp: rh_wf_def)
  obtain k u where r: "rh_probe cmp (ht_cap ht) 0 v (hf v) 0 ?E = Some (Probe_found k u)"
    and h: "rh_holds cmp ?c ?E (hf v) (unat k) v u"
    by (rule rh_probe_cases [OF wf fits]) (use w in auto)
  obtain j where j: "unat k \<le> j" "j < ?c" "rh_stop (?E ! ((unat (hf v) + j + 1) mod ?c))"
    using rh_stop_ahead [OF base h q] by blast
  let ?s = "(unat (hf v) + unat k) mod ?c"
  have s: "?s < ?c" "he_present (?E ! ?s)" "he_value (?E ! ?s) = u" and k: "k < ht_cap ht"
    using h rh_baseD(1) [OF base] by (auto simp: rh_holds_def Let_def word_less_nat_alt)
  note dead = rh_dead_values [OF base dist eq s(1,2)]
  from rh_shift_loop_ok [OF refl fits base k s(2) dead(1) j]
  obtain E where E: "rh_shift_loop (ht_cap ht) k (hf v) ?E = Some (E, HTAR_SUCCESS)"
    "rh_base hf ?c E" "rh_distinct hf cmp E" "rh_values E = rh_values ?E - {u}"
    "\<exists>p<?c. rh_stop (E ! p)"
    by (auto simp: dead(2) s(3))
  have "rh_delete hf cmp ht v = Some (ht\<lparr>ht_elems := E\<rparr>, HTAR_SUCCESS, Some u)"
    using r E(1) rh_wf_cap [OF wf] by (simp add: rh_delete_def)
  with E rh_holds_value [OF base h] show ?thesis
    by (intro exI [of _ E] exI [of _ u]) (simp add: rh_wf_def)
qed

lemma rh_init_ok:
  assumes "0 < n" "unat n \<le> length arr"
  shows "\<exists>ht. rh_init zero arr n = Some ht \<and> rh_wf hf cmp ht \<and> rh_values (ht_elems ht) = {} \<and> ht_cap ht = n"
  using assms rh_next_less [of _ "unat n"]
  by (auto simp: rh_init_def rh_wf_def rh_base_def rh_distinct_def rh_values_def rh_stop_def
      rh_follows_def word_less_nat_alt)

end
