(* ===== verification/Value_table.thy ===== *)
theory Value_table
  imports Robin_hood
begin

text \<open>
  What the hash tables promise, as one interface: a bounded set of values in which no two
  have the same key, searched and thinned out by key. \<open>ref_run\<close> is the promise as a
  program: a list searched from the front. A client of any table of the interface sees
  what it would see of that list.
\<close>

section \<open>The reference\<close>

datatype ('v, 'k) table_op = Op_insert 'v | Op_get 'k | Op_delete 'k

datatype 'v table_res = Res_insert hti_res | Res_access hta_res "'v option"

text \<open>A list of at most \<open>n\<close> values. Inserting into a full list is outside the contract
(\<open>None\<close>), as is a key the table cannot take.\<close>

fun ref_step ::
  "('v \<Rightarrow> 'k \<Rightarrow> bool) \<Rightarrow> ('v \<Rightarrow> 'k) \<Rightarrow> ('k \<Rightarrow> bool) \<Rightarrow> nat \<Rightarrow> 'v list \<Rightarrow> ('v, 'k) table_op \<Rightarrow>
   ('v list \<times> 'v table_res) option" where
  "ref_step has key ok n xs (Op_insert v) =
     (if \<not> ok (key v) then None
      else case find (\<lambda>w. has w (key v)) xs of
        Some w \<Rightarrow> Some (xs, Res_insert HTIR_EXISTS)
      | None \<Rightarrow> if length xs < n then Some (v # xs, Res_insert HTIR_SUCCESS) else None)"
| "ref_step has key ok n xs (Op_get k) =
     (if \<not> ok k then None
      else case find (\<lambda>w. has w k) xs of
        Some w \<Rightarrow> Some (xs, Res_access HTAR_SUCCESS (Some w))
      | None \<Rightarrow> Some (xs, Res_access HTAR_DOESNT_EXIST None))"
| "ref_step has key ok n xs (Op_delete k) =
     (if \<not> ok k then None
      else case find (\<lambda>w. has w k) xs of
        Some w \<Rightarrow> Some (filter (\<lambda>u. \<not> has u k) xs, Res_access HTAR_SUCCESS (Some w))
      | None \<Rightarrow> Some (xs, Res_access HTAR_DOESNT_EXIST None))"

fun ref_run ::
  "('v \<Rightarrow> 'k \<Rightarrow> bool) \<Rightarrow> ('v \<Rightarrow> 'k) \<Rightarrow> ('k \<Rightarrow> bool) \<Rightarrow> nat \<Rightarrow> 'v list \<Rightarrow> ('v, 'k) table_op list \<Rightarrow>
   'v table_res list option" where
  "ref_run has key ok n xs [] = Some []"
| "ref_run has key ok n xs (x # ops) = do {
     (xs, r) \<leftarrow> ref_step has key ok n xs x;
     rs \<leftarrow> ref_run has key ok n xs ops;
     Some (r # rs)
   }"

text \<open>The same commands on a table.\<close>

fun table_step ::
  "('t \<Rightarrow> 'v \<Rightarrow> ('t \<times> hti_res) option) \<Rightarrow> ('t \<Rightarrow> 'k \<Rightarrow> (hta_res \<times> 'v option) option) \<Rightarrow>
   ('t \<Rightarrow> 'k \<Rightarrow> ('t \<times> hta_res \<times> 'v option) option) \<Rightarrow> 't \<Rightarrow> ('v, 'k) table_op \<Rightarrow>
   ('t \<times> 'v table_res) option" where
  "table_step ins get del t (Op_insert v) = do { (t, r) \<leftarrow> ins t v; Some (t, Res_insert r) }"
| "table_step ins get del t (Op_get k) = do { (r, w) \<leftarrow> get t k; Some (t, Res_access r w) }"
| "table_step ins get del t (Op_delete k) = do { (t, r, w) \<leftarrow> del t k; Some (t, Res_access r w) }"

fun table_run ::
  "('t \<Rightarrow> 'v \<Rightarrow> ('t \<times> hti_res) option) \<Rightarrow> ('t \<Rightarrow> 'k \<Rightarrow> (hta_res \<times> 'v option) option) \<Rightarrow>
   ('t \<Rightarrow> 'k \<Rightarrow> ('t \<times> hta_res \<times> 'v option) option) \<Rightarrow> 't \<Rightarrow> ('v, 'k) table_op list \<Rightarrow>
   'v table_res list option" where
  "table_run ins get del t [] = Some []"
| "table_run ins get del t (x # ops) = do {
     (t, r) \<leftarrow> table_step ins get del t x;
     rs \<leftarrow> table_run ins get del t ops;
     Some (r # rs)
   }"

section \<open>The interface\<close>

locale value_table =
  fixes has :: "'v \<Rightarrow> 'k \<Rightarrow> bool"
    and key :: "'v \<Rightarrow> 'k"
    and ok :: "nat \<Rightarrow> 'k \<Rightarrow> bool"
    and inv :: "'t \<Rightarrow> bool"
    and size :: "'t \<Rightarrow> nat"
    and vals :: "'t \<Rightarrow> 'v set"
    and ins :: "'t \<Rightarrow> 'v \<Rightarrow> ('t \<times> hti_res) option"
    and get :: "'t \<Rightarrow> 'k \<Rightarrow> (hta_res \<times> 'v option) option"
    and del :: "'t \<Rightarrow> 'k \<Rightarrow> ('t \<times> hta_res \<times> 'v option) option"
  assumes has_key: "has v (key v)"
    and unique: "inv t \<Longrightarrow> v \<in> vals t \<Longrightarrow> w \<in> vals t \<Longrightarrow> has v k \<Longrightarrow> has w k \<Longrightarrow> v = w"
    and ins_new: "inv t \<Longrightarrow> ok (size t) (key v) \<Longrightarrow> card (vals t) < size t \<Longrightarrow>
      \<forall>w\<in>vals t. \<not> has w (key v) \<Longrightarrow>
      \<exists>t'. ins t v = Some (t', HTIR_SUCCESS) \<and> inv t' \<and> size t' = size t \<and> vals t' = insert v (vals t)"
    and ins_dup: "inv t \<Longrightarrow> ok (size t) (key v) \<Longrightarrow> w \<in> vals t \<Longrightarrow> has w (key v) \<Longrightarrow>
      ins t v = Some (t, HTIR_EXISTS)"
    and get_found: "inv t \<Longrightarrow> ok (size t) k \<Longrightarrow> w \<in> vals t \<Longrightarrow> has w k \<Longrightarrow>
      get t k = Some (HTAR_SUCCESS, Some w)"
    and get_missing: "inv t \<Longrightarrow> ok (size t) k \<Longrightarrow> \<forall>w\<in>vals t. \<not> has w k \<Longrightarrow>
      get t k = Some (HTAR_DOESNT_EXIST, None)"
    and del_found: "inv t \<Longrightarrow> ok (size t) k \<Longrightarrow> w \<in> vals t \<Longrightarrow> has w k \<Longrightarrow>
      \<exists>t'. del t k = Some (t', HTAR_SUCCESS, Some w) \<and> inv t' \<and> size t' = size t \<and>
        vals t' = vals t - {w}"
    and del_missing: "inv t \<Longrightarrow> ok (size t) k \<Longrightarrow> \<forall>w\<in>vals t. \<not> has w k \<Longrightarrow>
      del t k = Some (t, HTAR_DOESNT_EXIST, None)"
begin

text \<open>A table and a list with the same values.\<close>

definition like :: "'t \<Rightarrow> 'v list \<Rightarrow> bool" where
  "like t xs \<longleftrightarrow> inv t \<and> distinct xs \<and> set xs = vals t"

lemma like_size: "like t xs \<Longrightarrow> card (vals t) = length xs"
  by (metis like_def distinct_card)

lemma like_filter:
  assumes "like t xs" "w \<in> vals t" "has w k"
  shows "set (filter (\<lambda>u. \<not> has u k) xs) = vals t - {w}"
proof -
  have inv: "inv t" and xs: "set xs = vals t" using assms(1) by (simp_all add: like_def)
  have "u = w" if "u \<in> vals t" "has u k" for u by (rule unique [OF inv that(1) assms(2) that(2) assms(3)])
  then show ?thesis using xs assms(3) by auto
qed

lemma step_like:
  assumes t: "like t xs" and step: "ref_step has key (ok (size t)) (size t) xs c = Some (xs', r)"
  shows "\<exists>t'. table_step ins get del t c = Some (t', r) \<and> like t' xs' \<and> size t' = size t"
proof -
  have inv: "inv t" and dist: "distinct xs" and member: "set xs = vals t"
    using t by (simp_all add: like_def)
  show ?thesis
  proof (cases c)
    case (Op_insert v)
    have okv: "ok (size t) (key v)" using step Op_insert by (simp split: if_splits)
    show ?thesis
    proof (cases "find (\<lambda>w. has w (key v)) xs")
      case None
      then have new: "\<forall>w\<in>vals t. \<not> has w (key v)" using member by (simp add: find_None_iff)
      have room: "card (vals t) < size t" and e: "xs' = v # xs" "r = Res_insert HTIR_SUCCESS"
        using step okv None like_size [OF t] by (auto simp: Op_insert split: if_splits)
      obtain t' where t': "ins t v = Some (t', HTIR_SUCCESS)" "inv t'" "size t' = size t"
        "vals t' = insert v (vals t)"
        using ins_new [OF inv okv room new] by blast
      have "v \<notin> vals t" using new has_key by blast
      then have "like t' (v # xs)" using t' dist member by (simp add: like_def)
      then show ?thesis using t' e by (simp add: Op_insert)
    next
      case (Some w)
      then have "w \<in> vals t" "has w (key v)" using member by (auto simp: find_Some_iff)
      from ins_dup [OF inv okv this] show ?thesis using t step okv Some by (auto simp: Op_insert)
    qed
  next
    case (Op_get k)
    have okk: "ok (size t) k" using step Op_get by (simp split: if_splits)
    show ?thesis
    proof (cases "find (\<lambda>w. has w k) xs")
      case None
      then have new: "\<forall>w\<in>vals t. \<not> has w k" using member by (simp add: find_None_iff)
      from get_missing [OF inv okk new] show ?thesis using t step okk None by (auto simp: Op_get)
    next
      case (Some w)
      then have "w \<in> vals t" "has w k" using member by (auto simp: find_Some_iff)
      from get_found [OF inv okk this] show ?thesis using t step okk Some by (auto simp: Op_get)
    qed
  next
    case (Op_delete k)
    have okk: "ok (size t) k" using step Op_delete by (simp split: if_splits)
    show ?thesis
    proof (cases "find (\<lambda>w. has w k) xs")
      case None
      then have new: "\<forall>w\<in>vals t. \<not> has w k" using member by (simp add: find_None_iff)
      from del_missing [OF inv okk new] show ?thesis using t step okk None by (auto simp: Op_delete)
    next
      case (Some w)
      then have w: "w \<in> vals t" "has w k" using member by (auto simp: find_Some_iff)
      obtain t' where "del t k = Some (t', HTAR_SUCCESS, Some w)" "inv t'" "size t' = size t"
        "vals t' = vals t - {w}"
        using del_found [OF inv okk w] by blast
      moreover from this have "like t' (filter (\<lambda>u. \<not> has u k) xs)"
        using like_filter [OF t w] dist by (simp add: like_def)
      ultimately show ?thesis using step okk Some by (simp add: Op_delete)
  qed
qed
qed

theorem run_like:
  "like t xs \<Longrightarrow> ref_run has key (ok (size t)) (size t) xs ops = Some rs \<Longrightarrow>
   table_run ins get del t ops = Some rs"
proof (induction ops arbitrary: t xs rs)
  case (Cons c ops)
  from Cons.prems(2) obtain xs' r rs' where step: "ref_step has key (ok (size t)) (size t) xs c = Some (xs', r)"
    and rest: "ref_run has key (ok (size t)) (size t) xs' ops = Some rs'" and rs: "rs = r # rs'"
    by (auto simp: bind_eq_Some_conv)
  from step_like [OF Cons.prems(1) step] obtain t'
    where t': "table_step ins get del t c = Some (t', r)" "like t' xs'" "size t' = size t"
    by blast
  then show ?case using Cons.IH [OF t'(2)] rest rs by simp
qed simp

end

end
