(* ===== verification/Robin_hood_set.thy ===== *)
theory Robin_hood_set
  imports Robin_hood_ok Value_table
begin

text \<open>
  The robin hood set keeps the promise of \<open>value_table\<close>, with the whole value as its key.
\<close>

definition vacant :: "'v \<Rightarrow> 'v hentry" where
  "vacant zero = \<lparr>he_value = zero, he_hash = 0, he_dib = 0, he_present = False\<rparr>"

definition rh_vals :: "'v hash_table \<Rightarrow> 'v set" where
  "rh_vals ht = rh_values (ht_elems ht)"

definition rh_size :: "'v hash_table \<Rightarrow> nat" where
  "rh_size ht = unat (ht_cap ht)"

text \<open>The operations of one instance of the header; the theory of \<open>CMP_FUNC\<close> and \<open>HASH_FUNC\<close> the
interface needs is that \<open>CMP_FUNC\<close> is an equivalence.\<close>

locale hashed =
  fixes hf :: "'v \<Rightarrow> u32" and cmp :: "'v \<Rightarrow> 'v \<Rightarrow> bool"
  assumes cmp_equiv: "equivp cmp"
begin

lemma same_unique:
  assumes "rh_wf hf cmp ht" "v \<in> rh_vals ht" "w \<in> rh_vals ht" "rh_same hf cmp v k" "rh_same hf cmp w k"
  shows "v = w"
proof -
  have "rh_same hf cmp v w"
    using assms(4,5) cmp_equiv by (auto simp: rh_same_def dest: equivp_symp equivp_transp)
  then show ?thesis using assms(1-3) rh_baseD(2) [of hf "unat (ht_cap ht)" "ht_elems ht"]
    by (auto simp: rh_wf_def rh_vals_def rh_values_def rh_distinct_def)
qed

end

sublocale hashed \<subseteq> tab: value_table "rh_same hf cmp" "\<lambda>v. v" "\<lambda>n v. rh_fits n (hf v)" "rh_wf hf cmp" rh_size
  rh_vals "rh_insert hf cmp" "rh_get hf cmp" "rh_delete hf cmp"
proof
  fix v show "rh_same hf cmp v v" using cmp_equiv by (auto simp: rh_same_def equivp_reflp)
next
  fix t v w k
  assume "rh_wf hf cmp t" "v \<in> rh_vals t" "w \<in> rh_vals t" "rh_same hf cmp v k" "rh_same hf cmp w k"
  then show "v = w" by (rule same_unique)
next
  fix t v
  assume a: "rh_wf hf cmp t" "rh_fits (rh_size t) (hf v)" "card (rh_vals t) < rh_size t"
    "\<forall>w\<in>rh_vals t. \<not> rh_same hf cmp w v"
  obtain E where "rh_insert hf cmp t v = Some (t\<lparr>ht_elems := E\<rparr>, HTIR_SUCCESS)"
    "rh_wf hf cmp (t\<lparr>ht_elems := E\<rparr>)" "rh_values E = insert v (rh_vals t)"
    using rh_insert_new [OF a(1) cmp_equiv a(2-4) [unfolded rh_size_def rh_vals_def]]
    by (auto simp: rh_vals_def)
  then show "\<exists>t'. rh_insert hf cmp t v = Some (t', HTIR_SUCCESS) \<and> rh_wf hf cmp t' \<and>
      rh_size t' = rh_size t \<and> rh_vals t' = insert v (rh_vals t)"
    by (intro exI [of _ "t\<lparr>ht_elems := E\<rparr>"]) (simp add: rh_size_def rh_vals_def)
next
  fix t v w
  assume a: "rh_wf hf cmp t" "w \<in> rh_vals t" "rh_same hf cmp w v"
  show "rh_insert hf cmp t v = Some (t, HTIR_EXISTS)"
    by (rule rh_insert_dup [OF a(1) a(2) [unfolded rh_vals_def] a(3)])
next
  fix t k w
  assume a: "rh_wf hf cmp t" "rh_fits (rh_size t) (hf k)" "w \<in> rh_vals t" "rh_same hf cmp w k"
  have "u = w" if "u \<in> rh_values (ht_elems t)" "rh_same hf cmp u k" for u
    by (rule same_unique [OF a(1) _ a(3) that(2) a(4)]) (simp add: rh_vals_def that(1))
  then show "rh_get hf cmp t k = Some (HTAR_SUCCESS, Some w)"
    using rh_get_ok [OF a(1) a(2) [unfolded rh_size_def]] a(3,4) unfolding rh_vals_def by blast
next
  fix t k
  assume a: "rh_wf hf cmp t" "rh_fits (rh_size t) (hf k)" "\<forall>w\<in>rh_vals t. \<not> rh_same hf cmp w k"
  show "rh_get hf cmp t k = Some (HTAR_DOESNT_EXIST, None)"
    using rh_get_ok [OF a(1) a(2) [unfolded rh_size_def]] a(3) unfolding rh_vals_def by blast
next
  fix t k w
  assume a: "rh_wf hf cmp t" "rh_fits (rh_size t) (hf k)" "w \<in> rh_vals t" "rh_same hf cmp w k"
  then obtain E u where d: "rh_delete hf cmp t k = Some (t\<lparr>ht_elems := E\<rparr>, HTAR_SUCCESS, Some u)"
    "rh_wf hf cmp (t\<lparr>ht_elems := E\<rparr>)" "u \<in> rh_vals t" "rh_same hf cmp u k"
    "rh_values E = rh_vals t - {u}"
    using rh_delete_found [OF a(1) cmp_equiv, of k w] by (auto simp: rh_size_def rh_vals_def)
  have "u = w" by (rule same_unique [OF a(1) d(3) a(3) d(4) a(4)])
  with d show "\<exists>t'. rh_delete hf cmp t k = Some (t', HTAR_SUCCESS, Some w) \<and> rh_wf hf cmp t' \<and>
      rh_size t' = rh_size t \<and> rh_vals t' = rh_vals t - {w}"
    by (intro exI [of _ "t\<lparr>ht_elems := E\<rparr>"]) (simp add: rh_size_def rh_vals_def)
next
  fix t k
  assume a: "rh_wf hf cmp t" "rh_fits (rh_size t) (hf k)" "\<forall>w\<in>rh_vals t. \<not> rh_same hf cmp w k"
  show "rh_delete hf cmp t k = Some (t, HTAR_DOESNT_EXIST, None)"
    by (rule rh_delete_missing [OF a(1) a(2) [unfolded rh_size_def] a(3) [unfolded rh_vals_def]])
qed


context hashed
begin

lemma fresh_like:
  assumes "rh_init zero arr n = Some ht" "0 < n"
  shows "tab.like ht []" "rh_size ht = unat n"
proof -
  have "unat n \<le> length arr" using assms(1) by (auto simp: rh_init_def split: if_splits)
  from rh_init_ok [OF assms(2) this, of zero hf cmp] assms(1)
  show "tab.like ht []" "rh_size ht = unat n" by (auto simp: tab.like_def rh_vals_def rh_size_def)
qed

lemma run_agrees:
  assumes "rh_init zero arr n = Some ht" "0 < n"
    "ref_run (rh_same hf cmp) (\<lambda>v. v) (\<lambda>v. rh_fits (unat n) (hf v)) (unat n) [] ops = Some rs"
  shows "table_run (rh_insert hf cmp) (rh_get hf cmp) (rh_delete hf cmp) ht ops = Some rs"
  using tab.run_like [OF fresh_like(1) [OF assms(1,2)]] fresh_like(2) [OF assms(1,2)] assms(3) by simp

end

text \<open>The header's own defaults: \<open>VTYPE\<close> a 32-bit integer, hashed to itself, compared with \<open>==\<close>.\<close>

interpretation plain: hashed "\<lambda>v :: u32. v" "(=)"
  by unfold_locales (rule identity_equivp)

text \<open>
  C18. The robin hood set is a set. From an initialised table on, any sequence of insertions, lookups and
  deletions returns just what a plain list searched from the front returns, result
  codes and values alike, as long as no insertion meets a full table and every hash leaves
  room for a probe of the table below \<open>2^32\<close>; whatever \<open>HASH_FUNC\<close> does, and
  whatever equivalence \<open>CMP_FUNC\<close> is.
\<close>

theorem robin_hood_is_a_set:
  assumes "equivp cmp" "rh_init zero arr n = Some ht" "0 < n"
    "ref_run (rh_same hf cmp) (\<lambda>v. v) (\<lambda>v. rh_fits (unat n) (hf v)) (unat n) [] ops = Some rs"
  shows "table_run (rh_insert hf cmp) (rh_get hf cmp) (rh_delete hf cmp) ht ops = Some rs"
  by (rule hashed.run_agrees [OF hashed.intro [OF assms(1)] assms(2-4)])

lemma robin_hood_is_a_set_witness:
  "\<exists>ht. rh_init 0 (replicate 3 (vacant 0)) 3 = Some ht \<and>
    table_run (rh_insert (\<lambda>v. v) (=)) (rh_get (\<lambda>v. v) (=)) (rh_delete (\<lambda>v. v) (=)) ht
      [Op_insert (4 :: u32), Op_insert 7, Op_insert 3, Op_insert 7, Op_delete 4, Op_get 7, Op_get 4]
    = Some [Res_insert HTIR_SUCCESS, Res_insert HTIR_SUCCESS, Res_insert HTIR_SUCCESS,
            Res_insert HTIR_EXISTS, Res_access HTAR_SUCCESS (Some 4),
            Res_access HTAR_SUCCESS (Some 7), Res_access HTAR_DOESNT_EXIST None]"
proof (intro exI conjI)
  let ?arr = "replicate 3 (vacant (0 :: u32))"
  let ?ht = "\<lparr>ht_cap = 3, ht_elems = ?arr\<rparr>"
  show init: "rh_init 0 ?arr 3 = Some ?ht" by (simp add: rh_init_def vacant_def)
  show "table_run (rh_insert (\<lambda>v. v) (=)) (rh_get (\<lambda>v. v) (=)) (rh_delete (\<lambda>v. v) (=)) ?ht
      [Op_insert (4 :: u32), Op_insert 7, Op_insert 3, Op_insert 7, Op_delete 4, Op_get 7, Op_get 4]
    = Some [Res_insert HTIR_SUCCESS, Res_insert HTIR_SUCCESS, Res_insert HTIR_SUCCESS,
            Res_insert HTIR_EXISTS, Res_access HTAR_SUCCESS (Some 4),
            Res_access HTAR_SUCCESS (Some 7), Res_access HTAR_DOESNT_EXIST None]"
    by (rule robin_hood_is_a_set [OF identity_equivp init])
      (simp_all add: rh_same_def rh_fits_def)
qed

text \<open>The first rounds of the loops, for evaluating small tables.\<close>

lemmas rh_insert_rounds = rh_insert_loop.simps [where i = 0] rh_insert_loop.simps [where i = 1]
  rh_insert_loop.simps [where i = 2] rh_insert_loop.simps [where i = 3]

lemmas rh_probe_rounds = rh_probe.simps [where i = 0] rh_probe.simps [where i = 1]
  rh_probe.simps [where i = 2] rh_probe.simps [where i = 3]

text \<open>
  What the contract leaves out. Inserting into a full table answers \<open>HTIR_FULL\<close>, but not
  before the displacements have happened: the entry the loop carries when it runs
  out of slots is dropped. With two slots, values hashed to 0, 1 and 1 and the third one
  refused, it is the first value that can no longer be found.
\<close>

theorem robin_hood_full_drops_an_entry:
  assumes "hf a = 0" "hf b = 1" "hf c = 1" "b \<noteq> c" "rh_init zero arr 2 = Some ht"
  shows "table_run (rh_insert hf (=)) (rh_get hf (=)) (rh_delete hf (=)) ht
      [Op_insert a, Op_insert b, Op_insert c, Op_get a, Op_get c]
    = Some [Res_insert HTIR_SUCCESS, Res_insert HTIR_SUCCESS, Res_insert HTIR_FULL,
            Res_access HTAR_DOESNT_EXIST None, Res_access HTAR_SUCCESS (Some c)]"
proof -
  have ht: "ht = \<lparr>ht_cap = 2, ht_elems = replicate 2 (vacant zero)\<rparr>"
    using assms(5) by (simp add: rh_init_def vacant_def split: if_splits)
  show ?thesis
    using assms(1-4) unfolding ht
    by (simp add: rh_insert_def rh_get_def rh_insert_rounds rh_probe_rounds vacant_def Let_def numeral_2_eq_2)
qed

lemma robin_hood_full_drops_an_entry_witness:
  "\<exists>ht. table_run (rh_insert (\<lambda>v. v mod 2) (=)) (rh_get (\<lambda>v. v mod 2) (=)) (rh_delete (\<lambda>v. v mod 2) (=)) ht
      [Op_insert (4 :: u32), Op_insert 5, Op_insert 7, Op_get 4, Op_get 7]
    = Some [Res_insert HTIR_SUCCESS, Res_insert HTIR_SUCCESS, Res_insert HTIR_FULL,
            Res_access HTAR_DOESNT_EXIST None, Res_access HTAR_SUCCESS (Some 7)]"
  by (intro exI robin_hood_full_drops_an_entry
      [where arr = "replicate 2 (vacant 0)" and zero = 0])
    (simp_all add: rh_init_def)

text \<open>A hash at the top of the \<open>u32\<close> range probes the same slot twice: the sum wraps before
it is reduced. In a table of three slots a second value of that hash finds it full.\<close>

lemma robin_hood_hash_wraps:
  assumes "hf a = 0xFFFFFFFF" "hf b = 0xFFFFFFFF" "a \<noteq> b" "rh_init zero arr 3 = Some ht"
  shows "table_run (rh_insert hf (=)) (rh_get hf (=)) (rh_delete hf (=)) ht
      [Op_insert a, Op_insert b, Op_get a]
    = Some [Res_insert HTIR_SUCCESS, Res_insert HTIR_FULL, Res_access HTAR_DOESNT_EXIST None]"
proof -
  have ht: "ht = \<lparr>ht_cap = 3, ht_elems = replicate 3 (vacant zero)\<rparr>"
    using assms(4) by (simp add: rh_init_def vacant_def split: if_splits)
  show ?thesis
    using assms(1-3) unfolding ht
    by (simp add: rh_insert_def rh_get_def rh_insert_rounds rh_probe_rounds vacant_def Let_def numeral_3_eq_3)
qed

end
