(* ===== verification/Robin_keyed.thy ===== *)
theory Robin_keyed
  imports Robin_hood_set
begin

text \<open>
  The keyed robin hood table of \<^verbatim>\<open>ds/robin_hood_ht.h\<close>, at the header's default key type
  \<open>KTYPE = int\<close>: a key is its own hash, and keys, distances and loop counters are C
  \<open>int\<close>s, here integers whose sums are undefined outside 32 bits. \<open>%\<close> truncates, so a
  negative key gives a negative index, which no array has.
\<close>

section \<open>Integers\<close>

definition c_int :: "int \<Rightarrow> int option" where
  "c_int x = (if - 2147483648 \<le> x \<and> x < 2147483648 then Some x else None)"

definition c_rem :: "int \<Rightarrow> int \<Rightarrow> int" where
  "c_rem x n = (if 0 \<le> x then x mod n else - ((- x) mod n))"

definition array_index :: "int \<Rightarrow> 'a list \<Rightarrow> nat option" where
  "array_index j xs = (if 0 \<le> j \<and> j < int (length xs) then Some (nat j) else None)"

section \<open>Table\<close>

record 'v hdata =
  hd_key :: int
  hd_value :: 'v

record 'v kentry =
  ke_data :: "'v hdata"
  ke_dib :: int
  ke_present :: bool

record 'v kh_table =
  kh_cap :: u32
  kh_elems :: "'v kentry list"

definition kh_init :: "'v \<Rightarrow> 'v kentry list \<Rightarrow> u32 \<Rightarrow> 'v kh_table option" where
  "kh_init zero arr nelem =
     (if unat nelem \<le> length arr
      then Some \<lparr>kh_cap = nelem,
                 kh_elems = replicate (unat nelem)
                   \<lparr>ke_data = \<lparr>hd_key = 0, hd_value = zero\<rparr>, ke_dib = 0, ke_present = False\<rparr>\<rparr>
      else None)"

text \<open>\<open>(KTYPE)ht->cap\<close> is the capacity as an \<open>int\<close>.\<close>

definition kh_icap :: "'v kh_table \<Rightarrow> int" where
  "kh_icap ht = sint (kh_cap ht)"

section \<open>Operations\<close>

function kh_insert_loop ::
  "int \<Rightarrow> int \<Rightarrow> 'v hdata \<Rightarrow> int \<Rightarrow> 'v kentry list \<Rightarrow> ('v kentry list \<times> hti_res) option" where
  "kh_insert_loop cap i data dibn elems =
     (if i < cap then do {
        s \<leftarrow> c_int (hd_key data + dibn);
        j \<leftarrow> array_index (c_rem s cap) elems;
        let el = elems ! j;
        if \<not> ke_present el
        then Some (elems[j := \<lparr>ke_data = data, ke_dib = dibn, ke_present = True\<rparr>], HTIR_SUCCESS)
        else if ke_dib el < dibn then do {
          let elems' = elems[j := el\<lparr>ke_data := data, ke_dib := dibn\<rparr>];
          if hd_key (ke_data (elems' ! j)) = hd_key (ke_data el)
          then Some (elems', HTIR_EXISTS)
          else do {
            d \<leftarrow> c_int (ke_dib el + 1);
            kh_insert_loop cap (i + 1) (ke_data el) d elems'
          }
        }
        else if hd_key (ke_data el) = hd_key data then Some (elems, HTIR_EXISTS)
        else do {
          d \<leftarrow> c_int (dibn + 1);
          kh_insert_loop cap (i + 1) data d elems
        }
      }
      else Some (elems, HTIR_FULL))"
  by pat_completeness auto
termination
  by (relation "measure (\<lambda>(cap, i, data, dibn, elems). nat (cap - i))") auto

declare kh_insert_loop.simps [simp del]

definition kh_insert :: "'v kh_table \<Rightarrow> 'v hdata \<Rightarrow> ('v kh_table \<times> hti_res) option" where
  "kh_insert ht data = do {
     ASSERT (0 < kh_cap ht);
     (elems, ret) \<leftarrow> kh_insert_loop (kh_icap ht) 0 data 0 (kh_elems ht);
     Some (ht\<lparr>kh_elems := elems\<rparr>, ret)
   }"

definition kh_insert_expect :: "'v kh_table \<Rightarrow> 'v hdata \<Rightarrow> 'v kh_table option" where
  "kh_insert_expect ht data = do {
     (ht, ret) \<leftarrow> kh_insert ht data;
     ASSERT (ret = HTIR_SUCCESS);
     Some ht
   }"

datatype 'v kprobe = Key_missing | Key_found int "'v hdata" | Key_end

function kh_probe :: "int \<Rightarrow> int \<Rightarrow> int \<Rightarrow> int \<Rightarrow> 'v kentry list \<Rightarrow> 'v kprobe option" where
  "kh_probe cap i key dibn elems =
     (if i < cap then do {
        s \<leftarrow> c_int (key + i);
        j \<leftarrow> array_index (c_rem s cap) elems;
        let el = elems ! j;
        if \<not> ke_present el then Some Key_missing
        else if ke_dib el < dibn then Some Key_missing
        else if hd_key (ke_data el) = key then Some (Key_found i (ke_data el))
        else do {
          d \<leftarrow> c_int (dibn + 1);
          kh_probe cap (i + 1) key d elems
        }
      }
      else Some Key_end)"
  by pat_completeness auto
termination
  by (relation "measure (\<lambda>(cap, i, key, dibn, elems). nat (cap - i))") auto

declare kh_probe.simps [simp del]

definition kh_get :: "'v kh_table \<Rightarrow> int \<Rightarrow> (hta_res \<times> 'v hdata option) option" where
  "kh_get ht key = do {
     ASSERT (0 < kh_cap ht);
     r \<leftarrow> kh_probe (kh_icap ht) 0 key 0 (kh_elems ht);
     Some (case r of Key_found i d \<Rightarrow> (HTAR_SUCCESS, Some d)
           | _ \<Rightarrow> (HTAR_DOESNT_EXIST, None))
   }"

definition kh_get_expect :: "'v kh_table \<Rightarrow> int \<Rightarrow> 'v hdata option option" where
  "kh_get_expect ht key = do {
     (ret, dest) \<leftarrow> kh_get ht key;
     ASSERT (ret = HTAR_SUCCESS);
     Some dest
   }"

function kh_shift_loop ::
  "int \<Rightarrow> int \<Rightarrow> int \<Rightarrow> 'v kentry list \<Rightarrow> ('v kentry list \<times> hta_res) option" where
  "kh_shift_loop cap i key elems =
     (if i < cap then do {
        s \<leftarrow> c_int (key + i);
        hole \<leftarrow> array_index (c_rem s cap) elems;
        s' \<leftarrow> c_int (key + i + 1);
        nxt \<leftarrow> array_index (c_rem s' cap) elems;
        if \<not> ke_present (elems ! nxt) \<or> ke_dib (elems ! nxt) = 0
        then Some (elems[hole := (elems ! hole)\<lparr>ke_present := False\<rparr>], HTAR_SUCCESS)
        else do {
          let elems' = elems[hole := (elems ! hole)\<lparr>ke_data := ke_data (elems ! nxt)\<rparr>];
          ASSERT (0 < ke_dib (elems' ! nxt));
          let elems'' = elems'[hole := (elems' ! hole)\<lparr>ke_dib := ke_dib (elems' ! nxt) - 1\<rparr>];
          ASSERT (ke_present (elems'' ! hole));
          kh_shift_loop cap (i + 1) key elems''
        }
      }
      else Some (elems, HTAR_DOESNT_EXIST))"
  by pat_completeness auto
termination
  by (relation "measure (\<lambda>(cap, i, key, elems). nat (cap - i))") auto

declare kh_shift_loop.simps [simp del]

definition kh_delete :: "'v kh_table \<Rightarrow> int \<Rightarrow> ('v kh_table \<times> hta_res \<times> 'v hdata option) option" where
  "kh_delete ht key = do {
     ASSERT (0 < kh_cap ht);
     r \<leftarrow> kh_probe (kh_icap ht) 0 key 0 (kh_elems ht);
     case r of
       Key_found i d \<Rightarrow> do {
         (elems, ret) \<leftarrow> kh_shift_loop (kh_icap ht) i key (kh_elems ht);
         Some (ht\<lparr>kh_elems := elems\<rparr>, ret, Some d)
       }
     | _ \<Rightarrow> Some (ht, HTAR_DOESNT_EXIST, None)
   }"

definition kh_delete_expect :: "'v kh_table \<Rightarrow> int \<Rightarrow> ('v kh_table \<times> 'v hdata option) option" where
  "kh_delete_expect ht key = do {
     (ht, ret, dest) \<leftarrow> kh_delete ht key;
     ASSERT (ret = HTAR_SUCCESS);
     Some (ht, dest)
   }"

fun kh_count_loop :: "'v kentry list \<Rightarrow> nat \<Rightarrow> u32 \<Rightarrow> u32 option" where
  "kh_count_loop elems 0 ret = Some ret"
| "kh_count_loop elems (Suc n) ret =
     (case elems of
        [] \<Rightarrow> None
      | el # rest \<Rightarrow> kh_count_loop rest n (if ke_present el then ret + 1 else ret))"

definition kh_count :: "'v kh_table \<Rightarrow> u32 option" where
  "kh_count ht = do {
     ASSERT (0 < kh_cap ht);
     kh_count_loop (kh_elems ht) (unat (kh_cap ht)) 0
   }"

section \<open>The keyed table is the hash set of its entries\<close>

text \<open>An entry as the set's header stores it: its key is its hash, and two entries are the same
when their keys are.\<close>

definition kh_hash :: "'v hdata \<Rightarrow> u32" where
  "kh_hash d = word_of_int (hd_key d)"

definition kh_same :: "'v hdata \<Rightarrow> 'v hdata \<Rightarrow> bool" where
  "kh_same a b \<longleftrightarrow> hd_key a = hd_key b"

definition kh_entry :: "'v kentry \<Rightarrow> 'v hdata hentry" where
  "kh_entry el = \<lparr>he_value = ke_data el, he_hash = kh_hash (ke_data el),
                  he_dib = word_of_int (ke_dib el), he_present = ke_present el\<rparr>"

definition key_fits :: "int \<Rightarrow> int \<Rightarrow> bool" where
  "key_fits c k \<longleftrightarrow> 0 \<le> k \<and> k + c < 2147483648"

definition ke_ok :: "int \<Rightarrow> 'v kentry \<Rightarrow> bool" where
  "ke_ok c el \<longleftrightarrow> key_fits c (hd_key (ke_data el)) \<and> 0 \<le> ke_dib el \<and> ke_dib el < c"

lemma kh_entry_simps [simp]:
  "he_value (kh_entry el) = ke_data el" "he_hash (kh_entry el) = kh_hash (ke_data el)"
  "he_dib (kh_entry el) = word_of_int (ke_dib el)" "he_present (kh_entry el) = ke_present el"
  by (simp_all add: kh_entry_def)

lemma uint_small: "0 \<le> x \<Longrightarrow> x < 4294967296 \<Longrightarrow> uint (word_of_int x :: u32) = x"
  by (simp add: unsigned_of_int take_bit_int_eq_self)

lemma word_small:
  "0 \<le> x \<Longrightarrow> x < 4294967296 \<Longrightarrow> 0 \<le> y \<Longrightarrow> y < 4294967296 \<Longrightarrow>
   (word_of_int x < (word_of_int y :: u32)) = (x < y)"
  "0 \<le> x \<Longrightarrow> x < 4294967296 \<Longrightarrow> 0 \<le> y \<Longrightarrow> y < 4294967296 \<Longrightarrow>
   (word_of_int x = (word_of_int y :: u32)) = (x = y)"
  by (simp_all add: word_less_def uint_small word_uint_eq_iff)

lemma kh_slot:
  assumes "0 \<le> a" "0 \<le> b" "a + b < 2147483648" "0 < c" "c < 2147483648" "length E = nat c"
  shows "c_int (a + b) = Some (a + b)" "array_index (c_rem (a + b) c) E = Some (nat ((a + b) mod c))"
    "unat ((word_of_int a + word_of_int b) mod (word_of_int c :: u32)) = nat ((a + b) mod c)"
    "nat ((a + b) mod c) < length E"
proof -
  have m: "0 \<le> (a + b) mod c" "(a + b) mod c < c" using assms(4) by simp_all
  show "c_int (a + b) = Some (a + b)" using assms by (simp add: c_int_def)
  show "array_index (c_rem (a + b) c) E = Some (nat ((a + b) mod c))"
    using assms m by (simp add: array_index_def c_rem_def)
  show "nat ((a + b) mod c) < length E" using assms(6) m by simp
  have "uint ((word_of_int a + word_of_int b) mod (word_of_int c :: u32)) = (a + b) mod c"
    using assms unfolding wi_hom_add
    by (simp add: uint_mod uint_small del: of_int_add)
  then show "unat ((word_of_int a + word_of_int b) mod (word_of_int c :: u32)) = nat ((a + b) mod c)"
    by (metis nat_uint_eq)
qed

lemma kh_entries_upd:
  "j < length E \<Longrightarrow> map kh_entry (E[j := el]) = (map kh_entry E)[j := kh_entry el]"
  by (rule map_update)

lemma ke_ok_upd: "\<forall>e\<in>set E. ke_ok c e \<Longrightarrow> ke_ok c el \<Longrightarrow> \<forall>e\<in>set (E[j := el]). ke_ok c e"
  using set_update_subset_insert by fastforce

lemma same_hash: "hd_key a = hd_key b \<Longrightarrow> kh_hash a = kh_hash b"
  by (simp add: kh_hash_def)

lemma kh_insert_loop_sim:
  assumes c: "0 < c" "c < 2147483648"
  shows "\<lbrakk>\<forall>e\<in>set E. ke_ok c e; length E = nat c; key_fits c (hd_key data); 0 \<le> dibn; dibn \<le> i; i \<le> c\<rbrakk> \<Longrightarrow>
    \<exists>E' r. kh_insert_loop c i data dibn E = Some (E', r) \<and> (\<forall>e\<in>set E'. ke_ok c e) \<and>
      length E' = nat c \<and>
      rh_insert_loop kh_same (word_of_int c) (word_of_int i) data (kh_hash data) (word_of_int dibn)
        (map kh_entry E) = Some (map kh_entry E', r)"
proof (induction "nat (c - i)" arbitrary: i data dibn E)
  case 0
  then show ?case using c
    by (subst kh_insert_loop.simps, subst rh_insert_loop.simps) (simp add: word_small)
next
  case (Suc n)
  let ?j = "nat ((hd_key data + dibn) mod c)"
  have ic: "i < c" using Suc.hyps(2) by simp
  then have iw: "word_of_int i < (word_of_int c :: u32)"
    using Suc.prems c by (simp add: word_small)
  have key: "0 \<le> hd_key data" "hd_key data + dibn < 2147483648"
    using Suc.prems ic by (auto simp: key_fits_def)
  note slot = kh_slot [OF key(1) Suc.prems(4) key(2) c Suc.prems(2)]
  have wslot: "unat ((kh_hash data + word_of_int dibn) mod (word_of_int c :: u32)) = ?j"
    unfolding kh_hash_def by (rule slot(3))
  let ?el = "E ! ?j"
  have el: "ke_ok c ?el" using Suc.prems(1) slot(4) by simp
  have inc: "word_of_int x + 1 = (word_of_int (x + 1) :: u32)" for x by simp
  have n: "n = nat (c - (i + 1))" using Suc.hyps(2) by simp
  show ?case
  proof (cases "ke_present ?el")
    case False
    let ?E = "E[?j := \<lparr>ke_data = data, ke_dib = dibn, ke_present = True\<rparr>]"
    have "\<forall>e\<in>set ?E. ke_ok c e"
      by (rule ke_ok_upd [OF Suc.prems(1)]) (use Suc.prems ic in \<open>simp add: ke_ok_def\<close>)
    moreover have "kh_insert_loop c i data dibn E = Some (?E, HTIR_SUCCESS)"
      using False ic by (subst kh_insert_loop.simps) (simp add: slot Let_def)
    moreover have "rh_insert_loop kh_same (word_of_int c) (word_of_int i) data (kh_hash data)
        (word_of_int dibn) (map kh_entry E) = Some (map kh_entry ?E, HTIR_SUCCESS)"
      using False iw slot(4)
      by (subst rh_insert_loop.simps)
        (simp add: wslot Let_def map_update kh_entry_def)
    ultimately show ?thesis using Suc.prems(2) by simp
  next
    case True
    note present = this
    show ?thesis
    proof (cases "ke_dib ?el < dibn")
      case True
      let ?E = "E[?j := ?el\<lparr>ke_data := data, ke_dib := dibn\<rparr>]"
      have upd: "map kh_entry ?E = (map kh_entry E)[?j := (kh_entry ?el)\<lparr>he_value := data,
          he_hash := kh_hash data, he_dib := word_of_int dibn\<rparr>]"
        by (simp add: kh_entries_upd [OF slot(4)] kh_entry_def)
      have ok: "\<forall>e\<in>set ?E. ke_ok c e"
        by (rule ke_ok_upd [OF Suc.prems(1)]) (use Suc.prems ic in \<open>simp add: ke_ok_def\<close>)
      have lt: "word_of_int (ke_dib ?el) < (word_of_int dibn :: u32)"
        using True el Suc.prems(4-6) ic c by (simp add: word_small ke_ok_def)
      show ?thesis
      proof (cases "hd_key data = hd_key (ke_data ?el)")
        case eq: True
        have "kh_insert_loop c i data dibn E = Some (?E, HTIR_EXISTS)"
          using True ic present eq slot(4) by (subst kh_insert_loop.simps) (simp add: slot Let_def)
        moreover have "rh_insert_loop kh_same (word_of_int c) (word_of_int i) data (kh_hash data)
            (word_of_int dibn) (map kh_entry E) = Some (map kh_entry ?E, HTIR_EXISTS)"
          using iw slot(4) present lt eq unfolding upd
          by (subst rh_insert_loop.simps) (simp add: wslot Let_def kh_same_def same_hash [OF eq [symmetric]])
        ultimately show ?thesis using ok Suc.prems(2) by simp
      next
        case neq: False
        have d: "c_int (ke_dib ?el + 1) = Some (ke_dib ?el + 1)"
          using el c by (simp add: ke_ok_def c_int_def)
        have k: "kh_insert_loop c i data dibn E = kh_insert_loop c (i + 1) (ke_data ?el) (ke_dib ?el + 1) ?E"
          using True ic present neq slot(4) d by (subst kh_insert_loop.simps) (simp add: slot Let_def)
        have r: "rh_insert_loop kh_same (word_of_int c) (word_of_int i) data (kh_hash data)
            (word_of_int dibn) (map kh_entry E)
          = rh_insert_loop kh_same (word_of_int c) (word_of_int (i + 1)) (ke_data ?el) (kh_hash (ke_data ?el))
              (word_of_int (ke_dib ?el + 1)) (map kh_entry ?E)"
          using iw slot(4) present lt neq unfolding upd
          by (subst rh_insert_loop.simps) (simp add: wslot Let_def kh_same_def)
        show ?thesis
          unfolding k r
          by (rule Suc.hyps(1) [OF n ok]) (use Suc.prems el True ic in \<open>auto simp: ke_ok_def\<close>)
      qed
    next
      case far: False
      have ge: "\<not> word_of_int (ke_dib ?el) < (word_of_int dibn :: u32)"
        using far el Suc.prems(4-6) ic c by (simp add: word_small ke_ok_def)
      show ?thesis
      proof (cases "hd_key (ke_data ?el) = hd_key data")
        case eq: True
        have "kh_insert_loop c i data dibn E = Some (E, HTIR_EXISTS)"
          using far ic present eq by (subst kh_insert_loop.simps) (simp add: slot Let_def)
        moreover have "rh_insert_loop kh_same (word_of_int c) (word_of_int i) data (kh_hash data)
            (word_of_int dibn) (map kh_entry E) = Some (map kh_entry E, HTIR_EXISTS)"
          using iw slot(4) present ge eq
          by (subst rh_insert_loop.simps) (simp add: wslot Let_def kh_same_def same_hash [OF eq])
        ultimately show ?thesis using Suc.prems(1,2) by simp
      next
        case neq: False
        have d: "c_int (dibn + 1) = Some (dibn + 1)" using Suc.prems ic c by (simp add: c_int_def)
        have k: "kh_insert_loop c i data dibn E = kh_insert_loop c (i + 1) data (dibn + 1) E"
          using far ic present neq d by (subst kh_insert_loop.simps) (simp add: slot Let_def)
        have r: "rh_insert_loop kh_same (word_of_int c) (word_of_int i) data (kh_hash data)
            (word_of_int dibn) (map kh_entry E)
          = rh_insert_loop kh_same (word_of_int c) (word_of_int (i + 1)) data (kh_hash data)
              (word_of_int (dibn + 1)) (map kh_entry E)"
          using iw slot(4) present ge neq
          by (subst rh_insert_loop.simps) (simp add: wslot Let_def kh_same_def)
        show ?thesis
          unfolding k r
          by (rule Suc.hyps(1) [OF n Suc.prems(1-3)]) (use Suc.prems ic in auto)
      qed
    qed
  qed
qed

fun kprobe_as :: "'v kprobe \<Rightarrow> 'v hdata probe" where
  "kprobe_as Key_missing = Probe_missing"
| "kprobe_as (Key_found i d) = Probe_found (word_of_int i) d"
| "kprobe_as Key_end = Probe_end"

lemma kh_probe_sim:
  assumes c: "0 < c" "c < 2147483648" and ok: "\<forall>e\<in>set E. ke_ok c e" "length E = nat c"
    and key: "key_fits c (hd_key d)"
  shows "0 \<le> i \<Longrightarrow> i \<le> c \<Longrightarrow>
    \<exists>r. kh_probe c i (hd_key d) i E = Some r \<and>
      (\<forall>k w. r = Key_found k w \<longrightarrow> i \<le> k \<and> k < c \<and> ke_present (E ! nat ((hd_key d + k) mod c))) \<and>
      rh_probe kh_same (word_of_int c) (word_of_int i) d (kh_hash d) (word_of_int i) (map kh_entry E)
        = Some (kprobe_as r)"
proof (induction "nat (c - i)" arbitrary: i)
  case 0
  then show ?case using c
    by (subst kh_probe.simps, subst rh_probe.simps) (simp add: word_small)
next
  case (Suc n)
  let ?j = "nat ((hd_key d + i) mod c)"
  have ic: "i < c" using Suc.hyps(2) by simp
  then have iw: "word_of_int i < (word_of_int c :: u32)"
    using Suc.prems c by (simp add: word_small)
  have k: "0 \<le> hd_key d" "hd_key d + i < 2147483648" using key ic by (auto simp: key_fits_def)
  note slot = kh_slot [OF k(1) Suc.prems(1) k(2) c ok(2)]
  have wslot: "unat ((kh_hash d + word_of_int i) mod (word_of_int c :: u32)) = ?j"
    unfolding kh_hash_def by (rule slot(3))
  let ?el = "E ! ?j"
  have el: "ke_ok c ?el" using ok(1) slot(4) by simp
  have lt: "word_of_int (ke_dib ?el) < (word_of_int i :: u32) \<longleftrightarrow> ke_dib ?el < i"
    using el Suc.prems ic c by (simp add: word_small ke_ok_def)
  have i1: "c_int (i + 1) = Some (i + 1)" using Suc.prems ic c by (simp add: c_int_def)
  have "\<exists>r. kh_probe c (i + 1) (hd_key d) (i + 1) E = Some r \<and>
      (\<forall>k w. r = Key_found k w \<longrightarrow> i + 1 \<le> k \<and> k < c \<and> ke_present (E ! nat ((hd_key d + k) mod c))) \<and>
      rh_probe kh_same (word_of_int c) (word_of_int (i + 1)) d (kh_hash d) (word_of_int (i + 1))
        (map kh_entry E) = Some (kprobe_as r)"
    by (rule Suc.hyps(1)) (use Suc.hyps(2) Suc.prems ic in auto)
  then obtain r where r: "kh_probe c (i + 1) (hd_key d) (i + 1) E = Some r"
    "\<And>k w. r = Key_found k w \<Longrightarrow> i + 1 \<le> k \<and> k < c \<and> ke_present (E ! nat ((hd_key d + k) mod c))"
    "rh_probe kh_same (word_of_int c) (word_of_int i + 1) d (kh_hash d) (word_of_int i + 1)
      (map kh_entry E) = Some (kprobe_as r)"
    by auto
  have K: "kh_probe c i (hd_key d) i E =
      (if \<not> ke_present ?el \<or> ke_dib ?el < i then Some Key_missing
       else if hd_key (ke_data ?el) = hd_key d then Some (Key_found i (ke_data ?el)) else Some r)"
    using ic i1 r(1) by (subst kh_probe.simps) (simp add: slot Let_def)
  have W: "rh_probe kh_same (word_of_int c) (word_of_int i) d (kh_hash d) (word_of_int i) (map kh_entry E) =
      (if \<not> ke_present ?el \<or> ke_dib ?el < i then Some Probe_missing
       else if hd_key (ke_data ?el) = hd_key d then Some (Probe_found (word_of_int i) (ke_data ?el))
       else Some (kprobe_as r))"
    using iw r(3) slot(4)
    by (subst rh_probe.simps) (simp add: wslot lt Let_def kh_same_def same_hash [of "ke_data ?el" d])
  show ?case unfolding K W using r(2) ic Suc.prems by (force split: if_splits)
qed

lemma kh_shift_loop_sim:
  assumes c: "0 < c" "c < 2147483648" and key: "key_fits c k"
  shows "\<lbrakk>\<forall>e\<in>set E. ke_ok c e; length E = nat c; 0 \<le> i; i < c \<longrightarrow> ke_present (E ! nat ((k + i) mod c)); i \<le> c\<rbrakk> \<Longrightarrow>
    \<exists>E' r. kh_shift_loop c i k E = Some (E', r) \<and> (\<forall>e\<in>set E'. ke_ok c e) \<and> length E' = nat c \<and>
      rh_shift_loop (word_of_int c) (word_of_int i) (word_of_int k) (map kh_entry E)
        = Some (map kh_entry E', r)"
proof (induction "nat (c - i)" arbitrary: i E)
  case 0
  then show ?case using c
    by (subst kh_shift_loop.simps, subst rh_shift_loop.simps) (simp add: word_small)
next
  case (Suc n)
  let ?j = "nat ((k + i) mod c)" and ?n = "nat ((k + (i + 1)) mod c)"
  have ic: "i < c" using Suc.hyps(2) by simp
  then have iw: "word_of_int i < (word_of_int c :: u32)"
    using Suc.prems c by (simp add: word_small)
  have k: "0 \<le> k" "k + i < 2147483648" "k + (i + 1) < 2147483648" "0 \<le> i + 1"
    using key ic Suc.prems(3) by (auto simp: key_fits_def)
  note hole = kh_slot [OF k(1) Suc.prems(3) k(2) c Suc.prems(2)]
  note nxt = kh_slot [OF k(1,4,3) c Suc.prems(2)]
  have wnxt: "unat ((word_of_int k + word_of_int i + 1) mod (word_of_int c :: u32)) = ?n"
    using nxt(3) by (simp add: add.assoc)
  have knxt: "c_int (k + i + 1) = Some (k + (i + 1))" using nxt(1) by (simp add: add.assoc)
  let ?el = "E ! ?j" and ?nx = "E ! ?n"
  have el: "ke_ok c ?el" "ke_ok c ?nx" using Suc.prems(1) hole(4) nxt(4) by simp_all
  have pres: "ke_present ?el" using Suc.prems(4) ic by simp
  have zero: "word_of_int (ke_dib ?nx) = (0 :: u32) \<longleftrightarrow> ke_dib ?nx = 0"
    using word_small(2) [of "ke_dib ?nx" 0] el c by (simp add: ke_ok_def)
  show ?case
  proof (cases "\<not> ke_present ?nx \<or> ke_dib ?nx = 0")
    case True
    let ?E = "E[?j := ?el\<lparr>ke_present := False\<rparr>]"
    have "\<forall>e\<in>set ?E. ke_ok c e"
      by (rule ke_ok_upd [OF Suc.prems(1)]) (use el in \<open>simp add: ke_ok_def\<close>)
    moreover have "kh_shift_loop c i k E = Some (?E, HTAR_SUCCESS)"
      using True ic by (subst kh_shift_loop.simps) (simp add: hole nxt(2) knxt)
    moreover have "rh_shift_loop (word_of_int c) (word_of_int i) (word_of_int k) (map kh_entry E)
        = Some (map kh_entry ?E, HTAR_SUCCESS)"
      using True iw hole(4) nxt(4) zero
      by (subst rh_shift_loop.simps) (simp add: hole(3) wnxt Let_def map_update, simp add: kh_entry_def)
    ultimately show ?thesis using Suc.prems(2) by simp
  next
    case False
    let ?E = "E[?j := ?el\<lparr>ke_data := ke_data ?nx, ke_dib := ke_dib ?nx - 1\<rparr>]"
    have ok: "\<forall>e\<in>set ?E. ke_ok c e"
      by (rule ke_ok_upd [OF Suc.prems(1)]) (use el False in \<open>simp add: ke_ok_def\<close>)
    have upd: "map kh_entry ?E = (map kh_entry E)[?j := (kh_entry ?el)\<lparr>he_value := ke_data ?nx,
        he_hash := kh_hash (ke_data ?nx), he_dib := word_of_int (ke_dib ?nx) - 1\<rparr>]"
      by (simp add: map_update kh_entry_def)
    have dk: "ke_dib (E[?j := ?el\<lparr>ke_data := x\<rparr>] ! ?n) = ke_dib ?nx" for x
      using hole(4) by (cases "?j = ?n") auto
    have dw: "he_dib ((map kh_entry E)[?j := (kh_entry ?el)\<lparr>he_value := x, he_hash := y\<rparr>] ! ?n)
        = word_of_int (ke_dib ?nx)" for x y
      using hole(4) nxt(4) by (cases "?j = ?n") auto
    have pos: "0 < ke_dib ?nx" using False el by (auto simp: ke_ok_def)
    have K: "kh_shift_loop c i k E = kh_shift_loop c (i + 1) k ?E"
      using False ic pos pres hole(4) by (subst kh_shift_loop.simps) (simp add: hole(1,2) nxt(2) knxt Let_def dk)
    have W: "rh_shift_loop (word_of_int c) (word_of_int i) (word_of_int k) (map kh_entry E)
        = rh_shift_loop (word_of_int c) (word_of_int (i + 1)) (word_of_int k) (map kh_entry ?E)"
      unfolding upd using False iw hole(4) nxt(4) zero pres
      by (subst rh_shift_loop.simps) (simp add: hole(3) wnxt Let_def dw word_gt_0)
    have pr: "i + 1 < c \<longrightarrow> ke_present (?E ! ?n)"
      using False hole(4) pres by (cases "?j = ?n") auto
    show ?thesis
      unfolding K W by (rule Suc.hyps(1) [OF _ ok _ _ pr]) (use Suc.hyps(2) Suc.prems(2,3) ic in auto)
  qed
qed

section \<open>Whole operations\<close>

definition kh_as :: "'v kh_table \<Rightarrow> 'v hdata hash_table" where
  "kh_as ht = \<lparr>ht_cap = kh_cap ht, ht_elems = map kh_entry (kh_elems ht)\<rparr>"

definition kh_size :: "'v kh_table \<Rightarrow> nat" where
  "kh_size ht = unat (kh_cap ht)"

definition kh_ok :: "'v kh_table \<Rightarrow> bool" where
  "kh_ok ht \<longleftrightarrow> 0 < kh_size ht \<and> kh_size ht < 2147483648 \<and> length (kh_elems ht) = kh_size ht \<and>
     (\<forall>e\<in>set (kh_elems ht). ke_ok (int (kh_size ht)) e)"

lemma kh_as_sel [simp]: "ht_cap (kh_as ht) = kh_cap ht" "ht_elems (kh_as ht) = map kh_entry (kh_elems ht)"
  by (simp_all add: kh_as_def)

lemma kh_okD:
  assumes "kh_ok ht"
  shows "kh_icap ht = int (kh_size ht)" "word_of_int (kh_icap ht) = kh_cap ht" "0 < kh_cap ht"
    "0 < kh_icap ht" "kh_icap ht < 2147483648" "length (kh_elems ht) = nat (kh_icap ht)"
    "\<forall>e\<in>set (kh_elems ht). ke_ok (kh_icap ht) e"
proof -
  have "uint (kh_cap ht) < 2 ^ 31"
    using assms by (auto simp: kh_ok_def kh_size_def intro: uint_less_of_unat [of _ "2147483648", simplified])
  moreover have "- (2 ^ 31) \<le> uint (kh_cap ht)"
    by (rule order_trans [of _ 0]) simp_all
  ultimately have "sint (kh_cap ht) = uint (kh_cap ht)"
    by (simp add: sint_uint signed_take_bit_int_eq_self del: power_numeral)
  then show c: "kh_icap ht = int (kh_size ht)" by (simp add: kh_icap_def kh_size_def)
  show "word_of_int (kh_icap ht) = kh_cap ht" by (simp add: kh_icap_def)
  show "0 < kh_cap ht" using assms by (simp add: kh_ok_def kh_size_def word_less_nat_alt)
  show "0 < kh_icap ht" "kh_icap ht < 2147483648" "length (kh_elems ht) = nat (kh_icap ht)"
    "\<forall>e\<in>set (kh_elems ht). ke_ok (kh_icap ht) e"
    using assms by (simp_all add: c kh_ok_def)
qed

lemma kh_okI:
  assumes "kh_ok ht" "length E = nat (kh_icap ht)" "\<forall>e\<in>set E. ke_ok (kh_icap ht) e"
  shows "kh_ok (ht\<lparr>kh_elems := E\<rparr>)" "kh_size (ht\<lparr>kh_elems := E\<rparr>) = kh_size ht"
  using assms kh_okD(1) [OF assms(1)] by (auto simp: kh_ok_def kh_size_def)

lemma kh_insert_sim:
  assumes ok: "kh_ok ht" and key: "key_fits (int (kh_size ht)) (hd_key d)"
  shows "\<exists>ht' r. kh_insert ht d = Some (ht', r) \<and> kh_ok ht' \<and> kh_size ht' = kh_size ht \<and>
    rh_insert kh_hash kh_same (kh_as ht) d = Some (kh_as ht', r)"
proof -
  note o = kh_okD [OF ok]
  obtain E r where E: "kh_insert_loop (kh_icap ht) 0 d 0 (kh_elems ht) = Some (E, r)"
    "\<forall>e\<in>set E. ke_ok (kh_icap ht) e" "length E = nat (kh_icap ht)"
    "rh_insert_loop kh_same (kh_cap ht) 0 d (kh_hash d) 0 (map kh_entry (kh_elems ht))
      = Some (map kh_entry E, r)"
    using kh_insert_loop_sim [OF o(4,5,7,6), of d 0 0] key o(1,2,4) by auto
  then show ?thesis
    using kh_okI [OF ok E(3,2)] o(3)
    by (intro exI [of _ "ht\<lparr>kh_elems := E\<rparr>"] exI [of _ r]) (simp add: kh_insert_def rh_insert_def kh_as_def)
qed

lemma kh_get_sim:
  assumes ok: "kh_ok ht" and key: "key_fits (int (kh_size ht)) (hd_key d)"
  shows "kh_get ht (hd_key d) = rh_get kh_hash kh_same (kh_as ht) d"
proof -
  note o = kh_okD [OF ok]
  obtain r where "kh_probe (kh_icap ht) 0 (hd_key d) 0 (kh_elems ht) = Some r"
    "rh_probe kh_same (kh_cap ht) 0 d (kh_hash d) 0 (map kh_entry (kh_elems ht)) = Some (kprobe_as r)"
    using kh_probe_sim [OF o(4,5,7,6), of d 0] key o(1,2,4) by auto
  then show ?thesis using o(3) by (cases r) (simp_all add: kh_get_def rh_get_def)
qed

lemma kh_delete_sim:
  assumes ok: "kh_ok ht" and key: "key_fits (int (kh_size ht)) (hd_key d)"
  shows "\<exists>ht' r w. kh_delete ht (hd_key d) = Some (ht', r, w) \<and> kh_ok ht' \<and> kh_size ht' = kh_size ht \<and>
    rh_delete kh_hash kh_same (kh_as ht) d = Some (kh_as ht', r, w)"
proof -
  note o = kh_okD [OF ok]
  obtain p where p: "kh_probe (kh_icap ht) 0 (hd_key d) 0 (kh_elems ht) = Some p"
    "\<And>k w. p = Key_found k w \<Longrightarrow> 0 \<le> k \<and> k < kh_icap ht \<and>
      ke_present (kh_elems ht ! nat ((hd_key d + k) mod kh_icap ht))"
    "rh_probe kh_same (kh_cap ht) 0 d (kh_hash d) 0 (map kh_entry (kh_elems ht)) = Some (kprobe_as p)"
    using kh_probe_sim [OF o(4,5,7,6), of d 0] key o(1,2,4) by auto
  show ?thesis
  proof (cases p)
    case (Key_found k w)
    have "key_fits (kh_icap ht) (hd_key d)" using key o(1) by simp
    from kh_shift_loop_sim [OF o(4,5) this o(7,6), of k] p(2) [OF Key_found]
    obtain E r where E: "kh_shift_loop (kh_icap ht) k (hd_key d) (kh_elems ht) = Some (E, r)"
      "\<forall>e\<in>set E. ke_ok (kh_icap ht) e" "length E = nat (kh_icap ht)"
      "rh_shift_loop (kh_cap ht) (word_of_int k) (kh_hash d) (map kh_entry (kh_elems ht))
        = Some (map kh_entry E, r)"
      unfolding o(2) kh_hash_def by auto
    then show ?thesis
      using kh_okI [OF ok E(3,2)] o(3) p Key_found
      by (intro exI [of _ "ht\<lparr>kh_elems := E\<rparr>"] exI [of _ r] exI [of _ "Some w"])
        (simp add: kh_delete_def rh_delete_def kh_as_def)
  qed (use p o(3) ok in \<open>auto simp: kh_delete_def rh_delete_def kh_as_def\<close>)
qed

interpretation entries: hashed kh_hash kh_same
  by unfold_locales (auto simp: equivp_def kh_same_def fun_eq_iff)

definition kh_wf :: "'v kh_table \<Rightarrow> bool" where
  "kh_wf ht \<longleftrightarrow> kh_ok ht \<and> rh_wf kh_hash kh_same (kh_as ht)"

definition kh_vals :: "'v kh_table \<Rightarrow> 'v hdata set" where
  "kh_vals ht = rh_vals (kh_as ht)"

definition kh_has :: "'v hdata \<Rightarrow> int \<Rightarrow> bool" where
  "kh_has d k \<longleftrightarrow> hd_key d = k"

lemma rh_same_keys: "rh_same kh_hash kh_same a b \<longleftrightarrow> hd_key a = hd_key b"
  by (auto simp: rh_same_def kh_same_def kh_hash_def)

lemma key_fits_hash: "key_fits (int n) (hd_key d) \<Longrightarrow> rh_fits n (kh_hash d)"
proof -
  assume k: "key_fits (int n) (hd_key d)"
  then have "uint (kh_hash d) = hd_key d" by (simp add: kh_hash_def key_fits_def uint_small)
  then have "int (unat (kh_hash d)) = hd_key d" by simp
  with k show ?thesis unfolding rh_fits_def key_fits_def by linarith
qed

lemma kh_size_as: "rh_size (kh_as ht) = kh_size ht"
  by (simp add: rh_size_def kh_size_def)

text \<open>A value with the key looked for, whatever it holds.\<close>

definition key_data :: "int \<Rightarrow> 'v hdata" where
  "key_data k = \<lparr>hd_key = k, hd_value = undefined\<rparr>"

lemma key_data_key [simp]: "hd_key (key_data k) = k"
  by (simp add: key_data_def)

text \<open>Nothing is lost in the correspondence.\<close>

lemma kh_as_inj:
  assumes "kh_ok s" "kh_ok t" "kh_as s = kh_as t"
  shows "s = (t :: 'v kh_table)"
proof -
  have cap: "kh_cap s = kh_cap t" and map: "map kh_entry (kh_elems s) = map kh_entry (kh_elems t)"
    using arg_cong [OF assms(3), of ht_cap] arg_cong [OF assms(3), of ht_elems] by simp_all
  have "x = y" if "kh_entry x = kh_entry y" "x \<in> set (kh_elems s)" "y \<in> set (kh_elems t)" for x y
  proof -
    have "ke_ok (int (kh_size s)) x" "ke_ok (int (kh_size s)) y" "kh_size s < 2147483648"
      using assms that(2,3) cap by (auto simp: kh_ok_def kh_size_def)
    then have "ke_dib x = ke_dib y"
      using arg_cong [OF that(1), of he_dib] by (simp add: ke_ok_def word_small)
    then show ?thesis
      using arg_cong [OF that(1), of he_value] arg_cong [OF that(1), of he_present] by simp
  qed
  then have "kh_elems s = kh_elems t"
    using map by (intro list.inj_map_strong [OF _ map]) auto
  with cap show ?thesis by simp
qed

interpretation keyed: value_table kh_has hd_key "\<lambda>n. key_fits (int n)" kh_wf kh_size kh_vals
  kh_insert kh_get kh_delete
proof
  fix v :: "'a hdata" show "kh_has v (hd_key v)" by (simp add: kh_has_def)
next
  fix t :: "'a kh_table" and v w :: "'a hdata" and k
  assume "kh_wf t" "v \<in> kh_vals t" "w \<in> kh_vals t" "kh_has v k" "kh_has w k"
  then show "v = w"
    using entries.tab.unique [of "kh_as t" v w v] by (simp add: kh_wf_def kh_vals_def kh_has_def rh_same_keys)
next
  fix t :: "'a kh_table" and v :: "'a hdata"
  assume a: "kh_wf t" "key_fits (int (kh_size t)) (hd_key v)" "card (kh_vals t) < kh_size t"
    "\<forall>w\<in>kh_vals t. \<not> kh_has w (hd_key v)"
  then have ok: "kh_ok t" and wf: "rh_wf kh_hash kh_same (kh_as t)" by (simp_all add: kh_wf_def)
  show "\<exists>t'. kh_insert t v = Some (t', HTIR_SUCCESS) \<and> kh_wf t' \<and> kh_size t' = kh_size t \<and>
      kh_vals t' = insert v (kh_vals t)"
    using kh_insert_sim [OF ok a(2)] entries.tab.ins_new [OF wf, of v] key_fits_hash [OF a(2)] a(3,4)
    by (auto simp: kh_wf_def kh_vals_def kh_size_as kh_has_def rh_same_keys)
next
  fix t :: "'a kh_table" and v w :: "'a hdata"
  assume a: "kh_wf t" "key_fits (int (kh_size t)) (hd_key v)" "w \<in> kh_vals t" "kh_has w (hd_key v)"
  then have ok: "kh_ok t" and wf: "rh_wf kh_hash kh_same (kh_as t)" by (simp_all add: kh_wf_def)
  obtain t' r where t': "kh_insert t v = Some (t', r)" "kh_ok t'"
    "rh_insert kh_hash kh_same (kh_as t) v = Some (kh_as t', r)"
    using kh_insert_sim [OF ok a(2)] by blast
  have "rh_insert kh_hash kh_same (kh_as t) v = Some (kh_as t, HTIR_EXISTS)"
    by (rule entries.tab.ins_dup [OF wf, of v w])
      (use a key_fits_hash [OF a(2)] in \<open>simp_all add: kh_size_as kh_vals_def rh_same_keys kh_has_def\<close>)
  then show "kh_insert t v = Some (t, HTIR_EXISTS)"
    using t' kh_as_inj [OF t'(2) ok] by simp
next
  fix t :: "'a kh_table" and k and w :: "'a hdata"
  assume a: "kh_wf t" "key_fits (int (kh_size t)) k" "w \<in> kh_vals t" "kh_has w k"
  then have ok: "kh_ok t" and wf: "rh_wf kh_hash kh_same (kh_as t)" by (simp_all add: kh_wf_def)
  show "kh_get t k = Some (HTAR_SUCCESS, Some w)"
    using kh_get_sim [OF ok, of w] entries.tab.get_found [OF wf, of w w] key_fits_hash [of _ w] a
    by (simp add: kh_has_def kh_vals_def kh_size_as rh_same_keys)
next
  fix t :: "'a kh_table" and k
  assume a: "kh_wf t" "key_fits (int (kh_size t)) k" "\<forall>w\<in>kh_vals t. \<not> kh_has w k"
  then have ok: "kh_ok t" and wf: "rh_wf kh_hash kh_same (kh_as t)" by (simp_all add: kh_wf_def)
  show "kh_get t k = Some (HTAR_DOESNT_EXIST, None)"
    using kh_get_sim [OF ok, of "key_data k"] entries.tab.get_missing [OF wf, of "key_data k"]
      key_fits_hash [of "kh_size t" "key_data k :: 'a hdata"] a
    by (simp add: kh_has_def kh_vals_def kh_size_as rh_same_keys)
next
  fix t :: "'a kh_table" and k and w :: "'a hdata"
  assume a: "kh_wf t" "key_fits (int (kh_size t)) k" "w \<in> kh_vals t" "kh_has w k"
  then have ok: "kh_ok t" and wf: "rh_wf kh_hash kh_same (kh_as t)" by (simp_all add: kh_wf_def)
  show "\<exists>t'. kh_delete t k = Some (t', HTAR_SUCCESS, Some w) \<and> kh_wf t' \<and> kh_size t' = kh_size t \<and>
      kh_vals t' = kh_vals t - {w}"
    using kh_delete_sim [OF ok, of w] entries.tab.del_found [OF wf, of w w] key_fits_hash [of _ w] a
    by (auto simp: kh_wf_def kh_has_def kh_vals_def kh_size_as rh_same_keys)
next
  fix t :: "'a kh_table" and k
  assume a: "kh_wf t" "key_fits (int (kh_size t)) k" "\<forall>w\<in>kh_vals t. \<not> kh_has w k"
  then have ok: "kh_ok t" and wf: "rh_wf kh_hash kh_same (kh_as t)" by (simp_all add: kh_wf_def)
  have key: "key_fits (int (kh_size t)) (hd_key (key_data k))" using a(2) by simp
  obtain t' r w where t': "kh_delete t k = Some (t', r, w)" "kh_ok t'"
    "rh_delete kh_hash kh_same (kh_as t) (key_data k) = Some (kh_as t', r, w)"
    using kh_delete_sim [OF ok key] by auto
  have "rh_delete kh_hash kh_same (kh_as t) (key_data k) = Some (kh_as t, HTAR_DOESNT_EXIST, None)"
    by (rule entries.tab.del_missing [OF wf])
      (use a key_fits_hash [OF key] in \<open>simp_all add: kh_size_as kh_vals_def rh_same_keys kh_has_def\<close>)
  then show "kh_delete t k = Some (t, HTAR_DOESNT_EXIST, None)"
    using t' kh_as_inj [OF t'(2) ok] by simp
qed

section \<open>What the keyed table does\<close>

lemma kh_init_ok:
  assumes "kh_init zero arr n = Some ht" "0 < n" "unat n < 2147483648"
  shows "keyed.like ht []" "kh_size ht = unat n"
proof -
  let ?e = "\<lparr>ke_data = \<lparr>hd_key = 0, hd_value = zero\<rparr>, ke_dib = 0, ke_present = False\<rparr>"
  have ht: "ht = \<lparr>kh_cap = n, kh_elems = replicate (unat n) ?e\<rparr>"
    using assms(1) by (simp add: kh_init_def split: if_splits)
  then show size: "kh_size ht = unat n" by (simp add: kh_size_def)
  have n: "0 < unat n" using assms(2) by (simp add: word_less_nat_alt)
  have "0 < int (unat n)" "int (unat n) < 2147483648" using n assms(3) by linarith+
  then have ok: "kh_ok ht"
    using assms(3) n by (simp add: kh_ok_def size) (simp add: ht ke_ok_def key_fits_def)
  have "kh_as ht = \<lparr>ht_cap = n, ht_elems = replicate (unat n) (vacant \<lparr>hd_key = 0, hd_value = zero\<rparr>)\<rparr>"
    by (simp add: ht kh_as_def kh_entry_def kh_hash_def vacant_def)
  then have "rh_init \<lparr>hd_key = 0, hd_value = zero\<rparr>
      (replicate (unat n) (vacant \<lparr>hd_key = 0, hd_value = zero\<rparr>)) n = Some (kh_as ht)"
    by (simp add: rh_init_def vacant_def)
  from entries.fresh_like(1) [OF this assms(2)]
  have "rh_wf kh_hash kh_same (kh_as ht)" "rh_vals (kh_as ht) = {}"
    by (simp_all add: entries.tab.like_def)
  then show "keyed.like ht []"
    using ok by (simp add: keyed.like_def kh_wf_def kh_vals_def)
qed

text \<open>
  C19. The keyed robin hood table is a finite map. From an initialised table of fewer than \<open>2^31\<close>
  slots on, any sequence of insertions, lookups and deletions by key returns what an association
  list returns, as long as no insertion meets a full table and every key is
  non-negative and leaves room for a probe of the table below \<open>2^31\<close>.
\<close>

theorem keyed_table_is_a_map:
  assumes "kh_init zero arr n = Some ht" "0 < n" "unat n < 2147483648"
    "ref_run kh_has hd_key (key_fits (int (unat n))) (unat n) [] ops = Some rs"
  shows "table_run kh_insert kh_get kh_delete ht ops = Some rs"
  using keyed.run_like [OF kh_init_ok(1) [OF assms(1-3)]] kh_init_ok(2) [OF assms(1-3)] assms(4) by simp

lemma keyed_table_is_a_map_witness:
  "\<exists>ht. table_run kh_insert kh_get kh_delete ht
      [Op_insert \<lparr>hd_key = 4, hd_value = 1 :: nat\<rparr>, Op_insert \<lparr>hd_key = 7, hd_value = 2\<rparr>,
       Op_insert \<lparr>hd_key = 4, hd_value = 3\<rparr>, Op_get 4, Op_delete 4, Op_get 7, Op_get 4]
    = Some [Res_insert HTIR_SUCCESS, Res_insert HTIR_SUCCESS, Res_insert HTIR_EXISTS,
            Res_access HTAR_SUCCESS (Some \<lparr>hd_key = 4, hd_value = 1\<rparr>),
            Res_access HTAR_SUCCESS (Some \<lparr>hd_key = 4, hd_value = 1\<rparr>),
            Res_access HTAR_SUCCESS (Some \<lparr>hd_key = 7, hd_value = 2\<rparr>),
            Res_access HTAR_DOESNT_EXIST None]"
  by (intro exI keyed_table_is_a_map
      [where n = 3 and zero = 0 and arr = "replicate 3 \<lparr>ke_data = \<lparr>hd_key = 0, hd_value = 0\<rparr>, ke_dib = 0, ke_present = False\<rparr>"])
    (simp_all add: kh_init_def kh_has_def key_fits_def)

text \<open>
  A negative key that is no multiple of the capacity is outside the table: \<open>%\<close> takes the
  sign of the key, and the first probe indexes before the array.
\<close>

theorem keyed_negative_key_undefined:
  assumes "kh_ok ht" "- 2147483648 \<le> k" "k < 0" "k mod kh_icap ht \<noteq> 0"
  shows "kh_insert ht \<lparr>hd_key = k, hd_value = v\<rparr> = None \<and> kh_get ht k = None \<and> kh_delete ht k = None"
proof -
  note o = kh_okD [OF assms(1)]
  have "0 < (- k) mod kh_icap ht"
    using assms(4) o(4) zmod_zminus1_not_zero [of "- k" "kh_icap ht"] pos_mod_sign [of "kh_icap ht" "- k"]
    by (simp add: order_le_less)
  then have "c_rem k (kh_icap ht) < 0" using assms(3) by (simp add: c_rem_def)
  then have "array_index (c_rem k (kh_icap ht)) E = None" for E :: "'a kentry list"
    by (simp add: array_index_def)
  moreover have "c_int k = Some k" using assms(2,3) by (simp add: c_int_def)
  ultimately show ?thesis
    using o(3,4) by (simp add: kh_insert_def kh_get_def kh_delete_def kh_insert_loop.simps [where i = 0]
        kh_probe.simps [where i = 0])
qed

lemma keyed_negative_key_undefined_witness:
  "\<exists>ht. kh_init (0 :: nat) (replicate 3 \<lparr>ke_data = \<lparr>hd_key = 0, hd_value = 0\<rparr>, ke_dib = 0, ke_present = False\<rparr>) 3
      = Some ht \<and> kh_insert ht \<lparr>hd_key = - 1, hd_value = 5\<rparr> = None \<and> kh_get ht (- 1) = None \<and>
    kh_delete ht (- 1) = None"
proof (intro exI conjI)
  let ?e = "\<lparr>ke_data = \<lparr>hd_key = 0, hd_value = 0 :: nat\<rparr>, ke_dib = 0, ke_present = False\<rparr>"
  let ?ht = "\<lparr>kh_cap = 3, kh_elems = replicate 3 ?e\<rparr>"
  show "kh_init 0 (replicate 3 ?e) 3 = Some ?ht" by (simp add: kh_init_def)
  have ok: "kh_ok ?ht" by (simp add: kh_ok_def kh_size_def ke_ok_def key_fits_def)
  have "kh_icap ?ht = 3" using kh_okD(1) [OF ok] by (simp add: kh_size_def)
  then have "kh_insert ?ht \<lparr>hd_key = - 1, hd_value = 5\<rparr> = None \<and> kh_get ?ht (- 1) = None \<and> kh_delete ?ht (- 1) = None"
    by (intro keyed_negative_key_undefined [OF ok]) simp_all
  then show "kh_insert ?ht \<lparr>hd_key = - 1, hd_value = 5\<rparr> = None" "kh_get ?ht (- 1) = None"
    "kh_delete ?ht (- 1) = None" by auto
qed

text \<open>The count is the number of entries.\<close>

lemma kh_count_loop_ok:
  "n \<le> length E \<Longrightarrow> kh_count_loop E n r = Some (r + word_of_nat (length (filter ke_present (take n E))))"
proof (induction n arbitrary: E r)
  case (Suc n)
  then show ?case by (cases E) simp_all
qed simp

lemma kh_count_ok:
  assumes "kh_wf ht"
  shows "kh_count ht = Some (word_of_nat (card (kh_vals ht)))"
proof -
  have ok: "kh_ok ht" and wf: "rh_wf kh_hash kh_same (kh_as ht)" using assms by (simp_all add: kh_wf_def)
  have len: "length (kh_elems ht) = unat (kh_cap ht)" using ok by (simp add: kh_ok_def kh_size_def)
  have "card (kh_vals ht) = card {p. p < unat (kh_cap ht) \<and> he_present (map kh_entry (kh_elems ht) ! p)}"
    using rh_values_card(1) [OF _ _ entries.cmp_equiv] wf unfolding kh_vals_def rh_vals_def rh_wf_def
    by fastforce
  also have "\<dots> = length (filter ke_present (kh_elems ht))"
    unfolding length_filter_conv_card using len by (intro arg_cong [of _ _ card]) auto
  finally show ?thesis
    using kh_okD(3) [OF ok] len by (simp add: kh_count_def kh_count_loop_ok)
qed

end
