(* ===== verification/Hash_table.thy ===== *)
theory Hash_table
  imports Llist Rand
begin

text \<open>
  The chained hash table of \<^verbatim>\<open>ds/hash_table.h\<close> and \<^verbatim>\<open>ds/hash_table.c\<close>: buckets of intrusive
  nodes the caller owns. The nodes live in a store of \<open>next\<close> links and hash codes; the
  table is the record below. A lookup returns where the pointer to the node is kept (a
  bucket, or the \<open>next\<close> field of the node before), and deletion unlinks through that place.
  The operations are those of one thread; a latch already held spins for ever, which is \<open>None\<close>.
\<close>

section \<open>State\<close>

record hstore =
  hn_next :: links
  hn_hcode :: "addr \<Rightarrow> u32"

record htable =
  tb_cap :: u32
  tb_size :: u32
  tb_latch :: bool
  tb_table :: "addr option list"

datatype hlink = Bucket nat | After addr

definition hnode_init :: "hstore \<Rightarrow> addr \<Rightarrow> u32 \<Rightarrow> hstore" where
  "hnode_init st dest hcode =
     st\<lparr>hn_hcode := (hn_hcode st)(dest := hcode), hn_next := (hn_next st)(dest := None)\<rparr>"

definition htable_dbg :: "htable \<Rightarrow> unit option" where
  "htable_dbg t = ASSERT (0 < tb_cap t)"

definition htable_lock :: "htable \<Rightarrow> htable option" where
  "htable_lock t = (if tb_latch t then None else Some (t\<lparr>tb_latch := True\<rparr>))"

definition htable_unlock :: "htable \<Rightarrow> htable" where
  "htable_unlock t = t\<lparr>tb_latch := False\<rparr>"

text \<open>\<open>*from\<close>, read and written.\<close>

definition link_get :: "htable \<Rightarrow> hstore \<Rightarrow> hlink \<Rightarrow> addr option option" where
  "link_get t st from =
     (case from of
        Bucket i \<Rightarrow> if i < length (tb_table t) then Some (tb_table t ! i) else None
      | After a \<Rightarrow> Some (hn_next st a))"

definition link_put :: "htable \<Rightarrow> hstore \<Rightarrow> hlink \<Rightarrow> addr option \<Rightarrow> (htable \<times> hstore) option" where
  "link_put t st from v =
     (case from of
        Bucket i \<Rightarrow> if i < length (tb_table t) then Some (t\<lparr>tb_table := (tb_table t)[i := v]\<rparr>, st) else None
      | After a \<Rightarrow> Some (t, st\<lparr>hn_next := (hn_next st)(a := v)\<rparr>))"

section \<open>Operations\<close>

text \<open>The header of the object is 16 bytes, a pointer 8; the size is computed in 64 bits and
handed to \<open>i_malloc\<close>, whose parameter has 32.\<close>

definition htable_create :: "libc \<Rightarrow> u32 \<Rightarrow> errp \<Rightarrow> (htable option \<times> errp) option" where
  "htable_create os n e = do {
     (ret, e) \<leftarrow> i_malloc os 1 (ucast (16 + ucast n * 8 :: u64)) e;
     case ret of
       None \<Rightarrow> Some (None, e)
     | Some mem \<Rightarrow> do {
         ASSERT (16 + unat n * 8 \<le> length mem);
         let t = \<lparr>tb_cap = n, tb_size = 0, tb_latch = False, tb_table = replicate (unat n) None\<rparr>;
         htable_dbg t;
         Some (Some t, e)
       }
   }"

text \<open>\<open>htable_free\<close> hands the object back to the allocator; nothing of it remains.\<close>

definition htable_free :: "htable \<Rightarrow> unit option" where
  "htable_free t = htable_dbg t"

definition htable_insert :: "htable \<Rightarrow> hstore \<Rightarrow> addr \<Rightarrow> (htable \<times> hstore) option" where
  "htable_insert t st node = do {
     t \<leftarrow> htable_lock t;
     htable_dbg t;
     let pos = unat (hn_hcode st node mod tb_cap t);
     next \<leftarrow> link_get t st (Bucket pos);
     let st = st\<lparr>hn_next := (hn_next st)(node := next)\<rparr>;
     (t, st) \<leftarrow> link_put t st (Bucket pos) (Some node);
     Some (htable_unlock (t\<lparr>tb_size := tb_size t + 1\<rparr>), st)
   }"

definition default_equals :: "hstore \<Rightarrow> addr \<Rightarrow> addr \<Rightarrow> bool" where
  "default_equals st left right \<longleftrightarrow> hn_hcode st left = hn_hcode st right"

partial_function (option) htable_lookup_loop ::
  "(addr \<Rightarrow> addr \<Rightarrow> bool) \<Rightarrow> htable \<Rightarrow> hstore \<Rightarrow> addr \<Rightarrow> hlink \<Rightarrow> hlink option option" where
  "htable_lookup_loop eq t st key from =
     Option.bind (link_get t st from) (\<lambda>cur.
       case cur of
         None \<Rightarrow> Some None
       | Some c \<Rightarrow>
           if hn_hcode st c = hn_hcode st key \<and> eq c key then Some (Some from)
           else htable_lookup_loop eq t st key (After c))"

declare htable_lookup_loop.simps [code]

definition htable_lookup ::
  "htable \<Rightarrow> hstore \<Rightarrow> addr \<Rightarrow> (addr \<Rightarrow> addr \<Rightarrow> bool) option \<Rightarrow> (htable \<times> hlink option) option" where
  "htable_lookup t st key eq = do {
     let eq = (case eq of None \<Rightarrow> default_equals st | Some f \<Rightarrow> f);
     t \<leftarrow> htable_lock t;
     htable_dbg t;
     let pos = unat (hn_hcode st key mod tb_cap t);
     r \<leftarrow> htable_lookup_loop eq t st key (Bucket pos);
     Some (htable_unlock t, r)
   }"

definition htable_delete :: "htable \<Rightarrow> hstore \<Rightarrow> hlink \<Rightarrow> (htable \<times> hstore \<times> addr) option" where
  "htable_delete t st from = do {
     t \<leftarrow> htable_lock t;
     htable_dbg t;
     cur \<leftarrow> link_get t st from;
     node \<leftarrow> cur;
     (t, st) \<leftarrow> link_put t st from (hn_next st node);
     Some (htable_unlock (t\<lparr>tb_size := tb_size t - 1\<rparr>), st, node)
   }"

text \<open>Walking one chain: either the place of the node with the wanted number, or the number the
next chain starts with.\<close>

partial_function (option) htable_random_chain ::
  "htable \<Rightarrow> hstore \<Rightarrow> u32 \<Rightarrow> hlink \<Rightarrow> u32 \<Rightarrow> (hlink + u32) option" where
  "htable_random_chain t st target from idx =
     Option.bind (link_get t st from) (\<lambda>cur.
       case cur of
         None \<Rightarrow> Some (Inr idx)
       | Some c \<Rightarrow>
           if idx = target then Some (Inl from)
           else htable_random_chain t st target (After c) (idx + 1))"

declare htable_random_chain.simps [code]

function htable_random_loop :: "htable \<Rightarrow> hstore \<Rightarrow> u32 \<Rightarrow> u32 \<Rightarrow> u32 \<Rightarrow> hlink option option" where
  "htable_random_loop t st target pos idx =
     (if pos < tb_cap t then do {
        r \<leftarrow> htable_random_chain t st target (Bucket (unat pos)) idx;
        case r of
          Inl from \<Rightarrow> Some (Some from)
        | Inr idx \<Rightarrow> htable_random_loop t st target (pos + 1) idx
      }
      else Some None)"
  by pat_completeness auto
termination
  by (relation "measure (\<lambda>(t, st, target, pos, idx). unat (tb_cap t) - unat pos)")
    (auto simp: u32_inc word_less_nat_alt)

declare htable_random_loop.simps [simp del]

definition htable_random ::
  "crand \<Rightarrow> htable \<Rightarrow> hstore \<Rightarrow> rng \<Rightarrow> (htable \<times> hlink option \<times> rng) option" where
  "htable_random g t st s = do {
     (target, s) \<leftarrow> randu32r g 0 (tb_size t - 1) s;
     t \<leftarrow> htable_lock t;
     htable_dbg t;
     r \<leftarrow> htable_random_loop t st target 0 0;
     Some (htable_unlock t, r, s)
   }"

definition htable_size :: "htable \<Rightarrow> u32" where
  "htable_size t = tb_size t"

text \<open>The action may change the store, the node it is given included; the next node is read first.\<close>

type_synonym 'c haction = "addr \<Rightarrow> hstore \<Rightarrow> 'c \<Rightarrow> (hstore \<times> 'c) option"

partial_function (option) htable_foreach_chain ::
  "'c haction \<Rightarrow> addr option \<Rightarrow> hstore \<Rightarrow> 'c \<Rightarrow> (hstore \<times> 'c) option" where
  "htable_foreach_chain action cur st ctx =
     (case cur of
        None \<Rightarrow> Some (st, ctx)
      | Some c \<Rightarrow>
          Option.bind (action c st ctx) (\<lambda>(st', ctx').
            htable_foreach_chain action (hn_next st c) st' ctx'))"

declare htable_foreach_chain.simps [code]

function htable_foreach_loop ::
  "'c haction \<Rightarrow> htable \<Rightarrow> u32 \<Rightarrow> hstore \<Rightarrow> 'c \<Rightarrow> (hstore \<times> 'c) option" where
  "htable_foreach_loop action t i st ctx =
     (if i < tb_cap t then do {
        cur \<leftarrow> link_get t st (Bucket (unat i));
        (st, ctx) \<leftarrow> htable_foreach_chain action cur st ctx;
        htable_foreach_loop action t (i + 1) st ctx
      }
      else Some (st, ctx))"
  by pat_completeness auto
termination
  by (relation "measure (\<lambda>(action, t, i, st, ctx). unat (tb_cap t) - unat i)")
    (auto simp: u32_inc word_less_nat_alt)

declare htable_foreach_loop.simps [simp del]

definition htable_foreach ::
  "htable \<Rightarrow> hstore \<Rightarrow> 'c haction \<Rightarrow> 'c \<Rightarrow> (htable \<times> hstore \<times> 'c) option" where
  "htable_foreach t st action ctx = do {
     t \<leftarrow> htable_lock t;
     (st, ctx) \<leftarrow> htable_foreach_loop action t 0 st ctx;
     Some (htable_unlock t, st, ctx)
   }"

section \<open>The table as one list\<close>

text \<open>
  \<open>holds t st xs\<close>: the table holds the nodes \<open>xs\<close>, newest first; the chain of a bucket is what
  of the list hashes there.
\<close>

definition in_bucket :: "htable \<Rightarrow> hstore \<Rightarrow> nat \<Rightarrow> addr \<Rightarrow> bool" where
  "in_bucket t st i a \<longleftrightarrow> unat (hn_hcode st a mod tb_cap t) = i"

definition holds :: "htable \<Rightarrow> hstore \<Rightarrow> addr list \<Rightarrow> bool" where
  "holds t st xs \<longleftrightarrow>
     0 < tb_cap t \<and> \<not> tb_latch t \<and> length (tb_table t) = unat (tb_cap t) \<and> distinct xs \<and>
     tb_size t = word_of_nat (length xs) \<and>
     (\<forall>i<unat (tb_cap t). chain (hn_next st) (tb_table t ! i) (filter (in_bucket t st i) xs))"

lemma holdsD:
  assumes "holds t st xs"
  shows "0 < tb_cap t" "\<not> tb_latch t" "length (tb_table t) = unat (tb_cap t)" "distinct xs"
    "tb_size t = word_of_nat (length xs)"
    "i < unat (tb_cap t) \<Longrightarrow> chain (hn_next st) (tb_table t ! i) (filter (in_bucket t st i) xs)"
  using assms by (auto simp: holds_def)

lemma bucket_less: "0 < tb_cap t \<Longrightarrow> unat (h mod tb_cap t) < unat (tb_cap t)"
  by (simp add: unat_mod_distrib word_less_nat_alt)

lemma in_bucket_cong [simp]:
  "in_bucket (t\<lparr>tb_size := a, tb_latch := b, tb_table := c\<rparr>) = in_bucket t"
  "in_bucket (t\<lparr>tb_latch := b\<rparr>) = in_bucket t"
  "in_bucket t (st\<lparr>hn_next := f\<rparr>) = in_bucket t st"
  by (auto simp: in_bucket_def fun_eq_iff)

lemma htable_insert_ok:
  assumes h: "holds t st xs" and new: "n \<notin> set xs"
  shows "\<exists>t' st'. htable_insert t st n = Some (t', st') \<and> holds t' st' (n # xs)"
proof -
  note o = holdsD [OF h]
  let ?p = "unat (hn_hcode st n mod tb_cap t)"
  let ?st = "st\<lparr>hn_next := (hn_next st)(n := tb_table t ! ?p)\<rparr>"
  let ?t = "t\<lparr>tb_size := tb_size t + 1, tb_latch := False, tb_table := (tb_table t)[?p := Some n]\<rparr>"
  have p: "?p < unat (tb_cap t)" by (rule bucket_less [OF o(1)])
  have "htable_insert t st n = Some (?t, ?st)"
    using o(1,2,3) p
    by (simp add: htable_insert_def htable_lock_def htable_dbg_def htable_unlock_def link_get_def link_put_def Let_def)
  moreover have "holds ?t ?st (n # xs)"
    unfolding holds_def
  proof (intro conjI allI impI)
    fix i assume i: "i < unat (tb_cap ?t)"
    have n: "in_bucket t st i n \<longleftrightarrow> i = ?p" by (auto simp: in_bucket_def)
    have "n \<notin> set (filter (in_bucket t st i) xs)" using new by simp
    then have "chain (hn_next ?st) (tb_table t ! i) (filter (in_bucket t st i) xs)"
      using o(6) [of i] i by simp
    then show "chain (hn_next ?st) (tb_table ?t ! i) (filter (in_bucket ?t ?st i) (n # xs))"
      using n i o(3) p by (cases "i = ?p") simp_all
  qed (use o new in \<open>simp_all\<close>)
  ultimately show ?thesis by blast
qed

text \<open>Where the pointer to the node behind \<open>ys\<close> is kept, in a chain that starts at \<open>frm\<close>.\<close>

definition link_after :: "hlink \<Rightarrow> addr list \<Rightarrow> hlink" where
  "link_after frm ys = (if ys = [] then frm else After (last ys))"

lemma link_after_simps [simp]: "link_after frm [] = frm" "link_after frm (a # ys) = link_after (After a) ys"
  by (simp_all add: link_after_def)

lemma link_get_After [simp]: "link_get t st (After a) = Some (hn_next st a)"
  by (simp add: link_get_def)

lemma unlatched: "\<not> tb_latch t \<Longrightarrow> t\<lparr>tb_latch := False\<rparr> = t"
  by (cases t) simp

lemma link_after_get:
  "link_get t st frm = Some p \<Longrightarrow> chain (hn_next st) p (ys @ zs) \<Longrightarrow>
   link_get t st (link_after frm ys) = Some (if zs = [] then None else Some (hd zs))"
proof (induction ys arbitrary: frm p)
  case Nil
  then show ?case by (cases zs) auto
next
  case (Cons a ys)
  then show ?case
    using Cons.IH [of "After a" "hn_next st a"] by simp
qed

lemma htable_lookup_loop_found:
  "link_get t st frm = Some p \<Longrightarrow> chain (hn_next st) p (ys @ a # zs) \<Longrightarrow>
   \<forall>y\<in>set ys. \<not> (hn_hcode st y = hn_hcode st key \<and> eq y key) \<Longrightarrow>
   hn_hcode st a = hn_hcode st key \<Longrightarrow> eq a key \<Longrightarrow>
   htable_lookup_loop eq t st key frm = Some (Some (link_after frm ys))"
proof (induction ys arbitrary: frm p)
  case Nil
  then show ?case by (subst htable_lookup_loop.simps) simp
next
  case (Cons b ys)
  then show ?case
    using Cons.IH [of "After b" "hn_next st b"]
    by (subst htable_lookup_loop.simps) auto
qed

lemma htable_lookup_loop_missing:
  "link_get t st frm = Some p \<Longrightarrow> chain (hn_next st) p ns \<Longrightarrow>
   \<forall>y\<in>set ns. \<not> (hn_hcode st y = hn_hcode st key \<and> eq y key) \<Longrightarrow>
   htable_lookup_loop eq t st key frm = Some None"
proof (induction ns arbitrary: frm p)
  case Nil
  then show ?case by (subst htable_lookup_loop.simps) simp
next
  case (Cons b ns)
  then show ?case
    using Cons.IH [of "After b" "hn_next st b"]
    by (subst htable_lookup_loop.simps) auto
qed

lemma in_bucket_size [simp]: "in_bucket (t\<lparr>tb_size := a\<rparr>) = in_bucket t"
  "in_bucket (t\<lparr>tb_size := a, tb_latch := b\<rparr>) = in_bucket t"
  by (auto simp: in_bucket_def fun_eq_iff)

lemma bucket_get:
  "holds t st xs \<Longrightarrow> i < unat (tb_cap t) \<Longrightarrow> link_get t st (Bucket i) = Some (tb_table t ! i)"
  using holdsD(3) [of t st xs] by (simp add: link_get_def)

text \<open>Taking a node out of its chain.\<close>

lemma chain_cut:
  "chain nx p (ys @ a # zs) \<Longrightarrow> distinct (ys @ a # zs) \<Longrightarrow> ys \<noteq> [] \<Longrightarrow>
   chain (nx(last ys := nx a)) p (ys @ zs)"
proof (induction ys arbitrary: p)
  case (Cons b ys)
  show ?case
  proof (cases "ys = []")
    case True
    then show ?thesis using Cons.prems by (simp del: fun_upd_apply add: fun_upd_same)
  next
    case False
    then have "b \<noteq> last ys" using Cons.prems(2) last_in_set [of ys] by auto
    then show ?thesis using Cons.IH [of "nx b"] Cons.prems False by simp
  qed
qed simp

lemma htable_delete_ok:
  assumes h: "holds t st xs" and i: "i < unat (tb_cap t)"
    and split: "filter (in_bucket t st i) xs = ys @ a # zs"
  shows "\<exists>t' st'. htable_delete t st (link_after (Bucket i) ys) = Some (t', st', a) \<and>
    holds t' st' (remove1 a xs) \<and> hn_hcode st' = hn_hcode st"
proof -
  note o = holdsD [OF h]
  have ch: "chain (hn_next st) (tb_table t ! i) (ys @ a # zs)" using o(6) [OF i] split by simp
  have get: "link_get t st (link_after (Bucket i) ys) = Some (Some a)"
    using link_after_get [OF bucket_get [OF h i] ch] by simp
  have dist: "distinct (ys @ a # zs)" using distinct_filter [OF o(4)] split by metis
  have a: "a \<in> set xs" "in_bucket t st i a"
    using arg_cong [OF split, of set] by auto
  have size: "tb_size t - 1 = word_of_nat (length (remove1 a xs))"
    using a(1) o(5) length_pos_if_in_set [OF a(1)]
      of_nat_diff [of 1 "length xs", where 'a = u32]
    by (simp add: length_remove1 Suc_le_eq)
  have rest: "filter (in_bucket t st j) (remove1 a xs)
      = (if j = i then ys @ zs else filter (in_bucket t st j) xs)" for j
  proof (cases "j = i")
    case True
    then show ?thesis using dist split by (simp add: filter_remove1 remove1_append)
  next
    case False
    then have "a \<notin> set (filter (in_bucket t st j) xs)" using a(2) by (auto simp: in_bucket_def)
    then show ?thesis using False by (simp add: filter_remove1 remove1_idem)
  qed
  show ?thesis
  proof (cases "ys = []")
    case True
    let ?t = "t\<lparr>tb_size := tb_size t - 1, tb_latch := False, tb_table := (tb_table t)[i := hn_next st a]\<rparr>"
    have "htable_delete t st (link_after (Bucket i) ys) = Some (?t, st, a)"
      using o(1,2,3) i get True
      by (simp add: htable_delete_def htable_lock_def htable_dbg_def htable_unlock_def link_after_def
          link_get_def link_put_def)
    moreover have "holds ?t st (remove1 a xs)"
      unfolding holds_def
    proof (intro conjI allI impI)
      fix j assume "j < unat (tb_cap ?t)"
      then show "chain (hn_next st) (tb_table ?t ! j) (filter (in_bucket ?t st j) (remove1 a xs))"
        using o(3) o(6) [of j] ch True i by (cases "j = i") (simp_all add: rest)
    qed (use o size in \<open>simp_all\<close>)
    ultimately show ?thesis by blast
  next
    case False
    let ?t = "t\<lparr>tb_size := tb_size t - 1, tb_latch := False\<rparr>"
    let ?st = "st\<lparr>hn_next := (hn_next st)(last ys := hn_next st a)\<rparr>"
    have "htable_delete t st (link_after (Bucket i) ys) = Some (?t, ?st, a)"
      using o(1,2,3) i get False
      by (simp add: htable_delete_def htable_lock_def htable_dbg_def htable_unlock_def link_after_def
          link_get_def link_put_def)
    moreover have "holds ?t ?st (remove1 a xs)"
      unfolding holds_def
    proof (intro conjI allI impI)
      fix j assume j: "j < unat (tb_cap ?t)"
      have "last ys \<in> set (filter (in_bucket t st i) xs)" using split last_in_set [OF False] by simp
      then have "j \<noteq> i \<Longrightarrow> last ys \<notin> set (filter (in_bucket t st j) xs)"
        by (auto simp: in_bucket_def)
      then show "chain (hn_next ?st) (tb_table ?t ! j) (filter (in_bucket ?t ?st j) (remove1 a xs))"
        using o(6) [of j] chain_cut [OF ch dist False] j by (cases "j = i") (simp_all add: rest in_bucket_def)
    qed (use o size in \<open>simp_all\<close>)
    ultimately show ?thesis by (intro exI [of _ ?t] exI [of _ ?st]) simp
  qed
qed

lemma find_split:
  "find P xs = Some a \<Longrightarrow> \<exists>us vs. xs = us @ a # vs \<and> P a \<and> (\<forall>u\<in>set us. \<not> P u)"
proof (induction xs)
  case (Cons x xs)
  show ?case
  proof (cases "P x")
    case True
    then show ?thesis using Cons.prems by (intro exI [of _ "[]"] exI [of _ xs]) simp
  next
    case False
    then obtain us vs where "xs = us @ a # vs" "P a" "\<forall>u\<in>set us. \<not> P u" using Cons by auto
    then show ?thesis using False by (intro exI [of _ "x # us"] exI [of _ vs]) simp
  qed
qed simp

text \<open>The nodes a lookup accepts.\<close>

definition hit :: "hstore \<Rightarrow> addr \<Rightarrow> (addr \<Rightarrow> addr \<Rightarrow> bool) option \<Rightarrow> addr \<Rightarrow> bool" where
  "hit st key eqo a \<longleftrightarrow> hn_hcode st a = hn_hcode st key \<and>
     (case eqo of None \<Rightarrow> default_equals st | Some f \<Rightarrow> f) a key"

lemma htable_lookup_ok:
  assumes h: "holds t st xs"
  shows "case find (hit st key eqo) xs of
      None \<Rightarrow> htable_lookup t st key eqo = Some (t, None)
    | Some a \<Rightarrow> \<exists>frm t' st'. htable_lookup t st key eqo = Some (t, Some frm) \<and>
        link_get t st frm = Some (Some a) \<and>
        htable_delete t st frm = Some (t', st', a) \<and> holds t' st' (remove1 a xs) \<and>
        hn_hcode st' = hn_hcode st"
proof -
  note o = holdsD [OF h]
  let ?i = "unat (hn_hcode st key mod tb_cap t)" and ?eq = "case eqo of None \<Rightarrow> default_equals st | Some f \<Rightarrow> f"
  have i: "?i < unat (tb_cap t)" by (rule bucket_less [OF o(1)])
  have b: "\<And>a. hit st key eqo a \<Longrightarrow> in_bucket t st ?i a" by (simp add: hit_def in_bucket_def)
  let ?t = "t\<lparr>tb_latch := True\<rparr>"
  have lock: "htable_lookup t st key eqo
      = Option.bind (htable_lookup_loop ?eq ?t st key (Bucket ?i)) (\<lambda>r. Some (t, r))"
    using o(1,2) by (simp add: htable_lookup_def htable_lock_def htable_dbg_def htable_unlock_def Let_def unlatched)
  have get: "link_get ?t st (Bucket ?i) = Some (tb_table t ! ?i)"
    using o(3) i by (simp add: link_get_def)
  have ch: "chain (hn_next st) (tb_table t ! ?i) (filter (in_bucket t st ?i) xs)" by (rule o(6) [OF i])
  show ?thesis
  proof (cases "find (hit st key eqo) xs")
    case None
    then have "\<forall>y\<in>set (filter (in_bucket t st ?i) xs). \<not> hit st key eqo y" by (auto simp: find_None_iff)
    then show ?thesis
      using htable_lookup_loop_missing [OF get ch] None by (simp add: lock hit_def)
  next
    case (Some a)
    from find_split [OF this] obtain us vs
      where xs: "xs = us @ a # vs" "hit st key eqo a" "\<forall>u\<in>set us. \<not> hit st key eqo u"
      by (elim exE conjE)
    let ?ys = "filter (in_bucket t st ?i) us" and ?zs = "filter (in_bucket t st ?i) vs"
    have split: "filter (in_bucket t st ?i) xs = ?ys @ a # ?zs" using xs b by simp
    have "htable_lookup_loop ?eq ?t st key (Bucket ?i) = Some (Some (link_after (Bucket ?i) ?ys))"
      by (rule htable_lookup_loop_found [OF get ch [unfolded split]]) (use xs in \<open>auto simp: hit_def\<close>)
    then have "htable_lookup t st key eqo = Some (t, Some (link_after (Bucket ?i) ?ys))"
      by (simp add: lock)
    moreover have "link_get t st (link_after (Bucket ?i) ?ys) = Some (Some a)"
      using link_after_get [OF bucket_get [OF h i] ch [unfolded split]] by simp
    moreover note htable_delete_ok [OF h i split]
    ultimately show ?thesis unfolding Some option.case by blast
  qed
qed


section \<open>Drawing and visiting\<close>

text \<open>The nodes in the order the buckets are walked.\<close>

definition walk :: "htable \<Rightarrow> hstore \<Rightarrow> addr list \<Rightarrow> nat \<Rightarrow> addr list" where
  "walk t st xs n = concat (map (\<lambda>i. filter (in_bucket t st i) xs) [0..<n])"

lemma walk_simps [simp]:
  "walk t st xs 0 = []" "walk t st xs (Suc n) = walk t st xs n @ filter (in_bucket t st n) xs"
  by (simp_all add: walk_def)

lemma walk_mset:
  "mset (walk t st xs n) = mset (filter (\<lambda>a. unat (hn_hcode st a mod tb_cap t) < n) xs)"
proof (induction n)
  case (Suc n)
  have "mset (filter (\<lambda>a. unat (hn_hcode st a mod tb_cap t) < Suc n) xs)
      = mset (filter (\<lambda>a. unat (hn_hcode st a mod tb_cap t) < n) xs) + mset (filter (in_bucket t st n) xs)"
    by (induction xs) (auto simp: in_bucket_def less_Suc_eq)
  then show ?case using Suc by simp
qed simp

lemma walk_all:
  assumes "holds t st xs"
  shows "mset (walk t st xs (unat (tb_cap t))) = mset xs"
proof -
  have "filter (\<lambda>a. unat (hn_hcode st a mod tb_cap t) < unat (tb_cap t)) xs = xs"
    using bucket_less [OF holdsD(1) [OF assms]] by (simp add: filter_id_conv)
  then show ?thesis by (simp add: walk_mset)
qed

lemma htable_random_chain_ok:
  "link_get t st frm = Some p \<Longrightarrow> chain (hn_next st) p ns \<Longrightarrow>
   unat idx \<le> unat target \<Longrightarrow> unat idx + length ns < 4294967296 \<Longrightarrow>
   (if unat target < unat idx + length ns
    then \<exists>l. htable_random_chain t st target frm idx = Some (Inl l) \<and>
           link_get t st l = Some (Some (ns ! (unat target - unat idx)))
    else htable_random_chain t st target frm idx = Some (Inr (idx + word_of_nat (length ns))))"
proof (induction ns arbitrary: frm p idx)
  case Nil
  then show ?case by (subst htable_random_chain.simps) simp
next
  case (Cons a ns)
  show ?case
  proof (cases "idx = target")
    case True
    then show ?thesis using Cons.prems by (subst htable_random_chain.simps) simp
  next
    case False
    then have lt: "unat idx < unat target" using Cons.prems(3) by (simp add: u32_eq_nat)
    have i1: "unat (idx + 1) = unat idx + 1" using Cons.prems(4) by (subst u32_add_nat) simp_all
    have step: "htable_random_chain t st target frm idx = htable_random_chain t st target (After a) (idx + 1)"
      using Cons.prems False by (subst htable_random_chain.simps) simp
    have "unat target - unat idx = Suc (unat target - unat (idx + 1))" using lt i1 by simp
    then show ?thesis
      using Cons.IH [of "After a" "hn_next st a" "idx + 1"] Cons.prems lt
      by (auto simp: step i1 add.assoc)
  qed
qed

lemma link_get_latch [simp]: "link_get (t\<lparr>tb_latch := b\<rparr>) = link_get t"
  by (auto simp: link_get_def fun_eq_iff split: hlink.splits)

lemma htable_random_loop_ok:
  assumes h: "holds t st xs" and small: "length xs < 4294967296"
  shows "\<lbrakk>unat pos \<le> unat (tb_cap t); unat idx = length (walk t st xs (unat pos)); unat idx \<le> unat target;
      unat target < length xs\<rbrakk> \<Longrightarrow>
    \<exists>l a. htable_random_loop (t\<lparr>tb_latch := b\<rparr>) st target pos idx = Some (Some l) \<and>
      link_get t st l = Some (Some a) \<and> a \<in> set xs"
proof (induction "unat (tb_cap t) - unat pos" arbitrary: pos idx)
  case 0
  then have "unat idx = length xs" using arg_cong [OF walk_all [OF h], of size] by simp
  then show ?case using 0 by simp
next
  case (Suc n)
  note o = holdsD [OF h]
  have pos: "pos < tb_cap t" using Suc.hyps(2) by (simp add: word_less_nat_alt)
  then have lt: "unat pos < unat (tb_cap t)" by (simp add: word_less_nat_alt)
  have p1: "unat (pos + 1) = unat pos + 1" by (rule u32_inc [OF pos])
  let ?ns = "filter (in_bucket t st (unat pos)) xs"
  have "length (walk t st xs (unat pos + 1)) \<le> length xs"
    using arg_cong [OF walk_mset [of t st xs "unat pos + 1"], of size]
    by (simp only: size_mset) (metis length_filter_le)
  then have fits: "unat idx + length ?ns \<le> length xs" using Suc.prems(2) by simp
  have "link_get (t\<lparr>tb_latch := b\<rparr>) st (Bucket (unat pos)) = Some (tb_table t ! unat pos)"
    using bucket_get [OF h lt] by simp
  note r = htable_random_chain_ok [OF this o(6) [OF lt] Suc.prems(3)]
  show ?case
  proof (cases "unat target < unat idx + length ?ns")
    case True
    then obtain l where l: "htable_random_chain (t\<lparr>tb_latch := b\<rparr>) st target (Bucket (unat pos)) idx = Some (Inl l)"
      "link_get t st l = Some (Some (?ns ! (unat target - unat idx)))"
      using r fits small by auto
    have "?ns ! (unat target - unat idx) \<in> set ?ns" using True Suc.prems(3) by (intro nth_mem) simp
    then show ?thesis using l pos by (subst htable_random_loop.simps) auto
  next
    case False
    let ?idx = "idx + word_of_nat (length ?ns)"
    have idx: "unat ?idx = unat idx + length ?ns" using fits small by (simp add: unat_of_nat)
    have "htable_random_chain (t\<lparr>tb_latch := b\<rparr>) st target (Bucket (unat pos)) idx = Some (Inr ?idx)"
      using r fits small False by simp
    then have step: "htable_random_loop (t\<lparr>tb_latch := b\<rparr>) st target pos idx = htable_random_loop (t\<lparr>tb_latch := b\<rparr>) st target (pos + 1) ?idx"
      using pos by (subst htable_random_loop.simps) simp
    show ?thesis
      unfolding step by (rule Suc.hyps(1)) (use Suc.hyps(2) Suc.prems idx p1 lt False in auto)
  qed
qed

lemma htable_random_ok:
  assumes h: "holds t st xs" and g: "crand_ok g" and ne: "xs \<noteq> []" and small: "length xs < 4294967296"
  shows "\<exists>l a s'. htable_random g t st s = Some (t, Some l, s') \<and> link_get t st l = Some (Some a) \<and> a \<in> set xs"
proof -
  note o = holdsD [OF h]
  have size: "unat (tb_size t - 1) = length xs - 1"
    using ne small o(5) by (simp add: unat_of_nat Suc_le_eq)
  obtain v s' where v: "randu32r g 0 (tb_size t - 1) s = Some (v, s')" "v \<le> tb_size t - 1"
    using randu32r_range [OF g, of 0 "tb_size t - 1" s] by auto
  have "unat v < length xs" using v(2) size ne by (cases xs) (simp_all add: word_le_nat_alt)
  obtain l a where la: "htable_random_loop (t\<lparr>tb_latch := True\<rparr>) st v 0 0 = Some (Some l)"
    "link_get t st l = Some (Some a)" "a \<in> set xs"
    using htable_random_loop_ok [OF h small, of 0 0 v True] \<open>unat v < length xs\<close> by auto
  have "htable_random g t st s = Some (t, Some l, s')"
    using o(1,2) v(1) la(1)
    by (simp add: htable_random_def htable_lock_def htable_dbg_def htable_unlock_def unlatched)
  with la show ?thesis by blast
qed


text \<open>The action on every node in turn.\<close>

fun run_actions :: "'c haction \<Rightarrow> addr list \<Rightarrow> hstore \<Rightarrow> 'c \<Rightarrow> (hstore \<times> 'c) option" where
  "run_actions action [] st ctx = Some (st, ctx)"
| "run_actions action (a # as) st ctx = do {
     (st, ctx) \<leftarrow> action a st ctx;
     run_actions action as st ctx
   }"

lemma run_actions_append:
  "run_actions action (as @ bs) st ctx =
     Option.bind (run_actions action as st ctx) (\<lambda>(st, ctx). run_actions action bs st ctx)"
  by (induction as arbitrary: st ctx) (auto split: prod.splits bind_splits)

text \<open>An action that minds its own node: it leaves the links of all others alone.\<close>

definition own_node :: "'c haction \<Rightarrow> bool" where
  "own_node action \<longleftrightarrow>
     (\<forall>c st ctx st' ctx'. action c st ctx = Some (st', ctx') \<longrightarrow>
        (\<forall>a. a \<noteq> c \<longrightarrow> hn_next st' a = hn_next st a))"

lemma own_nodeD:
  "own_node action \<Longrightarrow> action c st ctx = Some (st', ctx') \<Longrightarrow> a \<noteq> c \<Longrightarrow> hn_next st' a = hn_next st a"
  unfolding own_node_def by blast

lemma chain_cong: "\<forall>a\<in>set ns. nx a = nx' a \<Longrightarrow> chain nx p ns = chain nx' p ns"
  by (induction ns arbitrary: p) auto

lemma run_actions_next:
  "own_node action \<Longrightarrow> run_actions action as st ctx = Some (st', ctx') \<Longrightarrow> a \<notin> set as \<Longrightarrow>
   hn_next st' a = hn_next st a"
proof (induction as arbitrary: st ctx)
  case (Cons b as)
  then obtain st1 ctx1 where s: "action b st ctx = Some (st1, ctx1)" "run_actions action as st1 ctx1 = Some (st', ctx')"
    by (auto simp: bind_eq_Some_conv)
  then have "hn_next st1 a = hn_next st a"
    by (intro own_nodeD [OF Cons.prems(1) s(1)]) (use Cons.prems(3) in auto)
  then show ?case using Cons.IH [OF Cons.prems(1) s(2)] Cons.prems(3) by simp
qed simp

lemma htable_foreach_chain_ok:
  "own_node action \<Longrightarrow> chain (hn_next st) p ns \<Longrightarrow> distinct ns \<Longrightarrow>
   htable_foreach_chain action p st ctx = run_actions action ns st ctx"
proof (induction ns arbitrary: p st ctx)
  case Nil
  then show ?case by (subst htable_foreach_chain.simps) simp
next
  case (Cons a ns)
  have "htable_foreach_chain action (hn_next st a) st' ctx' = run_actions action ns st' ctx'"
    if "action a st ctx = Some (st', ctx')" for st' ctx'
  proof (rule Cons.IH [OF Cons.prems(1)])
    have "chain (hn_next st) (hn_next st a) ns = chain (hn_next st') (hn_next st a) ns"
      by (intro chain_cong ballI own_nodeD [OF Cons.prems(1) that, symmetric]) (use Cons.prems(3) in auto)
    then show "chain (hn_next st') (hn_next st a) ns" using Cons.prems by simp
  qed (use Cons.prems in simp)
  then show ?case
    using Cons.prems by (subst htable_foreach_chain.simps) (auto split: prod.splits bind_splits)
qed

lemma htable_foreach_loop_ok:
  assumes h: "holds t st0 xs" and own: "own_node action"
  shows "\<lbrakk>unat i \<le> unat (tb_cap t);
      run_actions action (walk t st0 xs (unat i)) st0 ctx0 = Some (st, ctx)\<rbrakk> \<Longrightarrow>
    htable_foreach_loop action (t\<lparr>tb_latch := b\<rparr>) i st ctx
      = run_actions action (walk t st0 xs (unat (tb_cap t))) st0 ctx0"
proof (induction "unat (tb_cap t) - unat i" arbitrary: i st ctx)
  case 0
  then have "unat i = unat (tb_cap t)" by simp
  then show ?case using 0 by (subst htable_foreach_loop.simps) (simp add: word_less_nat_alt)
next
  case (Suc n)
  note o = holdsD [OF h]
  have i: "i < tb_cap t" using Suc.hyps(2) by (simp add: word_less_nat_alt)
  then have lt: "unat i < unat (tb_cap t)" by (simp add: word_less_nat_alt)
  have i1: "unat (i + 1) = unat i + 1" by (rule u32_inc [OF i])
  let ?ns = "filter (in_bucket t st0 (unat i)) xs"
  have "set ?ns \<inter> set (walk t st0 xs (unat i)) = {}" by (auto simp: walk_def in_bucket_def)
  then have "chain (hn_next st0) (tb_table t ! unat i) ?ns = chain (hn_next st) (tb_table t ! unat i) ?ns"
    by (intro chain_cong ballI) (metis disjoint_iff run_actions_next [OF own Suc.prems(2)])
  then have ch: "chain (hn_next st) (tb_table t ! unat i) ?ns" using o(6) [OF lt] by simp
  have get: "link_get t st (Bucket (unat i)) = Some (tb_table t ! unat i)"
    using o(3) lt by (simp add: link_get_def)
  have run: "htable_foreach_chain action (tb_table t ! unat i) st ctx = run_actions action ?ns st ctx"
    by (rule htable_foreach_chain_ok [OF own ch]) (simp add: o(4))
  have step: "htable_foreach_loop action (t\<lparr>tb_latch := b\<rparr>) i st ctx
      = Option.bind (run_actions action ?ns st ctx)
          (\<lambda>(st, ctx). htable_foreach_loop action (t\<lparr>tb_latch := b\<rparr>) (i + 1) st ctx)"
    using i by (subst htable_foreach_loop.simps) (simp add: get run)
  have upto: "run_actions action (walk t st0 xs (unat (i + 1))) st0 ctx0 = run_actions action ?ns st ctx"
    using Suc.prems(2) by (simp add: i1 run_actions_append)
  show ?case
  proof (cases "run_actions action ?ns st ctx")
    case None
    have "walk t st0 xs (unat (tb_cap t)) = walk t st0 xs (unat (i + 1)) @
        concat (map (\<lambda>i. filter (in_bucket t st0 i) xs) [unat (i + 1)..<unat (tb_cap t)])"
      using lt i1 upt_add_eq_append [of 0 "unat (i + 1)" "unat (tb_cap t) - unat (i + 1)"]
      by (simp add: walk_def)
    then show ?thesis using None by (simp add: step run_actions_append upto)
  next
    case (Some r)
    then show ?thesis
      using Suc.hyps(1) [of "i + 1" "fst r" "snd r"] Suc.hyps(2) i1 lt upto
      by (cases r) (simp add: step)
  qed
qed

lemma htable_foreach_ok:
  assumes h: "holds t st xs" and own: "own_node action"
  shows "htable_foreach t st action ctx =
    map_option (\<lambda>(st, ctx). (t, st, ctx)) (run_actions action (walk t st xs (unat (tb_cap t))) st ctx)"
proof -
  note o = holdsD [OF h]
  have "htable_foreach_loop action (t\<lparr>tb_latch := True\<rparr>) 0 st ctx
      = run_actions action (walk t st xs (unat (tb_cap t))) st ctx"
    by (rule htable_foreach_loop_ok [OF h own]) simp_all
  then show ?thesis
    using o(2) by (cases "run_actions action (walk t st xs (unat (tb_cap t))) st ctx")
      (auto simp: htable_foreach_def htable_lock_def htable_unlock_def unlatched)
qed

text \<open>
  Creation. The byte count is cut to 32 bits: below \<open>2^29 - 2\<close> buckets the table is empty, and
  from there on a granted allocation is too small for the clearing that follows.
\<close>

lemma htable_bytes:
  "unat (ucast (16 + ucast n * 8 :: u64) :: u32) = (16 + unat (n :: u32) * 8) mod 4294967296"
proof -
  have "unat (16 + ucast n * 8 :: u64) = 16 + unat n * 8"
  proof -
    have "unat n * 8 < 18446744073709551616" "16 + unat n * 8 < 18446744073709551616"
      using u32_less_bound [of n] by linarith+
    then show ?thesis by (simp add: unat_word_ariths unat_ucast_u32_u64)
  qed
  then show ?thesis by (simp add: unsigned_ucast_eq take_bit_eq_mod)
qed

lemma htable_create_ok:
  assumes os: "libc_ok os" and n: "0 < n" "unat n < 536870910"
  shows "\<exists>r e'. htable_create os n e = Some (r, e') \<and> (\<forall>t. r = Some t \<longrightarrow> \<not> tb_latch t \<and> holds t st [])"
proof -
  let ?sz = "ucast (16 + ucast n * 8 :: u64) :: u32"
  have sz: "unat ?sz = 16 + unat n * 8" using n(2) by (simp add: htable_bytes)
  then have pos: "0 < ?sz" by (simp add: word_less_nat_alt)
  obtain p e' where m: "i_malloc os 1 ?sz e = Some (p, e')" "\<And>bs. p = Some bs \<Longrightarrow> length bs = unat ?sz"
    using i_malloc_one [OF os, of ?sz e] sz by auto
  have "0 < unat n" using n(1) by (simp add: word_less_nat_alt)
  with m sz n(1) show ?thesis
    by (cases p) (simp_all add: htable_create_def htable_dbg_def holds_def)
qed

lemma htable_create_overflow:
  assumes os: "libc_ok os" and n: "536870910 \<le> unat n" and ret: "htable_create os n e = Some (r, e')"
  shows "r = None"
proof (rule ccontr)
  assume "r \<noteq> None"
  then obtain bs e1 where m: "i_malloc os 1 (ucast (16 + ucast n * 8 :: u64)) e = Some (Some bs, e1)"
    "16 + unat n * 8 \<le> length bs"
    using ret by (auto simp: htable_create_def bind_eq_Some_conv split: option.splits if_splits)
  have "length bs = (16 + unat n * 8) mod 4294967296"
    using i_malloc_ok [OF os m(1)] by (simp add: htable_bytes)
  also have "\<dots> < 16 + unat n * 8" using n by (intro order_less_le_trans [OF mod_less_divisor]) simp_all
  finally show False using m(2) by simp
qed


section \<open>What the table does\<close>

text \<open>
  C20. The chained table is one list of nodes, newest first. Inserting a node puts it in front; a lookup
  finds the first node of the list with the key's hash code that \<open>eq\<close> accepts, and none only when
  there is none; and deleting through the place the lookup returned takes out just that
  node, whatever else hangs in its chain.
\<close>

theorem chained_table_is_a_list:
  assumes h: "holds t st xs"
  shows "(n \<notin> set xs \<longrightarrow> (\<exists>t' st'. htable_insert t st n = Some (t', st') \<and> holds t' st' (n # xs))) \<and>
    (case find (hit st key eqo) xs of
      None \<Rightarrow> htable_lookup t st key eqo = Some (t, None)
    | Some a \<Rightarrow> \<exists>from t' st'. htable_lookup t st key eqo = Some (t, Some from) \<and>
        link_get t st from = Some (Some a) \<and>
        htable_delete t st from = Some (t', st', a) \<and> holds t' st' (remove1 a xs))"
  using htable_insert_ok [OF h] htable_lookup_ok [OF h, of key eqo] by (auto split: option.splits)

lemma chained_table_is_a_list_witness:
  "\<exists>t' st' from t'' st''.
     htable_insert \<lparr>tb_cap = 2, tb_size = 0, tb_latch = False, tb_table = [None, None]\<rparr>
       \<lparr>hn_next = (\<lambda>_. None), hn_hcode = word_of_nat\<rparr> 5 = Some (t', st') \<and>
     htable_lookup t' st' 5 None = Some (t', Some from) \<and>
     htable_delete t' st' from = Some (t'', st'', 5) \<and> holds t'' st'' []"
proof -
  let ?t = "\<lparr>tb_cap = 2, tb_size = 0, tb_latch = False, tb_table = [None, None]\<rparr>"
  let ?st = "\<lparr>hn_next = (\<lambda>_. None), hn_hcode = word_of_nat\<rparr>"
  have "holds ?t ?st []" by (auto simp: holds_def less_2_cases_iff)
  from chained_table_is_a_list [OF this, where n = 5 and key = 5 and eqo = None] obtain t' st'
    where ins: "htable_insert ?t ?st 5 = Some (t', st')" "holds t' st' [5]" by auto
  have "find (hit st' 5 None) [5] = Some 5" by (simp add: hit_def default_equals_def)
  with chained_table_is_a_list [OF ins(2), where key = 5 and eqo = None] ins(1) show ?thesis by fastforce
qed

text \<open>
  \<open>htable_foreach\<close> visits every node once, bucket by bucket, even when the action frees or
  relinks the node it is given; and a table of \<open>k\<close> nodes has exactly \<open>k\<close> visits.
\<close>

theorem chained_foreach_visits_once:
  assumes "holds t st xs" "own_node action"
  shows "\<exists>ns. mset ns = mset xs \<and>
    htable_foreach t st action ctx = map_option (\<lambda>(st, ctx). (t, st, ctx)) (run_actions action ns st ctx)"
  using htable_foreach_ok [OF assms] walk_all [OF assms(1)] by blast

lemma chained_foreach_visits_once_witness:
  "\<exists>ns. mset ns = {#4, 5#} \<and>
    htable_foreach \<lparr>tb_cap = 2, tb_size = 2, tb_latch = False, tb_table = [Some 4, Some 5]\<rparr>
      \<lparr>hn_next = (\<lambda>_. None), hn_hcode = word_of_nat\<rparr>
      (\<lambda>a st n. Some (st\<lparr>hn_next := (hn_next st)(a := Some a)\<rparr>, n + a)) 0
    = map_option (\<lambda>(st, ctx). (\<lparr>tb_cap = 2, tb_size = 2, tb_latch = False, tb_table = [Some 4, Some 5]\<rparr>, st, ctx))
        (run_actions (\<lambda>a st n. Some (st\<lparr>hn_next := (hn_next st)(a := Some a)\<rparr>, n + a)) ns
          \<lparr>hn_next = (\<lambda>_. None), hn_hcode = word_of_nat\<rparr> 0)"
proof -
  have h: "holds \<lparr>tb_cap = 2, tb_size = 2, tb_latch = False, tb_table = [Some 4, Some 5]\<rparr>
      \<lparr>hn_next = (\<lambda>_. None), hn_hcode = word_of_nat\<rparr> [4, 5]"
    by (auto simp: holds_def less_2_cases_iff in_bucket_def unat_mod_distrib)
  have own: "own_node (\<lambda>a st n. Some (st\<lparr>hn_next := (hn_next st)(a := Some a)\<rparr>, n + a))"
    by (auto simp: own_node_def)
  from chained_foreach_visits_once [OF h own, of 0] show ?thesis by simp
qed

end
