(* ===== verification/Latch.thy ===== *)
theory Latch
  imports Prelude
begin

text \<open>
  The latches of \<^verbatim>\<open>concurrency/latch.h\<close> and \<^verbatim>\<open>concurrency/spx_latch.h\<close>, one atomic operation at a
  time: any number of threads, each at a point of the code, interleaved freely
  over the latch word. A weak compare-and-exchange may fail without cause. All the
  operations are on one location, so the memory orders of the code do not matter for the
  order of its values.
\<close>

section \<open>Threads over a word\<close>

text \<open>
  The interface: a word that counts. \<open>rs m\<close> is the number of shared holds and \<open>rx m\<close> the number of
  exclusive claims the word \<open>m\<close> records, as long as there are no more than \<open>lim\<close> threads; a thread at \<open>p\<close> has \<open>sh p\<close> of the former and
  \<open>ex p\<close> of the latter, and is \<open>alone\<close> where the code may rely on having the latch to itself.
  The law is about a single step of a single thread.
\<close>

locale latch_word =
  fixes lstep :: "'m \<Rightarrow> 'p \<Rightarrow> 'm \<Rightarrow> 'p \<Rightarrow> bool"
    and start :: "'m"
    and out :: "'p"
    and okm :: "'m \<Rightarrow> bool"
    and okp :: "'p \<Rightarrow> bool"
    and rs :: "'m \<Rightarrow> nat"
    and rx :: "'m \<Rightarrow> nat"
    and sh :: "'p \<Rightarrow> nat"
    and ex :: "'p \<Rightarrow> nat"
    and alone :: "'p \<Rightarrow> bool"
    and lim :: nat
  assumes start_ok: "okm start" "rs start = 0" "rx start = 0"
    and out_ok: "okp out" "sh out = 0" "ex out = 0" "\<not> alone out"
    and sh_one: "sh p \<le> 1"
    and alone_ex: "alone p \<Longrightarrow> ex p = 1"
    and step_law: "lstep m p m' p' \<Longrightarrow> okm m \<Longrightarrow> okp p \<Longrightarrow> sh p \<le> rs m \<Longrightarrow> ex p \<le> rx m \<Longrightarrow>
      rx m \<le> 1 \<Longrightarrow> (alone p \<Longrightarrow> rs m = 0) \<Longrightarrow> rs m - sh p < lim \<Longrightarrow>
      okm m' \<and> okp p' \<and> rs m' + sh p = rs m + sh p' \<and> rx m' + ex p = rx m + ex p' \<and> rx m' \<le> 1 \<and>
      (alone p' \<longrightarrow> rs m' = 0) \<and> (sh p < sh p' \<longrightarrow> rx m = 0)"
begin

inductive reach :: "nat \<Rightarrow> 'm \<Rightarrow> 'p list \<Rightarrow> bool" for n where
  start: "reach n start (replicate n out)"
| step: "reach n m ps \<Longrightarrow> i < n \<Longrightarrow> lstep m (ps ! i) m' p' \<Longrightarrow> reach n m' (ps[i := p'])"

definition counted :: "'m \<Rightarrow> 'p list \<Rightarrow> bool" where
  "counted m ps \<longleftrightarrow> okm m \<and> (\<forall>p\<in>set ps. okp p) \<and> sum_list (map sh ps) = rs m \<and>
     sum_list (map ex ps) = rx m \<and> rx m \<le> 1 \<and> (\<forall>p\<in>set ps. alone p \<longrightarrow> rs m = 0)"

lemma sum_upd:
  "i < length ps \<Longrightarrow> sum_list (map f (ps[i := p'])) + f (ps ! i) = sum_list (map f ps) + (f p' :: nat)"
proof (induction ps arbitrary: i)
  case (Cons a ps)
  then show ?case by (cases i) (auto simp: add.assoc add.left_commute)
qed simp

lemma sum_others:
  "i < length ps \<Longrightarrow> sum_list (map sh ps) \<le> sh (ps ! i) + (length ps - 1)"
proof (induction ps arbitrary: i)
  case (Cons a ps)
  have all: "sum_list (map sh qs) \<le> length qs" for qs
  proof (induction qs)
    case (Cons q qs)
    then show ?case using sh_one [of q] by simp
  qed simp
  show ?case
  proof (cases i)
    case 0
    then show ?thesis using all [of ps] by simp
  next
    case (Suc j)
    then show ?thesis using Cons.IH [of j] Cons.prems sh_one [of a] by (cases ps) auto
  qed
qed simp

lemma member_sum: "i < length ps \<Longrightarrow> f (ps ! i) \<le> (sum_list (map f ps) :: nat)"
  by (rule member_le_sum_list) simp_all

lemma two_members:
  "i < length ps \<Longrightarrow> j < length ps \<Longrightarrow> i \<noteq> j \<Longrightarrow> f (ps ! i) + f (ps ! j) \<le> (sum_list (map f ps) :: nat)"
proof (induction ps arbitrary: i j)
  case (Cons a ps)
  then show ?case
    using member_sum [of _ ps f]
    by (cases i; cases j) (auto simp: add.commute add_le_mono intro: trans_le_add2)
qed simp

lemma counted_step:
  assumes c: "counted m ps" and i: "i < length ps" and n: "length ps \<le> lim"
    and st: "lstep m (ps ! i) m' p'"
  shows "counted m' (ps[i := p'])"
proof -
  let ?p = "ps ! i"
  have p: "?p \<in> set ps" using i by simp
  have le: "sh ?p \<le> rs m" "ex ?p \<le> rx m"
    using c member_sum [OF i, of sh] member_sum [OF i, of ex] by (auto simp: counted_def)
  have "rs m - sh ?p < lim" using c sum_others [OF i] n i by (auto simp: counted_def)
  from step_law [OF st _ _ le _ _ this] c p
  have r: "okm m'" "okp p'" "rs m' + sh ?p = rs m + sh p'" "rx m' + ex ?p = rx m + ex p'" "rx m' \<le> 1"
    "alone p' \<longrightarrow> rs m' = 0" "sh ?p < sh p' \<longrightarrow> rx m = 0"
    by (auto simp: counted_def)
  have others: "rs m' = 0" if "q \<in> set ps" "alone q" for q
  proof -
    have "ex q \<le> rx m"
      using c that(1) member_sum [of _ ps ex] by (auto simp: counted_def in_set_conv_nth)
    then have "\<not> sh ?p < sh p'" using r(7) alone_ex [OF that(2)] by auto
    moreover have "rs m = 0" using c that by (auto simp: counted_def)
    ultimately show ?thesis using r(3) by simp
  qed
  have "set (ps[i := p']) \<subseteq> insert p' (set ps)" by (rule set_update_subset_insert)
  then show ?thesis
    using c r others sum_upd [OF i, of sh p'] sum_upd [OF i, of ex p']
    by (auto simp: counted_def)
qed

lemma reach_counted: "reach n m ps \<Longrightarrow> n \<le> lim \<Longrightarrow> length ps = n \<and> counted m ps"
proof (induction rule: reach.induct)
  case start
  show ?case
    using start_ok out_ok by (auto simp: counted_def sum_list_replicate)
next
  case (step m ps i m' p')
  then show ?case using counted_step [of m ps i m' p'] by auto
qed

text \<open>Finitely many steps of one thread, and of all of them.\<close>

inductive solo :: "'m \<Rightarrow> 'p \<Rightarrow> 'm \<Rightarrow> 'p \<Rightarrow> bool" where
  stay: "solo m p m p"
| move: "lstep m p m' p' \<Longrightarrow> solo m' p' m'' p'' \<Longrightarrow> solo m p m'' p''"

inductive path :: "'m \<Rightarrow> 'p list \<Rightarrow> 'm \<Rightarrow> 'p list \<Rightarrow> bool" where
  here: "path m ps m ps"
| next_step: "i < length ps \<Longrightarrow> lstep m (ps ! i) m' p' \<Longrightarrow> path m' (ps[i := p']) m'' qs \<Longrightarrow> path m ps m'' qs"

lemma path_trans: "path m ps m' ps' \<Longrightarrow> path m' ps' m'' ps'' \<Longrightarrow> path m ps m'' ps''"
  by (induction rule: path.induct) (auto intro: path.next_step)

lemma solo_path:
  "solo m p m' p' \<Longrightarrow> i < length ps \<Longrightarrow> ps ! i = p \<Longrightarrow> path m ps m' (ps[i := p'])"
proof (induction arbitrary: ps rule: solo.induct)
  case (stay m p)
  then show ?case by (auto intro: path.here)
next
  case (move m p m' p' m'' p'')
  then show ?case using move.IH [of "ps[i := p']"] by (auto intro: path.next_step)
qed

lemma path_counted:
  "path m ps m' ps' \<Longrightarrow> counted m ps \<Longrightarrow> length ps \<le> lim \<Longrightarrow> counted m' ps' \<and> length ps' = length ps"
  by (induction rule: path.induct) (auto simp: counted_step)

lemma path_reach:
  "path m ps m' ps' \<Longrightarrow> reach n m ps \<Longrightarrow> length ps = n \<Longrightarrow> reach n m' ps'"
  by (induction rule: path.induct) (auto intro: reach.step)

lemma exclusion:
  assumes "reach n m ps" "n \<le> lim" "i < n" "j < n" "i \<noteq> j" "alone (ps ! i)"
  shows "sh (ps ! j) = 0 \<and> ex (ps ! j) = 0"
proof -
  have c: "length ps = n" "counted m ps" using reach_counted [OF assms(1,2)] by auto
  then have m: "ps ! i \<in> set ps" using assms(3) by simp
  have "sum_list (map sh ps) = 0" "sum_list (map ex ps) \<le> 1"
    using c(2) m assms(6) by (auto simp: counted_def)
  then show ?thesis
    using member_sum [of j ps sh] two_members [of i ps j ex] alone_ex [OF assms(6)] assms(3,4,5) c(1)
    by auto
qed

end

section \<open>The plain latch\<close>

text \<open>\<open>L_try\<close> is before the first compare-and-exchange of \<open>latch_lock\<close>, \<open>L_spin\<close> before the load of
the inner loop, \<open>L_retry val\<close> before the compare-and-exchange of the outer one, \<open>L_in\<close> after
the return.\<close>

datatype latch_pc = L_out | L_try | L_spin | L_retry int | L_in

definition latch_init :: int where
  "latch_init = 0"

inductive latch_step :: "int \<Rightarrow> latch_pc \<Rightarrow> int \<Rightarrow> latch_pc \<Rightarrow> bool" where
  call: "latch_step l L_out l L_try"
| try_ok: "latch_step 0 L_try 1 L_in"
| try_fail: "latch_step l L_try l L_spin"
| spin: "l \<noteq> 0 \<Longrightarrow> latch_step l L_spin l L_spin"
| spin_done: "l = 0 \<Longrightarrow> latch_step l L_spin l (L_retry l)"
| retry_ok: "latch_step val (L_retry val) 1 L_in"
| retry_fail: "latch_step l (L_retry val) l L_spin"
| unlock: "latch_step l L_in 0 L_out"

fun latch_ex :: "latch_pc \<Rightarrow> nat" where
  "latch_ex L_in = 1"
| "latch_ex _ = 0"

fun latch_pc_ok :: "latch_pc \<Rightarrow> bool" where
  "latch_pc_ok (L_retry val) = (val = 0)"
| "latch_pc_ok _ = True"

lemma latch_counts:
  "latch_word latch_step latch_init L_out (\<lambda>l. l = 0 \<or> l = 1) latch_pc_ok
     (\<lambda>_. 0) nat (\<lambda>_. 0) latch_ex (\<lambda>p. p = L_in) lim"
  by unfold_locales (auto simp: latch_init_def elim!: latch_step.cases)

interpretation plain_latch: latch_word latch_step latch_init L_out "\<lambda>l. l = 0 \<or> l = 1" latch_pc_ok
  "\<lambda>_. 0" nat "\<lambda>_. 0" latch_ex "\<lambda>p. p = L_in" 65535
  by (rule latch_counts)

section \<open>The shared and exclusive latch\<close>

definition S_MASK :: u32 where
  "S_MASK = 0x0000FFFF"

definition X_BIT :: u32 where
  "X_BIT = 0x00010000"

definition SLOCKED :: "u32 \<Rightarrow> bool" where
  "SLOCKED val \<longleftrightarrow> and val S_MASK \<noteq> 0"

definition XLOCKED :: "u32 \<Rightarrow> bool" where
  "XLOCKED val \<longleftrightarrow> and val X_BIT \<noteq> 0"

definition spx_latch_init :: u32 where
  "spx_latch_init = 0"

text \<open>
  The points of \<open>spx_lock_s\<close> carry whether it was called from \<open>spx_upgrade_s_x\<close>: before the
  first load, before the first compare-and-exchange of \<open>val\<close>, before the load of the inner
  loop and before the compare-and-exchange of the outer one. \<open>S_held\<close> and \<open>X_held\<close> are the
  caller's, with the latch. The points of \<open>spx_upgrade_s_x\<close> are before its loads of \<open>val\<close>, at the top of
  its loop with \<open>val\<close>, before the load that waits for the other upgrade to finish, and
  before the load of the draining loop.
\<close>

datatype spx_pc =
    Sp_out | Sp_load bool | Sp_cas bool u32 | Sp_spin bool | Sp_retry bool u32
  | S_held | Up_load | Up_loop u32 | Up_wait | Up_drain | X_held

definition s_got :: "bool \<Rightarrow> spx_pc" where
  "s_got up = (if up then Up_load else S_held)"

inductive spx_step :: "u32 \<Rightarrow> spx_pc \<Rightarrow> u32 \<Rightarrow> spx_pc \<Rightarrow> bool" where
  lock_s: "spx_step l Sp_out l (Sp_load False)"
| load: "spx_step l (Sp_load up) l (if \<not> XLOCKED l then Sp_cas up l else Sp_spin up)"
| cas_ok: "spx_step val (Sp_cas up val) (val + 1) (s_got up)"
| cas_fail: "spx_step l (Sp_cas up val) l (Sp_spin up)"
| spin: "spx_step l (Sp_spin up) l (if XLOCKED l then Sp_spin up else Sp_retry up l)"
| retry_ok: "spx_step val (Sp_retry up val) (val + 1) (s_got up)"
| retry_fail: "spx_step l (Sp_retry up val) l (Sp_spin up)"
| unlock_s: "spx_step l S_held (l - 1) Sp_out"
| upgrade: "spx_step l S_held l Up_load"
| up_load: "spx_step l Up_load l (Up_loop l)"
| up_ok: "\<not> XLOCKED val \<Longrightarrow> spx_step val (Up_loop val) (or (val - 1) X_BIT) Up_drain"
| up_fail: "\<not> XLOCKED val \<Longrightarrow> spx_step l (Up_loop val) l (Up_loop l)"
| up_release: "XLOCKED val \<Longrightarrow> spx_step l (Up_loop val) (l - 1) Up_wait"
| up_wait: "spx_step l Up_wait l (if XLOCKED l then Up_wait else Sp_load True)"
| drain: "spx_step l Up_drain l (if SLOCKED l then Up_drain else X_held)"
| unlock_x: "spx_step l X_held 0 Sp_out"

fun spx_sh :: "spx_pc \<Rightarrow> nat" where
  "spx_sh S_held = 1"
| "spx_sh Up_load = 1"
| "spx_sh (Up_loop val) = 1"
| "spx_sh _ = 0"

fun spx_ex :: "spx_pc \<Rightarrow> nat" where
  "spx_ex Up_drain = 1"
| "spx_ex X_held = 1"
| "spx_ex _ = 0"

fun spx_pc_ok :: "spx_pc \<Rightarrow> bool" where
  "spx_pc_ok (Sp_cas up val) = (\<not> XLOCKED val)"
| "spx_pc_ok (Sp_retry up val) = (\<not> XLOCKED val)"
| "spx_pc_ok _ = True"

text \<open>The word as two numbers.\<close>

lemma SLOCKED_nat: "SLOCKED v \<longleftrightarrow> unat v mod 65536 \<noteq> 0"
proof -
  have "and v S_MASK = take_bit 16 v"
    by (simp add: S_MASK_def take_bit_eq_mask mask_eq_exp_minus_1)
  moreover have "unat (take_bit 16 v) = unat v mod 65536"
    by (simp only: unsigned_take_bit_eq) (simp add: take_bit_eq_mod)
  ultimately show ?thesis by (metis SLOCKED_def unat_eq_0)
qed

lemma XLOCKED_nat: "unat v < 131072 \<Longrightarrow> XLOCKED v \<longleftrightarrow> 65536 \<le> unat v"
proof -
  assume v: "unat v < 131072"
  have "XLOCKED v \<longleftrightarrow> bit v 16"
    by (simp add: XLOCKED_def X_BIT_def bit_iff_and_push_bit_not_eq_0 push_bit_eq_mult)
  also have "\<dots> \<longleftrightarrow> odd (unat v div 65536)"
  proof -
    have "bit v 16 \<longleftrightarrow> bit (unat v) 16" by (simp add: bit_unsigned_iff)
    then show ?thesis by (simp add: bit_iff_odd)
  qed
  also have "unat v div 65536 = (if 65536 \<le> unat v then 1 else 0)"
    using v by (auto intro: div_nat_eqI)
  finally show ?thesis by simp
qed

lemma set_X: "unat v < 65536 \<Longrightarrow> unat (or v X_BIT) = unat v + 65536"
proof -
  assume v: "unat v < 65536"
  then have "and v X_BIT = 0" using XLOCKED_nat [of v] by (simp add: XLOCKED_def)
  then have "or v X_BIT = v + X_BIT" by (metis disjunctive_add_eq_or)
  then show ?thesis using v by (simp add: X_BIT_def)
qed


definition spx_rs :: "u32 \<Rightarrow> nat" where
  "spx_rs l = unat l mod 65536"

definition spx_rx :: "u32 \<Rightarrow> nat" where
  "spx_rx l = unat l div 65536"

lemma spx_inc:
  assumes "spx_rs l < 65535" "unat l < 131072"
  shows "unat (l + 1) < 131072" "spx_rs (l + 1) = spx_rs l + 1" "spx_rx (l + 1) = spx_rx l"
proof -
  have l: "unat (l + 1) = Suc (unat l)" using assms(2) by (subst u32_add_nat) simp_all
  show "spx_rs (l + 1) = spx_rs l + 1" "spx_rx (l + 1) = spx_rx l"
    using assms(1) by (auto simp: spx_rs_def spx_rx_def l mod_Suc div_Suc)
  show "unat (l + 1) < 131072"
  proof (rule ccontr)
    assume "\<not> unat (l + 1) < 131072"
    then have "unat l = 131071" using l assms(2) by simp
    then show False using assms(1) by (simp add: spx_rs_def)
  qed
qed

lemma spx_dec:
  assumes "0 < spx_rs l" "unat l < 131072"
  shows "unat (l - 1) < 131072" "Suc (spx_rs (l - 1)) = spx_rs l" "spx_rx (l - 1) = spx_rx l"
proof -
  have "0 < unat l" using assms(1) by (cases "unat l") (auto simp: spx_rs_def)
  then have l: "Suc (unat (l - 1)) = unat l" by simp
  then show "unat (l - 1) < 131072" using assms(2) by simp
  show "Suc (spx_rs (l - 1)) = spx_rs l" "spx_rx (l - 1) = spx_rx l"
    using assms(1) mod_Suc [of "unat (l - 1)" 65536] div_Suc [of "unat (l - 1)" 65536]
    by (auto simp: spx_rs_def spx_rx_def l split: if_splits)
qed

lemma spx_clear: "unat l < 131072 \<Longrightarrow> \<not> XLOCKED l \<longleftrightarrow> spx_rx l = 0"
  by (simp add: XLOCKED_nat spx_rx_def div_eq_0_iff not_le)

lemma spx_set_X:
  assumes "unat l < 131072" "\<not> XLOCKED l" "0 < spx_rs l"
  shows "unat (or (l - 1) X_BIT) < 131072" "Suc (spx_rs (or (l - 1) X_BIT)) = spx_rs l"
    "spx_rx (or (l - 1) X_BIT) = 1"
proof -
  have l: "unat l < 65536" using assms(1,2) by (simp add: XLOCKED_nat)
  have "0 < unat l" using assms(3) by (cases "unat l") (auto simp: spx_rs_def)
  with l have m: "Suc (unat (l - 1)) = unat l" "unat (l - 1) < 65536" by simp_all
  note s = set_X [OF m(2)]
  show "unat (or (l - 1) X_BIT) < 131072" using s m by simp
  show "Suc (spx_rs (or (l - 1) X_BIT)) = spx_rs l" using m l by (simp add: spx_rs_def s del: u32_sub_nat)
  show "spx_rx (or (l - 1) X_BIT) = 1" using s m by (simp add: spx_rx_def)
qed

lemma spx_step_law:
  assumes "spx_step m p m' p'" "unat m < 131072" "spx_pc_ok p" "spx_sh p \<le> spx_rs m" "spx_ex p \<le> spx_rx m"
    "spx_rx m \<le> 1" "p = X_held \<Longrightarrow> spx_rs m = 0" "spx_rs m - spx_sh p < 65535"
  shows "unat m' < 131072 \<and> spx_pc_ok p' \<and> spx_rs m' + spx_sh p = spx_rs m + spx_sh p' \<and>
    spx_rx m' + spx_ex p = spx_rx m + spx_ex p' \<and> spx_rx m' \<le> 1 \<and> (p' = X_held \<longrightarrow> spx_rs m' = 0) \<and>
    (spx_sh p < spx_sh p' \<longrightarrow> spx_rx m = 0)"
  using assms
proof (cases rule: spx_step.cases)
  case (cas_ok up)
  then show ?thesis
    using spx_inc [of m] spx_clear [of m] assms by (cases up) (auto simp: s_got_def)
next
  case (retry_ok up)
  then show ?thesis
    using spx_inc [of m] spx_clear [of m] assms by (cases up) (auto simp: s_got_def)
next
  case unlock_s
  then show ?thesis using spx_dec [of m] assms by auto
next
  case (up_release val)
  then show ?thesis using spx_dec [of m] assms by auto
next
  case up_ok
  then show ?thesis using spx_set_X [of m] spx_clear [of m] assms by auto
next
  case drain
  then show ?thesis using assms by (auto simp: SLOCKED_nat spx_rs_def)
next
  case unlock_x
  then show ?thesis using assms by (simp add: spx_rs_def spx_rx_def)
qed (use assms in \<open>auto simp: s_got_def\<close>)

interpretation spx: latch_word spx_step spx_latch_init Sp_out "\<lambda>l. unat l < 131072" spx_pc_ok
  spx_rs spx_rx spx_sh spx_ex "\<lambda>p. p = X_held" 65535
proof
  show "spx_sh p \<le> 1" for p by (cases p) simp_all
qed (use spx_step_law in \<open>auto simp: spx_latch_init_def spx_rs_def spx_rx_def\<close>)


text \<open>
  C21. The plain latch is mutual exclusion: of any number of threads that lock and unlock it, at
  most one is between a return from \<open>latch_lock\<close> and its \<open>latch_unlock\<close>.
\<close>

theorem latch_mutual_exclusion:
  assumes "plain_latch.reach n l ps" "i < n" "j < n" "i \<noteq> j" "ps ! i = L_in"
  shows "ps ! j \<noteq> L_in"
  using latch_word.exclusion [OF latch_counts assms(1) order_refl assms(2-5)] by auto

lemma latch_mutual_exclusion_witness:
  "plain_latch.reach 2 1 [L_in, L_spin] \<and> [L_in, L_spin] ! 1 \<noteq> L_in"
proof -
  have "plain_latch.reach 2 0 [L_out, L_out]"
    using plain_latch.reach.start [of 2] by (simp add: latch_init_def numeral_2_eq_2)
  from plain_latch.reach.step [OF this, of 0 0 L_try] have "plain_latch.reach 2 0 [L_try, L_out]"
    by (simp add: latch_step.call)
  from plain_latch.reach.step [OF this, of 0 1 L_in] have "plain_latch.reach 2 1 [L_in, L_out]"
    by (simp add: latch_step.try_ok)
  from plain_latch.reach.step [OF this, of 1 1 L_try] have "plain_latch.reach 2 1 [L_in, L_try]"
    by (simp add: latch_step.call)
  from plain_latch.reach.step [OF this, of 1 1 L_spin] have r: "plain_latch.reach 2 1 [L_in, L_spin]"
    by (simp add: latch_step.try_fail)
  with latch_mutual_exclusion [OF r, of 0 1] show ?thesis by simp
qed

text \<open>
  C22. The shared and exclusive latch, under any interleaving of fewer than \<open>2^16\<close> threads that lock shared,
  unlock, upgrade and unlock exclusively: while one thread holds it exclusively no other
  holds it in either mode, is upgrading from a shared hold, or waits with its exclusive
  claim made.
\<close>

theorem spx_exclusive_alone:
  assumes "spx.reach n l ps" "n \<le> 65535" "i < n" "j < n" "i \<noteq> j" "ps ! i = X_held"
  shows "ps ! j \<notin> {S_held, X_held, Up_load, Up_drain} \<and> (\<forall>val. ps ! j \<noteq> Up_loop val)"
  using spx.exclusion [OF assms] by auto

section \<open>No deadlock\<close>

lemma spx_release_under_X:
  assumes "XLOCKED l" "spx_sh p = 1"
  shows "\<exists>p'. spx.solo l p (l - 1) p' \<and> spx_sh p' = 0 \<and> spx_ex p' = 0"
proof -
  have rel: "spx.solo l (Up_loop l) (l - 1) Up_wait"
    by (intro spx.move [OF up_release spx.stay] assms(1))
  show ?thesis
  proof (cases p)
    case S_held
    then show ?thesis by (intro exI [of _ Sp_out]) (auto intro: spx.move [OF unlock_s spx.stay])
  next
    case Up_load
    then show ?thesis by (intro exI [of _ Up_wait]) (auto intro: spx.move [OF up_load rel])
  next
    case (Up_loop val)
    show ?thesis
    proof (cases "XLOCKED val")
      case True
      then show ?thesis
        by (intro exI [of _ Up_wait]) (auto simp: Up_loop intro: spx.move [OF up_release spx.stay])
    next
      case False
      then show ?thesis
        by (intro exI [of _ Up_wait]) (auto simp: Up_loop intro: spx.move [OF up_fail rel])
    qed
  qed (use assms(2) in simp_all)
qed

lemma spx_from_free:
  assumes "spx_sh p = 0" "spx_ex p = 0"
  shows "spx.solo 0 p 0 Sp_out"
proof -
  have free: "\<not> XLOCKED 0" "\<not> XLOCKED 1" "\<not> SLOCKED X_BIT" "or (1 - 1) X_BIT = X_BIT"
    by (simp_all add: XLOCKED_def SLOCKED_def X_BIT_def S_MASK_def)
  have "spx.solo X_BIT Up_drain 0 Sp_out"
    by (rule spx.move [OF _ spx.move [OF unlock_x spx.stay]]) (use spx_step.drain [of X_BIT] free in simp)
  from spx.move [OF spx_step.up_ok [of 1, unfolded free(4)] this] have "spx.solo 1 (Up_loop 1) 0 Sp_out"
    using free(2) by simp
  from spx.move [OF up_load this] have up: "spx.solo 1 Up_load 0 Sp_out" .
  have "spx_step 1 S_held 0 Sp_out" using unlock_s [of 1] by simp
  from spx.move [OF this spx.stay] up have got: "spx.solo 1 (s_got up) 0 Sp_out" for up
    by (simp add: s_got_def)
  have retry: "spx.solo 0 (Sp_spin up) 0 Sp_out" for up
  proof -
    have "spx.solo 0 (Sp_retry up 0) 0 Sp_out"
      by (rule spx.move [OF _ got]) (use spx_step.retry_ok [of 0 up] in simp)
    then show ?thesis by (rule spx.move [rotated]) (use spx_step.spin [of 0 up] free in simp)
  qed
  have load: "spx.solo 0 (Sp_load up) 0 Sp_out" for up
  proof -
    have "spx.solo 0 (Sp_cas up 0) 0 Sp_out"
      by (rule spx.move [OF _ got]) (use spx_step.cas_ok [of 0 up] in simp)
    then show ?thesis by (rule spx.move [rotated]) (use spx_step.load [of 0 up] free in simp)
  qed
  show ?thesis
  proof (cases p)
    case Sp_out
    then show ?thesis by (simp add: spx.stay)
  next
    case (Sp_load up)
    then show ?thesis by (simp add: load)
  next
    case (Sp_cas up val)
    then show ?thesis using spx.move [OF cas_fail retry] by simp
  next
    case (Sp_spin up)
    then show ?thesis by (simp add: retry)
  next
    case (Sp_retry up val)
    then show ?thesis using spx.move [OF retry_fail retry] by simp
  next
    case Up_wait
    have "spx.solo 0 Up_wait 0 Sp_out"
      by (rule spx.move [OF _ load]) (use spx_step.up_wait [of 0] free in simp)
    then show ?thesis by (simp add: Up_wait)
  qed (use assms in simp_all)
qed

lemma sum_pos_member: "0 < sum_list (map f ps) \<Longrightarrow> \<exists>i<length ps. 0 < (f (ps ! i) :: nat)"
proof (rule ccontr)
  assume "0 < sum_list (map f ps)" "\<not> (\<exists>i<length ps. 0 < f (ps ! i))"
  then have "\<forall>x\<in>set (map f ps). x = 0" by (auto simp: in_set_conv_nth)
  then have "sum_list (map f ps) = 0" by (simp add: sum_list_eq_0_iff)
  with \<open>0 < sum_list (map f ps)\<close> show False by simp
qed

lemma spx_countedD:
  assumes "spx.counted l ps"
  shows "unat l < 131072" "sum_list (map spx_sh ps) = spx_rs l" "sum_list (map spx_ex ps) = spx_rx l"
    "spx_rx l \<le> 1"
  using assms by (auto simp: spx.counted_def)

lemma spx_zero: "spx_rs l = 0 \<Longrightarrow> spx_rx l = 0 \<Longrightarrow> l = 0"
  by (simp add: spx_rs_def spx_rx_def div_eq_0_iff unat_eq_0)

text \<open>With an exclusive claim made, the shared holders leave, the claim is granted and given up.\<close>

lemma spx_drains:
  "spx.counted l ps \<Longrightarrow> length ps \<le> 65535 \<Longrightarrow> spx_rx l = 1 \<Longrightarrow> \<exists>ps'. spx.path l ps 0 ps'"
proof (induction "spx_rs l" arbitrary: l ps)
  case 0
  note c = spx_countedD [OF 0(2)]
  obtain i where i: "i < length ps" "0 < spx_ex (ps ! i)"
    using sum_pos_member [of spx_ex ps] c(3) 0(4) by auto
  have free: "\<not> SLOCKED l" using 0(1) by (simp add: SLOCKED_nat spx_rs_def)
  have leave: "spx.solo l X_held 0 Sp_out" by (rule spx.move [OF unlock_x spx.stay])
  have "spx.solo l Up_drain 0 Sp_out"
    by (rule spx.move [OF _ leave]) (use spx_step.drain [of l] free in simp)
  then have "spx.solo l (ps ! i) 0 Sp_out" using i(2) leave by (cases "ps ! i") auto
  then show ?case using spx.solo_path [OF _ i(1) refl] by blast
next
  case (Suc k)
  note c = spx_countedD [OF Suc.prems(1)]
  obtain i where i: "i < length ps" "0 < spx_sh (ps ! i)"
    using sum_pos_member [of spx_sh ps] c(2) Suc.hyps(2) by auto
  have "XLOCKED l" using spx_clear [OF c(1)] Suc.prems(3) by auto
  moreover have "spx_sh (ps ! i) = 1" using i(2) by (cases "ps ! i") auto
  ultimately obtain p' where "spx.solo l (ps ! i) (l - 1) p'" using spx_release_under_X by blast
  then have path: "spx.path l ps (l - 1) (ps[i := p'])" by (rule spx.solo_path [OF _ i(1) refl])
  note d = spx_dec [OF _ c(1)]
  have "\<exists>ps'. spx.path (l - 1) (ps[i := p']) 0 ps'"
    by (rule Suc.hyps(1)) (use spx.path_counted [OF path Suc.prems(1,2)] d Suc in auto)
  then show ?case using spx.path_trans [OF path] by blast
qed

lemma spx_one_leaves:
  assumes "unat l < 131072" "spx_rx l = 0" "spx_sh p = 1" "0 < spx_rs l"
  shows "\<exists>l' p'. spx.solo l p l' p' \<and> (l' = l - 1 \<or> spx_rx l' = 1)"
proof -
  have free: "\<not> XLOCKED l" using spx_clear [OF assms(1)] assms(2) by simp
  let ?X = "or (l - 1) X_BIT"
  have X: "spx_rx ?X = 1" by (rule spx_set_X(3) [OF assms(1) free assms(4)])
  have loop: "spx.solo l (Up_loop l) ?X Up_drain" by (rule spx.move [OF up_ok spx.stay]) (rule free)
  show ?thesis
  proof (cases p)
    case S_held
    then show ?thesis using spx.move [OF unlock_s spx.stay] by blast
  next
    case Up_load
    then show ?thesis using spx.move [OF up_load loop] X by blast
  next
    case (Up_loop val)
    show ?thesis
    proof (cases "XLOCKED val")
      case True
      then show ?thesis using spx.move [OF up_release [OF True] spx.stay] by (auto simp: Up_loop)
    next
      case False
      then show ?thesis using spx.move [OF up_fail [OF False] loop] X by (auto simp: Up_loop)
    qed
  qed (use assms(3) in simp_all)
qed

lemma spx_empties:
  "spx.counted l ps \<Longrightarrow> length ps \<le> 65535 \<Longrightarrow> \<exists>ps'. spx.path l ps 0 ps'"
proof (induction "spx_rs l" arbitrary: l ps rule: less_induct)
  case less
  note c = spx_countedD [OF less.prems(1)]
  consider "spx_rx l = 1" | "spx_rx l = 0" "spx_rs l = 0" | "spx_rx l = 0" "0 < spx_rs l"
    using c(4) by linarith
  then show ?case
  proof cases
    case 1
    then show ?thesis by (rule spx_drains [OF less.prems])
  next
    case 2
    then show ?thesis using spx_zero [of l] spx.here by blast
  next
    case 3
    obtain i where i: "i < length ps" "0 < spx_sh (ps ! i)"
      using sum_pos_member [of spx_sh ps] c(2) 3(2) by auto
    then have "spx_sh (ps ! i) = 1" by (cases "ps ! i") auto
    from spx_one_leaves [OF c(1) 3(1) this 3(2)] obtain l' p'
      where s: "spx.solo l (ps ! i) l' p'" "l' = l - 1 \<or> spx_rx l' = 1" by blast
    have path: "spx.path l ps l' (ps[i := p'])" by (rule spx.solo_path [OF s(1) i(1) refl])
    note c' = spx.path_counted [OF path less.prems]
    have "\<exists>ps'. spx.path l' (ps[i := p']) 0 ps'"
    proof (cases "spx_rx l' = 1")
      case True
      then show ?thesis using spx_drains c' less.prems(2) by simp
    next
      case False
      then have "spx_rs l' < spx_rs l" using s(2) spx_dec(2) [OF 3(2) c(1)] by simp
      then show ?thesis using less.hyps c' less.prems(2) by simp
    qed
    then show ?thesis using spx.path_trans [OF path] by blast
  qed
qed

lemma spx_all_out:
  assumes c: "spx.counted 0 ps" and n: "length ps \<le> 65535"
  shows "spx.path 0 ps 0 (replicate (length ps) Sp_out)"
proof -
  have z: "spx_sh p = 0" "spx_ex p = 0" if "p \<in> set ps" for p
    using spx_countedD(2,3) [OF c] that by (auto simp: spx_rs_def spx_rx_def)
  have "k \<le> length ps \<Longrightarrow> spx.path 0 ps 0 (replicate k Sp_out @ drop k ps)" for k
  proof (induction k)
    case 0
    then show ?case by (simp add: spx.here)
  next
    case (Suc k)
    let ?qs = "replicate k Sp_out @ drop k ps"
    have k: "k < length ?qs" "?qs ! k = ps ! k" using Suc.prems by (auto simp: nth_append)
    have "spx.solo 0 (ps ! k) 0 Sp_out"
      by (rule spx_from_free) (use z Suc.prems in auto)
    from spx.solo_path [OF this k] have "spx.path 0 ?qs 0 (?qs[k := Sp_out])" .
    moreover have "?qs[k := Sp_out] = replicate (Suc k) Sp_out @ drop (Suc k) ps"
      using Suc.prems by (simp add: list_update_append Cons_nth_drop_Suc [symmetric] replicate_app_Cons_same)
    ultimately show ?case using spx.path_trans [OF Suc.IH] Suc.prems by simp
  qed
  from this [of "length ps"] show ?thesis by simp
qed

text \<open>
  C23. The shared and exclusive latch does not deadlock: from every state that fewer than \<open>2^16\<close> threads can
  reach, two upgrades at once included, there is a continuation in which all of them
  leave and the word is 0 again.
\<close>

theorem spx_never_deadlocks:
  assumes "spx.reach n l ps" "n \<le> 65535"
  shows "\<exists>ps'. spx.path l ps 0 ps' \<and> ps' = replicate n Sp_out \<and> spx.reach n 0 ps'"
proof -
  have c: "length ps = n" "spx.counted l ps" using spx.reach_counted [OF assms] by auto
  then obtain qs where q: "spx.path l ps 0 qs" using spx_empties assms(2) by blast
  then have "spx.counted 0 qs" "length qs = n" using spx.path_counted [OF q c(2)] c(1) assms(2) by auto
  then have "spx.path 0 qs 0 (replicate n Sp_out)" using spx_all_out [of qs] assms(2) by simp
  with q have p: "spx.path l ps 0 (replicate n Sp_out)" by (rule spx.path_trans)
  then show ?thesis using spx.path_reach [OF p assms(1) c(1)] by blast
qed

text \<open>Two threads: the first upgrades, the second is refused the shared latch and waits.\<close>

lemma spx_example: "spx.reach 2 X_BIT [X_held, Sp_spin False]"
proof -
  have free: "\<not> XLOCKED 0" "\<not> XLOCKED 1" "\<not> SLOCKED X_BIT" "XLOCKED X_BIT" "or (1 - 1) X_BIT = X_BIT"
    by (simp_all add: XLOCKED_def SLOCKED_def X_BIT_def S_MASK_def)
  note go = spx.reach.step [where n = 2]
  have "spx.reach 2 0 [Sp_out, Sp_out]"
    using spx.reach.start [of 2] by (simp add: spx_latch_init_def numeral_2_eq_2)
  from go [OF this, of 0 0 "Sp_load False"] have "spx.reach 2 0 [Sp_load False, Sp_out]"
    by (simp add: spx_step.lock_s)
  from go [OF this, of 0 0 "Sp_cas False 0"] have "spx.reach 2 0 [Sp_cas False 0, Sp_out]"
    using spx_step.load [of 0 False] free by simp
  from go [OF this, of 0 1 S_held] have "spx.reach 2 1 [S_held, Sp_out]"
    using spx_step.cas_ok [of 0 False] by (simp add: s_got_def)
  from go [OF this, of 0 1 Up_load] have "spx.reach 2 1 [Up_load, Sp_out]" by (simp add: spx_step.upgrade)
  from go [OF this, of 0 1 "Up_loop 1"] have "spx.reach 2 1 [Up_loop 1, Sp_out]" by (simp add: spx_step.up_load)
  from go [OF this, of 0 X_BIT Up_drain] have "spx.reach 2 X_BIT [Up_drain, Sp_out]"
    using spx_step.up_ok [of 1] free by simp
  from go [OF this, of 0 X_BIT X_held] have "spx.reach 2 X_BIT [X_held, Sp_out]"
    using spx_step.drain [of X_BIT] free by simp
  from go [OF this, of 1 X_BIT "Sp_load False"] have "spx.reach 2 X_BIT [X_held, Sp_load False]"
    by (simp add: spx_step.lock_s)
  from go [OF this, of 1 X_BIT "Sp_spin False"] show ?thesis
    using spx_step.load [of X_BIT False] free by simp
qed

lemma spx_exclusive_alone_witness:
  "spx.reach 2 X_BIT [X_held, Sp_spin False] \<and> [X_held, Sp_spin False] ! 1 \<noteq> S_held"
  using spx_example spx_exclusive_alone [OF spx_example, of 0 1] by simp

lemma spx_never_deadlocks_witness:
  "spx.path X_BIT [X_held, Sp_spin False] 0 [Sp_out, Sp_out]"
  using spx_never_deadlocks [OF spx_example] by (simp add: numeral_2_eq_2)

text \<open>The bound on the threads is needed: the \<open>2^16\<close>-th shared hold carries into the exclusive bit.\<close>

lemma spx_shared_overflow: "\<exists>p. spx_step 0xFFFF (Sp_cas False 0xFFFF) 0x10000 p \<and> p = S_held \<and>
  XLOCKED 0x10000 \<and> \<not> SLOCKED 0x10000"
  using spx_step.cas_ok [of "0xFFFF" False] by (simp add: s_got_def XLOCKED_def SLOCKED_def X_BIT_def S_MASK_def)

end
