(* ===== verification/Posix.thy ===== *)
theory Posix
  imports Cerror
begin

text \<open>
  The POSIX file layer, \<^verbatim>\<open>intf/os_posix/file.c\<close>. The system calls are the operating system's:
  a record of functions on its state \<open>'w\<close>, each of which either returns or sets \<open>errno\<close> and
  returns -1. Every function here threads that state and the error object; what a
  function stores through its \<open>dest\<close> is part of its result. Trace logging is left out.
\<close>

section \<open>System calls\<close>

datatype errno = EINTR | EWOULDBLOCK | ENOENT | EEXIST | Eother nat

datatype 'a sysret = Ret 'a | Fail errno

datatype oflag = RDWR_CREAT | RDONLY_CREAT | WRONLY_CREAT

datatype seek_t = I_SEEK_END | I_SEEK_CUR | I_SEEK_SET

datatype ftype = Is_reg | Is_dir | Is_other

type_synonym fd = int

text \<open>A read gives the bytes it stored; a write gets the bytes and says how many it took.\<close>

record 'w posix =
  px_strerror :: "errno \<Rightarrow> string"
  px_isopen :: "fd \<Rightarrow> 'w \<Rightarrow> bool"
  px_open :: "string \<Rightarrow> oflag \<Rightarrow> 'w \<Rightarrow> fd sysret \<times> 'w"
  px_close :: "fd \<Rightarrow> 'w \<Rightarrow> unit sysret \<times> 'w"
  px_fsync :: "fd \<Rightarrow> 'w \<Rightarrow> unit sysret \<times> 'w"
  px_pread :: "fd \<Rightarrow> u64 \<Rightarrow> u64 \<Rightarrow> 'w \<Rightarrow> u8 list sysret \<times> 'w"
  px_pwrite :: "fd \<Rightarrow> u8 list \<Rightarrow> u64 \<Rightarrow> 'w \<Rightarrow> nat sysret \<times> 'w"
  px_read :: "fd \<Rightarrow> u64 \<Rightarrow> 'w \<Rightarrow> u8 list sysret \<times> 'w"
  px_write :: "fd \<Rightarrow> u8 list \<Rightarrow> 'w \<Rightarrow> nat sysret \<times> 'w"
  px_readv :: "fd \<Rightarrow> u32 list \<Rightarrow> 'w \<Rightarrow> u8 list sysret \<times> 'w"
  px_writev :: "fd \<Rightarrow> u8 list list \<Rightarrow> 'w \<Rightarrow> nat sysret \<times> 'w"
  px_ftruncate :: "fd \<Rightarrow> u64 \<Rightarrow> 'w \<Rightarrow> unit sysret \<times> 'w"
  px_fallocate :: "fd \<Rightarrow> u64 \<Rightarrow> 'w \<Rightarrow> unit sysret \<times> 'w"
  px_fstat_size :: "fd \<Rightarrow> 'w \<Rightarrow> int sysret \<times> 'w"
  px_remove :: "string \<Rightarrow> 'w \<Rightarrow> unit sysret \<times> 'w"
  px_mkstemp :: "string \<Rightarrow> 'w \<Rightarrow> (fd \<times> string) sysret \<times> 'w"
  px_unlink :: "string \<Rightarrow> 'w \<Rightarrow> unit sysret \<times> 'w"
  px_mkdir :: "string \<Rightarrow> 'w \<Rightarrow> unit sysret \<times> 'w"
  px_rmdir :: "string \<Rightarrow> 'w \<Rightarrow> unit sysret \<times> 'w"
  px_stat :: "string \<Rightarrow> 'w \<Rightarrow> ftype sysret \<times> 'w"
  px_opendir :: "string \<Rightarrow> 'w \<Rightarrow> nat sysret \<times> 'w"
  px_readdir :: "nat \<Rightarrow> 'w \<Rightarrow> string option \<times> 'w"
  px_closedir :: "nat \<Rightarrow> 'w \<Rightarrow> 'w"
  px_lseek :: "fd \<Rightarrow> u64 \<Rightarrow> seek_t \<Rightarrow> 'w \<Rightarrow> int sysret \<times> 'w"
  px_access :: "string \<Rightarrow> 'w \<Rightarrow> unit sysret \<times> 'w"

text \<open>\<open>DBG_ASSERT (i_file, fp)\<close>.\<close>

definition i_file_dbg :: "'w posix \<Rightarrow> fd \<Rightarrow> 'w \<Rightarrow> unit option" where
  "i_file_dbg px fp w = ASSERT (px_isopen px fp w)"

text \<open>\<open>return error_causef (e, ERR_IO, ...)\<close>, and the same followed by \<open>return error_trace (e)\<close>.\<close>

definition io_cause :: "errp \<Rightarrow> string \<Rightarrow> int \<times> errp" where
  "io_cause e msg = (case error_causef e ERR_IO msg of (e', c) \<Rightarrow> (c, e'))"

definition io_trace :: "errp \<Rightarrow> string \<Rightarrow> (int \<times> errp) option" where
  "io_trace e msg = (case error_causef e ERR_IO msg of (e', c) \<Rightarrow> do { c \<leftarrow> error_trace e'; Some (c, e') })"

section \<open>Open and close\<close>

definition i_open_as ::
  "string \<Rightarrow> oflag \<Rightarrow> 'w posix \<Rightarrow> string \<Rightarrow> 'w \<Rightarrow> errp \<Rightarrow> (int \<times> fd option \<times> 'w \<times> errp) option" where
  "i_open_as nm flag px fname w e =
     (case px_open px fname flag w of
        (Fail n, w) \<Rightarrow> do {
          (c, e) \<leftarrow> io_trace e (nm @ '' '' @ fname @ '': '' @ px_strerror px n);
          Some (c, None, w, e)
        }
      | (Ret fd, w) \<Rightarrow> do {
          i_file_dbg px fd w;
          Some (SUCCESS, Some fd, w, e)
        })"

definition i_open_rw where "i_open_rw = i_open_as ''open_rw'' RDWR_CREAT"

definition i_open_r where "i_open_r = i_open_as ''open_r'' RDONLY_CREAT"

definition i_open_w where "i_open_w = i_open_as ''open_w'' WRONLY_CREAT"

definition i_close :: "'w posix \<Rightarrow> fd \<Rightarrow> 'w \<Rightarrow> errp \<Rightarrow> (int \<times> 'w \<times> errp) option" where
  "i_close px fp w e = do {
     i_file_dbg px fp w;
     case px_close px fp w of
       (Fail n, w) \<Rightarrow> (case io_cause e (''close: '' @ px_strerror px n) of (c, e) \<Rightarrow> Some (c, w, e))
     | (Ret _, w) \<Rightarrow> Some (SUCCESS, w, e)
   }"

definition i_fsync :: "'w posix \<Rightarrow> fd \<Rightarrow> 'w \<Rightarrow> errp \<Rightarrow> (int \<times> 'w \<times> errp) option" where
  "i_fsync px fp w e = do {
     i_file_dbg px fp w;
     case px_fsync px fp w of
       (Fail n, w) \<Rightarrow> (case io_cause e (''fsync: '' @ px_strerror px n) of (c, e) \<Rightarrow> Some (c, w, e))
     | (Ret _, w) \<Rightarrow> Some (SUCCESS, w, e)
   }"

section \<open>Positional access\<close>

text \<open>A read of \<open>n\<close> bytes into the object \<open>dest\<close> from position \<open>at\<close> on.\<close>

definition i_pread_some ::
  "'w posix \<Rightarrow> fd \<Rightarrow> u8 list \<Rightarrow> u64 \<Rightarrow> u64 \<Rightarrow> 'w \<Rightarrow> errp \<Rightarrow> (int \<times> u8 list \<times> 'w \<times> errp) option" where
  "i_pread_some px fp dest n off w e = do {
     i_file_dbg px fp w;
     ASSERT (0 < n);
     case px_pread px fp n off w of
       (Ret bs, w) \<Rightarrow> do {
         dest \<leftarrow> mem_store dest 0 bs;
         Some (int (length bs), dest, w, e)
       }
     | (Fail m, w) \<Rightarrow>
         if m \<noteq> EINTR
         then (case io_cause e (''pread: '' @ px_strerror px m) of (c, e) \<Rightarrow> Some (c, dest, w, e))
         else Some (-1, dest, w, e)
   }"

text \<open>After an interrupted call the loop adds the -1 to its count.\<close>

partial_function (option) pread_all_loop ::
  "'w posix \<Rightarrow> fd \<Rightarrow> u64 \<Rightarrow> u64 \<Rightarrow> u64 \<Rightarrow> u8 list \<Rightarrow> 'w \<Rightarrow> errp \<Rightarrow> (int \<times> u8 list \<times> 'w \<times> errp) option" where
  "pread_all_loop px fp n off nread dest w e =
     (if nread < n then
        (case px_pread px fp (n - nread) (off + nread) w of
           (Ret bs, w) \<Rightarrow>
             if bs = [] then Some (sint nread, dest, w, e)
             else Option.bind (mem_store dest (unat nread) bs) (\<lambda>dest.
               pread_all_loop px fp n off (nread + word_of_nat (length bs)) dest w e)
         | (Fail m, w) \<Rightarrow>
             if m \<noteq> EINTR
             then (case io_cause e (''pread: '' @ px_strerror px m) of (c, e) \<Rightarrow> Some (c, dest, w, e))
             else pread_all_loop px fp n off (nread - 1) dest w e)
      else if nread = n then Some (sint nread, dest, w, e) else None)"

declare pread_all_loop.simps [code]

definition i_pread_all ::
  "'w posix \<Rightarrow> fd \<Rightarrow> u8 list \<Rightarrow> u64 \<Rightarrow> u64 \<Rightarrow> 'w \<Rightarrow> errp \<Rightarrow> (int \<times> u8 list \<times> 'w \<times> errp) option" where
  "i_pread_all px fp dest n off w e = do {
     i_file_dbg px fp w;
     ASSERT (0 < n);
     pread_all_loop px fp n off 0 dest w e
   }"

text \<open>The two counts of the message, in decimal.\<close>

definition short_msg :: "string \<Rightarrow> int \<Rightarrow> u64 \<Rightarrow> string" where
  "short_msg nm got n = nm @ '': short read (got '' @ dec (nat got) @ '' of '' @ dec (unat n) @ '' bytes)''"

definition i_pread_all_expect ::
  "'w posix \<Rightarrow> fd \<Rightarrow> u8 list \<Rightarrow> u64 \<Rightarrow> u64 \<Rightarrow> 'w \<Rightarrow> errp \<Rightarrow> (int \<times> u8 list \<times> 'w \<times> errp) option" where
  "i_pread_all_expect px fp dest n off w e = do {
     (ret, dest, w, e) \<leftarrow> i_pread_all px fp dest n off w e;
     if ret < 0 then do { c \<leftarrow> error_trace e; Some (c, dest, w, e) }
     else if word_of_int ret \<noteq> n
     then (case error_causef e ERR_CORRUPT (short_msg ''pread'' ret n) of (e, c) \<Rightarrow> Some (c, dest, w, e))
     else Some (SUCCESS, dest, w, e)
   }"

definition i_pwrite_some ::
  "'w posix \<Rightarrow> fd \<Rightarrow> u8 list \<Rightarrow> u64 \<Rightarrow> u64 \<Rightarrow> 'w \<Rightarrow> errp \<Rightarrow> (int \<times> 'w \<times> errp) option" where
  "i_pwrite_some px fp src n off w e = do {
     i_file_dbg px fp w;
     ASSERT (0 < n);
     bs \<leftarrow> mem_load src 0 (unat n);
     case px_pwrite px fp bs off w of
       (Ret k, w) \<Rightarrow> Some (int k, w, e)
     | (Fail m, w) \<Rightarrow>
         if m \<noteq> EINTR
         then (case io_cause e (''pwrite: '' @ px_strerror px m) of (c, e) \<Rightarrow> Some (c, w, e))
         else Some (-1, w, e)
   }"

partial_function (option) pwrite_all_loop ::
  "'w posix \<Rightarrow> fd \<Rightarrow> u64 \<Rightarrow> u64 \<Rightarrow> u64 \<Rightarrow> u8 list \<Rightarrow> 'w \<Rightarrow> errp \<Rightarrow> (int \<times> 'w \<times> errp) option" where
  "pwrite_all_loop px fp n off nwrite src w e =
     (if nwrite < n then
        Option.bind (mem_load src (unat nwrite) (unat (n - nwrite))) (\<lambda>bs.
          case px_pwrite px fp bs (off + nwrite) w of
            (Ret k, w) \<Rightarrow> pwrite_all_loop px fp n off (nwrite + word_of_nat k) src w e
          | (Fail m, w) \<Rightarrow>
              if m \<noteq> EINTR
              then (case io_cause e (''pwrite: '' @ px_strerror px m) of (c, e) \<Rightarrow> Some (c, w, e))
              else pwrite_all_loop px fp n off (nwrite - 1) src w e)
      else if nwrite = n then Some (SUCCESS, w, e) else None)"

declare pwrite_all_loop.simps [code]

definition i_pwrite_all ::
  "'w posix \<Rightarrow> fd \<Rightarrow> u8 list \<Rightarrow> u64 \<Rightarrow> u64 \<Rightarrow> 'w \<Rightarrow> errp \<Rightarrow> (int \<times> 'w \<times> errp) option" where
  "i_pwrite_all px fp src n off w e = do {
     i_file_dbg px fp w;
     ASSERT (0 < n);
     pwrite_all_loop px fp n off 0 src w e
   }"

section \<open>Vectors\<close>

text \<open>A \<open>struct bytes\<close>: an offset into the object the caller keeps, and a length.\<close>

type_synonym iobytes = "nat \<times> u32"

fun iov_load :: "u8 list \<Rightarrow> iobytes list \<Rightarrow> u8 list list option" where
  "iov_load m [] = Some []"
| "iov_load m ((off, n) # iov) = do {
     bs \<leftarrow> mem_load m off (unat n);
     rest \<leftarrow> iov_load m iov;
     Some (bs # rest)
   }"

text \<open>What \<open>readv\<close> stores: it fills each buffer before the next.\<close>

fun iov_store :: "u8 list \<Rightarrow> iobytes list \<Rightarrow> u8 list \<Rightarrow> u8 list option" where
  "iov_store m [] bs = (if bs = [] then Some m else None)"
| "iov_store m ((off, n) # iov) bs = do {
     m \<leftarrow> mem_store m off (take (unat n) bs);
     iov_store m iov (drop (unat n) bs)
   }"

text \<open>Dropping the bytes already done from the front of the vector.\<close>

fun iov_skip :: "nat \<Rightarrow> iobytes list \<Rightarrow> iobytes list" where
  "iov_skip k [] = []"
| "iov_skip k ((off, n) # iov) =
     (if k = 0 then (off, n) # iov
      else if unat n \<le> k then iov_skip (k - unat n) iov
      else (off + k, n - word_of_nat k) # iov)"

definition iov_total :: "iobytes list \<Rightarrow> u64" where
  "iov_total iov = foldl (\<lambda>tot b. tot + ucast (snd b)) 0 iov"

definition i_writev_some ::
  "'w posix \<Rightarrow> fd \<Rightarrow> u8 list \<Rightarrow> iobytes list \<Rightarrow> 'w \<Rightarrow> errp \<Rightarrow> (int \<times> 'w \<times> errp) option" where
  "i_writev_some px fp m iov w e = do {
     i_file_dbg px fp w;
     ASSERT (0 < length iov);
     ASSERT (length iov \<le> 2);
     bss \<leftarrow> iov_load m iov;
     case px_writev px fp bss w of
       (Ret k, w) \<Rightarrow> Some (int k, w, e)
     | (Fail n, w) \<Rightarrow>
         if n \<noteq> EINTR
         then (case io_cause e (''writev: '' @ px_strerror px n) of (c, e) \<Rightarrow> Some (c, w, e))
         else Some (-1, w, e)
   }"

partial_function (option) writev_all_loop ::
  "'w posix \<Rightarrow> fd \<Rightarrow> u8 list \<Rightarrow> u64 \<Rightarrow> u64 \<Rightarrow> iobytes list \<Rightarrow> 'w \<Rightarrow> errp \<Rightarrow> (int \<times> 'w \<times> errp) option" where
  "writev_all_loop px fp m tot nwritten iov w e =
     (if nwritten < tot then
        Option.bind (iov_load m iov) (\<lambda>bss.
          case px_writev px fp bss w of
            (Ret k, w) \<Rightarrow>
              if k = 0 then writev_all_loop px fp m tot nwritten iov w e
              else writev_all_loop px fp m tot (nwritten + word_of_nat k) (iov_skip k iov) w e
          | (Fail n, w) \<Rightarrow>
              if n \<noteq> EINTR
              then (case io_cause e (''writev: '' @ px_strerror px n) of (c, e) \<Rightarrow> Some (c, w, e))
              else writev_all_loop px fp m tot nwritten iov w e)
      else if nwritten = tot then Some (SUCCESS, w, e) else None)"

declare writev_all_loop.simps [code]

definition i_writev_all ::
  "'w posix \<Rightarrow> fd \<Rightarrow> u8 list \<Rightarrow> iobytes list \<Rightarrow> 'w \<Rightarrow> errp \<Rightarrow> (int \<times> 'w \<times> errp) option" where
  "i_writev_all px fp m iov w e = do {
     i_file_dbg px fp w;
     ASSERT (0 < length iov);
     ASSERT (length iov \<le> 2);
     ASSERT (0 < iov_total iov);
     writev_all_loop px fp m (iov_total iov) 0 iov w e
   }"

definition i_readv_some ::
  "'w posix \<Rightarrow> fd \<Rightarrow> u8 list \<Rightarrow> iobytes list \<Rightarrow> 'w \<Rightarrow> errp \<Rightarrow> (int \<times> u8 list \<times> 'w \<times> errp) option" where
  "i_readv_some px fp m iov w e = do {
     i_file_dbg px fp w;
     ASSERT (0 < length iov);
     ASSERT (length iov \<le> 2);
     case px_readv px fp (map snd iov) w of
       (Ret bs, w) \<Rightarrow> do {
         m \<leftarrow> iov_store m iov bs;
         Some (int (length bs), m, w, e)
       }
     | (Fail n, w) \<Rightarrow>
         if n \<noteq> EINTR
         then (case io_cause e (''readv: '' @ px_strerror px n) of (c, e) \<Rightarrow> Some (c, m, w, e))
         else Some (-1, m, w, e)
   }"

partial_function (option) readv_all_loop ::
  "'w posix \<Rightarrow> fd \<Rightarrow> u64 \<Rightarrow> u64 \<Rightarrow> iobytes list \<Rightarrow> u8 list \<Rightarrow> 'w \<Rightarrow> errp \<Rightarrow> (int \<times> u8 list \<times> 'w \<times> errp) option" where
  "readv_all_loop px fp tot nread iov m w e =
     (if nread < tot then
        (case px_readv px fp (map snd iov) w of
           (Ret bs, w) \<Rightarrow>
             if bs = [] then Some (sint nread, m, w, e)
             else Option.bind (iov_store m iov bs) (\<lambda>m.
               readv_all_loop px fp tot (nread + word_of_nat (length bs)) (iov_skip (length bs) iov) m w e)
         | (Fail n, w) \<Rightarrow>
             if n \<noteq> EINTR
             then (case io_cause e (''readv: '' @ px_strerror px n) of (c, e) \<Rightarrow> Some (c, m, w, e))
             else readv_all_loop px fp tot nread iov m w e)
      else Some (sint nread, m, w, e))"

declare readv_all_loop.simps [code]

definition i_readv_all ::
  "'w posix \<Rightarrow> fd \<Rightarrow> u8 list \<Rightarrow> iobytes list \<Rightarrow> 'w \<Rightarrow> errp \<Rightarrow> (int \<times> u8 list \<times> 'w \<times> errp) option" where
  "i_readv_all px fp m iov w e = do {
     i_file_dbg px fp w;
     ASSERT (0 < length iov);
     ASSERT (length iov \<le> 2);
     ASSERT (0 < iov_total iov);
     readv_all_loop px fp (iov_total iov) 0 iov m w e
   }"

section \<open>Streams of bytes\<close>

definition i_read_some ::
  "'w posix \<Rightarrow> fd \<Rightarrow> u8 list \<Rightarrow> u64 \<Rightarrow> 'w \<Rightarrow> errp \<Rightarrow> (int \<times> u8 list \<times> 'w \<times> errp) option" where
  "i_read_some px fp dest nbytes w e = do {
     i_file_dbg px fp w;
     ASSERT (0 < nbytes);
     case px_read px fp nbytes w of
       (Ret bs, w) \<Rightarrow> do {
         dest \<leftarrow> mem_store dest 0 bs;
         Some (int (length bs), dest, w, e)
       }
     | (Fail n, w) \<Rightarrow>
         if n = EINTR \<or> n = EWOULDBLOCK then Some (0, dest, w, e)
         else (case io_cause e (''read: '' @ px_strerror px n) of (c, e) \<Rightarrow> Some (c, dest, w, e))
   }"

partial_function (option) read_all_loop ::
  "'w posix \<Rightarrow> fd \<Rightarrow> u64 \<Rightarrow> u64 \<Rightarrow> u8 list \<Rightarrow> 'w \<Rightarrow> errp \<Rightarrow> (int \<times> u8 list \<times> 'w \<times> errp) option" where
  "read_all_loop px fp nbytes nread dest w e =
     (if nread < nbytes then
        (case px_read px fp (nbytes - nread) w of
           (Ret bs, w) \<Rightarrow>
             if bs = [] then Some (sint nread, dest, w, e)
             else Option.bind (mem_store dest (unat nread) bs) (\<lambda>dest.
               read_all_loop px fp nbytes (nread + word_of_nat (length bs)) dest w e)
         | (Fail n, w) \<Rightarrow>
             if n = EINTR \<or> n = EWOULDBLOCK then Some (0, dest, w, e)
             else (case io_cause e (''read: '' @ px_strerror px n) of (c, e) \<Rightarrow> Some (c, dest, w, e)))
      else if nread = nbytes then Some (sint nread, dest, w, e) else None)"

declare read_all_loop.simps [code]

definition i_read_all ::
  "'w posix \<Rightarrow> fd \<Rightarrow> u8 list \<Rightarrow> u64 \<Rightarrow> 'w \<Rightarrow> errp \<Rightarrow> (int \<times> u8 list \<times> 'w \<times> errp) option" where
  "i_read_all px fp dest nbytes w e = do {
     i_file_dbg px fp w;
     ASSERT (0 < nbytes);
     read_all_loop px fp nbytes 0 dest w e
   }"

definition i_read_all_expect ::
  "'w posix \<Rightarrow> fd \<Rightarrow> u8 list \<Rightarrow> u64 \<Rightarrow> 'w \<Rightarrow> errp \<Rightarrow> (int \<times> u8 list \<times> 'w \<times> errp) option" where
  "i_read_all_expect px fp dest nbytes w e = do {
     (ret, dest, w, e) \<leftarrow> i_read_all px fp dest nbytes w e;
     if ret < 0 then do { c \<leftarrow> error_trace e; Some (c, dest, w, e) }
     else if word_of_int ret \<noteq> nbytes
     then (case error_causef e ERR_CORRUPT (short_msg ''read'' ret nbytes) of (e, c) \<Rightarrow> Some (c, dest, w, e))
     else Some (SUCCESS, dest, w, e)
   }"

definition i_write_some ::
  "'w posix \<Rightarrow> fd \<Rightarrow> u8 list \<Rightarrow> u64 \<Rightarrow> 'w \<Rightarrow> errp \<Rightarrow> (int \<times> 'w \<times> errp) option" where
  "i_write_some px fp src nbytes w e = do {
     i_file_dbg px fp w;
     ASSERT (0 < nbytes);
     bs \<leftarrow> mem_load src 0 (unat nbytes);
     case px_write px fp bs w of
       (Ret k, w) \<Rightarrow> Some (int k, w, e)
     | (Fail n, w) \<Rightarrow>
         if n \<noteq> EINTR
         then (case io_cause e (''write: '' @ px_strerror px n) of (c, e) \<Rightarrow> Some (c, w, e))
         else Some (-1, w, e)
   }"

partial_function (option) write_all_loop ::
  "'w posix \<Rightarrow> fd \<Rightarrow> u64 \<Rightarrow> u64 \<Rightarrow> u8 list \<Rightarrow> 'w \<Rightarrow> errp \<Rightarrow> (int \<times> 'w \<times> errp) option" where
  "write_all_loop px fp nbytes nwrite src w e =
     (if nwrite < nbytes then
        Option.bind (mem_load src (unat nwrite) (unat (nbytes - nwrite))) (\<lambda>bs.
          case px_write px fp bs w of
            (Ret k, w) \<Rightarrow> write_all_loop px fp nbytes (nwrite + word_of_nat k) src w e
          | (Fail n, w) \<Rightarrow>
              if n \<noteq> EINTR
              then (case io_cause e (''write: '' @ px_strerror px n) of (c, e) \<Rightarrow> Some (c, w, e))
              else write_all_loop px fp nbytes (nwrite - 1) src w e)
      else if nwrite = nbytes then Some (SUCCESS, w, e) else None)"

declare write_all_loop.simps [code]

definition i_write_all ::
  "'w posix \<Rightarrow> fd \<Rightarrow> u8 list \<Rightarrow> u64 \<Rightarrow> 'w \<Rightarrow> errp \<Rightarrow> (int \<times> 'w \<times> errp) option" where
  "i_write_all px fp src nbytes w e = do {
     i_file_dbg px fp w;
     ASSERT (0 < nbytes);
     write_all_loop px fp nbytes 0 src w e
   }"

section \<open>Files and directories\<close>

definition i_truncate :: "'w posix \<Rightarrow> fd \<Rightarrow> u64 \<Rightarrow> 'w \<Rightarrow> errp \<Rightarrow> (int \<times> 'w \<times> errp) option" where
  "i_truncate px fp n w e =
     (case px_ftruncate px fp n w of
        (Fail m, w) \<Rightarrow> (case io_cause e (''truncate: '' @ px_strerror px m) of (c, e) \<Rightarrow> Some (c, w, e))
      | (Ret _, w) \<Rightarrow> Some (SUCCESS, w, e))"

definition i_fallocate :: "'w posix \<Rightarrow> fd \<Rightarrow> u64 \<Rightarrow> 'w \<Rightarrow> errp \<Rightarrow> (int \<times> 'w \<times> errp) option" where
  "i_fallocate px fp n w e =
     (case px_fallocate px fp n w of
        (Fail m, w) \<Rightarrow> (case io_cause e (''posix_fallocate: '' @ px_strerror px m) of (c, e) \<Rightarrow> Some (c, w, e))
      | (Ret _, w) \<Rightarrow> Some (SUCCESS, w, e))"

definition i_file_size :: "'w posix \<Rightarrow> fd \<Rightarrow> 'w \<Rightarrow> errp \<Rightarrow> (int \<times> 'w \<times> errp) option" where
  "i_file_size px fp w e =
     (case px_fstat_size px fp w of
        (Fail m, w) \<Rightarrow> do { (c, e) \<leftarrow> io_trace e (''fstat: '' @ px_strerror px m); Some (c, w, e) }
      | (Ret n, w) \<Rightarrow> Some (n, w, e))"

definition i_remove_quiet :: "'w posix \<Rightarrow> string \<Rightarrow> 'w \<Rightarrow> errp \<Rightarrow> (int \<times> 'w \<times> errp) option" where
  "i_remove_quiet px fname w e =
     (case px_remove px fname w of
        (Fail m, w) \<Rightarrow>
          if m \<noteq> ENOENT
          then do { (c, e) \<leftarrow> io_trace e (''remove: '' @ px_strerror px m); Some (c, w, e) }
          else Some (SUCCESS, w, e)
      | (Ret _, w) \<Rightarrow> Some (SUCCESS, w, e))"

text \<open>\<open>mkstemp\<close> completes the template in place.\<close>

definition i_mkstemp ::
  "'w posix \<Rightarrow> string \<Rightarrow> 'w \<Rightarrow> errp \<Rightarrow> (int \<times> (fd \<times> string) option \<times> 'w \<times> errp) option" where
  "i_mkstemp px tmpl w e =
     (case px_mkstemp px tmpl w of
        (Fail m, w) \<Rightarrow> do { (c, e) \<leftarrow> io_trace e (''mkstemp: '' @ px_strerror px m); Some (c, None, w, e) }
      | (Ret r, w) \<Rightarrow> Some (SUCCESS, Some r, w, e))"

definition i_unlink :: "'w posix \<Rightarrow> string \<Rightarrow> 'w \<Rightarrow> errp \<Rightarrow> (int \<times> 'w \<times> errp) option" where
  "i_unlink px name w e =
     (case px_unlink px name w of
        (Fail m, w) \<Rightarrow> do { (c, e) \<leftarrow> io_trace e (''unlink: '' @ px_strerror px m); Some (c, w, e) }
      | (Ret _, w) \<Rightarrow> Some (SUCCESS, w, e))"

definition i_mkdir :: "'w posix \<Rightarrow> string \<Rightarrow> 'w \<Rightarrow> errp \<Rightarrow> (int \<times> 'w \<times> errp) option" where
  "i_mkdir px name w e =
     (case px_mkdir px name w of
        (Fail m, w) \<Rightarrow> do { (c, e) \<leftarrow> io_trace e (''mkdir: '' @ px_strerror px m); Some (c, w, e) }
      | (Ret _, w) \<Rightarrow> Some (SUCCESS, w, e))"

definition i_mkdir_quiet :: "'w posix \<Rightarrow> string \<Rightarrow> 'w \<Rightarrow> errp \<Rightarrow> (int \<times> 'w \<times> errp) option" where
  "i_mkdir_quiet px name w e =
     (case px_mkdir px name w of
        (Ret _, w) \<Rightarrow> Some (SUCCESS, w, e)
      | (Fail m, w) \<Rightarrow>
          if m \<noteq> EEXIST
          then do { (c, e) \<leftarrow> io_trace e (''mkdir: '' @ px_strerror px m); Some (c, w, e) }
          else
            (case px_stat px name w of
               (Fail m, w) \<Rightarrow> do {
                 (c, e) \<leftarrow> io_trace e (''stat '' @ name @ '': '' @ px_strerror px m);
                 Some (c, w, e)
               }
             | (Ret ft, w) \<Rightarrow>
                 if ft \<noteq> Is_dir
                 then do {
                   (c, e) \<leftarrow> io_trace e (''mkdir_quiet: '' @ name @ '' exists but is not a directory'');
                   Some (c, w, e)
                 }
                 else Some (SUCCESS, w, e)))"

text \<open>\<open>snprintf (child, sizeof child, "%s/%s", ...)\<close> cuts the name at \<open>PATH_MAX - 1\<close> bytes.\<close>

definition child_path :: "string \<Rightarrow> string \<Rightarrow> string" where
  "child_path path nm = take 4095 (path @ ''/'' @ nm)"

partial_function (option) rm_rf_loop ::
  "'w posix \<Rightarrow> nat \<Rightarrow> string \<Rightarrow> 'w \<Rightarrow> errp \<Rightarrow> (int option \<times> 'w \<times> errp) option" where
  "rm_rf_loop px dir path w e =
     (case px_readdir px dir w of
        (None, w) \<Rightarrow> Some (None, w, e)
      | (Some nm, w) \<Rightarrow>
          if nm = ''.'' \<or> nm = ''..'' then rm_rf_loop px dir path w e
          else
            (case px_unlink px (child_path path nm) w of
               (Fail m, w) \<Rightarrow>
                 if m \<noteq> ENOENT
                 then Option.bind
                   (io_trace e (''unlink '' @ child_path path nm @ '': '' @ px_strerror px m))
                   (\<lambda>(c, e). Some (Some c, px_closedir px dir w, e))
                 else rm_rf_loop px dir path w e
             | (Ret _, w) \<Rightarrow> rm_rf_loop px dir path w e))"

declare rm_rf_loop.simps [code]

definition i_rm_rf :: "'w posix \<Rightarrow> string \<Rightarrow> 'w \<Rightarrow> errp \<Rightarrow> (int \<times> 'w \<times> errp) option" where
  "i_rm_rf px path w e =
     (case px_opendir px path w of
        (Fail m, w) \<Rightarrow>
          if m = ENOENT then Some (SUCCESS, w, e)
          else do {
            (c, e) \<leftarrow> io_trace e (''opendir '' @ path @ '': '' @ px_strerror px m);
            Some (c, w, e)
          }
      | (Ret dir, w) \<Rightarrow> do {
          (r, w, e) \<leftarrow> rm_rf_loop px dir path w e;
          case r of
            Some c \<Rightarrow> Some (c, w, e)
          | None \<Rightarrow>
              (case px_rmdir px path (px_closedir px dir w) of
                 (Fail m, w) \<Rightarrow>
                   if m \<noteq> ENOENT
                   then do {
                     (c, e) \<leftarrow> io_trace e (''rmdir '' @ path @ '': '' @ px_strerror px m);
                     Some (c, w, e)
                   }
                   else Some (SUCCESS, w, e)
               | (Ret _, w) \<Rightarrow> Some (SUCCESS, w, e))
        })"

definition i_seek ::
  "'w posix \<Rightarrow> fd \<Rightarrow> u64 \<Rightarrow> seek_t \<Rightarrow> 'w \<Rightarrow> errp \<Rightarrow> (int \<times> 'w \<times> errp) option" where
  "i_seek px fp off whence w e =
     (case px_lseek px fp off whence w of
        (Fail m, w) \<Rightarrow> do { (c, e) \<leftarrow> io_trace e (''lseek: '' @ px_strerror px m); Some (c, w, e) }
      | (Ret n, w) \<Rightarrow> Some (n, w, e))"

section \<open>Wrappers\<close>

definition i_access_rw :: "'w posix \<Rightarrow> string \<Rightarrow> 'w \<Rightarrow> errp \<Rightarrow> (int \<times> 'w \<times> errp) option" where
  "i_access_rw px fname w e =
     (case px_access px fname w of
        (Fail m, w) \<Rightarrow> do { (c, e) \<leftarrow> io_trace e (''access: '' @ px_strerror px m); Some (c, w, e) }
      | (Ret _, w) \<Rightarrow> Some (SUCCESS, w, e))"

definition i_exists_rw :: "'w posix \<Rightarrow> string \<Rightarrow> 'w \<Rightarrow> bool \<times> 'w" where
  "i_exists_rw px fname w =
     (case px_access px fname w of (Fail m, w) \<Rightarrow> (False, w) | (Ret _, w) \<Rightarrow> (True, w))"

definition i_touch :: "'w posix \<Rightarrow> string \<Rightarrow> 'w \<Rightarrow> errp \<Rightarrow> (int \<times> 'w \<times> errp) option" where
  "i_touch px fname w e = do {
     (c, fp, w, e) \<leftarrow> i_open_rw px fname w e;
     case fp of
       None \<Rightarrow> do { c \<leftarrow> error_trace e; Some (c, w, e) }
     | Some fp \<Rightarrow> do {
         (c, w, e) \<leftarrow> i_close px fp w e;
         if c < SUCCESS then do { c \<leftarrow> error_trace e; Some (c, w, e) }
         else Some (SUCCESS, w, e)
       }
   }"

text \<open>Both ask \<open>stat\<close> for the type; a missing file is an answer, not an error.\<close>

definition i_stat_is ::
  "ftype \<Rightarrow> 'w posix \<Rightarrow> string \<Rightarrow> 'w \<Rightarrow> errp \<Rightarrow> (int \<times> bool option \<times> 'w \<times> errp) option" where
  "i_stat_is ft px fname w e =
     (case px_stat px fname w of
        (Fail m, w) \<Rightarrow>
          if m = ENOENT then Some (0, Some False, w, e)
          else do {
            (c, e) \<leftarrow> io_trace e (''stat '' @ fname @ '': '' @ px_strerror px m);
            Some (c, None, w, e)
          }
      | (Ret t, w) \<Rightarrow> Some (SUCCESS, Some (t = ft), w, e))"

definition i_dir_exists where "i_dir_exists = i_stat_is Is_dir"

definition i_file_exists where "i_file_exists = i_stat_is Is_reg"

end
