(* ===== verification/Posix_io.thy ===== *)
theory Posix_io
  imports Posix
begin

text \<open>
  What the file layer makes of the system calls it relies on. The laws are those of the POSIX
  manual for a regular file nobody else changes: \<open>cont w fp\<close> is its contents, \<open>todo w fp\<close>
  what a reader at the descriptor's position has not read yet, and \<open>done_by w fp\<close> what has been
  written through it.
\<close>

section \<open>Laws\<close>

text \<open>
  \<open>pread\<close> and \<open>pwrite\<close> at a given position. A transfer may be short, and a call may be interrupted
  by a signal, which moves nothing, but only as often as \<open>intr w\<close> says.
\<close>

definition pread_law :: "'w posix \<Rightarrow> ('w \<Rightarrow> fd \<Rightarrow> u8 list) \<Rightarrow> ('w \<Rightarrow> nat) \<Rightarrow> bool" where
  "pread_law px cont intr \<longleftrightarrow> (\<forall>fp n off w r w'. px_pread px fp n off w = (r, w') \<longrightarrow>
     cont w' = cont w \<and> intr w' \<le> intr w \<and> (r = Fail EINTR \<longrightarrow> intr w' < intr w) \<and>
     (\<forall>bs. r = Ret bs \<longrightarrow> length bs \<le> unat n \<and>
        bs = take (length bs) (drop (unat off) (cont w fp)) \<and>
        (0 < n \<and> bs = [] \<longrightarrow> length (cont w fp) \<le> unat off)))"

text \<open>A file written at \<open>off\<close>; a gap before it reads as zeros.\<close>

definition file_write :: "u8 list \<Rightarrow> nat \<Rightarrow> u8 list \<Rightarrow> u8 list" where
  "file_write c off bs = take off (c @ replicate (off - length c) 0) @ bs @ drop (off + length bs) c"

definition pwrite_law :: "'w posix \<Rightarrow> ('w \<Rightarrow> fd \<Rightarrow> u8 list) \<Rightarrow> ('w \<Rightarrow> nat) \<Rightarrow> bool" where
  "pwrite_law px cont intr \<longleftrightarrow> (\<forall>fp bs off w r w'. px_pwrite px fp bs off w = (r, w') \<longrightarrow>
     intr w' \<le> intr w \<and>
     (\<forall>m. r = Fail m \<longrightarrow> cont w' = cont w \<and> (m = EINTR \<longrightarrow> intr w' < intr w)) \<and>
     (\<forall>k. r = Ret k \<longrightarrow> k \<le> length bs \<and> (bs \<noteq> [] \<longrightarrow> 0 < k) \<and>
        cont w' = (cont w)(fp := file_write (cont w fp) (unat off) (take k bs))))"

section \<open>Reading at a position\<close>

lemma io_cause_fresh:
  "cause_code er = SUCCESS \<Longrightarrow> \<exists>er'. io_cause (Some er) msg = (ERR_IO, Some er') \<and> cause_code er' = ERR_IO"
  by (simp add: io_cause_def error_causef_fresh)

lemma sint_small: "unat (x :: u64) < 9223372036854775808 \<Longrightarrow> sint x = int (unat x)"
proof -
  assume a: "unat x < 9223372036854775808"
  then have "int (unat x) < 9223372036854775808" by linarith
  then have "uint x < 2 ^ 63" by simp
  moreover have "- (2 ^ 63) \<le> uint x" by (rule order_trans [of _ 0]) simp_all
  ultimately have "sint x = uint x" by (simp add: sint_uint signed_take_bit_int_eq_self del: power_numeral)
  then show ?thesis by simp
qed

lemma u64_count: "unat (a :: u64) + k \<le> unat (b :: u64) \<Longrightarrow> unat (a + word_of_nat k) = unat a + k"
proof -
  assume "unat a + k \<le> unat b"
  then have "unat a + k < 18446744073709551616" using u64_less_bound [of b] by linarith
  then show ?thesis by (subst u64_add_nat) (simp_all add: unat_of_nat)
qed

text \<open>
  An interrupted call takes one from the count: from 0 the loop ends beyond the length and its
  assertion fails, and from a positive count the last byte is transferred again. So the count
  \<open>k\<close> may fall behind the number \<open>m\<close> of bytes that are already in place.
\<close>

lemma overwrite_again:
  assumes "j \<le> m" and "m \<le> length D" and "m \<le> length d" and "j + k \<le> length D" and "j + k \<le> length d"
  shows "overwrite (overwrite d 0 (take m D)) j (take k (drop j D)) = overwrite d 0 (take (max m (j + k)) D)"
proof -
  let ?A = "overwrite d 0 (take m D)" and ?bs = "take k (drop j D)"
  have A: "length ?A = length d" using assms by simp
  have B: "length (overwrite ?A j ?bs) = length d" using assms A by simp
  have C: "length (overwrite d 0 (take (max m (j + k)) D)) = length d" using assms by simp
  have l: "length (take m D) = m" "length ?bs = k" "length (take (max m (j + k)) D) = max m (j + k)"
    using assms by simp_all
  show ?thesis
  proof (rule nth_equalityI)
    fix i assume "i < length (overwrite ?A j ?bs)"
    then have i: "i < length d" using B by simp
    have "overwrite ?A j ?bs ! i = (if j \<le> i \<and> i < j + k then D ! i else ?A ! i)"
      using assms i A l by (subst nth_overwrite) auto
    moreover have "?A ! i = (if i < m then D ! i else d ! i)"
      using assms i l by (subst nth_overwrite) auto
    moreover have "overwrite d 0 (take (max m (j + k)) D) ! i = (if i < max m (j + k) then D ! i else d ! i)"
      using assms i l by (subst nth_overwrite) auto
    ultimately show "overwrite ?A j ?bs ! i = overwrite d 0 (take (max m (j + k)) D) ! i"
      using assms(1) by auto
  qed (use B C in simp)
qed

text \<open>The measure of the loops: an interrupt costs more than the byte it gives back.\<close>

lemma interrupt_decreases:
  fixes n :: nat
  assumes "i' < i" and "0 < k" and "k \<le> n"
  shows "i' * (n + 1) + (n - (k - 1)) < i * (n + 1) + (n - k)"
proof -
  have "(i' + 1) * (n + 1) \<le> i * (n + 1)" using assms(1) by (intro mult_le_mono1) simp
  then show ?thesis using assms(2,3) by (simp add: algebra_simps)
qed

lemma progress_decreases:
  fixes n :: nat
  assumes "i' \<le> i" and "k < k'" and "k' \<le> n"
  shows "i' * (n + 1) + (n - k') < i * (n + 1) + (n - k)"
proof -
  have "i' * (n + 1) \<le> i * (n + 1)" using assms(1) by (rule mult_le_mono1)
  then show ?thesis using assms(2,3) by linarith
qed

lemma beyond_length:
  assumes "unat (n :: u64) < 9223372036854775808"
  shows "\<not> (- 1 :: u64) < n" and "(- 1 :: u64) \<noteq> n"
proof -
  have "unat (- 1 :: u64) = 18446744073709551615" by (simp add: unsigned_minus_1_eq_mask mask_eq_exp_minus_1)
  then show "\<not> (- 1 :: u64) < n" "(- 1 :: u64) \<noteq> n" using assms by (auto simp: word_less_nat_alt)
qed

text \<open>
  What a read of \<open>n\<close> bytes of \<open>D\<close> into \<open>dest\<close> comes to: the process aborts and an interrupt was
  still to come, or an error is reported, or the bytes there are were copied.
\<close>

definition read_outcome ::
  "('w \<Rightarrow> fd \<Rightarrow> u8 list) \<Rightarrow> ('w \<Rightarrow> nat) \<Rightarrow> error \<Rightarrow> nat \<Rightarrow> u8 list \<Rightarrow> u8 list \<Rightarrow> 'w \<Rightarrow>
   (int \<times> u8 list \<times> 'w \<times> errp) option \<Rightarrow> bool" where
  "read_outcome cont intr er n D dest w X \<longleftrightarrow>
     X = None \<and> 0 < intr w \<or>
     (\<exists>ret dest' w' er'. X = Some (ret, dest', w', Some er') \<and> cont w' = cont w \<and> intr w' \<le> intr w \<and>
       (ret = ERR_IO \<and> cause_code er' = ERR_IO \<or>
        er' = er \<and> ret = int (length (take n D)) \<and> dest' = overwrite dest 0 (take n D)))"

lemma read_outcome_later:
  assumes X: "read_outcome cont intr er n D dest w1 X" and c: "cont w1 = cont w" and i: "intr w1 \<le> intr w"
  shows "read_outcome cont intr er n D dest w X"
proof (cases X)
  case None
  then show ?thesis using X i by (simp add: read_outcome_def)
next
  case (Some x)
  then obtain ret dest' w' er' where x: "X = Some (ret, dest', w', Some er')" "cont w' = cont w1" "intr w' \<le> intr w1"
    "ret = ERR_IO \<and> cause_code er' = ERR_IO \<or>
     er' = er \<and> ret = int (length (take n D)) \<and> dest' = overwrite dest 0 (take n D)"
    using X unfolding read_outcome_def by fast
  have "cont w' = cont w" "intr w' \<le> intr w" using x(2,3) c i by simp_all
  then show ?thesis unfolding read_outcome_def using x(1,4) by - (rule disjI2, intro exI conjI)
qed

lemma read_outcome_error:
  assumes "cause_code er = SUCCESS" and "cont w1 = cont w" and "intr w1 \<le> intr w"
    and "X = (case io_cause (Some er) msg of (c, e) \<Rightarrow> Some (c, d, w1, e))"
  shows "read_outcome cont intr er n D dest w X"
  using assms(2-4) io_cause_fresh [OF assms(1), of msg] by (auto simp: read_outcome_def)

lemma read_outcome_done:
  assumes "X = Some (int (length (take n D)), overwrite dest 0 (take n D), w1, Some er)"
    and "cont w1 = cont w" and "intr w1 \<le> intr w"
  shows "read_outcome cont intr er n D dest w X"
  using assms by (auto simp: read_outcome_def)

lemma pread_all_loop_ok:
  assumes law: "pread_law px cont intr" and fresh: "cause_code er = SUCCESS"
    and fits: "unat off + unat n < 18446744073709551616" "unat n < 9223372036854775808" "unat n \<le> length dest"
  shows "unat k \<le> m \<Longrightarrow> m \<le> unat n \<Longrightarrow> D = drop (unat off) (cont w fp) \<Longrightarrow> m \<le> length D \<Longrightarrow>
    read_outcome cont intr er (unat n) D dest w
      (pread_all_loop px fp n off k (overwrite dest 0 (take m D)) w (Some er))"
proof (induction "intr w * (unat n + 1) + (unat n - unat k)" arbitrary: k m w rule: less_induct)
  case less
  let ?d = "overwrite dest 0 (take m D)"
  show ?case
  proof (cases "k < n")
    case False
    then have "k = n" "m = unat n" using less.prems(1,2) by (auto simp: word_less_nat_alt word_unat_eq_iff)
    then show ?thesis using fits less.prems(4)
      by (intro read_outcome_done [of _ _ _ _ w]) (subst pread_all_loop.simps, simp_all add: sint_small)
  next
    case True
    then have lt: "unat k < unat n" by (simp add: word_less_nat_alt)
    have pos: "unat (off + k) = unat off + unat k" using fits lt by simp
    have len: "unat (n - k) = unat n - unat k" "0 < n - k" using lt by (simp_all add: word_less_nat_alt)
    obtain r w1 where r: "px_pread px fp (n - k) (off + k) w = (r, w1)" by (cases "px_pread px fp (n - k) (off + k) w")
    note lw = law [unfolded pread_law_def, rule_format, OF r]
    have w1: "cont w1 = cont w" "intr w1 \<le> intr w" using lw by auto
    show ?thesis
    proof (cases r)
      case (Fail f)
      show ?thesis
      proof (cases "f = EINTR")
        case False
        have "pread_all_loop px fp n off k ?d w (Some er) =
          (case io_cause (Some er) (''pread: '' @ px_strerror px f) of (c, e) \<Rightarrow> Some (c, ?d, w1, e))"
          using r Fail True False by (subst pread_all_loop.simps) simp
        then show ?thesis by (rule read_outcome_error [OF fresh w1])
      next
        case intr: True
        then have dec: "intr w1 < intr w" using lw Fail by simp
        have step: "pread_all_loop px fp n off k ?d w (Some er) = pread_all_loop px fp n off (k - 1) ?d w1 (Some er)"
          using r Fail True intr by (subst pread_all_loop.simps) simp
        show ?thesis
        proof (cases "k = 0")
          case True
          then show ?thesis using step beyond_length [OF fits(2)] dec
            by (simp add: pread_all_loop.simps [of px fp n off "- 1"] read_outcome_def)
        next
          case False
          then have k1: "0 < unat k" "unat (k - 1) = unat k - 1" by (simp_all add: unat_gt_0 unat_minus_one)
          have "intr w1 * (unat n + 1) + (unat n - unat (k - 1)) < intr w * (unat n + 1) + (unat n - unat k)"
            unfolding k1(2) by (rule interrupt_decreases [OF dec k1(1)]) (use lt in simp)
          from less.hyps [OF this, of m] have "read_outcome cont intr er (unat n) D dest w1
              (pread_all_loop px fp n off (k - 1) ?d w1 (Some er))"
            using less.prems k1 w1 by simp
          then show ?thesis unfolding step by (rule read_outcome_later [OF _ w1])
        qed
      qed
    next
      case (Ret bs)
      have bs: "length bs \<le> unat n - unat k" "bs = take (length bs) (drop (unat k) D)"
        "bs = [] \<Longrightarrow> length (cont w fp) \<le> unat off + unat k"
        using lw Ret pos len less.prems(3) by (auto simp: add.commute)
      show ?thesis
      proof (cases "bs = []")
        case True
        then have "length D \<le> unat k" using bs(3) less.prems(3) by simp
        then have e: "length D = unat k" "m = unat k" using less.prems by simp_all
        then have "take m D = take (unat n) D" "length (take (unat n) D) = unat k" using lt by simp_all
        moreover have "uint k = int (length D)" using e(1) by simp
        ultimately show ?thesis using r Ret \<open>k < n\<close> True w1 fits lt
          by (intro read_outcome_done [of _ _ _ _ w1]) (subst pread_all_loop.simps, simp_all add: sint_small)
      next
        case False
        let ?k = "k + word_of_nat (length bs)"
        have nk: "unat ?k = unat k + length bs"
          by (rule u64_count [of _ _ n]) (use bs(1) lt in simp)
        have avail: "unat k + length bs \<le> length D"
          using arg_cong [OF bs(2), of length] False by (cases bs) auto
        have ld: "length ?d = length dest" using less.prems(2,4) fits(3) by simp
        have st: "mem_store ?d (unat k) bs = Some (overwrite ?d (unat k) bs)"
          using bs(1) lt fits(3) ld by simp
        have ov: "overwrite ?d (unat k) bs = overwrite dest 0 (take (max m (unat ?k)) D)"
          unfolding nk by (subst bs(2), rule overwrite_again) (use less.prems fits(3) bs(1) lt avail in simp_all)
        have step: "pread_all_loop px fp n off k ?d w (Some er)
            = pread_all_loop px fp n off ?k (overwrite dest 0 (take (max m (unat ?k)) D)) w1 (Some er)"
          using r Ret \<open>k < n\<close> False st ov by (subst pread_all_loop.simps) simp
        have "intr w1 * (unat n + 1) + (unat n - unat ?k) < intr w * (unat n + 1) + (unat n - unat k)"
          by (rule progress_decreases [OF w1(2)]) (use nk False bs(1) lt in simp_all)
        moreover have "unat ?k \<le> max m (unat ?k)" "max m (unat ?k) \<le> unat n" "max m (unat ?k) \<le> length D"
          "D = drop (unat off) (cont w1 fp)"
          using less.prems nk bs(1) lt avail w1(1) by simp_all
        ultimately have "read_outcome cont intr er (unat n) D dest w1
            (pread_all_loop px fp n off ?k (overwrite dest 0 (take (max m (unat ?k)) D)) w1 (Some er))"
          by (intro less.hyps)
        then show ?thesis unfolding step by (rule read_outcome_later [OF _ w1])
      qed
    qed
  qed
qed

lemma i_pread_all_ok:
  assumes law: "pread_law px cont intr" and fresh: "cause_code er = SUCCESS"
    and fits: "unat off + unat n < 18446744073709551616" "unat n < 9223372036854775808" "unat n \<le> length dest"
    and ready: "px_isopen px fp w" "0 < n"
  shows "read_outcome cont intr er (unat n) (drop (unat off) (cont w fp)) dest w
    (i_pread_all px fp dest n off w (Some er))"
proof -
  have "read_outcome cont intr er (unat n) (drop (unat off) (cont w fp)) dest w
      (pread_all_loop px fp n off 0 (overwrite dest 0 (take 0 (drop (unat off) (cont w fp)))) w (Some er))"
    by (rule pread_all_loop_ok [OF law fresh fits]) simp_all
  then show ?thesis using ready by (simp add: i_pread_all_def i_file_dbg_def)
qed

section \<open>Writing at a position\<close>

lemma length_front: "length (take off (c @ replicate (off - length c) x)) = off"
  by simp

lemma length_file_write [simp]: "length (file_write c off bs) = max (length c) (off + length bs)"
  unfolding file_write_def length_append length_front length_drop by simp

lemma nth_file_write:
  assumes "i < max (length c) (off + length bs)"
  shows "file_write c off bs ! i =
    (if off \<le> i \<and> i < off + length bs then bs ! (i - off) else if i < length c then c ! i else 0)"
  using assms by (auto simp: file_write_def nth_append min_def less_diff_conv2)

text \<open>Writing a part of \<open>S\<close> again where it stands, and beyond.\<close>

lemma file_write_again:
  assumes "j \<le> m" and "m \<le> length S" and "j + k \<le> length S"
  shows "file_write (file_write c off (take m S)) (off + j) (take k (drop j S)) = file_write c off (take (max m (j + k)) S)"
    (is "?L = ?R")
proof (rule nth_equalityI)
  have l: "length (take m S) = m" "length (take k (drop j S)) = k" "length (take (max m (j + k)) S) = max m (j + k)"
    using assms by simp_all
  show len: "length ?L = length ?R" using assms l by simp
  fix i assume i: "i < length ?L"
  let ?A = "file_write c off (take m S)"
  have "?L ! i = (if off + j \<le> i \<and> i < off + j + k then S ! (i - off) else if i < max (length c) (off + m) then ?A ! i else 0)"
    using i assms l by (subst nth_file_write) (auto simp: nth_take)
  moreover have "i < max (length c) (off + m) \<Longrightarrow>
      ?A ! i = (if off \<le> i \<and> i < off + m then S ! (i - off) else if i < length c then c ! i else 0)"
    using l by (subst nth_file_write) auto
  moreover have "?R ! i = (if off \<le> i \<and> i < off + max m (j + k) then S ! (i - off) else if i < length c then c ! i else 0)"
    using i l unfolding len by (subst nth_file_write) auto
  ultimately show "?L ! i = ?R ! i" using assms(1) by auto
qed

lemma read_back: "take (length bs) (drop off (file_write c off bs)) = bs"
proof -
  define P where "P = take off (c @ replicate (off - length c) 0)"
  have P: "take off (c @ replicate (off - length c) 0) = P" "length P = off"
    unfolding P_def by (rule refl, rule length_front)
  then have "file_write c off bs = P @ bs @ drop (off + length bs) c" by (simp only: file_write_def)
  then show ?thesis using P(2) by simp
qed

text \<open>The file after \<open>m\<close> bytes of the source; nothing is written for none.\<close>

definition written :: "u8 list \<Rightarrow> nat \<Rightarrow> u8 list \<Rightarrow> nat \<Rightarrow> u8 list" where
  "written c off S m = (if m = 0 then c else file_write c off (take m S))"

lemma written_again:
  assumes "j \<le> m" and "m \<le> length S" and "j + k \<le> length S" and "0 < k"
  shows "file_write (written c off S m) (off + j) (take k (drop j S)) = written c off S (max m (j + k))"
  using assms file_write_again [OF assms(1-3), of c off] by (cases "m = 0") (auto simp: written_def)

definition write_outcome ::
  "('w \<Rightarrow> fd \<Rightarrow> u8 list) \<Rightarrow> ('w \<Rightarrow> nat) \<Rightarrow> error \<Rightarrow> fd \<Rightarrow> u8 list \<Rightarrow> 'w \<Rightarrow> (int \<times> 'w \<times> errp) option \<Rightarrow> bool" where
  "write_outcome cont intr er fp c w X \<longleftrightarrow>
     X = None \<and> 0 < intr w \<or>
     (\<exists>ret w' er'. X = Some (ret, w', Some er') \<and> (\<forall>g. g \<noteq> fp \<longrightarrow> cont w' g = cont w g) \<and> intr w' \<le> intr w \<and>
       (ret = ERR_IO \<and> cause_code er' = ERR_IO \<or> ret = SUCCESS \<and> er' = er \<and> cont w' fp = c))"

lemma write_outcome_later:
  assumes X: "write_outcome cont intr er fp c w1 X" and c: "\<forall>g. g \<noteq> fp \<longrightarrow> cont w1 g = cont w g" and i: "intr w1 \<le> intr w"
  shows "write_outcome cont intr er fp c w X"
proof (cases X)
  case None
  then show ?thesis using X i by (simp add: write_outcome_def)
next
  case (Some x)
  then obtain ret w' er' where x: "X = Some (ret, w', Some er')" "\<forall>g. g \<noteq> fp \<longrightarrow> cont w' g = cont w1 g" "intr w' \<le> intr w1"
    "ret = ERR_IO \<and> cause_code er' = ERR_IO \<or> ret = SUCCESS \<and> er' = er \<and> cont w' fp = c"
    using X unfolding write_outcome_def by fast
  have "\<forall>g. g \<noteq> fp \<longrightarrow> cont w' g = cont w g" "intr w' \<le> intr w" using x(2,3) c i by simp_all
  then show ?thesis unfolding write_outcome_def using x(1,4) by - (rule disjI2, intro exI conjI)
qed

lemma pwrite_all_loop_ok:
  assumes law: "pwrite_law px cont intr" and fresh: "cause_code er = SUCCESS"
    and fits: "unat off + unat n < 18446744073709551616" "unat n < 9223372036854775808" and src: "unat n \<le> length src"
  shows "unat k \<le> m \<Longrightarrow> m \<le> unat n \<Longrightarrow> cont w fp = written c (unat off) src m \<Longrightarrow>
    write_outcome cont intr er fp (written c (unat off) src (unat n)) w (pwrite_all_loop px fp n off k src w (Some er))"
proof (induction "intr w * (unat n + 1) + (unat n - unat k)" arbitrary: k m w rule: less_induct)
  case less
  show ?case
  proof (cases "k < n")
    case False
    then have "k = n" "m = unat n" using less.prems(1,2) by (auto simp: word_less_nat_alt word_unat_eq_iff)
    then show ?thesis using less.prems(3) by (subst pwrite_all_loop.simps) (simp add: write_outcome_def)
  next
    case True
    then have lt: "unat k < unat n" by (simp add: word_less_nat_alt)
    have pos: "unat (off + k) = unat off + unat k" using fits lt by simp
    have len: "unat (n - k) = unat n - unat k" using lt by simp
    define bs where "bs = take (unat n - unat k) (drop (unat k) src)"
    have ld: "mem_load src (unat k) (unat (n - k)) = Some bs"
      using src lt len by (simp add: bs_def)
    have lbs: "length bs = unat n - unat k" using src lt by (simp add: bs_def)
    obtain r w1 where r: "px_pwrite px fp bs (off + k) w = (r, w1)" by (cases "px_pwrite px fp bs (off + k) w")
    note lw = law [unfolded pwrite_law_def, rule_format, OF r]
    have i1: "intr w1 \<le> intr w" using lw by auto
    show ?thesis
    proof (cases r)
      case (Fail f)
      then have w1: "cont w1 = cont w" using lw by auto
      show ?thesis
      proof (cases "f = EINTR")
        case False
        then show ?thesis
          using w1 i1 r Fail True ld io_cause_fresh [OF fresh, of "''pwrite: '' @ px_strerror px f"]
          by (subst pwrite_all_loop.simps) (auto simp: write_outcome_def)
      next
        case intr: True
        then have dec: "intr w1 < intr w" using lw Fail by simp
        have step: "pwrite_all_loop px fp n off k src w (Some er) = pwrite_all_loop px fp n off (k - 1) src w1 (Some er)"
          using r Fail True intr ld by (subst pwrite_all_loop.simps) simp
        show ?thesis
        proof (cases "k = 0")
          case True
          then show ?thesis using step beyond_length [OF fits(2)] dec
            by (simp add: pwrite_all_loop.simps [of px fp n off "- 1"] write_outcome_def)
        next
          case False
          then have k1: "0 < unat k" "unat (k - 1) = unat k - 1" by (simp_all add: unat_gt_0 unat_minus_one)
          have "intr w1 * (unat n + 1) + (unat n - unat (k - 1)) < intr w * (unat n + 1) + (unat n - unat k)"
            unfolding k1(2) by (rule interrupt_decreases [OF dec k1(1)]) (use lt in simp)
          from less.hyps [OF this, of m] have "write_outcome cont intr er fp (written c (unat off) src (unat n)) w1
              (pwrite_all_loop px fp n off (k - 1) src w1 (Some er))"
            using less.prems k1 w1 by simp
          then show ?thesis unfolding step by (rule write_outcome_later) (use w1 i1 in simp_all)
        qed
      qed
    next
      case (Ret t)
      have t: "t \<le> unat n - unat k" "0 < t"
        and w1: "cont w1 = (cont w)(fp := file_write (cont w fp) (unat off + unat k) (take t bs))"
        using lw Ret pos lbs lt by auto
      have nk: "unat (k + word_of_nat t) = unat k + t" by (rule u64_count [of _ _ n]) (use t lt in simp)
      have "take t bs = take t (drop (unat k) src)" using t(1) by (simp add: bs_def min_def)
      moreover have "m \<le> length src" "unat k + t \<le> length src" using less.prems(2) src t(1) lt by simp_all
      ultimately have c1: "cont w1 fp = written c (unat off) src (max m (unat (k + word_of_nat t)))"
        using w1 less.prems(1,3) t(2) nk by (simp add: written_again)
      have step: "pwrite_all_loop px fp n off k src w (Some er) = pwrite_all_loop px fp n off (k + word_of_nat t) src w1 (Some er)"
        using r Ret True ld by (subst pwrite_all_loop.simps) simp
      have "intr w1 * (unat n + 1) + (unat n - unat (k + word_of_nat t)) < intr w * (unat n + 1) + (unat n - unat k)"
        by (rule progress_decreases [OF i1]) (use nk t lt in simp_all)
      moreover have "unat (k + word_of_nat t) \<le> max m (unat (k + word_of_nat t))" "max m (unat (k + word_of_nat t)) \<le> unat n"
        using less.prems(2) nk t(1) lt by simp_all
      ultimately have "write_outcome cont intr er fp (written c (unat off) src (unat n)) w1
          (pwrite_all_loop px fp n off (k + word_of_nat t) src w1 (Some er))"
        using c1 by (rule less.hyps)
      then show ?thesis unfolding step by (rule write_outcome_later) (use w1 i1 in simp_all)
    qed
  qed
qed

lemma i_pwrite_all_ok:
  assumes law: "pwrite_law px cont intr" and fresh: "cause_code er = SUCCESS"
    and fits: "unat off + unat n < 18446744073709551616" "unat n < 9223372036854775808" and src: "unat n \<le> length src"
    and ready: "px_isopen px fp w" "0 < n"
  shows "write_outcome cont intr er fp (file_write (cont w fp) (unat off) (take (unat n) src)) w
    (i_pwrite_all px fp src n off w (Some er))"
proof -
  have "write_outcome cont intr er fp (written (cont w fp) (unat off) src (unat n)) w
      (pwrite_all_loop px fp n off 0 src w (Some er))"
    by (rule pwrite_all_loop_ok [OF law fresh fits src, of 0 0]) (simp_all add: written_def)
  moreover have "unat n \<noteq> 0" using ready(2) by (simp add: word_less_nat_alt)
  ultimately show ?thesis using ready by (simp add: i_pwrite_all_def i_file_dbg_def written_def)
qed

text \<open>The first call interrupted: the count becomes \<open>2^64 - 1\<close>, the loop ends, and the assertion after it
fails.\<close>

lemma pread_interrupted:
  "px_pread px fp n off w = (Fail EINTR, w') \<Longrightarrow> n \<noteq> - 1 \<Longrightarrow> i_pread_all px fp dest n off w e = None"
  by (auto simp: i_pread_all_def i_file_dbg_def word_gt_0 not_less
      pread_all_loop.simps [of px fp n off 0] pread_all_loop.simps [of px fp n off "- 1"])

section \<open>Vectored transfers\<close>

text \<open>
  \<open>readv\<close> and \<open>writev\<close> at the descriptor's position. A call may be interrupted, which moves
  nothing, but only as often as \<open>intr w\<close> says.
\<close>

definition readv_law :: "'w posix \<Rightarrow> ('w \<Rightarrow> fd \<Rightarrow> u8 list) \<Rightarrow> ('w \<Rightarrow> nat) \<Rightarrow> bool" where
  "readv_law px todo intr \<longleftrightarrow> (\<forall>fp ns w r w'. px_readv px fp ns w = (r, w') \<longrightarrow>
     intr w' \<le> intr w \<and>
     (\<forall>m. r = Fail m \<longrightarrow> todo w' = todo w \<and> (m = EINTR \<longrightarrow> intr w' < intr w)) \<and>
     (\<forall>bs. r = Ret bs \<longrightarrow> length bs \<le> sum_list (map unat ns) \<and> todo w fp = bs @ todo w' fp \<and>
        (bs = [] \<and> 0 < sum_list (map unat ns) \<longrightarrow> todo w fp = [])))"

definition writev_law :: "'w posix \<Rightarrow> ('w \<Rightarrow> fd \<Rightarrow> u8 list) \<Rightarrow> ('w \<Rightarrow> nat) \<Rightarrow> bool" where
  "writev_law px sent intr \<longleftrightarrow> (\<forall>fp bss w r w'. px_writev px fp bss w = (r, w') \<longrightarrow>
     intr w' \<le> intr w \<and>
     (\<forall>m. r = Fail m \<longrightarrow> sent w' = sent w \<and> (m = EINTR \<longrightarrow> intr w' < intr w)) \<and>
     (\<forall>k. r = Ret k \<longrightarrow> k \<le> length (concat bss) \<and> (concat bss \<noteq> [] \<longrightarrow> 0 < k) \<and>
        sent w' fp = sent w fp @ take k (concat bss)))"

definition iov_bytes :: "iobytes list \<Rightarrow> nat" where
  "iov_bytes iov = (\<Sum>b\<leftarrow>iov. unat (snd b))"

lemma iov_bytes_simps [simp]: "iov_bytes [] = 0" "iov_bytes ((off, n) # iov) = unat n + iov_bytes iov"
  by (simp_all add: iov_bytes_def)

definition iov_in :: "u8 list \<Rightarrow> iobytes list \<Rightarrow> bool" where
  "iov_in m iov \<longleftrightarrow> (\<forall>(off, n) \<in> set iov. off + unat n \<le> length m)"

lemma iov_in_simps [simp]:
  "iov_in m []" "iov_in m ((off, n) # iov) \<longleftrightarrow> off + unat n \<le> length m \<and> iov_in m iov"
  by (simp_all add: iov_in_def)

lemma iov_in_length: "length m' = length m \<Longrightarrow> iov_in m' iov = iov_in m iov"
  by (simp add: iov_in_def)

lemma unat_minus_nat: "k \<le> unat (n :: u32) \<Longrightarrow> unat (n - word_of_nat k) = unat n - k"
proof -
  assume k: "k \<le> unat n"
  then have "k < 4294967296" using u32_less_bound [of n] by linarith
  then have "unat (word_of_nat k :: u32) = k" by (simp add: unat_of_nat)
  then show ?thesis using k by (simp add: unat_sub word_le_nat_alt)
qed

lemma iov_skip_in: "iov_in m iov \<Longrightarrow> iov_in m (iov_skip k iov)"
  by (induction k iov rule: iov_skip.induct) (auto simp: unat_minus_nat)

lemma iov_skip_bytes: "k \<le> iov_bytes iov \<Longrightarrow> iov_bytes (iov_skip k iov) = iov_bytes iov - k"
  by (induction k iov rule: iov_skip.induct) (auto simp: unat_minus_nat)

lemma iov_load_ok:
  "iov_in m iov \<Longrightarrow> \<exists>bss. iov_load m iov = Some bss \<and> length (concat bss) = iov_bytes iov"
proof (induction iov)
  case (Cons b iov)
  obtain off n where b: "b = (off, n)" by (cases b)
  then have "off + unat n \<le> length m" "iov_in m iov" using Cons.prems by simp_all
  moreover from Cons.IH [OF this(2)] obtain bss
    where "iov_load m iov = Some bss" "length (concat bss) = iov_bytes iov" by blast
  moreover have "length (take (unat n) (drop off m)) = unat n" using calculation(1) by simp
  ultimately show ?case by (simp add: b del: length_take)
qed simp

lemma iov_load_skip:
  "iov_in m iov \<Longrightarrow> iov_load m iov = Some bss \<Longrightarrow> k \<le> iov_bytes iov \<Longrightarrow>
   \<exists>bss'. iov_load m (iov_skip k iov) = Some bss' \<and> concat bss' = drop k (concat bss)"
proof (induction k iov arbitrary: bss rule: iov_skip.induct)
  case (2 k off n iov)
  from 2(2,3) obtain rest where rest: "iov_load m iov = Some rest"
    "bss = take (unat n) (drop off m) # rest" by (auto split: bind_splits)
  have l: "length (take (unat n) (drop off m)) = unat n" using 2(2) by (auto simp: min_def)
  consider "k = 0" | "0 < k" "unat n \<le> k" | "0 < k" "k < unat n" by linarith
  then show ?case
  proof cases
    case 2
    then show ?thesis using "2.IH" [OF _ _ _ rest(1)] "2.prems" rest l by auto
  next
    case 3
    have "off + k + unat (n - word_of_nat k) \<le> length m" using 3 2(2) by (simp add: unat_minus_nat)
    then show ?thesis using 3 2(2) rest l by (simp add: unat_minus_nat drop_take add.commute)
  qed (use 2 in simp)
qed simp

lemma iov_store_skip:
  "iov_in m iov \<Longrightarrow> length as \<le> iov_bytes iov \<Longrightarrow>
   \<exists>m1. iov_store m iov as = Some m1 \<and> length m1 = length m \<and>
     (length as + length bs \<le> iov_bytes iov \<longrightarrow>
      iov_store m1 (iov_skip (length as) iov) bs = iov_store m iov (as @ bs))"
proof (induction iov arbitrary: m as bs)
  case (Cons b iov)
  obtain off n where b: "b = (off, n)" by (cases b)
  have in1: "off + unat n \<le> length m" "iov_in m iov" using Cons.prems b by auto
  let ?m = "overwrite m off (take (unat n) as)"
  have st: "mem_store m off (take (unat n) as) = Some ?m" "length ?m = length m"
    using in1 by (auto simp: min_def)
  have in2: "iov_in ?m iov" using in1(2) by (simp add: iov_in_length [OF st(2)])
  show ?case
  proof (cases "unat n \<le> length as \<and> as \<noteq> []")
    case True
    then have "length (drop (unat n) as) \<le> iov_bytes iov" using Cons.prems b by simp
    from Cons.IH [OF in2 this, of bs] show ?thesis
      using True st b by auto
  next
    case False
    then have short: "as = [] \<or> length as < unat n" by auto
    have e: "\<exists>m1. iov_store ?m iov [] = Some m1 \<and> m1 = ?m"
      using in2 by (induction iov) auto
    show ?thesis
    proof (cases "as = []")
      case True
      then show ?thesis using e st b by simp
    next
      case nonempty: False
      with short have lt: "length as < unat n" by simp
      have "mem_store ?m (off + length as) (take (unat n - length as) bs)
          = mem_store m off (as @ take (unat n - length as) bs)"
      proof -
        let ?bs = "take (unat n - length as) bs"
        have "off + length as + length ?bs \<le> length m" using in1 lt by simp
        then show ?thesis
          using lt overwrite_overwrite [of off as ?bs m] by (simp add: add.assoc)
      qed
      then show ?thesis
        using e st b lt nonempty by (simp add: unat_minus_nat)
    qed
  qed
qed simp

lemma iov_store_empty: "iov_in m iov \<Longrightarrow> iov_store m iov [] = Some m"
  by (induction iov) auto


lemma readv_all_loop_ok:
  assumes law: "readv_law px todo intr" and fresh: "cause_code er = SUCCESS"
    and small: "unat tot < 9223372036854775808"
  shows "\<lbrakk>iov_in m iov; unat nread + iov_bytes iov = unat tot\<rbrakk> \<Longrightarrow>
    \<exists>ret m' w' er' bs. readv_all_loop px fp tot nread iov m w (Some er) = Some (ret, m', w', Some er') \<and>
      iov_store m iov bs = Some m' \<and> length bs \<le> iov_bytes iov \<and> todo w fp = bs @ todo w' fp \<and>
      (ret = ERR_IO \<and> cause_code er' = ERR_IO \<or>
       er' = er \<and> ret = int (unat nread + length bs) \<and> (length bs < iov_bytes iov \<longrightarrow> todo w' fp = []))"
proof (induction "iov_bytes iov + intr w" arbitrary: nread iov m w rule: less_induct)
  case less
  note st = iov_store_skip [OF less.prems(1)]
  show ?case
  proof (cases "nread < tot")
    case False
    then have "iov_bytes iov = 0" "unat nread = unat tot"
      using less.prems(2) by (auto simp: word_less_nat_alt)
    then show ?thesis
      using False small less.prems(1)
      by (subst readv_all_loop.simps) (auto simp: sint_small iov_store_empty intro!: exI [of _ "[]"])
  next
    case True
    then have some: "0 < iov_bytes iov" using less.prems(2) by (simp add: word_less_nat_alt)
    have tot: "sum_list (map unat (map snd iov)) = iov_bytes iov" by (simp add: iov_bytes_def comp_def)
    obtain r w1 where r: "px_readv px fp (map snd iov) w = (r, w1)" by (cases "px_readv px fp (map snd iov) w")
    note lw = law [unfolded readv_law_def, rule_format, OF r, unfolded tot]
    show ?thesis
    proof (cases r)
      case (Fail n)
      show ?thesis
      proof (cases "n = EINTR")
        case True
        then have "iov_bytes iov + intr w1 < iov_bytes iov + intr w" "todo w1 = todo w" using lw Fail by auto
        from less.hyps [OF this(1) less.prems] this(2) show ?thesis
          using r Fail True \<open>nread < tot\<close> by (subst readv_all_loop.simps) simp
      next
        case False
        then show ?thesis
          using lw r Fail True less.prems(1) io_cause_fresh [OF fresh, of "''readv: '' @ px_strerror px n"]
          by (subst readv_all_loop.simps) (auto simp: iov_store_empty intro!: exI [of _ "[]"])
      qed
    next
      case (Ret as)
      have as: "length as \<le> iov_bytes iov" "todo w fp = as @ todo w1 fp" "as = [] \<Longrightarrow> todo w fp = []"
        "intr w1 \<le> intr w"
        using lw Ret some by auto
      show ?thesis
      proof (cases "as = []")
        case True
        then show ?thesis
          using as r Ret \<open>nread < tot\<close> less.prems small
          by (subst readv_all_loop.simps)
             (auto simp: sint_small word_less_nat_alt iov_store_empty intro!: exI [of _ "[]"])
      next
        case False
        from st [OF as(1)] obtain m1 where m1: "iov_store m iov as = Some m1" "length m1 = length m"
          and app: "\<And>bs. length as + length bs \<le> iov_bytes iov \<Longrightarrow>
            iov_store m1 (iov_skip (length as) iov) bs = iov_store m iov (as @ bs)"
          by (metis option.inject)
        let ?iov = "iov_skip (length as) iov" and ?nread = "nread + word_of_nat (length as)"
        have nr: "unat ?nread = unat nread + length as"
          by (rule u64_count [of _ _ tot]) (use as(1) less.prems(2) in simp)
        have in1: "iov_in m1 ?iov" using iov_skip_in [OF less.prems(1)] iov_in_length [OF m1(2)] by blast
        have len: "iov_bytes ?iov = iov_bytes iov - length as" by (rule iov_skip_bytes [OF as(1)])
        have dec: "iov_bytes ?iov + intr w1 < iov_bytes iov + intr w"
          using len as(1,4) False by (cases as) auto
        have cnt: "unat ?nread + iov_bytes ?iov = unat tot" using nr len as(1) less.prems(2) by simp
        have step: "readv_all_loop px fp tot nread iov m w (Some er)
            = readv_all_loop px fp tot ?nread ?iov m1 w1 (Some er)"
          using r Ret True False m1(1) by (subst readv_all_loop.simps) simp
        from less.hyps [OF dec in1 cnt] obtain ret m' w' er' bs where
          ih: "readv_all_loop px fp tot ?nread ?iov m1 w1 (Some er) = Some (ret, m', w', Some er')"
            "iov_store m1 ?iov bs = Some m'" "length bs \<le> iov_bytes ?iov" "todo w1 fp = bs @ todo w' fp"
            "ret = ERR_IO \<and> cause_code er' = ERR_IO \<or>
             er' = er \<and> ret = int (unat ?nread + length bs) \<and> (length bs < iov_bytes ?iov \<longrightarrow> todo w' fp = [])"
          by (elim exE conjE)
        have "length as + length bs \<le> iov_bytes iov" using ih(3) len as(1) by simp
        then show ?thesis
          using step ih as len nr app by (intro exI [of _ ret] exI [of _ m'] exI [of _ w'] exI [of _ er'] exI [of _ "as @ bs"]) auto
      qed
    qed
  qed
qed

lemma writev_all_loop_ok:
  assumes law: "writev_law px sent intr" and fresh: "cause_code er = SUCCESS"
  shows "\<lbrakk>iov_load m iov = Some bss; length (concat bss) = iov_bytes iov; iov_in m iov;
      unat nw + iov_bytes iov = unat tot\<rbrakk> \<Longrightarrow>
    \<exists>ret w' er' k. writev_all_loop px fp m tot nw iov w (Some er) = Some (ret, w', Some er') \<and>
      sent w' fp = sent w fp @ take k (concat bss) \<and>
      (ret = ERR_IO \<and> cause_code er' = ERR_IO \<or> er' = er \<and> ret = SUCCESS \<and> k = iov_bytes iov)"
proof (induction "iov_bytes iov + intr w" arbitrary: nw iov bss w rule: less_induct)
  case less
  show ?case
  proof (cases "nw < tot")
    case False
    then have "iov_bytes iov = 0" "nw = tot"
      using less.prems(4) by (auto simp: word_less_nat_alt word_unat_eq_iff)
    then show ?thesis
      by (subst writev_all_loop.simps) (auto intro!: exI [of _ 0])
  next
    case True
    then have "0 < length (concat bss)" using less.prems(2,4) by (simp add: word_less_nat_alt)
    then have some: "concat bss \<noteq> []" by (rule length_greater_0_conv [THEN iffD1])
    obtain r w1 where r: "px_writev px fp bss w = (r, w1)" by (cases "px_writev px fp bss w")
    note lw = law [unfolded writev_law_def, rule_format, OF r]
    show ?thesis
    proof (cases r)
      case (Fail n)
      show ?thesis
      proof (cases "n = EINTR")
        case True
        then have "iov_bytes iov + intr w1 < iov_bytes iov + intr w" "sent w1 = sent w" using lw Fail by auto
        from less.hyps [OF this(1) less.prems] this(2) show ?thesis
          using r Fail True \<open>nw < tot\<close> less.prems(1) by (subst writev_all_loop.simps) simp
      next
        case False
        obtain er' where er': "io_cause (Some er) (''writev: '' @ px_strerror px n) = (ERR_IO, Some er')"
          "cause_code er' = ERR_IO" using io_cause_fresh [OF fresh] by blast
        have "writev_all_loop px fp m tot nw iov w (Some er) = Some (ERR_IO, w1, Some er')"
          using r Fail True False less.prems(1) er'(1) by (subst writev_all_loop.simps) simp
        moreover have "sent w1 fp = sent w fp @ take 0 (concat bss)" using lw Fail by simp
        ultimately show ?thesis using er'(2) by blast
      qed
    next
      case (Ret k)
      have k: "k \<le> iov_bytes iov" "0 < k" "sent w1 fp = sent w fp @ take k (concat bss)" "intr w1 \<le> intr w"
        using lw Ret some less.prems(2) by auto
      let ?iov = "iov_skip k iov" and ?nw = "nw + word_of_nat k"
      from iov_load_skip [OF less.prems(3,1) k(1)] obtain bss' where
        bss': "iov_load m ?iov = Some bss'" "concat bss' = drop k (concat bss)" by blast
      have len: "iov_bytes ?iov = iov_bytes iov - k" by (rule iov_skip_bytes [OF k(1)])
      have nw: "unat ?nw = unat nw + k"
        by (rule u64_count [of _ _ tot]) (use k(1) less.prems(4) in simp)
      have dec: "iov_bytes ?iov + intr w1 < iov_bytes iov + intr w" using len k by simp
      have lb: "length (concat bss') = iov_bytes ?iov" using bss'(2) len less.prems(2) by simp
      have cnt: "unat ?nw + iov_bytes ?iov = unat tot" using nw len k(1) less.prems(4) by simp
      have step: "writev_all_loop px fp m tot nw iov w (Some er)
          = writev_all_loop px fp m tot ?nw ?iov w1 (Some er)"
        using r Ret True k(2) less.prems(1) by (subst writev_all_loop.simps) simp
      from less.hyps [OF dec bss'(1) lb iov_skip_in [OF less.prems(3)] cnt] obtain ret w' er' j where
        ih: "writev_all_loop px fp m tot ?nw ?iov w1 (Some er) = Some (ret, w', Some er')"
          "sent w' fp = sent w1 fp @ take j (concat bss')"
          "ret = ERR_IO \<and> cause_code er' = ERR_IO \<or> er' = er \<and> ret = SUCCESS \<and> j = iov_bytes ?iov"
        by (elim exE conjE)
      have "take k (concat bss) @ take j (concat bss') = take (k + j) (concat bss)"
        unfolding bss'(2) by (simp add: take_add)
      then show ?thesis
        using step ih k len by (intro exI [of _ ret] exI [of _ w'] exI [of _ er'] exI [of _ "k + j"]) auto
    qed
  qed
qed

section \<open>A file in memory\<close>

text \<open>
  System calls that satisfy the laws: transfers of at most three bytes, and \<open>mf_intr\<close> interrupts
  of the vectored calls still to come.
\<close>

record mem_file =
  mf_data :: "fd \<Rightarrow> u8 list"
  mf_todo :: "fd \<Rightarrow> u8 list"
  mf_sent :: "fd \<Rightarrow> u8 list"
  mf_intr :: nat

definition no_call :: "'w \<Rightarrow> 'a sysret \<times> 'w" where
  "no_call w = (Fail (Eother 38), w)"

definition mem_posix :: "mem_file posix" where
  "mem_posix = \<lparr>
     px_strerror = (\<lambda>_. ''error''), px_isopen = (\<lambda>_ _. True),
     px_open = (\<lambda>_ _ w. (Ret 3, w)), px_close = (\<lambda>_ w. (Ret (), w)), px_fsync = (\<lambda>_ w. (Ret (), w)),
     px_pread = (\<lambda>fp n off w. (Ret (take (min 3 (unat n)) (drop (unat off) (mf_data w fp))), w)),
     px_pwrite = (\<lambda>fp bs off w. (Ret (min 3 (length bs)),
        w\<lparr>mf_data := (mf_data w)(fp := file_write (mf_data w fp) (unat off) (take (min 3 (length bs)) bs))\<rparr>)),
     px_read = (\<lambda>_ _. no_call), px_write = (\<lambda>_ _. no_call),
     px_readv = (\<lambda>fp ns w.
        if 0 < mf_intr w then (Fail EINTR, w\<lparr>mf_intr := mf_intr w - 1\<rparr>)
        else (let n = min 3 (sum_list (map unat ns)) in
          (Ret (take n (mf_todo w fp)), w\<lparr>mf_todo := (mf_todo w)(fp := drop n (mf_todo w fp))\<rparr>))),
     px_writev = (\<lambda>fp bss w.
        if 0 < mf_intr w then (Fail EINTR, w\<lparr>mf_intr := mf_intr w - 1\<rparr>)
        else (let n = min 3 (length (concat bss)) in
          (Ret n, w\<lparr>mf_sent := (mf_sent w)(fp := mf_sent w fp @ take n (concat bss))\<rparr>))),
     px_ftruncate = (\<lambda>_ _. no_call), px_fallocate = (\<lambda>_ _. no_call), px_fstat_size = (\<lambda>_. no_call),
     px_remove = (\<lambda>_. no_call), px_mkstemp = (\<lambda>_. no_call), px_unlink = (\<lambda>_. no_call),
     px_mkdir = (\<lambda>_. no_call), px_rmdir = (\<lambda>_. no_call), px_stat = (\<lambda>_. no_call),
     px_opendir = (\<lambda>_. no_call), px_readdir = (\<lambda>_ w. (None, w)), px_closedir = (\<lambda>_ w. w),
     px_lseek = (\<lambda>_ _ _. no_call), px_access = (\<lambda>_. no_call)\<rparr>"

lemma mem_posix_laws:
  "pread_law mem_posix mf_data mf_intr" "pwrite_law mem_posix mf_data mf_intr"
  "readv_law mem_posix mf_todo mf_intr" "writev_law mem_posix mf_sent mf_intr"
proof -
  show "pread_law mem_posix mf_data mf_intr"
    by (auto simp: pread_law_def mem_posix_def min_def word_less_nat_alt)
  show "pwrite_law mem_posix mf_data mf_intr"
    by (auto simp: pwrite_law_def mem_posix_def)
  show "readv_law mem_posix mf_todo mf_intr"
    by (auto simp: readv_law_def mem_posix_def Let_def split: if_splits)
  show "writev_law mem_posix mf_sent mf_intr"
    unfolding writev_law_def mem_posix_def by (auto simp: Let_def min_def neq_Nil_conv split: if_splits)
qed

section \<open>Properties\<close>

lemma error_trace_cause: "cause_code er < 0 \<Longrightarrow> error_trace (Some er) = Some (cause_code er)"
  by (simp add: error_trace_def error_causef_def)

text \<open>
  C24. A file keeps what is written to it. However short the transfers of the system are,
  \<open>i_pwrite_all\<close> of \<open>n\<close> bytes at \<open>off\<close> either reports \<open>ERR_IO\<close> with its cause recorded, or
  succeeds, and then \<open>i_pread_all_expect\<close> of the same range either reports \<open>ERR_IO\<close> or succeeds
  with exactly those bytes in the first \<open>n\<close> places of its destination and the rest of the
  destination unchanged. No short read is possible. Interrupts are part of this: the code
  takes one from its count and transfers the last byte again, which does no harm, unless
  nothing was transferred yet; then the count wraps and an assertion ends the process. That
  is the outcome \<open>None\<close>, and it needs an interrupt.
\<close>

theorem file_round_trip:
  assumes "pread_law px cont intr" and "pwrite_law px cont intr" and "\<And>w. px_isopen px fp w"
    and "cause_code er = SUCCESS" and "0 < n"
    and "unat off + unat n < 18446744073709551616" and "unat n < 9223372036854775808"
    and "unat n \<le> length src" and "unat n \<le> length dest"
  shows "i_pwrite_all px fp src n off w (Some er) = None \<and> 0 < intr w \<or>
    (\<exists>ret w1 er1. i_pwrite_all px fp src n off w (Some er) = Some (ret, w1, Some er1) \<and>
     (ret = ERR_IO \<and> cause_code er1 = ERR_IO \<or>
      ret = SUCCESS \<and> er1 = er \<and>
      (i_pread_all_expect px fp dest n off w1 (Some er1) = None \<and> 0 < intr w1 \<or>
       (\<exists>ret2 dest' w2 er2. i_pread_all_expect px fp dest n off w1 (Some er1) = Some (ret2, dest', w2, Some er2) \<and>
        (ret2 = ERR_IO \<and> cause_code er2 = ERR_IO \<or>
         ret2 = SUCCESS \<and> er2 = er \<and> dest' = take (unat n) src @ drop (unat n) dest)))))"
proof (cases "i_pwrite_all px fp src n off w (Some er)")
  case None
  then show ?thesis
    using i_pwrite_all_ok [OF assms(2,4,6,7,8) assms(3,5), of w] by (simp add: write_outcome_def)
next
  case (Some x)
  then obtain ret w1 er1 where wr: "i_pwrite_all px fp src n off w (Some er) = Some (ret, w1, Some er1)"
    "ret = ERR_IO \<and> cause_code er1 = ERR_IO \<or>
     ret = SUCCESS \<and> er1 = er \<and> cont w1 fp = file_write (cont w fp) (unat off) (take (unat n) src)"
    using i_pwrite_all_ok [OF assms(2,4,6,7,8) assms(3,5), of w] unfolding write_outcome_def by fastforce
  show ?thesis
  proof (cases "ret = ERR_IO \<and> cause_code er1 = ERR_IO")
    case True
    then show ?thesis using wr(1) by blast
  next
    case False
    with wr(2) have ok: "ret = SUCCESS" "er1 = er"
      and c: "cont w1 fp = file_write (cont w fp) (unat off) (take (unat n) src)" by blast+
    have len: "length (take (unat n) src) = unat n" using assms(8) by simp
    have data: "take (unat n) (drop (unat off) (cont w1 fp)) = take (unat n) src"
      unfolding c using read_back [of "take (unat n) src"] len by simp
    have "i_pread_all_expect px fp dest n off w1 (Some er) = None \<and> 0 < intr w1 \<or>
       (\<exists>ret2 dest' w2 er2. i_pread_all_expect px fp dest n off w1 (Some er) = Some (ret2, dest', w2, Some er2) \<and>
        (ret2 = ERR_IO \<and> cause_code er2 = ERR_IO \<or>
         ret2 = SUCCESS \<and> er2 = er \<and> dest' = take (unat n) src @ drop (unat n) dest))"
      using i_pread_all_ok [OF assms(1,4,6,7,9) assms(3,5), of w1] len
      unfolding read_outcome_def data
      by (auto simp: i_pread_all_expect_def error_trace_cause overwrite_def ERR_IO_def)
    then show ?thesis using wr(1) ok by blast
  qed
qed

theorem file_round_trip_witness:
  "\<exists>ret w1 er1. i_pwrite_all mem_posix 3 [1, 2, 3, 4, 5] 5 7 \<lparr>mf_data = (\<lambda>_. [9]), mf_todo = (\<lambda>_. []), mf_sent = (\<lambda>_. []), mf_intr = 0\<rparr>
      (Some error_create) = Some (ret, w1, Some er1) \<and> ret \<in> {ERR_IO, SUCCESS}"
  using file_round_trip [OF mem_posix_laws(1,2), of 3 error_create 5 7 "[1, 2, 3, 4, 5]" "[0, 0, 0, 0, 0, 0]"
      "\<lparr>mf_data = (\<lambda>_. [9]), mf_todo = (\<lambda>_. []), mf_sent = (\<lambda>_. []), mf_intr = 0\<rparr>"]
  by (auto simp: mem_posix_def error_create_def)

text \<open>
  An interrupted transfer aborts. Where \<open>pread\<close>, \<open>pwrite\<close> or \<open>write\<close> is interrupted by a signal before it
  moved anything, \<open>i_pread_all\<close>, \<open>i_pwrite_all\<close> and \<open>i_write_all\<close> add the -1 to their unsigned count
  instead of calling again: the count exceeds the length and the assertion behind the loop fails. (The vectored
  \<open>i_readv_all\<close> does call again: \<open>readv_all_loop_ok\<close>.)
\<close>

theorem file_interrupt_aborts:
  assumes "px_pread px fp n off w = (Fail EINTR, w')"
    and "px_pwrite px fp (take (unat n) src) off w = (Fail EINTR, w')"
    and "px_write px fp (take (unat n) src) w = (Fail EINTR, w')" and "n \<noteq> - 1"
  shows "i_pread_all px fp dest n off w e = None \<and> i_pwrite_all px fp src n off w e = None \<and>
    i_write_all px fp src n w e = None"
  using assms
  by (auto simp: i_pread_all_def i_pwrite_all_def i_write_all_def i_file_dbg_def word_gt_0 not_less mem_load_def
      pread_all_loop.simps [of px fp n off 0] pread_all_loop.simps [of px fp n off "- 1"]
      pwrite_all_loop.simps [of px fp n off 0] pwrite_all_loop.simps [of px fp n off "- 1"]
      write_all_loop.simps [of px fp n 0] write_all_loop.simps [of px fp n "- 1"])

definition mem_demo :: mem_file where
  "mem_demo = \<lparr>mf_data = (\<lambda>_. [9]), mf_todo = (\<lambda>_. [1, 2, 3, 4, 5, 6, 7]), mf_sent = (\<lambda>_. []), mf_intr = 1\<rparr>"

theorem file_interrupt_aborts_witness:
  "i_pread_all (mem_posix\<lparr>px_pread := \<lambda>_ _ _ w. (Fail EINTR, w),
     px_pwrite := \<lambda>_ _ _ w. (Fail EINTR, w), px_write := \<lambda>_ _ w. (Fail EINTR, w)\<rparr>) 3 [0, 0] 2 7 mem_demo (Some error_create) = None"
  using file_interrupt_aborts [of "mem_posix\<lparr>px_pread := \<lambda>_ _ _ w. (Fail EINTR, w),
     px_pwrite := \<lambda>_ _ _ w. (Fail EINTR, w), px_write := \<lambda>_ _ w. (Fail EINTR, w)\<rparr>" 3 2 7 mem_demo mem_demo "[8, 8]"]
  by (simp add: mem_demo_def)

text \<open>
  A stream read that would block after some bytes have arrived reports 0, although they have left the stream and
  are in the destination.
\<close>

lemma i_read_all_loses_count:
  assumes "px_isopen px fp w" and "px_read px fp n w = (Ret bs, w1)" and "bs \<noteq> []" and "length bs < unat n"
    and "px_read px fp (n - word_of_nat (length bs)) w1 = (Fail EWOULDBLOCK, w2)" and "unat n \<le> length dest"
  shows "i_read_all px fp dest n w e = Some (0, overwrite dest 0 bs, w2, e)"
proof -
  have "unat (0 + word_of_nat (length bs) :: u64) = unat (0 :: u64) + length bs"
    by (rule u64_count [of _ _ n]) (use assms(4) in simp)
  then have c: "unat (word_of_nat (length bs) :: u64) = length bs" by simp
  have n: "0 < n" "word_of_nat (length bs) < n" using assms(4) c by (simp_all add: word_less_nat_alt)
  have st: "mem_store dest 0 bs = Some (overwrite dest 0 bs)" using assms(4,6) by simp
  have "read_all_loop px fp n 0 dest w e = read_all_loop px fp n (word_of_nat (length bs)) (overwrite dest 0 bs) w1 e"
    using assms(2,3) st n by (subst read_all_loop.simps) simp
  also have "\<dots> = Some (0, overwrite dest 0 bs, w2, e)"
    using assms(5) n by (subst read_all_loop.simps) simp
  finally show ?thesis using assms(1) n by (simp add: i_read_all_def i_file_dbg_def)
qed

end
