(* ===== verification/Cbuffer_file.thy ===== *)
theory Cbuffer_file
  imports Cbuffer_queue Posix_io
begin

text \<open>
  The transfers of \<^verbatim>\<open>ds/cbuffer.c\<close> between a circular buffer and a file. The free or the
  occupied bytes of the array are at most two contiguous pieces, handed to the vectored calls of
  the file layer; each transfer has a first half that calls the system and a second that moves
  the cursor. Proved: what a read moves from the file it appends to the buffer's byte sequence,
  and what a write moves to the file leaves the sequence, whatever the transfer sizes of the system.
\<close>

section \<open>Reading from a file\<close>

text \<open>The next free piece from \<open>newhead\<close> on.\<close>

definition read_piece :: "cbuffer \<Rightarrow> u32 \<Rightarrow> u32 \<Rightarrow> u32 option" where
  "read_piece b newhead left =
     (if cb_tail b \<le> newhead then do {
        ASSERT (newhead < cb_cap b);
        Some (min (cb_cap b - newhead) left)
      } else do {
        ASSERT (newhead < cb_tail b);
        Some (min (cb_tail b - newhead) left)
      })"

function (sequential) read_iov_loop ::
  "cbuffer \<Rightarrow> u32 \<Rightarrow> u32 \<Rightarrow> u32 \<Rightarrow> iobytes list \<Rightarrow> iobytes list option" where
  "read_iov_loop b btowrite bwrite newhead iov =
     (if bwrite < btowrite then
        (case read_piece b newhead (btowrite - bwrite) of
           None \<Rightarrow> None
         | Some nxt \<Rightarrow>
             if length iov < 2
             then read_iov_loop b btowrite (bwrite + nxt) ((newhead + nxt) mod cb_cap b) (iov @ [(unat newhead, nxt)])
             else None)
      else Some iov)"
  by pat_completeness auto
termination by (relation "measure (\<lambda>(b, t, k, h, iov). 2 - length iov)") auto

declare read_iov_loop.simps [simp del]

definition cbuffer_read_from_file_1 ::
  "'w posix \<Rightarrow> fd \<Rightarrow> cbuffer \<Rightarrow> u32 \<Rightarrow> 'w \<Rightarrow> errp \<Rightarrow> (int \<times> cbuffer \<times> 'w \<times> errp) option" where
  "cbuffer_read_from_file_1 px src b len w e = do {
     avail \<leftarrow> cbuffer_avail b;
     let btowrite = min avail len;
     iov \<leftarrow> read_iov_loop b btowrite 0 (cb_head b) [];
     if btowrite = 0 then Some (0, b, w, e)
     else do {
       (nread, d, w, e) \<leftarrow> i_readv_all px src (cb_data b) iov w e;
       let b = b\<lparr>cb_data := d\<rparr>;
       if nread < 0 then do { c \<leftarrow> error_trace e; Some (c, b, w, e) }
       else Some (as_i32 nread, b, w, e)
     }
   }"

definition cbuffer_read_from_file_1_expect ::
  "'w posix \<Rightarrow> fd \<Rightarrow> cbuffer \<Rightarrow> u32 \<Rightarrow> 'w \<Rightarrow> errp \<Rightarrow> (int \<times> cbuffer \<times> 'w \<times> errp) option" where
  "cbuffer_read_from_file_1_expect px src b len w e = do {
     (rd, b, w, e) \<leftarrow> cbuffer_read_from_file_1 px src b len w e;
     if rd < 0 then Some (rd, b, w, e)
     else do {
       ASSERT (word_of_int rd = len);
       Some (SUCCESS, b, w, e)
     }
   }"

definition cbuffer_read_from_file_2 :: "cbuffer \<Rightarrow> u32 \<Rightarrow> cbuffer option" where
  "cbuffer_read_from_file_2 b nread = do {
     ASSERT (cbuffer_dbg b);
     avail \<leftarrow> cbuffer_avail b;
     ASSERT (nread \<le> avail);
     let b = b\<lparr>cb_head := (cb_head b + nread) mod cb_cap b\<rparr>;
     Some (if cb_head b = cb_tail b \<and> nread > 0 then b\<lparr>cb_isfull := True\<rparr> else b)
   }"

definition cbuffer_read_from_file ::
  "'w posix \<Rightarrow> fd \<Rightarrow> cbuffer \<Rightarrow> u32 \<Rightarrow> 'w \<Rightarrow> errp \<Rightarrow> (int \<times> cbuffer \<times> 'w \<times> errp) option" where
  "cbuffer_read_from_file px src b len w e = do {
     ASSERT (cbuffer_dbg b);
     (nread, b, w, e) \<leftarrow> cbuffer_read_from_file_1 px src b len w e;
     if nread < 0 then Some (nread, b, w, e)
     else do {
       b \<leftarrow> cbuffer_read_from_file_2 b (word_of_int nread);
       Some (nread, b, w, e)
     }
   }"

section \<open>Writing to a file\<close>

definition write_piece :: "cbuffer \<Rightarrow> u32 \<Rightarrow> u32 \<Rightarrow> u32" where
  "write_piece b newtail left =
     (if \<not> cb_isfull b \<and> newtail < cb_head b then min (cb_head b - newtail) left
      else min (cb_cap b - newtail) left)"

function (sequential) write_iov_loop ::
  "cbuffer \<Rightarrow> u32 \<Rightarrow> u32 \<Rightarrow> u32 \<Rightarrow> iobytes list \<Rightarrow> iobytes list option" where
  "write_iov_loop b btoread bread newtail iov =
     (if bread < btoread then
        (let nxt = write_piece b newtail (btoread - bread) in
         if length iov < 2
         then write_iov_loop b btoread (bread + nxt) ((newtail + nxt) mod cb_cap b) (iov @ [(unat newtail, nxt)])
         else None)
      else Some iov)"
  by pat_completeness auto
termination by (relation "measure (\<lambda>(b, t, k, h, iov). 2 - length iov)") auto

declare write_iov_loop.simps [simp del]

definition cbuffer_write_to_file_1 ::
  "'w posix \<Rightarrow> fd \<Rightarrow> cbuffer \<Rightarrow> u32 \<Rightarrow> 'w \<Rightarrow> errp \<Rightarrow> (int \<times> 'w \<times> errp) option" where
  "cbuffer_write_to_file_1 px dest b len w e = do {
     let btoread = min (cbuffer_len b) len;
     iov \<leftarrow> write_iov_loop b btoread 0 (cb_tail b) [];
     if btoread = 0 then Some (0, w, e)
     else do {
       (err, w, e) \<leftarrow> i_writev_all px dest (cb_data b) iov w e;
       if err \<noteq> SUCCESS then do { c \<leftarrow> error_trace e; Some (c, w, e) }
       else Some (as_i32 (uint btoread), w, e)
     }
   }"

definition cbuffer_write_to_file_1_expect ::
  "'w posix \<Rightarrow> fd \<Rightarrow> cbuffer \<Rightarrow> u32 \<Rightarrow> 'w \<Rightarrow> errp \<Rightarrow> (int \<times> 'w \<times> errp) option" where
  "cbuffer_write_to_file_1_expect px dest b len w e = do {
     (written, w, e) \<leftarrow> cbuffer_write_to_file_1 px dest b len w e;
     if written < 0 then Some (written, w, e)
     else do {
       ASSERT (word_of_int written = len);
       Some (SUCCESS, w, e)
     }
   }"

definition cbuffer_write_to_file_2 :: "cbuffer \<Rightarrow> u32 \<Rightarrow> cbuffer option" where
  "cbuffer_write_to_file_2 b nwritten = do {
     ASSERT (cbuffer_dbg b);
     ASSERT (nwritten \<le> cbuffer_len b);
     let b = b\<lparr>cb_tail := (cb_tail b + nwritten) mod cb_cap b\<rparr>;
     Some (if nwritten > 0 then b\<lparr>cb_isfull := False\<rparr> else b)
   }"

definition cbuffer_write_to_file ::
  "'w posix \<Rightarrow> fd \<Rightarrow> cbuffer \<Rightarrow> u32 \<Rightarrow> 'w \<Rightarrow> errp \<Rightarrow> (int \<times> cbuffer \<times> 'w \<times> errp) option" where
  "cbuffer_write_to_file px dest b len w e = do {
     ASSERT (cbuffer_dbg b);
     (result, w, e) \<leftarrow> cbuffer_write_to_file_1 px dest b len w e;
     if result < 0 then Some (result, b, w, e)
     else do {
       b \<leftarrow> cbuffer_write_to_file_2 b (word_of_int result);
       Some (result, b, w, e)
     }
   }"

section \<open>The vectored calls on a vector of bytes\<close>

lemma iov_total_bytes: "iov_bytes iov < 18446744073709551616 \<Longrightarrow> unat (iov_total iov) = iov_bytes iov"
proof -
  have "unat a + iov_bytes iov < 18446744073709551616 \<Longrightarrow>
    unat (foldl (\<lambda>tot b. tot + ucast (snd b)) (a :: u64) iov) = unat a + iov_bytes iov" for a
  proof (induction iov arbitrary: a)
    case (Cons b iov)
    obtain off n where b: "b = (off, n)" by (cases b)
    have "unat n < 2 ^ 64" by (rule less_trans [OF u32_less_bound]) simp
    then have u: "unat (ucast n :: u64) = unat n" by (simp add: unsigned_ucast_eq take_bit_nat_eq_self del: power_numeral)
    have a: "unat (a + ucast n) = unat a + unat n"
      using Cons.prems b u by (subst u64_add_nat) simp_all
    show ?case using Cons.IH [of "a + ucast n"] Cons.prems b a by simp
  qed simp
  from this [of 0] show "iov_bytes iov < 18446744073709551616 \<Longrightarrow> unat (iov_total iov) = iov_bytes iov"
    by (simp add: iov_total_def)
qed

definition iov_ready :: "u8 list \<Rightarrow> iobytes list \<Rightarrow> bool" where
  "iov_ready m iov \<longleftrightarrow> iov_in m iov \<and> iov \<noteq> [] \<and> length iov \<le> 2 \<and> 0 < iov_bytes iov \<and> iov_bytes iov < 9223372036854775808"

lemma i_readv_all_ok:
  assumes law: "readv_law px todo intr" and fresh: "cause_code er = SUCCESS" and "px_isopen px fp w"
    and iov: "iov_ready m iov"
  shows "\<exists>ret m' w' er' bs. i_readv_all px fp m iov w (Some er) = Some (ret, m', w', Some er') \<and>
      iov_store m iov bs = Some m' \<and> length bs \<le> iov_bytes iov \<and> todo w fp = bs @ todo w' fp \<and>
      (ret = ERR_IO \<and> cause_code er' = ERR_IO \<or>
       er' = er \<and> ret = int (length bs) \<and> (length bs < iov_bytes iov \<longrightarrow> todo w' fp = []))"
proof -
  have t: "unat (iov_total iov) = iov_bytes iov" using iov by (intro iov_total_bytes) (simp add: iov_ready_def)
  have "0 < iov_total iov" "unat (iov_total iov) < 9223372036854775808"
    using t iov by (simp_all add: iov_ready_def word_less_nat_alt)
  moreover have "iov_in m iov" "unat (0 :: u64) + iov_bytes iov = unat (iov_total iov)"
    using iov t by (simp_all add: iov_ready_def)
  note readv_all_loop_ok [OF law fresh calculation(2) this, where w = w and fp = fp]
  ultimately show ?thesis using assms(3) iov t
    by (simp add: i_readv_all_def i_file_dbg_def iov_ready_def)
qed

lemma i_writev_all_ok:
  assumes law: "writev_law px sent intr" and fresh: "cause_code er = SUCCESS" and "px_isopen px fp w"
    and iov: "iov_ready m iov" and ld: "iov_load m iov = Some bss"
  shows "\<exists>ret w' er' k. i_writev_all px fp m iov w (Some er) = Some (ret, w', Some er') \<and>
      sent w' fp = sent w fp @ take k (concat bss) \<and>
      (ret = ERR_IO \<and> cause_code er' = ERR_IO \<or> er' = er \<and> ret = SUCCESS \<and> k = iov_bytes iov)"
proof -
  have t: "unat (iov_total iov) = iov_bytes iov" using iov by (intro iov_total_bytes) (simp add: iov_ready_def)
  have pos: "0 < iov_total iov" using t iov by (simp add: iov_ready_def word_less_nat_alt)
  have "length (concat bss) = iov_bytes iov"
    using iov_load_ok [of m iov] iov ld by (auto simp: iov_ready_def)
  moreover have "iov_in m iov" "unat (0 :: u64) + iov_bytes iov = unat (iov_total iov)"
    using iov t by (simp_all add: iov_ready_def)
  note writev_all_loop_ok [OF law fresh ld calculation this, where w = w and fp = fp]
  ultimately show ?thesis using assms(3) iov t pos
    by (simp add: i_writev_all_def i_file_dbg_def iov_ready_def)
qed

section \<open>The pieces of a buffer\<close>

lemma read_iov_ok:
  assumes b: "cbuffer_wf b" and n: "0 < unat n" "unat (cbuffer_len b) + unat n \<le> unat (cb_cap b)"
  shows "\<exists>iov. read_iov_loop b n 0 (cb_head b) [] = Some iov \<and> iov_ready (cb_data b) iov \<and> iov_bytes iov = unat n \<and>
    (\<forall>bs d. length bs \<le> unat n \<longrightarrow> iov_store (cb_data b) iov bs = Some d \<longrightarrow>
       length d = unat (cb_cap b) \<and>
       ring d (unat (cb_tail b)) (unat (cbuffer_len b) + length bs) = cb_bytes b @ bs)"
proof -
  let ?c = "unat (cb_cap b)" and ?h = "unat (cb_head b)" and ?t = "unat (cb_tail b)" and ?l = "unat (cbuffer_len b)"
  have C: "?h < ?c" "?t < ?c" "length (cb_data b) = ?c" using b by (auto simp: cbuffer_wf_nat)
  note hr = cb_head_ring [OF b]
  have small: "unat n < 9223372036854775808" using u32_less_bound [of n] by linarith
  define f where "f = min (if cb_tail b \<le> cb_head b then cb_cap b - cb_head b else cb_tail b - cb_head b) n"
  have uf: "unat f = min (if ?t \<le> ?h then ?c - ?h else ?t - ?h) (unat n)"
    using C by (simp add: f_def wnat)
  have pick: "read_piece b (cb_head b) n = Some f"
    using C by (auto simp: read_piece_def f_def wnat)
  have f: "0 < unat f" "unat f \<le> unat n" "?h + unat f \<le> ?c" using C n uf by (auto simp: min_def)
  have one: "length d = ?c \<and> ring d ?t (?l + length bs) = cb_bytes b @ bs"
    if "length bs \<le> unat f" "d = overwrite (cb_data b) ?h bs" for bs d
    using ring_append [of ?h ?t ?l "cb_data b" bs] that hr C f n by (simp add: cb_bytes_def)
  show ?thesis
  proof (cases "unat f = unat n")
    case True
    then have fn: "f = n" by (simp add: word_unat_eq_iff)
    then have 1: "read_iov_loop b n 0 (cb_head b) [] = Some [(?h, n)]"
      using pick n by (simp add: read_iov_loop.simps [of b n 0] read_iov_loop.simps [of b n n] word_less_nat_alt)
    have 2: "iov_ready (cb_data b) [(?h, n)]"
      using C f n small by (simp add: iov_ready_def fn)
    have 3: "length d = ?c \<and> ring d ?t (?l + length bs) = cb_bytes b @ bs"
      if "length bs \<le> unat n" "iov_store (cb_data b) [(?h, n)] bs = Some d" for bs d
      by (rule one) (use that C f True in \<open>auto simp: mem_store_Some split: bind_splits if_splits\<close>)
    have 4: "iov_bytes [(?h, n)] = unat n" by simp
    show ?thesis using 1 2 3 4 by blast
  next
    case False
    with f have lt: "unat f < unat n" by simp
    have th: "?t \<le> ?h"
    proof (rule ccontr)
      assume h: "\<not> ?t \<le> ?h"
      then have "\<not> cb_isfull b" using b by (auto simp: cbuffer_wf_nat)
      then have "?l = ?c - (?t - ?h)" using h cbuffer_len_nat [OF b] by simp
      then have "unat n \<le> ?t - ?h" using n C by linarith
      then show False using uf h lt by simp
    qed
    then have "unat f = ?c - ?h" using uf lt by (simp add: min_def split: if_splits)
    then have wrap: "?h + unat f = ?c" "?t \<le> ?h" using C th by simp_all
    have z: "(cb_head b + f) mod cb_cap b = 0"
    proof -
      have "unat (cb_head b + f) = ?c" using wrap(1) u32_less_bound [of "cb_cap b"] by (subst u32_add_nat) simp_all
      then have "cb_head b + f = cb_cap b" by (simp add: word_unat_eq_iff)
      then show ?thesis by simp
    qed
    have rest: "unat (n - f) = unat n - unat f" using lt by simp
    have room: "unat n - unat f \<le> ?t" using n wrap C cbuffer_len_nat [OF b] by (auto split: if_splits)
    have pick2: "read_piece b 0 (n - f) = Some (n - f)"
    proof -
      have "n - f \<le> cb_tail b" "0 < cb_tail b"
        using room lt rest by (simp_all add: word_le_nat_alt word_less_nat_alt)
      then show ?thesis by (auto simp: read_piece_def min_absorb2 not_le)
    qed
    have l1: "read_iov_loop b n 0 (cb_head b) [] = Some [(?h, f), (0, n - f)]"
      using pick pick2 n lt z
      by (simp add: read_iov_loop.simps [of b n 0] read_iov_loop.simps [of b n f] read_iov_loop.simps [of b n n]
          word_less_nat_alt)
    have l2: "iov_ready (cb_data b) [(?h, f), (0, n - f)]"
      using C f n room small rest by (simp add: iov_ready_def)
    have l3: "length d = ?c \<and> ring d ?t (?l + length bs) = cb_bytes b @ bs"
      if bs: "length bs \<le> unat n" "iov_store (cb_data b) [(?h, f), (0, n - f)] bs = Some d" for bs d
    proof -
      let ?as = "take (unat f) bs" and ?cs = "drop (unat f) bs"
      define d1 where "d1 = overwrite (cb_data b) ?h ?as"
      have d: "d = overwrite d1 0 ?cs"
        using bs C f rest by (auto simp: d1_def mem_store_Some split: bind_splits if_splits)
      have 1: "length d1 = ?c" "ring d1 ?t (?l + length ?as) = cb_bytes b @ ?as"
        using one [of ?as d1] by (simp_all add: d1_def)
      show ?thesis
      proof (cases "?cs = []")
        case True
        then show ?thesis using d 1 by simp
      next
        case False
        then have la: "length ?as = unat f" by simp
        have "(?t + (?l + unat f)) mod ?c = ((?t + ?l) mod ?c + unat f) mod ?c"
          by (simp add: mod_add_left_eq add.assoc)
        also have "\<dots> = 0" using hr wrap by simp
        finally have "0 = (?t + (?l + length ?as)) mod length d1" using 1(1) la by simp
        from ring_append [OF this, of ?cs] show ?thesis
          using d 1 la bs(1) n room wrap(1) C by (simp add: add.assoc)
      qed
    qed
    have l4: "iov_bytes [(?h, f), (0, n - f)] = unat n" using rest lt by simp
    show ?thesis using l1 l2 l3 l4 by blast
  qed
qed


lemma iov_store_length: "iov_store m iov bs = Some d \<Longrightarrow> length d = length m"
  by (induction m iov bs rule: iov_store.induct) (auto simp: mem_store_Some split: bind_splits if_splits)

lemma write_iov_ok:
  assumes b: "cbuffer_wf b" and n: "0 < unat n" "unat n \<le> unat (cbuffer_len b)"
  shows "\<exists>iov bss. write_iov_loop b n 0 (cb_tail b) [] = Some iov \<and> iov_ready (cb_data b) iov \<and> iov_bytes iov = unat n \<and>
    iov_load (cb_data b) iov = Some bss \<and> concat bss = take (unat n) (cb_bytes b)"
proof -
  let ?c = "unat (cb_cap b)" and ?h = "unat (cb_head b)" and ?t = "unat (cb_tail b)" and ?l = "unat (cbuffer_len b)"
  have C: "?h < ?c" "?t < ?c" "length (cb_data b) = ?c" using b by (auto simp: cbuffer_wf_nat)
  have small: "unat n < 9223372036854775808" using u32_less_bound [of n] by linarith
  define f where "f = write_piece b (cb_tail b) n"
  have uf: "unat f = min (cb_run b) (unat n)"
    using C by (auto simp: f_def write_piece_def cb_run_def wnat)
  note run = cb_run [OF b]
  have f: "0 < unat f" "unat f \<le> unat n" "?t + unat f \<le> ?c" "unat f \<le> ?l"
    using uf run n by auto
  have ld: "mem_load (cb_data b) ?t (unat f) = Some (take (unat f) (cb_bytes b))"
    using f C cb_bytes_slice [OF b f(4,3)] by simp
  show ?thesis
  proof (cases "unat f = unat n")
    case True
    then have fn: "f = n" by (simp add: word_unat_eq_iff)
    have 1: "write_iov_loop b n 0 (cb_tail b) [] = Some [(?t, n)]"
      using f_def fn n
      by (simp add: write_iov_loop.simps [of b n 0] write_iov_loop.simps [of b n n] word_less_nat_alt Let_def)
    have 2: "iov_ready (cb_data b) [(?t, n)]" using C f n small by (simp add: iov_ready_def fn)
    have 3: "iov_load (cb_data b) [(?t, n)] = Some [take (unat n) (cb_bytes b)]"
      using ld fn by simp
    have 4: "iov_bytes [(?t, n)] = unat n" "concat [take (unat n) (cb_bytes b)] = take (unat n) (cb_bytes b)"
      by simp_all
    show ?thesis using 1 2 3 4 by blast
  next
    case False
    with f have lt: "unat f < unat n" by simp
    then have wrap: "?t + unat f = ?c" using uf n C cbuffer_len_nat [OF b] by (auto simp: cb_run_def split: if_splits)
    have z: "(cb_tail b + f) mod cb_cap b = 0"
    proof -
      have "unat (cb_tail b + f) = ?c" using wrap u32_less_bound [of "cb_cap b"] by (subst u32_add_nat) simp_all
      then have "cb_tail b + f = cb_cap b" by (simp add: word_unat_eq_iff)
      then show ?thesis by simp
    qed
    have rest: "unat (n - f) = unat n - unat f" using lt by simp
    have len: "unat n \<le> ?c" using n(2) cbuffer_len_le [OF b] by linarith
    have room: "cb_isfull b \<or> unat n - unat f \<le> ?h" using n wrap C cbuffer_len_nat [OF b] by (auto split: if_splits)
    have hd: "\<not> cb_isfull b \<Longrightarrow> n - f \<le> cb_head b" "n - f \<le> cb_cap b"
      using room rest len by (auto simp: word_le_nat_alt)
    have pick2: "write_piece b 0 (n - f) = n - f"
    proof (cases "\<not> cb_isfull b \<and> 0 < cb_head b")
      case True
      then show ?thesis using hd(1) by (simp add: write_piece_def min_absorb2)
    next
      case False
      then show ?thesis using hd(2) by (auto simp: write_piece_def min_absorb2)
    qed
    have l1: "write_iov_loop b n 0 (cb_tail b) [] = Some [(?t, f), (0, n - f)]"
      using f_def [symmetric] pick2 n lt z
      by (simp add: write_iov_loop.simps [of b n 0] write_iov_loop.simps [of b n f] write_iov_loop.simps [of b n n]
          word_less_nat_alt Let_def)
    have l2: "iov_ready (cb_data b) [(?t, f), (0, n - f)]"
      using C f n small rest len by (simp add: iov_ready_def)
    have f0: "unat (cb_tail (cb_consume b (unat f))) = 0" using wrap C by simp
    note s1 = cb_consume_len [OF b f(4)] cb_consume_bytes [OF b f(4)]
    have "take (unat (n - f)) (drop 0 (cb_data b)) = take (unat (n - f)) (drop (unat f) (cb_bytes b))"
      using cb_bytes_slice [OF s1(1), of "unat (n - f)"] s1(2,3) f0 rest n len by simp
    then have ld2: "mem_load (cb_data b) 0 (unat (n - f)) = Some (take (unat n - unat f) (drop (unat f) (cb_bytes b)))"
      using rest len C by simp
    have l3: "iov_load (cb_data b) [(?t, f), (0, n - f)]
        = Some [take (unat f) (cb_bytes b), take (unat n - unat f) (drop (unat f) (cb_bytes b))]"
      using ld ld2 by simp
    have l4: "iov_bytes [(?t, f), (0, n - f)] = unat n" using rest lt by simp
    have l5: "concat [take (unat f) (cb_bytes b), take (unat n - unat f) (drop (unat f) (cb_bytes b))]
        = take (unat n) (cb_bytes b)"
      using take_split [OF f(2), of "cb_bytes b"] by simp
    show ?thesis using l1 l2 l3 l4 l5 by blast
  qed
qed

section \<open>What the transfers do\<close>

lemma cbuffer_read_from_file_2_eq: "cbuffer_read_from_file_2 b n = cbuffer_fakewrite b n"
  by (auto simp: cbuffer_read_from_file_2_def cbuffer_fakewrite_def Let_def intro!: Option.bind_cong)

lemma cbuffer_write_to_file_2_eq: "cbuffer_write_to_file_2 b n = cbuffer_fakeread b n"
  by (auto simp: cbuffer_write_to_file_2_def cbuffer_fakeread_def Let_def)

lemma cb_data_update:
  assumes b: "cbuffer_small b" and d: "length d = unat (cb_cap b)"
  shows "cbuffer_small (b\<lparr>cb_data := d\<rparr>)" "cbuffer_len (b\<lparr>cb_data := d\<rparr>) = cbuffer_len b"
    "cb_bytes (b\<lparr>cb_data := d\<rparr>) = ring d (unat (cb_tail b)) (unat (cbuffer_len b))"
  using b d by (auto simp: cbuffer_small_def cbuffer_wf_def cbuffer_len_def cb_bytes_def)

lemma cb_piece_length:
  assumes "cbuffer_wf b"
  shows "unat (min (cb_cap b - cbuffer_len b) n) = min (unat (cb_cap b) - unat (cbuffer_len b)) (unat n)"
  using cbuffer_len_le [OF assms] by (simp add: wnat)

text \<open>The first phase of a transfer that asks for something: the bytes land behind those held, and \<open>head\<close> has not moved yet.\<close>

lemma cbuffer_fill_1:
  assumes law: "readv_law px todo intr" and fresh: "cause_code er = SUCCESS" and op: "px_isopen px src w"
    and s: "cbuffer_small b" and n: "n = min (cb_cap b - cbuffer_len b) len" "n \<noteq> 0"
  shows "\<exists>ret d w' er' bs. cbuffer_read_from_file_1 px src b len w (Some er) =
      (if ret < 0 then Option.bind (error_trace (Some er')) (\<lambda>c. Some (c, b\<lparr>cb_data := d\<rparr>, w', Some er'))
       else Some (as_i32 ret, b\<lparr>cb_data := d\<rparr>, w', Some er')) \<and>
    length d = unat (cb_cap b) \<and> ring d (unat (cb_tail b)) (unat (cbuffer_len b) + length bs) = cb_bytes b @ bs \<and>
    length bs \<le> unat n \<and> todo w src = bs @ todo w' src \<and>
    (ret = ERR_IO \<and> cause_code er' = ERR_IO \<or>
     er' = er \<and> ret = int (length bs) \<and> (length bs < unat n \<longrightarrow> todo w' src = []))"
proof -
  have b: "cbuffer_wf b" using s by (simp add: cbuffer_small_def)
  have pos: "0 < unat n" using n(2) by (simp add: unat_gt_0)
  have room: "unat (cbuffer_len b) + unat n \<le> unat (cb_cap b)"
    using cb_piece_length [OF b, of len] cbuffer_len_le [OF b] by (simp add: n(1))
  from read_iov_ok [OF b pos room] obtain iov where iov: "read_iov_loop b n 0 (cb_head b) [] = Some iov"
    "iov_ready (cb_data b) iov" "iov_bytes iov = unat n"
    and store: "\<And>bs d. length bs \<le> unat n \<Longrightarrow> iov_store (cb_data b) iov bs = Some d \<Longrightarrow>
       length d = unat (cb_cap b) \<and>
       ring d (unat (cb_tail b)) (unat (cbuffer_len b) + length bs) = cb_bytes b @ bs"
    by blast
  from i_readv_all_ok [OF law fresh op iov(2)] obtain ret d w' er' bs where
    rd: "i_readv_all px src (cb_data b) iov w (Some er) = Some (ret, d, w', Some er')"
      "iov_store (cb_data b) iov bs = Some d" "length bs \<le> unat n" "todo w src = bs @ todo w' src"
      "ret = ERR_IO \<and> cause_code er' = ERR_IO \<or>
       er' = er \<and> ret = int (length bs) \<and> (length bs < unat n \<longrightarrow> todo w' src = [])"
    unfolding iov(3) by (elim exE conjE)
  have "cbuffer_read_from_file_1 px src b len w (Some er) =
      (if ret < 0 then Option.bind (error_trace (Some er')) (\<lambda>c. Some (c, b\<lparr>cb_data := d\<rparr>, w', Some er'))
       else Some (as_i32 ret, b\<lparr>cb_data := d\<rparr>, w', Some er'))"
    unfolding cbuffer_read_from_file_1_def cbuffer_avail_ok [OF b]
    using n(2) iov(1) rd(1) by (simp add: n(1) [symmetric] Let_def)
  then show ?thesis using store [OF rd(3,2)] rd(3-5) by blast
qed

lemma cbuffer_fill_nothing:
  assumes s: "cbuffer_small b" and n: "min (cb_cap b - cbuffer_len b) len = 0"
  shows "\<exists>b'. cbuffer_read_from_file px src b len w e = Some (0, b', w, e) \<and> cbuffer_small b' \<and>
    cb_bytes b' = cb_bytes b \<and> cb_cap b' = cb_cap b"
proof -
  have b: "cbuffer_wf b" using s by (simp add: cbuffer_small_def)
  have f: "cbuffer_read_from_file_1 px src b len w e = Some (0, b, w, e)"
    unfolding cbuffer_read_from_file_1_def cbuffer_avail_ok [OF b] by (simp add: n read_iov_loop.simps [of b 0 0])
  obtain b' where b': "cbuffer_fakewrite b 0 = Some b'" "cbuffer_small b'" "cb_bytes b' = cb_bytes b" "cb_cap b' = cb_cap b"
    using cbuffer_fakewrite_ok [OF s, of 0] cbuffer_len_le [OF b] by (auto simp: cb_bytes_def)
  then show ?thesis using f cbuffer_wf_dbg [OF b] by (simp add: cbuffer_read_from_file_def cbuffer_read_from_file_2_eq)
qed

lemma cbuffer_fill_some:
  assumes law: "readv_law px todo intr" and fresh: "cause_code er = SUCCESS" and op: "px_isopen px src w"
    and s: "cbuffer_small b" and n: "n = min (cb_cap b - cbuffer_len b) len" "n \<noteq> 0"
    and cap: "unat (cb_cap b) < 2147483648"
  shows "\<exists>ret b' w' er' bs. cbuffer_read_from_file px src b len w (Some er) = Some (ret, b', w', Some er') \<and>
    cbuffer_small b' \<and> cb_cap b' = cb_cap b \<and> todo w src = bs @ todo w' src \<and> length bs \<le> unat n \<and>
    (ret = ERR_IO \<and> cause_code er' = ERR_IO \<and> cb_bytes b' = cb_bytes b \<or>
     ret = int (length bs) \<and> er' = er \<and> cb_bytes b' = cb_bytes b @ bs \<and> (length bs < unat n \<longrightarrow> todo w' src = []))"
proof -
  from cbuffer_fill_1 [OF law fresh op s n] obtain ret d w' er' bs where
    f: "cbuffer_read_from_file_1 px src b len w (Some er) =
      (if ret < 0 then Option.bind (error_trace (Some er')) (\<lambda>c. Some (c, b\<lparr>cb_data := d\<rparr>, w', Some er'))
       else Some (as_i32 ret, b\<lparr>cb_data := d\<rparr>, w', Some er'))"
    and d: "length d = unat (cb_cap b)" "ring d (unat (cb_tail b)) (unat (cbuffer_len b) + length bs) = cb_bytes b @ bs"
    and bs: "length bs \<le> unat n" "todo w src = bs @ todo w' src"
    and c: "ret = ERR_IO \<and> cause_code er' = ERR_IO \<or>
      er' = er \<and> ret = int (length bs) \<and> (length bs < unat n \<longrightarrow> todo w' src = [])" by (elim exE conjE)
  let ?b = "b\<lparr>cb_data := d\<rparr>"
  note upd = cb_data_update [OF s d(1)]
  have b: "cbuffer_wf b" using s by (simp add: cbuffer_small_def)
  have "cb_bytes ?b = take (unat (cbuffer_len b)) (ring d (unat (cb_tail b)) (unat (cbuffer_len b) + length bs))"
    unfolding upd(3) by (simp add: take_ring)
  then have keep: "cb_bytes ?b = cb_bytes b" using d(2) by simp
  show ?thesis
  proof (cases "ret = ERR_IO \<and> cause_code er' = ERR_IO")
    case True
    then have "cbuffer_read_from_file px src b len w (Some er) = Some (ERR_IO, ?b, w', Some er')"
      using f cbuffer_wf_dbg [OF b] by (simp add: cbuffer_read_from_file_def error_trace_cause ERR_IO_def)
    then show ?thesis using True keep upd(1) bs by (intro exI [of _ ERR_IO] exI [of _ ?b] exI [of _ w'] exI [of _ er'] exI [of _ bs]) simp
  next
    case False
    with c have ok: "er' = er" "ret = int (length bs)" "length bs < unat n \<longrightarrow> todo w' src = []" by blast+
    have room: "unat (cbuffer_len b) + length bs \<le> unat (cb_cap b)"
      using cb_piece_length [OF b, of len] cbuffer_len_le [OF b] bs(1) by (auto simp: n(1))
    then have k: "unat (word_of_int ret :: u32) = length bs" using ok(2) cap by (simp add: unat_of_nat)
    have "unat (cbuffer_len ?b) + unat (word_of_int ret :: u32) \<le> unat (cb_cap ?b)" using k room upd(2) by simp
    from cbuffer_fakewrite_ok [OF upd(1) this] obtain b' where b': "cbuffer_fakewrite ?b (word_of_int ret) = Some b'"
      "cbuffer_small b'" "cb_cap b' = cb_cap b" "cb_bytes b' = cb_bytes b @ bs"
      using d k upd(2) by auto
    have "as_i32 ret = ret" using ok(2) room cap by (intro as_i32_small) simp_all
    then have "cbuffer_read_from_file px src b len w (Some er) = Some (ret, b', w', Some er')"
      using f cbuffer_wf_dbg [OF b] b'(1) ok by (simp add: cbuffer_read_from_file_def cbuffer_read_from_file_2_eq)
    then show ?thesis using b' bs ok by blast
  qed
qed

text \<open>
  C25. Filling a buffer from a file. For a well-formed buffer of fewer than \<open>2^31\<close> bytes,
  \<open>cbuffer_read_from_file\<close> takes some bytes \<open>bs\<close> off the stream, never more than asked for or than there is room for. Either it
  reports \<open>ERR_IO\<close> with its cause recorded and the buffer still holds the bytes it held (those taken off the stream are lost), or it returns
  their number and has appended exactly them, in order and across the end of the array; and it returns fewer than it could only when the stream has ended,
  however short or often interrupted the transfers of the system are. No assertion fails, and the loop ends.
\<close>

theorem cbuffer_fills_from_file:
  assumes law: "readv_law px todo intr" and fresh: "cause_code er = SUCCESS" and op: "px_isopen px src w"
    and b: "cbuffer_wf b" and cap: "unat (cb_cap b) < 2147483648"
  shows "\<exists>ret b' w' er' bs. cbuffer_read_from_file px src b len w (Some er) = Some (ret, b', w', Some er') \<and>
    cbuffer_wf b' \<and> cb_cap b' = cb_cap b \<and> todo w src = bs @ todo w' src \<and>
    length bs \<le> min (unat (cb_cap b) - length (cb_bytes b)) (unat len) \<and>
    (ret = ERR_IO \<and> cause_code er' = ERR_IO \<and> cb_bytes b' = cb_bytes b \<or>
     ret = int (length bs) \<and> er' = er \<and> cb_bytes b' = cb_bytes b @ bs \<and>
     (length bs < min (unat (cb_cap b) - length (cb_bytes b)) (unat len) \<longrightarrow> todo w' src = []))"
proof -
  have s: "cbuffer_small b" using b cap by (simp add: cbuffer_small_def)
  have un: "unat (min (cb_cap b - cbuffer_len b) len) = min (unat (cb_cap b) - length (cb_bytes b)) (unat len)"
    using cb_piece_length [OF b, of len] by simp
  show ?thesis
  proof (cases "min (cb_cap b - cbuffer_len b) len = 0")
    case True
    from cbuffer_fill_nothing [OF s this, of px src w "Some er"] obtain b' where
      "cbuffer_read_from_file px src b len w (Some er) = Some (0, b', w, Some er)" "cbuffer_wf b'"
        "cb_bytes b' = cb_bytes b" "cb_cap b' = cb_cap b" by (auto simp: cbuffer_small_def)
    then show ?thesis
      using un True by (intro exI [of _ 0] exI [of _ b'] exI [of _ w] exI [of _ er] exI [of _ "[]"]) simp
  next
    case False
    show ?thesis
      using cbuffer_fill_some [OF law fresh op s refl False cap] unfolding un cbuffer_small_def by blast
  qed
qed

theorem cbuffer_fills_from_file_witness:
  "\<exists>ret b' w' er' bs. cbuffer_read_from_file mem_posix 3 cb_demo 2 mem_demo (Some error_create) = Some (ret, b', w', Some er') \<and>
    cbuffer_wf b' \<and> [1, 2, 3, 4, 5, 6, 7] = bs @ mf_todo w' 3 \<and> length bs \<le> 2"
  using cbuffer_fills_from_file [OF mem_posix_laws(3), of error_create 3 mem_demo cb_demo 2]
  by (force simp: mem_posix_def mem_demo_def error_create_def cb_demo_def cbuffer_wf_def)

text \<open>The first phase of draining does not touch the buffer.\<close>

lemma cbuffer_drain_1:
  assumes law: "writev_law px sent intr" and fresh: "cause_code er = SUCCESS" and op: "px_isopen px dest w"
    and b: "cbuffer_wf b" and cap: "unat (cb_cap b) < 2147483648" and n: "n = min (cbuffer_len b) len"
  shows "\<exists>ret w' er' k. cbuffer_write_to_file_1 px dest b len w (Some er) = Some (ret, w', Some er') \<and>
    sent w' dest = sent w dest @ take k (cb_bytes b) \<and>
    (ret = ERR_IO \<and> cause_code er' = ERR_IO \<or> ret = int (unat n) \<and> er' = er \<and> k = unat n)"
proof (cases "n = 0")
  case True
  then have "cbuffer_write_to_file_1 px dest b len w (Some er) = Some (0, w, Some er)"
    unfolding cbuffer_write_to_file_1_def
    by (simp add: n [symmetric] write_iov_loop.simps [of b 0 0] as_i32_def)
  then show ?thesis using True by (intro exI [of _ 0] exI [of _ w] exI [of _ er]) simp
next
  case False
  have n_le: "unat n \<le> unat (cbuffer_len b)" by (simp add: n wnat)
  have "int (unat n) < 2147483648" using n_le cbuffer_len_le [OF b] cap by linarith
  then have as: "as_i32 (uint n) = int (unat n)" by (simp add: as_i32_small)
  from False have pos: "0 < unat n" by (simp add: unat_gt_0)
  from write_iov_ok [OF b pos n_le] obtain iov bss where
    iov: "write_iov_loop b n 0 (cb_tail b) [] = Some iov" "iov_ready (cb_data b) iov" "iov_bytes iov = unat n"
      "iov_load (cb_data b) iov = Some bss" "concat bss = take (unat n) (cb_bytes b)" by blast
  from i_writev_all_ok [OF law fresh op iov(2,4)] obtain ret w' er' k where
    wr: "i_writev_all px dest (cb_data b) iov w (Some er) = Some (ret, w', Some er')"
      "sent w' dest = sent w dest @ take (min k (unat n)) (cb_bytes b)"
      "ret = ERR_IO \<and> cause_code er' = ERR_IO \<or> er' = er \<and> ret = SUCCESS \<and> k = unat n"
    unfolding iov(3,5) take_take by (elim exE conjE)
  have f: "cbuffer_write_to_file_1 px dest b len w (Some er) =
      (if ret \<noteq> SUCCESS then Option.bind (error_trace (Some er')) (\<lambda>c. Some (c, w', Some er'))
       else Some (as_i32 (uint n), w', Some er'))"
    unfolding cbuffer_write_to_file_1_def
    using False iov(1) wr(1) by (simp add: n [symmetric] Let_def)
  have "cbuffer_write_to_file_1 px dest b len w (Some er) =
      Some (if ret = SUCCESS then int (unat n) else ERR_IO, w', Some er')"
    using f wr(3) as by (auto simp: error_trace_cause ERR_IO_def SUCCESS_def)
  then show ?thesis using wr(2,3) by (auto simp: ERR_IO_def SUCCESS_def)
qed

text \<open>
  Draining a buffer to a file. \<open>cbuffer_write_to_file\<close> either returns the number of bytes asked for, capped at what the buffer holds,
  and exactly those have left the front of the buffer and are at the end of what has been written, in order;
  or it reports \<open>ERR_IO\<close> with its cause recorded and the buffer is unchanged, though a prefix of its bytes may have been written already.
\<close>

theorem cbuffer_drains_to_file:
  assumes law: "writev_law px sent intr" and fresh: "cause_code er = SUCCESS" and op: "px_isopen px dest w"
    and b: "cbuffer_wf b" and cap: "unat (cb_cap b) < 2147483648"
  shows "\<exists>ret b' w' er' k. cbuffer_write_to_file px dest b len w (Some er) = Some (ret, b', w', Some er') \<and>
    cbuffer_wf b' \<and> sent w' dest = sent w dest @ take k (cb_bytes b) \<and>
    (ret = ERR_IO \<and> cause_code er' = ERR_IO \<and> b' = b \<or>
     ret = int k \<and> er' = er \<and> k = min (length (cb_bytes b)) (unat len) \<and> cb_bytes b' = drop k (cb_bytes b))"
proof -
  define n where "n = min (cbuffer_len b) len"
  have s: "cbuffer_small b" using b cap by (simp add: cbuffer_small_def)
  have n_le: "unat n \<le> unat (cbuffer_len b)" and len: "unat n = min (length (cb_bytes b)) (unat len)"
    by (simp_all add: n_def wnat)
  note con = cb_consume_len(1) [OF b n_le] cb_consume_bytes [OF b n_le]
  have two: "cbuffer_write_to_file_2 b n = Some (cb_consume b (unat n))"
    unfolding cbuffer_write_to_file_2_eq by (rule cbuffer_fakeread_ok [OF s n_le])
  from cbuffer_drain_1 [OF law fresh op b cap n_def] obtain ret w' er' k where
    one: "cbuffer_write_to_file_1 px dest b len w (Some er) = Some (ret, w', Some er')"
      "sent w' dest = sent w dest @ take k (cb_bytes b)"
      "ret = ERR_IO \<and> cause_code er' = ERR_IO \<or> ret = int (unat n) \<and> er' = er \<and> k = unat n" by blast
  note def = cbuffer_write_to_file_def one(1) cbuffer_wf_dbg [OF b] two
  from one(3) show ?thesis
  proof
    assume r: "ret = ERR_IO \<and> cause_code er' = ERR_IO"
    then have "cbuffer_write_to_file px dest b len w (Some er) = Some (ret, b, w', Some er')"
      by (simp add: def ERR_IO_def)
    then show ?thesis using r one(2) b by blast
  next
    assume r: "ret = int (unat n) \<and> er' = er \<and> k = unat n"
    then have "cbuffer_write_to_file px dest b len w (Some er) = Some (ret, cb_consume b (unat n), w', Some er')"
      by (simp add: def)
    then show ?thesis using r one(2) con len by blast
  qed
qed

theorem cbuffer_drains_to_file_witness:
  "\<exists>ret b' w' er' k. cbuffer_write_to_file mem_posix 3 cb_demo 2 mem_demo (Some error_create) = Some (ret, b', w', Some er') \<and>
    cbuffer_wf b' \<and> mf_sent w' 3 = take k [2, 3, 4]"
proof -
  have "cause_code error_create = SUCCESS" "px_isopen mem_posix 3 mem_demo" "unat (cb_cap cb_demo) < 2147483648"
    by (simp_all add: error_create_def mem_posix_def cb_demo_def)
  note cbuffer_drains_to_file [OF mem_posix_laws(4) this(1,2) cb_demo(1) this(3), of 2]
  moreover have "mf_sent mem_demo 3 = []" by (simp add: mem_demo_def)
  ultimately show ?thesis unfolding cb_demo(3) append_Nil by (elim exE conjE) (intro exI conjI, assumption+, simp)
qed

end
