(* ===== verification/Dbl_buffer.thy ===== *)
theory Dbl_buffer
  imports Osmem
begin

text \<open>
  The doubling buffer of \<^verbatim>\<open>ds/dbl_buffer.c\<close>: an array of elements of one size on the heap
  that is reallocated to twice the wanted number of elements. Counts and byte offsets are 32-bit
  and wrap. The latch in the C structure is not used by the functions and is left out.
\<close>

section \<open>State and operations\<close>

record dbl_buffer =
  db_data :: "u8 list option"
  db_size :: u32
  db_nelem_cap :: u32
  db_nelem :: u32

definition dblb_dbg :: "dbl_buffer \<Rightarrow> bool" where
  "dblb_dbg d \<longleftrightarrow> db_data d \<noteq> None \<and> db_nelem d \<le> db_nelem_cap d"

definition dblb_create :: "libc \<Rightarrow> u32 \<Rightarrow> u32 \<Rightarrow> errp \<Rightarrow> (err_t \<times> dbl_buffer option \<times> errp) option" where
  "dblb_create os sz initial_cap e = do {
     ASSERT (initial_cap > 0);
     ASSERT (sz > 0);
     (data, e) \<leftarrow> i_malloc os initial_cap sz e;
     case data of
       None \<Rightarrow> do { c \<leftarrow> error_trace e; Some (c, None, e) }
     | Some bs \<Rightarrow> do {
         let d = \<lparr>db_data = Some bs, db_size = sz, db_nelem_cap = initial_cap, db_nelem = 0\<rparr>;
         ASSERT (dblb_dbg d);
         Some (SUCCESS, Some d, e)
       }
   }"

definition dblb_ensure_space :: "libc \<Rightarrow> dbl_buffer \<Rightarrow> u32 \<Rightarrow> errp \<Rightarrow> (err_t \<times> dbl_buffer \<times> errp) option" where
  "dblb_ensure_space os d nelem e =
     (if nelem \<ge> db_nelem_cap d then do {
        (newdata, e) \<leftarrow> i_realloc_right os (db_data d) (db_nelem_cap d) (2 * nelem) (db_size d) e;
        case newdata of
          None \<Rightarrow> do { c \<leftarrow> error_trace e; Some (c, d, e) }
        | Some bs \<Rightarrow> do {
            c \<leftarrow> error_trace e;
            Some (c, d\<lparr>db_data := Some bs, db_nelem_cap := 2 * nelem\<rparr>, e)
          }
      }
      else do { c \<leftarrow> error_trace e; Some (c, d, e) })"

text \<open>The pointer returned is an offset into the data.\<close>

definition dblb_append_alloc ::
  "libc \<Rightarrow> dbl_buffer \<Rightarrow> u32 \<Rightarrow> errp \<Rightarrow> (u32 option \<times> dbl_buffer \<times> errp) option" where
  "dblb_append_alloc os d nelem e = do {
     ASSERT (dblb_dbg d);
     (rc, d, e) \<leftarrow> dblb_ensure_space os d (db_nelem d + nelem) e;
     if rc \<noteq> SUCCESS then Some (None, d, e)
     else Some (Some (db_nelem d * db_size d), d\<lparr>db_nelem := db_nelem d + nelem\<rparr>, e)
   }"

definition dblb_append ::
  "libc \<Rightarrow> dbl_buffer \<Rightarrow> u8 list \<Rightarrow> u32 \<Rightarrow> errp \<Rightarrow> (err_t \<times> dbl_buffer \<times> errp) option" where
  "dblb_append os d src nelem e = do {
     ASSERT (dblb_dbg d);
     (head, d, e) \<leftarrow> dblb_append_alloc os d nelem e;
     case head of
       None \<Rightarrow> do { c \<leftarrow> error_trace e; Some (c, d, e) }
     | Some off \<Rightarrow> do {
         bs \<leftarrow> mem_load src 0 (unat (db_size d * nelem));
         data \<leftarrow> db_data d;
         data \<leftarrow> mem_store data (unat off) bs;
         Some (SUCCESS, d\<lparr>db_data := Some data\<rparr>, e)
       }
   }"

definition dblb_free :: "dbl_buffer \<Rightarrow> dbl_buffer option" where
  "dblb_free d = do {
     ASSERT (dblb_dbg d);
     i_free (db_data d);
     Some (d\<lparr>db_nelem_cap := 0, db_nelem := 0\<rparr>)
   }"

section \<open>Invariant and contents\<close>

definition dblb_wf :: "dbl_buffer \<Rightarrow> bool" where
  "dblb_wf d \<longleftrightarrow> (case db_data d of
     None \<Rightarrow> False
   | Some bs \<Rightarrow> length bs = unat (db_nelem_cap d) * unat (db_size d) \<and> length bs < 4294967296 \<and>
       0 < unat (db_size d) \<and> unat (db_nelem d) \<le> unat (db_nelem_cap d))"

definition dblb_bytes :: "dbl_buffer \<Rightarrow> u8 list" where
  "dblb_bytes d = (case db_data d of None \<Rightarrow> [] | Some bs \<Rightarrow> take (unat (db_nelem d) * unat (db_size d)) bs)"

text \<open>The element count of a well-formed buffer is the count of its bytes.\<close>

lemma dblb_bytes_length: "dblb_wf d \<Longrightarrow> length (dblb_bytes d) = unat (db_nelem d) * unat (db_size d)"
  by (auto simp: dblb_wf_def dblb_bytes_def min_def split: option.splits)

text \<open>What an append leaves of the capacity.\<close>

definition dblb_grown :: "dbl_buffer \<Rightarrow> u32 \<Rightarrow> u32" where
  "dblb_grown d n = (if db_nelem_cap d \<le> db_nelem d + n then 2 * (db_nelem d + n) else db_nelem_cap d)"

lemma i_realloc_right_cases:
  assumes os: "libc_ok os" and sz: "0 < unat sz" and new: "0 < unat new" "unat new * unat sz < 4294967296"
    and er: "cause_code er = SUCCESS" and len: "length obj \<le> unat new * unat sz"
  shows "(\<exists>er'. i_realloc_right os (Some obj) old new sz (Some er) = Some (None, Some er') \<and>
            cause_code er' = ERR_NOMEM \<and> \<not> libc_total os) \<or>
    (\<exists>bs. i_realloc_right os (Some obj) old new sz (Some er) = Some (Some bs, Some er) \<and>
            length bs = unat new * unat sz \<and> take (length obj) bs = obj)"
proof -
  have "safe_mul_u32 new sz = Some (new * sz)" "unat (new * sz) = unat new * unat sz"
    using new(2) by (simp_all add: safe_mul_u32_def u32_mult_nat)
  then have r: "i_realloc_right os (Some obj) old new sz (Some er) =
      (case lc_realloc os (Some obj) (unat new * unat sz) of
         None \<Rightarrow> Some (nomem (Some er) (''realloc '' @ fmt_u (new * sz) @ '' bytes: '' @ lc_strerror os))
       | Some ret \<Rightarrow> Some (Some ret, Some er))"
    using sz new(1) by (simp add: i_realloc_right_def i_realloc_def word_less_nat_alt)
  show ?thesis
  proof (cases "lc_realloc os (Some obj) (unat new * unat sz)")
    case None
    then have "\<not> libc_total os" by (auto simp: libc_total_def)
    then show ?thesis using r None by (simp add: nomem_def error_causef_fresh [OF er])
  next
    case (Some bs)
    then show ?thesis
      using r lc_realloc_length [OF os Some] lc_realloc_prefix [OF os Some _ len] by simp
  qed
qed


lemma dblb_wf_dbg: "dblb_wf d \<Longrightarrow> dblb_dbg d"
  by (auto simp: dblb_wf_def dblb_dbg_def word_le_nat_alt split: option.splits)

lemma dblb_ensure_space_ok:
  assumes os: "libc_ok os" and wf: "dblb_wf d" and er: "cause_code er = SUCCESS"
    and fits: "2 * unat k * unat (db_size d) < 4294967296" and k: "0 < unat k"
  shows "\<exists>rc d' er'. dblb_ensure_space os d k (Some er) = Some (rc, d', Some er') \<and>
    (rc = ERR_NOMEM \<and> cause_code er' = ERR_NOMEM \<and> d' = d \<and> \<not> libc_total os \<or>
     rc = SUCCESS \<and> er' = er \<and> dblb_wf d' \<and> dblb_bytes d' = dblb_bytes d \<and> db_size d' = db_size d \<and>
       db_nelem d' = db_nelem d \<and> db_nelem_cap d' = (if db_nelem_cap d \<le> k then 2 * k else db_nelem_cap d))"
proof (cases "db_nelem_cap d \<le> k")
  case False
  then show ?thesis using wf er by (simp add: dblb_ensure_space_def)
next
  case True
  then have le: "unat (db_nelem_cap d) \<le> unat k" by (simp add: word_le_nat_alt)
  from wf obtain bs where bs: "db_data d = Some bs" "length bs = unat (db_nelem_cap d) * unat (db_size d)"
    "0 < unat (db_size d)" "unat (db_nelem d) \<le> unat (db_nelem_cap d)"
    by (auto simp: dblb_wf_def split: option.splits)
  have "unat k * 1 \<le> unat k * unat (db_size d)" by (rule mult_le_mono2) (use bs(3) in simp)
  then have "2 * unat k < 4294967296" using fits by linarith
  then have k2: "unat (2 * k) = 2 * unat k" by (subst u32_mult_nat) simp_all
  have len: "length bs \<le> unat (2 * k) * unat (db_size d)"
    unfolding bs(2) k2 by (rule mult_le_mono1) (use le in simp)
  have new: "0 < unat (2 * k)" "unat (2 * k) * unat (db_size d) < 4294967296" using k k2 fits by simp_all
  from i_realloc_right_cases [OF os bs(3) new er len, of "db_nelem_cap d"]
  show ?thesis
  proof (elim disjE exE conjE)
    fix er' assume "i_realloc_right os (Some bs) (db_nelem_cap d) (2 * k) (db_size d) (Some er) = Some (None, Some er')"
      "cause_code er' = ERR_NOMEM" "\<not> libc_total os"
    then show ?thesis using True bs(1) by (simp add: dblb_ensure_space_def)
  next
    fix nb assume nb: "i_realloc_right os (Some bs) (db_nelem_cap d) (2 * k) (db_size d) (Some er) = Some (Some nb, Some er)"
      "length nb = unat (2 * k) * unat (db_size d)" "take (length bs) nb = bs"
    let ?d = "d\<lparr>db_data := Some nb, db_nelem_cap := 2 * k\<rparr>"
    have st: "dblb_ensure_space os d k (Some er) = Some (SUCCESS, ?d, Some er)"
      using True bs(1) nb(1) er by (simp add: dblb_ensure_space_def)
    have used: "unat (db_nelem d) * unat (db_size d) \<le> length bs"
      unfolding bs(2) by (rule mult_le_mono1 [OF bs(4)])
    have "take (unat (db_nelem d) * unat (db_size d)) nb = take (unat (db_nelem d) * unat (db_size d)) bs"
      using arg_cong [OF nb(3), of "take (unat (db_nelem d) * unat (db_size d))"] used by (simp add: min_def)
    then have "dblb_bytes ?d = dblb_bytes d" using bs(1) by (simp add: dblb_bytes_def)
    moreover have "dblb_wf ?d" using nb(2) new bs(3,4) le k2 by (simp add: dblb_wf_def)
    ultimately show ?thesis using st True by simp
  qed
qed

lemma dblb_append_ok:
  assumes os: "libc_ok os" and wf: "dblb_wf d" and er: "cause_code er = SUCCESS" and n: "0 < unat n"
    and fits: "2 * (unat (db_nelem d) + unat n) * unat (db_size d) < 4294967296"
    and src: "unat n * unat (db_size d) \<le> length src"
  shows "\<exists>rc d' er'. dblb_append os d src n (Some er) = Some (rc, d', Some er') \<and>
    (rc = ERR_NOMEM \<and> cause_code er' = ERR_NOMEM \<and> d' = d \<and> \<not> libc_total os \<or>
     rc = SUCCESS \<and> er' = er \<and> dblb_wf d' \<and> db_size d' = db_size d \<and>
       dblb_bytes d' = dblb_bytes d @ take (unat n * unat (db_size d)) src \<and>
       unat (db_nelem d') = unat (db_nelem d) + unat n \<and> db_nelem d' < db_nelem_cap d' \<and>
       db_nelem_cap d' = dblb_grown d n)"
proof -
  let ?z = "unat (db_size d)" and ?l = "unat (db_nelem d)"
  let ?k = "db_nelem d + n"
  have z: "0 < ?z" using wf by (auto simp: dblb_wf_def split: option.splits)
  have "(?l + unat n) * 1 \<le> (?l + unat n) * ?z" by (rule mult_le_mono2) (use z in simp)
  then have small: "2 * (?l + unat n) < 4294967296" using fits by linarith
  then have k: "unat ?k = ?l + unat n" by (subst u32_add_nat) simp_all
  from dblb_ensure_space_ok [OF os wf er, of ?k] fits n k
  obtain rc d1 er1 where en: "dblb_ensure_space os d ?k (Some er) = Some (rc, d1, Some er1)"
    and c: "rc = ERR_NOMEM \<and> cause_code er1 = ERR_NOMEM \<and> d1 = d \<and> \<not> libc_total os \<or>
     rc = SUCCESS \<and> er1 = er \<and> dblb_wf d1 \<and> dblb_bytes d1 = dblb_bytes d \<and> db_size d1 = db_size d \<and>
       db_nelem d1 = db_nelem d \<and> db_nelem_cap d1 = (if db_nelem_cap d \<le> ?k then 2 * ?k else db_nelem_cap d)"
    by (simp add: mult.assoc [symmetric]) blast
  note dbg = dblb_wf_dbg [OF wf]
  from c show ?thesis
  proof (elim disjE conjE)
    assume "rc = ERR_NOMEM" "cause_code er1 = ERR_NOMEM" "d1 = d" "\<not> libc_total os"
    moreover from this have "dblb_append_alloc os d n (Some er) = Some (None, d, Some er1)"
      using dbg en by (simp add: dblb_append_alloc_def err_codes)
    ultimately show ?thesis using dbg by (simp add: dblb_append_def)
  next
    assume ok: "rc = SUCCESS" "er1 = er" "dblb_wf d1" "dblb_bytes d1 = dblb_bytes d" "db_size d1 = db_size d"
      "db_nelem d1 = db_nelem d" and cap: "db_nelem_cap d1 = (if db_nelem_cap d \<le> ?k then 2 * ?k else db_nelem_cap d)"
    have "unat (2 * ?k) = 2 * (?l + unat n)" using small k by (subst u32_mult_nat) simp_all
    then have lt: "unat ?k < unat (db_nelem_cap d1)"
      using cap n k by (auto simp: word_le_nat_alt)
    from ok(3,5) obtain bs where bs: "db_data d1 = Some bs" "length bs = unat (db_nelem_cap d1) * ?z" "length bs < 4294967296"
      by (auto simp: dblb_wf_def split: option.splits)
    have room: "(?l + unat n) * ?z \<le> length bs" unfolding bs(2) by (rule mult_le_mono1) (use lt k in simp)
    have off: "unat (db_nelem d * db_size d) = ?l * ?z"
      using room bs(3) by (subst u32_mult_nat) (simp_all add: add_mult_distrib)
    have cnt: "unat (db_size d * n) = unat n * ?z"
    proof -
      have "?l * ?z + unat n * ?z \<le> length bs" using room by (simp add: add_mult_distrib)
      then have "?z * unat n < 4294967296" using bs(3) by (simp only: mult.commute [of ?z])
      then show ?thesis by (simp add: u32_mult_nat mult.commute)
    qed
    let ?src = "take (unat n * ?z) src"
    have ls: "length ?src = unat n * ?z" using src by simp
    have fit: "?l * ?z + length ?src \<le> length bs" using room ls by (simp add: add_mult_distrib)
    let ?d = "d1\<lparr>db_nelem := ?k, db_data := Some (overwrite bs (?l * ?z) ?src)\<rparr>"
    have al: "dblb_append_alloc os d n (Some er) = Some (Some (db_nelem d * db_size d), d1\<lparr>db_nelem := ?k\<rparr>, Some er)"
      using dbg en ok by (simp add: dblb_append_alloc_def)
    have ap: "dblb_append os d src n (Some er) = Some (SUCCESS, ?d, Some er)"
      unfolding dblb_append_def al using dbg ok(5) bs(1) off cnt src fit by simp
    have "dblb_bytes ?d = take (?l * ?z + length ?src) (overwrite bs (?l * ?z) ?src)"
      using ok(5) k ls by (simp add: dblb_bytes_def add_mult_distrib)
    also have "\<dots> = take (?l * ?z) bs @ ?src" by (rule take_overwrite_full [OF fit])
    also have "take (?l * ?z) bs = dblb_bytes d"
      unfolding ok(4) [symmetric] using bs(1) ok(5,6) by (simp add: dblb_bytes_def)
    finally have "dblb_bytes ?d = dblb_bytes d @ ?src" .
    moreover have "dblb_wf ?d" using bs z lt fit ok(5) by (simp add: dblb_wf_def)
    ultimately show ?thesis
      using ap ok(5) k lt cap by (simp add: dblb_grown_def word_less_nat_alt)
  qed
qed


text \<open>\<open>nelem\<close> counts all elements, not the additional ones: a full buffer gains nothing.\<close>

lemma dblb_ensure_space_is_total:
  "cause_code er = SUCCESS \<Longrightarrow> n < db_nelem_cap d \<Longrightarrow> dblb_ensure_space os d n (Some er) = Some (SUCCESS, d, Some er)"
  by (auto simp: dblb_ensure_space_def dest: leD)

section \<open>Properties\<close>

text \<open>Appends one after the other; each block comes with its element count.\<close>

fun dblb_appends :: "libc \<Rightarrow> dbl_buffer \<Rightarrow> (u8 list \<times> u32) list \<Rightarrow> errp \<Rightarrow> (err_t \<times> dbl_buffer \<times> errp) option" where
  "dblb_appends os d [] e = Some (SUCCESS, d, e)"
| "dblb_appends os d ((src, n) # rest) e = do {
     (rc, d, e) \<leftarrow> dblb_append os d src n e;
     if rc \<noteq> SUCCESS then Some (rc, d, e) else dblb_appends os d rest e
   }"

text \<open>The first block of a run.\<close>

lemma dblb_append_first:
  assumes "libc_ok os" and "dblb_wf d" and "cause_code er = SUCCESS"
    and blocks: "\<forall>(src, n) \<in> set ((src, n) # blocks). 0 < unat n \<and> length src = unat n * unat (db_size d)"
    and room: "2 * (unat (db_nelem d) + (\<Sum>b\<leftarrow>(src, n) # blocks. unat (snd b))) * unat (db_size d) < 4294967296"
  shows "\<exists>rc d1 er1. dblb_append os d src n (Some er) = Some (rc, d1, Some er1) \<and>
    (rc = ERR_NOMEM \<and> cause_code er1 = ERR_NOMEM \<and> d1 = d \<and> \<not> libc_total os \<or>
     rc = SUCCESS \<and> er1 = er \<and> dblb_wf d1 \<and> db_size d1 = db_size d \<and> dblb_bytes d1 = dblb_bytes d @ src \<and>
       unat (db_nelem d1) = unat (db_nelem d) + unat n)"
proof -
  have n: "0 < unat n" "length src = unat n * unat (db_size d)" using blocks by auto
  have "2 * (unat (db_nelem d) + unat n) * unat (db_size d) < 4294967296"
    by (rule le_less_trans [OF _ room], rule mult_le_mono1) simp
  from dblb_append_ok [OF assms(1-3) n(1) this, of src] n(2) show ?thesis by auto
qed

text \<open>
  C40. Appending. For a well-formed buffer and blocks of whole elements whose total, doubled, still fits 32 bits in bytes,
  a run of \<open>dblb_append\<close> stops at the first block for which there is no memory, with \<open>ERR_NOMEM\<close> recorded and everything
  appended so far kept; otherwise all succeed, the contents are the old ones followed by the blocks in order, and the buffer is well-formed.
  With an allocator that never fails it always succeeds.
\<close>

theorem dblb_appends_in_order:
  assumes "libc_ok os" and "dblb_wf d" and "cause_code er = SUCCESS"
    and "\<forall>(src, n) \<in> set blocks. 0 < unat n \<and> length src = unat n * unat (db_size d)"
    and "2 * (unat (db_nelem d) + (\<Sum>b\<leftarrow>blocks. unat (snd b))) * unat (db_size d) < 4294967296"
  shows "\<exists>rc d' er' k. dblb_appends os d blocks (Some er) = Some (rc, d', Some er') \<and> dblb_wf d' \<and>
    dblb_bytes d' = dblb_bytes d @ concat (map fst (take k blocks)) \<and>
    (rc = SUCCESS \<and> er' = er \<and> k = length blocks \<or>
     rc = ERR_NOMEM \<and> cause_code er' = ERR_NOMEM \<and> k < length blocks \<and> \<not> libc_total os)"
  using assms
proof (induction blocks arbitrary: d)
  case Nil
  then show ?case by simp
next
  case (Cons b blocks)
  obtain src n where b: "b = (src, n)" by (cases b)
  from dblb_append_first [OF Cons.prems(1-3) Cons.prems(4,5) [unfolded b]]
  obtain rc d1 er1 where ap: "dblb_append os d src n (Some er) = Some (rc, d1, Some er1)"
    and c: "rc = ERR_NOMEM \<and> cause_code er1 = ERR_NOMEM \<and> d1 = d \<and> \<not> libc_total os \<or>
     rc = SUCCESS \<and> er1 = er \<and> dblb_wf d1 \<and> db_size d1 = db_size d \<and> dblb_bytes d1 = dblb_bytes d @ src \<and>
       unat (db_nelem d1) = unat (db_nelem d) + unat n" by blast
  from c show ?case
  proof (elim disjE conjE)
    assume e: "rc = ERR_NOMEM" "cause_code er1 = ERR_NOMEM" "d1 = d" "\<not> libc_total os"
    then have "dblb_appends os d (b # blocks) (Some er) = Some (ERR_NOMEM, d, Some er1)"
      using ap b by (simp add: err_codes)
    moreover have "dblb_bytes d = dblb_bytes d @ concat (map fst (take 0 (b # blocks)))" by simp
    ultimately show ?thesis using e Cons.prems(2) by blast
  next
    assume ok: "rc = SUCCESS" "er1 = er" "dblb_wf d1" "db_size d1 = db_size d" "dblb_bytes d1 = dblb_bytes d @ src"
      "unat (db_nelem d1) = unat (db_nelem d) + unat n"
    have "\<forall>(src, n) \<in> set blocks. 0 < unat n \<and> length src = unat n * unat (db_size d1)"
      using Cons.prems(4) ok(4) by auto
    moreover have "2 * (unat (db_nelem d1) + (\<Sum>b\<leftarrow>blocks. unat (snd b))) * unat (db_size d1) < 4294967296"
      using Cons.prems(5) ok(4,6) b by (simp add: add.assoc)
    ultimately obtain rc' d' er' k where ih: "dblb_appends os d1 blocks (Some er) = Some (rc', d', Some er')" "dblb_wf d'"
      "dblb_bytes d' = dblb_bytes d1 @ concat (map fst (take k blocks))"
      "rc' = SUCCESS \<and> er' = er \<and> k = length blocks \<or>
       rc' = ERR_NOMEM \<and> cause_code er' = ERR_NOMEM \<and> k < length blocks \<and> \<not> libc_total os"
      using Cons.IH [OF Cons.prems(1) ok(3) Cons.prems(3)] by blast
    have "dblb_appends os d (b # blocks) (Some er) = Some (rc', d', Some er')"
      using ap ok ih(1) b by simp
    moreover have "dblb_bytes d' = dblb_bytes d @ concat (map fst (take (Suc k) (b # blocks)))"
      using ih(3) ok(5) b by simp
    moreover have "rc' = SUCCESS \<and> er' = er \<and> Suc k = length (b # blocks) \<or>
       rc' = ERR_NOMEM \<and> cause_code er' = ERR_NOMEM \<and> Suc k < length (b # blocks) \<and> \<not> libc_total os"
      using ih(4) by auto
    ultimately show ?thesis using ih(2) by blast
  qed
qed

definition db_demo :: dbl_buffer where
  "db_demo = \<lparr>db_data = Some [1, 2, 0, 0], db_size = 2, db_nelem_cap = 2, db_nelem = 1\<rparr>"

theorem dblb_appends_in_order_witness:
  "\<exists>d'. dblb_appends libc_ample db_demo [([3, 4], 1), ([5, 6, 7, 8], 2)] (Some error_create) = Some (SUCCESS, d', Some error_create) \<and>
     dblb_bytes d' = [1, 2, 3, 4, 5, 6, 7, 8]"
proof -
  have "dblb_wf db_demo" "cause_code error_create = SUCCESS"
    "\<forall>(src, n) \<in> set [([3, 4], 1), ([5, 6, 7, 8 :: u8], 2 :: u32)]. 0 < unat n \<and> length src = unat n * unat (db_size db_demo)"
    "2 * (unat (db_nelem db_demo) + (\<Sum>b\<leftarrow>[([3, 4], 1), ([5, 6, 7, 8 :: u8], 2 :: u32)]. unat (snd b))) * unat (db_size db_demo) < 4294967296"
    by (simp_all add: dblb_wf_def db_demo_def error_create_def)
  from dblb_appends_in_order [OF libc_ok_ample this] show ?thesis
    by (auto simp: db_demo_def dblb_bytes_def)
qed

text \<open>
  Counts that wrap. Where the old count and the added one exceed 32 bits and their wrapped sum is below the
  capacity, \<open>dblb_append_alloc\<close> succeeds without allocating: it returns the offset behind the old elements, and the count of elements goes down.
\<close>

theorem dblb_append_alloc_wraps:
  assumes "dblb_wf d" and "cause_code er = SUCCESS" and "4294967296 \<le> unat (db_nelem d) + unat n"
    and "db_nelem d + n < db_nelem_cap d"
  shows "dblb_append_alloc os d n (Some er) =
      Some (Some (db_nelem d * db_size d), d\<lparr>db_nelem := db_nelem d + n\<rparr>, Some er) \<and>
    db_nelem d + n < db_nelem d"
proof -
  have "unat (db_nelem d) < 4294967296" "unat n < 4294967296" by (rule u32_less_bound)+
  then have "unat (db_nelem d) + unat n - 4294967296 < 4294967296" by linarith
  then have "(unat (db_nelem d) + unat n) mod 4294967296 = unat (db_nelem d) + unat n - 4294967296"
    using assms(3) by (subst le_mod_geq) (simp_all only: mod_less)
  then have "unat (db_nelem d + n) = unat (db_nelem d) + unat n - 4294967296"
    by (simp add: u32_add_wraps)
  then have "db_nelem d + n < db_nelem d"
    using u32_less_bound [of n] assms(3) unfolding word_less_nat_alt by linarith
  then show ?thesis
    using dblb_wf_dbg [OF assms(1)] dblb_ensure_space_is_total [OF assms(2,4)] by (simp add: dblb_append_alloc_def)
qed

theorem dblb_append_alloc_wraps_witness:
  "dblb_append_alloc libc_ample db_demo 4294967295 (Some error_create) =
     Some (Some 2, db_demo\<lparr>db_nelem := 0\<rparr>, Some error_create)"
  using dblb_append_alloc_wraps [of db_demo error_create 4294967295 libc_ample]
  by (simp add: db_demo_def dblb_wf_def error_create_def)

lemma dblb_create_ok:
  assumes "libc_ok os" and "cause_code er = SUCCESS" and "0 < unat cap" and "0 < unat sz"
  shows "\<exists>rc dest er'. dblb_create os sz cap (Some er) = Some (rc, dest, Some er') \<and>
    (rc = ERR_NOMEM \<and> dest = None \<and> cause_code er' = ERR_NOMEM \<or>
     rc = SUCCESS \<and> er' = er \<and> (\<exists>d. dest = Some d \<and> dblb_wf d \<and> dblb_bytes d = []))"
  using assms lc_malloc_length [OF assms(1)]
  by (auto simp: dblb_create_def i_malloc_def nomem_def safe_mul_u32_def error_causef_fresh word_less_nat_alt
      u32_mult_nat dblb_dbg_def dblb_wf_def dblb_bytes_def split: option.split)

end
