(* ===== verification/Byte_stream.thy ===== *)
theory Byte_stream
  imports Cerror
begin

text \<open>
  The byte streams of \<^verbatim>\<open>ds/stream.c\<close>. The table of functions of a stream is the
  constructor of its kind together with the context that the functions keep; a limit stream holds the stream it wraps. The
  copy between streams, \<open>stream_read\<close>, is a loop over any pull and any push function, and the
  laws it needs of the two are locales, interpreted on the kinds of \<^verbatim>\<open>stream.c\<close>.
\<close>

section \<open>Streams\<close>

record ibuf_ctx =
  ib_buf :: "u8 list"
  ib_size :: u32
  ib_pos :: u32

record obuf_ctx =
  ob_buf :: "u8 list"
  ob_cap :: u32
  ob_pos :: u32

text \<open>The callback works on the staging buffer; \<open>os_calls\<close> are the buffers it has been given.\<close>

record opsink_ctx =
  os_op :: "u8 list \<Rightarrow> u8 list"
  os_buf :: "u8 list"
  os_size :: u32
  os_pos :: u32
  os_calls :: "u8 list list"

text \<open>The first argument is the \<open>done\<close> flag. A limit stream also has its limit and what it has consumed of it.\<close>

datatype stream =
  Ibuf bool ibuf_ctx
| Obuf bool obuf_ctx
| Sink bool
| Opsink bool opsink_ctx
| Limit bool stream u64 u64

fun stream_isdone :: "stream \<Rightarrow> bool" where
  "stream_isdone (Ibuf done _) = done"
| "stream_isdone (Obuf done _) = done"
| "stream_isdone (Sink done) = done"
| "stream_isdone (Opsink done _) = done"
| "stream_isdone (Limit done _ _ _) = done"

fun stream_finish :: "stream \<Rightarrow> stream" where
  "stream_finish (Ibuf _ c) = Ibuf True c"
| "stream_finish (Obuf _ c) = Obuf True c"
| "stream_finish (Sink _) = Sink True"
| "stream_finish (Opsink _ c) = Opsink True c"
| "stream_finish (Limit _ u limit consumed) = Limit True u limit consumed"

definition stream_ibuf_init :: "u8 list \<Rightarrow> u32 \<Rightarrow> stream" where
  "stream_ibuf_init buf sz = Ibuf False \<lparr>ib_buf = buf, ib_size = sz, ib_pos = 0\<rparr>"

definition stream_obuf_init :: "u8 list \<Rightarrow> u32 \<Rightarrow> stream" where
  "stream_obuf_init buf cap = Obuf False \<lparr>ob_buf = buf, ob_cap = cap, ob_pos = 0\<rparr>"

definition stream_sink_init :: stream where
  "stream_sink_init = Sink False"

definition stream_opsink_init :: "(u8 list \<Rightarrow> u8 list) \<Rightarrow> u8 list \<Rightarrow> u32 \<Rightarrow> stream" where
  "stream_opsink_init f buf sz = Opsink False \<lparr>os_op = f, os_buf = buf, os_size = sz, os_pos = 0, os_calls = []\<rparr>"

definition stream_limit_init :: "stream \<Rightarrow> u64 \<Rightarrow> stream" where
  "stream_limit_init underlying limit = Limit False underlying limit 0"

section \<open>Pull and push\<close>

text \<open>A missing entry of the table is a null pointer: calling it is undefined.\<close>

fun has_pull :: "stream \<Rightarrow> bool" where
  "has_pull (Ibuf _ _) = True"
| "has_pull (Limit _ _ _ _) = True"
| "has_pull _ = False"

fun has_push :: "stream \<Rightarrow> bool" where
  "has_push (Ibuf _ _) = False"
| "has_push _ = True"

text \<open>\<open>ctx\<rightarrow>consumed\<close> and the \<open>done\<close> flag after \<open>got\<close> elements have passed.\<close>

definition limit_after :: "bool \<Rightarrow> stream \<Rightarrow> u64 \<Rightarrow> u64 \<Rightarrow> int \<Rightarrow> u32 \<Rightarrow> stream" where
  "limit_after done u limit consumed got sz =
     (let consumed = consumed + word_of_int got * ucast sz in
      Limit (done \<or> consumed \<ge> limit \<or> stream_isdone u) u limit consumed)"

definition limit_capped :: "u32 \<Rightarrow> u32 \<Rightarrow> u64 \<Rightarrow> u32" where
  "limit_capped sz n remaining = ucast (min (ucast (sz * n)) remaining div ucast sz :: u64)"

definition stream_ibuf_pull ::
  "bool \<Rightarrow> ibuf_ctx \<Rightarrow> u8 list \<Rightarrow> u32 \<Rightarrow> u32 \<Rightarrow> errp \<Rightarrow> (int \<times> u8 list \<times> stream \<times> errp) option" where
  "stream_ibuf_pull done c dest sz n e =
     (let avail = ib_size c - ib_pos c; nxt = min avail (sz * n) in
      if nxt = 0 then Some (0, dest, (if avail = 0 then stream_finish (Ibuf done c) else Ibuf done c), e)
      else do {
        bs \<leftarrow> mem_load (ib_buf c) (unat (ib_pos c)) (unat nxt);
        dest \<leftarrow> mem_store dest 0 bs;
        Some (as_i32 (uint (nxt div sz)), dest, Ibuf done (c\<lparr>ib_pos := ib_pos c + nxt\<rparr>), e)
      })"

fun stream_pull :: "stream \<Rightarrow> u8 list \<Rightarrow> u32 \<Rightarrow> u32 \<Rightarrow> errp \<Rightarrow> (int \<times> u8 list \<times> stream \<times> errp) option" where
  "stream_pull (Ibuf done c) dest sz n e = stream_ibuf_pull done c dest sz n e"
| "stream_pull (Limit done u limit consumed) dest sz n e =
     (let remaining = limit - consumed in
      if remaining = 0 then Some (0, dest, stream_finish (Limit done u limit consumed), e)
      else do {
        ASSERT (sz \<noteq> 0);
        let capped_n = limit_capped sz n remaining;
        if capped_n = 0 then Some (0, dest, stream_finish (Limit done u limit consumed), e)
        else do {
          (got, dest, u, e) \<leftarrow> stream_pull u dest sz capped_n e;
          if got < 0 then Some (got, dest, Limit done u limit consumed, e)
          else Some (got, dest, limit_after done u limit consumed got sz, e)
        }
      })"
| "stream_pull _ dest sz n e = None"

definition stream_obuf_push ::
  "bool \<Rightarrow> obuf_ctx \<Rightarrow> u8 list \<Rightarrow> u32 \<Rightarrow> u32 \<Rightarrow> errp \<Rightarrow> (int \<times> stream \<times> errp) option" where
  "stream_obuf_push done c src sz n e =
     (let avail = ob_cap c - ob_pos c; nxt = min avail (sz * n) in
      if nxt = 0 then Some (0, (if avail = 0 then stream_finish (Obuf done c) else Obuf done c), e)
      else do {
        bs \<leftarrow> mem_load src 0 (unat nxt);
        buf \<leftarrow> mem_store (ob_buf c) (unat (ob_pos c)) bs;
        Some (as_i32 (uint (nxt div sz)), Obuf done (c\<lparr>ob_buf := buf, ob_pos := ob_pos c + nxt\<rparr>), e)
      })"

definition stream_opsink_push ::
  "bool \<Rightarrow> opsink_ctx \<Rightarrow> u8 list \<Rightarrow> u32 \<Rightarrow> u32 \<Rightarrow> errp \<Rightarrow> (int \<times> stream \<times> errp) option" where
  "stream_opsink_push done c src sz n e =
     (let avail = os_size c - os_pos c; nxt = min avail (sz * n) in
      if nxt = 0 then Some (0, Opsink done c, e)
      else do {
        bs \<leftarrow> mem_load src 0 (unat nxt);
        buf \<leftarrow> mem_store (os_buf c) (unat (os_pos c)) bs;
        let c = c\<lparr>os_buf := buf, os_pos := os_pos c + nxt\<rparr>;
        let c = (if os_pos c = os_size c
                 then c\<lparr>os_buf := os_op c buf, os_calls := os_calls c @ [take (unat (os_size c)) buf], os_pos := 0\<rparr> else c);
        Some (as_i32 (uint (nxt div sz)), Opsink done c, e)
      })"

definition stream_sink_push :: "bool \<Rightarrow> u8 list \<Rightarrow> u32 \<Rightarrow> u32 \<Rightarrow> errp \<Rightarrow> (int \<times> stream \<times> errp) option" where
  "stream_sink_push done src sz n e = Some (as_i32 (uint n), Sink done, e)"

fun stream_push :: "stream \<Rightarrow> u8 list \<Rightarrow> u32 \<Rightarrow> u32 \<Rightarrow> errp \<Rightarrow> (int \<times> stream \<times> errp) option" where
  "stream_push (Obuf done c) src sz n e = stream_obuf_push done c src sz n e"
| "stream_push (Sink done) src sz n e = stream_sink_push done src sz n e"
| "stream_push (Opsink done c) src sz n e = stream_opsink_push done c src sz n e"
| "stream_push (Limit done u limit consumed) src sz n e =
     (let remaining = limit - consumed in
      if remaining = 0 then Some (0, stream_finish (Limit done u limit consumed), e)
      else do {
        ASSERT (sz \<noteq> 0);
        let capped_n = limit_capped sz n remaining;
        if capped_n = 0 then Some (0, stream_finish (Limit done u limit consumed), e)
        else do {
          (put, u, e) \<leftarrow> stream_push u src sz capped_n e;
          if put < 0 then Some (put, Limit done u limit consumed, e)
          else Some (put, limit_after done u limit consumed put sz, e)
        }
      })"
| "stream_push (Ibuf done c) src sz n e = None"

definition stream_bread :: "u8 list \<Rightarrow> u32 \<Rightarrow> u32 \<Rightarrow> stream \<Rightarrow> errp \<Rightarrow> (int \<times> u8 list \<times> stream \<times> errp) option" where
  "stream_bread dest sz n src e = stream_pull src dest sz n e"

definition stream_bwrite :: "u8 list \<Rightarrow> u32 \<Rightarrow> u32 \<Rightarrow> stream \<Rightarrow> errp \<Rightarrow> (int \<times> stream \<times> errp) option" where
  "stream_bwrite buf sz n dest e = stream_push dest buf sz n e"

section \<open>Copying\<close>

type_synonym 's pull_fn = "'s \<Rightarrow> u8 list \<Rightarrow> u32 \<Rightarrow> u32 \<Rightarrow> errp \<Rightarrow> (int \<times> u8 list \<times> 's \<times> errp) option"
type_synonym 'd push_fn = "'d \<Rightarrow> u8 list \<Rightarrow> u32 \<Rightarrow> u32 \<Rightarrow> errp \<Rightarrow> (int \<times> 'd \<times> errp) option"

text \<open>The inner loop: a negative first component is the \<open>return w\<close>.\<close>

partial_function (option) push_loop ::
  "'d push_fn \<Rightarrow> u8 list \<Rightarrow> u32 \<Rightarrow> u32 \<Rightarrow> u32 \<Rightarrow> 'd \<Rightarrow> errp \<Rightarrow> (int \<times> u32 \<times> 'd \<times> errp) option" where
  "push_loop push buf sz got pushed d e =
     (if pushed < got then
        Option.bind (push d (drop (unat (pushed * sz)) buf) sz (got - pushed) e) (\<lambda>(w, d, e).
          if w < 0 then Some (w, pushed, d, e)
          else if w = 0 then Some (0, pushed, d, e)
          else push_loop push buf sz got (pushed + word_of_int w) d e)
      else Some (0, pushed, d, e))"

declare push_loop.simps [code]

partial_function (option) copy_loop ::
  "'d push_fn \<Rightarrow> 's pull_fn \<Rightarrow> u32 \<Rightarrow> u32 \<Rightarrow> u8 list \<Rightarrow> u32 \<Rightarrow> u32 \<Rightarrow> 'd \<Rightarrow> 's \<Rightarrow> errp \<Rightarrow> (int \<times> 'd \<times> 's \<times> errp) option" where
  "copy_loop push pull sz batch_max buf tot remaining d s e =
     (if 0 < remaining then
        Option.bind (pull s buf sz (if remaining < batch_max then remaining else batch_max) e) (\<lambda>(got, buf, s, e).
          if got < 0 then Some (got, d, s, e)
          else if got = 0 then Some (as_i32 (uint tot), d, s, e)
          else Option.bind (push_loop push buf sz (word_of_int got) 0 d e) (\<lambda>(w, pushed, d, e).
            if w < 0 then Some (w, d, s, e)
            else if pushed < word_of_int got then Some (as_i32 (uint (tot + pushed)), d, s, e)
            else copy_loop push pull sz batch_max buf (tot + pushed) (remaining - pushed) d s e))
      else Some (as_i32 (uint tot), d, s, e))"

declare copy_loop.simps [code]

text \<open>The stack buffer has 4096 bytes, whatever the size of an element.\<close>

definition copy_elements ::
  "'d push_fn \<Rightarrow> 's pull_fn \<Rightarrow> 'd \<Rightarrow> u32 \<Rightarrow> u32 \<Rightarrow> 's \<Rightarrow> errp \<Rightarrow> (int \<times> 'd \<times> 's \<times> errp) option" where
  "copy_elements push pull dest sz n src e = do {
     ASSERT (sz \<noteq> 0);
     let batch_max = (if 4096 div sz = 0 then 1 else 4096 div sz);
     copy_loop push pull sz batch_max (replicate 4096 0) 0 n dest src e
   }"

definition stream_read :: "stream \<Rightarrow> u32 \<Rightarrow> u32 \<Rightarrow> stream \<Rightarrow> errp \<Rightarrow> (int \<times> stream \<times> stream \<times> errp) option" where
  "stream_read dest sz n src e = do {
     ASSERT (has_push dest);
     ASSERT (has_pull src);
     copy_elements stream_push stream_pull dest sz n src e
   }"


section \<open>The laws of a source and of a sink\<close>

text \<open>
  \<open>rest sz s\<close> are the bytes a source still has for a reader of elements of \<open>sz\<close> bytes, and
  \<open>took d bs d'\<close> says that \<open>d'\<close> is \<open>d\<close> after accepting \<open>bs\<close>. A source that delivers nothing is finished; a sink accepts nothing only when it is full.
\<close>

locale stream_source =
  fixes pull :: "'s pull_fn"
    and ready :: "u32 \<Rightarrow> 's \<Rightarrow> bool"
    and rest :: "u32 \<Rightarrow> 's \<Rightarrow> u8 list"
    and finished :: "'s \<Rightarrow> bool"
  assumes pull_law:
    "\<lbrakk>ready sz s; 0 < unat sz; 0 < unat n; unat n * unat sz \<le> length buf; unat n * unat sz < 2147483648\<rbrakk> \<Longrightarrow>
     \<exists>k s'. pull s buf sz n e = Some (int k, overwrite buf 0 (take (k * unat sz) (rest sz s)), s', e) \<and>
       ready sz s' \<and> rest sz s' = drop (k * unat sz) (rest sz s) \<and> k \<le> unat n \<and> k * unat sz \<le> length (rest sz s) \<and>
       (k = 0 \<longrightarrow> rest sz s = [] \<and> finished s')"

locale stream_sink =
  fixes push :: "'d push_fn"
    and accepts :: "u32 \<Rightarrow> 'd \<Rightarrow> bool"
    and took :: "'d \<Rightarrow> u8 list \<Rightarrow> 'd \<Rightarrow> bool"
    and full :: "u32 \<Rightarrow> 'd \<Rightarrow> bool"
  assumes push_law:
    "\<lbrakk>accepts sz d; 0 < unat sz; 0 < unat n; unat n * unat sz \<le> length bs; unat n * unat sz < 2147483648\<rbrakk> \<Longrightarrow>
     \<exists>k d'. push d bs sz n e = Some (int k, d', e) \<and> accepts sz d' \<and> took d (take (k * unat sz) bs) d' \<and>
       k \<le> unat n \<and> (k = 0 \<longrightarrow> full sz d')"
    and took_refl: "accepts sz d \<Longrightarrow> took d [] d"
    and took_trans: "took d as d1 \<Longrightarrow> took d1 bs d2 \<Longrightarrow> took d (as @ bs) d2"
begin

lemma push_loop_ok:
  assumes sz: "0 < unat sz" and fits: "unat got * unat sz \<le> length buf" "unat got * unat sz < 2147483648"
  shows "accepts sz d \<Longrightarrow> unat pushed \<le> unat got \<Longrightarrow>
    \<exists>k d'. push_loop push buf sz got pushed d e = Some (0, k, d', e) \<and> accepts sz d' \<and>
      took d (take ((unat k - unat pushed) * unat sz) (drop (unat pushed * unat sz) buf)) d' \<and>
      unat pushed \<le> unat k \<and> unat k \<le> unat got \<and> (unat k < unat got \<longrightarrow> full sz d')"
proof (induction "unat got - unat pushed" arbitrary: pushed d rule: less_induct)
  case less
  let ?z = "unat sz"
  show ?case
  proof (cases "pushed < got")
    case False
    then show ?thesis
      using less.prems took_refl by (subst push_loop.simps) (auto simp: word_less_nat_alt)
  next
    case True
    then have lt: "unat pushed < unat got" by (simp add: word_less_nat_alt)
    have le: "unat pushed * ?z \<le> unat got * ?z" by (rule mult_le_mono1) (use lt in simp)
    then have off: "unat (pushed * sz) = unat pushed * ?z" using fits(2)
      by (intro u32_mult_nat) linarith
    have left: "unat (got - pushed) = unat got - unat pushed" using lt by simp
    let ?src = "drop (unat pushed * ?z) buf"
    have "unat (got - pushed) * ?z \<le> length ?src" "unat (got - pushed) * ?z < 2147483648" "0 < unat (got - pushed)"
      unfolding left using fits le lt by (simp_all add: diff_mult_distrib)
    from push_law [OF less.prems(1) sz this(3,1,2), of e] obtain w d1 where
      w: "push d ?src sz (got - pushed) e = Some (int w, d1, e)" "accepts sz d1" "took d (take (w * ?z) ?src) d1"
        "w \<le> unat got - unat pushed" "w = 0 \<longrightarrow> full sz d1"
      unfolding left by blast
    show ?thesis
    proof (cases "w = 0")
      case z: True
      then have "push_loop push buf sz got pushed d e = Some (0, pushed, d1, e)"
        using True w(1) off by (subst push_loop.simps) simp
      then show ?thesis using w z lt by simp
    next
      case False
      let ?p = "pushed + word_of_int (int w)"
      have "w < 4294967296" using w(4) u32_less_bound [of got] by linarith
      then have wn: "unat (word_of_int (int w) :: u32) = w" by (simp add: unat_of_nat)
      have p: "unat ?p = unat pushed + w"
      proof -
        have "unat pushed + unat (word_of_int (int w) :: u32) < 4294967296"
          unfolding wn using w(4) lt u32_less_bound [of got] by linarith
        from u32_add_nat [OF this] show ?thesis by (simp only: wn)
      qed
      have "unat got - unat ?p < unat got - unat pushed" "unat ?p \<le> unat got" using p False w(4) lt by simp_all
      from less.hyps [OF this(1) w(2) this(2)] obtain k d' where
        ih: "push_loop push buf sz got ?p d1 e = Some (0, k, d', e)" "accepts sz d'"
          "took d1 (take ((unat k - unat ?p) * ?z) (drop (unat ?p * ?z) buf)) d'"
          "unat ?p \<le> unat k" "unat k \<le> unat got" "unat k < unat got \<longrightarrow> full sz d'" by blast
      have step: "push_loop push buf sz got pushed d e = push_loop push buf sz got ?p d1 e"
        using True w(1) off False by (subst push_loop.simps) simp
      have "take ((unat k - unat pushed) * ?z) ?src
          = take (w * ?z) ?src @ take ((unat k - unat ?p) * ?z) (drop (unat ?p * ?z) buf)"
      proof -
        have "(unat k - unat pushed) * ?z = w * ?z + (unat k - unat ?p) * ?z"
          using p ih(4) by (simp add: add_mult_distrib [symmetric])
        then show ?thesis by (simp only: take_add drop_drop p add_mult_distrib add.commute)
      qed
      with took_trans [OF w(3) ih(3)] have "took d (take ((unat k - unat pushed) * ?z) ?src) d'" by simp
      then show ?thesis using step ih p by (intro exI [of _ k] exI [of _ d']) simp
    qed
  qed
qed

end


text \<open>A source and a sink joined by the copy.\<close>

locale stream_copy = stream_source pull ready rest finished + stream_sink push accepts took full
  for pull :: "'s pull_fn" and ready :: "u32 \<Rightarrow> 's \<Rightarrow> bool" and rest :: "u32 \<Rightarrow> 's \<Rightarrow> u8 list" and finished :: "'s \<Rightarrow> bool"
    and push :: "'d push_fn" and accepts :: "u32 \<Rightarrow> 'd \<Rightarrow> bool" and took :: "'d \<Rightarrow> u8 list \<Rightarrow> 'd \<Rightarrow> bool"
    and full :: "u32 \<Rightarrow> 'd \<Rightarrow> bool"
begin

lemma copy_loop_ok:
  assumes sz: "0 < unat sz" and bm: "0 < unat bm" "unat bm * unat sz \<le> 4096"
    and n: "unat (n :: u32) < 2147483648"
  shows "\<lbrakk>ready sz s; accepts sz d; unat tot + unat remaining = unat n; length buf = 4096\<rbrakk> \<Longrightarrow>
    \<exists>t p d' s'. copy_loop push pull sz bm buf tot remaining d s e = Some (int (unat tot + t), d', s', e) \<and>
      took d (take (t * unat sz) (rest sz s)) d' \<and> rest sz s' = drop (p * unat sz) (rest sz s) \<and>
      p * unat sz \<le> length (rest sz s) \<and> t \<le> p \<and> p \<le> unat remaining \<and> (t < p \<longrightarrow> full sz d') \<and>
      (p < unat remaining \<longrightarrow> full sz d' \<or> rest sz s' = [] \<and> finished s')"
proof (induction "unat remaining" arbitrary: remaining tot buf d s rule: less_induct)
  case less
  let ?z = "unat sz"
  have ret: "as_i32 (uint x) = int (unat x)" if "unat x \<le> unat n" for x :: u32
  proof -
    have "int (unat x) < 2147483648" using that n by linarith
    then show ?thesis by (simp add: as_i32_small)
  qed
  show ?case
  proof (cases "0 < remaining")
    case False
    then have r0: "unat remaining = 0" by (simp add: word_less_nat_alt)
    have "copy_loop push pull sz bm buf tot remaining d s e = Some (int (unat tot + 0), d, s, e)"
      using False ret [of tot] less.prems(3) by (subst copy_loop.simps) simp
    moreover have "took d (take (0 * ?z) (rest sz s)) d" using took_refl [OF less.prems(2)] by simp
    moreover have "rest sz s = drop (0 * ?z) (rest sz s)" by simp
    ultimately show ?thesis using r0
      by (intro exI [of _ 0] exI [of _ d] exI [of _ s]) (simp del: mult_zero_left)
  next
    case True
    then have pos: "0 < unat remaining" by (simp add: word_less_nat_alt)
    define b where "b = (if remaining < bm then remaining else bm)"
    have b: "0 < unat b" "unat b \<le> unat remaining" "unat b \<le> unat bm"
      using pos bm by (auto simp: b_def word_less_nat_alt)
    have "unat b * ?z \<le> unat bm * ?z" by (rule mult_le_mono1) (rule b(3))
    then have fit: "unat b * ?z \<le> length buf" "unat b * ?z < 2147483648" using bm less.prems(4) by linarith+
    from pull_law [OF less.prems(1) sz b(1) fit, of e] obtain k s1 where
      k: "pull s buf sz b e = Some (int k, overwrite buf 0 (take (k * ?z) (rest sz s)), s1, e)" "ready sz s1"
        "rest sz s1 = drop (k * ?z) (rest sz s)" "k \<le> unat b" "k * ?z \<le> length (rest sz s)"
        "k = 0 \<longrightarrow> rest sz s = [] \<and> finished s1" by blast
    let ?buf = "overwrite buf 0 (take (k * ?z) (rest sz s))"
    show ?thesis
    proof (cases "k = 0")
      case k0: True
      have "copy_loop push pull sz bm buf tot remaining d s e = Some (int (unat tot + 0), d, s1, e)"
        using True k(1) k0 ret [of tot] less.prems(3) b_def by (subst copy_loop.simps) simp
      moreover have "took d (take (0 * ?z) (rest sz s)) d" using took_refl [OF less.prems(2)] by simp
      moreover have "rest sz s1 = drop (0 * ?z) (rest sz s)" "rest sz s1 = [] \<and> finished s1" using k k0 by simp_all
      ultimately show ?thesis
        by (intro exI [of _ 0] exI [of _ d] exI [of _ s1]) (simp del: mult_zero_left)
    next
      case False
      define got :: u32 where "got = word_of_int (int k)"
      have kb: "k * ?z \<le> unat b * ?z" by (rule mult_le_mono1) (rule k(4))
      have "k < 4294967296" using k(4) u32_less_bound [of b] by linarith
      then have got: "unat got = k" by (simp add: got_def unat_of_nat)
      have "k * ?z \<le> length buf" "length (take (k * ?z) (rest sz s)) = k * ?z"
        using order_trans [OF kb fit(1)] k(5) by simp_all
      then have lb: "length ?buf = 4096" and data: "take (k * ?z) ?buf = take (k * ?z) (rest sz s)"
        using less.prems(4) by (simp_all add: overwrite_def)
      have "unat got * ?z \<le> length ?buf" "unat got * ?z < 2147483648"
        unfolding got lb using kb fit less.prems(4) by linarith+
      from push_loop_ok [OF sz this less.prems(2), of 0 e] obtain q d1 where
        q: "push_loop push ?buf sz got 0 d e = Some (0, q, d1, e)" "accepts sz d1"
          "took d (take (unat q * ?z) ?buf) d1" "unat q \<le> k" "unat q < k \<longrightarrow> full sz d1"
        unfolding got by auto
      have taken: "take (unat q * ?z) ?buf = take (unat q * ?z) (rest sz s)"
      proof -
        have "unat q * ?z \<le> k * ?z" by (rule mult_le_mono1) (rule q(4))
        then show ?thesis using arg_cong [OF data, of "take (unat q * ?z)"] by (simp add: min_def)
      qed
      have qn: "unat q \<le> unat remaining" using q(4) k(4) b(2) by linarith
      have tot: "unat (tot + q) = unat tot + unat q"
        by (rule u32_add_nat) (use less.prems(3) qn u32_less_bound [of n] in linarith)
      have step: "copy_loop push pull sz bm buf tot remaining d s e =
          (if q < got then Some (as_i32 (uint (tot + q)), d1, s1, e)
           else copy_loop push pull sz bm ?buf (tot + q) (remaining - q) d1 s1 e)"
        using True k(1) False q(1) b_def got_def by (subst copy_loop.simps) simp
      show ?thesis
      proof (cases "q < got")
        case short: True
        then have "full sz d1" "unat q < k" using q(5) got by (simp_all add: word_less_nat_alt)
        moreover have "copy_loop push pull sz bm buf tot remaining d s e = Some (int (unat tot + unat q), d1, s1, e)"
          using step short ret [of "tot + q"] tot less.prems(3) qn by simp
        ultimately show ?thesis
          using q(3) taken k(3,4,5) b(2)
          by (intro exI [of _ "unat q"] exI [of _ k] exI [of _ d1] exI [of _ s1]) simp
      next
        case full: False
        then have qk: "unat q = k" using q(4) got by (simp add: word_less_nat_alt)
        have rem: "unat (remaining - q) = unat remaining - k" using qn qk by simp
        have "unat (remaining - q) < unat remaining" "unat (tot + q) + unat (remaining - q) = unat n"
          using rem False qn qk tot less.prems(3) pos by simp_all
        from less.hyps [OF this(1) k(2) q(2) this(2) lb] obtain t p d' s' where
          ih: "copy_loop push pull sz bm ?buf (tot + q) (remaining - q) d1 s1 e = Some (int (unat (tot + q) + t), d', s', e)"
            "took d1 (take (t * ?z) (rest sz s1)) d'" "rest sz s' = drop (p * ?z) (rest sz s1)"
            "p * ?z \<le> length (rest sz s1)" "t \<le> p" "p \<le> unat (remaining - q)" "t < p \<longrightarrow> full sz d'"
            "p < unat (remaining - q) \<longrightarrow> full sz d' \<or> rest sz s' = [] \<and> finished s'"
          by (elim exE conjE)
        have "take ((k + t) * ?z) (rest sz s) = take (k * ?z) (rest sz s) @ take (t * ?z) (rest sz s1)"
          unfolding k(3) by (simp add: add_mult_distrib take_add)
        then have "took d (take ((k + t) * ?z) (rest sz s)) d'"
          using took_trans [OF q(3) ih(2)] taken qk by simp
        moreover have "rest sz s' = drop ((k + p) * ?z) (rest sz s)"
          using ih(3) k(3) by (simp add: add_mult_distrib add.commute)
        moreover have "(k + p) * ?z \<le> length (rest sz s)"
          using ih(4) k(3,5) by (simp add: add_mult_distrib)
        moreover have "copy_loop push pull sz bm buf tot remaining d s e = Some (int (unat tot + (k + t)), d', s', e)"
          using step full ih(1) tot qk by simp
        ultimately show ?thesis
          using ih(5-8) rem qn qk
          by (intro exI [of _ "k + t"] exI [of _ "k + p"] exI [of _ d'] exI [of _ s']) auto
      qed
    qed
  qed
qed

lemma copy_elements_ok:
  assumes "0 < unat sz" and "unat sz \<le> 4096" and "unat (n :: u32) < 2147483648" and "ready sz s" and "accepts sz d"
  shows "\<exists>t p d' s'. copy_elements push pull d sz n s e = Some (int t, d', s', e) \<and>
      took d (take (t * unat sz) (rest sz s)) d' \<and> rest sz s' = drop (p * unat sz) (rest sz s) \<and>
      p * unat sz \<le> length (rest sz s) \<and> t \<le> p \<and> p \<le> unat n \<and> (t < p \<longrightarrow> full sz d') \<and>
      (p < unat n \<longrightarrow> full sz d' \<or> rest sz s' = [] \<and> finished s')"
proof -
  let ?bm = "4096 div sz"
  have bm: "unat ?bm = 4096 div unat sz" by (simp add: unat_div_distrib)
  have pos: "0 < unat ?bm" "unat ?bm * unat sz \<le> 4096"
    unfolding bm using assms(1,2) by (simp_all add: div_greater_zero_iff)
  have nz: "sz \<noteq> 0" "?bm \<noteq> 0" using assms(1) pos(1) by auto
  have "unat (0 :: u32) + unat n = unat n" by simp
  from copy_loop_ok [OF assms(1) pos assms(3,4,5) this, of "replicate 4096 0" e] show ?thesis
    using nz by (simp add: copy_elements_def Let_def)
qed

end

section \<open>The streams as sources\<close>

text \<open>A limit stream has of its source what whole elements fit the limit.\<close>

fun stream_rest :: "u32 \<Rightarrow> stream \<Rightarrow> u8 list" where
  "stream_rest sz (Ibuf done c) = take (unat (ib_size c) - unat (ib_pos c)) (drop (unat (ib_pos c)) (ib_buf c))"
| "stream_rest sz (Limit done u limit consumed) =
     take ((unat limit - unat consumed) div unat sz * unat sz) (stream_rest sz u)"
| "stream_rest sz _ = []"

fun stream_ready :: "u32 \<Rightarrow> stream \<Rightarrow> bool" where
  "stream_ready sz (Ibuf done c) \<longleftrightarrow> unat (ib_pos c) \<le> unat (ib_size c) \<and> unat (ib_size c) \<le> length (ib_buf c) \<and>
     unat sz dvd unat (ib_size c) - unat (ib_pos c)"
| "stream_ready sz (Limit done u limit consumed) \<longleftrightarrow> unat consumed \<le> unat limit \<and> stream_ready sz u"
| "stream_ready sz _ = False"

lemma whole_elements:
  fixes a n z :: nat
  assumes "z dvd a" "0 < z"
  shows "min a (z * n) div z \<le> n" "min a (z * n) = min a (z * n) div z * z"
    "min a (z * n) div z * z \<le> a" "0 < n \<Longrightarrow> min a (z * n) div z = 0 \<Longrightarrow> a = 0"
proof -
  from assms obtain q where a: "a = z * q" by (elim dvdE)
  then have m: "min a (z * n) = z * min q n" by (simp add: nat_mult_min_right)
  show "min a (z * n) div z \<le> n" "min a (z * n) = min a (z * n) div z * z" "min a (z * n) div z * z \<le> a"
    using assms(2) unfolding m by (simp_all add: a)
  show "0 < n \<Longrightarrow> min a (z * n) div z = 0 \<Longrightarrow> a = 0"
    using assms(2) unfolding m by (auto simp: a min_def split: if_splits)
qed

text \<open>The number of bytes a buffer stream moves is that of whole elements.\<close>

lemma buffer_step:
  assumes a: "unat (pos :: u32) \<le> unat lim" "unat sz dvd unat lim - unat pos" and z: "0 < unat sz"
    and n: "0 < unat n" "unat n * unat sz < 2147483648"
  defines "nxt \<equiv> min (lim - pos) (sz * n)"
  defines "k \<equiv> unat (nxt div sz)"
  shows "unat nxt = k * unat sz" "k \<le> unat n" "k * unat sz \<le> unat lim - unat pos" "k = 0 \<longleftrightarrow> nxt = 0"
    "k = 0 \<Longrightarrow> unat lim = unat pos" "as_i32 (uint (nxt div sz)) = int k" "unat (pos + nxt) = unat pos + k * unat sz"
    "unat sz dvd unat lim - (unat pos + k * unat sz)"
proof -
  let ?z = "unat sz" and ?a = "unat lim - unat pos"
  have av: "unat (lim - pos) = ?a" using a(1) by simp
  have "?z * unat n < 2147483648" using n(2) by (simp only: mult.commute)
  then have want: "unat (sz * n) = ?z * unat n" by (intro u32_mult_nat) linarith
  have un: "unat nxt = min ?a (?z * unat n)" using av want by (simp add: nxt_def wnat)
  have k: "k = min ?a (?z * unat n) div ?z" unfolding k_def un [symmetric] by (simp add: unat_div_distrib)
  note w = whole_elements [OF a(2) z, of "unat n"]
  show e: "unat nxt = k * ?z" unfolding k un by (rule w(2))
  show kn: "k \<le> unat n" and ka: "k * ?z \<le> ?a" using w(1,3) k by simp_all
  show "k = 0 \<longleftrightarrow> nxt = 0" using e z by (auto simp: u32_eq_nat)
  show "k = 0 \<Longrightarrow> unat lim = unat pos" using w(4) [OF n(1)] k a(1) by simp
  have "unat n * 1 \<le> unat n * ?z" by (rule mult_le_mono2) (use z in simp)
  then have "int k < 2147483648" using kn n(2) by linarith
  then show "as_i32 (uint (nxt div sz)) = int k" unfolding k_def by (simp add: as_i32_small)
  show "unat (pos + nxt) = unat pos + k * ?z"
  proof -
    have "unat pos + unat nxt < 4294967296" unfolding e using ka a(1) u32_less_bound [of lim] by linarith
    then show ?thesis by (simp only: u32_add_nat e)
  qed
  show "?z dvd unat lim - (unat pos + k * ?z)"
    using dvd_diff_nat [OF a(2), of "k * ?z"] by (simp only: diff_diff_left dvd_triv_right)
qed

lemma limit_capped_nat:
  assumes z: "0 < unat sz" and n: "unat n * unat sz < 2147483648"
  shows "unat (limit_capped sz n r) = min (unat n) (unat r div unat sz)"
proof -
  let ?z = "unat sz"
  have "?z * unat n < 2147483648" using n by (simp only: mult.commute)
  then have w: "unat (sz * n) = ?z * unat n" by (intro u32_mult_nat) linarith
  have up: "unat (ucast x :: u64) = unat x" for x :: u32
  proof -
    have "unat x < 2 ^ 64" by (rule less_trans [OF u32_less_bound]) simp
    then show ?thesis by (simp add: unsigned_ucast_eq take_bit_nat_eq_self del: power_numeral)
  qed
  have m: "unat (min (ucast (sz * n)) r :: u64) = min (?z * unat n) (unat r)"
    using up [of "sz * n"] w by (simp add: min_def word_le_nat_alt)
  have "min (?z * unat n) (unat r) div ?z = min (unat n) (unat r div ?z)"
  proof (cases "unat n \<le> unat r div ?z")
    case True
    then have "?z * unat n \<le> unat r" using less_eq_div_iff_mult_less_eq [OF z] by (simp add: mult.commute)
    then show ?thesis using True z by (simp add: min_def)
  next
    case False
    then have "\<not> ?z * unat n \<le> unat r" using less_eq_div_iff_mult_less_eq [OF z] by (simp add: mult.commute)
    then show ?thesis using False by (simp add: min_def)
  qed
  then have d: "unat (min (ucast (sz * n)) r div ucast sz :: u64) = min (unat n) (unat r div ?z)"
    by (simp only: unat_div_distrib m up)
  have "min (unat n) (unat r div ?z) < 4294967296" using u32_less_bound [of n] by linarith
  then show ?thesis
    unfolding limit_capped_def by (simp add: unsigned_ucast_eq d take_bit_nat_eq_self)
qed

lemma limit_left:
  fixes r k z :: nat
  assumes "0 < z" "k \<le> r div z"
  shows "k * z \<le> r div z * z" "k * z \<le> r" "(r - k * z) div z = r div z - k"
proof -
  show 1: "k * z \<le> r div z * z" by (rule mult_le_mono1) (rule assms(2))
  then show 2: "k * z \<le> r" using div_times_less_eq_dividend [of r z] by linarith
  have "r div z = (k * z + (r - k * z)) div z" using 2 by simp
  also have "\<dots> = k + (r - k * z) div z" using assms(1) by simp
  finally show "(r - k * z) div z = r div z - k" by simp
qed

lemma limit_after_nat:
  assumes "unat consumed + k * unat sz \<le> unat (limit :: u64)"
  shows "unat (consumed + word_of_int (int k) * ucast (sz :: u32) :: u64) = unat consumed + k * unat sz"
proof -
  have "unat sz < 2 ^ 64" by (rule less_trans [OF u32_less_bound]) simp
  then have up: "unat (ucast sz :: u64) = unat sz" by (simp add: unsigned_ucast_eq take_bit_nat_eq_self del: power_numeral)
  have lim: "k * unat sz < 18446744073709551616" using assms u64_less_bound [of limit] by linarith
  show ?thesis
  proof (cases "unat sz = 0")
    case True
    then have "sz = 0" by (simp add: word_unat_eq_iff)
    then show ?thesis by simp
  next
    case False
    then have "k * 1 \<le> k * unat sz" by (intro mult_le_mono2) simp
    then have "k < 18446744073709551616" using lim by linarith
    then have kn: "unat (word_of_int (int k) :: u64) = k" by (simp add: unat_of_nat)
    have m: "unat (word_of_int (int k) * ucast sz :: u64) = k * unat sz"
      using u64_mult_nat [of "word_of_int (int k)" "ucast sz"] lim by (simp only: kn up)
    show ?thesis
    proof -
      have "unat consumed + unat (word_of_int (int k) * ucast sz :: u64) < 18446744073709551616"
        unfolding m using assms u64_less_bound [of limit] by linarith
      from u64_add_nat [OF this] show ?thesis by (simp only: m)
    qed
  qed
qed

lemma stream_pull_ok:
  "\<lbrakk>stream_ready sz s; 0 < unat sz; 0 < unat n; unat n * unat sz \<le> length buf; unat n * unat sz < 2147483648\<rbrakk> \<Longrightarrow>
   \<exists>k s'. stream_pull s buf sz n e =
       Some (int k, overwrite buf 0 (take (k * unat sz) (stream_rest sz s)), s', e) \<and>
     stream_ready sz s' \<and> stream_rest sz s' = drop (k * unat sz) (stream_rest sz s) \<and> k \<le> unat n \<and>
     k * unat sz \<le> length (stream_rest sz s) \<and> (k = 0 \<longrightarrow> stream_rest sz s = [] \<and> stream_isdone s')"
proof (induction s arbitrary: n)
  case (Ibuf dn c)
  let ?z = "unat sz" and ?p = "unat (ib_pos c)" and ?l = "unat (ib_size c)"
  have c: "?p \<le> ?l" "?l \<le> length (ib_buf c)" "?z dvd ?l - ?p" using Ibuf.prems by auto
  define nxt where "nxt = min (ib_size c - ib_pos c) (sz * n)"
  define k where "k = unat (nxt div sz)"
  note b = buffer_step [OF c(1,3) Ibuf.prems(2,3,5), folded nxt_def, folded k_def]
  show ?case
  proof (cases "nxt = 0")
    case True
    then have "ib_size c = ib_pos c" using b(4,5) by (simp add: word_unat_eq_iff)
    then show ?thesis using Ibuf.prems True nxt_def by (intro exI [of _ 0]) (simp add: stream_ibuf_pull_def)
  next
    case False
    have rest: "k * ?z \<le> length (stream_rest sz (Ibuf dn c))" using b(3) c(2) by simp
    have kn: "k * ?z \<le> unat n * ?z" by (rule mult_le_mono1) (rule b(2))
    have ld: "mem_load (ib_buf c) ?p (unat nxt) = Some (take (k * ?z) (stream_rest sz (Ibuf dn c)))"
      using b(1,3) c by (simp add: min_def)
    have st: "mem_store buf 0 (take (k * ?z) (stream_rest sz (Ibuf dn c)))
        = Some (overwrite buf 0 (take (k * ?z) (stream_rest sz (Ibuf dn c))))"
      by (rule mem_store_ok) (use order_trans [OF kn Ibuf.prems(4)] in \<open>simp only: length_take add_0 min.coboundedI2\<close>)
    have ev: "stream_pull (Ibuf dn c) buf sz n e = Some (int k,
        overwrite buf 0 (take (k * ?z) (stream_rest sz (Ibuf dn c))), Ibuf dn (c\<lparr>ib_pos := ib_pos c + nxt\<rparr>), e)"
      using False ld st b(6) by (simp only: stream_pull.simps stream_ibuf_pull_def Let_def nxt_def [symmetric]) simp
    let ?s' = "Ibuf dn (c\<lparr>ib_pos := ib_pos c + nxt\<rparr>)"
    have "?p + k * ?z \<le> ?l" using b(3) c(1) by linarith
    then have "stream_ready sz ?s'" using b(7,8) c(2) by simp
    moreover have "stream_rest sz ?s' = drop (k * ?z) (stream_rest sz (Ibuf dn c))"
      by (simp add: b(7) drop_take add.commute [of "k * ?z"])
    moreover have "k \<noteq> 0" using False b(4) by simp
    ultimately show ?thesis using ev rest b(2) by blast
  qed
next
  case (Limit dn u limit consumed)
  let ?z = "unat sz"
  have c: "unat consumed \<le> unat limit" "stream_ready sz u" using Limit.prems by auto
  define r where "r = limit - consumed"
  have ur: "unat r = unat limit - unat consumed" using c(1) by (simp add: r_def)
  define m where "m = limit_capped sz n r"
  have m: "unat m = min (unat n) (unat r div ?z)"
    unfolding m_def by (rule limit_capped_nat [OF Limit.prems(2,5)])
  have nz: "sz \<noteq> 0" using Limit.prems(2) by auto
  show ?case
  proof (cases "m = 0")
    case True
    then have "unat r div ?z = 0" using m Limit.prems(3) by (simp add: min_def split: if_splits)
    then have "stream_rest sz (Limit dn u limit consumed) = []" by (simp add: ur)
    moreover have "stream_pull (Limit dn u limit consumed) buf sz n e = Some (0, buf, Limit True u limit consumed, e)"
      using True nz by (simp add: Let_def r_def [symmetric] m_def [symmetric])
    ultimately show ?thesis
      using c by (intro exI [of _ 0] exI [of _ "Limit True u limit consumed"]) simp
  next
    case False
    then have m0: "0 < unat m" by (simp add: unat_gt_0)
    have r0: "r \<noteq> 0" using m m0 by auto
    have "unat m * ?z \<le> unat n * ?z" by (rule mult_le_mono1) (simp add: m)
    then have "unat m * ?z \<le> length buf" "unat m * ?z < 2147483648" using Limit.prems(4,5) by linarith+
    from Limit.IH [OF c(2) Limit.prems(2) m0 this] obtain k u' where
      k: "stream_pull u buf sz m e = Some (int k, overwrite buf 0 (take (k * ?z) (stream_rest sz u)), u', e)"
        "stream_ready sz u'" "stream_rest sz u' = drop (k * ?z) (stream_rest sz u)" "k \<le> unat m"
        "k * ?z \<le> length (stream_rest sz u)" "k = 0 \<longrightarrow> stream_rest sz u = [] \<and> stream_isdone u'" by blast
    let ?s' = "limit_after dn u' limit consumed (int k) sz"
    have kr: "k \<le> unat r div ?z" using k(4) m by simp
    note ll = limit_left [OF Limit.prems(2) kr]
    have con: "unat (consumed + word_of_int (int k) * ucast sz) = unat consumed + k * ?z"
      by (rule limit_after_nat [of _ _ _ limit]) (use ll(2) ur c(1) in linarith)
    have data: "take (k * ?z) (stream_rest sz (Limit dn u limit consumed)) = take (k * ?z) (stream_rest sz u)"
      using ll(1) by (simp add: ur min_absorb1)
    have "stream_pull (Limit dn u limit consumed) buf sz n e =
        Some (int k, overwrite buf 0 (take (k * ?z) (stream_rest sz u)), ?s', e)"
      using nz r0 False k(1) by (simp add: Let_def r_def [symmetric] m_def [symmetric])
    moreover have "stream_ready sz ?s'"
      using con k(2) ll(2) ur c(1) by (simp add: limit_after_def Let_def)
    moreover have "stream_rest sz ?s' = drop (k * ?z) (stream_rest sz (Limit dn u limit consumed))"
    proof -
      have "unat limit - (unat consumed + k * ?z) = unat r - k * ?z" using ur by simp
      then have "stream_rest sz ?s' = take ((unat r div ?z - k) * ?z) (stream_rest sz u')"
        using con ll(3) by (simp add: limit_after_def Let_def)
      then show ?thesis by (simp add: k(3) ur drop_take diff_mult_distrib)
    qed
    moreover have "k * ?z \<le> length (stream_rest sz (Limit dn u limit consumed))"
      using ll(1) k(5) by (simp add: ur)
    moreover have "k = 0 \<longrightarrow> stream_rest sz (Limit dn u limit consumed) = [] \<and> stream_isdone ?s'"
      using k(6) by (simp add: limit_after_def Let_def)
    moreover have "k \<le> unat n" using k(4) m by simp
    ultimately show ?thesis unfolding data [symmetric] by blast
  qed
qed simp_all

interpretation source: stream_source stream_pull stream_ready stream_rest stream_isdone
  by unfold_locales (rule stream_pull_ok)

section \<open>The streams as sinks\<close>

fun stream_took :: "stream \<Rightarrow> u8 list \<Rightarrow> stream \<Rightarrow> bool" where
  "stream_took (Obuf _ c) bs (Obuf _ c') \<longleftrightarrow> ob_cap c' = ob_cap c \<and>
     take (unat (ob_pos c')) (ob_buf c') = take (unat (ob_pos c)) (ob_buf c) @ bs"
| "stream_took (Sink _) bs (Sink _) \<longleftrightarrow> True"
| "stream_took (Opsink _ c) bs (Opsink _ c') \<longleftrightarrow> os_size c' = os_size c \<and>
     concat (os_calls c') @ take (unat (os_pos c')) (os_buf c') =
       concat (os_calls c) @ take (unat (os_pos c)) (os_buf c) @ bs"
| "stream_took (Limit _ u limit consumed) bs (Limit _ u' limit' consumed') \<longleftrightarrow>
     stream_took u bs u' \<and> limit' = limit \<and> unat consumed' = unat consumed + length bs"
| "stream_took _ bs _ \<longleftrightarrow> False"

text \<open>An operation sink has its callback called on whole blocks only.\<close>

fun stream_accepts :: "u32 \<Rightarrow> stream \<Rightarrow> bool" where
  "stream_accepts sz (Obuf _ c) \<longleftrightarrow> unat (ob_pos c) \<le> unat (ob_cap c) \<and> unat (ob_cap c) \<le> length (ob_buf c) \<and>
     unat sz dvd unat (ob_cap c) - unat (ob_pos c)"
| "stream_accepts sz (Sink _) \<longleftrightarrow> True"
| "stream_accepts sz (Opsink _ c) \<longleftrightarrow> unat (os_pos c) < unat (os_size c) \<and> unat (os_size c) \<le> length (os_buf c) \<and>
     unat sz dvd unat (os_size c) - unat (os_pos c) \<and> unat sz dvd unat (os_size c) \<and>
     (\<forall>b. length (os_op c b) = length b) \<and> (\<forall>b\<in>set (os_calls c). length b = unat (os_size c))"
| "stream_accepts sz (Limit _ u limit consumed) \<longleftrightarrow> unat consumed \<le> unat limit \<and> stream_accepts sz u"
| "stream_accepts sz (Ibuf _ _) \<longleftrightarrow> False"

fun stream_full :: "u32 \<Rightarrow> stream \<Rightarrow> bool" where
  "stream_full sz (Obuf _ c) \<longleftrightarrow> ob_pos c = ob_cap c"
| "stream_full sz (Limit _ u limit consumed) \<longleftrightarrow> (unat limit - unat consumed) div unat sz = 0 \<or> stream_full sz u"
| "stream_full sz _ \<longleftrightarrow> False"

lemma stream_took_refl: "stream_accepts sz d \<Longrightarrow> stream_took d [] d"
  by (induction d) auto

lemma stream_took_trans: "stream_took d as d1 \<Longrightarrow> stream_took d1 bs d2 \<Longrightarrow> stream_took d (as @ bs) d2"
proof (induction d arbitrary: d1 d2)
  case (Limit dn u limit consumed)
  then show ?case by (cases d1; cases d2) auto
qed (case_tac [!] d1; case_tac [!] d2; auto)+

lemma stream_push_ok:
  "\<lbrakk>stream_accepts sz d; 0 < unat sz; 0 < unat n; unat n * unat sz \<le> length bs; unat n * unat sz < 2147483648\<rbrakk> \<Longrightarrow>
   \<exists>k d'. stream_push d bs sz n e = Some (int k, d', e) \<and> stream_accepts sz d' \<and>
     stream_took d (take (k * unat sz) bs) d' \<and> k \<le> unat n \<and> (k = 0 \<longrightarrow> stream_full sz d')"
proof (induction d arbitrary: n)
  case (Obuf dn c)
  let ?z = "unat sz" and ?p = "unat (ob_pos c)" and ?l = "unat (ob_cap c)"
  have c: "?p \<le> ?l" "?l \<le> length (ob_buf c)" "?z dvd ?l - ?p" using Obuf.prems by auto
  define nxt where "nxt = min (ob_cap c - ob_pos c) (sz * n)"
  define k where "k = unat (nxt div sz)"
  note b = buffer_step [OF c(1,3) Obuf.prems(2,3,5), folded nxt_def, folded k_def]
  show ?case
  proof (cases "nxt = 0")
    case True
    then have "ob_cap c = ob_pos c" using b(4,5) by (simp add: word_unat_eq_iff)
    then show ?thesis using Obuf.prems True nxt_def by (intro exI [of _ 0]) (simp add: stream_obuf_push_def)
  next
    case False
    have kn: "k * ?z \<le> unat n * ?z" by (rule mult_le_mono1) (rule b(2))
    let ?bs = "take (k * ?z) bs"
    have len: "length ?bs = k * ?z" using order_trans [OF kn Obuf.prems(4)] by simp
    have fit: "?p + length ?bs \<le> length (ob_buf c)" unfolding len using b(3) c(1,2) by linarith
    let ?d = "Obuf dn (c\<lparr>ob_buf := overwrite (ob_buf c) ?p ?bs, ob_pos := ob_pos c + nxt\<rparr>)"
    have ld: "mem_load bs 0 (unat nxt) = Some ?bs" using len by (simp add: b(1) min_def split: if_splits)
    have "stream_push (Obuf dn c) bs sz n e = Some (int k, ?d, e)"
      using False ld mem_store_ok [OF fit] b(6) by (simp only: stream_push.simps stream_obuf_push_def stream_opsink_push_def Let_def nxt_def [symmetric]) simp
    moreover have "stream_accepts sz ?d"
      using b(3,7,8) c(1,2) length_overwrite [OF fit] by simp
    moreover have "stream_took (Obuf dn c) ?bs ?d"
      using take_overwrite_full [OF fit] len by (simp add: b(7))
    moreover have "k \<noteq> 0" using False b(4) by simp
    ultimately show ?thesis using b(2) by blast
  qed
next
  case (Sink dn)
  have "unat n * 1 \<le> unat n * unat sz" by (rule mult_le_mono2) (use Sink.prems(2) in simp)
  then have "int (unat n) < 2147483648" using Sink.prems(5) by linarith
  then have "as_i32 (uint n) = int (unat n)" by (simp add: as_i32_small)
  then show ?case using Sink.prems(3) by (intro exI [of _ "unat n"] exI [of _ "Sink dn"]) (simp add: stream_sink_push_def)
next
  case (Opsink dn c)
  let ?z = "unat sz" and ?p = "unat (os_pos c)" and ?l = "unat (os_size c)"
  have c: "?p < ?l" "?l \<le> length (os_buf c)" "?z dvd ?l - ?p" "?z dvd ?l" "\<And>b. length (os_op c b) = length b"
    "\<And>b. b \<in> set (os_calls c) \<Longrightarrow> length b = ?l" and le: "?p \<le> ?l"
    using Opsink.prems by auto
  define nxt where "nxt = min (os_size c - os_pos c) (sz * n)"
  define k where "k = unat (nxt div sz)"
  note b = buffer_step [OF le c(3) Opsink.prems(2,3,5), folded nxt_def, folded k_def]
  have k0: "k \<noteq> 0" "nxt \<noteq> 0" using b(4,5) c(1) by auto
  have kn: "k * ?z \<le> unat n * ?z" by (rule mult_le_mono1) (rule b(2))
  let ?bs = "take (k * ?z) bs"
  have len: "length ?bs = k * ?z" using order_trans [OF kn Opsink.prems(4)] by simp
  have fit: "?p + length ?bs \<le> length (os_buf c)" unfolding len using b(3) c(1,2) by linarith
  let ?buf = "overwrite (os_buf c) ?p ?bs"
  let ?c = "c\<lparr>os_buf := ?buf, os_pos := os_pos c + nxt\<rparr>"
  let ?c' = "if os_pos c + nxt = os_size c
    then ?c\<lparr>os_buf := os_op c ?buf, os_calls := os_calls c @ [take ?l ?buf], os_pos := 0\<rparr> else ?c"
  have ld: "mem_load bs 0 (unat nxt) = Some ?bs" using len by (simp add: b(1) min_def split: if_splits)
  have "stream_push (Opsink dn c) bs sz n e = Some (int k, Opsink dn ?c', e)"
    using k0(2) ld mem_store_ok [OF fit] b(6) by (simp only: stream_push.simps stream_obuf_push_def stream_opsink_push_def Let_def nxt_def [symmetric]) simp
  moreover have full: "take (?p + k * ?z) ?buf = take ?p (os_buf c) @ ?bs"
    using take_overwrite_full [OF fit] by (simp only: len)
  have lb: "length ?buf = length (os_buf c)" by (rule length_overwrite [OF fit])
  have "stream_accepts sz (Opsink dn ?c') \<and> stream_took (Opsink dn c) ?bs (Opsink dn ?c')"
  proof (cases "os_pos c + nxt = os_size c")
    case True
    then have "?p + k * ?z = ?l" using b(7) by simp
    then show ?thesis using True c lb full len by simp
  next
    case False
    then have "?p + k * ?z \<noteq> ?l" using b(7) by (simp add: word_unat_eq_iff)
    then have "?p + k * ?z < ?l" using b(3) c(1) by linarith
    then show ?thesis using False c lb full b(7,8) by simp
  qed
  ultimately show ?case using b(2) k0 by blast
next
  case (Limit dn u limit consumed)
  let ?z = "unat sz"
  have c: "unat consumed \<le> unat limit" "stream_accepts sz u" using Limit.prems by auto
  define r where "r = limit - consumed"
  have ur: "unat r = unat limit - unat consumed" using c(1) by (simp add: r_def)
  define m where "m = limit_capped sz n r"
  have m: "unat m = min (unat n) (unat r div ?z)"
    unfolding m_def by (rule limit_capped_nat [OF Limit.prems(2,5)])
  have nz: "sz \<noteq> 0" using Limit.prems(2) by auto
  show ?case
  proof (cases "m = 0")
    case True
    then have "unat r div ?z = 0" using m Limit.prems(3) by (simp add: min_def split: if_splits)
    then have full: "stream_full sz (Limit True u limit consumed)" by (simp add: ur)
    have "stream_push (Limit dn u limit consumed) bs sz n e = Some (0, Limit True u limit consumed, e)"
      using True nz by (simp add: Let_def r_def [symmetric] m_def [symmetric])
    then show ?thesis
      using c full stream_took_refl [OF c(2)] by (intro exI [of _ 0] exI [of _ "Limit True u limit consumed"]) simp
  next
    case False
    then have m0: "0 < unat m" by (simp add: unat_gt_0)
    have r0: "r \<noteq> 0" using m m0 by auto
    have mn: "unat m * ?z \<le> unat n * ?z" by (rule mult_le_mono1) (simp add: m)
    then have "unat m * ?z \<le> length bs" "unat m * ?z < 2147483648" using Limit.prems(4,5) by linarith+
    from Limit.IH [OF c(2) Limit.prems(2) m0 this] obtain k u' where
      k: "stream_push u bs sz m e = Some (int k, u', e)" "stream_accepts sz u'"
        "stream_took u (take (k * ?z) bs) u'" "k \<le> unat m" "k = 0 \<longrightarrow> stream_full sz u'" by blast
    let ?s' = "limit_after dn u' limit consumed (int k) sz"
    have kr: "k \<le> unat r div ?z" using k(4) m by simp
    note ll = limit_left [OF Limit.prems(2) kr]
    have con: "unat (consumed + word_of_int (int k) * ucast sz) = unat consumed + k * ?z"
      by (rule limit_after_nat [of _ _ _ limit]) (use ll(2) ur c(1) in linarith)
    have "k * ?z \<le> unat m * ?z" by (rule mult_le_mono1) (rule k(4))
    then have "k * ?z \<le> length bs" using mn Limit.prems(4) by linarith
    then have "length (take (k * ?z) bs) = k * ?z" by simp
    then have "stream_took (Limit dn u limit consumed) (take (k * ?z) bs) ?s'"
      using con k(3) by (simp add: limit_after_def Let_def)
    moreover have "stream_push (Limit dn u limit consumed) bs sz n e = Some (int k, ?s', e)"
      using nz r0 False k(1) by (simp add: Let_def r_def [symmetric] m_def [symmetric])
    moreover have "stream_accepts sz ?s'"
      using con k(2) ll(2) ur c(1) by (simp add: limit_after_def Let_def)
    moreover have "k = 0 \<longrightarrow> stream_full sz ?s'"
      using k(5) by (simp add: limit_after_def Let_def)
    moreover have "k \<le> unat n" using k(4) m by simp
    ultimately show ?thesis by blast
  qed
qed simp

interpretation sink: stream_sink stream_push stream_accepts stream_took stream_full
  by unfold_locales (rule stream_push_ok, assumption+, rule stream_took_refl, assumption, rule stream_took_trans)

interpretation copy: stream_copy stream_pull stream_ready stream_rest stream_isdone
    stream_push stream_accepts stream_took stream_full ..

section \<open>Properties\<close>

lemma stream_ready_pull: "stream_ready sz s \<Longrightarrow> has_pull s" by (cases s) auto

lemma stream_accepts_push: "stream_accepts sz d \<Longrightarrow> has_push d" by (cases d) auto

text \<open>
  C26. Copying between streams. For elements of at most 4096 bytes, a source and a sink of any kind (limit streams of limit streams included) whose
  remaining bytes are whole elements, \<open>stream_read\<close> returns the number \<open>t\<close> of elements the sink has accepted: the first \<open>t\<close> of
  the source, in order, and nothing else has reached the sink. At least \<open>t\<close> and at most \<open>n\<close> elements, \<open>p\<close>, have left the source; more
  than \<open>t\<close> only when the sink is full (these are lost), and fewer than \<open>n\<close> only when the sink is full or the source is empty and marked done.
\<close>

theorem stream_read_copies:
  assumes "0 < unat sz" and "unat sz \<le> 4096" and "unat n < 2147483648" and "stream_ready sz src" and "stream_accepts sz dest"
  shows "\<exists>t p dest' src'. stream_read dest sz n src e = Some (int t, dest', src', e) \<and>
      stream_took dest (take (t * unat sz) (stream_rest sz src)) dest' \<and>
      stream_rest sz src' = drop (p * unat sz) (stream_rest sz src) \<and>
      p * unat sz \<le> length (stream_rest sz src) \<and> t \<le> p \<and> p \<le> unat n \<and> (t < p \<longrightarrow> stream_full sz dest') \<and>
      (p < unat n \<longrightarrow> stream_full sz dest' \<or> stream_rest sz src' = [] \<and> stream_isdone src')"
  using copy.copy_elements_ok [OF assms] stream_ready_pull [OF assms(4)] stream_accepts_push [OF assms(5)]
  by (simp add: stream_read_def)

theorem stream_read_copies_witness:
  "\<exists>t dest' src'. stream_read (stream_obuf_init [0, 0, 0, 0] 4) 2 3
       (stream_limit_init (stream_ibuf_init [1, 2, 3, 4, 5, 6, 7, 8] 8) 5) None = Some (int t, dest', src', None) \<and>
     stream_took (stream_obuf_init [0, 0, 0, 0] 4) (take (t * 2) [1, 2, 3, 4]) dest'"
proof -
  let ?src = "stream_limit_init (stream_ibuf_init [1, 2, 3, 4, 5, 6, 7, 8] 8) 5" and ?dest = "stream_obuf_init [0, 0, 0, 0] 4"
  have "0 < unat (2 :: u32)" "unat (2 :: u32) \<le> 4096" "unat (3 :: u32) < 2147483648" "stream_ready 2 ?src" "stream_accepts 2 ?dest"
    by (simp_all add: stream_limit_init_def stream_ibuf_init_def stream_obuf_init_def)
  moreover have "stream_rest 2 ?src = [1, 2, 3, 4]" "unat (2 :: u32) = 2"
    by (simp_all add: stream_limit_init_def stream_ibuf_init_def)
  ultimately show ?thesis using stream_read_copies [of 2 3 ?src ?dest None] by auto
qed

text \<open>
  Elements larger than the stack buffer. The copy reads at least one element at a time into 4096 bytes: with an input buffer that still
  has an element of more than 4096 bytes, the copy stores past the end of its buffer.
\<close>

theorem stream_read_overflows:
  assumes "4096 < unat sz" and "0 < unat n" and "has_push dest"
    and "unat sz \<le> unat (ib_size c) - unat (ib_pos c)" and "unat (ib_size c) \<le> length (ib_buf c)"
  shows "stream_read dest sz n (Ibuf dn c) e = None"
proof -
  let ?p = "unat (ib_pos c)"
  have "unat (4096 div sz) = 0" using assms(1) by (simp add: unat_div_distrib)
  then have bm: "4096 div sz = 0" by (simp add: unat_eq_0)
  have le: "?p \<le> unat (ib_size c)" using assms(1,4) by linarith
  have n: "0 < n" using assms(2) by (simp add: word_less_nat_alt)
  then have b: "(if n < 1 then n else 1) = 1" by (auto simp: word_less_1)
  have "unat (min (ib_size c - ib_pos c) (sz * 1)) = unat sz"
    using assms(4) le by (simp add: min_def word_le_nat_alt)
  then have nxt: "min (ib_size c - ib_pos c) (sz * 1) = sz" by (simp add: word_unat_eq_iff)
  have nz: "sz \<noteq> 0" using assms(1) by auto
  have "unat sz \<le> length (drop ?p (ib_buf c))" using assms(4,5) le by simp
  then have ld: "mem_load (ib_buf c) ?p (unat sz) = Some (take (unat sz) (drop ?p (ib_buf c)))"
    using assms(4,5) le by (intro mem_load_ok) linarith
  have "mem_store (replicate 4096 0) 0 (take (unat sz) (drop ?p (ib_buf c))) = None"
    using assms(1,4,5) le by (simp add: mem_store_def)
  then have "stream_pull (Ibuf dn c) (replicate 4096 0) sz 1 e = None"
    using nz ld by (simp only: stream_pull.simps stream_ibuf_pull_def Let_def nxt) simp
  then show ?thesis
    using assms(3) nz n b bm by (simp add: stream_read_def copy_elements_def Let_def copy_loop.simps [of _ _ _ 1])
qed

theorem stream_read_overflows_witness:
  "stream_read stream_sink_init 5000 1 (stream_ibuf_init (replicate 5000 7) 5000) None = None"
  using stream_read_overflows [of 5000 1 stream_sink_init "\<lparr>ib_buf = replicate 5000 7, ib_size = 5000, ib_pos = 0\<rparr>" False None]
  by (simp add: stream_ibuf_init_def stream_sink_init_def)

text \<open>A rest shorter than an element is consumed, counted as nothing, and the stream is not marked done by it.\<close>

lemma stream_pull_drops_rest:
  assumes "unat (ib_pos c) < unat (ib_size c)" and "unat (ib_size c) - unat (ib_pos c) < unat sz"
    and "unat (ib_size c) \<le> length (ib_buf c)" and "unat sz \<le> length dest"
  shows "stream_pull (Ibuf False c) dest sz 1 e =
    Some (0, overwrite dest 0 (stream_rest sz (Ibuf False c)), Ibuf False (c\<lparr>ib_pos := ib_size c\<rparr>), e)"
proof -
  let ?a = "unat (ib_size c) - unat (ib_pos c)"
  have av: "unat (ib_size c - ib_pos c) = ?a" using assms(1) by simp
  then have nxt: "min (ib_size c - ib_pos c) (sz * 1) = ib_size c - ib_pos c"
    using assms(2) by (simp add: min_def word_le_nat_alt)
  have nz: "ib_size c - ib_pos c \<noteq> 0" using av assms(1) by auto
  have "unat ((ib_size c - ib_pos c) div sz) = 0" using assms(2) by (simp add: unat_div_distrib av)
  then have "(ib_size c - ib_pos c) div sz = 0" by (simp add: unat_eq_0)
  then show ?thesis
    using nz assms av by (simp only: stream_pull.simps stream_ibuf_pull_def Let_def nxt) (simp add: as_i32_def)
qed

end
