(* ===== verification/Cstring.thy ===== *)
theory Cstring
  imports Lalloc "HOL-Library.Sublist"
begin

text \<open>
  The length-prefixed strings of \<^verbatim>\<open>ds/string.c\<close> and the file names of \<^verbatim>\<open>core/filenames.c\<close>. A pointer
  into characters is the list of the characters from there to the end of their object.
\<close>

section \<open>The functions of the C library they use\<close>

fun c_strlen :: "u8 list \<Rightarrow> nat option" where
  "c_strlen [] = None"
| "c_strlen (c # cs) = (if c = 0 then Some 0 else map_option Suc (c_strlen cs))"

text \<open>The characters are read one by one up to the match; a null pointer is the inner \<open>None\<close>.\<close>

fun c_memchr :: "u8 list \<Rightarrow> u8 \<Rightarrow> nat \<Rightarrow> nat option option" where
  "c_memchr cs c 0 = Some None"
| "c_memchr [] c (Suc n) = None"
| "c_memchr (x # cs) c (Suc n) = (if x = c then Some (Some 0) else map_option (map_option Suc) (c_memchr cs c n))"

fun c_strncmp :: "u8 list \<Rightarrow> u8 list \<Rightarrow> nat \<Rightarrow> int option" where
  "c_strncmp as bs 0 = Some 0"
| "c_strncmp (a # as) (b # bs) (Suc n) =
     (if a < b then Some (-1) else if b < a then Some 1 else if a = 0 then Some 0 else c_strncmp as bs n)"
| "c_strncmp _ _ (Suc n) = None"

fun cmp_bytes :: "u8 list \<Rightarrow> u8 list \<Rightarrow> int" where
  "cmp_bytes (a # as) (b # bs) = (if a < b then -1 else if b < a then 1 else cmp_bytes as bs)"
| "cmp_bytes _ _ = 0"

definition c_memcmp :: "u8 list \<Rightarrow> u8 list \<Rightarrow> nat \<Rightarrow> int option" where
  "c_memcmp as bs n = do { as \<leftarrow> mem_load as 0 n; bs \<leftarrow> mem_load bs 0 n; Some (cmp_bytes as bs) }"

fun c_strrchr :: "u8 list \<Rightarrow> u8 \<Rightarrow> nat option option" where
  "c_strrchr [] c = None"
| "c_strrchr (x # cs) c =
     (if x = 0 then Some (if c = 0 then Some 0 else None)
      else map_option (\<lambda>p. case p of Some i \<Rightarrow> Some (Suc i) | None \<Rightarrow> if x = c then Some 0 else None) (c_strrchr cs c))"

section \<open>Strings\<close>

record cstring =
  s_len :: u32
  s_data :: "u8 list"

definition string_dbg :: "cstring \<Rightarrow> bool" where
  "string_dbg s \<longleftrightarrow> s_len s > 0"

definition cstring_dbg :: "cstring \<Rightarrow> bool option" where
  "cstring_dbg s = do { ASSERT (string_dbg s); c \<leftarrow> mem_load (s_data s) (unat (s_len s)) 1; Some (c = [0]) }"

definition strfcstr :: "u8 list \<Rightarrow> cstring option" where
  "strfcstr cstr = do { n \<leftarrow> c_strlen cstr; Some \<lparr>s_len = word_of_nat n, s_data = cstr\<rparr> }"

definition line_length :: "u8 list \<Rightarrow> u64 \<Rightarrow> u64 option" where
  "line_length buf mx = do {
     ASSERT (mx > 0);
     nl \<leftarrow> c_memchr buf 10 (unat mx);
     Some (case nl of Some i \<Rightarrow> word_of_nat i | None \<Rightarrow> mx)
   }"

text \<open>The inner loop compares \<open>strs[i]\<close> with the strings behind it.\<close>

fun unique_inner :: "cstring \<Rightarrow> cstring list \<Rightarrow> bool option" where
  "unique_inner s [] = Some True"
| "unique_inner s (t # ts) =
     (if s_len s \<noteq> s_len t then unique_inner s ts
      else do {
        c \<leftarrow> c_memcmp (s_data s) (s_data t) (unat (s_len s));
        if c = 0 then Some False else unique_inner s ts
      })"

fun unique_outer :: "cstring list \<Rightarrow> bool option" where
  "unique_outer [] = Some True"
| "unique_outer (s # ts) = do { u \<leftarrow> unique_inner s ts; if u then unique_outer ts else Some False }"

definition strings_all_unique :: "cstring list \<Rightarrow> u32 \<Rightarrow> bool option" where
  "strings_all_unique strs count = do { strs \<leftarrow> mem_load strs 0 (unat count); unique_outer strs }"

definition string_equal :: "cstring \<Rightarrow> cstring \<Rightarrow> bool option" where
  "string_equal s1 s2 =
     (if s_len s1 \<noteq> s_len s2 then Some False
      else do { c \<leftarrow> c_strncmp (s_data s1) (s_data s2) (unat (s_len s1)); Some (c = 0) })"

text \<open>The new string is the offset of its bytes in the allocator's buffer, and its length.\<close>

definition string_plus :: "cstring \<Rightarrow> cstring \<Rightarrow> lalloc \<Rightarrow> errp \<Rightarrow> ((u32 option \<times> u32) \<times> lalloc \<times> errp) option" where
  "string_plus left right alloc e = do {
     let len = s_len left + s_len right;
     ASSERT (len > 0);
     (data, alloc, e) \<leftarrow> lmalloc alloc len 1 e;
     case data of
       None \<Rightarrow> Some ((None, 0), alloc, e)
     | Some p \<Rightarrow> do {
         bs \<leftarrow> mem_load (s_data left) 0 (unat (s_len left));
         m \<leftarrow> mem_store (la_data alloc) (unat p) bs;
         bs \<leftarrow> mem_load (s_data right) 0 (unat (s_len right));
         m \<leftarrow> mem_store m (unat p + unat (s_len left)) bs;
         Some ((Some p, len), alloc\<lparr>la_data := m\<rparr>, e)
       }
   }"

text \<open>A pointer to \<open>left[i]\<close> is the index \<open>i\<close>.\<close>

fun occurs_loop :: "cstring \<Rightarrow> cstring list \<Rightarrow> bool option" where
  "occurs_loop s [] = Some False"
| "occurs_loop s (t # ts) = do { eq \<leftarrow> string_equal s t; if eq then Some True else occurs_loop s ts }"

fun disjoint_loop :: "cstring list \<Rightarrow> cstring list \<Rightarrow> nat \<Rightarrow> nat option option" where
  "disjoint_loop [] right i = Some None"
| "disjoint_loop (s # left) right i =
     do { hit \<leftarrow> occurs_loop s right; if hit then Some (Some i) else disjoint_loop left right (Suc i) }"

definition strings_are_disjoint :: "cstring list \<Rightarrow> u32 \<Rightarrow> cstring list \<Rightarrow> u32 \<Rightarrow> nat option option" where
  "strings_are_disjoint left llen right rlen = do {
     left \<leftarrow> mem_load left 0 (unat llen);
     right \<leftarrow> mem_load right 0 (unat rlen);
     disjoint_loop left right 0
   }"

function contains_loop :: "cstring \<Rightarrow> cstring \<Rightarrow> u32 \<Rightarrow> bool option" where
  "contains_loop super sub i =
     (if i < s_len super then
        let len = s_len super - i in
        if len < s_len sub then Some False
        else do {
          eq \<leftarrow> string_equal \<lparr>s_len = s_len sub, s_data = drop (unat i) (s_data super)\<rparr> sub;
          if eq then Some True else contains_loop super sub (i + 1)
        }
      else Some False)"
  by pat_completeness auto

termination
proof (relation "measure (\<lambda>(s, t, i). unat (s_len s) - unat i)")
  fix super :: cstring and sub :: cstring and i :: u32
  assume "i < s_len super"
  then show "((super, sub, i + 1), super, sub, i) \<in> measure (\<lambda>(s, t, i). unat (s_len s) - unat i)"
    using u32_inc [of i "s_len super"] by (simp add: word_less_nat_alt)
qed simp

declare contains_loop.simps [simp del]

definition string_contains :: "cstring \<Rightarrow> cstring \<Rightarrow> bool option" where
  "string_contains super sub =
     (if s_len super = 0 \<and> s_len sub = 0 then Some True else contains_loop super sub 0)"

definition string_less_string :: "cstring \<Rightarrow> cstring \<Rightarrow> bool option" where
  "string_less_string left right = do {
     let min_len = (if s_len left < s_len right then s_len left else s_len right);
     cmp \<leftarrow> c_memcmp (s_data left) (s_data right) (unat min_len);
     if cmp < 0 then Some True
     else if cmp > 0 then Some False
     else Some (s_len left < s_len right)
   }"

definition string_greater_string :: "cstring \<Rightarrow> cstring \<Rightarrow> bool option" where
  "string_greater_string left right = do {
     let min_len = (if s_len left < s_len right then s_len left else s_len right);
     cmp \<leftarrow> c_memcmp (s_data left) (s_data right) (unat min_len);
     if cmp > 0 then Some True
     else if cmp < 0 then Some False
     else Some (s_len left > s_len right)
   }"

definition string_less_equal_string :: "cstring \<Rightarrow> cstring \<Rightarrow> bool option" where
  "string_less_equal_string left right = map_option Not (string_greater_string left right)"

definition string_greater_equal_string :: "cstring \<Rightarrow> cstring \<Rightarrow> bool option" where
  "string_greater_equal_string left right = map_option Not (string_less_string left right)"

text \<open>The pair is \<open>*dest\<close> where it has been set, and the code.\<close>

definition string_copy :: "libc \<Rightarrow> cstring \<Rightarrow> errp \<Rightarrow> (cstring option \<times> err_t \<times> errp) option" where
  "string_copy os src e = do {
     (data, e) \<leftarrow> i_calloc os (s_len src + 1) 1 e;
     case data of
       None \<Rightarrow> do { c \<leftarrow> error_trace e; Some (None, c, e) }
     | Some data \<Rightarrow> do {
         bs \<leftarrow> mem_load (s_data src) 0 (unat (s_len src));
         data \<leftarrow> mem_store data 0 bs;
         Some (Some \<lparr>s_len = s_len src, s_data = data\<rparr>, SUCCESS, e)
       }
   }"

section \<open>File names\<close>

text \<open>Pointers into \<open>path\<close> are offsets; the null pointer compares below them, as on a flat memory.\<close>

definition file_basename :: "u8 list \<Rightarrow> nat option" where
  "file_basename path = do {
     p1 \<leftarrow> c_strrchr path 47;
     p2 \<leftarrow> c_strrchr path 92;
     let p = (case (p1, p2) of (Some i, Some j) \<Rightarrow> if i > j then p1 else p2 | (Some i, None) \<Rightarrow> p1 | _ \<Rightarrow> p2);
     Some (case p of Some i \<Rightarrow> i + 1 | None \<Rightarrow> 0)
   }"

section \<open>Facts\<close>

definition string_wf :: "cstring \<Rightarrow> bool" where
  "string_wf s \<longleftrightarrow> unat (s_len s) \<le> length (s_data s)"

definition string_bytes :: "cstring \<Rightarrow> u8 list" where
  "string_bytes s = take (unat (s_len s)) (s_data s)"

abbreviation c_text :: "u8 list \<Rightarrow> u8 list" where
  "c_text \<equiv> takeWhile (\<lambda>c. c \<noteq> 0)"

lemma length_string_bytes [simp]: "string_wf s \<Longrightarrow> length (string_bytes s) = unat (s_len s)"
  by (simp add: string_wf_def string_bytes_def)

lemma c_strncmp_ok:
  "\<lbrakk>n \<le> length as; n \<le> length bs\<rbrakk> \<Longrightarrow>
   \<exists>c. c_strncmp as bs n = Some c \<and> (c = 0 \<longleftrightarrow> c_text (take n as) = c_text (take n bs))"
proof (induction as bs n rule: c_strncmp.induct)
  case (2 a as b bs n)
  then show ?case by (cases a b rule: linorder_cases) (auto simp: word_less_nat_alt word_unat_eq_iff)
qed auto

lemma string_equal_ok:
  assumes "string_wf s" and "string_wf t"
  shows "string_equal s t = Some (s_len s = s_len t \<and> c_text (string_bytes s) = c_text (string_bytes t))"
  using assms c_strncmp_ok [of "unat (s_len s)" "s_data s" "s_data t"]
  by (auto simp: string_equal_def string_wf_def string_bytes_def)

lemma cmp_bytes_zero: "length as = length bs \<Longrightarrow> cmp_bytes as bs = 0 \<longleftrightarrow> as = bs"
  by (induction as bs rule: list_induct2) auto

lemma cmp_bytes_sign:
  "cmp_bytes as bs < 0 \<longleftrightarrow> cmp_bytes bs as > 0" "length as = length bs \<Longrightarrow> cmp_bytes as bs < 0 \<longleftrightarrow> (as, bs) \<in> lexord {(x, y). x < y}"
  subgoal by (induction as bs rule: cmp_bytes.induct) auto
  subgoal by (induction as bs rule: list_induct2) auto
  done

lemma c_memcmp_ok:
  "\<lbrakk>n \<le> length as; n \<le> length bs\<rbrakk> \<Longrightarrow> c_memcmp as bs n = Some (cmp_bytes (take n as) (take n bs))"
  by (simp add: c_memcmp_def)

lemma string_bytes_inj:
  "\<lbrakk>string_wf s; string_wf t; string_bytes s = string_bytes t\<rbrakk> \<Longrightarrow> s_len s = s_len t"
  by (metis length_string_bytes word_unat_eq_iff)

subsection \<open>Uniqueness\<close>

lemma unique_inner_ok:
  "\<lbrakk>string_wf s; \<forall>t\<in>set ts. string_wf t\<rbrakk> \<Longrightarrow> unique_inner s ts = Some (string_bytes s \<notin> string_bytes ` set ts)"
proof (induction ts)
  case (Cons t ts)
  have wf: "string_wf t" using Cons.prems(2) by simp
  show ?case
  proof (cases "s_len s = s_len t")
    case True
    have "c_memcmp (s_data s) (s_data t) (unat (s_len s)) = Some (cmp_bytes (string_bytes s) (string_bytes t))"
      using True Cons.prems(1) wf by (subst c_memcmp_ok) (simp_all add: string_wf_def string_bytes_def)
    moreover have "cmp_bytes (string_bytes s) (string_bytes t) = 0 \<longleftrightarrow> string_bytes s = string_bytes t"
      using True Cons.prems(1) wf by (intro cmp_bytes_zero) simp
    ultimately show ?thesis using True Cons by auto
  next
    case False
    then show ?thesis using Cons string_bytes_inj [OF Cons.prems(1) wf] by auto
  qed
qed simp

lemma unique_outer_ok: "\<forall>t\<in>set ts. string_wf t \<Longrightarrow> unique_outer ts = Some (distinct (map string_bytes ts))"
  by (induction ts) (auto simp: unique_inner_ok)

subsection \<open>Containment\<close>

lemma c_text_id: "0 \<notin> set bs \<Longrightarrow> c_text bs = bs"
  by (auto simp: takeWhile_eq_all_conv)

lemma sublist_at: "sublist xs ys \<longleftrightarrow> (\<exists>k. k + length xs \<le> length ys \<and> take (length xs) (drop k ys) = xs)"
proof
  assume "sublist xs ys"
  then obtain ps ss where "ys = ps @ xs @ ss" by (auto simp: sublist_def)
  then show "\<exists>k. k + length xs \<le> length ys \<and> take (length xs) (drop k ys) = xs" by (intro exI [of _ "length ps"]) simp
next
  assume "\<exists>k. k + length xs \<le> length ys \<and> take (length xs) (drop k ys) = xs"
  then obtain k where "take (length xs) (drop k ys) = xs" by blast
  then have "ys = take k ys @ xs @ drop (length xs) (drop k ys)" by (metis append_take_drop_id)
  then show "sublist xs ys" unfolding sublist_def by blast
qed

lemma ex_from: "(\<exists>k. n \<le> k \<and> P k) \<longleftrightarrow> P n \<or> (\<exists>k. n + 1 \<le> k \<and> P (k :: nat))"
  by (metis Suc_eq_plus1 Suc_leD Suc_leI le_eq_less_or_eq order_refl)

lemma contains_loop_ok:
  assumes wf: "string_wf s" "string_wf t" and nul: "0 \<notin> set (string_bytes s)" "0 \<notin> set (string_bytes t)"
  shows "contains_loop s t i = Some (\<exists>k. unat i \<le> k \<and> k < unat (s_len s) \<and>
    k + unat (s_len t) \<le> unat (s_len s) \<and> take (unat (s_len t)) (drop k (string_bytes s)) = string_bytes t)"
proof (induction "unat (s_len s) - unat i" arbitrary: i rule: less_induct)
  case less
  let ?at = "\<lambda>k. take (unat (s_len t)) (drop k (string_bytes s)) = string_bytes t"
  consider "\<not> i < s_len s" | "i < s_len s" "s_len s - i < s_len t" | "i < s_len s" "\<not> s_len s - i < s_len t" by blast
  then show ?case
  proof cases
    case 1
    then show ?thesis by (auto simp: contains_loop.simps word_less_nat_alt)
  next
    case 2
    then have "unat (s_len s) < unat i + unat (s_len t)" by (simp add: word_less_nat_alt)
    then have "\<not> (\<exists>k. unat i \<le> k \<and> k < unat (s_len s) \<and> k + unat (s_len t) \<le> unat (s_len s) \<and> ?at k)" by auto
    then show ?thesis using 2 by (simp add: contains_loop.simps [of s t i])
  next
    case 3
    then have i: "unat i < unat (s_len s)" "unat i + unat (s_len t) \<le> unat (s_len s)"
      by (simp_all add: word_less_nat_alt not_less)
    let ?u = "\<lparr>s_len = s_len t, s_data = drop (unat i) (s_data s)\<rparr>"
    have u: "string_wf ?u" using i(2) wf(1) by (simp add: string_wf_def)
    have ub: "string_bytes ?u = take (unat (s_len t)) (drop (unat i) (string_bytes s))"
      using i(2) by (simp add: string_bytes_def drop_take min_absorb1)
    have "0 \<notin> set (string_bytes ?u)" using nul(1) unfolding ub by (auto dest!: in_set_takeD in_set_dropD)
    then have eq: "string_equal ?u t = Some (?at (unat i))"
      using string_equal_ok [OF u wf(2)] nul(2) by (simp add: c_text_id ub)
    have nx: "unat (i + 1) = unat i + 1" using 3(1) by (rule u32_inc)
    have "contains_loop s t (i + 1) = Some (\<exists>k. unat i + 1 \<le> k \<and> k < unat (s_len s) \<and> k + unat (s_len t) \<le> unat (s_len s) \<and> ?at k)"
      using less [of "i + 1"] i(1) by (simp only: nx)
    moreover note ex_from [of "unat i" "\<lambda>k. k < unat (s_len s) \<and> k + unat (s_len t) \<le> unat (s_len s) \<and> ?at k"]
    ultimately show ?thesis using 3 eq i by (simp add: contains_loop.simps [of s t i])
  qed
qed

lemma string_contains_ok:
  assumes wf: "string_wf s" "string_wf t" and nul: "0 \<notin> set (string_bytes s)" "0 \<notin> set (string_bytes t)"
  shows "string_contains s t = Some (sublist (string_bytes t) (string_bytes s))"
proof (cases "s_len s = 0 \<and> s_len t = 0")
  case True
  then show ?thesis by (simp add: string_contains_def string_bytes_def)
next
  case False
  have "sublist (string_bytes t) (string_bytes s) \<longleftrightarrow> (\<exists>k. k < unat (s_len s) \<and> k + unat (s_len t) \<le> unat (s_len s) \<and>
      take (unat (s_len t)) (drop k (string_bytes s)) = string_bytes t)"
  proof (cases "s_len t = 0")
    case True
    then have "0 < unat (s_len s)" using False by (simp add: unat_gt_0)
    then show ?thesis using True by (auto simp: string_bytes_def intro: exI [of _ 0])
  next
    case False
    then have "k + unat (s_len t) \<le> unat (s_len s) \<Longrightarrow> k < unat (s_len s)" for k
      by (simp add: word_unat_eq_iff)
    then show ?thesis unfolding sublist_at length_string_bytes [OF wf(1)] length_string_bytes [OF wf(2)] by blast
  qed
  then show ?thesis using False contains_loop_ok [OF assms, of 0] by (auto simp: string_contains_def)
qed

subsection \<open>Order\<close>

definition byte_order :: "(u8 list \<times> u8 list) set" where
  "byte_order = lexord {(a, b). a < b}"

lemma byte_order_cmp: "(as, bs) \<in> byte_order \<longleftrightarrow> cmp_bytes as bs < 0 \<or> cmp_bytes as bs = 0 \<and> length as < length bs"
  unfolding byte_order_def by (induction as bs rule: cmp_bytes.induct) (auto simp: neq_Nil_conv lexord_Nil_left)

lemma byte_order_total: "(as, bs) \<in> byte_order \<or> as = bs \<or> (bs, as) \<in> byte_order"
  unfolding byte_order_def by (rule lexord_linear) auto

lemma cmp_bytes_self [simp]: "cmp_bytes bs bs = 0"
  by (induction bs) simp_all

lemma cmp_bytes_flip: "cmp_bytes bs as = - cmp_bytes as bs"
  by (induction as bs rule: cmp_bytes.induct) auto

lemma cmp_bytes_min: "cmp_bytes (take (min (length as) (length bs)) as) (take (min (length as) (length bs)) bs) = cmp_bytes as bs"
  by (induction as bs rule: cmp_bytes.induct) auto

lemma string_cmp_ok:
  assumes "string_wf s" and "string_wf t"
  shows "c_memcmp (s_data s) (s_data t) (unat (if s_len s < s_len t then s_len s else s_len t)) =
    Some (cmp_bytes (string_bytes s) (string_bytes t))"
proof -
  let ?n = "min (unat (s_len s)) (unat (s_len t))"
  have n: "unat (if s_len s < s_len t then s_len s else s_len t) = ?n"
    by (auto simp: word_less_nat_alt)
  have "c_memcmp (s_data s) (s_data t) ?n = Some (cmp_bytes (take ?n (s_data s)) (take ?n (s_data t)))"
    using assms by (intro c_memcmp_ok) (simp_all add: string_wf_def)
  moreover have "take ?n (s_data s) = take ?n (string_bytes s)" "take ?n (s_data t) = take ?n (string_bytes t)"
    by (simp_all add: string_bytes_def)
  ultimately show ?thesis
    using cmp_bytes_min [of "string_bytes s" "string_bytes t"] assms by (simp add: n)
qed

lemma string_less_ok:
  "\<lbrakk>string_wf s; string_wf t\<rbrakk> \<Longrightarrow> string_less_string s t = Some ((string_bytes s, string_bytes t) \<in> byte_order)"
  using string_cmp_ok [of s t]
  by (auto simp: string_less_string_def byte_order_cmp Let_def word_less_nat_alt)

lemma string_greater_ok:
  "\<lbrakk>string_wf s; string_wf t\<rbrakk> \<Longrightarrow> string_greater_string s t = Some ((string_bytes t, string_bytes s) \<in> byte_order)"
  using string_cmp_ok [of s t]
  by (auto simp: string_greater_string_def byte_order_cmp Let_def word_less_nat_alt cmp_bytes_flip [of "string_bytes t"])

subsection \<open>Lines and copies\<close>

lemma c_memchr_ok:
  "n \<le> length cs \<Longrightarrow> c_memchr cs c n =
    Some (if c \<in> set (take n cs) then Some (length (takeWhile (\<lambda>x. x \<noteq> c) (take n cs))) else None)"
  by (induction cs c n rule: c_memchr.induct) auto

lemma line_length_ok:
  assumes "0 < mx" and "unat mx \<le> length buf"
  shows "\<exists>n. line_length buf mx = Some n \<and> unat n = length (takeWhile (\<lambda>c. c \<noteq> 10) (take (unat mx) buf))"
proof -
  let ?l = "length (takeWhile (\<lambda>c. c \<noteq> 10) (take (unat mx) buf))"
  have "?l \<le> unat mx" by (rule order_trans [OF length_takeWhile_le]) simp
  then have "?l < 18446744073709551616" using u64_less_bound [of mx] by linarith
  then have "unat (word_of_nat ?l :: u64) = ?l" by (simp add: unat_of_nat)
  moreover have "?l = unat mx" if "10 \<notin> set (take (unat mx) buf)"
    using that assms(2) by (subst takeWhile_eq_all_conv [THEN iffD2]) auto
  ultimately show ?thesis using assms by (auto simp: line_length_def c_memchr_ok)
qed

lemma i_calloc_cases:
  assumes "libc_ok os" and "0 < n"
  shows "\<exists>msg. i_calloc os n 1 e = Some (case lc_calloc os (unat n) 1 of
    None \<Rightarrow> (None, fst (error_causef e ERR_NOMEM msg)) | Some _ \<Rightarrow> (Some (replicate (unat n) 0), e))"
proof -
  have "safe_mul_u32 n 1 = Some n" by (simp add: safe_mul_u32_def)
  moreover have "bs = replicate (unat n) 0" if "lc_calloc os (unat n) 1 = Some bs" for bs
    using assms(1) that unfolding libc_ok_def by (metis mult.right_neutral)
  ultimately show ?thesis using assms(2) by (auto simp: i_calloc_def nomem_def split: option.split)
qed

text \<open>A copy has the same bytes and a NUL behind them; a refused one leaves the destination alone.\<close>

lemma string_copy_ok:
  assumes "libc_ok os" and "string_wf s" and "s_len s \<noteq> 4294967295" and "cause_code er = SUCCESS"
  shows "\<exists>r c e'. string_copy os s (Some er) = Some (r, c, e') \<and>
    (case lc_calloc os (unat (s_len s) + 1) 1 of None \<Rightarrow> r = None \<and> c = ERR_NOMEM
     | Some _ \<Rightarrow> c = SUCCESS \<and> e' = Some er \<and> (\<exists>t. r = Some t \<and> s_len t = s_len s \<and> s_data t = string_bytes s @ [0]))"
proof -
  have l: "unat (s_len s) \<noteq> 4294967295" using assms(3) by (simp add: word_unat_eq_iff)
  then have "unat (s_len s) + 1 < 4294967296" using u32_le_bound [of "s_len s"] by linarith
  then have u: "unat (s_len s + 1) = unat (s_len s) + 1" by simp
  then have "0 < s_len s + 1" by (simp add: word_less_nat_alt)
  from i_calloc_cases [OF assms(1) this, of "Some er"] obtain msg where
    c: "i_calloc os (s_len s + 1) 1 (Some er) = Some (case lc_calloc os (unat (s_len s) + 1) 1 of
      None \<Rightarrow> (None, fst (error_causef (Some er) ERR_NOMEM msg)) | Some _ \<Rightarrow> (Some (replicate (unat (s_len s) + 1) 0), Some er))"
    unfolding u by blast
  show ?thesis
  proof (cases "lc_calloc os (unat (s_len s) + 1) 1")
    case None
    then show ?thesis
      using c assms(4) by (simp add: string_copy_def error_trace_def error_causef_def Let_def ERR_NOMEM_def SUCCESS_def)
  next
    case (Some bs)
    have "overwrite (replicate (unat (s_len s) + 1) 0) 0 (string_bytes s) = string_bytes s @ [0]"
    proof -
      have r: "replicate (unat (s_len s) + 1) (0 :: u8) = replicate (unat (s_len s)) 0 @ [0]" by (simp add: replicate_append_same)
      show ?thesis using assms(2) unfolding r by (simp add: overwrite_def)
    qed
    then show ?thesis using c Some assms(2) by (simp add: string_copy_def string_wf_def string_bytes_def)
  qed
qed

subsection \<open>Concatenation\<close>

text \<open>The bytes of the two strings stand one behind the other in the region the allocator granted, and nothing else has changed.\<close>

lemma string_plus_ok:
  assumes a: "lalloc_wf a" and wf: "string_wf s" "string_wf t"
    and n: "0 < unat (s_len s) + unat (s_len t)" "unat (s_len s) + unat (s_len t) < 4294967296"
  shows "\<exists>msg. string_plus s t a e = Some
    (if unat (la_used a) + (unat (s_len s) + unat (s_len t)) < unat (la_limit a)
     then ((Some (la_used a), s_len s + s_len t),
        a\<lparr>la_used := la_used a + (s_len s + s_len t),
          la_data := overwrite (la_data a) (unat (la_used a)) (string_bytes s @ string_bytes t)\<rparr>, e)
     else ((None, 0), a, fst (error_causef e ERR_NOMEM msg)))"
proof -
  have u: "unat (s_len s + s_len t) = unat (s_len s) + unat (s_len t)" using n(2) by simp
  have pos: "0 < s_len s + s_len t" using n(1) by (simp add: word_less_nat_alt u)
  have le: "la_used a \<le> la_limit a" and len: "length (la_data a) = unat (la_limit a)"
    using a by (auto simp: lalloc_wf_def)
  have "(0 :: u32) < 1" by simp
  from lmalloc_result [OF le pos this, of e, unfolded u mult_1_right unsigned_1] obtain msg where
    m: "lmalloc a (s_len s + s_len t) 1 e = Some
      (if unat (la_used a) + (unat (s_len s) + unat (s_len t)) < unat (la_limit a)
       then (Some (la_used a), a\<lparr>la_used := la_used a + (s_len s + s_len t)\<rparr>, e)
       else (None, a, fst (error_causef e ERR_NOMEM msg)))"
    by blast
  have "overwrite (overwrite (la_data a) (unat (la_used a)) (string_bytes s)) (unat (la_used a) + unat (s_len s)) (string_bytes t) =
      overwrite (la_data a) (unat (la_used a)) (string_bytes s @ string_bytes t)"
    if "unat (la_used a) + (unat (s_len s) + unat (s_len t)) < unat (la_limit a)"
    using overwrite_overwrite [of "unat (la_used a)" "string_bytes s" "string_bytes t" "la_data a"] that wf len by simp
  then show ?thesis
    using m wf pos len by (auto simp: string_plus_def Let_def string_wf_def string_bytes_def intro!: exI [of _ msg])
qed

text \<open>Lengths whose sum wraps: the allocator grants the small sum, and the copy leaves its buffer.\<close>

lemma string_plus_wraps:
  assumes a: "lalloc_wf a" and wf: "string_wf s" "string_wf t"
    and n: "4294967296 \<le> unat (s_len s) + unat (s_len t)"
    and r: "string_plus s t a e = Some ((p, len), a', e')"
  shows "p = None"
proof (rule ccontr)
  assume "p \<noteq> None"
  then obtain q where q: "p = Some q" by blast
  from r q obtain a1 m bs e1 where
    "lmalloc a (s_len s + s_len t) 1 e = Some (Some q, a1, e1)" "mem_store m (unat q + unat (s_len s)) bs \<noteq> None"
    "bs = take (unat (s_len t)) (s_data t)" "length m = length (la_data a1)"
    by (auto simp: string_plus_def Let_def bind_Some_iff mem_load_Some mem_store_Some split: option.splits if_splits prod.splits)
  then have "unat q + unat (s_len s) + unat (s_len t) \<le> unat (la_limit a)"
    using lmalloc_wf [OF a] a wf by (auto simp: lalloc_wf_def string_wf_def mem_store_def split: if_splits)
  then show False using n u32_less_bound [of "la_limit a"] by linarith
qed

subsection \<open>Disjointness\<close>

lemma occurs_loop_ok:
  "\<lbrakk>string_wf s; 0 \<notin> set (string_bytes s); \<forall>t\<in>set ts. string_wf t \<and> 0 \<notin> set (string_bytes t)\<rbrakk> \<Longrightarrow>
   occurs_loop s ts = Some (string_bytes s \<in> string_bytes ` set ts)"
proof (induction ts)
  case (Cons t ts)
  have "string_equal s t = Some (string_bytes s = string_bytes t)"
    using Cons.prems string_equal_ok [of s t] string_bytes_inj [of s t] by (auto simp: c_text_id)
  then show ?case using Cons by auto
qed simp

lemma disjoint_loop_ok:
  "\<forall>s\<in>set ss \<union> set ts. string_wf s \<and> 0 \<notin> set (string_bytes s) \<Longrightarrow>
   \<exists>r. disjoint_loop ss ts i = Some r \<and> (case r of
      None \<Rightarrow> string_bytes ` set ss \<inter> string_bytes ` set ts = {}
    | Some k \<Rightarrow> i \<le> k \<and> k - i < length ss \<and> string_bytes (ss ! (k - i)) \<in> string_bytes ` set ts \<and>
        (\<forall>j<k - i. string_bytes (ss ! j) \<notin> string_bytes ` set ts))"
proof (induction ss arbitrary: i)
  case (Cons s ss)
  have o: "occurs_loop s ts = Some (string_bytes s \<in> string_bytes ` set ts)"
    using Cons.prems by (intro occurs_loop_ok) auto
  show ?case
  proof (cases "string_bytes s \<in> string_bytes ` set ts")
    case True
    then show ?thesis using o by simp
  next
    case False
    from Cons.IH [of "Suc i"] Cons.prems obtain r where r: "disjoint_loop ss ts (Suc i) = Some r"
      "case r of None \<Rightarrow> string_bytes ` set ss \<inter> string_bytes ` set ts = {}
       | Some k \<Rightarrow> Suc i \<le> k \<and> k - Suc i < length ss \<and> string_bytes (ss ! (k - Suc i)) \<in> string_bytes ` set ts \<and>
          (\<forall>j<k - Suc i. string_bytes (ss ! j) \<notin> string_bytes ` set ts)" by auto
    show ?thesis
    proof (cases r)
      case None
      then show ?thesis using r o False by auto
    next
      case (Some k)
      then have k: "k - i = Suc (k - Suc i)" using r(2) by auto
      have "\<forall>j<k - i. string_bytes ((s # ss) ! j) \<notin> string_bytes ` set ts"
        using Some r(2) False unfolding k by (auto simp: less_Suc_eq_0_disj)
      then show ?thesis using Some r o False k by simp
    qed
  qed
qed simp

subsection \<open>File names\<close>

lemma c_strrchr_ok:
  "\<lbrakk>0 \<notin> set xs; c \<noteq> 0\<rbrakk> \<Longrightarrow> \<exists>r. c_strrchr (xs @ 0 # rest) c = Some r \<and> (case r of
     None \<Rightarrow> c \<notin> set xs | Some i \<Rightarrow> i < length xs \<and> xs ! i = c \<and> c \<notin> set (drop (Suc i) xs))"
proof (induction xs)
  case (Cons x xs)
  then obtain r where r: "c_strrchr (xs @ 0 # rest) c = Some r"
    "case r of None \<Rightarrow> c \<notin> set xs | Some i \<Rightarrow> i < length xs \<and> xs ! i = c \<and> c \<notin> set (drop (Suc i) xs)" by auto
  then show ?case using Cons.prems by (auto split: option.splits)
qed simp

text \<open>The name is what stands behind the last separator of either kind.\<close>

lemma file_basename_ok:
  assumes "0 \<notin> set xs"
  shows "\<exists>k. file_basename (xs @ 0 # rest) = Some k \<and> k \<le> length xs \<and> (k = 0 \<or> xs ! (k - 1) \<in> {47, 92}) \<and>
    47 \<notin> set (drop k xs) \<and> 92 \<notin> set (drop k xs)"
proof -
  obtain r where r: "c_strrchr (xs @ 0 # rest) 47 = Some r"
    "case r of None \<Rightarrow> 47 \<notin> set xs | Some i \<Rightarrow> i < length xs \<and> xs ! i = 47 \<and> 47 \<notin> set (drop (Suc i) xs)"
    using c_strrchr_ok [OF assms, of 47 rest] by auto
  obtain q where q: "c_strrchr (xs @ 0 # rest) 92 = Some q"
    "case q of None \<Rightarrow> 92 \<notin> set xs | Some i \<Rightarrow> i < length xs \<and> xs ! i = 92 \<and> 92 \<notin> set (drop (Suc i) xs)"
    using c_strrchr_ok [OF assms, of 92 rest] by auto
  have later: "c \<notin> set (drop n xs)" if "c \<notin> set (drop m xs)" "m \<le> n" for c m n
    using that set_drop_subset_set_drop [of m n xs] by auto
  have all: "c \<notin> set (drop n xs)" if "c \<notin> set xs" for c n using that by (auto dest: in_set_dropD)
  show ?thesis
    using r q by (auto simp: file_basename_def Let_def all split: option.splits) (meson Suc_le_mono later less_imp_le not_less)+
qed

section \<open>Properties\<close>

text \<open>
  C32. The four comparisons are one total order, the lexicographic order of the bytes with a proper prefix first: exactly one of
  less, greater and equal bytes holds, and the other two are the negations.
\<close>

theorem strings_compare_lexicographically:
  assumes "string_wf s" and "string_wf t"
  shows "string_less_string s t = Some ((string_bytes s, string_bytes t) \<in> byte_order) \<and>
    string_greater_string s t = Some ((string_bytes t, string_bytes s) \<in> byte_order) \<and>
    string_less_equal_string s t = Some ((string_bytes s, string_bytes t) \<in> byte_order \<or> string_bytes s = string_bytes t) \<and>
    string_greater_equal_string s t = Some ((string_bytes t, string_bytes s) \<in> byte_order \<or> string_bytes s = string_bytes t)"
proof -
  have "(bs, as) \<notin> byte_order \<longleftrightarrow> (as, bs) \<in> byte_order \<or> as = bs" for as bs
    using byte_order_total [of as bs] by (auto simp: byte_order_cmp cmp_bytes_flip [of bs as])
  then show ?thesis
    using string_less_ok [OF assms] string_greater_ok [OF assms]
    by (auto simp: string_less_equal_string_def string_greater_equal_string_def)
qed

theorem strings_compare_lexicographically_witness:
  "string_less_string \<lparr>s_len = 2, s_data = [97, 98, 7]\<rparr> \<lparr>s_len = 3, s_data = [97, 98, 99]\<rparr> = Some True \<and>
   string_greater_equal_string \<lparr>s_len = 2, s_data = [97, 98, 7]\<rparr> \<lparr>s_len = 3, s_data = [97, 98, 99]\<rparr> = Some False"
  using strings_compare_lexicographically [of "\<lparr>s_len = 2, s_data = [97, 98, 7]\<rparr>" "\<lparr>s_len = 3, s_data = [97, 98, 99]\<rparr>"]
  by (simp add: string_wf_def string_bytes_def byte_order_cmp)

text \<open>
  C33. On strings without NUL, \<open>string_contains\<close> returns whether the second is a contiguous part of the first.
\<close>

theorem string_contains_is_sublist:
  assumes "string_wf s" and "string_wf t" and "0 \<notin> set (string_bytes s)" and "0 \<notin> set (string_bytes t)"
  shows "string_contains s t = Some (sublist (string_bytes t) (string_bytes s))"
  using assms by (rule string_contains_ok)

theorem string_contains_is_sublist_witness:
  "string_contains \<lparr>s_len = 6, s_data = [102, 111, 111, 98, 97, 114, 0]\<rparr> \<lparr>s_len = 2, s_data = [111, 98]\<rparr> = Some True"
proof -
  have "sublist [111, 98] [102, 111, 111, 98, 97, 114 :: u8]"
    unfolding sublist_def by (intro exI [of _ "[102, 111]"] exI [of _ "[97, 114]"]) simp
  then show ?thesis
    using string_contains_is_sublist [of "\<lparr>s_len = 6, s_data = [102, 111, 111, 98, 97, 114, 0]\<rparr>" "\<lparr>s_len = 2, s_data = [111, 98]\<rparr>"]
    by (simp add: string_wf_def string_bytes_def)
qed

text \<open>
  The checks on arrays of strings: \<open>strings_all_unique\<close> returns whether the byte strings are distinct, and
  \<open>strings_are_disjoint\<close>, on strings without NUL, points at the first string of the left array that occurs in the right one, or at nothing when
  there is none.
\<close>

theorem string_arrays_checked:
  assumes "\<forall>s\<in>set ss \<union> set ts. string_wf s \<and> 0 \<notin> set (string_bytes s)"
    and "unat m = length ss" and "unat n = length ts"
  shows "strings_all_unique ss m = Some (distinct (map string_bytes ss)) \<and>
    (\<exists>r. strings_are_disjoint ss m ts n = Some r \<and> (case r of
       None \<Rightarrow> string_bytes ` set ss \<inter> string_bytes ` set ts = {}
     | Some k \<Rightarrow> k < length ss \<and> string_bytes (ss ! k) \<in> string_bytes ` set ts \<and>
         (\<forall>j<k. string_bytes (ss ! j) \<notin> string_bytes ` set ts)))"
proof -
  obtain r where "disjoint_loop ss ts 0 = Some r" and r: "case r of
       None \<Rightarrow> string_bytes ` set ss \<inter> string_bytes ` set ts = {}
     | Some k \<Rightarrow> k < length ss \<and> string_bytes (ss ! k) \<in> string_bytes ` set ts \<and> (\<forall>j<k. string_bytes (ss ! j) \<notin> string_bytes ` set ts)"
    using disjoint_loop_ok [OF assms(1), of 0] by (auto split: option.splits)
  then have "strings_are_disjoint ss m ts n = Some r" using assms(2,3) by (simp add: strings_are_disjoint_def)
  moreover have "strings_all_unique ss m = Some (distinct (map string_bytes ss))"
    using assms(1,2) by (simp add: strings_all_unique_def unique_outer_ok)
  ultimately show ?thesis using r by blast
qed

theorem string_arrays_checked_witness:
  "strings_all_unique [\<lparr>s_len = 1, s_data = [97]\<rparr>, \<lparr>s_len = 1, s_data = [97, 98]\<rparr>] 2 = Some False \<and>
   strings_are_disjoint [\<lparr>s_len = 1, s_data = [97]\<rparr>, \<lparr>s_len = 1, s_data = [97, 98]\<rparr>] 2 [\<lparr>s_len = 1, s_data = [98]\<rparr>] 1 = Some None"
proof -
  let ?ss = "[\<lparr>s_len = 1, s_data = [97]\<rparr>, \<lparr>s_len = 1, s_data = [97, 98]\<rparr>]" and ?ts = "[\<lparr>s_len = 1, s_data = [98]\<rparr>]"
  have b: "map string_bytes ?ss = [[97], [97]]" "string_bytes ` set ?ts = {[98]}"
    by (simp_all add: string_bytes_def)
  have "\<forall>s\<in>set ?ss \<union> set ?ts. string_wf s \<and> 0 \<notin> set (string_bytes s)" "unat (2 :: u32) = length ?ss" "unat (1 :: u32) = length ?ts"
    by (simp_all add: string_wf_def string_bytes_def)
  note chk = string_arrays_checked [OF this, unfolded b]
  obtain r where r: "strings_are_disjoint ?ss 2 ?ts 1 = Some r" "case r of
       None \<Rightarrow> string_bytes ` set ?ss \<inter> {[98]} = {}
     | Some k \<Rightarrow> k < length ?ss \<and> string_bytes (?ss ! k) \<in> {[98]} \<and> (\<forall>j<k. string_bytes (?ss ! j) \<notin> {[98]})"
    using conjunct2 [OF chk] by blast
  have "string_bytes (?ss ! k) = [97]" if "k < length ?ss" for k
    using that by (auto simp: string_bytes_def less_Suc_eq)
  then have "r = None" using r(2) by (cases r) auto
  then show ?thesis using conjunct1 [OF chk] r(1) by simp
qed

text \<open>A NUL inside a string: \<open>string_equal\<close> does not look behind it, the other functions do.\<close>

lemma string_equal_stops_at_nul:
  "string_equal \<lparr>s_len = 3, s_data = [97, 0, 98]\<rparr> \<lparr>s_len = 3, s_data = [97, 0, 99]\<rparr> = Some True \<and>
   string_less_string \<lparr>s_len = 3, s_data = [97, 0, 98]\<rparr> \<lparr>s_len = 3, s_data = [97, 0, 99]\<rparr> = Some True \<and>
   strings_all_unique [\<lparr>s_len = 3, s_data = [97, 0, 98]\<rparr>, \<lparr>s_len = 3, s_data = [97, 0, 99]\<rparr>] 2 = Some True"
  by (simp add: string_equal_ok string_less_ok string_wf_def string_bytes_def byte_order_cmp strings_all_unique_def unique_outer_ok
      del: unique_outer.simps unique_inner.simps)

end
