(* ===== verification/Checksum.thy ===== *)
theory Checksum
  imports Cstring
begin

unbundle bit_operations_syntax

text \<open>
  The CRC-32C checksum of \<^verbatim>\<open>core/checksums.c\<close> and the hash of \<^verbatim>\<open>core/hashing.c\<close>. The checksum works on
  bytes through a table it fills at its first call; the reference shifts one bit at a time.
\<close>

section \<open>Checksum\<close>

text \<open>The file's static variables.\<close>

record crc_static =
  crc32c_tbl :: "u32 list"
  crc32c_inited :: bool

definition crc_bit :: "u32 \<Rightarrow> u32" where
  "crc_bit c = (drop_bit 1 c) XOR (0x82F63B78 AND (- (c AND 1)))"

definition crc32c_init :: "crc_static \<Rightarrow> crc_static" where
  "crc32c_init g = g\<lparr>crc32c_tbl := map (\<lambda>i. (crc_bit ^^ 8) (word_of_nat i)) [0..<256], crc32c_inited := True\<rparr>"

definition checksum_init :: u32 where
  "checksum_init = 0"

fun checksum_loop :: "u32 list \<Rightarrow> u8 list \<Rightarrow> u32 \<Rightarrow> u32" where
  "checksum_loop tbl [] c = c"
| "checksum_loop tbl (d # data) c =
     checksum_loop tbl data ((drop_bit 8 c) XOR (tbl ! unat ((c XOR ucast d) AND 0xFF)))"

definition checksum_execute :: "crc_static \<Rightarrow> u32 \<Rightarrow> u8 list \<Rightarrow> u32 \<Rightarrow> (u32 \<times> crc_static) option" where
  "checksum_execute g state data len = do {
     ASSERT (len > 0);
     let g = (if crc32c_inited g then g else crc32c_init g);
     bs \<leftarrow> mem_load data 0 (unat len);
     Some (NOT (checksum_loop (crc32c_tbl g) bs (NOT state)), g)
   }"

section \<open>The table\<close>

lemma crc_bit_alt: "crc_bit c = (drop_bit 1 c) XOR (if odd c then 0x82F63B78 else 0)"
  by (auto simp: crc_bit_def and_one_eq odd_iff_mod_2_eq_one even_iff_mod_2_eq_zero)

lemma bit_crc_bit: "bit (crc_bit c) n \<longleftrightarrow> bit c (Suc n) \<noteq> (bit c 0 \<and> bit (0x82F63B78 :: u32) n)"
  by (auto simp: crc_bit_alt bit_simps bit_0)

lemma crc_bit_xor: "crc_bit (a XOR b) = crc_bit a XOR crc_bit b"
  by (rule bit_word_eqI) (auto simp: bit_crc_bit bit_xor_iff)

lemma crc_bits_xor: "(crc_bit ^^ n) (a XOR b) = (crc_bit ^^ n) a XOR (crc_bit ^^ n) b"
  by (induction n) (simp_all add: crc_bit_xor)

lemma crc_bits_high: "take_bit n c = 0 \<Longrightarrow> (crc_bit ^^ n) c = drop_bit n c"
proof (induction n arbitrary: c)
  case (Suc n)
  have even: "\<not> bit c 0" using arg_cong [OF Suc.prems, of "\<lambda>w. bit w 0"] by (simp add: bit_take_bit_iff)
  then have "crc_bit c = drop_bit 1 c" by (simp add: crc_bit_alt bit_0)
  moreover have "take_bit n (drop_bit 1 c) = 0"
  proof (rule bit_word_eqI)
    fix i
    show "bit (take_bit n (drop_bit 1 c)) i = bit 0 i"
      using arg_cong [OF Suc.prems, of "\<lambda>w. bit w (Suc i)"] by (simp add: bit_take_bit_iff bit_drop_bit_eq)
  qed
  ultimately have "(crc_bit ^^ Suc n) c = drop_bit n (drop_bit 1 c)"
    using Suc.IH [of "drop_bit 1 c"] by (simp only: funpow_Suc_right o_apply)
  then show ?case by simp
qed simp

lemma crc_bits_split: "(crc_bit ^^ n) c = drop_bit n c XOR (crc_bit ^^ n) (take_bit n c)"
proof -
  have "take_bit n (push_bit n (drop_bit n c)) = (0 :: u32)"
    by (rule bit_word_eqI) (auto simp: bit_simps)
  moreover have "c = push_bit n (drop_bit n c) XOR take_bit n c"
    by (rule bit_word_eqI) (auto simp: bit_simps)
  moreover have "drop_bit n (push_bit n (drop_bit n c)) = drop_bit n c"
    by (rule bit_word_eqI) (auto simp: bit_simps dest: bit_imp_le_length)
  ultimately show ?thesis
    using crc_bits_xor [of n "push_bit n (drop_bit n c)" "take_bit n c"] crc_bits_high by metis
qed


definition crc_table :: "u32 list" where
  "crc_table = map (\<lambda>i. (crc_bit ^^ 8) (word_of_nat i)) [0..<256]"

lemma crc_table_step: "drop_bit 8 c XOR (crc_table ! unat ((c XOR ucast d) AND 0xFF)) = (crc_bit ^^ 8) (c XOR ucast (d :: u8))"
proof -
  let ?x = "c XOR ucast d"
  have m: "?x AND 0xFF = take_bit 8 ?x" by (simp add: take_bit_eq_mask mask_eq_exp_minus_1)
  have "unat (take_bit 8 ?x) = take_bit 8 (unat ?x)" by (simp only: unsigned_take_bit_eq)
  then have lt: "unat (take_bit 8 ?x) < 256" using take_bit_nat_less_exp [of 8 "unat ?x"] by simp
  have "crc_table ! unat (take_bit 8 ?x) = (crc_bit ^^ 8) (word_of_nat (unat (take_bit 8 ?x)))"
    using lt by (simp only: crc_table_def length_map length_upt nth_map nth_upt add_0) simp
  also have "\<dots> = (crc_bit ^^ 8) (take_bit 8 ?x)" by simp
  finally have t: "crc_table ! unat (?x AND 0xFF) = (crc_bit ^^ 8) (take_bit 8 ?x)" unfolding m .
  have "drop_bit 8 (ucast d :: u32) = 0"
    by (rule bit_word_eqI) (auto simp: bit_simps dest: bit_imp_le_length)
  then have "drop_bit 8 ?x = drop_bit 8 c" by (simp add: drop_bit_xor)
  then show ?thesis unfolding t using crc_bits_split [of 8 ?x] by simp
qed

text \<open>The reference: the message is shifted through the register one bit at a time, the low bit of a byte first.\<close>

definition crc_shift :: "bool \<Rightarrow> u32 \<Rightarrow> u32" where
  "crc_shift m c = drop_bit 1 c XOR (if bit c 0 \<noteq> m then 0x82F63B78 else 0)"

definition message_bits :: "u8 list \<Rightarrow> bool list" where
  "message_bits data = concat (map (\<lambda>d. map (bit d) [0..<8]) data)"

definition crc_register :: "u32 \<Rightarrow> bool list \<Rightarrow> u32" where
  "crc_register c ms = fold crc_shift ms c"

lemma crc_register_simps [simp]:
  "crc_register c [] = c"
  "crc_register c (m # ms) = crc_register (crc_shift m c) ms"
  "crc_register c (ms @ ns) = crc_register (crc_register c ms) ns"
  by (simp_all add: crc_register_def)

lemma message_bits_simps [simp]:
  "message_bits [] = []"
  "message_bits (d # data) = map (bit d) [0..<8] @ message_bits data"
  "message_bits (xs @ ys) = message_bits xs @ message_bits ys"
  by (simp_all add: message_bits_def)

text \<open>Shifting \<open>n\<close> bits in one by one is adding them at once and shifting \<open>n\<close> times.\<close>

lemma crc_register_bits:
  "drop_bit n w = 0 \<Longrightarrow> crc_register c (map (bit w) [0..<n]) = (crc_bit ^^ n) (c XOR w)"
proof (induction n arbitrary: c w)
  case (Suc n)
  have "map (bit w) [0..<Suc n] = bit w 0 # map (bit (drop_bit 1 w)) [0..<n]"
    by (rule nth_equalityI) (auto simp: nth_Cons bit_drop_bit_eq simp del: upt_Suc split: nat.split)
  moreover have "drop_bit n (drop_bit 1 w) = 0" using Suc.prems by simp
  moreover have "crc_bit (c XOR w) = crc_shift (bit w 0) c XOR drop_bit 1 w"
    by (rule bit_word_eqI) (auto simp: bit_crc_bit crc_shift_def bit_simps)
  ultimately show ?case
    using Suc.IH [of "drop_bit 1 w" "crc_shift (bit w 0) c"] by (simp add: funpow_Suc_right del: funpow.simps upt_Suc)
qed simp

lemma checksum_loop_table: "checksum_loop crc_table data c = crc_register c (message_bits data)"
proof (induction data arbitrary: c)
  case (Cons d data)
  have "drop_bit 8 (ucast d :: u32) = 0"
    by (rule bit_word_eqI) (auto simp: bit_simps dest: bit_imp_le_length)
  from crc_register_bits [OF this, of c]
  have "(crc_bit ^^ 8) (c XOR ucast d) = crc_register c (map (bit (ucast d :: u32)) [0..<8])" by simp
  also have "map (bit (ucast d :: u32)) [0..<8] = map (bit d) [0..<8]"
    by (intro map_cong refl) (simp add: bit_simps)
  finally show ?case using Cons by (simp add: crc_table_step del: funpow.simps upt_Suc)
qed simp

definition crc_static_ok :: "crc_static \<Rightarrow> bool" where
  "crc_static_ok g \<longleftrightarrow> (crc32c_inited g \<longrightarrow> crc32c_tbl g = crc_table)"

lemma checksum_execute_ok:
  assumes "crc_static_ok g" and "0 < len" and "unat len \<le> length data"
  shows "\<exists>g'. crc_static_ok g' \<and> checksum_execute g state data len =
    Some (NOT (crc_register (NOT state) (message_bits (take (unat len) data))), g')"
  using assms
  by (simp add: checksum_execute_def crc_static_ok_def crc32c_init_def crc_table_def [symmetric] checksum_loop_table Let_def)

section \<open>What it detects\<close>

lemma crc_bit_inj: "crc_bit a = crc_bit b \<Longrightarrow> a = b"
proof -
  assume e: "crc_bit a = crc_bit b"
  have top: "bit (crc_bit c) 31 = bit c 0" for c
  proof -
    have "\<not> bit c (Suc 31)" using bit_imp_le_length [of c 32] by auto
    moreover have "bit (0x82F63B78 :: u32) 31" by (simp add: bit_numeral_rec)
    ultimately show ?thesis by (simp add: bit_crc_bit)
  qed
  then have low: "bit a 0 = bit b 0" using e by metis
  show "a = b"
  proof (rule bit_word_eqI)
    fix n
    show "bit a n = bit b n"
    proof (cases n)
      case (Suc m)
      have "bit (crc_bit a) m = bit (crc_bit b) m" using e by simp
      then show ?thesis using Suc low by (auto simp: bit_crc_bit)
    qed (simp add: low)
  qed
qed

lemma crc_bits_inj: "(crc_bit ^^ n) a = (crc_bit ^^ n) b \<Longrightarrow> a = b"
  by (induction n) (auto dest: crc_bit_inj)

lemma crc_shift_inj: "crc_shift m a = crc_shift m b \<Longrightarrow> a = b"
proof -
  assume e: "crc_shift m a = crc_shift m b"
  have shift: "crc_bit (c XOR of_bool m) = crc_shift m c" for c
  proof -
    have "drop_bit 1 (of_bool m :: u32) = 0" by (cases m) simp_all
    from crc_register_bits [OF this, of c] show ?thesis by (cases m) (simp_all add: bit_simps)
  qed
  have "a XOR of_bool m = b XOR of_bool m" using e unfolding shift [symmetric] by (rule crc_bit_inj)
  then have "(a XOR of_bool m) XOR of_bool m = (b XOR of_bool m) XOR of_bool m" by simp
  then show "a = b" by (simp only: xor.assoc xor_self_eq xor.right_neutral)
qed

lemma crc_register_inj: "crc_register a ms = crc_register b ms \<Longrightarrow> a = b"
  by (induction ms arbitrary: a b) (auto dest: crc_shift_inj)

text \<open>A run of at most 32 bits leaves its trace in the register.\<close>

lemma crc_register_short:
  assumes "crc_register c xs = crc_register c ys" and "length xs = length ys" and "length ys \<le> 32"
  shows "xs = ys"
proof -
  let ?w = "\<lambda>zs. horner_sum of_bool 2 zs :: u32"
  have b: "map (bit (?w zs)) [0..<length zs] = zs" if "length zs \<le> 32" for zs
    using that by (intro nth_equalityI) (auto simp: bit_horner_sum_bit_word_iff)
  have z: "drop_bit (length zs) (?w zs) = 0" for zs
    by (rule bit_word_eqI) (auto simp: bit_simps bit_horner_sum_bit_word_iff)
  have r: "crc_register c zs = (crc_bit ^^ length zs) (c XOR ?w zs)" if "length zs \<le> 32" for zs
    using crc_register_bits [OF z [of zs], where c = c] b [OF that] by simp
  have "c XOR ?w xs = c XOR ?w ys"
    using assms r [of xs] r [of ys] crc_bits_inj [of "length ys"] by simp
  then have "c XOR (c XOR ?w xs) = c XOR (c XOR ?w ys)" by simp
  then have "?w xs = ?w ys" by (simp add: xor.assoc [symmetric])
  then show ?thesis using assms(2,3) b by metis
qed

section \<open>Properties\<close>

text \<open>A message handed over in pieces.\<close>

fun checksum_run :: "crc_static \<Rightarrow> u32 \<Rightarrow> u8 list list \<Rightarrow> (u32 \<times> crc_static) option" where
  "checksum_run g state [] = Some (state, g)"
| "checksum_run g state (p # ps) = do {
     (state, g) \<leftarrow> checksum_execute g state p (u32_of (length p));
     checksum_run g state ps
   }"

lemma checksum_run_ok:
  assumes "crc_static_ok g" and "\<forall>p\<in>set ps. p \<noteq> [] \<and> length p < 4294967296"
  shows "\<exists>g'. crc_static_ok g' \<and>
    checksum_run g state ps = Some (NOT (crc_register (NOT state) (message_bits (concat ps))), g')"
  using assms
proof (induction ps arbitrary: g state)
  case (Cons p ps)
  have "p \<noteq> []" "length p < 4294967296" using Cons.prems(2) by auto
  then have "0 < u32_of (length p)" "unat (u32_of (length p)) = length p" by (simp_all add: word_less_nat_alt)
  then obtain g' where g': "crc_static_ok g'" "checksum_execute g state p (u32_of (length p)) =
      Some (NOT (crc_register (NOT state) (message_bits p)), g')"
    using checksum_execute_ok [OF Cons.prems(1), of "u32_of (length p)" p state] by auto
  from Cons.IH [OF g'(1), of "NOT (crc_register (NOT state) (message_bits p))"] Cons.prems(2) g'(2)
  show ?case by (auto simp del: message_bits_simps(2))
qed simp

text \<open>
  C27. The checksum is the CRC-32C of the message: whatever the pieces it comes in, and whether or not the table has been filled
  before, the state is the one that shifting the message's bits through the register gives, from all ones and inverted at the end.
\<close>

theorem checksum_is_crc32c:
  assumes "crc_static_ok g" and "\<forall>p\<in>set ps. p \<noteq> [] \<and> length p < 4294967296"
  shows "\<exists>g'. crc_static_ok g' \<and>
    checksum_run g checksum_init ps = Some (NOT (crc_register (NOT 0) (message_bits (concat ps))), g')"
  using checksum_run_ok [OF assms, of checksum_init] by (simp add: checksum_init_def)

theorem checksum_is_crc32c_witness:
  "\<exists>g'. checksum_run \<lparr>crc32c_tbl = replicate 256 0, crc32c_inited = False\<rparr> checksum_init [[49, 50], [51]] =
     Some (NOT (crc_register (NOT 0) (message_bits [49, 50, 51])), g')"
  using checksum_is_crc32c [of "\<lparr>crc32c_tbl = replicate 256 0, crc32c_inited = False\<rparr>" "[[49, 50], [51]]"]
  by (auto simp: crc_static_ok_def simp del: checksum_run.simps message_bits_simps)

text \<open>
  C28. Two messages of one length that differ, and differ only within 32 consecutive bits, have different checksums from the same
  state: every burst of errors of up to 32 bits is detected.
\<close>

theorem checksum_detects_bursts:
  assumes "crc_static_ok g" and "crc_static_ok h" and "0 < len" and "length as = unat len" and "length bs = unat len"
    and "message_bits as = p @ x @ s" and "message_bits bs = p @ y @ s" and "length x = length y" and "length y \<le> 32" and "as \<noteq> bs"
  shows "\<exists>a b g' h'. checksum_execute g state as len = Some (a, g') \<and> checksum_execute h state bs len = Some (b, h') \<and> a \<noteq> b"
proof -
  have bytes: "as = bs" if "message_bits as = message_bits bs" "length as = length bs"
    using that(2,1)
  proof (induction as bs rule: list_induct2)
    case (Cons a as b bs)
    then have ab: "map (bit a) [0..<8] = map (bit b) [0..<8]" "message_bits as = message_bits bs"
      by (simp_all del: upt_Suc add: append_eq_append_conv)
    have "a = b"
    proof (rule bit_word_eqI)
      fix n assume "n < LENGTH(8)"
      then show "bit a n = bit b n" using arg_cong [OF ab(1), of "\<lambda>l. l ! n"] by (simp del:)
    qed
    then show ?case using Cons.IH [OF ab(2)] by simp
  qed simp
  have "crc_register c (p @ x @ s) \<noteq> crc_register c (p @ y @ s)" for c
  proof
    assume "crc_register c (p @ x @ s) = crc_register c (p @ y @ s)"
    then have "crc_register (crc_register c p) x = crc_register (crc_register c p) y" by (auto dest: crc_register_inj)
    then have "x = y" using assms(8,9) by (rule crc_register_short)
    then show False using assms bytes by simp
  qed
  then show ?thesis
    using checksum_execute_ok [OF assms(1,3), of as state] checksum_execute_ok [OF assms(2,3), of bs state] assms(4-7) by auto
qed

theorem checksum_detects_bursts_witness:
  "\<exists>a b g' h'. checksum_execute \<lparr>crc32c_tbl = [], crc32c_inited = False\<rparr> 0 [1, 2] 2 = Some (a, g') \<and>
     checksum_execute \<lparr>crc32c_tbl = crc_table, crc32c_inited = True\<rparr> 0 [1, 3] 2 = Some (b, h') \<and> a \<noteq> b"
proof -
  have "length (message_bits [1, 3]) = 16" "length (message_bits [1, 2]) = 16" by simp_all
  then show ?thesis
    using checksum_detects_bursts [of "\<lparr>crc32c_tbl = [], crc32c_inited = False\<rparr>" "\<lparr>crc32c_tbl = crc_table, crc32c_inited = True\<rparr>"
        2 "[1, 2]" "[1, 3]" "[]" "message_bits [1, 2]" "[]" "message_bits [1, 3]" 0]
    by (simp add: crc_static_ok_def del: message_bits_simps)
qed

section \<open>Hash\<close>

fun fnv_loop :: "u8 list \<Rightarrow> u32 \<Rightarrow> u32" where
  "fnv_loop [] hash = hash"
| "fnv_loop (d # str) hash = fnv_loop str ((hash XOR ucast d) * 16777619)"

definition fnv1a_hash :: "cstring \<Rightarrow> u32 option" where
  "fnv1a_hash s = do {
     str \<leftarrow> mem_load (s_data s) 0 (unat (s_len s));
     Some (fnv_loop str 2166136261)
   }"

text \<open>The multiplier is odd, hence has an inverse.\<close>

lemma fnv_step_inj:
  assumes "(a XOR ucast d) * 16777619 = (b XOR ucast d') * (16777619 :: u32)"
  shows "a XOR ucast (d :: u8) = b XOR ucast (d' :: u8)"
proof -
  have inv: "(16777619 :: u32) * 899433627 = 1" by simp
  have "((a XOR ucast d) * 16777619) * 899433627 = ((b XOR ucast d') * 16777619) * (899433627 :: u32)"
    by (simp only: assms)
  then show ?thesis by (simp only: mult.assoc inv mult_1_right)
qed

lemma xor_cancel: "a XOR c = b XOR c \<Longrightarrow> a = (b :: 'a::len word)"
  by (metis xor.assoc xor.right_neutral xor_self_eq)

lemma fnv_loop_inj: "fnv_loop str a = fnv_loop str b \<Longrightarrow> a = b"
  by (induction str arbitrary: a b) (auto dest!: fnv_step_inj xor_cancel)

lemma fnv_loop_append: "fnv_loop (xs @ ys) h = fnv_loop ys (fnv_loop xs h)"
  by (induction xs arbitrary: h) simp_all

text \<open>
  The hash tells two strings apart that differ in one byte, wherever it stands.
\<close>

theorem fnv1a_separates_one_byte:
  assumes "unat (s_len s) = length (xs @ [c] @ ys)" and "take (unat (s_len s)) (s_data s) = xs @ [c] @ ys"
    and "s_len t = s_len s" and "take (unat (s_len t)) (s_data t) = xs @ [d] @ ys" and "c \<noteq> d"
  shows "\<exists>h k. fnv1a_hash s = Some h \<and> fnv1a_hash t = Some k \<and> h \<noteq> k"
proof -
  have "fnv_loop (xs @ [c] @ ys) b \<noteq> fnv_loop (xs @ [d] @ ys) b" for b
  proof
    assume "fnv_loop (xs @ [c] @ ys) b = fnv_loop (xs @ [d] @ ys) b"
    then have "fnv_loop [c] (fnv_loop xs b) = fnv_loop [d] (fnv_loop xs b)"
      by (simp only: fnv_loop_append) (rule fnv_loop_inj)
    then have "fnv_loop xs b XOR ucast c = fnv_loop xs b XOR ucast d" by (auto dest: fnv_step_inj)
    then have eq: "ucast c = (ucast d :: u32)" by (metis xor_cancel xor.commute)
    have "bit c n = bit d n" if "n < 8" for n
      using that arg_cong [OF eq, of "\<lambda>w. bit w n"] by (simp add: bit_simps)
    then have "c = d" by (intro bit_word_eqI) simp
    then show False using assms(5) by simp
  qed
  moreover have "unat (s_len s) \<le> length (s_data s)" "unat (s_len t) \<le> length (s_data t)"
    using arg_cong [OF assms(2), of length] arg_cong [OF assms(4), of length] assms(1,3) by auto
  ultimately show ?thesis using assms(2,4) by (simp add: fnv1a_hash_def)
qed

theorem fnv1a_separates_one_byte_witness:
  "\<exists>h k. fnv1a_hash \<lparr>s_len = 3, s_data = [97, 98, 99]\<rparr> = Some h \<and> fnv1a_hash \<lparr>s_len = 3, s_data = [97, 120, 99, 0]\<rparr> = Some k \<and> h \<noteq> k"
  using fnv1a_separates_one_byte [of "\<lparr>s_len = 3, s_data = [97, 98, 99]\<rparr>" "[97]" 98 "[99]" "\<lparr>s_len = 3, s_data = [97, 120, 99, 0]\<rparr>" 120]
  by simp

end
