(* ===== verification/Numbers.thy ===== *)
theory Numbers
  imports Osmem "HOL-Library.Signed_Division"
begin

unbundle bit_operations_syntax

text \<open>
  Numbers: the checked arithmetic of \<^verbatim>\<open>dev/bounds.h\<close> for compilers without overflow intrinsics, the integer
  parsers and the modulus of \<^verbatim>\<open>core/numbers.c\<close>, and the conversion of half precision floats of \<^verbatim>\<open>core/math.c\<close>. Signed
  integers are integers with the bounds of their width \<open>w\<close> written out; a float is its bit pattern.
\<close>

section \<open>Checked arithmetic\<close>

definition int_min :: "nat \<Rightarrow> int" where
  "int_min w = - (2 ^ (w - 1))"

definition int_max :: "nat \<Rightarrow> int" where
  "int_max w = 2 ^ (w - 1) - 1"

definition uint_max :: "nat \<Rightarrow> int" where
  "uint_max w = 2 ^ w - 1"

definition uadd_ok :: "int \<Rightarrow> int \<Rightarrow> int \<Rightarrow> bool" where
  "uadd_ok a b mx \<longleftrightarrow> a \<le> mx - b"

definition usub_ok :: "int \<Rightarrow> int \<Rightarrow> bool" where
  "usub_ok a b \<longleftrightarrow> a \<ge> b"

definition umul_ok :: "int \<Rightarrow> int \<Rightarrow> int \<Rightarrow> bool" where
  "umul_ok a b mx \<longleftrightarrow> a = 0 \<or> b \<le> mx sdiv a"

definition sadd_ok :: "int \<Rightarrow> int \<Rightarrow> int \<Rightarrow> int \<Rightarrow> bool" where
  "sadd_ok a b mn mx \<longleftrightarrow> b > 0 \<and> a \<le> mx - b \<or> b \<le> 0 \<and> a \<ge> mn - b"

definition ssub_ok :: "int \<Rightarrow> int \<Rightarrow> int \<Rightarrow> int \<Rightarrow> bool" where
  "ssub_ok a b mn mx \<longleftrightarrow> b < 0 \<and> a \<le> mx + b \<or> b \<ge> 0 \<and> a \<ge> mn + b"

definition smul_ok :: "int \<Rightarrow> int \<Rightarrow> int \<Rightarrow> int \<Rightarrow> bool" where
  "smul_ok a b mn mx \<longleftrightarrow> a = 0 \<or> b = 0 \<or>
     a > 0 \<and> b > 0 \<and> a \<le> mx sdiv b \<or>
     a < 0 \<and> b < 0 \<and> a \<ge> mx sdiv b \<or>
     a > 0 \<and> b < 0 \<and> b \<ge> mn sdiv a \<or>
     a < 0 \<and> b > 0 \<and> a \<ge> mn sdiv b"

definition sdiv_ok :: "int \<Rightarrow> int \<Rightarrow> int \<Rightarrow> bool" where
  "sdiv_ok a b mn \<longleftrightarrow> b \<noteq> 0 \<and> \<not> (a = mn \<and> b = -1)"

text \<open>The macros store the result where the check passes.\<close>

definition safe_add_u :: "nat \<Rightarrow> int \<Rightarrow> int \<Rightarrow> int option" where
  "safe_add_u w a b = (if uadd_ok a b (uint_max w) then Some (a + b) else None)"

definition safe_sub_u :: "nat \<Rightarrow> int \<Rightarrow> int \<Rightarrow> int option" where
  "safe_sub_u w a b = (if usub_ok a b then Some (a - b) else None)"

definition safe_mul_u :: "nat \<Rightarrow> int \<Rightarrow> int \<Rightarrow> int option" where
  "safe_mul_u w a b = (if umul_ok a b (uint_max w) then Some (a * b) else None)"

definition safe_add_i :: "nat \<Rightarrow> int \<Rightarrow> int \<Rightarrow> int option" where
  "safe_add_i w a b = (if sadd_ok a b (int_min w) (int_max w) then Some (a + b) else None)"

definition safe_sub_i :: "nat \<Rightarrow> int \<Rightarrow> int \<Rightarrow> int option" where
  "safe_sub_i w a b = (if ssub_ok a b (int_min w) (int_max w) then Some (a - b) else None)"

definition safe_mul_i :: "nat \<Rightarrow> int \<Rightarrow> int \<Rightarrow> int option" where
  "safe_mul_i w a b = (if smul_ok a b (int_min w) (int_max w) then Some (a * b) else None)"

definition safe_div_i :: "nat \<Rightarrow> int \<Rightarrow> int \<Rightarrow> int option" where
  "safe_div_i w a b = (if sdiv_ok a b (int_min w) then Some (a sdiv b) else None)"

text \<open>The intrinsics: the exact result if the type has it.\<close>

definition checked_i :: "nat \<Rightarrow> int \<Rightarrow> int option" where
  "checked_i w x = (if int_min w \<le> x \<and> x \<le> int_max w then Some x else None)"

definition checked_u :: "nat \<Rightarrow> int \<Rightarrow> int option" where
  "checked_u w x = (if 0 \<le> x \<and> x \<le> uint_max w then Some x else None)"

lemma sdiv_pos: "0 < b \<Longrightarrow> 0 \<le> a \<Longrightarrow> a sdiv b = a div (b :: int)"
  by (cases "a = 0") (simp_all add: signed_divide_int_def)

lemma sdiv_neg: "0 < b \<Longrightarrow> a \<le> 0 \<Longrightarrow> a sdiv b = - ((- a) div (b :: int))"
  by (cases "a = 0") (simp_all add: signed_divide_int_def sgn_if)

lemma sdiv_flip: "b < 0 \<Longrightarrow> 0 \<le> a \<Longrightarrow> a sdiv b = - (a div (- b :: int))"
  by (cases "a = 0") (simp_all add: signed_divide_int_def sgn_if)

lemma le_div:
  assumes "0 < b"
  shows "a \<le> c div b \<longleftrightarrow> a * b \<le> (c :: int)"
proof
  assume "a \<le> c div b"
  then have "a * b \<le> c div b * b" using assms by (intro mult_right_mono) simp_all
  also have "\<dots> \<le> c" using assms pos_mod_sign [OF assms, of c] div_mult_mod_eq [of c b] by linarith
  finally show "a * b \<le> c" .
next
  assume "a * b \<le> c"
  then have "a * b div b \<le> c div b" using assms by (rule zdiv_mono1)
  then show "a \<le> c div b" using assms by simp
qed

lemma smul_ok_exact:
  assumes "mn \<le> 0" and "0 \<le> mx"
  shows "smul_ok a b mn mx \<longleftrightarrow> mn \<le> a * b \<and> a * b \<le> mx"
proof -
  consider "a = 0 \<or> b = 0" | "0 < a" "0 < b" | "a < 0" "b < 0" | "0 < a" "b < 0" | "a < 0" "0 < b"
    by linarith
  then show ?thesis
  proof cases
    case 1
    then show ?thesis using assms by (auto simp: smul_ok_def)
  next
    case 2
    then have "0 < a * b" by simp
    then have "mn \<le> a * b" using assms by linarith
    then show ?thesis using 2 assms by (auto simp: smul_ok_def sdiv_pos le_div)
  next
    case 3
    then have "0 < a * b" by (simp add: mult_neg_neg)
    then have "mn \<le> a * b" using assms by linarith
    then show ?thesis using 3 assms le_div [of "- b" "- a" mx] by (auto simp: smul_ok_def sdiv_flip minus_le_iff)
  next
    case 4
    then have "a * b < 0" by (simp add: mult_pos_neg)
    then have "a * b \<le> mx" using assms by linarith
    then show ?thesis using 4 assms le_div [of a "- b" "- mn"] by (auto simp: smul_ok_def sdiv_neg minus_le_iff mult.commute)
  next
    case 5
    then have "a * b < 0" by (simp add: mult_neg_pos)
    then have "a * b \<le> mx" using assms by linarith
    then show ?thesis using 5 assms le_div [of b "- a" "- mn"] by (auto simp: smul_ok_def sdiv_neg minus_le_iff)
  qed
qed

lemma int_bounds: "0 < w \<Longrightarrow> int_min w < 0" "0 \<le> int_max w" "0 \<le> uint_max w"
  by (simp_all add: int_min_def int_max_def uint_max_def)

lemma safe_div_exact:
  assumes "0 < w" and "int_min w \<le> a" "a \<le> int_max w"
  shows "(if sdiv_ok a b (int_min w) then Some (a sdiv b) else None) = (if b = 0 then None else checked_i w (a sdiv b))"
proof -
  have mm: "int_max w = - int_min w - 1" by (simp add: int_max_def int_min_def)
  note mn = int_bounds(1) [OF assms(1)]
  consider "b = 0" | "b = 1" | "b = -1" | "2 \<le> \<bar>b\<bar>" by linarith
  then show ?thesis
  proof cases
    case 2
    then show ?thesis using assms mn by (simp add: sdiv_ok_def checked_i_def)
  next
    case 3
    have "a sdiv -1 = - a" by (simp add: signed_divide_int_def abs_sgn)
    then show ?thesis using 3 assms mn mm by (auto simp: sdiv_ok_def checked_i_def)
  next
    case 4
    let ?q = "\<bar>a\<bar> div \<bar>b\<bar>"
    have "?q \<le> \<bar>a\<bar> div 2" using 4 by (intro zdiv_mono2) simp_all
    moreover have "\<bar>a\<bar> \<le> - int_min w" using assms mm by linarith
    ultimately have q: "?q \<le> int_max w" using mm mn by linarith
    have "0 \<le> ?q" using 4 by (intro pos_imp_zdiv_nonneg_iff [THEN iffD2]) simp_all
    moreover have "a sdiv b = ?q \<or> a sdiv b = - ?q \<or> a sdiv b = 0"
      by (auto simp: signed_divide_int_def sgn_if)
    ultimately have "int_min w \<le> a sdiv b" "a sdiv b \<le> int_max w" using q mm mn by auto
    then show ?thesis using 4 by (auto simp: sdiv_ok_def checked_i_def)
  qed (simp add: sdiv_ok_def)
qed

section \<open>Parsing\<close>

definition is_num :: "u8 \<Rightarrow> bool" where
  "is_num c \<longleftrightarrow> c \<ge> 48 \<and> c \<le> 57"

text \<open>The loop over the \<open>n\<close> remaining characters; the inner \<open>None\<close> is the jump to \<open>failed\<close>.\<close>

fun parse_loop :: "nat \<Rightarrow> nat \<Rightarrow> u8 list \<Rightarrow> int \<Rightarrow> int option option" where
  "parse_loop w 0 data acc = Some (Some acc)"
| "parse_loop w (Suc n) [] acc = None"
| "parse_loop w (Suc n) (c # data) acc = do {
     ASSERT (is_num c);
     let digit = uint c - 48;
     case checked_i w (acc * 10) of
       None \<Rightarrow> Some None
     | Some acc \<Rightarrow> (case checked_i w (acc - digit) of
           None \<Rightarrow> Some None
         | Some acc \<Rightarrow> parse_loop w n data acc)
   }"

text \<open>The first component is what is stored in \<open>*dest\<close>.\<close>

definition parse_int_expect :: "nat \<Rightarrow> string \<Rightarrow> u8 list \<Rightarrow> u32 \<Rightarrow> errp \<Rightarrow> (int option \<times> err_t \<times> errp) option" where
  "parse_int_expect w msg data len e = do {
     ASSERT (len > 0);
     c \<leftarrow> mem_load data 0 1;
     let sign = (c = [43] \<or> c = [45]);
     let neg = (c = [45]);
     let i = (if sign then 1 else 0 :: nat);
     ASSERT (sign \<longrightarrow> i < unat len);
     r \<leftarrow> parse_loop w (unat len - i) (drop i data) 0;
     let failed = (case error_causef e ERR_ARITH msg of (e, c) \<Rightarrow> (None, c, e));
     Some (case r of
         None \<Rightarrow> failed
       | Some acc \<Rightarrow>
           if \<not> neg then (if acc = int_min w then failed else (Some (- acc), SUCCESS, e))
           else (Some acc, SUCCESS, e))
   }"

definition parse_i64_expect :: "u8 list \<Rightarrow> u32 \<Rightarrow> errp \<Rightarrow> (int option \<times> err_t \<times> errp) option" where
  "parse_i64_expect = parse_int_expect 64 ''i64 overflow''"

definition parse_i32_expect :: "u8 list \<Rightarrow> u32 \<Rightarrow> errp \<Rightarrow> (int option \<times> err_t \<times> errp) option" where
  "parse_i32_expect = parse_int_expect 32 ''i32 overflow''"

section \<open>Modulus\<close>

text \<open>The remainder is undefined for the divisor zero and where the quotient overflows.\<close>

definition py_mod_i32 :: "int \<Rightarrow> int \<Rightarrow> int option" where
  "py_mod_i32 num denom = do {
     ASSERT (denom \<noteq> 0 \<and> \<not> (num = int_min 32 \<and> denom = -1));
     let r = num smod denom;
     Some (if r \<noteq> 0 \<and> (r < 0) \<noteq> (denom < 0) then r + denom else r)
   }"

lemma smod_to_mod:
  assumes "denom \<noteq> (0 :: int)"
  shows "num mod denom = (if num smod denom \<noteq> 0 \<and> (num smod denom < 0) \<noteq> (denom < 0) then num smod denom + denom else num smod denom)"
proof -
  define r where "r = num smod denom"
  have "num = r + num sdiv denom * denom" using smod_sdiv_mult_eq [of num denom] by (simp add: r_def)
  then have m: "num mod denom = r mod denom" by (metis mod_mult_self1)
  have l: "- \<bar>denom\<bar> < r" "r < \<bar>denom\<bar>" using smod_int_range [OF assms, of num] by (auto simp: r_def)
  have s: "r mod denom = (r + denom) mod denom" by simp
  consider "denom < 0" "r \<le> 0" | "denom < 0" "0 < r" | "0 < denom" "r < 0" | "0 < denom" "0 \<le> r"
    using assms by linarith
  then have "r mod denom = (if r \<noteq> 0 \<and> (r < 0) \<noteq> (denom < 0) then r + denom else r)"
  proof cases
    case 1
    then show ?thesis using mod_neg_neg_trivial [of r denom] l by auto
  next
    case 2
    then show ?thesis unfolding s using mod_neg_neg_trivial [of "r + denom" denom] l by auto
  next
    case 3
    then show ?thesis unfolding s using mod_pos_pos_trivial [of "r + denom" denom] l by auto
  next
    case 4
    then show ?thesis using mod_pos_pos_trivial [of r denom] l by auto
  qed
  then show ?thesis unfolding r_def m .
qed

lemma py_mod_i32_ok:
  "\<lbrakk>denom \<noteq> 0; \<not> (num = int_min 32 \<and> denom = -1)\<rbrakk> \<Longrightarrow> py_mod_i32 num denom = Some (num mod denom)"
  by (simp add: py_mod_i32_def Let_def smod_to_mod)

section \<open>What the parsers return\<close>

fun digits_value :: "u8 list \<Rightarrow> int \<Rightarrow> int" where
  "digits_value [] v = v"
| "digits_value (c # cs) v = digits_value cs (10 * v + (uint c - 48))"

lemma digits_value_grows: "\<lbrakk>\<forall>c\<in>set cs. is_num c; 0 \<le> v\<rbrakk> \<Longrightarrow> v \<le> digits_value cs v"
proof (induction cs arbitrary: v)
  case (Cons c cs)
  have "48 \<le> uint c" using Cons.prems(1) by (simp add: is_num_def word_le_def)
  then have "0 \<le> 10 * v + (uint c - 48)" "v \<le> 10 * v + (uint c - 48)" using Cons.prems(2) by linarith+
  then show ?case using Cons.IH [of "10 * v + (uint c - 48)"] Cons.prems(1) by simp
qed simp

lemma parse_loop_ok:
  "\<lbrakk>\<forall>c\<in>set cs. is_num c; 0 \<le> v; v \<le> - int_min w; 0 < w\<rbrakk> \<Longrightarrow>
   parse_loop w (length cs) (cs @ rest) (- v) =
     Some (if digits_value cs v \<le> - int_min w then Some (- digits_value cs v) else None)"
proof (induction cs arbitrary: v)
  case (Cons c cs)
  let ?d = "uint c - 48"
  have num: "is_num c" and d: "0 \<le> ?d" using Cons.prems(1) by (simp_all add: is_num_def word_le_def)
  have mx: "0 \<le> int_max w" by (simp add: int_bounds)
  have le: "10 * v + ?d \<le> digits_value cs (10 * v + ?d)"
    using Cons.prems(1,2) d by (intro digits_value_grows) auto
  show ?case
  proof (cases "10 * v + ?d \<le> - int_min w")
    case True
    then have a: "checked_i w (- v * 10) = Some (- (10 * v))" "checked_i w (- (10 * v) - ?d) = Some (- (10 * v + ?d))"
      using d Cons.prems(2) mx by (auto simp: checked_i_def)
    show ?thesis using Cons.IH [of "10 * v + ?d"] Cons.prems True d num a by simp
  next
    case False
    then have "checked_i w (- v * 10) = None \<or> checked_i w (- v * 10) = Some (- (10 * v)) \<and> checked_i w (- (10 * v) - ?d) = None"
      by (auto simp: checked_i_def)
    then show ?thesis using False le num by auto
  qed
qed simp

text \<open>The number a text stands for, and the text of a number.\<close>

definition numeral_text :: "u8 list \<Rightarrow> u8 list \<Rightarrow> int \<Rightarrow> bool" where
  "numeral_text text ds v \<longleftrightarrow> ds \<noteq> [] \<and> (\<forall>c\<in>set ds. is_num c) \<and>
     ((text = ds \<or> text = 43 # ds) \<and> v = digits_value ds 0 \<or> text = 45 # ds \<and> v = - digits_value ds 0)"

lemma parse_int_ok:
  assumes "numeral_text text ds v" and "unat len = length text" and "0 < w"
  shows "parse_int_expect w msg (text @ rest) len e = Some
    (if int_min w \<le> v \<and> v \<le> int_max w then (Some v, SUCCESS, e) else (None, ERR_ARITH, fst (error_causef e ERR_ARITH msg)))"
proof -
  have ds: "ds \<noteq> []" "\<forall>c\<in>set ds. is_num c" using assms(1) by (auto simp: numeral_text_def)
  have v0: "0 \<le> digits_value ds 0" by (rule digits_value_grows [OF ds(2)]) simp
  have nn: "\<not> is_num 43" "\<not> is_num 45" by (simp_all add: is_num_def)
  have mm: "int_max w = - int_min w - 1" by (simp add: int_max_def int_min_def)
  have mn: "0 \<le> - int_min w" "int_min w < 0" using int_bounds(1) [OF assms(3)] by simp_all
  have loop: "parse_loop w (length ds) (ds @ rest) 0 =
      Some (if digits_value ds 0 \<le> - int_min w then Some (- digits_value ds 0) else None)"
    using parse_loop_ok [OF ds(2) order_refl mn(1) assms(3), of rest] by simp
  have ec: "(case error_causef e ERR_ARITH msg of (e, c) \<Rightarrow> (None :: int option, c, e)) = (None, ERR_ARITH, fst (error_causef e ERR_ARITH msg))"
    by (cases e) (simp_all add: error_causef_def Let_def)
  have len: "0 < len" using assms(1,2) ds(1) by (auto simp: numeral_text_def word_less_nat_alt)
  consider "text = ds" "v = digits_value ds 0" | "text = 43 # ds" "v = digits_value ds 0" | "text = 45 # ds" "v = - digits_value ds 0"
    using assms(1) by (auto simp: numeral_text_def)
  then show ?thesis
  proof cases
    case 1
    then obtain c cs where c: "ds = c # cs" "c \<noteq> 43" "c \<noteq> 45" using ds nn by (cases ds) auto
    have "mem_load (text @ rest) 0 1 = Some [c]" using 1 c by simp
    then show ?thesis
      using 1 c(2,3) len loop v0 mm ec assms(2)
      by (simp add: parse_int_expect_def Let_def del: parse_loop.simps digits_value.simps)
  next
    case 2
    then have "mem_load (text @ rest) 0 1 = Some [43]" by simp
    then show ?thesis
      using 2 len loop v0 mm ec assms(2) ds(1) by (simp add: parse_int_expect_def Let_def del: parse_loop.simps digits_value.simps)
  next
    case 3
    then have "mem_load (text @ rest) 0 1 = Some [45]" by simp
    then show ?thesis
      using 3 len loop v0 mm mn ec assms(2) ds(1) by (simp add: parse_int_expect_def Let_def del: parse_loop.simps digits_value.simps)
  qed
qed

fun nat_digits :: "nat \<Rightarrow> u8 list" where
  "nat_digits n = (if n < 10 then [word_of_nat (48 + n)] else nat_digits (n div 10) @ [word_of_nat (48 + n mod 10)])"

declare nat_digits.simps [simp del]

definition int_text :: "int \<Rightarrow> u8 list" where
  "int_text v = (if v < 0 then 45 # nat_digits (nat (- v)) else nat_digits (nat v))"

lemma digits_value_append: "digits_value (xs @ ys) v = digits_value ys (digits_value xs v)"
  by (induction xs arbitrary: v) simp_all

lemma nat_digit:
  assumes "n < 10"
  shows "is_num (word_of_nat (48 + n)) \<and> uint (word_of_nat (48 + n) :: u8) = 48 + int n"
proof -
  have "n = 0 \<or> n = 1 \<or> n = 2 \<or> n = 3 \<or> n = 4 \<or> n = 5 \<or> n = 6 \<or> n = 7 \<or> n = 8 \<or> n = 9" using assms by presburger
  then show ?thesis by (elim disjE) (simp_all add: is_num_def)
qed

lemma nat_digits_ok: "nat_digits n \<noteq> [] \<and> (\<forall>c\<in>set (nat_digits n). is_num c) \<and> digits_value (nat_digits n) 0 = int n"
proof (induction n rule: nat_digits.induct)
  case (1 n)
  show ?case
  proof (cases "n < 10")
    case True
    then show ?thesis using nat_digit [OF True] by (simp add: nat_digits.simps)
  next
    case False
    have "n mod 10 < 10" by simp
    note d = nat_digit [OF this]
    have "10 * int (n div 10) + int (n mod 10) = int n" by (simp add: zdiv_int zmod_int)
    then show ?thesis
      using 1 False d by (simp add: nat_digits.simps [of n] digits_value_append)
  qed
qed

lemma int_text_numeral: "\<exists>ds. numeral_text (int_text v) ds v"
  using nat_digits_ok [of "nat v"] nat_digits_ok [of "nat (- v)"]
  by (cases "v < 0") (auto simp: int_text_def numeral_text_def)

section \<open>Half precision floats\<close>

text \<open>The loop that normalises a subnormal mantissa, and the count of its shifts.\<close>

partial_function (option) f16_shift :: "u32 \<Rightarrow> u32 \<Rightarrow> (u32 \<times> u32) option" where
  "f16_shift mant e = (if mant AND 0x400 = 0 then f16_shift (push_bit 1 mant) (e + 1) else Some (mant, e))"

declare f16_shift.simps [code]

definition f16_to_f32 :: "u16 \<Rightarrow> u32 option" where
  "f16_to_f32 h = (
     let sgn = ucast (drop_bit 15 h) AND 1;
         exp = ucast (drop_bit 10 h) AND 0x1F;
         mant = ucast h AND 0x3FF in
     if exp = 0 then
       (if mant = 0 then Some (push_bit 31 sgn)
        else do {
          (mant, e) \<leftarrow> f16_shift mant 0;
          let mant = mant AND 0x3FF;
          Some (push_bit 31 sgn OR push_bit 23 (113 - e) OR push_bit 13 mant)
        })
     else if exp = 31 then Some (push_bit 31 sgn OR 0x7F800000 OR push_bit 13 mant)
     else Some (push_bit 31 sgn OR push_bit 23 (exp + 112) OR push_bit 13 mant))"

text \<open>The fields of a bit pattern, and the magnitude of a finite one in units of the smallest positive single, \<open>2 ^ -149\<close>.\<close>

definition f32_sign :: "u32 \<Rightarrow> nat" where "f32_sign f = unat (drop_bit 31 f)"
definition f32_exp :: "u32 \<Rightarrow> nat" where "f32_exp f = unat (take_bit 8 (drop_bit 23 f))"
definition f32_mant :: "u32 \<Rightarrow> nat" where "f32_mant f = unat (take_bit 23 f)"

definition f16_sign :: "u16 \<Rightarrow> nat" where "f16_sign h = unat (drop_bit 15 h)"
definition f16_exp :: "u16 \<Rightarrow> nat" where "f16_exp h = unat (take_bit 5 (drop_bit 10 h))"
definition f16_mant :: "u16 \<Rightarrow> nat" where "f16_mant h = unat (take_bit 10 h)"

definition f32_units :: "u32 \<Rightarrow> nat" where
  "f32_units f = (if f32_exp f = 0 then f32_mant f else (2 ^ 23 + f32_mant f) * 2 ^ (f32_exp f - 1))"

definition f16_units :: "u16 \<Rightarrow> nat" where
  "f16_units h = (if f16_exp h = 0 then f16_mant h * 2 ^ 125 else (2 ^ 10 + f16_mant h) * 2 ^ (f16_exp h + 124))"

lemma f32_fields:
  fixes s x m :: u32
  assumes "take_bit 1 s = s" and "take_bit 8 x = x" and "take_bit 23 m = m"
  shows "drop_bit 31 (push_bit 31 s OR push_bit 23 x OR m) = s"
    and "take_bit 8 (drop_bit 23 (push_bit 31 s OR push_bit 23 x OR m)) = x"
    and "take_bit 23 (push_bit 31 s OR push_bit 23 x OR m) = m"
proof -
  have s: "bit s n \<Longrightarrow> n < 1" for n using arg_cong [OF assms(1), of "\<lambda>w. bit w n"] by (simp add: bit_simps)
  have x: "bit x n \<Longrightarrow> n < 8" for n using arg_cong [OF assms(2), of "\<lambda>w. bit w n"] by (simp add: bit_simps)
  have m: "bit m n \<Longrightarrow> n < 23" for n using arg_cong [OF assms(3), of "\<lambda>w. bit w n"] by (simp add: bit_simps)
  show "drop_bit 31 (push_bit 31 s OR push_bit 23 x OR m) = s"
    by (rule bit_word_eqI) (auto simp: bit_simps dest: s x m)
  show "take_bit 8 (drop_bit 23 (push_bit 31 s OR push_bit 23 x OR m)) = x"
    by (rule bit_word_eqI) (auto simp: bit_simps dest: s x m)
  show "take_bit 23 (push_bit 31 s OR push_bit 23 x OR m) = m"
    by (rule bit_word_eqI) (auto simp: bit_simps dest: s x m)
qed

lemma top_bit:
  fixes m :: u32
  assumes "unat m < 2048"
  shows "m AND 0x400 = 0 \<longleftrightarrow> unat m < 1024"
proof -
  have "m AND 0x400 = 0 \<longleftrightarrow> \<not> bit m 10" using and_exp_eq_0_iff_not_bit [of m 10] by simp
  also have "bit m 10 \<longleftrightarrow> bit (unat m) 10" by (simp add: bit_unsigned_iff)
  also have "bit (unat m) 10 \<longleftrightarrow> odd (unat m div 1024)" by (simp add: bit_iff_odd)
  also have "\<not> odd (unat m div 1024) \<longleftrightarrow> unat m < 1024"
  proof -
    have "unat m div 1024 < 2" using assms by (simp add: less_mult_imp_div_less)
    then have "unat m div 1024 = 0 \<or> unat m div 1024 = 1" by linarith
    then show ?thesis by (auto simp: div_eq_0_iff)
  qed
  finally show ?thesis .
qed

lemma f16_shift_ok:
  "\<lbrakk>0 < unat mant; unat mant < 2048; unat e + 2048 < 4294967296 + unat mant\<rbrakk> \<Longrightarrow>
   \<exists>k m' e'. f16_shift mant e = Some (m', e') \<and> unat m' = unat mant * 2 ^ k \<and> unat e' = unat e + k \<and>
     1024 \<le> unat m' \<and> unat m' < 2048"
proof (induction "2048 - unat mant" arbitrary: mant e rule: less_induct)
  case less
  show ?case
  proof (cases "unat mant < 1024")
    case True
    have m: "unat (push_bit 1 mant) = 2 * unat mant"
      using True by (simp add: push_bit_eq_mult)
    have e: "unat (e + 1) = unat e + 1" using less.prems(3) True by simp
    have "2048 - unat (push_bit 1 mant) < 2048 - unat mant" "0 < unat (push_bit 1 mant)" "unat (push_bit 1 mant) < 2048"
      "unat (e + 1) + 2048 < 4294967296 + unat (push_bit 1 mant)"
      using m e less.prems True by linarith+
    from less.hyps [OF this] obtain k m' e' where "f16_shift (push_bit 1 mant) (e + 1) = Some (m', e')"
      and r: "unat m' = 2 * unat mant * 2 ^ k" "unat e' = unat e + 1 + k" "1024 \<le> unat m'" "unat m' < 2048"
      unfolding m e by blast
    moreover have "unat m' = unat mant * 2 ^ Suc k" "unat e' = unat e + Suc k" using r by simp_all
    moreover have "f16_shift mant e = f16_shift (push_bit 1 mant) (e + 1)"
      using top_bit [OF less.prems(2)] True by (subst f16_shift.simps) simp
    ultimately show ?thesis using r(3,4) by metis
  next
    case False
    then show ?thesis using top_bit [OF less.prems(2)] less.prems by (subst f16_shift.simps) (auto intro: exI [of _ 0])
  qed
qed

lemma mask10: "(w :: u32) AND 0x3FF = take_bit 10 w"
  by (simp add: take_bit_eq_mask mask_eq_exp_minus_1)

lemma f16_fields:
  fixes h :: u16
  shows "unat (ucast (drop_bit 15 h) AND 1 :: u32) = f16_sign h" "unat (ucast (drop_bit 10 h) AND 0x1F :: u32) = f16_exp h"
    "unat (ucast h AND 0x3FF :: u32) = f16_mant h" "f16_sign h < 2" "f16_exp h < 32" "f16_mant h < 1024"
proof -
  have m: "w AND 1 = take_bit 1 w" "w AND 0x1F = take_bit 5 w" "w AND 0x3FF = take_bit 10 w" for w :: u32
    by (simp_all add: take_bit_eq_mask mask_eq_exp_minus_1)
  have "unat h < 65536" using unsigned_less [of h] by simp
  then show s: "f16_sign h < 2"
    by (simp add: f16_sign_def drop_bit_eq_div unat_div_distrib less_mult_imp_div_less)
  show "unat (ucast (drop_bit 15 h) AND 1 :: u32) = f16_sign h"
    using s unfolding m unsigned_take_bit_eq unat_u16 f16_sign_def by (intro take_bit_nat_eq_self) simp
  show "unat (ucast (drop_bit 10 h) AND 0x1F :: u32) = f16_exp h" "unat (ucast h AND 0x3FF :: u32) = f16_mant h"
    unfolding m unsigned_take_bit_eq unat_u16 f16_exp_def f16_mant_def by (rule refl)+
  show "f16_exp h < 32" "f16_mant h < 1024"
    using take_bit_nat_less_exp [of 5 "unat (drop_bit 10 h)"] take_bit_nat_less_exp [of 10 "unat h"]
    unfolding f16_exp_def f16_mant_def unsigned_take_bit_eq by simp_all
qed

text \<open>A pattern put together from its fields.\<close>

lemma f32_put:
  fixes s x m :: u32
  assumes "unat s < 2" and "unat x < 256" and "unat m < 8388608"
  shows "f32_sign (push_bit 31 s OR push_bit 23 x OR m) = unat s" "f32_exp (push_bit 31 s OR push_bit 23 x OR m) = unat x"
    "f32_mant (push_bit 31 s OR push_bit 23 x OR m) = unat m"
proof -
  have "take_bit n w = w" if "unat w < 2 ^ n" for n and w :: u32
    using that by (simp add: word_unat_eq_iff unsigned_take_bit_eq take_bit_nat_eq_self)
  note t = this [of s 1] this [of x 8] this [of m 23]
  note f = f32_fields [OF t(1) t(2) t(3)]
  show "f32_sign (push_bit 31 s OR push_bit 23 x OR m) = unat s" "f32_exp (push_bit 31 s OR push_bit 23 x OR m) = unat x"
    "f32_mant (push_bit 31 s OR push_bit 23 x OR m) = unat m"
    using f assms by (simp_all add: f32_sign_def f32_exp_def f32_mant_def)
qed

lemma f16_f32_ok:
  "\<exists>f. f16_to_f32 h = Some f \<and> f32_sign f = f16_sign h \<and>
     (if f16_exp h = 31 then f32_exp f = 255 \<and> f32_mant f = f16_mant h * 8192
      else f32_exp f < 255 \<and> f32_units f = f16_units h)"
proof -
  define s where "s = (ucast (drop_bit 15 h) AND 1 :: u32)"
  define x where "x = (ucast (drop_bit 10 h) AND 0x1F :: u32)"
  define m where "m = (ucast h AND 0x3FF :: u32)"
  note fields = f16_fields [of h, folded s_def x_def m_def]
  have shl: "unat (push_bit 13 w) = unat w * 8192" if "unat w < 1024" for w :: u32
    using that by (simp add: push_bit_eq_mult)
  note body = f16_to_f32_def [of h, folded s_def x_def m_def, unfolded Let_def]
  consider "unat x = 0" "unat m = 0" | "unat x = 0" "0 < unat m" | "unat x = 31" | "0 < unat x" "unat x < 31"
    using fields by linarith
  then show ?thesis
  proof cases
    case 1
    then have xm: "x = 0" "m = 0" by (simp_all add: word_unat_eq_iff)
    then have "f16_to_f32 h = Some (push_bit 31 s OR push_bit 23 0 OR 0)" unfolding body by simp
    then show ?thesis
      using f32_put [of s 0 0] fields xm by (simp add: f32_units_def f16_units_def)
  next
    case 2
    then have xm: "x = 0" "m \<noteq> 0" by (auto simp: word_unat_eq_iff)
    have "unat m < 2048" "unat (0 :: u32) + 2048 < 4294967296 + unat m" using fields by simp_all
    from f16_shift_ok [OF 2(2) this] obtain k m' e where r: "f16_shift m 0 = Some (m', e)"
      "unat m' = unat m * 2 ^ k" "unat e = unat (0 :: u32) + k" "1024 \<le> unat m'" "unat m' < 2048" by blast
    have "1 * 2 ^ k \<le> unat m * 2 ^ k" using 2(2) by (intro mult_le_mono1) simp
    then have "2 ^ k < (2048 :: nat)" using r(2,5) by linarith
    then have "(2 :: nat) ^ k < 2 ^ 11" by simp
    then have "k < 11" by (rule power_less_imp_less_exp [rotated]) simp
    then have k: "k \<le> 10" by simp
    have e: "unat (113 - e) = 113 - k" using r(3) k by simp
    have "unat (m' AND 0x3FF) = unat m' mod 1024"
      by (simp add: mask10 take_bit_eq_mod unat_mod_distrib)
    then have m': "unat (m' AND 0x3FF) = unat m' - 1024" using r(4,5) by (simp add: le_mod_geq)
    then have p: "unat (push_bit 13 (m' AND 0x3FF)) = (unat m' - 1024) * 8192" using r(5) by (simp only: shl)
    have "f16_to_f32 h = Some (push_bit 31 s OR push_bit 23 (113 - e) OR push_bit 13 (m' AND 0x3FF))"
      unfolding body using xm r(1) by simp
    moreover note f32_put [of s "113 - e" "push_bit 13 (m' AND 0x3FF)", unfolded p e]
    moreover have "(2 ^ 23 + (unat m' - 1024) * 8192) * 2 ^ (113 - k - 1) = unat m * 2 ^ 125"
    proof -
      have "2 ^ 23 + (unat m' - 1024) * 8192 = unat m * (2 ^ 13 * 2 ^ k)" using r(2,4) by simp
      moreover have "(2 :: nat) ^ 13 * 2 ^ k * 2 ^ (113 - k - 1) = 2 ^ 125" using k by (simp flip: power_add)
      ultimately show ?thesis by (simp only: mult.assoc)
    qed
    ultimately show ?thesis using fields 2 r(4,5) k by (simp add: f32_units_def f16_units_def)
  next
    case 3
    then have x: "x = 31" by (simp add: word_unat_eq_iff)
    have "push_bit 23 255 = (0x7F800000 :: u32)" by simp
    then have "f16_to_f32 h = Some (push_bit 31 s OR push_bit 23 255 OR push_bit 13 m)" unfolding body using x by simp
    then show ?thesis
      using f32_put [of s 255 "push_bit 13 m"] fields shl [of m] 3 by simp
  next
    case 4
    then have x: "x \<noteq> 0" "x \<noteq> 31" by (auto simp: word_unat_eq_iff)
    have e: "unat (x + 112) = unat x + 112" using 4 by simp
    have "f16_to_f32 h = Some (push_bit 31 s OR push_bit 23 (x + 112) OR push_bit 13 m)" unfolding body using x by simp
    moreover have "(2 ^ 23 + unat m * 8192) * 2 ^ (unat x + 112 - 1) = (2 ^ 10 + unat m) * 2 ^ (unat x + 124)"
    proof -
      have "13 + (unat x + 112 - 1) = unat x + 124" using 4 by simp
      then have "(2 :: nat) ^ 13 * 2 ^ (unat x + 112 - 1) = 2 ^ (unat x + 124)" by (simp only: power_add [symmetric])
      moreover have "2 ^ 23 + unat m * 8192 = (2 ^ 10 + unat m) * 2 ^ 13" by simp
      ultimately show ?thesis by (simp only: mult.assoc)
    qed
    ultimately show ?thesis
      using f32_put [of s "x + 112" "push_bit 13 m"] fields shl [of m] 4 e by (simp add: f32_units_def f16_units_def)
  qed
qed

section \<open>Properties\<close>

text \<open>
  C29. Parsing is exact. For a decimal numeral with an optional sign, both parsers return its value when the type has it, and
  otherwise report \<open>ERR_ARITH\<close> without storing anything, the smallest value of the type included.
\<close>

theorem parse_int_exact:
  assumes "numeral_text text ds v" and "unat len = length text"
  shows "\<exists>m64 m32.
    parse_i64_expect (text @ rest) len e = Some (if int_min 64 \<le> v \<and> v \<le> int_max 64 then (Some v, SUCCESS, e)
      else (None, ERR_ARITH, fst (error_causef e ERR_ARITH m64))) \<and>
    parse_i32_expect (text @ rest) len e = Some (if int_min 32 \<le> v \<and> v \<le> int_max 32 then (Some v, SUCCESS, e)
      else (None, ERR_ARITH, fst (error_causef e ERR_ARITH m32)))"
proof -
  have "(0 :: nat) < 64" "(0 :: nat) < 32" by simp_all
  then show ?thesis
    unfolding parse_i64_expect_def parse_i32_expect_def using parse_int_ok [OF assms] by blast
qed

theorem parse_int_exact_witness:
  "\<exists>e. parse_i32_expect [45, 50, 49, 52, 55, 52, 56, 51, 54, 52, 56] 11 None = Some (Some (-2147483648), SUCCESS, e)"
proof -
  have "numeral_text [45, 50, 49, 52, 55, 52, 56, 51, 54, 52, 56] [50, 49, 52, 55, 52, 56, 51, 54, 52, 56] (-2147483648)"
    by (simp add: numeral_text_def is_num_def)
  from parse_int_exact [OF this, of 11 "[]" None] show ?thesis by (simp add: int_min_def int_max_def)
qed

text \<open>
  Printing a number of the type in decimal and parsing the text gives the number back, for both widths.
\<close>

theorem parse_int_round_trip:
  "(int_min 64 \<le> v \<longrightarrow> v \<le> int_max 64 \<longrightarrow> unat len = length (int_text v) \<longrightarrow>
     parse_i64_expect (int_text v @ rest) len e = Some (Some v, SUCCESS, e)) \<and>
   (int_min 32 \<le> v \<longrightarrow> v \<le> int_max 32 \<longrightarrow> unat len = length (int_text v) \<longrightarrow>
     parse_i32_expect (int_text v @ rest) len e = Some (Some v, SUCCESS, e))"
  using int_text_numeral [of v] parse_int_ok
  by (fastforce simp: parse_i64_expect_def parse_i32_expect_def)

theorem parse_int_round_trip_witness:
  "parse_i32_expect (int_text (-42)) 3 None = Some (Some (-42), SUCCESS, None)"
  using parse_int_round_trip [of "-42" 3 "[]" None]
  by (simp add: int_text_def nat_digits.simps int_min_def int_max_def)

text \<open>
  C30. The checks of the compilers without overflow intrinsics are the intrinsics: on operands of the type, each signed and unsigned operation passes exactly when the type
  has the exact result, and then stores it; a signed division passes exactly when it is defined and its quotient fits.
\<close>

theorem checked_arithmetic_exact:
  assumes "0 < w"
    and "int_min w \<le> a" "a \<le> int_max w" "int_min w \<le> b" "b \<le> int_max w"
    and "0 \<le> c" "c \<le> uint_max w" "0 \<le> d" "d \<le> uint_max w"
  shows "safe_add_i w a b = checked_i w (a + b) \<and> safe_sub_i w a b = checked_i w (a - b) \<and> safe_mul_i w a b = checked_i w (a * b) \<and>
    safe_div_i w a b = (if b = 0 then None else checked_i w (a sdiv b)) \<and>
    safe_add_u w c d = checked_u w (c + d) \<and> safe_sub_u w c d = checked_u w (c - d) \<and> safe_mul_u w c d = checked_u w (c * d)"
proof (intro conjI)
  note b = int_bounds(1) [OF assms(1)] int_bounds(2) [of w] int_bounds(3) [of w]
  show "safe_add_i w a b = checked_i w (a + b)" "safe_sub_i w a b = checked_i w (a - b)"
    using assms by (auto simp: safe_add_i_def safe_sub_i_def sadd_ok_def ssub_ok_def checked_i_def)
  show "safe_mul_i w a b = checked_i w (a * b)"
    using b smul_ok_exact [of "int_min w" "int_max w" a b] by (simp add: safe_mul_i_def checked_i_def)
  show "safe_div_i w a b = (if b = 0 then None else checked_i w (a sdiv b))"
    using safe_div_exact [OF assms(1-3)] by (simp add: safe_div_i_def)
  show "safe_add_u w c d = checked_u w (c + d)" "safe_sub_u w c d = checked_u w (c - d)"
    using assms by (auto simp: safe_add_u_def safe_sub_u_def uadd_ok_def usub_ok_def checked_u_def)
  show "safe_mul_u w c d = checked_u w (c * d)"
    using assms(6-9) b le_div [of c d "uint_max w"]
    by (cases "c = 0") (auto simp: safe_mul_u_def umul_ok_def checked_u_def sdiv_pos mult.commute)
qed

theorem checked_arithmetic_exact_witness:
  "safe_div_i 8 (-128) (-1) = None \<and> safe_mul_i 8 (-128) (-1) = None \<and> safe_add_i 8 (-128) (-1) = None \<and>
   safe_sub_i 8 (-128) (-1) = Some (-127) \<and> safe_add_u 8 200 100 = None \<and> safe_sub_u 8 200 100 = Some 100"
proof -
  have "a sdiv -1 = - a" for a :: int by (simp add: signed_divide_int_def abs_sgn)
  then show ?thesis
    using checked_arithmetic_exact [of 8 "-128" "-1" 200 100]
    by (simp add: checked_i_def checked_u_def int_min_def int_max_def uint_max_def)
qed

text \<open>
  C31. The conversion of a half to a single is exact and always returns: the sign is kept, a finite number has the same value (subnormal
  halves included), an infinity stays an infinity and a NaN a NaN with its payload at the top of the mantissa.
\<close>

theorem f16_to_f32_exact:
  "\<exists>f. f16_to_f32 h = Some f \<and> f32_sign f = f16_sign h \<and>
     (if f16_exp h = 31 then f32_exp f = 255 \<and> f32_mant f = f16_mant h * 8192
      else f32_exp f < 255 \<and> f32_units f = f16_units h)"
  by (rule f16_f32_ok)

end
