(* ===== verification/Socket.thy ===== *)
theory Socket
  imports Posix_io
begin

unbundle bit_operations_syntax

text \<open>
  Sockets and the framing client: \<^verbatim>\<open>intf/os_posix/socket.c\<close> and \<^verbatim>\<open>net/client.c\<close>. The system calls
  are a record of functions on the state \<open>'w\<close> of the network, as in the file layer. The byte order of
  the host is little endian.
\<close>

section \<open>System calls\<close>

record pollfd =
  pf_fd :: fd
  pf_events :: u16
  pf_revents :: u16

definition POLLIN :: u16 where "POLLIN = 1"
definition POLLOUT :: u16 where "POLLOUT = 4"
definition POLLERR :: u16 where "POLLERR = 8"
definition POLLHUP :: u16 where "POLLHUP = 16"

definition I_INVALID_SOCKET :: fd where "I_INVALID_SOCKET = -1"

text \<open>A peer is the text of its address and its port; \<open>inet_pton\<close> gives the address of a text that is one.\<close>

record 'w net =
  nt_strerror :: "errno \<Rightarrow> string"
  nt_pton :: "string \<Rightarrow> u32 option"
  nt_socket :: "'w \<Rightarrow> fd sysret \<times> 'w"
  nt_close :: "fd \<Rightarrow> 'w \<Rightarrow> unit sysret \<times> 'w"
  nt_reuseaddr :: "fd \<Rightarrow> 'w \<Rightarrow> unit sysret \<times> 'w"
  nt_connect :: "fd \<Rightarrow> u32 \<Rightarrow> u16 \<Rightarrow> 'w \<Rightarrow> unit sysret \<times> 'w"
  nt_bind :: "fd \<Rightarrow> u16 \<Rightarrow> 'w \<Rightarrow> unit sysret \<times> 'w"
  nt_listen :: "fd \<Rightarrow> 'w \<Rightarrow> unit sysret \<times> 'w"
  nt_accept :: "fd \<Rightarrow> 'w \<Rightarrow> (fd \<times> string \<times> u16) sysret \<times> 'w"
  nt_read :: "fd \<Rightarrow> nat \<Rightarrow> 'w \<Rightarrow> u8 list sysret \<times> 'w"
  nt_write :: "fd \<Rightarrow> u8 list \<Rightarrow> 'w \<Rightarrow> nat sysret \<times> 'w"
  nt_poll :: "pollfd list \<Rightarrow> int \<Rightarrow> 'w \<Rightarrow> (int \<times> u16 list) sysret \<times> 'w"

section \<open>Sockets\<close>

text \<open>A call with no result but its success.\<close>

definition sock_call :: "'w net \<Rightarrow> string \<Rightarrow> unit sysret \<times> 'w \<Rightarrow> errp \<Rightarrow> int \<times> 'w \<times> errp" where
  "sock_call nt msg r e = (case r of
     (Ret _, w) \<Rightarrow> (SUCCESS, w, e)
   | (Fail n, w) \<Rightarrow> (case io_cause e (msg @ '': '' @ nt_strerror nt n) of (c, e) \<Rightarrow> (c, w, e)))"

definition i_socket_create :: "'w net \<Rightarrow> 'w \<Rightarrow> errp \<Rightarrow> int \<times> fd \<times> 'w \<times> errp" where
  "i_socket_create nt w e = (case nt_socket nt w of
     (Ret fd, w) \<Rightarrow> (SUCCESS, fd, w, e)
   | (Fail n, w) \<Rightarrow> (case io_cause e (''socket: '' @ nt_strerror nt n) of (c, e) \<Rightarrow> (c, I_INVALID_SOCKET, w, e)))"

text \<open>A closed socket holds the invalid descriptor.\<close>

definition i_socket_close :: "'w net \<Rightarrow> fd \<Rightarrow> 'w \<Rightarrow> errp \<Rightarrow> int \<times> fd \<times> 'w \<times> errp" where
  "i_socket_close nt s w e = (case sock_call nt ''close'' (nt_close nt s w) e of
     (c, w, e) \<Rightarrow> (c, (if c = SUCCESS then I_INVALID_SOCKET else s), w, e))"

definition i_socket_set_reuseaddr :: "'w net \<Rightarrow> fd \<Rightarrow> 'w \<Rightarrow> errp \<Rightarrow> int \<times> 'w \<times> errp" where
  "i_socket_set_reuseaddr nt s w e = sock_call nt ''setsockopt'' (nt_reuseaddr nt s w) e"

definition i_socket_connect :: "'w net \<Rightarrow> fd \<Rightarrow> string \<Rightarrow> u16 \<Rightarrow> 'w \<Rightarrow> errp \<Rightarrow> int \<times> 'w \<times> errp" where
  "i_socket_connect nt s host port w e = (case nt_pton nt host of
     None \<Rightarrow> (case io_cause e (''inet_pton: invalid address '' @ host) of (c, e) \<Rightarrow> (c, w, e))
   | Some addr \<Rightarrow> sock_call nt ''connect'' (nt_connect nt s addr port w) e)"

definition i_socket_bind :: "'w net \<Rightarrow> fd \<Rightarrow> int \<Rightarrow> 'w \<Rightarrow> errp \<Rightarrow> int \<times> 'w \<times> errp" where
  "i_socket_bind nt s port w e = sock_call nt ''bind'' (nt_bind nt s (word_of_int port) w) e"

definition i_socket_listen :: "'w net \<Rightarrow> fd \<Rightarrow> 'w \<Rightarrow> errp \<Rightarrow> int \<times> 'w \<times> errp" where
  "i_socket_listen nt s w e = sock_call nt ''listen'' (nt_listen nt s w) e"

definition i_socket_accept :: "'w net \<Rightarrow> fd \<Rightarrow> 'w \<Rightarrow> errp \<Rightarrow> int \<times> fd \<times> string \<times> u16 \<times> 'w \<times> errp" where
  "i_socket_accept nt s w e = (case nt_accept nt s w of
     (Ret (fd, ip, port), w) \<Rightarrow> (SUCCESS, fd, ip, port, w, e)
   | (Fail n, w) \<Rightarrow> (case io_cause e (''accept: '' @ nt_strerror nt n) of (c, e) \<Rightarrow> (c, I_INVALID_SOCKET, [], 0, w, e)))"

text \<open>The buffer is the object and the offset of the pointer in it.\<close>

definition i_socket_recv ::
  "'w net \<Rightarrow> fd \<Rightarrow> u8 list \<Rightarrow> nat \<Rightarrow> u32 \<Rightarrow> 'w \<Rightarrow> errp \<Rightarrow> (int \<times> u8 list \<times> 'w \<times> errp) option" where
  "i_socket_recv nt s buf off len w e = (case nt_read nt s (unat len) w of
     (Ret bs, w) \<Rightarrow> do { buf \<leftarrow> mem_store buf off bs; Some (int (length bs), buf, w, e) }
   | (Fail n, w) \<Rightarrow> (case io_cause e (''recv: '' @ nt_strerror nt n) of (c, e) \<Rightarrow> Some (c, buf, w, e)))"

definition i_socket_send ::
  "'w net \<Rightarrow> fd \<Rightarrow> u8 list \<Rightarrow> nat \<Rightarrow> u32 \<Rightarrow> 'w \<Rightarrow> errp \<Rightarrow> (int \<times> 'w \<times> errp) option" where
  "i_socket_send nt s buf off len w e = do {
     bs \<leftarrow> mem_load buf off (unat len);
     Some (case nt_write nt s bs w of
         (Ret k, w) \<Rightarrow> (int k, w, e)
       | (Fail n, w) \<Rightarrow> (case io_cause e (''send: '' @ nt_strerror nt n) of (c, e) \<Rightarrow> (c, w, e)))
   }"

text \<open>The call stores the events of each entry; an interrupted one stores nothing.\<close>

definition i_poll :: "'w net \<Rightarrow> pollfd list \<Rightarrow> u32 \<Rightarrow> int \<Rightarrow> 'w \<Rightarrow> errp \<Rightarrow> (int \<times> pollfd list \<times> 'w \<times> errp) option" where
  "i_poll nt fds nfds timeout_ms w e = do {
     polled \<leftarrow> mem_load fds 0 (unat nfds);
     case nt_poll nt polled timeout_ms w of
       (Ret (n, rs), w) \<Rightarrow>
         Some (n, map2 (\<lambda>p r. p\<lparr>pf_revents := r\<rparr>) polled rs @ drop (unat nfds) fds, w, e)
     | (Fail m, w) \<Rightarrow>
         if m = EINTR then Some (0, fds, w, e)
         else (case io_cause e (''poll: '' @ nt_strerror nt m) of (c, e) \<Rightarrow> Some (c, fds, w, e))
   }"

section \<open>Byte order\<close>

text \<open>The memory of an integer, the low byte first, and the swap.\<close>

definition u32_bytes :: "u32 \<Rightarrow> u8 list" where
  "u32_bytes x = [ucast x, ucast (drop_bit 8 x), ucast (drop_bit 16 x), ucast (drop_bit 24 x)]"

fun u32_of_bytes :: "u8 list \<Rightarrow> u32" where
  "u32_of_bytes [a, b, c, d] = ucast a OR push_bit 8 (ucast b) OR push_bit 16 (ucast c) OR push_bit 24 (ucast d)"
| "u32_of_bytes _ = 0"

definition i_htonl :: "u32 \<Rightarrow> u32" where
  "i_htonl host = u32_of_bytes (rev (u32_bytes host))"

definition i_ntohl :: "u32 \<Rightarrow> u32" where
  "i_ntohl net = u32_of_bytes (rev (u32_bytes net))"

definition i_htons :: "u16 \<Rightarrow> u16" where
  "i_htons host = push_bit 8 host OR drop_bit 8 host"

definition i_ntohs :: "u16 \<Rightarrow> u16" where
  "i_ntohs net = push_bit 8 net OR drop_bit 8 net"

section \<open>The client\<close>

record client =
  cl_sock :: fd

partial_function (option) read_exact_loop ::
  "'w net \<Rightarrow> fd \<Rightarrow> u8 list \<Rightarrow> u32 \<Rightarrow> u32 \<Rightarrow> 'w \<Rightarrow> errp \<Rightarrow> (int \<times> u8 list \<times> 'w \<times> errp) option" where
  "read_exact_loop nt s buf count tot w e =
     (if tot < count then
        Option.bind (i_socket_recv nt s buf (unat tot) (count - tot) w e) (\<lambda>(n, buf, w, e).
          if n < 0 then Option.bind (error_trace e) (\<lambda>c. Some (c, buf, w, e))
          else if n = 0 then (case io_cause e ''read_exact: peer closed connection'' of (c, e) \<Rightarrow> Some (c, buf, w, e))
          else read_exact_loop nt s buf count (tot + word_of_int n) w e)
      else Some (SUCCESS, buf, w, e))"

declare read_exact_loop.simps [code]

definition read_exact :: "'w net \<Rightarrow> fd \<Rightarrow> u8 list \<Rightarrow> u32 \<Rightarrow> 'w \<Rightarrow> errp \<Rightarrow> (int \<times> u8 list \<times> 'w \<times> errp) option" where
  "read_exact nt s buf count w e = read_exact_loop nt s buf count 0 w e"

partial_function (option) write_exact_loop ::
  "'w net \<Rightarrow> fd \<Rightarrow> u8 list \<Rightarrow> u32 \<Rightarrow> u32 \<Rightarrow> 'w \<Rightarrow> errp \<Rightarrow> (int \<times> 'w \<times> errp) option" where
  "write_exact_loop nt s buf count tot w e =
     (if tot < count then
        Option.bind (i_socket_send nt s buf (unat tot) (count - tot) w e) (\<lambda>(n, w, e).
          if n < 0 then Option.bind (error_trace e) (\<lambda>c. Some (c, w, e))
          else if n = 0 then (case io_cause e ''write_exact: peer closed connection'' of (c, e) \<Rightarrow> Some (c, w, e))
          else write_exact_loop nt s buf count (tot + word_of_int n) w e)
      else Some (SUCCESS, w, e))"

declare write_exact_loop.simps [code]

definition write_exact :: "'w net \<Rightarrow> fd \<Rightarrow> u8 list \<Rightarrow> u32 \<Rightarrow> 'w \<Rightarrow> errp \<Rightarrow> (int \<times> 'w \<times> errp) option" where
  "write_exact nt s buf count w e = write_exact_loop nt s buf count 0 w e"

definition client_connect :: "'w net \<Rightarrow> client \<Rightarrow> string \<Rightarrow> u16 \<Rightarrow> 'w \<Rightarrow> errp \<Rightarrow> (int \<times> client \<times> 'w \<times> errp) option" where
  "client_connect nt dest host port w e =
     (case i_socket_create nt w e of (c, fd, w, e) \<Rightarrow>
        let dest = dest\<lparr>cl_sock := fd\<rparr> in
        if c < SUCCESS then do { c \<leftarrow> error_trace e; Some (c, dest, w, e) }
        else (case i_socket_connect nt fd host port w e of (c, w, e) \<Rightarrow>
          if c < SUCCESS then do { c \<leftarrow> error_trace e; Some (c, dest, w, e) }
          else Some (SUCCESS, dest, w, e)))"

definition client_write_all :: "'w net \<Rightarrow> client \<Rightarrow> u8 list \<Rightarrow> u16 \<Rightarrow> 'w \<Rightarrow> errp \<Rightarrow> (int \<times> 'w \<times> errp) option" where
  "client_write_all nt c src len w e = write_exact nt (cl_sock c) src (ucast len) w e"

definition client_write_all_size_prefixed ::
  "'w net \<Rightarrow> client \<Rightarrow> u8 list \<Rightarrow> u16 \<Rightarrow> 'w \<Rightarrow> errp \<Rightarrow> (int \<times> 'w \<times> errp) option" where
  "client_write_all_size_prefixed nt c msg len w e = do {
     let wire = i_htonl (ucast len);
     (r, w, e) \<leftarrow> write_exact nt (cl_sock c) (u32_bytes wire) 4 w e;
     if r < SUCCESS then do { r \<leftarrow> error_trace e; Some (r, w, e) }
     else do {
       (r, w, e) \<leftarrow> write_exact nt (cl_sock c) msg (ucast len) w e;
       if r < SUCCESS then do { r \<leftarrow> error_trace e; Some (r, w, e) }
       else Some (SUCCESS, w, e)
     }
   }"

definition client_read_all :: "'w net \<Rightarrow> client \<Rightarrow> u8 list \<Rightarrow> u16 \<Rightarrow> 'w \<Rightarrow> errp \<Rightarrow> (int \<times> u8 list \<times> 'w \<times> errp) option" where
  "client_read_all nt c dest len w e = read_exact nt (cl_sock c) dest (ucast len) w e"

definition client_read_all_size_prefixed ::
  "'w net \<Rightarrow> client \<Rightarrow> u8 list \<Rightarrow> u16 \<Rightarrow> 'w \<Rightarrow> errp \<Rightarrow> (int \<times> u8 list \<times> 'w \<times> errp) option" where
  "client_read_all_size_prefixed nt c dest len w e = do {
     (r, wire, w, e) \<leftarrow> read_exact nt (cl_sock c) (u32_bytes 0) 4 w e;
     if r < SUCCESS then do { r \<leftarrow> error_trace e; Some (r, dest, w, e) }
     else do {
       let msg_len = i_ntohl (u32_of_bytes wire);
       if msg_len > ucast len
       then (case io_cause e (''read: message too large ('' @ fmt_d msg_len @ '' > '' @ fmt_d (ucast len) @ '')'') of (r, e) \<Rightarrow> Some (r, dest, w, e))
       else do {
         (r, dest, w, e) \<leftarrow> read_exact nt (cl_sock c) dest msg_len w e;
         if r < SUCCESS then do { r \<leftarrow> error_trace e; Some (r, dest, w, e) }
         else Some (as_i32 (uint msg_len), dest, w, e)
       }
     }
   }"

definition client_disconnect :: "'w net \<Rightarrow> client \<Rightarrow> 'w \<Rightarrow> errp \<Rightarrow> int \<times> client \<times> 'w \<times> errp" where
  "client_disconnect nt c w e = (case i_socket_close nt (cl_sock c) w e of (r, fd, w, e) \<Rightarrow> (r, c\<lparr>cl_sock := fd\<rparr>, w, e))"

section \<open>What a network promises\<close>

text \<open>
  \<open>incoming w s\<close> is what is still to come in on a socket, to the end of the connection, and \<open>sent w s\<close> what has gone out. A read gives
  some bytes that come in, nothing only at the end; a write takes some bytes; a failed call moves none.
\<close>

definition net_law :: "'w net \<Rightarrow> ('w \<Rightarrow> fd \<Rightarrow> u8 list) \<Rightarrow> ('w \<Rightarrow> fd \<Rightarrow> u8 list) \<Rightarrow> bool" where
  "net_law nt incoming sent \<longleftrightarrow>
     (\<forall>s n w r w'. nt_read nt s n w = (r, w') \<longrightarrow> sent w' = sent w \<and>
        (\<forall>m. r = Fail m \<longrightarrow> incoming w' = incoming w) \<and>
        (\<forall>bs. r = Ret bs \<longrightarrow> length bs \<le> n \<and> incoming w = (incoming w')(s := bs @ incoming w' s) \<and>
           (bs = [] \<and> 0 < n \<longrightarrow> incoming w s = []))) \<and>
     (\<forall>s bs w r w'. nt_write nt s bs w = (r, w') \<longrightarrow> incoming w' = incoming w \<and>
        (\<forall>m. r = Fail m \<longrightarrow> sent w' = sent w) \<and>
        (\<forall>k. r = Ret k \<longrightarrow> k \<le> length bs \<and> (bs \<noteq> [] \<longrightarrow> 0 < k) \<and> sent w' = (sent w)(s := sent w s @ take k bs)))"

lemma net_lawD:
  assumes "net_law nt incoming sent"
  shows "nt_read nt s n w = (r, w') \<Longrightarrow> sent w' = sent w \<and>
      (\<forall>m. r = Fail m \<longrightarrow> incoming w' = incoming w) \<and>
      (\<forall>bs. r = Ret bs \<longrightarrow> length bs \<le> n \<and> incoming w = (incoming w')(s := bs @ incoming w' s) \<and>
         (bs = [] \<and> 0 < n \<longrightarrow> incoming w s = []))"
    and "nt_write nt s bs w = (q, w') \<Longrightarrow> incoming w' = incoming w \<and>
      (\<forall>m. q = Fail m \<longrightarrow> sent w' = sent w) \<and>
      (\<forall>k. q = Ret k \<longrightarrow> k \<le> length bs \<and> (bs \<noteq> [] \<longrightarrow> 0 < k) \<and> sent w' = (sent w)(s := sent w s @ take k bs))"
  using conjunct1 [OF assms [unfolded net_law_def], THEN spec, THEN spec, THEN spec, THEN spec, THEN spec, THEN mp]
    conjunct2 [OF assms [unfolded net_law_def], THEN spec, THEN spec, THEN spec, THEN spec, THEN spec, THEN mp]
  by - assumption+

text \<open>One call: an error with its cause, or some bytes.\<close>

lemma i_socket_recv_ok:
  assumes law: "net_law nt incoming sent" and fresh: "cause_code er = SUCCESS" and room: "off + unat len \<le> length buf"
  shows "\<exists>n buf' w' er' bs. i_socket_recv nt s buf off len w (Some er) = Some (n, buf', w', Some er') \<and>
    sent w' = sent w \<and> incoming w = (incoming w')(s := bs @ incoming w' s) \<and> buf' = overwrite buf off bs \<and> length bs \<le> unat len \<and>
    (n = ERR_IO \<and> cause_code er' = ERR_IO \<and> bs = [] \<or>
     n = int (length bs) \<and> er' = er \<and> (bs = [] \<and> 0 < unat len \<longrightarrow> incoming w s = []))"
proof -
  obtain r w' where r: "nt_read nt s (unat len) w = (r, w')" by (cases "nt_read nt s (unat len) w")
  note lw = net_lawD(1) [OF law r]
  show ?thesis
  proof (cases r)
    case (Ret bs)
    then have "off + length bs \<le> length buf" using lw room by auto
    then have "i_socket_recv nt s buf off len w (Some er) = Some (int (length bs), overwrite buf off bs, w', Some er)"
      using r Ret by (simp add: i_socket_recv_def)
    then show ?thesis using lw Ret by blast
  next
    case (Fail m)
    obtain er' where "io_cause (Some er) (''recv: '' @ nt_strerror nt m) = (ERR_IO, Some er')" "cause_code er' = ERR_IO"
      using io_cause_fresh [OF fresh] by blast
    moreover from this(1) have "i_socket_recv nt s buf off len w (Some er) = Some (ERR_IO, buf, w', Some er')"
      using r Fail by (simp add: i_socket_recv_def)
    moreover have "incoming w = (incoming w')(s := [] @ incoming w' s)" using lw Fail by simp
    ultimately show ?thesis using lw by (metis overwrite_Nil list.size(3) le0)
  qed
qed

lemma i_socket_send_ok:
  assumes law: "net_law nt incoming sent" and fresh: "cause_code er = SUCCESS" and room: "off + unat len \<le> length buf"
  shows "\<exists>n w' er' k. i_socket_send nt s buf off len w (Some er) = Some (n, w', Some er') \<and>
    incoming w' = incoming w \<and> sent w' = (sent w)(s := sent w s @ take k (drop off buf)) \<and> k \<le> unat len \<and>
    (n = ERR_IO \<and> cause_code er' = ERR_IO \<and> k = 0 \<or> n = int k \<and> er' = er \<and> (0 < unat len \<longrightarrow> 0 < k))"
proof -
  let ?bs = "take (unat len) (drop off buf)"
  obtain r w' where r: "nt_write nt s ?bs w = (r, w')" by (cases "nt_write nt s ?bs w")
  note lw = net_lawD(2) [OF law r]
  have l: "length ?bs = unat len" using room by simp
  show ?thesis
  proof (cases r)
    case (Ret k)
    then have "take k ?bs = take k (drop off buf)" using lw l by (simp add: min_absorb1)
    moreover have "i_socket_send nt s buf off len w (Some er) = Some (int k, w', Some er)"
      using r Ret room by (simp add: i_socket_send_def)
    ultimately show ?thesis using lw Ret l by (metis length_greater_0_conv)
  next
    case (Fail m)
    obtain er' where "io_cause (Some er) (''send: '' @ nt_strerror nt m) = (ERR_IO, Some er')" "cause_code er' = ERR_IO"
      using io_cause_fresh [OF fresh] by blast
    moreover from this(1) have "i_socket_send nt s buf off len w (Some er) = Some (ERR_IO, w', Some er')"
      using r Fail room by (simp add: i_socket_send_def)
    moreover have "sent w' = (sent w)(s := sent w s @ take 0 (drop off buf))" using lw Fail by simp
    ultimately show ?thesis using lw by (metis le0)
  qed
qed

section \<open>Exact transfers\<close>

lemma read_exact_loop_ok:
  assumes law: "net_law nt incoming sent" and fresh: "cause_code er = SUCCESS"
  shows "\<lbrakk>unat tot \<le> unat count; unat count \<le> length buf\<rbrakk> \<Longrightarrow>
    \<exists>ret buf' w' er' bs. read_exact_loop nt s buf count tot w (Some er) = Some (ret, buf', w', Some er') \<and>
      sent w' = sent w \<and> incoming w = (incoming w')(s := bs @ incoming w' s) \<and> buf' = overwrite buf (unat tot) bs \<and>
      length bs \<le> unat count - unat tot \<and>
      (ret = ERR_IO \<and> cause_code er' = ERR_IO \<or> ret = SUCCESS \<and> er' = er \<and> length bs = unat count - unat tot)"
proof (induction "unat count - unat tot" arbitrary: tot buf w rule: less_induct)
  case less
  show ?case
  proof (cases "tot < count")
    case False
    then have "unat tot = unat count" using less.prems(1) by (simp add: word_less_nat_alt)
    then show ?thesis using False
      by (intro exI [of _ SUCCESS] exI [of _ buf] exI [of _ w] exI [of _ er] exI [of _ "[]"]) (simp add: read_exact_loop.simps)
  next
    case True
    have lt: "unat tot < unat count" using True by (simp add: word_less_nat_alt)
    have left: "unat (count - tot) = unat count - unat tot" using less.prems(1) by simp
    have "unat tot + unat (count - tot) \<le> length buf" using left less.prems by simp
    from i_socket_recv_ok [OF law fresh this, of s w] obtain n buf1 w1 er1 bs where
      rc: "i_socket_recv nt s buf (unat tot) (count - tot) w (Some er) = Some (n, buf1, w1, Some er1)"
      and io: "sent w1 = sent w" "incoming w = (incoming w1)(s := bs @ incoming w1 s)" "buf1 = overwrite buf (unat tot) bs"
        "length bs \<le> unat count - unat tot"
      and c: "n = ERR_IO \<and> cause_code er1 = ERR_IO \<and> bs = [] \<or>
        n = int (length bs) \<and> er1 = er \<and> (bs = [] \<and> 0 < unat (count - tot) \<longrightarrow> incoming w s = [])"
      unfolding left by blast
    note step = read_exact_loop.simps [of nt s buf count tot w "Some er", unfolded rc]
    consider "n = ERR_IO" "cause_code er1 = ERR_IO" "bs = []" | "n = 0" "er1 = er" "bs = []" | "n = int (length bs)" "er1 = er" "bs \<noteq> []"
    proof -
      from c have "n = ERR_IO \<and> cause_code er1 = ERR_IO \<and> bs = [] \<or> n = int (length bs) \<and> er1 = er" by blast
      then show ?thesis using that by (cases "bs = []") auto
    qed
    then show ?thesis
    proof cases
      case 1
      then have "read_exact_loop nt s buf count tot w (Some er) = Some (ERR_IO, buf1, w1, Some er1)"
        using step True by (simp add: error_trace_cause ERR_IO_def)
      then show ?thesis using io 1 by (metis le0 list.size(3))
    next
      case 2
      obtain er' where "io_cause (Some er) ''read_exact: peer closed connection'' = (ERR_IO, Some er')" "cause_code er' = ERR_IO"
        using io_cause_fresh [OF fresh] by blast
      moreover from this(1) have "read_exact_loop nt s buf count tot w (Some er) = Some (ERR_IO, buf1, w1, Some er')"
        using step True 2 by simp
      ultimately show ?thesis using io 2 by (metis le0 list.size(3))
    next
      case 3
      have u: "unat (tot + word_of_int n) = unat tot + length bs"
      proof -
        have "length bs < 4294967296" using io(4) u32_less_bound [of count] by linarith
        then have "unat (word_of_int n :: u32) = length bs" using 3 by (simp add: unat_of_nat)
        then show ?thesis using io(4) lt u32_less_bound [of count] by (subst u32_add_nat) linarith+
      qed
      have bs: "0 < length bs" using 3 by simp
      have len: "length buf1 = length buf" using io(3,4) less.prems by simp
      have "unat count - unat (tot + word_of_int n) < unat count - unat tot" "unat (tot + word_of_int n) \<le> unat count"
        "unat count \<le> length buf1"
        using u bs lt io(4) less.prems(2) len by linarith+
      from less.hyps [OF this, of w1] obtain ret buf2 w2 er2 bs2 where
        ih: "read_exact_loop nt s buf1 count (tot + word_of_int n) w1 (Some er) = Some (ret, buf2, w2, Some er2)"
          "sent w2 = sent w1" "incoming w1 = (incoming w2)(s := bs2 @ incoming w2 s)" "buf2 = overwrite buf1 (unat tot + length bs) bs2"
          "length bs2 \<le> unat count - (unat tot + length bs)"
          "ret = ERR_IO \<and> cause_code er2 = ERR_IO \<or>
           ret = SUCCESS \<and> er2 = er \<and> length bs2 = unat count - (unat tot + length bs)"
        unfolding u by blast
      have "read_exact_loop nt s buf count tot w (Some er) = Some (ret, buf2, w2, Some er2)"
        using step True 3 ih(1) by simp
      moreover have "incoming w = (incoming w2)(s := (bs @ bs2) @ incoming w2 s)"
        unfolding io(2) ih(3) by simp
      moreover have "buf2 = overwrite buf (unat tot) (bs @ bs2)"
        unfolding ih(4) io(3) using io(4) ih(5) lt less.prems(2) by (intro overwrite_overwrite) linarith
      moreover have "length (bs @ bs2) \<le> unat count - unat tot" using io(4) ih(5) by simp
      moreover have "ret = ERR_IO \<and> cause_code er2 = ERR_IO \<or> ret = SUCCESS \<and> er2 = er \<and> length (bs @ bs2) = unat count - unat tot"
        using ih(6) io(4) by auto
      ultimately show ?thesis using ih(2) io(1) by metis
    qed
  qed
qed

lemma write_exact_loop_ok:
  assumes law: "net_law nt incoming sent" and fresh: "cause_code er = SUCCESS"
  shows "\<lbrakk>unat tot \<le> unat count; unat count \<le> length buf\<rbrakk> \<Longrightarrow>
    \<exists>ret w' er' k. write_exact_loop nt s buf count tot w (Some er) = Some (ret, w', Some er') \<and>
      incoming w' = incoming w \<and> sent w' = (sent w)(s := sent w s @ take k (drop (unat tot) buf)) \<and> k \<le> unat count - unat tot \<and>
      (ret = ERR_IO \<and> cause_code er' = ERR_IO \<or> ret = SUCCESS \<and> er' = er \<and> k = unat count - unat tot)"
proof (induction "unat count - unat tot" arbitrary: tot w rule: less_induct)
  case less
  show ?case
  proof (cases "tot < count")
    case False
    then have "unat tot = unat count" using less.prems(1) by (simp add: word_less_nat_alt)
    then show ?thesis using False
      by (intro exI [of _ SUCCESS] exI [of _ w] exI [of _ er] exI [of _ 0]) (simp add: write_exact_loop.simps)
  next
    case True
    have lt: "unat tot < unat count" using True by (simp add: word_less_nat_alt)
    have left: "unat (count - tot) = unat count - unat tot" using less.prems(1) by simp
    have "unat tot + unat (count - tot) \<le> length buf" using left less.prems by simp
    from i_socket_send_ok [OF law fresh this, of s w] obtain n w1 er1 k where
      rc: "i_socket_send nt s buf (unat tot) (count - tot) w (Some er) = Some (n, w1, Some er1)"
      and io: "incoming w1 = incoming w" "sent w1 = (sent w)(s := sent w s @ take k (drop (unat tot) buf))" "k \<le> unat count - unat tot"
      and c: "n = ERR_IO \<and> cause_code er1 = ERR_IO \<and> k = 0 \<or> n = int k \<and> er1 = er \<and> (0 < unat count - unat tot \<longrightarrow> 0 < k)"
      unfolding left by (elim exE conjE)
    note step = write_exact_loop.simps [of nt s buf count tot w "Some er", unfolded rc]
    show ?thesis
    proof (cases "n = ERR_IO \<and> cause_code er1 = ERR_IO \<and> k = 0")
      case 1: True
      then have "write_exact_loop nt s buf count tot w (Some er) = Some (ERR_IO, w1, Some er1)"
        using step True by (simp add: error_trace_cause ERR_IO_def)
      then show ?thesis using io 1 by (metis le0)
    next
      case False
      with c lt have 3: "n = int k" "er1 = er" "0 < k" by auto
      have u: "unat (tot + word_of_int n) = unat tot + k"
      proof -
        have "k < 4294967296" using io(3) u32_less_bound [of count] by linarith
        then have "unat (word_of_int n :: u32) = k" using 3 by (simp add: unat_of_nat)
        then show ?thesis using io(3) lt u32_less_bound [of count] by (subst u32_add_nat) linarith+
      qed
      have "unat count - unat (tot + word_of_int n) < unat count - unat tot" "unat (tot + word_of_int n) \<le> unat count"
        using u 3 lt io(3) by linarith+
      from less.hyps [OF this less.prems(2), of w1] obtain ret w2 er2 j where
        ih: "write_exact_loop nt s buf count (tot + word_of_int n) w1 (Some er) = Some (ret, w2, Some er2)"
          "incoming w2 = incoming w1" "sent w2 = (sent w1)(s := sent w1 s @ take j (drop (unat tot + k) buf))"
          "j \<le> unat count - (unat tot + k)"
          "ret = ERR_IO \<and> cause_code er2 = ERR_IO \<or> ret = SUCCESS \<and> er2 = er \<and> j = unat count - (unat tot + k)"
        unfolding u by blast
      have "write_exact_loop nt s buf count tot w (Some er) = Some (ret, w2, Some er2)"
        using step True 3 ih(1) by simp
      moreover have "sent w2 = (sent w)(s := sent w s @ take (k + j) (drop (unat tot) buf))"
        unfolding ih(3) io(2) by (simp add: take_add add.commute [of k "unat tot"])
      moreover have "k + j \<le> unat count - unat tot" using io(3) ih(4) 3(3) lt by linarith
      moreover have "ret = ERR_IO \<and> cause_code er2 = ERR_IO \<or> ret = SUCCESS \<and> er2 = er \<and> k + j = unat count - unat tot"
        using ih(5) io(3) by auto
      ultimately show ?thesis using ih(2) io(1) by metis
    qed
  qed
qed

lemmas read_exact_ok = read_exact_loop_ok [where tot = 0, simplified, folded read_exact_def]

lemmas write_exact_ok = write_exact_loop_ok [where tot = 0, simplified, folded write_exact_def]

section \<open>Frames\<close>

lemma length_u32_bytes [simp]: "length (u32_bytes x) = 4"
  by (simp add: u32_bytes_def)

lemma u32_of_bytes_bytes [simp]: "u32_of_bytes (u32_bytes x) = x"
proof (rule bit_word_eqI)
  fix n assume "n < LENGTH(32)"
  then show "bit (u32_of_bytes (u32_bytes x)) n = bit x n"
    unfolding u32_bytes_def u32_of_bytes.simps by (cases "24 \<le> n"; cases "16 \<le> n") (auto simp: bit_simps)
qed

lemma u32_bytes_of_bytes [simp]: "length bs = 4 \<Longrightarrow> u32_bytes (u32_of_bytes bs) = bs"
proof -
  assume "length bs = 4"
  then obtain a b c d where bs: "bs = [a, b, c, d]" by (auto simp: length_Suc_conv numeral_eq_Suc)
  show ?thesis
    unfolding bs u32_bytes_def u32_of_bytes.simps
    by (intro list.inject [THEN iffD2] conjI bit_word_eqI refl) (auto simp: bit_simps dest: bit_imp_le_length)
qed

lemma i_ntohl_htonl [simp]: "i_ntohl (i_htonl x) = x"
  by (simp add: i_ntohl_def i_htonl_def)

text \<open>A frame on the wire: the length in network order, and the message.\<close>

definition frame :: "u8 list \<Rightarrow> u8 list" where
  "frame msg = rev (u32_bytes (word_of_nat (length msg))) @ msg"

lemma length_frame [simp]: "length (frame msg) = 4 + length msg"
  by (simp add: frame_def)

lemma htonl_bytes: "u32_bytes (i_htonl x) = rev (u32_bytes x)"
  by (simp add: i_htonl_def)

section \<open>Properties\<close>

lemma client_write_frame:
  assumes law: "net_law nt incoming sent" and fresh: "cause_code er = SUCCESS" and len: "unat len \<le> length msg"
  shows "\<exists>ret w' er' k. client_write_all_size_prefixed nt c msg len w (Some er) = Some (ret, w', Some er') \<and>
    incoming w' = incoming w \<and> sent w' = (sent w)(cl_sock c := sent w (cl_sock c) @ take k (frame (take (unat len) msg))) \<and>
    (ret = ERR_IO \<and> cause_code er' = ERR_IO \<or> ret = SUCCESS \<and> er' = er \<and> k = 4 + unat len)"
proof -
  let ?s = "cl_sock c" and ?m = "take (unat len) msg" and ?h = "u32_bytes (i_htonl (ucast len))"
  have u: "unat (ucast len :: u32) = unat len" by (rule unat_u16)
  have f: "frame ?m = ?h @ ?m" using len by (simp add: frame_def htonl_bytes min_absorb1)
  have "unat (4 :: u32) \<le> length ?h" by simp
  from write_exact_ok [OF law fresh this, of ?s w] obtain r1 w1 er1 k1 where
    one: "write_exact nt ?s ?h 4 w (Some er) = Some (r1, w1, Some er1)" "incoming w1 = incoming w"
      "sent w1 = (sent w)(?s := sent w ?s @ take k1 ?h)" "k1 \<le> 4"
      "r1 = ERR_IO \<and> cause_code er1 = ERR_IO \<or> r1 = SUCCESS \<and> er1 = er \<and> k1 = 4" by auto
  show ?thesis
  proof (cases "r1 = SUCCESS")
    case False
    then have e: "r1 = ERR_IO" "cause_code er1 = ERR_IO" using one(5) by auto
    then have "client_write_all_size_prefixed nt c msg len w (Some er) = Some (ERR_IO, w1, Some er1)"
      using one(1) by (simp add: client_write_all_size_prefixed_def Let_def error_trace_cause err_codes)
    moreover have "take k1 ?h = take k1 (frame ?m)" using one(4) f by simp
    ultimately show ?thesis using one(2,3) e by metis
  next
    case True
    then have s: "er1 = er" "k1 = 4" using one(5) by (auto simp: err_codes)
    have "unat (ucast len :: u32) \<le> length msg" using len u by simp
    from write_exact_ok [OF law fresh this, of ?s w1] obtain r2 w2 er2 k2 where
      two: "write_exact nt ?s msg (ucast len) w1 (Some er) = Some (r2, w2, Some er2)" "incoming w2 = incoming w1"
        "sent w2 = (sent w1)(?s := sent w1 ?s @ take k2 msg)" "k2 \<le> unat len"
        "r2 = ERR_IO \<and> cause_code er2 = ERR_IO \<or> r2 = SUCCESS \<and> er2 = er \<and> k2 = unat len"
      unfolding u by auto
    have "client_write_all_size_prefixed nt c msg len w (Some er) = Some (r2, w2, Some er2)"
      using one(1) two(1,5) True s by (auto simp: client_write_all_size_prefixed_def Let_def error_trace_cause err_codes)
    moreover have "sent w2 = (sent w)(?s := sent w ?s @ take (4 + k2) (frame ?m))"
      unfolding two(3) one(3) f using s two(4) by (simp add: min_absorb1)
    ultimately show ?thesis using one(2) two(2,5) by metis
  qed
qed

lemma client_read_frame:
  assumes law: "net_law nt incoming sent" and fresh: "cause_code er = SUCCESS"
    and inc: "incoming w (cl_sock c) = frame msg @ rest" and len: "length msg \<le> unat len" "unat len \<le> length dest"
  shows "\<exists>ret dest' w' er'. client_read_all_size_prefixed nt c dest len w (Some er) = Some (ret, dest', w', Some er') \<and>
    sent w' = sent w \<and>
    (ret = ERR_IO \<and> cause_code er' = ERR_IO \<or>
     ret = int (length msg) \<and> er' = er \<and> take (length msg) dest' = msg \<and> incoming w' (cl_sock c) = rest)"
proof -
  let ?s = "cl_sock c" and ?L = "word_of_nat (length msg) :: u32"
  have "unat len < 65536" using unsigned_less [of len] by simp
  then have small: "length msg < 65536" using len(1) by linarith
  have uL: "unat ?L = length msg" using small by (simp add: unat_of_nat)
  have "unat (4 :: u32) \<le> length (u32_bytes 0)" by simp
  from read_exact_ok [OF law fresh this, of ?s w] obtain r1 b1 w1 er1 bs where
    one: "read_exact nt ?s (u32_bytes 0) 4 w (Some er) = Some (r1, b1, w1, Some er1)" "sent w1 = sent w"
      "incoming w = (incoming w1)(?s := bs @ incoming w1 ?s)" "b1 = overwrite (u32_bytes 0) 0 bs"
      "r1 = ERR_IO \<and> cause_code er1 = ERR_IO \<or> r1 = SUCCESS \<and> er1 = er \<and> length bs = 4" by auto
  show ?thesis
  proof (cases "r1 = SUCCESS")
    case False
    then have "r1 = ERR_IO" "cause_code er1 = ERR_IO" using one(5) by auto
    then have "client_read_all_size_prefixed nt c dest len w (Some er) = Some (ERR_IO, dest, w1, Some er1)"
      using one(1) by (simp add: client_read_all_size_prefixed_def error_trace_cause err_codes)
    then show ?thesis using one(2) \<open>cause_code er1 = ERR_IO\<close> by blast
  next
    case True
    then have s: "er1 = er" "length bs = 4" using one(5) by (auto simp: err_codes)
    have "bs @ incoming w1 ?s = rev (u32_bytes ?L) @ msg @ rest"
      using inc one(3) by (metis append.assoc frame_def fun_upd_same)
    then have bs: "bs = rev (u32_bytes ?L)" "incoming w1 ?s = msg @ rest" using s(2) by (simp_all add: append_eq_append_conv)
    have b1: "b1 = bs" using one(4) s(2) by (simp add: overwrite_def)
    have L: "i_ntohl (u32_of_bytes b1) = ?L" by (simp add: b1 bs(1) i_ntohl_def)
    have le: "\<not> ?L > ucast len" using len(1) by (simp add: word_less_nat_alt uL unat_u16)
    have "unat ?L \<le> length dest" using len uL by simp
    from read_exact_ok [OF law fresh this, of ?s w1] obtain r2 d2 w2 er2 bs2 where
      two: "read_exact nt ?s dest ?L w1 (Some er) = Some (r2, d2, w2, Some er2)" "sent w2 = sent w1"
        "incoming w1 = (incoming w2)(?s := bs2 @ incoming w2 ?s)" "d2 = overwrite dest 0 bs2"
        "r2 = ERR_IO \<and> cause_code er2 = ERR_IO \<or> r2 = SUCCESS \<and> er2 = er \<and> length bs2 = length msg"
      unfolding uL by auto
    have ai: "as_i32 (uint ?L) = int (length msg)"
    proof -
      have "uint ?L = int (length msg)" using uL by (simp add: uint_nat)
      then show ?thesis using small by (simp add: as_i32_small)
    qed
    have r: "client_read_all_size_prefixed nt c dest len w (Some er) =
        Some (if r2 = SUCCESS then int (length msg) else ERR_IO, d2, w2, Some er2)"
    proof -
      have c2: "r2 = SUCCESS \<or> r2 = ERR_IO \<and> cause_code er2 = ERR_IO" using two(5) by blast
      have "client_read_all_size_prefixed nt c dest len w (Some er) =
          (if r2 < SUCCESS then Option.bind (error_trace (Some er2)) (\<lambda>r. Some (r, d2, w2, Some er2))
           else Some (int (length msg), d2, w2, Some er2))"
        unfolding client_read_all_size_prefixed_def one(1) True s(1) Option.bind.bind_lunit prod.case L Let_def
        using le two(1) ai by simp
      moreover have "r2 \<noteq> SUCCESS \<Longrightarrow> r2 < SUCCESS \<and> error_trace (Some er2) = Some ERR_IO"
        using c2 by (auto simp: error_trace_cause ERR_IO_def SUCCESS_def)
      ultimately show ?thesis by (cases "r2 = SUCCESS") simp_all
    qed
    show ?thesis
    proof (cases "r2 = SUCCESS")
      case False
      then have "client_read_all_size_prefixed nt c dest len w (Some er) = Some (ERR_IO, d2, w2, Some er2)" "cause_code er2 = ERR_IO"
        using r two(5) by simp_all
      then show ?thesis using two(2) one(2) by (intro exI conjI) (assumption | simp)+
    next
      case True
      then have t: "er2 = er" "length bs2 = length msg" using two(5) by (auto simp: err_codes)
      have "bs2 @ incoming w2 ?s = msg @ rest" using two(3) bs(2) by (metis fun_upd_same)
      then have "bs2 = msg" "incoming w2 ?s = rest" using t(2) by simp_all
      moreover have "take (length msg) d2 = msg" using two(4) \<open>bs2 = msg\<close> by (simp add: overwrite_def)
      moreover have "client_read_all_size_prefixed nt c dest len w (Some er) = Some (int (length msg), d2, w2, Some er)"
        using r True t(1) by simp
      ultimately show ?thesis using two(2) one(2) by auto
    qed
  qed
qed

text \<open>
  C36. What one client writes as a frame another reads as the message. However the network cuts the transfers, sending a message either
  reports \<open>ERR_IO\<close> with its cause recorded or succeeds; and then a client at whose socket the sent bytes come in, followed by anything, and whose buffer is large
  enough either reports \<open>ERR_IO\<close> with its cause or returns the length of the message, has it in the buffer and has left what follows untouched.
\<close>

theorem client_frames_round_trip:
  assumes "net_law nt incoming sent" and "cause_code er = SUCCESS" and "unat len \<le> length msg"
  shows "\<exists>ret w' er'. client_write_all_size_prefixed nt c msg len w (Some er) = Some (ret, w', Some er') \<and>
    (ret = ERR_IO \<and> cause_code er' = ERR_IO \<or>
     ret = SUCCESS \<and> (\<forall>d v rest dest dlen.
       incoming v (cl_sock d) = drop (length (sent w (cl_sock c))) (sent w' (cl_sock c)) @ rest \<longrightarrow> len \<le> dlen \<longrightarrow> unat dlen \<le> length dest \<longrightarrow>
       (\<exists>ret dest' v' er'. client_read_all_size_prefixed nt d dest dlen v (Some er) = Some (ret, dest', v', Some er') \<and>
         (ret = ERR_IO \<and> cause_code er' = ERR_IO \<or>
          ret = int (unat len) \<and> take (unat len) dest' = take (unat len) msg \<and> incoming v' (cl_sock d) = rest))))"
proof -
  let ?m = "take (unat len) msg"
  have lm: "length ?m = unat len" using assms(3) by simp
  from client_write_frame [OF assms, of c w] obtain ret w' er' k where
    wr: "client_write_all_size_prefixed nt c msg len w (Some er) = Some (ret, w', Some er')"
      "sent w' = (sent w)(cl_sock c := sent w (cl_sock c) @ take k (frame ?m))"
      "ret = ERR_IO \<and> cause_code er' = ERR_IO \<or> ret = SUCCESS \<and> er' = er \<and> k = 4 + unat len" by blast
  have "\<exists>ret dest' v' er'. client_read_all_size_prefixed nt d dest dlen v (Some er) = Some (ret, dest', v', Some er') \<and>
      (ret = ERR_IO \<and> cause_code er' = ERR_IO \<or>
       ret = int (unat len) \<and> take (unat len) dest' = ?m \<and> incoming v' (cl_sock d) = rest)"
    if "k = 4 + unat len" "incoming v (cl_sock d) = drop (length (sent w (cl_sock c))) (sent w' (cl_sock c)) @ rest"
      "len \<le> dlen" "unat dlen \<le> length dest" for d v rest dest dlen
  proof -
    have inc: "incoming v (cl_sock d) = frame ?m @ rest" using that(1,2) wr(2) lm by simp
    have "length ?m \<le> unat dlen" using that(3) lm by (simp add: word_le_nat_alt)
    from client_read_frame [OF assms(1,2) inc this that(4)] show ?thesis unfolding lm by blast
  qed
  then show ?thesis using wr by blast
qed

text \<open>A network that moves at most two bytes a call: what comes in on a socket and what has gone out.\<close>

definition pair_net :: "((fd \<Rightarrow> u8 list) \<times> (fd \<Rightarrow> u8 list)) net" where
  "pair_net = \<lparr>nt_strerror = (\<lambda>_. ''error''), nt_pton = (\<lambda>_. Some 0), nt_socket = (\<lambda>w. (Ret 3, w)), nt_close = (\<lambda>_ w. (Ret (), w)),
     nt_reuseaddr = (\<lambda>_ w. (Ret (), w)), nt_connect = (\<lambda>_ _ _ w. (Ret (), w)), nt_bind = (\<lambda>_ _ w. (Ret (), w)), nt_listen = (\<lambda>_ w. (Ret (), w)),
     nt_accept = (\<lambda>_ w. (Ret (4, [], 0), w)),
     nt_read = (\<lambda>s n w. (Ret (take (min 2 n) (fst w s)), ((fst w)(s := drop (min 2 n) (fst w s)), snd w))),
     nt_write = (\<lambda>s bs w. (Ret (min 2 (length bs)), (fst w, (snd w)(s := snd w s @ take 2 bs)))),
     nt_poll = (\<lambda>ps _ w. (Ret (int (length ps), map pf_events ps), w))\<rparr>"

lemma pair_net_law: "net_law pair_net fst snd"
  by (auto simp: net_law_def pair_net_def min_def)

theorem client_frames_round_trip_witness:
  "\<exists>ret w' er'. client_write_all_size_prefixed pair_net \<lparr>cl_sock = 3\<rparr> [7, 8, 9] 3 (\<lambda>_. [], \<lambda>_. []) (Some error_create) = Some (ret, w', Some er') \<and>
     (ret = ERR_IO \<or> (\<exists>r dest' v' e. client_read_all_size_prefixed pair_net \<lparr>cl_sock = 5\<rparr> [0, 0, 0, 0] 4 (\<lambda>_. snd w' 3, \<lambda>_. []) (Some error_create) =
        Some (r, dest', v', Some e) \<and> (r = ERR_IO \<or> take 3 dest' = [7, 8, 9])))"
proof -
  have "cause_code error_create = SUCCESS" "unat (3 :: u16) \<le> length [7, 8, 9 :: u8]" by (simp_all add: error_create_def)
  from client_frames_round_trip [OF pair_net_law this, of "\<lparr>cl_sock = 3\<rparr>" "(\<lambda>_. [], \<lambda>_. [])"] obtain ret w' er' where
    wr: "client_write_all_size_prefixed pair_net \<lparr>cl_sock = 3\<rparr> [7, 8, 9] 3 (\<lambda>_. [], \<lambda>_. []) (Some error_create) = Some (ret, w', Some er')"
      "ret \<noteq> ERR_IO \<longrightarrow> (\<forall>d v rest dest dlen.
       fst v (cl_sock d) = snd w' 3 @ rest \<longrightarrow> 3 \<le> dlen \<longrightarrow> unat dlen \<le> length dest \<longrightarrow>
       (\<exists>ret dest' v' er'. client_read_all_size_prefixed pair_net d dest dlen v (Some error_create) = Some (ret, dest', v', Some er') \<and>
         (ret = ERR_IO \<and> cause_code er' = ERR_IO \<or>
          ret = int (unat (3 :: u16)) \<and> take (unat (3 :: u16)) dest' = take (unat (3 :: u16)) [7, 8, 9] \<and> fst v' (cl_sock d) = rest)))"
    by auto
  have "\<exists>r dest' v' e. client_read_all_size_prefixed pair_net \<lparr>cl_sock = 5\<rparr> [0, 0, 0, 0] 4 (\<lambda>_. snd w' 3, \<lambda>_. []) (Some error_create) =
      Some (r, dest', v', Some e) \<and> (r = ERR_IO \<or> take 3 dest' = [7, 8, 9])" if "ret \<noteq> ERR_IO"
    using wr(2) [rule_format, OF that, of "(\<lambda>_. snd w' 3, \<lambda>_. [])" "\<lparr>cl_sock = 5\<rparr>" "[]" 4 "[0, 0, 0, 0]"] by auto
  then show ?thesis using wr(1) by blast
qed

end
