(* ===== verification/Polling_server.thy ===== *)
theory Polling_server
  imports Socket Osmem
begin

unbundle bit_operations_syntax

text \<open>
  The polling server, \<^verbatim>\<open>net/polling_server.c\<close>. A connection is held by value in the slot of the server's
  array that points at it; a null slot is \<open>None\<close>. Arrays keep their typed contents over a reallocation, and what fresh
  memory holds is never read. The latch of a connection is taken and released inside each handler by the one thread of the server.
\<close>

section \<open>State\<close>

record connection =
  rx_buf :: "u8 list option"
  rx_cap :: u32
  rx_len :: u32
  tx_buf :: "u8 list option"
  tx_cap :: u32
  tx_sent :: u32
  cn_sock :: fd

text \<open>The functions are given their context.\<close>

record conn_actions =
  conn_alloc :: "errp \<Rightarrow> (connection option \<times> errp) option"
  conn_func :: "connection \<Rightarrow> errp \<Rightarrow> (connection \<times> err_t \<times> errp) option"
  conn_free :: "connection \<Rightarrow> unit option"

record polling_server =
  ps_fds :: "pollfd list"
  ps_conns :: "connection option list"
  ps_len :: u32
  ps_cap :: u32
  ps_running :: int
  ps_actions :: conn_actions
  ps_server :: fd

definition sizeof_pollfd :: u32 where "sizeof_pollfd = 8"
definition sizeof_ptr :: u32 where "sizeof_ptr = 8"

text \<open>\<open>memset (conn, 0, sizeof *conn)\<close>, and an entry no one has written.\<close>

definition conn_zero :: connection where
  "conn_zero = \<lparr>rx_buf = None, rx_cap = 0, rx_len = 0, tx_buf = None, tx_cap = 0, tx_sent = 0, cn_sock = 0\<rparr>"

definition fresh_fd :: pollfd where
  "fresh_fd = \<lparr>pf_fd = 0, pf_events = 0, pf_revents = 0\<rparr>"

section \<open>Opening\<close>

text \<open>\<open>WRAP\<close> leaves with the pending code and keeps what has been allocated.\<close>

definition wrapped :: "int \<times> 'w \<times> errp \<Rightarrow> 's \<Rightarrow> ('w \<Rightarrow> errp \<Rightarrow> (int \<times> 's \<times> 'w \<times> errp) option) \<Rightarrow> (int \<times> 's \<times> 'w \<times> errp) option" where
  "wrapped r s k = (case r of (c, w, e) \<Rightarrow>
     if c < SUCCESS then do { c \<leftarrow> error_trace e; Some (c, s, w, e) } else k w e)"

definition pserv_open ::
  "libc \<Rightarrow> 'w net \<Rightarrow> polling_server \<Rightarrow> int \<Rightarrow> conn_actions \<Rightarrow> 'w \<Rightarrow> errp \<Rightarrow> (int \<times> polling_server \<times> 'w \<times> errp) option" where
  "pserv_open os nt ps port actions w e = do {
     let ps = ps\<lparr>ps_actions := actions, ps_cap := 101\<rparr>;
     (fds, e) \<leftarrow> i_malloc os (ps_cap ps) sizeof_pollfd e;
     case fds of
       None \<Rightarrow> do { c \<leftarrow> error_trace e; Some (c, ps\<lparr>ps_fds := []\<rparr>, w, e) }
     | Some _ \<Rightarrow> do {
         let ps = ps\<lparr>ps_fds := replicate (unat (ps_cap ps)) fresh_fd\<rparr>;
         (conns, e) \<leftarrow> i_malloc os (ps_cap ps) sizeof_ptr e;
         case conns of
           None \<Rightarrow> do { i_free fds; c \<leftarrow> error_trace e; Some (c, ps\<lparr>ps_conns := []\<rparr>, w, e) }
         | Some _ \<Rightarrow> do {
             let ps = ps\<lparr>ps_conns := replicate (unat (ps_cap ps)) None\<rparr>;
             case i_socket_create nt w e of (c, fd, w, e) \<Rightarrow>
               (let ps = ps\<lparr>ps_server := fd\<rparr> in
                wrapped (c, w, e) ps (\<lambda>w e.
                wrapped (i_socket_set_reuseaddr nt fd w e) ps (\<lambda>w e.
                wrapped (i_socket_bind nt fd port w e) ps (\<lambda>w e.
                wrapped (i_socket_listen nt fd w e) ps (\<lambda>w e.
                  Some (SUCCESS, ps\<lparr>ps_fds := (ps_fds ps)[0 := \<lparr>pf_fd = fd, pf_events = POLLIN, pf_revents = 0\<rparr>],
                    ps_len := 1, ps_running := 1\<rparr>, w, e))))))
           }
       }
   }"

text \<open>The reallocation of an array of \<open>sz\<close>-byte entries; \<open>None\<close> leaves the old array as it was.\<close>

definition grow_array :: "libc \<Rightarrow> 'a list \<Rightarrow> 'a \<Rightarrow> u32 \<Rightarrow> u32 \<Rightarrow> u32 \<Rightarrow> errp \<Rightarrow> ('a list option \<times> errp) option" where
  "grow_array os arr fresh old new sz e = do {
     (p, e) \<leftarrow> i_realloc_right os (Some (replicate (length arr * unat sz) 0)) old new sz e;
     Some (map_option (\<lambda>_. take (unat new) arr @ replicate (unat new - length arr) fresh) p, e)
   }"

definition grow_if_needed :: "libc \<Rightarrow> polling_server \<Rightarrow> errp \<Rightarrow> (err_t \<times> polling_server \<times> errp) option" where
  "grow_if_needed os s e =
     (if ps_len s < ps_cap s then Some (SUCCESS, s, e)
      else do {
        let new_cap = ps_cap s * 2;
        (fds, e) \<leftarrow> grow_array os (ps_fds s) fresh_fd (ps_cap s) new_cap sizeof_pollfd e;
        case fds of
          None \<Rightarrow> do { c \<leftarrow> error_trace e; Some (c, s, e) }
        | Some fds \<Rightarrow> do {
            let s = s\<lparr>ps_fds := fds\<rparr>;
            (conns, e) \<leftarrow> grow_array os (ps_conns s) None (ps_cap s) new_cap sizeof_ptr e;
            case conns of
              None \<Rightarrow> do { c \<leftarrow> error_trace e; Some (c, s, e) }
            | Some conns \<Rightarrow> Some (SUCCESS, s\<lparr>ps_conns := conns, ps_cap := new_cap\<rparr>, e)
          }
      })"

section \<open>One round\<close>

text \<open>What a connection waits for.\<close>

definition conn_events :: "connection \<Rightarrow> u16" where
  "conn_events conn =
     (let reading = rx_cap conn > 0; writing = tx_cap conn > 0;
          done_reading = (rx_len conn = rx_cap conn); done_writing = (tx_sent conn = tx_cap conn) in
      (if reading \<and> \<not> done_reading then POLLIN else 0) OR (if writing \<and> \<not> done_writing then POLLOUT else 0))"

definition get_slot :: "'a list \<Rightarrow> u32 \<Rightarrow> 'a option" where
  "get_slot xs i = (if unat i < length xs then Some (xs ! unat i) else None)"

definition put_slot :: "'a list \<Rightarrow> u32 \<Rightarrow> 'a \<Rightarrow> 'a list option" where
  "put_slot xs i x = (if unat i < length xs then Some (xs[unat i := x]) else None)"

partial_function (option) execute_conns_loop :: "u32 \<Rightarrow> polling_server \<Rightarrow> errp \<Rightarrow> (err_t \<times> polling_server \<times> errp) option" where
  "execute_conns_loop i s e =
     (if i < ps_len s then
        Option.bind (get_slot (ps_conns s) i) (\<lambda>slot.
        Option.bind slot (\<lambda>conn.
        Option.bind (conn_func (ps_actions s) conn e) (\<lambda>(conn, c, e).
        Option.bind (put_slot (ps_conns s) i (Some conn)) (\<lambda>conns.
          if c \<noteq> SUCCESS then Option.bind (error_trace e) (\<lambda>c. Some (c, s\<lparr>ps_conns := conns\<rparr>, e))
          else Option.bind (get_slot (ps_fds s) i) (\<lambda>p.
               Option.bind (put_slot (ps_fds s) i (p\<lparr>pf_events := conn_events conn\<rparr>)) (\<lambda>fds.
                 execute_conns_loop (i + 1) (s\<lparr>ps_conns := conns, ps_fds := fds\<rparr>) e))))))
      else Some (SUCCESS, s, e))"

declare execute_conns_loop.simps [code]

definition pserv_execute_conns :: "polling_server \<Rightarrow> errp \<Rightarrow> (err_t \<times> polling_server \<times> errp) option" where
  "pserv_execute_conns s e = execute_conns_loop 1 s e"

definition handle_accept ::
  "libc \<Rightarrow> 'w net \<Rightarrow> polling_server \<Rightarrow> 'w \<Rightarrow> errp \<Rightarrow> (err_t \<times> polling_server \<times> 'w \<times> errp) option" where
  "handle_accept os nt s w e = do {
     (conn, e) \<leftarrow> conn_alloc (ps_actions s) e;
     case conn of
       None \<Rightarrow> do { c \<leftarrow> error_trace e; Some (c, s, w, e) }
     | Some _ \<Rightarrow>
         (case i_socket_accept nt (ps_server s) w e of (c, fd, ip, port, w, e) \<Rightarrow>
            let conn = conn_zero\<lparr>cn_sock := fd\<rparr> in
            if c \<noteq> SUCCESS then do { conn_free (ps_actions s) conn; c \<leftarrow> error_trace e; Some (c, s, w, e) }
            else do {
              (c, s, e) \<leftarrow> grow_if_needed os s e;
              if c \<noteq> SUCCESS
              then (case i_socket_close nt fd w e of (_, _, w, e) \<Rightarrow>
                do { conn_free (ps_actions s) conn; c \<leftarrow> error_trace e; Some (c, s, w, e) })
              else do {
                fds \<leftarrow> put_slot (ps_fds s) (ps_len s) \<lparr>pf_fd = fd, pf_events = 0, pf_revents = 0\<rparr>;
                conns \<leftarrow> put_slot (ps_conns s) (ps_len s) (Some conn);
                Some (SUCCESS, s\<lparr>ps_fds := fds, ps_conns := conns, ps_len := ps_len s + 1\<rparr>, w, e)
              }
            })
   }"

text \<open>
  The buffers are freed before the socket is closed. A pointer to freed memory has no object to
  point at, so it is \<open>None\<close>: where closing fails, the connection stays in the table that way.
\<close>

definition remove_client ::
  "'w net \<Rightarrow> polling_server \<Rightarrow> u32 \<Rightarrow> 'w \<Rightarrow> errp \<Rightarrow> (err_t \<times> polling_server \<times> 'w \<times> errp) option" where
  "remove_client nt s i w e = do {
     slot \<leftarrow> get_slot (ps_conns s) i;
     conn \<leftarrow> slot;
     i_free (rx_buf conn);
     i_free (tx_buf conn);
     let conn = conn\<lparr>rx_buf := None, tx_buf := None\<rparr>;
     conns \<leftarrow> put_slot (ps_conns s) i (Some conn);
     let s = s\<lparr>ps_conns := conns\<rparr>;
     case i_socket_close nt (cn_sock conn) w e of (c, _, w, e) \<Rightarrow>
       wrapped (c, w, e) s (\<lambda>w e. do {
         conn_free (ps_actions s) conn;
         p \<leftarrow> get_slot (ps_fds s) (ps_len s - 1);
         fds \<leftarrow> put_slot (ps_fds s) i p;
         q \<leftarrow> get_slot (ps_conns s) (ps_len s - 1);
         conns \<leftarrow> put_slot (ps_conns s) i q;
         Some (SUCCESS, s\<lparr>ps_fds := fds, ps_conns := conns, ps_len := ps_len s - 1\<rparr>, w, e)
       })
   }"

definition handle_read :: "'w net \<Rightarrow> connection \<Rightarrow> 'w \<Rightarrow> errp \<Rightarrow> (err_t \<times> connection \<times> 'w \<times> errp) option" where
  "handle_read nt conn w e = do {
     ASSERT (rx_cap conn > rx_len conn);
     buf \<leftarrow> rx_buf conn;
     (n, buf, w, e) \<leftarrow> i_socket_recv nt (cn_sock conn) buf (unat (rx_len conn)) (rx_cap conn - rx_len conn) w e;
     let conn = conn\<lparr>rx_buf := Some buf\<rparr>;
     let (conn, e) = (if n < 0 then (conn, e)
       else if n = 0 then (conn, fst (error_causef e ERR_IO ''recv: peer closed connection''))
       else (conn\<lparr>rx_len := rx_len conn + word_of_int n\<rparr>, e));
     c \<leftarrow> error_trace e;
     Some (c, conn, w, e)
   }"

definition handle_write :: "'w net \<Rightarrow> connection \<Rightarrow> 'w \<Rightarrow> errp \<Rightarrow> (err_t \<times> connection \<times> 'w \<times> errp) option" where
  "handle_write nt conn w e = do {
     ASSERT (tx_cap conn > tx_sent conn);
     buf \<leftarrow> tx_buf conn;
     (n, w, e) \<leftarrow> i_socket_send nt (cn_sock conn) buf (unat (tx_sent conn)) (tx_cap conn - tx_sent conn) w e;
     Some (SUCCESS, (if n > 0 then conn\<lparr>tx_sent := tx_sent conn + word_of_int n\<rparr> else conn), w, e)
   }"

text \<open>The loop over the entries, from the last one down; \<open>n\<close> is \<open>i + 1\<close>. The inner \<open>None\<close> goes on.\<close>

definition handle_events ::
  "libc \<Rightarrow> 'w net \<Rightarrow> u32 \<Rightarrow> polling_server \<Rightarrow> 'w \<Rightarrow> errp \<Rightarrow> (int option \<times> polling_server \<times> 'w \<times> errp) option" where
  "handle_events os nt i s w e = do {
     p \<leftarrow> get_slot (ps_fds s) i;
     let ev = pf_revents p;
     let failing = (\<lambda>r. do {
       (c, s, w, e) \<leftarrow> r;
       if c \<noteq> SUCCESS then do { c \<leftarrow> error_trace e; Some (Some c, s, w, e) } else Some (None, s, w, e) });
     if ev = 0 then Some (None, s, w, e)
     else if i = 0 then do { ASSERT (ev AND POLLIN \<noteq> 0); failing (handle_accept os nt s w e) }
     else if ev AND (POLLERR OR POLLHUP) \<noteq> 0 then failing (remove_client nt s i w e)
     else do {
       slot \<leftarrow> get_slot (ps_conns s) i;
       conn \<leftarrow> slot;
       if ev AND POLLIN \<noteq> 0 then do {
         (c, conn, w, e) \<leftarrow> handle_read nt conn w e;
         conns \<leftarrow> put_slot (ps_conns s) i (Some conn);
         let s = s\<lparr>ps_conns := conns\<rparr>;
         if c \<noteq> SUCCESS then failing (remove_client nt s i w e) else Some (None, s, w, e)
       }
       else if ev AND POLLOUT \<noteq> 0 then do {
         (c, conn, w, e) \<leftarrow> handle_write nt conn w e;
         conns \<leftarrow> put_slot (ps_conns s) i (Some conn);
         Some (None, s\<lparr>ps_conns := conns\<rparr>, w, e)
       }
       else Some (None, s, w, e)
     }
   }"

primrec events_loop ::
  "libc \<Rightarrow> 'w net \<Rightarrow> nat \<Rightarrow> polling_server \<Rightarrow> 'w \<Rightarrow> errp \<Rightarrow> (int \<times> polling_server \<times> 'w \<times> errp) option" where
  "events_loop os nt 0 s w e = Some (ps_running s, s, w, e)"
| "events_loop os nt (Suc n) s w e = do {
     (r, s, w, e) \<leftarrow> handle_events os nt (u32_of n) s w e;
     case r of Some c \<Rightarrow> Some (c, s, w, e) | None \<Rightarrow> events_loop os nt n s w e
   }"

definition pserv_execute ::
  "libc \<Rightarrow> 'w net \<Rightarrow> polling_server \<Rightarrow> 'w \<Rightarrow> errp \<Rightarrow> (int \<times> polling_server \<times> 'w \<times> errp) option" where
  "pserv_execute os nt ps w e = do {
     (c, ps, e) \<leftarrow> pserv_execute_conns ps e;
     if c \<noteq> SUCCESS then do { c \<leftarrow> error_trace e; Some (c, ps, w, e) }
     else do {
       (ret, fds, w, e) \<leftarrow> i_poll nt (ps_fds ps) (ps_len ps) 1000 w e;
       let ps = ps\<lparr>ps_fds := fds\<rparr>;
       if ret < 0 then do { c \<leftarrow> error_trace e; Some (c, ps, w, e) }
       else if ret = 0 then Some (ps_running ps, ps, w, e)
       else events_loop os nt (unat (ps_len ps)) ps w e
     }
   }"

section \<open>Closing\<close>

partial_function (option) close_loop :: "'w net \<Rightarrow> u32 \<Rightarrow> polling_server \<Rightarrow> 'w \<Rightarrow> errp \<Rightarrow> ('w \<times> errp) option" where
  "close_loop nt i ps w e =
     (if i < ps_len ps then
        Option.bind (get_slot (ps_conns ps) i) (\<lambda>slot.
        Option.bind slot (\<lambda>conn.
        Option.bind (i_free (rx_buf conn)) (\<lambda>_.
        Option.bind (i_free (tx_buf conn)) (\<lambda>_.
          case i_socket_close nt (cn_sock conn) w e of (_, _, w, e) \<Rightarrow>
            Option.bind (conn_free (ps_actions ps) conn) (\<lambda>_. close_loop nt (i + 1) ps w e)))))
      else Some (w, e))"

declare close_loop.simps [code]

definition pserv_close :: "'w net \<Rightarrow> polling_server \<Rightarrow> 'w \<Rightarrow> errp \<Rightarrow> (int \<times> polling_server \<times> 'w \<times> errp) option" where
  "pserv_close nt ps w e = do {
     (w, e) \<leftarrow> close_loop nt 1 ps w e;
     case i_socket_close nt (ps_server ps) w e of (_, fd, w, e) \<Rightarrow> do {
       ASSERT (ps_conns ps \<noteq> []);
       ASSERT (ps_fds ps \<noteq> []);
       c \<leftarrow> error_trace e;
       Some (c, ps\<lparr>ps_conns := [], ps_fds := [], ps_len := 0, ps_cap := 0, ps_server := fd\<rparr>, w, e)
     }
   }"

section \<open>The table of connections\<close>

text \<open>
  The first entry is the listening socket; every other entry below \<open>ps_len\<close> has a connection, and the entry polled is its socket.
\<close>

definition ps_table :: "conn_actions \<Rightarrow> polling_server \<Rightarrow> bool" where
  "ps_table a s \<longleftrightarrow> ps_actions s = a \<and> unat (ps_cap s) * 8 < 4294967296 \<and>
     0 < unat (ps_len s) \<and> unat (ps_len s) \<le> unat (ps_cap s) \<and> unat (ps_cap s) \<le> length (ps_fds s) \<and> length (ps_conns s) = unat (ps_cap s) \<and>
     pf_fd (ps_fds s ! 0) = ps_server s \<and>
     (\<forall>i. 0 < i \<and> i < unat (ps_len s) \<longrightarrow> (\<exists>conn. ps_conns s ! i = Some conn \<and> pf_fd (ps_fds s ! i) = cn_sock conn))"

definition poll_law :: "'w net \<Rightarrow> bool" where
  "poll_law nt \<longleftrightarrow> (\<forall>ps t w n rs w'. nt_poll nt ps t w = (Ret (n, rs), w') \<longrightarrow> length rs = length ps)"

lemma slot_Some:
  "get_slot xs i = Some x \<longleftrightarrow> unat i < length xs \<and> x = xs ! unat i"
  "put_slot xs i x = Some ys \<longleftrightarrow> unat i < length xs \<and> ys = xs[unat i := x]"
  by (auto simp: get_slot_def put_slot_def)

lemma ps_table_conn:
  assumes "ps_table a s" and "ps_conns s ! unat i = Some conn" and "cn_sock conn' = cn_sock conn" and "0 < unat i" and "unat i < unat (ps_len s)"
  shows "ps_table a (s\<lparr>ps_conns := (ps_conns s)[unat i := Some conn']\<rparr>)"
  using assms by (auto simp: ps_table_def nth_list_update)

lemma ps_table_fds:
  assumes t: "ps_table a s" and l: "unat (ps_cap s) \<le> length fds" and same: "\<And>i. i < unat (ps_cap s) \<Longrightarrow> pf_fd (fds ! i) = pf_fd (ps_fds s ! i)"
  shows "ps_table a (s\<lparr>ps_fds := fds\<rparr>)"
proof -
  have "0 < unat (ps_cap s)" using t by (auto simp: ps_table_def)
  then show ?thesis using t l same by (auto simp: ps_table_def)
qed

lemma i_poll_fds:
  assumes law: "poll_law nt" and r: "i_poll nt fds n t w e = Some (ret, fds', w', e')"
  shows "length fds' = length fds \<and> (\<forall>i<length fds. pf_fd (fds' ! i) = pf_fd (fds ! i))"
proof -
  let ?p = "take (unat n) fds"
  have n: "unat n \<le> length fds" using r by (auto simp: i_poll_def mem_load_Some bind_Some_iff)
  obtain q w1 where q: "nt_poll nt ?p t w = (q, w1)" by (cases "nt_poll nt ?p t w")
  show ?thesis
  proof (cases q)
    case (Ret x)
    obtain k rs where x: "x = (k, rs)" by (cases x)
    then have "length rs = length ?p" using law q Ret unfolding poll_law_def by blast
    moreover have "fds' = map2 (\<lambda>p r. p\<lparr>pf_revents := r\<rparr>) ?p rs @ drop (unat n) fds"
      using r q Ret x n by (simp add: i_poll_def mem_load_def)
    ultimately show ?thesis using n by (auto simp: nth_append min_absorb1)
  next
    case (Fail m)
    then have "fds' = fds" using r q n by (auto simp: i_poll_def mem_load_def split: if_splits prod.splits)
    then show ?thesis by simp
  qed
qed

lemma grow_array_Some:
  "grow_array os arr fresh old new sz e = Some (Some arr', e') \<Longrightarrow>
   arr' = take (unat new) arr @ replicate (unat new - length arr) fresh \<and> unat new * unat sz < 4294967296"
  by (auto simp: grow_array_def i_realloc_right_def i_realloc_def safe_mul_u32_def Let_def bind_Some_iff split: if_splits option.splits)

lemma failed_code:
  assumes "error_trace (fst (error_causef e x msg)) = Some c" and "x \<noteq> SUCCESS"
  shows "c \<noteq> SUCCESS"
proof (cases e)
  case (Some er)
  then show ?thesis using assms by (cases "cause_code er = SUCCESS") (auto simp: error_causef_fresh)
qed (use assms in \<open>simp add: error_causef_def\<close>)

lemma grow_array_None:
  "\<lbrakk>grow_array os arr fresh old new sz e = Some (None, e'); error_trace e' = Some c\<rbrakk> \<Longrightarrow> c \<noteq> SUCCESS"
  by (auto simp: grow_array_def i_realloc_right_def i_realloc_def nomem_def bind_Some_iff ERR_NOMEM_def SUCCESS_def
      dest!: failed_code split: if_splits option.splits)

lemma grow_if_needed_table:
  assumes t: "ps_table a s" and r: "grow_if_needed os s e = Some (c, s', e')"
  shows "ps_table a s' \<and> ps_len s' = ps_len s \<and> ps_server s' = ps_server s \<and> (c = SUCCESS \<longrightarrow> ps_len s < ps_cap s')"
proof (cases "ps_len s < ps_cap s")
  case True
  then show ?thesis using r t by (auto simp: grow_if_needed_def)
next
  case False
  let ?new = "ps_cap s * 2" and ?cap = "unat (ps_cap s)"
  have le: "unat (ps_len s) = ?cap" using False t by (simp add: ps_table_def word_less_nat_alt)
  have new: "unat ?new = 2 * ?cap" using t by (simp add: ps_table_def unat_word_ariths)
  from r False obtain fds e1 where f: "grow_array os (ps_fds s) fresh_fd (ps_cap s) ?new sizeof_pollfd e = Some (fds, e1)"
    by (auto simp: grow_if_needed_def Let_def bind_Some_iff)
  show ?thesis
  proof (cases fds)
    case None
    then show ?thesis using r False f t grow_array_None [OF f [unfolded None]]
      by (auto simp: grow_if_needed_def Let_def bind_Some_iff)
  next
    case (Some fds')
    from grow_array_Some [OF f [unfolded Some]] have f': "fds' = take (2 * ?cap) (ps_fds s) @ replicate (2 * ?cap - length (ps_fds s)) fresh_fd"
      "2 * ?cap * 8 < 4294967296" by (simp_all add: new sizeof_pollfd_def)
    have t1: "ps_table a (s\<lparr>ps_fds := fds'\<rparr>)" using t f' by (intro ps_table_fds) (auto simp: ps_table_def nth_append)
    have l1: "length fds' = 2 * ?cap" using f' by simp
    from r False f Some obtain conns e2 where g: "grow_array os (ps_conns s) None (ps_cap s) ?new sizeof_ptr e1 = Some (conns, e2)"
      by (auto simp: grow_if_needed_def Let_def bind_Some_iff)
    show ?thesis
    proof (cases conns)
      case None
      then show ?thesis using r False f Some g t1 grow_array_None [OF g [unfolded None]]
        by (auto simp: grow_if_needed_def Let_def bind_Some_iff)
    next
      case (Some conns')
      have "length (ps_conns s) = ?cap" using t by (simp add: ps_table_def)
      with grow_array_Some [OF g [unfolded Some]] have "conns' = ps_conns s @ replicate ?cap None" by (simp add: new)
      then have "ps_table a (s\<lparr>ps_fds := fds', ps_conns := conns', ps_cap := ?new\<rparr>)"
        using t1 l1 f'(2) le by (auto simp: ps_table_def new nth_append)
      moreover have "s' = s\<lparr>ps_fds := fds', ps_conns := conns', ps_cap := ?new\<rparr>"
        using r False f g Some \<open>fds = Some fds'\<close> by (auto simp: grow_if_needed_def Let_def)
      moreover have "ps_len s < ?new" using le new t by (simp add: ps_table_def word_less_nat_alt)
      ultimately show ?thesis by simp
    qed
  qed
qed

lemma ps_table_add:
  assumes t: "ps_table a s" and room: "ps_len s < ps_cap s" and fd: "pf_fd p = cn_sock conn"
  shows "ps_table a (s\<lparr>ps_fds := (ps_fds s)[unat (ps_len s) := p], ps_conns := (ps_conns s)[unat (ps_len s) := Some conn], ps_len := ps_len s + 1\<rparr>)"
proof -
  have l: "unat (ps_len s) < unat (ps_cap s)" using room by (simp add: word_less_nat_alt)
  then have "unat (ps_len s + 1) = unat (ps_len s) + 1" using u32_less_bound [of "ps_cap s"] by (subst u32_add_nat) (unfold unsigned_1, linarith+)
  then show ?thesis using t l fd by (auto simp: ps_table_def nth_list_update less_Suc_eq)
qed

lemma handle_accept_table:
  assumes t: "ps_table a s" and r: "handle_accept os nt s w e = Some (c, s', w', e')"
  shows "ps_table a s'"
proof -
  from r obtain p e1 where p: "conn_alloc (ps_actions s) e = Some (p, e1)" by (auto simp: handle_accept_def bind_Some_iff)
  obtain c1 fd ip port w1 e2 where acc: "i_socket_accept nt (ps_server s) w e1 = (c1, fd, ip, port, w1, e2)" by (metis prod.exhaust)
  show ?thesis
  proof (cases "p = None \<or> c1 \<noteq> SUCCESS")
    case True
    then show ?thesis using r p acc t by (auto simp: handle_accept_def bind_Some_iff Let_def split: option.splits)
  next
    case False
    then obtain q where q: "p = Some q" "c1 = SUCCESS" by auto
    from r p acc q obtain c2 s1 e3 where g: "grow_if_needed os s e2 = Some (c2, s1, e3)"
      by (auto simp: handle_accept_def bind_Some_iff Let_def)
    note gt = grow_if_needed_table [OF t g]
    show ?thesis
    proof (cases "c2 = SUCCESS")
      case True
      then have "s' = s1\<lparr>ps_fds := (ps_fds s1)[unat (ps_len s1) := \<lparr>pf_fd = fd, pf_events = 0, pf_revents = 0\<rparr>],
          ps_conns := (ps_conns s1)[unat (ps_len s1) := Some (conn_zero\<lparr>cn_sock := fd\<rparr>)], ps_len := ps_len s1 + 1\<rparr>"
        using r p acc q g by (auto simp: handle_accept_def bind_Some_iff Let_def slot_Some)
      moreover have "ps_table a s1" "ps_len s1 < ps_cap s1" using gt True by auto
      note ps_table_add [OF this, of "\<lparr>pf_fd = fd, pf_events = 0, pf_revents = 0\<rparr>" "conn_zero\<lparr>cn_sock := fd\<rparr>"]
      ultimately show ?thesis by simp
    next
      case False
      then show ?thesis using r p acc q g gt by (auto simp: handle_accept_def bind_Some_iff Let_def split: prod.splits)
    qed
  qed
qed

lemma ps_table_remove:
  assumes t: "ps_table a s" and i: "0 < unat i" "unat i < unat (ps_len s)"
  shows "ps_table a (s\<lparr>ps_fds := (ps_fds s)[unat i := ps_fds s ! unat (ps_len s - 1)],
    ps_conns := (ps_conns s)[unat i := ps_conns s ! unat (ps_len s - 1)], ps_len := ps_len s - 1\<rparr>) \<and> unat (ps_len s - 1) = unat (ps_len s) - 1"
proof -
  let ?k = "unat (ps_len s) - 1"
  have k: "unat (ps_len s - 1) = ?k" using i by (simp add: unat_sub word_le_nat_alt)
  have "0 < ?k" "?k < unat (ps_len s)" using i by linarith+
  then obtain conn where "ps_conns s ! ?k = Some conn" "pf_fd (ps_fds s ! ?k) = cn_sock conn" using t unfolding ps_table_def by blast
  then show ?thesis using t i k by (auto simp: ps_table_def nth_list_update)
qed

lemma ps_table_get:
  assumes t: "ps_table a s" and i: "0 < unat i" "unat i < unat (ps_len s)"
  shows "\<exists>conn. ps_conns s ! unat i = Some conn \<and> get_slot (ps_conns s) i = Some (Some conn) \<and> unat i < length (ps_fds s)"
proof -
  from t i obtain conn where "ps_conns s ! unat i = Some conn" by (auto simp: ps_table_def)
  moreover have "unat i < length (ps_conns s)" "unat i < length (ps_fds s)" using t i by (auto simp: ps_table_def)
  ultimately show ?thesis by (simp add: get_slot_def)
qed

lemma remove_client_table:
  assumes t: "ps_table a s" and i: "0 < unat i" "unat i < unat (ps_len s)"
    and r: "remove_client nt s i w e = Some (c, s', w', e')"
  shows "ps_table a s' \<and> unat i \<le> unat (ps_len s')"
proof -
  from t i obtain conn where conn: "ps_conns s ! unat i = Some conn" "get_slot (ps_conns s) i = Some (Some conn)"
    using ps_table_get by blast
  obtain c1 fd w1 e1 where cl: "i_socket_close nt (cn_sock conn) w e = (c1, fd, w1, e1)" by (metis prod.exhaust)
  let ?s = "s\<lparr>ps_conns := (ps_conns s)[unat i := Some (conn\<lparr>rx_buf := None, tx_buf := None\<rparr>)]\<rparr>"
  have t1: "ps_table a ?s" by (rule ps_table_conn [OF t conn(1) _ i]) simp
  have i1: "unat i < unat (ps_len ?s)" using i by simp
  have "s' = ?s \<or> s' = ?s\<lparr>ps_fds := (ps_fds ?s)[unat i := ps_fds ?s ! unat (ps_len ?s - 1)],
      ps_conns := (ps_conns ?s)[unat i := ps_conns ?s ! unat (ps_len ?s - 1)], ps_len := ps_len ?s - 1\<rparr>"
    using r conn(2) cl by (auto simp: remove_client_def wrapped_def Let_def bind_Some_iff slot_Some split: if_splits)
  then show ?thesis using ps_table_remove [OF t1 i(1) i1] t1 i by auto
qed

lemma handle_read_sock: "handle_read nt conn w e = Some (c, conn', w', e') \<Longrightarrow> cn_sock conn' = cn_sock conn"
  by (auto simp: handle_read_def Let_def bind_Some_iff split: if_splits)

lemma handle_write_sock: "handle_write nt conn w e = Some (c, conn', w', e') \<Longrightarrow> cn_sock conn' = cn_sock conn"
  by (auto simp: handle_write_def bind_Some_iff split: if_splits)

text \<open>Entries are handled from the last one down, so an entry that a removal moves has had its turn.\<close>

lemma handle_events_table:
  assumes t: "ps_table a s" and i: "unat i < unat (ps_len s)" and r: "handle_events os nt i s w e = Some (x, s', w', e')"
  shows "ps_table a s' \<and> unat i \<le> unat (ps_len s')"
proof -
  from r obtain p where p: "get_slot (ps_fds s) i = Some p" by (auto simp: handle_events_def bind_Some_iff)
  let ?ev = "pf_revents p"
  consider "?ev = 0" | "?ev \<noteq> 0" "i = 0" | "?ev \<noteq> 0" "i \<noteq> 0" "?ev AND (POLLERR OR POLLHUP) \<noteq> 0"
    | "?ev \<noteq> 0" "i \<noteq> 0" "?ev AND (POLLERR OR POLLHUP) = 0" by blast
  then show ?thesis
  proof cases
    case 1
    then show ?thesis using r p t i by (simp add: handle_events_def)
  next
    case 2
    then obtain c w1 e1 where "handle_accept os nt s w e = Some (c, s', w1, e1)"
      using r p by (auto simp: handle_events_def bind_Some_iff split: if_splits)
    then show ?thesis using handle_accept_table [OF t] 2 by simp
  next
    case 3
    then obtain c w1 e1 where "remove_client nt s i w e = Some (c, s', w1, e1)"
      using r p by (auto simp: handle_events_def bind_Some_iff split: if_splits)
    then show ?thesis using remove_client_table [OF t _ i] 3 by (simp add: unat_gt_0)
  next
    case 4
    then have pos: "0 < unat i" by (simp add: unat_gt_0)
    then obtain conn where conn: "ps_conns s ! unat i = Some conn" "get_slot (ps_conns s) i = Some (Some conn)"
      using ps_table_get [OF t pos i] by blast
    have kept: "ps_table a (s\<lparr>ps_conns := (ps_conns s)[unat i := Some conn']\<rparr>)" if "cn_sock conn' = cn_sock conn" for conn'
      using ps_table_conn [OF t conn(1) that pos i] .
    have removed: "ps_table a s' \<and> unat i \<le> unat (ps_len s')"
      if "remove_client nt (s\<lparr>ps_conns := (ps_conns s)[unat i := Some conn']\<rparr>) i w1 e1 = Some (c, s', w2, e2)" "cn_sock conn' = cn_sock conn"
      for conn' w1 e1 c w2 e2
      using remove_client_table [OF kept [OF that(2)] pos _ that(1)] i by simp
    show ?thesis
      using r p 4 conn(2) i t
      by (auto simp: handle_events_def Let_def bind_Some_iff slot_Some dest!: handle_read_sock handle_write_sock
          intro: kept less_imp_le dest: removed split: if_splits)
  qed
qed

lemma events_loop_table:
  "\<lbrakk>ps_table a s; n \<le> unat (ps_len s); events_loop os nt n s w e = Some (c, s', w', e')\<rbrakk> \<Longrightarrow> ps_table a s'"
proof (induction n arbitrary: s w e)
  case (Suc n)
  have u: "unat (u32_of n) = n" using Suc.prems(2) u32_less_bound [of "ps_len s"] by (intro unat_u32_of) linarith
  from Suc.prems(3) obtain x s1 w1 e1 where h: "handle_events os nt (u32_of n) s w e = Some (x, s1, w1, e1)"
    and k: "(case x of Some c \<Rightarrow> Some (c, s1, w1, e1) | None \<Rightarrow> events_loop os nt n s1 w1 e1) = Some (c, s', w', e')"
    by (auto simp: bind_Some_iff)
  have "unat (u32_of n) < unat (ps_len s)" using u Suc.prems(2) by simp
  from handle_events_table [OF Suc.prems(1) this h] have "ps_table a s1" "n \<le> unat (ps_len s1)" using u by simp_all
  then show ?case using k Suc.IH by (cases x) auto
qed auto

text \<open>What the table needs of the functions of a service: a call leaves the socket of its connection alone.\<close>

locale conn_service =
  fixes actions :: conn_actions
  assumes func_sock: "conn_func actions conn e = Some (conn', c, e') \<Longrightarrow> cn_sock conn' = cn_sock conn"
begin

lemma execute_conns_table:
  "\<lbrakk>ps_table actions s; 0 < unat i; execute_conns_loop i s e = Some (c, s', e')\<rbrakk> \<Longrightarrow> ps_table actions s'"
proof (induction "unat (ps_len s) - unat i" arbitrary: i s e rule: less_induct)
  case less
  show ?case
  proof (cases "i < ps_len s")
    case False
    then show ?thesis using less.prems by (simp add: execute_conns_loop.simps)
  next
    case True
    then have i: "unat i < unat (ps_len s)" by (simp add: word_less_nat_alt)
    obtain conn where conn: "ps_conns s ! unat i = Some conn" "get_slot (ps_conns s) i = Some (Some conn)"
      using ps_table_get [OF less.prems(1,2) i] by blast
    have "ps_actions s = actions" using less.prems(1) by (simp add: ps_table_def)
    with less.prems(3) True conn obtain conn' c1 e1 where f: "conn_func actions conn e = Some (conn', c1, e1)"
      by (subst (asm) execute_conns_loop.simps) (auto simp: bind_Some_iff)
    let ?s1 = "s\<lparr>ps_conns := (ps_conns s)[unat i := Some conn']\<rparr>"
    have t1: "ps_table actions ?s1" by (rule ps_table_conn [OF less.prems(1) conn(1) func_sock [OF f] less.prems(2) i])
    show ?thesis
    proof (cases "c1 = SUCCESS")
      case False
      then show ?thesis using less.prems(3) True conn f t1 \<open>ps_actions s = actions\<close>
        by (subst (asm) execute_conns_loop.simps) (auto simp: bind_Some_iff slot_Some)
    next
      case True
      let ?s2 = "?s1\<lparr>ps_fds := (ps_fds s)[unat i := (ps_fds s ! unat i)\<lparr>pf_events := conn_events conn'\<rparr>]\<rparr>"
      have t2: "ps_table actions ?s2"
        by (intro ps_table_fds [OF t1]) (use t1 i in \<open>auto simp: ps_table_def nth_list_update\<close>)
      have next_i: "unat (i + 1) = unat i + 1"
        using i u32_less_bound [of "ps_len s"] by (subst u32_add_nat) (unfold unsigned_1, linarith+)
      have "execute_conns_loop (i + 1) ?s2 e1 = Some (c, s', e')"
        using less.prems(3) \<open>i < ps_len s\<close> conn f True \<open>ps_actions s = actions\<close>
        by (subst (asm) execute_conns_loop.simps) (auto simp: bind_Some_iff slot_Some)
      moreover have "unat (ps_len ?s2) - unat (i + 1) < unat (ps_len s) - unat i" "0 < unat (i + 1)" using next_i i by simp_all
      ultimately show ?thesis using less.hyps [OF _ t2] by blast
    qed
  qed
qed

lemma execute_table:
  assumes law: "poll_law nt" and t: "ps_table actions s" and r: "pserv_execute os nt s w e = Some (ret, s', w', e')"
  shows "ps_table actions s'"
proof -
  from r obtain c s1 e1 where x: "execute_conns_loop 1 s e = Some (c, s1, e1)"
    by (auto simp: pserv_execute_def pserv_execute_conns_def bind_Some_iff)
  have t1: "ps_table actions s1" using execute_conns_table [OF t _ x] by simp
  show ?thesis
  proof (cases "c = SUCCESS")
    case False
    then show ?thesis using r x t1 by (auto simp: pserv_execute_def pserv_execute_conns_def bind_Some_iff)
  next
    case True
    with r x obtain n fds w1 e2 where p: "i_poll nt (ps_fds s1) (ps_len s1) 1000 w e1 = Some (n, fds, w1, e2)"
      by (auto simp: pserv_execute_def pserv_execute_conns_def bind_Some_iff)
    from i_poll_fds [OF law p] t1 have t2: "ps_table actions (s1\<lparr>ps_fds := fds\<rparr>)"
      by (intro ps_table_fds) (auto simp: ps_table_def)
    have "s' = s1\<lparr>ps_fds := fds\<rparr> \<or> (\<exists>c w e. events_loop os nt (unat (ps_len s1)) (s1\<lparr>ps_fds := fds\<rparr>) w1 e2 = Some (c, s', w, e))"
      using r x p True by (auto simp: pserv_execute_def pserv_execute_conns_def bind_Some_iff Let_def split: if_splits)
    then show ?thesis using t2 events_loop_table [OF t2, of "unat (ps_len s1)"] by auto
  qed
qed

end

text \<open>A server in use: opened with success, then rounds in any state of the network, of the memory and of the error object.\<close>

inductive pserv_reach :: "'w net \<Rightarrow> conn_actions \<Rightarrow> polling_server \<Rightarrow> bool" for nt :: "'w net" and actions :: conn_actions where
  reach_open: "pserv_open os nt ps port actions w e = Some (SUCCESS, ps', w', e') \<Longrightarrow> pserv_reach nt actions ps'"
| reach_execute: "\<lbrakk>pserv_reach nt actions ps; pserv_execute os nt ps w e = Some (ret, ps', w', e')\<rbrakk> \<Longrightarrow> pserv_reach nt actions ps'"

lemma io_cause_pending: "io_cause e msg = (c, e') \<Longrightarrow> error_trace e' \<noteq> Some SUCCESS"
  using failed_code [of e ERR_IO msg] by (cases "error_causef e ERR_IO msg") (auto simp: io_cause_def ERR_IO_def SUCCESS_def)

text \<open>What \<open>WRAP\<close> sees as a failure leaves a code behind.\<close>

definition leaves_code :: "int \<times> 'w \<times> errp \<Rightarrow> bool" where
  "leaves_code r \<longleftrightarrow> (case r of (c, w, e) \<Rightarrow> c < SUCCESS \<longrightarrow> error_trace e \<noteq> Some SUCCESS)"

lemma sock_call_pending: "leaves_code (sock_call nt msg r e)"
  by (auto simp: leaves_code_def sock_call_def dest: io_cause_pending split: sysret.splits prod.splits)

lemma sock_pending:
  "leaves_code (i_socket_set_reuseaddr nt fd w e)" "leaves_code (i_socket_bind nt fd port w e)" "leaves_code (i_socket_listen nt fd w e)"
  unfolding i_socket_set_reuseaddr_def i_socket_bind_def i_socket_listen_def by (rule sock_call_pending)+

lemma wrapped_Some:
  assumes "wrapped r s k = Some (SUCCESS, x)" and "leaves_code r"
  shows "\<exists>w e. k w e = Some (SUCCESS, x)"
  using assms by (cases r) (auto simp: wrapped_def leaves_code_def bind_Some_iff split: if_splits)

lemma pserv_open_table:
  assumes r: "pserv_open os nt ps port actions w e = Some (SUCCESS, ps', w', e')"
  shows "ps_table actions ps'"
proof -
  have nomem: "c \<noteq> SUCCESS" if "i_malloc os n sz e = Some (None, e1)" "error_trace e1 = Some c" for n sz e e1 c
    using that by (auto simp: i_malloc_def nomem_def bind_Some_iff ERR_NOMEM_def SUCCESS_def dest!: failed_code split: if_splits option.splits)
  from r obtain fds e1 where f: "i_malloc os 101 sizeof_pollfd e = Some (fds, e1)"
    by (auto simp: pserv_open_def Let_def bind_Some_iff)
  then obtain m1 where m1: "fds = Some m1" using r nomem [of 101 sizeof_pollfd e e1]
    by (cases fds) (auto simp: pserv_open_def Let_def bind_Some_iff)
  from r f m1 obtain conns e2 where g: "i_malloc os 101 sizeof_ptr e1 = Some (conns, e2)"
    by (auto simp: pserv_open_def Let_def bind_Some_iff)
  then obtain m2 where m2: "conns = Some m2" using r f m1 nomem [of 101 sizeof_ptr e1 e2]
    by (cases conns) (auto simp: pserv_open_def Let_def bind_Some_iff)
  obtain c fd w1 e3 where s: "i_socket_create nt w e2 = (c, fd, w1, e3)" by (metis prod.exhaust)
  have sp: "leaves_code (c, w1, e3)"
    using s by (auto simp: leaves_code_def i_socket_create_def dest: io_cause_pending split: sysret.splits prod.splits)
  let ?ps = "ps\<lparr>ps_actions := actions, ps_cap := 101, ps_fds := replicate 101 fresh_fd, ps_conns := replicate 101 None, ps_server := fd\<rparr>"
  let ?done = "\<lambda>w e. Some (SUCCESS, ?ps\<lparr>ps_fds := (ps_fds ?ps)[0 := \<lparr>pf_fd = fd, pf_events = POLLIN, pf_revents = 0\<rparr>],
    ps_len := 1, ps_running := 1\<rparr>, w, e)"
  have "wrapped (c, w1, e3) ?ps (\<lambda>w e. wrapped (i_socket_set_reuseaddr nt fd w e) ?ps (\<lambda>w e.
      wrapped (i_socket_bind nt fd port w e) ?ps (\<lambda>w e. wrapped (i_socket_listen nt fd w e) ?ps ?done))) = Some (SUCCESS, ps', w', e')"
    using r f m1 g m2 s by (simp add: pserv_open_def Let_def)
  from wrapped_Some [OF this sp] obtain w e where
    "wrapped (i_socket_set_reuseaddr nt fd w e) ?ps (\<lambda>w e.
      wrapped (i_socket_bind nt fd port w e) ?ps (\<lambda>w e. wrapped (i_socket_listen nt fd w e) ?ps ?done)) = Some (SUCCESS, ps', w', e')" by blast
  from wrapped_Some [OF this sock_pending(1)] obtain w e where
    "wrapped (i_socket_bind nt fd port w e) ?ps (\<lambda>w e. wrapped (i_socket_listen nt fd w e) ?ps ?done) = Some (SUCCESS, ps', w', e')" by blast
  from wrapped_Some [OF this sock_pending(2)] obtain w e where "wrapped (i_socket_listen nt fd w e) ?ps ?done = Some (SUCCESS, ps', w', e')" by blast
  from wrapped_Some [OF this sock_pending(3)] have "ps' = ?ps\<lparr>ps_fds := (ps_fds ?ps)[0 := \<lparr>pf_fd = fd, pf_events = POLLIN, pf_revents = 0\<rparr>],
    ps_len := 1, ps_running := 1\<rparr>" by blast
  then show ?thesis by (auto simp: ps_table_def)
qed

context conn_service
begin

lemma reach_table:
  assumes law: "poll_law nt" and "pserv_reach nt actions s"
  shows "ps_table actions s"
  using assms(2) by induction (auto intro: pserv_open_table execute_table [OF law])

end

section \<open>Clients that leave\<close>

text \<open>Both buffers are freed, and a null pointer is not accepted: the server does not survive a client without a buffer.\<close>

lemma remove_client_null_aborts:
  "\<lbrakk>get_slot (ps_conns s) i = Some (Some conn); rx_buf conn = None \<or> tx_buf conn = None\<rbrakk> \<Longrightarrow> remove_client nt s i w e = None"
  by (auto simp: remove_client_def i_free_def)

lemma close_loop_null_aborts:
  "\<lbrakk>i < ps_len ps; get_slot (ps_conns ps) i = Some (Some conn); rx_buf conn = None \<or> tx_buf conn = None\<rbrakk> \<Longrightarrow>
   close_loop nt i ps w e = None"
  by (subst close_loop.simps) (auto simp: i_free_def)

text \<open>With a code pending, as after a peer has closed, every read counts as failed, and its client is removed too.\<close>

lemma handle_read_pending:
  assumes p: "cause_code er \<noteq> SUCCESS" and r: "handle_read nt conn w (Some er) = Some (c, conn', w', e')"
  shows "c \<noteq> SUCCESS"
proof -
  have "io_cause (Some er) msg = (ERR_IO, Some er)" for msg using p by (simp add: io_cause_def)
  then show ?thesis using r p by (auto simp: handle_read_def i_socket_recv_def Let_def bind_Some_iff split: if_splits sysret.splits prod.splits)
qed

end
