(* ===== verification/Echo_server.thy ===== *)
theory Echo_server
  imports Polling_server Cstring
begin

unbundle bit_operations_syntax

text \<open>
  The echo service, \<^verbatim>\<open>net/echo_server.c\<close>: a request is a frame, its reply the frame of the message
  between the prefix and the suffix of the context.
\<close>

section \<open>The service\<close>

text \<open>The two are C strings.\<close>

record echo_context =
  ec_prefix :: "u8 list"
  ec_suffix :: "u8 list"

definition decode_prefix :: "u8 list \<Rightarrow> u32 option" where
  "decode_prefix p = do { val \<leftarrow> mem_load p 0 4; Some (i_ntohl (u32_of_bytes val)) }"

definition set_prefix :: "u8 list \<Rightarrow> u32 \<Rightarrow> u8 list option" where
  "set_prefix dest src = mem_store dest 0 (u32_bytes (i_htonl src))"

text \<open>The reply, in the order of the stores; \<open>head\<close> is the offset of the next one.\<close>

definition build_reply :: "echo_context \<Rightarrow> u8 list \<Rightarrow> u8 list \<Rightarrow> u32 \<Rightarrow> u32 \<Rightarrow> u32 \<Rightarrow> u32 \<Rightarrow> u8 list option" where
  "build_reply ctx tx rx plen mlen slen frame_len = do {
     tx \<leftarrow> set_prefix tx (mlen + plen + slen);
     let head = (4 :: u32);
     bs \<leftarrow> mem_load (ec_prefix ctx) 0 (unat plen);
     tx \<leftarrow> mem_store tx (unat head) bs;
     let head = head + plen;
     bs \<leftarrow> mem_load rx 4 (unat mlen);
     tx \<leftarrow> mem_store tx (unat head) bs;
     let head = head + mlen;
     bs \<leftarrow> mem_load (ec_suffix ctx) 0 (unat slen);
     tx \<leftarrow> mem_store tx (unat head) bs;
     ASSERT (head + slen = frame_len);
     Some tx
   }"

definition echo_reply :: "libc \<Rightarrow> echo_context \<Rightarrow> connection \<Rightarrow> errp \<Rightarrow> (connection \<times> err_t \<times> errp) option" where
  "echo_reply os ctx conn e = do {
     ASSERT (rx_len conn = rx_cap conn);
     rx \<leftarrow> rx_buf conn;
     plen \<leftarrow> map_option word_of_nat (c_strlen (ec_prefix ctx));
     slen \<leftarrow> map_option word_of_nat (c_strlen (ec_suffix ctx));
     mlen \<leftarrow> decode_prefix rx;
     let msg_len = mlen + plen + slen;
     let frame_len = msg_len + 4;
     (tx, e) \<leftarrow> i_malloc os frame_len 1 e;
     case tx of
       None \<Rightarrow> do { c \<leftarrow> error_trace e; Some (conn\<lparr>tx_buf := None\<rparr>, c, e) }
     | Some tx \<Rightarrow> do {
         tx \<leftarrow> build_reply ctx tx rx plen mlen slen frame_len;
         let conn = conn\<lparr>tx_buf := Some tx, tx_cap := frame_len, tx_sent := 0\<rparr>;
         (buf, e) \<leftarrow> i_realloc_right os (rx_buf conn) (frame_len - plen - slen) 4 1 e;
         case buf of
           None \<Rightarrow> do { c \<leftarrow> error_trace e; Some (conn, c, e) }
         | Some buf \<Rightarrow> Some (conn\<lparr>rx_buf := Some buf, rx_cap := 4, rx_len := 0\<rparr>, SUCCESS, e)
       }
   }"

definition echo_conn_func :: "libc \<Rightarrow> echo_context \<Rightarrow> connection \<Rightarrow> errp \<Rightarrow> (connection \<times> err_t \<times> errp) option" where
  "echo_conn_func os ctx conn e =
     (if rx_cap conn = 0 \<and> tx_cap conn = 0 then do {
        (buf, e) \<leftarrow> i_malloc os 4 1 e;
        case buf of
          None \<Rightarrow> do { c \<leftarrow> error_trace e; Some (conn\<lparr>rx_buf := None\<rparr>, c, e) }
        | Some buf \<Rightarrow> Some (conn\<lparr>rx_buf := Some buf, rx_cap := 4, rx_len := 0\<rparr>, SUCCESS, e)
      }
      else if tx_cap conn > 0 \<and> tx_sent conn = tx_cap conn then Some (conn\<lparr>tx_cap := 0, tx_sent := 0\<rparr>, SUCCESS, e)
      else if rx_len conn < rx_cap conn then Some (conn, SUCCESS, e)
      else if rx_cap conn = 4 then do {
        rx \<leftarrow> rx_buf conn;
        msg_len \<leftarrow> decode_prefix rx;
        if msg_len = 0 then Some (conn\<lparr>rx_len := 0\<rparr>, SUCCESS, e)
        else do {
          let tot = 4 + msg_len;
          (buf, e) \<leftarrow> i_realloc_right os (rx_buf conn) (rx_cap conn) tot 1 e;
          case buf of
            None \<Rightarrow> do { c \<leftarrow> error_trace e; Some (conn, c, e) }
          | Some buf \<Rightarrow> Some (conn\<lparr>rx_buf := Some buf, rx_cap := tot\<rparr>, SUCCESS, e)
        }
      }
      else echo_reply os ctx conn e)"

definition sizeof_connection :: u32 where "sizeof_connection = 40"

definition echo_conn_alloc :: "libc \<Rightarrow> errp \<Rightarrow> (connection option \<times> errp) option" where
  "echo_conn_alloc os e = do {
     (p, e) \<leftarrow> i_malloc os 1 sizeof_connection e;
     Some (map_option (\<lambda>_. conn_zero) p, e)
   }"

definition echo_conn_free :: "connection \<Rightarrow> unit option" where
  "echo_conn_free conn = i_free (Some conn)"

definition echo_actions :: "libc \<Rightarrow> echo_context \<Rightarrow> conn_actions" where
  "echo_actions os ctx = \<lparr>conn_alloc = echo_conn_alloc os, conn_func = echo_conn_func os ctx, conn_free = echo_conn_free\<rparr>"

section \<open>What a client sees\<close>

text \<open>The requests a stream of bytes holds completely, and the rest.\<close>

definition announced :: "u8 list \<Rightarrow> nat" where
  "announced bs = unat (u32_of_bytes (rev (take 4 bs)))"

function requests :: "u8 list \<Rightarrow> u8 list list \<times> u8 list" where
  "requests bs =
     (if length bs < 4 \<or> length bs < 4 + announced bs then ([], bs)
      else (case requests (drop (4 + announced bs) bs) of (ms, rest) \<Rightarrow> (take (announced bs) (drop 4 bs) # ms, rest)))"
  by pat_completeness auto

termination by (relation "measure length") auto

declare requests.simps [simp del]

text \<open>An empty message is not answered.\<close>

definition reply :: "echo_context \<Rightarrow> u8 list \<Rightarrow> u8 list" where
  "reply ctx m = (if m = [] then [] else frame (c_text (ec_prefix ctx) @ m @ c_text (ec_suffix ctx)))"

definition replies :: "echo_context \<Rightarrow> u8 list list \<Rightarrow> u8 list" where
  "replies ctx ms = concat (map (reply ctx) ms)"

lemma replies_simps [simp]:
  "replies ctx [] = []" "replies ctx (ms @ [m]) = replies ctx ms @ reply ctx m"
  by (simp_all add: replies_def)

lemma announced_frame: "\<lbrakk>length m < 4294967296\<rbrakk> \<Longrightarrow> announced (frame m @ rest) = length m"
  by (simp add: announced_def frame_def unat_of_nat)

lemma requests_short: "length bs < 4 \<or> length bs < 4 + announced bs \<Longrightarrow> requests bs = ([], bs)"
  by (simp add: requests.simps [of bs])

lemma requests_frame:
  assumes "length m < 4294967296"
  shows "requests (frame m @ rest) = (case requests rest of (ms, r) \<Rightarrow> (m # ms, r))"
proof -
  have a: "announced (frame m @ rest) = length m" using assms by (rule announced_frame)
  have "drop (4 + length m) (frame m @ rest) = rest" by simp
  moreover have "take (length m) (drop 4 (frame m @ rest)) = m" by (simp add: frame_def)
  ultimately show ?thesis by (subst requests.simps) (simp add: a)
qed

lemma requests_frames:
  assumes "\<forall>m\<in>set ms. length m < 4294967296"
  shows "requests (concat (map frame ms) @ rest) = (ms @ fst (requests rest), snd (requests rest))"
  using assms by (induction ms) (simp_all add: requests_frame split: prod.split)

section \<open>Building blocks\<close>

lemma refused_trace:
  assumes "cause_code er = SUCCESS"
  shows "error_trace (fst (error_causef (Some er) ERR_NOMEM msg)) = Some ERR_NOMEM"
proof -
  obtain er' where "fst (error_causef (Some er) ERR_NOMEM msg) = Some er'" "cause_code er' = ERR_NOMEM"
    using assms by (simp add: error_causef_fresh)
  then show ?thesis by (simp add: error_trace_cause ERR_NOMEM_def)
qed

lemma i_malloc_refused_code:
  assumes "i_malloc os n sz (Some er) = Some (None, e')" and "cause_code er = SUCCESS"
  shows "error_trace e' = Some ERR_NOMEM"
  using assms(1) refused_trace [OF assms(2)] by (auto simp: i_malloc_def nomem_def split: if_splits option.splits)

lemma i_realloc_right_refused_code:
  assumes "i_realloc_right os p old new sz (Some er) = Some (None, e')" and "cause_code er = SUCCESS"
  shows "error_trace e' = Some ERR_NOMEM"
  using assms(1) refused_trace [OF assms(2)]
  by (auto simp: i_realloc_right_def i_realloc_def nomem_def split: if_splits option.splits)

lemma c_strlen_text: "c_strlen cs = Some n \<Longrightarrow> n = length (c_text cs) \<and> take n cs = c_text cs"
  by (induction cs arbitrary: n) (auto split: if_splits)

lemma wire_length: "length bs = 4 \<Longrightarrow> rev (u32_bytes (u32_of_bytes (rev bs))) = bs"
  by simp

lemma frame_of_buffer:
  assumes "length b = 4 + announced b"
  shows "b = frame (drop 4 b)"
proof -
  have "length (take 4 b) = 4" using assms by simp
  from wire_length [OF this] have "rev (u32_bytes (u32_of_bytes (rev (take 4 b)))) = take 4 b" .
  moreover have "word_of_nat (length (drop 4 b)) = u32_of_bytes (rev (take 4 b))" using assms by (simp add: announced_def)
  ultimately have "frame (drop 4 b) = take 4 b @ drop 4 b" by (simp add: frame_def)
  then show ?thesis by simp
qed

lemma announced_less: "announced bs < 4294967296"
  by (simp add: announced_def)

lemma announced_cong: "take 4 as = take 4 bs \<Longrightarrow> announced as = announced bs"
  by (simp add: announced_def)

lemma decode_prefix_ok: "4 \<le> length b \<Longrightarrow> decode_prefix b = Some (word_of_nat (announced b))"
  by (simp add: decode_prefix_def announced_def i_ntohl_def min_absorb1)

text \<open>Where every store stays inside the buffer, no sum of lengths has wrapped, and the buffer is the frame.\<close>

lemma build_reply_ok:
  assumes r: "build_reply ctx tx rx plen mlen slen fl = Some t" and fl: "fl = mlen + plen + slen + 4" and len: "length tx = unat fl"
  shows "t = frame (take (unat plen) (ec_prefix ctx) @ take (unat mlen) (drop 4 rx) @ take (unat slen) (ec_suffix ctx)) \<and>
    length t = unat fl"
proof -
  let ?P = "take (unat plen) (ec_prefix ctx)" and ?M = "take (unat mlen) (drop 4 rx)" and ?S = "take (unat slen) (ec_suffix ctx)"
  let ?W = "u32_bytes (i_htonl (mlen + plen + slen))"
  from r obtain t1 t2 t3 where
    s1: "mem_store tx 0 ?W = Some t1" and
    p: "unat plen \<le> length (ec_prefix ctx)" and s2: "mem_store t1 4 ?P = Some t2" and
    m: "4 + unat mlen \<le> length rx" and s3: "mem_store t2 (unat (4 + plen)) ?M = Some t3" and
    s: "unat slen \<le> length (ec_suffix ctx)" and s4: "mem_store t3 (unat (4 + plen + mlen)) ?S = Some t"
    by (auto simp: build_reply_def set_prefix_def Let_def bind_Some_iff mem_load_Some split: if_splits)
  have l: "length ?W = 4" "length ?P = unat plen" "length ?M = unat mlen" "length ?S = unat slen" using p m s by simp_all
  have o1: "4 \<le> length tx" "t1 = overwrite tx 0 ?W" using s1 l(1) by (auto simp: mem_store_Some)
  then have l1: "length t1 = length tx" using l(1) by simp
  have o2: "4 + unat plen \<le> length tx" "t2 = overwrite t1 4 ?P" using s2 l(2) l1 by (auto simp: mem_store_Some)
  then have l2: "length t2 = length tx" using l(2) l1 by simp
  note bound = u32_less_bound [of fl]
  have "4 + unat plen < 4294967296" using o2(1) len bound by linarith
  then have h1: "unat (4 + plen) = 4 + unat plen" by (subst u32_add_nat) simp_all
  have o3: "4 + unat plen + unat mlen \<le> length tx" "t3 = overwrite t2 (4 + unat plen) ?M"
    using s3 l(3) l2 h1 by (auto simp: mem_store_Some)
  then have l3: "length t3 = length tx" using l(3) l2 by simp
  have "4 + unat plen + unat mlen < 4294967296" using o3(1) len bound by linarith
  then have h2: "unat (4 + plen + mlen) = 4 + unat plen + unat mlen" using h1 by (subst u32_add_nat) simp_all
  have o4: "4 + unat plen + unat mlen + unat slen \<le> length tx" "t = overwrite t3 (4 + unat plen + unat mlen) ?S"
    using s4 l(4) l3 h2 by (auto simp: mem_store_Some)
  have tot: "4 + unat plen + unat mlen + unat slen = length tx"
  proof -
    have "4 + unat plen + unat mlen + unat slen < 4294967296" using o4(1) len bound by linarith
    then have "unat (mlen + plen + slen + 4) = unat mlen + unat plen + unat slen + 4" by (simp add: u32_add_nat)
    then show ?thesis using fl len by simp
  qed
  have t2: "t2 = overwrite tx 0 (?W @ ?P)" using overwrite_overwrite [of 0 ?W ?P tx] o1(2) o2 l(1,2) by simp
  have t3: "t3 = overwrite tx 0 (?W @ ?P @ ?M)" using overwrite_overwrite [of 0 "?W @ ?P" ?M tx] t2 o3 l(1-3) by simp
  have "t = overwrite tx 0 (?W @ ?P @ ?M @ ?S)"
    using overwrite_overwrite [of 0 "?W @ ?P @ ?M" ?S tx] t3 o4 l by (simp add: add.assoc)
  then have t: "t = ?W @ ?P @ ?M @ ?S" using l tot by (simp add: overwrite_def)
  have "word_of_nat (length (?P @ ?M @ ?S)) = mlen + plen + slen" using l by (simp add: ac_simps)
  then have "frame (?P @ ?M @ ?S) = t" unfolding frame_def t by (simp only: htonl_bytes)
  then show ?thesis using t l tot len by simp
qed

section \<open>Runs of a connection\<close>

text \<open>
  A call that builds a reply while an earlier one is not out yet: the server frees nothing and
  points the output buffer at the new reply, so that the rest of the earlier one is lost.
\<close>

definition overwrites_reply :: "connection \<Rightarrow> bool" where
  "overwrites_reply conn \<longleftrightarrow> tx_sent conn < tx_cap conn \<and> rx_len conn = rx_cap conn \<and> rx_cap conn \<noteq> 4"

text \<open>
  The server calls the service, reads where it has asked for input and writes where it has output
  left, in any order; a step that fails ends the connection. The flag tells whether a reply has
  been overwritten so far.
\<close>

inductive echo_run ::
  "libc \<Rightarrow> 'w net \<Rightarrow> echo_context \<Rightarrow> error \<Rightarrow> connection \<times> 'w \<Rightarrow> bool \<Rightarrow> connection \<times> 'w \<Rightarrow> bool"
  for os :: libc and nt :: "'w net" and ctx :: echo_context and er :: error and start :: "connection \<times> 'w" where
  run_start: "echo_run os nt ctx er start False start"
| run_call: "\<lbrakk>echo_run os nt ctx er start lost (conn, w);
    echo_conn_func os ctx conn (Some er) = Some (conn', SUCCESS, Some er)\<rbrakk> \<Longrightarrow>
    echo_run os nt ctx er start (lost \<or> overwrites_reply conn) (conn', w)"
| run_read: "\<lbrakk>echo_run os nt ctx er start lost (conn, w); conn_events conn AND POLLIN \<noteq> 0;
    handle_read nt conn w (Some er) = Some (SUCCESS, conn', w', Some er)\<rbrakk> \<Longrightarrow> echo_run os nt ctx er start lost (conn', w')"
| run_write: "\<lbrakk>echo_run os nt ctx er start lost (conn, w); conn_events conn AND POLLOUT \<noteq> 0;
    handle_write nt conn w (Some er) = Some (SUCCESS, conn', w', Some er)\<rbrakk> \<Longrightarrow> echo_run os nt ctx er start lost (conn', w')"

text \<open>The runs as a function of the order of the calls, for examples.\<close>

datatype echo_move = Call | Read | Write

definition echo_drive ::
  "libc \<Rightarrow> 'w net \<Rightarrow> echo_context \<Rightarrow> error \<Rightarrow> echo_move \<Rightarrow> bool \<times> connection \<times> 'w \<Rightarrow> (bool \<times> connection \<times> 'w) option" where
  "echo_drive os nt ctx er m x = (case x of (lost, conn, w) \<Rightarrow> (case m of
     Call \<Rightarrow> do { (conn', c, e) \<leftarrow> echo_conn_func os ctx conn (Some er); ASSERT (c = SUCCESS \<and> e = Some er);
       Some (lost \<or> overwrites_reply conn, conn', w) }
   | Read \<Rightarrow> do { ASSERT (conn_events conn AND POLLIN \<noteq> 0);
       (c, conn', w', e) \<leftarrow> handle_read nt conn w (Some er); ASSERT (c = SUCCESS \<and> e = Some er); Some (lost, conn', w') }
   | Write \<Rightarrow> do { ASSERT (conn_events conn AND POLLOUT \<noteq> 0);
       (c, conn', w', e) \<leftarrow> handle_write nt conn w (Some er); ASSERT (c = SUCCESS \<and> e = Some er); Some (lost, conn', w') }))"

primrec echo_drives ::
  "libc \<Rightarrow> 'w net \<Rightarrow> echo_context \<Rightarrow> error \<Rightarrow> echo_move list \<Rightarrow> bool \<times> connection \<times> 'w \<Rightarrow> (bool \<times> connection \<times> 'w) option" where
  "echo_drives os nt ctx er [] x = Some x"
| "echo_drives os nt ctx er (m # ms) x = do { x \<leftarrow> echo_drive os nt ctx er m x; echo_drives os nt ctx er ms x }"

lemma echo_drive_run:
  assumes "echo_run os nt ctx er start lost x" and "echo_drive os nt ctx er m (lost, x) = Some (lost', y)"
  shows "echo_run os nt ctx er start lost' y"
proof (cases m)
  case Call
  then show ?thesis using assms by (auto simp: echo_drive_def bind_Some_iff split: if_splits prod.splits intro: run_call)
next
  case Read
  then show ?thesis using assms by (auto simp: echo_drive_def bind_Some_iff split: if_splits prod.splits intro: run_read)
next
  case Write
  then show ?thesis using assms by (auto simp: echo_drive_def bind_Some_iff split: if_splits prod.splits intro: run_write)
qed

lemma echo_drives_run:
  "\<lbrakk>echo_run os nt ctx er start lost x; echo_drives os nt ctx er ms (lost, x) = Some (lost', y)\<rbrakk> \<Longrightarrow>
   echo_run os nt ctx er start lost' y"
proof (induction ms arbitrary: lost x)
  case (Cons m ms)
  from Cons.prems(2) obtain l1 y1 where d: "echo_drive os nt ctx er m (lost, x) = Some (l1, y1)"
    "echo_drives os nt ctx er ms (l1, y1) = Some (lost', y)" by (auto simp: bind_Some_iff)
  show ?case by (rule Cons.IH [OF echo_drive_run [OF Cons.prems(1) d(1)] d(2)])
qed simp

section \<open>Where a connection stands\<close>

text \<open>Of the reply to each request, in their order, a part has gone out, perhaps nothing.\<close>

definition answered :: "echo_context \<Rightarrow> u8 list list \<Rightarrow> u8 list \<Rightarrow> bool" where
  "answered ctx ms S \<longleftrightarrow> (\<exists>ps. list_all2 (\<lambda>m p. prefix p (reply ctx m)) ms ps \<and> S = concat ps)"

lemma answered_Nil: "answered ctx [] []"
  by (simp add: answered_def)

lemma answered_append:
  assumes "answered ctx ms S" and "answered ctx ns T"
  shows "answered ctx (ms @ ns) (S @ T)"
proof -
  from assms obtain ps qs where "list_all2 (\<lambda>m p. prefix p (reply ctx m)) ms ps" "S = concat ps"
    "list_all2 (\<lambda>m p. prefix p (reply ctx m)) ns qs" "T = concat qs" by (auto simp: answered_def)
  then show ?thesis unfolding answered_def by (intro exI [of _ "ps @ qs"]) (simp add: list_all2_appendI)
qed

lemma answered_one: "prefix p (reply ctx m) \<Longrightarrow> answered ctx [m] p"
  unfolding answered_def by (intro exI [of _ "[p]"]) simp

lemma answered_none: "answered ctx ms []"
  unfolding answered_def by (intro exI [of _ "map (\<lambda>_. []) ms"]) (simp add: list_all2_conv_all_nth)

text \<open>The input side, with the bytes \<open>part\<close> of a request that is not taken up yet.\<close>

definition rx_prefix :: "connection \<Rightarrow> u8 list \<Rightarrow> bool" where
  "rx_prefix conn part \<longleftrightarrow> rx_cap conn = 4 \<and>
     (\<exists>b. rx_buf conn = Some b \<and> length b = 4 \<and> unat (rx_len conn) \<le> 4 \<and> part = take (unat (rx_len conn)) b)"

definition rx_body :: "connection \<Rightarrow> u8 list \<Rightarrow> bool" where
  "rx_body conn part \<longleftrightarrow>
     (\<exists>b. rx_buf conn = Some b \<and> length b = unat (rx_cap conn) \<and> unat (rx_cap conn) = 4 + announced b \<and> 0 < announced b \<and>
        4 \<le> unat (rx_len conn) \<and> unat (rx_len conn) \<le> unat (rx_cap conn) \<and> part = take (unat (rx_len conn)) b)"

text \<open>Nothing is possible any more after a length that wraps.\<close>

definition rx_stuck :: "connection \<Rightarrow> bool" where
  "rx_stuck conn \<longleftrightarrow> 0 < unat (rx_cap conn) \<and> unat (rx_cap conn) < 4 \<and> rx_len conn = 4"

text \<open>
  The output side, with the requests \<open>ms\<close> taken up and \<open>S\<close> sent: nothing is pending, or the
  reply \<open>t\<close>, of which the first bytes are out.
\<close>

definition tx_done :: "echo_context \<Rightarrow> connection \<Rightarrow> u8 list list \<Rightarrow> u8 list \<Rightarrow> bool \<Rightarrow> bool" where
  "tx_done ctx conn ms S lost \<longleftrightarrow> tx_cap conn = 0 \<and> answered ctx ms S \<and> (\<not> lost \<longrightarrow> S = replies ctx ms)"

definition tx_pending :: "echo_context \<Rightarrow> connection \<Rightarrow> u8 list list \<Rightarrow> u8 list \<Rightarrow> bool \<Rightarrow> bool" where
  "tx_pending ctx conn ms S lost \<longleftrightarrow> 0 < tx_cap conn \<and>
     (\<exists>S0 t. tx_buf conn = Some t \<and> length t = unat (tx_cap conn) \<and> unat (tx_sent conn) \<le> unat (tx_cap conn) \<and>
        S = S0 @ take (unat (tx_sent conn)) t \<and> (\<forall>j. answered ctx ms (S0 @ take j t)) \<and> (\<not> lost \<longrightarrow> S0 @ t = replies ctx ms))"

definition echo_phase :: "echo_context \<Rightarrow> connection \<Rightarrow> u8 list list \<Rightarrow> u8 list \<Rightarrow> u8 list \<Rightarrow> bool \<Rightarrow> bool" where
  "echo_phase ctx conn ms part S lost \<longleftrightarrow>
     rx_cap conn = 0 \<and> tx_cap conn = 0 \<and> ms = [] \<and> part = [] \<and> S = [] \<or>
     (rx_prefix conn part \<or> rx_body conn part \<or> rx_stuck conn) \<and> (tx_done ctx conn ms S lost \<or> tx_pending ctx conn ms S lost)"

lemmas rx_defs = rx_prefix_def rx_body_def rx_stuck_def
lemmas tx_defs = tx_done_def tx_pending_def

lemma tx_cong:
  assumes "tx_buf conn' = tx_buf conn" and "tx_cap conn' = tx_cap conn" and "tx_sent conn' = tx_sent conn"
  shows "tx_done ctx conn' = tx_done ctx conn" and "tx_pending ctx conn' = tx_pending ctx conn"
  using assms by (simp_all add: tx_defs fun_eq_iff)

lemma tx_answered: "tx_done ctx conn ms S lost \<or> tx_pending ctx conn ms S lost \<Longrightarrow> answered ctx ms S"
  by (auto simp: tx_defs)

text \<open>A request without a message changes nothing on the output side.\<close>

lemma answered_empty: "answered ctx ms S \<Longrightarrow> answered ctx (ms @ [[]]) S"
  using answered_append [of ctx ms S "[[]]" "[]"] answered_none by simp

lemma tx_empty:
  "tx_done ctx conn ms S lost \<Longrightarrow> tx_done ctx conn (ms @ [[]]) S lost"
  "tx_pending ctx conn ms S lost \<Longrightarrow> tx_pending ctx conn (ms @ [[]]) S lost"
proof -
  have r: "reply ctx [] = []" by (simp add: reply_def)
  show "tx_done ctx conn ms S lost \<Longrightarrow> tx_done ctx conn (ms @ [[]]) S lost"
    by (auto simp: tx_done_def r answered_empty)
  assume "tx_pending ctx conn ms S lost"
  then obtain S0 t where "0 < tx_cap conn" "tx_buf conn = Some t" "length t = unat (tx_cap conn)"
    "unat (tx_sent conn) \<le> unat (tx_cap conn)" "S = S0 @ take (unat (tx_sent conn)) t"
    "\<forall>j. answered ctx ms (S0 @ take j t)" "\<not> lost \<longrightarrow> S0 @ t = replies ctx ms" unfolding tx_pending_def by blast
  then show "tx_pending ctx conn (ms @ [[]]) S lost"
    unfolding tx_pending_def by (intro conjI exI [of _ S0] exI [of _ t]) (auto simp: r answered_empty)
qed

text \<open>A reply that is out is done with.\<close>

lemma tx_finished:
  assumes "tx_pending ctx conn ms S lost" and "tx_sent conn = tx_cap conn" and "tx_cap conn' = 0"
  shows "tx_done ctx conn' ms S lost"
proof -
  from assms(1) obtain S0 t where t: "length t = unat (tx_cap conn)" "S = S0 @ take (unat (tx_sent conn)) t"
    "\<forall>j. answered ctx ms (S0 @ take j t)" "\<not> lost \<longrightarrow> S0 @ t = replies ctx ms" unfolding tx_pending_def by blast
  moreover have "S = S0 @ t" using t(1,2) assms(2) by simp
  ultimately show ?thesis using assms(3) unfolding tx_done_def by metis
qed

text \<open>A new reply, over what may be left of an earlier one.\<close>

lemma tx_new_reply:
  assumes ph: "tx_done ctx conn ms S lost \<or> tx_pending ctx conn ms S lost"
    and l: "lost' = (lost \<or> tx_sent conn < tx_cap conn)"
    and open_reply: "\<not> (0 < tx_cap conn \<and> tx_sent conn = tx_cap conn)"
    and c: "tx_buf conn' = Some t" "tx_cap conn' = u32_of (length t)" "tx_sent conn' = 0"
    and t: "t = reply ctx m" "length t < 4294967296" "0 < length t"
  shows "tx_pending ctx conn' (ms @ [m]) S lost'"
proof -
  have a: "answered ctx ms S" using ph by (rule tx_answered)
  have "answered ctx (ms @ [m]) (S @ take j t)" for j
    by (rule answered_append [OF a answered_one]) (simp add: t(1) take_is_prefix)
  moreover have "\<not> lost' \<longrightarrow> S @ t = replies ctx (ms @ [m])"
  proof
    assume "\<not> lost'"
    then have n: "\<not> lost" "\<not> tx_sent conn < tx_cap conn" using l by simp_all
    have "\<not> tx_pending ctx conn ms S lost"
    proof
      assume "tx_pending ctx conn ms S lost"
      then have "0 < tx_cap conn" "tx_sent conn \<le> tx_cap conn" by (auto simp: tx_pending_def word_le_nat_alt)
      then show False using n(2) open_reply by auto
    qed
    then have "S = replies ctx ms" using ph n(1) by (simp add: tx_done_def)
    then show "S @ t = replies ctx (ms @ [m])" by (simp add: t(1))
  qed
  moreover have "unat (tx_cap conn') = length t" using c(2) t(2) by simp
  ultimately show ?thesis unfolding tx_pending_def using c(1,3) t(3)
    by (intro conjI exI [of _ S] exI [of _ t]) (auto simp: word_less_nat_alt)
qed

definition ctx_ok :: "echo_context \<Rightarrow> bool" where
  "ctx_ok ctx \<longleftrightarrow> length (ec_prefix ctx) < 4294967296 \<and> length (ec_suffix ctx) < 4294967296"

text \<open>A call in the course of a run: what has come in is taken apart differently, but is the same.\<close>

definition calls_to :: "echo_context \<Rightarrow> u8 list list \<Rightarrow> u8 list \<Rightarrow> u8 list \<Rightarrow> bool \<Rightarrow> connection \<Rightarrow> bool" where
  "calls_to ctx ms part S lost conn' \<longleftrightarrow>
     (\<exists>ms' part'. echo_phase ctx conn' ms' part' S lost \<and> concat (map frame ms') @ part' = concat (map frame ms) @ part \<and>
        ((\<forall>m\<in>set ms. length m < 4294967296) \<longrightarrow> (\<forall>m\<in>set ms'. length m < 4294967296)))"

lemma calls_to_same: "echo_phase ctx conn' ms part S lost \<Longrightarrow> calls_to ctx ms part S lost conn'"
  unfolding calls_to_def by blast

definition tx_open :: "echo_context \<Rightarrow> connection \<Rightarrow> u8 list list \<Rightarrow> u8 list \<Rightarrow> bool \<Rightarrow> bool" where
  "tx_open ctx conn ms S lost \<longleftrightarrow> (tx_done ctx conn ms S lost \<or> tx_pending ctx conn ms S lost) \<and>
     \<not> (0 < tx_cap conn \<and> tx_sent conn = tx_cap conn)"

lemma call_new:
  assumes os: "libc_ok os" and fresh: "cause_code er = SUCCESS" and z: "rx_cap conn = 0" "tx_cap conn = 0"
    and r: "echo_conn_func os ctx conn (Some er) = Some (conn', SUCCESS, Some er)"
  shows "calls_to ctx [] [] [] lost conn'"
proof -
  from r z obtain p e where m: "i_malloc os 4 1 (Some er) = Some (p, e)"
    by (auto simp: echo_conn_func_def bind_Some_iff)
  show ?thesis
  proof (cases p)
    case None
    then show ?thesis using m r z i_malloc_refused_code [of os 4 1 er e] fresh
      by (simp add: echo_conn_func_def ERR_NOMEM_def SUCCESS_def)
  next
    case (Some buf)
    then have "length buf = 4" using i_malloc_ok [OF os] m by fastforce
    then have "rx_prefix conn' []" "tx_done ctx conn' [] [] lost"
      using r z m Some by (auto simp: echo_conn_func_def rx_prefix_def tx_done_def answered_Nil)
    then show ?thesis by (intro calls_to_same) (simp add: echo_phase_def)
  qed
qed

lemma call_prefix:
  assumes os: "libc_ok os" and fresh: "cause_code er = SUCCESS" and rx: "rx_prefix conn part" and tx: "tx_open ctx conn ms S lost"
    and r: "echo_conn_func os ctx conn (Some er) = Some (conn', SUCCESS, Some er)"
  shows "calls_to ctx ms part S lost conn'"
proof -
  from rx obtain b where b: "rx_cap conn = 4" "rx_buf conn = Some b" "length b = 4"
    "unat (rx_len conn) \<le> 4" "part = take (unat (rx_len conn)) b" by (auto simp: rx_prefix_def)
  have op: "\<not> (0 < tx_cap conn \<and> tx_sent conn = tx_cap conn)" and ph: "tx_done ctx conn ms S lost \<or> tx_pending ctx conn ms S lost"
    using tx by (simp_all add: tx_open_def)
  show ?thesis
  proof (cases "rx_len conn < rx_cap conn")
    case True
    then have "conn' = conn" using r b(1) op by (auto simp: echo_conn_func_def)
    then show ?thesis using rx ph by (intro calls_to_same) (simp add: echo_phase_def)
  next
    case False
    then have l: "unat (rx_len conn) = 4" using b(1,4) by (simp add: word_less_nat_alt)
    then have part: "part = b" using b(3,5) by simp
    let ?n = "word_of_nat (announced b) :: u32"
    have un: "unat ?n = announced b" using announced_less [of b] by (simp add: unat_of_nat)
    have dec: "decode_prefix b = Some ?n" by (rule decode_prefix_ok) (simp add: b(3))
    have run: "echo_conn_func os ctx conn (Some er) =
      (if ?n = 0 then Some (conn\<lparr>rx_len := 0\<rparr>, SUCCESS, Some er)
       else do {
          (buf, e) \<leftarrow> i_realloc_right os (Some b) 4 (4 + ?n) 1 (Some er);
          case buf of
            None \<Rightarrow> do { c \<leftarrow> error_trace e; Some (conn, c, e) }
          | Some buf \<Rightarrow> Some (conn\<lparr>rx_buf := Some buf, rx_cap := 4 + ?n\<rparr>, SUCCESS, e)
       })"
      using op False b(1,2) dec unfolding echo_conn_func_def by (auto simp: Let_def)
    show ?thesis
    proof (cases "?n = 0")
      case True
      then have "announced b = 0" using un by simp
      then have "frame (drop 4 b) = b" using frame_of_buffer [of b] b(3) by simp
      then have "frame [] = b" using b(3) by simp
      moreover have c': "conn' = conn\<lparr>rx_len := 0\<rparr>" using r run True by simp
      then have "rx_prefix conn' []" using b by (simp add: rx_prefix_def)
      moreover have "tx_done ctx conn' (ms @ [[]]) S lost \<or> tx_pending ctx conn' (ms @ [[]]) S lost"
        using ph tx_empty [of ctx conn ms S lost] by (auto simp: c' tx_cong [of "conn\<lparr>rx_len := 0\<rparr>" conn])
      ultimately show ?thesis unfolding calls_to_def part
        by (intro exI [of _ "ms @ [[]]"] exI [of _ "[]"]) (simp add: echo_phase_def)
    next
      case nz: False
      let ?t = "4 + ?n"
      from r run nz obtain p e where m: "i_realloc_right os (Some b) 4 ?t 1 (Some er) = Some (p, e)"
        by (auto simp: bind_Some_iff)
      show ?thesis
      proof (cases p)
        case None
        then show ?thesis using m r run nz i_realloc_right_refused_code [of os "Some b" 4 ?t 1 er e] fresh
          by (simp add: ERR_NOMEM_def SUCCESS_def)
      next
        case (Some buf)
        then have c': "conn' = conn\<lparr>rx_buf := Some buf, rx_cap := ?t\<rparr>"
          using m r run nz by simp
        have tx': "tx_done ctx conn' ms S lost \<or> tx_pending ctx conn' ms S lost"
          using ph by (simp add: c' tx_cong [of "conn\<lparr>rx_buf := Some buf, rx_cap := ?t\<rparr>" conn])
        have "0 < ?t" using m by (auto simp: i_realloc_right_def split: if_splits)
        note re = i_realloc_right_ok [OF os m [unfolded Some]]
        show ?thesis
        proof (cases "4 + announced b < 4294967296")
          case True
          then have ut: "unat ?t = 4 + announced b" using un by simp
          have "take 4 buf = take 4 b" using re b(3) ut by simp
          then have t4: "take 4 buf = b" using b(3) by simp
          then have "announced buf = announced b" by (metis announced_cong b(3) take_all order_refl)
          moreover have "0 < announced b" using nz un by (metis gr0I unat_0 unsigned_word_eqI)
          ultimately have "rx_body conn' part"
            using c' re ut l t4 part by (simp add: rx_body_def)
          then show ?thesis using tx' by (intro calls_to_same) (simp add: echo_phase_def)
        next
          case False
          then have "unat ?t < 4" using un announced_less [of b] by (simp add: u32_add_wraps le_mod_geq)
          then have "rx_stuck conn'"
            using c' l \<open>0 < ?t\<close> by (simp add: rx_stuck_def word_less_nat_alt word_unat_eq_iff)
          then show ?thesis using tx' by (intro calls_to_same) (simp add: echo_phase_def)
        qed
      qed
    qed
  qed
qed

text \<open>The call after the last byte of a reply.\<close>

lemma call_reply:
  assumes rx: "rx_prefix conn part \<or> rx_body conn part \<or> rx_stuck conn" and ph: "tx_pending ctx conn ms S lost"
    and fin: "tx_sent conn = tx_cap conn"
    and r: "echo_conn_func os ctx conn (Some er) = Some (conn', SUCCESS, Some er)"
  shows "calls_to ctx ms part S lost conn'"
proof -
  have "0 < tx_cap conn" using ph by (simp add: tx_pending_def)
  moreover from this have "tx_cap conn \<noteq> 0" by auto
  ultimately have "conn' = conn\<lparr>tx_cap := 0, tx_sent := 0\<rparr>" using r fin by (simp add: echo_conn_func_def)
  then have "rx_prefix conn' part \<or> rx_body conn' part \<or> rx_stuck conn'" "tx_done ctx conn' ms S lost"
    using rx tx_finished [OF ph fin] by (simp_all add: rx_defs)
  then show ?thesis by (intro calls_to_same) (simp add: echo_phase_def)
qed

lemma echo_reply_ok:
  assumes os: "libc_ok os" and fresh: "cause_code er = SUCCESS" and ctx: "ctx_ok ctx"
    and b: "rx_buf conn = Some b" "length b = 4 + announced b" "0 < announced b"
    and r: "echo_reply os ctx conn (Some er) = Some (conn', SUCCESS, Some er)"
  shows "\<exists>buf t. conn' = conn\<lparr>rx_buf := Some buf, rx_cap := 4, rx_len := 0, tx_buf := Some t, tx_cap := u32_of (length t), tx_sent := 0\<rparr> \<and>
    length buf = 4 \<and> t = reply ctx (drop 4 b) \<and> length t < 4294967296 \<and> 0 < length t"
proof -
  let ?n = "word_of_nat (announced b) :: u32"
  have un: "unat ?n = announced b" using announced_less [of b] by (simp add: unat_of_nat)
  have dec: "decode_prefix b = Some ?n" by (rule decode_prefix_ok) (simp add: b(2))
  from r b(1) obtain pl sl where s: "c_strlen (ec_prefix ctx) = Some pl" "c_strlen (ec_suffix ctx) = Some sl"
    by (cases "c_strlen (ec_prefix ctx)"; cases "c_strlen (ec_suffix ctx)") (simp_all add: echo_reply_def split: if_splits)
  let ?P = "word_of_nat pl :: u32" and ?S = "word_of_nat sl :: u32"
  note ctext = c_strlen_text [OF s(1)] c_strlen_text [OF s(2)]
  have "pl \<le> length (ec_prefix ctx)" "sl \<le> length (ec_suffix ctx)" using ctext by (simp_all add: length_takeWhile_le)
  then have up: "unat ?P = pl" "unat ?S = sl" using ctx by (simp_all add: ctx_ok_def unat_of_nat)
  let ?f = "?n + ?P + ?S + 4"
  from r b(1) s dec obtain q e where m: "i_malloc os ?f 1 (Some er) = Some (q, e)"
    by (auto simp: echo_reply_def Let_def bind_Some_iff split: if_splits)
  obtain tx where q: "q = Some tx" "e = Some er" "length tx = unat ?f"
  proof (cases q)
    case None
    then show ?thesis using m r b(1) s dec i_malloc_refused_code [of os ?f 1 er e] fresh
      by (simp add: echo_reply_def Let_def ERR_NOMEM_def SUCCESS_def split: if_splits)
  next
    case (Some tx)
    then show ?thesis using i_malloc_ok [OF os, of ?f 1 "Some er" tx e] m that by simp
  qed
  from r b(1) s dec m q obtain t p e' where bt: "build_reply ctx tx b ?P ?n ?S ?f = Some t"
    and re: "i_realloc_right os (Some b) (?f - ?P - ?S) 4 1 (Some er) = Some (p, e')"
    by (auto simp: echo_reply_def Let_def bind_Some_iff split: if_splits)
  obtain buf where p: "p = Some buf" "length buf = 4"
  proof (cases p)
    case None
    then show ?thesis using re bt m q r b(1) s dec i_realloc_right_refused_code [of os "Some b" "?f - ?P - ?S" 4 1 er e'] fresh
      by (simp add: echo_reply_def Let_def ERR_NOMEM_def SUCCESS_def split: if_splits)
  next
    case (Some buf)
    then show ?thesis using i_realloc_right_ok [OF os, of "Some b" _ 4 1 "Some er" buf e'] re that by simp
  qed
  have "take (unat ?P) (ec_prefix ctx) = c_text (ec_prefix ctx)" "take (unat ?S) (ec_suffix ctx) = c_text (ec_suffix ctx)"
    "take (unat ?n) (drop 4 b) = drop 4 b" unfolding up un using ctext b(2) by auto
  from build_reply_ok [OF bt refl q(3), unfolded this]
  have t: "t = frame (c_text (ec_prefix ctx) @ drop 4 b @ c_text (ec_suffix ctx))" "length t = unat ?f" by blast+
  have "drop 4 b \<noteq> []" using b(2,3) by simp
  then have "t = reply ctx (drop 4 b)" using t(1) by (simp add: reply_def)
  moreover have "u32_of (length t) = ?f" by (simp add: t(2))
  moreover have "0 < length t" using t(1) by simp
  moreover have "length t < 4294967296" by (simp add: t(2))
  moreover have "conn' = conn\<lparr>rx_buf := Some buf, rx_cap := 4, rx_len := 0, tx_buf := Some t, tx_cap := ?f, tx_sent := 0\<rparr>"
    using r b(1) s dec m q bt re p by (auto simp: echo_reply_def Let_def split: if_splits)
  ultimately show ?thesis using p(2) by metis
qed

lemma call_body:
  assumes os: "libc_ok os" and fresh: "cause_code er = SUCCESS" and ctx: "ctx_ok ctx" and rx: "rx_body conn part" and tx: "tx_open ctx conn ms S lost"
    and r: "echo_conn_func os ctx conn (Some er) = Some (conn', SUCCESS, Some er)"
  shows "calls_to ctx ms part S (lost \<or> overwrites_reply conn) conn'"
proof -
  from rx obtain b where b: "rx_buf conn = Some b" "length b = unat (rx_cap conn)"
    "unat (rx_cap conn) = 4 + announced b" "0 < announced b" "unat (rx_len conn) \<le> unat (rx_cap conn)" "part = take (unat (rx_len conn)) b"
    by (auto simp: rx_body_def)
  have op: "\<not> (0 < tx_cap conn \<and> tx_sent conn = tx_cap conn)" and ph: "tx_done ctx conn ms S lost \<or> tx_pending ctx conn ms S lost"
    using tx by (simp_all add: tx_open_def)
  have cap: "rx_cap conn \<noteq> 0" "rx_cap conn \<noteq> 4" using b(3,4) by (auto simp: word_unat_eq_iff)
  show ?thesis
  proof (cases "rx_len conn < rx_cap conn")
    case True
    then have "conn' = conn" using r op cap by (auto simp: echo_conn_func_def)
    moreover have "\<not> overwrites_reply conn" using True by (auto simp: overwrites_reply_def)
    ultimately show ?thesis using rx ph by (intro calls_to_same) (simp add: echo_phase_def)
  next
    case False
    then have part: "part = b" and full: "rx_len conn = rx_cap conn" using b(2,5,6) by (auto simp: word_less_nat_alt word_unat_eq_iff)
    have lb: "length b = 4 + announced b" using b(2,3) by simp
    have "echo_reply os ctx conn (Some er) = Some (conn', SUCCESS, Some er)"
      using r False op cap by (auto simp: echo_conn_func_def)
    from echo_reply_ok [OF os fresh ctx b(1) lb b(4) this] obtain buf t where
      c: "conn' = conn\<lparr>rx_buf := Some buf, rx_cap := 4, rx_len := 0, tx_buf := Some t, tx_cap := u32_of (length t), tx_sent := 0\<rparr>"
        "length buf = 4" "t = reply ctx (drop 4 b)" "length t < 4294967296" "0 < length t" by blast
    have "(lost \<or> overwrites_reply conn) = (lost \<or> tx_sent conn < tx_cap conn)"
      using full cap by (simp add: overwrites_reply_def)
    from tx_new_reply [OF ph this op _ _ _ c(3-5), of conn'] have
      "tx_pending ctx conn' (ms @ [drop 4 b]) S (lost \<or> overwrites_reply conn)" using c(1) by simp
    moreover have "rx_prefix conn' []" using c(1,2) by (simp add: rx_prefix_def)
    moreover have "frame (drop 4 b) = b" using frame_of_buffer [OF lb] by simp
    moreover have "length (drop 4 b) < 4294967296" using lb announced_less [of b] by simp
    ultimately show ?thesis unfolding calls_to_def part
      by (intro exI [of _ "ms @ [drop 4 b]"] exI [of _ "[]"]) (simp add: echo_phase_def)
  qed
qed

text \<open>An announced length that wraps leaves a buffer shorter than the prefix, and the next call aborts the server.\<close>

lemma stuck_aborts:
  assumes "rx_stuck conn" and "\<not> (0 < tx_cap conn \<and> tx_sent conn = tx_cap conn)"
  shows "echo_conn_func os ctx conn e = None"
proof -
  have "rx_cap conn \<noteq> 0" "rx_cap conn \<noteq> 4" "\<not> rx_len conn < rx_cap conn" "rx_len conn \<noteq> rx_cap conn"
    using assms(1) by (auto simp: rx_stuck_def word_unat_eq_iff word_less_nat_alt)
  then show ?thesis using assms(2) by (auto simp: echo_conn_func_def echo_reply_def)
qed

lemma call_phase:
  assumes "libc_ok os" and "cause_code er = SUCCESS" and "ctx_ok ctx" and ph: "echo_phase ctx conn ms part S lost"
    and r: "echo_conn_func os ctx conn (Some er) = Some (conn', SUCCESS, Some er)"
  shows "calls_to ctx ms part S (lost \<or> overwrites_reply conn) conn'"
proof -
  consider (new) "rx_cap conn = 0" "tx_cap conn = 0" "ms = []" "part = []" "S = []"
    | (fin) "rx_prefix conn part \<or> rx_body conn part \<or> rx_stuck conn" "tx_pending ctx conn ms S lost" "tx_sent conn = tx_cap conn"
    | (go) "rx_prefix conn part \<or> rx_body conn part \<or> rx_stuck conn" "tx_open ctx conn ms S lost"
    using ph unfolding echo_phase_def tx_open_def by (auto simp: tx_done_def)
  then show ?thesis
  proof cases
    case new
    then show ?thesis using call_new [OF assms(1,2) _ _ r] by simp
  next
    case fin
    then have "\<not> overwrites_reply conn" by (simp add: overwrites_reply_def)
    then show ?thesis using call_reply [OF fin r] by simp
  next
    case go
    have "\<not> rx_stuck conn" using r stuck_aborts [of conn os ctx "Some er"] go(2) by (auto simp: tx_open_def)
    moreover have "rx_prefix conn part \<Longrightarrow> \<not> overwrites_reply conn" by (simp add: rx_prefix_def overwrites_reply_def)
    ultimately show ?thesis
      using go call_prefix [OF assms(1,2) _ go(2) r] call_body [OF assms(1-3) _ go(2) r] by auto
  qed
qed

section \<open>Input and output\<close>

lemma handle_read_ok:
  assumes law: "net_law nt incoming sent" and fresh: "cause_code er = SUCCESS"
    and b: "rx_buf conn = Some b" "length b = unat (rx_cap conn)"
    and r: "handle_read nt conn w (Some er) = Some (SUCCESS, conn', w', Some er)"
  shows "\<exists>bs. sent w' = sent w \<and> incoming w = (incoming w')(cn_sock conn := bs @ incoming w' (cn_sock conn)) \<and>
    unat (rx_len conn) + length bs \<le> unat (rx_cap conn) \<and> rx_len conn < rx_cap conn \<and>
    conn' = conn\<lparr>rx_buf := Some (overwrite b (unat (rx_len conn)) bs), rx_len := rx_len conn + u32_of (length bs)\<rparr>"
proof -
  let ?s = "cn_sock conn" and ?off = "unat (rx_len conn)" and ?n = "rx_cap conn - rx_len conn"
  have lt: "rx_len conn < rx_cap conn" using r by (auto simp: handle_read_def split: if_splits)
  then have left: "unat ?n = unat (rx_cap conn) - ?off" "?off < unat (rx_cap conn)" by (simp_all add: word_less_nat_alt)
  then have "?off + unat ?n \<le> length b" using b(2) by simp
  from i_socket_recv_ok [OF law fresh this, of ?s w] obtain n buf w1 er1 bs where
    rc: "i_socket_recv nt ?s b ?off ?n w (Some er) = Some (n, buf, w1, Some er1)"
    and io: "sent w1 = sent w" "incoming w = (incoming w1)(?s := bs @ incoming w1 ?s)" "buf = overwrite b ?off bs" "length bs \<le> unat ?n"
    and c: "n = ERR_IO \<and> cause_code er1 = ERR_IO \<and> bs = [] \<or> n = int (length bs) \<and> er1 = er \<and> (bs = [] \<and> 0 < unat ?n \<longrightarrow> incoming w ?s = [])"
    by blast
  obtain er2 where closed: "fst (error_causef (Some er) ERR_IO ''recv: peer closed connection'') = Some er2" "cause_code er2 = ERR_IO"
    using fresh by (simp add: error_causef_fresh)
  have n: "n = int (length bs)" "er1 = er" "bs \<noteq> []"
  proof -
    have "n \<noteq> ERR_IO" using r rc b(1) lt c by (auto simp: handle_read_def error_trace_cause ERR_IO_def SUCCESS_def)
    then show n: "n = int (length bs)" "er1 = er" using c by blast+
    show "bs \<noteq> []" using r rc b(1) lt n closed by (auto simp: handle_read_def error_trace_cause ERR_IO_def SUCCESS_def)
  qed
  have "w' = w1" "conn' = conn\<lparr>rx_buf := Some buf, rx_len := rx_len conn + u32_of (length bs)\<rparr>"
    using r rc b(1) lt n by (auto simp: handle_read_def Let_def bind_Some_iff u32_of_def)
  then show ?thesis using io lt left by auto
qed

lemma handle_write_ok:
  assumes law: "net_law nt incoming sent" and fresh: "cause_code er = SUCCESS"
    and b: "tx_buf conn = Some b" "length b = unat (tx_cap conn)"
    and r: "handle_write nt conn w (Some er) = Some (SUCCESS, conn', w', Some er)"
  shows "\<exists>k. incoming w' = incoming w \<and> sent w' = (sent w)(cn_sock conn := sent w (cn_sock conn) @ take k (drop (unat (tx_sent conn)) b)) \<and>
    unat (tx_sent conn) + k \<le> unat (tx_cap conn) \<and> conn' = conn\<lparr>tx_sent := tx_sent conn + u32_of k\<rparr>"
proof -
  let ?s = "cn_sock conn" and ?off = "unat (tx_sent conn)" and ?n = "tx_cap conn - tx_sent conn"
  have lt: "tx_sent conn < tx_cap conn" using r by (auto simp: handle_write_def split: if_splits)
  then have left: "unat ?n = unat (tx_cap conn) - ?off" "?off < unat (tx_cap conn)" by (simp_all add: word_less_nat_alt)
  then have "?off + unat ?n \<le> length b" using b(2) by simp
  from i_socket_send_ok [OF law fresh this, of ?s w] obtain n w1 er1 k where
    rc: "i_socket_send nt ?s b ?off ?n w (Some er) = Some (n, w1, Some er1)"
    and io: "incoming w1 = incoming w" "sent w1 = (sent w)(?s := sent w ?s @ take k (drop ?off b))" "k \<le> unat ?n"
    and c: "n = ERR_IO \<and> cause_code er1 = ERR_IO \<and> k = 0 \<or> n = int k \<and> er1 = er \<and> (0 < unat ?n \<longrightarrow> 0 < k)"
    by (elim exE conjE)
  have "er1 = er" using r rc b(1) lt by (auto simp: handle_write_def split: if_splits)
  then have n: "n = int k" "0 < k" using c fresh left by (auto simp: ERR_IO_def SUCCESS_def)
  have "w' = w1" "conn' = conn\<lparr>tx_sent := tx_sent conn + u32_of k\<rparr>"
    using r rc b(1) lt n by (auto simp: handle_write_def u32_of_def)
  then show ?thesis using io left by auto
qed

text \<open>What a read appends to, and what it keeps of the announced length.\<close>

lemma overwrite_grows:
  "\<lbrakk>off + length bs \<le> length m\<rbrakk> \<Longrightarrow> take (off + length bs) (overwrite m off bs) = take off m @ bs"
  by (rule take_overwrite_full)

lemma unat_grows: "unat x + n \<le> unat (y :: u32) \<Longrightarrow> unat (x + u32_of n) = unat x + n"
proof -
  assume a: "unat x + n \<le> unat y"
  then have "n < 4294967296" using u32_less_bound [of y] by linarith
  then have "unat (u32_of n) = n" by (simp add: unat_of_nat)
  then show ?thesis using a u32_less_bound [of y] by (subst u32_add_nat) linarith+
qed

lemma read_phase:
  assumes law: "net_law nt incoming sent" and fresh: "cause_code er = SUCCESS" and ph: "echo_phase ctx conn ms part S lost"
    and r: "handle_read nt conn w (Some er) = Some (SUCCESS, conn', w', Some er)"
  shows "\<exists>bs. echo_phase ctx conn' ms (part @ bs) S lost \<and> sent w' = sent w \<and> cn_sock conn' = cn_sock conn \<and>
    incoming w = (incoming w')(cn_sock conn := bs @ incoming w' (cn_sock conn))"
proof -
  have lt: "rx_len conn < rx_cap conn" using r by (auto simp: handle_read_def split: if_splits)
  then have rx: "rx_prefix conn part \<or> rx_body conn part" and tx: "tx_done ctx conn ms S lost \<or> tx_pending ctx conn ms S lost"
    using ph by (auto simp: echo_phase_def rx_stuck_def word_less_nat_alt)
  then obtain b where b: "rx_buf conn = Some b" "length b = unat (rx_cap conn)" "part = take (unat (rx_len conn)) b"
    by (auto simp: rx_prefix_def rx_body_def)
  from handle_read_ok [OF law fresh b(1,2) r] obtain bs where
    bs: "sent w' = sent w" "incoming w = (incoming w')(cn_sock conn := bs @ incoming w' (cn_sock conn))"
      "unat (rx_len conn) + length bs \<le> unat (rx_cap conn)"
      "conn' = conn\<lparr>rx_buf := Some (overwrite b (unat (rx_len conn)) bs), rx_len := rx_len conn + u32_of (length bs)\<rparr>" by blast
  let ?b = "overwrite b (unat (rx_len conn)) bs"
  have u: "unat (rx_len conn') = unat (rx_len conn) + length bs" using unat_grows [OF bs(3)] bs(4) by simp
  have g: "take (unat (rx_len conn')) ?b = part @ bs" unfolding u b(3) using bs(3) b(2) by (intro overwrite_grows) simp
  have l: "length ?b = length b" using bs(3) b(2) by simp
  have "rx_prefix conn' (part @ bs) \<or> rx_body conn' (part @ bs)"
  proof (cases "rx_prefix conn part")
    case True
    then show ?thesis using bs(3,4) u g l b by (auto simp: rx_prefix_def)
  next
    case False
    then have body: "rx_body conn part" using rx by blast
    then have "announced ?b = announced b" using b(1,2) by (intro announced_cong) (auto simp: rx_body_def)
    then show ?thesis using body bs(3,4) u g l b by (auto simp: rx_body_def)
  qed
  moreover have "tx_done ctx conn' ms S lost \<or> tx_pending ctx conn' ms S lost"
    using tx tx_cong [of conn' conn ctx] bs(4) by simp
  ultimately have "echo_phase ctx conn' ms (part @ bs) S lost" unfolding echo_phase_def by blast
  then show ?thesis using bs by auto
qed

lemma write_phase:
  assumes law: "net_law nt incoming sent" and fresh: "cause_code er = SUCCESS" and ph: "echo_phase ctx conn ms part S lost"
    and r: "handle_write nt conn w (Some er) = Some (SUCCESS, conn', w', Some er)"
  shows "\<exists>bs. echo_phase ctx conn' ms part (S @ bs) lost \<and> incoming w' = incoming w \<and> cn_sock conn' = cn_sock conn \<and>
    sent w' = (sent w)(cn_sock conn := sent w (cn_sock conn) @ bs)"
proof -
  have "tx_sent conn < tx_cap conn" using r by (auto simp: handle_write_def split: if_splits)
  then have "tx_cap conn \<noteq> 0" by auto
  then have tx: "tx_pending ctx conn ms S lost" and rx: "rx_prefix conn part \<or> rx_body conn part \<or> rx_stuck conn"
    using ph by (auto simp: echo_phase_def tx_done_def)
  then obtain S0 t where t: "0 < tx_cap conn" "tx_buf conn = Some t" "length t = unat (tx_cap conn)" "S = S0 @ take (unat (tx_sent conn)) t"
    "\<forall>j. answered ctx ms (S0 @ take j t)" "\<not> lost \<longrightarrow> S0 @ t = replies ctx ms" unfolding tx_pending_def by blast
  from handle_write_ok [OF law fresh t(2,3) r] obtain k where
    k: "incoming w' = incoming w" "sent w' = (sent w)(cn_sock conn := sent w (cn_sock conn) @ take k (drop (unat (tx_sent conn)) t))"
      "unat (tx_sent conn) + k \<le> unat (tx_cap conn)" "conn' = conn\<lparr>tx_sent := tx_sent conn + u32_of k\<rparr>" by blast
  have u: "unat (tx_sent conn') = unat (tx_sent conn) + k" using unat_grows [OF k(3)] k(4) by simp
  have "S @ take k (drop (unat (tx_sent conn)) t) = S0 @ take (unat (tx_sent conn')) t"
    unfolding u t(4) by (simp add: take_add)
  then have "tx_pending ctx conn' ms (S @ take k (drop (unat (tx_sent conn)) t)) lost"
    unfolding tx_pending_def using t k(3,4) u by (intro conjI exI [of _ S0] exI [of _ t]) simp_all
  moreover have "rx_prefix conn' part \<or> rx_body conn' part \<or> rx_stuck conn'" using rx k(4) by (simp add: rx_defs)
  ultimately have "echo_phase ctx conn' ms part (S @ take k (drop (unat (tx_sent conn)) t)) lost" unfolding echo_phase_def by blast
  then show ?thesis using k by auto
qed

section \<open>The invariant of a run\<close>

text \<open>\<open>R\<close> has come in and \<open>S\<close> has gone out since the start.\<close>

definition echo_inv ::
  "echo_context \<Rightarrow> ('w \<Rightarrow> fd \<Rightarrow> u8 list) \<Rightarrow> ('w \<Rightarrow> fd \<Rightarrow> u8 list) \<Rightarrow> fd \<Rightarrow> 'w \<Rightarrow> bool \<Rightarrow> connection \<Rightarrow> 'w \<Rightarrow> bool" where
  "echo_inv ctx incoming sent s w0 lost conn w \<longleftrightarrow> cn_sock conn = s \<and>
     (\<exists>ms part S. incoming w0 s = concat (map frame ms) @ part @ incoming w s \<and> sent w s = sent w0 s @ S \<and>
        (\<forall>m\<in>set ms. length m < 4294967296) \<and> echo_phase ctx conn ms part S lost)"

lemma echo_func_sock: "echo_conn_func os ctx conn e = Some (conn', c, e') \<Longrightarrow> cn_sock conn' = cn_sock conn"
  by (auto simp: echo_conn_func_def echo_reply_def Let_def bind_Some_iff split: if_splits option.splits)

lemma call_inv:
  assumes "libc_ok os" and "cause_code er = SUCCESS" and "ctx_ok ctx" and inv: "echo_inv ctx incoming sent s w0 lost conn w"
    and r: "echo_conn_func os ctx conn (Some er) = Some (conn', SUCCESS, Some er)"
  shows "echo_inv ctx incoming sent s w0 (lost \<or> overwrites_reply conn) conn' w"
proof -
  from inv obtain ms part S where i: "cn_sock conn = s" "incoming w0 s = concat (map frame ms) @ part @ incoming w s" "sent w s = sent w0 s @ S"
    "\<forall>m\<in>set ms. length m < 4294967296" and ph: "echo_phase ctx conn ms part S lost" by (auto simp: echo_inv_def)
  from call_phase [OF assms(1-3) ph r] obtain ms' part' where ph': "echo_phase ctx conn' ms' part' S (lost \<or> overwrites_reply conn)"
    and st: "concat (map frame ms') @ part' = concat (map frame ms) @ part" and "\<forall>m\<in>set ms'. length m < 4294967296"
    using i(4) by (auto simp: calls_to_def)
  moreover have "incoming w0 s = concat (map frame ms') @ part' @ incoming w s" using i(2) st by (metis append.assoc)
  moreover have "cn_sock conn' = s" using echo_func_sock [OF r] i(1) by simp
  ultimately show ?thesis using i(3) unfolding echo_inv_def by blast
qed

lemma read_inv:
  assumes law: "net_law nt incoming sent" and fresh: "cause_code er = SUCCESS" and inv: "echo_inv ctx incoming sent s w0 lost conn w"
    and r: "handle_read nt conn w (Some er) = Some (SUCCESS, conn', w', Some er)"
  shows "echo_inv ctx incoming sent s w0 lost conn' w'"
proof -
  from inv obtain ms part S where i: "cn_sock conn = s" "incoming w0 s = concat (map frame ms) @ part @ incoming w s" "sent w s = sent w0 s @ S"
    "\<forall>m\<in>set ms. length m < 4294967296" and ph: "echo_phase ctx conn ms part S lost" by (auto simp: echo_inv_def)
  from read_phase [OF law fresh ph r] i(1) obtain bs where
    bs: "echo_phase ctx conn' ms (part @ bs) S lost" "sent w' = sent w" "cn_sock conn' = s" "incoming w = (incoming w')(s := bs @ incoming w' s)"
    by blast
  have "incoming w0 s = concat (map frame ms) @ (part @ bs) @ incoming w' s" using i(2) bs(4) by (metis append.assoc fun_upd_same)
  then show ?thesis using bs i(3,4) unfolding echo_inv_def by metis
qed

lemma write_inv:
  assumes law: "net_law nt incoming sent" and fresh: "cause_code er = SUCCESS" and inv: "echo_inv ctx incoming sent s w0 lost conn w"
    and r: "handle_write nt conn w (Some er) = Some (SUCCESS, conn', w', Some er)"
  shows "echo_inv ctx incoming sent s w0 lost conn' w'"
proof -
  from inv obtain ms part S where i: "cn_sock conn = s" "incoming w0 s = concat (map frame ms) @ part @ incoming w s" "sent w s = sent w0 s @ S"
    "\<forall>m\<in>set ms. length m < 4294967296" and ph: "echo_phase ctx conn ms part S lost" by (auto simp: echo_inv_def)
  from write_phase [OF law fresh ph r] i(1) obtain bs where
    bs: "echo_phase ctx conn' ms part (S @ bs) lost" "incoming w' = incoming w" "cn_sock conn' = s" "sent w' = (sent w)(s := sent w s @ bs)"
    by blast
  have "sent w' s = sent w0 s @ S @ bs" using i(3) bs(4) by simp
  then show ?thesis using bs i(2,4) unfolding echo_inv_def by metis
qed

lemma echo_run_inv:
  assumes "libc_ok os" and "net_law nt incoming sent" and "cause_code er = SUCCESS" and "ctx_ok ctx"
    and "echo_run os nt ctx er (conn_zero\<lparr>cn_sock := s\<rparr>, w0) lost x"
  shows "echo_inv ctx incoming sent s w0 lost (fst x) (snd x)"
  using assms(5)
proof induction
  case run_start
  then show ?case by (auto simp: echo_inv_def echo_phase_def conn_zero_def intro!: exI [of _ "[]"])
next
  case (run_call lost conn w conn')
  then show ?case using call_inv [OF assms(1,3,4)] by (metis fst_conv snd_conv)
next
  case (run_read lost conn w conn' w')
  then show ?case using read_inv [OF assms(2,3)] by (metis fst_conv snd_conv)
next
  case (run_write lost conn w conn' w')
  then show ?case using write_inv [OF assms(2,3)] by (metis fst_conv snd_conv)
qed

text \<open>What has gone out, against the requests that have come in.\<close>

lemma phase_answered:
  assumes "echo_phase ctx conn ms part S lost" and "\<forall>m\<in>set ms. length m < 4294967296"
  shows "answered ctx (fst (requests (concat (map frame ms) @ part))) S"
proof -
  have "answered ctx ms S" using assms(1) by (auto simp: echo_phase_def answered_Nil intro: tx_answered)
  from answered_append [OF this answered_none, of "fst (requests part)"] show ?thesis
    unfolding requests_frames [OF assms(2)] by simp
qed

lemma phase_replies:
  assumes "echo_phase ctx conn ms part S False" and "\<forall>m\<in>set ms. length m < 4294967296"
  shows "prefix S (replies ctx (fst (requests (concat (map frame ms) @ part))))"
proof -
  have "\<exists>more. S @ more = replies ctx ms"
  proof (cases "tx_pending ctx conn ms S False")
    case True
    then obtain S0 t where "S = S0 @ take (unat (tx_sent conn)) t" "S0 @ t = replies ctx ms"
      unfolding tx_pending_def by blast
    then have "S @ drop (unat (tx_sent conn)) t = replies ctx ms" by simp
    then show ?thesis by blast
  next
    case False
    then show ?thesis using assms(1) by (auto simp: echo_phase_def tx_done_def)
  qed
  then obtain more where "S @ more = replies ctx ms" ..
  moreover have "replies ctx (ms @ fst (requests part)) = replies ctx ms @ replies ctx (fst (requests part))" by (simp add: replies_def)
  ultimately show ?thesis unfolding requests_frames [OF assms(2)] by (metis append.assoc fst_conv prefixI)
qed

lemma phase_idle:
  assumes ph: "echo_phase ctx conn ms part S False" and "\<forall>m\<in>set ms. length m < 4294967296" and idle: "rx_len conn < rx_cap conn" "tx_cap conn = 0"
  shows "S = replies ctx (fst (requests (concat (map frame ms) @ part)))"
proof -
  have i: "unat (rx_len conn) < unat (rx_cap conn)" using idle(1) by (simp add: word_less_nat_alt)
  have "S = replies ctx ms" and rx: "rx_prefix conn part \<or> rx_body conn part"
    using ph idle(2) i by (auto simp: echo_phase_def tx_defs rx_stuck_def)
  moreover from rx have "requests part = ([], part)"
  proof
    assume "rx_prefix conn part"
    then show ?thesis using i by (auto simp: rx_prefix_def intro!: requests_short)
  next
    assume "rx_body conn part"
    then obtain b where b: "part = take (unat (rx_len conn)) b" "length b = 4 + announced b" "unat (rx_cap conn) = 4 + announced b"
      "4 \<le> unat (rx_len conn)" by (auto simp: rx_body_def)
    then have "announced part = announced b" by (intro announced_cong) (simp add: min_absorb1)
    then have "length part < 4 + announced part" using b i by simp
    then show ?thesis using requests_short [of part] by simp
  qed
  ultimately show ?thesis using requests_frames [OF assms(2)] by simp
qed

section \<open>What the server does not withstand\<close>

lemma echo_length_wraps:
  "case echo_drives libc_ample pair_net \<lparr>ec_prefix = [0], ec_suffix = [0]\<rparr> error_create [Call, Read, Read, Call]
     (False, conn_zero\<lparr>cn_sock := 3\<rparr>, (\<lambda>_. [255, 255, 255, 254], \<lambda>_. [])) of
     None \<Rightarrow> False
   | Some (lost, conn, w) \<Rightarrow> rx_cap conn = 2 \<and> echo_conn_func libc_ample \<lparr>ec_prefix = [0], ec_suffix = [0]\<rparr> conn (Some error_create) = None"
  by code_simp

text \<open>A request that is complete while a reply is still going out replaces the reply, sent or not.\<close>

lemma echo_reply_forgets:
  assumes r: "echo_reply os ctx (conn\<lparr>tx_buf := t, tx_cap := n, tx_sent := k\<rparr>) (Some er) = Some (conn', SUCCESS, e')"
    and fresh: "cause_code er = SUCCESS"
  shows "echo_reply os ctx conn (Some er) = Some (conn', SUCCESS, e')"
proof -
  from r obtain rx pl sl ml where c: "rx_len conn = rx_cap conn" "rx_buf conn = Some rx" "c_strlen (ec_prefix ctx) = Some pl"
    "c_strlen (ec_suffix ctx) = Some sl" "decode_prefix rx = Some ml"
    by (cases "c_strlen (ec_prefix ctx)"; cases "c_strlen (ec_suffix ctx)"; cases "rx_buf conn"; cases "decode_prefix (the (rx_buf conn))")
      (simp_all add: echo_reply_def split: if_splits)
  let ?p = "word_of_nat pl" and ?s = "word_of_nat sl"
  let ?f = "ml + ?p + ?s + 4"
  from r c obtain q e1 where m: "i_malloc os ?f 1 (Some er) = Some (q, e1)"
    by (cases "i_malloc os ?f 1 (Some er)") (auto simp: echo_reply_def Let_def)
  show ?thesis
  proof (cases q)
    case None
    then show ?thesis using r c m i_malloc_refused_code [of os ?f 1 er e1] fresh by (simp add: echo_reply_def Let_def ERR_NOMEM_def SUCCESS_def)
  next
    case (Some tx)
    then have e1: "e1 = Some er" using m by (auto simp: i_malloc_def nomem_def split: if_splits option.splits)
    from r c m Some obtain t1 where t1: "build_reply ctx tx rx ?p ml ?s ?f = Some t1"
      by (cases "build_reply ctx tx rx ?p ml ?s ?f") (auto simp: echo_reply_def Let_def)
    from r c m Some t1 e1 obtain b e2 where re: "i_realloc_right os (Some rx) (?f - ?p - ?s) 4 1 (Some er) = Some (b, e2)"
      by (cases "i_realloc_right os (Some rx) (?f - ?p - ?s) 4 1 (Some er)") (auto simp: echo_reply_def Let_def)
    show ?thesis
    proof (cases b)
      case None
      then show ?thesis using r c m Some t1 e1 re i_realloc_right_refused_code [of os "Some rx" "?f - ?p - ?s" 4 1 er e2] fresh
        by (simp add: echo_reply_def Let_def ERR_NOMEM_def SUCCESS_def)
    next
      case b: (Some buf)
      show ?thesis using r c m Some t1 e1 re b by (auto simp: echo_reply_def Let_def)
    qed
  qed
qed

text \<open>Before its first reply a connection has no output buffer, so the server does not survive its end.\<close>

lemma echo_first_hangup:
  "\<lbrakk>echo_conn_func os ctx (conn_zero\<lparr>cn_sock := fd\<rparr>) e = Some (conn, c, e'); get_slot (ps_conns s) i = Some (Some conn)\<rbrakk> \<Longrightarrow>
   remove_client nt s i w e2 = None"
  by (rule remove_client_null_aborts) (auto simp: echo_conn_func_def conn_zero_def bind_Some_iff split: option.splits)

section \<open>Properties\<close>

text \<open>
  C34. The echo server serves its requests. Whatever a client sends, at whatever time, and however
  the network cuts it, in every course of successful calls, reads and writes on a new connection,
  with \<open>R\<close> what has come in and \<open>S\<close> what has gone out: \<open>S\<close> consists of an initial part of the reply
  to each request that \<open>R\<close> holds completely, in their order. A part is cut short only where a
  request was complete before the reply to an earlier one was out, and the server overwrote that
  reply. As long as this has not happened, \<open>S\<close> is a prefix of all replies, and is all of them when
  the connection waits for more input and has nothing left to send.
\<close>

theorem echo_serves_requests:
  assumes "libc_ok os" and "net_law nt incoming sent" and "cause_code er = SUCCESS" and "ctx_ok ctx"
    and "echo_run os nt ctx er (conn_zero\<lparr>cn_sock := s\<rparr>, w0) lost (conn, w)"
  shows "\<exists>R S. incoming w0 s = R @ incoming w s \<and> sent w s = sent w0 s @ S \<and>
    answered ctx (fst (requests R)) S \<and>
    (\<not> lost \<longrightarrow> prefix S (replies ctx (fst (requests R))) \<and>
       (rx_len conn < rx_cap conn \<and> tx_cap conn = 0 \<longrightarrow> S = replies ctx (fst (requests R))))"
proof -
  from echo_run_inv [OF assms] obtain ms part S where i: "incoming w0 s = (concat (map frame ms) @ part) @ incoming w s"
    "sent w s = sent w0 s @ S" "\<forall>m\<in>set ms. length m < 4294967296" "echo_phase ctx conn ms part S lost"
    by (auto simp: echo_inv_def)
  moreover have "answered ctx (fst (requests (concat (map frame ms) @ part))) S"
    by (rule phase_answered [OF i(4,3)])
  moreover have "prefix S (replies ctx (fst (requests (concat (map frame ms) @ part)))) \<and>
      (rx_len conn < rx_cap conn \<and> tx_cap conn = 0 \<longrightarrow> S = replies ctx (fst (requests (concat (map frame ms) @ part))))" if "\<not> lost"
    using that i(3,4) phase_replies phase_idle by (cases lost) simp_all
  ultimately show ?thesis by blast
qed

text \<open>
  One request of one byte, read and answered two bytes at a time; and two requests sent at
  once, of which the second is complete before the first is answered.
\<close>

theorem echo_serves_requests_witness:
  "(\<exists>conn w. echo_run libc_ample pair_net \<lparr>ec_prefix = [60, 0], ec_suffix = [62, 0]\<rparr> error_create
     (conn_zero\<lparr>cn_sock := 3\<rparr>, (\<lambda>_. [0, 0, 0, 1, 7], \<lambda>_. [])) False (conn, w) \<and>
     snd w 3 = replies \<lparr>ec_prefix = [60, 0], ec_suffix = [62, 0]\<rparr> [[7]] \<and> snd w 3 = [0, 0, 0, 3, 60, 7, 62]) \<and>
   (\<exists>conn w. echo_run libc_ample pair_net \<lparr>ec_prefix = [60, 0], ec_suffix = [62, 0]\<rparr> error_create
     (conn_zero\<lparr>cn_sock := 3\<rparr>, (\<lambda>_. [0, 0, 0, 1, 7, 0, 0, 0, 1, 8], \<lambda>_. [])) True (conn, w) \<and>
     answered \<lparr>ec_prefix = [60, 0], ec_suffix = [62, 0]\<rparr> [[7], [8]] (snd w 3) \<and> snd w 3 = [0, 0, 0, 0, 0, 3, 60, 8, 62])"
    (is "?one \<and> ?two")
proof
  let ?ctx = "\<lparr>ec_prefix = [60, 0], ec_suffix = [62, 0]\<rparr>"
  have fresh: "cause_code error_create = SUCCESS" "ctx_ok ?ctx" by (simp_all add: error_create_def ctx_ok_def)
  show ?one
  proof -
    let ?w = "(\<lambda>_. [0, 0, 0, 1, 7], \<lambda>_. []) :: (fd \<Rightarrow> u8 list) \<times> (fd \<Rightarrow> u8 list)"
    let ?start = "(conn_zero\<lparr>cn_sock := 3\<rparr>, ?w)"
    let ?ms = "[Call, Read, Read, Call, Read, Call, Write, Write, Write, Write, Call]"
    have "case echo_drives libc_ample pair_net ?ctx error_create ?ms (False, ?start) of
        None \<Rightarrow> False
      | Some (lost, conn, w) \<Rightarrow> \<not> lost \<and> rx_len conn = 0 \<and> rx_cap conn = 4 \<and> tx_cap conn = 0 \<and> fst w 3 = [] \<and>
          snd w 3 = [0, 0, 0, 3, 60, 7, 62]"
      by code_simp
    then obtain conn w where d: "echo_drives libc_ample pair_net ?ctx error_create ?ms (False, ?start) = Some (False, conn, w)"
      and c: "rx_len conn = 0" "rx_cap conn = 4" "tx_cap conn = 0" "fst w 3 = []" "snd w 3 = [0, 0, 0, 3, 60, 7, 62]"
      by (auto split: option.split_asm prod.split_asm)
    note run = echo_drives_run [OF run_start d]
    have "rx_len conn < rx_cap conn \<and> tx_cap conn = 0" using c by simp
    then obtain R S where "[0, 0, 0, 1, 7] = R @ fst w 3" "snd w 3 = S" "S = replies ?ctx (fst (requests R))"
      using echo_serves_requests [OF libc_ok_ample pair_net_law fresh run] by auto
    moreover have "requests [0, 0, 0, 1, 7] = ([[7]], [])"
      by (simp add: requests.simps announced_def)
    ultimately have "snd w 3 = replies ?ctx [[7]]" using c(4) by simp
    with run c(5) show ?thesis by blast
  qed
  show ?two
  proof -
    let ?w = "(\<lambda>_. [0, 0, 0, 1, 7, 0, 0, 0, 1, 8], \<lambda>_. []) :: (fd \<Rightarrow> u8 list) \<times> (fd \<Rightarrow> u8 list)"
    let ?start = "(conn_zero\<lparr>cn_sock := 3\<rparr>, ?w)"
    let ?ms = "[Call, Read, Read, Call, Read, Call, Read, Read, Call, Write, Read, Call, Write, Write, Write, Write, Call]"
    have "case echo_drives libc_ample pair_net ?ctx error_create ?ms (False, ?start) of
        None \<Rightarrow> False
      | Some (lost, conn, w) \<Rightarrow> lost \<and> fst w 3 = [] \<and> snd w 3 = [0, 0, 0, 0, 0, 3, 60, 8, 62]"
      by code_simp
    then obtain conn w where d: "echo_drives libc_ample pair_net ?ctx error_create ?ms (False, ?start) = Some (True, conn, w)"
      and c: "fst w 3 = []" "snd w 3 = [0, 0, 0, 0, 0, 3, 60, 8, 62]"
      by (auto split: option.split_asm prod.split_asm)
    note run = echo_drives_run [OF run_start d]
    obtain R S where "[0, 0, 0, 1, 7, 0, 0, 0, 1, 8] = R @ fst w 3" "snd w 3 = S" "answered ?ctx (fst (requests R)) S"
      using echo_serves_requests [OF libc_ok_ample pair_net_law fresh run] by auto
    moreover have "requests [0, 0, 0, 1, 7, 0, 0, 0, 1, 8] = ([[7], [8]], [])"
      by (simp add: requests.simps announced_def)
    ultimately have "answered ?ctx [[7], [8]] (snd w 3)" using c(1) by simp
    with run c(2) show ?thesis by blast
  qed
qed

interpretation echo: conn_service "echo_actions os ctx" for os ctx
  by unfold_locales (simp add: echo_actions_def echo_func_sock)

text \<open>
  C35. The table of the echo server stays true. From its opening on, after any number of rounds in whatever states of network, memory and error object, and with clients
  accepted, served, removed or failing in between, every entry that is polled is the socket of the connection in the same place,
  the first one the listening socket, and the entries are inside both arrays.
\<close>

theorem echo_table_matches:
  assumes "poll_law nt" and "pserv_reach nt (echo_actions os ctx) s"
  shows "ps_table (echo_actions os ctx) s"
  using assms by (rule echo.reach_table)

text \<open>An opened server and the round in which it accepts its first client.\<close>

theorem echo_table_matches_witness:
  "\<exists>s. pserv_reach pair_net (echo_actions libc_ample \<lparr>ec_prefix = [0], ec_suffix = [0]\<rparr>) s \<and>
     ps_table (echo_actions libc_ample \<lparr>ec_prefix = [0], ec_suffix = [0]\<rparr>) s \<and>
     ps_len s = 2 \<and> pf_fd (ps_fds s ! 0) = 3 \<and> pf_fd (ps_fds s ! 1) = 4"
proof -
  let ?a = "echo_actions libc_ample \<lparr>ec_prefix = [0], ec_suffix = [0]\<rparr>" and ?w = "(\<lambda>_. [], \<lambda>_. []) :: (fd \<Rightarrow> u8 list) \<times> (fd \<Rightarrow> u8 list)"
  let ?ps = "\<lparr>ps_fds = [], ps_conns = [], ps_len = 0, ps_cap = 0, ps_running = 0, ps_actions = ?a, ps_server = 0\<rparr>"
  let ?ctl = "Option.bind (pserv_open libc_ample pair_net ?ps 80 ?a ?w (Some error_create)) (\<lambda>(c, ps, w, e).
    map_option (\<lambda>x. (c, ps, w, e, x)) (pserv_execute libc_ample pair_net ps w e))"
  have "case ?ctl of None \<Rightarrow> False
    | Some (c, ps, w, e, c', s, w', e') \<Rightarrow> c = SUCCESS \<and> ps_len s = 2 \<and> pf_fd (ps_fds s ! 0) = 3 \<and> pf_fd (ps_fds s ! 1) = 4"
    by code_simp
  then obtain ps w e c' s w' e' where o: "pserv_open libc_ample pair_net ?ps 80 ?a ?w (Some error_create) = Some (SUCCESS, ps, w, e)"
    and x: "pserv_execute libc_ample pair_net ps w e = Some (c', s, w', e')" and s: "ps_len s = 2" "pf_fd (ps_fds s ! 0) = 3" "pf_fd (ps_fds s ! 1) = 4"
    by (auto split: option.split_asm prod.split_asm bind_splits)
  have "poll_law pair_net" by (auto simp: poll_law_def pair_net_def)
  moreover have "pserv_reach pair_net ?a s" using reach_execute [OF reach_open [OF o] x] .
  ultimately show ?thesis using echo_table_matches [of pair_net] s by blast
qed

end
