(* ===== verification/Pthread.thy ===== *)
theory Pthread
  imports Stride Cerror
begin

text \<open>
  The thread wrappers of the POSIX layer, \<^verbatim>\<open>intf/os_posix/mutex.c\<close>, \<^verbatim>\<open>cond.c\<close>, \<^verbatim>\<open>rwlock.c\<close>, \<^verbatim>\<open>thread.c\<close> and \<^verbatim>\<open>timer.c\<close>, in the
  build with assertions. The library of threads and the clocks are a parameter: a call takes the value of \<open>errno\<close> and the state \<open>'w\<close>
  of the system, and gives its return value with both. Messages to the log are left out, so a switch all of whose
  cases log and stop is \<open>UNREACHABLE\<close>.
\<close>

section \<open>The library of threads\<close>

definition EPERM :: int where "EPERM = 1"
definition ESRCH :: int where "ESRCH = 3"
definition EAGAIN :: int where "EAGAIN = 11"
definition ENOMEM :: int where "ENOMEM = 12"
definition EBUSY :: int where "EBUSY = 16"
definition EINVAL :: int where "EINVAL = 22"
definition EDEADLK :: int where "EDEADLK = 35"
definition ETIMEDOUT :: int where "ETIMEDOUT = 110"

type_synonym 'w pcall = "int \<Rightarrow> 'w \<Rightarrow> int \<times> int \<times> 'w"

text \<open>Seconds and nanoseconds. Objects are numbered.\<close>

type_synonym timespec = "i64 \<times> i64"

datatype attr_kind = Mutexattr | Condattr | Rwlockattr | Threadattr

record 'w pthreads =
  pt_strerror :: "int \<Rightarrow> string"
  pt_attr_init :: "attr_kind \<Rightarrow> 'w pcall"
  pt_attr_settype :: "'w pcall"
  pt_attr_destroy :: "attr_kind \<Rightarrow> 'w pcall"
  pt_mutex_init :: "nat \<Rightarrow> 'w pcall"
  pt_mutex_destroy :: "nat \<Rightarrow> 'w pcall"
  pt_mutex_lock :: "nat \<Rightarrow> 'w pcall"
  pt_mutex_trylock :: "nat \<Rightarrow> 'w pcall"
  pt_mutex_unlock :: "nat \<Rightarrow> 'w pcall"
  pt_cond_init :: "nat \<Rightarrow> 'w pcall"
  pt_cond_destroy :: "nat \<Rightarrow> 'w pcall"
  pt_cond_wait :: "nat \<Rightarrow> nat \<Rightarrow> 'w pcall"
  pt_cond_timedwait :: "nat \<Rightarrow> nat \<Rightarrow> timespec \<Rightarrow> 'w pcall"
  pt_cond_signal :: "nat \<Rightarrow> 'w pcall"
  pt_cond_broadcast :: "nat \<Rightarrow> 'w pcall"
  pt_rwlock_init :: "nat \<Rightarrow> 'w pcall"
  pt_rwlock_destroy :: "nat \<Rightarrow> 'w pcall"
  pt_rwlock_rdlock :: "nat \<Rightarrow> 'w pcall"
  pt_rwlock_wrlock :: "nat \<Rightarrow> 'w pcall"
  pt_rwlock_tryrdlock :: "nat \<Rightarrow> 'w pcall"
  pt_rwlock_trywrlock :: "nat \<Rightarrow> 'w pcall"
  pt_rwlock_unlock :: "nat \<Rightarrow> 'w pcall"
  pt_create :: "nat \<Rightarrow> 'w pcall"
  pt_join :: "nat \<Rightarrow> 'w pcall"
  pt_cancel :: "nat \<Rightarrow> 'w pcall"
  pt_nprocessors :: "'w \<Rightarrow> i64 \<times> 'w"
  pt_realtime :: "'w \<Rightarrow> timespec \<times> 'w"
  pt_monotonic :: "int \<Rightarrow> 'w \<Rightarrow> timespec option \<times> int \<times> 'w"
  pt_nanosleep :: "timespec \<Rightarrow> 'w \<Rightarrow> 'w"

text \<open>A call whose failure is only logged, with \<open>errno\<close> cleared first or not.\<close>

definition must :: "'w pcall \<Rightarrow> int \<Rightarrow> 'w \<Rightarrow> (int \<times> 'w) option" where
  "must f en w = (case f en w of (r, en, w) \<Rightarrow> if r \<noteq> 0 then UNREACHABLE else Some (en, w))"

text \<open>Attributes are prepared and given back around the call that creates, and their errors are asserted not to happen.\<close>

definition debug_call :: "'w pcall \<Rightarrow> int \<Rightarrow> 'w \<Rightarrow> (int \<times> 'w) option" where
  "debug_call f en w = (case f en w of (r, en, w) \<Rightarrow> do { ASSERT (r = 0); Some (en, w) })"

definition with_attr :: "'w pthreads \<Rightarrow> attr_kind \<Rightarrow> 'w pcall \<Rightarrow> int \<Rightarrow> 'w \<Rightarrow> (int \<times> int \<times> 'w) option" where
  "with_attr pt k f en w = do {
     (en, w) \<leftarrow> debug_call (pt_attr_init pt k) en w;
     (en, w) \<leftarrow> (if k = Mutexattr then debug_call (pt_attr_settype pt) en w else Some (en, w));
     case f en w of (r, en, w) \<Rightarrow> do {
       (en, w) \<leftarrow> debug_call (pt_attr_destroy pt k) en w;
       Some (r, en, w)
     }
   }"

section \<open>Mutexes\<close>

definition i_mutex_create :: "'w pthreads \<Rightarrow> nat \<Rightarrow> int \<Rightarrow> 'w \<Rightarrow> errp \<Rightarrow> (err_t \<times> int \<times> 'w \<times> errp) option" where
  "i_mutex_create pt m en w e = do {
     (r, en, w) \<leftarrow> with_attr pt Mutexattr (pt_mutex_init pt m) 0 w;
     if r \<noteq> 0 then
       (if en = EAGAIN then (case error_causef e ERR_IO (''mutex_init: '' @ pt_strerror pt en) of (e, c) \<Rightarrow> Some (c, en, w, e))
        else if en = ENOMEM then (case error_causef e ERR_NOMEM (''mutex_init: '' @ pt_strerror pt en) of (e, c) \<Rightarrow> Some (c, en, w, e))
        else UNREACHABLE)
     else Some (SUCCESS, en, w, e)
   }"

definition i_mutex_free :: "'w pthreads \<Rightarrow> nat \<Rightarrow> int \<Rightarrow> 'w \<Rightarrow> (int \<times> 'w) option" where
  "i_mutex_free pt m en w = must (pt_mutex_destroy pt m) 0 w"

definition i_mutex_lock :: "'w pthreads \<Rightarrow> nat \<Rightarrow> int \<Rightarrow> 'w \<Rightarrow> (int \<times> 'w) option" where
  "i_mutex_lock pt m en w = must (pt_mutex_lock pt m) 0 w"

definition i_mutex_try_lock :: "'w pthreads \<Rightarrow> nat \<Rightarrow> int \<Rightarrow> 'w \<Rightarrow> (bool \<times> int \<times> 'w) option" where
  "i_mutex_try_lock pt m en w = (case pt_mutex_trylock pt m 0 w of (r, en, w) \<Rightarrow>
     if r \<noteq> 0 then (if en = EBUSY then Some (False, en, w) else UNREACHABLE) else Some (True, en, w))"

definition i_mutex_unlock :: "'w pthreads \<Rightarrow> nat \<Rightarrow> int \<Rightarrow> 'w \<Rightarrow> (int \<times> 'w) option" where
  "i_mutex_unlock pt m en w = must (pt_mutex_unlock pt m) 0 w"

section \<open>Condition variables\<close>

definition i_cond_create :: "'w pthreads \<Rightarrow> nat \<Rightarrow> int \<Rightarrow> 'w \<Rightarrow> errp \<Rightarrow> (err_t \<times> int \<times> 'w \<times> errp) option" where
  "i_cond_create pt c en w e = do {
     (r, en, w) \<leftarrow> with_attr pt Condattr (pt_cond_init pt c) en w;
     if r \<noteq> 0 then
       (if en = EAGAIN then (case error_causef e ERR_IO (''pthread_cond_init: '' @ pt_strerror pt en) of (e, c) \<Rightarrow> Some (c, en, w, e))
        else if en = ENOMEM then (case error_causef e ERR_NOMEM (''pthread_cond_init: '' @ pt_strerror pt en) of (e, c) \<Rightarrow> Some (c, en, w, e))
        else UNREACHABLE)
     else Some (SUCCESS, en, w, e)
   }"

definition i_cond_free :: "'w pthreads \<Rightarrow> nat \<Rightarrow> int \<Rightarrow> 'w \<Rightarrow> (int \<times> 'w) option" where
  "i_cond_free pt c en w = must (pt_cond_destroy pt c) 0 w"

definition i_cond_wait :: "'w pthreads \<Rightarrow> nat \<Rightarrow> nat \<Rightarrow> int \<Rightarrow> 'w \<Rightarrow> (int \<times> 'w) option" where
  "i_cond_wait pt c m en w = must (pt_cond_wait pt c m) 0 w"

text \<open>The deadline \<open>msec\<close> milliseconds after a time; signed arithmetic outside the range of its type has no meaning.\<close>

definition normal_ts :: "i64 \<Rightarrow> i64 \<Rightarrow> timespec option" where
  "normal_ts sec nsec =
     (if 1000000000 \<le> sint nsec then do { sec \<leftarrow> i64_of (sint sec + 1); nsec \<leftarrow> i64_of (sint nsec - 1000000000); Some (sec, nsec) }
      else Some (sec, nsec))"

definition cond_deadline :: "timespec \<Rightarrow> u64 \<Rightarrow> timespec option" where
  "cond_deadline now msec = (case now of (sec, nsec) \<Rightarrow>
     normal_ts (sec + ucast (msec div 1000)) (nsec + ucast ((msec mod 1000) * 1000000)))"

definition i_cond_timed_wait :: "'w pthreads \<Rightarrow> nat \<Rightarrow> nat \<Rightarrow> u64 \<Rightarrow> int \<Rightarrow> 'w \<Rightarrow> (int \<times> 'w) option" where
  "i_cond_timed_wait pt c m msec en w = (case pt_realtime pt w of (now, w) \<Rightarrow> do {
     ts \<leftarrow> cond_deadline now msec;
     case pt_cond_timedwait pt c m ts 0 w of (r, en, w) \<Rightarrow>
       if r \<noteq> 0 \<and> r \<noteq> ETIMEDOUT then UNREACHABLE else Some (en, w)
   })"

definition i_cond_signal :: "'w pthreads \<Rightarrow> nat \<Rightarrow> int \<Rightarrow> 'w \<Rightarrow> (int \<times> 'w) option" where
  "i_cond_signal pt c en w = must (pt_cond_signal pt c) 0 w"

definition i_cond_broadcast :: "'w pthreads \<Rightarrow> nat \<Rightarrow> int \<Rightarrow> 'w \<Rightarrow> (int \<times> 'w) option" where
  "i_cond_broadcast pt c en w = must (pt_cond_broadcast pt c) 0 w"

section \<open>Read and write locks\<close>

definition i_rwlock_create :: "'w pthreads \<Rightarrow> nat \<Rightarrow> int \<Rightarrow> 'w \<Rightarrow> errp \<Rightarrow> (err_t \<times> int \<times> 'w \<times> errp) option" where
  "i_rwlock_create pt l en w e = do {
     (r, en, w) \<leftarrow> with_attr pt Rwlockattr (pt_rwlock_init pt l) 0 w;
     if r \<noteq> 0 then
       (if en = EAGAIN then (case error_causef e ERR_IO (''rwlock_init: '' @ pt_strerror pt en) of (e, c) \<Rightarrow> Some (c, en, w, e))
        else if en = ENOMEM then (case error_causef e ERR_NOMEM (''rwlock_init: '' @ pt_strerror pt en) of (e, c) \<Rightarrow> Some (c, en, w, e))
        else UNREACHABLE)
     else Some (SUCCESS, en, w, e)
   }"

definition i_rwlock_free :: "'w pthreads \<Rightarrow> nat \<Rightarrow> int \<Rightarrow> 'w \<Rightarrow> (int \<times> 'w) option" where
  "i_rwlock_free pt l en w = must (pt_rwlock_destroy pt l) 0 w"

definition i_rwlock_rdlock :: "'w pthreads \<Rightarrow> nat \<Rightarrow> int \<Rightarrow> 'w \<Rightarrow> (int \<times> 'w) option" where
  "i_rwlock_rdlock pt l en w = must (pt_rwlock_rdlock pt l) 0 w"

definition i_rwlock_wrlock :: "'w pthreads \<Rightarrow> nat \<Rightarrow> int \<Rightarrow> 'w \<Rightarrow> (int \<times> 'w) option" where
  "i_rwlock_wrlock pt l en w = must (pt_rwlock_wrlock pt l) 0 w"

definition i_rwlock_try_rdlock :: "'w pthreads \<Rightarrow> nat \<Rightarrow> int \<Rightarrow> 'w \<Rightarrow> (bool \<times> int \<times> 'w) option" where
  "i_rwlock_try_rdlock pt l en w = (case pt_rwlock_tryrdlock pt l 0 w of (result, en, w) \<Rightarrow>
     if result = 0 then Some (True, en, w) else if result = EBUSY then Some (False, en, w) else UNREACHABLE)"

definition i_rwlock_try_wrlock :: "'w pthreads \<Rightarrow> nat \<Rightarrow> int \<Rightarrow> 'w \<Rightarrow> (bool \<times> int \<times> 'w) option" where
  "i_rwlock_try_wrlock pt l en w = (case pt_rwlock_trywrlock pt l 0 w of (result, en, w) \<Rightarrow>
     if result = 0 then Some (True, en, w) else if result = EBUSY then Some (False, en, w) else UNREACHABLE)"

definition i_rwlock_unlock :: "'w pthreads \<Rightarrow> nat \<Rightarrow> int \<Rightarrow> 'w \<Rightarrow> (int \<times> 'w) option" where
  "i_rwlock_unlock pt l en w = must (pt_rwlock_unlock pt l) 0 w"

section \<open>Threads\<close>

definition i_thread_create :: "'w pthreads \<Rightarrow> nat \<Rightarrow> int \<Rightarrow> 'w \<Rightarrow> errp \<Rightarrow> (err_t \<times> int \<times> 'w \<times> errp) option" where
  "i_thread_create pt t en w e = do {
     (r, en, w) \<leftarrow> with_attr pt Threadattr (pt_create pt t) en w;
     if r \<noteq> 0 then
       (if en = EAGAIN then (case error_causef e ERR_IO (''pthread_create: '' @ pt_strerror pt en) of (e, c) \<Rightarrow> Some (c, en, w, e))
        else UNREACHABLE)
     else Some (SUCCESS, en, w, e)
   }"

definition i_thread_join :: "'w pthreads \<Rightarrow> nat \<Rightarrow> int \<Rightarrow> 'w \<Rightarrow> (err_t \<times> int \<times> 'w) option" where
  "i_thread_join pt t en w = do { (en, w) \<leftarrow> must (pt_join pt t) en w; Some (SUCCESS, en, w) }"

definition i_thread_cancel :: "'w pthreads \<Rightarrow> nat \<Rightarrow> int \<Rightarrow> 'w \<Rightarrow> (int \<times> 'w) option" where
  "i_thread_cancel pt t en w = must (pt_cancel pt t) en w"

definition get_available_threads :: "'w pthreads \<Rightarrow> 'w \<Rightarrow> (u64 \<times> 'w) option" where
  "get_available_threads pt w = (case pt_nprocessors pt w of (ret, w) \<Rightarrow> do { ASSERT (0 < sint ret); Some (ret, w) })"

section \<open>Timers\<close>

record i_timer =
  tm_start :: timespec

definition i_timer_create :: "'w pthreads \<Rightarrow> int \<Rightarrow> 'w \<Rightarrow> errp \<Rightarrow> err_t \<times> i_timer option \<times> int \<times> 'w \<times> errp" where
  "i_timer_create pt en w e = (case pt_monotonic pt en w of
     (None, en, w) \<Rightarrow> (case error_causef e ERR_IO (''clock_gettime: '' @ pt_strerror pt en) of (e, c) \<Rightarrow> (c, None, en, w, e))
   | (Some ts, en, w) \<Rightarrow> (SUCCESS, Some \<lparr>tm_start = ts\<rparr>, en, w, e))"

text \<open>A clock that cannot be read leaves \<open>now\<close> without a value.\<close>

definition i_timer_now_ns :: "'w pthreads \<Rightarrow> i_timer \<Rightarrow> int \<Rightarrow> 'w \<Rightarrow> (u64 \<times> int \<times> 'w) option" where
  "i_timer_now_ns pt t en w = (case pt_monotonic pt en w of (now, en, w) \<Rightarrow> do {
     (sec, nsec) \<leftarrow> now;
     sec_diff \<leftarrow> i64_of (sint sec - sint (fst (tm_start t)));
     nsec_diff \<leftarrow> i64_of (sint nsec - sint (snd (tm_start t)));
     ns \<leftarrow> i64_of (sint sec_diff * 1000000000);
     ns \<leftarrow> i64_of (sint ns + sint nsec_diff);
     Some (ns, en, w)
   })"

definition i_timer_now_us :: "'w pthreads \<Rightarrow> i_timer \<Rightarrow> int \<Rightarrow> 'w \<Rightarrow> (u64 \<times> int \<times> 'w) option" where
  "i_timer_now_us pt t en w = do { (ns, en, w) \<leftarrow> i_timer_now_ns pt t en w; Some (ns div 1000, en, w) }"

definition i_timer_now_ms :: "'w pthreads \<Rightarrow> i_timer \<Rightarrow> int \<Rightarrow> 'w \<Rightarrow> (u64 \<times> int \<times> 'w) option" where
  "i_timer_now_ms pt t en w = do { (ns, en, w) \<leftarrow> i_timer_now_ns pt t en w; Some (ns div 1000000, en, w) }"

definition i_sleep_us :: "'w pthreads \<Rightarrow> u64 \<Rightarrow> 'w \<Rightarrow> 'w" where
  "i_sleep_us pt us w = pt_nanosleep pt (us div 1000000, (us mod 1000000) * 1000) w"

section \<open>Failures\<close>

text \<open>
  As documented, the calls report an error by their value and leave \<open>errno\<close> alone. The wrappers that create look at \<open>errno\<close>.
\<close>

definition keeps_errno :: "'w pcall \<Rightarrow> bool" where
  "keeps_errno f \<longleftrightarrow> (\<forall>en w r en' w'. f en w = (r, en', w') \<longrightarrow> en' = en)"

definition pthread_law :: "'w pthreads \<Rightarrow> bool" where
  "pthread_law pt \<longleftrightarrow> keeps_errno (pt_attr_settype pt) \<and>
     (\<forall>k. keeps_errno (pt_attr_init pt k) \<and> keeps_errno (pt_attr_destroy pt k)) \<and>
     (\<forall>n. keeps_errno (pt_mutex_init pt n) \<and> keeps_errno (pt_cond_init pt n) \<and> keeps_errno (pt_rwlock_init pt n) \<and>
       keeps_errno (pt_create pt n) \<and> keeps_errno (pt_mutex_trylock pt n))"

lemma keepsD: "keeps_errno f \<Longrightarrow> f en w = (r, en', w') \<Longrightarrow> en' = en"
  unfolding keeps_errno_def by blast

lemma debug_keeps: "keeps_errno f \<Longrightarrow> debug_call f en w = Some (en', w') \<Longrightarrow> en' = en"
  by (cases "f en w") (auto simp: debug_call_def dest: keepsD split: if_splits)

lemma with_attr_errno:
  assumes law: "pthread_law pt" and f: "keeps_errno f" and r: "with_attr pt k f en w = Some (c, en', w')"
  shows "en' = en"
proof -
  have i: "keeps_errno (pt_attr_init pt k)" "keeps_errno (pt_attr_settype pt)" "keeps_errno (pt_attr_destroy pt k)"
    using law by (simp_all add: pthread_law_def)
  let ?set = "\<lambda>en w. if k = Mutexattr then debug_call (pt_attr_settype pt) en w else Some (en, w)"
  from r obtain en1 w1 where 1: "debug_call (pt_attr_init pt k) en w = Some (en1, w1)" by (auto simp: with_attr_def bind_Some_iff)
  from r 1 obtain en2 w2 where 2: "?set en1 w1 = Some (en2, w2)" by (cases "?set en1 w1") (auto simp: with_attr_def)
  obtain c3 en3 w3 where 3: "f en2 w2 = (c3, en3, w3)" by (metis prod.exhaust)
  have "debug_call (pt_attr_destroy pt k) en3 w3 = Some (en', w')"
    using r by (auto simp: with_attr_def 1 2 3 bind_Some_iff)
  moreover have "en2 = en1" using 2 debug_keeps [OF i(2)] by (auto split: if_splits)
  ultimately show ?thesis using debug_keeps [OF i(1) 1] keepsD [OF f 3] debug_keeps [OF i(3)] by simp
qed

text \<open>
  So a lack of resources is not reported: with \<open>errno\<close> cleared no case of the switch applies. A creation that comes back has
  succeeded, and a lock that another thread holds cannot be tried.
\<close>

lemma create_never_fails:
  assumes law: "pthread_law pt"
  shows "i_mutex_create pt m en w e = Some (c, en', w', e') \<Longrightarrow> c = SUCCESS \<and> e' = e"
    and "i_rwlock_create pt m en w e = Some (c, en', w', e') \<Longrightarrow> c = SUCCESS \<and> e' = e"
    and "i_cond_create pt m 0 w e = Some (c, en', w', e') \<Longrightarrow> c = SUCCESS \<and> e' = e"
    and "i_thread_create pt m 0 w e = Some (c, en', w', e') \<Longrightarrow> c = SUCCESS \<and> e' = e"
    and "i_mutex_try_lock pt m en w = Some (b, en', w') \<Longrightarrow> b"
proof -
  have k: "keeps_errno (pt_mutex_init pt m)" "keeps_errno (pt_rwlock_init pt m)" "keeps_errno (pt_cond_init pt m)" "keeps_errno (pt_create pt m)"
    "keeps_errno (pt_mutex_trylock pt m)" using law by (simp_all add: pthread_law_def)
  note z = with_attr_errno [OF law k(1)] with_attr_errno [OF law k(2)] with_attr_errno [OF law k(3)] with_attr_errno [OF law k(4)]
  note codes = EAGAIN_def ENOMEM_def EBUSY_def UNREACHABLE_def
  show "i_mutex_create pt m en w e = Some (c, en', w', e') \<Longrightarrow> c = SUCCESS \<and> e' = e"
    by (auto simp: i_mutex_create_def bind_Some_iff codes dest!: z split: if_splits prod.split_asm)
  show "i_rwlock_create pt m en w e = Some (c, en', w', e') \<Longrightarrow> c = SUCCESS \<and> e' = e"
    by (auto simp: i_rwlock_create_def bind_Some_iff codes dest!: z split: if_splits prod.split_asm)
  show "i_cond_create pt m 0 w e = Some (c, en', w', e') \<Longrightarrow> c = SUCCESS \<and> e' = e"
    by (auto simp: i_cond_create_def bind_Some_iff codes dest!: z split: if_splits prod.split_asm)
  show "i_thread_create pt m 0 w e = Some (c, en', w', e') \<Longrightarrow> c = SUCCESS \<and> e' = e"
    by (auto simp: i_thread_create_def bind_Some_iff codes dest!: z split: if_splits prod.split_asm)
  show "i_mutex_try_lock pt m en w = Some (b, en', w') \<Longrightarrow> b"
    using keepsD [OF k(5)] by (cases "pt_mutex_trylock pt m 0 w") (fastforce simp: i_mutex_try_lock_def codes split: if_splits)
qed

section \<open>Time\<close>

definition ts_ns :: "timespec \<Rightarrow> int" where
  "ts_ns t = sint (fst t) * 1000000000 + sint (snd t)"

definition ts_ok :: "timespec \<Rightarrow> bool" where
  "ts_ok t \<longleftrightarrow> 0 \<le> sint (fst t) \<and> 0 \<le> sint (snd t) \<and> sint (snd t) < 1000000000"

lemma i64_of_Some: "i64_of v = Some x \<longleftrightarrow> - 9223372036854775808 \<le> v \<and> v < 9223372036854775808 \<and> x = word_of_int v"
  by (auto simp: i64_of_def)

lemma sint_i64: "\<lbrakk>- 9223372036854775808 \<le> v; v < 9223372036854775808\<rbrakk> \<Longrightarrow> sint (word_of_int v :: i64) = v"
  by (simp add: sint_sbintrunc' signed_take_bit_int_eq_self)

lemma i64_of_ok: "\<lbrakk>- 9223372036854775808 \<le> v; v < 9223372036854775808\<rbrakk> \<Longrightarrow> \<exists>x. i64_of v = Some x \<and> sint x = v"
  using sint_i64 [of v] unfolding i64_of_Some by blast

lemma sint_add_nonneg:
  assumes "0 \<le> sint (x :: i64)" and "sint x + int (unat y) < 9223372036854775808"
  shows "sint (x + y) = sint x + int (unat y)"
proof -
  have "x + y = word_of_int (sint x + int (unat y))" by (simp add: uint_nat [symmetric])
  moreover have "- 9223372036854775808 \<le> sint x + int (unat y)" using assms(1) by linarith
  ultimately show ?thesis using assms(2) sint_i64 [of "sint x + int (unat y)"] by (simp only:)
qed

text \<open>The deadline is a time again, and the given number of milliseconds later.\<close>

lemma cond_deadline_ok:
  assumes ok: "ts_ok now" and room: "sint (fst now) + int (unat (msec div 1000)) + 1 < 9223372036854775808"
  shows "\<exists>ts. cond_deadline now msec = Some ts \<and> ts_ok ts \<and> ts_ns ts = ts_ns now + int (unat msec) * 1000000"
proof -
  obtain sec nsec where now: "now = (sec, nsec)" by (cases now)
  let ?m = "(msec mod 1000) * 1000000" and ?s = "sec + msec div 1000"
  have r: "unat msec mod 1000 < 1000" by simp
  have m: "unat ?m = (unat msec mod 1000) * 1000000" by (simp add: unat_mult_lem [THEN iffD1] unat_mod)
  have b: "(unat msec mod 1000) * 1000000 < 1000000000" using r by linarith
  have s: "sint ?s = sint sec + int (unat msec div 1000)"
    using ok room by (subst sint_add_nonneg) (simp_all add: now ts_ok_def unat_div)
  have n: "sint (nsec + ?m) = sint nsec + int ((unat msec mod 1000) * 1000000)"
  proof -
    have "0 \<le> sint nsec" "sint nsec < 1000000000" using ok by (simp_all add: now ts_ok_def)
    then show ?thesis using b by (subst sint_add_nonneg) (unfold m, linarith+)
  qed
  have split: "int (unat msec) = int (unat msec div 1000) * 1000 + int (unat msec mod 1000)"
    by (metis div_mult_mod_eq of_nat_add of_nat_mult of_nat_numeral)
  have rs: "0 \<le> sint sec" "0 \<le> sint nsec" "sint nsec < 1000000000" "sint sec + int (unat msec div 1000) + 1 < 9223372036854775808"
    using ok room by (simp_all add: now ts_ok_def unat_div)
  show ?thesis
  proof (cases "1000000000 \<le> sint (nsec + ?m)")
    case True
    let ?sec = "word_of_int (sint ?s + 1) :: i64" and ?ns = "word_of_int (sint (nsec + ?m) - 1000000000) :: i64"
    have v: "sint ?sec = sint sec + int (unat msec div 1000) + 1" "sint ?ns = sint nsec + int ((unat msec mod 1000) * 1000000) - 1000000000"
      unfolding s n by (rule sint_i64; use rs b True n in linarith)+
    have "cond_deadline now msec = Some (?sec, ?ns)"
      using True rs b unfolding cond_deadline_def normal_ts_def now by (simp add: i64_of_def s n)
    moreover have "ts_ok (?sec, ?ns)" using v rs b True n unfolding ts_ok_def fst_conv snd_conv by linarith
    moreover have "ts_ns (?sec, ?ns) = ts_ns now + int (unat msec) * 1000000"
      unfolding ts_ns_def fst_conv snd_conv v split now by (simp add: algebra_simps)
    ultimately show ?thesis by blast
  next
    case False
    then have "cond_deadline now msec = Some (?s, nsec + ?m)" by (simp add: cond_deadline_def normal_ts_def now)
    moreover have "ts_ok (?s, nsec + ?m)" using False rs b s n unfolding ts_ok_def fst_conv snd_conv by linarith
    moreover have "ts_ns (?s, nsec + ?m) = ts_ns now + int (unat msec) * 1000000"
      unfolding ts_ns_def fst_conv snd_conv s n split now by (simp add: algebra_simps)
    ultimately show ?thesis by blast
  qed
qed

text \<open>The timer gives the time since its creation.\<close>

lemma i_timer_elapsed:
  assumes now: "pt_monotonic pt en w = (Some now, en', w')" and ok: "ts_ok now" "ts_ok (tm_start t)"
    and later: "ts_ns (tm_start t) \<le> ts_ns now" and room: "ts_ns now < 9223372036854775808"
  shows "\<exists>ns. i_timer_now_ns pt t en w = Some (ns, en', w') \<and> int (unat ns) = ts_ns now - ts_ns (tm_start t)"
proof -
  obtain s1 n1 s0 n0 where t: "now = (s1, n1)" "tm_start t = (s0, n0)" by (cases now; cases "tm_start t") blast
  have b: "0 \<le> sint s1" "0 \<le> sint n1" "sint n1 < 1000000000" "0 \<le> sint s0" "0 \<le> sint n0" "sint n0 < 1000000000"
    using ok by (simp_all add: t ts_ok_def)
  have e: "sint s0 * 1000000000 + sint n0 \<le> sint s1 * 1000000000 + sint n1" "sint s1 * 1000000000 + sint n1 < 9223372036854775808"
    using later room by (simp_all add: t ts_ns_def)
  let ?D = "sint s1 - sint s0" and ?N = "sint n1 - sint n0"
  let ?T = "?D * 1000000000 + ?N"
  have D: "?D * 1000000000 = sint s1 * 1000000000 - sint s0 * 1000000000" by (rule left_diff_distrib)
  obtain d where d: "i64_of ?D = Some d" "sint d = ?D"
  proof -
    have "- 9223372036854775808 \<le> ?D" "?D < 9223372036854775808" using b e by linarith+
    then show ?thesis using i64_of_ok that by blast
  qed
  obtain n where n: "i64_of ?N = Some n" "sint n = ?N"
  proof -
    have "- 9223372036854775808 \<le> ?N" "?N < 9223372036854775808" using b by linarith+
    then show ?thesis using i64_of_ok that by blast
  qed
  obtain p where p: "i64_of (?D * 1000000000) = Some p" "sint p = ?D * 1000000000"
  proof -
    have "- 9223372036854775808 \<le> ?D * 1000000000" "?D * 1000000000 < 9223372036854775808" using b e D by linarith+
    then show ?thesis using i64_of_ok that by blast
  qed
  have r: "0 \<le> ?T" "?T < 9223372036854775808" using b e D by linarith+
  have "i64_of ?T = Some (word_of_int ?T)" unfolding i64_of_Some by (intro conjI refl) (use r in linarith)+
  then have "i_timer_now_ns pt t en w = Some (word_of_int ?T, en', w')"
    unfolding i_timer_now_ns_def now t fst_conv snd_conv prod.case Option.bind.bind_lunit d n p by (simp only: Option.bind.bind_lunit)
  moreover have "int (unat (word_of_int ?T :: u64)) = ?T" using r by (simp only: unat_eq_nat_uint uint_word_of_int) simp
  moreover have "?T = ts_ns now - ts_ns (tm_start t)" by (simp add: ts_ns_def t algebra_simps)
  ultimately show ?thesis by metis
qed

end
