(* ===== verification/Semaphore.thy ===== *)
theory Semaphore
  imports Pthread "HOL-Library.Signed_Division"
begin

text \<open>
  The counting semaphore, \<^verbatim>\<open>intf/os_posix/semaphore.c\<close>: atomic sections under its mutex, interleaved by a step relation over any number
  of threads. A sleeper wakes when it is signalled, without cause, or at its deadline; a timed wait that
  ends at its deadline may have taken the signal, as the standard allows.
\<close>

section \<open>State and sections\<close>

record semaphore =
  sm_mutex :: nat
  sm_cond :: nat
  sm_count :: u32

definition i_semaphore_create :: "'w pthreads \<Rightarrow> semaphore \<Rightarrow> u32 \<Rightarrow> int \<Rightarrow> 'w \<Rightarrow> errp \<Rightarrow> err_t \<times> semaphore \<times> int \<times> 'w \<times> errp" where
  "i_semaphore_create pt s val en w e = (case pt_mutex_init pt (sm_mutex s) en w of (r, en, w) \<Rightarrow>
     if r \<noteq> 0 then (case error_causef e ERR_IO (''pthread_mutex_init: '' @ pt_strerror pt en) of (e, c) \<Rightarrow> (c, s, en, w, e))
     else (case pt_cond_init pt (sm_cond s) en w of (r, en, w) \<Rightarrow>
       if r \<noteq> 0 then
         (case pt_mutex_destroy pt (sm_mutex s) en w of (_, en, w) \<Rightarrow>
          case error_causef e ERR_IO (''pthread_cond_init: '' @ pt_strerror pt en) of (e, c) \<Rightarrow> (c, s, en, w, e))
       else (SUCCESS, s\<lparr>sm_count := val\<rparr>, en, w, e)))"

definition i_semaphore_free :: "'w pthreads \<Rightarrow> semaphore \<Rightarrow> int \<Rightarrow> 'w \<Rightarrow> int \<times> 'w" where
  "i_semaphore_free pt s en w = (case pt_cond_destroy pt (sm_cond s) en w of (_, en, w) \<Rightarrow>
     case pt_mutex_destroy pt (sm_mutex s) en w of (_, en, w) \<Rightarrow> (en, w))"

text \<open>What a post does before it signals, and what a wait does when it has the mutex: \<open>None\<close> goes to sleep.\<close>

definition i_semaphore_post :: "semaphore \<Rightarrow> semaphore" where
  "i_semaphore_post s = s\<lparr>sm_count := sm_count s + 1\<rparr>"

definition i_semaphore_wait :: "semaphore \<Rightarrow> semaphore option" where
  "i_semaphore_wait s = (if sm_count s = 0 then None else Some (s\<lparr>sm_count := sm_count s - 1\<rparr>))"

definition i_semaphore_try_wait :: "semaphore \<Rightarrow> bool \<times> semaphore" where
  "i_semaphore_try_wait s = (let acquired = sm_count s > 0 in (acquired, if acquired then s\<lparr>sm_count := sm_count s - 1\<rparr> else s))"

text \<open>The deadline of the timed wait; division and remainder of a negative number of milliseconds cut towards zero.\<close>

definition sem_deadline :: "timespec \<Rightarrow> i64 \<Rightarrow> timespec option" where
  "sem_deadline now msec = (case now of (sec, nsec) \<Rightarrow> do {
     sec \<leftarrow> i64_of (sint sec + sint msec sdiv 1000);
     add \<leftarrow> i64_of ((sint msec smod 1000) * 1000000);
     nsec \<leftarrow> i64_of (sint nsec + sint add);
     normal_ts sec nsec
   })"

text \<open>A negative one gives a time with negative nanoseconds, which the system refuses at once, and the loop does not end on a refusal.\<close>

lemma sem_deadline_negative: "sem_deadline (10, 0) (- 1) = Some (10, - 1000000)"
  by code_simp

section \<open>Threads\<close>

text \<open>A thread is outside, asleep on the condition, or woken and not yet back; the flag tells a timed wait.\<close>

datatype sem_pc = Sm_idle | Sm_asleep bool | Sm_woken bool

text \<open>Beside the semaphore, \<open>ss_taken\<close> counts the units handed out and \<open>ss_posted\<close> the posts.\<close>

record sem_sys =
  ss_sem :: semaphore
  ss_pcs :: "sem_pc list"
  ss_taken :: nat
  ss_posted :: nat

inductive sem_step :: "bool \<Rightarrow> sem_sys \<Rightarrow> sem_sys \<Rightarrow> bool" for timed :: bool where
  sem_try: "\<lbrakk>i < length (ss_pcs x); ss_pcs x ! i = Sm_idle; i_semaphore_try_wait (ss_sem x) = (got, s)\<rbrakk> \<Longrightarrow>
    sem_step timed x (x\<lparr>ss_sem := s, ss_taken := ss_taken x + of_bool got\<rparr>)"
| sem_take: "\<lbrakk>i < length (ss_pcs x); ss_pcs x ! i = Sm_idle \<or> ss_pcs x ! i = Sm_woken t; i_semaphore_wait (ss_sem x) = Some s\<rbrakk> \<Longrightarrow>
    sem_step timed x (x\<lparr>ss_sem := s, ss_pcs := (ss_pcs x)[i := Sm_idle], ss_taken := ss_taken x + 1\<rparr>)"
| sem_sleep: "\<lbrakk>i < length (ss_pcs x); ss_pcs x ! i = Sm_idle \<and> (t \<longrightarrow> timed) \<or> ss_pcs x ! i = Sm_woken t; i_semaphore_wait (ss_sem x) = None\<rbrakk> \<Longrightarrow>
    sem_step timed x (x\<lparr>ss_pcs := (ss_pcs x)[i := Sm_asleep t]\<rparr>)"
| sem_post: "\<lbrakk>i < length (ss_pcs x); ss_pcs x ! i = Sm_idle; j < length (ss_pcs x); ss_pcs x ! j = Sm_asleep t\<rbrakk> \<Longrightarrow>
    sem_step timed x (x\<lparr>ss_sem := i_semaphore_post (ss_sem x), ss_pcs := (ss_pcs x)[j := Sm_woken t], ss_posted := ss_posted x + 1\<rparr>)"
| sem_post_alone: "\<lbrakk>i < length (ss_pcs x); ss_pcs x ! i = Sm_idle; \<forall>t. Sm_asleep t \<notin> set (ss_pcs x)\<rbrakk> \<Longrightarrow>
    sem_step timed x (x\<lparr>ss_sem := i_semaphore_post (ss_sem x), ss_posted := ss_posted x + 1\<rparr>)"
| sem_spurious: "\<lbrakk>i < length (ss_pcs x); ss_pcs x ! i = Sm_asleep t\<rbrakk> \<Longrightarrow>
    sem_step timed x (x\<lparr>ss_pcs := (ss_pcs x)[i := Sm_woken t]\<rparr>)"
| sem_expire: "\<lbrakk>i < length (ss_pcs x); ss_pcs x ! i = Sm_asleep True \<or> ss_pcs x ! i = Sm_woken True\<rbrakk> \<Longrightarrow>
    sem_step timed x (x\<lparr>ss_pcs := (ss_pcs x)[i := Sm_idle]\<rparr>)"

inductive sem_reach :: "bool \<Rightarrow> semaphore \<Rightarrow> nat \<Rightarrow> sem_sys \<Rightarrow> bool" for timed :: bool and s :: semaphore and n :: nat where
  sem_start: "sem_reach timed s n \<lparr>ss_sem = s, ss_pcs = replicate n Sm_idle, ss_taken = 0, ss_posted = 0\<rparr>"
| sem_next: "\<lbrakk>sem_reach timed s n x; sem_step timed x y\<rbrakk> \<Longrightarrow> sem_reach timed s n y"

inductive_cases sem_stepE: "sem_step timed x y"

section \<open>Counting\<close>

definition woken :: "sem_pc list \<Rightarrow> nat" where
  "woken ps = length (filter (\<lambda>p. \<exists>t. p = Sm_woken t) ps)"

lemma woken_upd: "i < length ps \<Longrightarrow>
  woken (ps[i := p]) + of_bool (\<exists>t. ps ! i = Sm_woken t) = woken ps + of_bool (\<exists>t. p = Sm_woken t)"
proof (induction ps arbitrary: i)
  case (Cons q ps)
  then show ?case by (cases i) (auto simp: woken_def)
qed simp

lemma wait_count: "i_semaphore_wait s = Some s' \<Longrightarrow> unat (sm_count s) = unat (sm_count s') + 1"
  by (auto simp: i_semaphore_wait_def unat_minus_one unat_gt_0 split: if_splits)

lemma wait_None: "i_semaphore_wait s = None \<longleftrightarrow> unat (sm_count s) = 0"
  by (auto simp: i_semaphore_wait_def unat_eq_0)

lemma try_count: "i_semaphore_try_wait s = (got, s') \<Longrightarrow> unat (sm_count s) = unat (sm_count s') + of_bool got \<and> got = (0 < unat (sm_count s))"
  by (auto simp: i_semaphore_try_wait_def Let_def word_less_nat_alt unat_minus_one unat_gt_0)

lemma post_count: "unat (sm_count (i_semaphore_post s)) = (unat (sm_count s) + 1) mod 4294967296"
  by (simp add: i_semaphore_post_def unat_word_ariths)

section \<open>Properties\<close>

text \<open>
  C38. The semaphore conserves its units. In every interleaving of tries, waits, timed waits and posts, while no more than
  \<open>2^32 - 1\<close> units have been put in, what has been taken and what is left add up to the initial value and the posts.
\<close>

theorem semaphore_conserves_units:
  assumes "sem_reach timed s n x" and "unat (sm_count s) + ss_posted x < 4294967296"
  shows "unat (sm_count (ss_sem x)) + ss_taken x = unat (sm_count s) + ss_posted x"
  using assms
proof induction
  case (sem_next x y)
  have le: "unat (sm_count s) + ss_posted x < 4294967296" using sem_next.hyps(2) sem_next.prems by (cases rule: sem_step.cases) auto
  from sem_next.hyps(2) sem_next.prems sem_next.IH [OF le] show ?case
    by (cases rule: sem_step.cases) (auto simp: post_count dest!: wait_count try_count)
qed simp

text \<open>A state no timed wait has touched, in which every unit a sleeper could take has a thread on its way to it.\<close>

definition sem_fair :: "sem_sys \<Rightarrow> bool" where
  "sem_fair x \<longleftrightarrow> Sm_asleep True \<notin> set (ss_pcs x) \<and> Sm_woken True \<notin> set (ss_pcs x) \<and>
     (Sm_asleep False \<in> set (ss_pcs x) \<longrightarrow> unat (sm_count (ss_sem x)) \<le> woken (ss_pcs x))"

lemma in_upd: "q \<in> set (ps[i := p]) \<Longrightarrow> q = p \<or> q \<in> set ps"
  using set_update_subset_insert [of ps i p] by auto

lemma sem_fair_upd:
  assumes "sem_fair x" and "ss_pcs y = (ss_pcs x)[i := p]" and "p \<noteq> Sm_asleep True" and "p \<noteq> Sm_woken True"
    and "Sm_asleep False \<in> set (ss_pcs y) \<Longrightarrow> unat (sm_count (ss_sem y)) \<le> woken (ss_pcs y)"
  shows "sem_fair y"
  using assms in_upd [of _ "ss_pcs x" i p] unfolding sem_fair_def by metis

lemma sem_fair_nth:
  assumes "sem_fair x" and "i < length (ss_pcs x)"
  shows "ss_pcs x ! i \<noteq> Sm_asleep True" and "ss_pcs x ! i \<noteq> Sm_woken True"
    and "ss_pcs x ! i = Sm_asleep False \<Longrightarrow> unat (sm_count (ss_sem x)) \<le> woken (ss_pcs x)"
  using assms nth_mem [of i "ss_pcs x"] unfolding sem_fair_def by metis+

lemma sem_fair_step:
  assumes f: "sem_fair x" and st: "sem_step False x y"
  shows "sem_fair y"
  using st
proof (cases rule: sem_step.cases)
  case (sem_try i got s)
  have "unat (sm_count s) \<le> unat (sm_count (ss_sem x))" using conjunct1 [OF try_count [OF sem_try(4)]] by linarith
  then show ?thesis using f sem_try(1) by (auto simp: sem_fair_def)
next
  case (sem_take i t s)
  show ?thesis
  proof (rule sem_fair_upd [OF f])
    show "ss_pcs y = (ss_pcs x)[i := Sm_idle]" using sem_take(1) by simp
    assume "Sm_asleep False \<in> set (ss_pcs y)"
    then have "Sm_asleep False \<in> set ((ss_pcs x)[i := Sm_idle])" using sem_take(1) by simp
    from in_upd [OF this] have "Sm_asleep False \<in> set (ss_pcs x)" by simp
    then have "unat (sm_count (ss_sem x)) \<le> woken (ss_pcs x)" using f by (simp add: sem_fair_def)
    moreover have "woken (ss_pcs x) \<le> woken ((ss_pcs x)[i := Sm_idle]) + 1" 
      using woken_upd [of i "ss_pcs x" Sm_idle] sem_take(2) by (cases "\<exists>t. ss_pcs x ! i = Sm_woken t") simp_all
    ultimately show "unat (sm_count (ss_sem y)) \<le> woken (ss_pcs y)" using wait_count [OF sem_take(4)] sem_take(1) by simp
  qed simp_all
next
  case (sem_sleep i t)
  then have "\<not> t" using sem_fair_nth [OF f] by auto
  then show ?thesis using sem_sleep by (intro sem_fair_upd [OF f]) (auto simp: wait_None)
next
  case (sem_post i j t)
  then have "\<not> t" "unat (sm_count (ss_sem x)) \<le> woken (ss_pcs x)" using sem_fair_nth [OF f] by (cases t; auto)+
  moreover have "woken ((ss_pcs x)[j := Sm_woken t]) = woken (ss_pcs x) + 1" using woken_upd [of j "ss_pcs x" "Sm_woken t"] sem_post by simp
  moreover have "unat (sm_count (i_semaphore_post (ss_sem x))) \<le> unat (sm_count (ss_sem x)) + 1" by (simp add: post_count)
  ultimately show ?thesis using sem_post(1) by (intro sem_fair_upd [OF f, of _ j "Sm_woken t"]) simp_all
next
  case (sem_post_alone i)
  then show ?thesis using f by (auto simp: sem_fair_def)
next
  case (sem_spurious i t)
  then have "\<not> t" "unat (sm_count (ss_sem x)) \<le> woken (ss_pcs x)" using sem_fair_nth [OF f] by (cases t; auto)+
  moreover have "woken ((ss_pcs x)[i := Sm_woken t]) = woken (ss_pcs x) + 1" using woken_upd [of i "ss_pcs x" "Sm_woken t"] sem_spurious by simp
  ultimately show ?thesis using sem_spurious(1) by (intro sem_fair_upd [OF f, of _ i "Sm_woken t"]) simp_all
next
  case (sem_expire i)
  then show ?thesis using sem_fair_nth [OF f] by blast
qed

lemma sem_reach_fair: "sem_reach False s n x \<Longrightarrow> sem_fair x"
proof (induction rule: sem_reach.induct)
  case sem_start
  then show ?case by (auto simp: sem_fair_def)
next
  case (sem_next x y)
  then show ?case by (blast intro: sem_fair_step)
qed

text \<open>
  C37. No wake-up of the semaphore is lost. Where no thread uses the timed wait, in every reachable state with a unit left and a thread
  asleep there is a woken thread on its way to the unit, and its next section takes it.
\<close>

theorem semaphore_no_lost_wakeup:
  assumes "sem_reach False s n x" and "Sm_asleep t \<in> set (ss_pcs x)" and "0 < sm_count (ss_sem x)"
  shows "\<exists>i<length (ss_pcs x). ss_pcs x ! i = Sm_woken False \<and>
    (\<exists>s'. i_semaphore_wait (ss_sem x) = Some s' \<and>
      sem_step False x (x\<lparr>ss_sem := s', ss_pcs := (ss_pcs x)[i := Sm_idle], ss_taken := ss_taken x + 1\<rparr>))"
proof -
  have f: "sem_fair x" by (rule sem_reach_fair [OF assms(1)])
  then have "t = False" using assms(2) by (cases t) (auto simp: sem_fair_def)
  then have "0 < woken (ss_pcs x)" using f assms(2,3) by (auto simp: sem_fair_def word_less_nat_alt)
  then obtain p b where "p \<in> set (ss_pcs x)" "p = Sm_woken b" by (auto simp: woken_def filter_empty_conv)
  then obtain i where i: "i < length (ss_pcs x)" "ss_pcs x ! i = Sm_woken b" by (auto simp: in_set_conv_nth)
  then have "b = False" using f by (cases b) (auto simp: sem_fair_def dest: nth_mem)
  moreover have "sm_count (ss_sem x) \<noteq> 0" using assms(3) by auto
  then obtain s' where "i_semaphore_wait (ss_sem x) = Some s'" by (simp add: i_semaphore_wait_def)
  ultimately show ?thesis using i sem_take [of i x False s' False] by blast
qed

text \<open>With timed waits one can be: the waiter that the post has woken gives up at its deadline, and the other one sleeps on.\<close>

lemma semaphore_timed_wait_loses_wakeup:
  "\<exists>x. sem_reach True \<lparr>sm_mutex = 0, sm_cond = 0, sm_count = 0\<rparr> 3 x \<and> sm_count (ss_sem x) = 1 \<and> ss_pcs x = [Sm_idle, Sm_asleep False, Sm_idle]"
proof -
  let ?s = "\<lparr>sm_mutex = 0, sm_cond = 0, sm_count = 0\<rparr>"
  let ?x = "\<lambda>c ps k. \<lparr>ss_sem = ?s\<lparr>sm_count := c\<rparr>, ss_pcs = ps, ss_taken = 0, ss_posted = k\<rparr>"
  have none: "i_semaphore_wait ?s = None" by (simp add: i_semaphore_wait_def)
  have "sem_reach True ?s 3 (?x 0 [Sm_idle, Sm_idle, Sm_idle] 0)"
    using sem_start [of True ?s 3] by (simp add: numeral_eq_Suc)
  from sem_next [OF this sem_sleep [of 0 _ True]] none have "sem_reach True ?s 3 (?x 0 [Sm_asleep True, Sm_idle, Sm_idle] 0)" by simp
  from sem_next [OF this sem_sleep [of 1 _ False]] none have "sem_reach True ?s 3 (?x 0 [Sm_asleep True, Sm_asleep False, Sm_idle] 0)" by simp
  from sem_next [OF this sem_post [of 2 _ 0 True]] have "sem_reach True ?s 3 (?x 1 [Sm_woken True, Sm_asleep False, Sm_idle] 1)"
    by (simp add: i_semaphore_post_def)
  from sem_next [OF this sem_expire [of 0]] have "sem_reach True ?s 3 (?x 1 [Sm_idle, Sm_asleep False, Sm_idle] 1)" by simp
  then show ?thesis by force
qed

text \<open>A thread sleeps, another posts: the unit waits for the first.\<close>

lemma sem_example: "sem_reach False \<lparr>sm_mutex = 0, sm_cond = 0, sm_count = 0\<rparr> 3
    \<lparr>ss_sem = \<lparr>sm_mutex = 0, sm_cond = 0, sm_count = 1\<rparr>, ss_pcs = [Sm_woken False, Sm_asleep False, Sm_idle], ss_taken = 0, ss_posted = 1\<rparr>"
proof -
  let ?s = "\<lparr>sm_mutex = 0, sm_cond = 0, sm_count = 0\<rparr>"
  let ?x = "\<lambda>c ps k. \<lparr>ss_sem = ?s\<lparr>sm_count := c\<rparr>, ss_pcs = ps, ss_taken = 0, ss_posted = k\<rparr>"
  have none: "i_semaphore_wait ?s = None" by (simp add: i_semaphore_wait_def)
  have "sem_reach False ?s 3 (?x 0 [Sm_idle, Sm_idle, Sm_idle] 0)"
    using sem_start [of False ?s 3] by (simp add: numeral_eq_Suc)
  from sem_next [OF this sem_sleep [of 0 _ False]] none have "sem_reach False ?s 3 (?x 0 [Sm_asleep False, Sm_idle, Sm_idle] 0)" by simp
  from sem_next [OF this sem_sleep [of 1 _ False]] none have "sem_reach False ?s 3 (?x 0 [Sm_asleep False, Sm_asleep False, Sm_idle] 0)" by simp
  from sem_next [OF this sem_post [of 2 _ 0 False]] show ?thesis by (simp add: i_semaphore_post_def)
qed

theorem semaphore_no_lost_wakeup_witness:
  "\<exists>x. sem_reach False \<lparr>sm_mutex = 0, sm_cond = 0, sm_count = 0\<rparr> 3 x \<and> sm_count (ss_sem x) = 1 \<and>
     (\<exists>i<3. ss_pcs x ! i = Sm_woken False)"
proof -
  let ?y = "\<lparr>ss_sem = \<lparr>sm_mutex = 0, sm_cond = 0, sm_count = 1\<rparr>, ss_pcs = [Sm_woken False, Sm_asleep False, Sm_idle], ss_taken = 0, ss_posted = 1\<rparr>"
  have "Sm_asleep False \<in> set [Sm_woken False, Sm_asleep False, Sm_idle]" by simp
  with semaphore_no_lost_wakeup [OF sem_example, of False] have "\<exists>i<3. [Sm_woken False, Sm_asleep False, Sm_idle] ! i = Sm_woken False"
    by (simp del: nth_Cons_0 nth_Cons_Suc nth_Cons_numeral add: numeral_eq_Suc) blast
  then have "sm_count (ss_sem ?y) = 1 \<and> (\<exists>i<3. ss_pcs ?y ! i = Sm_woken False)" by simp
  with sem_example show ?thesis by blast
qed

theorem semaphore_conserves_units_witness:
  "\<exists>x. sem_reach False \<lparr>sm_mutex = 0, sm_cond = 0, sm_count = 0\<rparr> 3 x \<and> unat (sm_count (ss_sem x)) + ss_taken x = 1"
  using semaphore_conserves_units [OF sem_example] sem_example by force

end
