(* ===== verification/Periodic_task.thy ===== *)
theory Periodic_task
  imports Semaphore
begin

text \<open>
  The task of \<^verbatim>\<open>concurrency/periodic_task.c\<close>: a thread that calls a function when it is woken. Starting and
  creating are functions; the loop of the thread, the stop and the wake-up are atomic sections under the mutex of the task,
  interleaved by a step relation.
\<close>

section \<open>The task\<close>

record periodic_task =
  tk_thread :: nat
  tk_mutex :: nat
  tk_wake_cond :: nat
  tk_done_cond :: nat
  tk_wake_requested :: bool
  tk_done :: bool
  tk_stop :: bool
  tk_running :: bool
  tk_msec :: u64

definition periodic_task_init ::
  "'w pthreads \<Rightarrow> periodic_task \<Rightarrow> int \<Rightarrow> 'w \<Rightarrow> errp \<Rightarrow> (err_t \<times> periodic_task \<times> int \<times> 'w \<times> errp) option" where
  "periodic_task_init pt t en w e = do {
     let t = t\<lparr>tk_stop := False, tk_wake_requested := False, tk_done := False, tk_running := False\<rparr>;
     (c, en, w, e) \<leftarrow> i_mutex_create pt (tk_mutex t) en w e;
     if c \<noteq> SUCCESS then do { c \<leftarrow> error_trace e; Some (c, t, en, w, e) }
     else do {
       (c, en, w, e) \<leftarrow> i_cond_create pt (tk_wake_cond t) en w e;
       if c \<noteq> SUCCESS then do { (en, w) \<leftarrow> i_mutex_free pt (tk_mutex t) en w; c \<leftarrow> error_trace e; Some (c, t, en, w, e) }
       else do {
         (c, en, w, e) \<leftarrow> i_cond_create pt (tk_done_cond t) en w e;
         (en, w) \<leftarrow> (if c \<noteq> SUCCESS then do { (en, w) \<leftarrow> i_cond_free pt (tk_wake_cond t) en w; i_mutex_free pt (tk_mutex t) en w } else Some (en, w));
         c \<leftarrow> error_trace e;
         Some (c, t, en, w, e)
       }
     }
   }"

definition periodic_task_start ::
  "'w pthreads \<Rightarrow> periodic_task \<Rightarrow> u64 \<Rightarrow> int \<Rightarrow> 'w \<Rightarrow> errp \<Rightarrow> (err_t \<times> periodic_task \<times> int \<times> 'w \<times> errp) option" where
  "periodic_task_start pt t msec en w e = do {
     let t = t\<lparr>tk_msec := msec\<rparr>;
     (c, en, w, e) \<leftarrow> i_thread_create pt (tk_thread t) en w e;
     if c \<noteq> SUCCESS then do { c \<leftarrow> error_trace e; Some (c, t, en, w, e) }
     else Some (SUCCESS, t\<lparr>tk_running := True\<rparr>, en, w, e)
   }"

text \<open>The sections: the test of the thread, where \<open>None\<close> goes to sleep and the flag says to stop; its end; the stop; the wake-up.\<close>

definition thread_test :: "periodic_task \<Rightarrow> (bool \<times> periodic_task) option" where
  "thread_test t = (if \<not> tk_wake_requested t \<and> \<not> tk_stop t then None else Some (tk_stop t, t\<lparr>tk_wake_requested := False\<rparr>))"

definition thread_end :: "periodic_task \<Rightarrow> periodic_task" where
  "thread_end t = t\<lparr>tk_done := True\<rparr>"

definition stop_request :: "periodic_task \<Rightarrow> periodic_task" where
  "stop_request t = t\<lparr>tk_stop := True\<rparr>"

definition periodic_task_wake :: "periodic_task \<Rightarrow> periodic_task" where
  "periodic_task_wake t = t\<lparr>tk_wake_requested := True\<rparr>"

text \<open>The rest of the stop, when the thread has said that it is done.\<close>

definition stop_release :: "'w pthreads \<Rightarrow> periodic_task \<Rightarrow> int \<Rightarrow> 'w \<Rightarrow> errp \<Rightarrow> (err_t \<times> periodic_task \<times> int \<times> 'w \<times> errp) option" where
  "stop_release pt t en w e = do {
     (_, en, w) \<leftarrow> i_thread_join pt (tk_thread t) en w;
     (en, w) \<leftarrow> i_cond_free pt (tk_done_cond t) en w;
     (en, w) \<leftarrow> i_cond_free pt (tk_wake_cond t) en w;
     (en, w) \<leftarrow> i_mutex_free pt (tk_mutex t) en w;
     c \<leftarrow> error_trace e;
     Some (c, t\<lparr>tk_running := False\<rparr>, en, w, e)
   }"

text \<open>The stop as its caller runs it; \<open>await\<close> is what the other threads do to the task while the caller waits for \<open>done\<close>.\<close>

definition periodic_task_stop ::
  "'w pthreads \<Rightarrow> (periodic_task \<Rightarrow> int \<Rightarrow> 'w \<Rightarrow> (periodic_task \<times> int \<times> 'w) option) \<Rightarrow> periodic_task \<Rightarrow> int \<Rightarrow> 'w \<Rightarrow> errp \<Rightarrow>
    (err_t \<times> periodic_task \<times> int \<times> 'w \<times> errp) option" where
  "periodic_task_stop pt await t en w e =
     (if \<not> tk_running t then Some (SUCCESS, t, en, w, e)
      else do {
        (en, w) \<leftarrow> i_mutex_lock pt (tk_mutex t) en w;
        let t = stop_request t;
        (en, w) \<leftarrow> i_cond_signal pt (tk_wake_cond t) en w;
        (en, w) \<leftarrow> i_mutex_unlock pt (tk_mutex t) en w;
        (en, w) \<leftarrow> i_mutex_lock pt (tk_mutex t) en w;
        (t, en, w) \<leftarrow> (if tk_done t then Some (t, en, w) else await t en w);
        (en, w) \<leftarrow> i_mutex_unlock pt (tk_mutex t) en w;
        stop_release pt t en w e
      })"

section \<open>Threads\<close>

text \<open>
  The thread before and after its life, about to test, asleep, calling its function, leaving. The owner before the
  start, after it, and in the stop: about to test \<open>done\<close>, asleep, joining, finished.
\<close>

datatype task_pc = Tk_none | Tk_test | Tk_asleep | Tk_call | Tk_leave | Tk_gone

datatype owner_pc = Ow_new | Ow_up | Ow_test | Ow_asleep | Ow_join | Ow_freed

record task_sys =
  ts_task :: periodic_task
  ts_pc :: task_pc
  ts_owner :: owner_pc
  ts_calls :: nat
  ts_wakes :: nat

text \<open>A signal wakes the sleeper, if there is one.\<close>

definition signal_task :: "task_pc \<Rightarrow> task_pc" where
  "signal_task p = (if p = Tk_asleep then Tk_test else p)"

definition signal_owner :: "owner_pc \<Rightarrow> owner_pc" where
  "signal_owner p = (if p = Ow_asleep then Ow_test else p)"

text \<open>The flag tells the steps of the code from what comes from outside: wake-up requests, the period, wake-ups without cause.\<close>

inductive task_step :: "bool \<Rightarrow> task_sys \<Rightarrow> task_sys \<Rightarrow> bool" where
  task_sleeps: "\<lbrakk>ts_pc x = Tk_test; thread_test (ts_task x) = None\<rbrakk> \<Longrightarrow> task_step True x (x\<lparr>ts_pc := Tk_asleep\<rparr>)"
| task_goes: "\<lbrakk>ts_pc x = Tk_test; thread_test (ts_task x) = Some (should_stop, t)\<rbrakk> \<Longrightarrow>
    task_step True x (x\<lparr>ts_task := t, ts_pc := (if should_stop then Tk_leave else Tk_call)\<rparr>)"
| task_calls: "ts_pc x = Tk_call \<Longrightarrow> task_step True x (x\<lparr>ts_pc := Tk_test, ts_calls := ts_calls x + 1\<rparr>)"
| task_leaves: "ts_pc x = Tk_leave \<Longrightarrow>
    task_step True x (x\<lparr>ts_task := thread_end (ts_task x), ts_pc := Tk_gone, ts_owner := signal_owner (ts_owner x)\<rparr>)"
| task_wakes: "ts_pc x = Tk_asleep \<Longrightarrow> task_step False x (x\<lparr>ts_pc := Tk_test\<rparr>)"
| task_woken: "ts_owner x \<noteq> Ow_freed \<Longrightarrow>
    task_step False x (x\<lparr>ts_task := periodic_task_wake (ts_task x), ts_pc := signal_task (ts_pc x), ts_wakes := ts_wakes x + 1\<rparr>)"
| owner_starts: "ts_owner x = Ow_new \<Longrightarrow>
    task_step True x (x\<lparr>ts_task := (ts_task x)\<lparr>tk_running := True\<rparr>, ts_pc := Tk_test, ts_owner := Ow_up\<rparr>)"
| owner_stops: "ts_owner x = Ow_up \<Longrightarrow>
    task_step True x (x\<lparr>ts_task := stop_request (ts_task x), ts_pc := signal_task (ts_pc x), ts_owner := Ow_test\<rparr>)"
| owner_tests: "ts_owner x = Ow_test \<Longrightarrow>
    task_step True x (x\<lparr>ts_owner := (if tk_done (ts_task x) then Ow_join else Ow_asleep)\<rparr>)"
| owner_wakes: "ts_owner x = Ow_asleep \<Longrightarrow> task_step False x (x\<lparr>ts_owner := Ow_test\<rparr>)"
| owner_frees: "\<lbrakk>ts_owner x = Ow_join; ts_pc x = Tk_gone\<rbrakk> \<Longrightarrow>
    task_step True x (x\<lparr>ts_task := (ts_task x)\<lparr>tk_running := False\<rparr>, ts_owner := Ow_freed\<rparr>)"

text \<open>From an initialised task.\<close>

definition task_fresh :: "periodic_task \<Rightarrow> task_sys" where
  "task_fresh t = \<lparr>ts_task = t\<lparr>tk_stop := False, tk_wake_requested := False, tk_done := False, tk_running := False\<rparr>,
     ts_pc = Tk_none, ts_owner = Ow_new, ts_calls = 0, ts_wakes = 0\<rparr>"

inductive task_reach :: "periodic_task \<Rightarrow> task_sys \<Rightarrow> bool" for t :: periodic_task where
  task_start: "task_reach t (task_fresh t)"
| task_next: "\<lbrakk>task_reach t x; task_step b x y\<rbrakk> \<Longrightarrow> task_reach t y"

section \<open>The invariant\<close>

definition task_inv :: "task_sys \<Rightarrow> bool" where
  "task_inv x \<longleftrightarrow>
     (ts_pc x = Tk_none \<longleftrightarrow> ts_owner x = Ow_new) \<and>
     (tk_done (ts_task x) \<longleftrightarrow> ts_pc x = Tk_gone) \<and>
     (tk_stop (ts_task x) \<longleftrightarrow> ts_owner x \<notin> {Ow_new, Ow_up}) \<and>
     (tk_running (ts_task x) \<longleftrightarrow> ts_owner x \<notin> {Ow_new, Ow_freed}) \<and>
     (ts_pc x = Tk_asleep \<longrightarrow> \<not> tk_wake_requested (ts_task x) \<and> \<not> tk_stop (ts_task x)) \<and>
     (ts_pc x \<in> {Tk_leave, Tk_gone} \<longrightarrow> tk_stop (ts_task x)) \<and>
     (ts_owner x = Ow_asleep \<longrightarrow> ts_pc x \<noteq> Tk_gone) \<and>
     (ts_owner x \<in> {Ow_join, Ow_freed} \<longrightarrow> ts_pc x = Tk_gone) \<and>
     ts_calls x + of_bool (tk_wake_requested (ts_task x)) + of_bool (ts_pc x = Tk_call) \<le> ts_wakes x"

lemma task_inv_step: "task_step b x y \<Longrightarrow> task_inv x \<Longrightarrow> task_inv y"
  by (induction rule: task_step.induct)
    (auto simp: task_inv_def thread_test_def thread_end_def stop_request_def periodic_task_wake_def signal_task_def signal_owner_def split: if_splits)

lemma task_reach_inv: "task_reach t x \<Longrightarrow> task_inv x"
proof (induction rule: task_reach.induct)
  case task_start
  then show ?case by (simp add: task_inv_def task_fresh_def)
next
  case (task_next x b y)
  then show ?case by (blast intro: task_inv_step)
qed

section \<open>The stop\<close>

definition stopping :: "task_sys \<Rightarrow> bool" where
  "stopping x \<longleftrightarrow> task_inv x \<and> ts_owner x \<notin> {Ow_new, Ow_up}"

text \<open>What the thread and the owner have left to do.\<close>

fun pc_left :: "task_pc \<Rightarrow> nat" where
  "pc_left Tk_call = 3"
| "pc_left Tk_test = 2"
| "pc_left Tk_leave = 1"
| "pc_left _ = 0"

fun owner_left :: "owner_pc \<Rightarrow> nat" where
  "owner_left Ow_test = 3"
| "owner_left Ow_asleep = 2"
| "owner_left Ow_join = 1"
| "owner_left _ = 0"

definition steps_left :: "task_sys \<Rightarrow> nat" where
  "steps_left x = 4 * pc_left (ts_pc x) + owner_left (ts_owner x)"

definition calls_ahead :: "task_sys \<Rightarrow> nat" where
  "calls_ahead x = ts_calls x + of_bool (ts_pc x = Tk_call)"

lemma steps_left_bound: "steps_left x \<le> 15"
  by (cases "ts_pc x"; cases "ts_owner x") (simp_all add: steps_left_def)

lemma stopping_step:
  assumes "task_step True x y" and "stopping x"
  shows "stopping y \<and> steps_left y < steps_left x \<and> calls_ahead y \<le> calls_ahead x"
proof -
  have "task_inv y" using task_inv_step assms unfolding stopping_def by blast
  moreover from assms have "ts_owner y \<notin> {Ow_new, Ow_up} \<and> steps_left y < steps_left x \<and> calls_ahead y \<le> calls_ahead x"
    by (cases rule: task_step.cases)
      (auto simp: stopping_def task_inv_def steps_left_def calls_ahead_def thread_test_def signal_owner_def split: if_splits)
  ultimately show ?thesis by (simp add: stopping_def)
qed

lemma stopping_moves:
  assumes s: "stopping x" and "ts_owner x \<noteq> Ow_freed"
  shows "\<exists>y. task_step True x y"
proof (cases "ts_owner x = Ow_test")
  case True
  then show ?thesis by (blast intro: owner_tests)
next
  case False
  then have o: "ts_owner x = Ow_asleep \<or> ts_owner x = Ow_join" using assms by (cases "ts_owner x") (auto simp: stopping_def)
  have stop: "tk_stop (ts_task x)" using s o by (auto simp: stopping_def task_inv_def)
  show ?thesis
  proof (cases "ts_pc x")
    case Tk_test
    have "thread_test (ts_task x) = Some (True, (ts_task x)\<lparr>tk_wake_requested := False\<rparr>)" using stop by (simp add: thread_test_def)
    then show ?thesis using task_goes [OF Tk_test] by blast
  next
    case Tk_gone
    then have "ts_owner x = Ow_join" using s o by (auto simp: stopping_def task_inv_def)
    then show ?thesis using owner_frees Tk_gone by blast
  qed (use s o stop in \<open>auto simp: stopping_def task_inv_def intro: task_calls task_leaves\<close>)
qed

lemma stopping_run: "(task_step True ^^ n) x y \<Longrightarrow> stopping x \<Longrightarrow> stopping y \<and> n + steps_left y \<le> steps_left x \<and> calls_ahead y \<le> calls_ahead x"
proof (induction n arbitrary: y)
  case (Suc n)
  from Suc.prems(1) obtain z where "(task_step True ^^ n) x z" "task_step True z y" by (rule relpowp_Suc_E)
  then show ?case using Suc.IH [of z] Suc.prems(2) stopping_step [of z y] by fastforce
qed simp

lemma stopping_ends: "stopping x \<Longrightarrow> \<exists>n y. (task_step True ^^ n) x y \<and> ts_owner y = Ow_freed"
proof (induction "steps_left x" arbitrary: x rule: less_induct)
  case less
  show ?case
  proof (cases "ts_owner x = Ow_freed")
    case True
    then show ?thesis by (intro exI [of _ 0]) auto
  next
    case False
    then obtain z where z: "task_step True x z" using stopping_moves less.prems by blast
    then obtain n y where "(task_step True ^^ n) z y" "ts_owner y = Ow_freed" using less.hyps [of z] stopping_step [OF z less.prems] by blast
    with z have "(task_step True ^^ Suc n) x y" by (blast intro: relpowp_Suc_I2)
    then show ?thesis using \<open>ts_owner y = Ow_freed\<close> by blast
  qed
qed

section \<open>Properties\<close>

text \<open>
  C39. A stop completes. In every reachable state in which the owner is in \<open>periodic_task_stop\<close>, the steps of the code alone, in whatever order and without
  the period or a wake-up from outside, come to an end after at most 15, and cannot get stuck before the thread has ended and everything is freed; meanwhile
  the function is called at most once more, and in the whole life of the task not more often than a wake-up was requested.
\<close>

theorem periodic_task_stop_completes:
  assumes "task_reach t x" and "ts_owner x = Ow_test \<or> ts_owner x = Ow_asleep \<or> ts_owner x = Ow_join"
  shows "(\<exists>n y. (task_step True ^^ n) x y \<and> ts_owner y = Ow_freed) \<and>
    (\<forall>n y. (task_step True ^^ n) x y \<longrightarrow> n \<le> 15 \<and> ((\<exists>z. task_step True y z) \<or> ts_owner y = Ow_freed \<and> ts_pc y = Tk_gone) \<and>
      ts_calls y \<le> ts_calls x + 1 \<and> ts_calls y \<le> ts_wakes y)"
proof (intro conjI allI impI)
  have s: "stopping x" using task_reach_inv [OF assms(1)] assms(2) by (auto simp: stopping_def)
  then show "\<exists>n y. (task_step True ^^ n) x y \<and> ts_owner y = Ow_freed" by (rule stopping_ends)
  fix n y
  assume "(task_step True ^^ n) x y"
  from stopping_run [OF this s] have y: "stopping y" "n + steps_left y \<le> steps_left x" "calls_ahead y \<le> calls_ahead x" by blast+
  show "n \<le> 15" using y(2) steps_left_bound [of x] by linarith
  show "(\<exists>z. task_step True y z) \<or> ts_owner y = Ow_freed \<and> ts_pc y = Tk_gone"
    using stopping_moves [OF y(1)] y(1) by (auto simp: stopping_def task_inv_def)
  show "ts_calls y \<le> ts_calls x + 1" using y(3) unfolding calls_ahead_def by (cases "ts_pc x = Tk_call"; cases "ts_pc y = Tk_call") simp_all
  show "ts_calls y \<le> ts_wakes y" using y(1) by (simp add: stopping_def task_inv_def)
qed

text \<open>A task that is stopped while its function runs after a wake-up.\<close>

theorem periodic_task_stop_completes_witness:
  "\<exists>t x n y. task_reach t x \<and> ts_pc x = Tk_call \<and> ts_owner x = Ow_test \<and> (task_step True ^^ n) x y \<and> ts_owner y = Ow_freed"
proof -
  let ?t = "\<lparr>tk_thread = 0, tk_mutex = 1, tk_wake_cond = 2, tk_done_cond = 3, tk_wake_requested = False, tk_done = False,
    tk_stop = False, tk_running = False, tk_msec = 100\<rparr>"
  have "task_reach ?t \<lparr>ts_task = ?t, ts_pc = Tk_none, ts_owner = Ow_new, ts_calls = 0, ts_wakes = 0\<rparr>"
    using task_start [of ?t] by (simp add: task_fresh_def)
  from task_next [OF this owner_starts]
  have "task_reach ?t \<lparr>ts_task = ?t\<lparr>tk_running := True\<rparr>, ts_pc = Tk_test, ts_owner = Ow_up, ts_calls = 0, ts_wakes = 0\<rparr>" by simp
  from task_next [OF this task_woken]
  have "task_reach ?t \<lparr>ts_task = ?t\<lparr>tk_running := True, tk_wake_requested := True\<rparr>, ts_pc = Tk_test, ts_owner = Ow_up, ts_calls = 0, ts_wakes = 1\<rparr>"
    by (simp add: periodic_task_wake_def signal_task_def)
  from task_next [OF this task_goes [where should_stop = False]]
  have "task_reach ?t \<lparr>ts_task = ?t\<lparr>tk_running := True\<rparr>, ts_pc = Tk_call, ts_owner = Ow_up, ts_calls = 0, ts_wakes = 1\<rparr>"
    by (simp add: thread_test_def)
  from task_next [OF this owner_stops]
  have x: "task_reach ?t \<lparr>ts_task = ?t\<lparr>tk_running := True, tk_stop := True\<rparr>, ts_pc = Tk_call, ts_owner = Ow_test, ts_calls = 0, ts_wakes = 1\<rparr>"
    (is "task_reach _ ?x") by (simp add: stop_request_def signal_task_def)
  have "ts_owner ?x = Ow_test \<or> ts_owner ?x = Ow_asleep \<or> ts_owner ?x = Ow_join" by simp
  from periodic_task_stop_completes [OF x this] obtain n y where "(task_step True ^^ n) ?x y" "ts_owner y = Ow_freed" by blast
  moreover have "ts_pc ?x = Tk_call" "ts_owner ?x = Ow_test" by simp_all
  ultimately show ?thesis using x by blast
qed

text \<open>The period alone never leads to a call.\<close>

lemma period_never_calls: "task_reach t x \<Longrightarrow> ts_wakes x = 0 \<Longrightarrow> ts_calls x = 0"
  using task_reach_inv [of t x] by (simp add: task_inv_def)

text \<open>A stop that comes before the start does nothing, so the mutex and the conditions of the initialised task are never freed.\<close>

lemma stop_before_start: "periodic_task_init pt t en w e = Some (c, t', en', w', e') \<Longrightarrow> periodic_task_stop pt await t' en2 w2 e2 = Some (SUCCESS, t', en2, w2, e2)"
  by (auto simp: periodic_task_init_def periodic_task_stop_def Let_def bind_Some_iff split: if_splits)

end
