(* ===== verification/Spec2Isabelle.thy ===== *)
theory Spec2Isabelle
  imports Cerror Osmem Cbuffer_queue Lalloc Chunk_alloc Alloc Malloc_plan Serializer Llist Stride Ext_array Block_store
    Rand Validator_sound Gr_lock_ok Robin_keyed Hash_table Latch Cbuffer_file Dbl_buffer Byte_stream Checksum Numbers
    Echo_server Periodic_task
begin

text \<open>
  A verification development for the C library \<^verbatim>\<open>c_specx\<close>.

  \<^bold>\<open>Conventions.\<close> A C function is a HOL function into \<open>'a option\<close>: \<open>None\<close> is a run that does
  not come back (a failed assertion, undefined behaviour or an endless loop); a run that comes
  back with an error code is an ordinary value that carries the code and the error object.
  Integers are words of the width they have in C. Memory objects are the lists of their bytes.
  The C library's allocator is a parameter (\<open>libc\<close>), with what the standard promises of it in
  \<open>libc_ok\<close>.

  \<^bold>\<open>Theories.\<close>
  \<^item> \<open>Prelude\<close>: words, the execution monad, byte memory.
  \<^item> \<open>Cerror\<close> (\<^verbatim>\<open>dev/error.c\<close>): the error object; the first cause wins.
  \<^item> \<open>Osmem\<close> (\<^verbatim>\<open>intf/os/memory.c\<close>, \<^verbatim>\<open>dev/bounds.h\<close>): heap wrappers, checked arithmetic.
  \<^item> \<open>Ring\<close>, \<open>Cbuffer\<close>, \<open>Byte_queue\<close>, \<open>Cbuffer_queue\<close> (\<^verbatim>\<open>ds/cbuffer.c\<close>): the circular buffer
    refines a FIFO byte queue (locale \<open>byte_queue\<close>).
  \<^item> \<open>Arena\<close>, \<open>Lalloc\<close>, \<open>Chunk_alloc\<close>, \<open>Alloc\<close>, \<open>Malloc_plan\<close> (\<^verbatim>\<open>memory/\<close>): the allocators meet the
    contract of an arena (locale \<open>arena\<close>), hence never grant a byte twice.
  \<^item> \<open>Serializer\<close> (\<^verbatim>\<open>memory/serializer.c\<close>, \<^verbatim>\<open>memory/deserializer.c\<close>): round trip, bounds.
  \<^item> \<open>Llist\<close> (\<^verbatim>\<open>ds/llist.h\<close>): pointer operations over a store of links refine list operations.
  \<^item> \<open>Stride\<close> (\<^verbatim>\<open>ds/stride.c\<close>): slices resolve as in Python.
  \<^item> \<open>Data_writer\<close>, \<open>Ext_array\<close> (\<^verbatim>\<open>ds/data_writer.h\<close>, \<^verbatim>\<open>ds/ext_array.c\<close>): the byte store
    contract (locale \<open>byte_store\<close>) and the growable array that implements it.
  \<^item> \<open>Slot_pool\<close>, \<open>Slab_alloc\<close> (\<^verbatim>\<open>memory/slab_alloc.c\<close>): slots of one size with free lists threaded
    through them; a client that gets, returns and overwrites slots never sees two overlap
    (locales \<open>slot_pool\<close>, \<open>ample_pool\<close>).
  \<^item> \<open>Block_array\<close> to \<open>Block_store\<close> (\<^verbatim>\<open>ds/block_array.c\<close>): a chain of slab slots implements the byte
    store contract, up to the panic of the code on a block that the heap refuses; one theory each for the definitions, insertion, strided access and removal.

  \<^item> \<open>Rand\<close> (\<^verbatim>\<open>core/random.c\<close>): draws over the C library's generator, which is a parameter; bounds
    of the ranges and the shuffle.
  \<^item> \<open>Data_validator\<close>, \<open>Store_pair\<close>, \<open>Validator\<close>, \<open>Validator_sound\<close> (\<^verbatim>\<open>dev/data_validator.c\<close>): the random test
    that compares two byte stores (locale \<open>store_pair\<close>). A test that returns \<open>SUCCESS\<close> certifies that the two answered
    alike; equal block arrays pass it on a heap that refuses nothing.
  \<^item> \<open>Gr_lock\<close>, \<open>Gr_lock_ok\<close> (\<^verbatim>\<open>concurrency/gr_lock.c\<close>): the granular lock as atomic sections under
    its mutex, interleaved by a step relation; compatible grants and no lost wake-up (locale \<open>grant_group\<close>).
  \<^item> \<open>Robin_hood\<close>, \<open>Robin_hood_ok\<close>, \<open>Value_table\<close>, \<open>Robin_hood_set\<close>, \<open>Robin_keyed\<close>
    (\<^verbatim>\<open>ds/robin_hood_manual_ht.h\<close>, \<^verbatim>\<open>ds/robin_hood_ht.h\<close>): open addressing with displaced entries
    answers as a finite set or map (locales \<open>value_table\<close>, \<open>hashed\<close>); the keyed table simulates the other.
  \<^item> \<open>Hash_table\<close> (\<^verbatim>\<open>ds/hash_table.c\<close>): chains of intrusive nodes refine one list.
  \<^item> \<open>Latch\<close> (\<^verbatim>\<open>concurrency/latch.h\<close>, \<^verbatim>\<open>concurrency/spx_latch.h\<close>): spin latches, one atomic access at a
    time, any number of threads (locale \<open>latch_word\<close>); exclusion and freedom from deadlock.
  \<^item> \<open>Posix\<close>, \<open>Posix_io\<close> (\<^verbatim>\<open>intf/os_posix/file.c\<close>): the file layer over system calls, which are a
    parameter, and the laws of a regular file it is used on; round trip whatever the transfer sizes, interrupts included.
  \<^item> \<open>Cbuffer_file\<close> (\<^verbatim>\<open>ds/cbuffer.c\<close>): transfers between the circular buffer and a file.
  \<^item> \<open>Dbl_buffer\<close> (\<^verbatim>\<open>ds/dbl_buffer.c\<close>): the doubling buffer.
  \<^item> \<open>Byte_stream\<close> (\<^verbatim>\<open>ds/stream.c\<close>): the kinds of stream, and the copy from any source to any sink
    (locales \<open>stream_source\<close>, \<open>stream_sink\<close>, \<open>stream_copy\<close>).
  \<^item> \<open>Cstring\<close> (\<^verbatim>\<open>ds/string.c\<close>, \<^verbatim>\<open>core/filenames.c\<close>): length-prefixed strings against their lists of bytes:
    lexicographic order, containment, arrays of strings, concatenation in the linear allocator.
  \<^item> \<open>Checksum\<close> (\<^verbatim>\<open>core/checksums.c\<close>, \<^verbatim>\<open>core/hashing.c\<close>): the table-driven CRC-32C against the register that shifts bit
    by bit, and the bursts it detects; the hash.
  \<^item> \<open>Numbers\<close> (\<^verbatim>\<open>core/numbers.c\<close>, \<^verbatim>\<open>core/math.c\<close>, \<^verbatim>\<open>dev/bounds.h\<close>): integer parsing, the modulus, checked
    arithmetic, and the conversion of half precision floats as bit patterns.
  \<^item> \<open>Socket\<close> (\<^verbatim>\<open>intf/os_posix/socket.c\<close>, \<^verbatim>\<open>net/client.c\<close>): sockets over system calls, which are a parameter, with the
    promises of a byte stream in \<open>net_law\<close>; the client that sends and reads frames.
  \<^item> \<open>Polling_server\<close> (\<^verbatim>\<open>net/polling_server.c\<close>): the loop that polls, and the table of its connections
    (locale \<open>conn_service\<close>).
  \<^item> \<open>Echo_server\<close> (\<^verbatim>\<open>net/echo_server.c\<close>): the service, in every course of calls, reads and writes, against the
    replies to the requests in the stream of bytes that comes in.
  \<^item> \<open>Pthread\<close> (\<^verbatim>\<open>intf/os_posix/\<close> mutex, cond, rwlock, thread, timer): the wrappers over the library of threads, which
    is a parameter, their failures, deadlines and elapsed times.
  \<^item> \<open>Semaphore\<close>, \<open>Periodic_task\<close> (\<^verbatim>\<open>intf/os_posix/semaphore.c\<close>, \<^verbatim>\<open>concurrency/periodic_task.c\<close>): atomic sections
    under a mutex, interleaved by step relations; conservation, no lost wake-up, the stop completes.

  \<^bold>\<open>Bounds.\<close> Where the code adds or multiplies 32-bit sizes without a check, a property assumes
  that the sum fits, and a separate property shows what happens when it does not. Loops are
  partial functions; that they return is part of each property.

  \<^bold>\<open>Not modelled.\<close> The Windows variant of the operating system layer, which implements the interfaces modelled for POSIX a second time over
  another system, and logging. Floating point arithmetic (\<^verbatim>\<open>parse_f32_expect\<close>, \<^verbatim>\<open>py_mod_f32\<close>, the float checks of
  \<^verbatim>\<open>dev/bounds.h\<close>): it rests on the rounding of the machine. The latches guarding the allocators and tables are taken by one
  thread only in their theories; the interleavings are treated where the latches are.
\<close>

end
